(* ===== verification/Prelude.thy ===== *)
theory Prelude
  imports Main "HOL-Library.Word" "HOL-Library.List_Lexorder"
begin

text \<open>
  Shared vocabulary of the development: the machine integers of the source (\<open>u8\<close>, \<open>u64\<close>,
  and \<open>usize\<close>, which is 64 bits wide on every supported target), byte strings ordered
  lexicographically as Rust orders slices, the checked and saturating operations of the
  standard library, fallible results as sums with their bind, and the lemmas about words and
  strictly sorted lists that the components share.

  Arithmetic operators of the source (\<open>+\<close>, \<open>-\<close>, \<open>*\<close> on \<open>u64\<close>) are the wrapping operators of
  type \<open>64 word\<close>: this is the semantics of a release build, in which overflow does not panic.
\<close>

type_synonym u8 = "8 word"
type_synonym u64 = "64 word"
type_synonym usize = "64 word"
type_synonym bytes = "u8 list"

text \<open>Collections of rewrite rules used across the components.\<close>

named_theorems u64_simps \<open>moving 64-bit arithmetic to natural numbers\<close>
named_theorems range_simps \<open>membership in the results of range set operations\<close>

section \<open>Operations of the standard library on \<open>u64\<close>\<close>

definition u64_max :: u64 where
  "u64_max = - 1"

definition checked_add_u64 :: "u64 \<Rightarrow> u64 \<Rightarrow> u64 option" where
  "checked_add_u64 a b = (if unat a + unat b < 2 ^ 64 then Some (a + b) else None)"

definition checked_mul_u64 :: "u64 \<Rightarrow> u64 \<Rightarrow> u64 option" where
  "checked_mul_u64 a b = (if unat a * unat b < 2 ^ 64 then Some (a * b) else None)"

definition saturating_sub_u64 :: "u64 \<Rightarrow> u64 \<Rightarrow> u64" where
  "saturating_sub_u64 a b = (if a < b then 0 else a - b)"

lemma unat_u64_lt: "unat (x :: u64) < 18446744073709551616"
  using unsigned_less [of x, where ?'a = nat] by simp

lemma unat_u64_max [u64_simps]: "unat u64_max = 2 ^ 64 - 1"
proof -
  have "unat (- 1 :: u64) = nat (uint (- 1 :: u64))" by (rule unat_eq_nat_uint)
  then show ?thesis by (simp add: u64_max_def uint_word_ariths)
qed

lemma le_u64_max [simp]: "x \<le> u64_max"
  by (simp add: u64_max_def)

lemma unat_of_nat_u64 [u64_simps]: "n < 2 ^ 64 \<Longrightarrow> unat (of_nat n :: u64) = n"
  by (simp add: unat_of_nat take_bit_nat_eq_self)

lemma unat_add_u64 [u64_simps]:
  "unat (a :: u64) + unat b < 2 ^ 64 \<Longrightarrow> unat (a + b) = unat a + unat b"
  using unat_add_lem [of a b] by simp

lemma unat_Suc_u64 [u64_simps]: "x \<noteq> u64_max \<Longrightarrow> unat (x + 1) = Suc (unat x)"
proof -
  assume "x \<noteq> u64_max"
  then have "unat x \<noteq> unat u64_max" by (simp add: word_unat_eq_iff)
  then have "unat x + unat (1 :: u64) < 2 ^ LENGTH(64)"
    using unat_u64_lt [of x] by (simp add: unat_u64_max)
  then have "unat (x + 1) = unat x + unat (1 :: u64)" by (rule unat_add_lem [THEN iffD1])
  then show ?thesis by simp
qed

lemma unat_sub_u64 [u64_simps]: "(b :: u64) \<le> a \<Longrightarrow> unat (a - b) = unat a - unat b"
  by (simp add: unat_sub)

lemma of_nat_less_u64 [u64_simps]:
  "m < 2 ^ 64 \<Longrightarrow> n < 2 ^ 64 \<Longrightarrow> (of_nat m :: u64) < of_nat n \<longleftrightarrow> m < n"
  by (simp add: word_less_nat_alt unat_of_nat_u64)

lemma of_nat_le_u64 [u64_simps]:
  "m < 2 ^ 64 \<Longrightarrow> n < 2 ^ 64 \<Longrightarrow> (of_nat m :: u64) \<le> of_nat n \<longleftrightarrow> m \<le> n"
  by (simp add: word_le_nat_alt unat_of_nat_u64)

lemma checked_add_u64_Some:
  "checked_add_u64 a b = Some c \<Longrightarrow> unat c = unat a + unat b"
  by (auto simp: checked_add_u64_def unat_add_u64 split: if_splits)

lemma checked_add_u64_None_iff:
  "checked_add_u64 a b = None \<longleftrightarrow> 2 ^ 64 \<le> unat a + unat b"
  by (auto simp: checked_add_u64_def)

lemma checked_add_1_None [simp]: "checked_add_u64 a 1 = None \<longleftrightarrow> a = u64_max"
proof -
  have "checked_add_u64 a 1 = None \<longleftrightarrow> unat a = unat u64_max"
    using unat_u64_lt [of a] by (auto simp: checked_add_u64_None_iff unat_u64_max)
  then show ?thesis by (simp add: word_unat_eq_iff)
qed

lemma checked_add_1_Some_iff:
  "checked_add_u64 a 1 = Some b \<longleftrightarrow> a \<noteq> u64_max \<and> b = a + 1"
  by (metis checked_add_1_None checked_add_u64_def option.inject option.distinct(1))

lemma checked_add_1_Some: "a \<noteq> u64_max \<Longrightarrow> checked_add_u64 a 1 = Some (a + 1)"
  by (simp add: checked_add_1_Some_iff)

lemma unat_pos_u64: "(n :: u64) \<noteq> 0 \<Longrightarrow> 0 < unat n"
  by (simp add: unat_gt_0)

lemma unat_saturating_sub [u64_simps]:
  "unat (saturating_sub_u64 a b) = unat a - unat b"
  by (simp add: saturating_sub_u64_def unat_sub_u64 word_less_nat_alt not_less word_le_nat_alt)

section \<open>Fallible results\<close>

text \<open>A \<open>Result\<close> of the source is \<open>'e + 'a\<close>; the operator \<open>?\<close> is \<open>rbind\<close>.\<close>

fun rbind :: "'e + 'a \<Rightarrow> ('a \<Rightarrow> 'e + 'b) \<Rightarrow> 'e + 'b" where
  "rbind (Inl e) f = Inl e"
| "rbind (Inr x) f = f x"

lemma rbind_Inr_iff: "rbind r f = Inr y \<longleftrightarrow> (\<exists>x. r = Inr x \<and> f x = Inr y)"
  by (cases r) auto

lemma rbind_Inl_iff:
  "rbind r f = Inl e \<longleftrightarrow> r = Inl e \<or> (\<exists>x. r = Inr x \<and> f x = Inl e)"
  by (cases r) auto

definition is_ok :: "'e + 'a \<Rightarrow> bool" where
  "is_ok r = (case r of Inl _ \<Rightarrow> False | Inr _ \<Rightarrow> True)"

lemma is_ok_simps [simp]: "is_ok (Inr x)" "\<not> is_ok (Inl e)"
  by (simp_all add: is_ok_def)

section \<open>Lists\<close>

lemma sorted_wrt_less_Cons_iff:
  fixes x :: "'a :: linorder"
  shows "sorted_wrt (<) (x # xs) \<longleftrightarrow> sorted_wrt (<) xs \<and> (\<forall>y\<in>set xs. x < y)"
  by auto

lemma last_filter_snoc: "P x \<Longrightarrow> last (filter P (xs @ [x])) = x"
  by simp

section \<open>Little-endian numbers\<close>

definition to_le_bytes :: "u64 \<Rightarrow> bytes" where
  "to_le_bytes x = map (\<lambda>k. of_nat (unat x div 256 ^ k)) [0..<8]"

definition from_le_bytes :: "bytes \<Rightarrow> u64" where
  "from_le_bytes bs = of_nat (horner_sum unat 256 bs)"

definition le_digits :: "nat \<Rightarrow> nat \<Rightarrow> bytes" where
  "le_digits n x = map (\<lambda>k. of_nat (x div 256 ^ k)) [0..<n]"

lemma horner_le_digits: "horner_sum unat 256 (le_digits n x) = x mod 256 ^ n"
proof (induction n)
  case (Suc n)
  have u: "unat (of_nat m :: u8) = m mod 256" for m by (simp add: unat_of_nat)
  have "x mod 256 ^ Suc n = 256 ^ n * (x div 256 ^ n mod 256) + x mod 256 ^ n"
    by (simp only: power_Suc2 mod_mult2_eq)
  with Suc u show ?case by (simp add: le_digits_def horner_sum_append)
qed (simp add: le_digits_def)

lemma le_bytes_round_trip: "from_le_bytes (to_le_bytes x) = x" "length (to_le_bytes x) = 8"
proof -
  have "to_le_bytes x = le_digits 8 (unat x)" by (simp add: to_le_bytes_def le_digits_def)
  then have "horner_sum unat 256 (to_le_bytes x) = unat x mod 256 ^ 8" by (simp only: horner_le_digits)
  also have "\<dots> = unat x" using unat_u64_lt [of x] by simp
  finally show "from_le_bytes (to_le_bytes x) = x" by (simp add: from_le_bytes_def)
qed (simp add: to_le_bytes_def)

lemma le_digits_inject: "x < 256 ^ n \<Longrightarrow> y < 256 ^ n \<Longrightarrow> le_digits n x = le_digits n y \<Longrightarrow> x = y"
  using horner_le_digits [of n x] horner_le_digits [of n y] by (metis mod_less)

end
