(* ===== verification/Range_Set.thy ===== *)
theory Range_Set
  imports Prelude
begin

text \<open>
  The interface of the range sets the program computes with. \<open>ChunkRanges\<close> is
  \<open>RangeSet2<ChunkNum>\<close> of the crates \<open>bao-tree\<close> and \<open>range-collections\<close>, which are not part
  of the repository: their operations are a parameter of the model, a record of type
  \<open>'r range_ops\<close>, and the locale \<open>range_set\<close> states what those crates document of them. A range
  set is a set of 64-bit numbers, stored as its strictly increasing list of boundaries
  (\<open>boundaries()\<close>), on which equality is decided; the operations are the set operations.

  The second part gives a complete implementation on boundary lists (type \<open>rset\<close>, sweeping two
  boundary lists at once) and proves that it satisfies every law, so that the theorems of the
  other components, stated for an arbitrary \<open>R\<close> with \<open>range_set R\<close>, have instances that compute.
\<close>

section \<open>Boundary lists\<close>

text \<open>
  Membership of a number in the set with the given boundaries: the state \<open>on\<close> flips at every
  boundary.
\<close>

fun on_at :: "bool \<Rightarrow> u64 list \<Rightarrow> u64 \<Rightarrow> bool" where
  "on_at on [] x = on"
| "on_at on (b # bs) x = (if x < b then on else on_at (\<not> on) bs x)"

lemma on_at_below: "\<forall>b\<in>set bs. x < b \<Longrightarrow> on_at on bs x = on"
  by (cases bs) auto

lemma on_at_neg: "on_at (\<not> on) bs x = (\<not> on_at on bs x)"
  by (induction bs arbitrary: on) auto

lemma on_at_ext:
  assumes "sorted_wrt (<) bs" "sorted_wrt (<) cs" "\<And>x. on_at on bs x = on_at on cs x"
  shows "bs = cs"
  using assms
proof (induction bs arbitrary: on cs)
  case Nil
  show ?case
  proof (cases cs)
    case (Cons c cs')
    with Nil.prems(2) have "on_at on cs c = (\<not> on)" by (auto simp: on_at_below)
    with Nil.prems(3) [of c] show ?thesis by simp
  qed simp
next
  case (Cons b bs)
  from Cons.prems(1) have b: "on_at on (b # bs) b = (\<not> on)" by (auto simp: on_at_below)
  show ?case
  proof (cases cs)
    case Nil
    with b Cons.prems(3) [of b] show ?thesis by simp
  next
    case (Cons c cs')
    from Cons.prems(2) Cons have c: "on_at on cs c = (\<not> on)" by (auto simp: on_at_below)
    have "b = c"
    proof (rule ccontr)
      assume "b \<noteq> c"
      then consider "b < c" | "c < b" by force
      then show False
        using b c Cons Cons.prems(3) [of b] Cons.prems(3) [of c] by cases auto
    qed
    moreover have "bs = cs'"
    proof (rule Cons.IH)
      show "sorted_wrt (<) bs" "sorted_wrt (<) cs'" using Cons.prems Cons by auto
      fix x
      show "on_at (\<not> on) bs x = on_at (\<not> on) cs' x"
      proof (cases "x < b")
        case True
        then have "\<forall>y\<in>set bs. x < y" "\<forall>y\<in>set cs'. x < y"
          using Cons.prems Cons \<open>b = c\<close> by force+
        then show ?thesis by (simp add: on_at_below)
      next
        case False
        with Cons.prems(3) [of x] Cons \<open>b = c\<close> show ?thesis by simp
      qed
    qed
    ultimately show ?thesis using Cons by simp
  qed
qed

section \<open>The interface\<close>

text \<open>The items of \<open>RangeSetRef::iter\<close>: a bounded or a half-open range.\<close>

datatype range_item = Range u64 u64 | RangeFrom u64

fun items_of :: "u64 list \<Rightarrow> range_item list" where
  "items_of [] = []"
| "items_of [a] = [RangeFrom a]"
| "items_of (a # b # bs) = Range a b # items_of bs"

fun item_has :: "range_item \<Rightarrow> u64 \<Rightarrow> bool" where
  "item_has (Range a b) x = (a \<le> x \<and> x < b)"
| "item_has (RangeFrom a) x = (a \<le> x)"

lemma items_of_has:
  "sorted_wrt (<) bs \<Longrightarrow> (\<exists>it\<in>set (items_of bs). item_has it x) \<longleftrightarrow> on_at False bs x"
proof (induction bs rule: items_of.induct)
  case (3 a b bs)
  then have less: "a < b" "\<forall>v\<in>set bs. b < v" and IH:
    "(\<exists>it\<in>set (items_of bs). item_has it x) \<longleftrightarrow> on_at False bs x" by auto
  show ?case
  proof (cases "x < b")
    case True
    with less have "\<forall>v\<in>set bs. x < v" by force
    then have "\<not> on_at False bs x" by (simp add: on_at_below)
    with True IH show ?thesis by (auto simp: not_less)
  next
    case False
    with less IH show ?thesis by auto
  qed
qed auto

record 'r range_ops =
  rs_empty :: 'r
  rs_all :: 'r
  rs_range :: "u64 \<Rightarrow> u64 \<Rightarrow> 'r"
  rs_from :: "u64 \<Rightarrow> 'r"
  rs_to :: "u64 \<Rightarrow> 'r"
  rs_union :: "'r \<Rightarrow> 'r \<Rightarrow> 'r"
  rs_inter :: "'r \<Rightarrow> 'r \<Rightarrow> 'r"
  rs_diff :: "'r \<Rightarrow> 'r \<Rightarrow> 'r"
  rs_xor :: "'r \<Rightarrow> 'r \<Rightarrow> 'r"
  rs_contains :: "'r \<Rightarrow> u64 \<Rightarrow> bool"
  rs_boundaries :: "'r \<Rightarrow> u64 list"
  rs_new :: "u64 list \<Rightarrow> 'r option"
  rs_iter :: "'r \<Rightarrow> range_item list"
  rs_is_empty :: "'r \<Rightarrow> bool"
  rs_is_all :: "'r \<Rightarrow> bool"
  rs_is_subset :: "'r \<Rightarrow> 'r \<Rightarrow> bool"

locale range_set =
  fixes R :: "'r range_ops"
  assumes contains_boundaries: "rs_contains R r x = on_at False (rs_boundaries R r) x"
    and sorted_boundaries: "sorted_wrt (<) (rs_boundaries R r)"
    and boundaries_inject: "rs_boundaries R r = rs_boundaries R s \<Longrightarrow> r = s"
    and new_None: "rs_new R bs = None \<longleftrightarrow> \<not> sorted_wrt (<) bs"
    and new_Some: "rs_new R bs = Some r \<Longrightarrow> rs_boundaries R r = bs"
    and iter_items: "rs_iter R r = items_of (rs_boundaries R r)"
    and contains_empty: "\<not> rs_contains R (rs_empty R) x"
    and contains_all: "rs_contains R (rs_all R) x"
    and contains_range: "rs_contains R (rs_range R a b) x \<longleftrightarrow> a \<le> x \<and> x < b"
    and contains_from: "rs_contains R (rs_from R a) x \<longleftrightarrow> a \<le> x"
    and contains_to: "rs_contains R (rs_to R b) x \<longleftrightarrow> x < b"
    and contains_union:
      "rs_contains R (rs_union R r s) x \<longleftrightarrow> rs_contains R r x \<or> rs_contains R s x"
    and contains_inter:
      "rs_contains R (rs_inter R r s) x \<longleftrightarrow> rs_contains R r x \<and> rs_contains R s x"
    and contains_diff:
      "rs_contains R (rs_diff R r s) x \<longleftrightarrow> rs_contains R r x \<and> \<not> rs_contains R s x"
    and contains_xor:
      "rs_contains R (rs_xor R r s) x \<longleftrightarrow> rs_contains R r x \<noteq> rs_contains R s x"
    and is_empty_iff: "rs_is_empty R r \<longleftrightarrow> r = rs_empty R"
    and is_all_iff: "rs_is_all R r \<longleftrightarrow> r = rs_all R"
    and is_subset_iff:
      "rs_is_subset R r s \<longleftrightarrow> (\<forall>x. rs_contains R r x \<longrightarrow> rs_contains R s x)"
begin

lemmas contains_simps [range_simps] =
  contains_empty contains_all contains_range contains_from contains_to
  contains_union contains_inter contains_diff contains_xor

lemma contains_iter: "rs_contains R r x \<longleftrightarrow> (\<exists>it\<in>set (rs_iter R r). item_has it x)"
  by (simp add: iter_items contains_boundaries items_of_has sorted_boundaries)

lemma rs_ext:
  assumes "\<And>x. rs_contains R r x = rs_contains R s x"
  shows "r = s"
proof (rule boundaries_inject)
  show "rs_boundaries R r = rs_boundaries R s"
    using assms
    by (intro on_at_ext [where on = False] sorted_boundaries) (simp add: contains_boundaries)
qed

lemma rs_eq_iff: "r = s \<longleftrightarrow> (\<forall>x. rs_contains R r x = rs_contains R s x)"
  using rs_ext by blast

lemma boundaries_eqI:
  assumes "sorted_wrt (<) bs" "\<And>x. rs_contains R r x = on_at False bs x"
  shows "rs_boundaries R r = bs"
  using assms
  by (intro on_at_ext [where on = False] sorted_boundaries) (simp_all add: contains_boundaries)

lemma boundaries_empty [simp]: "rs_boundaries R (rs_empty R) = []"
  by (rule boundaries_eqI) (simp_all add: contains_simps)

lemma boundaries_all [simp]: "rs_boundaries R (rs_all R) = [0]"
  by (rule boundaries_eqI) (simp_all add: contains_simps)

lemma boundaries_from [simp]: "rs_boundaries R (rs_from R a) = [a]"
  by (rule boundaries_eqI) (auto simp: contains_simps)

lemma boundaries_range: "a < b \<Longrightarrow> rs_boundaries R (rs_range R a b) = [a, b]"
  by (rule boundaries_eqI) (auto simp: contains_simps)

lemma boundaries_Nil_iff: "rs_boundaries R r = [] \<longleftrightarrow> r = rs_empty R"
  by (metis boundaries_empty boundaries_inject)

lemma boundaries_0_iff: "rs_boundaries R r = [0] \<longleftrightarrow> r = rs_all R"
  by (metis boundaries_all boundaries_inject)

lemma new_boundaries: "rs_new R (rs_boundaries R r) = Some r"
  by (metis new_None new_Some not_None_eq sorted_boundaries boundaries_inject)

lemma empty_neq_all [simp]: "rs_empty R \<noteq> rs_all R" "rs_all R \<noteq> rs_empty R"
  by (auto simp: rs_eq_iff contains_simps)

lemma from_neq_empty [simp]: "rs_from R a \<noteq> rs_empty R"
  by (auto simp: rs_eq_iff contains_simps)

lemma union_empty [simp]:
  "rs_union R r (rs_empty R) = r" "rs_union R (rs_empty R) r = r"
  by (simp_all add: rs_eq_iff contains_simps)

lemma union_assoc: "rs_union R (rs_union R r s) t = rs_union R r (rs_union R s t)"
  by (simp add: rs_eq_iff contains_simps)

lemma union_comm: "rs_union R r s = rs_union R s r"
  by (auto simp: rs_eq_iff contains_simps)

lemma union_idem [simp]: "rs_union R r r = r"
  by (simp add: rs_eq_iff contains_simps)

lemma union_eq_empty_iff: "rs_union R r s = rs_empty R \<longleftrightarrow> r = rs_empty R \<and> s = rs_empty R"
  by (auto simp: rs_eq_iff contains_simps)

lemma union_absorb:
  "rs_is_subset R s r \<Longrightarrow> rs_union R r s = r"
  by (auto simp: rs_eq_iff is_subset_iff contains_simps)

end

section \<open>A reference implementation on boundary lists\<close>

text \<open>
  \<open>sweep f a b xs ys\<close> merges two boundary lists, with \<open>a\<close> and \<open>b\<close> the current states of the
  two sets, and emits a boundary wherever the combined state changes.
\<close>

definition emit :: "bool \<Rightarrow> bool \<Rightarrow> u64 \<Rightarrow> u64 list \<Rightarrow> u64 list" where
  "emit c c' x zs = (if c = c' then zs else x # zs)"

fun sweep ::
  "(bool \<Rightarrow> bool \<Rightarrow> bool) \<Rightarrow> bool \<Rightarrow> bool \<Rightarrow> u64 list \<Rightarrow> u64 list \<Rightarrow> u64 list" where
  "sweep f a b [] [] = []"
| "sweep f a b (x # xs) [] = emit (f a b) (f (\<not> a) b) x (sweep f (\<not> a) b xs [])"
| "sweep f a b [] (y # ys) = emit (f a b) (f a (\<not> b)) y (sweep f a (\<not> b) [] ys)"
| "sweep f a b (x # xs) (y # ys) =
     (if x < y then emit (f a b) (f (\<not> a) b) x (sweep f (\<not> a) b xs (y # ys))
      else if y < x then emit (f a b) (f a (\<not> b)) y (sweep f a (\<not> b) (x # xs) ys)
      else emit (f a b) (f (\<not> a) (\<not> b)) x (sweep f (\<not> a) (\<not> b) xs ys))"

lemma set_emit: "set (emit c c' x zs) \<subseteq> insert x (set zs)"
  by (auto simp: emit_def)

lemma sorted_emit:
  "sorted_wrt (<) zs \<Longrightarrow> \<forall>v\<in>set zs. x < v \<Longrightarrow> sorted_wrt (<) (emit c c' x zs)"
  by (simp add: emit_def)

lemma on_at_emit:
  assumes "\<forall>v\<in>set zs. x < v"
  shows "on_at c (emit c c' x zs) z = (if z < x then c else on_at c' zs z)"
proof (cases "z < x")
  case True
  with assms have "\<forall>v\<in>set zs. z < v" by force
  with True show ?thesis by (simp add: emit_def on_at_below)
next
  case False
  then show ?thesis by (cases c; cases c') (simp_all add: emit_def)
qed

lemma set_sweep: "set (sweep f a b xs ys) \<subseteq> set xs \<union> set ys"
  by (induction f a b xs ys rule: sweep.induct) (auto dest!: set_emit [THEN subsetD])

lemma sweep_above:
  "\<forall>v\<in>set xs. z < v \<Longrightarrow> \<forall>v\<in>set ys. z < v \<Longrightarrow> \<forall>v\<in>set (sweep f a b xs ys). z < v"
  using set_sweep [of f a b xs ys] by blast

lemma sweep_above_elem:
  "v \<in> set (sweep f a b xs ys) \<Longrightarrow> (\<And>w. w \<in> set xs \<Longrightarrow> z < w) \<Longrightarrow> (\<And>w. w \<in> set ys \<Longrightarrow> z < w) \<Longrightarrow>
   z < v"
  using set_sweep [of f a b xs ys] by blast

lemma sorted_sweep:
  "sorted_wrt (<) xs \<Longrightarrow> sorted_wrt (<) ys \<Longrightarrow> sorted_wrt (<) (sweep f a b xs ys)"
proof (induction f a b xs ys rule: sweep.induct)
  case (4 f a b x xs y ys)
  consider "x < y" | "y < x" | "x = y" by force
  then show ?case
    using 4 by cases (auto intro!: sorted_emit elim!: sweep_above_elem dest: less_trans)
qed (auto intro!: sorted_emit elim!: sweep_above_elem)

lemma on_at_sweep:
  "sorted_wrt (<) xs \<Longrightarrow> sorted_wrt (<) ys \<Longrightarrow>
   on_at (f a b) (sweep f a b xs ys) z = f (on_at a xs z) (on_at b ys z)"
proof (induction f a b xs ys rule: sweep.induct)
  case (4 f a b x xs y ys)
  consider "x < y" | "y < x" | "x = y" by force
  then show ?case
  proof cases
    case 1
    with "4.prems" have "\<forall>v\<in>set (sweep f (\<not> a) b xs (y # ys)). x < v"
      by (intro sweep_above) auto
    with 1 "4.IH"(1) "4.prems" show ?thesis by (auto simp: on_at_emit)
  next
    case 2
    with "4.prems" have "\<forall>v\<in>set (sweep f a (\<not> b) (x # xs) ys). y < v"
      by (intro sweep_above) auto
    with 2 "4.IH"(2) "4.prems" show ?thesis by (auto simp: on_at_emit)
  next
    case 3
    with "4.prems" have "\<forall>v\<in>set (sweep f (\<not> a) (\<not> b) xs ys). x < v"
      by (intro sweep_above) auto
    with 3 "4.IH"(3) "4.prems" show ?thesis by (auto simp: on_at_emit)
  qed
next
  case (2 f a b x xs)
  then have "\<forall>v\<in>set (sweep f (\<not> a) b xs []). x < v" by (intro sweep_above) auto
  with 2 show ?case by (auto simp: on_at_emit)
next
  case (3 f a b y ys)
  then have "\<forall>v\<in>set (sweep f a (\<not> b) [] ys). y < v" by (intro sweep_above) auto
  with 3 show ?case by (auto simp: on_at_emit)
qed simp

typedef rset = "{bs :: u64 list. sorted_wrt (<) bs}"
  morphisms boundaries_of Rset
  by (rule exI [of _ "[]"]) simp

lemma Rset_boundaries_of [code abstype]: "Rset (boundaries_of r) = r"
  by (rule boundaries_of_inverse)

instantiation rset :: equal
begin

definition equal_rset :: "rset \<Rightarrow> rset \<Rightarrow> bool" where
  "equal_rset r s \<longleftrightarrow> boundaries_of r = boundaries_of s"

instance
  by standard (simp add: equal_rset_def boundaries_of_inject)

end

definition rset_empty :: rset where
  "rset_empty = Rset []"

definition rset_from :: "u64 \<Rightarrow> rset" where
  "rset_from a = Rset [a]"

definition rset_range :: "u64 \<Rightarrow> u64 \<Rightarrow> rset" where
  "rset_range a b = Rset (if a < b then [a, b] else [])"

definition rset_combine :: "(bool \<Rightarrow> bool \<Rightarrow> bool) \<Rightarrow> rset \<Rightarrow> rset \<Rightarrow> rset" where
  "rset_combine f r s = Rset (sweep f False False (boundaries_of r) (boundaries_of s))"

definition rset_new :: "u64 list \<Rightarrow> rset option" where
  "rset_new bs = (if sorted_wrt (<) bs then Some (Rset bs) else None)"

definition ref_ops :: "rset range_ops" where
  "ref_ops =
     \<lparr>rs_empty = rset_empty,
      rs_all = rset_from 0,
      rs_range = rset_range,
      rs_from = rset_from,
      rs_to = (\<lambda>b. rset_range 0 b),
      rs_union = rset_combine (\<or>),
      rs_inter = rset_combine (\<and>),
      rs_diff = rset_combine (\<lambda>a b. a \<and> \<not> b),
      rs_xor = rset_combine (\<noteq>),
      rs_contains = (\<lambda>r. on_at False (boundaries_of r)),
      rs_boundaries = boundaries_of,
      rs_new = rset_new,
      rs_iter = (\<lambda>r. items_of (boundaries_of r)),
      rs_is_empty = (\<lambda>r. boundaries_of r = []),
      rs_is_all = (\<lambda>r. boundaries_of r = [0]),
      rs_is_subset = (\<lambda>r s. boundaries_of (rset_combine (\<lambda>a b. a \<and> \<not> b) r s) = [])\<rparr>"

lemma sorted_boundaries_of: "sorted_wrt (<) (boundaries_of r)"
  using boundaries_of [of r] by simp

lemma boundaries_of_rset_empty [code abstract]: "boundaries_of rset_empty = []"
  by (simp add: rset_empty_def Rset_inverse)

lemma boundaries_of_rset_from [code abstract]: "boundaries_of (rset_from a) = [a]"
  by (simp add: rset_from_def Rset_inverse)

lemma boundaries_of_rset_range [code abstract]:
  "boundaries_of (rset_range a b) = (if a < b then [a, b] else [])"
  by (simp add: rset_range_def Rset_inverse)

lemma boundaries_of_rset_combine [code abstract]:
  "boundaries_of (rset_combine f r s) = sweep f False False (boundaries_of r) (boundaries_of s)"
  by (simp add: rset_combine_def Rset_inverse sorted_sweep sorted_boundaries_of)

lemmas rset_rep_eqs =
  boundaries_of_rset_empty boundaries_of_rset_from boundaries_of_rset_range

lemma on_at_rset_combine:
  assumes "\<not> f False False"
  shows "on_at False (boundaries_of (rset_combine f r s)) x =
    f (on_at False (boundaries_of r) x) (on_at False (boundaries_of s) x)"
  using on_at_sweep [OF sorted_boundaries_of sorted_boundaries_of, of f False False r s x] assms
  by (simp add: boundaries_of_rset_combine)

lemma boundaries_of_Nil_iff: "boundaries_of r = [] \<longleftrightarrow> (\<forall>x. \<not> on_at False (boundaries_of r) x)"
proof
  assume "\<forall>x. \<not> on_at False (boundaries_of r) x"
  then show "boundaries_of r = []"
    by (intro on_at_ext [where on = False] sorted_boundaries_of) simp_all
qed simp

interpretation ref: range_set ref_ops
proof (unfold_locales, goal_cases)
  case (2 r) show ?case by (simp add: ref_ops_def sorted_boundaries_of)
next
  case (3 r s) then show ?case by (simp add: ref_ops_def boundaries_of_inject)
next
  case (5 bs r) then show ?case
    by (auto simp: ref_ops_def rset_new_def Rset_inverse split: if_splits)
next
  case (11 b x) show ?case
    using le_less_trans [OF word_zero_le, of x b] by (auto simp: ref_ops_def rset_rep_eqs)
next
  case (16 r) show ?case
    by (simp add: ref_ops_def rset_rep_eqs flip: boundaries_of_inject)
next
  case (17 r) show ?case
    by (simp add: ref_ops_def rset_rep_eqs flip: boundaries_of_inject)
next
  case (18 r s) show ?case
    unfolding ref_ops_def
    by (simp add: boundaries_of_Nil_iff [of "rset_combine _ _ _"] on_at_rset_combine)
qed (auto simp: ref_ops_def rset_new_def rset_rep_eqs on_at_rset_combine)

end
