(* ===== verification/Chunks.thy ===== *)
theory Chunks
  imports Range_Set
begin

text \<open>
  Chunk numbers and the construction of chunk ranges from byte and chunk bounds: the trait
  \<open>ChunkRangesExt\<close> and \<open>bounds_from_range\<close> of \<open>src/protocol.rs\<close>. The conversions between bytes
  and 1024-byte chunks are functions of the crate \<open>bao-tree\<close> and therefore a parameter
  (\<open>chunk_ops\<close>), with the rounding they document as the laws of the locale \<open>chunk_laws\<close>.
\<close>

section \<open>The interface to chunk arithmetic\<close>

record 'r chunk_ops =
  chunks_of :: "u64 \<Rightarrow> u64"              \<comment> \<open>\<open>ChunkNum::chunks\<close>: chunks needed for a number of bytes\<close>
  chunk_to_bytes :: "u64 \<Rightarrow> u64"         \<comment> \<open>\<open>ChunkNum::to_bytes\<close>: offset of the start of a chunk\<close>
  round_up_to_chunks :: "'r \<Rightarrow> 'r"       \<comment> \<open>byte ranges to the chunk ranges that cover them\<close>

locale chunk_laws = range_set R for R :: "'r range_ops" +
  fixes B :: "'r chunk_ops"
  assumes unat_chunks_of: "unat (chunks_of B n) = (unat n + 1023) div 1024"
    and unat_chunk_to_bytes:
      "unat c < 2 ^ 54 \<Longrightarrow> unat (chunk_to_bytes B c) = unat c * 1024"
    and contains_round_up:
      "unat c < 2 ^ 54 \<Longrightarrow> rs_contains R (round_up_to_chunks B r) c \<longleftrightarrow>
         (\<exists>x. rs_contains R r x \<and> unat x div 1024 = unat c)"
begin

lemma chunks_of_pos: "n \<noteq> 0 \<Longrightarrow> 0 < unat (chunks_of B n)"
  using unat_pos_u64 [of n] unat_chunks_of [of n] by simp

lemma unat_last_chunk:
  assumes "n \<noteq> 0"
  shows "unat (chunks_of B n - 1) = (unat n - 1) div 1024"
proof -
  have "1 \<le> chunks_of B n"
    using chunks_of_pos [OF assms] by (simp add: word_le_nat_alt)
  then have "unat (chunks_of B n - 1) = (unat n + 1023) div 1024 - 1"
    by (simp add: unat_sub_u64 unat_chunks_of)
  also have "\<dots> = (unat n - 1) div 1024"
    using unat_pos_u64 [OF assms] by (cases "unat n") simp_all
  finally show ?thesis .
qed

lemma last_chunk_less:
  assumes "n \<noteq> 0"
  shows "chunks_of B n - 1 < chunks_of B n"
proof -
  have "(unat n - 1) div 1024 < (unat n + 1023) div 1024"
    using unat_pos_u64 [OF assms] by (cases "unat n") simp_all
  then show ?thesis
    by (simp add: word_less_nat_alt unat_last_chunk [OF assms] unat_chunks_of)
qed

end

text \<open>An implementation on the reference range sets.\<close>

definition ref_chunks_of :: "u64 \<Rightarrow> u64" where
  "ref_chunks_of n = of_nat ((unat n + 1023) div 1024)"

fun ref_cover :: "range_item \<Rightarrow> rset" where
  "ref_cover (Range a b) = rset_range (of_nat (unat a div 1024)) (ref_chunks_of b)"
| "ref_cover (RangeFrom a) = rset_from (of_nat (unat a div 1024))"

definition ref_chunk_ops :: "rset chunk_ops" where
  "ref_chunk_ops =
     \<lparr>chunks_of = ref_chunks_of,
      chunk_to_bytes = (\<lambda>c. c * 1024),
      round_up_to_chunks = (\<lambda>r. foldr (rs_union ref_ops \<circ> ref_cover) (rs_iter ref_ops r) rset_empty)\<rparr>"

lemma unat_ref_chunks_of: "unat (ref_chunks_of n) = (unat n + 1023) div 1024"
proof -
  have "(unat n + 1023) div 1024 < 2 ^ 64" using unat_u64_lt [of n] by simp
  then show ?thesis by (simp add: ref_chunks_of_def unat_of_nat_u64)
qed

lemma unat_div_1024: "unat (of_nat (unat (a :: u64) div 1024) :: u64) = unat a div 1024"
proof -
  have "unat a div 1024 < 2 ^ 64" using unat_u64_lt [of a] by simp
  then show ?thesis by (simp add: unat_of_nat_u64)
qed

lemma ref_cover_has:
  assumes "unat c < 2 ^ 54" and "case it of Range a b \<Rightarrow> a < b | RangeFrom a \<Rightarrow> True"
  shows "rs_contains ref_ops (ref_cover it) c \<longleftrightarrow> (\<exists>x. item_has it x \<and> unat x div 1024 = unat c)"
proof (cases it)
  case (Range a b)
  have "unat a div 1024 \<le> unat c \<and> unat c < (unat b + 1023) div 1024 \<longleftrightarrow>
    (\<exists>n. unat a \<le> n \<and> n < unat b \<and> n div 1024 = unat c)" (is "?l \<longleftrightarrow> ?r")
  proof
    assume ?l
    moreover have "unat a < unat b" using assms(2) Range by (simp add: word_less_nat_alt)
    ultimately have "unat a \<le> max (unat a) (unat c * 1024) \<and> max (unat a) (unat c * 1024) < unat b \<and>
      max (unat a) (unat c * 1024) div 1024 = unat c"
      by (auto simp: max_def)
    then show ?r by blast
  next
    assume ?r
    then obtain n where n: "unat a \<le> n" "n < unat b" "n div 1024 = unat c" by blast
    have "unat a div 1024 \<le> n div 1024" using n(1) by (rule div_le_mono)
    moreover have "(n + 1024) div 1024 \<le> (unat b + 1023) div 1024"
      using n(2) by (intro div_le_mono) simp
    ultimately show ?l using n(3) by simp
  qed
  also have "\<dots> \<longleftrightarrow> (\<exists>x. item_has it x \<and> unat x div 1024 = unat c)"
  proof
    assume "\<exists>n. unat a \<le> n \<and> n < unat b \<and> n div 1024 = unat c"
    then obtain n where n: "unat a \<le> n" "n < unat b" "n div 1024 = unat c" by blast
    from n(2) have "n < 2 ^ 64" using unat_u64_lt [of b] by simp
    with n have "item_has it (of_nat n) \<and> unat (of_nat n :: u64) div 1024 = unat c"
      by (simp add: Range word_le_nat_alt word_less_nat_alt unat_of_nat_u64)
    then show "\<exists>x. item_has it x \<and> unat x div 1024 = unat c" by blast
  qed (auto simp: Range word_le_nat_alt word_less_nat_alt)
  finally show ?thesis
    using ref.contains_range [of "of_nat (unat a div 1024)" "ref_chunks_of b" c]
    by (simp add: Range ref_ops_def word_le_nat_alt word_less_nat_alt unat_div_1024
        unat_ref_chunks_of)
next
  case (RangeFrom a)
  have "unat a div 1024 \<le> unat c \<Longrightarrow> \<exists>x. a \<le> x \<and> unat x div 1024 = unat c"
  proof -
    assume le: "unat a div 1024 \<le> unat c"
    have "unat c * 1024 + 1023 < 2 ^ 64" using assms(1) by simp
    then have "unat (of_nat (unat c * 1024 + 1023) :: u64) = unat c * 1024 + 1023"
      by (rule unat_of_nat_u64)
    moreover have "unat a \<le> unat c * 1024 + 1023"
      using le div_mult_mod_eq [of "unat a" 1024] mod_less_divisor [of 1024 "unat a"] by linarith
    ultimately show ?thesis
      by (intro exI [of _ "of_nat (unat c * 1024 + 1023)"]) (simp add: word_le_nat_alt)
  qed
  moreover have "a \<le> x \<Longrightarrow> unat x div 1024 = unat c \<Longrightarrow> unat a div 1024 \<le> unat c" for x
    by (metis div_le_mono word_le_nat_alt)
  ultimately show ?thesis
    using ref.contains_from [of "of_nat (unat a div 1024)" c]
    by (auto simp: RangeFrom ref_ops_def word_le_nat_alt unat_div_1024)
qed

lemma items_of_ordered:
  "sorted_wrt (<) bs \<Longrightarrow> it \<in> set (items_of bs) \<Longrightarrow>
   case it of Range a b \<Rightarrow> a < b | RangeFrom a \<Rightarrow> True"
  by (induction bs rule: items_of.induct) auto

lemma contains_ref_cover_all:
  "rs_contains ref_ops (foldr (rs_union ref_ops \<circ> ref_cover) its rset_empty) c \<longleftrightarrow>
   (\<exists>it\<in>set its. rs_contains ref_ops (ref_cover it) c)"
proof (induction its)
  case Nil
  then show ?case using ref.contains_empty [of c] by (simp add: ref_ops_def)
qed (simp add: ref.contains_union)

interpretation refc: chunk_laws ref_ops ref_chunk_ops
proof (unfold_locales, goal_cases)
  case (1 n) show ?case by (simp add: ref_chunk_ops_def unat_ref_chunks_of)
next
  case (2 c)
  then have "unat c * unat (1024 :: u64) < 2 ^ LENGTH(64)" by simp
  then have "unat (c * 1024) = unat c * unat (1024 :: u64)" by (rule unat_mult_lem [THEN iffD1])
  then show ?case by (simp add: ref_chunk_ops_def)
next
  case (3 c r)
  have "rs_contains ref_ops (ref_cover it) c \<longleftrightarrow> (\<exists>x. item_has it x \<and> unat x div 1024 = unat c)"
    if "it \<in> set (rs_iter ref_ops r)" for it
    using 3 items_of_ordered [OF ref.sorted_boundaries, of it r] that
    by (intro ref_cover_has) (simp_all add: ref.iter_items)
  then show ?case
    by (auto simp: ref_chunk_ops_def contains_ref_cover_all ref.contains_iter [of r])
qed

section \<open>Ranges with bounds\<close>

text \<open>\<open>std::ops::Bound\<close>.\<close>

datatype 'a bound = Included 'a | Excluded 'a | Unbounded

definition bounds_from_range :: "'r range_ops \<Rightarrow> u64 bound \<Rightarrow> u64 bound \<Rightarrow> 'r" where
  "bounds_from_range R start_bound end_bound =
     (let to = (case end_bound of
                  Included e \<Rightarrow> checked_add_u64 e 1
                | Excluded e \<Rightarrow> Some e
                | Unbounded \<Rightarrow> None);
          finish = (\<lambda>from. case (from, to) of
                  (Some f, Some t) \<Rightarrow> rs_range R f t
                | (Some f, None) \<Rightarrow> rs_from R f
                | (None, Some t) \<Rightarrow> rs_to R t
                | (None, None) \<Rightarrow> rs_all R)
      in case start_bound of
           Included s \<Rightarrow> finish (Some s)
         | Excluded s \<Rightarrow>
             (case checked_add_u64 s 1 of
                None \<Rightarrow> rs_empty R
              | Some s' \<Rightarrow> finish (Some s'))
         | Unbounded \<Rightarrow> finish None)"

definition last_chunk :: "'r range_ops \<Rightarrow> 'r" where
  "last_chunk R = rs_from R u64_max"

definition chunk :: "'r range_ops \<Rightarrow> u64 \<Rightarrow> 'r" where
  "chunk R offset = rs_range R offset (offset + 1)"

definition chunks :: "'r range_ops \<Rightarrow> u64 bound \<Rightarrow> u64 bound \<Rightarrow> 'r" where
  "chunks R start_bound end_bound = bounds_from_range R start_bound end_bound"

definition bytes_range :: "'r range_ops \<Rightarrow> 'r chunk_ops \<Rightarrow> u64 bound \<Rightarrow> u64 bound \<Rightarrow> 'r" where
  "bytes_range R B start_bound end_bound =
     round_up_to_chunks B (bounds_from_range R start_bound end_bound)"

definition offset_range :: "'r range_ops \<Rightarrow> 'r chunk_ops \<Rightarrow> u64 \<Rightarrow> 'r" where
  "offset_range R B offset = bytes_range R B (Included offset) (Excluded (offset + 1))"

text \<open>The numbers that lie within a pair of bounds.\<close>

fun above :: "u64 bound \<Rightarrow> u64 \<Rightarrow> bool" where
  "above (Included s) x = (s \<le> x)"
| "above (Excluded s) x = (s < x)"
| "above Unbounded x = True"

fun below :: "u64 bound \<Rightarrow> u64 \<Rightarrow> bool" where
  "below (Included e) x = (x \<le> e)"
| "below (Excluded e) x = (x < e)"
| "below Unbounded x = True"

lemma Suc_le_u64: "s \<noteq> u64_max \<Longrightarrow> s + 1 \<le> x \<longleftrightarrow> s < (x :: u64)"
  by (simp add: word_le_nat_alt word_less_nat_alt unat_Suc_u64 Suc_le_eq)

lemma less_Suc_u64: "e \<noteq> u64_max \<Longrightarrow> x < e + 1 \<longleftrightarrow> x \<le> (e :: u64)"
  by (simp add: word_le_nat_alt word_less_nat_alt unat_Suc_u64 less_Suc_eq_le)

lemma not_less_u64_max: "\<not> u64_max < x"
  by (simp add: not_less)

context range_set
begin

lemma contains_bounds_from_range:
  "rs_contains R (bounds_from_range R s e) x \<longleftrightarrow> above s x \<and> below e x"
  unfolding bounds_from_range_def Let_def
  by (cases s; cases e)
    (auto simp: contains_simps Suc_le_u64 less_Suc_u64 not_less_u64_max checked_add_1_Some_iff
      split: option.splits)

end

text \<open>
  C35. The chunk ranges built from a pair of bounds contain exactly the numbers the bounds admit:
  also when an exclusive lower bound or an inclusive upper bound is the largest 64-bit number,
  where adding one would overflow.
\<close>

theorem bounds_from_range_exact:
  assumes "range_set R"
  shows "rs_contains R (bounds_from_range R s e) x \<longleftrightarrow> above s x \<and> below e x"
  by (rule range_set.contains_bounds_from_range [OF assms])

theorem bounds_from_range_exact_witness:
  "\<not> rs_contains ref_ops (bounds_from_range ref_ops (Excluded u64_max) Unbounded) u64_max \<and>
   rs_contains ref_ops (bounds_from_range ref_ops Unbounded (Included u64_max)) u64_max \<and>
   rs_contains ref_ops (bounds_from_range ref_ops (Included 100) (Included 200)) 200"
  using bounds_from_range_exact [OF ref.range_set_axioms] by simp

end
