(* ===== verification/Range_Spec.thy ===== *)
theory Range_Spec
  imports Chunks
begin

text \<open>
  Range specifications, \<open>src/protocol/range_spec.rs\<close>: \<open>ChunkRangesSeq\<close> (run-length encoded
  sequences of chunk ranges, one per blob of a hash sequence), its three iterators, and the wire
  encoding \<open>RangeSpec\<close> / \<open>RangeSpecSeq\<close>. The meaning of a sequence is \<open>seq_at\<close>: the ranges at
  an index are those of the last entry that starts at or before it. Lookup, iteration,
  construction, canonical form and the wire encoding are all proved against it.
\<close>

section \<open>Sequences of chunk ranges\<close>

type_synonym 'r chunk_ranges_seq = "(u64 \<times> 'r) list"

definition chunk_ranges_empty :: "'r range_ops \<Rightarrow> 'r" where
  "chunk_ranges_empty R = rs_empty R"

text \<open>
  \<open>slice::binary_search_by\<close> on the offsets: \<open>Inr i\<close> is \<open>Ok(i)\<close>, \<open>Inl i\<close> is \<open>Err(i)\<close>, with
  \<open>[left, right)\<close> the part of the slice still searched.
\<close>

function bsearch :: "(u64 \<times> 'r) list \<Rightarrow> u64 \<Rightarrow> nat \<Rightarrow> nat \<Rightarrow> nat + nat" where
  "bsearch s k left right =
     (if left < right then
        let mid = left + (right - left) div 2; o' = fst (s ! mid) in
        if o' < k then bsearch s k (mid + 1) right
        else if k < o' then bsearch s k left mid
        else Inr mid
      else Inl left)"
  by pat_completeness auto
termination
  by (relation "measure (\<lambda>(s, k, left, right). right - left)") auto

declare bsearch.simps [simp del]

definition index :: "'r range_ops \<Rightarrow> 'r chunk_ranges_seq \<Rightarrow> u64 \<Rightarrow> 'r" where
  "index R s i =
     (case bsearch s i 0 (length s) of
        Inr j \<Rightarrow> snd (s ! j)
      | Inl j \<Rightarrow> if j = 0 then chunk_ranges_empty R else snd (s ! (j - 1)))"

definition seq_empty :: "'r chunk_ranges_seq" where
  "seq_empty = []"

definition seq_root :: "'r range_ops \<Rightarrow> 'r chunk_ranges_seq" where
  "seq_root R = [(0, rs_all R), (1, rs_empty R)]"

definition seq_all :: "'r range_ops \<Rightarrow> 'r chunk_ranges_seq" where
  "seq_all R = [(0, rs_all R)]"

definition seq_verified_size :: "'r range_ops \<Rightarrow> 'r chunk_ranges_seq" where
  "seq_verified_size R = [(0, last_chunk R), (1, rs_empty R)]"

definition seq_verified_child_sizes :: "'r range_ops \<Rightarrow> 'r chunk_ranges_seq" where
  "seq_verified_child_sizes R = [(0, rs_all R), (1, last_chunk R)]"

definition seq_is_empty :: "'r chunk_ranges_seq \<Rightarrow> bool" where
  "seq_is_empty s = (s = [])"

definition seq_is_all :: "'r range_ops \<Rightarrow> 'r chunk_ranges_seq \<Rightarrow> bool" where
  "seq_is_all R s = (case s of [(_, r)] \<Rightarrow> rs_is_all R r | _ \<Rightarrow> False)"

definition as_single :: "'r range_ops \<Rightarrow> 'r chunk_ranges_seq \<Rightarrow> (u64 \<times> 'r) option" where
  "as_single R s =
     (case s of
        [(o1, v1), (o2, v2)] \<Rightarrow>
          if o1 = o2 - 1 \<and> rs_is_empty R v2 then Some (o1, v1) else None
      | _ \<Rightarrow> None)"

definition is_blob :: "'r range_ops \<Rightarrow> 'r chunk_ranges_seq \<Rightarrow> bool" where
  "is_blob R s = (case as_single R s of Some (o1, _) \<Rightarrow> o1 = 0 | None \<Rightarrow> False)"

text \<open>The value of the last entry, or the empty ranges (\<open>iter().next_back()\<close> with a default).\<close>

definition last_ranges :: "'r \<Rightarrow> 'r chunk_ranges_seq \<Rightarrow> 'r" where
  "last_ranges d s = (if s = [] then d else snd (last s))"

fun from_ranges_loop ::
  "'r range_ops \<Rightarrow> 'r chunk_ranges_seq \<Rightarrow> u64 \<Rightarrow> 'r list \<Rightarrow> 'r chunk_ranges_seq \<times> u64" where
  "from_ranges_loop R res i [] = (res, i)"
| "from_ranges_loop R res i (rng # ranges) =
     from_ranges_loop R
       (if rng \<noteq> last_ranges (rs_empty R) res then res @ [(i, rng)] else res)
       (i + 1) ranges"

definition from_ranges_inner :: "'r range_ops \<Rightarrow> 'r list \<Rightarrow> 'r chunk_ranges_seq \<times> u64" where
  "from_ranges_inner R ranges = from_ranges_loop R [] 0 ranges"

definition from_ranges_infinite :: "'r range_ops \<Rightarrow> 'r list \<Rightarrow> 'r chunk_ranges_seq" where
  "from_ranges_infinite R ranges = fst (from_ranges_inner R ranges)"

definition from_ranges :: "'r range_ops \<Rightarrow> 'r list \<Rightarrow> 'r chunk_ranges_seq" where
  "from_ranges R ranges =
     (let (res, next) = from_ranges_inner R ranges in
      if res \<noteq> [] \<and> \<not> rs_is_empty R (snd (last res)) then res @ [(next, rs_empty R)] else res)"

definition is_infinite :: "'r range_ops \<Rightarrow> 'r chunk_ranges_seq \<Rightarrow> bool" where
  "is_infinite R s = (s \<noteq> [] \<and> \<not> rs_is_empty R (snd (last s)))"

section \<open>Iterators\<close>

text \<open>
  \<open>ChunkRangesSeqIterInfinite\<close> and \<open>ChunkRangesSeqIter\<close> have the same fields; their \<open>next\<close>
  returns the item and the advanced iterator.
\<close>

record 'r seq_iter =
  it_current :: 'r
  it_offset :: u64
  it_remaining :: "'r chunk_ranges_seq"

definition iter_infinite :: "'r range_ops \<Rightarrow> 'r chunk_ranges_seq \<Rightarrow> 'r seq_iter" where
  "iter_infinite R s = \<lparr>it_current = chunk_ranges_empty R, it_offset = 0, it_remaining = s\<rparr>"

definition iter_finite :: "'r range_ops \<Rightarrow> 'r chunk_ranges_seq \<Rightarrow> 'r seq_iter" where
  "iter_finite R s = \<lparr>it_current = chunk_ranges_empty R, it_offset = 0, it_remaining = s\<rparr>"

definition is_at_end :: "'r seq_iter \<Rightarrow> bool" where
  "is_at_end it = (it_remaining it = [])"

fun infinite_next_loop ::
  "'r \<Rightarrow> u64 \<Rightarrow> 'r chunk_ranges_seq \<Rightarrow> 'r option \<times> 'r seq_iter" where
  "infinite_next_loop cur off [] =
     (Some cur, \<lparr>it_current = cur, it_offset = off + 1, it_remaining = []\<rparr>)"
| "infinite_next_loop cur off ((o', ranges) # rest) =
     (if off < o' then
        (Some cur, \<lparr>it_current = cur, it_offset = off + 1, it_remaining = (o', ranges) # rest\<rparr>)
      else infinite_next_loop ranges off rest)"

definition infinite_next :: "'r seq_iter \<Rightarrow> 'r option \<times> 'r seq_iter" where
  "infinite_next it = infinite_next_loop (it_current it) (it_offset it) (it_remaining it)"

definition finite_next :: "'r seq_iter \<Rightarrow> 'r option \<times> 'r seq_iter" where
  "finite_next it =
     (case it_remaining it of
        [] \<Rightarrow> (None, it)
      | (o', ranges) # rest \<Rightarrow>
          if it_offset it < o' then (Some (it_current it), it\<lparr>it_offset := it_offset it + 1\<rparr>)
          else (Some ranges, it\<lparr>it_current := ranges, it_remaining := rest, it_offset := it_offset it + 1\<rparr>))"

record 'r non_empty_iter =
  ne_inner :: "'r seq_iter"
  ne_count :: u64

definition non_empty_new :: "'r seq_iter \<Rightarrow> 'r non_empty_iter" where
  "non_empty_new it = \<lparr>ne_inner = it, ne_count = 0\<rparr>"

definition iter_non_empty_infinite ::
  "'r range_ops \<Rightarrow> 'r chunk_ranges_seq \<Rightarrow> 'r non_empty_iter" where
  "iter_non_empty_infinite R s = non_empty_new (iter_infinite R s)"

text \<open>
  The loop of \<open>NonEmptyRequestRangeSpecIter::next\<close>. The count goes up in every round, and the
  loop is left when it cannot, so it terminates. The inner iterator never returns \<open>None\<close>
  (\<open>infinite_next_Some\<close>), so the \<open>unwrap\<close> of the source cannot fail; the branch for it is
  never taken.
\<close>

function non_empty_next ::
  "'r range_ops \<Rightarrow> 'r non_empty_iter \<Rightarrow> (u64 \<times> 'r) option \<times> 'r non_empty_iter" where
  "non_empty_next R it =
     (case infinite_next (ne_inner it) of
        (None, inner') \<Rightarrow> (None, it)
      | (Some cur, inner') \<Rightarrow>
          (case checked_add_u64 (ne_count it) 1 of
             None \<Rightarrow> (None, it\<lparr>ne_inner := inner'\<rparr>)
           | Some count' \<Rightarrow>
               let it' = it\<lparr>ne_inner := inner', ne_count := count'\<rparr> in
               if \<not> rs_is_empty R cur then (Some (ne_count it, cur), it')
               else if is_at_end inner' then (None, it')
               else non_empty_next R it'))"
  by pat_completeness auto
termination
proof (relation "measure (\<lambda>(R, it). 2 ^ 64 - unat (ne_count it))", simp, goal_cases)
  case (1 R it a inner' cur count' it')
  then have "unat count' = unat (ne_count it) + unat (1 :: u64)"
    by (intro checked_add_u64_Some) simp
  with 1 unat_u64_lt [of count'] show ?case by simp
qed

declare non_empty_next.simps [simp del]

section \<open>The wire encoding\<close>

type_synonym range_spec = "u64 list"

fun deltas :: "u64 \<Rightarrow> u64 list \<Rightarrow> u64 list" where
  "deltas prev [] = []"
| "deltas prev (v # vs) = (v - prev) # deltas v vs"

definition range_spec_new :: "'r range_ops \<Rightarrow> 'r \<Rightarrow> range_spec" where
  "range_spec_new R r =
     (case rs_boundaries R r of
        [] \<Rightarrow> []
      | start # rest \<Rightarrow> start # deltas start rest)"

definition range_spec_empty :: range_spec where
  "range_spec_empty = []"

definition range_spec_all :: range_spec where
  "range_spec_all = [0]"

definition range_spec_verified_size :: range_spec where
  "range_spec_verified_size = [u64_max]"

definition range_spec_is_empty :: "range_spec \<Rightarrow> bool" where
  "range_spec_is_empty w = (w = [])"

definition range_spec_is_all :: "range_spec \<Rightarrow> bool" where
  "range_spec_is_all w = (length w = 1 \<and> w ! 0 = 0)"

text \<open>\<open>RangeSpec::chunks\<close>: the widths at odd positions are summed up.\<close>

definition spec_chunks :: "range_spec \<Rightarrow> u64 \<times> u64 option" where
  "spec_chunks w =
     (let m = fold (\<lambda>i m. m + w ! (2 * i + 1)) [0..<length w div 2] 0 in
      (m, if length w mod 2 \<noteq> 0 then None else Some m))"

fun to_chunk_ranges_loop :: "'r range_ops \<Rightarrow> 'r \<Rightarrow> u64 \<Rightarrow> bool \<Rightarrow> u64 list \<Rightarrow> 'r" where
  "to_chunk_ranges_loop R ranges cur on [] =
     (if on then rs_union R ranges (rs_from R cur) else ranges)"
| "to_chunk_ranges_loop R ranges cur on (width # ws) =
     to_chunk_ranges_loop R
       (if on then rs_union R ranges (rs_range R cur (cur + width)) else ranges)
       (cur + width) (\<not> on) ws"

definition to_chunk_ranges :: "'r range_ops \<Rightarrow> range_spec \<Rightarrow> 'r" where
  "to_chunk_ranges R w = to_chunk_ranges_loop R (rs_empty R) 0 False w"

type_synonym range_spec_seq = "(u64 \<times> range_spec) list"

fun from_wire_loop :: "'r range_ops \<Rightarrow> u64 \<Rightarrow> range_spec_seq \<Rightarrow> 'r chunk_ranges_seq" where
  "from_wire_loop R off [] = []"
| "from_wire_loop R off ((delta, spec) # ws) =
     (off + delta, to_chunk_ranges R spec) # from_wire_loop R (off + delta) ws"

definition from_wire :: "'r range_ops \<Rightarrow> range_spec_seq \<Rightarrow> 'r chunk_ranges_seq" where
  "from_wire R w = from_wire_loop R 0 w"

fun to_wire_loop :: "'r range_ops \<Rightarrow> u64 \<Rightarrow> 'r chunk_ranges_seq \<Rightarrow> range_spec_seq" where
  "to_wire_loop R off [] = []"
| "to_wire_loop R off ((i, r) # s) = (i - off, range_spec_new R r) # to_wire_loop R i s"

definition to_wire :: "'r range_ops \<Rightarrow> 'r chunk_ranges_seq \<Rightarrow> range_spec_seq" where
  "to_wire R s = to_wire_loop R 0 s"

section \<open>Meaning of a sequence\<close>

definition seq_at :: "'r range_ops \<Rightarrow> 'r chunk_ranges_seq \<Rightarrow> u64 \<Rightarrow> 'r" where
  "seq_at R s i = last_ranges (rs_empty R) (filter (\<lambda>e. fst e \<le> i) s)"

abbreviation sorted_offsets :: "'r chunk_ranges_seq \<Rightarrow> bool" where
  "sorted_offsets s \<equiv> sorted_wrt (<) (map fst s)"

lemma last_ranges_simps [simp]:
  "last_ranges d [] = d" "last_ranges d (s @ [e]) = snd e" "last_ranges d [e] = snd e"
  by (simp_all add: last_ranges_def)

lemma last_ranges_Cons: "last_ranges d (e # s) = last_ranges (snd e) s"
  by (simp add: last_ranges_def)

lemma seq_at_Nil [simp]: "seq_at R [] i = rs_empty R"
  by (simp add: seq_at_def)

lemma seq_at_snoc:
  "seq_at R (s @ [(o', r)]) i = (if o' \<le> i then r else seq_at R s i)"
  by (simp add: seq_at_def)

lemma seq_at_all_le:
  "\<forall>e\<in>set s. fst e \<le> i \<Longrightarrow> seq_at R s i = last_ranges (rs_empty R) s"
  by (simp add: seq_at_def filter_True)

lemma sorted_offsets_nth:
  "sorted_offsets s \<Longrightarrow> i < j \<Longrightarrow> j < length s \<Longrightarrow> fst (s ! i) < fst (s ! j)"
  using sorted_wrt_nth_less [of "(<)" "map fst s" i j] by simp

subsection \<open>Lookup\<close>

lemma bsearch_correct:
  assumes "sorted_offsets s" "right \<le> length s" "left \<le> right"
    and "\<forall>j<left. fst (s ! j) < k" "\<forall>j. right \<le> j \<and> j < length s \<longrightarrow> k < fst (s ! j)"
  shows "case bsearch s k left right of
      Inr m \<Rightarrow> m < length s \<and> fst (s ! m) = k
    | Inl m \<Rightarrow> m \<le> length s \<and> (\<forall>j<m. fst (s ! j) < k) \<and> (\<forall>j. m \<le> j \<and> j < length s \<longrightarrow> k < fst (s ! j))"
  using assms
proof (induction s k left right rule: bsearch.induct)
  case (1 s k left right)
  define mid where "mid = left + (right - left) div 2"
  show ?case
  proof (cases "left < right")
    case False
    with 1 show ?thesis by (subst bsearch.simps) auto
  next
    case True
    then have mid: "left \<le> mid" "mid < right" by (auto simp: mid_def)
    then have len: "mid < length s" using "1.prems"(2) by simp
    note step = bsearch.simps [of s k left right, folded mid_def]
    consider "fst (s ! mid) < k" | "k < fst (s ! mid)" | "fst (s ! mid) = k" by force
    then show ?thesis
    proof cases
      case a: 1
      have "\<forall>j<mid + 1. fst (s ! j) < k"
      proof (intro allI impI)
        fix j assume "j < mid + 1"
        then have "j = mid \<or> fst (s ! j) < fst (s ! mid)"
          using sorted_offsets_nth [OF "1.prems"(1), of j mid] len by (cases "j = mid") auto
        with a show "fst (s ! j) < k" by auto
      qed
      with a True mid "1.IH"(1) [OF True mid_def refl] "1.prems" show ?thesis
        by (simp add: step Let_def)
    next
      case b: 2
      have "\<forall>j. mid \<le> j \<and> j < length s \<longrightarrow> k < fst (s ! j)"
      proof (intro allI impI)
        fix j assume "mid \<le> j \<and> j < length s"
        then have "j = mid \<or> fst (s ! mid) < fst (s ! j)"
          using sorted_offsets_nth [OF "1.prems"(1), of mid j] by (cases "j = mid") auto
        with b show "k < fst (s ! j)" by auto
      qed
      moreover have "\<not> fst (s ! mid) < k" using b by auto
      ultimately show ?thesis
        using b True mid "1.IH"(2) [OF True mid_def refl] "1.prems" by (simp add: step Let_def)
    next
      case 3
      with True len show ?thesis by (simp add: step Let_def)
    qed
  qed
qed

lemma filter_le_take:
  fixes k :: u64
  assumes "\<forall>j<m. fst (s ! j) \<le> k" "\<forall>j. m \<le> j \<and> j < length s \<longrightarrow> k < fst (s ! j)" "m \<le> length s"
  shows "filter (\<lambda>e. fst e \<le> k) s = take m s"
proof -
  have "\<forall>e\<in>set (take m s). fst e \<le> k"
    using assms(1,3) by (simp add: all_set_conv_all_nth)
  then have "filter (\<lambda>e. fst e \<le> k) (take m s) = take m s" by (rule filter_True)
  moreover have "\<not> fst e \<le> k" if e: "e \<in> set (drop m s)" for e
  proof -
    from e obtain j where "j < length (drop m s)" "drop m s ! j = e"
      by (auto simp: in_set_conv_nth)
    then have "m + j < length s" "e = s ! (m + j)" by auto
    then have "k < fst e" using assms(2) by simp
    then show ?thesis by (simp add: not_le)
  qed
  then have "filter (\<lambda>e. fst e \<le> k) (drop m s) = []" by (intro filter_False) blast
  ultimately show ?thesis
    by (metis append.right_neutral append_take_drop_id filter_append)
qed

lemma index_seq_at:
  assumes "sorted_offsets s"
  shows "index R s i = seq_at R s i"
proof -
  have *: "case bsearch s i 0 (length s) of
      Inr m \<Rightarrow> m < length s \<and> fst (s ! m) = i
    | Inl m \<Rightarrow> m \<le> length s \<and> (\<forall>j<m. fst (s ! j) < i) \<and> (\<forall>j. m \<le> j \<and> j < length s \<longrightarrow> i < fst (s ! j))"
    using assms by (intro bsearch_correct) auto
  show ?thesis
  proof (cases "bsearch s i 0 (length s)")
    case (Inr m)
    with * have m: "m < length s" "fst (s ! m) = i" by auto
    have "filter (\<lambda>e. fst e \<le> i) s = take (Suc m) s"
      using m sorted_offsets_nth [OF assms] by (intro filter_le_take) (auto simp: less_Suc_eq Suc_le_eq intro: less_imp_le)
    with Inr m show ?thesis
      by (simp add: index_def seq_at_def take_Suc_conv_app_nth)
  next
    case (Inl m)
    with * have m: "m \<le> length s" "\<forall>j<m. fst (s ! j) < i"
      "\<forall>j. m \<le> j \<and> j < length s \<longrightarrow> i < fst (s ! j)" by auto
    then have "filter (\<lambda>e. fst e \<le> i) s = take m s"
      by (intro filter_le_take) (auto intro: less_imp_le)
    with Inl m(1) show ?thesis
      by (cases m) (auto simp: index_def seq_at_def chunk_ranges_empty_def take_Suc_conv_app_nth)
  qed
qed

subsection \<open>Iteration\<close>

lemma infinite_next_loop_sorted:
  "sorted_offsets s \<Longrightarrow> infinite_next_loop cur off s =
    (let v = last_ranges cur (filter (\<lambda>e. fst e \<le> off) s) in
     (Some v, \<lparr>it_current = v, it_offset = off + 1, it_remaining = filter (\<lambda>e. off < fst e) s\<rparr>))"
proof (induction cur off s rule: infinite_next_loop.induct)
  case (2 cur off o' ranges rest)
  show ?case
  proof (cases "off < o'")
    case True
    then have *: "\<not> o' \<le> off" by (simp add: not_le)
    from True "2.prems" have "\<forall>e\<in>set rest. off < fst e" by force
    then have "filter (\<lambda>e. fst e \<le> off) rest = []" "filter (\<lambda>e. off < fst e) rest = rest"
      by (auto simp: filter_empty_conv not_le filter_id_conv)
    with True * show ?thesis by simp
  next
    case False
    then have "o' \<le> off" by (simp add: not_less)
    with False 2 show ?thesis by (simp add: last_ranges_Cons)
  qed
qed simp

text \<open>The state of the infinite iterator after \<open>k\<close> items.\<close>

definition iter_at :: "'r range_ops \<Rightarrow> 'r chunk_ranges_seq \<Rightarrow> nat \<Rightarrow> 'r seq_iter" where
  "iter_at R s k =
     \<lparr>it_current = last_ranges (rs_empty R) (filter (\<lambda>e. unat (fst e) < k) s),
      it_offset = of_nat k,
      it_remaining = filter (\<lambda>e. k \<le> unat (fst e)) s\<rparr>"

lemma iter_at_0: "iter_infinite R s = iter_at R s 0"
  by (simp add: iter_infinite_def iter_at_def chunk_ranges_empty_def)

lemma last_ranges_append: "last_ranges d (s @ t) = last_ranges (last_ranges d s) t"
  by (simp add: last_ranges_def)

lemma sorted_filter_split:
  assumes "sorted_offsets s"
  shows "filter (\<lambda>e. unat (fst e) < k) s @ filter (\<lambda>e. k \<le> unat (fst e) \<and> unat (fst e) \<le> j) s =
    filter (\<lambda>e. unat (fst e) < k \<or> unat (fst e) \<le> j) s"
  using assms
proof (induction s)
  case (Cons e s)
  show ?case
  proof (cases "unat (fst e) < k")
    case False
    with Cons.prems have "\<forall>e'\<in>set s. \<not> unat (fst e') < k" by (fastforce simp: word_less_nat_alt)
    then have "filter (\<lambda>e. unat (fst e) < k) s = []" by (simp add: filter_empty_conv)
    with False Cons show ?thesis by auto
  qed (use Cons in auto)
qed simp

lemma infinite_next_iter_at:
  assumes "sorted_offsets s" "k < 2 ^ 64"
  shows "infinite_next (iter_at R s k) = (Some (seq_at R s (of_nat k)), iter_at R s (Suc k))"
proof -
  have k: "fst e \<le> of_nat k \<longleftrightarrow> unat (fst e) \<le> k" "of_nat k < fst e \<longleftrightarrow> k < unat (fst e)"
    for e :: "u64 \<times> 'a"
    using assms(2) by (simp_all add: word_le_nat_alt word_less_nat_alt unat_of_nat_u64)
  have "sorted_offsets (filter P s)" for P
    using assms(1) by (induction s) auto
  then have "infinite_next (iter_at R s k) =
    (let v = last_ranges (last_ranges (rs_empty R) (filter (\<lambda>e. unat (fst e) < k) s))
               (filter (\<lambda>e. k \<le> unat (fst e) \<and> unat (fst e) \<le> k) s) in
     (Some v, \<lparr>it_current = v, it_offset = of_nat k + 1,
       it_remaining = filter (\<lambda>e. k \<le> unat (fst e) \<and> k < unat (fst e)) s\<rparr>))"
    by (simp add: infinite_next_def iter_at_def infinite_next_loop_sorted k conj_commute)
  also have "\<dots> = (Some (seq_at R s (of_nat k)), iter_at R s (Suc k))"
  proof -
    have "(\<lambda>e. unat (fst e) < k \<or> unat (fst e) \<le> k) = (\<lambda>e::u64 \<times> 'a. unat (fst e) \<le> k)"
      by auto
    then have "last_ranges (last_ranges (rs_empty R) (filter (\<lambda>e. unat (fst e) < k) s))
        (filter (\<lambda>e. k \<le> unat (fst e) \<and> unat (fst e) \<le> k) s) = seq_at R s (of_nat k)"
      by (simp add: seq_at_def k sorted_filter_split [OF assms(1)] flip: last_ranges_append)
    moreover have "(\<lambda>e. k \<le> unat (fst e) \<and> k < unat (fst e)) = (\<lambda>e::u64 \<times> 'a. Suc k \<le> unat (fst e))"
      by (auto simp: fun_eq_iff)
    ultimately show ?thesis
      by (simp add: iter_at_def Let_def seq_at_def k less_Suc_eq_le add.commute)
  qed
  finally show ?thesis .
qed

lemma infinite_next_Some: "fst (infinite_next it) \<noteq> None"
proof -
  have "fst (infinite_next_loop cur off s) \<noteq> None" for cur off and s :: "'a chunk_ranges_seq"
    by (induction cur off s rule: infinite_next_loop.induct) auto
  then show ?thesis by (simp add: infinite_next_def)
qed

text \<open>The first \<open>n\<close> items of the infinite iterator, \<open>iter_infinite().take(n)\<close>.\<close>

fun take_infinite :: "nat \<Rightarrow> 'r seq_iter \<Rightarrow> 'r option list" where
  "take_infinite 0 it = []"
| "take_infinite (Suc n) it = (let (x, it') = infinite_next it in x # take_infinite n it')"

lemma take_infinite_iter_at:
  "sorted_offsets s \<Longrightarrow> k + n \<le> 2 ^ 64 \<Longrightarrow>
   take_infinite n (iter_at R s k) = map (\<lambda>j. Some (seq_at R s (of_nat j))) [k..<k + n]"
proof (induction n arbitrary: k)
  case (Suc n)
  then have "take_infinite n (iter_at R s (Suc k)) =
    map (\<lambda>j. Some (seq_at R s (of_nat j))) [Suc k..<Suc k + n]" by (intro Suc.IH) simp_all
  moreover have "[k..<k + Suc n] = k # [Suc k..<Suc k + n]" by (simp add: upt_conv_Cons)
  ultimately show ?case
    using Suc.prems by (simp add: infinite_next_iter_at del: upt_Suc upt.simps)
qed simp


subsection \<open>Construction\<close>

lemma from_ranges_loop_snoc:
  "from_ranges_loop R res i (ranges @ [rng]) =
    (let (res', i') = from_ranges_loop R res i ranges in
     (if rng \<noteq> last_ranges (rs_empty R) res' then res' @ [(i', rng)] else res', i' + 1))"
  by (induction ranges arbitrary: res i) simp_all

lemma from_ranges_inner_Nil: "from_ranges_inner R [] = ([], 0)"
  by (simp add: from_ranges_inner_def)

lemma from_ranges_inner_snoc:
  "from_ranges_inner R (ranges @ [rng]) =
    (if rng \<noteq> last_ranges (rs_empty R) (fst (from_ranges_inner R ranges))
     then fst (from_ranges_inner R ranges) @ [(snd (from_ranges_inner R ranges), rng)]
     else fst (from_ranges_inner R ranges), snd (from_ranges_inner R ranges) + 1)"
  by (simp add: from_ranges_inner_def from_ranges_loop_snoc split_def Let_def)

lemma snd_from_ranges_inner: "snd (from_ranges_inner R ranges) = of_nat (length ranges)"
proof (induction ranges rule: rev_induct)
  case Nil
  show ?case by (simp add: from_ranges_inner_Nil)
next
  case (snoc rng ranges)
  then show ?case by (simp add: from_ranges_inner_snoc add.commute)
qed

lemma from_ranges_inner_offsets:
  "e \<in> set (fst (from_ranges_inner R ranges)) \<Longrightarrow> \<exists>j<length ranges. fst e = of_nat j"
proof (induction ranges rule: rev_induct)
  case Nil
  then show ?case by (simp add: from_ranges_inner_Nil)
next
  case (snoc rng ranges)
  then have "e \<in> set (fst (from_ranges_inner R ranges)) \<or> fst e = of_nat (length ranges)"
    by (auto simp: from_ranges_inner_snoc snd_from_ranges_inner split: if_splits)
  with snoc.IH show ?case by (auto simp: less_Suc_eq)
qed

lemma from_ranges_inner_below:
  assumes "length ranges < 2 ^ 64" "e \<in> set (fst (from_ranges_inner R ranges))"
  shows "fst e < of_nat (length ranges)"
proof -
  from assms(2) obtain j where "j < length ranges" "fst e = of_nat j"
    using from_ranges_inner_offsets by blast
  with assms(1) show ?thesis by (simp add: of_nat_less_u64)
qed

lemma last_ranges_from_ranges_inner:
  "last_ranges (rs_empty R) (fst (from_ranges_inner R ranges)) =
    (if ranges = [] then rs_empty R else last ranges)"
  by (induction ranges rule: rev_induct)
    (auto simp: from_ranges_inner_snoc from_ranges_inner_Nil)

lemma sorted_from_ranges_inner:
  "length ranges < 2 ^ 64 \<Longrightarrow> sorted_offsets (fst (from_ranges_inner R ranges))"
proof (induction ranges rule: rev_induct)
  case Nil
  show ?case by (simp add: from_ranges_inner_Nil)
next
  case (snoc rng ranges)
  then have "\<forall>e\<in>set (fst (from_ranges_inner R ranges)). fst e < of_nat (length ranges)"
    using snoc.prems by (intro ballI from_ranges_inner_below) simp_all
  with snoc show ?case
    by (auto simp: from_ranges_inner_snoc snd_from_ranges_inner sorted_wrt_append)
qed

text \<open>At every index below the number of ranges the sequence means the range that was put in.\<close>

lemma seq_at_from_ranges_inner:
  "length ranges < 2 ^ 64 \<Longrightarrow> j < length ranges \<Longrightarrow>
   seq_at R (fst (from_ranges_inner R ranges)) (of_nat j) = ranges ! j"
proof (induction ranges rule: rev_induct)
  case (snoc rng ranges)
  let ?res = "fst (from_ranges_inner R ranges)" and ?n = "length ranges"
  have below: "fst e < of_nat ?n" if "e \<in> set ?res" for e
    using that snoc.prems(1) by (intro from_ranges_inner_below) simp_all
  have at_n: "seq_at R ?res (of_nat ?n) = last_ranges (rs_empty R) ?res"
    using below by (intro seq_at_all_le) (auto intro: less_imp_le)
  have le: "(of_nat ?n :: u64) \<le> of_nat j \<longleftrightarrow> ?n \<le> j"
    using snoc.prems by (simp add: of_nat_le_u64)
  show ?case
  proof (cases "j = ?n")
    case True
    then show ?thesis
      using at_n
      by (auto simp: from_ranges_inner_snoc seq_at_snoc snd_from_ranges_inner)
  next
    case False
    with snoc.prems have "j < ?n" by simp
    with snoc le show ?thesis
      by (auto simp: from_ranges_inner_snoc seq_at_snoc snd_from_ranges_inner nth_append)
  qed
qed simp

lemma seq_at_from_ranges_inner_beyond:
  assumes "length ranges < 2 ^ 64" "length ranges \<le> unat i"
  shows "seq_at R (fst (from_ranges_inner R ranges)) i =
    (if ranges = [] then rs_empty R else last ranges)"
proof -
  have "fst e \<le> i" if "e \<in> set (fst (from_ranges_inner R ranges))" for e
    using from_ranges_inner_below [OF assms(1) that] assms
    by (simp add: word_less_nat_alt word_le_nat_alt unat_of_nat_u64)
  then show ?thesis by (simp add: seq_at_all_le last_ranges_from_ranges_inner)
qed

lemma from_ranges_unfold:
  "from_ranges R ranges =
    (let res = fst (from_ranges_inner R ranges) in
     if res \<noteq> [] \<and> \<not> rs_is_empty R (snd (last res))
     then res @ [(of_nat (length ranges), rs_empty R)] else res)"
  by (simp add: from_ranges_def split_def snd_from_ranges_inner Let_def)

lemma sorted_from_ranges:
  assumes "length ranges < 2 ^ 64"
  shows "sorted_offsets (from_ranges R ranges)"
  using sorted_from_ranges_inner [OF assms] from_ranges_inner_below [OF assms]
  by (auto simp: from_ranges_unfold Let_def sorted_wrt_append)

context range_set
begin

lemma seq_at_from_ranges:
  assumes "length ranges < 2 ^ 64"
  shows "seq_at R (from_ranges R ranges) i =
    (if unat i < length ranges then ranges ! unat i else rs_empty R)"
proof -
  let ?res = "fst (from_ranges_inner R ranges)"
  have i: "of_nat (length ranges) \<le> i \<longleftrightarrow> length ranges \<le> unat i"
    using assms by (simp add: word_le_nat_alt unat_of_nat_u64)
  have below: "unat i < length ranges \<Longrightarrow> seq_at R ?res i = ranges ! unat i"
    using seq_at_from_ranges_inner [OF assms, of "unat i" R] by simp
  show ?thesis
  proof (cases "?res \<noteq> [] \<and> \<not> rs_is_empty R (snd (last ?res))")
    case True
    with i below show ?thesis by (auto simp: from_ranges_unfold Let_def seq_at_snoc)
  next
    case False
    then have "last_ranges (rs_empty R) ?res = rs_empty R"
      by (auto simp: last_ranges_def is_empty_iff)
    then have "ranges \<noteq> [] \<Longrightarrow> last ranges = rs_empty R"
      by (simp add: last_ranges_from_ranges_inner)
    with seq_at_from_ranges_inner_beyond [OF assms, of i R] below False show ?thesis
      by (auto simp: from_ranges_unfold Let_def not_less)
  qed
qed

lemma from_ranges_finite: "\<not> is_infinite R (from_ranges R ranges)"
  by (simp add: is_infinite_def from_ranges_unfold Let_def is_empty_iff)

end

subsection \<open>Canonical form\<close>

text \<open>
  A sequence is canonical when its offsets increase and every entry changes the value: no
  entry repeats the ranges before it, and the first one is not empty.
\<close>

fun canonical_from :: "'r \<Rightarrow> 'r chunk_ranges_seq \<Rightarrow> bool" where
  "canonical_from prev [] = True"
| "canonical_from prev ((o', r) # s) = (r \<noteq> prev \<and> (\<forall>e\<in>set s. o' < fst e) \<and> canonical_from r s)"

lemma canonical_from_snoc:
  "canonical_from d (s @ [(o', r)]) \<longleftrightarrow>
    canonical_from d s \<and> r \<noteq> last_ranges d s \<and> (\<forall>e\<in>set s. fst e < o')"
  by (induction d s rule: canonical_from.induct) (auto simp: last_ranges_Cons)

lemma canonical_from_unique:
  assumes "canonical_from d s" "canonical_from d t"
    and "\<And>i. last_ranges d (filter (\<lambda>e. fst e \<le> i) s) = last_ranges d (filter (\<lambda>e. fst e \<le> i) t)"
  shows "s = t"
  using assms
proof (induction d s arbitrary: t rule: canonical_from.induct)
  case (1 d)
  show ?case
  proof (cases t)
    case (Cons e t')
    obtain o' r where e: "e = (o', r)" by (cases e)
    from 1 Cons e have "\<forall>e\<in>set t'. \<not> fst e \<le> o'" "r \<noteq> d" by (auto simp: not_le)
    with "1.prems"(3) [of o'] Cons e show ?thesis by simp
  qed simp
next
  case (2 d o' r s)
  have s: "\<forall>e\<in>set s. \<not> fst e \<le> o'" "r \<noteq> d" using 2 by (auto simp: not_le)
  show ?case
  proof (cases t)
    case Nil
    with s "2.prems"(3) [of o'] show ?thesis by simp
  next
    case (Cons e t')
    obtain p q where e: "e = (p, q)" by (cases e)
    have t: "\<forall>e\<in>set t'. \<not> fst e \<le> p" "q \<noteq> d" using 2 Cons e by (auto simp: not_le)
    have "p = o'"
    proof (rule ccontr)
      assume "p \<noteq> o'"
      then consider "p < o'" | "o' < p" by force
      then show False
      proof cases
        case 1
        from 1 s have "filter (\<lambda>e. fst e \<le> p) s = []"
          using "2.prems"(1) by (auto simp: filter_empty_conv not_le dest: less_trans)
        moreover from 1 have "\<not> o' \<le> p" by (simp add: not_le)
        ultimately show False using t "2.prems"(3) [of p] Cons e by simp
      next
        case 2
        from 2 t have "filter (\<lambda>e. fst e \<le> o') t' = []"
          using \<open>canonical_from d t\<close> Cons e by (auto simp: filter_empty_conv not_le dest: less_trans)
        moreover from 2 have "\<not> p \<le> o'" by (simp add: not_le)
        ultimately show False using s "2.prems"(3) [of o'] Cons e by simp
      qed
    qed
    moreover from this s t "2.prems"(3) [of o'] Cons e have "q = r" by simp
    moreover have "s = t'"
    proof (rule "2.IH")
      show "canonical_from r s" "canonical_from r t'" using 2 Cons e \<open>q = r\<close> by auto
      fix i
      show "last_ranges r (filter (\<lambda>e. fst e \<le> i) s) = last_ranges r (filter (\<lambda>e. fst e \<le> i) t')"
      proof (cases "o' \<le> i")
        case True
        with "2.prems"(3) [of i] Cons e \<open>p = o'\<close> \<open>q = r\<close> show ?thesis
          by (simp add: last_ranges_Cons)
      next
        case False
        then have "filter (\<lambda>e. fst e \<le> i) s = []" "filter (\<lambda>e. fst e \<le> i) t' = []"
          using s t \<open>p = o'\<close> by (auto simp: filter_empty_conv not_le dest: less_trans)
        then show ?thesis by simp
      qed
    qed
    ultimately show ?thesis using Cons e by simp
  qed
qed

abbreviation canonical :: "'r range_ops \<Rightarrow> 'r chunk_ranges_seq \<Rightarrow> bool" where
  "canonical R s \<equiv> canonical_from (rs_empty R) s"

lemma canonical_unique:
  "canonical R s \<Longrightarrow> canonical R t \<Longrightarrow> (\<And>i. seq_at R s i = seq_at R t i) \<Longrightarrow> s = t"
  by (rule canonical_from_unique) (simp_all add: seq_at_def)

lemma canonical_sorted: "canonical_from d s \<Longrightarrow> sorted_offsets s"
  by (induction d s rule: canonical_from.induct) auto

lemma canonical_from_ranges_inner:
  "length ranges < 2 ^ 64 \<Longrightarrow> canonical R (fst (from_ranges_inner R ranges))"
proof (induction ranges rule: rev_induct)
  case Nil
  show ?case by (simp add: from_ranges_inner_Nil)
next
  case (snoc rng ranges)
  moreover have "fst e < of_nat (length ranges)"
    if "e \<in> set (fst (from_ranges_inner R ranges))" for e
    using that snoc.prems by (intro from_ranges_inner_below) simp_all
  ultimately show ?case
    by (auto simp: from_ranges_inner_snoc snd_from_ranges_inner canonical_from_snoc)
qed

context range_set
begin

lemma canonical_from_ranges:
  assumes "length ranges < 2 ^ 64"
  shows "canonical R (from_ranges R ranges)"
  using canonical_from_ranges_inner [OF assms, of R] from_ranges_inner_below [OF assms]
  by (auto simp: from_ranges_unfold Let_def canonical_from_snoc last_ranges_def is_empty_iff)

end



subsection \<open>The wire encoding\<close>

context range_set
begin

lemma to_chunk_ranges_loop_deltas:
  "sorted (c # bs) \<Longrightarrow>
   rs_contains R (to_chunk_ranges_loop R acc c on (deltas c bs)) x \<longleftrightarrow>
   rs_contains R acc x \<or> (c \<le> x \<and> on_at on bs x)"
proof (induction bs arbitrary: c on acc)
  case (Cons b bs)
  have IH: "rs_contains R (to_chunk_ranges_loop R acc' b on' (deltas b bs)) x \<longleftrightarrow>
    rs_contains R acc' x \<or> (b \<le> x \<and> on_at on' bs x)" for acc' on'
    using Cons.prems by (intro Cons.IH) simp
  have cb: "c \<le> b" using Cons.prems by simp
  show ?case
  proof (cases "x < b")
    case True
    then have "\<not> b \<le> x" by (simp add: not_le)
    with True show ?thesis by (cases on) (simp_all add: IH contains_simps)
  next
    case False
    then have "b \<le> x" "c \<le> x" using cb by (simp_all add: not_less)
    with False show ?thesis by (cases on) (simp_all add: IH contains_simps)
  qed
qed (auto simp: contains_simps)

lemma to_chunk_ranges_new: "to_chunk_ranges R (range_spec_new R r) = r"
proof (rule rs_ext)
  fix x
  let ?bs = "rs_boundaries R r"
  have "sorted ?bs" using sorted_boundaries by (rule strict_sorted_imp_sorted)
  then have "sorted (0 # ?bs)" by simp
  moreover have "range_spec_new R r = deltas 0 ?bs"
    by (simp add: range_spec_new_def split: list.split)
  ultimately show "rs_contains R (to_chunk_ranges R (range_spec_new R r)) x = rs_contains R r x"
    by (simp add: to_chunk_ranges_def to_chunk_ranges_loop_deltas contains_simps contains_boundaries [of r])
qed

lemma from_wire_to_wire_loop: "from_wire_loop R off (to_wire_loop R off s) = s"
  by (induction s arbitrary: off) (auto simp: to_chunk_ranges_new)

end

text \<open>The chunks of a closed specification, counted on the boundary list.\<close>

lemma card_word_interval:
  fixes a b :: u64
  assumes "a \<le> b"
  shows "card {x. a \<le> x \<and> x < b} = unat b - unat a"
proof -
  have "unat ` {x. a \<le> x \<and> x < b} = {unat a..<unat b}"
  proof (intro equalityI subsetI)
    fix n assume n: "n \<in> {unat a..<unat b}"
    then have "n < 2 ^ 64" using unat_u64_lt [of b] by simp
    then have "n = unat (of_nat n :: u64)" by (simp add: unat_of_nat_u64)
    moreover from this n have "a \<le> of_nat n \<and> of_nat n < b"
      by (simp add: word_le_nat_alt word_less_nat_alt)
    ultimately show "n \<in> unat ` {x. a \<le> x \<and> x < b}" by blast
  qed (auto simp: word_le_nat_alt word_less_nat_alt)
  moreover have "card (unat ` {x. a \<le> x \<and> x < b}) = card {x. a \<le> x \<and> x < b}"
    by (intro card_image inj_onI) (simp add: word_unat_eq_iff)
  ultimately show ?thesis by simp
qed

fun closed_width :: "u64 list \<Rightarrow> nat" where
  "closed_width (a # b # bs) = (unat b - unat a) + closed_width bs"
| "closed_width _ = 0"

lemma closed_width_card:
  "sorted_wrt (<) bs \<Longrightarrow> even (length bs) \<Longrightarrow> card {x. on_at False bs x} = closed_width bs"
proof (induction bs rule: closed_width.induct)
  case (1 a b bs)
  have ab: "a < b" "\<forall>v\<in>set bs. b < v" using "1.prems" by auto
  have "{x. on_at False (a # b # bs) x} = {x. a \<le> x \<and> x < b} \<union> {x. on_at False bs x}"
  proof (intro set_eqI)
    fix x
    show "x \<in> {x. on_at False (a # b # bs) x} \<longleftrightarrow> x \<in> {x. a \<le> x \<and> x < b} \<union> {x. on_at False bs x}"
    proof (cases "x < b")
      case True
      with ab have "\<forall>v\<in>set bs. x < v" by force
      with True show ?thesis by (auto simp: on_at_below not_less)
    next
      case False
      with ab show ?thesis by auto
    qed
  qed
  moreover have "{x. a \<le> x \<and> x < b} \<inter> {x. on_at False bs x} = {}"
  proof -
    have "\<not> on_at False bs x" if "x < b" for x
      using that ab(2) by (subst on_at_below) (auto dest: less_trans)
    then show ?thesis by blast
  qed
  ultimately have "card {x. on_at False (a # b # bs) x} =
    card {x. a \<le> x \<and> x < b} + card {x. on_at False bs x}"
    by (simp add: card_Un_disjoint)
  with 1 ab show ?case by (simp add: card_word_interval less_imp_le)
qed (auto simp: card_eq_0_iff)

fun odd_sum :: "u64 list \<Rightarrow> u64" where
  "odd_sum (a # b # bs) = b + odd_sum bs"
| "odd_sum _ = 0"

lemma fold_add_start: "fold (\<lambda>i m. m + f i) is (c :: u64) = c + fold (\<lambda>i m. m + f i) is 0"
proof (induction "is" arbitrary: c)
  case (Cons i "is")
  show ?case using Cons.IH [of "c + f i"] Cons.IH [of "f i"] by simp
qed simp

lemma spec_chunks_odd_sum: "fst (spec_chunks w) = odd_sum w"
proof (induction w rule: odd_sum.induct)
  case (1 a b bs)
  have "fold (\<lambda>i m. m + (a # b # bs) ! (2 * i + 1)) [0..<Suc (length bs div 2)] 0 =
    fold (\<lambda>i m. m + (a # b # bs) ! (2 * i + 1)) (map Suc [0..<length bs div 2]) b"
    by (simp add: upt_rec [of 0 "Suc _"] map_Suc_upt del: upt_Suc)
  also have "\<dots> = b + fold (\<lambda>i m. m + bs ! (2 * i + 1)) [0..<length bs div 2] 0"
    by (simp add: fold_map comp_def fold_add_start [of _ _ b])
  finally show ?case using 1 by (simp add: spec_chunks_def Let_def)
qed (simp_all add: spec_chunks_def)

lemma odd_sum_deltas:
  "sorted (c # bs) \<Longrightarrow> unat (odd_sum (deltas c bs)) = closed_width bs \<and>
   (bs \<noteq> [] \<longrightarrow> unat (hd bs) + closed_width bs \<le> unat (last bs))"
proof (induction bs arbitrary: c rule: closed_width.induct)
  case (1 a b bs)
  then have ab: "a \<le> b" "sorted (b # bs)" by auto
  note IH = "1.IH" [OF ab(2)]
  have le: "unat a \<le> unat b" using ab(1) by (simp add: word_le_nat_alt)
  have "bs \<noteq> [] \<Longrightarrow> unat b \<le> unat (hd bs)"
    using ab(2) by (cases bs) (auto simp: word_le_nat_alt)
  with IH le have bound: "unat a + (unat b - unat a + closed_width bs) \<le> unat (last (b # bs))"
    by (cases "bs = []") auto
  have "unat (b - a) = unat b - unat a" using ab(1) by (rule unat_sub_u64)
  moreover have "unat (b - a) + unat (odd_sum (deltas b bs)) < 2 ^ 64"
    using IH bound le calculation unat_u64_lt [of "last (b # bs)"] by simp
  ultimately have "unat (b - a + odd_sum (deltas b bs)) = unat b - unat a + closed_width bs"
    using IH by (simp add: unat_add_u64)
  with bound show ?case by simp
qed auto

lemma length_deltas [simp]: "length (deltas c bs) = length bs"
  by (induction bs arbitrary: c) simp_all

context range_set
begin

lemma range_spec_new_deltas: "range_spec_new R r = deltas 0 (rs_boundaries R r)"
  by (simp add: range_spec_new_def split: list.split)

lemma spec_chunks_new:
  "spec_chunks (range_spec_new R r) =
    (let n = of_nat (closed_width (rs_boundaries R r)) in
     (n, if even (length (rs_boundaries R r)) then Some n else None))"
proof -
  have "sorted (0 # rs_boundaries R r)"
    using strict_sorted_imp_sorted [OF sorted_boundaries] by simp
  then have "closed_width (rs_boundaries R r) = unat (odd_sum (deltas 0 (rs_boundaries R r)))"
    by (simp add: odd_sum_deltas)
  then have "fst (spec_chunks (range_spec_new R r)) = of_nat (closed_width (rs_boundaries R r))"
    by (simp add: range_spec_new_deltas spec_chunks_odd_sum)
  then show ?thesis
    by (simp add: spec_chunks_def range_spec_new_deltas Let_def even_iff_mod_2_eq_zero)
qed

end

subsection \<open>The iterator over non-empty ranges\<close>

definition non_empty_at :: "'r range_ops \<Rightarrow> 'r chunk_ranges_seq \<Rightarrow> nat \<Rightarrow> 'r non_empty_iter" where
  "non_empty_at R s k = \<lparr>ne_inner = iter_at R s k, ne_count = of_nat k\<rparr>"

lemma non_empty_at_0: "iter_non_empty_infinite R s = non_empty_at R s 0"
  by (simp add: iter_non_empty_infinite_def non_empty_new_def non_empty_at_def iter_at_0)

lemma non_empty_next_step:
  assumes "sorted_offsets s" "k < 2 ^ 64 - 1"
  shows "non_empty_next R (non_empty_at R s k) =
    (if \<not> rs_is_empty R (seq_at R s (of_nat k))
     then (Some (of_nat k, seq_at R s (of_nat k)), non_empty_at R s (Suc k))
     else if is_at_end (iter_at R s (Suc k)) then (None, non_empty_at R s (Suc k))
     else non_empty_next R (non_empty_at R s (Suc k)))"
proof -
  have "unat (of_nat k :: u64) = k" using assms(2) by (simp add: unat_of_nat_u64)
  then have "(of_nat k :: u64) \<noteq> u64_max" using assms(2) by (auto simp: unat_u64_max)
  then have "checked_add_u64 (of_nat k) 1 = Some (of_nat (Suc k))"
    by (simp add: checked_add_1_Some add.commute)
  with assms show ?thesis
    by (subst non_empty_next.simps)
      (simp add: non_empty_at_def infinite_next_iter_at Let_def)
qed

lemma at_end_constant:
  assumes "sorted_offsets s" "is_at_end (iter_at R s (Suc k))" "k \<le> unat i" "k < 2 ^ 64"
  shows "seq_at R s i = seq_at R s (of_nat k)"
proof -
  have "unat (fst e) \<le> k" if "e \<in> set s" for e
    using assms(2) that by (auto simp: is_at_end_def iter_at_def filter_empty_conv not_le less_Suc_eq_le)
  then have "fst e \<le> of_nat k" "fst e \<le> i" if "e \<in> set s" for e
    using that assms(3,4) by (simp_all add: word_le_nat_alt unat_of_nat_u64 le_trans [of _ k])
  then show ?thesis by (simp add: seq_at_all_le)
qed

lemma iter_at_not_end:
  "\<not> is_at_end (iter_at R s (Suc k)) \<Longrightarrow> k < 2 ^ 64 - 1"
proof -
  assume "\<not> is_at_end (iter_at R s (Suc k))"
  then obtain e :: "u64 \<times> 'a" where "Suc k \<le> unat (fst e)"
    by (force simp: is_at_end_def iter_at_def filter_empty_conv)
  then show ?thesis using unat_u64_lt [of "fst e"] by simp
qed


context range_set
begin

lemma non_empty_next_finds:
  assumes "sorted_offsets s" "k \<le> j" "j < 2 ^ 64 - 1"
    and "seq_at R s (of_nat j) \<noteq> rs_empty R"
    and "\<And>i. k \<le> i \<Longrightarrow> i < j \<Longrightarrow> seq_at R s (of_nat i) = rs_empty R"
  shows "non_empty_next R (non_empty_at R s k) =
    (Some (of_nat j, seq_at R s (of_nat j)), non_empty_at R s (Suc j))"
  using assms(2,5)
proof (induction "j - k" arbitrary: k)
  case 0
  then have "k = j" by simp
  with assms show ?case by (simp add: non_empty_next_step is_empty_iff)
next
  case (Suc n)
  then have k: "k < j" "seq_at R s (of_nat k) = rs_empty R" by simp_all
  have "unat (of_nat j :: u64) = j" using assms(3) by (simp add: unat_of_nat_u64)
  with k assms(3,4) have "\<not> is_at_end (iter_at R s (Suc k))"
    using at_end_constant [OF assms(1), of R k "of_nat j"] by auto
  moreover have "non_empty_next R (non_empty_at R s (Suc k)) =
    (Some (of_nat j, seq_at R s (of_nat j)), non_empty_at R s (Suc j))"
    using Suc k by (intro Suc.hyps(1)) simp_all
  ultimately show ?case
    using k assms(1,3) by (simp add: non_empty_next_step is_empty_iff)
qed

lemma non_empty_next_last:
  assumes "sorted_offsets s"
  shows "fst (non_empty_next R (non_empty_at R s (2 ^ 64 - 1))) = None"
proof -
  have max: "(of_nat (2 ^ 64 - 1) :: u64) = u64_max" by (simp add: u64_max_def)
  have none: "checked_add_u64 u64_max 1 = None" by simp
  show ?thesis
    using infinite_next_iter_at [OF assms, of "2 ^ 64 - 1" R, unfolded max]
    unfolding non_empty_at_def max by (subst non_empty_next.simps) (simp add: none)
qed

lemma non_empty_next_exhausted:
  assumes "sorted_offsets s" "k \<le> 2 ^ 64 - 1"
    and "\<And>i. k \<le> i \<Longrightarrow> i < 2 ^ 64 - 1 \<Longrightarrow> seq_at R s (of_nat i) = rs_empty R"
  shows "fst (non_empty_next R (non_empty_at R s k)) = None"
  using assms(2,3)
proof (induction "2 ^ 64 - 1 - k" arbitrary: k)
  case 0
  then have "k = 2 ^ 64 - 1" by simp
  then show ?case using non_empty_next_last [OF assms(1)] by simp
next
  case (Suc n)
  then have "k < 2 ^ 64 - 1" "fst (non_empty_next R (non_empty_at R s (Suc k))) = None"
    by (auto intro!: Suc.hyps(1))
  with Suc.prems assms(1) show ?case by (simp add: non_empty_next_step is_empty_iff)
qed

end

lemma non_empty_next_count:
  "non_empty_next R it = (Some x, it') \<Longrightarrow> unat (ne_count it) < unat (ne_count it')"
proof (induction R it rule: non_empty_next.induct)
  case (1 R it)
  obtain cur inner' where i: "infinite_next (ne_inner it) = (Some cur, inner')"
    using infinite_next_Some [of "ne_inner it"] by (cases "infinite_next (ne_inner it)") auto
  obtain c where c: "checked_add_u64 (ne_count it) 1 = Some c"
    using "1.prems" i by (subst (asm) non_empty_next.simps) (auto split: option.splits)
  then have lt: "unat (ne_count it) < unat c" using checked_add_u64_Some [OF c] by simp
  show ?case
  proof (cases "rs_is_empty R cur \<and> \<not> is_at_end inner'")
    case True
    let ?it = "it\<lparr>ne_inner := inner', ne_count := c\<rparr>"
    have "non_empty_next R ?it = (Some x, it')" using "1.prems" i c True by (subst (asm) non_empty_next.simps) (simp add: Let_def)
    moreover have "unat (ne_count ?it) < unat (ne_count it')"
      using "1.IH" [OF i [symmetric] refl c refl] True calculation by simp
    ultimately show ?thesis using lt by simp
  next
    case False
    then show ?thesis using "1.prems" i c lt
      by (subst (asm) non_empty_next.simps) (auto simp: Let_def split: if_splits)
  qed
qed

lemma infinite_next_current: "infinite_next_loop cur off s = (Some v, it) \<Longrightarrow> it_current it = v"
  by (induction cur off s rule: infinite_next_loop.induct) (auto split: if_splits)

lemma non_empty_next_stays:
  "non_empty_next R it = (None, it') \<Longrightarrow> fst (non_empty_next R it') = None"
proof (induction R it rule: non_empty_next.induct)
  case (1 R it)
  obtain cur inner' where i: "infinite_next (ne_inner it) = (Some cur, inner')"
    using infinite_next_Some [of "ne_inner it"] by (cases "infinite_next (ne_inner it)") auto
  show ?case
  proof (cases "checked_add_u64 (ne_count it) 1")
    case None
    then have m: "ne_count it = u64_max" by simp
    have n: "checked_add_u64 u64_max 1 = None" by simp
    have "it' = it\<lparr>ne_inner := inner'\<rparr>" using "1.prems" by (subst (asm) non_empty_next.simps) (simp add: i m n)
    then show ?thesis by (subst non_empty_next.simps) (simp add: m n split: prod.split option.split)
  next
    case (Some c)
    let ?it = "it\<lparr>ne_inner := inner', ne_count := c\<rparr>"
    show ?thesis
    proof (cases "rs_is_empty R cur \<and> \<not> is_at_end inner'")
      case True
      then have "non_empty_next R ?it = (None, it')" using "1.prems" i Some by (subst (asm) non_empty_next.simps) (simp add: Let_def)
      then show ?thesis using "1.IH" [OF i [symmetric] refl Some refl] True by simp
    next
      case False
      then have it': "it' = ?it" "rs_is_empty R cur" "is_at_end inner'"
        using "1.prems" i Some by (subst (asm) non_empty_next.simps; auto simp: Let_def split: if_splits)+
      have "it_current inner' = cur" by (rule infinite_next_current [OF i [unfolded infinite_next_def]])
      then have "infinite_next inner' = (Some cur, inner'\<lparr>it_offset := it_offset inner' + 1\<rparr>)"
        using it'(3) by (simp add: infinite_next_def is_at_end_def)
      then show ?thesis using it'
        by (subst non_empty_next.simps) (simp add: is_at_end_def Let_def split: option.split)
    qed
  qed
qed

context range_set
begin

text \<open>The iterator either finds the next non-empty index or is exhausted for good.\<close>

lemma non_empty_cases:
  assumes "sorted_offsets s" "k \<le> 2 ^ 64 - 1"
  obtains (Next) j where "k \<le> j" "j < 2 ^ 64 - 1" "seq_at R s (of_nat j) \<noteq> rs_empty R"
      "\<And>i. k \<le> i \<Longrightarrow> i < j \<Longrightarrow> seq_at R s (of_nat i) = rs_empty R"
      "non_empty_next R (non_empty_at R s k) = (Some (of_nat j, seq_at R s (of_nat j)), non_empty_at R s (Suc j))"
    | (Ended) it where "\<And>i. k \<le> i \<Longrightarrow> i < 2 ^ 64 - 1 \<Longrightarrow> seq_at R s (of_nat i) = rs_empty R"
      "non_empty_next R (non_empty_at R s k) = (None, it)"
proof (cases "\<exists>j. k \<le> j \<and> j < 2 ^ 64 - 1 \<and> seq_at R s (of_nat j) \<noteq> rs_empty R")
  case True
  define j where "j = (LEAST j. k \<le> j \<and> j < 2 ^ 64 - 1 \<and> seq_at R s (of_nat j) \<noteq> rs_empty R)"
  have j: "k \<le> j" "j < 2 ^ 64 - 1" "seq_at R s (of_nat j) \<noteq> rs_empty R"
    using LeastI_ex [OF True, folded j_def] by auto
  moreover have before: "seq_at R s (of_nat i) = rs_empty R" if "k \<le> i" "i < j" for i
    using not_less_Least [of i "\<lambda>j. k \<le> j \<and> j < 2 ^ 64 - 1 \<and> seq_at R s (of_nat j) \<noteq> rs_empty R", folded j_def] that j(2) by auto
  ultimately show ?thesis using Next non_empty_next_finds [OF assms(1) j before] by blast
next
  case False
  then have e: "\<And>i. k \<le> i \<Longrightarrow> i < 2 ^ 64 - 1 \<Longrightarrow> seq_at R s (of_nat i) = rs_empty R" by blast
  from non_empty_next_exhausted [OF assms e] obtain it where "non_empty_next R (non_empty_at R s k) = (None, it)"
    by (metis prod.collapse)
  with e Ended show ?thesis by blast
qed

end

subsection \<open>Single blobs\<close>

context range_set
begin

lemma canonical_single:
  assumes "o' \<noteq> u64_max" "r \<noteq> rs_empty R"
  shows "canonical R [(o', r), (o' + 1, rs_empty R)]"
    and "seq_at R [(o', r), (o' + 1, rs_empty R)] i = (if i = o' then r else rs_empty R)"
proof -
  have lt: "o' < o' + 1" using assms(1) by (simp add: less_Suc_u64)
  then show "canonical R [(o', r), (o' + 1, rs_empty R)]" using assms(2) by simp
  show "seq_at R [(o', r), (o' + 1, rs_empty R)] i = (if i = o' then r else rs_empty R)"
    using assms(1) by (auto simp: seq_at_def Suc_le_u64 last_ranges_def not_le less_le)
qed

lemma as_single_canonical:
  assumes "canonical R s"
  shows "as_single R s = Some (o', r) \<longleftrightarrow>
    o' \<noteq> u64_max \<and> r \<noteq> rs_empty R \<and> (\<forall>i. seq_at R s i = (if i = o' then r else rs_empty R))"
    (is "?l \<longleftrightarrow> ?r")
proof
  assume ?l
  then have s: "s = [(o', r), (o' + 1, rs_empty R)]"
    by (auto simp: as_single_def is_empty_iff split: list.splits if_splits)
  with assms have "o' < o' + 1" "r \<noteq> rs_empty R" by auto
  moreover from this have "o' \<noteq> u64_max" by (auto simp: u64_max_def)
  ultimately show ?r using s canonical_single(2) by simp
next
  assume ?r
  then have r: "o' \<noteq> u64_max" "r \<noteq> rs_empty R"
    "\<And>i. seq_at R s i = (if i = o' then r else rs_empty R)" by auto
  note single = canonical_single [OF r(1,2)]
  have "s = [(o', r), (o' + 1, rs_empty R)]"
    using assms single(1) by (rule canonical_unique) (simp only: r(3) single(2))
  then show ?l by (simp add: as_single_def is_empty_iff)
qed

lemma map_Some_seq_at:
  assumes "length ranges + n < 2 ^ 64"
  shows "map (\<lambda>j. Some (seq_at R (from_ranges R ranges) (of_nat j))) [0..<length ranges + n] =
    map Some ranges @ replicate n (Some (rs_empty R))"
proof (rule nth_equalityI, simp)
  fix j assume "j < length (map (\<lambda>j. Some (seq_at R (from_ranges R ranges) (of_nat j))) [0..<length ranges + n])"
  then have j: "j < length ranges + n" by simp
  with assms have "unat (of_nat j :: u64) = j" by (intro unat_of_nat_u64) simp
  with j assms show "map (\<lambda>j. Some (seq_at R (from_ranges R ranges) (of_nat j))) [0..<length ranges + n] ! j =
    (map Some ranges @ replicate n (Some (rs_empty R))) ! j"
    by (simp add: seq_at_from_ranges nth_append)
qed

lemma take_from_ranges:
  assumes "length ranges + n < 2 ^ 64"
  shows "take_infinite (length ranges + n) (iter_infinite R (from_ranges R ranges)) =
    map Some ranges @ replicate n (Some (rs_empty R))"
proof -
  have "length ranges < 2 ^ 64" using assms by simp
  then show ?thesis
    using take_infinite_iter_at [OF sorted_from_ranges, of ranges 0 "length ranges + n" R] assms
    by (simp add: iter_at_0 map_Some_seq_at [OF assms] del: upt_Suc upt.simps)
qed

lemma from_ranges_unique:
  assumes "length ranges < 2 ^ 64" "canonical R s"
    and "\<And>i. seq_at R s i = (if unat i < length ranges then ranges ! unat i else rs_empty R)"
  shows "from_ranges R ranges = s"
  using canonical_from_ranges [OF assms(1)] assms(2)
  by (rule canonical_unique) (simp only: seq_at_from_ranges [OF assms(1)] assms(3))

lemma spec_chunks_card:
  "spec_chunks (range_spec_new R r) =
    (if even (length (rs_boundaries R r))
     then (of_nat (card {x. rs_contains R r x}), Some (of_nat (card {x. rs_contains R r x})))
     else (of_nat (closed_width (rs_boundaries R r)), None))"
  using closed_width_card [OF sorted_boundaries, of r]
  by (simp add: spec_chunks_new Let_def contains_boundaries [of r])

end

section \<open>Properties\<close>

text \<open>
  C32. Lookup and iteration agree: for a sequence with increasing offsets, the binary search of
  \<open>Index::index\<close> returns at every 64-bit index the item that \<open>iter_infinite\<close> yields there, and
  both are the ranges of the last entry that starts at or before the index.
\<close>

theorem index_is_iteration:
  assumes "sorted_offsets s" "n < 2 ^ 64"
  shows "take_infinite (Suc n) (iter_infinite R s) ! n = Some (index R s (of_nat n)) \<and>
    index R s (of_nat n) = seq_at R s (of_nat n)"
  using index_seq_at [OF assms(1), of R "of_nat n"] take_infinite_iter_at [OF assms(1), of 0 "Suc n" R]
    assms(2)
  by (simp add: iter_at_0 del: upt_Suc take_infinite.simps)

theorem index_is_iteration_witness:
  "take_infinite (Suc 7) (iter_infinite ref_ops [(2, rs_all ref_ops), (5, rs_empty ref_ops)]) ! 7 =
     Some (index ref_ops [(2, rs_all ref_ops), (5, rs_empty ref_ops)] 7) \<and>
   index ref_ops [(2, rs_all ref_ops), (5, rs_empty ref_ops)] 3 = rs_all ref_ops"
  using index_is_iteration [of "[(2, rs_all ref_ops), (5, rs_empty ref_ops)]" 7 ref_ops]
    index_is_iteration [of "[(2, rs_all ref_ops), (5, rs_empty ref_ops)]" 3 ref_ops]
  by (simp add: seq_at_def last_ranges_def del: take_infinite.simps)

text \<open>
  \<open>ChunkRangesSeq::from_ranges\<close> is lossless: iterating the sequence built from a list of
  ranges yields exactly the list, followed by empty ranges for ever, and the result is finite.
\<close>

theorem from_ranges_iterates:
  assumes "range_set R" "length ranges + n < 2 ^ 64"
  shows "take_infinite (length ranges + n) (iter_infinite R (from_ranges R ranges)) =
      map Some ranges @ replicate n (Some (rs_empty R)) \<and>
    \<not> is_infinite R (from_ranges R ranges)"
  using range_set.take_from_ranges [OF assms] range_set.from_ranges_finite [OF assms(1)] by blast

theorem from_ranges_iterates_witness:
  "take_infinite (Suc (Suc (Suc (Suc (Suc 0))))) (iter_infinite ref_ops
      (from_ranges ref_ops [rs_empty ref_ops, rs_all ref_ops, rs_all ref_ops])) =
    [Some (rs_empty ref_ops), Some (rs_all ref_ops), Some (rs_all ref_ops),
     Some (rs_empty ref_ops), Some (rs_empty ref_ops)]"
proof -
  have "replicate 2 x = [x, x]" for x :: "rset option" by (simp add: numeral_2_eq_2)
  then show ?thesis
    using from_ranges_iterates
      [OF ref.range_set_axioms, of "[rs_empty ref_ops, rs_all ref_ops, rs_all ref_ops]" 2]
    by (simp del: take_infinite.simps)
qed

text \<open>
  The canonical form is unique: among the sequences whose offsets increase and whose entries
  all change the value, the result of \<open>from_ranges\<close> is the only one with its meaning. Derived
  equality on \<open>ChunkRangesSeq\<close> therefore decides whether two requests ask for the same chunks.
\<close>

theorem from_ranges_canonical:
  assumes "range_set R" "length ranges < 2 ^ 64" "canonical R s"
    and "\<And>i. seq_at R s i = (if unat i < length ranges then ranges ! unat i else rs_empty R)"
  shows "from_ranges R ranges = s"
  using assms by (rule range_set.from_ranges_unique)

theorem from_ranges_canonical_witness:
  "from_ranges ref_ops [rs_all ref_ops] = seq_root ref_ops"
proof (rule from_ranges_canonical [OF ref.range_set_axioms])
  show "length [rs_all ref_ops] < 2 ^ 64" by simp
  show "canonical ref_ops (seq_root ref_ops)" by (simp add: seq_root_def)
  fix i :: u64
  show "seq_at ref_ops (seq_root ref_ops) i =
      (if unat i < length [rs_all ref_ops] then [rs_all ref_ops] ! unat i else rs_empty ref_ops)"
    by (cases "i = 0") (simp_all add: seq_root_def seq_at_def last_ranges_def word_le_nat_alt
        unat_pos_u64 Suc_le_eq)
qed

text \<open>
  \<open>as_single\<close> recognises exactly the canonical requests for ranges of one child: it returns
  \<open>(o, r)\<close> just when \<open>r\<close> is not empty, is requested at index \<open>o\<close>, and nothing is requested at
  any other index (the last 64-bit index cannot be closed and is never recognised).
\<close>

theorem as_single_exact:
  assumes "range_set R" "canonical R s"
  shows "as_single R s = Some (o', r) \<longleftrightarrow>
    o' \<noteq> u64_max \<and> r \<noteq> rs_empty R \<and> (\<forall>i. seq_at R s i = (if i = o' then r else rs_empty R))"
  using assms by (rule range_set.as_single_canonical)

theorem as_single_exact_witness:
  "as_single ref_ops [(3, rs_all ref_ops), (4, rs_empty ref_ops)] = Some (3, rs_all ref_ops) \<and>
   (\<forall>i. seq_at ref_ops [(3, rs_all ref_ops), (4, rs_empty ref_ops)] i =
     (if i = 3 then rs_all ref_ops else rs_empty ref_ops))"
proof -
  let ?s = "[(3, rs_all ref_ops), (4, rs_empty ref_ops)]"
  have "canonical ref_ops ?s" by simp
  moreover have "as_single ref_ops ?s = Some (3, rs_all ref_ops)"
    by (simp add: as_single_def ref.is_empty_iff)
  ultimately show ?thesis
    using as_single_exact [OF ref.range_set_axioms, of ?s 3 "rs_all ref_ops"] by blast
qed

text \<open>
  C33. The wire encoding of a sequence loses nothing: delta-encoding every range set and every
  offset and decoding the result gives the sequence back. This holds for every sequence, as the
  deltas are taken and added modulo \<open>2 ^ 64\<close>.
\<close>

theorem wire_round_trip:
  assumes "range_set R"
  shows "from_wire R (to_wire R s) = s"
  using range_set.from_wire_to_wire_loop [OF assms] by (simp add: from_wire_def to_wire_def)

theorem wire_round_trip_witness:
  "from_wire ref_ops (to_wire ref_ops [(0, rs_range ref_ops 5 9), (1, last_chunk ref_ops)]) =
     [(0, rs_range ref_ops 5 9), (1, last_chunk ref_ops)]"
  by (rule wire_round_trip [OF ref.range_set_axioms])

text \<open>
  \<open>RangeSpec::chunks\<close> counts: for a range set that is bounded it returns the number of its
  chunks as lower and as upper bound, with no overflow of the 64-bit sum, and for one that is
  not it returns no upper bound.
\<close>

theorem spec_chunks_counts:
  assumes "range_set R"
  shows "spec_chunks (range_spec_new R r) =
    (if even (length (rs_boundaries R r))
     then (of_nat (card {x. rs_contains R r x}), Some (of_nat (card {x. rs_contains R r x})))
     else (of_nat (closed_width (rs_boundaries R r)), None))"
  using assms by (rule range_set.spec_chunks_card)

theorem spec_chunks_counts_witness:
  "spec_chunks (range_spec_new ref_ops (rs_range ref_ops 5 9)) = (4, Some 4) \<and>
   of_nat (card {x. rs_contains ref_ops (rs_range ref_ops 5 9) x}) = (4 :: u64)"
  using spec_chunks_counts [OF ref.range_set_axioms, of "rs_range ref_ops 5 9"]
  by (simp add: ref.boundaries_range range_spec_new_def spec_chunks_def)

text \<open>
  The iterator over non-empty ranges skips exactly the empty ones: from any position it
  returns the next index with non-empty ranges together with these ranges and goes on behind it,
  and if there is none (below the last 64-bit index) it ends, also for an infinite sequence.
\<close>

theorem non_empty_next_exact:
  assumes "range_set R" "sorted_offsets s" "k \<le> 2 ^ 64 - 1"
  shows "(\<forall>j. k \<le> j \<and> j < 2 ^ 64 - 1 \<and> seq_at R s (of_nat j) \<noteq> rs_empty R \<and>
        (\<forall>i. k \<le> i \<and> i < j \<longrightarrow> seq_at R s (of_nat i) = rs_empty R) \<longrightarrow>
        non_empty_next R (non_empty_at R s k) =
          (Some (of_nat j, seq_at R s (of_nat j)), non_empty_at R s (Suc j))) \<and>
    ((\<forall>j. k \<le> j \<and> j < 2 ^ 64 - 1 \<longrightarrow> seq_at R s (of_nat j) = rs_empty R) \<longrightarrow>
      fst (non_empty_next R (non_empty_at R s k)) = None)"
  using range_set.non_empty_next_finds [OF assms(1,2)]
    range_set.non_empty_next_exhausted [OF assms] by blast

theorem non_empty_next_exact_witness:
  "non_empty_next ref_ops (iter_non_empty_infinite ref_ops [(2, rs_all ref_ops)]) =
     (Some (2, rs_all ref_ops), non_empty_at ref_ops [(2, rs_all ref_ops)] 3)"
proof -
  have at: "seq_at ref_ops [(2, rs_all ref_ops)] (of_nat i) =
      (if i < 2 then rs_empty ref_ops else rs_all ref_ops)" if "i \<le> 2" for i
    using that by (auto simp: seq_at_def word_le_nat_alt unat_of_nat_u64)
  show ?thesis
    using non_empty_next_exact [OF ref.range_set_axioms, of "[(2, rs_all ref_ops)]" 0,
        THEN conjunct1, rule_format, of 2] at [of 2] at
    by (simp add: non_empty_at_0)
qed

end
