(* ===== verification/Hash.thy ===== *)
theory Hash
  imports Prelude
begin

text \<open>
  Hashes and blob formats, \<open>src/hash.rs\<close>: the 32-byte hash with its byte-wise order, the format
  of a blob, pairs of both, and their textual and \<open>serde\<close> forms. A Rust string is its list of
  bytes. The hash function and the codecs of the crates \<open>data-encoding\<close> and \<open>hex\<close> are
  parameters (\<open>hex_ops\<close>, locale \<open>hex_laws\<close>).
\<close>

section \<open>Hashes\<close>

text \<open>A \<open>[u8; 32]\<close> is a list of that length; \<open>from_bytes\<close> pads or cuts any other list.\<close>

typedef hash = "{bs :: bytes. length bs = 32}"
  morphisms as_bytes Hash_of
  by (rule exI [of _ "replicate 32 0"]) simp

lemma Hash_of_as_bytes [code abstype]: "Hash_of (as_bytes h) = h"
  by (rule as_bytes_inverse)

definition from_bytes :: "bytes \<Rightarrow> hash" where
  "from_bytes bs = Hash_of (take 32 (bs @ replicate 32 0))"

lemma as_bytes_from_bytes_padded [code abstract]:
  "as_bytes (from_bytes bs) = take 32 (bs @ replicate 32 0)"
  by (simp add: from_bytes_def Hash_of_inverse)

lemma as_bytes_from_bytes: "length bs = 32 \<Longrightarrow> as_bytes (from_bytes bs) = bs"
  by (simp add: as_bytes_from_bytes_padded)

lemma length_as_bytes [simp]: "length (as_bytes h) = 32"
  using as_bytes by blast

lemma from_bytes_as_bytes [simp]: "from_bytes (as_bytes h) = h"
  by (simp add: as_bytes_from_bytes flip: as_bytes_inject)

lemma from_bytes_inject:
  "length a = 32 \<Longrightarrow> length b = 32 \<Longrightarrow> from_bytes a = from_bytes b \<longleftrightarrow> a = b"
  by (metis as_bytes_from_bytes)

text \<open>\<open>PartialEq\<close> and \<open>Ord\<close> compare the bytes.\<close>

instantiation hash :: equal
begin

definition equal_hash :: "hash \<Rightarrow> hash \<Rightarrow> bool" where
  "equal_hash a b \<longleftrightarrow> as_bytes a = as_bytes b"

instance
  by standard (simp add: equal_hash_def as_bytes_inject)

end

instantiation hash :: linorder
begin

definition less_eq_hash :: "hash \<Rightarrow> hash \<Rightarrow> bool" where
  "less_eq_hash a b \<longleftrightarrow> as_bytes a \<le> as_bytes b"

definition less_hash :: "hash \<Rightarrow> hash \<Rightarrow> bool" where
  "less_hash a b \<longleftrightarrow> as_bytes a < as_bytes b"

instance
  by standard (auto simp: less_eq_hash_def less_hash_def as_bytes_inject less_le)

end

definition hash_empty :: hash where
  "hash_empty = from_bytes
     [175, 19, 73, 185, 245, 249, 161, 166, 160, 64, 77, 234, 54, 220, 201, 73, 155, 203, 37,
      201, 173, 193, 18, 183, 204, 154, 147, 202, 228, 31, 50, 98]"

text \<open>\<open>Hash::new\<close> for a hash function of byte strings.\<close>

definition hash_new :: "(bytes \<Rightarrow> bytes) \<Rightarrow> bytes \<Rightarrow> hash" where
  "hash_new blake3 buf = from_bytes (blake3 buf)"

section \<open>Formats\<close>

datatype blob_format = Raw | HashSeq

definition format_to_u64 :: "blob_format \<Rightarrow> u64" where
  "format_to_u64 f = (case f of Raw \<Rightarrow> 0 | HashSeq \<Rightarrow> 1)"

definition is_raw :: "blob_format \<Rightarrow> bool" where
  "is_raw f = (case f of Raw \<Rightarrow> True | _ \<Rightarrow> False)"

definition is_hash_seq :: "blob_format \<Rightarrow> bool" where
  "is_hash_seq f = (case f of HashSeq \<Rightarrow> True | _ \<Rightarrow> False)"

lemma is_raw_simps [simp]: "is_raw Raw" "\<not> is_raw HashSeq"
  by (simp_all add: is_raw_def)

lemma is_hash_seq_simps [simp]: "is_hash_seq HashSeq" "\<not> is_hash_seq Raw"
  by (simp_all add: is_hash_seq_def)

text \<open>The derived order of the variants is the order of their declaration.\<close>

instantiation blob_format :: linorder
begin

definition less_eq_blob_format :: "blob_format \<Rightarrow> blob_format \<Rightarrow> bool" where
  "less_eq_blob_format a b \<longleftrightarrow> (a = Raw \<or> b = HashSeq)"

definition less_blob_format :: "blob_format \<Rightarrow> blob_format \<Rightarrow> bool" where
  "less_blob_format a b \<longleftrightarrow> (a = Raw \<and> b = HashSeq)"

instance
  by standard (auto simp: less_eq_blob_format_def less_blob_format_def; metis blob_format.exhaust)+

end

record hash_and_format =
  hf_hash :: hash
  hf_format :: blob_format

definition hf_new :: "hash \<Rightarrow> blob_format \<Rightarrow> hash_and_format" where
  "hf_new h f = \<lparr>hf_hash = h, hf_format = f\<rparr>"

definition hf_raw :: "hash \<Rightarrow> hash_and_format" where
  "hf_raw h = \<lparr>hf_hash = h, hf_format = Raw\<rparr>"

definition hf_hash_seq :: "hash \<Rightarrow> hash_and_format" where
  "hf_hash_seq h = \<lparr>hf_hash = h, hf_format = HashSeq\<rparr>"

section \<open>Text\<close>

text \<open>
  What the codecs do with an output buffer of a given length: \<open>decode_mut\<close> of \<open>data-encoding\<close>
  panics unless the decoded length is that of the buffer, \<open>decode_to_slice\<close> of \<open>hex\<close> returns an
  error then.
\<close>

datatype decoded = Decoded bytes | Decode_Error | Decode_Panic

record hex_ops =
  to_hex_lower :: "bytes \<Rightarrow> bytes"                    \<comment> \<open>\<open>blake3::Hash::to_hex\<close>, \<open>hex::encode_to_slice\<close>\<close>
  hexlower_decode_mut :: "bytes \<Rightarrow> nat \<Rightarrow> decoded"    \<comment> \<open>\<open>HEXLOWER.decode_mut\<close>\<close>
  base32_decode_mut :: "bytes \<Rightarrow> nat \<Rightarrow> decoded"      \<comment> \<open>\<open>BASE32_NOPAD.decode_mut\<close>\<close>
  base32_decode_len :: "nat \<Rightarrow> nat option"            \<comment> \<open>\<open>BASE32_NOPAD.decode_len\<close>\<close>
  hex_decode_to_slice :: "bytes \<Rightarrow> nat \<Rightarrow> bytes option" \<comment> \<open>\<open>hex::decode_to_slice\<close>\<close>

locale hex_laws =
  fixes X :: hex_ops
  assumes length_to_hex: "length (to_hex_lower X bs) = 2 * length bs"
    and hexlower_decode_hex: "hexlower_decode_mut X (to_hex_lower X bs) (length bs) = Decoded bs"
    and hex_decode_hex: "hex_decode_to_slice X (to_hex_lower X bs) (length bs) = Some bs"
    and base32_panics: "base32_decode_len X (length s) \<noteq> Some n \<Longrightarrow> base32_decode_mut X s n = Decode_Panic"

datatype parse_error = DecodeInvalidLength | Decode | Panicked | InvalidHashAndFormat

definition to_ascii_uppercase :: "bytes \<Rightarrow> bytes" where
  "to_ascii_uppercase = map (\<lambda>b. if 97 \<le> b \<and> b \<le> 122 then b - 32 else b)"

definition hash_to_string :: "hex_ops \<Rightarrow> hash \<Rightarrow> bytes" where
  "hash_to_string X h = to_hex_lower X (as_bytes h)"

definition fmt_short :: "hex_ops \<Rightarrow> hash \<Rightarrow> bytes" where
  "fmt_short X h = to_hex_lower X (take 5 (as_bytes h))"

definition hash_from_str :: "hex_ops \<Rightarrow> bytes \<Rightarrow> parse_error + hash" where
  "hash_from_str X s =
     (let res = (if length s = 64 then hexlower_decode_mut X s 32
                 else base32_decode_mut X (to_ascii_uppercase s) 32) in
      case res of
        Decode_Panic \<Rightarrow> Inl Panicked
      | Decode_Error \<Rightarrow> Inl Decode
      | Decoded bytes \<Rightarrow>
          if length bytes \<noteq> 32 then Inl DecodeInvalidLength else Inr (from_bytes bytes))"

definition hf_to_string :: "hex_ops \<Rightarrow> hash_and_format \<Rightarrow> bytes" where
  "hf_to_string X hf =
     (let slice = to_hex_lower X (as_bytes (hf_hash hf)) in
      case hf_format hf of Raw \<Rightarrow> slice | HashSeq \<Rightarrow> 115 # slice)"

definition hf_from_str :: "hex_ops \<Rightarrow> bytes \<Rightarrow> parse_error + hash_and_format" where
  "hf_from_str X s =
     (if length s = 64 then
        (case hex_decode_to_slice X s 32 of
           None \<Rightarrow> Inl Decode
         | Some h \<Rightarrow> Inr (hf_raw (from_bytes h)))
      else if length s = 65 \<and> (s ! 0 = 115 \<or> s ! 0 = 83) then
        (case hex_decode_to_slice X (drop 1 s) 32 of
           None \<Rightarrow> Inl Decode
         | Some h \<Rightarrow> Inr (hf_hash_seq (from_bytes h)))
      else Inl InvalidHashAndFormat)"

section \<open>Serialization\<close>

text \<open>
  The value handed to a \<open>serde\<close> serializer: a string for human-readable formats, the bytes or
  the pair of hash and format otherwise.
\<close>

datatype serde_value = Ser_Str bytes | Ser_Bytes bytes | Ser_Pair bytes blob_format

definition hash_serialize :: "hex_ops \<Rightarrow> bool \<Rightarrow> hash \<Rightarrow> serde_value" where
  "hash_serialize X human_readable h =
     (if human_readable then Ser_Str (hash_to_string X h) else Ser_Bytes (as_bytes h))"

definition hash_deserialize :: "hex_ops \<Rightarrow> bool \<Rightarrow> serde_value \<Rightarrow> parse_error + hash" where
  "hash_deserialize X human_readable v =
     (if human_readable then
        (case v of Ser_Str s \<Rightarrow> hash_from_str X s | _ \<Rightarrow> Inl Decode)
      else (case v of Ser_Bytes bs \<Rightarrow> if length bs = 32 then Inr (from_bytes bs) else Inl Decode
                    | _ \<Rightarrow> Inl Decode))"

definition hf_serialize :: "hex_ops \<Rightarrow> bool \<Rightarrow> hash_and_format \<Rightarrow> serde_value" where
  "hf_serialize X human_readable hf =
     (if human_readable then Ser_Str (hf_to_string X hf)
      else Ser_Pair (as_bytes (hf_hash hf)) (hf_format hf))"

definition hf_deserialize :: "hex_ops \<Rightarrow> bool \<Rightarrow> serde_value \<Rightarrow> parse_error + hash_and_format" where
  "hf_deserialize X human_readable v =
     (if human_readable then
        (case v of Ser_Str s \<Rightarrow> hf_from_str X s | _ \<Rightarrow> Inl Decode)
      else (case v of
              Ser_Pair bs f \<Rightarrow> if length bs = 32 then Inr (hf_new (from_bytes bs) f) else Inl Decode
            | _ \<Rightarrow> Inl Decode))"


section \<open>An implementation of the codecs\<close>

definition hex_digit :: "u8 \<Rightarrow> u8" where
  "hex_digit n = (if n < 10 then 48 + n else 87 + n)"

definition hex_value :: "bool \<Rightarrow> u8 \<Rightarrow> u8 option" where
  "hex_value upper c =
     (if 48 \<le> c \<and> c \<le> 57 then Some (c - 48)
      else if 97 \<le> c \<and> c \<le> 102 then Some (c - 87)
      else if upper \<and> 65 \<le> c \<and> c \<le> 70 then Some (c - 55)
      else None)"

definition hex_encode :: "bytes \<Rightarrow> bytes" where
  "hex_encode bs = concat (map (\<lambda>b. [hex_digit (b div 16), hex_digit (b mod 16)]) bs)"

fun hex_decode :: "bool \<Rightarrow> bytes \<Rightarrow> bytes option" where
  "hex_decode upper [] = Some []"
| "hex_decode upper [_] = None"
| "hex_decode upper (c # d # cs) =
     (case (hex_value upper c, hex_value upper d, hex_decode upper cs) of
        (Some x, Some y, Some bs) \<Rightarrow> Some ((x * 16 + y) # bs)
      | _ \<Rightarrow> None)"

definition base32_bits :: "u8 \<Rightarrow> bool list option" where
  "base32_bits c =
     (let bits = (\<lambda>v :: u8. map (\<lambda>i. bit v i) [4, 3, 2, 1, 0]) in
      if 65 \<le> c \<and> c \<le> 90 then Some (bits (c - 65))
      else if 50 \<le> c \<and> c \<le> 55 then Some (bits (c - 24))
      else None)"

fun bits_to_bytes :: "bool list \<Rightarrow> bytes option" where
  "bits_to_bytes (a # b # c # d # e # f # g # h # bits) =
     map_option ((#) (fold (\<lambda>x acc. 2 * acc + of_bool x) [a, b, c, d, e, f, g, h] 0)) (bits_to_bytes bits)"
| "bits_to_bytes bits = (if True \<in> set bits then None else Some [])"

definition base32_decode :: "bytes \<Rightarrow> bytes option" where
  "base32_decode s =
     (let bits = map base32_bits s in
      if None \<in> set bits then None else bits_to_bytes (concat (map the bits)))"

definition base32_len :: "nat \<Rightarrow> nat option" where
  "base32_len n = (if n mod 8 \<in> {1, 3, 6} then None else Some (n * 5 div 8))"

definition decoded_of :: "bytes option \<Rightarrow> decoded" where
  "decoded_of r = (case r of None \<Rightarrow> Decode_Error | Some bs \<Rightarrow> Decoded bs)"

definition ref_hex :: hex_ops where
  "ref_hex =
     \<lparr>to_hex_lower = hex_encode,
      hexlower_decode_mut = (\<lambda>s n. if length s = 2 * n then decoded_of (hex_decode False s) else Decode_Panic),
      base32_decode_mut = (\<lambda>s n. if base32_len (length s) = Some n then decoded_of (base32_decode s) else Decode_Panic),
      base32_decode_len = base32_len,
      hex_decode_to_slice = (\<lambda>s n. if length s = 2 * n then hex_decode True s else None)\<rparr>"

lemma hex_value_digit: "n < 16 \<Longrightarrow> hex_value upper (hex_digit n) = Some n"
proof -
  assume "n < 16"
  then have n: "unat n < 16" by (simp add: word_less_nat_alt)
  have "unat n \<in> {0, 1, 2, 3, 4, 5, 6, 7, 8, 9, 10, 11, 12, 13, 14, 15}"
    using n unfolding insert_iff empty_iff by presburger
  moreover have "n = of_nat (unat n)" by simp
  ultimately show ?thesis
    by (elim insertE emptyE) (simp_all add: hex_value_def hex_digit_def)
qed

lemma u8_div_mod_16: "(b :: u8) div 16 < 16" "b mod 16 < 16"
proof -
  have "unat b < 256" using unsigned_less [of b] by simp
  then show "b div 16 < 16" "b mod 16 < 16"
    by (simp_all add: word_less_nat_alt unat_div unat_mod less_mult_imp_div_less)
qed

lemma hex_decode_encode: "hex_decode upper (hex_encode bs) = Some bs"
  by (induction bs) (simp_all add: hex_encode_def hex_value_digit u8_div_mod_16 div_mult_mod_eq)

lemma length_hex_encode: "length (hex_encode bs) = 2 * length bs"
  by (induction bs) (simp_all add: hex_encode_def)

interpretation refx: hex_laws ref_hex
  by unfold_locales (simp_all add: ref_hex_def length_hex_encode hex_decode_encode decoded_of_def)

section \<open>Round trips\<close>

context hex_laws
begin

lemma hash_from_str_to_string: "hash_from_str X (hash_to_string X h) = Inr h"
  using hexlower_decode_hex [of "as_bytes h"]
  by (simp add: hash_from_str_def hash_to_string_def length_to_hex)

lemma hf_from_str_to_string: "hf_from_str X (hf_to_string X hf) = Inr hf"
  using hex_decode_hex [of "as_bytes (hf_hash hf)"]
  by (cases "hf_format hf")
    (simp_all add: hf_from_str_def hf_to_string_def length_to_hex hf_raw_def hf_hash_seq_def)

end

text \<open>
  Display and parsing are inverse for hashes and for pairs of hash and format, and so are
  serialization and deserialization, in the human-readable and in the binary form.
\<close>

theorem hash_text_round_trip:
  assumes "hex_laws X"
  shows "hash_from_str X (hash_to_string X h) = Inr h \<and>
    hf_from_str X (hf_to_string X hf) = Inr hf \<and>
    hash_deserialize X hr (hash_serialize X hr h) = Inr h \<and>
    hf_deserialize X hr (hf_serialize X hr hf) = Inr hf"
  using hex_laws.hash_from_str_to_string [OF assms] hex_laws.hf_from_str_to_string [OF assms]
  by (simp add: hash_deserialize_def hash_serialize_def hf_deserialize_def hf_serialize_def hf_new_def)

theorem hash_text_round_trip_witness:
  "hash_from_str ref_hex (hash_to_string ref_hex hash_empty) = Inr hash_empty \<and>
   hf_from_str ref_hex (hf_to_string ref_hex (hf_hash_seq hash_empty)) = Inr (hf_hash_seq hash_empty)"
  using hash_text_round_trip [OF refx.hex_laws_axioms] by blast

text \<open>
  Parsing a hash panics on a string of the wrong length instead of returning the error
  \<open>DecodeInvalidLength\<close>: a string that is neither 64 hex digits nor of a length that decodes to
  32 bytes makes \<open>decode_mut\<close> fail its assertion on the output buffer, so that malformed input
  (for example the empty string) aborts the caller.
\<close>

theorem hash_from_str_panics:
  assumes "hex_laws X" "length s \<noteq> 64" "base32_decode_len X (length s) \<noteq> Some 32"
  shows "hash_from_str X s = Inl Panicked"
  using hex_laws.base32_panics [OF assms(1), of "to_ascii_uppercase s" 32] assms(2,3)
  by (simp add: hash_from_str_def to_ascii_uppercase_def)

theorem hash_from_str_panics_witness: "hash_from_str ref_hex [] = Inl Panicked"
  by (rule hash_from_str_panics [OF refx.hex_laws_axioms]) (simp_all add: ref_hex_def base32_len_def)

end
