(* ===== verification/BTree_Map.thy ===== *)
theory BTree_Map
  imports Prelude
begin

text \<open>
  \<open>std::collections::BTreeMap\<close>, as far as the program uses it: an association list in strictly
  increasing order of its keys, so that iteration is list order. The locale \<open>ordered_map\<close> states
  what a table with ordered iteration promises (lookup after insertion and removal, and that the
  entries are listed in key order); its lemmas are used through the interpretation on the
  association lists.
\<close>

section \<open>Operations\<close>

type_synonym ('k, 'v) btree = "('k \<times> 'v) list"

abbreviation bt_ok :: "('k :: linorder, 'v) btree \<Rightarrow> bool" where
  "bt_ok m \<equiv> sorted_wrt (<) (map fst m)"

definition bt_get :: "('k, 'v) btree \<Rightarrow> 'k \<Rightarrow> 'v option" where
  "bt_get m = map_of m"

fun bt_insert :: "'k :: linorder \<Rightarrow> 'v \<Rightarrow> ('k, 'v) btree \<Rightarrow> ('k, 'v) btree" where
  "bt_insert k v [] = [(k, v)]"
| "bt_insert k v ((k', v') # m) =
     (if k < k' then (k, v) # (k', v') # m
      else if k = k' then (k, v) # m
      else (k', v') # bt_insert k v m)"

definition bt_remove :: "'k \<Rightarrow> ('k, 'v) btree \<Rightarrow> ('k, 'v) btree" where
  "bt_remove k m = filter (\<lambda>e. fst e \<noteq> k) m"

definition bt_retain :: "('k \<Rightarrow> 'v \<Rightarrow> bool) \<Rightarrow> ('k, 'v) btree \<Rightarrow> ('k, 'v) btree" where
  "bt_retain P m = filter (\<lambda>(k, v). P k v) m"

definition bt_last :: "('k, 'v) btree \<Rightarrow> ('k \<times> 'v) option" where
  "bt_last m = (if m = [] then None else Some (last m))"

text \<open>\<open>entry(k).and_modify(f).or_insert(d)\<close>.\<close>

definition bt_upsert ::
  "'k :: linorder \<Rightarrow> ('v \<Rightarrow> 'v) \<Rightarrow> 'v \<Rightarrow> ('k, 'v) btree \<Rightarrow> ('k, 'v) btree" where
  "bt_upsert k f d m = bt_insert k (case bt_get m k of Some v \<Rightarrow> f v | None \<Rightarrow> d) m"

section \<open>The interface\<close>

locale ordered_map =
  fixes valid :: "'m \<Rightarrow> bool"
    and get :: "'m \<Rightarrow> 'k :: linorder \<Rightarrow> 'v option"
    and insert' :: "'k \<Rightarrow> 'v \<Rightarrow> 'm \<Rightarrow> 'm"
    and remove :: "'k \<Rightarrow> 'm \<Rightarrow> 'm"
    and entries :: "'m \<Rightarrow> ('k \<times> 'v) list"
  assumes valid_insert: "valid m \<Longrightarrow> valid (insert' k v m)"
    and valid_remove: "valid m \<Longrightarrow> valid (remove k m)"
    and get_insert: "valid m \<Longrightarrow> get (insert' k v m) = (get m)(k \<mapsto> v)"
    and get_remove: "valid m \<Longrightarrow> get (remove k m) = (get m)(k := None)"
    and entries_sorted: "valid m \<Longrightarrow> sorted_wrt (<) (map fst (entries m))"
    and get_entries: "valid m \<Longrightarrow> get m = map_of (entries m)"
begin

lemma in_entries_iff: "valid m \<Longrightarrow> (k, v) \<in> set (entries m) \<longleftrightarrow> get m k = Some v"
  using entries_sorted [of m] strict_sorted_imp_sorted
  by (simp add: get_entries strict_sorted_iff)

lemma finite_dom_get: "valid m \<Longrightarrow> finite (dom (get m))"
  by (simp add: get_entries finite_dom_map_of)

text \<open>Two tables with the same lookups list the same entries in the same order.\<close>

lemma entries_eqI:
  assumes "valid m" "valid m'" "\<And>k. get m k = get m' k"
  shows "entries m = entries m'"
proof -
  have set: "set (entries m) = set (entries m')"
    using assms in_entries_iff by (auto simp: set_eq_iff)
  have "sorted (map fst (entries m)) \<and> distinct (map fst (entries m))"
    "sorted (map fst (entries m')) \<and> distinct (map fst (entries m'))"
    using assms entries_sorted strict_sorted_iff by blast+
  with set show ?thesis
    by (intro map_sorted_distinct_set_unique [of fst]) (auto simp: distinct_map)
qed

end

section \<open>Association lists provide it\<close>

lemma set_bt_insert: "set (map fst (bt_insert k v m)) = insert k (set (map fst m))"
  by (induction k v m rule: bt_insert.induct) auto

lemma bt_ok_insert: "bt_ok m \<Longrightarrow> bt_ok (bt_insert k v m)"
proof (induction k v m rule: bt_insert.induct)
  case (2 k v k' v' m)
  have m: "\<forall>x\<in>set (map fst m). k' < x" "bt_ok m" using "2.prems" by auto
  consider "k < k'" | "k = k'" | "k' < k" by force
  then show ?case
  proof cases
    case 1
    with m show ?thesis by (auto dest: less_trans)
  next
    case 3
    then have "\<forall>x\<in>set (map fst (bt_insert k v m)). k' < x"
      using m(1) unfolding set_bt_insert by blast
    with 3 "2.IH" m(2) show ?thesis by auto
  qed (use m in auto)
qed simp

lemma bt_ok_filter: "bt_ok m \<Longrightarrow> bt_ok (filter P m)"
  by (induction m) auto

lemma bt_get_insert: "bt_ok m \<Longrightarrow> bt_get (bt_insert k v m) = (bt_get m)(k \<mapsto> v)"
  unfolding bt_get_def
proof (induction k v m rule: bt_insert.induct)
  case (2 k v k' v' m)
  then show ?case by (cases k k' rule: linorder_cases) (auto simp: fun_eq_iff)
qed simp

lemma map_of_filter_fst: "map_of (filter (\<lambda>e. P (fst e)) m) = (\<lambda>k. if P k then map_of m k else None)"
  by (induction m) (auto simp: fun_eq_iff)

lemma bt_get_remove: "bt_get (bt_remove k m) = (bt_get m)(k := None)"
  unfolding bt_get_def bt_remove_def using map_of_filter_fst [of "\<lambda>x. x \<noteq> k" m] by (simp add: fun_eq_iff)

interpretation bt: ordered_map bt_ok bt_get bt_insert bt_remove "\<lambda>m. m"
proof (unfold_locales, goal_cases)
  case (2 m k)
  then show ?case by (simp add: bt_remove_def bt_ok_filter)
next
  case (6 m)
  show ?case by (simp add: bt_get_def)
qed (simp_all add: bt_ok_insert bt_get_insert bt_get_remove)

lemma bt_get_retain:
  assumes "bt_ok m"
  shows "bt_get (bt_retain P m) k =
    (case bt_get m k of Some v \<Rightarrow> if P k v then Some v else None | None \<Rightarrow> None)"
proof -
  have ok: "bt_ok (bt_retain P m)" using assms by (simp add: bt_retain_def bt_ok_filter)
  have "(k, v) \<in> set (bt_retain P m) \<longleftrightarrow> (k, v) \<in> set m \<and> P k v" for v
    by (auto simp: bt_retain_def)
  then have *: "bt_get (bt_retain P m) k = Some v \<longleftrightarrow> bt_get m k = Some v \<and> P k v" for v
    using bt.in_entries_iff [OF ok, of k v] bt.in_entries_iff [OF assms, of k v] by simp
  show ?thesis
  proof (cases "bt_get (bt_retain P m) k")
    case None
    with * have "\<not> (bt_get m k = Some v \<and> P k v)" for v by simp
    with None show ?thesis by (simp split: option.split)
  next
    case (Some v)
    with * [of v] show ?thesis by simp
  qed
qed

lemma bt_ok_retain: "bt_ok m \<Longrightarrow> bt_ok (bt_retain P m)"
  by (simp add: bt_retain_def bt_ok_filter)

lemma bt_ok_upsert: "bt_ok m \<Longrightarrow> bt_ok (bt_upsert k f d m)"
  by (simp add: bt_upsert_def bt_ok_insert)

lemma bt_get_upsert:
  "bt_ok m \<Longrightarrow> bt_get (bt_upsert k f d m) =
    (bt_get m)(k \<mapsto> (case bt_get m k of Some v \<Rightarrow> f v | None \<Rightarrow> d))"
  by (simp add: bt_upsert_def bt_get_insert)

lemma bt_get_Nil [simp]: "bt_get [] = (\<lambda>_. None)"
  by (simp add: bt_get_def)

lemma bt_get_Some_in: "bt_get m k = Some v \<Longrightarrow> (k, v) \<in> set m"
  by (simp add: bt_get_def map_of_SomeD)

lemma bt_last_snoc: "bt_last m = Some e \<longleftrightarrow> (\<exists>m'. m = m' @ [e])"
  by (cases m rule: rev_cases) (simp_all add: bt_last_def)

lemma bt_last_greatest:
  assumes "bt_ok m" "bt_last m = Some (k, v)" "bt_get m k' = Some v'"
  shows "k' \<le> k"
proof -
  from assms(2) obtain m' where m: "m = m' @ [(k, v)]" by (auto simp: bt_last_snoc)
  moreover from assms(3) have "(k', v') \<in> set m" by (rule bt_get_Some_in)
  ultimately show ?thesis using assms(1) by (force simp: sorted_wrt_append)
qed

lemma bt_last_None [simp]: "bt_last m = None \<longleftrightarrow> m = []"
  by (simp add: bt_last_def)

lemma bt_last_get:
  assumes "bt_ok m" "bt_last m = Some (k, v)"
  shows "bt_get m k = Some v"
proof -
  have "(k, v) \<in> set m" using assms(2) by (auto simp: bt_last_snoc)
  then show ?thesis using bt.in_entries_iff [OF assms(1)] by simp
qed

end
