(* ===== verification/Protocol.thy ===== *)
theory Protocol
  imports Range_Spec Hash BTree_Map
begin

text \<open>
  The requests of the protocol, \<open>src/protocol.rs\<close>: request types, how a provider reads a request
  from a stream, the constructors of get, push, get-many and observe requests, the stream error
  codes, and the request builders. The stream and the deserialization of the crate \<open>postcard\<close>
  are parameters of \<open>read_async\<close>.
\<close>

section \<open>Requests\<close>

definition MAX_MESSAGE_SIZE :: usize where
  "MAX_MESSAGE_SIZE = 1024 * 1024"

definition ERR_PERMISSION :: u64 where "ERR_PERMISSION = 1"
definition ERR_LIMIT :: u64 where "ERR_LIMIT = 2"
definition ERR_INTERNAL :: u64 where "ERR_INTERNAL = 3"

record 'r get_request =
  gr_hash :: hash
  gr_ranges :: "'r chunk_ranges_seq"

record 'r get_many_request =
  gm_hashes :: "hash list"
  gm_ranges :: "'r chunk_ranges_seq"

record observe_request =
  or_hash :: hash
  or_ranges :: range_spec

text \<open>\<open>PushRequest\<close> is a newtype around a get request.\<close>

datatype 'r request =
    Get "'r get_request"
  | Observe observe_request
  | Slot2 | Slot3 | Slot4 | Slot5 | Slot6 | Slot7
  | Push "'r get_request"
  | GetMany "'r get_many_request"

datatype request_type =
    RT_Get | RT_Observe | RT_Slot2 | RT_Slot3 | RT_Slot4 | RT_Slot5 | RT_Slot6 | RT_Slot7
  | RT_Push | RT_GetMany

datatype io_error = UnexpectedEof | InvalidData | NotFoundIo | InvalidInput | OtherIo

text \<open>
  A stream and \<open>postcard\<close>: \<open>st_read_u8\<close> takes one byte, \<open>st_read_to_end\<close> everything up to the
  end if it is not longer than the limit, and \<open>st_read_prefixed\<close> one length-prefixed message.
\<close>

record ('r, 's) stream_ops =
  st_read_u8 :: "'s \<Rightarrow> io_error + u8 \<times> 's"
  st_read_to_end :: "'s \<Rightarrow> usize \<Rightarrow> io_error + bytes \<times> 's"
  st_read_prefixed :: "'s \<Rightarrow> usize \<Rightarrow> io_error + 'r get_request \<times> 's"
  pc_request_type :: "u8 \<Rightarrow> request_type option"
  pc_get :: "bytes \<Rightarrow> 'r get_request option"
  pc_get_many :: "bytes \<Rightarrow> 'r get_many_request option"
  pc_observe :: "bytes \<Rightarrow> observe_request option"
  pc_push_size :: "'r get_request \<Rightarrow> usize"

definition read_to_end_as ::
  "('r, 's) stream_ops \<Rightarrow> (bytes \<Rightarrow> 'a option) \<Rightarrow> 's \<Rightarrow> usize \<Rightarrow> io_error + ('a \<times> usize) \<times> 's" where
  "read_to_end_as S de reader max_size =
     (case st_read_to_end S reader max_size of
        Inl _ \<Rightarrow> Inl InvalidData
      | Inr (data, reader') \<Rightarrow>
          (case de data of
             None \<Rightarrow> Inl InvalidData
           | Some value \<Rightarrow> Inr ((value, of_nat (length data)), reader')))"

definition read_async ::
  "('r, 's) stream_ops \<Rightarrow> 's \<Rightarrow> io_error + ('r request \<times> usize) \<times> 's" where
  "read_async S reader =
     rbind (st_read_u8 S reader) (\<lambda>(b, reader).
       case pc_request_type S b of
         None \<Rightarrow> Inl InvalidData
       | Some RT_Get \<Rightarrow>
           rbind (read_to_end_as S (pc_get S) reader MAX_MESSAGE_SIZE)
             (\<lambda>((r, size), reader). Inr ((Get r, size), reader))
       | Some RT_GetMany \<Rightarrow>
           rbind (read_to_end_as S (pc_get_many S) reader MAX_MESSAGE_SIZE)
             (\<lambda>((r, size), reader). Inr ((GetMany r, size), reader))
       | Some RT_Observe \<Rightarrow>
           rbind (read_to_end_as S (pc_observe S) reader MAX_MESSAGE_SIZE)
             (\<lambda>((r, size), reader). Inr ((Observe r, size), reader))
       | Some RT_Push \<Rightarrow>
           rbind (st_read_prefixed S reader MAX_MESSAGE_SIZE)
             (\<lambda>(r, reader). Inr ((Push r, pc_push_size S r), reader))
       | Some _ \<Rightarrow> Inl InvalidData)"

section \<open>Constructors\<close>

definition get_request_new :: "hash \<Rightarrow> 'r chunk_ranges_seq \<Rightarrow> 'r get_request" where
  "get_request_new h ranges = \<lparr>gr_hash = h, gr_ranges = ranges\<rparr>"

definition get_request_all :: "'r range_ops \<Rightarrow> hash \<Rightarrow> 'r get_request" where
  "get_request_all R h = \<lparr>gr_hash = h, gr_ranges = seq_all R\<rparr>"

definition get_request_blob :: "'r range_ops \<Rightarrow> hash \<Rightarrow> 'r get_request" where
  "get_request_blob R h = \<lparr>gr_hash = h, gr_ranges = from_ranges R [rs_all R]\<rparr>"

definition get_request_blob_ranges :: "'r range_ops \<Rightarrow> hash \<Rightarrow> 'r \<Rightarrow> 'r get_request" where
  "get_request_blob_ranges R h ranges = \<lparr>gr_hash = h, gr_ranges = from_ranges R [ranges]\<rparr>"

definition get_request_from :: "'r range_ops \<Rightarrow> hash_and_format \<Rightarrow> 'r get_request" where
  "get_request_from R value =
     (case hf_format value of
        Raw \<Rightarrow> get_request_blob R (hf_hash value)
      | HashSeq \<Rightarrow> get_request_all R (hf_hash value))"

definition content :: "'r range_ops \<Rightarrow> 'r get_request \<Rightarrow> hash_and_format" where
  "content R req =
     \<lparr>hf_hash = gr_hash req,
      hf_format = (if is_blob R (gr_ranges req) then Raw else HashSeq)\<rparr>"

definition push_request_new :: "hash \<Rightarrow> 'r chunk_ranges_seq \<Rightarrow> 'r get_request" where
  "push_request_new h ranges = get_request_new h ranges"

definition get_many_from_iter :: "'r range_ops \<Rightarrow> hash list \<Rightarrow> 'r get_many_request" where
  "get_many_from_iter R hs =
     (let res = remdups_adj (sort hs); n = of_nat (length res) in
      \<lparr>gm_hashes = res, gm_ranges = [(0, rs_all R), (n, rs_empty R)]\<rparr>)"

definition get_many_new :: "hash list \<Rightarrow> 'r chunk_ranges_seq \<Rightarrow> 'r get_many_request" where
  "get_many_new hs ranges = \<lparr>gm_hashes = hs, gm_ranges = ranges\<rparr>"

definition observe_request_new :: "hash \<Rightarrow> observe_request" where
  "observe_request_new h = \<lparr>or_hash = h, or_ranges = range_spec_all\<rparr>"

section \<open>Stream error codes\<close>

datatype closed = StreamDropped | ProviderTerminating | RequestReceived

definition closed_to_varint :: "closed \<Rightarrow> u64" where
  "closed_to_varint c =
     (case c of StreamDropped \<Rightarrow> 0 | ProviderTerminating \<Rightarrow> 1 | RequestReceived \<Rightarrow> 2)"

text \<open>\<open>UnknownErrorCode\<close> carries the code.\<close>

definition closed_try_from :: "u64 \<Rightarrow> u64 + closed" where
  "closed_try_from value =
     (if value = 0 then Inr StreamDropped
      else if value = 1 then Inr ProviderTerminating
      else if value = 2 then Inr RequestReceived
      else Inl value)"

section \<open>Builders\<close>

type_synonym 'r seq_builder = "(u64, 'r) btree"

definition at_offset :: "'r range_ops \<Rightarrow> 'r seq_builder \<Rightarrow> u64 \<Rightarrow> 'r \<Rightarrow> 'r seq_builder" where
  "at_offset R b offset ranges = bt_upsert offset (\<lambda>v. rs_union R v ranges) ranges b"

definition next_offset_value :: "'r seq_builder \<Rightarrow> u64" where
  "next_offset_value b = (case bt_last b of Some (k, _) \<Rightarrow> k + 1 | None \<Rightarrow> 0)"

definition builder_offset :: "'r range_ops \<Rightarrow> 'r seq_builder \<Rightarrow> u64 \<Rightarrow> 'r \<Rightarrow> 'r seq_builder" where
  "builder_offset R b offset ranges = at_offset R b offset ranges"

definition builder_next :: "'r range_ops \<Rightarrow> 'r seq_builder \<Rightarrow> 'r \<Rightarrow> 'r seq_builder" where
  "builder_next R b ranges = at_offset R b (next_offset_value b) ranges"

text \<open>The loop of \<open>build0\<close> takes the ranges of every offset below the end out of the map.\<close>

definition build0 :: "'r range_ops \<Rightarrow> 'r seq_builder \<Rightarrow> 'r list" where
  "build0 R b =
     (let b = bt_retain (\<lambda>_ v. \<not> rs_is_empty R v) b;
          until_key = next_offset_value b in
      snd (fold (\<lambda>offset (b, ranges).
             (bt_remove (of_nat offset) b,
              ranges @ [case bt_get b (of_nat offset) of Some v \<Rightarrow> v | None \<Rightarrow> rs_empty R]))
           [0..<unat until_key] (b, [])))"

definition builder_build :: "'r range_ops \<Rightarrow> 'r seq_builder \<Rightarrow> 'r chunk_ranges_seq" where
  "builder_build R b = from_ranges R (build0 R b)"

definition builder_build_open :: "'r range_ops \<Rightarrow> 'r seq_builder \<Rightarrow> 'r chunk_ranges_seq" where
  "builder_build_open R b = from_ranges_infinite R (build0 R b)"

definition grb_offset :: "'r range_ops \<Rightarrow> 'r seq_builder \<Rightarrow> u64 \<Rightarrow> 'r \<Rightarrow> 'r seq_builder" where
  "grb_offset R b offset ranges = builder_offset R b offset ranges"

definition grb_child :: "'r range_ops \<Rightarrow> 'r seq_builder \<Rightarrow> u64 \<Rightarrow> 'r \<Rightarrow> 'r seq_builder" where
  "grb_child R b child ranges = builder_offset R b (child + 1) ranges"

definition grb_root :: "'r range_ops \<Rightarrow> 'r seq_builder \<Rightarrow> 'r \<Rightarrow> 'r seq_builder" where
  "grb_root R b ranges = builder_offset R b 0 ranges"

definition grb_next :: "'r range_ops \<Rightarrow> 'r seq_builder \<Rightarrow> 'r \<Rightarrow> 'r seq_builder" where
  "grb_next R b ranges = builder_next R b ranges"

definition grb_build :: "'r range_ops \<Rightarrow> 'r seq_builder \<Rightarrow> hash \<Rightarrow> 'r get_request" where
  "grb_build R b h = get_request_new h (builder_build R b)"

definition grb_build_open :: "'r range_ops \<Rightarrow> 'r seq_builder \<Rightarrow> hash \<Rightarrow> 'r get_request" where
  "grb_build_open R b h = get_request_new h (builder_build_open R b)"

type_synonym 'r many_builder = "(hash, 'r) btree"

definition gmb_hash :: "'r range_ops \<Rightarrow> 'r many_builder \<Rightarrow> hash \<Rightarrow> 'r \<Rightarrow> 'r many_builder" where
  "gmb_hash R b h ranges = bt_upsert h (\<lambda>v. rs_union R v ranges) ranges b"

definition gmb_build :: "'r range_ops \<Rightarrow> 'r many_builder \<Rightarrow> 'r get_many_request" where
  "gmb_build R b =
     (let es = filter (\<lambda>(_, v). \<not> rs_is_empty R v) b in
      \<lparr>gm_hashes = map fst es, gm_ranges = from_ranges R (map snd es)\<rparr>)"

section \<open>What the builders build\<close>

abbreviation or_empty :: "'r range_ops \<Rightarrow> 'r option \<Rightarrow> 'r" where
  "or_empty R v \<equiv> (case v of Some r \<Rightarrow> r | None \<Rightarrow> rs_empty R)"

lemma build0_fold:
  fixes b :: "'r seq_builder"
  shows "i + n \<le> 2 ^ 64 \<Longrightarrow>
   snd (fold (\<lambda>offset (b, ranges).
         (bt_remove (of_nat offset) b, ranges @ [or_empty R (bt_get b (of_nat offset))]))
       [i..<i + n] (b, acc)) =
   acc @ map (\<lambda>offset. or_empty R (bt_get b (of_nat offset))) [i..<i + n]"
proof (induction n arbitrary: i b acc)
  case (Suc n)
  have split: "[i..<i + Suc n] = i # [Suc i..<Suc i + n]" by (simp add: upt_conv_Cons)
  have "bt_get (bt_remove (of_nat i) b) (of_nat j) = bt_get b (of_nat j)"
    if "j \<in> set [Suc i..<Suc i + n]" for j
  proof -
    have "unat (of_nat i :: u64) = i" "unat (of_nat j :: u64) = j"
      using that Suc.prems by (auto intro!: unat_of_nat_u64)
    then have "(of_nat i :: u64) \<noteq> of_nat j" using that by (metis atLeastLessThan_iff n_not_Suc_n not_less_eq_eq order_refl set_upt)
    then show ?thesis by (simp add: bt_get_remove)
  qed
  then have "map (\<lambda>offset. or_empty R (bt_get (bt_remove (of_nat i) b) (of_nat offset))) [Suc i..<Suc i + n] =
    map (\<lambda>offset. or_empty R (bt_get b (of_nat offset))) [Suc i..<Suc i + n]"
    by (intro map_cong refl) (simp only:)
  with Suc.IH [of "Suc i"] Suc.prems show ?case unfolding split by simp
qed simp

lemma build0_map:
  "build0 R b =
    (let b' = bt_retain (\<lambda>_ v. \<not> rs_is_empty R v) b in
     map (\<lambda>offset. or_empty R (bt_get b' (of_nat offset))) [0..<unat (next_offset_value b')])"
proof -
  let ?b = "bt_retain (\<lambda>_ v. \<not> rs_is_empty R v) b"
  have "0 + unat (next_offset_value ?b) \<le> 2 ^ 64"
    using unat_u64_lt [of "next_offset_value ?b"] by simp
  from build0_fold [OF this, of R ?b "[]"] show ?thesis by (simp add: build0_def Let_def)
qed

context range_set
begin

lemma or_empty_retain:
  "bt_ok b \<Longrightarrow> or_empty R (bt_get (bt_retain (\<lambda>_ v. \<not> rs_is_empty R v) b) k) = or_empty R (bt_get b k)"
  by (simp add: bt_get_retain is_empty_iff split: option.split)

lemma build0_exact:
  assumes "bt_ok b"
  shows "\<exists>n < 2 ^ 64. build0 R b = map (\<lambda>j. or_empty R (bt_get b (of_nat j))) [0..<n] \<and>
    (bt_get b u64_max = None \<longrightarrow> (\<forall>i. n \<le> unat i \<longrightarrow> or_empty R (bt_get b i) = rs_empty R) \<and>
      (n \<noteq> 0 \<longrightarrow> or_empty R (bt_get b (of_nat (n - 1))) \<noteq> rs_empty R))"
proof -
  let ?b = "bt_retain (\<lambda>_ v. \<not> rs_is_empty R v) b"
  let ?n = "unat (next_offset_value ?b)"
  have ok: "bt_ok ?b" using assms by (rule bt_ok_retain)
  have "build0 R b = map (\<lambda>j. or_empty R (bt_get b (of_nat j))) [0..<?n]"
    by (simp add: build0_map Let_def or_empty_retain [OF assms])
  moreover have "?n < 2 ^ 64" using unat_u64_lt by simp
  moreover have "(\<forall>i. ?n \<le> unat i \<longrightarrow> or_empty R (bt_get b i) = rs_empty R) \<and>
      (?n \<noteq> 0 \<longrightarrow> or_empty R (bt_get b (of_nat (?n - 1))) \<noteq> rs_empty R)"
    if max: "bt_get b u64_max = None"
  proof (cases "bt_last ?b")
    case None
    then have "or_empty R (bt_get b i) = rs_empty R" for i
      using or_empty_retain [OF assms, of i] by simp
    with None show ?thesis by (simp add: next_offset_value_def bt_last_def)
  next
    case (Some e)
    obtain k v where e: "e = (k, v)" by (cases e)
    have kv: "bt_get ?b k = Some v" using Some e bt_last_get [OF ok] by simp
    then have "k \<noteq> u64_max" "v \<noteq> rs_empty R"
      using max assms by (auto simp: bt_get_retain is_empty_iff split: option.splits if_splits)
    then have n: "?n = Suc (unat k)"
      using Some e by (simp add: next_offset_value_def unat_Suc_u64)
    have "or_empty R (bt_get b i) = rs_empty R" if "Suc (unat k) \<le> unat i" for i
    proof (cases "bt_get ?b i")
      case None
      then show ?thesis using or_empty_retain [OF assms, of i] by simp
    next
      case (Some v')
      then have "i \<le> k" using \<open>bt_last ?b = Some e\<close> e bt_last_greatest [OF ok] by blast
      with that show ?thesis by (simp add: word_le_nat_alt)
    qed
    moreover have "or_empty R (bt_get b k) \<noteq> rs_empty R"
      using kv or_empty_retain [OF assms, of k] \<open>v \<noteq> rs_empty R\<close> by simp
    ultimately show ?thesis by (simp add: n)
  qed
  ultimately show ?thesis by (intro exI [of _ ?n] conjI impI) simp_all
qed

lemma seq_at_builder_build:
  assumes "bt_ok b" "bt_get b u64_max = None"
  shows "seq_at R (builder_build R b) i = or_empty R (bt_get b i)"
proof -
  obtain n where n: "n < 2 ^ 64" "build0 R b = map (\<lambda>j. or_empty R (bt_get b (of_nat j))) [0..<n]"
    "\<forall>i. n \<le> unat i \<longrightarrow> or_empty R (bt_get b i) = rs_empty R"
    using build0_exact [OF assms(1)] assms(2) by blast
  then show ?thesis
    by (simp add: builder_build_def seq_at_from_ranges not_less)
qed

text \<open>The map of a builder after a list of additions, with the union where a key repeats.\<close>

abbreviation add_all :: "('k :: linorder \<times> 'r) list \<Rightarrow> ('k, 'r) btree" where
  "add_all adds \<equiv> fold (\<lambda>(k, r) b. bt_upsert k (\<lambda>v. rs_union R v r) r b) adds []"

lemma bt_ok_adds:
  "bt_ok b \<Longrightarrow> bt_ok (fold (\<lambda>(k, r) b. bt_upsert k (\<lambda>v. rs_union R v r) r b) adds b)"
  by (induction adds arbitrary: b) (auto simp: bt_ok_upsert)

lemma contains_adds:
  "bt_ok b \<Longrightarrow>
   rs_contains R (or_empty R (bt_get (fold (\<lambda>(k, r) b. bt_upsert k (\<lambda>v. rs_union R v r) r b) adds b) i)) x \<longleftrightarrow>
   rs_contains R (or_empty R (bt_get b i)) x \<or> (\<exists>r. (i, r) \<in> set adds \<and> rs_contains R r x)"
proof (induction adds arbitrary: b)
  case (Cons a adds)
  obtain o' r where a: "a = (o', r)" by (cases a)
  let ?b = "bt_upsert o' (\<lambda>v. rs_union R v r) r b"
  have "bt_ok ?b" using Cons.prems by (simp add: bt_ok_upsert)
  note IH = Cons.IH [OF this]
  have "rs_contains R (or_empty R (bt_get ?b i)) x \<longleftrightarrow>
    rs_contains R (or_empty R (bt_get b i)) x \<or> (i = o' \<and> rs_contains R r x)"
    using Cons.prems by (auto simp: bt_get_upsert contains_simps split: option.splits)
  with IH a show ?case by auto
qed simp

lemma dom_adds:
  "bt_ok b \<Longrightarrow> bt_get b k = None \<Longrightarrow> k \<notin> fst ` set adds \<Longrightarrow>
   bt_get (fold (\<lambda>(k, r) b. bt_upsert k (\<lambda>v. rs_union R v r) r b) adds b) k = None"
  by (induction adds arbitrary: b) (auto simp: bt_ok_upsert bt_get_upsert)

lemma contains_build_adds:
  assumes "\<forall>a\<in>set adds. fst a \<noteq> u64_max"
  shows "rs_contains R (seq_at R (builder_build R
      (fold (\<lambda>(o', r) b. builder_offset R b o' r) adds [])) i) x \<longleftrightarrow>
    (\<exists>r. (i, r) \<in> set adds \<and> rs_contains R r x)"
proof -
  let ?b = "fold (\<lambda>(o', r) b. builder_offset R b o' r) adds []"
  note unf = builder_offset_def at_offset_def
  have ok: "bt_ok ?b" unfolding unf by (rule bt_ok_adds) simp
  have "bt_get ?b u64_max = None"
    unfolding unf using assms by (intro dom_adds) auto
  with ok have "seq_at R (builder_build R ?b) i = or_empty R (bt_get ?b i)"
    by (rule seq_at_builder_build)
  moreover have "rs_contains R (or_empty R (bt_get ?b i)) x \<longleftrightarrow>
    (\<exists>r. (i, r) \<in> set adds \<and> rs_contains R r x)"
    unfolding unf by (subst contains_adds) (simp_all add: contains_empty)
  ultimately show ?thesis by simp
qed

lemma contains_add_all:
  "rs_contains R (or_empty R (bt_get (add_all adds) i)) x \<longleftrightarrow>
   (\<exists>r. (i, r) \<in> set adds \<and> rs_contains R r x)"
  by (subst contains_adds) (simp_all add: contains_empty)

lemma gmb_build_adds:
  assumes "b = fold (\<lambda>(h, r) b. gmb_hash R b h r) adds []" "length b < 2 ^ 64"
  shows "sorted_wrt (<) (gm_hashes (gmb_build R b))"
    and "h \<in> set (gm_hashes (gmb_build R b)) \<longleftrightarrow> (\<exists>r x. (h, r) \<in> set adds \<and> rs_contains R r x)"
    and "rs_contains R (seq_at R (gm_ranges (gmb_build R b)) i) x \<longleftrightarrow>
      unat i < length (gm_hashes (gmb_build R b)) \<and>
      (\<exists>r. (gm_hashes (gmb_build R b) ! unat i, r) \<in> set adds \<and> rs_contains R r x)"
proof -
  let ?es = "filter (\<lambda>(_, v). \<not> rs_is_empty R v) b"
  have b: "b = add_all adds" using assms(1) by (simp add: gmb_hash_def)
  have ok: "bt_ok b" unfolding b by (rule bt_ok_adds) simp
  note build = gmb_build_def [of R b, unfolded Let_def]
  show "sorted_wrt (<) (gm_hashes (gmb_build R b))"
    using bt_ok_filter [OF ok] by (simp add: build)
  have get: "bt_get b k = Some v \<longleftrightarrow> (k, v) \<in> set b" for k v
    using bt.in_entries_iff [OF ok] by simp
  have "v \<noteq> rs_empty R \<longleftrightarrow> (\<exists>x. rs_contains R v x)" for v
    by (auto simp: rs_eq_iff contains_simps)
  then have es: "(k, v) \<in> set ?es \<longleftrightarrow> bt_get b k = Some v \<and> (\<exists>x. rs_contains R v x)" for k v
    by (auto simp: get is_empty_iff)
  have "h \<in> set (map fst ?es) \<longleftrightarrow> (\<exists>x. rs_contains R (or_empty R (bt_get b h)) x)"
    using es [of h] contains_empty by (cases "bt_get b h") (force simp: image_iff)+
  then show "h \<in> set (gm_hashes (gmb_build R b)) \<longleftrightarrow> (\<exists>r x. (h, r) \<in> set adds \<and> rs_contains R r x)"
    unfolding b contains_add_all by (auto simp: build [unfolded b])
  have "length ?es < 2 ^ 64" using assms(2) length_filter_le [of _ b] le_less_trans by blast
  then have at: "seq_at R (gm_ranges (gmb_build R b)) i =
      (if unat i < length ?es then map snd ?es ! unat i else rs_empty R)"
    by (simp add: build seq_at_from_ranges)
  show "rs_contains R (seq_at R (gm_ranges (gmb_build R b)) i) x \<longleftrightarrow>
      unat i < length (gm_hashes (gmb_build R b)) \<and>
      (\<exists>r. (gm_hashes (gmb_build R b) ! unat i, r) \<in> set adds \<and> rs_contains R r x)"
  proof (cases "unat i < length ?es")
    case True
    obtain h v where hv: "?es ! unat i = (h, v)" by (cases "?es ! unat i")
    then have "(h, v) \<in> set ?es" using True by (metis nth_mem)
    then have "bt_get b h = Some v" using es by blast
    then have "rs_contains R v x \<longleftrightarrow> (\<exists>r. (h, r) \<in> set adds \<and> rs_contains R r x)"
      using contains_add_all [of adds h x] by (simp add: b)
    with True hv show ?thesis by (simp add: at) (simp add: build)
  next
    case False
    then show ?thesis by (simp add: at contains_empty) (simp add: build)
  qed
qed

end

section \<open>Properties\<close>

text \<open>
  A built request asks for exactly what was put into the builder: after any sequence of
  additions \<open>(offset, ranges)\<close>, in any order and with repetitions, the sequence built asks at
  every index for the union of the ranges added at that index. (An addition at the last 64-bit
  index is excluded: there the end \<open>k + 1\<close> of \<open>next_offset_value\<close> wraps around.)
\<close>

theorem builder_exact:
  assumes "range_set R" "\<forall>a\<in>set adds. fst a \<noteq> u64_max"
  shows "rs_contains R (seq_at R (builder_build R
      (fold (\<lambda>(o', r) b. builder_offset R b o' r) adds [])) i) x \<longleftrightarrow>
    (\<exists>r. (i, r) \<in> set adds \<and> rs_contains R r x)"
  using assms by (rule range_set.contains_build_adds)

theorem builder_exact_witness:
  "rs_contains ref_ops (seq_at ref_ops (builder_build ref_ops
      (fold (\<lambda>(o', r) b. builder_offset ref_ops b o' r)
        [(2, rs_range ref_ops 0 4), (0, rs_all ref_ops), (2, rs_range ref_ops 6 9)] [])) 2) 7"
proof (subst builder_exact [OF ref.range_set_axioms])
  let ?adds = "[(2, rs_range ref_ops 0 4), (0, rs_all ref_ops), (2, rs_range ref_ops 6 9)]"
  show "\<forall>a\<in>set ?adds. fst a \<noteq> u64_max" by (simp add: u64_max_def)
  have "rs_contains ref_ops (rs_range ref_ops 6 9) 7" by (simp add: ref.contains_simps)
  then show "\<exists>r. (2, r) \<in> set ?adds \<and> rs_contains ref_ops r 7" by fastforce
qed


text \<open>
  A get-many request built from hashes and ranges lists every hash for which some chunk was
  requested exactly once, in increasing order, and asks at the position of a hash for exactly
  the union of the ranges given for it (and for nothing behind the last position).
\<close>

theorem get_many_builder_exact:
  assumes "range_set R" "b = fold (\<lambda>(h, r) b. gmb_hash R b h r) adds []" "length b < 2 ^ 64"
  shows "sorted_wrt (<) (gm_hashes (gmb_build R b)) \<and>
    (\<forall>h. h \<in> set (gm_hashes (gmb_build R b)) \<longleftrightarrow> (\<exists>r x. (h, r) \<in> set adds \<and> rs_contains R r x)) \<and>
    (\<forall>i x. rs_contains R (seq_at R (gm_ranges (gmb_build R b)) i) x \<longleftrightarrow>
      unat i < length (gm_hashes (gmb_build R b)) \<and>
      (\<exists>r. (gm_hashes (gmb_build R b) ! unat i, r) \<in> set adds \<and> rs_contains R r x))"
  using range_set.gmb_build_adds [OF assms] by blast

theorem get_many_builder_exact_witness:
  "hash_empty \<in> set (gm_hashes (gmb_build ref_ops (gmb_hash ref_ops [] hash_empty (rs_all ref_ops))))"
  using get_many_builder_exact [OF ref.range_set_axioms, of _ "[(hash_empty, rs_all ref_ops)]", OF refl]
  by (auto simp: gmb_hash_def bt_upsert_def ref.contains_simps)

lemma sorted_remdups_adj_less:
  fixes xs :: "'a :: linorder list"
  shows "sorted xs \<Longrightarrow> sorted_wrt (<) (remdups_adj xs)"
proof (induction xs rule: remdups_adj.induct)
  case (3 x y xs)
  then have "\<forall>z\<in>set (y # xs). x \<noteq> y \<longrightarrow> x < z" by (auto simp: less_le)
  with 3 show ?case by auto
qed simp_all

text \<open>
  Collecting hashes into a get-many request sorts them, drops the duplicates and no hash, and
  asks for all chunks of exactly the listed hashes.
\<close>

theorem get_many_from_iter_exact:
  assumes "length hs < 2 ^ 64"
  shows "sorted_wrt (<) (gm_hashes (get_many_from_iter R hs)) \<and>
    set (gm_hashes (get_many_from_iter R hs)) = set hs \<and>
    (\<forall>i. seq_at R (gm_ranges (get_many_from_iter R hs)) i =
      (if unat i < length (gm_hashes (get_many_from_iter R hs)) then rs_all R else rs_empty R))"
proof -
  have "length (remdups_adj (sort hs)) < 2 ^ 64"
    using assms remdups_adj_length [of "sort hs"] by simp
  then show ?thesis
    by (auto simp: get_many_from_iter_def Let_def sorted_remdups_adj_less seq_at_def last_ranges_def
        word_le_nat_alt unat_of_nat_u64)
qed

theorem get_many_from_iter_exact_witness:
  "sorted_wrt (<) (gm_hashes (get_many_from_iter ref_ops [hash_empty, from_bytes [1], hash_empty])) \<and>
   set (gm_hashes (get_many_from_iter ref_ops [hash_empty, from_bytes [1], hash_empty])) =
     {hash_empty, from_bytes [1]}"
  using get_many_from_iter_exact [of "[hash_empty, from_bytes [1], hash_empty]" ref_ops] by auto

context range_set
begin

lemma from_ranges_single:
  "from_ranges R [r] = (if r = rs_empty R then [] else [(0, r), (1, rs_empty R)])"
  by (simp add: from_ranges_def from_ranges_inner_def is_empty_iff)

lemma is_blob_single: "is_blob R [(0, r), (1, rs_empty R)]"
  by (simp add: is_blob_def as_single_def is_empty_iff)

lemma content_get_request_from: "content R (get_request_from R hf) = hf"
  by (cases hf; cases "hf_format hf")
    (simp_all add: content_def get_request_from_def get_request_blob_def get_request_all_def
      from_ranges_single is_empty_iff is_blob_def as_single_def seq_all_def)

lemma content_blob_ranges:
  "content R (get_request_blob_ranges R h r) = (if r = rs_empty R then hf_hash_seq h else hf_raw h)"
  by (simp add: content_def get_request_blob_ranges_def from_ranges_single is_blob_single hf_raw_def
      hf_hash_seq_def) (simp add: is_blob_def as_single_def)

end

text \<open>
  The request made for a hash and format has this content: \<open>GetRequest::content\<close> inverts the
  conversion from \<open>HashAndFormat\<close>. A request for ranges of a single blob is recognised as raw
  exactly if the ranges are not empty.
\<close>

theorem request_content:
  assumes "range_set R"
  shows "content R (get_request_from R hf) = hf \<and>
    hf_format (content R (get_request_blob_ranges R h r)) = (if r = rs_empty R then HashSeq else Raw)"
  using range_set.content_get_request_from [OF assms] range_set.content_blob_ranges [OF assms]
  by (simp add: hf_raw_def hf_hash_seq_def)

theorem request_content_witness:
  "content ref_ops (get_request_from ref_ops (hf_raw hash_empty)) = hf_raw hash_empty \<and>
   hf_format (content ref_ops (get_request_blob_ranges ref_ops hash_empty (rs_range ref_ops 0 1))) =
     (if rs_range ref_ops 0 1 = rs_empty ref_ops then HashSeq else Raw)"
  by (rule request_content [OF ref.range_set_axioms])

text \<open>
  The stream error codes decode to what was encoded, and every other code is reported as
  unknown with its value.
\<close>

theorem closed_round_trip:
  "closed_try_from (closed_to_varint c) = Inr c \<and>
   (closed_try_from v = Inl e \<longleftrightarrow> e = v \<and> v \<notin> {0, 1, 2})"
  by (cases c) (auto simp: closed_try_from_def closed_to_varint_def)

end
