(* ===== verification/Bitfield.thy ===== *)
theory Bitfield
  imports Protocol
begin

text \<open>
  Bitfields, \<open>src/api/proto/bitfield.rs\<close>: which chunks of a blob are present and what is known of
  its size; canonical form, combination of updates, the result of an update, differences for
  observers, and the serialized form. \<open>RangeSetExt::upper_bound\<close> is from \<open>src/store/util.rs\<close>, the
  contract of \<open>combine\<close> is the trait of \<open>src/store/util/observer.rs\<close>, here the locale
  \<open>combine_trait\<close>.
\<close>

section \<open>Operations\<close>

definition upper_bound :: "'r range_ops \<Rightarrow> 'r \<Rightarrow> u64 option" where
  "upper_bound R r =
     (let boundaries = rs_boundaries R r in
      if boundaries = [] then Some 0
      else if length boundaries mod 2 = 0 then Some (boundaries ! (length boundaries - 1))
      else None)"

text \<open>The arguments of type \<open>NonZeroU64\<close> are sizes different from 0.\<close>

definition size_is_validated :: "'r range_ops \<Rightarrow> 'r chunk_ops \<Rightarrow> u64 \<Rightarrow> 'r \<Rightarrow> bool" where
  "size_is_validated R B sz ranges =
     (let last_chunk = chunks_of B sz - 1 in rs_contains R ranges last_chunk)"

definition size_is_complete :: "'r range_ops \<Rightarrow> 'r chunk_ops \<Rightarrow> u64 \<Rightarrow> 'r \<Rightarrow> bool" where
  "size_is_complete R B sz ranges =
     (let complete = rs_to R (chunks_of B sz) in rs_is_subset R complete ranges)"

record 'r bitfield =
  bf_size :: u64
  bf_ranges :: 'r

record bitfield_state =
  bs_complete :: bool
  bs_validated_size :: "u64 option"

definition bf_new_unchecked :: "'r \<Rightarrow> u64 \<Rightarrow> 'r bitfield" where
  "bf_new_unchecked ranges sz = \<lparr>bf_size = sz, bf_ranges = ranges\<rparr>"

definition bf_new :: "'r range_ops \<Rightarrow> 'r chunk_ops \<Rightarrow> 'r \<Rightarrow> u64 \<Rightarrow> 'r bitfield" where
  "bf_new R B ranges sz =
     (let ranges =
        (if sz \<noteq> 0 then
           let end = chunks_of B sz in
           if rs_is_subset R (rs_to R end) ranges then rs_all R
           else if rs_contains R ranges (end - 1) then rs_union R ranges (rs_from R end)
           else ranges
         else ranges)
      in \<lparr>bf_size = sz, bf_ranges = ranges\<rparr>)"

definition bf_empty :: "'r range_ops \<Rightarrow> 'r bitfield" where
  "bf_empty R = \<lparr>bf_size = 0, bf_ranges = rs_empty R\<rparr>"

definition bf_complete :: "'r range_ops \<Rightarrow> u64 \<Rightarrow> 'r bitfield" where
  "bf_complete R sz = \<lparr>bf_size = sz, bf_ranges = rs_all R\<rparr>"

definition is_validated :: "'r range_ops \<Rightarrow> 'r chunk_ops \<Rightarrow> 'r bitfield \<Rightarrow> bool" where
  "is_validated R B b =
     (if bf_size b \<noteq> 0 then size_is_validated R B (bf_size b) (bf_ranges b)
      else rs_is_all R (bf_ranges b))"

definition is_complete :: "'r range_ops \<Rightarrow> 'r chunk_ops \<Rightarrow> 'r bitfield \<Rightarrow> bool" where
  "is_complete R B b =
     (if bf_size b \<noteq> 0 then size_is_complete R B (bf_size b) (bf_ranges b)
      else rs_is_all R (bf_ranges b))"

definition validated_size :: "'r range_ops \<Rightarrow> 'r chunk_ops \<Rightarrow> 'r bitfield \<Rightarrow> u64 option" where
  "validated_size R B b = (if is_validated R B b then Some (bf_size b) else None)"

definition total_bytes :: "'r range_ops \<Rightarrow> 'r chunk_ops \<Rightarrow> 'r bitfield \<Rightarrow> u64" where
  "total_bytes R B b =
     fold (\<lambda>rng total.
        let (start, end) =
          (case rng of
             Range s e \<Rightarrow> (chunk_to_bytes B s, min (chunk_to_bytes B e) (bf_size b))
           | RangeFrom s \<Rightarrow> (chunk_to_bytes B s, bf_size b))
        in total + (end - start)) (rs_iter R (bf_ranges b)) 0"

definition bf_state :: "'r range_ops \<Rightarrow> 'r chunk_ops \<Rightarrow> 'r bitfield \<Rightarrow> bitfield_state" where
  "bf_state R B b =
     \<lparr>bs_complete = is_complete R B b, bs_validated_size = validated_size R B b\<rparr>"

definition choose_size :: "'r range_ops \<Rightarrow> 'r bitfield \<Rightarrow> 'r bitfield \<Rightarrow> u64" where
  "choose_size R a b =
     (case (upper_bound R (bf_ranges a), upper_bound R (bf_ranges b)) of
        (Some ac, Some bc) \<Rightarrow>
          if ac < bc then bf_size b
          else if bc < ac then bf_size a
          else max (bf_size a) (bf_size b)
      | (Some _, None) \<Rightarrow> bf_size b
      | (None, Some _) \<Rightarrow> bf_size a
      | (None, None) \<Rightarrow> max (bf_size a) (bf_size b))"

definition combine :: "'r range_ops \<Rightarrow> 'r chunk_ops \<Rightarrow> 'r bitfield \<Rightarrow> 'r bitfield \<Rightarrow> 'r bitfield" where
  "combine R B self that =
     (let sz = choose_size R self that;
          ranges = rs_union R (bf_ranges self) (bf_ranges that)
      in bf_new R B ranges sz)"

text \<open>\<open>combine_with\<close> returns the change and the updated bitfield.\<close>

definition combine_with ::
  "'r range_ops \<Rightarrow> 'r bitfield \<Rightarrow> 'r bitfield \<Rightarrow> 'r bitfield \<times> 'r bitfield" where
  "combine_with R self other =
     (let new = rs_diff R (bf_ranges other) (bf_ranges self) in
      if rs_is_empty R new then (bf_empty R, self)
      else
        let self = self\<lparr>bf_ranges := rs_union R (bf_ranges self) new\<rparr>;
            self = self\<lparr>bf_size := choose_size R self other\<rparr>
        in (\<lparr>bf_size = bf_size self, bf_ranges = new\<rparr>, self))"

definition is_neutral :: "'r range_ops \<Rightarrow> 'r bitfield \<Rightarrow> bool" where
  "is_neutral R b = (rs_is_empty R (bf_ranges b) \<and> bf_size b = 0)"

datatype update_result =
    NoChange bitfield_state
  | MinorChange bitfield_state
  | MajorChange bitfield_state bitfield_state

definition bf_update ::
  "'r range_ops \<Rightarrow> 'r chunk_ops \<Rightarrow> 'r bitfield \<Rightarrow> 'r bitfield \<Rightarrow> update_result \<times> 'r bitfield" where
  "bf_update R B self update =
     (let s0 = bf_state R B self;
          bitfield1 = combine R B self update in
      if bitfield1 \<noteq> self then
        let s1 = bf_state R B bitfield1 in
        (if s0 \<noteq> s1 then MajorChange s0 s1 else MinorChange s1, bitfield1)
      else (NoChange s0, self))"

fun new_state :: "update_result \<Rightarrow> bitfield_state" where
  "new_state (NoChange new) = new"
| "new_state (MinorChange new) = new"
| "new_state (MajorChange _ new) = new"

fun was_validated :: "update_result \<Rightarrow> bool" where
  "was_validated (NoChange _) = False"
| "was_validated (MinorChange _) = False"
| "was_validated (MajorChange old new) =
     (bs_validated_size new \<noteq> None \<and> bs_validated_size old = None)"

fun changed :: "update_result \<Rightarrow> bool" where
  "changed (NoChange _) = False"
| "changed (MinorChange _) = True"
| "changed (MajorChange _ _) = True"

definition bf_is_empty :: "'r range_ops \<Rightarrow> 'r bitfield \<Rightarrow> bool" where
  "bf_is_empty R b = (rs_is_empty R (bf_ranges b) \<and> bf_size b = 0)"

definition bf_diff :: "'r range_ops \<Rightarrow> 'r bitfield \<Rightarrow> 'r bitfield \<Rightarrow> 'r bitfield" where
  "bf_diff R self that =
     (let sz = choose_size R self that;
          ranges_diff = rs_xor R (bf_ranges self) (bf_ranges that)
      in \<lparr>bf_size = sz, bf_ranges = ranges_diff\<rparr>)"

section \<open>The serialized form\<close>

definition bf_serialize :: "'r range_ops \<Rightarrow> 'r bitfield \<Rightarrow> u64 list" where
  "bf_serialize R b = [bf_size b] @ rs_boundaries R (bf_ranges b)"

datatype bitfield_error = NeedsSize | NotSorted

definition bf_deserialize ::
  "'r range_ops \<Rightarrow> 'r chunk_ops \<Rightarrow> u64 list \<Rightarrow> bitfield_error + 'r bitfield" where
  "bf_deserialize R B numbers =
     (case numbers of
        [] \<Rightarrow> Inl NeedsSize
      | sz # ranges \<Rightarrow>
          (case rs_new R ranges of
             None \<Rightarrow> Inl NotSorted
           | Some ranges \<Rightarrow> Inr (bf_new R B ranges sz)))"

text \<open>\<open>ObserveItem\<close> of \<open>src/protocol.rs\<close> and its conversions.\<close>

record 'r observe_item =
  oi_size :: u64
  oi_ranges :: 'r

definition observe_item_from :: "'r bitfield \<Rightarrow> 'r observe_item" where
  "observe_item_from b = \<lparr>oi_size = bf_size b, oi_ranges = bf_ranges b\<rparr>"

definition bitfield_from :: "'r observe_item \<Rightarrow> 'r bitfield" where
  "bitfield_from i = \<lparr>bf_size = oi_size i, bf_ranges = oi_ranges i\<rparr>"

section \<open>Upper bounds\<close>

lemma on_at_snoc:
  fixes x :: u64
  shows "sorted_wrt (<) (bs @ [b]) \<Longrightarrow>
    on_at on (bs @ [b]) x = (if x < b then on_at on bs x else on \<noteq> even (length bs))"
proof (induction bs arbitrary: on)
  case (Cons c bs)
  then have "c < b" by auto
  then have "x < c \<Longrightarrow> x < b" by (rule less_trans [rotated])
  with Cons show ?case by auto
qed auto

definition bounded_by :: "u64 option \<Rightarrow> u64 \<Rightarrow> bool" where
  "bounded_by u x = (case u of Some v \<Rightarrow> x < v | None \<Rightarrow> True)"

text \<open>The order of upper bounds, \<open>None\<close> on top.\<close>

definition bound_le :: "u64 option \<Rightarrow> u64 option \<Rightarrow> bool" where
  "bound_le u v = (case (u, v) of (_, None) \<Rightarrow> True | (None, Some _) \<Rightarrow> False | (Some a, Some b) \<Rightarrow> a \<le> b)"

lemma u64_pred_less: "(u :: u64) \<noteq> 0 \<Longrightarrow> u - 1 < u"
  by (simp add: word_less_nat_alt unat_pos_u64 unat_sub_u64 word_le_nat_alt Suc_le_eq)

lemma u64_le_pred: "(x :: u64) < u \<Longrightarrow> x \<le> u - 1"
proof -
  assume "x < u"
  then have "1 \<le> u" by (simp add: word_le_nat_alt word_less_nat_alt)
  with \<open>x < u\<close> show ?thesis by (simp add: word_le_nat_alt word_less_nat_alt unat_sub_u64)
qed

context range_set
begin

lemma upper_bound_Some:
  assumes "upper_bound R r = Some u"
  shows "(rs_contains R r x \<longrightarrow> x < u) \<and> (u = 0 \<longleftrightarrow> r = rs_empty R) \<and> (u \<noteq> 0 \<longrightarrow> rs_contains R r (u - 1))"
proof (cases "rs_boundaries R r" rule: rev_cases)
  case Nil
  then show ?thesis using assms by (simp add: upper_bound_def boundaries_Nil_iff contains_empty)
next
  case (snoc bs b)
  have sorted: "sorted_wrt (<) (bs @ [b])" using sorted_boundaries [of r] snoc by simp
  have b: "b = u" "odd (length bs)"
    using assms snoc by (auto simp: upper_bound_def Let_def nth_append split: if_splits)
  obtain cs c where bs: "bs = cs @ [c]" using b(2) by (cases bs rule: rev_cases) auto
  have cu: "c < u" "even (length cs)" using sorted bs b by (auto simp: sorted_wrt_append)
  then have "u \<noteq> 0" by auto
  moreover have "r \<noteq> rs_empty R" using snoc boundaries_empty by force
  moreover have "rs_contains R r x \<longrightarrow> x < u"
    using b(2) by (simp add: contains_boundaries [of r] snoc on_at_snoc [OF sorted]) (simp add: b(1))
  moreover have "rs_contains R r (u - 1)"
  proof -
    have "\<not> u - 1 < c" using u64_le_pred [OF cu(1)] by (simp add: not_less)
    moreover have "sorted_wrt (<) (cs @ [c])" using sorted bs by (simp add: sorted_wrt_append)
    ultimately have "on_at False bs (u - 1)" using cu(2) by (simp add: bs on_at_snoc)
    then show ?thesis
      using b(1) \<open>u \<noteq> 0\<close> u64_pred_less [of u]
      by (simp add: contains_boundaries [of r] snoc on_at_snoc [OF sorted [unfolded b(1)]])
  qed
  ultimately show ?thesis by simp
qed

lemma upper_bound_None:
  assumes "upper_bound R r = None"
  shows "rs_contains R r u64_max"
proof (cases "rs_boundaries R r" rule: rev_cases)
  case Nil
  then show ?thesis using assms by (simp add: upper_bound_def)
next
  case (snoc bs b)
  have sorted: "sorted_wrt (<) (bs @ [b])" using sorted_boundaries [of r] snoc by simp
  have "even (length bs)"
    using assms snoc by (auto simp: upper_bound_def Let_def split: if_splits) presburger
  then show ?thesis
    using not_less_u64_max by (simp add: contains_boundaries snoc on_at_snoc [OF sorted])
qed

lemma upper_bound_empty [simp]: "upper_bound R (rs_empty R) = Some 0"
  by (simp add: upper_bound_def)

lemma upper_bound_mono:
  assumes "rs_is_subset R r s"
  shows "bound_le (upper_bound R r) (upper_bound R s)"
proof (cases "upper_bound R s")
  case (Some v)
  show ?thesis
  proof (cases "upper_bound R r")
    case None
    then have "rs_contains R s u64_max" using assms upper_bound_None is_subset_iff by blast
    then show ?thesis using upper_bound_Some [OF Some, of u64_max] not_less_u64_max by blast
  next
    case u: (Some u)
    show ?thesis
    proof (cases "u = 0")
      case False
      then have "u - 1 < v"
        using assms upper_bound_Some [OF u] upper_bound_Some [OF Some] is_subset_iff by blast
      then have "u \<le> v"
        using False unat_pos_u64 [of u] by (simp add: word_le_nat_alt word_less_nat_alt unat_sub_u64)
      with u Some show ?thesis by (simp add: bound_le_def)
    qed (simp add: u Some bound_le_def)
  qed
qed (simp add: bound_le_def split: option.split)

text \<open>
  If a set grows by a disjoint part and its upper bound changes, then the bound is that of the part.
\<close>

lemma upper_bound_from:
  "upper_bound R r = Some u \<longleftrightarrow>
    (\<forall>x. rs_contains R r x \<longrightarrow> x < u) \<and> (u \<noteq> 0 \<longrightarrow> rs_contains R r (u - 1))" (is "?l \<longleftrightarrow> ?r")
proof
  assume r: ?r
  show ?l
  proof (cases "upper_bound R r")
    case None
    then show ?thesis using r upper_bound_None not_less_u64_max by blast
  next
    case (Some v)
    note v = upper_bound_Some [OF Some]
    have "\<not> v < u"
    proof
      assume lt: "v < u"
      then have "u \<noteq> 0" by auto
      then have "u - 1 < v" using r v by blast
      with u64_le_pred [OF lt] show False by simp
    qed
    moreover have "\<not> u < v"
    proof
      assume lt: "u < v"
      then have "v \<noteq> 0" by auto
      then have "v - 1 < u" using r v by blast
      with u64_le_pred [OF lt] show False by simp
    qed
    ultimately show ?thesis using Some by simp
  qed
qed (use upper_bound_Some in blast)

lemma upper_bound_union_disjoint:
  assumes "rs_union R r d = s" "\<And>x. \<not> (rs_contains R r x \<and> rs_contains R d x)"
    and "upper_bound R r \<noteq> upper_bound R s"
  shows "bound_le (upper_bound R r) (upper_bound R d) \<and> upper_bound R r \<noteq> upper_bound R d"
proof -
  have s: "rs_contains R s x \<longleftrightarrow> rs_contains R r x \<or> rs_contains R d x" for x
    using assms(1) by (auto simp: contains_union)
  have "upper_bound R d = upper_bound R s"
  proof (cases "upper_bound R s")
    case None
    then have "rs_contains R d u64_max \<or> rs_contains R r u64_max"
      using s upper_bound_None by blast
    moreover have "rs_contains R t u64_max \<Longrightarrow> upper_bound R t = None" for t
      using upper_bound_Some [of t _ u64_max] not_less_u64_max by (cases "upper_bound R t") auto
    ultimately show ?thesis using None assms(3) by auto
  next
    case (Some v)
    then have v: "\<forall>x. rs_contains R s x \<longrightarrow> x < v" "v \<noteq> 0 \<longrightarrow> rs_contains R s (v - 1)"
      by (simp_all add: upper_bound_from)
    have "\<not> (v = 0 \<or> rs_contains R r (v - 1))"
      using assms(3) v s Some upper_bound_from [of r v] by auto
    then show ?thesis using v s Some upper_bound_from [of d v] by auto
  qed
  moreover have "rs_is_subset R r s" using s by (simp add: is_subset_iff)
  ultimately show ?thesis using upper_bound_mono assms(3) by metis
qed

end

section \<open>Canonical form and combination\<close>

definition bf_canonical :: "'r range_ops \<Rightarrow> 'r chunk_ops \<Rightarrow> 'r bitfield \<Rightarrow> bool" where
  "bf_canonical R B b = (bf_new R B (bf_ranges b) (bf_size b) = b)"

text \<open>
  The contract of \<open>Combine\<close> and \<open>CombineInPlace::is_neutral\<close> in \<open>observer.rs\<close>: a commutative
  combination of updates, with a neutral element for the well-formed ones.
\<close>

locale combine_trait =
  fixes comb :: "'b \<Rightarrow> 'b \<Rightarrow> 'b"
    and neutral :: 'b
    and valid :: "'b \<Rightarrow> bool"
  assumes comb_commute: "comb a b = comb b a"
    and comb_neutral: "valid a \<Longrightarrow> comb a neutral = a"
    and comb_valid: "valid (comb a b)"
begin

lemma comb_neutral_left: "valid a \<Longrightarrow> comb neutral a = a"
  by (simp add: comb_commute [of neutral] comb_neutral)

lemma comb_pair_neutral: "comb (comb a b) neutral = comb a b" "comb neutral (comb a b) = comb a b"
  by (simp_all add: comb_neutral comb_neutral_left comb_valid)

lemma fold_comb_valid: "valid a \<Longrightarrow> valid (fold (\<lambda>u s. comb s u) us a)"
  by (induction us arbitrary: a) (simp_all add: comb_valid)

end

lemma choose_size_commute: "choose_size R a b = choose_size R b a"
  by (auto simp: choose_size_def max.commute split: option.split)

context chunk_laws
begin

lemma bf_size_new [simp]: "bf_size (bf_new R B r s) = s"
  by (simp add: bf_new_def Let_def)

lemma subset_to_iff: "rs_is_subset R (rs_to R e) r \<longleftrightarrow> (\<forall>x<e. rs_contains R r x)"
  by (auto simp: is_subset_iff contains_to)

lemma new_contains:
  assumes "s \<noteq> 0" "x < chunks_of B s"
  shows "rs_contains R (bf_ranges (bf_new R B r s)) x = rs_contains R r x"
  using assms by (auto simp: bf_new_def Let_def subset_to_iff contains_simps)

lemma new_is_complete:
  assumes "s \<noteq> 0"
  shows "is_complete R B (bf_new R B r s) \<longleftrightarrow> (\<forall>x<chunks_of B s. rs_contains R r x)"
  using assms new_contains [OF assms, of _ r]
  by (auto simp: is_complete_def size_is_complete_def Let_def subset_to_iff)

lemma new_complete_all:
  assumes "is_complete R B (bf_new R B r s)"
  shows "bf_ranges (bf_new R B r s) = rs_all R"
proof (cases "s = 0")
  case True
  with assms show ?thesis by (simp add: is_complete_def is_all_iff)
next
  case False
  with assms new_is_complete show ?thesis by (simp add: bf_new_def Let_def subset_to_iff)
qed

lemma new_is_validated:
  assumes "s \<noteq> 0"
  shows "is_validated R B (bf_new R B r s) \<longleftrightarrow> rs_contains R r (chunks_of B s - 1)"
  using assms new_contains [OF assms last_chunk_less [OF assms], of r]
  by (simp add: is_validated_def size_is_validated_def Let_def)

lemma new_validated_open:
  assumes "s \<noteq> 0" "is_validated R B (bf_new R B r s)" "chunks_of B s \<le> x"
  shows "rs_contains R (bf_ranges (bf_new R B r s)) x"
  using assms new_is_validated [OF assms(1), of r]
  by (auto simp: bf_new_def Let_def contains_simps)

lemma new_canonical: "bf_canonical R B (bf_new R B r s)"
proof (cases "s = 0")
  case True
  then show ?thesis by (simp add: bf_canonical_def bf_new_def)
next
  case False
  have "\<not> chunks_of B s \<le> chunks_of B s - 1"
    using last_chunk_less [OF False] by (simp add: not_le)
  with False last_chunk_less [OF False] show ?thesis
    by (auto simp: bf_canonical_def bf_new_def Let_def subset_to_iff contains_simps union_assoc)
qed

lemma choose_size_empty: "choose_size R a (bf_empty R) = bf_size a"
proof (cases "upper_bound R (bf_ranges a)")
  case (Some u)
  then show ?thesis
    by (cases "u = 0") (simp_all add: choose_size_def bf_empty_def word_gt_0)
qed (simp add: choose_size_def bf_empty_def)

end

sublocale chunk_laws \<subseteq> bf: combine_trait "combine R B" "bf_empty R" "bf_canonical R B"
proof (unfold_locales, goal_cases)
  case (1 a b)
  show ?case by (simp add: combine_def choose_size_commute [of R a b] union_comm)
next
  case (2 a)
  then show ?case
    by (simp add: combine_def choose_size_empty bf_canonical_def) (simp add: bf_empty_def)
next
  case (3 a b)
  show ?case by (simp add: combine_def new_canonical)
qed


context chunk_laws
begin

lemma canonical_complete_all:
  "bf_canonical R B a \<Longrightarrow> is_complete R B a \<longleftrightarrow> bf_ranges a = rs_all R"
proof
  assume "bf_canonical R B a" "is_complete R B a"
  then show "bf_ranges a = rs_all R"
    using new_complete_all [of "bf_ranges a" "bf_size a"] by (simp add: bf_canonical_def)
next
  assume "bf_ranges a = rs_all R"
  then show "is_complete R B a"
    by (simp add: is_complete_def size_is_complete_def Let_def subset_to_iff contains_all is_all_iff)
qed

lemma combine_complete:
  assumes "bf_canonical R B a" "is_complete R B a"
  shows "is_complete R B (combine R B a b)"
proof -
  have "bf_ranges a = rs_all R" using assms canonical_complete_all by blast
  then have "rs_union R (bf_ranges a) (bf_ranges b) = rs_all R"
    by (simp add: rs_eq_iff contains_simps)
  then have "bf_ranges (combine R B a b) = rs_all R"
    by (simp add: combine_def bf_new_def Let_def contains_all subset_to_iff)
  then show ?thesis
    by (simp add: is_complete_def size_is_complete_def subset_to_iff contains_all is_all_iff)
qed

lemma upper_bound_all: "upper_bound R (rs_all R) = None"
  by (simp add: upper_bound_def)

lemma combine_complete_size:
  assumes "bf_canonical R B a" "is_complete R B a" "upper_bound R (bf_ranges b) \<noteq> None"
  shows "bf_size (combine R B a b) = bf_size a"
  using assms canonical_complete_all [OF assms(1)]
  by (auto simp: combine_def choose_size_def upper_bound_all)

lemma choose_size_bound:
  assumes "bound_le (upper_bound R (bf_ranges a)) (upper_bound R (bf_ranges b))"
    and "upper_bound R (bf_ranges a) = upper_bound R (bf_ranges b) \<Longrightarrow> bf_size a = bf_size b"
  shows "choose_size R a b = bf_size b"
  using assms by (auto simp: choose_size_def bound_le_def split: option.splits)

lemma combine_diff:
  assumes "bf_canonical R B b" "rs_is_subset R (bf_ranges a) (bf_ranges b)"
    and "upper_bound R (bf_ranges a) = upper_bound R (bf_ranges b) \<Longrightarrow> bf_size a = bf_size b"
  shows "combine R B a (bf_diff R a b) = b"
proof -
  let ?d = "bf_diff R a b"
  have sz: "bf_size ?d = bf_size b"
    using choose_size_bound [OF upper_bound_mono [OF assms(2)] assms(3)] by (simp add: bf_diff_def Let_def)
  have un: "rs_union R (bf_ranges a) (bf_ranges ?d) = bf_ranges b"
    using assms(2) by (auto simp: bf_diff_def Let_def rs_eq_iff contains_simps is_subset_iff)
  have disj: "\<not> (rs_contains R (bf_ranges a) x \<and> rs_contains R (bf_ranges ?d) x)" for x
    using assms(2) by (auto simp: bf_diff_def Let_def contains_simps is_subset_iff)
  have "choose_size R a ?d = bf_size b"
  proof (cases "upper_bound R (bf_ranges a) = upper_bound R (bf_ranges b)")
    case True
    then show ?thesis using assms(3) sz by (simp add: choose_size_def split: option.split)
  next
    case False
    have "bound_le (upper_bound R (bf_ranges a)) (upper_bound R (bf_ranges ?d)) \<and>
        upper_bound R (bf_ranges a) \<noteq> upper_bound R (bf_ranges ?d)"
      using upper_bound_union_disjoint [OF un disj False] .
    then show ?thesis using choose_size_bound [of a ?d] sz by simp
  qed
  with un assms(1) show ?thesis by (simp add: combine_def Let_def bf_canonical_def)
qed

end

context chunk_laws
begin

lemma combine_laws:
  "combine R B a b = combine R B b a \<and> bf_canonical R B (combine R B a b) \<and>
   (bf_canonical R B a \<longrightarrow> combine R B a (bf_empty R) = a \<and> combine R B (bf_empty R) a = a)"
  by (simp add: bf.comb_commute [of a b] bf.comb_valid bf.comb_neutral bf.comb_neutral_left)

lemma contains_combine:
  assumes "choose_size R a b \<noteq> 0" "x < chunks_of B (choose_size R a b)"
  shows "rs_contains R (bf_ranges (combine R B a b)) x \<longleftrightarrow>
    rs_contains R (bf_ranges a) x \<or> rs_contains R (bf_ranges b) x"
  using assms by (simp add: combine_def new_contains contains_union)

lemma serialize_round_trip:
  "bf_deserialize R B (bf_serialize R b) = Inr (bf_new R B (bf_ranges b) (bf_size b))"
  by (simp add: bf_deserialize_def bf_serialize_def new_boundaries)

end

section \<open>Properties\<close>

text \<open>
  \<open>Bitfield::new\<close> canonicalizes without changing what is known of the blob: below the end of
  a blob of non-zero size the chunks are those given, the result is complete exactly if all of
  them are given (and then its ranges are all chunks, so that complete bitfields compare equal),
  it is validated exactly if the last chunk is given (and then it is open-ended), and applying
  it again changes nothing.
\<close>

theorem bitfield_new_exact:
  assumes "chunk_laws R B" "s \<noteq> 0"
  shows "(\<forall>x<chunks_of B s. rs_contains R (bf_ranges (bf_new R B r s)) x = rs_contains R r x) \<and>
    (is_complete R B (bf_new R B r s) \<longleftrightarrow> (\<forall>x<chunks_of B s. rs_contains R r x)) \<and>
    (is_complete R B (bf_new R B r s) \<longrightarrow> bf_ranges (bf_new R B r s) = rs_all R) \<and>
    (is_validated R B (bf_new R B r s) \<longleftrightarrow> rs_contains R r (chunks_of B s - 1)) \<and>
    (is_validated R B (bf_new R B r s) \<longrightarrow>
      (\<forall>x\<ge>chunks_of B s. rs_contains R (bf_ranges (bf_new R B r s)) x)) \<and>
    bf_new R B (bf_ranges (bf_new R B r s)) s = bf_new R B r s"
  using chunk_laws.new_contains [OF assms] chunk_laws.new_is_complete [OF assms]
    chunk_laws.new_complete_all [OF assms(1)] chunk_laws.new_is_validated [OF assms]
    chunk_laws.new_validated_open [OF assms] chunk_laws.new_canonical [OF assms(1)]
    chunk_laws.bf_size_new [OF assms(1)]
  by (simp add: bf_canonical_def)

theorem bitfield_new_exact_witness:
  "is_validated ref_ops ref_chunk_ops (bf_new ref_ops ref_chunk_ops (rs_range ref_ops 1 2) 1025) \<and>
   \<not> is_complete ref_ops ref_chunk_ops (bf_new ref_ops ref_chunk_ops (rs_range ref_ops 1 2) 1025)"
proof -
  have "(1025 :: u64) \<noteq> 0" by simp
  moreover have c: "chunks_of ref_chunk_ops 1025 = 2" by (simp add: ref_chunk_ops_def ref_chunks_of_def)
  ultimately show ?thesis
    using bitfield_new_exact [OF refc.chunk_laws_axioms, of 1025 "rs_range ref_ops 1 2"]
    by (auto simp: ref.contains_range intro!: exI [of _ 0])
qed

text \<open>
  C34. \<open>Bitfield\<close> implements the contract of the trait \<open>Combine\<close>: combining two updates does not
  depend on their order, the empty bitfield is neutral for canonical bitfields, and every
  combination is canonical.
\<close>

theorem combine_contract:
  assumes "chunk_laws R B"
  shows "combine R B a b = combine R B b a \<and> bf_canonical R B (combine R B a b) \<and>
    (bf_canonical R B a \<longrightarrow> combine R B a (bf_empty R) = a \<and> combine R B (bf_empty R) a = a)"
  using assms by (rule chunk_laws.combine_laws)

theorem combine_contract_witness:
  "combine ref_ops ref_chunk_ops (bf_complete ref_ops 5) (bf_empty ref_ops) = bf_complete ref_ops 5"
proof -
  have "bf_canonical ref_ops ref_chunk_ops (bf_complete ref_ops 5)"
    by (simp add: bf_canonical_def bf_complete_def bf_new_def refc.subset_to_iff ref.contains_all)
  then show ?thesis using combine_contract [OF refc.chunk_laws_axioms] by blast
qed

text \<open>
  \<open>Bitfield::update\<close> stores the combination and reports the change truthfully: the reported
  new state is that of the stored bitfield, a change is reported exactly if the bitfield changed,
  and \<open>was_validated\<close> holds exactly if the size became validated by this update.
\<close>

theorem update_reports:
  "snd (bf_update R B a u) = combine R B a u \<and>
   new_state (fst (bf_update R B a u)) = bf_state R B (snd (bf_update R B a u)) \<and>
   changed (fst (bf_update R B a u)) = (snd (bf_update R B a u) \<noteq> a) \<and>
   was_validated (fst (bf_update R B a u)) =
     (\<not> is_validated R B a \<and> is_validated R B (snd (bf_update R B a u)))"
  by (auto simp: bf_update_def Let_def bf_state_def validated_size_def)

text \<open>
  A complete bitfield stays complete under every update, and it keeps its size unless the
  update is open-ended itself: a peer that reports bounded ranges cannot change a size that is
  already known.
\<close>

theorem complete_is_stable:
  assumes "chunk_laws R B" "bf_canonical R B a" "is_complete R B a"
  shows "is_complete R B (snd (bf_update R B a u)) \<and>
    (upper_bound R (bf_ranges u) \<noteq> None \<longrightarrow> bf_size (snd (bf_update R B a u)) = bf_size a)"
proof -
  have "snd (bf_update R B a u) = combine R B a u" by (simp add: bf_update_def Let_def)
  then show ?thesis
    using chunk_laws.combine_complete [OF assms] chunk_laws.combine_complete_size [OF assms] by simp
qed

theorem complete_is_stable_witness:
  "is_complete ref_ops ref_chunk_ops
     (snd (bf_update ref_ops ref_chunk_ops (bf_complete ref_ops 5) (bf_empty ref_ops)))"
proof -
  have "bf_canonical ref_ops ref_chunk_ops (bf_complete ref_ops 5)"
    "is_complete ref_ops ref_chunk_ops (bf_complete ref_ops 5)"
    by (simp_all add: bf_canonical_def bf_complete_def bf_new_def refc.subset_to_iff ref.contains_all
        is_complete_def size_is_complete_def)
  then show ?thesis using complete_is_stable [OF refc.chunk_laws_axioms] by blast
qed

text \<open>
  \<open>Bitfield::diff\<close> inverts \<open>combine\<close>, as an observer needs it: if a bitfield has grown to a
  canonical one, and its size differs only where its end has moved, then combining the old state
  with the difference gives exactly the new state.
\<close>

theorem diff_inverts_combine:
  assumes "chunk_laws R B" "bf_canonical R B new" "rs_is_subset R (bf_ranges old) (bf_ranges new)"
    and "upper_bound R (bf_ranges old) = upper_bound R (bf_ranges new) \<Longrightarrow> bf_size old = bf_size new"
  shows "combine R B old (bf_diff R old new) = new"
  using assms by (rule chunk_laws.combine_diff)

theorem diff_inverts_combine_witness:
  "combine ref_ops ref_chunk_ops (bf_empty ref_ops) (bf_diff ref_ops (bf_empty ref_ops) (bf_complete ref_ops 5)) =
     bf_complete ref_ops 5"
proof (rule diff_inverts_combine [OF refc.chunk_laws_axioms])
  show "bf_canonical ref_ops ref_chunk_ops (bf_complete ref_ops 5)"
    by (simp add: bf_canonical_def bf_complete_def bf_new_def refc.subset_to_iff ref.contains_all)
  show "rs_is_subset ref_ops (bf_ranges (bf_empty ref_ops)) (bf_ranges (bf_complete ref_ops 5))"
    by (simp add: bf_empty_def bf_complete_def ref.is_subset_iff ref.contains_all)
qed (simp add: bf_empty_def bf_complete_def refc.upper_bound_all)

text \<open>
  A canonical bitfield survives serialization; a list of numbers is rejected exactly if it is
  empty or its boundaries are not strictly increasing.
\<close>

theorem bitfield_serialize_round_trip:
  assumes "chunk_laws R B"
  shows "(bf_canonical R B b \<longrightarrow> bf_deserialize R B (bf_serialize R b) = Inr b) \<and>
    ((\<exists>e. bf_deserialize R B ns = Inl e) \<longleftrightarrow> ns = [] \<or> \<not> sorted_wrt (<) (tl ns))"
proof -
  have "rs_new R (tl ns) = None \<longleftrightarrow> \<not> sorted_wrt (<) (tl ns)"
    using assms by (simp add: chunk_laws_def range_set.new_None)
  moreover have "(\<exists>e. bf_deserialize R B ns = Inl e) \<longleftrightarrow> ns = [] \<or> rs_new R (tl ns) = None"
    by (cases ns) (simp_all add: bf_deserialize_def split: option.split)
  ultimately show ?thesis
    using chunk_laws.serialize_round_trip [OF assms, of b] by (simp add: bf_canonical_def)
qed

theorem bitfield_serialize_round_trip_witness:
  "bf_deserialize ref_ops ref_chunk_ops (bf_serialize ref_ops (bf_empty ref_ops)) = Inr (bf_empty ref_ops)"
proof -
  have "bf_canonical ref_ops ref_chunk_ops (bf_empty ref_ops)"
    by (simp add: bf_canonical_def bf_empty_def bf_new_def)
  then show ?thesis using bitfield_serialize_round_trip [OF refc.chunk_laws_axioms] by blast
qed

text \<open>
  \<open>combine_with\<close> is not the in-place version of \<open>combine\<close>: it takes the union of the ranges
  before it compares their ends, so that the size of the part with the larger end does not win.
  Here a wrong size claimed with the first chunk survives the arrival of the last chunk, which
  proves the true size, while \<open>combine\<close> takes the true size.
\<close>

theorem combine_with_differs:
  "\<exists>a b :: rset bitfield.
     bf_canonical ref_ops ref_chunk_ops a \<and> bf_canonical ref_ops ref_chunk_ops b \<and>
     is_validated ref_ops ref_chunk_ops b \<and> bf_size b = 2000 \<and>
     bf_size (combine ref_ops ref_chunk_ops a b) = 2000 \<and>
     bf_size (snd (combine_with ref_ops a b)) = 9000"
proof -
  let ?a = "\<lparr>bf_size = 9000, bf_ranges = rs_range ref_ops 0 1\<rparr>"
  let ?b = "\<lparr>bf_size = 2000, bf_ranges = rs_from ref_ops 1\<rparr>"
  have c: "chunks_of ref_chunk_ops 9000 = 9" "chunks_of ref_chunk_ops 2000 = 2"
    by (simp_all add: ref_chunk_ops_def ref_chunks_of_def)
  have un: "rs_union ref_ops (rs_from ref_ops 1) (rs_from ref_ops 2) = rs_from ref_ops 1"
    by (auto simp: ref.rs_eq_iff ref.contains_simps intro: order_trans [of 1 2])
  have "rs_diff ref_ops (rs_from ref_ops 1) (rs_range ref_ops 0 1) = rs_from ref_ops 1"
    by (auto simp: ref.rs_eq_iff ref.contains_simps)
  moreover have "rs_union ref_ops (rs_range ref_ops 0 1) (rs_from ref_ops 1) = rs_all ref_ops"
    by (auto simp: ref.rs_eq_iff ref.contains_simps word_le_nat_alt Suc_le_eq word_unat_eq_iff)
  ultimately have "bf_size (snd (combine_with ref_ops ?a ?b)) = 9000"
    by (simp add: combine_with_def Let_def ref.is_empty_iff choose_size_def refc.upper_bound_all)
      (simp add: upper_bound_def max_def)
  moreover have "bf_size (combine ref_ops ref_chunk_ops ?a ?b) = 2000"
    by (simp add: combine_def choose_size_def upper_bound_def ref.boundaries_range)
  moreover have "bf_canonical ref_ops ref_chunk_ops ?a"
  proof -
    have "\<not> (\<forall>x<9. rs_contains ref_ops (rs_range ref_ops 0 1) x)"
      by (auto simp: ref.contains_simps intro!: exI [of _ 5])
    then show ?thesis
      by (auto simp: bf_canonical_def bf_new_def Let_def c refc.subset_to_iff ref.contains_simps)
  qed
  moreover have "bf_canonical ref_ops ref_chunk_ops ?b"
  proof -
    have "\<not> (\<forall>x<2. rs_contains ref_ops (rs_from ref_ops 1) x)"
      by (auto simp: ref.contains_simps intro!: exI [of _ 0])
    then show ?thesis
      by (auto simp: bf_canonical_def bf_new_def Let_def c refc.subset_to_iff ref.contains_simps un)
  qed
  moreover have "is_validated ref_ops ref_chunk_ops ?b"
    by (simp add: is_validated_def size_is_validated_def c ref.contains_simps)
  ultimately show ?thesis by (intro exI [of _ ?a] exI [of _ ?b]) simp
qed

end
