(* ===== verification/Mem_Storage.thy ===== *)
theory Mem_Storage
  imports Bitfield
begin

text \<open>
  The storage of one blob in memory: \<open>SparseMemFile\<close>, \<open>SizeInfo\<close> and \<open>PartialMemStorage\<close> of
  \<open>src/store/util/\<close>, and \<open>BaoFileStorage\<close>, \<open>CompleteStorage\<close>, the import of verified items and the
  export of ranges of \<open>src/store/mem.rs\<close>. Positioned reads and writes, the shape of the hash tree
  and the computation of outboards are functions of the crate \<open>bao-tree\<close> and parameters
  (\<open>io_ops\<close>, locale \<open>io_laws\<close>).
\<close>

section \<open>The interface to positioned input and output\<close>

record io_ops =
  io_write :: "bytes \<Rightarrow> u64 \<Rightarrow> bytes \<Rightarrow> bytes"                \<comment> \<open>\<open>WriteAt for Vec<u8>\<close>\<close>
  io_read :: "bytes \<Rightarrow> u64 \<Rightarrow> usize \<Rightarrow> io_error + bytes"      \<comment> \<open>\<open>ReadBytesAt for [u8]\<close>\<close>
  io_pre_order_offset :: "u64 \<Rightarrow> u64 \<Rightarrow> u64 option"          \<comment> \<open>\<open>BaoTree::pre_order_offset\<close>, by size and node\<close>
  io_root :: "bytes \<Rightarrow> hash"                                \<comment> \<open>\<open>PreOrderMemOutboard::create(data).root()\<close>\<close>
  io_outboard :: "bytes \<Rightarrow> bytes"                           \<comment> \<open>\<open>PreOrderMemOutboard::create(data).data\<close>\<close>

text \<open>A write beyond the end fills the gap with zeros.\<close>

definition write_vec :: "bytes \<Rightarrow> nat \<Rightarrow> bytes \<Rightarrow> bytes" where
  "write_vec data off buf = take off (data @ replicate off 0) @ buf @ drop (off + length buf) data"

locale io_laws =
  fixes Io :: io_ops
  assumes io_write: "io_write Io data off buf = write_vec data (unat off) buf"
    and io_read: "unat off + unat n \<le> length data \<Longrightarrow>
      io_read Io data off n = Inr (take (unat n) (drop (unat off) data))"
    and io_read_length: "io_read Io data off n = Inr bs \<Longrightarrow> length bs \<le> unat n"

definition ref_io :: io_ops where
  "ref_io =
     \<lparr>io_write = (\<lambda>data off buf. write_vec data (unat off) buf),
      io_read = (\<lambda>data off n. if unat off + unat n \<le> length data
                  then Inr (take (unat n) (drop (unat off) data)) else Inl UnexpectedEof),
      io_pre_order_offset = (\<lambda>sz node. None),
      io_root = (\<lambda>data. from_bytes (of_nat (length data) # data)),
      io_outboard = (\<lambda>data. [])\<rparr>"

interpretation refio: io_laws ref_io
  by unfold_locales (auto simp: ref_io_def split: if_splits)

section \<open>Sparse files\<close>

record 'r sparse_mem_file =
  sf_data :: bytes
  sf_ranges :: 'r

definition sparse_new :: "'r range_ops \<Rightarrow> 'r sparse_mem_file" where
  "sparse_new R = \<lparr>sf_data = [], sf_ranges = rs_empty R\<rparr>"

definition sparse_from_vec :: "'r range_ops \<Rightarrow> bytes \<Rightarrow> 'r sparse_mem_file" where
  "sparse_from_vec R data = \<lparr>sf_data = data, sf_ranges = rs_range R 0 (of_nat (length data))\<rparr>"

definition into_parts :: "'r sparse_mem_file \<Rightarrow> bytes \<times> 'r" where
  "into_parts f = (sf_data f, sf_ranges f)"

definition sparse_try_into :: "'r range_ops \<Rightarrow> 'r sparse_mem_file \<Rightarrow> io_error + bytes" where
  "sparse_try_into R f =
     (let (data, ranges) = into_parts f in
      if ranges = rs_range R 0 (of_nat (length data)) then Inr data else Inl InvalidData)"

definition sparse_write_at ::
  "'r range_ops \<Rightarrow> io_ops \<Rightarrow> 'r sparse_mem_file \<Rightarrow> u64 \<Rightarrow> bytes \<Rightarrow> io_error + 'r sparse_mem_file" where
  "sparse_write_at R Io f offset buf =
     (case checked_add_u64 offset (of_nat (length buf)) of
        None \<Rightarrow> Inl OtherIo
      | Some end \<Rightarrow>
          Inr \<lparr>sf_data = io_write Io (sf_data f) offset buf,
               sf_ranges = rs_union R (sf_ranges f) (rs_range R offset end)\<rparr>)"

text \<open>\<open>persist\<close>: the writes it makes to the target, one for each range.\<close>

definition sparse_persist :: "'r range_ops \<Rightarrow> 'r sparse_mem_file \<Rightarrow> (u64 \<times> bytes) list" where
  "sparse_persist R f =
     (let sz = of_nat (length (sf_data f)) in
      map (\<lambda>rng.
        let (start, end) = (case rng of Range s e \<Rightarrow> (s, e) | RangeFrom s \<Rightarrow> (s, sz)) in
        (start, take (unat end - unat start) (drop (unat start) (sf_data f))))
      (rs_iter R (sf_ranges f)))"

section \<open>Size information\<close>

record size_info =
  si_offset :: u64
  si_size :: u64

definition size_info_default :: size_info where
  "size_info_default = \<lparr>si_offset = 0, si_size = 0\<rparr>"

definition chunk_log :: nat where
  "chunk_log = 4"

unbundle bit_operations_syntax

definition size_info_complete :: "u64 \<Rightarrow> size_info" where
  "size_info_complete sz =
     (let mask = push_bit chunk_log 1 - 1;
          last_chunk_offset = sz AND mask
      in \<lparr>si_offset = last_chunk_offset, si_size = sz\<rparr>)"

definition size_info_write :: "size_info \<Rightarrow> u64 \<Rightarrow> u64 \<Rightarrow> size_info" where
  "size_info_write s offset sz =
     (if si_offset s \<le> offset then s\<lparr>si_offset := offset, si_size := sz\<rparr> else s)"

definition size_info_current_size :: "size_info \<Rightarrow> u64" where
  "size_info_current_size s = si_size s"

definition size_info_slot :: "size_info \<Rightarrow> u64" where
  "size_info_slot s = push_bit 3 (drop_bit chunk_log (si_offset s))"

section \<open>Partial and complete storage\<close>

record 'r partial_mem_storage =
  ps_data :: "'r sparse_mem_file"
  ps_outboard :: "'r sparse_mem_file"
  ps_size :: size_info
  ps_bitfield :: "'r bitfield"

datatype 'r bao_file_storage =
    Partial "'r partial_mem_storage"
  | Complete bytes bytes

definition new_partial :: "'r range_ops \<Rightarrow> 'r bao_file_storage" where
  "new_partial R =
     Partial \<lparr>ps_data = sparse_new R, ps_outboard = sparse_new R,
       ps_size = size_info_default, ps_bitfield = bf_empty R\<rparr>"

fun storage_bitfield :: "'r range_ops \<Rightarrow> 'r bao_file_storage \<Rightarrow> 'r bitfield" where
  "storage_bitfield R (Partial entry) = ps_bitfield entry"
| "storage_bitfield R (Complete data _) = bf_complete R (of_nat (length data))"

fun storage_data :: "'r bao_file_storage \<Rightarrow> bytes" where
  "storage_data (Partial entry) = sf_data (ps_data entry)"
| "storage_data (Complete data _) = data"

fun storage_outboard :: "'r bao_file_storage \<Rightarrow> bytes" where
  "storage_outboard (Partial entry) = sf_data (ps_outboard entry)"
| "storage_outboard (Complete _ outboard) = outboard"

fun storage_size :: "'r bao_file_storage \<Rightarrow> u64" where
  "storage_size (Partial entry) = bf_size (ps_bitfield entry)"
| "storage_size (Complete data _) = of_nat (length data)"

definition complete_create :: "io_ops \<Rightarrow> bytes \<Rightarrow> hash \<times> 'r bao_file_storage" where
  "complete_create Io data = (io_root Io data, Complete data (io_outboard Io data))"

section \<open>Import of verified items\<close>

datatype bao_content_item = Parent u64 hash hash | Leaf u64 bytes

text \<open>
  \<open>PartialMemStorage::write_batch\<close>, one item and the loop. \<open>None\<close> is the panic of \<open>expect\<close>.
\<close>

definition write_batch_item ::
  "'r range_ops \<Rightarrow> io_ops \<Rightarrow> u64 \<Rightarrow> bao_content_item \<Rightarrow> 'r partial_mem_storage \<Rightarrow>
   (io_error + 'r partial_mem_storage) option" where
  "write_batch_item R Io sz item s =
     (case item of
        Parent node left right \<Rightarrow>
          (case io_pre_order_offset Io sz node of
             Some offset \<Rightarrow>
               (case checked_mul_u64 offset 64 of
                  None \<Rightarrow> None
                | Some o0 \<Rightarrow>
                    Some (rbind (sparse_write_at R Io (ps_outboard s) o0 (as_bytes left @ as_bytes right))
                      (\<lambda>ob. Inr (s\<lparr>ps_outboard := ob\<rparr>))))
           | None \<Rightarrow> Some (Inr s))
      | Leaf offset data \<Rightarrow>
          let s = s\<lparr>ps_size := size_info_write (ps_size s) offset sz\<rparr> in
          Some (rbind (sparse_write_at R Io (ps_data s) offset data) (\<lambda>d. Inr (s\<lparr>ps_data := d\<rparr>))))"

fun write_batch ::
  "'r range_ops \<Rightarrow> io_ops \<Rightarrow> u64 \<Rightarrow> bao_content_item list \<Rightarrow> 'r partial_mem_storage \<Rightarrow>
   (io_error + 'r partial_mem_storage) option" where
  "write_batch R Io sz [] s = Some (Inr s)"
| "write_batch R Io sz (item # batch) s =
     (case write_batch_item R Io sz item s of
        None \<Rightarrow> None
      | Some (Inl e) \<Rightarrow> Some (Inl e)
      | Some (Inr s') \<Rightarrow> write_batch R Io sz batch s')"

definition chunk_range :: "'r range_ops \<Rightarrow> 'r chunk_ops \<Rightarrow> u64 \<Rightarrow> bytes \<Rightarrow> 'r" where
  "chunk_range R B offset data =
     (let start = chunks_of B offset;
          end = chunks_of B (offset + of_nat (length data))
      in rs_range R start end)"

text \<open>The first \<open>send_if_modified\<close> of \<open>import_bao\<close>.\<close>

definition import_bao_start :: "u64 \<Rightarrow> 'r bao_file_storage \<Rightarrow> 'r bao_file_storage" where
  "import_bao_start sz st =
     (case st of
        Partial entry \<Rightarrow> Partial (entry\<lparr>ps_size := size_info_write (ps_size entry) 0 sz\<rparr>)
      | Complete d ob \<Rightarrow> Complete d ob)"

text \<open>
  One item of the loop of \<open>import_bao\<close>: the new state and whether observers are notified. \<open>None\<close>
  is the panic of an \<open>expect\<close> or \<open>unwrap\<close>.
\<close>

definition import_bao_item ::
  "'r range_ops \<Rightarrow> 'r chunk_ops \<Rightarrow> io_ops \<Rightarrow> u64 \<Rightarrow> bao_content_item \<Rightarrow> 'r bao_file_storage \<Rightarrow>
   ('r bao_file_storage \<times> bool) option" where
  "import_bao_item R B Io sz item st =
     (case st of
        Complete d ob \<Rightarrow> Some (Complete d ob, False)
      | Partial partial \<Rightarrow>
          (case item of
             Parent node left right \<Rightarrow>
               (case io_pre_order_offset Io sz node of
                  Some offset \<Rightarrow>
                    (case sparse_write_at R Io (ps_outboard partial) (offset * 64) (as_bytes left @ as_bytes right) of
                       Inl _ \<Rightarrow> None
                     | Inr ob \<Rightarrow> Some (Partial (partial\<lparr>ps_outboard := ob\<rparr>), False))
                | None \<Rightarrow> Some (Partial partial, False))
           | Leaf offset data \<Rightarrow>
               (case sparse_write_at R Io (ps_data partial) offset data of
                  Inl _ \<Rightarrow> None
                | Inr d \<Rightarrow>
                    let partial = partial\<lparr>ps_data := d\<rparr>;
                        added = chunk_range R B offset data;
                        (update, bf) = bf_update R B (ps_bitfield partial) (bf_new R B added sz);
                        partial = partial\<lparr>ps_bitfield := bf\<rparr>
                    in if bs_complete (new_state update) then
                         (case (sparse_try_into R (ps_data partial), sparse_try_into R (ps_outboard partial)) of
                            (Inr data, Inr outboard) \<Rightarrow> Some (Complete data outboard, changed update)
                          | _ \<Rightarrow> None)
                       else Some (Partial partial, changed update))))"

fun import_bao_items ::
  "'r range_ops \<Rightarrow> 'r chunk_ops \<Rightarrow> io_ops \<Rightarrow> u64 \<Rightarrow> bao_content_item list \<Rightarrow> 'r bao_file_storage \<Rightarrow>
   'r bao_file_storage option" where
  "import_bao_items R B Io sz [] st = Some st"
| "import_bao_items R B Io sz (item # items) st =
     (case import_bao_item R B Io sz item st of
        None \<Rightarrow> None
      | Some (st', _) \<Rightarrow> import_bao_items R B Io sz items st')"

definition import_bao ::
  "'r range_ops \<Rightarrow> 'r chunk_ops \<Rightarrow> io_ops \<Rightarrow> u64 \<Rightarrow> bao_content_item list \<Rightarrow> 'r bao_file_storage \<Rightarrow>
   'r bao_file_storage option" where
  "import_bao R B Io sz items st = import_bao_items R B Io sz items (import_bao_start sz st)"

section \<open>Export of ranges\<close>

text \<open>
  The inner loop of \<open>export_ranges_impl\<close>: the leaves sent so far and the error that ended it, if
  any. \<open>None\<close> would be a loop that does not end.
\<close>

partial_function (option) export_loop ::
  "io_ops \<Rightarrow> bytes \<Rightarrow> (u64 \<times> bytes) list \<Rightarrow> u64 \<Rightarrow> u64 \<Rightarrow> ((u64 \<times> bytes) list \<times> io_error option) option" where
  "export_loop Io data sent offset range_end =
     (let end = min (offset + 1024) range_end;
          sz = end - offset
      in case io_read Io data offset sz of
           Inl err \<Rightarrow> Some (sent, Some err)
         | Inr d \<Rightarrow>
             if end \<ge> range_end then Some (sent @ [(offset, d)], None)
             else export_loop Io data (sent @ [(offset, d)]) end range_end)"

fun export_items ::
  "'r range_ops \<Rightarrow> 'r chunk_ops \<Rightarrow> io_ops \<Rightarrow> 'r bitfield \<Rightarrow> bytes \<Rightarrow> (u64 \<times> bytes) list \<Rightarrow> range_item list \<Rightarrow>
   ((u64 \<times> bytes) list \<times> io_error option) option" where
  "export_items R B Io bf data sent [] = Some (sent, None)"
| "export_items R B Io bf data sent (rng # rngs) =
     (let sz = bf_size bf;
          (start, end) = (case rng of Range a b \<Rightarrow> (min sz a, min sz b) | RangeFrom a \<Rightarrow> (min sz a, sz));
          requested = bytes_range R B (Included start) (Excluded end)
      in if \<not> rs_is_subset R requested (bf_ranges bf) then Some (sent, Some OtherIo)
         else case export_loop Io data sent start end of
                None \<Rightarrow> None
              | Some (sent', Some e) \<Rightarrow> Some (sent', Some e)
              | Some (sent', None) \<Rightarrow> export_items R B Io bf data sent' rngs)"

definition export_ranges_impl ::
  "'r range_ops \<Rightarrow> 'r chunk_ops \<Rightarrow> io_ops \<Rightarrow> 'r \<Rightarrow> 'r bao_file_storage \<Rightarrow>
   ((u64 \<times> bytes) list \<times> io_error option) option" where
  "export_ranges_impl R B Io ranges st =
     export_items R B Io (storage_bitfield R st) (storage_data st) [] (rs_iter R ranges)"

text \<open>\<open>limited_range\<close> and \<open>get_limited_slice\<close> of \<open>src/store/util.rs\<close>.\<close>

definition saturating_add_u64 :: "u64 \<Rightarrow> u64 \<Rightarrow> u64" where
  "saturating_add_u64 a b = (case checked_add_u64 a b of Some c \<Rightarrow> c | None \<Rightarrow> u64_max)"

definition limited_range :: "u64 \<Rightarrow> usize \<Rightarrow> usize \<Rightarrow> usize \<times> usize" where
  "limited_range offset len buf_len =
     (if offset < buf_len then
        let start = offset; end = min (saturating_add_u64 start len) buf_len in (start, end)
      else (0, 0))"

definition get_limited_slice :: "bytes \<Rightarrow> u64 \<Rightarrow> usize \<Rightarrow> bytes" where
  "get_limited_slice bs offset len =
     (let (start, end) = limited_range offset len (of_nat (length bs)) in
      take (unat end - unat start) (drop (unat start) bs))"

section \<open>Splicing\<close>

lemma length_write_vec [simp]: "length (write_vec data off buf) = max (off + length buf) (length data)"
  by (auto simp: write_vec_def)

lemma nth_write_vec:
  assumes "x < length (write_vec data off buf)"
  shows "write_vec data off buf ! x =
    (if off \<le> x \<and> x < off + length buf then buf ! (x - off)
     else if x < length data then data ! x else 0)"
proof -
  let ?a = "take off (data @ replicate off 0)"
  have len: "length ?a = off" by simp
  have eq: "write_vec data off buf = ?a @ buf @ drop (off + length buf) data" by (simp add: write_vec_def)
  consider "x < off" | "off \<le> x" "x < off + length buf" | "off + length buf \<le> x" by linarith
  then show ?thesis
  proof cases
    case 1
    then have "write_vec data off buf ! x = ?a ! x" unfolding eq using len by (metis nth_append)
    with 1 show ?thesis by (simp add: nth_append)
  next
    case 2
    then have "write_vec data off buf ! x = (buf @ drop (off + length buf) data) ! (x - off)"
      unfolding eq using len nth_append_right [of ?a x] by simp
    moreover have "x - off < length buf" using 2 by simp
    ultimately show ?thesis using 2 by (simp add: nth_append)
  next
    case 3
    then have "write_vec data off buf ! x = (buf @ drop (off + length buf) data) ! (x - off)"
      unfolding eq using len nth_append_right [of ?a x] by simp
    also have "\<dots> = drop (off + length buf) data ! (x - off - length buf)"
      using 3 by (intro nth_append_right) simp
    also have "\<dots> = data ! x" using 3 assms by simp
    finally have "write_vec data off buf ! x = data ! x" .
    moreover have "x < length data" using 3 assms by (simp split: if_splits add: max_def)
    ultimately show ?thesis using 3 by simp
  qed
qed

section \<open>Import\<close>

locale store_laws = chunk_laws R B + io_laws Io for R :: "'r range_ops" and B and Io

interpretation refs: store_laws ref_ops ref_chunk_ops ref_io
  by unfold_locales

text \<open>A leaf of a blob with content \<open>d\<close>, as the verified stream contains them.\<close>

definition leaf_of :: "bytes \<Rightarrow> u64 \<Rightarrow> bytes \<Rightarrow> bool" where
  "leaf_of d off data \<longleftrightarrow> unat off mod 1024 = 0 \<and> data \<noteq> [] \<and> unat off + length data \<le> length d \<and>
     data = take (length data) (drop (unat off) d) \<and>
     (unat off + length data = length d \<or> length data mod 1024 = 0)"

definition num_chunks :: "bytes \<Rightarrow> nat" where
  "num_chunks d = (length d + 1023) div 1024"

text \<open>
  The invariant of a partial entry for a blob with content \<open>d\<close>: what is marked as written in the
  sparse file is the content, and every chunk of the bitfield has been written.
\<close>

definition partial_inv ::
  "'r range_ops \<Rightarrow> 'r chunk_ops \<Rightarrow> bytes \<Rightarrow> 'r partial_mem_storage \<Rightarrow> bool" where
  "partial_inv R B d p \<longleftrightarrow>
     length (sf_data (ps_data p)) \<le> length d \<and>
     (\<forall>x. rs_contains R (sf_ranges (ps_data p)) x \<longrightarrow>
        unat x < length (sf_data (ps_data p)) \<and> sf_data (ps_data p) ! unat x = d ! unat x) \<and>
     (\<forall>x. unat x < length d \<and> rs_contains R (bf_ranges (ps_bitfield p)) (of_nat (unat x div 1024)) \<longrightarrow>
        rs_contains R (sf_ranges (ps_data p)) x) \<and>
     bf_canonical R B (ps_bitfield p) \<and>
     (ps_bitfield p = bf_empty R \<or> bf_size (ps_bitfield p) = of_nat (length d))"

text \<open>
  The outcome of an import: complete with the content and the outboard, or still partial, with
  some chunk missing and all chunks that were present or of which \<open>S\<close> covers a byte.
\<close>

abbreviation has_chunk :: "'r range_ops \<Rightarrow> 'r partial_mem_storage \<Rightarrow> nat \<Rightarrow> bool" where
  "has_chunk R p x \<equiv> rs_contains R (bf_ranges (ps_bitfield p)) (of_nat (x div 1024))"

definition in_leaf :: "u64 \<times> bytes \<Rightarrow> nat \<Rightarrow> bool" where
  "in_leaf l x \<longleftrightarrow> unat (fst l) \<le> x \<and> x < unat (fst l) + length (snd l)"

definition imported ::
  "'r range_ops \<Rightarrow> 'r chunk_ops \<Rightarrow> bytes \<Rightarrow> bytes \<Rightarrow> 'r partial_mem_storage \<Rightarrow> (nat \<Rightarrow> bool) \<Rightarrow>
   'r bao_file_storage \<Rightarrow> bool" where
  "imported R B d ob p S st \<longleftrightarrow> st = Complete d ob \<or>
     (\<exists>p'. st = Partial p' \<and> partial_inv R B d p' \<and> ps_outboard p' = ps_outboard p \<and>
       (\<exists>x<length d. \<not> has_chunk R p' x) \<and>
       (\<forall>x<length d. has_chunk R p x \<or> S x \<longrightarrow> has_chunk R p' x))"

lemma imported_trans:
  assumes "imported R B d ob p S (Partial p1)" "imported R B d ob p1 S' st"
  shows "imported R B d ob p (\<lambda>x. S x \<or> S' x) st"
  using assms by (auto simp: imported_def)

lemma leaf_bytes:
  assumes "leaf_of d off data" "unat off \<le> x" "x < unat off + length data"
  shows "data ! (x - unat off) = d ! x" and "x < length d"
proof -
  show "x < length d" using assms by (simp add: leaf_of_def)
  have "data = take (length data) (drop (unat off) d)" and le: "unat off + length data \<le> length d"
    using assms(1) unfolding leaf_of_def by blast+
  then have "data ! (x - unat off) = take (length data) (drop (unat off) d) ! (x - unat off)" by simp
  also have "\<dots> = d ! (unat off + (x - unat off))" using assms(2,3) le by simp
  finally show "data ! (x - unat off) = d ! x" using assms(2) by simp
qed

context store_laws
begin

lemma sparse_write_leaf:
  assumes "leaf_of d off data" "length d < 2 ^ 64"
  shows "\<exists>e. unat e = unat off + length data \<and>
    sparse_write_at R Io f off data =
      Inr \<lparr>sf_data = write_vec (sf_data f) (unat off) data,
           sf_ranges = rs_union R (sf_ranges f) (rs_range R off e)\<rparr>"
proof -
  have le: "unat off + length data < 2 ^ 64" using assms by (simp add: leaf_of_def)
  then have len: "unat (of_nat (length data) :: u64) = length data" by (intro unat_of_nat_u64) simp
  then have "checked_add_u64 off (of_nat (length data)) = Some (off + of_nat (length data))"
    using le by (simp add: checked_add_u64_def)
  moreover have "unat (off + of_nat (length data)) = unat off + length data"
    using le len by (simp add: unat_add_u64)
  ultimately show ?thesis
    by (intro exI [of _ "off + of_nat (length data)"]) (simp add: sparse_write_at_def io_write)
qed

lemma chunk_range_leaf:
  assumes "leaf_of d off data" "length d < 2 ^ 64" "x < length d"
  shows "rs_contains R (chunk_range R B off data) (of_nat (x div 1024)) \<longleftrightarrow>
    unat off \<le> x \<and> x < unat off + length data"
proof -
  have le: "unat off + length data < 2 ^ 64" using assms by (simp add: leaf_of_def)
  have "unat (off + of_nat (length data)) = unat off + length data"
    using le by (simp add: unat_add_u64 unat_of_nat_u64)
  then have e: "unat (chunks_of B (off + of_nat (length data))) = (unat off + length data + 1023) div 1024"
    by (simp add: unat_chunks_of)
  have x: "unat (of_nat (x div 1024) :: u64) = x div 1024"
    using assms(2,3) by (intro unat_of_nat_u64) simp
  have "unat off mod 1024 = 0" using assms(1) by (simp add: leaf_of_def)
  then obtain k where off: "unat off = k * 1024" by (metis dvdE mod_0_imp_dvd mult.commute)
  have "(unat off + 1023) div 1024 \<le> x div 1024 \<longleftrightarrow> unat off \<le> x"
    by (simp add: off less_eq_div_iff_mult_less_eq)
  moreover have "x div 1024 < (unat off + length data + 1023) div 1024 \<longleftrightarrow> x < unat off + length data"
  proof (cases "unat off + length data = length d")
    case True
    have "x div 1024 < (x + 1024) div 1024" by simp
    also have "\<dots> \<le> (length d + 1023) div 1024" using assms(3) by (intro div_le_mono) simp
    finally show ?thesis using True assms(3) by simp
  next
    case False
    then have "length data mod 1024 = 0" using assms(1) by (simp add: leaf_of_def)
    then obtain m where "length data = m * 1024" by (metis dvdE mod_0_imp_dvd mult.commute)
    then obtain n where "unat off + length data = n * 1024" using off by (metis add_mult_distrib)
    then show ?thesis by (simp add: div_less_iff_less_mult)
  qed
  ultimately show ?thesis
    by (simp add: chunk_range_def Let_def contains_range word_le_nat_alt word_less_nat_alt x e
        unat_chunks_of [of off])
qed


lemma unat_chunk: "x < length d \<Longrightarrow> length d < 2 ^ 64 \<Longrightarrow> unat (of_nat (x div 1024) :: u64) = x div 1024"
  by (intro unat_of_nat_u64) simp

text \<open>The size of the bitfield after an update with a leaf.\<close>

lemma choose_size_same:
  assumes "a = bf_empty R \<or> bf_size a = s" "bf_size b = s"
  shows "choose_size R a b = s"
  using assms choose_size_empty [of b] choose_size_commute [of R a b]
  by (auto simp: choose_size_def split: option.split)

lemma update_leaf:
  assumes "leaf_of d off data" "length d < 2 ^ 64" "bf_canonical R B a"
    and "a = bf_empty R \<or> bf_size a = of_nat (length d)"
  defines "b \<equiv> snd (bf_update R B a (bf_new R B (chunk_range R B off data) (of_nat (length d))))"
  shows "bf_size b = of_nat (length d)" and "bf_canonical R B b"
    and "x < length d \<Longrightarrow> rs_contains R (bf_ranges b) (of_nat (x div 1024)) \<longleftrightarrow>
      rs_contains R (bf_ranges a) (of_nat (x div 1024)) \<or> (unat off \<le> x \<and> x < unat off + length data)"
    and "is_complete R B b \<longleftrightarrow> (\<forall>x<length d. rs_contains R (bf_ranges b) (of_nat (x div 1024)))"
proof -
  let ?s = "of_nat (length d) :: u64" and ?u = "bf_new R B (chunk_range R B off data) (of_nat (length d))"
  have b: "b = combine R B a ?u" by (simp add: b_def bf_update_def Let_def)
  have size: "choose_size R a ?u = ?s" using assms(4) by (intro choose_size_same) simp_all
  then show "bf_size b = ?s" by (simp add: b combine_def)
  show "bf_canonical R B b" unfolding b by (rule bf.comb_valid)
  have s: "unat ?s = length d" using assms(2) by (rule unat_of_nat_u64)
  have "length d \<noteq> 0" using assms(1) by (auto simp: leaf_of_def)
  then have s0: "?s \<noteq> 0" using s by (metis unat_0)
  have chunk: "of_nat (x div 1024) < chunks_of B ?s" if "x < length d" for x
  proof -
    have "x div 1024 < (x + 1024) div 1024" by simp
    also have "\<dots> \<le> (length d + 1023) div 1024" using that by (intro div_le_mono) simp
    finally show ?thesis
      by (simp add: word_less_nat_alt unat_chunk [OF that assms(2)] unat_chunks_of s)
  qed
  show "rs_contains R (bf_ranges b) (of_nat (x div 1024)) \<longleftrightarrow>
      rs_contains R (bf_ranges a) (of_nat (x div 1024)) \<or> (unat off \<le> x \<and> x < unat off + length data)"
    if "x < length d"
    using that chunk [OF that] s0 size
    by (simp add: b contains_combine new_contains chunk_range_leaf [OF assms(1,2)])
  show "is_complete R B b \<longleftrightarrow> (\<forall>x<length d. rs_contains R (bf_ranges b) (of_nat (x div 1024)))"
  proof -
    have "is_complete R B b \<longleftrightarrow> (\<forall>c<chunks_of B ?s. rs_contains R (bf_ranges b) c)"
      using s0 \<open>bf_size b = ?s\<close> by (simp add: is_complete_def size_is_complete_def subset_to_iff)
    also have "\<dots> \<longleftrightarrow> (\<forall>x<length d. rs_contains R (bf_ranges b) (of_nat (x div 1024)))"
    proof (intro iffI allI impI)
      fix c assume all: "\<forall>x<length d. rs_contains R (bf_ranges b) (of_nat (x div 1024))" and "c < chunks_of B ?s"
      then have "unat c < (length d + 1023) div 1024" by (simp add: word_less_nat_alt unat_chunks_of s)
      then have "Suc (unat c) \<le> (length d + 1023) div 1024" by simp
      then have "Suc (unat c) * 1024 \<le> length d + 1023" by (simp only: less_eq_div_iff_mult_less_eq)
      then have "unat c * 1024 < length d" by simp
      with all have "rs_contains R (bf_ranges b) (of_nat (unat c * 1024 div 1024))" by blast
      then show "rs_contains R (bf_ranges b) c" by simp
    qed (use chunk in blast)
    finally show ?thesis .
  qed
qed

lemma partial_inv_write:
  assumes "partial_inv R B d p" "leaf_of d off data" "length d < 2 ^ 64"
    and "unat e = unat off + length data"
    and "f = \<lparr>sf_data = write_vec (sf_data (ps_data p)) (unat off) data,
           sf_ranges = rs_union R (sf_ranges (ps_data p)) (rs_range R off e)\<rparr>"
    and "b = snd (bf_update R B (ps_bitfield p) (bf_new R B (chunk_range R B off data) (of_nat (length d))))"
  shows "partial_inv R B d (p\<lparr>ps_data := f, ps_bitfield := b\<rparr>)"
proof -
  let ?old = "sf_data (ps_data p)"
  have inv: "length ?old \<le> length d" "bf_canonical R B (ps_bitfield p)"
    "ps_bitfield p = bf_empty R \<or> bf_size (ps_bitfield p) = of_nat (length d)"
    "\<And>x. rs_contains R (sf_ranges (ps_data p)) x \<Longrightarrow> unat x < length ?old \<and> ?old ! unat x = d ! unat x"
    "\<And>x. unat x < length d \<Longrightarrow> rs_contains R (bf_ranges (ps_bitfield p)) (of_nat (unat x div 1024)) \<Longrightarrow>
       rs_contains R (sf_ranges (ps_data p)) x"
    using assms(1) unfolding partial_inv_def by blast+
  note upd = update_leaf [OF assms(2,3) inv(2,3), folded assms(6)]
  have le: "unat off + length data \<le> length d" using assms(2) by (simp add: leaf_of_def)
  have cont: "rs_contains R (sf_ranges f) x \<longleftrightarrow>
      rs_contains R (sf_ranges (ps_data p)) x \<or> (unat off \<le> unat x \<and> unat x < unat off + length data)" for x
    by (simp add: assms(4,5) contains_simps word_le_nat_alt word_less_nat_alt)
  have len: "length (sf_data f) = max (unat off + length data) (length ?old)" by (simp add: assms(5))
  have "unat x < length (sf_data f) \<and> sf_data f ! unat x = d ! unat x" if "rs_contains R (sf_ranges f) x" for x
  proof (cases "unat off \<le> unat x \<and> unat x < unat off + length data")
    case True
    then have lt: "unat x < length (write_vec ?old (unat off) data)"
      by (simp add: less_max_iff_disj)
    from True leaf_bytes [OF assms(2), of "unat x"] nth_write_vec [OF lt] lt show ?thesis
      by (simp add: assms(5))
  next
    case False
    then have old: "unat x < length ?old" "?old ! unat x = d ! unat x" using that cont inv(4) by blast+
    then have lt: "unat x < length (write_vec ?old (unat off) data)"
      by (simp add: less_max_iff_disj)
    from False old nth_write_vec [OF lt] lt show ?thesis by (auto simp: assms(5))
  qed
  moreover have "rs_contains R (sf_ranges f) x"
    if "unat x < length d" "rs_contains R (bf_ranges b) (of_nat (unat x div 1024))" for x
    using that upd(3) [of "unat x"] inv(5) cont by blast
  moreover have "length (sf_data f) \<le> length d" using len le inv(1) by simp
  ultimately show ?thesis using upd(1,2) unfolding partial_inv_def by simp
qed

lemma complete_file:
  assumes "partial_inv R B d p" "length d < 2 ^ 64" "d \<noteq> []"
    and "\<forall>x<length d. rs_contains R (bf_ranges (ps_bitfield p)) (of_nat (x div 1024))"
  shows "sparse_try_into R (ps_data p) = Inr d"
proof -
  let ?f = "ps_data p"
  have inv: "length (sf_data ?f) \<le> length d"
    "\<And>x. rs_contains R (sf_ranges ?f) x \<Longrightarrow> unat x < length (sf_data ?f) \<and> sf_data ?f ! unat x = d ! unat x"
    "\<And>x. unat x < length d \<Longrightarrow> rs_contains R (bf_ranges (ps_bitfield p)) (of_nat (unat x div 1024)) \<Longrightarrow>
       rs_contains R (sf_ranges ?f) x"
    using assms(1) unfolding partial_inv_def by blast+
  have all: "x < length (sf_data ?f) \<and> sf_data ?f ! x = d ! x \<and> rs_contains R (sf_ranges ?f) (of_nat x)"
    if "x < length d" for x
  proof -
    have "unat (of_nat x :: u64) = x" using that assms(2) by (intro unat_of_nat_u64) simp
    with that assms(4) inv(2,3) [of "of_nat x"] show ?thesis by simp
  qed
  have len: "length (sf_data ?f) = length d"
    using all [of "length d - 1"] inv(1) assms(3) by (cases d) auto
  then have data: "sf_data ?f = d" using all by (intro nth_equalityI) simp_all
  have "sf_ranges ?f = rs_range R 0 (of_nat (length d))"
  proof (rule rs_ext)
    fix x
    have "unat x < length d \<longleftrightarrow> rs_contains R (sf_ranges ?f) x"
      using all [of "unat x"] inv(2) [of x] len by auto
    then show "rs_contains R (sf_ranges ?f) x = rs_contains R (rs_range R 0 (of_nat (length d))) x"
      using assms(2) by (simp add: contains_range word_less_nat_alt unat_of_nat_u64)
  qed
  with data show ?thesis by (simp add: sparse_try_into_def into_parts_def)
qed

lemma import_leaf_exact:
  assumes "partial_inv R B d p" "leaf_of d off data" "length d < 2 ^ 64"
    and "sparse_try_into R (ps_outboard p) = Inr ob"
  shows "\<exists>st ch. import_bao_item R B Io (of_nat (length d)) (Leaf off data) (Partial p) = Some (st, ch) \<and>
    (if \<forall>x<length d. has_chunk R p x \<or> in_leaf (off, data) x then st = Complete d ob
     else \<exists>p'. st = Partial p' \<and> partial_inv R B d p' \<and> ps_outboard p' = ps_outboard p \<and>
       (\<forall>x<length d. has_chunk R p' x \<longleftrightarrow> has_chunk R p x \<or> in_leaf (off, data) x))"
proof -
  obtain e f where e: "unat e = unat off + length data"
    and f: "f = \<lparr>sf_data = write_vec (sf_data (ps_data p)) (unat off) data,
           sf_ranges = rs_union R (sf_ranges (ps_data p)) (rs_range R off e)\<rparr>"
    and w: "sparse_write_at R Io (ps_data p) off data = Inr f"
    using sparse_write_leaf [OF assms(2,3), of "ps_data p"] by blast
  let ?up = "bf_update R B (ps_bitfield p) (bf_new R B (chunk_range R B off data) (of_nat (length d)))"
  define b where "b = snd ?up"
  define p' where "p' = p\<lparr>ps_data := f, ps_bitfield := b\<rparr>"
  have inv': "partial_inv R B d p'"
    unfolding p'_def using partial_inv_write [OF assms(1-3) e f b_def] .
  have can: "bf_canonical R B (ps_bitfield p)"
    "ps_bitfield p = bf_empty R \<or> bf_size (ps_bitfield p) = of_nat (length d)"
    using assms(1) by (auto simp: partial_inv_def)
  note upd = update_leaf [OF assms(2,3) can, folded b_def]
  have d: "d \<noteq> []" using assms(2) by (auto simp: leaf_of_def)
  have state: "bs_complete (new_state (fst ?up)) = is_complete R B b"
    by (simp add: bf_update_def Let_def b_def bf_state_def)
  have c: "is_complete R B b \<longleftrightarrow> (\<forall>x<length d. has_chunk R p x \<or> in_leaf (off, data) x)"
    using upd(3,4) by (simp add: in_leaf_def)
  show ?thesis
  proof (cases "is_complete R B b")
    case True
    then have "sparse_try_into R f = Inr d"
      using complete_file [OF inv' assms(3) d] upd(4) by (simp add: p'_def)
    with True state assms(4) show ?thesis
      by (simp add: import_bao_item_def w Let_def split_def b_def [symmetric] c [symmetric])
  next
    case False
    then have "import_bao_item R B Io (of_nat (length d)) (Leaf off data) (Partial p) =
        Some (Partial p', changed (fst ?up))"
      using state by (simp add: import_bao_item_def w Let_def split_def b_def [symmetric] p'_def)
    moreover have "has_chunk R p' x \<longleftrightarrow> has_chunk R p x \<or> in_leaf (off, data) x" if "x < length d" for x
      using upd(3) [OF that] by (simp add: p'_def in_leaf_def)
    ultimately show ?thesis using inv' False unfolding c [symmetric] by (simp add: p'_def)
  qed
qed

lemma import_leaf:
  assumes "partial_inv R B d p" "leaf_of d off data" "length d < 2 ^ 64"
    and "sparse_try_into R (ps_outboard p) = Inr ob"
  shows "\<exists>st ch. import_bao_item R B Io (of_nat (length d)) (Leaf off data) (Partial p) = Some (st, ch) \<and>
    imported R B d ob p (in_leaf (off, data)) st"
  using import_leaf_exact [OF assms] unfolding imported_def by (fastforce split: if_splits)

lemma import_complete: "import_bao_items R B Io sz items (Complete d ob) = Some (Complete d ob)"
  by (induction items) (simp_all add: import_bao_item_def)

text \<open>A sequence of leaves, in any order and with repetitions.\<close>

lemma import_leaves:
  assumes "partial_inv R B d p" "length d < 2 ^ 64" "sparse_try_into R (ps_outboard p) = Inr ob"
    and "\<forall>(off, data)\<in>set leaves. leaf_of d off data"
    and "\<exists>x<length d. \<not> has_chunk R p x"
  shows "\<exists>st. import_bao_items R B Io (of_nat (length d)) (map (\<lambda>(off, data). Leaf off data) leaves) (Partial p) = Some st \<and>
    imported R B d ob p (\<lambda>x. \<exists>l\<in>set leaves. in_leaf l x) st"
  using assms(1,3,4,5)
proof (induction leaves arbitrary: p)
  case Nil
  then show ?case by (simp add: imported_def)
next
  case (Cons leaf leaves)
  obtain off data where leaf: "leaf = (off, data)" by (cases leaf)
  then have lo: "leaf_of d off data" using Cons.prems by auto
  from import_leaf [OF Cons.prems(1) lo assms(2) Cons.prems(2)] obtain st ch where
    st: "import_bao_item R B Io (of_nat (length d)) (Leaf off data) (Partial p) = Some (st, ch)"
      "imported R B d ob p (in_leaf leaf) st" using leaf by blast
  show ?case
  proof (cases st)
    case (Complete d' ob')
    with st show ?thesis by (simp add: leaf import_complete imported_def)
  next
    case (Partial p1)
    with st(2) have p1: "partial_inv R B d p1" "ps_outboard p1 = ps_outboard p" "\<exists>x<length d. \<not> has_chunk R p1 x"
      by (auto simp: imported_def)
    have "\<forall>(off, data)\<in>set leaves. leaf_of d off data" using Cons.prems by auto
    from Cons.IH [OF p1(1) _ this p1(3)] p1(2) Cons.prems(2) obtain st' where
      "import_bao_items R B Io (of_nat (length d)) (map (\<lambda>(off, data). Leaf off data) leaves) (Partial p1) = Some st'"
      "imported R B d ob p1 (\<lambda>x. \<exists>l\<in>set leaves. in_leaf l x) st'" by auto
    with st Partial imported_trans [of R B d ob p "in_leaf leaf" p1 _ st'] show ?thesis
      by (simp add: leaf)
  qed
qed

end

section \<open>Export\<close>

lemma nths_filter: "nths xs A = map ((!) xs) (filter (\<lambda>i. i \<in> A) [0..<length xs])"
  by (induction xs rule: rev_induct) (simp_all add: nths_append nth_append cong: filter_cong)

lemma filter_less_append:
  assumes "\<And>a b. a \<in> A \<Longrightarrow> b \<in> B \<Longrightarrow> a < (b :: nat)"
  shows "filter (\<lambda>i. i \<in> A \<union> B) [0..<n] = filter (\<lambda>i. i \<in> A) [0..<n] @ filter (\<lambda>i. i \<in> B) [0..<n]"
proof (induction n)
  case (Suc n)
  show ?case
  proof (cases "n \<in> A")
    case True
    then have "b \<in> B \<Longrightarrow> n < b" for b using assms by blast
    then have "filter (\<lambda>i. i \<in> B) [0..<n] = []" "n \<notin> B" by (fastforce simp: filter_empty_conv)+
    with True Suc show ?thesis by simp
  next
    case False
    with Suc show ?thesis by simp
  qed
qed simp

lemma nths_less_append:
  "(\<And>a b. a \<in> A \<Longrightarrow> b \<in> B \<Longrightarrow> a < (b :: nat)) \<Longrightarrow> nths xs (A \<union> B) = nths xs A @ nths xs B"
  unfolding nths_filter by (subst filter_less_append) simp_all

lemma nths_interval: "nths xs {x. a \<le> x \<and> x < b} = take (b - a) (drop a xs)"
proof (cases "a \<le> b")
  case True
  have "take (b - a) (drop a xs) = drop a (take b xs)" using True by (simp add: take_drop)
  moreover have "nths xs {x. a \<le> x \<and> x < b} = drop a (take b xs)"
  proof (induction xs rule: rev_induct)
    case (snoc x xs)
    then show ?case by (auto simp: nths_append nths_singleton)
  qed simp
  ultimately show ?thesis by simp
next
  case False
  then have "{x. a \<le> x \<and> x < b} = {}" by auto
  then have "nths xs {x. a \<le> x \<and> x < b} = nths xs {}" by (rule arg_cong)
  with False show ?thesis by simp
qed

text \<open>The bytes of one item of a range set, clipped to the size of the data.\<close>

definition item_slice :: "bytes \<Rightarrow> range_item \<Rightarrow> bytes" where
  "item_slice data it = nths data {x. item_has it (of_nat x)}"

lemma items_slices:
  assumes "length data < 2 ^ 64"
  shows "sorted_wrt (<) bs \<Longrightarrow>
    concat (map (item_slice data) (items_of bs)) = nths data {x. x < length data \<and> on_at False bs (of_nat x)}"
proof (induction bs rule: items_of.induct)
  case (2 a)
  have "nths data {x. item_has (RangeFrom a) (of_nat x)} = nths data {x. x < length data \<and> on_at False [a] (of_nat x)}"
    unfolding nths_filter by (intro arg_cong [where f = "map _"] filter_cong) auto
  then show ?case by (simp add: item_slice_def)
next
  case (3 a b bs)
  have u: "x < length data \<Longrightarrow> unat (of_nat x :: u64) = x" for x
    using assms by (intro unat_of_nat_u64) simp
  have ab: "a < b" "\<forall>v\<in>set bs. b < v" "sorted_wrt (<) bs" using "3.prems" by auto
  let ?A = "{x. x < length data \<and> a \<le> of_nat x \<and> of_nat x < b}"
    and ?B = "{x. x < length data \<and> on_at False bs (of_nat x)}"
  have ge: "b \<le> x" if "on_at False bs x" for x
  proof (rule ccontr)
    assume "\<not> b \<le> x"
    then have "\<forall>v\<in>set bs. x < v" using ab(2) by (auto simp: not_le dest: less_trans)
    with that show False by (simp add: on_at_below)
  qed
  have eq: "{x. x < length data \<and> on_at False (a # b # bs) (of_nat x)} = ?A \<union> ?B"
    using ab(1) ge by (force simp: not_less)
  have less: "x < y" if "x \<in> ?A" "y \<in> ?B" for x y
  proof -
    have "of_nat x < (of_nat y :: u64)" using that ge [of "of_nat y"] by auto
    then show ?thesis using that u by (simp add: word_less_nat_alt)
  qed
  have "nths data {x. x < length data \<and> on_at False (a # b # bs) (of_nat x)} = nths data ?A @ nths data ?B"
    unfolding eq using less by (rule nths_less_append)
  moreover have "nths data ?A = item_slice data (Range a b)"
    unfolding item_slice_def nths_filter by (intro arg_cong [where f = "map _"] filter_cong) auto
  ultimately show ?case using 3 ab(3) by simp
qed (simp add: nths_filter)


lemma item_slice_none: "(\<And>x. x < length data \<Longrightarrow> \<not> item_has it (of_nat x)) \<Longrightarrow> item_slice data it = []"
  by (simp add: item_slice_def nths_filter)

lemma nths_below: "nths (take k d) {x. x < length (take k d) \<and> P x} = nths d {x. x < length d \<and> x < k \<and> P x}"
proof -
  have "nths (take k d) {x. x < length (take k d) \<and> P x} = nths (take k d @ drop k d) {x. x < length d \<and> x < k \<and> P x}"
    unfolding nths_append by (auto simp: nths_filter conj_commute conj_left_commute)
  then show ?thesis by simp
qed

abbreviation item_clip :: "u64 \<Rightarrow> range_item \<Rightarrow> u64 \<times> u64" where
  "item_clip sz it \<equiv> (case it of Range a b \<Rightarrow> (min sz a, min sz b) | RangeFrom a \<Rightarrow> (min sz a, sz))"

lemma unat_min_u64: "unat (min a b :: u64) = min (unat a) (unat b)"
  by (simp add: min_def word_le_nat_alt)

lemma item_slice_clip:
  assumes "length data < 2 ^ 64" "item_clip (of_nat (length data)) it = (s, e)"
  shows "item_slice data it = take (unat e - unat s) (drop (unat s) data)" and "unat e \<le> length data"
proof -
  have u: "x < length data \<Longrightarrow> unat (of_nat x :: u64) = x" for x
    using assms(1) by (intro unat_of_nat_u64) simp
  have sz: "unat (of_nat (length data) :: u64) = length data" using assms(1) by (rule unat_of_nat_u64)
  have "item_has it (of_nat x) \<longleftrightarrow> unat s \<le> x \<and> x < unat e" if "x < length data" for x
    using assms(2) that
    by (cases it) (auto simp: unat_min_u64 sz word_le_nat_alt word_less_nat_alt u)
  then show "item_slice data it = take (unat e - unat s) (drop (unat s) data)"
    unfolding item_slice_def nths_filter nths_interval [symmetric]
    by (intro arg_cong [where f = "map _"] filter_cong) auto
  show "unat e \<le> length data" using assms(2) by (cases it) (auto simp: unat_min_u64 sz)
qed

context store_laws
begin

lemma export_loop_slice:
  assumes "off \<le> e" "unat e \<le> length data" "unat e + 1024 < 2 ^ 64"
  shows "\<exists>ls. export_loop Io data sent off e = Some (sent @ ls, None) \<and>
    concat (map snd ls) = take (unat e - unat off) (drop (unat off) data) \<and>
    (\<forall>l\<in>set ls. length (snd l) \<le> 1024)"
  using assms(1)
proof (induction "unat e - unat off" arbitrary: off sent rule: less_induct)
  case less
  have le: "unat off \<le> unat e" using less.prems by (simp add: word_le_nat_alt)
  have o1: "unat (off + 1024) = unat off + 1024" using le assms(3) by (simp add: unat_add_u64)
  show ?case
  proof (cases "off + 1024 < e")
    case False
    then have m: "min (off + 1024) e = e" by (simp add: min_def)
    have n: "unat (e - off) = unat e - unat off" using less.prems by (rule unat_sub_u64)
    have "unat e \<le> unat off + 1024" using False o1 by (simp add: word_less_nat_alt)
    moreover have "io_read Io data off (e - off) = Inr (take (unat e - unat off) (drop (unat off) data))"
      using io_read [of off "e - off" data] n le assms(2) by simp
    ultimately show ?thesis
      by (subst export_loop.simps)
        (auto simp: m Let_def intro!: exI [of _ "[(off, take (unat e - unat off) (drop (unat off) data))]"])
  next
    case True
    then have lt: "unat off + 1024 < unat e" using o1 by (simp add: word_less_nat_alt)
    have m: "min (off + 1024) e = off + 1024" using True by (simp add: min_def less_imp_le)
    have n: "off + 1024 - off = (1024 :: u64)" by simp
    have nle: "\<not> e \<le> off + 1024" using True by (simp add: not_le)
    have dec: "unat e - unat (off + 1024) < unat e - unat off" using lt o1 by simp
    let ?d = "take 1024 (drop (unat off) data)"
    have read: "io_read Io data off 1024 = Inr ?d" using io_read [of off 1024 data] lt assms(2) by simp
    have "export_loop Io data sent off e = export_loop Io data (sent @ [(off, ?d)]) (off + 1024) e"
      using nle by (subst export_loop.simps) (simp add: m n read Let_def)
    moreover obtain ls where ls:
      "export_loop Io data (sent @ [(off, ?d)]) (off + 1024) e = Some ((sent @ [(off, ?d)]) @ ls, None)"
      "concat (map snd ls) = take (unat e - unat (off + 1024)) (drop (unat (off + 1024)) data)"
      "\<forall>l\<in>set ls. length (snd l) \<le> 1024"
      using less.hyps [OF dec less_imp_le [OF True], of "sent @ [(off, ?d)]"] by blast
    moreover have "?d @ take (unat e - (unat off + 1024)) (drop (unat off + 1024) data) =
        take (unat e - unat off) (drop (unat off) data)"
    proof -
      have "unat e - unat off = 1024 + (unat e - (unat off + 1024))" using lt by simp
      then show ?thesis by (simp only: take_add drop_drop add.commute)
    qed
    ultimately show ?thesis
      by (intro exI [of _ "(off, ?d) # ls"]) (simp add: o1)
  qed
qed

lemma export_items_complete:
  assumes "length data + 1024 < 2 ^ 64"
    and "\<forall>it\<in>set its. case it of Range a b \<Rightarrow> a < b | RangeFrom a \<Rightarrow> True"
  shows "\<exists>ls. export_items R B Io (bf_complete R (of_nat (length data))) data sent its = Some (sent @ ls, None) \<and>
    concat (map snd ls) = concat (map (item_slice data) its) \<and> (\<forall>l\<in>set ls. length (snd l) \<le> 1024)"
  using assms(2)
proof (induction its arbitrary: sent)
  case (Cons it its)
  let ?sz = "of_nat (length data) :: u64"
  have len: "length data < 2 ^ 64" using assms(1) by simp
  obtain s e where se: "item_clip ?sz it = (s, e)" by (metis surj_pair)
  note slice = item_slice_clip [OF len se]
  have "s \<le> e" using se Cons.prems by (cases it) (auto simp: min_def)
  moreover have "unat e + 1024 < 2 ^ 64" using slice(2) assms(1) by simp
  ultimately obtain l1 where l1: "export_loop Io data sent s e = Some (sent @ l1, None)"
    "concat (map snd l1) = item_slice data it" "\<forall>l\<in>set l1. length (snd l) \<le> 1024"
    using export_loop_slice [of s e data sent] slice by auto
  obtain l2 where l2: "export_items R B Io (bf_complete R ?sz) data (sent @ l1) its = Some ((sent @ l1) @ l2, None)"
    "concat (map snd l2) = concat (map (item_slice data) its)" "\<forall>l\<in>set l2. length (snd l) \<le> 1024"
    using Cons.IH [of "sent @ l1"] Cons.prems by auto
  have "rs_is_subset R r (bf_ranges (bf_complete R ?sz))" for r
    by (simp add: bf_complete_def is_subset_iff contains_all)
  moreover have "bf_size (bf_complete R ?sz) = ?sz" by (simp add: bf_complete_def)
  ultimately show ?case
    using se l1 l2 by (intro exI [of _ "l1 @ l2"]) (simp add: Let_def ball_Un)
qed simp

lemma export_complete:
  assumes "length data + 1024 < 2 ^ 64"
  shows "\<exists>ls. export_ranges_impl R B Io ranges (Complete data ob) = Some (ls, None) \<and>
    concat (map snd ls) = nths data {x. x < length data \<and> rs_contains R ranges (of_nat x)} \<and>
    (\<forall>l\<in>set ls. length (snd l) \<le> 1024)"
proof -
  have "\<forall>it\<in>set (rs_iter R ranges). case it of Range a b \<Rightarrow> a < b | RangeFrom a \<Rightarrow> True"
    using items_of_ordered [OF sorted_boundaries] by (simp add: iter_items)
  from export_items_complete [OF assms this, of "[]"] items_slices [OF _ sorted_boundaries, of data ranges] assms
  show ?thesis
    by (simp add: export_ranges_impl_def iter_items contains_boundaries)
qed

lemma requested_bytes:
  assumes "rs_is_subset R (bytes_range R B (Included s) (Excluded e)) r" "unat s \<le> x" "x < unat e"
  shows "rs_contains R r (of_nat (x div 1024))"
proof -
  have x: "x < 2 ^ 64" using assms(3) unat_u64_lt [of e] by simp
  have u: "unat (of_nat x :: u64) = x" using x by (rule unat_of_nat_u64)
  have "x div 1024 < 2 ^ 54" using x by (simp add: div_less_iff_less_mult)
  then have c: "unat (of_nat (x div 1024) :: u64) = x div 1024" "unat (of_nat (x div 1024) :: u64) < 2 ^ 54"
    by (simp_all add: unat_of_nat_u64)
  have "rs_contains R (bounds_from_range R (Included s) (Excluded e)) (of_nat x)"
    using assms(2,3) u by (simp add: contains_bounds_from_range word_le_nat_alt word_less_nat_alt)
  then have "rs_contains R (bytes_range R B (Included s) (Excluded e)) (of_nat (x div 1024))"
    unfolding bytes_range_def contains_round_up [OF c(2)] using u c(1) by auto
  then show ?thesis using assms(1) by (simp add: is_subset_iff)
qed

lemma partial_slice:
  assumes "partial_inv R B d p" "unat e \<le> length d" "rs_is_subset R (bytes_range R B (Included s) (Excluded e)) (bf_ranges (ps_bitfield p))" "s < e"
  shows "unat e \<le> length (sf_data (ps_data p))"
    and "take (unat e - unat s) (drop (unat s) (sf_data (ps_data p))) = take (unat e - unat s) (drop (unat s) d)"
proof -
  have lt: "unat s < unat e" using assms(4) by (simp add: word_less_nat_alt)
  have at: "x < length (sf_data (ps_data p)) \<and> sf_data (ps_data p) ! x = d ! x" if "unat s \<le> x" "x < unat e" for x
  proof -
    have "x < 2 ^ 64" using that unat_u64_lt [of e] by simp
    then have u: "unat (of_nat x :: u64) = x" by (rule unat_of_nat_u64)
    have "rs_contains R (sf_ranges (ps_data p)) (of_nat x)"
      using requested_bytes [OF assms(3) that] assms(1,2) that u by (simp add: partial_inv_def)
    then show ?thesis using assms(1) u unfolding partial_inv_def by metis
  qed
  have "unat s \<le> unat e - 1" "unat e - 1 < unat e" using lt by simp_all
  from at [OF this] show le: "unat e \<le> length (sf_data (ps_data p))" by linarith
  show "take (unat e - unat s) (drop (unat s) (sf_data (ps_data p))) = take (unat e - unat s) (drop (unat s) d)"
    by (rule nth_equalityI) (use le assms(2) at in auto)
qed

lemma export_loop_nothing:
  assumes "unat off + 1024 < 2 ^ 64"
  shows "export_loop Io data sent off off = Some (case io_read Io data off 0 of Inl err \<Rightarrow> (sent, Some err) | Inr _ \<Rightarrow> (sent @ [(off, [])], None))"
proof -
  have m: "min (off + 1024) off = off" using assms by (simp add: min_def word_le_nat_alt unat_add_u64)
  show ?thesis using io_read_length [of data off 0]
    by (subst export_loop.simps) (simp add: m Let_def split: sum.split)
qed

lemma export_loop_partial:
  assumes inv: "partial_inv R B d p" and len: "length d + 1024 < 2 ^ 64" and se: "item_clip (bf_size (ps_bitfield p)) it = (s, e)"
    and it: "case it of Range a b \<Rightarrow> a < b | RangeFrom a \<Rightarrow> True"
    and sub: "rs_is_subset R (bytes_range R B (Included s) (Excluded e)) (bf_ranges (ps_bitfield p))"
  shows "\<exists>ls r. export_loop Io (sf_data (ps_data p)) sent s e = Some (sent @ ls, r) \<and> (\<forall>l\<in>set ls. length (snd l) \<le> 1024) \<and>
    (r = None \<longrightarrow> concat (map snd ls) = item_slice (take (unat (bf_size (ps_bitfield p))) d) it)"
proof -
  have d: "length d < 2 ^ 64" using len by simp
  have size: "bf_size (ps_bitfield p) = 0 \<or> bf_size (ps_bitfield p) = of_nat (length d)"
    using inv by (auto simp: partial_inv_def bf_empty_def)
  show ?thesis
  proof (cases "s < e")
    case True
    have "e \<le> bf_size (ps_bitfield p)" using se by (cases it; auto simp: min_def)
    then have sz: "bf_size (ps_bitfield p) = of_nat (length d)" using size True by (auto simp: word_less_nat_alt)
    have n: "unat (bf_size (ps_bitfield p)) = length d" by (simp add: sz unat_of_nat_u64 [OF d])
    note sl = item_slice_clip [OF d se [unfolded sz]]
    note ps = partial_slice [OF inv sl(2) sub True]
    have "unat e + 1024 < 2 ^ 64" using sl(2) len by simp
    from export_loop_slice [OF less_imp_le [OF True] ps(1) this, of sent] show ?thesis using sl(1) ps(2) n by auto
  next
    case False
    have e: "e = s" "s \<le> bf_size (ps_bitfield p)" and none: "\<And>x. x < bf_size (ps_bitfield p) \<Longrightarrow> \<not> item_has it x"
      using False it se by (cases it; auto simp: min_def split: if_splits)+
    have "item_slice (take (unat (bf_size (ps_bitfield p))) d) it = []"
      using d by (intro item_slice_none none) (simp add: word_less_nat_alt unat_of_nat_u64)
    moreover have "unat s \<le> length d"
    proof -
      have "unat (bf_size (ps_bitfield p)) \<le> length d" using size unat_of_nat_u64 [OF d] by auto
      then show ?thesis using e(2) by (simp add: word_le_nat_alt)
    qed
    then have "unat s + 1024 < 2 ^ 64" using len by simp
    ultimately show ?thesis using export_loop_nothing [of s "sf_data (ps_data p)" sent] e(1) by (auto split: sum.splits)
  qed
qed

text \<open>
  An export from partial storage: without an error it has sent exactly the requested bytes below the
  size it knows. That size is 0 as long as nothing has arrived, and then it sends nothing.
\<close>

lemma export_items_partial:
  assumes inv: "partial_inv R B d p" and len: "length d + 1024 < 2 ^ 64"
    and "\<forall>it\<in>set its. case it of Range a b \<Rightarrow> a < b | RangeFrom a \<Rightarrow> True"
  shows "\<exists>ls e. export_items R B Io (ps_bitfield p) (sf_data (ps_data p)) sent its = Some (sent @ ls, e) \<and>
    (\<forall>l\<in>set ls. length (snd l) \<le> 1024) \<and>
    (e = None \<longrightarrow> concat (map snd ls) = concat (map (item_slice (take (unat (bf_size (ps_bitfield p))) d)) its))"
  using assms(3)
proof (induction its arbitrary: sent)
  case (Cons it its)
  let ?bf = "ps_bitfield p" and ?data = "sf_data (ps_data p)"
  let ?slice = "item_slice (take (unat (bf_size ?bf)) d)"
  obtain s e where se: "item_clip (bf_size ?bf) it = (s, e)" by (metis surj_pair)
  show ?case
  proof (cases "rs_is_subset R (bytes_range R B (Included s) (Excluded e)) (bf_ranges ?bf)")
    case False
    then show ?thesis using se by (intro exI [of _ "[]"] exI [of _ "Some OtherIo"]) (simp add: Let_def)
  next
    case True
    have "case it of Range a b \<Rightarrow> a < b | RangeFrom a \<Rightarrow> True" using Cons.prems by simp
    from export_loop_partial [OF inv len se this True, of sent] obtain l1 r1 where
      l1: "export_loop Io ?data sent s e = Some (sent @ l1, r1)" "\<forall>l\<in>set l1. length (snd l) \<le> 1024"
        "r1 = None \<longrightarrow> concat (map snd l1) = ?slice it" by blast
    obtain l2 r2 where l2: "export_items R B Io ?bf ?data (sent @ l1) its = Some ((sent @ l1) @ l2, r2)" "\<forall>l\<in>set l2. length (snd l) \<le> 1024"
        "r2 = None \<longrightarrow> concat (map snd l2) = concat (map ?slice its)"
      using Cons.IH [of "sent @ l1"] Cons.prems by auto
    show ?thesis
    proof (cases r1)
      case None
      then show ?thesis using se True l1 l2 by (intro exI [of _ "l1 @ l2"] exI [of _ r2]) (auto simp: Let_def)
    next
      case (Some err)
      then show ?thesis using se True l1 by (intro exI [of _ l1] exI [of _ "Some err"]) (auto simp: Let_def)
    qed
  qed
qed simp

lemma export_partial:
  assumes "partial_inv R B d p" "length d + 1024 < 2 ^ 64"
  shows "\<exists>ls e. export_ranges_impl R B Io ranges (Partial p) = Some (ls, e) \<and> (\<forall>l\<in>set ls. length (snd l) \<le> 1024) \<and>
    (e = None \<longrightarrow> concat (map snd ls) = nths d {x. x < length d \<and> x < unat (bf_size (ps_bitfield p)) \<and> rs_contains R ranges (of_nat x)})"
proof -
  have "\<forall>it\<in>set (rs_iter R ranges). case it of Range a b \<Rightarrow> a < b | RangeFrom a \<Rightarrow> True"
    using items_of_ordered [OF sorted_boundaries] by (simp add: iter_items)
  moreover have "length (take (unat (bf_size (ps_bitfield p))) d) < 2 ^ 64" using assms(2) by simp
  note items_slices [OF this sorted_boundaries, of ranges, unfolded nths_below]
  ultimately show ?thesis using export_items_partial [OF assms, of "rs_iter R ranges" "[]"]
    by (auto simp: export_ranges_impl_def iter_items contains_boundaries)
qed

lemma import_bao_leaves:
  assumes "partial_inv R B d p" "length d < 2 ^ 64" "sparse_try_into R (ps_outboard p) = Inr ob"
    and "\<forall>(off, data)\<in>set leaves. leaf_of d off data" "\<exists>x<length d. \<not> has_chunk R p x"
  shows "\<exists>st. import_bao R B Io (of_nat (length d)) (map (\<lambda>(off, data). Leaf off data) leaves) (Partial p) = Some st \<and>
    imported R B d ob p (\<lambda>x. \<exists>l\<in>set leaves. in_leaf l x) st"
proof -
  let ?p = "p\<lparr>ps_size := size_info_write (ps_size p) 0 (of_nat (length d))\<rparr>"
  have "partial_inv R B d ?p" using assms(1) by (simp add: partial_inv_def)
  with import_leaves [of d ?p ob leaves] assms show ?thesis
    by (simp add: import_bao_def import_bao_start_def imported_def)
qed

end

section \<open>Properties\<close>

text \<open>
  C9. Importing verified leaves reconstructs the blob: starting from a partial entry of a blob with
  content \<open>d\<close> whose outboard is there, any sequence of leaves of \<open>d\<close>, in any order and with
  repetitions, is imported without a panic; the entry becomes complete exactly when every byte
  was present before or is covered by a leaf, and then its data is \<open>d\<close>.
\<close>

theorem import_bao_completes:
  assumes "store_laws R B Io" "partial_inv R B d p" "length d < 2 ^ 64"
    and "sparse_try_into R (ps_outboard p) = Inr ob" "\<exists>x<length d. \<not> has_chunk R p x"
    and "\<forall>(off, data)\<in>set leaves. leaf_of d off data"
  shows "\<exists>st. import_bao R B Io (of_nat (length d)) (map (\<lambda>(off, data). Leaf off data) leaves) (Partial p) = Some st \<and>
    (st = Complete d ob \<or> (\<exists>p'. st = Partial p' \<and> partial_inv R B d p' \<and> (\<exists>x<length d. \<not> has_chunk R p' x))) \<and>
    ((\<forall>x<length d. has_chunk R p x \<or> (\<exists>l\<in>set leaves. in_leaf l x)) \<longrightarrow> st = Complete d ob)"
  using store_laws.import_bao_leaves [OF assms(1-4) assms(6,5)] unfolding imported_def by blast

theorem import_bao_completes_witness:
  "import_bao ref_ops ref_chunk_ops ref_io 3 [Leaf 0 [1, 2, 3]] (new_partial ref_ops) = Some (Complete [1, 2, 3] [])"
proof -
  let ?p = "\<lparr>ps_data = sparse_new ref_ops, ps_outboard = sparse_new ref_ops,
    ps_size = size_info_default, ps_bitfield = bf_empty ref_ops\<rparr>"
  have "partial_inv ref_ops ref_chunk_ops [1, 2, 3] ?p"
    by (simp add: partial_inv_def sparse_new_def bf_empty_def ref.contains_empty bf_canonical_def bf_new_def)
  moreover have "sparse_try_into ref_ops (ps_outboard ?p) = Inr []"
    by (simp add: sparse_try_into_def into_parts_def sparse_new_def ref.rs_eq_iff ref.contains_simps)
  moreover have "\<forall>(off, data)\<in>set [(0, [1, 2, 3])]. leaf_of [1, 2, 3] off data"
    by (simp add: leaf_of_def)
  moreover have "\<exists>x<length [1, 2, 3 :: u8]. \<not> has_chunk ref_ops ?p x"
    by (rule exI [of _ 0]) (simp add: bf_empty_def ref.contains_empty)
  ultimately show ?thesis
    using import_bao_completes [OF refs.store_laws_axioms, of "[1, 2, 3]" ?p "[]" "[(0, [1, 2, 3])]"]
    by (auto simp: new_partial_def in_leaf_def)
qed

text \<open>
  Exporting ranges of a complete blob sends exactly the requested bytes, in order, in pieces of
  at most 1024 bytes, and ends without an error.
\<close>

theorem export_ranges_exact:
  assumes "store_laws R B Io" "length data + 1024 < 2 ^ 64"
  shows "\<exists>ls. export_ranges_impl R B Io ranges (Complete data ob) = Some (ls, None) \<and>
    concat (map snd ls) = nths data {x. x < length data \<and> rs_contains R ranges (of_nat x)} \<and>
    (\<forall>l\<in>set ls. length (snd l) \<le> 1024)"
  using assms by (rule store_laws.export_complete)

theorem export_ranges_exact_witness:
  "\<exists>ls. export_ranges_impl ref_ops ref_chunk_ops ref_io (rs_all ref_ops) (Complete [7, 8] []) = Some (ls, None) \<and>
    concat (map snd ls) = [7, 8]"
proof -
  have "nths [7, 8 :: u8] {x. x < Suc (Suc 0) \<and> rs_contains ref_ops (rs_all ref_ops) (of_nat x)} = [7, 8]"
    by (simp add: nths_Cons ref.contains_all)
  then show ?thesis
    using export_ranges_exact [OF refs.store_laws_axioms, of "[7, 8]" "rs_all ref_ops" "[]"] by auto
qed

text \<open>
  \<open>SizeInfo::complete\<close> does not compute the offset of the last chunk group, as its comment says,
  but the low bits of the size: for a file of 100000 bytes the offset of the last group of 16 KiB
  would be 98304.
\<close>

theorem size_info_complete_low_bits:
  "si_offset (size_info_complete sz) = sz mod 16 \<and> si_offset (size_info_complete 100000) = 0"
proof -
  have "x AND 15 = x mod 16" for x :: u64
    using take_bit_eq_mask [of 4 x] take_bit_eq_mod [of 4 x] by (simp add: mask_eq_exp_minus_1)
  then have "si_offset (size_info_complete x) = x mod 16" for x
    by (simp add: size_info_complete_def chunk_log_def push_bit_eq_mult)
  then show ?thesis by simp
qed

end
