(* ===== verification/Tags.thy ===== *)
theory Tags
  imports Hash BTree_Map Chunks
begin

text \<open>
  Tags: names and their order (\<open>Tag\<close> and \<open>next_prefix\<close> of \<open>src/store/util.rs\<close>), the requests to
  list, delete, rename and set them (\<open>src/api/proto.rs\<close>), and the client interface of
  \<open>src/api/tags.rs\<close>. What a store promises about its table of tags is the locale \<open>tag_store\<close>; the
  client operations are verified against it once, for every store that provides it.
\<close>

section \<open>Names\<close>

type_synonym tag = bytes

text \<open>Decimal digits, as \<open>format!\<close> writes a number.\<close>

fun decimal :: "nat \<Rightarrow> bytes" where
  "decimal n = (if n < 10 then [48 + of_nat n] else decimal (n div 10) @ [48 + of_nat (n mod 10)])"

declare decimal.simps [simp del]

text \<open>
  \<open>Tag::auto\<close>: \<open>stamp\<close> is the text \<open>auto-<time>\<close>. The loop may run for ever if every name exists;
  \<open>None\<close> is that case.
\<close>

definition auto_name :: "bytes \<Rightarrow> nat \<Rightarrow> bytes" where
  "auto_name stamp i = (if i \<noteq> 0 then stamp @ (45 # decimal i) else stamp)"

partial_function (option) auto_loop :: "bytes \<Rightarrow> (tag \<Rightarrow> bool) \<Rightarrow> nat \<Rightarrow> tag option" where
  "auto_loop stamp taken i =
     (let text = auto_name stamp i in
      if \<not> taken text then Some text else auto_loop stamp taken (i + 1))"

definition auto_tag :: "bytes \<Rightarrow> (tag \<Rightarrow> bool) \<Rightarrow> tag option" where
  "auto_tag stamp taken = auto_loop stamp taken 0"

definition successor :: "tag \<Rightarrow> tag" where
  "successor t = t @ [0]"

text \<open>\<open>next_prefix\<close> goes through the bytes from the last to the first.\<close>

fun next_prefix_rev :: "bytes \<Rightarrow> bool \<times> bytes" where
  "next_prefix_rev [] = (False, [])"
| "next_prefix_rev (b # bs) =
     (if b < 255 then (True, (b + 1) # bs)
      else let (r, bs') = next_prefix_rev bs in (r, 0 # bs'))"

definition next_prefix :: "bytes \<Rightarrow> bool \<times> bytes" where
  "next_prefix bs = (let (r, bs') = next_prefix_rev (rev bs) in (r, rev bs'))"

definition tag_next_prefix :: "tag \<Rightarrow> tag option" where
  "tag_next_prefix t = (let (r, bs) = next_prefix t in if r then Some bs else None)"

section \<open>Requests\<close>

record list_tags_request =
  lt_hash_seq :: bool
  lt_raw :: bool
  lt_from :: "tag option"
  lt_to :: "tag option"

record tag_info =
  ti_name :: tag
  ti_format :: blob_format
  ti_hash :: hash

record delete_tags_request =
  dt_from :: "tag option"
  dt_to :: "tag option"

definition tags_from_range :: "tag bound \<Rightarrow> tag bound \<Rightarrow> tag option \<times> tag option" where
  "tags_from_range start_bound end_bound =
     (let from = (case start_bound of
                    Included s \<Rightarrow> Some s
                  | Excluded s \<Rightarrow> Some (successor s)
                  | Unbounded \<Rightarrow> None);
          to = (case end_bound of
                  Included e \<Rightarrow> Some (successor e)
                | Excluded e \<Rightarrow> Some e
                | Unbounded \<Rightarrow> None)
      in (from, to))"

definition list_range :: "tag bound \<Rightarrow> tag bound \<Rightarrow> list_tags_request" where
  "list_range s e =
     (let (from, to) = tags_from_range s e in
      \<lparr>lt_hash_seq = True, lt_raw = True, lt_from = from, lt_to = to\<rparr>)"

definition list_prefix :: "bytes \<Rightarrow> list_tags_request" where
  "list_prefix p =
     (let from = p; to = tag_next_prefix from in
      \<lparr>lt_hash_seq = True, lt_raw = True, lt_from = Some from, lt_to = to\<rparr>)"

definition list_single :: "bytes \<Rightarrow> list_tags_request" where
  "list_single name =
     \<lparr>lt_hash_seq = True, lt_raw = True, lt_from = Some name, lt_to = Some (successor name)\<rparr>"

definition list_all :: list_tags_request where
  "list_all = \<lparr>lt_hash_seq = True, lt_raw = True, lt_from = None, lt_to = None\<rparr>"

definition list_raw :: list_tags_request where
  "list_raw = \<lparr>lt_hash_seq = False, lt_raw = True, lt_from = None, lt_to = None\<rparr>"

definition list_hash_seq :: list_tags_request where
  "list_hash_seq = \<lparr>lt_hash_seq = True, lt_raw = False, lt_from = None, lt_to = None\<rparr>"

definition tag_info_new :: "bytes \<Rightarrow> hash_and_format \<Rightarrow> tag_info" where
  "tag_info_new name value = \<lparr>ti_name = name, ti_format = hf_format value, ti_hash = hf_hash value\<rparr>"

definition hash_and_format_of :: "tag_info \<Rightarrow> hash_and_format" where
  "hash_and_format_of i = \<lparr>hf_hash = ti_hash i, hf_format = ti_format i\<rparr>"

definition delete_single :: "bytes \<Rightarrow> delete_tags_request" where
  "delete_single name = \<lparr>dt_from = Some name, dt_to = Some (successor name)\<rparr>"

definition delete_range :: "tag bound \<Rightarrow> tag bound \<Rightarrow> delete_tags_request" where
  "delete_range s e = (let (from, to) = tags_from_range s e in \<lparr>dt_from = from, dt_to = to\<rparr>)"

definition delete_prefix :: "bytes \<Rightarrow> delete_tags_request" where
  "delete_prefix p = \<lparr>dt_from = Some p, dt_to = tag_next_prefix p\<rparr>"

definition delete_all :: delete_tags_request where
  "delete_all = \<lparr>dt_from = None, dt_to = None\<rparr>"

text \<open>The range of a request: from inclusive, to exclusive.\<close>

definition in_tag_range :: "tag option \<Rightarrow> tag option \<Rightarrow> tag \<Rightarrow> bool" where
  "in_tag_range from to t \<longleftrightarrow>
     (case from of Some f \<Rightarrow> f \<le> t | None \<Rightarrow> True) \<and> (case to of Some e \<Rightarrow> t < e | None \<Rightarrow> True)"

definition wants_format :: "list_tags_request \<Rightarrow> blob_format \<Rightarrow> bool" where
  "wants_format r f \<longleftrightarrow> lt_raw r \<and> is_raw f \<or> lt_hash_seq r \<and> is_hash_seq f"

section \<open>The order of names\<close>

lemma append_less_append [simp]:
  fixes x y :: bytes
  shows "p @ x < p @ y \<longleftrightarrow> x < y"
  by (induction p) simp_all

lemma append_le_append [simp]:
  fixes x y :: bytes
  shows "p @ x \<le> p @ y \<longleftrightarrow> x \<le> y"
  by (induction p) simp_all

lemma prefix_le [simp]: "p \<le> p @ (x :: bytes)"
  using append_le_append [of p "[]" x] by simp

lemma less_successor_iff: "x < successor t \<longleftrightarrow> x \<le> (t :: bytes)"
proof (induction t arbitrary: x)
  case Nil
  show ?case by (cases x) (auto simp: successor_def)
next
  case (Cons b t)
  then show ?case by (cases x) (auto simp: successor_def)
qed

lemma successor_le_iff: "successor t \<le> x \<longleftrightarrow> t < (x :: bytes)"
  using less_successor_iff [of x t] by (simp add: not_less [symmetric])

lemma in_single_iff: "in_tag_range (Some n) (Some (successor n)) t \<longleftrightarrow> t = n"
  by (auto simp: in_tag_range_def less_successor_iff)

lemma next_prefix_snoc:
  "next_prefix (p @ [b]) =
    (if b < 255 then (True, p @ [b + 1]) else (fst (next_prefix p), snd (next_prefix p) @ [0]))"
  by (simp add: next_prefix_def split_def Let_def)

lemma next_prefix_Nil [simp]: "next_prefix [] = (False, [])"
  by (simp add: next_prefix_def)

lemma u8_less_Suc: "b < 255 \<Longrightarrow> c < b + 1 \<longleftrightarrow> c \<le> (b :: u8)"
proof -
  assume "b < 255"
  then have "unat (b + 1) = unat b + 1"
    by (simp add: word_less_nat_alt unat_add_lem [THEN iffD1])
  then show ?thesis by (simp add: word_less_nat_alt word_le_nat_alt less_Suc_eq_le)
qed

text \<open>All extensions of a prefix lie below the next prefix.\<close>

lemma prefix_less_next: "next_prefix p = (True, q) \<Longrightarrow> p @ y < q"
proof (induction p arbitrary: q y rule: rev_induct)
  case (snoc b p)
  show ?case
  proof (cases "b < 255")
    case True
    then have "q = p @ [b + 1]" "b < b + 1" using snoc.prems u8_less_Suc [of b b] by (auto simp: next_prefix_snoc)
    then show ?thesis by simp
  next
    case False
    then obtain q' where q: "next_prefix p = (True, q')" "q = q' @ [0]"
      using snoc.prems by (cases "next_prefix p") (auto simp: next_prefix_snoc)
    have "p @ ([b] @ y) < q'" using q(1) by (rule snoc.IH)
    also have "q' \<le> q" using q(2) by simp
    finally show ?thesis by simp
  qed
qed simp

lemma between_prefixes:
  "b < 255 \<Longrightarrow> p @ [b] \<le> x \<Longrightarrow> x < p @ [b + 1] \<Longrightarrow> \<exists>y. x = p @ [b] @ (y :: bytes)"
proof (induction p arbitrary: x)
  case Nil
  then obtain c y where "x = c # y" by (cases x) auto
  with Nil show ?case using u8_less_Suc [of b c] by auto
next
  case (Cons a p)
  then obtain c y where "x = c # y" by (cases x) auto
  with Cons show ?case by auto
qed

lemma next_prefix_None: "fst (next_prefix p) = False \<longleftrightarrow> (\<forall>b\<in>set p. \<not> b < 255)"
  by (induction p rule: rev_induct) (auto simp: next_prefix_snoc)

lemma u8_not_less_255: "\<not> b < 255 \<longleftrightarrow> b = (255 :: u8)"
proof -
  have "unat b < 256" using unsigned_less [of b] by simp
  then show ?thesis by (auto simp: word_less_nat_alt word_unat_eq_iff)
qed

lemma above_max_prefix: "\<forall>b\<in>set p. b = (255 :: u8) \<Longrightarrow> p \<le> x \<Longrightarrow> \<exists>y. x = p @ y"
proof (induction p arbitrary: x)
  case (Cons b p)
  then obtain c y where x: "x = c # y" by (cases x) auto
  have "\<not> 255 < c" using u8_not_less_255 [of c] by (auto simp: word_less_nat_alt) 
  with Cons x show ?case by auto
qed simp


section \<open>Fresh names\<close>

text \<open>Reading decimal digits back.\<close>

fun undecimal :: "bytes \<Rightarrow> nat" where
  "undecimal bs = fold (\<lambda>b n. 10 * n + (unat b - 48)) bs 0"

lemma unat_digit: "n < 10 \<Longrightarrow> unat (48 + of_nat n :: u8) - 48 = n"
proof -
  assume n: "n < 10"
  have "(48 + of_nat n :: u8) = of_nat (48 + n)" by simp
  moreover have "unat (of_nat (48 + n) :: u8) = 48 + n"
    using n by (subst unat_of_nat) (simp add: take_bit_nat_eq_self)
  ultimately show ?thesis by simp
qed

lemma undecimal_decimal: "undecimal (decimal n) = n"
proof (induction n rule: decimal.induct)
  case (1 n)
  show ?case
  proof (cases "n < 10")
    case True
    then show ?thesis by (simp add: decimal.simps [of n] unat_digit)
  next
    case False
    then have "undecimal (decimal (n div 10)) = n div 10" by (rule 1)
    with False show ?thesis by (simp add: decimal.simps [of n] unat_digit)
  qed
qed

lemma inj_decimal: "decimal m = decimal n \<longleftrightarrow> m = n"
  using undecimal_decimal by metis

lemma inj_auto_name: "inj (auto_name stamp)"
  by (rule injI) (auto simp: auto_name_def inj_decimal split: if_splits)

lemma auto_loop_step:
  "auto_loop stamp taken i =
    (if taken (auto_name stamp i) then auto_loop stamp taken (i + 1) else Some (auto_name stamp i))"
  by (subst auto_loop.simps) (simp add: Let_def)

lemma auto_loop_finds:
  assumes "\<not> taken (auto_name stamp (i + n))"
  shows "\<exists>k. auto_loop stamp taken i = Some (auto_name stamp k) \<and> \<not> taken (auto_name stamp k)"
  using assms
proof (induction n arbitrary: i)
  case 0
  then have "auto_loop stamp taken i = Some (auto_name stamp i)"
    by (subst auto_loop_step) simp
  with 0 show ?case by auto
next
  case (Suc n)
  show ?case
  proof (cases "taken (auto_name stamp i)")
    case True
    then have "auto_loop stamp taken i = auto_loop stamp taken (i + 1)"
      by (subst auto_loop_step) simp
    with Suc.IH [of "i + 1"] Suc.prems show ?thesis by simp
  next
    case False
    then have "auto_loop stamp taken i = Some (auto_name stamp i)"
      by (subst auto_loop_step) simp
    with False show ?thesis by blast
  qed
qed

lemma auto_tag_fresh:
  assumes "finite {t. taken t}"
  shows "\<exists>t. auto_tag stamp taken = Some t \<and> \<not> taken t"
proof -
  have "infinite (range (auto_name stamp))"
    using finite_imageD [OF _ inj_auto_name] infinite_UNIV_nat by blast
  then have "\<not> range (auto_name stamp) \<subseteq> {t. taken t}"
    using assms finite_subset by blast
  then obtain n where "\<not> taken (auto_name stamp n)" by blast
  then show ?thesis
    using auto_loop_finds [of taken stamp 0 n] unfolding auto_tag_def by auto
qed

section \<open>The contract of a store\<close>

datatype tag_error = TagNotFound

record 's tag_ops =
  to_list :: "'s \<Rightarrow> list_tags_request \<Rightarrow> tag_info list"
  to_set :: "'s \<Rightarrow> tag \<Rightarrow> hash_and_format \<Rightarrow> 's"
  to_delete :: "'s \<Rightarrow> delete_tags_request \<Rightarrow> 's"
  to_rename :: "'s \<Rightarrow> tag \<Rightarrow> tag \<Rightarrow> tag_error + 's"
  to_create :: "'s \<Rightarrow> bytes \<Rightarrow> hash_and_format \<Rightarrow> (tag \<times> 's) option"

text \<open>The client operations of \<open>src/api/tags.rs\<close>, over the operations of a store.\<close>

definition tags_get :: "'s tag_ops \<Rightarrow> 's \<Rightarrow> bytes \<Rightarrow> tag_info option" where
  "tags_get T s name =
     (case to_list T s (list_single name) of [] \<Rightarrow> None | i # _ \<Rightarrow> Some i)"

definition tags_set :: "'s tag_ops \<Rightarrow> 's \<Rightarrow> bytes \<Rightarrow> hash_and_format \<Rightarrow> 's" where
  "tags_set T s name value = to_set T s name value"

definition tags_list_range :: "'s tag_ops \<Rightarrow> 's \<Rightarrow> tag bound \<Rightarrow> tag bound \<Rightarrow> tag_info list" where
  "tags_list_range T s a b = to_list T s (list_range a b)"

definition tags_list_prefix :: "'s tag_ops \<Rightarrow> 's \<Rightarrow> bytes \<Rightarrow> tag_info list" where
  "tags_list_prefix T s p = to_list T s (list_prefix p)"

definition tags_list :: "'s tag_ops \<Rightarrow> 's \<Rightarrow> tag_info list" where
  "tags_list T s = to_list T s list_all"

definition tags_list_hash_seq :: "'s tag_ops \<Rightarrow> 's \<Rightarrow> tag_info list" where
  "tags_list_hash_seq T s = to_list T s list_hash_seq"

definition tags_delete :: "'s tag_ops \<Rightarrow> 's \<Rightarrow> bytes \<Rightarrow> 's" where
  "tags_delete T s name = to_delete T s (delete_single name)"

definition tags_delete_range :: "'s tag_ops \<Rightarrow> 's \<Rightarrow> tag bound \<Rightarrow> tag bound \<Rightarrow> 's" where
  "tags_delete_range T s a b = to_delete T s (delete_range a b)"

definition tags_delete_prefix :: "'s tag_ops \<Rightarrow> 's \<Rightarrow> bytes \<Rightarrow> 's" where
  "tags_delete_prefix T s p = to_delete T s (delete_prefix p)"

definition tags_delete_all :: "'s tag_ops \<Rightarrow> 's \<Rightarrow> 's" where
  "tags_delete_all T s = to_delete T s delete_all"

definition tags_rename :: "'s tag_ops \<Rightarrow> 's \<Rightarrow> bytes \<Rightarrow> bytes \<Rightarrow> tag_error + 's" where
  "tags_rename T s from to = to_rename T s from to"

definition tags_create :: "'s tag_ops \<Rightarrow> 's \<Rightarrow> bytes \<Rightarrow> hash_and_format \<Rightarrow> (tag \<times> 's) option" where
  "tags_create T s stamp value = to_create T s stamp value"

locale tag_store =
  fixes T :: "'s tag_ops"
    and valid :: "'s \<Rightarrow> bool"
    and tags_of :: "'s \<Rightarrow> tag \<Rightarrow> hash_and_format option"
  assumes finite_tags: "valid s \<Longrightarrow> finite (dom (tags_of s))"
    and set_tag: "valid s \<Longrightarrow> valid (to_set T s n v) \<and> tags_of (to_set T s n v) = (tags_of s)(n \<mapsto> v)"
    and delete_tags: "valid s \<Longrightarrow> valid (to_delete T s d) \<and>
      tags_of (to_delete T s d) = (\<lambda>n. if in_tag_range (dt_from d) (dt_to d) n then None else tags_of s n)"
    and rename_missing: "valid s \<Longrightarrow> tags_of s from = None \<Longrightarrow> to_rename T s from to = Inl TagNotFound"
    and rename_tag: "valid s \<Longrightarrow> tags_of s from = Some v \<Longrightarrow>
      \<exists>s'. to_rename T s from to = Inr s' \<and> valid s' \<and> tags_of s' = ((tags_of s)(from := None))(to \<mapsto> v)"
    and list_sorted: "valid s \<Longrightarrow> sorted_wrt (<) (map ti_name (to_list T s r))"
    and list_tags: "valid s \<Longrightarrow> i \<in> set (to_list T s r) \<longleftrightarrow>
      tags_of s (ti_name i) = Some (hash_and_format_of i) \<and>
      in_tag_range (lt_from r) (lt_to r) (ti_name i) \<and> wants_format r (ti_format i)"
    and create_tag: "valid s \<Longrightarrow> \<exists>t s'. to_create T s stamp v = Some (t, s') \<and> valid s' \<and>
      tags_of s t = None \<and> tags_of s' = (tags_of s)(t \<mapsto> v)"
begin

lemma wants_both: "lt_raw r \<Longrightarrow> lt_hash_seq r \<Longrightarrow> wants_format r f"
  by (cases f) (simp_all add: wants_format_def)

lemma tags_list_ran:
  assumes "valid s"
  shows "hash_and_format_of ` set (tags_list T s) = ran (tags_of s)"
proof (intro set_eqI iffI)
  fix v assume "v \<in> ran (tags_of s)"
  then obtain n where "tags_of s n = Some v" by (auto simp: ran_def)
  then have "tag_info_new n v \<in> set (tags_list T s)"
    using list_tags [OF assms, of "tag_info_new n v" list_all] wants_both [of list_all]
    by (simp add: tags_list_def list_all_def in_tag_range_def tag_info_new_def hash_and_format_of_def)
  then show "v \<in> hash_and_format_of ` set (tags_list T s)"
    by (rule rev_image_eqI) (simp add: tag_info_new_def hash_and_format_of_def)
next
  fix v assume "v \<in> hash_and_format_of ` set (tags_list T s)"
  then show "v \<in> ran (tags_of s)"
    using list_tags [OF assms, of _ list_all] by (auto simp: tags_list_def intro: ranI)
qed

text \<open>\<open>Tags::get\<close> is lookup in the table.\<close>

lemma get_tags_of:
  assumes "valid s"
  shows "tags_get T s n = map_option (tag_info_new n) (tags_of s n)"
proof -
  let ?l = "to_list T s (list_single n)"
  have mem: "i \<in> set ?l \<longleftrightarrow> ti_name i = n \<and> tags_of s n = Some (hash_and_format_of i)" for i
    using list_tags [OF assms, of i "list_single n"]
    by (auto simp: list_single_def in_single_iff wants_both)
  show ?thesis
  proof (cases "tags_of s n")
    case None
    then have "?l = []" using mem by (cases ?l) auto
    with None show ?thesis by (simp add: tags_get_def)
  next
    case (Some v)
    have "tag_info_new n v \<in> set ?l"
      unfolding mem using Some by (simp add: tag_info_new_def hash_and_format_of_def)
    then obtain i l where l: "?l = i # l" by (cases ?l) auto
    then have "ti_name i = n" "v = hash_and_format_of i" using mem [of i] Some by auto
    then have "i = tag_info_new n v" by (simp add: tag_info_new_def hash_and_format_of_def)
    with l Some show ?thesis by (simp add: tags_get_def)
  qed
qed

lemma get_set:
  "valid s \<Longrightarrow> tags_get T (tags_set T s n v) m =
    (if m = n then Some (tag_info_new n v) else tags_get T s m)"
  using set_tag [of s n v] by (simp add: get_tags_of tags_set_def)

lemma get_delete:
  "valid s \<Longrightarrow> tags_get T (tags_delete T s n) m = (if m = n then None else tags_get T s m)"
  using delete_tags [of s "delete_single n"]
  by (simp add: get_tags_of tags_delete_def delete_single_def in_single_iff)

lemma in_range_iff:
  "in_tag_range (fst (tags_from_range a b)) (snd (tags_from_range a b)) n \<longleftrightarrow>
    (case a of Included s \<Rightarrow> s \<le> n | Excluded s \<Rightarrow> s < n | Unbounded \<Rightarrow> True) \<and>
    (case b of Included e \<Rightarrow> n \<le> e | Excluded e \<Rightarrow> n < e | Unbounded \<Rightarrow> True)"
  by (simp add: tags_from_range_def in_tag_range_def less_successor_iff successor_le_iff split: bound.split)

lemma get_delete_range:
  assumes "valid s"
  shows "tags_get T (tags_delete_range T s a b) n =
    (if (case a of Included s \<Rightarrow> s \<le> n | Excluded s \<Rightarrow> s < n | Unbounded \<Rightarrow> True) \<and>
        (case b of Included e \<Rightarrow> n \<le> e | Excluded e \<Rightarrow> n < e | Unbounded \<Rightarrow> True)
     then None else tags_get T s n)"
  using delete_tags [OF assms, of "delete_range a b"] assms in_range_iff [of a b n]
  by (simp add: get_tags_of tags_delete_range_def delete_range_def split_def Let_def)

lemma get_rename:
  assumes "valid s" "tags_get T s from = Some i"
  shows "\<exists>s'. tags_rename T s from to = Inr s' \<and> valid s' \<and>
    tags_get T s' to = Some (i\<lparr>ti_name := to\<rparr>) \<and>
    (\<forall>n. n \<noteq> to \<longrightarrow> tags_get T s' n = (if n = from then None else tags_get T s n))"
proof -
  obtain v where v: "tags_of s from = Some v" "i = tag_info_new from v"
    using assms by (auto simp: get_tags_of)
  from rename_tag [OF assms(1) v(1), of to] obtain s' where
    s': "to_rename T s from to = Inr s'" "valid s'" "tags_of s' = ((tags_of s)(from := None))(to \<mapsto> v)"
    by blast
  then show ?thesis using assms(1) v by (auto simp: tags_rename_def get_tags_of tag_info_new_def)
qed

lemma rename_not_found:
  "valid s \<Longrightarrow> tags_get T s from = None \<Longrightarrow> tags_rename T s from to = Inl TagNotFound"
  by (simp add: get_tags_of tags_rename_def rename_missing)

lemma get_create:
  assumes "valid s"
  shows "\<exists>t s'. tags_create T s stamp v = Some (t, s') \<and> valid s' \<and> tags_get T s t = None \<and>
    (\<forall>n. tags_get T s' n = (if n = t then Some (tag_info_new t v) else tags_get T s n))"
proof -
  obtain t s' where c: "to_create T s stamp v = Some (t, s')" "valid s'" "tags_of s t = None"
    "tags_of s' = (tags_of s)(t \<mapsto> v)"
    using create_tag [OF assms, of stamp v] by blast
  then show ?thesis using assms by (simp add: tags_create_def get_tags_of)
qed

text \<open>Listing by a prefix returns every tag with the prefix.\<close>

lemma in_prefix_range:
  "in_tag_range (Some p) (tag_next_prefix p) (p @ y)"
  using prefix_less_next [of p _ y]
  by (auto simp: in_tag_range_def tag_next_prefix_def split: prod.splits)

lemma in_prefix_range_exact:
  assumes "p = [] \<or> last p \<noteq> 255 \<or> (\<forall>b\<in>set p. b = 255)"
  shows "in_tag_range (Some p) (tag_next_prefix p) n \<longleftrightarrow> (\<exists>y. n = p @ y)"
proof
  assume r: "in_tag_range (Some p) (tag_next_prefix p) n"
  then have le: "p \<le> n" by (simp add: in_tag_range_def)
  show "\<exists>y. n = p @ y"
  proof (cases "\<forall>b\<in>set p. b = 255")
    case True
    then show ?thesis using le by (rule above_max_prefix)
  next
    case False
    then obtain p' b where p: "p = p' @ [b]" "b \<noteq> 255" using assms by (cases p rule: rev_cases) auto
    then have b: "b < 255" using u8_not_less_255 by blast
    then have "n < p' @ [b + 1]"
      using r p by (simp add: in_tag_range_def tag_next_prefix_def next_prefix_snoc)
    with b le p show ?thesis using between_prefixes [of b p' n] by auto
  qed
qed (use in_prefix_range in blast)

lemma list_prefix_complete:
  assumes "valid s" "tags_get T s (p @ y) = Some i"
  shows "i \<in> set (tags_list_prefix T s p)"
proof -
  obtain v where "tags_of s (p @ y) = Some v" "i = tag_info_new (p @ y) v"
    using assms by (auto simp: get_tags_of)
  then show ?thesis
    using list_tags [OF assms(1), of i "list_prefix p"] in_prefix_range [of p y]
    by (simp add: tags_list_prefix_def list_prefix_def wants_both tag_info_new_def hash_and_format_of_def)
qed

lemma list_prefix_sound:
  assumes "valid s" "p = [] \<or> last p \<noteq> 255 \<or> (\<forall>b\<in>set p. b = 255)" "i \<in> set (tags_list_prefix T s p)"
  shows "\<exists>y. ti_name i = p @ y"
  using assms list_tags [OF assms(1), of i "list_prefix p"] in_prefix_range_exact [OF assms(2)]
  by (simp add: tags_list_prefix_def list_prefix_def)

end

end
