(* ===== verification/Temp_Tag.thy ===== *)
theory Temp_Tag
  imports Hash BTree_Map "HOL-Library.Multiset"
begin

text \<open>
  Temporary tags, \<open>src/util/temp_tag.rs\<close>: counters of the live temporary tags per hash and
  format, the scopes that own them, and the tags themselves, which decrement their counter when
  they are dropped. A hash map is an association list in key order; the program only uses its
  contents as a set. The locale \<open>tag_counter\<close> is the contract of the traits \<open>TagCounter\<close> and
  \<open>TagDrop\<close>: a counter implements a multiset of protected contents.
\<close>

section \<open>Counters\<close>

record temp_counters =
  tc_raw :: u64
  tc_hash_seq :: u64

definition tc_default :: temp_counters where
  "tc_default = \<lparr>tc_raw = 0, tc_hash_seq = 0\<rparr>"

definition counter :: "temp_counters \<Rightarrow> blob_format \<Rightarrow> u64" where
  "counter c format = (case format of Raw \<Rightarrow> tc_raw c | HashSeq \<Rightarrow> tc_hash_seq c)"

text \<open>Writing through the reference that \<open>counter_mut\<close> returns.\<close>

definition counter_mut :: "temp_counters \<Rightarrow> blob_format \<Rightarrow> u64 \<Rightarrow> temp_counters" where
  "counter_mut c format v = (case format of Raw \<Rightarrow> c\<lparr>tc_raw := v\<rparr> | HashSeq \<Rightarrow> c\<lparr>tc_hash_seq := v\<rparr>)"

text \<open>\<open>None\<close> is the panic of \<open>unwrap\<close> when the counter overflows.\<close>

definition tc_inc :: "temp_counters \<Rightarrow> blob_format \<Rightarrow> temp_counters option" where
  "tc_inc c format = map_option (counter_mut c format) (checked_add_u64 (counter c format) 1)"

definition tc_dec :: "temp_counters \<Rightarrow> blob_format \<Rightarrow> temp_counters" where
  "tc_dec c format = counter_mut c format (saturating_sub_u64 (counter c format) 1)"

definition tc_is_empty :: "temp_counters \<Rightarrow> bool" where
  "tc_is_empty c = (tc_raw c = 0 \<and> tc_hash_seq c = 0)"

type_synonym temp_counter_map = "(hash, temp_counters) btree"

definition tcm_inc :: "temp_counter_map \<Rightarrow> hash_and_format \<Rightarrow> temp_counter_map option" where
  "tcm_inc m value =
     (let c = (case bt_get m (hf_hash value) of Some c \<Rightarrow> c | None \<Rightarrow> tc_default) in
      map_option (\<lambda>c. bt_insert (hf_hash value) c m) (tc_inc c (hf_format value)))"

definition tcm_dec :: "temp_counter_map \<Rightarrow> hash_and_format \<Rightarrow> temp_counter_map" where
  "tcm_dec m value =
     (case bt_get m (hf_hash value) of
        None \<Rightarrow> m
      | Some counters \<Rightarrow>
          let counters = tc_dec counters (hf_format value) in
          if tc_is_empty counters then bt_remove (hf_hash value) m
          else bt_insert (hf_hash value) counters m)"

definition tcm_contains :: "temp_counter_map \<Rightarrow> hash_and_format \<Rightarrow> bool" where
  "tcm_contains m haf =
     (case bt_get m (hf_hash haf) of
        None \<Rightarrow> False
      | Some entry \<Rightarrow> counter entry (hf_format haf) > 0)"

definition tcm_keys :: "temp_counter_map \<Rightarrow> hash_and_format list" where
  "tcm_keys m =
     concat (map (\<lambda>(k, v).
       (if tc_raw v > 0 then [hf_raw k] else []) @
       (if tc_hash_seq v > 0 then [hf_hash_seq k] else [])) m)"

section \<open>Scopes\<close>

text \<open>
  A scope is a shared object (\<open>Arc<TempTagScope>\<close>). \<open>tt_heap\<close> holds the counters of each object,
  by address; \<open>tt_scopes\<close> maps the scopes that have not ended to their objects. A tag refers
  weakly to the object it was created in, so that dropping it after the end of its scope, or
  after a new object was made for the same scope, does not change any other counter.
\<close>

type_synonym scope = u64

record temp_tags =
  tt_scopes :: "(scope, nat) btree"
  tt_next_scope :: u64
  tt_heap :: "nat \<Rightarrow> temp_counter_map"
  tt_next_addr :: nat

record temp_tag =
  tag_inner :: hash_and_format
  tag_on_drop :: "nat option"

definition temp_tags_default :: temp_tags where
  "temp_tags_default = \<lparr>tt_scopes = [], tt_next_scope = 0, tt_heap = (\<lambda>_. []), tt_next_addr = 0\<rparr>"

text \<open>\<open>scopes.entry(id).or_default()\<close>.\<close>

definition scope_or_default :: "temp_tags \<Rightarrow> scope \<Rightarrow> nat \<times> temp_tags" where
  "scope_or_default t s =
     (case bt_get (tt_scopes t) s of
        Some a \<Rightarrow> (a, t)
      | None \<Rightarrow> (tt_next_addr t,
          t\<lparr>tt_scopes := bt_insert s (tt_next_addr t) (tt_scopes t),
            tt_heap := (tt_heap t)(tt_next_addr t := []),
            tt_next_addr := Suc (tt_next_addr t)\<rparr>))"

definition create_scope :: "temp_tags \<Rightarrow> (scope \<times> nat) \<times> temp_tags" where
  "create_scope t =
     (let t = t\<lparr>tt_next_scope := tt_next_scope t + 1\<rparr>;
          id' = tt_next_scope t;
          (a, t) = scope_or_default t id'
      in ((id', a), t))"

definition end_scope :: "temp_tags \<Rightarrow> scope \<Rightarrow> temp_tags" where
  "end_scope t s = t\<lparr>tt_scopes := bt_remove s (tt_scopes t)\<rparr>"

definition scope_list :: "temp_tags \<Rightarrow> nat \<Rightarrow> hash_and_format list" where
  "scope_list t a = tcm_keys (tt_heap t a)"

definition tt_list :: "temp_tags \<Rightarrow> hash_and_format list" where
  "tt_list t = concat (map (\<lambda>(_, a). scope_list t a) (tt_scopes t))"

text \<open>\<open>TagCounter::temp_tag\<close> on a scope: \<open>None\<close> is the panic of the counter.\<close>

definition scope_temp_tag :: "temp_tags \<Rightarrow> nat \<Rightarrow> hash_and_format \<Rightarrow> (temp_tag \<times> temp_tags) option" where
  "scope_temp_tag t a inner =
     (case tcm_inc (tt_heap t a) inner of
        None \<Rightarrow> None
      | Some m \<Rightarrow>
          Some (\<lparr>tag_inner = inner, tag_on_drop = Some a\<rparr>, t\<lparr>tt_heap := (tt_heap t)(a := m)\<rparr>))"

definition tt_create :: "temp_tags \<Rightarrow> scope \<Rightarrow> hash_and_format \<Rightarrow> (temp_tag \<times> temp_tags) option" where
  "tt_create t s content = (let (a, t) = scope_or_default t s in scope_temp_tag t a content)"

definition tt_contains :: "temp_tags \<Rightarrow> hash \<Rightarrow> bool" where
  "tt_contains t h = (\<exists>(_, a)\<in>set (tt_scopes t). tcm_contains (tt_heap t a) (hf_raw h))"

definition scope_on_drop :: "temp_tags \<Rightarrow> nat \<Rightarrow> hash_and_format \<Rightarrow> temp_tags" where
  "scope_on_drop t a inner = t\<lparr>tt_heap := (tt_heap t)(a := tcm_dec (tt_heap t a) inner)\<rparr>"

text \<open>
  Dropping a tag: the weak reference can be upgraded while the object is alive, that is while its
  scope has not ended.
\<close>

definition drop_temp_tag :: "temp_tags \<Rightarrow> temp_tag \<Rightarrow> temp_tags" where
  "drop_temp_tag t tag =
     (case tag_on_drop tag of
        None \<Rightarrow> t
      | Some a \<Rightarrow> if a \<in> snd ` set (tt_scopes t) then scope_on_drop t a (tag_inner tag) else t)"

definition leak :: "temp_tag \<Rightarrow> temp_tag" where
  "leak tag = tag\<lparr>tag_on_drop := None\<rparr>"

definition leaking_empty :: "blob_format \<Rightarrow> temp_tag" where
  "leaking_empty format = \<lparr>tag_inner = hf_new hash_empty format, tag_on_drop = None\<rparr>"

section \<open>The contract\<close>

text \<open>
  A counter implements a multiset: creation adds one occurrence (unless it panics), a drop
  removes one, and a content is protected exactly while it occurs.
\<close>

text \<open>A sequence of creations (\<open>Inl\<close>) and drops (\<open>Inr\<close>); \<open>None\<close> if a creation panics.\<close>

fun run_counter ::
  "('c \<Rightarrow> 'v \<Rightarrow> 'c option) \<Rightarrow> ('c \<Rightarrow> 'v \<Rightarrow> 'c) \<Rightarrow> 'c \<Rightarrow> ('v + 'v) list \<Rightarrow> 'c option" where
  "run_counter inc dec c [] = Some c"
| "run_counter inc dec c (Inl v # ops) =
     (case inc c v of None \<Rightarrow> None | Some c' \<Rightarrow> run_counter inc dec c' ops)"
| "run_counter inc dec c (Inr v # ops) = run_counter inc dec (dec c v) ops"

fun counter_spec :: "'v multiset \<Rightarrow> ('v + 'v) list \<Rightarrow> 'v multiset" where
  "counter_spec M [] = M"
| "counter_spec M (Inl v # ops) = counter_spec (add_mset v M) ops"
| "counter_spec M (Inr v # ops) = counter_spec (M - {#v#}) ops"

locale tag_counter =
  fixes valid :: "'c \<Rightarrow> bool"
    and inc :: "'c \<Rightarrow> 'v \<Rightarrow> 'c option"
    and dec :: "'c \<Rightarrow> 'v \<Rightarrow> 'c"
    and keys :: "'c \<Rightarrow> 'v list"
    and live :: "'c \<Rightarrow> 'v multiset"
  assumes inc_Some: "valid c \<Longrightarrow> inc c v = Some c' \<Longrightarrow> valid c' \<and> live c' = add_mset v (live c)"
    and dec: "valid c \<Longrightarrow> valid (dec c v) \<and> live (dec c v) = live c - {#v#}"
    and set_keys: "valid c \<Longrightarrow> set (keys c) = set_mset (live c)"
begin

lemma run_spec:
  "valid c \<Longrightarrow> run_counter inc dec c ops = Some c' \<Longrightarrow> valid c' \<and> live c' = counter_spec (live c) ops"
proof (induction ops arbitrary: c)
  case (Cons op ops)
  show ?case
  proof (cases op)
    case (Inl v)
    with Cons.prems obtain c1 where c1: "inc c v = Some c1" "run_counter inc dec c1 ops = Some c'"
      by (cases "inc c v") simp_all
    with Inl Cons.IH [OF _ c1(2)] inc_Some [OF Cons.prems(1) c1(1)] show ?thesis by simp
  next
    case (Inr v)
    with Cons.prems have "run_counter inc dec (dec c v) ops = Some c'" by simp
    from Cons.IH [OF _ this] dec [OF Cons.prems(1), of v] Inr show ?thesis by simp
  qed
qed simp

lemma protected_iff:
  "valid c \<Longrightarrow> run_counter inc dec c ops = Some c' \<Longrightarrow>
   v \<in> set (keys c') \<longleftrightarrow> v \<in># counter_spec (live c) ops"
  using run_spec [of c ops c'] set_keys [of c'] by simp

end

section \<open>The counter map implements it\<close>

definition tcm_live :: "temp_counter_map \<Rightarrow> hash_and_format multiset" where
  "tcm_live m = sum_list (map (\<lambda>(k, c).
     replicate_mset (unat (tc_raw c)) (hf_raw k) + replicate_mset (unat (tc_hash_seq c)) (hf_hash_seq k)) m)"

definition tcm_ok :: "temp_counter_map \<Rightarrow> bool" where
  "tcm_ok m \<longleftrightarrow> bt_ok m \<and> (\<forall>k c. (k, c) \<in> set m \<longrightarrow> \<not> tc_is_empty c)"

abbreviation count_of :: "temp_counter_map \<Rightarrow> hash_and_format \<Rightarrow> nat" where
  "count_of m hf \<equiv>
     (case bt_get m (hf_hash hf) of None \<Rightarrow> 0 | Some c \<Rightarrow> unat (counter c (hf_format hf)))"

lemma count_tcm_live:
  assumes "bt_ok m"
  shows "count (tcm_live m) hf = count_of m hf"
  using assms
proof (induction m)
  case Nil
  then show ?case by (simp add: tcm_live_def)
next
  case (Cons e m)
  obtain k c where e: "e = (k, c)" by (cases e)
  obtain h f where hf: "hf = \<lparr>hf_hash = h, hf_format = f\<rparr>" by (cases hf)
  have "map_of m k = None"
    using Cons.prems e by (force simp: map_of_eq_None_iff)
  with Cons e hf show ?case
    by (cases f) (auto simp: tcm_live_def bt_get_def counter_def hf_raw_def hf_hash_seq_def)
qed

lemma counter_counter_mut [simp]:
  "counter (counter_mut c f v) g = (if f = g then v else counter c g)"
  by (cases f; cases g) (simp_all add: counter_def counter_mut_def)

lemma hf_eq_iff: "hf = v \<longleftrightarrow> hf_hash hf = hf_hash v \<and> hf_format hf = hf_format v"
  for hf v :: hash_and_format
  by (cases hf; cases v) simp

lemma counter_default [simp]: "counter tc_default f = 0"
  by (simp add: counter_def tc_default_def split: blob_format.split)

lemma tc_is_empty_counter: "tc_is_empty c \<longleftrightarrow> (\<forall>f. counter c f = 0)"
  using blob_format.exhaust by (auto simp: tc_is_empty_def counter_def split: blob_format.split)

lemma bt_get_tcm_dec:
  assumes "tcm_ok m"
  shows "tcm_ok (tcm_dec m v)" and "count_of (tcm_dec m v) hf = count_of m hf - (if hf = v then 1 else 0)"
proof -
  have ok: "bt_ok m" using assms by (simp add: tcm_ok_def)
  have del: "unat (saturating_sub_u64 x 1) = unat x - 1" for x by (simp add: unat_saturating_sub)
  show "tcm_ok (tcm_dec m v)"
  proof (cases "bt_get m (hf_hash v)")
    case None
    with assms show ?thesis by (simp add: tcm_dec_def)
  next
    case (Some c)
    let ?c = "tc_dec c (hf_format v)"
    have "(k, c') \<in> set (bt_insert (hf_hash v) ?c m) \<Longrightarrow> (k, c') \<in> set m \<or> c' = ?c" for k c'
      using bt.in_entries_iff [OF bt_ok_insert [OF ok], of k c' "hf_hash v" ?c]
        bt.in_entries_iff [OF ok, of k c']
      by (auto simp: bt_get_insert [OF ok] split: if_splits)
    with assms Some show ?thesis
      unfolding tcm_ok_def tcm_dec_def Let_def
      by (auto simp: bt_ok_insert bt_remove_def bt_ok_filter)
  qed
  show "count_of (tcm_dec m v) hf = count_of m hf - (if hf = v then 1 else 0)"
  proof (cases "bt_get m (hf_hash v)")
    case None
    then show ?thesis by (auto simp: tcm_dec_def)
  next
    case (Some c)
    let ?c = "tc_dec c (hf_format v)"
    have c: "unat (counter ?c f) = unat (counter c f) - (if hf_format v = f then 1 else 0)" for f
      by (simp add: tc_dec_def del)
    show ?thesis
    proof (cases "tc_is_empty ?c")
      case True
      then have "unat (counter ?c f) = 0" for f by (simp add: tc_is_empty_counter)
      with True Some c [of "hf_format hf"] show ?thesis
        by (auto simp: tcm_dec_def bt_get_remove hf_eq_iff)
    next
      case False
      with Some c [of "hf_format hf"] show ?thesis
        by (auto simp: tcm_dec_def bt_get_insert [OF ok] hf_eq_iff)
    qed
  qed
qed


lemma tcm_inc_Some:
  assumes "tcm_ok m" "tcm_inc m v = Some m'"
  shows "tcm_ok m'" and "count_of m' hf = count_of m hf + (if hf = v then 1 else 0)"
proof -
  have ok: "bt_ok m" using assms by (simp add: tcm_ok_def)
  let ?c = "case bt_get m (hf_hash v) of Some c \<Rightarrow> c | None \<Rightarrow> tc_default"
  let ?n = "counter ?c (hf_format v)"
  have n: "?n \<noteq> u64_max" and m': "m' = bt_insert (hf_hash v) (counter_mut ?c (hf_format v) (?n + 1)) m"
    using assms(2) by (auto simp: tcm_inc_def tc_inc_def Let_def checked_add_1_Some_iff)
  have suc: "unat (?n + 1) = unat ?n + 1" using n by (simp add: unat_Suc_u64)
  show "count_of m' hf = count_of m hf + (if hf = v then 1 else 0)"
    using suc
    by (cases "bt_get m (hf_hash v)")
      (auto simp: m' bt_get_insert [OF ok] hf_eq_iff [of hf])
  have "?n + 1 \<noteq> 0" using suc by (metis add_is_0 one_neq_zero unat_0)
  then have "\<not> tc_is_empty (counter_mut ?c (hf_format v) (?n + 1))"
    by (cases "hf_format v") (simp_all add: counter_mut_def tc_is_empty_def)
  moreover have "(k, c') \<in> set m' \<Longrightarrow> (k, c') \<in> set m \<or> c' = counter_mut ?c (hf_format v) (?n + 1)" for k c'
    using bt.in_entries_iff [OF bt_ok_insert [OF ok], of k c' "hf_hash v" "counter_mut ?c (hf_format v) (?n + 1)"]
      bt.in_entries_iff [OF ok, of k c']
    by (auto simp: m' bt_get_insert [OF ok] split: if_splits)
  ultimately show "tcm_ok m'"
    using assms(1) bt_ok_insert [OF ok] unfolding tcm_ok_def m' by blast
qed

lemma set_tcm_keys: "set (tcm_keys m) = {hf. \<exists>c. (hf_hash hf, c) \<in> set m \<and> counter c (hf_format hf) > 0}"
proof (intro set_eqI)
  fix hf
  obtain h f where hf: "hf = \<lparr>hf_hash = h, hf_format = f\<rparr>" by (cases hf)
  show "hf \<in> set (tcm_keys m) \<longleftrightarrow> hf \<in> {hf. \<exists>c. (hf_hash hf, c) \<in> set m \<and> counter c (hf_format hf) > 0}"
    by (cases f) (force simp: hf tcm_keys_def counter_def hf_raw_def hf_hash_seq_def split: if_splits)+
qed

lemma tcm_keys_count:
  assumes "bt_ok m"
  shows "hf \<in> set (tcm_keys m) \<longleftrightarrow> count_of m hf > 0"
proof -
  have "hf \<in> set (tcm_keys m) \<longleftrightarrow> (\<exists>c. bt_get m (hf_hash hf) = Some c \<and> counter c (hf_format hf) > 0)"
    using bt.in_entries_iff [OF assms, of "hf_hash hf"] by (simp add: set_tcm_keys)
  moreover have "counter c f > 0 \<longleftrightarrow> unat (counter c f) > 0" for c f
    by (simp add: word_less_nat_alt)
  ultimately show ?thesis by (cases "bt_get m (hf_hash hf)") simp_all
qed

interpretation tcm: tag_counter tcm_ok tcm_inc tcm_dec tcm_keys tcm_live
proof (unfold_locales, goal_cases)
  case (1 m v m')
  have m': "tcm_ok m'" using 1 by (rule tcm_inc_Some(1))
  have ok: "bt_ok m" "bt_ok m'" using 1 m' by (simp_all add: tcm_ok_def)
  have "tcm_live m' = add_mset v (tcm_live m)"
    by (rule multiset_eqI) (simp add: count_tcm_live ok tcm_inc_Some(2) [OF 1])
  with m' show ?case by simp
next
  case (2 m v)
  have m': "tcm_ok (tcm_dec m v)" using 2 by (rule bt_get_tcm_dec(1))
  have ok: "bt_ok m" "bt_ok (tcm_dec m v)" using 2 m' by (simp_all add: tcm_ok_def)
  have "tcm_live (tcm_dec m v) = tcm_live m - {#v#}"
    by (rule multiset_eqI) (simp add: count_tcm_live ok bt_get_tcm_dec(2) [OF 2])
  with m' show ?case by simp
next
  case (3 m)
  then have ok: "bt_ok m" by (simp add: tcm_ok_def)
  have "hf \<in> set (tcm_keys m) \<longleftrightarrow> hf \<in># tcm_live m" for hf
    unfolding tcm_keys_count [OF ok] count_tcm_live [OF ok, symmetric] by simp
  then show ?case by blast
qed

lemma tcm_ok_Nil [simp]: "tcm_ok []"
  by (simp add: tcm_ok_def)

lemma tcm_live_Nil [simp]: "tcm_live [] = {#}"
  by (simp add: tcm_live_def)

section \<open>Scopes\<close>

definition tt_ok :: "temp_tags \<Rightarrow> bool" where
  "tt_ok t \<longleftrightarrow> bt_ok (tt_scopes t) \<and>
     (\<forall>s s' a. (s, a) \<in> set (tt_scopes t) \<longrightarrow> (s', a) \<in> set (tt_scopes t) \<longrightarrow> s = s') \<and>
     (\<forall>s a. (s, a) \<in> set (tt_scopes t) \<longrightarrow> a < tt_next_addr t) \<and> (\<forall>a. tcm_ok (tt_heap t a))"

lemma in_tt_list:
  "hf \<in> set (tt_list t) \<longleftrightarrow> (\<exists>s a. (s, a) \<in> set (tt_scopes t) \<and> hf \<in># tcm_live (tt_heap t a))"
  if "tt_ok t"
proof -
  have "set (tcm_keys (tt_heap t a)) = set_mset (tcm_live (tt_heap t a))" for a
    using that by (intro tcm.set_keys) (simp add: tt_ok_def)
  then show ?thesis by (auto simp: tt_list_def scope_list_def)
qed

lemma tt_ok_default [simp]: "tt_ok temp_tags_default"
  by (simp add: tt_ok_def temp_tags_default_def)

lemma set_bt_insert_iff:
  assumes "bt_ok m"
  shows "(k, v) \<in> set (bt_insert k' v' m) \<longleftrightarrow> (if k = k' then v = v' else (k, v) \<in> set m)"
  using bt.in_entries_iff [OF bt_ok_insert [OF assms], of k v k' v'] bt.in_entries_iff [OF assms, of k v]
  by (auto simp: bt_get_insert [OF assms])

text \<open>The object of a scope, made if necessary: no content is added or lost.\<close>

lemma scope_or_default_ok:
  assumes "tt_ok t" "scope_or_default t s = (a, t')"
  shows "tt_ok t' \<and> (s, a) \<in> set (tt_scopes t') \<and> set (tt_list t') = set (tt_list t)"
proof (cases "bt_get (tt_scopes t) s")
  case (Some b)
  then have "t' = t" "a = b" "(s, b) \<in> set (tt_scopes t)"
    using assms(2) by (auto simp: scope_or_default_def dest: bt_get_Some_in)
  with assms(1) show ?thesis by simp
next
  case None
  have ok: "bt_ok (tt_scopes t)" using assms(1) by (simp add: tt_ok_def)
  have new: "(k, v) \<in> set (tt_scopes t) \<Longrightarrow> k \<noteq> s" for k v
    using None bt.in_entries_iff [OF ok, of k v] by auto
  have t': "a = tt_next_addr t" "t' = t\<lparr>tt_scopes := bt_insert s a (tt_scopes t),
      tt_heap := (tt_heap t)(a := []), tt_next_addr := Suc a\<rparr>"
    using assms(2) None by (auto simp: scope_or_default_def)
  have sc: "(k, v) \<in> set (tt_scopes t') \<longleftrightarrow> (k = s \<and> v = a) \<or> (k, v) \<in> set (tt_scopes t)" for k v
    using new by (auto simp: t'(2) set_bt_insert_iff [OF ok])
  have fresh: "(k, v) \<in> set (tt_scopes t) \<Longrightarrow> v < a" for k v
    using assms(1) by (auto simp: tt_ok_def t'(1))
  have "tt_ok t'"
    unfolding tt_ok_def
  proof (intro conjI allI impI)
    show "bt_ok (tt_scopes t')" using bt_ok_insert [OF ok] by (simp add: t'(2))
    fix k k' v assume "(k, v) \<in> set (tt_scopes t')" "(k', v) \<in> set (tt_scopes t')"
    moreover have "(k, v) \<in> set (tt_scopes t) \<Longrightarrow> (k', v) \<in> set (tt_scopes t) \<Longrightarrow> k = k'"
      using assms(1) unfolding tt_ok_def by blast
    ultimately show "k = k'"
      using sc [of k v] sc [of k' v] fresh [of k v] fresh [of k' v] by auto
  next
    fix k v assume "(k, v) \<in> set (tt_scopes t')"
    then show "v < tt_next_addr t'" using sc fresh by (auto simp: t'(2) less_Suc_eq)
  next
    fix v show "tcm_ok (tt_heap t' v)" using assms(1) by (simp add: t'(2) tt_ok_def)
  qed
  moreover have "hf \<in> set (tt_list t') \<longleftrightarrow> hf \<in> set (tt_list t)" for hf
  proof -
    have "tt_heap t' a = []" "\<And>v. v \<noteq> a \<Longrightarrow> tt_heap t' v = tt_heap t v" by (simp_all add: t'(2))
    then have "(\<exists>k v. (k, v) \<in> set (tt_scopes t') \<and> hf \<in># tcm_live (tt_heap t' v)) \<longleftrightarrow>
      (\<exists>k v. (k, v) \<in> set (tt_scopes t) \<and> hf \<in># tcm_live (tt_heap t v))"
      unfolding sc by (metis empty_iff fresh less_irrefl set_mset_empty tcm_live_Nil)
    then show ?thesis unfolding in_tt_list [OF \<open>tt_ok t'\<close>] in_tt_list [OF assms(1)] .
  qed
  ultimately show ?thesis using sc by auto
qed


lemma scope_temp_tag_ok:
  assumes "tt_ok t" "(s, a) \<in> set (tt_scopes t)" "scope_temp_tag t a hf = Some (tag, t')"
  shows "tt_ok t' \<and> set (tt_list t') = insert hf (set (tt_list t)) \<and>
    tag = \<lparr>tag_inner = hf, tag_on_drop = Some a\<rparr> \<and> tt_scopes t' = tt_scopes t \<and>
    tt_heap t' = (tt_heap t)(a := tt_heap t' a) \<and> tcm_live (tt_heap t' a) = add_mset hf (tcm_live (tt_heap t a))"
proof -
  obtain m where m: "tcm_inc (tt_heap t a) hf = Some m"
    and t': "tag = \<lparr>tag_inner = hf, tag_on_drop = Some a\<rparr>" "t' = t\<lparr>tt_heap := (tt_heap t)(a := m)\<rparr>"
    using assms(3) by (auto simp: scope_temp_tag_def split: option.splits)
  have "tcm_ok (tt_heap t a)" using assms(1) by (simp add: tt_ok_def)
  from tcm.inc_Some [OF this m] have live: "tcm_ok m" "tcm_live m = add_mset hf (tcm_live (tt_heap t a))"
    by simp_all
  have ok: "tt_ok t'" using assms(1) live(1) by (auto simp: tt_ok_def t'(2))
  have "v \<in> set (tt_list t') \<longleftrightarrow> v = hf \<or> v \<in> set (tt_list t)" for v
    using in_tt_list [OF ok, of v] in_tt_list [OF assms(1), of v] assms(2) live(2)
    by (auto simp: t'(2) split: if_splits)
  with ok t' live show ?thesis by auto
qed

lemma scope_on_drop_ok:
  assumes "tt_ok t"
  shows "tt_ok (scope_on_drop t a hf) \<and>
    tcm_live (tt_heap (scope_on_drop t a hf) a) = tcm_live (tt_heap t a) - {#hf#}"
proof -
  have "tcm_ok (tt_heap t a)" using assms by (simp add: tt_ok_def)
  from tcm.dec [OF this, of hf] assms show ?thesis by (auto simp: tt_ok_def scope_on_drop_def)
qed

lemma tt_ok_end_scope: "tt_ok t \<Longrightarrow> tt_ok (end_scope t s)"
  by (auto simp: tt_ok_def end_scope_def bt_remove_def bt_ok_filter)

lemma tt_ok_create:
  assumes "tt_ok t" "tt_create t s hf = Some (tag, t')"
  shows "tt_ok t'"
proof -
  obtain a t1 where t1: "scope_or_default t s = (a, t1)" "scope_temp_tag t1 a hf = Some (tag, t')"
    using assms(2) by (auto simp: tt_create_def split: prod.splits)
  with scope_or_default_ok [OF assms(1) t1(1)] scope_temp_tag_ok [OF _ _ t1(2)] show ?thesis by blast
qed

lemma tt_ok_create_scope:
  assumes "tt_ok t" "create_scope t = ((i, a), t')"
  shows "tt_ok t'"
proof -
  have "tt_ok (t\<lparr>tt_next_scope := n\<rparr>)" for n using assms(1) by (simp add: tt_ok_def)
  with assms(2) scope_or_default_ok show ?thesis
    by (force simp: create_scope_def Let_def split: prod.splits)
qed

lemma tt_ok_drop: "tt_ok t \<Longrightarrow> tt_ok (drop_temp_tag t tag)"
  using scope_on_drop_ok by (auto simp: drop_temp_tag_def split: option.split)

lemma tt_list_same:
  assumes "tt_ok t" "tt_ok t'" "tt_scopes t' = tt_scopes t"
    and "\<And>s a. (s, a) \<in> set (tt_scopes t) \<Longrightarrow> tcm_live (tt_heap t' a) = tcm_live (tt_heap t a)"
  shows "set (tt_list t') = set (tt_list t)"
proof (rule set_eqI)
  fix x
  show "x \<in> set (tt_list t') \<longleftrightarrow> x \<in> set (tt_list t)"
    unfolding in_tt_list [OF assms(1)] in_tt_list [OF assms(2)] assms(3) using assms(4) by metis
qed

section \<open>Properties\<close>

text \<open>
  The counter map implements a multiset of live temporary tags: after any sequence of
  creations and drops that does not panic, the listed contents are exactly those with more
  creations than (effective) drops; a drop without a matching creation changes nothing.
\<close>

theorem temp_counters_refine_multiset:
  assumes "run_counter tcm_inc tcm_dec [] ops = Some m"
  shows "(hf \<in> set (tcm_keys m) \<longleftrightarrow> hf \<in># counter_spec {#} ops) \<and>
    (tcm_contains m hf \<longleftrightarrow> hf \<in># counter_spec {#} ops)"
proof -
  have *: "hf \<in> set (tcm_keys m) \<longleftrightarrow> hf \<in># counter_spec {#} ops"
    using tcm.protected_iff [OF tcm_ok_Nil assms] by simp
  have "bt_ok m" using tcm.run_spec [OF tcm_ok_Nil assms] by (simp add: tcm_ok_def)
  then have "tcm_contains m hf \<longleftrightarrow> hf \<in> set (tcm_keys m)"
    by (simp add: tcm_keys_count tcm_contains_def word_less_nat_alt split: option.split)
  with * show ?thesis by simp
qed

theorem temp_counters_refine_multiset_witness:
  "hf_raw hash_empty \<notin> set (tcm_keys (tcm_dec (the (tcm_inc [] (hf_raw hash_empty))) (hf_raw hash_empty))) \<and>
   tcm_inc [] (hf_raw hash_empty) \<noteq> None"
proof -
  have one: "checked_add_u64 0 1 = Some 1" by (simp add: checked_add_u64_def)
  have inc: "tcm_inc [] (hf_raw hash_empty) = Some [(hash_empty, \<lparr>tc_raw = 1, tc_hash_seq = 0\<rparr>)]"
    by (simp add: tcm_inc_def tc_inc_def hf_raw_def tc_default_def counter_def counter_mut_def one)
  then have "run_counter tcm_inc tcm_dec [] [Inl (hf_raw hash_empty), Inr (hf_raw hash_empty)] =
    Some (tcm_dec (the (tcm_inc [] (hf_raw hash_empty))) (hf_raw hash_empty))" by simp
  from temp_counters_refine_multiset [OF this, of "hf_raw hash_empty"] inc show ?thesis by simp
qed

text \<open>
  C31. The life of a temporary tag: creating a tag protects its content and nothing else, dropping
  it takes exactly this protection back, a leaked tag protects for ever, and ending the scope
  removes what only this scope protects, after which dropping the tag has no effect.
\<close>

theorem temp_tag_lifecycle:
  assumes "tt_ok t" "tt_create t s hf = Some (tag, t')"
  shows "tt_ok t' \<and> set (tt_list t') = insert hf (set (tt_list t)) \<and>
    set (tt_list (drop_temp_tag t' tag)) = set (tt_list t) \<and>
    drop_temp_tag t' (leak tag) = t' \<and>
    set (tt_list (end_scope t' s)) \<subseteq> set (tt_list t) \<and>
    drop_temp_tag (end_scope t' s) tag = end_scope t' s"
proof -
  obtain a t1 where t1: "scope_or_default t s = (a, t1)" "scope_temp_tag t1 a hf = Some (tag, t')"
    using assms(2) by (auto simp: tt_create_def split: prod.splits)
  note sd = scope_or_default_ok [OF assms(1) t1(1)]
  then have ok1: "tt_ok t1" and sa: "(s, a) \<in> set (tt_scopes t1)" and l1: "set (tt_list t1) = set (tt_list t)"
    by simp_all
  note st = scope_temp_tag_ok [OF ok1 sa t1(2)]
  then have ok': "tt_ok t'" and sc: "tt_scopes t' = tt_scopes t1"
    and tag: "tag = \<lparr>tag_inner = hf, tag_on_drop = Some a\<rparr>"
    and heap: "tt_heap t' = (tt_heap t1)(a := tt_heap t' a)"
    and live: "tcm_live (tt_heap t' a) = add_mset hf (tcm_live (tt_heap t1 a))" by simp_all
  have only: "(s', a) \<in> set (tt_scopes t') \<Longrightarrow> s' = s" for s'
    using ok' sa sc unfolding tt_ok_def by metis
  have "set (tt_list (drop_temp_tag t' tag)) = set (tt_list t)"
  proof -
    have d: "drop_temp_tag t' tag = scope_on_drop t' a hf"
      using sa sc by (force simp: drop_temp_tag_def tag)
    note od = scope_on_drop_ok [OF ok', of a hf]
    have "set (tt_list (scope_on_drop t' a hf)) = set (tt_list t1)"
    proof (rule tt_list_same [OF ok1])
      show "tt_ok (scope_on_drop t' a hf)" using od by simp
      show "tt_scopes (scope_on_drop t' a hf) = tt_scopes t1" by (simp add: scope_on_drop_def sc)
      fix s' b
      show "tcm_live (tt_heap (scope_on_drop t' a hf) b) = tcm_live (tt_heap t1 b)"
      proof (cases "b = a")
        case True
        with od live show ?thesis by simp
      next
        case False
        then have "tt_heap (scope_on_drop t' a hf) b = tt_heap t' b" by (simp add: scope_on_drop_def)
        with False heap show ?thesis by (metis fun_upd_other)
      qed
    qed
    with d l1 show ?thesis by simp
  qed
  moreover have "set (tt_list (end_scope t' s)) \<subseteq> set (tt_list t)"
  proof
    fix v assume "v \<in> set (tt_list (end_scope t' s))"
    then obtain s' b where b: "(s', b) \<in> set (tt_scopes (end_scope t' s))" "v \<in># tcm_live (tt_heap t' b)"
      using in_tt_list [OF tt_ok_end_scope [OF ok'], of v s] by (auto simp: end_scope_def)
    then have "(s', b) \<in> set (tt_scopes t1)" "s' \<noteq> s" by (auto simp: end_scope_def bt_remove_def sc)
    moreover from this have "b \<noteq> a" using only sc by metis
    ultimately show "v \<in> set (tt_list t)"
      using b(2) in_tt_list [OF ok1, of v] l1 heap by (metis fun_upd_other)
  qed
  moreover have "drop_temp_tag (end_scope t' s) tag = end_scope t' s"
    using only by (force simp: drop_temp_tag_def tag end_scope_def bt_remove_def)
  moreover have "drop_temp_tag t' (leak tag) = t'" by (simp add: drop_temp_tag_def leak_def)
  ultimately show ?thesis using st l1 by simp
qed

theorem temp_tag_lifecycle_witness:
  "\<exists>tag t'. tt_create temp_tags_default 7 (hf_raw hash_empty) = Some (tag, t') \<and>
     hf_raw hash_empty \<in> set (tt_list t') \<and> tt_list (drop_temp_tag t' tag) = []"
proof -
  have one: "checked_add_u64 0 1 = Some 1" by (simp add: checked_add_u64_def)
  have "tt_create temp_tags_default 7 (hf_raw hash_empty) \<noteq> None"
    by (simp add: tt_create_def scope_or_default_def temp_tags_default_def scope_temp_tag_def
        tcm_inc_def tc_inc_def hf_raw_def tc_default_def counter_def one)
  then obtain tag t' where c: "tt_create temp_tags_default 7 (hf_raw hash_empty) = Some (tag, t')" by auto
  moreover have "tt_list temp_tags_default = []" by (simp add: tt_list_def temp_tags_default_def)
  ultimately show ?thesis
    using temp_tag_lifecycle [OF tt_ok_default c] by auto
qed

end
