(* ===== verification/Mem_Store.thy ===== *)
theory Mem_Store
  imports Mem_Storage Tags Temp_Tag
begin

text \<open>
  The actor of the memory store, \<open>src/store/mem.rs\<close>. Entries are shared objects
  (\<open>BaoFileHandle\<close>, an \<open>Arc\<close>): \<open>ms_heap\<close> holds them by address, so that a task that was started
  on an entry keeps working on it when the entry is deleted from the table and created again.
  Channels are numbers; what is sent on them is the output of a step. The messages a request
  stream will deliver are part of the command that opens it; a task takes them one at a time, in
  any interleaving with the other tasks and the actor.
\<close>

section \<open>Messages\<close>

text \<open>A receiving stream: \<open>Inl ()\<close> is an error of \<open>recv\<close>; at the end of the list it returns \<open>None\<close>.\<close>

type_synonym 'a rx = "(unit + 'a) list"

text \<open>
  The sending half of a progress channel: what was sent, and how many more messages it takes
  until the receiver is closed (\<open>None\<close>: it stays open).
\<close>

record 'a sender =
  tx_sent :: "'a list"
  tx_left :: "nat option"

definition send :: "'a sender \<Rightarrow> 'a \<Rightarrow> ('a sender) option" where
  "send tx x =
     (case tx_left tx of
        None \<Rightarrow> Some (tx\<lparr>tx_sent := tx_sent tx @ [x]\<rparr>)
      | Some 0 \<Rightarrow> None
      | Some (Suc n) \<Rightarrow> Some (tx\<lparr>tx_sent := tx_sent tx @ [x], tx_left := Some n\<rparr>))"

datatype add_progress_item =
    CopyProgress u64 | Size u64 | CopyDone | OutboardProgress u64 | Done temp_tag | AddError io_error

datatype import_byte_stream_update = Bytes bytes | StreamDone

datatype export_ranges_item = RangesSize u64 | RangesData u64 bytes | RangesError io_error

datatype batch_response = Drop hash_and_format | Ping

datatype blob_status = NotFound | PartialBlob "u64 option" | CompleteBlob u64

datatype encoded_item =
    EncSize u64 | EncParent u64 hash hash | EncLeaf u64 bytes | EncError io_error | EncDone

datatype export_progress_item =
    ExportSize u64 | ExportCopyProgress u64 | ExportDone | ExportError io_error

record import_entry =
  ie_scope :: scope
  ie_format :: blob_format
  ie_data :: bytes
  ie_outboard :: bytes
  ie_root :: hash
  ie_tx :: "add_progress_item sender"

datatype import_error = SendFailed | StreamEnded | StreamFailed | ReadFailed io_error

text \<open>
  What an export to a path meets in the file system: whether the target is absolute, and the
  results of creating the directories of its parent, of creating the file and of each write.
\<close>

record export_target =
  et_absolute :: bool
  et_create_dir :: "io_error option"
  et_create :: "io_error option"
  et_write :: "nat \<Rightarrow> io_error option"

section \<open>Imports\<close>

definition import_bytes ::
  "io_ops \<Rightarrow> bytes \<Rightarrow> scope \<Rightarrow> blob_format \<Rightarrow> add_progress_item sender \<Rightarrow> import_error + import_entry" where
  "import_bytes Io data scp format tx =
     (case send tx (Size (of_nat (length data))) of
        None \<Rightarrow> Inl SendFailed
      | Some tx \<Rightarrow>
          (case send tx CopyDone of
             None \<Rightarrow> Inl SendFailed
           | Some tx \<Rightarrow>
               Inr \<lparr>ie_scope = scp, ie_format = format, ie_data = data,
                    ie_outboard = io_outboard Io data, ie_root = io_root Io data, ie_tx = tx\<rparr>))"

fun import_byte_stream_loop ::
  "io_ops \<Rightarrow> bytes \<Rightarrow> scope \<Rightarrow> blob_format \<Rightarrow> import_byte_stream_update rx \<Rightarrow> add_progress_item sender \<Rightarrow>
   import_error + import_entry" where
  "import_byte_stream_loop Io res scp format [] tx = Inl StreamEnded"
| "import_byte_stream_loop Io res scp format (Inl () # rx) tx = Inl StreamFailed"
| "import_byte_stream_loop Io res scp format (Inr StreamDone # rx) tx = import_bytes Io res scp format tx"
| "import_byte_stream_loop Io res scp format (Inr (Bytes data) # rx) tx =
     (let res = res @ data in
      case send tx (CopyProgress (of_nat (length res))) of
        None \<Rightarrow> Inl SendFailed
      | Some tx \<Rightarrow> import_byte_stream_loop Io res scp format rx tx)"

definition import_byte_stream ::
  "io_ops \<Rightarrow> scope \<Rightarrow> blob_format \<Rightarrow> import_byte_stream_update rx \<Rightarrow> add_progress_item sender \<Rightarrow>
   import_error + import_entry" where
  "import_byte_stream Io scp format rx tx = import_byte_stream_loop Io [] scp format rx tx"

text \<open>
  Reading a file: the results of the successive \<open>read\<close> calls; a read of no bytes is the end of
  the file, and so is the end of the list.
\<close>

fun import_path_loop ::
  "io_ops \<Rightarrow> bytes \<Rightarrow> scope \<Rightarrow> blob_format \<Rightarrow> (io_error + bytes) list \<Rightarrow> add_progress_item sender \<Rightarrow>
   import_error + import_entry" where
  "import_path_loop Io res scp format [] tx = import_bytes Io res scp format tx"
| "import_path_loop Io res scp format (Inl e # reads) tx = Inl (ReadFailed e)"
| "import_path_loop Io res scp format (Inr buf # reads) tx =
     (if buf = [] then import_bytes Io res scp format tx
      else let res = res @ buf in
           case send tx (CopyProgress (of_nat (length res))) of
             None \<Rightarrow> Inl SendFailed
           | Some tx \<Rightarrow> import_path_loop Io res scp format reads tx)"

text \<open>\<open>opened\<close> is the result of \<open>File::open\<close>: an error, or the reads that follow.\<close>

definition import_path ::
  "io_ops \<Rightarrow> (io_error + (io_error + bytes) list) \<Rightarrow> scope \<Rightarrow> blob_format \<Rightarrow> add_progress_item sender \<Rightarrow>
   import_error + import_entry" where
  "import_path Io opened scp format tx =
     (case opened of
        Inl e \<Rightarrow> Inl (ReadFailed e)
      | Inr reads \<Rightarrow> import_path_loop Io [] scp format reads tx)"

section \<open>Exports\<close>

definition export_ranges ::
  "'r range_ops \<Rightarrow> 'r chunk_ops \<Rightarrow> io_ops \<Rightarrow> 'r \<Rightarrow> 'r bao_file_storage option \<Rightarrow> export_ranges_item list option" where
  "export_ranges R B Io ranges entry =
     (case entry of
        None \<Rightarrow> Some [RangesError NotFoundIo]
      | Some st \<Rightarrow>
          (case export_ranges_impl R B Io ranges st of
             None \<Rightarrow> None
           | Some (leaves, None) \<Rightarrow> Some (map (\<lambda>(off, data). RangesData off data) leaves)
           | Some (leaves, Some cause) \<Rightarrow>
               Some (map (\<lambda>(off, data). RangesData off data) leaves @ [RangesError cause])))"

text \<open>\<open>OutboardReader::load\<close>: a short read is an error.\<close>

definition outboard_load :: "io_ops \<Rightarrow> u64 \<Rightarrow> bytes \<Rightarrow> u64 \<Rightarrow> io_error + (bytes \<times> bytes) option" where
  "outboard_load Io sz outboard node =
     (case io_pre_order_offset Io sz node of
        None \<Rightarrow> Inr None
      | Some offset \<Rightarrow>
          let buf = take 64 (drop (unat (offset * 64)) outboard) in
          if length buf \<noteq> 64 then Inl UnexpectedEof
          else Inr (Some (take 32 buf, drop 32 buf)))"

text \<open>
  \<open>export_bao\<close>: \<open>traverse\<close> stands for \<open>traverse_ranges_validated\<close> of \<open>bao-tree\<close>; it gets the data,
  the reader of the outboard, the root and the ranges.
\<close>

type_synonym 'r traverse =
  "bytes \<Rightarrow> (u64 \<Rightarrow> io_error + (bytes \<times> bytes) option) \<Rightarrow> hash \<Rightarrow> 'r \<Rightarrow> encoded_item list"

definition export_bao ::
  "io_ops \<Rightarrow> 'r traverse \<Rightarrow> 'r \<Rightarrow> (hash \<times> 'r bao_file_storage) option \<Rightarrow> encoded_item list" where
  "export_bao Io traverse ranges entry =
     (case entry of
        None \<Rightarrow> [EncError NotFoundIo]
      | Some (h, st) \<Rightarrow>
          traverse (storage_data st) (outboard_load Io (storage_size st) (storage_outboard st)) h ranges)"

text \<open>
  \<open>export_path_impl\<close>: the content of the file, the channel and the result. The loop reads 64 KiB at
  each offset of \<open>(0..size).step_by(65536)\<close>; \<open>k\<close> counts the writes.
\<close>

fun export_path_loop ::
  "io_ops \<Rightarrow> export_target \<Rightarrow> bytes \<Rightarrow> u64 \<Rightarrow> u64 list \<Rightarrow> nat \<Rightarrow> bytes \<Rightarrow> export_progress_item sender \<Rightarrow>
   bytes \<times> export_progress_item sender \<times> io_error option" where
  "export_path_loop Io target data sz [] k file tx = (file, tx, None)"
| "export_path_loop Io target data sz (offset # offsets) k file tx =
     (let len = min (sz - offset) 65536 in
      case io_read Io data offset len of
        Inl e \<Rightarrow> (file, tx, Some e)
      | Inr buf \<Rightarrow>
          (case et_write target k of
             Some e \<Rightarrow> (file, tx, Some e)
           | None \<Rightarrow>
               let file = file @ buf in
               case send tx (ExportCopyProgress offset) of
                 None \<Rightarrow> (file, tx, Some OtherIo)
               | Some tx \<Rightarrow> export_path_loop Io target data sz offsets (Suc k) file tx))"

definition step_offsets :: "u64 \<Rightarrow> u64 list" where
  "step_offsets sz = map (\<lambda>i. of_nat (65536 * i)) [0..<(unat sz + 65535) div 65536]"

definition export_path_impl ::
  "io_ops \<Rightarrow> export_target \<Rightarrow> 'r bao_file_storage \<Rightarrow> export_progress_item sender \<Rightarrow>
   bytes \<times> export_progress_item sender \<times> io_error option" where
  "export_path_impl Io target st tx =
     (if \<not> et_absolute target then ([], tx, Some InvalidInput)
      else case et_create_dir target of
        Some e \<Rightarrow> ([], tx, Some e)
      | None \<Rightarrow>
          (case et_create target of
             Some e \<Rightarrow> ([], tx, Some e)
           | None \<Rightarrow>
               let sz = storage_size st in
               case send tx (ExportSize sz) of
                 None \<Rightarrow> ([], tx, Some OtherIo)
               | Some tx \<Rightarrow> export_path_loop Io target (storage_data st) sz (step_offsets sz) 0 [] tx))"

text \<open>\<open>export_path\<close>: the file and what the channel carried; a send after the close is ignored.\<close>

definition send_ok :: "'a sender \<Rightarrow> 'a \<Rightarrow> 'a sender" where
  "send_ok tx x = (case send tx x of Some tx' \<Rightarrow> tx' | None \<Rightarrow> tx)"

definition export_path ::
  "io_ops \<Rightarrow> export_target \<Rightarrow> 'r bao_file_storage option \<Rightarrow> export_progress_item sender \<Rightarrow>
   bytes \<times> export_progress_item sender" where
  "export_path Io target entry tx =
     (case entry of
        None \<Rightarrow> ([], send_ok tx (ExportError NotFoundIo))
      | Some st \<Rightarrow>
          (case export_path_impl Io target st tx of
             (file, tx, None) \<Rightarrow> (file, send_ok tx ExportDone)
           | (file, tx, Some e) \<Rightarrow> (file, send_ok tx (ExportError e))))"

section \<open>The actor\<close>

record 'r handle =
  bh_state :: "'r bao_file_storage"
  bh_hash :: hash

datatype 'r reply =
    RUnit | ROk | RTagError tag_error | RTags "tag_info list" | RTag tag
  | RTempTag temp_tag | RTempTags "hash_and_format list" | RHash hash | RStatus blob_status
  | RBitfield "'r bitfield" | RScope scope | RRanges "export_ranges_item list"
  | REncoded "encoded_item list" | RExport bytes "export_progress_item list" | RAdd "add_progress_item list"

type_synonym tx = nat
type_synonym 'r outputs = "(tx \<times> 'r reply) list"

text \<open>The futures that \<open>spawn\<close> puts into the \<open>JoinSet\<close>, and their results.\<close>

datatype 'r task =
    TImportBaoStart tx nat u64 "bao_content_item rx"
  | TImportBao tx nat u64 "bao_content_item rx"
  | TObserve tx nat "nat option"
  | TImportBytes tx bytes scope blob_format "add_progress_item sender"
  | TImportByteStream tx scope blob_format "import_byte_stream_update rx" "add_progress_item sender"
  | TImportPath tx "io_error + (io_error + bytes) list" scope blob_format "add_progress_item sender"
  | TExportBao tx "nat option" 'r
  | TExportPath tx "nat option" export_target "export_progress_item sender"
  | TListBlobs tx "hash list"
  | TBatchStart tx bool scope nat "batch_response rx"
  | TBatch scope nat "batch_response rx"
  | TExportRanges tx "nat option" 'r

datatype task_result = UnitResult | ImportResult tx "import_error + import_entry" | ScopeResult scope

record 'r mem_state =
  ms_heap :: "nat \<Rightarrow> 'r handle"
  ms_next :: nat
  ms_data :: "(hash, nat) btree"
  ms_tags :: "(tag, hash_and_format) btree"
  ms_empty_hash :: nat
  ms_temp_tags :: temp_tags
  ms_protected :: "hash list"
  ms_idle_waiters :: "tx list"
  ms_tasks :: "'r task list"

datatype 'r command =
    CImportBao tx hash u64 "bao_content_item rx"
  | CWaitIdle tx
  | CObserve tx hash "nat option"
  | CImportBytes tx bytes scope blob_format "add_progress_item sender"
  | CImportByteStream tx scope blob_format "import_byte_stream_update rx" "add_progress_item sender"
  | CImportPath tx "io_error + (io_error + bytes) list" scope blob_format "add_progress_item sender"
  | CExportBao tx hash 'r
  | CExportPath tx hash export_target "export_progress_item sender"
  | CDeleteTags tx delete_tags_request
  | CRenameTag tx tag tag
  | CListTags tx list_tags_request
  | CSetTag tx tag hash_and_format
  | CCreateTag tx bytes hash_and_format
  | CCreateTempTag tx bool scope hash_and_format
  | CListTempTags tx
  | CListBlobs tx
  | CBlobStatus tx hash
  | CDeleteBlobs tx "hash list" bool
  | CBatch tx bool "batch_response rx"
  | CClearProtected tx
  | CExportRanges tx hash 'r
  | CSyncDb tx
  | CShutdown tx

definition mem_store_new :: "'r range_ops \<Rightarrow> 'r mem_state" where
  "mem_store_new R =
     \<lparr>ms_heap = (\<lambda>_. \<lparr>bh_state = new_partial R, bh_hash = hash_empty\<rparr>), ms_next = 1, ms_data = [],
      ms_tags = [], ms_empty_hash = 0, ms_temp_tags = temp_tags_default, ms_protected = [],
      ms_idle_waiters = [], ms_tasks = []\<rparr>"

definition spawn :: "'r task \<Rightarrow> 'r mem_state \<Rightarrow> 'r mem_state" where
  "spawn t s = s\<lparr>ms_tasks := ms_tasks s @ [t]\<rparr>"

definition mem_get :: "'r mem_state \<Rightarrow> hash \<Rightarrow> nat option" where
  "mem_get s h = (if h = hash_empty then Some (ms_empty_hash s) else bt_get (ms_data s) h)"

definition get_or_create_entry :: "'r range_ops \<Rightarrow> hash \<Rightarrow> 'r mem_state \<Rightarrow> nat \<times> 'r mem_state" where
  "get_or_create_entry R h s =
     (if h = hash_empty then (ms_empty_hash s, s)
      else case bt_get (ms_data s) h of
             Some a \<Rightarrow> (a, s)
           | None \<Rightarrow>
               (ms_next s,
                s\<lparr>ms_heap := (ms_heap s)(ms_next s := \<lparr>bh_state = new_partial R, bh_hash = h\<rparr>),
                  ms_next := Suc (ms_next s),
                  ms_data := bt_insert h (ms_next s) (ms_data s)\<rparr>))"

definition set_handle_state :: "nat \<Rightarrow> 'r bao_file_storage \<Rightarrow> 'r mem_state \<Rightarrow> 'r mem_state" where
  "set_handle_state a st s = s\<lparr>ms_heap := (ms_heap s)(a := (ms_heap s a)\<lparr>bh_state := st\<rparr>)\<rparr>"

definition handle_delete_tags :: "delete_tags_request \<Rightarrow> 'r mem_state \<Rightarrow> 'r mem_state" where
  "handle_delete_tags req s =
     s\<lparr>ms_tags := bt_retain (\<lambda>tag _.
        (case dt_from req of Some from \<Rightarrow> tag < from | None \<Rightarrow> False) \<or>
        (case dt_to req of Some to \<Rightarrow> tag \<ge> to | None \<Rightarrow> False)) (ms_tags s)\<rparr>"

definition handle_rename_tag :: "tag \<Rightarrow> tag \<Rightarrow> 'r mem_state \<Rightarrow> tag_error + 'r mem_state" where
  "handle_rename_tag from to s =
     (case bt_get (ms_tags s) from of
        None \<Rightarrow> Inl TagNotFound
      | Some value \<Rightarrow> Inr (s\<lparr>ms_tags := bt_insert to value (bt_remove from (ms_tags s))\<rparr>))"

definition handle_list_tags :: "list_tags_request \<Rightarrow> 'r mem_state \<Rightarrow> tag_info list" where
  "handle_list_tags req s =
     map (\<lambda>(tag, value). \<lparr>ti_name = tag, ti_format = hf_format value, ti_hash = hf_hash value\<rparr>)
       (filter (\<lambda>(tag, value).
          \<not> (case lt_from req of Some from \<Rightarrow> tag < from | None \<Rightarrow> False) \<and>
          \<not> (case lt_to req of Some to \<Rightarrow> tag \<ge> to | None \<Rightarrow> False) \<and>
          (lt_raw req \<and> is_raw (hf_format value) \<or> lt_hash_seq req \<and> is_hash_seq (hf_format value)))
        (ms_tags s))"

definition handle_set_tag :: "tag \<Rightarrow> hash_and_format \<Rightarrow> 'r mem_state \<Rightarrow> 'r mem_state" where
  "handle_set_tag tag value s = s\<lparr>ms_tags := bt_insert tag value (ms_tags s)\<rparr>"

definition handle_create_tag :: "bytes \<Rightarrow> hash_and_format \<Rightarrow> 'r mem_state \<Rightarrow> (tag \<times> 'r mem_state) option" where
  "handle_create_tag stamp value s =
     (case auto_tag stamp (\<lambda>tag. bt_get (ms_tags s) tag \<noteq> None) of
        None \<Rightarrow> None
      | Some tag \<Rightarrow> Some (tag, s\<lparr>ms_tags := bt_insert tag value (ms_tags s)\<rparr>))"

text \<open>\<open>None\<close> is the panic of an overflowing counter.\<close>

definition create_temp_tag :: "bool \<Rightarrow> scope \<Rightarrow> hash_and_format \<Rightarrow> 'r mem_state \<Rightarrow> (temp_tag \<times> 'r mem_state) option" where
  "create_temp_tag is_rpc scp value s =
     (case tt_create (ms_temp_tags s) scp value of
        None \<Rightarrow> None
      | Some (tt, t) \<Rightarrow> Some (if is_rpc then leak tt else tt, s\<lparr>ms_temp_tags := t\<rparr>))"

definition handle_blob_status :: "'r range_ops \<Rightarrow> 'r chunk_ops \<Rightarrow> hash \<Rightarrow> 'r mem_state \<Rightarrow> blob_status" where
  "handle_blob_status R B h s =
     (case mem_get s h of
        None \<Rightarrow> NotFound
      | Some x \<Rightarrow>
          let bitfield = storage_bitfield R (bh_state (ms_heap s x)) in
          if is_complete R B bitfield then CompleteBlob (bf_size bitfield)
          else PartialBlob (validated_size R B bitfield))"

fun handle_delete_blobs :: "hash list \<Rightarrow> bool \<Rightarrow> 'r mem_state \<Rightarrow> 'r mem_state" where
  "handle_delete_blobs [] force s = s"
| "handle_delete_blobs (h # hs) force s =
     (if \<not> force \<and> h \<in> set (ms_protected s) then handle_delete_blobs hs force s
      else handle_delete_blobs hs force (s\<lparr>ms_data := bt_remove h (ms_data s)\<rparr>))"

definition handle_batch_start :: "tx \<Rightarrow> bool \<Rightarrow> batch_response rx \<Rightarrow> 'r mem_state \<Rightarrow> 'r mem_state" where
  "handle_batch_start tx open rx s =
     (let ((i, scp), t) = create_scope (ms_temp_tags s)
      in spawn (TBatchStart tx open i scp rx) (s\<lparr>ms_temp_tags := t\<rparr>))"

definition handle_wait_idle :: "tx \<Rightarrow> 'r mem_state \<Rightarrow> 'r mem_state \<times> 'r outputs" where
  "handle_wait_idle tx s =
     (if ms_tasks s = [] then (s, [(tx, RUnit)])
      else (s\<lparr>ms_idle_waiters := ms_idle_waiters s @ [tx]\<rparr>, []))"

text \<open>
  \<open>handle_command\<close>: the new state, what is sent, and the channel of a shutdown request. \<open>None\<close> if
  the actor panics or does not return.
\<close>

fun handle_command ::
  "'r range_ops \<Rightarrow> 'r chunk_ops \<Rightarrow> 'r command \<Rightarrow> 'r mem_state \<Rightarrow>
   ('r mem_state \<times> 'r outputs \<times> tx option) option" where
  "handle_command R B (CImportBao tx h sz rx) s =
     (let (entry, s) = get_or_create_entry R h s in Some (spawn (TImportBaoStart tx entry sz rx) s, [], None))"
| "handle_command R B (CWaitIdle tx) s = (let (s, out) = handle_wait_idle tx s in Some (s, out, None))"
| "handle_command R B (CObserve tx h n) s =
     (let (entry, s) = get_or_create_entry R h s in Some (spawn (TObserve tx entry n) s, [], None))"
| "handle_command R B (CImportBytes tx data scp format px) s =
     Some (spawn (TImportBytes tx data scp format px) s, [], None)"
| "handle_command R B (CImportByteStream tx scp format rx px) s =
     Some (spawn (TImportByteStream tx scp format rx px) s, [], None)"
| "handle_command R B (CImportPath tx opened scp format px) s =
     Some (spawn (TImportPath tx opened scp format px) s, [], None)"
| "handle_command R B (CExportBao tx h ranges) s = Some (spawn (TExportBao tx (mem_get s h) ranges) s, [], None)"
| "handle_command R B (CExportPath tx h target px) s =
     Some (spawn (TExportPath tx (mem_get s h) target px) s, [], None)"
| "handle_command R B (CDeleteTags tx req) s = Some (handle_delete_tags req s, [(tx, ROk)], None)"
| "handle_command R B (CRenameTag tx from to) s =
     (case handle_rename_tag from to s of
        Inl e \<Rightarrow> Some (s, [(tx, RTagError e)], None)
      | Inr s \<Rightarrow> Some (s, [(tx, ROk)], None))"
| "handle_command R B (CListTags tx req) s = Some (s, [(tx, RTags (handle_list_tags req s))], None)"
| "handle_command R B (CSetTag tx tag value) s = Some (handle_set_tag tag value s, [(tx, ROk)], None)"
| "handle_command R B (CCreateTag tx stamp value) s =
     (case handle_create_tag stamp value s of None \<Rightarrow> None | Some (tag, s) \<Rightarrow> Some (s, [(tx, RTag tag)], None))"
| "handle_command R B (CCreateTempTag tx is_rpc scp value) s =
     (case create_temp_tag is_rpc scp value s of None \<Rightarrow> None | Some (tt, s) \<Rightarrow> Some (s, [(tx, RTempTag tt)], None))"
| "handle_command R B (CListTempTags tx) s = Some (s, [(tx, RTempTags (tt_list (ms_temp_tags s)))], None)"
| "handle_command R B (CListBlobs tx) s = Some (spawn (TListBlobs tx (map fst (ms_data s))) s, [], None)"
| "handle_command R B (CBlobStatus tx h) s = Some (s, [(tx, RStatus (handle_blob_status R B h s))], None)"
| "handle_command R B (CDeleteBlobs tx hs force) s = Some (handle_delete_blobs hs force s, [(tx, ROk)], None)"
| "handle_command R B (CBatch tx open rx) s = Some (handle_batch_start tx open rx s, [], None)"
| "handle_command R B (CClearProtected tx) s = Some (s\<lparr>ms_protected := []\<rparr>, [(tx, ROk)], None)"
| "handle_command R B (CExportRanges tx h ranges) s =
     Some (spawn (TExportRanges tx (mem_get s h) ranges) s, [], None)"
| "handle_command R B (CSyncDb tx) s = Some (s, [(tx, ROk)], None)"
| "handle_command R B (CShutdown tx) s = Some (s, [], Some tx)"

section \<open>Tasks\<close>

text \<open>
  What is left in an entry when completing it panics: the files have been taken out of it and the
  bitfield is the new one.
\<close>

definition import_bao_panic ::
  "'r range_ops \<Rightarrow> 'r chunk_ops \<Rightarrow> io_ops \<Rightarrow> u64 \<Rightarrow> bao_content_item \<Rightarrow> 'r bao_file_storage \<Rightarrow> 'r bao_file_storage" where
  "import_bao_panic R B Io sz item st =
     (case (st, item) of
        (Partial partial, Leaf offset data) \<Rightarrow>
          (case sparse_write_at R Io (ps_data partial) offset data of
             Inl _ \<Rightarrow> st
           | Inr _ \<Rightarrow>
               Partial (partial\<lparr>ps_data := sparse_new R, ps_outboard := sparse_new R,
                 ps_bitfield := snd (bf_update R B (ps_bitfield partial)
                   (bf_new R B (chunk_range R B offset data) sz))\<rparr>))
      | _ \<Rightarrow> st)"

text \<open>
  One step of a task: the new state, what it sends, and the rest of the task (\<open>Inl\<close>) or its
  result as \<open>join_next\<close> returns it (\<open>Inr\<close>; \<open>Inl ()\<close> for a panic). \<open>None\<close> if it does not return.
  An export reads its entry in one step, while the source awaits between the leaves that it sends: a
  complete entry stays as it is meanwhile, and a partial one only gains bytes.
\<close>

fun poll_task ::
  "'r range_ops \<Rightarrow> 'r chunk_ops \<Rightarrow> io_ops \<Rightarrow> 'r traverse \<Rightarrow> 'r task \<Rightarrow> 'r mem_state \<Rightarrow>
   ('r mem_state \<times> 'r outputs \<times> ('r task + (unit + task_result))) option" where
  "poll_task R B Io tr (TImportBaoStart tx a sz rx) s =
     Some (set_handle_state a (import_bao_start sz (bh_state (ms_heap s a))) s, [], Inl (TImportBao tx a sz rx))"
| "poll_task R B Io tr (TImportBao tx a sz []) s = Some (s, [(tx, ROk)], Inr (Inr UnitResult))"
| "poll_task R B Io tr (TImportBao tx a sz (Inl () # rx)) s = Some (s, [], Inr (Inl ()))"
| "poll_task R B Io tr (TImportBao tx a sz (Inr item # rx)) s =
     (let st = bh_state (ms_heap s a) in
      case import_bao_item R B Io sz item st of
        None \<Rightarrow> Some (set_handle_state a (import_bao_panic R B Io sz item st) s, [], Inr (Inl ()))
      | Some (st', _) \<Rightarrow> Some (set_handle_state a st' s, [], Inl (TImportBao tx a sz rx)))"
| "poll_task R B Io tr (TObserve tx a (Some 0)) s = Some (s, [], Inr (Inr UnitResult))"
| "poll_task R B Io tr (TObserve tx a (Some (Suc n))) s =
     Some (s, [(tx, RBitfield (storage_bitfield R (bh_state (ms_heap s a))))], Inl (TObserve tx a (Some n)))"
| "poll_task R B Io tr (TObserve tx a None) s =
     Some (s, [(tx, RBitfield (storage_bitfield R (bh_state (ms_heap s a))))], Inl (TObserve tx a None))"
| "poll_task R B Io tr (TImportBytes tx data scp format px) s =
     Some (s, [], Inr (Inr (ImportResult tx (import_bytes Io data scp format px))))"
| "poll_task R B Io tr (TImportByteStream tx scp format rx px) s =
     Some (s, [], Inr (Inr (ImportResult tx (import_byte_stream Io scp format rx px))))"
| "poll_task R B Io tr (TImportPath tx opened scp format px) s =
     Some (s, [], Inr (Inr (ImportResult tx (import_path Io opened scp format px))))"
| "poll_task R B Io tr (TExportBao tx entry ranges) s =
     Some (s, [(tx, REncoded (export_bao Io tr ranges
        (map_option (\<lambda>a. (bh_hash (ms_heap s a), bh_state (ms_heap s a))) entry)))], Inr (Inr UnitResult))"
| "poll_task R B Io tr (TExportPath tx entry target px) s =
     (let (file, px) = export_path Io target (map_option (\<lambda>a. bh_state (ms_heap s a)) entry) px
      in Some (s, [(tx, RExport file (tx_sent px))], Inr (Inr UnitResult)))"
| "poll_task R B Io tr (TListBlobs tx blobs) s = Some (s, map (\<lambda>h. (tx, RHash h)) blobs, Inr (Inr UnitResult))"
| "poll_task R B Io tr (TBatchStart tx open i a rx) s =
     (if open then Some (s, [(tx, RScope i)], Inl (TBatch i a rx))
      else Some (s, [], Inr (Inr (ScopeResult i))))"
| "poll_task R B Io tr (TBatch i a []) s = Some (s, [], Inr (Inr (ScopeResult i)))"
| "poll_task R B Io tr (TBatch i a (Inl () # rx)) s = Some (s, [], Inr (Inr (ScopeResult i)))"
| "poll_task R B Io tr (TBatch i a (Inr (Drop hf) # rx)) s =
     Some (s\<lparr>ms_temp_tags := scope_on_drop (ms_temp_tags s) a hf\<rparr>, [], Inl (TBatch i a rx))"
| "poll_task R B Io tr (TBatch i a (Inr Ping # rx)) s = Some (s, [], Inl (TBatch i a rx))"
| "poll_task R B Io tr (TExportRanges tx entry ranges) s =
     (case export_ranges R B Io ranges (map_option (\<lambda>a. bh_state (ms_heap s a)) entry) of
        None \<Rightarrow> None
      | Some items \<Rightarrow> Some (s, [(tx, RRanges items)], Inr (Inr UnitResult)))"

text \<open>\<open>finish_import\<close>: \<open>None\<close> is the panic of an overflowing counter.\<close>

definition finish_import ::
  "'r range_ops \<Rightarrow> tx \<Rightarrow> import_error + import_entry \<Rightarrow> 'r mem_state \<Rightarrow> ('r mem_state \<times> 'r outputs) option" where
  "finish_import R tx res s =
     (case res of
        Inl _ \<Rightarrow> Some (s, [])
      | Inr import_data \<Rightarrow>
          let h = ie_root import_data;
              (entry, s) = get_or_create_entry R h s;
              s = (case bh_state (ms_heap s entry) of
                     Complete _ _ \<Rightarrow> s
                   | Partial _ \<Rightarrow> set_handle_state entry (Complete (ie_data import_data) (ie_outboard import_data)) s)
          in case tt_create (ms_temp_tags s) (ie_scope import_data) (hf_new h (ie_format import_data)) of
               None \<Rightarrow> None
             | Some (tt, t) \<Rightarrow>
                 Some (s\<lparr>ms_temp_tags := t\<rparr>, [(tx, RAdd (tx_sent (send_ok (ie_tx import_data) (Done tt))))]))"

text \<open>The second arm of the loop of \<open>run\<close>, for the result of a task that has left the \<open>JoinSet\<close>.\<close>

definition handle_task_result ::
  "'r range_ops \<Rightarrow> unit + task_result \<Rightarrow> 'r mem_state \<Rightarrow> ('r mem_state \<times> 'r outputs) option" where
  "handle_task_result R res s =
     (case res of
        Inl _ \<Rightarrow> Some (s, [])
      | Inr r \<Rightarrow>
          (case (case r of
                   ImportResult tx res \<Rightarrow> finish_import R tx res s
                 | ScopeResult scp \<Rightarrow> Some (s\<lparr>ms_temp_tags := end_scope (ms_temp_tags s) scp\<rparr>, [])
                 | UnitResult \<Rightarrow> Some (s, [])) of
             None \<Rightarrow> None
           | Some (s, out) \<Rightarrow>
               if ms_tasks s = []
               then Some (s\<lparr>ms_idle_waiters := []\<rparr>, out @ map (\<lambda>tx. (tx, RUnit)) (ms_idle_waiters s))
               else Some (s, out)))"

text \<open>The task at position \<open>i\<close> makes a step; if it ends, it leaves the set and its result is handled.\<close>

definition remove_nth :: "nat \<Rightarrow> 'a list \<Rightarrow> 'a list" where
  "remove_nth i xs = take i xs @ drop (Suc i) xs"

definition run_task ::
  "'r range_ops \<Rightarrow> 'r chunk_ops \<Rightarrow> io_ops \<Rightarrow> 'r traverse \<Rightarrow> nat \<Rightarrow> 'r mem_state \<Rightarrow> ('r mem_state \<times> 'r outputs) option" where
  "run_task R B Io tr i s =
     (if length (ms_tasks s) \<le> i then None
      else case poll_task R B Io tr (ms_tasks s ! i) s of
             None \<Rightarrow> None
           | Some (s, out, Inl t) \<Rightarrow> Some (s\<lparr>ms_tasks := (ms_tasks s)[i := t]\<rparr>, out)
           | Some (s, out, Inr res) \<Rightarrow>
               (case handle_task_result R res (s\<lparr>ms_tasks := remove_nth i (ms_tasks s)\<rparr>) of
                  None \<Rightarrow> None
                | Some (s, out') \<Rightarrow> Some (s, out @ out')))"

text \<open>The loop of \<open>run\<close>: what it does next is decided by the environment.\<close>

datatype 'r event = Cmd "'r command" | Task nat | DropTag temp_tag

fun actor_event ::
  "'r range_ops \<Rightarrow> 'r chunk_ops \<Rightarrow> io_ops \<Rightarrow> 'r traverse \<Rightarrow> 'r event \<Rightarrow> 'r mem_state \<Rightarrow>
   ('r mem_state \<times> 'r outputs) option" where
  "actor_event R B Io tr (Cmd c) s =
     (case handle_command R B c s of Some (s, out, None) \<Rightarrow> Some (s, out) | _ \<Rightarrow> None)"
| "actor_event R B Io tr (Task i) s = run_task R B Io tr i s"
| "actor_event R B Io tr (DropTag tag) s = Some (s\<lparr>ms_temp_tags := drop_temp_tag (ms_temp_tags s) tag\<rparr>, [])"

fun actor_run ::
  "'r range_ops \<Rightarrow> 'r chunk_ops \<Rightarrow> io_ops \<Rightarrow> 'r traverse \<Rightarrow> 'r event list \<Rightarrow> 'r mem_state \<Rightarrow>
   ('r mem_state \<times> 'r outputs) option" where
  "actor_run R B Io tr [] s = Some (s, [])"
| "actor_run R B Io tr (e # es) s =
     (case actor_event R B Io tr e s of
        None \<Rightarrow> None
      | Some (s, out) \<Rightarrow>
          (case actor_run R B Io tr es s of None \<Rightarrow> None | Some (s, out') \<Rightarrow> Some (s, out @ out')))"

text \<open>
  The states the actor reaches from a new store, under a condition \<open>ok\<close> on the events and the
  states they happen in.
\<close>

inductive mem_reachable ::
  "'r range_ops \<Rightarrow> 'r chunk_ops \<Rightarrow> io_ops \<Rightarrow> 'r traverse \<Rightarrow> ('r event \<Rightarrow> 'r mem_state \<Rightarrow> bool) \<Rightarrow>
   'r mem_state \<Rightarrow> bool"
  for R B Io tr ok where
  new: "mem_reachable R B Io tr ok (mem_store_new R)"
| step: "mem_reachable R B Io tr ok s \<Longrightarrow> ok e s \<Longrightarrow> actor_event R B Io tr e s = Some (s', out) \<Longrightarrow>
    mem_reachable R B Io tr ok s'"

section \<open>The table of tags\<close>

definition mem_tag_ops :: "'r mem_state tag_ops" where
  "mem_tag_ops =
     \<lparr>to_list = (\<lambda>s req. handle_list_tags req s), to_set = (\<lambda>s n v. handle_set_tag n v s),
      to_delete = (\<lambda>s req. handle_delete_tags req s), to_rename = (\<lambda>s from to. handle_rename_tag from to s),
      to_create = (\<lambda>s stamp v. handle_create_tag stamp v s)\<rparr>"

abbreviation mem_tags_ok :: "'r mem_state \<Rightarrow> bool" where
  "mem_tags_ok s \<equiv> bt_ok (ms_tags s)"

lemma bt_ok_remove: "bt_ok m \<Longrightarrow> bt_ok (bt_remove k m)"
  by (simp add: bt_remove_def bt_ok_filter)

lemma sorted_map_filter:
  "sorted_wrt (<) (map f xs) \<Longrightarrow> sorted_wrt (<) (map f (filter P xs))" for f :: "'a \<Rightarrow> 'b :: order"
  by (induction xs) auto

lemma in_tag_range_alt:
  "in_tag_range from to n \<longleftrightarrow>
    \<not> (case from of Some f \<Rightarrow> n < f | None \<Rightarrow> False) \<and> \<not> (case to of Some t \<Rightarrow> n \<ge> t | None \<Rightarrow> False)"
  by (auto simp: in_tag_range_def split: option.split)

lemma in_handle_list_tags:
  assumes "bt_ok (ms_tags s)"
  shows "i \<in> set (handle_list_tags r s) \<longleftrightarrow>
    bt_get (ms_tags s) (ti_name i) = Some (hash_and_format_of i) \<and>
    in_tag_range (lt_from r) (lt_to r) (ti_name i) \<and> wants_format r (ti_format i)"
proof -
  have "i \<in> set (handle_list_tags r s) \<longleftrightarrow>
    (\<exists>t v. (t, v) \<in> set (ms_tags s) \<and> in_tag_range (lt_from r) (lt_to r) t \<and> wants_format r (hf_format v) \<and>
      i = tag_info_new t v)"
    by (force simp: handle_list_tags_def in_tag_range_alt wants_format_def tag_info_new_def image_iff)
  also have "\<dots> \<longleftrightarrow> bt_get (ms_tags s) (ti_name i) = Some (hash_and_format_of i) \<and>
    in_tag_range (lt_from r) (lt_to r) (ti_name i) \<and> wants_format r (ti_format i)"
    unfolding bt.in_entries_iff [OF assms]
    by (cases i) (auto simp: tag_info_new_def hash_and_format_of_def)
  finally show ?thesis .
qed

lemma handle_list_tags_sorted: "bt_ok (ms_tags s) \<Longrightarrow> sorted_wrt (<) (map ti_name (handle_list_tags r s))"
  by (simp add: handle_list_tags_def comp_def split_def sorted_map_filter)

lemma handle_create_tag_fresh:
  assumes "bt_ok (ms_tags s)"
  shows "\<exists>t s'. handle_create_tag stamp v s = Some (t, s') \<and> bt_get (ms_tags s) t = None \<and>
    s' = s\<lparr>ms_tags := bt_insert t v (ms_tags s)\<rparr>"
proof -
  have "finite {t. bt_get (ms_tags s) t \<noteq> None}"
    using bt.finite_dom_get [OF assms] by (simp add: dom_def)
  from auto_tag_fresh [OF this, of stamp] show ?thesis by (auto simp: handle_create_tag_def)
qed

interpretation mtag: tag_store mem_tag_ops mem_tags_ok "\<lambda>s. bt_get (ms_tags s)"
proof
  fix s :: "'r mem_state" and n v d "from" to r i stamp
  assume ok: "mem_tags_ok s"
  show "finite (dom (bt_get (ms_tags s)))" using bt.finite_dom_get [OF ok] .
  show "mem_tags_ok (to_set mem_tag_ops s n v) \<and>
      bt_get (ms_tags (to_set mem_tag_ops s n v)) = (bt_get (ms_tags s))(n \<mapsto> v)"
    using ok by (simp add: mem_tag_ops_def handle_set_tag_def bt_ok_insert bt_get_insert)
  show "mem_tags_ok (to_delete mem_tag_ops s d) \<and>
      bt_get (ms_tags (to_delete mem_tag_ops s d)) =
      (\<lambda>n. if in_tag_range (dt_from d) (dt_to d) n then None else bt_get (ms_tags s) n)"
    using ok by (auto simp: mem_tag_ops_def handle_delete_tags_def bt_get_retain in_tag_range_alt bt_ok_retain
        fun_eq_iff split: option.split)
  show "to_rename mem_tag_ops s from to = Inl TagNotFound" if "bt_get (ms_tags s) from = None"
    using that by (simp add: mem_tag_ops_def handle_rename_tag_def)
  show "\<exists>s'. to_rename mem_tag_ops s from to = Inr s' \<and> mem_tags_ok s' \<and>
      bt_get (ms_tags s') = ((bt_get (ms_tags s))(from := None))(to \<mapsto> v)"
    if "bt_get (ms_tags s) from = Some v"
    using that ok
    by (simp add: mem_tag_ops_def handle_rename_tag_def bt_ok_insert bt_get_insert bt_get_remove bt_ok_remove)
  show "sorted_wrt (<) (map ti_name (to_list mem_tag_ops s r))"
    using handle_list_tags_sorted [OF ok] by (simp add: mem_tag_ops_def)
  show "i \<in> set (to_list mem_tag_ops s r) \<longleftrightarrow>
      bt_get (ms_tags s) (ti_name i) = Some (hash_and_format_of i) \<and>
      in_tag_range (lt_from r) (lt_to r) (ti_name i) \<and> wants_format r (ti_format i)"
    using in_handle_list_tags [OF ok] by (simp add: mem_tag_ops_def)
  show "\<exists>t s'. to_create mem_tag_ops s stamp v = Some (t, s') \<and> mem_tags_ok s' \<and>
      bt_get (ms_tags s) t = None \<and> bt_get (ms_tags s') = (bt_get (ms_tags s))(t \<mapsto> v)"
    using handle_create_tag_fresh [OF ok, of stamp v] ok
    by (auto simp: mem_tag_ops_def bt_ok_insert bt_get_insert)
qed

section \<open>Frames\<close>

lemma get_or_create_entry_frame:
  assumes "get_or_create_entry R h s = (a, s')"
  shows "ms_tasks s' = ms_tasks s" "ms_idle_waiters s' = ms_idle_waiters s" "ms_tags s' = ms_tags s"
    "ms_temp_tags s' = ms_temp_tags s" "ms_protected s' = ms_protected s" "ms_empty_hash s' = ms_empty_hash s"
  using assms by (auto simp: get_or_create_entry_def split: if_splits option.splits)

lemma handle_delete_blobs_frame:
  "handle_delete_blobs hs force s = s\<lparr>ms_data := ms_data (handle_delete_blobs hs force s)\<rparr>"
  by (induction hs force s rule: handle_delete_blobs.induct) (simp, (simp split: if_splits)?)

lemma poll_task_frame:
  assumes "poll_task R B Io tr t s = Some (s', out, r)"
  shows "ms_tasks s' = ms_tasks s" "ms_idle_waiters s' = ms_idle_waiters s" "ms_tags s' = ms_tags s"
    "ms_data s' = ms_data s" "ms_protected s' = ms_protected s" "ms_empty_hash s' = ms_empty_hash s"
    "ms_next s' = ms_next s"
  using assms
  by (cases "(R, B, Io, tr, t, s)" rule: poll_task.cases;
      auto simp: set_handle_state_def Let_def split: if_splits option.splits prod.splits)+

lemma finish_import_frame:
  assumes "finish_import R tx res s = Some (s', out)"
  shows "ms_tasks s' = ms_tasks s" "ms_idle_waiters s' = ms_idle_waiters s" "ms_tags s' = ms_tags s"
    "ms_protected s' = ms_protected s" "ms_empty_hash s' = ms_empty_hash s"
  using assms get_or_create_entry_frame [of R]
  by (auto simp: finish_import_def set_handle_state_def Let_def
      split: sum.splits option.splits prod.splits bao_file_storage.splits)

section \<open>Properties of the tags\<close>

text \<open>
  The tags of the memory store behave as a table, through the client interface: a tag is read
  back after it was set, deleting a name or a range removes exactly these names, renaming moves
  the value (also over an existing tag) or fails if there is no such tag, and creating a tag picks
  a name that was free; no operation changes another tag.
\<close>

theorem mem_tags_table:
  assumes "mem_tags_ok s"
  shows "tags_get mem_tag_ops (tags_set mem_tag_ops s n v) m =
      (if m = n then Some (tag_info_new n v) else tags_get mem_tag_ops s m) \<and>
    tags_get mem_tag_ops (tags_delete_range mem_tag_ops s a b) m =
      (if (case a of Included x \<Rightarrow> x \<le> m | Excluded x \<Rightarrow> x < m | Unbounded \<Rightarrow> True) \<and>
          (case b of Included y \<Rightarrow> m \<le> y | Excluded y \<Rightarrow> m < y | Unbounded \<Rightarrow> True)
       then None else tags_get mem_tag_ops s m) \<and>
    (case tags_get mem_tag_ops s n of
        None \<Rightarrow> tags_rename mem_tag_ops s n k = Inl TagNotFound
      | Some i \<Rightarrow> \<exists>s'. tags_rename mem_tag_ops s n k = Inr s' \<and> mem_tags_ok s' \<and>
          tags_get mem_tag_ops s' k = Some (i\<lparr>ti_name := k\<rparr>) \<and>
          (\<forall>m. m \<noteq> k \<longrightarrow> tags_get mem_tag_ops s' m = (if m = n then None else tags_get mem_tag_ops s m))) \<and>
    (\<exists>t s'. tags_create mem_tag_ops s stamp v = Some (t, s') \<and> mem_tags_ok s' \<and>
      tags_get mem_tag_ops s t = None \<and>
      (\<forall>m. tags_get mem_tag_ops s' m = (if m = t then Some (tag_info_new t v) else tags_get mem_tag_ops s m)))"
proof (intro conjI)
  show "case tags_get mem_tag_ops s n of
        None \<Rightarrow> tags_rename mem_tag_ops s n k = Inl TagNotFound
      | Some i \<Rightarrow> \<exists>s'. tags_rename mem_tag_ops s n k = Inr s' \<and> mem_tags_ok s' \<and>
          tags_get mem_tag_ops s' k = Some (i\<lparr>ti_name := k\<rparr>) \<and>
          (\<forall>m. m \<noteq> k \<longrightarrow> tags_get mem_tag_ops s' m = (if m = n then None else tags_get mem_tag_ops s m))"
    using mtag.get_rename [OF assms, of n _ k] mtag.rename_not_found [OF assms, of n k]
    by (cases "tags_get mem_tag_ops s n") simp_all
qed (rule mtag.get_set [OF assms] mtag.get_delete_range [OF assms] mtag.get_create [OF assms])+

theorem mem_tags_table_witness:
  "tags_get mem_tag_ops (tags_set mem_tag_ops (mem_store_new ref_ops) [1] (hf_raw hash_empty)) [1] =
     Some (tag_info_new [1] (hf_raw hash_empty))"
proof -
  have "mem_tags_ok (mem_store_new ref_ops)" by (simp add: mem_store_new_def)
  from mem_tags_table [OF this, of "[1]" "hf_raw hash_empty" "[1]", THEN conjunct1] show ?thesis by simp
qed

text \<open>
  Listing by a prefix returns every tag whose name starts with the prefix, in the order of
  their names, and, if the prefix does not end in a byte 255 (or consists of these only), no
  other tag.
\<close>

theorem mem_list_prefix:
  assumes "mem_tags_ok s"
  shows "sorted_wrt (<) (map ti_name (tags_list_prefix mem_tag_ops s p)) \<and>
    (tags_get mem_tag_ops s (p @ y) = Some i \<longrightarrow> i \<in> set (tags_list_prefix mem_tag_ops s p)) \<and>
    (p = [] \<or> last p \<noteq> 255 \<or> (\<forall>b\<in>set p. b = 255) \<longrightarrow>
      (\<forall>i\<in>set (tags_list_prefix mem_tag_ops s p). \<exists>y. ti_name i = p @ y))"
  using mtag.list_prefix_complete [OF assms, of p y i] mtag.list_prefix_sound [OF assms, of p]
    mtag.list_sorted [OF assms, of "list_prefix p"]
  by (simp add: tags_list_prefix_def)

theorem mem_list_prefix_witness:
  "\<exists>s. mem_tags_ok (s :: (u64 list) mem_state) \<and>
     tag_info_new [1, 7] (hf_raw hash_empty) \<in> set (tags_list_prefix mem_tag_ops s [1])"
proof -
  let ?s = "(undefined :: (u64 list) mem_state)\<lparr>ms_tags := [([1, 7], hf_raw hash_empty)]\<rparr>"
  have ok: "mem_tags_ok ?s" by simp
  have "tags_get mem_tag_ops ?s ([1] @ [7]) = Some (tag_info_new [1, 7] (hf_raw hash_empty))"
    using mtag.get_tags_of [OF ok, of "[1, 7]"] by (simp add: bt_get_def)
  with mem_list_prefix [OF ok, of "[1]" "[7]"] ok show ?thesis by blast
qed

text \<open>
  For a prefix that ends in the byte 255 the upper end of the range is too large:
  \<open>next_prefix\<close> turns the bytes 1, 255 into 2, 0 where it should be 2, so that listing or deleting
  this prefix also takes the tag with the name 2.
\<close>

theorem prefix_takes_another_tag:
  "\<not> (\<exists>y. [2 :: u8] = [1, 255] @ y) \<and>
   tags_list_prefix mem_tag_ops (s\<lparr>ms_tags := [([2], v)]\<rparr>) [1, 255] = [tag_info_new [2] v] \<and>
   ms_tags (tags_delete_prefix mem_tag_ops (s\<lparr>ms_tags := [([2], v)]\<rparr>) [1, 255]) = []"
proof -
  have nx: "tag_next_prefix [1, 255] = Some [2, 0]"
    by (simp add: tag_next_prefix_def next_prefix_def)
  have "[1, 255] \<le> [2 :: u8]" "[2] < [2, 0 :: u8]" by simp_all
  then show ?thesis
    by (cases "hf_format v")
      (simp_all add: tags_list_prefix_def list_prefix_def mem_tag_ops_def handle_list_tags_def nx
        tags_delete_prefix_def delete_prefix_def handle_delete_tags_def bt_retain_def tag_info_new_def)
qed

end
