(* ===== verification/Hash_Seq.thy ===== *)
theory Hash_Seq
  imports Mem_Store
begin

text \<open>
  Sequences of hashes (\<open>src/hashseq.rs\<close>), the pieces of them that arrive as leaves of a verified
  stream (\<open>HashSeqChunk\<close> of \<open>src/api/remote.rs\<close>), and what a client does with the stream of an
  export (\<open>ExportBaoProgress\<close> and \<open>ExportRangesProgress\<close> of \<open>src/api/blobs.rs\<close>).
\<close>

section \<open>Sequences of hashes\<close>

text \<open>A \<open>HashSeq\<close> is a byte string; \<open>hash_seq_new\<close> admits only multiples of 32 bytes.\<close>

type_synonym hash_seq = bytes

fun chunks_exact :: "bytes \<Rightarrow> bytes list" where
  "chunks_exact bs = (if length bs < 32 then [] else take 32 bs # chunks_exact (drop 32 bs))"

declare chunks_exact.simps [simp del]

definition hash_seq_from_iter :: "hash list \<Rightarrow> hash_seq" where
  "hash_seq_from_iter hs = fold (\<lambda>h bs. bs @ as_bytes h) hs []"

definition hash_seq_new :: "bytes \<Rightarrow> hash_seq option" where
  "hash_seq_new bs = (if length bs mod 32 = 0 then Some bs else None)"

definition hash_seq_iter :: "hash_seq \<Rightarrow> hash list" where
  "hash_seq_iter s = map from_bytes (chunks_exact s)"

definition hash_seq_len :: "hash_seq \<Rightarrow> nat" where
  "hash_seq_len s = length s div 32"

definition hash_seq_is_empty :: "hash_seq \<Rightarrow> bool" where
  "hash_seq_is_empty s = (s = [])"

definition hash_seq_get :: "hash_seq \<Rightarrow> nat \<Rightarrow> hash option" where
  "hash_seq_get s i =
     (if i < hash_seq_len s
      then Some (from_bytes (take ((i + 1) * 32 - i * 32) (drop (i * 32) s)))
      else None)"

text \<open>\<open>pop_front\<close> panics (outer \<open>None\<close>) on a sequence that is not empty but shorter than one hash.\<close>

definition hash_seq_pop_front :: "hash_seq \<Rightarrow> (hash option \<times> hash_seq) option" where
  "hash_seq_pop_front s =
     (if hash_seq_is_empty s then Some (None, s)
      else case hash_seq_get s 0 of
             None \<Rightarrow> None
           | Some h \<Rightarrow> Some (Some h, drop 32 s))"

text \<open>\<open>HashSeqIter\<close>: what \<open>next\<close> returns until it returns \<open>None\<close>.\<close>

fun hash_seq_drain :: "nat \<Rightarrow> hash_seq \<Rightarrow> (hash list) option" where
  "hash_seq_drain 0 s = None"
| "hash_seq_drain (Suc n) s =
     (case hash_seq_pop_front s of
        None \<Rightarrow> None
      | Some (None, _) \<Rightarrow> Some []
      | Some (Some h, s') \<Rightarrow> map_option ((#) h) (hash_seq_drain n s'))"

section \<open>Chunks of a hash sequence\<close>

record hash_seq_chunk =
  hsc_offset :: u64
  hsc_chunk :: hash_seq

definition chunk_try_from :: "u64 \<Rightarrow> bytes \<Rightarrow> hash_seq_chunk option" where
  "chunk_try_from off data =
     (case hash_seq_new data of
        None \<Rightarrow> None
      | Some c \<Rightarrow> Some \<lparr>hsc_offset = off, hsc_chunk = c\<rparr>)"

definition chunk_base :: "hash_seq_chunk \<Rightarrow> u64" where
  "chunk_base c = hsc_offset c div 32"

definition chunk_get :: "hash_seq_chunk \<Rightarrow> u64 \<Rightarrow> hash option" where
  "chunk_get c offset =
     (let start = hsc_offset c;
          end = start + of_nat (hash_seq_len (hsc_chunk c))
      in if offset \<ge> start \<and> offset < end
         then hash_seq_get (hsc_chunk c) (unat (offset - start))
         else None)"

section \<open>Streams of encoded items\<close>

datatype hashes_error = EncodeFailed io_error | InvalidHashSeq

fun hashes_with_index :: "encoded_item list \<Rightarrow> (hashes_error + u64 \<times> hash) list" where
  "hashes_with_index [] = []"
| "hashes_with_index (EncError e # items) = Inl (EncodeFailed e) # hashes_with_index items"
| "hashes_with_index (EncLeaf off data # items) =
     (case chunk_try_from off data of
        None \<Rightarrow> [Inl InvalidHashSeq]
      | Some sl \<Rightarrow>
          map (\<lambda>(i, h). Inr (chunk_base sl + of_nat i, h))
            (enumerate 0 (hash_seq_iter (hsc_chunk sl)))) @ hashes_with_index items"
| "hashes_with_index (EncSize _ # items) = hashes_with_index items"
| "hashes_with_index (EncParent _ _ _ # items) = hashes_with_index items"
| "hashes_with_index (EncDone # items) = hashes_with_index items"

definition hashes :: "encoded_item list \<Rightarrow> (hashes_error + hash) list" where
  "hashes items = map (\<lambda>x. case x of Inl e \<Rightarrow> Inl e | Inr (_, h) \<Rightarrow> Inr h) (hashes_with_index items)"

fun data_to_bytes_loop :: "bytes list \<Rightarrow> encoded_item list \<Rightarrow> io_error + bytes list" where
  "data_to_bytes_loop data [] = Inr data"
| "data_to_bytes_loop data (EncLeaf _ d # items) = data_to_bytes_loop (data @ [d]) items"
| "data_to_bytes_loop data (EncParent _ _ _ # items) = data_to_bytes_loop data items"
| "data_to_bytes_loop data (EncSize _ # items) = data_to_bytes_loop data items"
| "data_to_bytes_loop data (EncDone # items) = Inr data"
| "data_to_bytes_loop data (EncError e # items) = Inl e"

definition data_to_bytes :: "encoded_item list \<Rightarrow> io_error + bytes" where
  "data_to_bytes items =
     rbind (data_to_bytes_loop [] items)
       (\<lambda>data. Inr (if length data = 1 then last data else fold (\<lambda>d out. out @ d) data []))"

fun data_to_vec_loop :: "bytes \<Rightarrow> encoded_item list \<Rightarrow> io_error + bytes" where
  "data_to_vec_loop data [] = Inr data"
| "data_to_vec_loop data (EncLeaf _ d # items) = data_to_vec_loop (data @ d) items"
| "data_to_vec_loop data (EncParent _ _ _ # items) = data_to_vec_loop data items"
| "data_to_vec_loop data (EncSize _ # items) = data_to_vec_loop data items"
| "data_to_vec_loop data (EncDone # items) = Inr data"
| "data_to_vec_loop data (EncError e # items) = Inl e"

definition data_to_vec :: "encoded_item list \<Rightarrow> io_error + bytes" where
  "data_to_vec items = data_to_vec_loop [] items"

fun into_byte_stream :: "encoded_item list \<Rightarrow> (io_error + bytes) list" where
  "into_byte_stream [] = []"
| "into_byte_stream (EncSize sz # items) = Inr (to_le_bytes sz) # into_byte_stream items"
| "into_byte_stream (EncParent _ l r # items) = Inr (as_bytes l @ as_bytes r) # into_byte_stream items"
| "into_byte_stream (EncLeaf _ d # items) = Inr d # into_byte_stream items"
| "into_byte_stream (EncDone # items) = into_byte_stream items"
| "into_byte_stream (EncError e # items) = Inl e # into_byte_stream items"

fun collect_bytes :: "bytes \<Rightarrow> (io_error + bytes) list \<Rightarrow> io_error + bytes" where
  "collect_bytes data [] = Inr data"
| "collect_bytes data (Inl e # items) = Inl e"
| "collect_bytes data (Inr d # items) = collect_bytes (data @ d) items"

definition bao_to_vec :: "encoded_item list \<Rightarrow> io_error + bytes" where
  "bao_to_vec items = collect_bytes [] (into_byte_stream items)"

text \<open>\<open>write_quinn\<close>: what has been written and the error that ended it, if any.\<close>

fun write_quinn :: "bytes \<Rightarrow> encoded_item list \<Rightarrow> bytes \<times> io_error option" where
  "write_quinn out [] = (out, None)"
| "write_quinn out (EncSize sz # items) = write_quinn (out @ to_le_bytes sz) items"
| "write_quinn out (EncParent _ l r # items) = write_quinn (out @ as_bytes l @ as_bytes r) items"
| "write_quinn out (EncLeaf _ d # items) = write_quinn (out @ d) items"
| "write_quinn out (EncDone # items) = (out, None)"
| "write_quinn out (EncError e # items) = (out, Some e)"

section \<open>Streams of ranges\<close>

fun ranges_map :: "(u64, bytes) btree \<Rightarrow> export_ranges_item list \<Rightarrow> io_error + (u64, bytes) btree" where
  "ranges_map data [] = Inr data"
| "ranges_map data (RangesSize _ # items) = ranges_map data items"
| "ranges_map data (RangesData off d # items) = ranges_map (bt_insert off d data) items"
| "ranges_map data (RangesError e # items) = Inl e"

definition clip_leaf :: "u64 \<Rightarrow> u64 \<Rightarrow> u64 \<times> bytes \<Rightarrow> bytes" where
  "clip_leaf start end leaf =
     (let (offset, data) = leaf;
          cstart = offset;
          cend = offset + of_nat (length data)
      in if cstart \<ge> end \<or> cend \<le> start then []
         else let start = max start cstart;
                  end = min end cend
              in take (unat (end - cstart) - unat (start - cstart)) (drop (unat (start - cstart)) data))"

definition concatenate :: "'r range_ops \<Rightarrow> 'r \<Rightarrow> export_ranges_item list \<Rightarrow> io_error + bytes" where
  "concatenate R ranges items =
     rbind (ranges_map [] items) (\<lambda>data.
       Inr (concat (map (\<lambda>rng.
         let (start, end) = (case rng of RangeFrom s \<Rightarrow> (s, u64_max) | Range s e \<Rightarrow> (s, e)) in
         concat (map (clip_leaf start end) data)) (rs_iter R ranges))))"

section \<open>Lemmas\<close>

lemma fold_append_concat: "fold (\<lambda>x acc. acc @ f x) xs acc = acc @ concat (map f xs)"
  by (induction xs arbitrary: acc) simp_all

lemma hash_seq_from_iter_concat: "hash_seq_from_iter hs = concat (map as_bytes hs)"
  by (simp add: hash_seq_from_iter_def fold_append_concat)

lemma chunks_exact_Nil [simp]: "chunks_exact [] = []"
  by (simp add: chunks_exact.simps)

lemma chunks_exact_append: "length c = 32 \<Longrightarrow> chunks_exact (c @ bs) = c # chunks_exact bs"
  by (simp add: chunks_exact.simps [of "c @ bs"])

lemma chunks_exact_concat: "\<forall>c\<in>set cs. length c = 32 \<Longrightarrow> chunks_exact (concat cs) = cs"
  by (induction cs) (simp_all add: chunks_exact_append)

lemma chunks_exact_append_mod:
  "length as mod 32 = 0 \<Longrightarrow> chunks_exact (as @ bs) = chunks_exact as @ chunks_exact bs"
proof (induction as rule: chunks_exact.induct)
  case (1 as)
  show ?case
  proof (cases "as = []")
    case False
    then have len: "\<not> length as < 32" using "1.prems" by auto
    let ?t = "take 32 as" and ?d = "drop 32 as"
    have "length ?d mod 32 = 0" using "1.prems" len by (simp add: le_mod_geq not_less)
    then have "chunks_exact (?d @ bs) = chunks_exact ?d @ chunks_exact bs" using 1 len by simp
    then have "chunks_exact (?t @ ?d @ bs) = ?t # chunks_exact ?d @ chunks_exact bs"
      using len by (subst chunks_exact_append) simp_all
    moreover have "chunks_exact as = ?t # chunks_exact ?d" using len by (simp add: chunks_exact.simps [of as])
    ultimately show ?thesis by (metis append_Cons append_assoc append_take_drop_id)
  qed simp
qed

lemma length_chunks_exact: "length (chunks_exact bs) = length bs div 32"
proof (induction bs rule: chunks_exact.induct)
  case (1 bs)
  then show ?case by (subst chunks_exact.simps) (auto simp: le_div_geq)
qed

lemma nth_chunks_exact: "i < length bs div 32 \<Longrightarrow> chunks_exact bs ! i = take 32 (drop (i * 32) bs)"
proof (induction bs arbitrary: i rule: chunks_exact.induct)
  case (1 bs)
  then have len: "\<not> length bs < 32" by auto
  show ?case
  proof (cases i)
    case 0
    with len show ?thesis by (simp add: chunks_exact.simps [of bs])
  next
    case (Suc j)
    then have "j < length (drop 32 bs) div 32" using "1.prems" len by (simp add: le_div_geq not_less)
    from "1.IH" [OF len this] Suc len show ?thesis
      by (simp add: chunks_exact.simps [of bs] add.commute)
  qed
qed

lemma chunks_exact_32: "c \<in> set (chunks_exact bs) \<Longrightarrow> length c = 32"
proof (induction bs rule: chunks_exact.induct)
  case (1 bs)
  then show ?case by (cases "length bs < 32") (auto simp: chunks_exact.simps [of bs])
qed

lemma hash_seq_iter_from_iter [simp]: "hash_seq_iter (hash_seq_from_iter hs) = hs"
proof -
  have "chunks_exact (concat (map as_bytes hs)) = map as_bytes hs" by (rule chunks_exact_concat) simp
  then show ?thesis by (simp add: hash_seq_iter_def hash_seq_from_iter_concat map_idI)
qed

lemma length_hash_seq_from_iter: "length (hash_seq_from_iter hs) = 32 * length hs"
  by (simp add: hash_seq_from_iter_concat length_concat comp_def sum_list_triv)

lemma hash_seq_get_iter: "hash_seq_get s i = (if i < length (hash_seq_iter s) then Some (hash_seq_iter s ! i) else None)"
  by (simp add: hash_seq_get_def hash_seq_len_def hash_seq_iter_def length_chunks_exact nth_chunks_exact)

lemma hash_seq_pop_front_Cons:
  "hash_seq_pop_front (hash_seq_from_iter (h # hs)) = Some (Some h, hash_seq_from_iter hs)"
proof -
  have "hash_seq_from_iter (h # hs) \<noteq> []" using length_hash_seq_from_iter [of "h # hs"] by auto
  moreover have "drop 32 (hash_seq_from_iter (h # hs)) = hash_seq_from_iter hs"
    by (simp add: hash_seq_from_iter_concat)
  ultimately show ?thesis
    by (simp add: hash_seq_pop_front_def hash_seq_is_empty_def hash_seq_get_iter)
qed

lemma hash_seq_drain_iter:
  "length s mod 32 = 0 \<Longrightarrow> length s div 32 < n \<Longrightarrow> hash_seq_drain n s = Some (hash_seq_iter s)"
proof (induction n arbitrary: s)
  case (Suc n)
  show ?case
  proof (cases "s = []")
    case True
    then show ?thesis by (simp add: hash_seq_pop_front_def hash_seq_is_empty_def hash_seq_iter_def)
  next
    case False
    then have len: "32 \<le> length s" using Suc.prems(1) by (cases "length s < 32") auto
    then have "length (drop 32 s) mod 32 = 0" "length (drop 32 s) div 32 < n"
      using Suc.prems by (simp_all add: le_mod_geq le_div_geq)
    from Suc.IH [OF this] have "hash_seq_drain n (drop 32 s) = Some (hash_seq_iter (drop 32 s))" .
    moreover have "hash_seq_iter s = from_bytes (take 32 s) # hash_seq_iter (drop 32 s)"
      using len by (simp add: hash_seq_iter_def chunks_exact.simps [of s])
    moreover have "0 < length s div 32" using len by (simp add: div_greater_zero_iff)
    ultimately show ?thesis
      using False by (simp add: hash_seq_pop_front_def hash_seq_is_empty_def hash_seq_get_def hash_seq_len_def)
  qed
qed simp

text \<open>The leaves of a stream, and that they are the consecutive pieces of a blob.\<close>

fun leaves_of :: "encoded_item list \<Rightarrow> (u64 \<times> bytes) list" where
  "leaves_of [] = []"
| "leaves_of (EncLeaf off d # items) = (off, d) # leaves_of items"
| "leaves_of (_ # items) = leaves_of items"

fun consecutive :: "nat \<Rightarrow> (u64 \<times> bytes) list \<Rightarrow> bool" where
  "consecutive n [] = True"
| "consecutive n ((off, d) # ls) \<longleftrightarrow> unat off = n \<and> consecutive (n + length d) ls"

definition no_errors :: "encoded_item list \<Rightarrow> bool" where
  "no_errors items \<longleftrightarrow> (\<forall>e. EncError e \<notin> set items)"

lemma no_errors_simps [simp]:
  "no_errors []" "no_errors (x # items) \<longleftrightarrow> (\<forall>e. x \<noteq> EncError e) \<and> no_errors items"
  by (auto simp: no_errors_def)

lemma hash_seq_iter_append:
  "length a mod 32 = 0 \<Longrightarrow> hash_seq_iter (a @ b) = hash_seq_iter a @ hash_seq_iter b"
  by (simp add: hash_seq_iter_def chunks_exact_append_mod)

lemma hashes_with_index_from:
  assumes "no_errors items" "consecutive n (leaves_of items)" "n mod 32 = 0"
    and "\<forall>(off, d)\<in>set (leaves_of items). length d mod 32 = 0"
  shows "hashes_with_index items =
    map (\<lambda>(i, h). Inr (of_nat i, h)) (enumerate (n div 32) (hash_seq_iter (concat (map snd (leaves_of items)))))"
  using assms
proof (induction items arbitrary: n rule: hashes_with_index.induct)
  case (3 off d items)
  have off: "unat off = n" and d: "length d mod 32 = 0" using "3.prems" by auto
  have m: "(n + length d) mod 32 = 0" and dv: "(n + length d) div 32 = n div 32 + length d div 32"
    using d "3.prems"(3) by (simp_all add: div_add dvd_eq_mod_eq_0 mod_add_eq [symmetric])
  have "off div 32 = of_nat (n div 32)" using off by (simp add: word_arith_nat_div)
  then have base: "off div 32 + of_nat i = (of_nat (n div 32 + i) :: u64)" for i by simp
  have "hashes_with_index items = map (\<lambda>(i, h). Inr (of_nat i, h))
      (enumerate ((n + length d) div 32) (hash_seq_iter (concat (map snd (leaves_of items)))))"
    using "3.prems" m by (intro "3.IH") (auto simp: add.assoc)
  moreover have "map (\<lambda>(i, h). Inr (off div 32 + of_nat i, h)) (enumerate 0 xs) =
      map (\<lambda>(i, h). Inr (of_nat i, h)) (enumerate (n div 32) xs)" for xs :: "hash list"
    by (rule nth_equalityI) (simp_all add: nth_enumerate_eq base)
  moreover have "length (hash_seq_iter d) = length d div 32"
    by (simp add: hash_seq_iter_def length_chunks_exact)
  ultimately show ?case
    using d by (simp add: chunk_try_from_def hash_seq_new_def chunk_base_def hash_seq_iter_append enumerate_append_eq dv)
qed (simp_all add: hash_seq_iter_def)

lemma data_to_vec_from:
  "no_errors items \<Longrightarrow> EncDone \<notin> set (butlast items) \<Longrightarrow>
   data_to_vec_loop acc items = Inr (acc @ concat (map snd (leaves_of items)))"
  by (induction acc items rule: data_to_vec_loop.induct) (auto split: if_splits)

lemma data_to_bytes_from:
  "no_errors items \<Longrightarrow> EncDone \<notin> set (butlast items) \<Longrightarrow>
   data_to_bytes_loop acc items = Inr (acc @ map snd (leaves_of items))"
  by (induction acc items rule: data_to_bytes_loop.induct) (auto split: if_splits)

lemma data_to_bytes_leaves:
  assumes "no_errors items" "EncDone \<notin> set (butlast items)"
  shows "data_to_bytes items = Inr (concat (map snd (leaves_of items)))"
proof -
  have "(if length ds = 1 then last ds else fold (\<lambda>d out. out @ d) ds []) = concat ds" for ds :: "bytes list"
    using fold_append_concat [of "\<lambda>x. x" ds "[]"] by (cases ds) auto
  with data_to_bytes_from [OF assms, of "[]"] show ?thesis by (simp add: data_to_bytes_def)
qed

lemma export_stream_hashes_list:
  assumes "no_errors items" "consecutive 0 (leaves_of items)"
    and "concat (map snd (leaves_of items)) = blob"
    and "\<forall>(off, d)\<in>set (leaves_of items). length d mod 32 = 0"
  shows "hashes_with_index items = map (\<lambda>(i, h). Inr (of_nat i, h)) (enumerate 0 (hash_seq_iter blob))"
    and "hashes items = map Inr (hash_seq_iter blob)"
proof -
  show "hashes_with_index items = map (\<lambda>(i, h). Inr (of_nat i, h)) (enumerate 0 (hash_seq_iter blob))"
    using hashes_with_index_from [of items 0] assms by simp
  then have "hashes items = map Inr (map snd (enumerate 0 (hash_seq_iter blob)))"
    unfolding hashes_def by (simp only: map_map comp_def split_def sum.case fst_conv snd_conv)
  then show "hashes items = map Inr (hash_seq_iter blob)" by simp
qed

section \<open>Properties\<close>

text \<open>
  A hash sequence is its list of hashes: collecting hashes and iterating gives them back, the
  bytes are accepted by \<open>new\<close>, \<open>get\<close> agrees with the iterator at every index, and draining it with
  \<open>pop_front\<close> yields the same hashes without a panic; \<open>new\<close> accepts exactly the byte strings that
  are collected from their own iterator.
\<close>

theorem hash_seq_is_list:
  "hash_seq_new (hash_seq_from_iter hs) = Some (hash_seq_from_iter hs) \<and>
   hash_seq_iter (hash_seq_from_iter hs) = hs \<and> hash_seq_len (hash_seq_from_iter hs) = length hs \<and>
   hash_seq_get (hash_seq_from_iter hs) i = (if i < length hs then Some (hs ! i) else None) \<and>
   hash_seq_drain (Suc (length hs)) (hash_seq_from_iter hs) = Some hs \<and>
   (hash_seq_new bs = Some bs \<longleftrightarrow> hash_seq_from_iter (hash_seq_iter bs) = bs)"
proof -
  have "hash_seq_from_iter (hash_seq_iter bs) = concat (chunks_exact bs)"
  proof -
    have "map (\<lambda>c. as_bytes (from_bytes c)) (chunks_exact bs) = chunks_exact bs"
      by (intro map_idI) (simp add: as_bytes_from_bytes chunks_exact_32)
    then show ?thesis by (simp add: hash_seq_from_iter_concat hash_seq_iter_def comp_def)
  qed
  moreover have "concat (chunks_exact bs) = bs \<longleftrightarrow> length bs mod 32 = 0"
  proof (induction bs rule: chunks_exact.induct)
    case (1 bs)
    show ?case
    proof (cases "length bs < 32")
      case True
      then show ?thesis by (subst chunks_exact.simps) auto
    next
      case False
      then have "concat (chunks_exact bs) = take 32 bs @ concat (chunks_exact (drop 32 bs))"
        by (subst chunks_exact.simps) simp
      then have "concat (chunks_exact bs) = bs \<longleftrightarrow> concat (chunks_exact (drop 32 bs)) = drop 32 bs"
        by (metis append_take_drop_id same_append_eq)
      with 1 False show ?thesis by (simp add: le_mod_geq not_less)
    qed
  qed
  moreover have "hash_seq_drain (Suc (length hs)) (hash_seq_from_iter hs) = Some hs"
    using hash_seq_drain_iter [of "hash_seq_from_iter hs" "Suc (length hs)"]
    by (simp add: length_hash_seq_from_iter del: hash_seq_drain.simps)
  ultimately show ?thesis
    by (simp add: hash_seq_new_def hash_seq_len_def length_hash_seq_from_iter hash_seq_get_iter
        del: hash_seq_drain.simps)
qed

text \<open>
  Reading the verified export of a hash sequence: if a stream without errors carries the
  consecutive leaves of a blob, each a whole number of hashes, \<open>hashes_with_index\<close> yields exactly
  the hashes of the blob with their indexes, and \<open>data_to_bytes\<close> and \<open>data_to_vec\<close> return the blob.
\<close>

theorem export_stream_hashes:
  assumes "no_errors items" "EncDone \<notin> set (butlast items)" "consecutive 0 (leaves_of items)"
    and "concat (map snd (leaves_of items)) = blob"
    and "\<forall>(off, d)\<in>set (leaves_of items). length d mod 32 = 0"
  shows "hashes_with_index items = map (\<lambda>(i, h). Inr (of_nat i, h)) (enumerate 0 (hash_seq_iter blob)) \<and>
    hashes items = map Inr (hash_seq_iter blob) \<and>
    data_to_bytes items = Inr blob \<and> data_to_vec items = Inr blob"
  using export_stream_hashes_list [OF assms(1,3-5)] data_to_bytes_leaves [OF assms(1,2)]
    data_to_vec_from [OF assms(1,2), of "[]"] assms(4)
  by (simp add: data_to_vec_def)

theorem export_stream_hashes_witness:
  "hashes [EncSize 32, EncLeaf 0 (as_bytes hash_empty), EncDone] = [Inr hash_empty]"
proof -
  have "hash_seq_iter (as_bytes hash_empty) = [hash_empty]"
    using hash_seq_iter_from_iter [of "[hash_empty]"] by (simp add: hash_seq_from_iter_concat)
  with export_stream_hashes [of "[EncSize 32, EncLeaf 0 (as_bytes hash_empty), EncDone]" "as_bytes hash_empty"]
  show ?thesis by simp
qed

text \<open>
  \<open>HashSeqChunk::get\<close> compares an index of a hash with offsets in bytes: a chunk that starts at
  byte 16384 has the hash with index 512 as its first one, as \<open>base\<close> says, but \<open>get\<close> does not find it.
\<close>

lemma chunk_get_misses:
  "\<exists>c. chunk_try_from 16384 (as_bytes h) = Some c \<and> chunk_base c = 512 \<and> chunk_get c 512 = None \<and>
    hash_seq_iter (hsc_chunk c) = [h]"
  using hash_seq_iter_from_iter [of "[h]"]
  by (simp add: chunk_try_from_def hash_seq_new_def chunk_base_def chunk_get_def hash_seq_from_iter_concat
      word_arith_nat_div)

end
