(* ===== verification/Mem_Integrity.thy ===== *)
theory Mem_Integrity
  imports Mem_Store
begin

text \<open>
  Invariants of the memory store (\<open>src/store/mem.rs\<close>) over the states its actor reaches: waiters
  for idleness are answered when the last task ends, and entries are content addressed: a
  complete entry holds data with the hash it is stored under.
\<close>

section \<open>Waiting for the store to become idle\<close>

definition panics ::
  "'r range_ops \<Rightarrow> 'r chunk_ops \<Rightarrow> io_ops \<Rightarrow> 'r traverse \<Rightarrow> 'r event \<Rightarrow> 'r mem_state \<Rightarrow> bool" where
  "panics R B Io tr e s =
     (case e of
        Task i \<Rightarrow> i < length (ms_tasks s) \<and>
          (case poll_task R B Io tr (ms_tasks s ! i) s of Some (_, _, Inr (Inl _)) \<Rightarrow> True | _ \<Rightarrow> False)
      | _ \<Rightarrow> False)"

definition waiters_ok :: "'r mem_state \<Rightarrow> bool" where
  "waiters_ok s \<longleftrightarrow> (ms_tasks s = [] \<longrightarrow> ms_idle_waiters s = [])"

lemma delete_blobs_fields:
  "ms_tasks (handle_delete_blobs hs force s) = ms_tasks s"
  "ms_idle_waiters (handle_delete_blobs hs force s) = ms_idle_waiters s"
  by (induction hs force s rule: handle_delete_blobs.induct) simp_all

lemma handle_command_waiters:
  assumes "handle_command R B c s = Some (s', out, x)" "waiters_ok s"
  shows "waiters_ok s'"
proof (cases c)
  case (CDeleteBlobs tx hs force)
  with assms show ?thesis
    using delete_blobs_fields [of hs force s] by (simp add: waiters_ok_def)
qed (use assms get_or_create_entry_frame [of R] in \<open>auto simp: waiters_ok_def spawn_def handle_wait_idle_def
    handle_delete_tags_def handle_rename_tag_def handle_set_tag_def handle_create_tag_def create_temp_tag_def
    handle_batch_start_def Let_def split: prod.splits option.splits if_splits\<close>)

lemma handle_task_result_waiters:
  assumes "handle_task_result R (Inr r) s = Some (s', out)"
  shows "waiters_ok s'"
  using assms by (auto simp: handle_task_result_def waiters_ok_def split: option.splits if_splits)

lemma handle_task_result_answers:
  assumes "handle_task_result R (Inr r) s = Some (s', out)" "ms_tasks s = []" "tx \<in> set (ms_idle_waiters s)"
  shows "(tx, RUnit) \<in> set out"
  using assms finish_import_frame [of R]
  by (fastforce simp: handle_task_result_def split: option.splits if_splits task_result.splits)

lemma waiters_ok_event:
  assumes "actor_event R B Io tr e s = Some (s', out)" "\<not> panics R B Io tr e s" "waiters_ok s"
  shows "waiters_ok s'"
proof (cases e)
  case (Cmd c)
  with assms show ?thesis
    by (auto split: option.splits dest: handle_command_waiters)
next
  case (Task i)
  then have i: "i < length (ms_tasks s)" using assms(1) by (auto simp: run_task_def split: if_splits)
  then obtain s1 out1 r where p: "poll_task R B Io tr (ms_tasks s ! i) s = Some (s1, out1, r)"
    using assms(1) Task by (auto simp: run_task_def split: option.splits)
  show ?thesis
  proof (cases r)
    case (Inl t)
    with assms(1) Task i p poll_task_frame [OF p] show ?thesis
      by (auto simp: run_task_def waiters_ok_def)
  next
    case (Inr res)
    have "res \<noteq> Inl ()"
    proof
      assume "res = Inl ()"
      then have "panics R B Io tr e s" using i by (simp add: panics_def Task p Inr)
      with assms(2) show False by simp
    qed
    then obtain r' where "res = Inr r'" by (cases res) simp_all
    with assms(1) Task i p Inr obtain out' where
      "handle_task_result R (Inr r') (s1\<lparr>ms_tasks := remove_nth i (ms_tasks s1)\<rparr>) = Some (s', out')"
      by (auto simp: run_task_def split: option.splits prod.splits)
    then show ?thesis by (rule handle_task_result_waiters)
  qed
next
  case (DropTag tag)
  with assms show ?thesis by (auto simp: waiters_ok_def)
qed

section \<open>Integrity\<close>

text \<open>
  \<open>cont\<close> gives the content of the blobs that are imported from outside. Imports of verified
  streams carry leaves of this content only.
\<close>

definition verified_rx :: "io_ops \<Rightarrow> (hash \<Rightarrow> bytes) \<Rightarrow> hash \<Rightarrow> u64 \<Rightarrow> bao_content_item rx \<Rightarrow> bool" where
  "verified_rx Io cont h sz rx \<longleftrightarrow>
     io_root Io (cont h) = h \<and> length (cont h) < 2 ^ 64 \<and> sz = of_nat (length (cont h)) \<and>
     (\<forall>off data. Inr (Leaf off data) \<in> set rx \<longrightarrow> leaf_of (cont h) off data)"

definition verified_event :: "io_ops \<Rightarrow> (hash \<Rightarrow> bytes) \<Rightarrow> 'r event \<Rightarrow> bool" where
  "verified_event Io cont e =
     (case e of Cmd (CImportBao tx h sz rx) \<Rightarrow> verified_rx Io cont h sz rx | _ \<Rightarrow> True)"

definition storage_ok ::
  "'r range_ops \<Rightarrow> 'r chunk_ops \<Rightarrow> io_ops \<Rightarrow> (hash \<Rightarrow> bytes) \<Rightarrow> hash \<Rightarrow> 'r bao_file_storage \<Rightarrow> bool" where
  "storage_ok R B Io cont h st =
     (case st of Complete d ob \<Rightarrow> io_root Io d = h | Partial p \<Rightarrow> partial_inv R B (cont h) p)"

definition task_ok :: "io_ops \<Rightarrow> (hash \<Rightarrow> bytes) \<Rightarrow> 'r mem_state \<Rightarrow> 'r task \<Rightarrow> bool" where
  "task_ok Io cont s t =
     (case t of
        TImportBaoStart tx a sz rx \<Rightarrow> a < ms_next s \<and> verified_rx Io cont (bh_hash (ms_heap s a)) sz rx
      | TImportBao tx a sz rx \<Rightarrow> a < ms_next s \<and> verified_rx Io cont (bh_hash (ms_heap s a)) sz rx
      | _ \<Rightarrow> True)"

definition mem_inv ::
  "'r range_ops \<Rightarrow> 'r chunk_ops \<Rightarrow> io_ops \<Rightarrow> (hash \<Rightarrow> bytes) \<Rightarrow> 'r mem_state \<Rightarrow> bool" where
  "mem_inv R B Io cont s \<longleftrightarrow>
     bt_ok (ms_data s) \<and> bt_ok (ms_tags s) \<and> tt_ok (ms_temp_tags s) \<and>
     (\<forall>h a. bt_get (ms_data s) h = Some a \<longrightarrow> a < ms_next s \<and> bh_hash (ms_heap s a) = h) \<and>
     ms_empty_hash s < ms_next s \<and> bh_hash (ms_heap s (ms_empty_hash s)) = hash_empty \<and>
     (\<forall>a<ms_next s. storage_ok R B Io cont (bh_hash (ms_heap s a)) (bh_state (ms_heap s a))) \<and>
     (\<forall>t\<in>set (ms_tasks s). task_ok Io cont s t)"

text \<open>Later states have the same entries, and more.\<close>

definition extends :: "'r mem_state \<Rightarrow> 'r mem_state \<Rightarrow> bool" where
  "extends s s' \<longleftrightarrow> ms_next s \<le> ms_next s' \<and> (\<forall>a<ms_next s. bh_hash (ms_heap s' a) = bh_hash (ms_heap s a))"

lemma task_ok_extends: "extends s s' \<Longrightarrow> task_ok Io cont s t \<Longrightarrow> task_ok Io cont s' t"
  by (auto simp: task_ok_def extends_def split: task.splits)

lemma set_remove_nth: "set (remove_nth i xs) \<subseteq> set xs"
  unfolding remove_nth_def using set_take_subset set_drop_subset by fastforce

text \<open>Parts of the state that the invariant does not look at, or that may shrink.\<close>

lemma mem_inv_update:
  assumes "mem_inv R B Io cont s" "ms_heap s' = ms_heap s" "ms_next s' = ms_next s"
    and "ms_empty_hash s' = ms_empty_hash s" "bt_ok (ms_data s')" "bt_ok (ms_tags s')" "tt_ok (ms_temp_tags s')"
    and "\<And>h a. bt_get (ms_data s') h = Some a \<Longrightarrow> bt_get (ms_data s) h = Some a"
    and "\<And>t. t \<in> set (ms_tasks s') \<Longrightarrow> t \<in> set (ms_tasks s) \<or> task_ok Io cont s t"
  shows "mem_inv R B Io cont s'"
proof -
  have "task_ok Io cont s' t = task_ok Io cont s t" for t
    by (cases t) (simp_all add: task_ok_def assms(2,3))
  then show ?thesis using assms unfolding mem_inv_def by (metis (no_types, lifting))
qed

lemma mem_inv_spawn:
  "mem_inv R B Io cont s \<Longrightarrow> task_ok Io cont s t \<Longrightarrow> mem_inv R B Io cont (spawn t s)"
  by (rule mem_inv_update [of R B Io cont s]) (auto simp: spawn_def mem_inv_def)

lemma mem_inv_set_handle:
  assumes "mem_inv R B Io cont s" "storage_ok R B Io cont (bh_hash (ms_heap s a)) st"
  shows "mem_inv R B Io cont (set_handle_state a st s)"
proof -
  let ?s = "set_handle_state a st s"
  have h: "bh_hash (ms_heap ?s b) = bh_hash (ms_heap s b)" for b by (simp add: set_handle_state_def)
  have "task_ok Io cont ?s t = task_ok Io cont s t" for t
    unfolding task_ok_def h by (cases t) (simp_all add: set_handle_state_def)
  with assms show ?thesis unfolding mem_inv_def h by (auto simp: set_handle_state_def)
qed

lemma mem_inv_delete_blobs: "mem_inv R B Io cont s \<Longrightarrow> mem_inv R B Io cont (handle_delete_blobs hs force s)"
proof (induction hs force s rule: handle_delete_blobs.induct)
  case (2 h hs force s)
  have "mem_inv R B Io cont (s\<lparr>ms_data := bt_remove h (ms_data s)\<rparr>)"
    by (rule mem_inv_update [OF "2.prems"])
      (use "2.prems" in \<open>auto simp: mem_inv_def bt_ok_remove bt_get_remove split: if_splits\<close>)
  with 2 show ?case by simp
qed simp

lemma import_bytes_root:
  "import_bytes Io data scp format tx = Inr e \<Longrightarrow>
    ie_root e = io_root Io (ie_data e) \<and> ie_data e = data \<and> ie_scope e = scp \<and> ie_format e = format"
  by (auto simp: import_bytes_def split: option.splits)

lemma import_byte_stream_loop_root:
  "import_byte_stream_loop Io res scp format rx tx = Inr e \<Longrightarrow> ie_root e = io_root Io (ie_data e)"
  by (induction Io res scp format rx tx rule: import_byte_stream_loop.induct)
    (auto simp: Let_def import_bytes_root split: option.splits)

lemma import_path_loop_root:
  "import_path_loop Io res scp format reads tx = Inr e \<Longrightarrow> ie_root e = io_root Io (ie_data e)"
  by (induction Io res scp format reads tx rule: import_path_loop.induct)
    (auto simp: Let_def import_bytes_root split: option.splits if_splits)

lemma poll_task_import_root:
  assumes "poll_task R B Io tr t s = Some (s', out, Inr (Inr (ImportResult tx (Inr e))))"
  shows "ie_root e = io_root Io (ie_data e)"
  using assms
  by (cases "(R, B, Io, tr, t, s)" rule: poll_task.cases)
    (auto simp: Let_def import_byte_stream_def import_path_def import_bytes_root import_byte_stream_loop_root
      import_path_loop_root split: if_splits option.splits prod.splits sum.splits)

text \<open>The outboard only matters for an import when the entry is completed.\<close>

lemma import_bao_item_leaf_outboard:
  fixes p :: "'r partial_mem_storage"
  assumes "import_bao_item R B Io sz (Leaf off data) (Partial p) = Some (st, ch)"
    and "import_bao_item R B Io sz (Leaf off data) (Partial (p\<lparr>ps_outboard := sparse_new R\<rparr>)) = Some (st1, ch1)"
  shows "(\<exists>d ob ob1. st = Complete d ob \<and> st1 = Complete d ob1) \<or>
    (\<exists>p1. st1 = Partial p1 \<and> st = Partial (p1\<lparr>ps_outboard := ps_outboard p\<rparr>))"
  using assms
  by (auto simp: import_bao_item_def Let_def split_def split: sum.splits if_splits)

context store_laws
begin

lemma sparse_new_try_into: "sparse_try_into R (sparse_new R) = Inr []"
  by (simp add: sparse_try_into_def into_parts_def sparse_new_def rs_eq_iff contains_simps)

lemma storage_ok_import_item:
  assumes "storage_ok R B Io cont h st" "import_bao_item R B Io sz item st = Some (st', ch)"
    and "verified_rx Io cont h sz (Inr item # rx)"
  shows "storage_ok R B Io cont h st'"
proof (cases st)
  case (Complete d ob)
  with assms show ?thesis by (simp add: import_bao_item_def)
next
  case (Partial p)
  then have inv: "partial_inv R B (cont h) p" using assms(1) by (simp add: storage_ok_def)
  show ?thesis
  proof (cases item)
    case (Parent node l r)
    with assms(2) Partial obtain ob where "st' = Partial (p\<lparr>ps_outboard := ob\<rparr>) \<or> st' = Partial p"
      by (auto simp: import_bao_item_def split: option.splits sum.splits)
    with inv show ?thesis by (auto simp: storage_ok_def partial_inv_def)
  next
    case (Leaf off data)
    let ?p = "p\<lparr>ps_outboard := sparse_new R\<rparr>"
    have leaf: "leaf_of (cont h) off data" and len: "length (cont h) < 2 ^ 64"
      and sz: "sz = of_nat (length (cont h))" and root: "io_root Io (cont h) = h"
      using assms(3) Leaf by (auto simp: verified_rx_def)
    have "partial_inv R B (cont h) ?p" using inv by (simp add: partial_inv_def)
    moreover have "sparse_try_into R (ps_outboard ?p) = Inr []" by (simp add: sparse_new_try_into)
    ultimately obtain st1 ch1 where
      i1: "import_bao_item R B Io sz (Leaf off data) (Partial ?p) = Some (st1, ch1)"
      and im: "imported R B (cont h) [] ?p (in_leaf (off, data)) st1"
      using import_leaf [of "cont h" ?p off data "[]"] leaf len sz by blast
    from import_bao_item_leaf_outboard [OF assms(2) [unfolded Leaf Partial] i1] im root show ?thesis
      by (auto simp: storage_ok_def imported_def partial_inv_def)
  qed
qed

lemma storage_ok_new: "storage_ok R B Io cont h (new_partial R)"
  by (simp add: storage_ok_def new_partial_def partial_inv_def sparse_new_def contains_empty bf_empty_def
      bf_canonical_def bf_new_def)

lemma mem_inv_new: "mem_inv R B Io cont (mem_store_new R)"
  by (simp add: mem_inv_def mem_store_new_def storage_ok_new bt_get_def)

lemma mem_inv_get_or_create:
  assumes "mem_inv R B Io cont s" "get_or_create_entry R h s = (a, s')"
  shows "mem_inv R B Io cont s' \<and> a < ms_next s' \<and> bh_hash (ms_heap s' a) = h \<and> extends s s' \<and>
    mem_get s' h = Some a"
proof (cases "h \<noteq> hash_empty \<and> bt_get (ms_data s) h = None")
  case True
  then have a: "a = ms_next s" and s': "s' = s\<lparr>ms_heap := (ms_heap s)(a := \<lparr>bh_state = new_partial R, bh_hash = h\<rparr>),
      ms_next := Suc a, ms_data := bt_insert h a (ms_data s)\<rparr>"
    using assms(2) by (auto simp: get_or_create_entry_def)
  have ext: "extends s s'" by (simp add: extends_def s' a)
  have ok: "bt_ok (ms_data s)" using assms(1) by (simp add: mem_inv_def)
  have "task_ok Io cont s' t" if "t \<in> set (ms_tasks s)" for t
    using task_ok_extends [OF ext] that assms(1) by (auto simp: mem_inv_def)
  then have "mem_inv R B Io cont s'"
    using assms(1) unfolding mem_inv_def
    by (auto simp: s' a bt_ok_insert bt_get_insert [OF ok] less_Suc_eq storage_ok_new)
  with ext a True show ?thesis by (simp add: s' mem_get_def bt_get_insert [OF ok])
next
  case False
  with assms show ?thesis
    by (auto simp: get_or_create_entry_def mem_inv_def extends_def mem_get_def split: if_splits)
qed

lemma mem_inv_command:
  assumes "mem_inv R B Io cont s" "handle_command R B c s = Some (s', out, x)" "verified_event Io cont (Cmd c)"
  shows "mem_inv R B Io cont s'"
proof (cases c)
  case (CImportBao tx h sz rx)
  obtain a s1 where g: "get_or_create_entry R h s = (a, s1)" by fastforce
  note inv = mem_inv_get_or_create [OF assms(1) g]
  have "s' = spawn (TImportBaoStart tx a sz rx) s1" using assms(2) CImportBao g by simp
  moreover have "task_ok Io cont s1 (TImportBaoStart tx a sz rx)"
    using inv assms(3) CImportBao by (simp add: task_ok_def verified_event_def)
  ultimately show ?thesis using inv mem_inv_spawn by blast
next
  case (CObserve tx h n)
  obtain a s1 where g: "get_or_create_entry R h s = (a, s1)" by fastforce
  note inv = mem_inv_get_or_create [OF assms(1) g]
  have "s' = spawn (TObserve tx a n) s1" using assms(2) CObserve g by simp
  with inv show ?thesis by (simp add: mem_inv_spawn task_ok_def)
next
  case (CWaitIdle tx)
  with assms(2) have "s' = s \<or> s' = s\<lparr>ms_idle_waiters := ms_idle_waiters s @ [tx]\<rparr>"
    by (auto simp: handle_wait_idle_def split: if_splits)
  then show ?thesis
    by (intro mem_inv_update [OF assms(1)]) (use assms(1) in \<open>auto simp: mem_inv_def\<close>)
next
  case (CDeleteTags tx req)
  show ?thesis
    by (rule mem_inv_update [OF assms(1)])
      (use assms CDeleteTags in \<open>auto simp: handle_delete_tags_def mem_inv_def bt_ok_retain\<close>)
next
  case (CRenameTag tx f t)
  show ?thesis
    by (rule mem_inv_update [OF assms(1)])
      (use assms CRenameTag in \<open>auto simp: handle_rename_tag_def mem_inv_def bt_ok_remove bt_ok_insert
        split: option.splits\<close>)
next
  case (CSetTag tx n v)
  show ?thesis
    by (rule mem_inv_update [OF assms(1)])
      (use assms CSetTag in \<open>auto simp: handle_set_tag_def mem_inv_def bt_ok_insert\<close>)
next
  case (CCreateTag tx stamp v)
  show ?thesis
    by (rule mem_inv_update [OF assms(1)])
      (use assms CCreateTag in \<open>auto simp: handle_create_tag_def mem_inv_def bt_ok_insert split: option.splits\<close>)
next
  case (CCreateTempTag tx rpc scp v)
  then obtain tt t where "tt_create (ms_temp_tags s) scp v = Some (tt, t)" "s' = s\<lparr>ms_temp_tags := t\<rparr>"
    using assms(2) by (auto simp: create_temp_tag_def split: option.splits)
  moreover from this have "tt_ok t" using tt_ok_create assms(1) by (auto simp: mem_inv_def)
  ultimately show ?thesis
    using assms(1) by (intro mem_inv_update [OF assms(1)]) (auto simp: mem_inv_def)
next
  case (CDeleteBlobs tx hs force)
  with assms show ?thesis by (auto simp: mem_inv_delete_blobs)
next
  case (CBatch tx op rx)
  obtain i a t where c: "create_scope (ms_temp_tags s) = ((i, a), t)" by (metis surj_pair)
  have "tt_ok t" using tt_ok_create_scope [OF _ c] assms(1) by (simp add: mem_inv_def)
  then have "mem_inv R B Io cont (s\<lparr>ms_temp_tags := t\<rparr>)"
    using assms(1) by (intro mem_inv_update [OF assms(1)]) (auto simp: mem_inv_def)
  then show ?thesis
    using assms(2) CBatch c by (auto simp: handle_batch_start_def task_ok_def intro!: mem_inv_spawn)
next
  case (CClearProtected tx)
  show ?thesis
    by (rule mem_inv_update [OF assms(1)]) (use assms CClearProtected in \<open>auto simp: mem_inv_def\<close>)
qed (use assms in \<open>auto simp: task_ok_def intro!: mem_inv_spawn\<close>)

end

context store_laws
begin

lemma mem_inv_temp_tags:
  "mem_inv R B Io cont s \<Longrightarrow> tt_ok t \<Longrightarrow> mem_inv R B Io cont (s\<lparr>ms_temp_tags := t\<rparr>)"
  by (rule mem_inv_update [of R B Io cont s]) (auto simp: mem_inv_def)

lemma mem_inv_tasks:
  assumes "mem_inv R B Io cont s" "\<And>t. t \<in> set ts \<Longrightarrow> t \<in> set (ms_tasks s) \<or> task_ok Io cont s t"
  shows "mem_inv R B Io cont (s\<lparr>ms_tasks := ts\<rparr>)"
  by (rule mem_inv_update [OF assms(1)]) (use assms in \<open>simp_all add: mem_inv_def\<close>)

lemma mem_inv_idle: "mem_inv R B Io cont s \<Longrightarrow> mem_inv R B Io cont (s\<lparr>ms_idle_waiters := w\<rparr>)"
  by (rule mem_inv_update [of R B Io cont s]) (simp_all add: mem_inv_def)

lemma mem_inv_poll:
  assumes "mem_inv R B Io cont s" "poll_task R B Io tr t s = Some (s', out, r)" "task_ok Io cont s t"
    and "\<And>x. r \<noteq> Inr (Inl x)"
  shows "mem_inv R B Io cont s' \<and> extends s s' \<and> (\<forall>t'. r = Inl t' \<longrightarrow> task_ok Io cont s' t')"
  using assms
proof (cases "(R, B, Io, tr, t, s)" rule: poll_task.cases)
  case (1 R' B' Io' tr' tx a sz rx s1)
  then have s': "s' = set_handle_state a (import_bao_start sz (bh_state (ms_heap s a))) s"
    and r: "r = Inl (TImportBao tx a sz rx)" and t: "t = TImportBaoStart tx a sz rx"
    using assms(2) by auto
  have a: "a < ms_next s" "verified_rx Io cont (bh_hash (ms_heap s a)) sz rx"
    using assms(3) t by (auto simp: task_ok_def)
  then have "storage_ok R B Io cont (bh_hash (ms_heap s a)) (bh_state (ms_heap s a))"
    using assms(1) by (simp add: mem_inv_def)
  then have "storage_ok R B Io cont (bh_hash (ms_heap s a)) (import_bao_start sz (bh_state (ms_heap s a)))"
    by (auto simp: storage_ok_def import_bao_start_def partial_inv_def split: bao_file_storage.splits)
  with assms(1) a r show ?thesis
    by (auto simp: s' mem_inv_set_handle) (auto simp: extends_def set_handle_state_def task_ok_def)
next
  case (4 R' B' Io' tr' tx a sz item rx s1)
  then obtain st ch where i: "import_bao_item R B Io sz item (bh_state (ms_heap s a)) = Some (st, ch)"
    and s': "s' = set_handle_state a st s"
    and r: "r = Inl (TImportBao tx a sz rx)" and t: "t = TImportBao tx a sz (Inr item # rx)"
    using assms(2,4) by (auto simp: Let_def split: option.splits)
  have a: "a < ms_next s" and v: "verified_rx Io cont (bh_hash (ms_heap s a)) sz (Inr item # rx)"
    using assms(3) t by (auto simp: task_ok_def)
  have "storage_ok R B Io cont (bh_hash (ms_heap s a)) (bh_state (ms_heap s a))"
    using assms(1) a by (simp add: mem_inv_def)
  from storage_ok_import_item [OF this i v] assms(1) have "mem_inv R B Io cont s'"
    by (simp add: s' mem_inv_set_handle)
  moreover have "verified_rx Io cont (bh_hash (ms_heap s a)) sz rx" using v by (simp add: verified_rx_def)
  ultimately show ?thesis using a r by (simp add: s' extends_def set_handle_state_def task_ok_def)
next
  case (17 R' B' Io' tr' i a hf rx s1)
  have "tt_ok (scope_on_drop (ms_temp_tags s) a hf)"
    using scope_on_drop_ok assms(1) by (auto simp: mem_inv_def)
  then have "mem_inv R B Io cont (s\<lparr>ms_temp_tags := scope_on_drop (ms_temp_tags s) a hf\<rparr>)"
    using assms(1) mem_inv_temp_tags by blast
  with 17 assms(2) show ?thesis by (auto simp: task_ok_def extends_def)
qed (auto simp: task_ok_def extends_def split: option.splits prod.splits if_splits)

lemma mem_inv_finish_import:
  assumes "mem_inv R B Io cont s" "finish_import R tx res s = Some (s', out)"
    and "\<And>e. res = Inr e \<Longrightarrow> ie_root e = io_root Io (ie_data e)"
  shows "mem_inv R B Io cont s'"
proof (cases res)
  case (Inl e)
  with assms show ?thesis by (simp add: finish_import_def)
next
  case (Inr e)
  obtain a s1 where g: "get_or_create_entry R (ie_root e) s = (a, s1)" by fastforce
  note inv = mem_inv_get_or_create [OF assms(1) g]
  define s2 where "s2 = (case bh_state (ms_heap s1 a) of Complete _ _ \<Rightarrow> s1
    | Partial _ \<Rightarrow> set_handle_state a (Complete (ie_data e) (ie_outboard e)) s1)"
  have "storage_ok R B Io cont (bh_hash (ms_heap s1 a)) (Complete (ie_data e) (ie_outboard e))"
    using inv assms(3) [OF Inr] by (simp add: storage_ok_def)
  then have inv2: "mem_inv R B Io cont s2"
    using inv mem_inv_set_handle [of R B Io cont s1 a] by (cases "bh_state (ms_heap s1 a)") (simp_all add: s2_def)
  obtain tt t where "tt_create (ms_temp_tags s2) (ie_scope e) (hf_new (ie_root e) (ie_format e)) = Some (tt, t)"
    and s': "s' = s2\<lparr>ms_temp_tags := t\<rparr>"
    using assms(2) Inr g by (auto simp: finish_import_def Let_def s2_def [symmetric] split: option.splits)
  moreover from this have "tt_ok t" using tt_ok_create inv2 by (auto simp: mem_inv_def)
  ultimately show ?thesis using inv2 mem_inv_temp_tags by blast
qed

lemma mem_inv_task_result:
  assumes "mem_inv R B Io cont s" "handle_task_result R res s = Some (s', out)"
    and "\<And>tx e. res = Inr (ImportResult tx (Inr e)) \<Longrightarrow> ie_root e = io_root Io (ie_data e)"
  shows "mem_inv R B Io cont s'"
proof (cases res)
  case (Inl u)
  with assms show ?thesis by (simp add: handle_task_result_def)
next
  case (Inr r)
  obtain s1 out1 where s1: "(case r of
                   ImportResult tx res \<Rightarrow> finish_import R tx res s
                 | ScopeResult scp \<Rightarrow> Some (s\<lparr>ms_temp_tags := end_scope (ms_temp_tags s) scp\<rparr>, [])
                 | UnitResult \<Rightarrow> Some (s, [])) = Some (s1, out1)"
    and s': "s' = s1 \<or> s' = s1\<lparr>ms_idle_waiters := []\<rparr>"
    using assms(2) Inr by (auto simp: handle_task_result_def split: option.splits if_splits)
  have "mem_inv R B Io cont s1"
  proof (cases r)
    case UnitResult
    with s1 assms(1) show ?thesis by simp
  next
    case (ImportResult tx res')
    then have "finish_import R tx res' s = Some (s1, out1)" using s1 by simp
    from mem_inv_finish_import [OF assms(1) this] assms(3) Inr ImportResult show ?thesis by blast
  next
    case (ScopeResult scp)
    have "tt_ok (end_scope (ms_temp_tags s) scp)" using tt_ok_end_scope assms(1) by (simp add: mem_inv_def)
    with assms(1) have "mem_inv R B Io cont (s\<lparr>ms_temp_tags := end_scope (ms_temp_tags s) scp\<rparr>)"
      by (rule mem_inv_temp_tags)
    with s1 ScopeResult show ?thesis by simp
  qed
  then show ?thesis using s' mem_inv_idle [of cont s1 "[]"] by blast
qed

lemma mem_inv_run_task:
  assumes "mem_inv R B Io cont s" "run_task R B Io tr i s = Some (s', out)" "\<not> panics R B Io tr (Task i) s"
  shows "mem_inv R B Io cont s'"
proof -
  have i: "i < length (ms_tasks s)" using assms(2) by (auto simp: run_task_def split: if_splits)
  let ?t = "ms_tasks s ! i"
  obtain s1 out1 r where p: "poll_task R B Io tr ?t s = Some (s1, out1, r)"
    using assms(2) i by (auto simp: run_task_def split: option.splits)
  have np: "r \<noteq> Inr (Inl x)" for x
  proof
    assume "r = Inr (Inl x)"
    then have "panics R B Io tr (Task i) s" using i by (simp add: panics_def p)
    with assms(3) show False by simp
  qed
  have "task_ok Io cont s ?t" using assms(1) i by (simp add: mem_inv_def)
  note inv = mem_inv_poll [OF assms(1) p this np]
  note frame = poll_task_frame [OF p]
  show ?thesis
  proof (cases r)
    case (Inl t')
    then have "s' = s1\<lparr>ms_tasks := (ms_tasks s1)[i := t']\<rparr>"
      using assms(2) i p by (simp add: run_task_def)
    moreover have "t \<in> set (ms_tasks s1) \<or> task_ok Io cont s1 t" if "t \<in> set ((ms_tasks s1)[i := t'])" for t
      using that set_update_subset_insert [of "ms_tasks s1" i t'] inv Inl by blast
    ultimately show ?thesis using inv mem_inv_tasks [of cont s1 "(ms_tasks s1)[i := t']"] by blast
  next
    case (Inr res)
    let ?s = "s1\<lparr>ms_tasks := remove_nth i (ms_tasks s1)\<rparr>"
    obtain out2 where h: "handle_task_result R res ?s = Some (s', out2)"
      using assms(2) i p Inr by (auto simp: run_task_def split: option.splits)
    have "mem_inv R B Io cont ?s"
      using inv set_remove_nth [of i "ms_tasks s1"] by (intro mem_inv_tasks) blast+
    then show ?thesis
      by (rule mem_inv_task_result [OF _ h]) (use p Inr poll_task_import_root in blast)
  qed
qed

lemma mem_inv_event:
  assumes "mem_inv R B Io cont s" "actor_event R B Io tr e s = Some (s', out)"
    and "verified_event Io cont e" "\<not> panics R B Io tr e s"
  shows "mem_inv R B Io cont s'"
proof (cases e)
  case (Cmd c)
  with assms(2) obtain x where "handle_command R B c s = Some (s', out, x)"
    by (auto split: option.splits prod.splits)
  then show ?thesis using mem_inv_command assms(1,3) Cmd by blast
next
  case (Task i)
  with assms show ?thesis using mem_inv_run_task by simp
next
  case (DropTag tag)
  with assms show ?thesis using mem_inv_temp_tags tt_ok_drop by (auto simp: mem_inv_def)
qed

lemma mem_inv_reachable:
  "mem_reachable R B Io tr (\<lambda>e s. verified_event Io cont e \<and> \<not> panics R B Io tr e s) s \<Longrightarrow>
   mem_inv R B Io cont s"
  by (induction rule: mem_reachable.induct) (auto intro: mem_inv_new mem_inv_event)

end

section \<open>Adding bytes\<close>

definition open_sender :: "'a sender" where
  "open_sender = \<lparr>tx_sent = [], tx_left = None\<rparr>"

lemma send_open: "tx_left tx = None \<Longrightarrow> send tx x = Some (tx\<lparr>tx_sent := tx_sent tx @ [x]\<rparr>)"
  by (simp add: send_def)

lemma remove_nth_last [simp]: "remove_nth (length xs) (xs @ [x]) = xs"
  by (simp add: remove_nth_def)

lemma tt_create_lists: "tt_ok t \<Longrightarrow> tt_create t s hf = Some (tag, t') \<Longrightarrow> hf \<in> set (tt_list t')"
proof -
  assume ok: "tt_ok t" and c: "tt_create t s hf = Some (tag, t')"
  obtain a t1 where t1: "scope_or_default t s = (a, t1)" by fastforce
  then have "scope_temp_tag t1 a hf = Some (tag, t')" using c by (simp add: tt_create_def)
  with scope_or_default_ok [OF ok t1] show ?thesis using scope_temp_tag_ok by blast
qed

context store_laws
begin

lemma add_bytes_run:
  assumes "mem_inv R B Io cont s" "h = io_root Io data"
    and new: "\<And>a d ob. mem_get s h = Some a \<Longrightarrow> bh_state (ms_heap s a) \<noteq> Complete d ob"
    and cr: "tt_create (ms_temp_tags s) scp (hf_new h format) = Some (tt, t)"
  shows "\<exists>s' out a. actor_run R B Io tr
      [Cmd (CImportBytes tx data scp format open_sender), Task (length (ms_tasks s))] s = Some (s', out) \<and>
    (tx, RAdd [Size (of_nat (length data)), CopyDone, Done tt]) \<in> set out \<and>
    mem_get s' h = Some a \<and> bh_state (ms_heap s' a) = Complete data (io_outboard Io data) \<and>
    ms_temp_tags s' = t"
proof -
  let ?t = "TImportBytes tx data scp format open_sender"
  let ?px = "\<lparr>tx_sent = [Size (of_nat (length data)), CopyDone], tx_left = None\<rparr>"
  let ?e = "\<lparr>ie_scope = scp, ie_format = format, ie_data = data, ie_outboard = io_outboard Io data,
    ie_root = h, ie_tx = ?px\<rparr>"
  have imp: "import_bytes Io data scp format open_sender = Inr ?e"
    by (simp add: import_bytes_def send_def open_sender_def assms(2))
  obtain a s1 where g: "get_or_create_entry R h s = (a, s1)" by fastforce
  note inv = mem_inv_get_or_create [OF assms(1) g]
  note frame = get_or_create_entry_frame [OF g]
  have "\<exists>p. bh_state (ms_heap s1 a) = Partial p"
  proof (cases "mem_get s h")
    case (Some b)
    then have "s1 = s" "a = b" using g by (auto simp: get_or_create_entry_def mem_get_def split: if_splits)
    with new [of b] Some show ?thesis by (cases "bh_state (ms_heap s b)") auto
  next
    case None
    with g show ?thesis
      by (auto simp: get_or_create_entry_def mem_get_def new_partial_def split: if_splits)
  qed
  then obtain p where p: "bh_state (ms_heap s1 a) = Partial p" by blast
  let ?s2 = "set_handle_state a (Complete data (io_outboard Io data)) s1"
  let ?s3 = "?s2\<lparr>ms_temp_tags := t\<rparr>"
  have fin: "finish_import R tx (Inr ?e) s = Some (?s3, [(tx, RAdd [Size (of_nat (length data)), CopyDone, Done tt])])"
    using g p cr frame
    by (simp add: finish_import_def set_handle_state_def send_ok_def send_def)
  have s: "s\<lparr>ms_tasks := ms_tasks s\<rparr> = s" by simp
  have get: "mem_get (?s3\<lparr>ms_idle_waiters := w\<rparr>) h = Some a" "mem_get ?s3 h = Some a" for w
    using inv by (simp_all add: mem_get_def set_handle_state_def split: if_splits)
  have st: "bh_state (ms_heap ?s3 a) = Complete data (io_outboard Io data)"
    by (simp add: set_handle_state_def)
  obtain out' w where h: "handle_task_result R (Inr (ImportResult tx (Inr ?e))) s = Some (?s3\<lparr>ms_idle_waiters := w\<rparr>,
      (tx, RAdd [Size (of_nat (length data)), CopyDone, Done tt]) # out')"
  proof (cases "ms_tasks ?s3 = []")
    case True
    then show thesis
      using that [of "[]" "map (\<lambda>tx. (tx, RUnit)) (ms_idle_waiters ?s3)"] fin
      by (simp add: handle_task_result_def)
  next
    case False
    then show thesis
      using that [of "ms_idle_waiters ?s3" "[]"] fin by (simp add: handle_task_result_def)
  qed
  have "run_task R B Io tr (length (ms_tasks s)) (spawn ?t s) =
      Some (?s3\<lparr>ms_idle_waiters := w\<rparr>, (tx, RAdd [Size (of_nat (length data)), CopyDone, Done tt]) # out')"
    using h by (simp add: run_task_def spawn_def imp)
  then have "actor_run R B Io tr
      [Cmd (CImportBytes tx data scp format open_sender), Task (length (ms_tasks s))] s =
      Some (?s3\<lparr>ms_idle_waiters := w\<rparr>, (tx, RAdd [Size (of_nat (length data)), CopyDone, Done tt]) # out')"
    by simp
  moreover have "ms_temp_tags (?s3\<lparr>ms_idle_waiters := w\<rparr>) = t"
    "bh_state (ms_heap (?s3\<lparr>ms_idle_waiters := w\<rparr>) a) = Complete data (io_outboard Io data)"
    using st by simp_all
  ultimately show ?thesis using get(1) [of w] by (meson list.set_intros(1))
qed

lemma complete_blob_status:
  assumes "mem_get s h = Some a" "bh_state (ms_heap s a) = Complete data ob"
  shows "handle_blob_status R B h s = CompleteBlob (of_nat (length data))"
proof -
  have "is_complete R B (bf_complete R sz)" for sz
    by (simp add: bf_complete_def is_complete_def size_is_complete_def contains_all subset_to_iff is_all_iff)
  with assms show ?thesis by (simp add: handle_blob_status_def bf_complete_def)
qed

end

section \<open>Deleting blobs\<close>

lemma mem_get_delete_blobs:
  "mem_get (handle_delete_blobs hs force s) h =
    (if h \<noteq> hash_empty \<and> h \<in> set hs \<and> \<not> (\<not> force \<and> h \<in> set (ms_protected s)) then None else mem_get s h)"
  by (induction hs force s rule: handle_delete_blobs.induct)
    (auto simp: mem_get_def bt_get_remove)

text \<open>For runs that export no verified stream.\<close>

definition no_traverse :: "'r traverse" where
  "no_traverse = (\<lambda>_ _ _ _. [])"

section \<open>Properties\<close>

text \<open>
  C1. The memory store is content addressed: in every state its actor reaches, under any
  interleaving of commands, tasks and dropped temporary tags in which imported streams carry
  verified leaves and no task panics, a complete entry found under a hash holds data with this
  hash, and a partial entry holds only bytes of the blob with this hash. For blobs shorter than
  \<open>2^64 - 1024\<close>, an export of ranges of a complete entry sends exactly the requested bytes; one of a
  partial entry ends with an error or has sent exactly the requested bytes below the size that the
  entry knows, which is 0 as long as nothing has arrived.
\<close>

theorem mem_store_content_addressed:
  assumes "store_laws R B Io"
    and "mem_reachable R B Io tr (\<lambda>e s. verified_event Io cont e \<and> \<not> panics R B Io tr e s) s"
    and "mem_get s h = Some a"
  shows "case bh_state (ms_heap s a) of
      Partial p \<Rightarrow> partial_inv R B (cont h) p \<and>
        (length (cont h) + 1024 < 2 ^ 64 \<longrightarrow>
          (\<exists>ls e. poll_task R B Io tr (TExportRanges tx (mem_get s h) ranges) s =
             Some (s, [(tx, RRanges (map (\<lambda>(off, data). RangesData off data) ls @ (case e of None \<Rightarrow> [] | Some e \<Rightarrow> [RangesError e])))], Inr (Inr UnitResult)) \<and>
             (e = None \<longrightarrow> concat (map snd ls) =
               nths (cont h) {x. x < length (cont h) \<and> x < unat (bf_size (ps_bitfield p)) \<and> rs_contains R ranges (of_nat x)})))
    | Complete d ob \<Rightarrow> io_root Io d = h \<and>
        (length d + 1024 < 2 ^ 64 \<longrightarrow>
          (\<exists>ls. poll_task R B Io tr (TExportRanges tx (mem_get s h) ranges) s =
             Some (s, [(tx, RRanges (map (\<lambda>(off, data). RangesData off data) ls))], Inr (Inr UnitResult)) \<and>
             concat (map snd ls) = nths d {x. x < length d \<and> rs_contains R ranges (of_nat x)}))"
proof -
  have inv: "mem_inv R B Io cont s" using store_laws.mem_inv_reachable [OF assms(1,2)] .
  then have "a < ms_next s \<and> bh_hash (ms_heap s a) = h"
    using assms(3) by (auto simp: mem_inv_def mem_get_def split: if_splits)
  with inv have ok: "storage_ok R B Io cont h (bh_state (ms_heap s a))" by (auto simp: mem_inv_def)
  show ?thesis
  proof (cases "bh_state (ms_heap s a)")
    case (Partial p)
    then have p: "partial_inv R B (cont h) p" using ok by (simp add: storage_ok_def)
    have "\<exists>ls e. poll_task R B Io tr (TExportRanges tx (mem_get s h) ranges) s =
        Some (s, [(tx, RRanges (map (\<lambda>(off, data). RangesData off data) ls @ (case e of None \<Rightarrow> [] | Some e \<Rightarrow> [RangesError e])))], Inr (Inr UnitResult)) \<and>
        (e = None \<longrightarrow> concat (map snd ls) =
          nths (cont h) {x. x < length (cont h) \<and> x < unat (bf_size (ps_bitfield p)) \<and> rs_contains R ranges (of_nat x)})"
      if len: "length (cont h) + 1024 < 2 ^ 64"
    proof -
      obtain ls e where e: "export_ranges_impl R B Io ranges (Partial p) = Some (ls, e)"
        "e = None \<longrightarrow> concat (map snd ls) = nths (cont h) {x. x < length (cont h) \<and> x < unat (bf_size (ps_bitfield p)) \<and> rs_contains R ranges (of_nat x)}"
        using store_laws.export_partial [OF assms(1) p len, of ranges] by blast
      show ?thesis using assms(3) Partial e by (intro exI [of _ ls] exI [of _ e]) (auto simp: export_ranges_def split: option.split)
    qed
    with p Partial show ?thesis by simp
  next
    case (Complete d ob)
    have "\<exists>ls. poll_task R B Io tr (TExportRanges tx (mem_get s h) ranges) s =
        Some (s, [(tx, RRanges (map (\<lambda>(off, data). RangesData off data) ls))], Inr (Inr UnitResult)) \<and>
        concat (map snd ls) = nths d {x. x < length d \<and> rs_contains R ranges (of_nat x)}"
      if len: "length d + 1024 < 2 ^ 64"
    proof -
      obtain ls where "export_ranges_impl R B Io ranges (Complete d ob) = Some (ls, None)"
        "concat (map snd ls) = nths d {x. x < length d \<and> rs_contains R ranges (of_nat x)}"
        using store_laws.export_complete [OF assms(1) len, of ranges ob] by blast
      with assms(3) Complete show ?thesis by (intro exI [of _ ls]) (simp add: export_ranges_def)
    qed
    with ok Complete show ?thesis by (simp add: storage_ok_def)
  qed
qed

lemma tag_for_5: "tt_create (ms_temp_tags (mem_store_new ref_ops)) 0 (hf_new (io_root ref_io [5]) Raw) \<noteq> None"
proof -
  have "checked_add_u64 0 1 = Some 1" by (simp add: checked_add_u64_def)
  then show ?thesis
    by (simp add: mem_store_new_def tt_create_def scope_or_default_def temp_tags_default_def scope_temp_tag_def
        tcm_inc_def tc_inc_def hf_new_def tc_default_def counter_def)
qed

lemma add_5_run:
  "\<exists>s' out a. actor_run ref_ops ref_chunk_ops ref_io no_traverse
      [Cmd (CImportBytes 1 [5] 0 Raw open_sender), Task 0] (mem_store_new ref_ops) = Some (s', out)
    \<and> mem_get s' (io_root ref_io [5]) = Some a \<and> bh_state (ms_heap s' a) = Complete [5] (io_outboard ref_io [5])"
proof -
  let ?s = "mem_store_new ref_ops"
  obtain tt t where c: "tt_create (ms_temp_tags ?s) 0 (hf_new (io_root ref_io [5]) Raw) = Some (tt, t)" using tag_for_5 by auto
  have n: "mem_get ?s (io_root ref_io [5]) = Some a \<Longrightarrow> bh_state (ms_heap ?s a) \<noteq> Complete d ob" for a d ob
    by (simp add: mem_store_new_def new_partial_def)
  have "ms_tasks ?s = []" by (simp add: mem_store_new_def)
  then show ?thesis using refs.add_bytes_run [OF refs.mem_inv_new refl n c, of no_traverse 1] by fastforce
qed

theorem mem_store_content_addressed_witness:
  "\<exists>s ls. mem_reachable ref_ops ref_chunk_ops ref_io no_traverse
      (\<lambda>e s. verified_event ref_io (\<lambda>_. [5]) e \<and> \<not> panics ref_ops ref_chunk_ops ref_io no_traverse e s) s
    \<and> poll_task ref_ops ref_chunk_ops ref_io no_traverse (TExportRanges 2 (mem_get s (io_root ref_io [5])) (rs_all ref_ops)) s =
        Some (s, [(2, RRanges (map (\<lambda>(off, data). RangesData off data) ls))], Inr (Inr UnitResult))
    \<and> concat (map snd ls) = [5]"
proof -
  let ?run = "actor_run ref_ops ref_chunk_ops ref_io no_traverse" and ?P = "\<lambda>e s. verified_event ref_io (\<lambda>_. [5]) e \<and> \<not> panics ref_ops ref_chunk_ops ref_io no_traverse e s"
  obtain s' out a where r: "?run [Cmd (CImportBytes 1 [5] 0 Raw open_sender), Task 0] (mem_store_new ref_ops) = Some (s', out)"
    "mem_get s' (io_root ref_io [5]) = Some a" "bh_state (ms_heap s' a) = Complete [5] (io_outboard ref_io [5])" using add_5_run by blast
  let ?s1 = "(mem_store_new ref_ops)\<lparr>ms_tasks := [TImportBytes 1 [5] 0 Raw open_sender]\<rparr>"
  have e1: "actor_event ref_ops ref_chunk_ops ref_io no_traverse (Cmd (CImportBytes 1 [5] 0 Raw open_sender)) (mem_store_new ref_ops) = Some (?s1, [])"
    by (simp add: mem_store_new_def spawn_def)
  with r(1) obtain out' where e2: "actor_event ref_ops ref_chunk_ops ref_io no_traverse (Task 0) ?s1 = Some (s', out')"
    by (auto split: option.splits)
  have p: "?P (Cmd (CImportBytes 1 [5] 0 Raw open_sender)) (mem_store_new ref_ops)" "?P (Task 0) ?s1"
    by (simp_all add: verified_event_def panics_def)
  have "mem_reachable ref_ops ref_chunk_ops ref_io no_traverse ?P ?s1"
    by (rule mem_reachable.step [where ok = ?P, OF mem_reachable.new p(1) e1])
  from mem_reachable.step [where ok = ?P, OF this p(2) e2] have reach: "mem_reachable ref_ops ref_chunk_ops ref_io no_traverse ?P s'" .
  have n: "nths [5 :: u8] {x. x < length [5 :: u8] \<and> rs_contains ref_ops (rs_all ref_ops) (of_nat x)} = [5]"
    by (simp add: nths_Cons ref.contains_all)
  from mem_store_content_addressed [OF refs.store_laws_axioms reach r(2), of 2 "rs_all ref_ops"]
  obtain ls where "poll_task ref_ops ref_chunk_ops ref_io no_traverse (TExportRanges 2 (mem_get s' (io_root ref_io [5])) (rs_all ref_ops)) s' =
      Some (s', [(2, RRanges (map (\<lambda>(off, data). RangesData off data) ls))], Inr (Inr UnitResult))" "concat (map snd ls) = [5]"
    by (auto simp: r(3) n ref.contains_all simp del: poll_task.simps)
  with reach show ?thesis by blast
qed

text \<open>
  Observing a hash creates a partial entry that knows no size; an export of everything then reports no
  error and sends one empty leaf, as if the blob were empty.
\<close>

lemma observed_exports_nothing:
  "\<exists>s' out. actor_event ref_ops ref_chunk_ops ref_io no_traverse (Cmd (CObserve 1 (from_bytes [1]) (Some 1))) (mem_store_new ref_ops) = Some (s', out)
    \<and> poll_task ref_ops ref_chunk_ops ref_io no_traverse (TExportRanges 2 (mem_get s' (from_bytes [1])) (rs_all ref_ops)) s'
      = Some (s', [(2, RRanges [RangesData 0 []])], Inr (Inr UnitResult))"
proof -
  have "as_bytes (from_bytes [1]) ! 0 \<noteq> as_bytes hash_empty ! 0" by (simp add: as_bytes_from_bytes_padded hash_empty_def)
  then have ne: "from_bytes [1] \<noteq> hash_empty" by auto
  have i: "rs_iter ref_ops (rs_all ref_ops) = [RangeFrom 0]" by (simp add: ref_ops_def boundaries_of_rset_from)
  have z: "bytes_range ref_ops ref_chunk_ops (Included 0) (Excluded 0) = rs_empty ref_ops"
    by (simp add: bytes_range_def bounds_from_range_def ref_chunk_ops_def ref_ops_def rset_rep_eqs)
  have "rs_is_subset ref_ops (rs_empty ref_ops) (rs_empty ref_ops)" by (simp add: ref.is_subset_iff)
  moreover have "io_read ref_io [] 0 0 = Inr []" by (simp add: ref_io_def)
  ultimately have "export_ranges_impl ref_ops ref_chunk_ops ref_io (rs_all ref_ops) (new_partial ref_ops) = Some ([(0, [])], None)"
    using refs.export_loop_nothing [of 0 "[]" "[]"]
    by (simp add: export_ranges_impl_def i z new_partial_def sparse_new_def bf_empty_def Let_def)
  then show ?thesis
    using ne by (auto simp: mem_store_new_def spawn_def get_or_create_entry_def mem_get_def bt_get_def export_ranges_def bt_insert.simps Let_def)
qed

text \<open>
  C22. Adding bytes to the memory store: unless the entry is complete already, once the import task
  has run the blob is complete with this data, its status reports it with its size, the client is
  told size, end of copy and the temporary tag, and the tag protects the hash.
\<close>

theorem add_bytes_stores:
  assumes "store_laws R B Io" "mem_inv R B Io cont s" "h = io_root Io data"
    and "\<And>a d ob. mem_get s h = Some a \<Longrightarrow> bh_state (ms_heap s a) \<noteq> Complete d ob"
    and "tt_create (ms_temp_tags s) scp (hf_new h format) = Some (tt, t)"
  shows "\<exists>s' out a. actor_run R B Io tr
      [Cmd (CImportBytes tx data scp format open_sender), Task (length (ms_tasks s))] s = Some (s', out) \<and>
    (tx, RAdd [Size (of_nat (length data)), CopyDone, Done tt]) \<in> set out \<and>
    mem_get s' h = Some a \<and> bh_state (ms_heap s' a) = Complete data (io_outboard Io data) \<and>
    handle_blob_status R B h s' = CompleteBlob (of_nat (length data)) \<and>
    hf_new h format \<in> set (tt_list (ms_temp_tags s'))"
proof -
  have "tt_ok (ms_temp_tags s)" using assms(2) by (simp add: mem_inv_def)
  from tt_create_lists [OF this assms(5)] have t: "hf_new h format \<in> set (tt_list t)" .
  obtain s' out a where "actor_run R B Io tr
      [Cmd (CImportBytes tx data scp format open_sender), Task (length (ms_tasks s))] s = Some (s', out)"
    "(tx, RAdd [Size (of_nat (length data)), CopyDone, Done tt]) \<in> set out" "mem_get s' h = Some a"
    "bh_state (ms_heap s' a) = Complete data (io_outboard Io data)" "ms_temp_tags s' = t"
    using store_laws.add_bytes_run [OF assms(1-3)] assms(4,5) by blast
  with t store_laws.complete_blob_status [OF assms(1)] show ?thesis by metis
qed

theorem add_bytes_stores_witness:
  "\<exists>s' out. actor_run ref_ops ref_chunk_ops ref_io no_traverse
      [Cmd (CImportBytes 1 [5] 0 Raw open_sender), Task 0] (mem_store_new ref_ops) = Some (s', out) \<and>
    handle_blob_status ref_ops ref_chunk_ops (io_root ref_io [5]) s' = CompleteBlob 1"
proof -
  let ?s = "mem_store_new ref_ops"
  obtain tt t where c: "tt_create (ms_temp_tags ?s) 0 (hf_new (io_root ref_io [5]) Raw) = Some (tt, t)" using tag_for_5 by auto
  have r: "io_root ref_io [5] = io_root ref_io [5]" by simp
  have n: "mem_get ?s (io_root ref_io [5]) = Some a \<Longrightarrow> bh_state (ms_heap ?s a) \<noteq> Complete d ob" for a d ob
    by (simp add: mem_store_new_def new_partial_def)
  from add_bytes_stores [OF refs.store_laws_axioms refs.mem_inv_new r n c, of no_traverse 1]
  show ?thesis by (auto simp: mem_store_new_def)
qed

text \<open>
  Waiting for idleness: as long as no task panics, nobody waits in an idle store, and when the
  last task ends all waiters are answered.
\<close>

theorem idle_waiters_answered:
  assumes "mem_reachable R B Io tr (\<lambda>e s. \<not> panics R B Io tr e s) s"
  shows "(ms_tasks s = [] \<longrightarrow> ms_idle_waiters s = []) \<and>
    (\<forall>t s' s'' r out out'. ms_tasks s = [t] \<longrightarrow> poll_task R B Io tr t s = Some (s', out, Inr (Inr r)) \<longrightarrow>
       run_task R B Io tr 0 s = Some (s'', out') \<longrightarrow>
       (\<forall>tx\<in>set (ms_idle_waiters s). (tx, RUnit) \<in> set out') \<and> ms_idle_waiters s'' = [])"
proof -
  have "waiters_ok s"
    using assms
  proof (induction rule: mem_reachable.induct)
    case new
    show ?case by (simp add: waiters_ok_def mem_store_new_def)
  next
    case (step s e s' out)
    then show ?case by (intro waiters_ok_event [OF step.hyps(3)]) simp_all
  qed
  moreover have "(\<forall>tx\<in>set (ms_idle_waiters s). (tx, RUnit) \<in> set out') \<and> ms_idle_waiters s'' = []"
    if t: "ms_tasks s = [t]" and p: "poll_task R B Io tr t s = Some (s', out, Inr (Inr r))"
      and r: "run_task R B Io tr 0 s = Some (s'', out')" for t s' s'' r out out'
  proof -
    note frame = poll_task_frame [OF p]
    obtain out2 where h: "handle_task_result R (Inr r) (s'\<lparr>ms_tasks := []\<rparr>) = Some (s'', out2)"
      and o: "out' = out @ out2"
      using r t p frame by (auto simp: run_task_def remove_nth_def split: option.splits)
    have "ms_tasks s'' = []"
      using h finish_import_frame(1) [of R]
      by (fastforce simp: handle_task_result_def split: option.splits if_splits task_result.splits)
    with handle_task_result_waiters [OF h] have "ms_idle_waiters s'' = []" by (simp add: waiters_ok_def)
    with handle_task_result_answers [OF h] o frame show ?thesis by auto
  qed
  ultimately show ?thesis unfolding waiters_ok_def by blast
qed

text \<open>The run that shows it: a waiter, and the task that ends.\<close>

theorem idle_waiters_answered_witness:
  "\<exists>s' out. actor_run ref_ops ref_chunk_ops ref_io no_traverse [Cmd (CListBlobs 0), Cmd (CWaitIdle 1), Task 0]
     (mem_store_new ref_ops) = Some (s', out) \<and> (1, RUnit) \<in> set out"
proof -
  let ?s0 = "mem_store_new ref_ops"
  let ?s1 = "spawn (TListBlobs 0 []) ?s0"
  let ?s2 = "?s1\<lparr>ms_idle_waiters := [1]\<rparr>"
  have c1: "actor_event ref_ops ref_chunk_ops ref_io no_traverse (Cmd (CListBlobs 0)) ?s0 = Some (?s1, [])"
    by (simp add: mem_store_new_def)
  have c2: "actor_event ref_ops ref_chunk_ops ref_io no_traverse (Cmd (CWaitIdle 1)) ?s1 = Some (?s2, [])"
    by (simp add: mem_store_new_def spawn_def handle_wait_idle_def)
  have p: "poll_task ref_ops ref_chunk_ops ref_io no_traverse (TListBlobs 0 []) ?s2 = Some (?s2, [], Inr (Inr UnitResult))"
    by simp
  have t: "ms_tasks ?s2 = [TListBlobs 0 []]" by (simp add: spawn_def mem_store_new_def)
  have "run_task ref_ops ref_chunk_ops ref_io no_traverse 0 ?s2 \<noteq> None"
    by (simp add: run_task_def spawn_def mem_store_new_def handle_task_result_def remove_nth_def)
  then obtain s' out where r: "run_task ref_ops ref_chunk_ops ref_io no_traverse 0 ?s2 = Some (s', out)" by auto
  have "mem_reachable ref_ops ref_chunk_ops ref_io no_traverse (\<lambda>e s. \<not> panics ref_ops ref_chunk_ops ref_io no_traverse e s) ?s2"
    by (intro mem_reachable.step [OF mem_reachable.step [OF mem_reachable.new _ c1] _ c2])
      (simp_all add: panics_def)
  from idle_waiters_answered [OF this] t p r have "(1, RUnit) \<in> set out" by fastforce
  with c1 c2 r show ?thesis by simp
qed

text \<open>
  But a task that panics loses the waiters: after a stream that fails in the middle of an
  import, the store is idle, the waiter has not been answered, and no task is left whose end would
  answer it.
\<close>

theorem wait_idle_lost:
  "\<exists>s. actor_run ref_ops ref_chunk_ops ref_io no_traverse
      [Cmd (CImportBao 0 (from_bytes [5]) 1 [Inl ()]), Cmd (CWaitIdle 1), Task 0, Task 0]
      (mem_store_new ref_ops) = Some (s, []) \<and>
    ms_tasks s = [] \<and> ms_idle_waiters s = [1] \<and> (\<forall>i. actor_event ref_ops ref_chunk_ops ref_io no_traverse (Task i) s = None)"
  by (simp add: mem_store_new_def get_or_create_entry_def bt_get_def spawn_def handle_wait_idle_def run_task_def
      set_handle_state_def handle_task_result_def remove_nth_def split: if_splits)

text \<open>
  Deleting blobs removes exactly the entries of the listed hashes that are not protected, or
  all of them when forced; the entry of the empty blob is never removed.
\<close>

theorem delete_blobs_exact:
  "\<exists>s'. handle_command R B (CDeleteBlobs tx hs force) s = Some (s', [(tx, ROk)], None) \<and>
    (\<forall>h. mem_get s' h =
      (if h \<noteq> hash_empty \<and> h \<in> set hs \<and> \<not> (\<not> force \<and> h \<in> set (ms_protected s)) then None else mem_get s h)) \<and>
    ms_heap s' = ms_heap s \<and> ms_tags s' = ms_tags s"
proof -
  have "ms_heap (handle_delete_blobs hs force s) = ms_heap s" "ms_tags (handle_delete_blobs hs force s) = ms_tags s"
    by (induction hs force s rule: handle_delete_blobs.induct) simp_all
  then show ?thesis by (simp add: mem_get_delete_blobs)
qed

end
