(* ===== verification/Blobs_Client.thy ===== *)
theory Blobs_Client
  imports Hash_Seq Mem_Integrity
begin

text \<open>
  The client side of blobs, \<open>src/api/blobs.rs\<close>, on the memory store: adding data and waiting for
  its temporary tag, naming it, and reading a blob back. What other components need of a store of
  blobs is the locale \<open>blob_store\<close>; the memory store provides it, given the documented behaviour of
  the verified traversal of \<open>bao-tree\<close> on complete data (locale \<open>export_laws\<close>).
\<close>

section \<open>Adding\<close>

text \<open>\<open>AddProgress::temp_tag\<close>: the progress items up to the tag.\<close>

fun progress_temp_tag :: "add_progress_item list \<Rightarrow> io_error + temp_tag" where
  "progress_temp_tag [] = Inl OtherIo"
| "progress_temp_tag (Done tt # items) = Inr tt"
| "progress_temp_tag (AddError e # items) = Inl e"
| "progress_temp_tag (_ # items) = progress_temp_tag items"

definition scope_global :: scope where
  "scope_global = 0"

text \<open>What arrives on a channel.\<close>

definition received :: "tx \<Rightarrow> 'r outputs \<Rightarrow> add_progress_item list" where
  "received tx out = concat (map (\<lambda>(t, r). case r of RAdd items \<Rightarrow> if t = tx then items else [] | _ \<Rightarrow> []) out)"

text \<open>
  \<open>add_bytes_with_opts(..).temp_tag()\<close>: the command, the task it starts and the answer. \<open>tx\<close> is the
  channel of the request.
\<close>

definition add_bytes ::
  "'r range_ops \<Rightarrow> 'r chunk_ops \<Rightarrow> io_ops \<Rightarrow> 'r traverse \<Rightarrow> tx \<Rightarrow> 'r mem_state \<Rightarrow> bytes \<Rightarrow> blob_format \<Rightarrow>
   io_error + (temp_tag \<times> 'r mem_state)" where
  "add_bytes R B Io tr tx s data format =
     (case actor_run R B Io tr
        [Cmd (CImportBytes tx data scope_global format open_sender), Task (length (ms_tasks s))] s of
        None \<Rightarrow> Inl OtherIo
      | Some (s', out) \<Rightarrow> rbind (progress_temp_tag (received tx out)) (\<lambda>tt. Inr (tt, s')))"

text \<open>Dropping a temporary tag.\<close>

definition mem_drop :: "'r mem_state \<Rightarrow> temp_tag \<Rightarrow> 'r mem_state" where
  "mem_drop s tt = s\<lparr>ms_temp_tags := drop_temp_tag (ms_temp_tags s) tt\<rparr>"

definition with_named_tag ::
  "'r range_ops \<Rightarrow> 'r chunk_ops \<Rightarrow> io_ops \<Rightarrow> 'r traverse \<Rightarrow> tx \<Rightarrow> 'r mem_state \<Rightarrow> bytes \<Rightarrow> blob_format \<Rightarrow> tag \<Rightarrow>
   io_error + (hash_and_format \<times> 'r mem_state list)" where
  "with_named_tag R B Io tr tx s data format name =
     rbind (add_bytes R B Io tr tx s data format) (\<lambda>(tt, s1).
       let haf = tag_inner tt;
           s2 = tags_set mem_tag_ops s1 name (tag_inner tt);
           s3 = mem_drop s2 tt
       in Inr (haf, [s1, s2, s3]))"

definition with_tag ::
  "'r range_ops \<Rightarrow> 'r chunk_ops \<Rightarrow> io_ops \<Rightarrow> 'r traverse \<Rightarrow> tx \<Rightarrow> 'r mem_state \<Rightarrow> bytes \<Rightarrow> blob_format \<Rightarrow> bytes \<Rightarrow>
   io_error + (tag_info \<times> 'r mem_state list)" where
  "with_tag R B Io tr tx s data format stamp =
     rbind (add_bytes R B Io tr tx s data format) (\<lambda>(tt, s1).
       let h = hf_hash (tag_inner tt);
           fmt = hf_format (tag_inner tt)
       in case tags_create mem_tag_ops s1 stamp (tag_inner tt) of
            None \<Rightarrow> Inl OtherIo
          | Some (name, s2) \<Rightarrow>
              let s3 = mem_drop s2 tt
              in Inr (\<lparr>ti_name = name, ti_format = fmt, ti_hash = h\<rparr>, [s1, s2, s3]))"

section \<open>Reading\<close>

definition mem_export_bao :: "'r range_ops \<Rightarrow> io_ops \<Rightarrow> 'r traverse \<Rightarrow> 'r mem_state \<Rightarrow> hash \<Rightarrow> 'r \<Rightarrow> encoded_item list" where
  "mem_export_bao R Io tr s h ranges =
     export_bao Io tr ranges (map_option (\<lambda>a. (bh_hash (ms_heap s a), bh_state (ms_heap s a))) (mem_get s h))"

definition get_bytes :: "'r range_ops \<Rightarrow> io_ops \<Rightarrow> 'r traverse \<Rightarrow> 'r mem_state \<Rightarrow> hash \<Rightarrow> io_error + bytes" where
  "get_bytes R Io tr s h = data_to_bytes (mem_export_bao R Io tr s h (rs_all R))"

section \<open>The contract of a store of blobs\<close>

text \<open>
  Adding data makes it loadable under its hash, unless other data is there already, and keeps
  what was loadable; dropping a temporary tag does not change what is loadable.
\<close>

locale blob_store =
  fixes valid :: "'s \<Rightarrow> bool"
    and add :: "'s \<Rightarrow> bytes \<Rightarrow> blob_format \<Rightarrow> io_error + (temp_tag \<times> 's)"
    and dropt :: "'s \<Rightarrow> temp_tag \<Rightarrow> 's"
    and load :: "'s \<Rightarrow> hash \<Rightarrow> io_error + bytes"
    and root :: "bytes \<Rightarrow> hash"
  assumes add_valid: "valid s \<Longrightarrow> add s data f = Inr (tag, s') \<Longrightarrow> valid s' \<and> tag_inner tag = hf_new (root data) f"
    and add_load: "valid s \<Longrightarrow> add s data f = Inr (tag, s') \<Longrightarrow>
      (\<forall>d. load s (root data) = Inr d \<longrightarrow> d = data) \<Longrightarrow> load s' (root data) = Inr data"
    and add_keeps: "valid s \<Longrightarrow> add s data f = Inr (tag, s') \<Longrightarrow> h \<noteq> root data \<Longrightarrow> load s' h = load s h"
    and drop_valid: "valid s \<Longrightarrow> valid (dropt s tag)"
    and drop_load: "load (dropt s tag) h = load s h"

text \<open>
  The verified traversal of complete data with its own outboard: the consecutive leaves of the
  data without an error, of a whole number of hashes if the data is.
\<close>

locale export_laws = store_laws R B Io for R :: "'r range_ops" and B and Io +
  fixes tr :: "'r traverse"
  assumes traverse: "items = tr data (outboard_load Io (of_nat (length data)) (io_outboard Io data)) (io_root Io data) (rs_all R) \<Longrightarrow>
    no_errors items \<and> EncDone \<notin> set (butlast items) \<and> consecutive 0 (leaves_of items) \<and>
    concat (map snd (leaves_of items)) = data \<and>
    (length data mod 32 = 0 \<longrightarrow> (\<forall>(off, d)\<in>set (leaves_of items). length d mod 32 = 0))"

definition ref_traverse :: "'r traverse" where
  "ref_traverse data outboard root ranges = [EncSize (of_nat (length data)), EncLeaf 0 data, EncDone]"

interpretation refe: export_laws ref_ops ref_chunk_ops ref_io ref_traverse
  by unfold_locales (simp add: ref_traverse_def)

text \<open>A store whose complete entries carry the outboard of their data.\<close>

definition local_store ::
  "'r range_ops \<Rightarrow> 'r chunk_ops \<Rightarrow> io_ops \<Rightarrow> 'r mem_state \<Rightarrow> bool" where
  "local_store R B Io s \<longleftrightarrow> mem_inv R B Io (\<lambda>_. []) s \<and>
     (\<forall>a<ms_next s. \<forall>d ob. bh_state (ms_heap s a) = Complete d ob \<longrightarrow> ob = io_outboard Io d)"

section \<open>The memory store provides it\<close>

lemma progress_import [simp]:
  "progress_temp_tag [Size n, CopyDone, Done tt] = Inr tt"
  by simp

text \<open>The state after an import: the entry is complete, with the old data if it was complete before.\<close>

definition import_done :: "io_ops \<Rightarrow> nat \<Rightarrow> bytes \<Rightarrow> 'r mem_state \<Rightarrow> 'r mem_state" where
  "import_done Io a data s =
     (case bh_state (ms_heap s a) of
        Complete _ _ \<Rightarrow> s
      | Partial _ \<Rightarrow> set_handle_state a (Complete data (io_outboard Io data)) s)"

lemma import_done_frame [simp]:
  "ms_temp_tags (import_done Io a data s) = ms_temp_tags s" "ms_tags (import_done Io a data s) = ms_tags s"
  "ms_tasks (import_done Io a data s) = ms_tasks s" "ms_data (import_done Io a data s) = ms_data s"
  "ms_empty_hash (import_done Io a data s) = ms_empty_hash s" "ms_next (import_done Io a data s) = ms_next s"
  "bh_hash (ms_heap (import_done Io a data s) b) = bh_hash (ms_heap s b)"
  "b \<noteq> a \<Longrightarrow> ms_heap (import_done Io a data s) b = ms_heap s b"
  by (simp_all add: import_done_def set_handle_state_def split: bao_file_storage.split)

lemma finish_import_done:
  assumes "get_or_create_entry R (ie_root e) s = (a, s1)" "ie_outboard e = io_outboard Io (ie_data e)"
  shows "finish_import R tx (Inr e) s =
    (case tt_create (ms_temp_tags s1) (ie_scope e) (hf_new (ie_root e) (ie_format e)) of
       None \<Rightarrow> None
     | Some (tt, t) \<Rightarrow> Some ((import_done Io a (ie_data e) s1)\<lparr>ms_temp_tags := t\<rparr>,
         [(tx, RAdd (tx_sent (send_ok (ie_tx e) (Done tt))))]))"
  using assms
  by (cases "bh_state (ms_heap s1 a)")
    (simp_all add: finish_import_def import_done_def set_handle_state_def split: option.split)

lemma handle_import_result:
  assumes "handle_task_result R (Inr (ImportResult tx res)) s = Some (s', out)"
  shows "\<exists>s2 out2 w ws. finish_import R tx res s = Some (s2, out2) \<and> s' = s2\<lparr>ms_idle_waiters := w\<rparr> \<and>
    out = out2 @ map (\<lambda>tx. (tx, RUnit)) ws"
proof -
  obtain s2 out2 where f: "finish_import R tx res s = Some (s2, out2)"
    using assms by (auto simp: handle_task_result_def split: option.splits)
  have id: "s2 = s2\<lparr>ms_idle_waiters := ms_idle_waiters s2\<rparr>" by simp
  show ?thesis
  proof (cases "ms_tasks s2 = []")
    case True
    with assms f show ?thesis by (auto simp: handle_task_result_def)
  next
    case False
    with assms f have "s' = s2" "out = out2 @ map (\<lambda>tx. (tx, RUnit)) []" by (auto simp: handle_task_result_def)
    with f id show ?thesis by blast
  qed
qed

lemma add_bytes_cases:
  assumes "add_bytes R B Io tr tx s data format = Inr (tt, s')"
  shows "\<exists>a s1 t w. get_or_create_entry R (io_root Io data) s = (a, s1) \<and>
    tt_create (ms_temp_tags s1) scope_global (hf_new (io_root Io data) format) = Some (tt, t) \<and>
    s' = (import_done Io a data s1)\<lparr>ms_temp_tags := t, ms_idle_waiters := w\<rparr>"
proof -
  let ?h = "io_root Io data"
  let ?t = "TImportBytes tx data scope_global format open_sender"
  let ?px = "\<lparr>tx_sent = [Size (of_nat (length data)), CopyDone], tx_left = None\<rparr>"
  let ?e = "\<lparr>ie_scope = scope_global, ie_format = format, ie_data = data, ie_outboard = io_outboard Io data,
    ie_root = ?h, ie_tx = ?px\<rparr>"
  have imp: "import_bytes Io data scope_global format open_sender = Inr ?e"
    by (simp add: import_bytes_def send_def open_sender_def)
  obtain a s1 where g: "get_or_create_entry R ?h s = (a, s1)" by fastforce
  obtain out where run: "run_task R B Io tr (length (ms_tasks s)) (spawn ?t s) = Some (s', out)"
    and tag: "progress_temp_tag (received tx out) = Inr tt"
    using assms by (auto simp: add_bytes_def rbind_Inr_iff split: option.splits)
  have "handle_task_result R (Inr (ImportResult tx (Inr ?e))) s = Some (s', out)"
    using run by (simp add: run_task_def spawn_def imp split: option.splits)
  from handle_import_result [OF this] obtain s2 out2 w ws where f: "finish_import R tx (Inr ?e) s = Some (s2, out2)"
    and s': "s' = s2\<lparr>ms_idle_waiters := w\<rparr>" "out = out2 @ map (\<lambda>tx. (tx, RUnit)) ws"
    by blast
  from f g obtain tt' t where c: "tt_create (ms_temp_tags s1) scope_global (hf_new ?h format) = Some (tt', t)"
    and s2: "s2 = (import_done Io a data s1)\<lparr>ms_temp_tags := t\<rparr>"
    and out2: "out2 = [(tx, RAdd [Size (of_nat (length data)), CopyDone, Done tt'])]"
    by (auto simp: finish_import_done [where Io = Io and a = a and ?s1.0 = s1] send_ok_def send_def split: option.splits)
  have "received tx out = [Size (of_nat (length data)), CopyDone, Done tt']"
    using s'(2) out2 by (auto simp: received_def)
  with tag have "tt' = tt" by simp
  with g c s2 s'(1) show ?thesis by auto
qed

text \<open>Adding succeeds unless the counter of the temporary tags overflows.\<close>

lemma add_bytes_succeeds:
  fixes R :: "'r range_ops"
  assumes "tt_create (ms_temp_tags s) scope_global (hf_new (io_root Io data) format) = Some (tt, t)"
  shows "\<exists>s'. add_bytes R B Io tr tx s data format = Inr (tt, s') \<and> ms_temp_tags s' = t"
proof -
  let ?h = "io_root Io data"
  let ?t = "TImportBytes tx data scope_global format open_sender"
  let ?px = "\<lparr>tx_sent = [Size (of_nat (length data)), CopyDone], tx_left = None\<rparr>"
  let ?e = "\<lparr>ie_scope = scope_global, ie_format = format, ie_data = data, ie_outboard = io_outboard Io data,
    ie_root = ?h, ie_tx = ?px\<rparr>"
  have imp: "import_bytes Io data scope_global format open_sender = Inr ?e"
    by (simp add: import_bytes_def send_def open_sender_def)
  obtain a s1 where g: "get_or_create_entry R ?h s = (a, s1)" by fastforce
  let ?s2 = "(import_done Io a data s1)\<lparr>ms_temp_tags := t\<rparr>"
  let ?out = "[(tx, RAdd [Size (of_nat (length data)), CopyDone, Done tt])] :: 'r outputs"
  have f: "finish_import R tx (Inr ?e) s = Some (?s2, ?out)"
    using assms get_or_create_entry_frame(4) [OF g]
    by (simp add: finish_import_done [where Io = Io and a = a and ?s1.0 = s1] g send_ok_def send_def)
  have rec: "received tx (?out @ map (\<lambda>tx. (tx, RUnit)) ws) = [Size (of_nat (length data)), CopyDone, Done tt]" for ws
    by (induction ws) (simp_all add: received_def)
  obtain s' ws where "handle_task_result R (Inr (ImportResult tx (Inr ?e))) s =
      Some (s', ?out @ map (\<lambda>tx. (tx, RUnit)) ws)" and "ms_temp_tags s' = t"
  proof (cases "ms_tasks ?s2 = []")
    case True
    with f show thesis
      using that [of "?s2\<lparr>ms_idle_waiters := []\<rparr>" "ms_idle_waiters ?s2"] by (simp add: handle_task_result_def)
  next
    case False
    with f show thesis using that [of ?s2 "[]"] by (simp add: handle_task_result_def)
  qed
  moreover have "run_task R B Io tr (length (ms_tasks s)) (spawn ?t s) =
      handle_task_result R (Inr (ImportResult tx (Inr ?e))) s"
    by (simp add: run_task_def spawn_def imp split: option.split)
  ultimately show ?thesis using rec [of ws] by (simp add: add_bytes_def)
qed

lemma tt_create_inner: "tt_create t s hf = Some (tag, t') \<Longrightarrow> tag_inner tag = hf"
  by (auto simp: tt_create_def scope_temp_tag_def split: prod.splits option.splits)

lemma entry_own:
  "get_or_create_entry R h s = (a, s1) \<Longrightarrow>
    (mem_get s h = Some a \<and> s1 = s) \<or> (mem_get s h = None \<and> a = ms_next s \<and> ms_heap s1 = (ms_heap s)(a := \<lparr>bh_state = new_partial R, bh_hash = h\<rparr>) \<and> ms_next s1 = Suc a)"
  by (auto simp: get_or_create_entry_def mem_get_def split: if_splits option.splits)

lemma entry_others:
  assumes "mem_inv R B Io cont s" "get_or_create_entry R h s = (a, s1)" "h' \<noteq> h"
  shows "mem_get s1 h' = mem_get s h' \<and> (\<forall>b. mem_get s h' = Some b \<longrightarrow> ms_heap s1 b = ms_heap s b \<and> b \<noteq> a)"
proof -
  have get: "mem_get s x = Some b \<Longrightarrow> b < ms_next s \<and> bh_hash (ms_heap s b) = x" for x b
    using assms(1) by (auto simp: mem_inv_def mem_get_def split: if_splits)
  have ok: "bt_ok (ms_data s)" using assms(1) by (simp add: mem_inv_def)
  from entry_own [OF assms(2)] show ?thesis
  proof
    assume "mem_get s h = Some a \<and> s1 = s"
    then show ?thesis using get [of h a] get [of h'] assms(3) by auto
  next
    assume n: "mem_get s h = None \<and> a = ms_next s \<and> ms_heap s1 = (ms_heap s)(a := \<lparr>bh_state = new_partial R, bh_hash = h\<rparr>) \<and> ms_next s1 = Suc a"
    then have "ms_data s1 = bt_insert h a (ms_data s)" "ms_empty_hash s1 = ms_empty_hash s"
      using assms(2) by (auto simp: get_or_create_entry_def mem_get_def split: if_splits option.splits)
    then have "mem_get s1 h' = mem_get s h'" using assms(3) by (simp add: mem_get_def bt_get_insert [OF ok])
    with n get [of h'] show ?thesis by auto
  qed
qed

context export_laws
begin

lemma get_bytes_complete:
  assumes "local_store R B Io s" "mem_get s h = Some a" "bh_state (ms_heap s a) = Complete d ob"
  shows "get_bytes R Io tr s h = Inr d" and
    "length d mod 32 = 0 \<Longrightarrow> hashes (mem_export_bao R Io tr s h (rs_all R)) = map Inr (hash_seq_iter d)"
proof -
  have inv: "mem_inv R B Io (\<lambda>_. []) s" using assms(1) by (simp add: local_store_def)
  then have a: "a < ms_next s" "bh_hash (ms_heap s a) = h"
    using assms(2) by (auto simp: mem_inv_def mem_get_def split: if_splits)
  then have ob: "ob = io_outboard Io d" using assms(1,3) by (auto simp: local_store_def)
  have "storage_ok R B Io (\<lambda>_. []) h (Complete d ob)" using inv a assms(3) by (auto simp: mem_inv_def)
  then have "io_root Io d = h" by (simp add: storage_ok_def)
  with assms(2,3) ob a have e: "mem_export_bao R Io tr s h (rs_all R) =
      tr d (outboard_load Io (of_nat (length d)) (io_outboard Io d)) (io_root Io d) (rs_all R)"
    by (simp add: mem_export_bao_def export_bao_def)
  note t = traverse [OF e]
  then show "get_bytes R Io tr s h = Inr d" by (simp add: get_bytes_def data_to_bytes_leaves)
  assume "length d mod 32 = 0"
  with t show "hashes (mem_export_bao R Io tr s h (rs_all R)) = map Inr (hash_seq_iter d)"
    using export_stream_hashes_list [of "mem_export_bao R Io tr s h (rs_all R)" d] by simp
qed

lemma add_bytes_entry:
  assumes "local_store R B Io s" "add_bytes R B Io tr tx s data format = Inr (tt, s')"
  shows "local_store R B Io s' \<and> tag_inner tt = hf_new (io_root Io data) format \<and>
    hf_new (io_root Io data) format \<in> set (tt_list (ms_temp_tags s')) \<and> ms_tags s' = ms_tags s \<and>
    (\<exists>a d ob. mem_get s' (io_root Io data) = Some a \<and> bh_state (ms_heap s' a) = Complete d ob \<and>
      (d = data \<or> mem_get s (io_root Io data) = Some a \<and> bh_state (ms_heap s a) = Complete d ob)) \<and>
    (\<forall>h. h \<noteq> io_root Io data \<longrightarrow> mem_get s' h = mem_get s h \<and>
      (\<forall>a. mem_get s h = Some a \<longrightarrow> ms_heap s' a = ms_heap s a))"
proof -
  let ?h = "io_root Io data"
  obtain a s1 t w where g: "get_or_create_entry R ?h s = (a, s1)"
    and c: "tt_create (ms_temp_tags s1) scope_global (hf_new ?h format) = Some (tt, t)"
    and s': "s' = (import_done Io a data s1)\<lparr>ms_temp_tags := t, ms_idle_waiters := w\<rparr>"
    using add_bytes_cases [OF assms(2)] by blast
  have inv: "mem_inv R B Io (\<lambda>_. []) s" using assms(1) by (simp add: local_store_def)
  note inv1 = mem_inv_get_or_create [OF inv g]
  note frame = get_or_create_entry_frame [OF g]
  have ok: "tt_ok (ms_temp_tags s1)" using inv1 by (simp add: mem_inv_def)
  have inv': "mem_inv R B Io (\<lambda>_. []) s'"
  proof -
    have "storage_ok R B Io (\<lambda>_. []) (bh_hash (ms_heap s1 a)) (Complete data (io_outboard Io data))"
      using inv1 by (simp add: storage_ok_def)
    then have "mem_inv R B Io (\<lambda>_. []) (import_done Io a data s1)"
      using inv1 mem_inv_set_handle [of R B Io "\<lambda>_. []" s1 a]
      by (cases "bh_state (ms_heap s1 a)") (simp_all add: import_done_def)
    then show ?thesis unfolding s' by (intro mem_inv_idle mem_inv_temp_tags tt_ok_create [OF ok c])
  qed
  have oth: "mem_get s' h = mem_get s h \<and> (\<forall>b. mem_get s h = Some b \<longrightarrow> ms_heap s' b = ms_heap s b)"
    if "h \<noteq> ?h" for h
    using entry_others [OF inv g that] by (auto simp: s' mem_get_def)
  have own: "mem_get s' ?h = Some a" using inv1 by (auto simp: s' mem_get_def)
  obtain d ob where st: "bh_state (ms_heap s' a) = Complete d ob"
    and d: "d = data \<and> ob = io_outboard Io data \<or> mem_get s ?h = Some a \<and> bh_state (ms_heap s a) = Complete d ob"
    using entry_own [OF g]
    by (cases "bh_state (ms_heap s1 a)") (auto simp: s' import_done_def set_handle_state_def new_partial_def)
  have obs: "b < ms_next s \<Longrightarrow> bh_state (ms_heap s b) = Complete d ob \<Longrightarrow> ob = io_outboard Io d" for b d ob
    using assms(1) by (simp add: local_store_def)
  have "ob' = io_outboard Io d'" if "b < ms_next s'" "bh_state (ms_heap s' b) = Complete d' ob'" for b d' ob'
  proof (cases "b = a")
    case True
    have "mem_get s ?h = Some a \<Longrightarrow> a < ms_next s"
      using inv by (auto simp: mem_inv_def mem_get_def split: if_splits)
    with True that(2) st d obs [of a] show ?thesis by auto
  next
    case False
    then have "ms_heap s' b = ms_heap s b" "b < ms_next s"
      using that(1) entry_own [OF g] by (auto simp: s')
    with that(2) obs [of b] show ?thesis by auto
  qed
  with inv' have "local_store R B Io s'" by (simp add: local_store_def)
  then show ?thesis
    using st d oth own tt_create_lists [OF ok c] tt_create_inner [OF c] frame(3) by (auto simp: s')
qed

end

sublocale export_laws \<subseteq> mb: blob_store "local_store R B Io" "add_bytes R B Io tr 0" mem_drop "get_bytes R Io tr" "io_root Io"
proof
  fix s data f tag s'
  assume s: "local_store R B Io s" and a: "add_bytes R B Io tr 0 s data f = Inr (tag, s')"
  note e = add_bytes_entry [OF s a]
  show "local_store R B Io s' \<and> tag_inner tag = hf_new (io_root Io data) f" using e by blast
  show "get_bytes R Io tr s' (io_root Io data) = Inr data"
    if "\<forall>d. get_bytes R Io tr s (io_root Io data) = Inr d \<longrightarrow> d = data"
    using e that get_bytes_complete(1) [OF s] get_bytes_complete(1) [of s'] by metis
  show "get_bytes R Io tr s' h = get_bytes R Io tr s h" if "h \<noteq> io_root Io data" for h
  proof -
    have "mem_get s' h = mem_get s h" "mem_get s h = Some b \<Longrightarrow> ms_heap s' b = ms_heap s b" for b
      using e that by blast+
    then show ?thesis by (cases "mem_get s h") (simp_all add: get_bytes_def mem_export_bao_def)
  qed
next
  fix s :: "'r mem_state" and tag h
  show "local_store R B Io (mem_drop s tag)" if "local_store R B Io s"
    using that mem_inv_temp_tags tt_ok_drop by (auto simp: local_store_def mem_drop_def mem_inv_def)
  show "get_bytes R Io tr (mem_drop s tag) h = get_bytes R Io tr s h"
    by (simp add: get_bytes_def mem_export_bao_def mem_get_def mem_drop_def)
qed

context export_laws
begin

lemma mem_blob_store:
  "blob_store (local_store R B Io) (add_bytes R B Io tr 0) mem_drop (get_bytes R Io tr) (io_root Io)"
  by (rule mb.blob_store_axioms)

end

end
