(* ===== verification/Collection.thy ===== *)
theory Collection
  imports Blobs_Client
begin

text \<open>
  Collections (\<open>src/format/collection.rs\<close>): named hashes, stored as a blob of names and a hash
  sequence that links to it. The serialization of the names by \<open>postcard\<close> and the hash function are
  parameters. Storing and loading rely on the contract \<open>blob_store\<close> only.
\<close>

section \<open>Definitions\<close>

type_synonym collection = "(string \<times> hash) list"

record collection_meta =
  cm_header :: bytes
  cm_names :: "string list"

datatype collection_error =
    LoadFailed io_error | InvalidHashSequence | EmptyHashSeq | PostcardError | LengthMismatch
  | ExpectedMeta | MetaLinkNotFound | WrongHeader

record meta_codec =
  mc_to_vec :: "collection_meta \<Rightarrow> bytes"                     \<comment> \<open>\<open>postcard::to_stdvec\<close>\<close>
  mc_from_bytes :: "bytes \<Rightarrow> collection_meta option"          \<comment> \<open>\<open>postcard::from_bytes\<close>\<close>

text \<open>\<open>b"CollectionV0."\<close>\<close>

definition header :: bytes where
  "header = [67, 111, 108, 108, 101, 99, 116, 105, 111, 110, 86, 48, 46]"

definition coll_links :: "collection \<Rightarrow> hash list" where
  "coll_links c = map (\<lambda>(_, h). h) c"

definition coll_names :: "collection \<Rightarrow> string list" where
  "coll_names c = map (\<lambda>(name, _). name) c"

definition coll_extend :: "collection \<Rightarrow> (string \<times> hash) list \<Rightarrow> collection" where
  "coll_extend c iter = c @ map (\<lambda>(k, v). (k, v)) iter"

definition coll_from_iter :: "(string \<times> hash) list \<Rightarrow> collection" where
  "coll_from_iter iter = coll_extend [] iter"

definition coll_push :: "collection \<Rightarrow> string \<Rightarrow> hash \<Rightarrow> collection" where
  "coll_push c name h = c @ [(name, h)]"

definition coll_into_parts :: "collection \<Rightarrow> hash list \<times> collection_meta" where
  "coll_into_parts c =
     (let (names, links) = fold (\<lambda>(name, h) (names, links). (names @ [name], links @ [h])) c ([], [])
      in (links, \<lparr>cm_header = header, cm_names = names\<rparr>))"

definition coll_from_parts :: "hash list \<Rightarrow> collection_meta \<Rightarrow> collection" where
  "coll_from_parts links meta = coll_from_iter (zip (cm_names meta) links)"

definition to_blobs :: "meta_codec \<Rightarrow> (bytes \<Rightarrow> hash) \<Rightarrow> collection \<Rightarrow> bytes list" where
  "to_blobs P blake3 c =
     (let meta = \<lparr>cm_header = header, cm_names = coll_names c\<rparr>;
          meta_bytes = mc_to_vec P meta;
          meta_bytes_hash = blake3 meta_bytes;
          links = hash_seq_from_iter (meta_bytes_hash # coll_links c)
      in [meta_bytes, links])"

text \<open>
  \<open>read_fsm\<close>, given what the state machine delivers: the data of the root, and, if there are
  children, the data of the first child as a function of its hash.
\<close>

definition read_fsm ::
  "meta_codec \<Rightarrow> io_error + bytes \<Rightarrow> (hash \<Rightarrow> io_error + bytes) option \<Rightarrow> collection_error + (hash_seq \<times> collection)" where
  "read_fsm P root_data next_blob =
     (case root_data of
        Inl e \<Rightarrow> Inl (LoadFailed e)
      | Inr data \<Rightarrow>
          (case hash_seq_new data of
             None \<Rightarrow> Inl InvalidHashSequence
           | Some links \<Rightarrow>
               (case next_blob of
                  None \<Rightarrow> Inl ExpectedMeta
                | Some at_meta \<Rightarrow>
                    (case hash_seq_pop_front links of
                       Some (Some meta_link, children) \<Rightarrow>
                         (case at_meta meta_link of
                            Inl e \<Rightarrow> Inl (LoadFailed e)
                          | Inr names \<Rightarrow>
                              (case mc_from_bytes P names of
                                 None \<Rightarrow> Inl PostcardError
                               | Some names \<Rightarrow>
                                   if cm_header names \<noteq> header then Inl WrongHeader
                                   else Inr (links, coll_from_parts (hash_seq_iter children) names)))
                     | _ \<Rightarrow> Inl MetaLinkNotFound))))"

definition coll_load :: "meta_codec \<Rightarrow> (hash \<Rightarrow> io_error + bytes) \<Rightarrow> hash \<Rightarrow> collection_error + collection" where
  "coll_load P load root =
     (case load root of
        Inl e \<Rightarrow> Inl (LoadFailed e)
      | Inr hs \<Rightarrow>
          (case hash_seq_new hs of
             None \<Rightarrow> Inl InvalidHashSequence
           | Some hs \<Rightarrow>
               (case hash_seq_iter hs of
                  [] \<Rightarrow> Inl EmptyHashSeq
                | meta_hash # _ \<Rightarrow>
                    (case load meta_hash of
                       Inl e \<Rightarrow> Inl (LoadFailed e)
                     | Inr meta \<Rightarrow>
                         (case mc_from_bytes P meta of
                            None \<Rightarrow> Inl PostcardError
                          | Some meta \<Rightarrow>
                              if length (cm_names meta) + 1 = hash_seq_len hs
                              then Inr (coll_from_parts (drop 1 (hash_seq_iter hs)) meta)
                              else Inl LengthMismatch)))))"

definition coll_store ::
  "meta_codec \<Rightarrow> ('s \<Rightarrow> bytes \<Rightarrow> blob_format \<Rightarrow> io_error + (temp_tag \<times> 's)) \<Rightarrow> ('s \<Rightarrow> temp_tag \<Rightarrow> 's) \<Rightarrow>
   collection \<Rightarrow> 's \<Rightarrow> io_error + (temp_tag \<times> 's)" where
  "coll_store P add dropt c s =
     (let (links, meta) = coll_into_parts c;
          meta_bytes = mc_to_vec P meta
      in rbind (add s meta_bytes Raw) (\<lambda>(meta_tag, s).
         let links_bytes = hash_seq_from_iter (hf_hash (tag_inner meta_tag) # links) in
         rbind (add s links_bytes HashSeq) (\<lambda>(links_tag, s).
         Inr (links_tag, dropt s meta_tag))))"

section \<open>What it needs of a store\<close>

locale codec_laws =
  fixes P :: meta_codec
  assumes from_to: "length (cm_header m) = 13 \<Longrightarrow> mc_from_bytes P (mc_to_vec P m) = Some m"

section \<open>Lemmas\<close>

lemma coll_into_parts_eq: "coll_into_parts c = (coll_links c, \<lparr>cm_header = header, cm_names = coll_names c\<rparr>)"
proof -
  have "fold (\<lambda>(name, h) (names, links). (names @ [name], links @ [h])) c (ns, ls) =
      (ns @ coll_names c, ls @ coll_links c)" for ns ls
    by (induction c arbitrary: ns ls) (auto simp: coll_names_def coll_links_def)
  then show ?thesis by (simp add: coll_into_parts_def)
qed

lemma coll_from_parts_zip: "coll_from_parts links meta = zip (cm_names meta) links"
  by (simp add: coll_from_parts_def coll_from_iter_def coll_extend_def)

lemma zip_names_links: "zip (coll_names c) (coll_links c) = c"
  by (induction c) (auto simp: coll_names_def coll_links_def)

lemma length_header [simp]: "length header = 13"
  by (simp add: header_def)

lemma length_coll [simp]: "length (coll_names c) = length c" "length (coll_links c) = length c"
  by (simp_all add: coll_names_def coll_links_def)

context codec_laws
begin

lemma load_blobs:
  assumes "load meta_hash = Inr (mc_to_vec P \<lparr>cm_header = header, cm_names = coll_names c\<rparr>)"
    and "load r = Inr (hash_seq_from_iter (meta_hash # coll_links c))"
  shows "coll_load P load r = Inr c"
proof -
  let ?m = "\<lparr>cm_header = header, cm_names = coll_names c\<rparr>"
  have "mc_from_bytes P (mc_to_vec P ?m) = Some ?m" by (rule from_to) simp
  with assms show ?thesis
    by (simp add: coll_load_def hash_seq_new_def length_hash_seq_from_iter hash_seq_len_def coll_from_parts_zip
        zip_names_links)
qed

end

locale collection_store = codec_laws P + blob_store valid add dropt load root
  for P and valid :: "'s \<Rightarrow> bool" and add dropt load root
begin

text \<open>The two blobs of a collection.\<close>

lemma store_load:
  assumes "valid s" "coll_store P add dropt c s = Inr (tag, s')"
    and "to_blobs P root c = [m, l]"
    and "\<forall>d. load s (root m) = Inr d \<longrightarrow> d = m" "\<forall>d. load s (root l) = Inr d \<longrightarrow> d = l" "root m = root l \<longrightarrow> m = l"
  shows "coll_load P (load s') (hf_hash (tag_inner tag)) = Inr c \<and> tag_inner tag = hf_new (root l) HashSeq"
proof -
  have m: "m = mc_to_vec P \<lparr>cm_header = header, cm_names = coll_names c\<rparr>"
    and l: "l = hash_seq_from_iter (root m # coll_links c)"
    using assms(3) by (auto simp: to_blobs_def Let_def)
  obtain mt s1 s2 where a1: "add s m Raw = Inr (mt, s1)"
    and a2: "add s1 (hash_seq_from_iter (hf_hash (tag_inner mt) # coll_links c)) HashSeq = Inr (tag, s2)"
    and s': "s' = dropt s2 mt"
    using assms(2) by (auto simp: coll_store_def coll_into_parts_eq rbind_Inr_iff m)
  have v1: "valid s1" "hf_hash (tag_inner mt) = root m" using add_valid [OF assms(1) a1] by (auto simp: hf_new_def)
  with a2 have a2: "add s1 l HashSeq = Inr (tag, s2)" by (simp add: l)
  have lm: "load s1 (root m) = Inr m" using add_load [OF assms(1) a1] assms(4) by blast
  have "\<forall>d. load s1 (root l) = Inr d \<longrightarrow> d = l"
    using add_keeps [OF assms(1) a1, of "root l"] assms(5,6) lm by (metis sum.inject(2))
  from add_load [OF v1(1) a2 this] have ll: "load s' (root l) = Inr l" by (simp add: s' drop_load)
  have "load s' (root m) = Inr m"
    using add_keeps [OF v1(1) a2, of "root m"] lm ll assms(6) by (metis s' drop_load)
  moreover have "tag_inner tag = hf_new (root l) HashSeq" using add_valid [OF v1(1) a2] by blast
  ultimately show ?thesis
    using load_blobs [of "load s'" "root m" c "root l"] ll
    by (simp only: hf_new_def hash_and_format.simps m [symmetric] l [symmetric])
qed

end

section \<open>A serialization\<close>

text \<open>Each character as two bytes, each name closed by a zero byte.\<close>

fun enc_name :: "string \<Rightarrow> bytes" where
  "enc_name [] = [0]"
| "enc_name (c # cs) = 1 # of_nat (of_char c) # enc_name cs"

fun dec_names :: "string \<Rightarrow> bytes \<Rightarrow> string list option" where
  "dec_names cs [] = (if cs = [] then Some [] else None)"
| "dec_names cs (b # bs) =
     (if b = 0 then map_option ((#) cs) (dec_names [] bs)
      else case bs of [] \<Rightarrow> None | x # bs \<Rightarrow> dec_names (cs @ [char_of (unat x)]) bs)"

definition ref_codec :: meta_codec where
  "ref_codec =
     \<lparr>mc_to_vec = (\<lambda>m. cm_header m @ concat (map enc_name (cm_names m))),
      mc_from_bytes = (\<lambda>bs. if length bs < 13 then None
        else map_option (\<lambda>ns. \<lparr>cm_header = take 13 bs, cm_names = ns\<rparr>) (dec_names [] (drop 13 bs)))\<rparr>"

lemma char_of_of_char_u8 [simp]: "char_of (unat (of_nat (of_char c) :: u8)) = c"
proof -
  have "(of_char c :: nat) < 2 ^ 8" by simp
  then have "unat (of_nat (of_char c) :: u8) = of_char c" by (simp add: unat_of_nat take_bit_nat_eq_self)
  then show ?thesis by simp
qed

lemma dec_enc_name: "dec_names p (enc_name n @ bs) = map_option ((#) (p @ n)) (dec_names [] bs)"
  by (induction n arbitrary: p) simp_all

lemma dec_enc_names: "dec_names [] (concat (map enc_name ns)) = Some ns"
  by (induction ns) (simp_all add: dec_enc_name)

interpretation refcodec: codec_laws ref_codec
  by unfold_locales (simp add: ref_codec_def dec_enc_names)

interpretation refcoll: collection_store ref_codec "local_store ref_ops ref_chunk_ops ref_io"
  "add_bytes ref_ops ref_chunk_ops ref_io ref_traverse 0" mem_drop "get_bytes ref_ops ref_io ref_traverse" "io_root ref_io" ..

section \<open>Properties\<close>

text \<open>
  C30. Storing a collection in the memory store and loading it back: if neither of its two blobs
  clashes with another blob under the same hash, the tag that \<open>store\<close> returns is for the hash
  sequence of the collection, and \<open>load\<close> of its hash returns the collection with all names and
  hashes in order.
\<close>

theorem collection_store_load:
  assumes "export_laws R B Io tr" "codec_laws P" "local_store R B Io s"
    and "coll_store P (add_bytes R B Io tr 0) mem_drop c s = Inr (tag, s')" "to_blobs P (io_root Io) c = [m, l]"
    and "\<forall>d. get_bytes R Io tr s (io_root Io m) = Inr d \<longrightarrow> d = m"
    and "\<forall>d. get_bytes R Io tr s (io_root Io l) = Inr d \<longrightarrow> d = l"
    and "io_root Io m = io_root Io l \<longrightarrow> m = l"
  shows "coll_load P (get_bytes R Io tr s') (hf_hash (tag_inner tag)) = Inr c \<and>
    tag_inner tag = hf_new (io_root Io l) HashSeq"
proof -
  have "blob_store (local_store R B Io) (add_bytes R B Io tr 0) mem_drop (get_bytes R Io tr) (io_root Io)"
    using assms(1) by (rule export_laws.mem_blob_store)
  then have "collection_store P (local_store R B Io) (add_bytes R B Io tr 0) mem_drop (get_bytes R Io tr) (io_root Io)"
    using assms(2) by (simp add: collection_store_def)
  from collection_store.store_load [OF this assms(3-8)] show ?thesis .
qed

theorem collection_store_load_witness:
  "\<exists>tag s'. coll_store ref_codec (add_bytes ref_ops ref_chunk_ops ref_io ref_traverse 0) mem_drop []
      (mem_store_new ref_ops) = Inr (tag, s') \<and>
    coll_load ref_codec (get_bytes ref_ops ref_io ref_traverse s') (hf_hash (tag_inner tag)) = Inr []"
proof -
  let ?s = "mem_store_new ref_ops"
  let ?add = "add_bytes ref_ops ref_chunk_ops ref_io ref_traverse 0"
  let ?m = "header" and ?l = "hash_seq_from_iter [io_root ref_io header]"
  have blobs: "to_blobs ref_codec (io_root ref_io) [] = [?m, ?l]"
    by (simp add: to_blobs_def ref_codec_def coll_names_def coll_links_def)
  have ne: "io_root ref_io ?m \<noteq> io_root ref_io ?l"
  proof
    assume "io_root ref_io ?m = io_root ref_io ?l"
    then have "hd (as_bytes (io_root ref_io ?m)) = hd (as_bytes (io_root ref_io ?l))" by simp
    then show False by (simp add: ref_io_def as_bytes_from_bytes_padded length_hash_seq_from_iter)
  qed
  have none: "get_bytes ref_ops ref_io ref_traverse ?s h = Inr d \<Longrightarrow> h = hash_empty" for h d
    by (rule ccontr) (simp add: get_bytes_def mem_export_bao_def mem_get_def mem_store_new_def bt_get_def
        export_bao_def data_to_bytes_def)
  have one: "checked_add_u64 0 1 = Some 1" by (simp add: checked_add_u64_def)
  let ?hm = "hf_new (io_root ref_io ?m) Raw" and ?hl = "hf_new (io_root ref_io ?l) HashSeq"
  have "\<exists>tag1 t1. tt_create temp_tags_default scope_global ?hm = Some (tag1, t1) \<and>
      bt_get (tt_scopes t1) scope_global = Some 0 \<and> bt_get (tt_heap t1 0) (io_root ref_io ?l) = None"
    using ne by (simp add: tt_create_def scope_or_default_def temp_tags_default_def scope_temp_tag_def
        tcm_inc_def tc_inc_def tc_default_def counter_def one hf_new_def bt_get_def)
  then obtain tag1 t1 where c1: "tt_create (ms_temp_tags ?s) scope_global ?hm = Some (tag1, t1)"
    and t1: "bt_get (tt_scopes t1) scope_global = Some 0" "bt_get (tt_heap t1 0) (io_root ref_io ?l) = None"
    by (auto simp: mem_store_new_def)
  from t1 have c2: "\<exists>tag2 t2. tt_create t1 scope_global ?hl = Some (tag2, t2)"
    by (simp add: tt_create_def scope_or_default_def scope_temp_tag_def tcm_inc_def tc_inc_def tc_default_def
        counter_def one hf_new_def)
  obtain s1 where a1: "?add ?s ?m Raw = Inr (tag1, s1)" "ms_temp_tags s1 = t1"
    using add_bytes_succeeds [OF c1] by blast
  with c2 obtain tag2 t2 where "tt_create (ms_temp_tags s1) scope_global ?hl = Some (tag2, t2)" by blast
  then obtain s2 where a2: "?add s1 ?l HashSeq = Inr (tag2, s2)" using add_bytes_succeeds by blast
  have loc: "local_store ref_ops ref_chunk_ops ref_io ?s"
    using refs.mem_inv_new by (simp add: local_store_def mem_store_new_def new_partial_def)
  have "hf_hash (tag_inner tag1) = io_root ref_io ?m"
    using refe.mb.add_valid [OF loc a1(1)] by (simp add: hf_new_def)
  with a1 a2 have st: "coll_store ref_codec ?add mem_drop [] ?s = Inr (tag2, mem_drop s2 tag1)"
    by (simp add: coll_store_def coll_into_parts_eq ref_codec_def coll_names_def coll_links_def)
  have nh: "io_root ref_io d \<noteq> hash_empty" if "length d = 13 \<or> length d = 32" for d
  proof
    assume "io_root ref_io d = hash_empty"
    then have "hd (as_bytes (io_root ref_io d)) = hd (as_bytes hash_empty)" by simp
    then show False using that by (auto simp: ref_io_def as_bytes_from_bytes_padded hash_empty_def)
  qed
  have "\<forall>d. get_bytes ref_ops ref_io ref_traverse ?s (io_root ref_io x) = Inr d \<longrightarrow> d = x"
    if "length x = 13 \<or> length x = 32" for x
    using none nh [OF that] by blast
  then have nm: "\<forall>d. get_bytes ref_ops ref_io ref_traverse ?s (io_root ref_io ?m) = Inr d \<longrightarrow> d = ?m"
    and nl: "\<forall>d. get_bytes ref_ops ref_io ref_traverse ?s (io_root ref_io ?l) = Inr d \<longrightarrow> d = ?l"
    by (simp_all add: length_hash_seq_from_iter)
  have imp: "io_root ref_io ?m = io_root ref_io ?l \<longrightarrow> ?m = ?l" using ne by blast
  from collection_store_load [OF refe.export_laws_axioms refcodec.codec_laws_axioms loc st blobs nm nl imp] st
  show ?thesis by blast
qed

text \<open>
  \<open>load\<close> does not look at the header of the names, which \<open>read_fsm\<close> checks; \<open>read_fsm\<close> does not
  compare the number of names with the number of links, which \<open>load\<close> checks, and drops the links
  without a name.
\<close>

lemma load_ignores_header:
  assumes "codec_laws P" "length bad = 13" "bad \<noteq> header"
    and "load mh = Inr (mc_to_vec P \<lparr>cm_header = bad, cm_names = []\<rparr>)" "load r = Inr (hash_seq_from_iter [mh])"
  shows "coll_load P load r = Inr [] \<and> read_fsm P (load r) (Some load) = Inl WrongHeader"
proof -
  have d: "mc_from_bytes P (mc_to_vec P \<lparr>cm_header = bad, cm_names = []\<rparr>) =
      Some \<lparr>cm_header = bad, cm_names = []\<rparr>"
    using codec_laws.from_to [OF assms(1), of "\<lparr>cm_header = bad, cm_names = []\<rparr>"] assms(2) by simp
  with assms show ?thesis
    by (simp add: coll_load_def read_fsm_def hash_seq_new_def length_hash_seq_from_iter hash_seq_len_def
        coll_from_parts_zip hash_seq_pop_front_Cons)
qed

end
