(* ===== verification/Redb.thy ===== *)
theory Redb
  imports BTree_Map Chunks
begin

text \<open>
  The tables of the embedded database \<open>redb\<close>, which is not part of the program: an ordered map with
  fallible operations. The operations the program calls are the record \<open>table_ops\<close>; the documented
  behaviour, for the calls that succeed, is the locale \<open>redb_table\<close>, and a table whose calls do not
  fail is \<open>reliable_table\<close>. Sorted association lists provide both.
\<close>

datatype storage_error = StorageFailed

record ('k, 'v, 't) table_ops =
  tb_get :: "'t \<Rightarrow> 'k \<Rightarrow> storage_error + 'v option"
  tb_insert :: "'t \<Rightarrow> 'k \<Rightarrow> 'v \<Rightarrow> storage_error + 't"
  tb_remove :: "'t \<Rightarrow> 'k \<Rightarrow> storage_error + ('v option \<times> 't)"
  tb_range :: "'t \<Rightarrow> 'k bound \<Rightarrow> 'k bound \<Rightarrow> storage_error + (storage_error + 'k \<times> 'v) list"
  tb_extract :: "'t \<Rightarrow> 'k bound \<Rightarrow> 'k bound \<Rightarrow> storage_error + 't"
    \<comment> \<open>\<open>extract_from_if\<close> with a condition that is always true, drained\<close>

definition in_bounds :: "'k :: linorder bound \<Rightarrow> 'k bound \<Rightarrow> 'k \<Rightarrow> bool" where
  "in_bounds a b k \<longleftrightarrow>
     (case a of Included x \<Rightarrow> x \<le> k | Excluded x \<Rightarrow> x < k | Unbounded \<Rightarrow> True) \<and>
     (case b of Included y \<Rightarrow> k \<le> y | Excluded y \<Rightarrow> k < y | Unbounded \<Rightarrow> True)"

definition rights :: "('e + 'a) list \<Rightarrow> 'a list" where
  "rights xs = concat (map (\<lambda>x. case x of Inl _ \<Rightarrow> [] | Inr y \<Rightarrow> [y]) xs)"

lemma rights_simps [simp]:
  "rights [] = []" "rights (Inl e # xs) = rights xs" "rights (Inr y # xs) = y # rights xs"
  by (simp_all add: rights_def)

lemma rights_map_Inr [simp]: "rights (map Inr xs) = xs"
  by (induction xs) simp_all

lemma in_rights_iff: "y \<in> set (rights xs) \<longleftrightarrow> Inr y \<in> set xs"
proof (induction xs)
  case (Cons x xs)
  then show ?case by (cases x) auto
qed simp

locale redb_table =
  fixes T :: "('k :: linorder, 'v, 't) table_ops"
    and valid :: "'t \<Rightarrow> bool"
    and look :: "'t \<Rightarrow> 'k \<Rightarrow> 'v option"
  assumes finite_look: "valid t \<Longrightarrow> finite (dom (look t))"
    and get: "valid t \<Longrightarrow> tb_get T t k = Inr r \<Longrightarrow> r = look t k"
    and insert: "valid t \<Longrightarrow> tb_insert T t k v = Inr t' \<Longrightarrow> valid t' \<and> look t' = (look t)(k \<mapsto> v)"
    and remove: "valid t \<Longrightarrow> tb_remove T t k = Inr (r, t') \<Longrightarrow>
      valid t' \<and> r = look t k \<and> look t' = (look t)(k := None)"
    and range_sorted: "valid t \<Longrightarrow> tb_range T t a b = Inr items \<Longrightarrow> sorted_wrt (<) (map fst (rights items))"
    and range_sound: "valid t \<Longrightarrow> tb_range T t a b = Inr items \<Longrightarrow> Inr (k, v) \<in> set items \<Longrightarrow>
      look t k = Some v \<and> in_bounds a b k"
    and range_complete: "valid t \<Longrightarrow> tb_range T t a b = Inr items \<Longrightarrow> \<forall>e. Inl e \<notin> set items \<Longrightarrow>
      look t k = Some v \<Longrightarrow> in_bounds a b k \<Longrightarrow> Inr (k, v) \<in> set items"
    and extract_range: "valid t \<Longrightarrow> tb_extract T t a b = Inr t' \<Longrightarrow>
      valid t' \<and> look t' = (\<lambda>k. if in_bounds a b k then None else look t k)"

locale reliable_table = redb_table T valid look
  for T :: "('k :: linorder, 'v, 't) table_ops" and valid look +
  assumes get_ok: "valid t \<Longrightarrow> \<exists>r. tb_get T t k = Inr r"
    and insert_ok: "valid t \<Longrightarrow> \<exists>t'. tb_insert T t k v = Inr t'"
    and remove_ok: "valid t \<Longrightarrow> \<exists>r. tb_remove T t k = Inr r"
    and range_ok: "valid t \<Longrightarrow> \<exists>items. tb_range T t a b = Inr (map Inr items)"
    and extract_ok: "valid t \<Longrightarrow> \<exists>t'. tb_extract T t a b = Inr t'"
begin

lemma get_look: "valid t \<Longrightarrow> tb_get T t k = Inr (look t k)"
  using get_ok [of t k] get [of t k] by auto

lemma range_look:
  assumes "valid t"
  shows "\<exists>items. tb_range T t a b = Inr (map Inr items) \<and> sorted_wrt (<) (map fst items) \<and>
    (\<forall>k v. (k, v) \<in> set items \<longleftrightarrow> look t k = Some v \<and> in_bounds a b k)"
proof -
  obtain items where r: "tb_range T t a b = Inr (map Inr items)" using range_ok [OF assms] by blast
  have "sorted_wrt (<) (map fst items)" using range_sorted [OF assms r] by simp
  moreover have "(k, v) \<in> set items \<longleftrightarrow> look t k = Some v \<and> in_bounds a b k" for k v
    using range_sound [OF assms r, of k v] range_complete [OF assms r, of k v] by auto
  ultimately show ?thesis using r by blast
qed

end

section \<open>Association lists provide it\<close>

definition bt_table :: "('k :: linorder, 'v, ('k, 'v) btree) table_ops" where
  "bt_table =
     \<lparr>tb_get = (\<lambda>t k. Inr (bt_get t k)),
      tb_insert = (\<lambda>t k v. Inr (bt_insert k v t)),
      tb_remove = (\<lambda>t k. Inr (bt_get t k, bt_remove k t)),
      tb_range = (\<lambda>t a b. Inr (map Inr (bt_retain (\<lambda>k v. in_bounds a b k) t))),
      tb_extract = (\<lambda>t a b. Inr (bt_retain (\<lambda>k v. \<not> in_bounds a b k) t))\<rparr>"

interpretation btt: reliable_table bt_table bt_ok bt_get
proof
  fix t t' :: "('a :: linorder, 'b) btree" and k v r a b and items :: "(storage_error + 'a \<times> 'b) list"
  assume ok: "bt_ok t"
  show "finite (dom (bt_get t))" using bt.finite_dom_get [OF ok] .
  show "r = bt_get t k" if "tb_get bt_table t k = Inr r" for r using that by (simp add: bt_table_def)
  show "bt_ok t' \<and> bt_get t' = (bt_get t)(k \<mapsto> v)" if "tb_insert bt_table t k v = Inr t'"
    using that ok by (auto simp: bt_table_def bt_ok_insert bt_get_insert)
  show "bt_ok t' \<and> r = bt_get t k \<and> bt_get t' = (bt_get t)(k := None)" if "tb_remove bt_table t k = Inr (r, t')" for r
    using that ok by (auto simp: bt_table_def bt_remove_def bt_ok_filter bt_get_remove [unfolded bt_remove_def])
  let ?l = "bt_retain (\<lambda>k v. in_bounds a b k) t"
  have l: "bt_ok ?l" "(k, v) \<in> set ?l \<longleftrightarrow> bt_get t k = Some v \<and> in_bounds a b k"
    using bt_ok_retain [OF ok] bt.in_entries_iff [OF ok, of k v] by (auto simp: bt_retain_def)
  show "sorted_wrt (<) (map fst (rights items))" if "tb_range bt_table t a b = Inr items"
    using that l(1) by (auto simp: bt_table_def)
  show "bt_get t k = Some v \<and> in_bounds a b k" if "tb_range bt_table t a b = Inr items" "Inr (k, v) \<in> set items"
    using that l(2) by (auto simp: bt_table_def)
  show "Inr (k, v) \<in> set items" if "tb_range bt_table t a b = Inr items" "bt_get t k = Some v" "in_bounds a b k"
    using that l(2) by (auto simp: bt_table_def)
  show "bt_ok t' \<and> bt_get t' = (\<lambda>k. if in_bounds a b k then None else bt_get t k)" if "tb_extract bt_table t a b = Inr t'"
    using that bt_ok_retain [OF ok] bt_get_retain [OF ok]
    by (auto simp: bt_table_def fun_eq_iff split: option.split)
qed (auto simp: bt_table_def)

end
