(* ===== verification/Entry_State.thy ===== *)
theory Entry_State
  imports Hash
begin

text \<open>
  What the file store remembers about a blob, \<open>src/store/fs/entry_state.rs\<close>: where its data and its
  outboard are, the union of two states, and the separation of the parts that are kept in tables of
  their own.
\<close>

section \<open>Definitions\<close>

text \<open>A path is the list of its components; \<open>PathBuf\<close> is compared component by component.\<close>

type_synonym path = "bytes list"

datatype actor_error = TableError | DatabaseError | TransactionError | CommitError | StorageError | Inconsistent

datatype ('i, 'e) data_location = InlineData 'i | OwnedData 'e | ExternalData "path list" 'e

datatype 'i outboard_location = InlineOutboard 'i | OwnedOutboard | NotNeeded

datatype 'i entry_state =
    CompleteEntry "('i, u64) data_location" "'i outboard_location"
  | PartialEntry "u64 option"

text \<open>\<open>paths.sort(); paths.dedup()\<close>\<close>

definition sort_dedup :: "path list \<Rightarrow> path list" where
  "sort_dedup ps = remdups_adj (sort ps)"

fun data_union :: "('x, u64) data_location \<Rightarrow> ('x, u64) data_location \<Rightarrow> actor_error + ('x, u64) data_location" where
  "data_union (ExternalData paths a_size) (ExternalData b_paths b_size) =
     (if a_size \<noteq> b_size then Inl Inconsistent
      else Inr (ExternalData (sort_dedup (paths @ b_paths)) a_size))"
| "data_union _ (OwnedData b) = Inr (OwnedData b)"
| "data_union (OwnedData a) _ = Inr (OwnedData a)"
| "data_union _ (InlineData b) = Inr (InlineData b)"
| "data_union (InlineData a) _ = Inr (InlineData a)"

definition discard_inline_data :: "('i, 'e) data_location \<Rightarrow> (unit, 'e) data_location" where
  "discard_inline_data d =
     (case d of
        InlineData _ \<Rightarrow> InlineData ()
      | OwnedData x \<Rightarrow> OwnedData x
      | ExternalData paths x \<Rightarrow> ExternalData paths x)"

definition split_inline_data :: "('i, 'e) data_location \<Rightarrow> (unit, 'e) data_location \<times> 'i option" where
  "split_inline_data d =
     (case d of
        InlineData x \<Rightarrow> (InlineData (), Some x)
      | OwnedData x \<Rightarrow> (OwnedData x, None)
      | ExternalData paths x \<Rightarrow> (ExternalData paths x, None))"

definition inline_outboard :: "bytes \<Rightarrow> bytes outboard_location" where
  "inline_outboard data = (if data = [] then NotNeeded else InlineOutboard data)"

definition discard_extra_data :: "'i outboard_location \<Rightarrow> unit outboard_location" where
  "discard_extra_data ob =
     (case ob of
        InlineOutboard _ \<Rightarrow> InlineOutboard ()
      | OwnedOutboard \<Rightarrow> OwnedOutboard
      | NotNeeded \<Rightarrow> NotNeeded)"

definition split_inline_outboard :: "'i outboard_location \<Rightarrow> unit outboard_location \<times> 'i option" where
  "split_inline_outboard ob =
     (case ob of
        InlineOutboard x \<Rightarrow> (InlineOutboard (), Some x)
      | OwnedOutboard \<Rightarrow> (OwnedOutboard, None)
      | NotNeeded \<Rightarrow> (NotNeeded, None))"

definition entry_is_complete :: "'i entry_state \<Rightarrow> bool" where
  "entry_is_complete e = (case e of CompleteEntry _ _ \<Rightarrow> True | _ \<Rightarrow> False)"

definition entry_is_partial :: "'i entry_state \<Rightarrow> bool" where
  "entry_is_partial e = (case e of PartialEntry _ \<Rightarrow> True | _ \<Rightarrow> False)"

definition entry_default :: "'i entry_state" where
  "entry_default = PartialEntry None"

fun entry_union :: "unit entry_state \<Rightarrow> unit entry_state \<Rightarrow> actor_error + unit entry_state" where
  "entry_union (CompleteEntry data_location outboard_location) (CompleteEntry b_data_location _) =
     rbind (data_union data_location b_data_location) (\<lambda>d. Inr (CompleteEntry d outboard_location))"
| "entry_union (CompleteEntry d ob) (PartialEntry _) = Inr (CompleteEntry d ob)"
| "entry_union (PartialEntry _) (CompleteEntry d ob) = Inr (CompleteEntry d ob)"
| "entry_union (PartialEntry a_size) (PartialEntry b_size) =
     (case (a_size, b_size) of
        (Some a_size, Some b_size) \<Rightarrow>
          if a_size \<noteq> b_size then Inl Inconsistent else Inr (PartialEntry (Some a_size))
      | (Some a_size, None) \<Rightarrow> Inr (PartialEntry (Some a_size))
      | (None, Some b_size) \<Rightarrow> Inr (PartialEntry (Some b_size))
      | (None, None) \<Rightarrow> Inr (PartialEntry None))"

section \<open>Lemmas\<close>

lemma entry_kind_simps [simp]:
  "entry_is_complete (CompleteEntry d ob)" "\<not> entry_is_complete (PartialEntry sz)"
  "entry_is_partial (PartialEntry sz)" "\<not> entry_is_partial (CompleteEntry d ob)"
  by (simp_all add: entry_is_complete_def entry_is_partial_def)

lemma set_sort_dedup [simp]: "set (sort_dedup ps) = set ps"
  by (simp add: sort_dedup_def)

lemma sorted_sort_dedup: "sorted_wrt (<) (sort_dedup ps)"
proof -
  have "distinct (remdups_adj xs)" if "sorted xs" for xs :: "path list"
    using that by (induction xs rule: remdups_adj.induct) auto
  then show ?thesis
    unfolding sort_dedup_def strict_sorted_iff by (simp add: sorted_remdups_adj)
qed

text \<open>The size of complete data, if it is known from the location alone.\<close>

definition located_size :: "('i, u64) data_location \<Rightarrow> u64 option" where
  "located_size d = (case d of InlineData _ \<Rightarrow> None | OwnedData sz \<Rightarrow> Some sz | ExternalData _ sz \<Rightarrow> Some sz)"

text \<open>
  What a union keeps: the kind with a file or table row of its own wins, external paths are
  collected, and the union is inline only if one of its arguments is.
\<close>

lemma data_union_Inl_iff:
  "data_union a b = Inl e \<longleftrightarrow>
    (\<exists>p q m n. a = ExternalData p m \<and> b = ExternalData q n \<and> m \<noteq> n \<and> e = Inconsistent)"
  by (induction a b rule: data_union.induct) auto

lemma data_union_owned:
  "data_union a b = Inr d \<Longrightarrow> (\<exists>sz. d = OwnedData sz) \<longleftrightarrow> (\<exists>sz. a = OwnedData sz) \<or> (\<exists>sz. b = OwnedData sz)"
  by (induction a b rule: data_union.induct) (auto split: if_splits)

lemma data_union_inline:
  "data_union a b = Inr (InlineData x) \<Longrightarrow> a = InlineData x \<or> b = InlineData x"
  by (induction a b rule: data_union.induct) (auto split: if_splits)

lemma data_union_external:
  "data_union a b = Inr (ExternalData p n) \<Longrightarrow>
    \<exists>q r. a = ExternalData q n \<and> b = ExternalData r n \<and> set p = set q \<union> set r \<and> sorted_wrt (<) p"
  by (induction a b rule: data_union.induct) (auto simp: sorted_sort_dedup split: if_splits)

lemma entry_union_complete:
  "entry_union a b = Inr e \<Longrightarrow> entry_is_complete e \<longleftrightarrow> entry_is_complete a \<or> entry_is_complete b"
  by (induction a b rule: entry_union.induct) (auto simp: rbind_Inr_iff split: option.splits if_splits)

lemma entry_union_CompleteE:
  assumes "entry_union a b = Inr (CompleteEntry d ob)"
  obtains (both) da db ob' where "a = CompleteEntry da ob" "b = CompleteEntry db ob'" "data_union da db = Inr d"
  | (old) sz where "a = CompleteEntry d ob" "b = PartialEntry sz"
  | (new) sz where "a = PartialEntry sz" "b = CompleteEntry d ob"
  using assms by (cases "(a, b)" rule: entry_union.cases)
    (auto simp: rbind_Inr_iff split: option.splits if_splits)

end
