(* ===== verification/Delete_Set.thy ===== *)
theory Delete_Set
  imports Hash
begin

text \<open>
  Files that are deleted when a transaction is committed, \<open>src/store/fs/delete_set.rs\<close>. The delete
  set is shared by the handle of the transactions and the handle that protects files, behind a
  mutex: every operation of either is atomic, so that a concurrent run is a sequence of them.
\<close>

section \<open>Definitions\<close>

datatype bao_file_part = OutboardPart | DataPart | SizesPart | BitfieldPart

type_synonym delete_set = "(hash \<times> bao_file_part) set"

definition ds_delete :: "hash \<Rightarrow> bao_file_part list \<Rightarrow> delete_set \<Rightarrow> delete_set" where
  "ds_delete h parts ds = fold (\<lambda>part ds. insert (h, part) ds) parts ds"

definition ds_protect :: "hash \<Rightarrow> bao_file_part list \<Rightarrow> delete_set \<Rightarrow> delete_set" where
  "ds_protect h parts ds = fold (\<lambda>part ds. ds - {(h, part)}) parts ds"

text \<open>
  \<open>commit\<close> on the files that exist: \<open>stuck\<close> are the files that the file system does not remove, for
  which only a warning is written.
\<close>

definition ds_commit :: "(hash \<times> bao_file_part) set \<Rightarrow> delete_set \<Rightarrow> (hash \<times> bao_file_part) set \<Rightarrow>
    delete_set \<times> (hash \<times> bao_file_part) set" where
  "ds_commit stuck ds files = ({}, files - (ds - stuck))"

datatype ds_op = DsDelete hash "bao_file_part list" | DsProtect hash "bao_file_part list"

fun ds_apply :: "ds_op \<Rightarrow> delete_set \<Rightarrow> delete_set" where
  "ds_apply (DsDelete h parts) ds = ds_delete h parts ds"
| "ds_apply (DsProtect h parts) ds = ds_protect h parts ds"

text \<open>A transaction: the set is empty when it begins; it is dropped or committed at the end.\<close>

definition file_transaction :: "(hash \<times> bao_file_part) set \<Rightarrow> ds_op list \<Rightarrow> bool \<Rightarrow> (hash \<times> bao_file_part) set \<Rightarrow>
    delete_set \<times> (hash \<times> bao_file_part) set" where
  "file_transaction stuck ops committed files =
     (let ds = fold ds_apply ops {} in
      if committed then ds_commit stuck ds files else ({}, files))"

section \<open>Lemmas\<close>

lemma ds_delete_eq: "ds_delete h parts ds = ds \<union> {h} \<times> set parts"
  unfolding ds_delete_def by (induction parts arbitrary: ds) auto

lemma ds_protect_eq: "ds_protect h parts ds = ds - {h} \<times> set parts"
  unfolding ds_protect_def by (induction parts arbitrary: ds) auto

text \<open>Whether an operation mentions a file.\<close>

fun ds_marks :: "hash \<times> bao_file_part \<Rightarrow> ds_op \<Rightarrow> bool" where
  "ds_marks f (DsDelete h parts) \<longleftrightarrow> fst f = h \<and> snd f \<in> set parts"
| "ds_marks f (DsProtect h parts) \<longleftrightarrow> fst f = h \<and> snd f \<in> set parts"

fun ds_is_delete :: "ds_op \<Rightarrow> bool" where
  "ds_is_delete (DsDelete _ _) \<longleftrightarrow> True"
| "ds_is_delete (DsProtect _ _) \<longleftrightarrow> False"

lemma fold_ds_apply:
  "f \<in> fold ds_apply ops ds \<longleftrightarrow>
    (case filter (ds_marks f) ops of [] \<Rightarrow> f \<in> ds | ms \<Rightarrow> ds_is_delete (last ms))"
proof (induction ops arbitrary: ds)
  case (Cons x ops)
  have x: "f \<in> ds_apply x ds \<longleftrightarrow> (if ds_marks f x then ds_is_delete x else f \<in> ds)"
    by (cases x; cases f) (auto simp: ds_delete_eq ds_protect_eq)
  from Cons [of "ds_apply x ds"] x show ?case
    by (cases "filter (ds_marks f) ops") auto
qed simp

text \<open>
  A file is removed by a committed transaction exactly if the last operation that mentions it is a
  deletion (and the file system lets it go), and by a dropped transaction never.
\<close>

lemma file_transaction_exact:
  "fst (file_transaction stuck ops committed files) = {} \<and>
   (f \<in> snd (file_transaction stuck ops committed files) \<longleftrightarrow>
     f \<in> files \<and> \<not> (committed \<and> f \<notin> stuck \<and> filter (ds_marks f) ops \<noteq> [] \<and>
       ds_is_delete (last (filter (ds_marks f) ops))))"
  using fold_ds_apply [of f ops "{}"]
  by (auto simp: file_transaction_def ds_commit_def Let_def split: list.splits)

end
