(* ===== verification/Meta.thy ===== *)
theory Meta
  imports Redb Entry_State Delete_Set Mem_Store
begin

text \<open>
  The metadata database of the file store, \<open>src/store/fs/meta.rs\<close> with its commands
  (\<open>meta/proto.rs\<close>), its tables (\<open>meta/tables.rs\<close>) and the receiver it takes commands from
  (\<open>src/store/fs/util.rs\<close>): one actor that handles commands in transactions of several commands.
  The database is a parameter (\<open>redb\<close>); the files are the set of the parts that exist.
\<close>

section \<open>Tables\<close>

record ('b, 't, 'd) db =
  db_blobs :: 'b
  db_tags :: 't
  db_inline_data :: 'd
  db_inline_outboard :: 'd

text \<open>
  The operations of the database; \<open>rd_begin_read\<close> and \<open>rd_begin_write\<close> also open the tables
  (\<open>ReadOnlyTables::new\<close>, \<open>Tables::new\<close>).
\<close>

record ('b, 't, 'd) redb =
  rd_blobs :: "(hash, unit entry_state, 'b) table_ops"
  rd_tags :: "(tag, hash_and_format, 't) table_ops"
  rd_inline :: "(hash, bytes, 'd) table_ops"
  rd_begin_read :: "('b, 't, 'd) db \<Rightarrow> actor_error + ('b, 't, 'd) db"
  rd_begin_write :: "('b, 't, 'd) db \<Rightarrow> actor_error + ('b, 't, 'd) db"
  rd_commit :: "('b, 't, 'd) db \<Rightarrow> actor_error + ('b, 't, 'd) db"

text \<open>\<open>.context(StorageSnafu)\<close>\<close>

definition storage :: "storage_error + 'a \<Rightarrow> actor_error + 'a" where
  "storage r = (case r of Inl _ \<Rightarrow> Inl StorageError | Inr x \<Rightarrow> Inr x)"

section \<open>Commands\<close>

datatype ('b, 't, 'd) meta_reply =
    MGot "bytes entry_state option" | MUnit | MStatus blob_status
  | MTags "(storage_error + tag_info) list" | MTag tag | MTagError tag_error | MStorageError
  | MSnapshot "('b, 't, 'd) db"

type_synonym ('b, 't, 'd) meta_out = "(tx \<times> ('b, 't, 'd) meta_reply) list"

datatype read_only_command =
    Get hash tx | Dump tx | ListTags list_tags_request tx | ClearProtected tx | GetBlobStatus hash tx

datatype read_write_command =
    Update hash "bytes entry_state" "tx option"
  | Set hash "bytes entry_state" tx
  | DeleteBlobw "hash list" bool tx
  | SetTag tag hash_and_format tx
  | DeleteTags delete_tags_request tx
  | RenameTag tag tag tx
  | CreateTag bytes hash_and_format tx    \<comment> \<open>with the text of the current time\<close>
  | ProcessExit int

datatype top_level_command = SyncDb tx | Shutdown tx | Snapshot tx

datatype meta_command = ReadOnly read_only_command | ReadWrite read_write_command | TopLevel top_level_command

datatype non_top_level_command = NReadOnly read_only_command | NReadWrite read_write_command

definition non_top_level :: "meta_command \<Rightarrow> meta_command + non_top_level_command" where
  "non_top_level c =
     (case c of
        ReadOnly cmd \<Rightarrow> Inr (NReadOnly cmd)
      | ReadWrite cmd \<Rightarrow> Inr (NReadWrite cmd)
      | _ \<Rightarrow> Inl c)"

definition read_only :: "meta_command \<Rightarrow> meta_command + read_only_command" where
  "read_only c = (case c of ReadOnly cmd \<Rightarrow> Inr cmd | _ \<Rightarrow> Inl c)"

section \<open>Read only commands\<close>

definition load_data ::
  "('b, 't, 'd) redb \<Rightarrow> ('b, 't, 'd) db \<Rightarrow> (unit, u64) data_location \<Rightarrow> hash \<Rightarrow> actor_error + (bytes, u64) data_location" where
  "load_data D db location h =
     (case location of
        InlineData _ \<Rightarrow>
          rbind (storage (tb_get (rd_inline D) (db_inline_data db) h)) (\<lambda>data.
            case data of None \<Rightarrow> Inl Inconsistent | Some data \<Rightarrow> Inr (InlineData data))
      | OwnedData data_size \<Rightarrow> Inr (OwnedData data_size)
      | ExternalData paths data_size \<Rightarrow> Inr (ExternalData paths data_size))"

definition load_outboard ::
  "('b, 't, 'd) redb \<Rightarrow> ('b, 't, 'd) db \<Rightarrow> unit outboard_location \<Rightarrow> hash \<Rightarrow> actor_error + bytes outboard_location" where
  "load_outboard D db location h =
     (case location of
        NotNeeded \<Rightarrow> Inr NotNeeded
      | InlineOutboard _ \<Rightarrow>
          rbind (storage (tb_get (rd_inline D) (db_inline_outboard db) h)) (\<lambda>outboard.
            case outboard of None \<Rightarrow> Inl Inconsistent | Some outboard \<Rightarrow> Inr (InlineOutboard outboard))
      | OwnedOutboard \<Rightarrow> Inr OwnedOutboard)"

definition meta_get :: "('b, 't, 'd) redb \<Rightarrow> ('b, 't, 'd) db \<Rightarrow> hash \<Rightarrow> actor_error + bytes entry_state option" where
  "meta_get D db h =
     rbind (storage (tb_get (rd_blobs D) (db_blobs db) h)) (\<lambda>entry.
       case entry of
         None \<Rightarrow> Inr None
       | Some (CompleteEntry data_location outboard_location) \<Rightarrow>
           rbind (load_data D db data_location h) (\<lambda>data_location.
           rbind (load_outboard D db outboard_location h) (\<lambda>outboard_location.
             Inr (Some (CompleteEntry data_location outboard_location))))
       | Some (PartialEntry sz) \<Rightarrow> Inr (Some (PartialEntry sz)))"

text \<open>\<open>handle_dump\<close> reads all tables; what it prints is left out.\<close>

definition all_items :: "storage_error + (storage_error + 'a) list \<Rightarrow> actor_error + unit" where
  "all_items r =
     rbind (storage r) (\<lambda>items. if \<exists>x\<in>set items. \<not> is_ok x then Inl StorageError else Inr ())"

definition meta_dump :: "('b, 't, 'd) redb \<Rightarrow> ('b, 't, 'd) db \<Rightarrow> actor_error + unit" where
  "meta_dump D db =
     rbind (all_items (tb_range (rd_blobs D) (db_blobs db) Unbounded Unbounded)) (\<lambda>_.
     rbind (all_items (tb_range (rd_tags D) (db_tags db) Unbounded Unbounded)) (\<lambda>_.
     rbind (all_items (tb_range (rd_inline D) (db_inline_data db) Unbounded Unbounded)) (\<lambda>_.
     all_items (tb_range (rd_inline D) (db_inline_outboard db) Unbounded Unbounded))))"

definition meta_blob_status :: "('b, 't, 'd) redb \<Rightarrow> ('b, 't, 'd) db \<Rightarrow> hash \<Rightarrow> actor_error + blob_status" where
  "meta_blob_status D db h =
     rbind (storage (tb_get (rd_blobs D) (db_blobs db) h)) (\<lambda>entry.
       case entry of
         Some (CompleteEntry data_location _) \<Rightarrow>
           (case data_location of
              InlineData _ \<Rightarrow>
                rbind (storage (tb_get (rd_inline D) (db_inline_data db) h)) (\<lambda>data.
                  case data of
                    None \<Rightarrow> Inl Inconsistent
                  | Some data \<Rightarrow> Inr (CompleteBlob (of_nat (length data))))
            | OwnedData sz \<Rightarrow> Inr (CompleteBlob sz)
            | ExternalData _ sz \<Rightarrow> Inr (CompleteBlob sz))
       | Some (PartialEntry sz) \<Rightarrow> Inr (PartialBlob sz)
       | None \<Rightarrow> Inr NotFound)"

definition from_bound :: "'a option \<Rightarrow> 'a bound" where
  "from_bound x = (case x of Some a \<Rightarrow> Included a | None \<Rightarrow> Unbounded)"

definition to_bound :: "'a option \<Rightarrow> 'a bound" where
  "to_bound x = (case x of Some a \<Rightarrow> Excluded a | None \<Rightarrow> Unbounded)"

fun list_items :: "bool \<Rightarrow> bool \<Rightarrow> (storage_error + tag \<times> hash_and_format) list \<Rightarrow> (storage_error + tag_info) list" where
  "list_items raw hash_seq [] = []"
| "list_items raw hash_seq (Inr (k, v) # items) =
     (if raw \<and> is_raw (hf_format v) \<or> hash_seq \<and> is_hash_seq (hf_format v)
      then [Inr \<lparr>ti_name = k, ti_format = hf_format v, ti_hash = hf_hash v\<rparr>] else []) @
     list_items raw hash_seq items"
| "list_items raw hash_seq (Inl e # items) = Inl e # list_items raw hash_seq items"

definition meta_list_tags ::
  "('b, 't, 'd) redb \<Rightarrow> ('b, 't, 'd) db \<Rightarrow> list_tags_request \<Rightarrow> actor_error + (storage_error + tag_info) list" where
  "meta_list_tags D db req =
     (let start = from_bound (lt_from req);
          end = to_bound (lt_to req)
      in rbind (storage (tb_range (rd_tags D) (db_tags db) start end)) (\<lambda>items.
           Inr (list_items (lt_raw req) (lt_hash_seq req) items)))"

definition meta_clear_protected :: "hash set \<Rightarrow> hash set" where
  "meta_clear_protected prot = {}"

text \<open>\<open>list_blobs\<close> on a snapshot: the hashes up to the first error, and the error.\<close>

fun list_blob_items :: "(storage_error + hash \<times> unit entry_state) list \<Rightarrow> (storage_error + hash) list" where
  "list_blob_items [] = []"
| "list_blob_items (Inr (k, _) # items) = Inr k # list_blob_items items"
| "list_blob_items (Inl e # items) = [Inl e]"

definition meta_list_blobs :: "('b, 't, 'd) redb \<Rightarrow> ('b, 't, 'd) db \<Rightarrow> (storage_error + hash) list" where
  "meta_list_blobs D snapshot =
     (case tb_range (rd_blobs D) (db_blobs snapshot) Unbounded Unbounded of
        Inl e \<Rightarrow> [Inl e]
      | Inr items \<Rightarrow> list_blob_items items)"

text \<open>\<open>handle_readonly\<close>: the protected hashes and what is sent.\<close>

fun handle_readonly ::
  "('b, 't, 'd) redb \<Rightarrow> hash set \<Rightarrow> ('b, 't, 'd) db \<Rightarrow> read_only_command \<Rightarrow>
   actor_error + (hash set \<times> ('b, 't, 'd) meta_out)" where
  "handle_readonly D prot db (Get h tx) = rbind (meta_get D db h) (\<lambda>st. Inr (prot, [(tx, MGot st)]))"
| "handle_readonly D prot db (Dump tx) = rbind (meta_dump D db) (\<lambda>_. Inr (prot, [(tx, MUnit)]))"
| "handle_readonly D prot db (ListTags req tx) =
     rbind (meta_list_tags D db req) (\<lambda>res. Inr (prot, [(tx, MTags res)]))"
| "handle_readonly D prot db (ClearProtected tx) = Inr (meta_clear_protected prot, [(tx, MUnit)])"
| "handle_readonly D prot db (GetBlobStatus h tx) =
     rbind (meta_blob_status D db h) (\<lambda>res. Inr (prot, [(tx, MStatus res)]))"

section \<open>Read and write commands\<close>

text \<open>The inline parts of a state, and its insertion into the tables.\<close>

definition split_entry :: "bytes entry_state \<Rightarrow> unit entry_state \<times> bytes option \<times> bytes option" where
  "split_entry state =
     (case state of
        CompleteEntry data_location outboard_location \<Rightarrow>
          let (data_location, data) = split_inline_data data_location;
              (outboard_location, outboard) = split_inline_outboard outboard_location
          in (CompleteEntry data_location outboard_location, data, outboard)
      | PartialEntry sz \<Rightarrow> (PartialEntry sz, None, None))"

definition insert_entry ::
  "('b, 't, 'd) redb \<Rightarrow> hash \<Rightarrow> unit entry_state \<Rightarrow> bytes option \<Rightarrow> bytes option \<Rightarrow> ('b, 't, 'd) db \<Rightarrow>
   actor_error + ('b, 't, 'd) db" where
  "insert_entry D h state data outboard db =
     rbind (storage (tb_insert (rd_blobs D) (db_blobs db) h state)) (\<lambda>blobs.
     rbind (case data of
              None \<Rightarrow> Inr (db_inline_data db)
            | Some data \<Rightarrow> storage (tb_insert (rd_inline D) (db_inline_data db) h data)) (\<lambda>inline_data.
     rbind (case outboard of
              None \<Rightarrow> Inr (db_inline_outboard db)
            | Some outboard \<Rightarrow> storage (tb_insert (rd_inline D) (db_inline_outboard db) h outboard)) (\<lambda>inline_outboard.
       Inr (db\<lparr>db_blobs := blobs, db_inline_data := inline_data, db_inline_outboard := inline_outboard\<rparr>))))"

text \<open>What a read and write command works on: the tables, the delete set and the protected hashes.\<close>

record ('b, 't, 'd) txn =
  tn_db :: "('b, 't, 'd) db"
  tn_ftx :: delete_set
  tn_protected :: "hash set"

definition meta_update ::
  "('b, 't, 'd) redb \<Rightarrow> hash \<Rightarrow> bytes entry_state \<Rightarrow> ('b, 't, 'd) txn \<Rightarrow> actor_error + ('b, 't, 'd) txn" where
  "meta_update D h state s =
     (let s = s\<lparr>tn_protected := insert h (tn_protected s)\<rparr> in
      rbind (storage (tb_get (rd_blobs D) (db_blobs (tn_db s)) h)) (\<lambda>old_entry_opt.
        let (state, data, outboard) = split_entry state in
        rbind (case old_entry_opt of
                 Some old \<Rightarrow>
                   let partial_to_complete = entry_is_partial old \<and> entry_is_complete state in
                   rbind (entry_union old state) (\<lambda>res.
                     Inr (res, if partial_to_complete then ds_delete h [SizesPart, BitfieldPart] (tn_ftx s) else tn_ftx s))
               | None \<Rightarrow> Inr (state, tn_ftx s)) (\<lambda>(state, ftx).
        rbind (insert_entry D h state data outboard (tn_db s)) (\<lambda>db.
          Inr (s\<lparr>tn_db := db, tn_ftx := ftx\<rparr>)))))"

definition meta_set ::
  "('b, 't, 'd) redb \<Rightarrow> hash \<Rightarrow> bytes entry_state \<Rightarrow> ('b, 't, 'd) txn \<Rightarrow> actor_error + ('b, 't, 'd) txn" where
  "meta_set D h state s =
     (let s = s\<lparr>tn_protected := insert h (tn_protected s)\<rparr>;
          (state, data, outboard) = split_entry state
      in rbind (insert_entry D h state data outboard (tn_db s)) (\<lambda>db. Inr (s\<lparr>tn_db := db\<rparr>)))"

definition delete_entry ::
  "('b, 't, 'd) redb \<Rightarrow> hash \<Rightarrow> unit entry_state \<Rightarrow> ('b, 't, 'd) txn \<Rightarrow> actor_error + ('b, 't, 'd) txn" where
  "delete_entry D h entry s =
     (case entry of
        CompleteEntry data_location outboard_location \<Rightarrow>
          rbind (case data_location of
                   InlineData _ \<Rightarrow>
                     rbind (storage (tb_remove (rd_inline D) (db_inline_data (tn_db s)) h)) (\<lambda>(_, t).
                       Inr (s\<lparr>tn_db := (tn_db s)\<lparr>db_inline_data := t\<rparr>\<rparr>))
                 | OwnedData _ \<Rightarrow> Inr (s\<lparr>tn_ftx := ds_delete h [DataPart] (tn_ftx s)\<rparr>)
                 | ExternalData _ _ \<Rightarrow> Inr s) (\<lambda>s.
          case outboard_location of
            InlineOutboard _ \<Rightarrow>
              rbind (storage (tb_remove (rd_inline D) (db_inline_outboard (tn_db s)) h)) (\<lambda>(_, t).
                Inr (s\<lparr>tn_db := (tn_db s)\<lparr>db_inline_outboard := t\<rparr>\<rparr>))
          | OwnedOutboard \<Rightarrow> Inr (s\<lparr>tn_ftx := ds_delete h [OutboardPart] (tn_ftx s)\<rparr>)
          | NotNeeded \<Rightarrow> Inr s)
      | PartialEntry _ \<Rightarrow>
          Inr (s\<lparr>tn_ftx := ds_delete h [OutboardPart, DataPart, SizesPart, BitfieldPart] (tn_ftx s)\<rparr>))"

fun meta_delete ::
  "('b, 't, 'd) redb \<Rightarrow> hash list \<Rightarrow> bool \<Rightarrow> ('b, 't, 'd) txn \<Rightarrow> actor_error + ('b, 't, 'd) txn" where
  "meta_delete D [] force s = Inr s"
| "meta_delete D (h # hs) force s =
     (if \<not> force \<and> h \<in> tn_protected s then meta_delete D hs force s
      else rbind (storage (tb_remove (rd_blobs D) (db_blobs (tn_db s)) h)) (\<lambda>(entry, blobs).
        let s = s\<lparr>tn_db := (tn_db s)\<lparr>db_blobs := blobs\<rparr>\<rparr> in
        rbind (case entry of None \<Rightarrow> Inr s | Some entry \<Rightarrow> delete_entry D h entry s) (\<lambda>s.
          meta_delete D hs force s)))"

definition set_tags_table :: "'t \<Rightarrow> ('b, 't, 'd) txn \<Rightarrow> ('b, 't, 'd) txn" where
  "set_tags_table t s = s\<lparr>tn_db := (tn_db s)\<lparr>db_tags := t\<rparr>\<rparr>"

text \<open>\<open>set_tag\<close> tells the client of a storage error, and does not end the actor.\<close>

definition meta_set_tag ::
  "('b, 't, 'd) redb \<Rightarrow> tag \<Rightarrow> hash_and_format \<Rightarrow> ('b, 't, 'd) txn \<Rightarrow> ('b, 't, 'd) txn \<times> (storage_error + unit)" where
  "meta_set_tag D tag value s =
     (case tb_insert (rd_tags D) (db_tags (tn_db s)) tag value of
        Inl e \<Rightarrow> (s, Inl e)
      | Inr t \<Rightarrow> (set_tags_table t s, Inr ()))"

text \<open>\<open>create_tag\<close>: \<open>None\<close> if \<open>Tag::auto\<close> does not end.\<close>

definition meta_create_tag ::
  "('b, 't, 'd) redb \<Rightarrow> bytes \<Rightarrow> hash_and_format \<Rightarrow> ('b, 't, 'd) txn \<Rightarrow> (actor_error + tag \<times> ('b, 't, 'd) txn) option" where
  "meta_create_tag D stamp value s =
     (case auto_tag stamp (\<lambda>x. \<exists>v. tb_get (rd_tags D) (db_tags (tn_db s)) x = Inr (Some v)) of
        None \<Rightarrow> None
      | Some tag \<Rightarrow>
          Some (rbind (storage (tb_insert (rd_tags D) (db_tags (tn_db s)) tag value)) (\<lambda>t.
            Inr (tag, set_tags_table t s))))"

definition meta_delete_tags ::
  "('b, 't, 'd) redb \<Rightarrow> delete_tags_request \<Rightarrow> ('b, 't, 'd) txn \<Rightarrow> actor_error + ('b, 't, 'd) txn" where
  "meta_delete_tags D req s =
     (let start = from_bound (dt_from req);
          end = to_bound (dt_to req)
      in rbind (storage (tb_extract (rd_tags D) (db_tags (tn_db s)) start end)) (\<lambda>t. Inr (set_tags_table t s)))"

definition meta_rename_tag ::
  "('b, 't, 'd) redb \<Rightarrow> tag \<Rightarrow> tag \<Rightarrow> ('b, 't, 'd) txn \<Rightarrow> actor_error + ('b, 't, 'd) txn \<times> (tag_error + unit)" where
  "meta_rename_tag D old new s =
     rbind (storage (tb_remove (rd_tags D) (db_tags (tn_db s)) old)) (\<lambda>(value, t).
       case value of
         None \<Rightarrow> Inr (set_tags_table t s, Inl TagNotFound)
       | Some value \<Rightarrow>
           rbind (storage (tb_insert (rd_tags D) t new value)) (\<lambda>t.
             Inr (set_tags_table t s, Inr ())))"

text \<open>Why the actor stops: an error, or the end of the process; a name that is never found.\<close>

datatype stop = Failed actor_error | Exited int | Diverged

fun handle_readwrite ::
  "('b, 't, 'd) redb \<Rightarrow> read_write_command \<Rightarrow> ('b, 't, 'd) txn \<Rightarrow> stop + (('b, 't, 'd) txn \<times> ('b, 't, 'd) meta_out)" where
  "handle_readwrite D (Update h state tx) s =
     (case meta_update D h state s of
        Inl e \<Rightarrow> Inl (Failed e)
      | Inr s \<Rightarrow> Inr (s, case tx of None \<Rightarrow> [] | Some tx \<Rightarrow> [(tx, MUnit)]))"
| "handle_readwrite D (Set h state tx) s =
     (case meta_set D h state s of Inl e \<Rightarrow> Inl (Failed e) | Inr s \<Rightarrow> Inr (s, [(tx, MUnit)]))"
| "handle_readwrite D (DeleteBlobw hs force tx) s =
     (case meta_delete D hs force s of Inl e \<Rightarrow> Inl (Failed e) | Inr s \<Rightarrow> Inr (s, [(tx, MUnit)]))"
| "handle_readwrite D (SetTag tag value tx) s =
     (case meta_set_tag D tag value s of
        (s, Inl _) \<Rightarrow> Inr (s, [(tx, MStorageError)])
      | (s, Inr _) \<Rightarrow> Inr (s, [(tx, MUnit)]))"
| "handle_readwrite D (CreateTag stamp value tx) s =
     (case meta_create_tag D stamp value s of
        None \<Rightarrow> Inl Diverged
      | Some (Inl e) \<Rightarrow> Inl (Failed e)
      | Some (Inr (tag, s)) \<Rightarrow> Inr (s, [(tx, MTag tag)]))"
| "handle_readwrite D (DeleteTags req tx) s =
     (case meta_delete_tags D req s of Inl e \<Rightarrow> Inl (Failed e) | Inr s \<Rightarrow> Inr (s, [(tx, MUnit)]))"
| "handle_readwrite D (RenameTag old new tx) s =
     (case meta_rename_tag D old new s of
        Inl e \<Rightarrow> Inl (Failed e)
      | Inr (s, Inl e) \<Rightarrow> Inr (s, [(tx, MTagError e)])
      | Inr (s, Inr _) \<Rightarrow> Inr (s, [(tx, MUnit)]))"
| "handle_readwrite D (ProcessExit code) s = Inl (Exited code)"

fun handle_non_toplevel ::
  "('b, 't, 'd) redb \<Rightarrow> non_top_level_command \<Rightarrow> ('b, 't, 'd) txn \<Rightarrow> stop + (('b, 't, 'd) txn \<times> ('b, 't, 'd) meta_out)" where
  "handle_non_toplevel D (NReadOnly cmd) s =
     (case handle_readonly D (tn_protected s) (tn_db s) cmd of
        Inl e \<Rightarrow> Inl (Failed e)
      | Inr (prot, out) \<Rightarrow> Inr (s\<lparr>tn_protected := prot\<rparr>, out))"
| "handle_non_toplevel D (NReadWrite cmd) s = handle_readwrite D cmd s"

end
