(* ===== verification/Meta_Actor.thy ===== *)
theory Meta_Actor
  imports Meta
begin

text \<open>
  The loop of the metadata actor, \<open>Actor::run\<close> of \<open>src/store/fs/meta.rs\<close>, and the receiver it peeks
  into, \<open>PeekableReceiver\<close> of \<open>src/store/fs/util.rs\<close>. Commands are handled in batches: a batch ends
  when its timer fires, when it is full, or at a command that does not belong into it. The messages
  of the receiver are the commands that will ever be sent, in order; when the timer of a batch fires
  is a parameter (how many commands the batch takes before). Other tasks may protect files while a
  batch runs; what they take out of the delete set is the parameter \<open>env\<close>.
\<close>

section \<open>The receiver\<close>

record 'a peekable_receiver =
  pr_msg :: "'a option"
  pr_recv :: "'a list"

definition pr_new :: "'a list \<Rightarrow> 'a peekable_receiver" where
  "pr_new rcv = \<lparr>pr_msg = None, pr_recv = rcv\<rparr>"

definition recv_next :: "'a peekable_receiver \<Rightarrow> 'a option \<times> 'a peekable_receiver" where
  "recv_next r =
     (case pr_msg r of
        Some msg \<Rightarrow> (Some msg, r\<lparr>pr_msg := None\<rparr>)
      | None \<Rightarrow>
          (case pr_recv r of
             [] \<Rightarrow> (None, r)
           | msg # rest \<Rightarrow> (Some msg, r\<lparr>pr_recv := rest\<rparr>)))"

definition extract_next ::
  "('a \<Rightarrow> 'a + 'u) \<Rightarrow> bool \<Rightarrow> 'a peekable_receiver \<Rightarrow> 'u option \<times> 'a peekable_receiver" where
  "extract_next f timeout r =
     (if timeout then (None, r)
      else case recv_next r of
             (None, r) \<Rightarrow> (None, r)
           | (Some msg, r) \<Rightarrow>
               (case f msg of
                  Inr u \<Rightarrow> (Some u, r)
                | Inl msg \<Rightarrow> (None, r\<lparr>pr_msg := Some msg\<rparr>)))"

definition push_back :: "'a \<Rightarrow> 'a peekable_receiver \<Rightarrow> 'a + 'a peekable_receiver" where
  "push_back msg r = (if pr_msg r = None then Inr (r\<lparr>pr_msg := Some msg\<rparr>) else Inl msg)"

text \<open>\<open>push_back(..).ok()\<close>: the message is dropped if there is no room for it.\<close>

definition push_back_ok :: "'a \<Rightarrow> 'a peekable_receiver \<Rightarrow> 'a peekable_receiver" where
  "push_back_ok msg r = (case push_back msg r of Inl _ \<Rightarrow> r | Inr r \<Rightarrow> r)"

section \<open>Batches\<close>

record batch_options =
  max_read_batch :: nat
  max_write_batch :: nat

record ('b, 't, 'd) meta_actor =
  ac_db :: "('b, 't, 'd) db"
  ac_cmds :: "meta_command peekable_receiver"
  ac_ds :: delete_set
  ac_files :: "(hash \<times> bao_file_part) set"
  ac_protected :: "hash set"

text \<open>
  The inner loops; \<open>k\<close> is the number of commands that are received before the timer fires. They
  return what was sent and, if an error ended them, this error.
\<close>

fun read_batch ::
  "('b, 't, 'd) redb \<Rightarrow> nat \<Rightarrow> nat \<Rightarrow> nat \<Rightarrow> ('b, 't, 'd) db \<Rightarrow> hash set \<Rightarrow> meta_command peekable_receiver \<Rightarrow>
   hash set \<times> meta_command peekable_receiver \<times> ('b, 't, 'd) meta_out \<times> stop option" where
  "read_batch D max_n 0 n db prot r = (prot, r, [], None)"
| "read_batch D max_n (Suc k) n db prot r =
     (case extract_next read_only False r of
        (None, r) \<Rightarrow> (prot, r, [], None)
      | (Some cmd, r) \<Rightarrow>
          (case handle_readonly D prot db cmd of
             Inl e \<Rightarrow> (prot, r, [], Some (Failed e))
           | Inr (prot, out) \<Rightarrow>
               if n + 1 \<ge> max_n then (prot, r, out, None)
               else let (prot, r, out', e) = read_batch D max_n k (n + 1) db prot r in (prot, r, out @ out', e)))"

fun write_batch ::
  "('b, 't, 'd) redb \<Rightarrow> (delete_set \<Rightarrow> delete_set) \<Rightarrow> nat \<Rightarrow> nat \<Rightarrow> nat \<Rightarrow> ('b, 't, 'd) txn \<Rightarrow> meta_command peekable_receiver \<Rightarrow>
   ('b, 't, 'd) txn \<times> meta_command peekable_receiver \<times> ('b, 't, 'd) meta_out \<times> stop option" where
  "write_batch D env max_n 0 n s r = (s, r, [], None)"
| "write_batch D env max_n (Suc k) n s r =
     (case extract_next non_top_level False r of
        (None, r) \<Rightarrow> (s, r, [], None)
      | (Some cmd, r) \<Rightarrow>
          (case handle_non_toplevel D cmd s of
             Inl e \<Rightarrow> (s, r, [], Some e)
           | Inr (s, out) \<Rightarrow>
               let s = s\<lparr>tn_ftx := env (tn_ftx s)\<rparr> in
               if n + 1 \<ge> max_n then (s, r, out, None)
               else let (s, r, out', e) = write_batch D env max_n k (n + 1) s r in (s, r, out @ out', e)))"

section \<open>The loop\<close>

datatype run_end = Closed | Ended tx | Stopped stop

fun handle_toplevel ::
  "('b, 't, 'd) redb \<Rightarrow> ('b, 't, 'd) db \<Rightarrow> top_level_command \<Rightarrow> actor_error + (tx option \<times> ('b, 't, 'd) meta_out)" where
  "handle_toplevel D db (SyncDb tx) = Inr (None, [(tx, MUnit)])"
| "handle_toplevel D db (Shutdown tx) = Inr (Some tx, [])"
| "handle_toplevel D db (Snapshot tx) = rbind (rd_begin_read D db) (\<lambda>snapshot. Inr (None, [(tx, MSnapshot snapshot)]))"

text \<open>
  \<open>Actor::run\<close>, for as many turns as there are timers: the actor, what was sent, and why the loop
  ended, if it did.
\<close>

fun run ::
  "('b, 't, 'd) redb \<Rightarrow> (delete_set \<Rightarrow> delete_set) \<Rightarrow> (hash \<times> bao_file_part) set \<Rightarrow> batch_options \<Rightarrow> nat list \<Rightarrow>
   ('b, 't, 'd) meta_actor \<Rightarrow> ('b, 't, 'd) meta_actor \<times> ('b, 't, 'd) meta_out \<times> run_end option" where
  "run D env stuck options [] a = (a, [], None)"
| "run D env stuck options (k # ks) a =
     (case recv_next (ac_cmds a) of
        (None, r) \<Rightarrow> (a\<lparr>ac_cmds := r\<rparr>, [], Some Closed)
      | (Some (TopLevel cmd), r) \<Rightarrow>
          (case handle_toplevel D (ac_db a) cmd of
             Inl e \<Rightarrow> (a\<lparr>ac_cmds := r\<rparr>, [], Some (Stopped (Failed e)))
           | Inr (Some tx, out) \<Rightarrow> (a\<lparr>ac_cmds := r\<rparr>, out @ [(tx, MUnit)], Some (Ended tx))
           | Inr (None, out) \<Rightarrow>
               let (a, out', end) = run D env stuck options ks (a\<lparr>ac_cmds := r\<rparr>) in (a, out @ out', end))
      | (Some (ReadOnly cmd), r) \<Rightarrow>
          let r = push_back_ok (ReadOnly cmd) r in
          (case rd_begin_read D (ac_db a) of
             Inl e \<Rightarrow> (a\<lparr>ac_cmds := r\<rparr>, [], Some (Stopped (Failed e)))
           | Inr tables \<Rightarrow>
               (case read_batch D (max_read_batch options) k 0 tables (ac_protected a) r of
                  (prot, r, out, Some e) \<Rightarrow> (a\<lparr>ac_cmds := r, ac_protected := prot\<rparr>, out, Some (Stopped e))
                | (prot, r, out, None) \<Rightarrow>
                    let (a, out', end) = run D env stuck options ks (a\<lparr>ac_cmds := r, ac_protected := prot\<rparr>)
                    in (a, out @ out', end)))
      | (Some (ReadWrite cmd), r) \<Rightarrow>
          let r = push_back_ok (ReadWrite cmd) r in
          (case rd_begin_write D (ac_db a) of
             Inl e \<Rightarrow> (a\<lparr>ac_cmds := r, ac_ds := {}\<rparr>, [], Some (Stopped (Failed e)))
           | Inr tables \<Rightarrow>
               (case write_batch D env (max_write_batch options) k 0
                       \<lparr>tn_db = tables, tn_ftx = ac_ds a, tn_protected = ac_protected a\<rparr> r of
                  (s, r, out, Some e) \<Rightarrow>
                    (a\<lparr>ac_cmds := r, ac_ds := {}, ac_protected := tn_protected s\<rparr>, out, Some (Stopped e))
                | (s, r, out, None) \<Rightarrow>
                    (case rd_commit D (tn_db s) of
                       Inl e \<Rightarrow>
                         (a\<lparr>ac_cmds := r, ac_ds := {}, ac_protected := tn_protected s\<rparr>, out, Some (Stopped (Failed e)))
                     | Inr db \<Rightarrow>
                         let (ds, files) = ds_commit stuck (tn_ftx s) (ac_files a);
                             (a, out', end) = run D env stuck options ks
                               (a\<lparr>ac_db := db, ac_cmds := r, ac_ds := ds, ac_files := files, ac_protected := tn_protected s\<rparr>)
                         in (a, out @ out', end)))))"

section \<open>One command at a time\<close>

text \<open>The specification: every command on its own, on the tables as the commands before left them.\<close>

fun seq_run ::
  "('b, 't, 'd) redb \<Rightarrow> (delete_set \<Rightarrow> delete_set) \<Rightarrow> (hash \<times> bao_file_part) set \<Rightarrow> meta_command list \<Rightarrow>
   ('b, 't, 'd) db \<Rightarrow> hash set \<Rightarrow> (hash \<times> bao_file_part) set \<Rightarrow>
   (('b, 't, 'd) db \<times> hash set \<times> (hash \<times> bao_file_part) set \<times> ('b, 't, 'd) meta_out \<times> run_end)" where
  "seq_run D env stuck [] db prot files = (db, prot, files, [], Closed)"
| "seq_run D env stuck (TopLevel (SyncDb tx) # cs) db prot files =
     (let (db, prot, files, out, end) = seq_run D env stuck cs db prot files in (db, prot, files, (tx, MUnit) # out, end))"
| "seq_run D env stuck (TopLevel (Snapshot tx) # cs) db prot files =
     (let (db', prot, files, out, end) = seq_run D env stuck cs db prot files
      in (db', prot, files, (tx, MSnapshot db) # out, end))"
| "seq_run D env stuck (TopLevel (Shutdown tx) # cs) db prot files = (db, prot, files, [(tx, MUnit)], Ended tx)"
| "seq_run D env stuck (ReadOnly cmd # cs) db prot files =
     (case handle_readonly D prot db cmd of
        Inl e \<Rightarrow> (db, prot, files, [], Stopped (Failed e))
      | Inr (prot, out) \<Rightarrow>
          let (db, prot, files, out', end) = seq_run D env stuck cs db prot files in (db, prot, files, out @ out', end))"
| "seq_run D env stuck (ReadWrite cmd # cs) db prot files =
     (case handle_readwrite D cmd \<lparr>tn_db = db, tn_ftx = {}, tn_protected = prot\<rparr> of
        Inl e \<Rightarrow> (db, prot, files, [], Stopped e)
      | Inr (s, out) \<Rightarrow>
          let (db, prot, files, out', end) =
                seq_run D env stuck cs (tn_db s) (tn_protected s) (files - (env (tn_ftx s) - stuck))
          in (db, prot, files, out @ out', end))"

section \<open>The receiver delivers in order\<close>

definition pending :: "'a peekable_receiver \<Rightarrow> 'a list" where
  "pending r = (case pr_msg r of None \<Rightarrow> [] | Some msg \<Rightarrow> [msg]) @ pr_recv r"

lemma pending_new [simp]: "pending (pr_new cs) = cs"
  by (simp add: pending_def pr_new_def)

lemma recv_next_None: "recv_next r = (None, r') \<Longrightarrow> pending r = [] \<and> r' = r"
  by (auto simp: recv_next_def pending_def split: option.splits list.splits)

lemma recv_next_Some: "recv_next r = (Some m, r') \<Longrightarrow> pending r = m # pending r' \<and> pr_msg r' = None"
  by (auto simp: recv_next_def pending_def split: option.splits list.splits)

lemma recv_next_ex: "pending r = m # ms \<Longrightarrow> \<exists>r'. recv_next r = (Some m, r') \<and> pending r' = ms"
  by (auto simp: recv_next_def pending_def split: option.splits list.splits)

lemma pending_push_back: "pr_msg r = None \<Longrightarrow> pending (push_back_ok m r) = m # pending r"
  by (simp add: push_back_ok_def push_back_def pending_def)

lemma extract_next_None:
  assumes "extract_next f False r = (None, r')" "\<And>m x. f m = Inl x \<Longrightarrow> x = m"
  shows "pending r' = pending r \<and> (pending r = [] \<or> \<not> is_ok (f (hd (pending r))))"
proof (cases "pending r")
  case Nil
  then have "recv_next r = (None, r)"
    by (auto simp: recv_next_def pending_def split: option.splits list.splits)
  with assms(1) Nil show ?thesis by (simp add: extract_next_def)
next
  case (Cons m ms)
  then obtain r1 where r1: "recv_next r = (Some m, r1)" "pending r1 = ms" using recv_next_ex [OF Cons] by blast
  have "pr_msg r1 = None" using recv_next_Some [OF r1(1)] ..
  with assms(1) r1 Cons assms(2) [of m] show ?thesis
    by (auto simp: extract_next_def pending_def split: sum.splits)
qed

lemma extract_next_Some:
  "extract_next f False r = (Some u, r') \<Longrightarrow> \<exists>m. pending r = m # pending r' \<and> f m = Inr u"
  by (auto simp: extract_next_def split: prod.splits option.splits sum.splits dest: recv_next_Some)

lemma read_only_Inl: "read_only m = Inl x \<Longrightarrow> x = m"
  by (simp add: read_only_def split: meta_command.splits)

lemma non_top_level_Inl: "non_top_level m = Inl x \<Longrightarrow> x = m"
  by (simp add: non_top_level_def split: meta_command.splits)

lemma read_only_Inr: "read_only m = Inr c \<longleftrightarrow> m = ReadOnly c"
  by (auto simp: read_only_def split: meta_command.splits)

lemma non_top_level_Inr:
  "non_top_level m = Inr c \<longleftrightarrow> (\<exists>x. m = ReadOnly x \<and> c = NReadOnly x) \<or> (\<exists>x. m = ReadWrite x \<and> c = NReadWrite x)"
  by (auto simp: non_top_level_def split: meta_command.splits)

section \<open>The delete set only grows in a transaction\<close>

definition add_ftx :: "delete_set \<Rightarrow> ('b, 't, 'd) txn \<Rightarrow> ('b, 't, 'd) txn" where
  "add_ftx F s = s\<lparr>tn_ftx := F \<union> tn_ftx s\<rparr>"

lemma add_ftx_sel [simp]:
  "tn_db (add_ftx F s) = tn_db s" "tn_protected (add_ftx F s) = tn_protected s" "tn_ftx (add_ftx F s) = F \<union> tn_ftx s"
  by (simp_all add: add_ftx_def)

lemma add_ftx_upd [simp]:
  "(add_ftx F s)\<lparr>tn_db := d\<rparr> = add_ftx F (s\<lparr>tn_db := d\<rparr>)"
  "(add_ftx F s)\<lparr>tn_protected := p\<rparr> = add_ftx F (s\<lparr>tn_protected := p\<rparr>)"
  "(add_ftx F s)\<lparr>tn_ftx := ds_delete h parts (F \<union> X)\<rparr> = add_ftx F (s\<lparr>tn_ftx := ds_delete h parts X\<rparr>)"
  "(add_ftx F s)\<lparr>tn_ftx := F \<union> X\<rparr> = add_ftx F (s\<lparr>tn_ftx := X\<rparr>)"
  by (simp_all add: add_ftx_def ds_delete_eq Un_assoc)

lemma map_sum_rbind: "map_sum id f (rbind r g) = rbind r (\<lambda>x. map_sum id f (g x))"
  by (cases r) simp_all

lemma rbind_map_sum: "rbind (map_sum id f r) g = rbind r (\<lambda>x. g (f x))"
  by (cases r) simp_all

lemma rbind_rbind: "rbind (rbind r f) g = rbind r (\<lambda>x. rbind (f x) g)"
  by (cases r) simp_all

lemma meta_update_ftx: "meta_update D h st (add_ftx F s) = map_sum id (add_ftx F) (meta_update D h st s)"
proof (cases "tb_get (rd_blobs D) (db_blobs (tn_db s)) h")
  case (Inr old)
  obtain st' data ob where sp: "split_entry st = (st', data, ob)" by (cases "split_entry st") auto
  show ?thesis
  proof (cases old)
    case None
    with Inr sp show ?thesis
      by (cases "insert_entry D h st' data ob (tn_db s)") (simp_all add: meta_update_def storage_def add_ftx_def)
  next
    case (Some e)
    show ?thesis
    proof (cases "entry_union e st'")
      case u: (Inr res)
      with Inr sp Some show ?thesis
        by (cases "insert_entry D h res data ob (tn_db s)")
          (simp_all add: meta_update_def storage_def add_ftx_def ds_delete_eq Un_assoc Let_def)
    qed (use Inr sp Some in \<open>simp add: meta_update_def storage_def\<close>)
  qed
qed (simp add: meta_update_def storage_def)

lemma meta_set_ftx: "meta_set D h st (add_ftx F s) = map_sum id (add_ftx F) (meta_set D h st s)"
  by (simp add: meta_set_def Let_def split_def map_sum_rbind)

lemma delete_entry_ftx: "delete_entry D h e (add_ftx F s) = map_sum id (add_ftx F) (delete_entry D h e s)"
  by (cases e)
    (simp_all add: delete_entry_def map_sum_rbind rbind_map_sum rbind_rbind split_def
      split: data_location.split outboard_location.split)

lemma meta_delete_ftx: "meta_delete D hs force (add_ftx F s) = map_sum id (add_ftx F) (meta_delete D hs force s)"
proof (induction hs arbitrary: s)
  case (Cons h hs)
  show ?case
  proof (cases "\<not> force \<and> h \<in> tn_protected s")
    case False
    then have c: "(\<not> force \<and> h \<in> tn_protected s) = False" by blast
    show ?thesis
    proof (cases "tb_remove (rd_blobs D) (db_blobs (tn_db s)) h")
      case (Inr p)
      obtain entry blobs where p: "p = (entry, blobs)" by (cases p)
      let ?s = "s\<lparr>tn_db := (tn_db s)\<lparr>db_blobs := blobs\<rparr>\<rparr>"
      show ?thesis
        using Inr p Cons [of ?s]
        by (cases entry; cases "delete_entry D h (the entry) ?s")
          (simp_all only: meta_delete.simps c if_False add_ftx_sel add_ftx_upd storage_def sum.case rbind.simps Let_def
            option.case option.sel prod.case delete_entry_ftx map_sum.simps Cons id_apply)
    qed (simp only: meta_delete.simps c if_False storage_def add_ftx_sel sum.case rbind.simps map_sum.simps id_apply)
  qed (use Cons in simp)
qed simp

lemma set_tags_table_ftx [simp]: "set_tags_table t (add_ftx F s) = add_ftx F (set_tags_table t s)"
  by (simp add: set_tags_table_def)

definition add_ftx_out :: "delete_set \<Rightarrow> ('b, 't, 'd) txn \<times> 'o \<Rightarrow> ('b, 't, 'd) txn \<times> 'o" where
  "add_ftx_out F so = (add_ftx F (fst so), snd so)"

lemma handle_readwrite_ftx:
  "handle_readwrite D cmd (add_ftx F s) = map_sum id (add_ftx_out F) (handle_readwrite D cmd s)"
proof (cases cmd)
  case (Update h st tx)
  then show ?thesis by (cases "meta_update D h st s") (simp_all add: meta_update_ftx add_ftx_out_def)
next
  case (Set h st tx)
  then show ?thesis by (cases "meta_set D h st s") (simp_all add: meta_set_ftx add_ftx_out_def)
next
  case (DeleteBlobw hs force tx)
  then show ?thesis by (cases "meta_delete D hs force s") (simp_all add: meta_delete_ftx add_ftx_out_def)
next
  case (SetTag tag v tx)
  then show ?thesis by (simp add: meta_set_tag_def add_ftx_out_def split: sum.split)
next
  case (CreateTag stamp v tx)
  then show ?thesis
    by (cases "auto_tag stamp (\<lambda>x. \<exists>v. tb_get (rd_tags D) (db_tags (tn_db s)) x = Inr (Some v))")
      (simp_all add: meta_create_tag_def add_ftx_out_def storage_def split: sum.split)
next
  case (DeleteTags req tx)
  then show ?thesis by (simp add: meta_delete_tags_def add_ftx_out_def storage_def split: sum.split)
next
  case (RenameTag old new tx)
  then show ?thesis
    by (simp add: meta_rename_tag_def add_ftx_out_def storage_def split: sum.split option.split)
qed simp

section \<open>Batches are transparent\<close>

text \<open>A database whose transactions can be opened and committed, and commit what was written.\<close>

definition transactional :: "('b, 't, 'd) redb \<Rightarrow> bool" where
  "transactional D \<longleftrightarrow> (\<forall>db. rd_begin_read D db = Inr db \<and> rd_begin_write D db = Inr db \<and> rd_commit D db = Inr db)"

definition seq_after :: "'o list \<Rightarrow> 'd \<times> 'p \<times> 'f \<times> 'o list \<times> 'e \<Rightarrow> 'd \<times> 'p \<times> 'f \<times> 'o list \<times> 'e" where
  "seq_after out res = (case res of (db, prot, files, out', end) \<Rightarrow> (db, prot, files, out @ out', end))"

lemma seq_after_simps [simp]:
  "seq_after out (db, prot, files, out', end) = (db, prot, files, out @ out', end)"
  "seq_after [] res = res" "seq_after out (seq_after out' res) = seq_after (out @ out') res"
  by (simp_all add: seq_after_def split: prod.split)

lemma seq_after_eq:
  "seq_after o1 x = (db, prot, files, out, end) \<longleftrightarrow> (\<exists>o2. x = (db, prot, files, o2, end) \<and> out = o1 @ o2)"
  by (cases x) (auto simp: seq_after_def)

text \<open>The files after a transaction with a delete set.\<close>

definition committed :: "(hash \<times> bao_file_part) set \<Rightarrow> delete_set \<Rightarrow> (hash \<times> bao_file_part) set \<Rightarrow> (hash \<times> bao_file_part) set" where
  "committed stuck ds files = files - (ds - stuck)"

lemma committed_Un: "committed stuck (a \<union> b) files = committed stuck b (committed stuck a files)"
  by (auto simp: committed_def)

lemma seq_run_write:
  "seq_run D env stuck (ReadWrite cmd # cs) db prot files =
     (case handle_readwrite D cmd \<lparr>tn_db = db, tn_ftx = {}, tn_protected = prot\<rparr> of
        Inl e \<Rightarrow> (db, prot, files, [], Stopped e)
      | Inr (s, out) \<Rightarrow> seq_after out (seq_run D env stuck cs (tn_db s) (tn_protected s) (committed stuck (env (tn_ftx s)) files)))"
  by (simp add: seq_after_def committed_def split: prod.split sum.split)

lemma seq_run_read:
  "seq_run D env stuck (ReadOnly cmd # cs) db prot files =
     (case handle_readonly D prot db cmd of
        Inl e \<Rightarrow> (db, prot, files, [], Stopped (Failed e))
      | Inr (prot, out) \<Rightarrow> seq_after out (seq_run D env stuck cs db prot files))"
  by (simp add: seq_after_def split: prod.split sum.split)

lemma seq_run_top:
  "seq_run D env stuck (TopLevel cmd # cs) db prot files =
     (case cmd of
        SyncDb tx \<Rightarrow> seq_after [(tx, MUnit)] (seq_run D env stuck cs db prot files)
      | Snapshot tx \<Rightarrow> seq_after [(tx, MSnapshot db)] (seq_run D env stuck cs db prot files)
      | Shutdown tx \<Rightarrow> (db, prot, files, [(tx, MUnit)], Ended tx))"
  by (simp add: seq_after_def split: prod.split top_level_command.split)

declare seq_run.simps(2-) [simp del]

text \<open>What a batch takes from the receiver is what one command at a time does.\<close>

lemma read_batch_seq:
  assumes "read_batch D max_n k n db prot r = (prot', r', out, e)"
  shows "(case e of
      None \<Rightarrow> seq_run D env stuck (pending r) db prot files = seq_after out (seq_run D env stuck (pending r') db prot' files)
    | Some st \<Rightarrow> \<exists>p. seq_run D env stuck (pending r) db prot files = (db, p, files, out, Stopped st)) \<and>
    length (pending r') \<le> length (pending r) \<and>
    (0 < k \<longrightarrow> pending r \<noteq> [] \<longrightarrow> is_ok (read_only (hd (pending r))) \<longrightarrow> length (pending r') < length (pending r))"
  using assms
proof (induction k arbitrary: n prot r prot' r' out e)
  case (Suc k)
  obtain u r1 where x: "extract_next read_only False r = (u, r1)" by fastforce
  show ?case
  proof (cases u)
    case None
    with x have "pending r1 = pending r \<and> (pending r = [] \<or> \<not> is_ok (read_only (hd (pending r))))"
      by (intro extract_next_None [of read_only]) (auto dest: read_only_Inl)
    with Suc.prems x None show ?thesis by auto
  next
    case (Some cmd)
    with x extract_next_Some have p: "pending r = ReadOnly cmd # pending r1" by (fastforce simp: read_only_Inr)
    show ?thesis
    proof (cases "handle_readonly D prot db cmd")
      case (Inl err)
      with Suc.prems x Some p show ?thesis by (auto simp: seq_run_read)
    next
      case (Inr po)
      obtain prot1 out1 where po: "po = (prot1, out1)" by (cases po)
      show ?thesis
      proof (cases "n + 1 \<ge> max_n")
        case True
        with Suc.prems x Some p Inr po show ?thesis by (auto simp: seq_run_read)
      next
        case False
        obtain prot2 r2 out2 e2 where b: "read_batch D max_n k (n + 1) db prot1 r1 = (prot2, r2, out2, e2)"
          by (metis prod_cases4)
        with Suc.prems x Some Inr po False have eq: "prot' = prot2" "r' = r2" "out = out1 @ out2" "e = e2" by auto
        from Suc.IH [OF b] p Inr po show ?thesis
          unfolding eq by (cases e2) (auto simp: seq_run_read)
      qed
    qed
  qed
qed auto

lemma handle_readwrite_empty:
  "handle_readwrite D cmd s = map_sum id (add_ftx_out (tn_ftx s))
    (handle_readwrite D cmd \<lparr>tn_db = tn_db s, tn_ftx = {}, tn_protected = tn_protected s\<rparr>)"
proof -
  have "s = add_ftx (tn_ftx s) \<lparr>tn_db = tn_db s, tn_ftx = {}, tn_protected = tn_protected s\<rparr>"
    by (simp add: add_ftx_def)
  then show ?thesis using handle_readwrite_ftx by metis
qed

lemma handle_readwrite_from_empty:
  "handle_readwrite D cmd s = Inr (s', out) \<Longrightarrow>
    \<exists>s0. handle_readwrite D cmd \<lparr>tn_db = tn_db s, tn_ftx = {}, tn_protected = tn_protected s\<rparr> = Inr (s0, out) \<and>
      s' = add_ftx (tn_ftx s) s0"
  unfolding handle_readwrite_empty [of D cmd s]
  by (cases "handle_readwrite D cmd \<lparr>tn_db = tn_db s, tn_ftx = {}, tn_protected = tn_protected s\<rparr>")
    (auto simp: add_ftx_out_def)

lemma handle_readwrite_fails:
  "handle_readwrite D cmd s = Inl e \<Longrightarrow>
    handle_readwrite D cmd \<lparr>tn_db = tn_db s, tn_ftx = {}, tn_protected = tn_protected s\<rparr> = Inl e"
  unfolding handle_readwrite_empty [of D cmd s]
  by (cases "handle_readwrite D cmd \<lparr>tn_db = tn_db s, tn_ftx = {}, tn_protected = tn_protected s\<rparr>") simp_all

text \<open>One command of a write batch.\<close>

lemma non_toplevel_seq:
  assumes "non_top_level m = Inr cmd" "tn_ftx s \<inter> keep = {}"
  shows "case handle_non_toplevel D cmd s of
      Inl e \<Rightarrow> \<exists>db p f. seq_run D (\<lambda>ds. ds - keep) stuck (m # cs) (tn_db s) (tn_protected s) (committed stuck (tn_ftx s) files) =
        (db, p, f, [], Stopped e)
    | Inr (s1, out) \<Rightarrow>
        seq_run D (\<lambda>ds. ds - keep) stuck (m # cs) (tn_db s) (tn_protected s) (committed stuck (tn_ftx s) files) =
        seq_after out (seq_run D (\<lambda>ds. ds - keep) stuck cs (tn_db s1) (tn_protected s1) (committed stuck (tn_ftx s1 - keep) files))"
proof -
  have F: "tn_ftx s - keep = tn_ftx s" using assms(2) by blast
  consider (ro) x where "m = ReadOnly x" "cmd = NReadOnly x" | (rw) x where "m = ReadWrite x" "cmd = NReadWrite x"
    using assms(1) by (auto simp: non_top_level_Inr)
  then show ?thesis
  proof cases
    case ro
    then show ?thesis
      by (cases "handle_readonly D (tn_protected s) (tn_db s) x") (simp_all add: seq_run_read F split: prod.split)
  next
    case rw
    show ?thesis
    proof (cases "handle_readwrite D x s")
      case (Inl e)
      with rw handle_readwrite_fails [OF Inl] show ?thesis by (simp add: seq_run_write)
    next
      case (Inr so)
      then obtain s1 out where so: "so = (s1, out)" "handle_readwrite D x s = Inr (s1, out)" by (cases so) auto
      from handle_readwrite_from_empty [OF so(2)] obtain s0 where
        s0: "handle_readwrite D x \<lparr>tn_db = tn_db s, tn_ftx = {}, tn_protected = tn_protected s\<rparr> = Inr (s0, out)"
        "s1 = add_ftx (tn_ftx s) s0" by blast
      have "tn_ftx s1 - keep = tn_ftx s \<union> (tn_ftx s0 - keep)" using F s0(2) by auto
      then have "committed stuck (tn_ftx s1 - keep) files = committed stuck (tn_ftx s0 - keep) (committed stuck (tn_ftx s) files)"
        by (simp add: committed_Un)
      with rw so s0 show ?thesis by (simp add: seq_run_write)
    qed
  qed
qed

lemma write_batch_seq:
  assumes "write_batch D (\<lambda>ds. ds - keep) max_n k n s r = (s', r', out, e)" "tn_ftx s \<inter> keep = {}"
  shows "(case e of
      None \<Rightarrow>
        seq_run D (\<lambda>ds. ds - keep) stuck (pending r) (tn_db s) (tn_protected s) (committed stuck (tn_ftx s) files) =
        seq_after out (seq_run D (\<lambda>ds. ds - keep) stuck (pending r') (tn_db s') (tn_protected s') (committed stuck (tn_ftx s') files))
    | Some st \<Rightarrow> \<exists>db p f.
        seq_run D (\<lambda>ds. ds - keep) stuck (pending r) (tn_db s) (tn_protected s) (committed stuck (tn_ftx s) files) =
        (db, p, f, out, Stopped st)) \<and>
    length (pending r') \<le> length (pending r) \<and>
    (0 < k \<longrightarrow> pending r \<noteq> [] \<longrightarrow> is_ok (non_top_level (hd (pending r))) \<longrightarrow> length (pending r') < length (pending r))"
  using assms
proof (induction k arbitrary: n s r s' r' out e)
  case (Suc k)
  obtain u r1 where x: "extract_next non_top_level False r = (u, r1)" by fastforce
  show ?case
  proof (cases u)
    case None
    with x have "pending r1 = pending r \<and> (pending r = [] \<or> \<not> is_ok (non_top_level (hd (pending r))))"
      by (intro extract_next_None [of non_top_level]) (auto dest: non_top_level_Inl)
    with Suc.prems x None show ?thesis by auto
  next
    case (Some cmd)
    with x extract_next_Some [of non_top_level r cmd r1] obtain m where
      p: "pending r = m # pending r1" "non_top_level m = Inr cmd" by blast
    note step = non_toplevel_seq [OF p(2) Suc.prems(2), of D stuck "pending r1" files]
    show ?thesis
    proof (cases "handle_non_toplevel D cmd s")
      case (Inl err)
      with Suc.prems(1) x Some p step show ?thesis by auto
    next
      case (Inr so)
      obtain s1 out1 where so: "so = (s1, out1)" by (cases so)
      let ?s = "s1\<lparr>tn_ftx := tn_ftx s1 - keep\<rparr>"
      have ftx: "tn_ftx ?s \<inter> keep = {}" by auto
      have step': "seq_run D (\<lambda>ds. ds - keep) stuck (pending r) (tn_db s) (tn_protected s) (committed stuck (tn_ftx s) files) =
          seq_after out1 (seq_run D (\<lambda>ds. ds - keep) stuck (pending r1) (tn_db ?s) (tn_protected ?s) (committed stuck (tn_ftx ?s) files))"
        using step Inr so p(1) by simp
      show ?thesis
      proof (cases "n + 1 \<ge> max_n")
        case True
        with Suc.prems(1) x Some Inr so have "s' = ?s" "r' = r1" "out = out1" "e = None" by (auto simp: Let_def)
        with step' p(1) show ?thesis by simp
      next
        case False
        obtain s2 r2 out2 e2 where b: "write_batch D (\<lambda>ds. ds - keep) max_n k (n + 1) ?s r1 = (s2, r2, out2, e2)"
          by (metis prod_cases4)
        with Suc.prems(1) x Some Inr so False have eq: "s' = s2" "r' = r2" "out = out1 @ out2" "e = e2"
          by (auto simp: Let_def)
        from Suc.IH [OF b ftx] p(1) show ?thesis
          unfolding eq step' by (cases e2) auto
      qed
    qed
  qed
qed auto

text \<open>The loop.\<close>

lemma run_seq:
  assumes "transactional D" "\<forall>k\<in>set ks. 0 < k" "length (pending (ac_cmds a)) < length ks" "ac_ds a = {}"
    and "seq_run D (\<lambda>ds. ds - keep) stuck (pending (ac_cmds a)) (ac_db a) (ac_protected a) (ac_files a) = (db, prot, files, out, end')"
    and "run D (\<lambda>ds. ds - keep) stuck options ks a = (a', out', e)"
  shows "e = Some end' \<and> out' = out \<and>
    ((\<exists>st. end' = Stopped st) \<or> ac_db a' = db \<and> ac_protected a' = prot \<and> ac_files a' = files \<and> ac_ds a' = {})"
  using assms
proof (induction ks arbitrary: a out out' a' e)
  case (Cons k ks)
  have tr: "rd_begin_read D x = Inr x" "rd_begin_write D x = Inr x" "rd_commit D x = Inr x" for x
    using Cons.prems(1) by (simp_all add: transactional_def)
  have k: "0 < k" "\<forall>k\<in>set ks. 0 < k" using Cons.prems(2) by simp_all
  obtain c r where rn: "recv_next (ac_cmds a) = (c, r)" by fastforce
  show ?case
  proof (cases c)
    case None
    with rn recv_next_None have "pending (ac_cmds a) = []" by blast
    with None rn Cons.prems(4-6) show ?thesis by auto
  next
    case (Some cmd)
    with rn have rn: "recv_next (ac_cmds a) = (Some cmd, r)" by simp
    have p: "pending (ac_cmds a) = cmd # pending r" and msg: "pr_msg r = None"
      using recv_next_Some [OF rn] by simp_all
    have IH: "e' = Some end' \<and> o' = o'' \<and>
        ((\<exists>st. end' = Stopped st) \<or> ac_db b' = db \<and> ac_protected b' = prot \<and> ac_files b' = files \<and> ac_ds b' = {})"
      if "run D (\<lambda>ds. ds - keep) stuck options ks b = (b', o', e')" "ac_ds b = {}"
        "length (pending (ac_cmds b)) < length (pending (ac_cmds a))"
        "seq_run D (\<lambda>ds. ds - keep) stuck (pending (ac_cmds b)) (ac_db b) (ac_protected b) (ac_files b) = (db, prot, files, o'', end')"
      for b b' o' o'' e'
      using Cons.IH [OF Cons.prems(1) k(2) _ that(2,4,1)] that(3) Cons.prems(3) by simp
    show ?thesis
    proof (cases cmd)
      case (TopLevel t)
      obtain b o1 e1 where b: "run D (\<lambda>ds. ds - keep) stuck options ks (a\<lparr>ac_cmds := r\<rparr>) = (b, o1, e1)"
        by (metis prod_cases3)
      note ih = IH [of "a\<lparr>ac_cmds := r\<rparr>" b o1 e1, OF b]
      have q: "ac_ds (a\<lparr>ac_cmds := r\<rparr>) = {}" "length (pending (ac_cmds (a\<lparr>ac_cmds := r\<rparr>))) < length (pending (ac_cmds a))"
        using p Cons.prems(4) by simp_all
      note ih = ih [OF q]
      show ?thesis
        using Cons.prems(4-6) rn p TopLevel b ih
        by (cases t) (auto simp: seq_run_top seq_after_eq tr)
    next
      case (ReadOnly x)
      let ?r = "push_back_ok (ReadOnly x) r"
      have pr: "pending ?r = pending (ac_cmds a)" using pending_push_back [OF msg] p ReadOnly by simp
      obtain prot1 r1 o1 e1 where rb: "read_batch D (max_read_batch options) k 0 (ac_db a) (ac_protected a) ?r = (prot1, r1, o1, e1)"
        by (metis prod_cases4)
      note rs = read_batch_seq [OF rb, of "\<lambda>ds. ds - keep" stuck "ac_files a", unfolded pr]
      let ?a = "a\<lparr>ac_cmds := r1, ac_protected := prot1\<rparr>"
      have len: "length (pending (ac_cmds ?a)) < length (pending (ac_cmds a))" "ac_ds ?a = {}"
        using rs k(1) p ReadOnly Cons.prems(4) by (simp_all add: read_only_def)
      obtain b o2 e2 where b: "run D (\<lambda>ds. ds - keep) stuck options ks ?a = (b, o2, e2)" by (metis prod_cases3)
      show ?thesis
      proof (cases e1)
        case None
        with rs Cons.prems(5) have "seq_after o1 (seq_run D (\<lambda>ds. ds - keep) stuck (pending (ac_cmds ?a)) (ac_db ?a)
            (ac_protected ?a) (ac_files ?a)) = (db, prot, files, out, end')" by simp
        then obtain o3 where o3: "out = o1 @ o3"
          "seq_run D (\<lambda>ds. ds - keep) stuck (pending (ac_cmds ?a)) (ac_db ?a) (ac_protected ?a) (ac_files ?a) = (db, prot, files, o3, end')"
          unfolding seq_after_eq by blast
        from IH [OF b len(2,1) o3(2)] show ?thesis
          using Cons.prems(6) rn ReadOnly tr rb None b o3(1) by (auto simp: Let_def)
      next
        case (Some st)
        with rs have "end' = Stopped st" "out = o1" using Cons.prems(5) by auto
        then show ?thesis using Cons.prems(6) rn ReadOnly tr rb Some by (auto simp: Let_def)
      qed
    next
      case (ReadWrite x)
      let ?r = "push_back_ok (ReadWrite x) r"
      let ?t = "\<lparr>tn_db = ac_db a, tn_ftx = ac_ds a, tn_protected = ac_protected a\<rparr>"
      have pr: "pending ?r = pending (ac_cmds a)" using pending_push_back [OF msg] p ReadWrite by simp
      obtain s1 r1 o1 e1 where wb: "write_batch D (\<lambda>ds. ds - keep) (max_write_batch options) k 0 ?t ?r = (s1, r1, o1, e1)"
        by (metis prod_cases4)
      have ftx: "tn_ftx ?t \<inter> keep = {}" using Cons.prems(4) by simp
      have c: "committed stuck (ac_ds a) f = f" for f using Cons.prems(4) by (simp add: committed_def)
      note ws = write_batch_seq [OF wb ftx, of stuck "ac_files a", unfolded pr txn.simps c]
      let ?a = "a\<lparr>ac_db := tn_db s1, ac_cmds := r1, ac_ds := {}, ac_files := committed stuck (tn_ftx s1) (ac_files a),
        ac_protected := tn_protected s1\<rparr>"
      have len: "length (pending (ac_cmds ?a)) < length (pending (ac_cmds a))" "ac_ds ?a = {}"
        using ws k(1) p ReadWrite by (simp_all add: non_top_level_def)
      obtain b o2 e2 where b: "run D (\<lambda>ds. ds - keep) stuck options ks ?a = (b, o2, e2)" by (metis prod_cases3)
      show ?thesis
      proof (cases e1)
        case None
        with ws Cons.prems(5) have "seq_after o1 (seq_run D (\<lambda>ds. ds - keep) stuck (pending (ac_cmds ?a)) (ac_db ?a)
            (ac_protected ?a) (ac_files ?a)) = (db, prot, files, out, end')" by simp
        then obtain o3 where o3: "out = o1 @ o3"
          "seq_run D (\<lambda>ds. ds - keep) stuck (pending (ac_cmds ?a)) (ac_db ?a) (ac_protected ?a) (ac_files ?a) = (db, prot, files, o3, end')"
          unfolding seq_after_eq by blast
        from IH [OF b len(2,1) o3(2)] show ?thesis
          using Cons.prems(6) rn ReadWrite tr wb None b o3(1) by (auto simp: Let_def ds_commit_def committed_def)
      next
        case (Some st)
        with ws have "end' = Stopped st" "out = o1" using Cons.prems(5) by auto
        then show ?thesis using Cons.prems(6) rn ReadWrite tr wb Some by (auto simp: Let_def)
      qed
    qed
  qed
qed simp

end
