(* ===== verification/Meta_Spec.thy ===== *)
theory Meta_Spec
  imports Meta_Actor
begin

text \<open>
  What the metadata database promises: its tables implement a map from hashes to entries, in which
  complete entries carry their inline data (\<open>meta_view\<close>); updates, deletions and lookups act on this
  map, every transaction keeps the tables consistent, and its tags are a table of tags in the sense
  of the locale \<open>tag_store\<close>, as those of the memory store are.
\<close>

section \<open>The map\<close>

definition fill_data :: "(unit, u64) data_location \<Rightarrow> bytes option \<Rightarrow> (bytes, u64) data_location" where
  "fill_data d row =
     (case d of
        InlineData _ \<Rightarrow> InlineData (case row of None \<Rightarrow> [] | Some x \<Rightarrow> x)
      | OwnedData sz \<Rightarrow> OwnedData sz
      | ExternalData paths sz \<Rightarrow> ExternalData paths sz)"

definition fill_outboard :: "unit outboard_location \<Rightarrow> bytes option \<Rightarrow> bytes outboard_location" where
  "fill_outboard ob row =
     (case ob of
        InlineOutboard _ \<Rightarrow> InlineOutboard (case row of None \<Rightarrow> [] | Some x \<Rightarrow> x)
      | OwnedOutboard \<Rightarrow> OwnedOutboard
      | NotNeeded \<Rightarrow> NotNeeded)"

definition fill_entry :: "unit entry_state \<Rightarrow> bytes option \<Rightarrow> bytes option \<Rightarrow> bytes entry_state" where
  "fill_entry e data outboard =
     (case e of
        CompleteEntry d ob \<Rightarrow> CompleteEntry (fill_data d data) (fill_outboard ob outboard)
      | PartialEntry sz \<Rightarrow> PartialEntry sz)"

text \<open>The inline parts that an entry refers to are there.\<close>

definition filled :: "unit entry_state \<Rightarrow> bytes option \<Rightarrow> bytes option \<Rightarrow> bool" where
  "filled e data outboard \<longleftrightarrow>
     (\<forall>d ob. e = CompleteEntry d ob \<longrightarrow>
        (d = InlineData () \<longrightarrow> data \<noteq> None) \<and> (ob = InlineOutboard () \<longrightarrow> outboard \<noteq> None))"

definition meta_view ::
  "('b \<Rightarrow> hash \<Rightarrow> unit entry_state option) \<Rightarrow> ('d \<Rightarrow> hash \<Rightarrow> bytes option) \<Rightarrow> ('b, 't, 'd) db \<Rightarrow> hash \<Rightarrow> bytes entry_state option" where
  "meta_view lookb lookd db h =
     map_option (\<lambda>e. fill_entry e (lookd (db_inline_data db) h) (lookd (db_inline_outboard db) h)) (lookb (db_blobs db) h)"

definition meta_ok ::
  "('b \<Rightarrow> bool) \<Rightarrow> ('b \<Rightarrow> hash \<Rightarrow> unit entry_state option) \<Rightarrow> ('t \<Rightarrow> bool) \<Rightarrow> ('d \<Rightarrow> bool) \<Rightarrow> ('d \<Rightarrow> hash \<Rightarrow> bytes option) \<Rightarrow>
   ('b, 't, 'd) db \<Rightarrow> bool" where
  "meta_ok okb lookb okt okd lookd db \<longleftrightarrow>
     okb (db_blobs db) \<and> okt (db_tags db) \<and> okd (db_inline_data db) \<and> okd (db_inline_outboard db) \<and>
     (\<forall>h e. lookb (db_blobs db) h = Some e \<longrightarrow>
        filled e (lookd (db_inline_data db) h) (lookd (db_inline_outboard db) h))"

text \<open>What an update does to an entry.\<close>

fun merge_entry :: "bytes entry_state \<Rightarrow> bytes entry_state \<Rightarrow> actor_error + bytes entry_state" where
  "merge_entry (CompleteEntry d ob) (CompleteEntry d' ob') =
     rbind (data_union d d') (\<lambda>d. Inr (CompleteEntry d
       (case (ob, ob') of (InlineOutboard _, InlineOutboard y) \<Rightarrow> InlineOutboard y | _ \<Rightarrow> ob)))"
| "merge_entry (CompleteEntry d ob) (PartialEntry _) = Inr (CompleteEntry d ob)"
| "merge_entry (PartialEntry _) (CompleteEntry d ob) = Inr (CompleteEntry d ob)"
| "merge_entry (PartialEntry (Some a)) (PartialEntry (Some b)) =
     (if a \<noteq> b then Inl Inconsistent else Inr (PartialEntry (Some a)))"
| "merge_entry (PartialEntry (Some a)) (PartialEntry None) = Inr (PartialEntry (Some a))"
| "merge_entry (PartialEntry None) (PartialEntry sz) = Inr (PartialEntry sz)"

definition upd_row :: "bytes option \<Rightarrow> bytes option \<Rightarrow> bytes option" where
  "upd_row new old = (case new of None \<Rightarrow> old | Some x \<Rightarrow> Some x)"

lemma fill_split:
  assumes "split_entry st = (e, data, outboard)"
  shows "fill_entry e (upd_row data x) (upd_row outboard y) = st" "filled e (upd_row data x) (upd_row outboard y)"
  using assms
  by (auto simp: split_entry_def split_inline_data_def split_inline_outboard_def fill_entry_def fill_data_def
      fill_outboard_def filled_def upd_row_def split: entry_state.splits data_location.splits outboard_location.splits)

text \<open>The union of the stored parts is the union of the entries.\<close>

lemma data_union_fill:
  assumes "split_inline_data d' = (e', data)"
  shows "data_union (fill_data d x) d' = map_sum id (\<lambda>u. fill_data u (upd_row data x)) (data_union d e')"
  using assms
  by (cases d; cases d') (auto simp: split_inline_data_def fill_data_def upd_row_def)

lemma data_union_filled:
  assumes "split_inline_data d' = (e', data)" "data_union d e' = Inr u" "u = InlineData ()" "d = InlineData () \<longrightarrow> x \<noteq> None"
  shows "upd_row data x \<noteq> None"
  using assms
  by (cases d; cases d') (auto simp: split_inline_data_def upd_row_def split: if_splits)

lemma entry_union_fill:
  assumes "split_entry st = (e', data, outboard)" "filled e x y"
  shows "map_sum id (\<lambda>u. fill_entry u (upd_row data x) (upd_row outboard y)) (entry_union e e') =
      merge_entry (fill_entry e x y) st"
    and "entry_union e e' = Inr u \<Longrightarrow> filled u (upd_row data x) (upd_row outboard y)"
proof -
  show "map_sum id (\<lambda>u. fill_entry u (upd_row data x) (upd_row outboard y)) (entry_union e e') =
      merge_entry (fill_entry e x y) st"
  proof (cases st)
    case (CompleteEntry d' ob')
    obtain ds dd os oo where sp: "split_inline_data d' = (ds, dd)" "split_inline_outboard ob' = (os, oo)"
      by (metis surj_pair)
    then have st: "e' = CompleteEntry ds os" "data = dd" "outboard = oo"
      using assms(1) CompleteEntry by (auto simp: split_entry_def)
    show ?thesis
    proof (cases e)
      case e: (CompleteEntry d ob)
      have "fill_outboard ob (upd_row oo y) =
          (case (fill_outboard ob y, ob') of (InlineOutboard _, InlineOutboard z) \<Rightarrow> InlineOutboard z | _ \<Rightarrow> fill_outboard ob y)"
        using sp(2) by (cases ob; cases ob') (auto simp: split_inline_outboard_def fill_outboard_def upd_row_def)
      then show ?thesis
        unfolding e st CompleteEntry
        by (cases "data_union d ds") (simp_all add: fill_entry_def data_union_fill [OF sp(1)])
    next
      case (PartialEntry sz)
      with fill_split [OF assms(1), of x y] st CompleteEntry show ?thesis by (simp add: fill_entry_def)
    qed
  next
    case (PartialEntry sz)
    with assms(1) have "e' = PartialEntry sz" "data = None" "outboard = None" by (auto simp: split_entry_def)
    with PartialEntry show ?thesis
      by (cases e) (auto simp: fill_entry_def upd_row_def split: option.splits)
  qed
  show "filled u (upd_row data x) (upd_row outboard y)" if u: "entry_union e e' = Inr u"
  proof (cases u)
    case u': (CompleteEntry d ob)
    from u [unfolded u'] show ?thesis
    proof (cases rule: entry_union_CompleteE)
      case (both da db ob')
      then obtain d' ob'' where st: "st = CompleteEntry d' ob''" "split_inline_data d' = (db, data)"
        using assms(1) by (auto simp: split_entry_def split: entry_state.splits prod.splits)
      have "d = InlineData () \<longrightarrow> upd_row data x \<noteq> None"
        using data_union_filled [OF st(2) both(3)] assms(2) both(1) by (auto simp: filled_def)
      moreover have "ob = InlineOutboard () \<longrightarrow> upd_row outboard y \<noteq> None"
        using assms(2) both(1) by (auto simp: filled_def upd_row_def split: option.splits)
      ultimately show ?thesis by (simp add: filled_def u')
    next
      case (old sz)
      then show ?thesis using assms(2) by (auto simp: filled_def u' upd_row_def split: option.splits)
    next
      case (new sz)
      with fill_split(2) [OF assms(1), of x y] show ?thesis by (simp add: u')
    qed
  qed (simp add: filled_def)
qed

section \<open>Consistency\<close>

text \<open>The files that an entry owns.\<close>

definition owned_files :: "hash \<Rightarrow> bytes entry_state \<Rightarrow> delete_set" where
  "owned_files h e = {h} \<times>
     (case e of
        CompleteEntry d ob \<Rightarrow>
          (case d of OwnedData _ \<Rightarrow> {DataPart} | _ \<Rightarrow> {}) \<union> (case ob of OwnedOutboard \<Rightarrow> {OutboardPart} | _ \<Rightarrow> {})
      | PartialEntry _ \<Rightarrow> {OutboardPart, DataPart, SizesPart, BitfieldPart})"

text \<open>Tables that behave when they do not fail, and transactions that do not change them by themselves.\<close>

locale meta_tables =
  blobs: redb_table "rd_blobs D" okb lookb +
  tags: redb_table "rd_tags D" okt lookt +
  inline: redb_table "rd_inline D" okd lookd
  for D :: "('b, 't, 'd) redb" and okb lookb okt lookt okd lookd +
  assumes begin_read: "rd_begin_read D db = Inr db' \<Longrightarrow> db' = db"
    and begin_write: "rd_begin_write D db = Inr db' \<Longrightarrow> db' = db"
    and commit: "rd_commit D db = Inr db' \<Longrightarrow> db' = db"
begin

lemma storage_Inr [simp]: "storage r = Inr x \<longleftrightarrow> r = Inr x"
  by (simp add: storage_def split: sum.splits)

abbreviation ok :: "('b, 't, 'd) db \<Rightarrow> bool" where
  "ok \<equiv> meta_ok okb lookb okt okd lookd"

abbreviation view :: "('b, 't, 'd) db \<Rightarrow> hash \<Rightarrow> bytes entry_state option" where
  "view \<equiv> meta_view lookb lookd"

lemma inline_row:
  assumes "okd t" "(case v of None \<Rightarrow> Inr t | Some x \<Rightarrow> storage (tb_insert (rd_inline D) t h x)) = Inr t'"
  shows "okd t' \<and> lookd t' = (lookd t)(h := upd_row v (lookd t h))"
  using assms inline.insert [of t h] by (auto simp: upd_row_def fun_eq_iff split: option.splits)

lemma insert_entry_view:
  assumes "ok db" "insert_entry D h e data outboard db = Inr db'"
    and "filled e (upd_row data (lookd (db_inline_data db) h)) (upd_row outboard (lookd (db_inline_outboard db) h))"
  shows "ok db' \<and> db_tags db' = db_tags db \<and>
    view db' = (view db)(h \<mapsto> fill_entry e (upd_row data (lookd (db_inline_data db) h)) (upd_row outboard (lookd (db_inline_outboard db) h)))"
proof -
  from assms(2) obtain b i j where b: "tb_insert (rd_blobs D) (db_blobs db) h e = Inr b"
    and i: "(case data of None \<Rightarrow> Inr (db_inline_data db) | Some x \<Rightarrow> storage (tb_insert (rd_inline D) (db_inline_data db) h x)) = Inr i"
    and j: "(case outboard of None \<Rightarrow> Inr (db_inline_outboard db) | Some x \<Rightarrow> storage (tb_insert (rd_inline D) (db_inline_outboard db) h x)) = Inr j"
    and db': "db' = db\<lparr>db_blobs := b, db_inline_data := i, db_inline_outboard := j\<rparr>"
    unfolding insert_entry_def rbind_Inr_iff storage_Inr by auto
  have o: "okb (db_blobs db)" "okd (db_inline_data db)" "okd (db_inline_outboard db)"
    using assms(1) by (simp_all add: meta_ok_def)
  note rows = blobs.insert [OF o(1) b] inline_row [OF o(2) i] inline_row [OF o(3) j]
  have "ok db'"
    using assms(1,3) rows by (simp add: meta_ok_def db')
  moreover have "view db' = (view db)(h \<mapsto> fill_entry e (upd_row data (lookd (db_inline_data db) h)) (upd_row outboard (lookd (db_inline_outboard db) h)))"
    using rows by (simp add: meta_view_def fun_eq_iff db')
  ultimately show ?thesis by (simp add: db')
qed

lemma meta_set_view:
  assumes "ok (tn_db s)" "meta_set D h st s = Inr s'"
  shows "ok (tn_db s') \<and> view (tn_db s') = (view (tn_db s))(h \<mapsto> st) \<and> db_tags (tn_db s') = db_tags (tn_db s) \<and>
    tn_protected s' = insert h (tn_protected s) \<and> tn_ftx s' = tn_ftx s"
proof -
  obtain e data outboard where sp: "split_entry st = (e, data, outboard)" by (metis surj_pair)
  with assms(2) obtain db where i: "insert_entry D h e data outboard (tn_db s) = Inr db"
    and s': "s' = s\<lparr>tn_protected := insert h (tn_protected s), tn_db := db\<rparr>"
    by (auto simp: meta_set_def rbind_Inr_iff)
  from insert_entry_view [OF assms(1) i fill_split(2) [OF sp]] show ?thesis
    by (simp add: s' fill_split(1) [OF sp])
qed

lemma meta_update_view:
  assumes "ok (tn_db s)" "meta_update D h st s = Inr s'"
  shows "ok (tn_db s') \<and> db_tags (tn_db s') = db_tags (tn_db s) \<and> tn_protected s' = insert h (tn_protected s) \<and>
    (case view (tn_db s) h of
       None \<Rightarrow> view (tn_db s') = (view (tn_db s))(h \<mapsto> st) \<and> tn_ftx s' = tn_ftx s
     | Some old \<Rightarrow> \<exists>new. merge_entry old st = Inr new \<and> view (tn_db s') = (view (tn_db s))(h \<mapsto> new) \<and>
         tn_ftx s' = tn_ftx s \<union>
           (if entry_is_partial old \<and> entry_is_complete st then {(h, SizesPart), (h, BitfieldPart)} else {}))"
proof -
  let ?db = "tn_db s"
  obtain e data outboard where sp: "split_entry st = (e, data, outboard)" by (metis surj_pair)
  have okb: "okb (db_blobs ?db)" using assms(1) by (simp add: meta_ok_def)
  have fl: "lookb (db_blobs ?db) h = Some x \<Longrightarrow> filled x (lookd (db_inline_data ?db) h) (lookd (db_inline_outboard ?db) h)" for x
    using assms(1) by (simp add: meta_ok_def)
  from assms(2) have g: "tb_get (rd_blobs D) (db_blobs ?db) h = Inr (lookb (db_blobs ?db) h)"
    using blobs.get [OF okb, of h] by (auto simp: meta_update_def rbind_Inr_iff Let_def)
  show ?thesis
  proof (cases "lookb (db_blobs ?db) h")
    case None
    with assms(2) sp g obtain db where i: "insert_entry D h e data outboard ?db = Inr db"
      and s': "s' = s\<lparr>tn_protected := insert h (tn_protected s), tn_db := db\<rparr>"
      by (auto simp: meta_update_def rbind_Inr_iff storage_def)
    from insert_entry_view [OF assms(1) i fill_split(2) [OF sp]] None show ?thesis
      by (simp add: s' fill_split(1) [OF sp] meta_view_def)
  next
    case (Some old)
    note u = entry_union_fill [OF sp fl [OF Some]]
    from assms(2) sp g Some obtain res db where un: "entry_union old e = Inr res"
      and i: "insert_entry D h res data outboard ?db = Inr db"
      and s': "s' = s\<lparr>tn_protected := insert h (tn_protected s), tn_db := db, tn_ftx :=
        (if entry_is_partial old \<and> entry_is_complete e then ds_delete h [SizesPart, BitfieldPart] (tn_ftx s) else tn_ftx s)\<rparr>"
      by (auto simp: meta_update_def rbind_Inr_iff storage_def Let_def)
    let ?old = "fill_entry old (lookd (db_inline_data ?db) h) (lookd (db_inline_outboard ?db) h)"
    let ?new = "fill_entry res (upd_row data (lookd (db_inline_data ?db) h)) (upd_row outboard (lookd (db_inline_outboard ?db) h))"
    have "merge_entry ?old st = Inr ?new" using u(1) [symmetric] un by simp
    moreover have "entry_is_partial ?old \<longleftrightarrow> entry_is_partial old" by (cases old) (simp_all add: fill_entry_def)
    moreover have "entry_is_complete st \<longleftrightarrow> entry_is_complete e"
      using sp by (cases st) (auto simp: split_entry_def split: prod.splits)
    moreover have "view ?db h = Some ?old" using Some by (simp add: meta_view_def)
    moreover note insert_entry_view [OF assms(1) i u(2) [OF un]]
    ultimately show ?thesis by (auto simp: s' ds_delete_eq)
  qed
qed

end

context meta_tables
begin

text \<open>Removing the inline rows of a hash without an entry.\<close>

definition unlinked :: "hash \<Rightarrow> ('b, 't, 'd) txn \<Rightarrow> ('b, 't, 'd) txn \<Rightarrow> bool" where
  "unlinked h s s' \<longleftrightarrow> ok (tn_db s') \<and> view (tn_db s') = view (tn_db s) \<and> db_blobs (tn_db s') = db_blobs (tn_db s) \<and>
     db_tags (tn_db s') = db_tags (tn_db s) \<and> tn_protected s' = tn_protected s"

lemma unlinked_data:
  assumes "ok (tn_db s)" "lookb (db_blobs (tn_db s)) h = None" "tb_remove (rd_inline D) (db_inline_data (tn_db s)) h = Inr (x, t)"
  shows "unlinked h s (s\<lparr>tn_db := (tn_db s)\<lparr>db_inline_data := t\<rparr>\<rparr>)"
  using assms inline.remove [OF _ assms(3)] by (auto simp: unlinked_def meta_ok_def meta_view_def fun_eq_iff)

lemma unlinked_outboard:
  assumes "ok (tn_db s)" "lookb (db_blobs (tn_db s)) h = None" "tb_remove (rd_inline D) (db_inline_outboard (tn_db s)) h = Inr (x, t)"
  shows "unlinked h s (s\<lparr>tn_db := (tn_db s)\<lparr>db_inline_outboard := t\<rparr>\<rparr>)"
  using assms inline.remove [OF _ assms(3)] by (auto simp: unlinked_def meta_ok_def meta_view_def fun_eq_iff)

lemma delete_entry_view:
  assumes "ok (tn_db s)" "lookb (db_blobs (tn_db s)) h = None" "delete_entry D h e s = Inr s'"
  shows "unlinked h s s' \<and> tn_ftx s' = tn_ftx s \<union> owned_files h (fill_entry e x y)"
proof (cases e)
  case (CompleteEntry d ob)
  with assms(3) obtain s1 where s1: "(case d of
      InlineData _ \<Rightarrow> rbind (storage (tb_remove (rd_inline D) (db_inline_data (tn_db s)) h)) (\<lambda>(_, t).
        Inr (s\<lparr>tn_db := (tn_db s)\<lparr>db_inline_data := t\<rparr>\<rparr>))
    | OwnedData _ \<Rightarrow> Inr (s\<lparr>tn_ftx := ds_delete h [DataPart] (tn_ftx s)\<rparr>)
    | ExternalData _ _ \<Rightarrow> Inr s) = Inr s1"
    and s': "(case ob of
      InlineOutboard _ \<Rightarrow> rbind (storage (tb_remove (rd_inline D) (db_inline_outboard (tn_db s1)) h)) (\<lambda>(_, t).
        Inr (s1\<lparr>tn_db := (tn_db s1)\<lparr>db_inline_outboard := t\<rparr>\<rparr>))
    | OwnedOutboard \<Rightarrow> Inr (s1\<lparr>tn_ftx := ds_delete h [OutboardPart] (tn_ftx s1)\<rparr>)
    | NotNeeded \<Rightarrow> Inr s1) = Inr s'"
    unfolding delete_entry_def by (auto simp: rbind_Inr_iff)
  have 1: "unlinked h s s1 \<and> tn_ftx s1 = tn_ftx s \<union> {h} \<times> (case d of OwnedData _ \<Rightarrow> {DataPart} | _ \<Rightarrow> {})"
    using s1 assms(1,2) unlinked_data [OF assms(1,2)]
    by (cases d) (auto simp: rbind_Inr_iff unlinked_def ds_delete_eq)
  then have o1: "ok (tn_db s1)" "lookb (db_blobs (tn_db s1)) h = None" using assms(2) by (simp_all add: unlinked_def)
  have 2: "unlinked h s1 s' \<and> tn_ftx s' = tn_ftx s1 \<union> {h} \<times> (case ob of OwnedOutboard \<Rightarrow> {OutboardPart} | _ \<Rightarrow> {})"
    using s' o1 unlinked_outboard [OF o1]
    by (cases ob) (auto simp: rbind_Inr_iff unlinked_def ds_delete_eq)
  have "owned_files h (fill_entry e x y) =
      {h} \<times> ((case d of OwnedData _ \<Rightarrow> {DataPart} | _ \<Rightarrow> {}) \<union> (case ob of OwnedOutboard \<Rightarrow> {OutboardPart} | _ \<Rightarrow> {}))"
    by (cases d; cases ob) (auto simp: CompleteEntry owned_files_def fill_entry_def fill_data_def fill_outboard_def)
  with 1 2 show ?thesis by (auto simp: unlinked_def)
next
  case (PartialEntry sz)
  with assms show ?thesis by (auto simp: delete_entry_def ds_delete_eq owned_files_def fill_entry_def unlinked_def)
qed

lemma meta_delete_view:
  assumes "ok (tn_db s)" "meta_delete D hs force s = Inr s'"
  shows "ok (tn_db s') \<and> db_tags (tn_db s') = db_tags (tn_db s) \<and> tn_protected s' = tn_protected s \<and>
    view (tn_db s') = (\<lambda>h. if h \<in> set hs \<and> (force \<or> h \<notin> tn_protected s) then None else view (tn_db s) h) \<and>
    tn_ftx s' = tn_ftx s \<union> (\<Union>h\<in>{h \<in> set hs. force \<or> h \<notin> tn_protected s}.
      case view (tn_db s) h of None \<Rightarrow> {} | Some e \<Rightarrow> owned_files h e)"
  using assms
proof (induction hs arbitrary: s)
  case (Cons h hs)
  show ?case
  proof (cases "\<not> force \<and> h \<in> tn_protected s")
    case True
    with Cons.prems have "meta_delete D hs force s = Inr s'" by simp
    note ih = Cons.IH [OF Cons.prems(1) this]
    have "{x \<in> set (h # hs). force \<or> x \<notin> tn_protected s} = {x \<in> set hs. force \<or> x \<notin> tn_protected s}"
      "(x \<in> set (h # hs) \<and> (force \<or> x \<notin> tn_protected s)) = (x \<in> set hs \<and> (force \<or> x \<notin> tn_protected s))" for x
      using True by auto
    with ih show ?thesis by simp
  next
    case False
    with Cons.prems(2) obtain entry b s2 where r: "tb_remove (rd_blobs D) (db_blobs (tn_db s)) h = Inr (entry, b)"
      and s2: "(case entry of None \<Rightarrow> Inr (s\<lparr>tn_db := (tn_db s)\<lparr>db_blobs := b\<rparr>\<rparr>)
        | Some e \<Rightarrow> delete_entry D h e (s\<lparr>tn_db := (tn_db s)\<lparr>db_blobs := b\<rparr>\<rparr>)) = Inr s2"
      and d: "meta_delete D hs force s2 = Inr s'"
      by (auto simp: rbind_Inr_iff Let_def split: if_splits)
    let ?s = "s\<lparr>tn_db := (tn_db s)\<lparr>db_blobs := b\<rparr>\<rparr>"
    have rm: "okb b" "entry = lookb (db_blobs (tn_db s)) h" "lookb b = (lookb (db_blobs (tn_db s)))(h := None)"
      using blobs.remove [OF _ r] Cons.prems(1) by (simp_all add: meta_ok_def)
    have okv: "ok (tn_db ?s)" "view (tn_db ?s) = (view (tn_db s))(h := None)" "lookb (db_blobs (tn_db ?s)) h = None"
      using Cons.prems(1) rm by (auto simp: meta_ok_def meta_view_def fun_eq_iff)
    have 2: "unlinked h ?s s2 \<and> tn_ftx s2 = tn_ftx s \<union> (case view (tn_db s) h of None \<Rightarrow> {} | Some e \<Rightarrow> owned_files h e)"
    proof (cases entry)
      case None
      with s2 rm(2) okv show ?thesis by (auto simp: unlinked_def meta_view_def)
    next
      case (Some e)
      then have l: "lookb (db_blobs (tn_db s)) h = Some e" using rm(2) by simp
      from Some s2 have "delete_entry D h e ?s = Inr s2" by simp
      from delete_entry_view [OF okv(1,3) this] l show ?thesis by (simp add: meta_view_def)
    qed
    then have s2: "ok (tn_db s2)" "view (tn_db s2) = (view (tn_db s))(h := None)" "db_tags (tn_db s2) = db_tags (tn_db s)"
      "tn_protected s2 = tn_protected s"
      using okv by (simp_all add: unlinked_def)
    let ?A = "{x \<in> set hs. force \<or> x \<notin> tn_protected s}"
    let ?f = "\<lambda>x. case view (tn_db s) x of None \<Rightarrow> {} | Some e \<Rightarrow> owned_files x e"
    have ih: "ok (tn_db s')" "db_tags (tn_db s') = db_tags (tn_db s)" "tn_protected s' = tn_protected s"
      "view (tn_db s') = (\<lambda>x. if x \<in> ?A then None else ((view (tn_db s))(h := None)) x)"
      "tn_ftx s' = tn_ftx s2 \<union> (\<Union>x\<in>?A. case ((view (tn_db s))(h := None)) x of None \<Rightarrow> {} | Some e \<Rightarrow> owned_files x e)"
      using Cons.IH [OF s2(1) d] unfolding s2(2-) mem_Collect_eq by blast+
    have A: "{x \<in> set (h # hs). force \<or> x \<notin> tn_protected s} = insert h ?A" using False by auto
    have v: "view (tn_db s') x = (if x \<in> insert h ?A then None else view (tn_db s) x)" for x
      unfolding ih(4) by auto
    have "(case ((view (tn_db s))(h := None)) x of None \<Rightarrow> {} | Some e \<Rightarrow> owned_files x e) = (if x = h then {} else ?f x)" for x
      by simp
    then have f: "tn_ftx s' = tn_ftx s \<union> (\<Union>x\<in>insert h ?A. ?f x)"
      unfolding ih(5) using 2 by (simp only: UN_insert) auto
    show ?thesis
      using ih(1-3) f v unfolding A [symmetric] by (simp add: fun_eq_iff)
  qed
qed simp

end

context meta_tables
begin

lemma set_tags_ok: "ok (tn_db s) \<Longrightarrow> okt t \<Longrightarrow> ok (tn_db (set_tags_table t s))"
  by (simp add: set_tags_table_def meta_ok_def)

lemma set_tag_ok: "ok (tn_db s) \<Longrightarrow> meta_set_tag D tag v s = (s', r) \<Longrightarrow> ok (tn_db s')"
  using tags.insert set_tags_ok by (auto simp: meta_set_tag_def meta_ok_def split: sum.splits)

lemma create_tag_ok: "ok (tn_db s) \<Longrightarrow> meta_create_tag D stamp v s = Some (Inr (tag, s')) \<Longrightarrow> ok (tn_db s')"
  using tags.insert set_tags_ok by (auto simp: meta_create_tag_def meta_ok_def rbind_Inr_iff split: option.splits)

lemma delete_tags_ok: "ok (tn_db s) \<Longrightarrow> meta_delete_tags D req s = Inr s' \<Longrightarrow> ok (tn_db s')"
  using tags.extract_range set_tags_ok by (auto simp: meta_delete_tags_def meta_ok_def rbind_Inr_iff Let_def)

lemma rename_tag_ok:
  assumes "ok (tn_db s)" "meta_rename_tag D old new s = Inr (s', r)"
  shows "ok (tn_db s')"
proof -
  obtain v t where t: "tb_remove (rd_tags D) (db_tags (tn_db s)) old = Inr (v, t)"
    using assms(2) by (auto simp: meta_rename_tag_def rbind_Inr_iff)
  have "okt t" using tags.remove [OF _ t] assms(1) by (simp add: meta_ok_def)
  with assms t tags.insert [of t new] set_tags_ok show ?thesis
    by (auto simp: meta_rename_tag_def rbind_Inr_iff split: option.splits)
qed

lemma readwrite_ok:
  assumes "ok (tn_db s)" "handle_readwrite D cmd s = Inr (s', out)"
  shows "ok (tn_db s')"
proof (cases cmd)
  case (Update h st tx)
  with assms meta_update_view [OF assms(1)] show ?thesis by (auto split: sum.splits)
next
  case (Set h st tx)
  with assms meta_set_view [OF assms(1)] show ?thesis by (auto split: sum.splits)
next
  case (DeleteBlobw hs force tx)
  with assms meta_delete_view [OF assms(1)] show ?thesis by (auto split: sum.splits)
next
  case (SetTag tag v tx)
  with assms set_tag_ok [OF assms(1)] show ?thesis by (auto split: sum.splits prod.splits)
next
  case (CreateTag stamp v tx)
  with assms create_tag_ok [OF assms(1)] show ?thesis by (auto split: sum.splits option.splits)
next
  case (DeleteTags req tx)
  with assms delete_tags_ok [OF assms(1)] show ?thesis by (auto split: sum.splits)
next
  case (RenameTag old new tx)
  with assms rename_tag_ok [OF assms(1)] show ?thesis by (auto split: sum.splits prod.splits)
next
  case (ProcessExit c)
  with assms show ?thesis by simp
qed

lemma non_toplevel_ok:
  assumes "ok (tn_db s)" "handle_non_toplevel D cmd s = Inr (s', out)"
  shows "ok (tn_db s')"
  using assms readwrite_ok by (cases cmd) (auto split: sum.splits)

lemma write_batch_ok: "ok (tn_db s) \<Longrightarrow> ok (tn_db (fst (write_batch D env m k n s r)))"
proof (induction k arbitrary: n s r)
  case (Suc k)
  obtain u r1 where x: "extract_next non_top_level False r = (u, r1)" by fastforce
  show ?case
  proof (cases u)
    case (Some cmd)
    show ?thesis
    proof (cases "handle_non_toplevel D cmd s")
      case (Inr so)
      obtain s1 out1 where so: "so = (s1, out1)" by (cases so)
      have "ok (tn_db (s1\<lparr>tn_ftx := env (tn_ftx s1)\<rparr>))" using non_toplevel_ok [OF Suc.prems] Inr so by simp
      from Suc.IH [OF this, of "n + 1" r1] this x Some Inr so show ?thesis
        by (auto simp: Let_def split: prod.split)
    qed (use Suc.prems x Some in auto)
  qed (use Suc.prems x in auto)
qed simp

lemma run_ok: "ok (ac_db a) \<Longrightarrow> ok (ac_db (fst (run D env stuck options ks a)))"
proof (induction ks arbitrary: a)
  case (Cons k ks)
  obtain c r where rn: "recv_next (ac_cmds a) = (c, r)" by fastforce
  show ?case
  proof (cases c)
    case (Some cmd)
    show ?thesis
    proof (cases cmd)
      case (TopLevel t)
      with Cons.prems rn Some Cons.IH [of "a\<lparr>ac_cmds := r\<rparr>"] show ?thesis
        by (auto split: sum.splits option.splits prod.splits)
    next
      case (ReadOnly x)
      have "ok (ac_db (fst (run D env stuck options ks (a\<lparr>ac_cmds := q, ac_protected := p\<rparr>))))" for q p
        using Cons.IH [of "a\<lparr>ac_cmds := q, ac_protected := p\<rparr>"] Cons.prems by simp
      with Cons.prems rn Some ReadOnly show ?thesis
        by (simp add: Let_def split_def split: sum.split option.split)
    next
      case (ReadWrite x)
      have wb: "ok (tn_db (fst (write_batch D env m k 0 \<lparr>tn_db = db, tn_ftx = F, tn_protected = p\<rparr> q)))"
        if "rd_begin_write D (ac_db a) = Inr db" for db m F p q
        using write_batch_ok [of "\<lparr>tn_db = db, tn_ftx = F, tn_protected = p\<rparr>"] begin_write [OF that] Cons.prems by simp
      have "ok (ac_db (fst (run D env stuck options ks (a\<lparr>ac_db := db, ac_cmds := q, ac_ds := F, ac_files := f, ac_protected := p\<rparr>))))"
        if "rd_commit D d = Inr db" "ok d" for d db q F f p
        using Cons.IH [of "a\<lparr>ac_db := db, ac_cmds := q, ac_ds := F, ac_files := f, ac_protected := p\<rparr>"] commit [OF that(1)] that(2)
        by simp
      with Cons.prems rn Some ReadWrite wb show ?thesis
        by (simp add: Let_def split_def split: sum.split option.split)
    qed
  qed (use Cons.prems rn in auto)
qed simp

text \<open>In a consistent database a lookup returns the entry with its inline data.\<close>

lemma meta_get_view:
  assumes "ok db" "meta_get D db h = r"
  shows "r = Inl StorageError \<or> r = Inr (view db h)"
proof -
  have o: "okb (db_blobs db)" "okd (db_inline_data db)" "okd (db_inline_outboard db)"
    and f: "lookb (db_blobs db) h = Some e \<Longrightarrow> filled e (lookd (db_inline_data db) h) (lookd (db_inline_outboard db) h)" for e
    using assms(1) by (simp_all add: meta_ok_def)
  have get: "storage (tb_get (rd_blobs D) (db_blobs db) h) = Inl StorageError \<or>
      storage (tb_get (rd_blobs D) (db_blobs db) h) = Inr (lookb (db_blobs db) h)"
    using blobs.get [OF o(1), of h] by (cases "tb_get (rd_blobs D) (db_blobs db) h") (simp_all add: storage_def)
  have row: "storage (tb_get (rd_inline D) t h) = Inl StorageError \<or> storage (tb_get (rd_inline D) t h) = Inr (lookd t h)"
    if "okd t" for t
    using inline.get [OF that, of h] by (cases "tb_get (rd_inline D) t h") (simp_all add: storage_def)
  have d: "load_data D db d h = Inl StorageError \<or> load_data D db d h = Inr (fill_data d (lookd (db_inline_data db) h))"
    if "d = InlineData () \<longrightarrow> lookd (db_inline_data db) h \<noteq> None" for d
    using row [OF o(2)] that by (cases d) (auto simp: load_data_def fill_data_def simp del: storage_Inr)
  have b: "load_outboard D db ob h = Inl StorageError \<or>
      load_outboard D db ob h = Inr (fill_outboard ob (lookd (db_inline_outboard db) h))"
    if "ob = InlineOutboard () \<longrightarrow> lookd (db_inline_outboard db) h \<noteq> None" for ob
    using row [OF o(3)] that by (cases ob) (auto simp: load_outboard_def fill_outboard_def simp del: storage_Inr)
  show ?thesis
  proof (cases "lookb (db_blobs db) h")
    case None
    with get assms(2) show ?thesis by (auto simp: meta_get_def meta_view_def simp del: storage_Inr)
  next
    case (Some e)
    show ?thesis
    proof (cases e)
      case (CompleteEntry dl ob)
      have "dl = InlineData () \<longrightarrow> lookd (db_inline_data db) h \<noteq> None"
        "ob = InlineOutboard () \<longrightarrow> lookd (db_inline_outboard db) h \<noteq> None"
        using f [OF Some] CompleteEntry by (auto simp: filled_def)
      from d [OF this(1)] b [OF this(2)] get assms(2) Some CompleteEntry show ?thesis
        by (auto simp: meta_get_def meta_view_def fill_entry_def simp del: storage_Inr)
    qed (use get assms(2) Some in \<open>auto simp: meta_get_def meta_view_def fill_entry_def simp del: storage_Inr\<close>)
  qed
qed

lemma meta_status_view:
  assumes "ok db" "meta_blob_status D db h = r"
  shows "r = Inl StorageError \<or> r = Inr (case view db h of
      None \<Rightarrow> NotFound
    | Some (PartialEntry sz) \<Rightarrow> PartialBlob sz
    | Some (CompleteEntry d _) \<Rightarrow> CompleteBlob (case d of
        InlineData x \<Rightarrow> of_nat (length x) | OwnedData sz \<Rightarrow> sz | ExternalData _ sz \<Rightarrow> sz))"
proof -
  have o: "okb (db_blobs db)" "okd (db_inline_data db)"
    and f: "lookb (db_blobs db) h = Some e \<Longrightarrow> filled e (lookd (db_inline_data db) h) (lookd (db_inline_outboard db) h)" for e
    using assms(1) by (simp_all add: meta_ok_def)
  have get: "storage (tb_get (rd_blobs D) (db_blobs db) h) = Inl StorageError \<or>
      storage (tb_get (rd_blobs D) (db_blobs db) h) = Inr (lookb (db_blobs db) h)"
    using blobs.get [OF o(1), of h] by (cases "tb_get (rd_blobs D) (db_blobs db) h") (simp_all add: storage_def)
  have row: "storage (tb_get (rd_inline D) (db_inline_data db) h) = Inl StorageError \<or>
      storage (tb_get (rd_inline D) (db_inline_data db) h) = Inr (lookd (db_inline_data db) h)"
    using inline.get [OF o(2), of h] by (cases "tb_get (rd_inline D) (db_inline_data db) h") (simp_all add: storage_def)
  show ?thesis
  proof (cases "lookb (db_blobs db) h")
    case None
    with get assms(2) show ?thesis by (auto simp: meta_blob_status_def meta_view_def simp del: storage_Inr)
  next
    case (Some e)
    note get = get [unfolded Some]
    show ?thesis
    proof (cases e)
      case (CompleteEntry dl ob)
      have "dl = InlineData () \<longrightarrow> lookd (db_inline_data db) h \<noteq> None"
        using f [OF Some] CompleteEntry by (auto simp: filled_def)
      with get row assms(2) CompleteEntry show ?thesis
        by (cases dl) (auto simp: meta_blob_status_def meta_view_def fill_entry_def fill_data_def Some simp del: storage_Inr)
    qed (use get assms(2) Some in \<open>auto simp: meta_blob_status_def meta_view_def fill_entry_def simp del: storage_Inr\<close>)
  qed
qed

end

section \<open>Tags\<close>

definition meta_tag_ops :: "('b, 't, 'd) redb \<Rightarrow> ('b, 't, 'd) txn tag_ops" where
  "meta_tag_ops D =
     \<lparr>to_list = (\<lambda>s req. case meta_list_tags D (tn_db s) req of Inl _ \<Rightarrow> [] | Inr items \<Rightarrow> rights items),
      to_set = (\<lambda>s n v. fst (meta_set_tag D n v s)),
      to_delete = (\<lambda>s req. case meta_delete_tags D req s of Inl _ \<Rightarrow> s | Inr s \<Rightarrow> s),
      to_rename = (\<lambda>s old new. case meta_rename_tag D old new s of
         Inl _ \<Rightarrow> Inl TagNotFound | Inr (s, Inl e) \<Rightarrow> Inl e | Inr (s, Inr _) \<Rightarrow> Inr s),
      to_create = (\<lambda>s stamp v. case meta_create_tag D stamp v s of
         None \<Rightarrow> None | Some (Inl _) \<Rightarrow> None | Some (Inr ts) \<Rightarrow> Some ts)\<rparr>"

lemma in_bounds_tag_range: "in_bounds (from_bound a) (to_bound b) n \<longleftrightarrow> in_tag_range a b n"
  by (auto simp: in_bounds_def from_bound_def to_bound_def in_tag_range_def split: option.splits)

lemma rights_list_items:
  "rights (list_items raw hs (map Inr xs)) =
    map (\<lambda>(k, v). tag_info_new k v) (filter (\<lambda>(k, v). raw \<and> is_raw (hf_format v) \<or> hs \<and> is_hash_seq (hf_format v)) xs)"
proof (induction xs)
  case (Cons x xs)
  then show ?case by (cases x) (simp add: tag_info_new_def)
qed simp

text \<open>Tables that do not fail.\<close>

locale reliable_meta = meta_tables D okb lookb okt lookt okd lookd +
  rb: reliable_table "rd_blobs D" okb lookb +
  rt: reliable_table "rd_tags D" okt lookt +
  ri: reliable_table "rd_inline D" okd lookd
  for D :: "('b, 't, 'd) redb" and okb lookb okt lookt okd lookd
begin

abbreviation tags_table :: "('b, 't, 'd) txn \<Rightarrow> tag \<Rightarrow> hash_and_format option" where
  "tags_table s \<equiv> lookt (db_tags (tn_db s))"

abbreviation tags_valid :: "('b, 't, 'd) txn \<Rightarrow> bool" where
  "tags_valid s \<equiv> okt (db_tags (tn_db s))"

lemma list_tags_exact:
  assumes "tags_valid s"
  shows "sorted_wrt (<) (map ti_name (to_list (meta_tag_ops D) s r))"
    and "i \<in> set (to_list (meta_tag_ops D) s r) \<longleftrightarrow>
      tags_table s (ti_name i) = Some (hash_and_format_of i) \<and>
      in_tag_range (lt_from r) (lt_to r) (ti_name i) \<and> wants_format r (ti_format i)"
proof -
  obtain xs where xs: "tb_range (rd_tags D) (db_tags (tn_db s)) (from_bound (lt_from r)) (to_bound (lt_to r)) = Inr (map Inr xs)"
    "sorted_wrt (<) (map fst xs)"
    "\<And>k v. (k, v) \<in> set xs \<longleftrightarrow> tags_table s k = Some v \<and> in_tag_range (lt_from r) (lt_to r) k"
    using rt.range_look [OF assms, of "from_bound (lt_from r)" "to_bound (lt_to r)"] unfolding in_bounds_tag_range by blast
  let ?P = "\<lambda>(k, v). lt_raw r \<and> is_raw (hf_format v) \<or> lt_hash_seq r \<and> is_hash_seq (hf_format v)"
  have l: "to_list (meta_tag_ops D) s r = map (\<lambda>(k, v). tag_info_new k v) (filter ?P xs)"
    using xs(1) by (simp add: meta_tag_ops_def meta_list_tags_def storage_def rights_list_items)
  show "sorted_wrt (<) (map ti_name (to_list (meta_tag_ops D) s r))"
    using sorted_map_filter [OF xs(2), of ?P] unfolding l by (simp add: comp_def split_def tag_info_new_def)
  have "i \<in> set (to_list (meta_tag_ops D) s r) \<longleftrightarrow> (\<exists>k v. (k, v) \<in> set xs \<and> wants_format r (hf_format v) \<and> i = tag_info_new k v)"
    unfolding l wants_format_def by force
  then show "i \<in> set (to_list (meta_tag_ops D) s r) \<longleftrightarrow>
      tags_table s (ti_name i) = Some (hash_and_format_of i) \<and>
      in_tag_range (lt_from r) (lt_to r) (ti_name i) \<and> wants_format r (ti_format i)"
    unfolding xs(3) by (cases i) (auto simp: tag_info_new_def hash_and_format_of_def)
qed

lemma set_tags_sel [simp]: "db_tags (tn_db (set_tags_table t s)) = t"
  by (simp add: set_tags_table_def)

end

sublocale reliable_meta \<subseteq> tagdb: tag_store "meta_tag_ops D" "\<lambda>s. okt (db_tags (tn_db s))" "\<lambda>s. lookt (db_tags (tn_db s))"
proof
  fix s :: "('b, 't, 'd) txn" and n v and d :: delete_tags_request and "from" to r i stamp
  assume ok: "okt (db_tags (tn_db s))"
  show "finite (dom (lookt (db_tags (tn_db s))))" by (rule tags.finite_look [OF ok])
  obtain t where t: "tb_insert (rd_tags D) (db_tags (tn_db s)) n v = Inr t" using rt.insert_ok [OF ok] by blast
  with tags.insert [OF ok t] show "okt (db_tags (tn_db (to_set (meta_tag_ops D) s n v))) \<and>
      lookt (db_tags (tn_db (to_set (meta_tag_ops D) s n v))) = (lookt (db_tags (tn_db s)))(n \<mapsto> v)"
    by (simp add: meta_tag_ops_def meta_set_tag_def)
  obtain t where t: "tb_extract (rd_tags D) (db_tags (tn_db s)) (from_bound (dt_from d)) (to_bound (dt_to d)) = Inr t"
    using rt.extract_ok [OF ok] by blast
  with tags.extract_range [OF ok t] show "okt (db_tags (tn_db (to_delete (meta_tag_ops D) s d))) \<and>
      lookt (db_tags (tn_db (to_delete (meta_tag_ops D) s d))) =
      (\<lambda>n. if in_tag_range (dt_from d) (dt_to d) n then None else lookt (db_tags (tn_db s)) n)"
    by (simp add: meta_tag_ops_def meta_delete_tags_def storage_def in_bounds_tag_range)
  obtain x t where t: "tb_remove (rd_tags D) (db_tags (tn_db s)) from = Inr (x, t)" using rt.remove_ok [OF ok] by fast
  note rm = tags.remove [OF ok t]
  show "to_rename (meta_tag_ops D) s from to = Inl TagNotFound" if "lookt (db_tags (tn_db s)) from = None"
    using that t rm by (simp add: meta_tag_ops_def meta_rename_tag_def storage_def)
  obtain t' where t': "tb_insert (rd_tags D) t to v = Inr t'" using rt.insert_ok rm by blast
  show "\<exists>s'. to_rename (meta_tag_ops D) s from to = Inr s' \<and> okt (db_tags (tn_db s')) \<and>
      lookt (db_tags (tn_db s')) = ((lookt (db_tags (tn_db s)))(from := None))(to \<mapsto> v)"
    if "lookt (db_tags (tn_db s)) from = Some v"
    using that t rm t' tags.insert [OF _ t'] by (simp add: meta_tag_ops_def meta_rename_tag_def storage_def)
  show "sorted_wrt (<) (map ti_name (to_list (meta_tag_ops D) s r))" by (rule list_tags_exact [OF ok])
  show "i \<in> set (to_list (meta_tag_ops D) s r) \<longleftrightarrow>
      lookt (db_tags (tn_db s)) (ti_name i) = Some (hash_and_format_of i) \<and>
      in_tag_range (lt_from r) (lt_to r) (ti_name i) \<and> wants_format r (ti_format i)"
    by (rule list_tags_exact [OF ok])
  have "(\<lambda>x. \<exists>v. tb_get (rd_tags D) (db_tags (tn_db s)) x = Inr (Some v)) = (\<lambda>x. lookt (db_tags (tn_db s)) x \<noteq> None)"
    by (simp add: fun_eq_iff rt.get_look [OF ok])
  moreover have "finite {t. lookt (db_tags (tn_db s)) t \<noteq> None}"
    using tags.finite_look [OF ok] by (simp add: dom_def)
  ultimately obtain tag where tag: "auto_tag stamp (\<lambda>x. \<exists>v. tb_get (rd_tags D) (db_tags (tn_db s)) x = Inr (Some v)) = Some tag"
    "lookt (db_tags (tn_db s)) tag = None"
    using auto_tag_fresh [of "\<lambda>x. lookt (db_tags (tn_db s)) x \<noteq> None" stamp] by auto
  obtain t where t: "tb_insert (rd_tags D) (db_tags (tn_db s)) tag v = Inr t" using rt.insert_ok [OF ok] by blast
  show "\<exists>t s'. to_create (meta_tag_ops D) s stamp v = Some (t, s') \<and> okt (db_tags (tn_db s')) \<and>
      lookt (db_tags (tn_db s)) t = None \<and> lookt (db_tags (tn_db s')) = (lookt (db_tags (tn_db s)))(t \<mapsto> v)"
    using tag t tags.insert [OF ok t] by (simp add: meta_tag_ops_def meta_create_tag_def storage_def)
qed

section \<open>Association lists provide it\<close>

definition ref_redb :: "((hash, unit entry_state) btree, (tag, hash_and_format) btree, (hash, bytes) btree) redb" where
  "ref_redb =
     \<lparr>rd_blobs = bt_table, rd_tags = bt_table, rd_inline = bt_table,
      rd_begin_read = Inr, rd_begin_write = Inr, rd_commit = Inr\<rparr>"

interpretation refm: reliable_meta ref_redb bt_ok bt_get bt_ok bt_get bt_ok bt_get
  by (intro reliable_meta.intro meta_tables.intro meta_tables_axioms.intro)
    (simp_all add: ref_redb_def btt.redb_table_axioms btt.reliable_table_axioms)

section \<open>Success\<close>

context reliable_meta
begin

lemma get_view: "ok db \<Longrightarrow> meta_get D db h = Inr (view db h)"
proof -
  assume "ok db"
  then have o: "okb (db_blobs db)" "okd (db_inline_data db)" "okd (db_inline_outboard db)" by (simp_all add: meta_ok_def)
  have "meta_get D db h \<noteq> Inl StorageError"
    by (auto simp: meta_get_def rb.get_look [OF o(1)] load_data_def load_outboard_def ri.get_look [OF o(2)]
        ri.get_look [OF o(3)] storage_def rbind_Inl_iff
        split: option.splits entry_state.splits data_location.splits outboard_location.splits)
  with meta_get_view [OF \<open>ok db\<close> refl, of h] show ?thesis by blast
qed

lemma insert_entry_succeeds: "ok db \<Longrightarrow> \<exists>db'. insert_entry D h e data outboard db = Inr db'"
proof -
  assume "ok db"
  then have o: "okb (db_blobs db)" "okd (db_inline_data db)" "okd (db_inline_outboard db)" by (simp_all add: meta_ok_def)
  obtain b where "tb_insert (rd_blobs D) (db_blobs db) h e = Inr b" using rb.insert_ok [OF o(1)] by blast
  moreover have "\<exists>i. (case v of None \<Rightarrow> Inr t | Some x \<Rightarrow> storage (tb_insert (rd_inline D) t h x)) = Inr i" if "okd t" for v t
    using ri.insert_ok [OF that, of h] by (cases v) auto
  then obtain i j where "(case data of None \<Rightarrow> Inr (db_inline_data db)
      | Some x \<Rightarrow> storage (tb_insert (rd_inline D) (db_inline_data db) h x)) = Inr i"
    "(case outboard of None \<Rightarrow> Inr (db_inline_outboard db)
      | Some x \<Rightarrow> storage (tb_insert (rd_inline D) (db_inline_outboard db) h x)) = Inr j"
    using o by blast
  ultimately show ?thesis by (simp add: insert_entry_def storage_def)
qed

lemma set_succeeds: "ok (tn_db s) \<Longrightarrow> \<exists>s'. meta_set D h st s = Inr s'"
  using insert_entry_succeeds [of "tn_db s" h] by (auto simp: meta_set_def rbind_Inr_iff split: prod.split)

lemma update_result:
  assumes "ok (tn_db s)"
  shows "case (case view (tn_db s) h of None \<Rightarrow> Inr st | Some old \<Rightarrow> merge_entry old st) of
      Inl e \<Rightarrow> meta_update D h st s = Inl e
    | Inr new \<Rightarrow> \<exists>s'. meta_update D h st s = Inr s'"
proof -
  let ?db = "tn_db s"
  have okb: "okb (db_blobs ?db)" using assms by (simp add: meta_ok_def)
  have fl: "lookb (db_blobs ?db) h = Some x \<Longrightarrow> filled x (lookd (db_inline_data ?db) h) (lookd (db_inline_outboard ?db) h)" for x
    using assms by (simp add: meta_ok_def)
  obtain e data outboard where sp: "split_entry st = (e, data, outboard)" by (metis surj_pair)
  show ?thesis
  proof (cases "lookb (db_blobs ?db) h")
    case None
    with insert_entry_succeeds [OF assms, of h e data outboard] sp show ?thesis
      by (auto simp: meta_update_def rb.get_look [OF okb] storage_def meta_view_def)
  next
    case (Some old)
    note u = entry_union_fill(1) [OF sp fl [OF Some], symmetric]
    show ?thesis
    proof (cases "entry_union old e")
      case (Inl err)
      with Some sp u show ?thesis by (simp add: meta_update_def rb.get_look [OF okb] storage_def meta_view_def)
    next
      case (Inr res)
      with Some sp u insert_entry_succeeds [OF assms, of h res data outboard] show ?thesis
        by (auto simp: meta_update_def rb.get_look [OF okb] storage_def meta_view_def Let_def)
    qed
  qed
qed

lemma delete_entry_succeeds:
  assumes "ok (tn_db s)"
  shows "\<exists>s'. delete_entry D h e s = Inr s'"
proof -
  have o: "okd (db_inline_data (tn_db s))" "okd (db_inline_outboard (tn_db s))" using assms by (simp_all add: meta_ok_def)
  obtain x i y j where "tb_remove (rd_inline D) (db_inline_data (tn_db s)) h = Inr (x, i)"
    "tb_remove (rd_inline D) (db_inline_outboard (tn_db s)) h = Inr (y, j)"
    using ri.remove_ok [OF o(1), of h] ri.remove_ok [OF o(2), of h] by auto
  then show ?thesis
    by (auto simp: delete_entry_def storage_def split: entry_state.split data_location.split outboard_location.split)
qed

lemma delete_succeeds: "ok (tn_db s) \<Longrightarrow> \<exists>s'. meta_delete D hs force s = Inr s'"
proof (induction hs arbitrary: s)
  case (Cons h hs)
  have okb: "okb (db_blobs (tn_db s))" using Cons.prems by (simp add: meta_ok_def)
  obtain x b where b: "tb_remove (rd_blobs D) (db_blobs (tn_db s)) h = Inr (x, b)" using rb.remove_ok [OF okb] by fast
  let ?s = "s\<lparr>tn_db := (tn_db s)\<lparr>db_blobs := b\<rparr>\<rparr>"
  have o: "ok (tn_db ?s)" and n: "lookb (db_blobs (tn_db ?s)) h = None"
    using blobs.remove [OF okb b] Cons.prems by (auto simp: meta_ok_def)
  have "\<exists>s2. (case x of None \<Rightarrow> Inr ?s | Some e \<Rightarrow> delete_entry D h e ?s) = Inr s2 \<and> ok (tn_db s2)"
  proof (cases x)
    case (Some e)
    obtain s2 where d: "delete_entry D h e ?s = Inr s2" using delete_entry_succeeds [OF o] by blast
    with delete_entry_view [OF o n d] Some show ?thesis by (simp add: unlinked_def)
  qed (use o in simp)
  with b Cons show ?case by (auto simp: storage_def Let_def)
qed simp

end

context reliable_meta
begin

lemma tag_db: "tag_store (meta_tag_ops D) (\<lambda>s. okt (db_tags (tn_db s))) (\<lambda>s. lookt (db_tags (tn_db s)))"
  by (rule tagdb.tag_store_axioms)

end

section \<open>Properties\<close>

text \<open>
  C12. The database stays consistent: whatever commands the actor handles, in whatever batches, and
  whatever storage operation fails, the committed tables have the inline data and outboard of every
  entry that refers to them, so that a lookup never answers that the database is inconsistent but
  returns the entry with its data, and the status of a blob is that of its entry.
\<close>

theorem meta_stays_consistent:
  assumes "meta_tables D okb lookb okt lookt okd lookd" "meta_ok okb lookb okt okd lookd (ac_db a)"
    and "run D env stuck options ks a = (a', out, e)"
  shows "meta_ok okb lookb okt okd lookd (ac_db a') \<and>
    (meta_get D (ac_db a') h = Inl StorageError \<or> meta_get D (ac_db a') h = Inr (meta_view lookb lookd (ac_db a') h)) \<and>
    meta_blob_status D (ac_db a') h \<noteq> Inl Inconsistent"
proof -
  have ok: "meta_ok okb lookb okt okd lookd (ac_db a')"
    using meta_tables.run_ok [OF assms(1,2), of env stuck options ks] assms(3) by simp
  with meta_tables.meta_get_view [OF assms(1) ok refl, of h] meta_tables.meta_status_view [OF assms(1) ok refl, of h]
  show ?thesis by auto
qed

theorem meta_stays_consistent_witness:
  "\<exists>a' out e. run ref_redb (\<lambda>ds. ds) {} \<lparr>max_read_batch = 1, max_write_batch = 1\<rparr> [1, 1]
      \<lparr>ac_db = \<lparr>db_blobs = [], db_tags = [], db_inline_data = [], db_inline_outboard = []\<rparr>,
       ac_cmds = pr_new [ReadWrite (Set hash_empty (CompleteEntry (InlineData []) NotNeeded) 0)],
       ac_ds = {}, ac_files = {}, ac_protected = {}\<rparr> = (a', out, e) \<and>
    meta_blob_status ref_redb (ac_db a') hash_empty \<noteq> Inl Inconsistent"
proof -
  let ?a = "\<lparr>ac_db = \<lparr>db_blobs = [], db_tags = [], db_inline_data = [], db_inline_outboard = []\<rparr>,
    ac_cmds = pr_new [ReadWrite (Set hash_empty (CompleteEntry (InlineData []) NotNeeded) 0)],
    ac_ds = {}, ac_files = {}, ac_protected = {}\<rparr>"
  have ok: "meta_ok bt_ok bt_get bt_ok bt_ok bt_get (ac_db ?a)" by (simp add: meta_ok_def)
  obtain a' out e where r: "run ref_redb (\<lambda>ds. ds) {} \<lparr>max_read_batch = 1, max_write_batch = 1\<rparr> [1, 1] ?a = (a', out, e)"
    by (metis prod_cases3)
  from meta_stays_consistent [OF refm.meta_tables_axioms ok r] r show ?thesis by blast
qed

text \<open>
  C13. The tables implement a map from hashes to entries: lookups read the map, \<open>set\<close> overwrites an
  entry, an update merges it into what is there (or fails, if two sizes contradict each other), and
  a deletion removes exactly the listed hashes that are not protected (or all, if forced) and marks
  exactly the files that their entries own.
\<close>

theorem meta_refines_map:
  assumes "reliable_meta D okb lookb okt lookt okd lookd" "meta_ok okb lookb okt okd lookd (tn_db s)"
  shows "meta_get D (tn_db s) h = Inr (meta_view lookb lookd (tn_db s) h) \<and>
    (\<exists>s'. meta_set D h st s = Inr s' \<and> meta_view lookb lookd (tn_db s') = (meta_view lookb lookd (tn_db s))(h \<mapsto> st)) \<and>
    (case (case meta_view lookb lookd (tn_db s) h of None \<Rightarrow> Inr st | Some old \<Rightarrow> merge_entry old st) of
       Inl e \<Rightarrow> meta_update D h st s = Inl e
     | Inr new \<Rightarrow> \<exists>s'. meta_update D h st s = Inr s' \<and>
         meta_view lookb lookd (tn_db s') = (meta_view lookb lookd (tn_db s))(h \<mapsto> new)) \<and>
    (\<exists>s'. meta_delete D hs force s = Inr s' \<and>
       meta_view lookb lookd (tn_db s') =
         (\<lambda>h. if h \<in> set hs \<and> (force \<or> h \<notin> tn_protected s) then None else meta_view lookb lookd (tn_db s) h) \<and>
       tn_ftx s' = tn_ftx s \<union> (\<Union>h\<in>{h \<in> set hs. force \<or> h \<notin> tn_protected s}.
         case meta_view lookb lookd (tn_db s) h of None \<Rightarrow> {} | Some e \<Rightarrow> owned_files h e))"
proof -
  note t = reliable_meta.axioms(1) [OF assms(1)]
  obtain s1 where 1: "meta_set D h st s = Inr s1" using reliable_meta.set_succeeds [OF assms] by blast
  obtain s2 where 2: "meta_delete D hs force s = Inr s2" using reliable_meta.delete_succeeds [OF assms] by blast
  have "case (case meta_view lookb lookd (tn_db s) h of None \<Rightarrow> Inr st | Some old \<Rightarrow> merge_entry old st) of
       Inl e \<Rightarrow> meta_update D h st s = Inl e
     | Inr new \<Rightarrow> \<exists>s'. meta_update D h st s = Inr s' \<and>
         meta_view lookb lookd (tn_db s') = (meta_view lookb lookd (tn_db s))(h \<mapsto> new)"
    using reliable_meta.update_result [OF assms, of h st] meta_tables.meta_update_view [OF t assms(2), of h st]
    by (auto split: option.splits sum.splits)
  with reliable_meta.get_view [OF assms] meta_tables.meta_set_view [OF t assms(2) 1] 1
    meta_tables.meta_delete_view [OF t assms(2) 2] 2 show ?thesis by simp
qed

theorem meta_refines_map_witness:
  "\<exists>s'. meta_update ref_redb hash_empty (CompleteEntry (InlineData [7]) NotNeeded)
      \<lparr>tn_db = \<lparr>db_blobs = [(hash_empty, PartialEntry None)], db_tags = [], db_inline_data = [], db_inline_outboard = []\<rparr>,
       tn_ftx = {}, tn_protected = {}\<rparr> = Inr s' \<and>
    meta_view bt_get bt_get (tn_db s') hash_empty = Some (CompleteEntry (InlineData [7]) NotNeeded)"
proof -
  let ?s = "\<lparr>tn_db = \<lparr>db_blobs = [(hash_empty, PartialEntry None)], db_tags = [], db_inline_data = [], db_inline_outboard = []\<rparr>,
    tn_ftx = {}, tn_protected = {}\<rparr> ::
    ((hash, unit entry_state) btree, (tag, hash_and_format) btree, (hash, bytes) btree) txn"
  have "meta_ok bt_ok bt_get bt_ok bt_ok bt_get (tn_db ?s)" by (auto simp: meta_ok_def bt_get_def filled_def)
  note r = meta_refines_map [OF refm.reliable_meta_axioms this, of hash_empty "CompleteEntry (InlineData [7]) NotNeeded"
      "[]" False, THEN conjunct2, THEN conjunct2, THEN conjunct1]
  have "meta_view bt_get bt_get (tn_db ?s) hash_empty = Some (PartialEntry None)"
    by (simp add: meta_view_def bt_get_def fill_entry_def)
  with r obtain s' where "meta_update ref_redb hash_empty (CompleteEntry (InlineData [7]) NotNeeded) ?s = Inr s'"
    "meta_view bt_get bt_get (tn_db s') =
      (meta_view bt_get bt_get (tn_db ?s))(hash_empty \<mapsto> CompleteEntry (InlineData [7]) NotNeeded)"
    by auto
  then show ?thesis by (intro exI [of _ s']) simp
qed

text \<open>
  C14. Batches are transparent: if the database can open and commit transactions and no timer fires
  before the first command of a batch, the actor handles all commands, and sends the same answers in
  the same order and ends for the same reason as if it handled and committed one command after the
  other. If it is not stopped by an error, the tables, the protected hashes and the files are the
  same in the end; what other tasks protect (\<open>keep\<close>) is not deleted in either case.
\<close>

theorem meta_batching_transparent:
  assumes "transactional D" "\<forall>k\<in>set ks. 0 < k" "length cmds < length ks"
    and "a = \<lparr>ac_db = db, ac_cmds = pr_new cmds, ac_ds = {}, ac_files = files, ac_protected = prot\<rparr>"
    and "seq_run D (\<lambda>ds. ds - keep) stuck cmds db prot files = (db', prot', files', out, end')"
  shows "\<exists>a'. run D (\<lambda>ds. ds - keep) stuck options ks a = (a', out, Some end') \<and>
    ((\<exists>st. end' = Stopped st) \<or> ac_db a' = db' \<and> ac_protected a' = prot' \<and> ac_files a' = files' \<and> ac_ds a' = {})"
proof -
  obtain a' out' e where r: "run D (\<lambda>ds. ds - keep) stuck options ks a = (a', out', e)" by (metis prod_cases3)
  from run_seq [OF assms(1,2) _ _ _ r, of db' prot' files' out end'] assms(3-5) r show ?thesis by auto
qed

theorem meta_batching_transparent_witness:
  "\<exists>a'. run ref_redb (\<lambda>ds. ds - {}) {} \<lparr>max_read_batch = 5, max_write_batch = 5\<rparr> [2, 3, 1]
      \<lparr>ac_db = \<lparr>db_blobs = [], db_tags = [], db_inline_data = [], db_inline_outboard = []\<rparr>,
       ac_cmds = pr_new [ReadWrite (SetTag [1] (hf_raw hash_empty) 4), TopLevel (SyncDb 5)],
       ac_ds = {}, ac_files = {}, ac_protected = {}\<rparr> = (a', [(4, MUnit), (5, MUnit)], Some Closed) \<and>
    bt_get (db_tags (ac_db a')) [1] = Some (hf_raw hash_empty)"
proof -
  let ?db = "\<lparr>db_blobs = [], db_tags = [], db_inline_data = [], db_inline_outboard = []\<rparr> ::
    ((hash, unit entry_state) btree, (tag, hash_and_format) btree, (hash, bytes) btree) db"
  let ?cs = "[ReadWrite (SetTag [1] (hf_raw hash_empty) 4), TopLevel (SyncDb 5)]"
  have "transactional ref_redb" by (simp add: transactional_def ref_redb_def)
  moreover have "seq_run ref_redb (\<lambda>ds. ds - {}) {} ?cs ?db {} {} =
      (?db\<lparr>db_tags := [([1], hf_raw hash_empty)]\<rparr>, {}, {}, [(4, MUnit), (5, MUnit)], Closed)"
    by (simp add: seq_run_write seq_run_top meta_set_tag_def ref_redb_def bt_table_def set_tags_table_def committed_def)
  ultimately show ?thesis
    using meta_batching_transparent [of ref_redb "[2, 3, 1]" ?cs _ ?db "{}" "{}" "{}" "{}"
        "?db\<lparr>db_tags := [([1], hf_raw hash_empty)]\<rparr>" "{}" "{}" "[(4, MUnit), (5, MUnit)]" Closed]
    by (force simp: bt_get_def)
qed

text \<open>
  C26. The tags of the metadata database are a table of tags, with the same contract as those of the
  memory store: lookup after \<open>set\<close>, deletion of ranges, renaming and the creation of a fresh name.
\<close>

theorem meta_tags_table:
  assumes "reliable_meta D okb lookb okt lookt okd lookd" "okt (db_tags (tn_db s))"
  shows "tags_get (meta_tag_ops D) (tags_set (meta_tag_ops D) s n v) m =
      (if m = n then Some (tag_info_new n v) else tags_get (meta_tag_ops D) s m) \<and>
    tags_get (meta_tag_ops D) (tags_delete_range (meta_tag_ops D) s a b) m =
      (if (case a of Included x \<Rightarrow> x \<le> m | Excluded x \<Rightarrow> x < m | Unbounded \<Rightarrow> True) \<and>
          (case b of Included y \<Rightarrow> m \<le> y | Excluded y \<Rightarrow> m < y | Unbounded \<Rightarrow> True)
       then None else tags_get (meta_tag_ops D) s m) \<and>
    (case tags_get (meta_tag_ops D) s n of
        None \<Rightarrow> tags_rename (meta_tag_ops D) s n k = Inl TagNotFound
      | Some i \<Rightarrow> \<exists>s'. tags_rename (meta_tag_ops D) s n k = Inr s' \<and> okt (db_tags (tn_db s')) \<and>
          tags_get (meta_tag_ops D) s' k = Some (i\<lparr>ti_name := k\<rparr>) \<and>
          (\<forall>m. m \<noteq> k \<longrightarrow> tags_get (meta_tag_ops D) s' m = (if m = n then None else tags_get (meta_tag_ops D) s m))) \<and>
    (\<exists>t s'. tags_create (meta_tag_ops D) s stamp v = Some (t, s') \<and> okt (db_tags (tn_db s')) \<and>
      tags_get (meta_tag_ops D) s t = None \<and>
      (\<forall>m. tags_get (meta_tag_ops D) s' m = (if m = t then Some (tag_info_new t v) else tags_get (meta_tag_ops D) s m)))"
proof (intro conjI)
  note T = reliable_meta.tag_db [OF assms(1)]
  show "case tags_get (meta_tag_ops D) s n of
        None \<Rightarrow> tags_rename (meta_tag_ops D) s n k = Inl TagNotFound
      | Some i \<Rightarrow> \<exists>s'. tags_rename (meta_tag_ops D) s n k = Inr s' \<and> okt (db_tags (tn_db s')) \<and>
          tags_get (meta_tag_ops D) s' k = Some (i\<lparr>ti_name := k\<rparr>) \<and>
          (\<forall>m. m \<noteq> k \<longrightarrow> tags_get (meta_tag_ops D) s' m = (if m = n then None else tags_get (meta_tag_ops D) s m))"
    using tag_store.get_rename [OF T assms(2), of n _ k] tag_store.rename_not_found [OF T assms(2), of n k]
    by (cases "tags_get (meta_tag_ops D) s n") simp_all
qed (rule tag_store.get_set [OF reliable_meta.tag_db [OF assms(1)] assms(2)]
    tag_store.get_delete_range [OF reliable_meta.tag_db [OF assms(1)] assms(2)]
    tag_store.get_create [OF reliable_meta.tag_db [OF assms(1)] assms(2)])+

theorem meta_tags_table_witness:
  "tags_get (meta_tag_ops ref_redb) (tags_set (meta_tag_ops ref_redb)
      \<lparr>tn_db = \<lparr>db_blobs = [], db_tags = [], db_inline_data = [], db_inline_outboard = []\<rparr>, tn_ftx = {}, tn_protected = {}\<rparr>
      [1] (hf_raw hash_empty)) [1] = Some (tag_info_new [1] (hf_raw hash_empty))"
  using meta_tags_table [OF refm.reliable_meta_axioms, of
      "\<lparr>tn_db = \<lparr>db_blobs = [], db_tags = [], db_inline_data = [], db_inline_outboard = []\<rparr>, tn_ftx = {}, tn_protected = {}\<rparr>"
      "[1]" "hf_raw hash_empty" "[1]", THEN conjunct1]
  by simp

context reliable_meta
begin

lemma update_then_conflict:
  assumes "ok (tn_db s)" "(case view (tn_db s) h of None \<Rightarrow> Inr e | Some old \<Rightarrow> merge_entry old e) = Inr new"
    and "h2 \<noteq> h" "view (tn_db s) h2 = Some old2" "merge_entry old2 e2 = Inl err"
  shows "\<exists>s1. meta_update D h e s = Inr s1 \<and> view (tn_db s1) h = Some new \<and> (\<forall>s2. tn_db s2 = tn_db s1 \<longrightarrow> meta_update D h2 e2 s2 = Inl err)"
proof -
  obtain s1 where s1: "meta_update D h e s = Inr s1" using update_result [OF assms(1), of h e] assms(2) by auto
  note v = meta_update_view [OF assms(1) s1]
  have "view (tn_db s1) h = Some new" "view (tn_db s1) h2 = Some old2"
    using v assms(2-4) by (auto split: option.splits)
  moreover have "meta_update D h2 e2 s2 = Inl err" if "tn_db s2 = tn_db s1" for s2
    using update_result [of s2 h2 e2] v that calculation(2) assms(5) by simp
  ultimately show ?thesis using s1 by blast
qed

end

text \<open>
  C36. Commands are answered before their transaction is committed, so that an answered update can be
  lost: in any consistent state of a reliable database, when an update that succeeds and an update of
  another hash that contradicts the size in the database are in one batch, the first is answered with
  success, the second ends the actor, and the tables are those from before the batch. One command after
  the other, with the same answers, the first update stays.
\<close>

theorem acknowledged_update_lost:
  assumes "reliable_meta D okb lookb okt lookt okd lookd" "transactional D" "meta_ok okb lookb okt okd lookd (ac_db a)"
    and cmds: "ac_cmds a = pr_new (ReadWrite (Update h e (Some tx)) # ReadWrite (Update h2 e2 tx2) # cs)"
    and first: "(case meta_view lookb lookd (ac_db a) h of None \<Rightarrow> Inr e | Some old \<Rightarrow> merge_entry old e) = Inr new"
    and second: "h2 \<noteq> h" "meta_view lookb lookd (ac_db a) h2 = Some old2" "merge_entry old2 e2 = Inl err"
    and "1 < k" "1 < max_write_batch options"
  shows "(\<exists>a'. run D env stuck options (k # ks) a = (a', [(tx, MUnit)], Some (Stopped (Failed err))) \<and> ac_db a' = ac_db a)
    \<and> (\<exists>db' prot files. seq_run D env stuck [ReadWrite (Update h e (Some tx)), ReadWrite (Update h2 e2 tx2)] (ac_db a) (ac_protected a) (ac_files a)
          = (db', prot, files, [(tx, MUnit)], Stopped (Failed err))
        \<and> meta_view lookb lookd db' h = Some new)"
proof -
  let ?s = "\<lparr>tn_db = ac_db a, tn_ftx = ac_ds a, tn_protected = ac_protected a\<rparr>"
    and ?t = "\<lparr>tn_db = ac_db a, tn_ftx = {}, tn_protected = ac_protected a\<rparr>"
  note conflict = reliable_meta.update_then_conflict [OF assms(1), of _ e h new h2 old2 e2 err]
  obtain s1 where s1: "meta_update D h e ?s = Inr s1" "\<forall>s2. tn_db s2 = tn_db s1 \<longrightarrow> meta_update D h2 e2 s2 = Inl err"
    using conflict [of ?s, unfolded txn.simps, OF assms(3) first second] by blast
  obtain s3 where s3: "meta_update D h e ?t = Inr s3" "meta_view lookb lookd (tn_db s3) h = Some new"
      "\<forall>s2. tn_db s2 = tn_db s3 \<longrightarrow> meta_update D h2 e2 s2 = Inl err"
    using conflict [of ?t, unfolded txn.simps, OF assms(3) first second] by blast
  obtain j where k: "k = Suc (Suc j)" using assms(9) less_iff_Suc_add [of 1 k] by auto
  have "rd_begin_write D (ac_db a) = Inr (ac_db a)" using assms(2) by (simp add: transactional_def)
  then have "\<exists>a'. run D env stuck options (k # ks) a = (a', [(tx, MUnit)], Some (Stopped (Failed err))) \<and> ac_db a' = ac_db a"
    using cmds s1 k assms(10)
    by (simp add: pr_new_def recv_next_def push_back_ok_def push_back_def extract_next_def non_top_level_def Let_def)
  moreover have "\<exists>db' prot files. seq_run D env stuck [ReadWrite (Update h e (Some tx)), ReadWrite (Update h2 e2 tx2)] (ac_db a) (ac_protected a) (ac_files a)
      = (db', prot, files, [(tx, MUnit)], Stopped (Failed err)) \<and> meta_view lookb lookd db' h = Some new"
    using s3 by (simp add: seq_run.simps)
  ultimately show ?thesis by blast
qed

definition conflict_actor :: "((hash, unit entry_state) btree, (tag, hash_and_format) btree, (hash, bytes) btree) meta_actor" where
  "conflict_actor = \<lparr>ac_db = \<lparr>db_blobs = [(hash_empty, PartialEntry (Some 1))], db_tags = [], db_inline_data = [], db_inline_outboard = []\<rparr>,
     ac_cmds = pr_new [ReadWrite (Update (from_bytes [1]) (CompleteEntry (InlineData [7]) NotNeeded) (Some 1)),
       ReadWrite (Update hash_empty (PartialEntry (Some 2)) None)],
     ac_ds = {}, ac_files = {}, ac_protected = {}\<rparr>"

theorem acknowledged_update_lost_witness:
  "\<exists>a'. run ref_redb (\<lambda>ds. ds) {} \<lparr>max_read_batch = 10000, max_write_batch = 1000\<rparr> [2] conflict_actor =
      (a', [(1, MUnit)], Some (Stopped (Failed Inconsistent))) \<and> meta_get ref_redb (ac_db a') (from_bytes [1]) = Inr None"
proof -
  let ?h = "from_bytes [1]"
  have "as_bytes ?h ! 0 \<noteq> as_bytes hash_empty ! 0" by (simp add: as_bytes_from_bytes_padded hash_empty_def)
  then have ne: "?h \<noteq> hash_empty" "hash_empty \<noteq> ?h" by auto
  have t: "transactional ref_redb" by (simp add: transactional_def ref_redb_def)
  have ok: "meta_ok bt_ok bt_get bt_ok bt_ok bt_get (ac_db conflict_actor)" by (auto simp: conflict_actor_def meta_ok_def bt_get_def filled_def)
  have v: "meta_view bt_get bt_get (ac_db conflict_actor) ?h = None"
      "meta_view bt_get bt_get (ac_db conflict_actor) hash_empty = Some (PartialEntry (Some 1))"
    using ne by (simp_all add: conflict_actor_def meta_view_def bt_get_def fill_entry_def)
  have m: "merge_entry (PartialEntry (Some 1)) (PartialEntry (Some 2)) = Inl Inconsistent" by simp
  have c: "ac_cmds conflict_actor = pr_new [ReadWrite (Update ?h (CompleteEntry (InlineData [7]) NotNeeded) (Some 1)),
      ReadWrite (Update hash_empty (PartialEntry (Some 2)) None)]" by (simp add: conflict_actor_def)
  let ?o = "\<lparr>max_read_batch = 10000, max_write_batch = 1000\<rparr>"
  have "(case meta_view bt_get bt_get (ac_db conflict_actor) ?h of None \<Rightarrow> Inr (CompleteEntry (InlineData [7]) NotNeeded)
      | Some old \<Rightarrow> merge_entry old (CompleteEntry (InlineData [7]) NotNeeded)) = Inr (CompleteEntry (InlineData [7]) NotNeeded)"
    "1 < (2 :: nat)" "1 < max_write_batch ?o" by (simp_all add: v)
  from acknowledged_update_lost [OF refm.reliable_meta_axioms t ok c this(1) ne(2) v(2) m this(2,3)]
  obtain a' where "run ref_redb (\<lambda>ds. ds) {} ?o [2] conflict_actor = (a', [(1, MUnit)], Some (Stopped (Failed Inconsistent)))"
    "ac_db a' = ac_db conflict_actor" by blast
  moreover have "meta_get ref_redb (ac_db conflict_actor) ?h = Inr None"
    using ne by (simp add: conflict_actor_def meta_get_def ref_redb_def bt_table_def bt_get_def storage_def)
  ultimately show ?thesis by auto
qed

end
