(* ===== verification/Gc.thy ===== *)
theory Gc
  imports Blobs_Client
begin

text \<open>
  Garbage collection, \<open>src/store/fs/gc.rs\<close>: mark what is reachable from tags and temporary tags,
  then delete everything else in batches. The collector only uses the interface of a store; what it
  relies on is the locale \<open>gc_store\<close>, which the memory store provides. A hash set is a set; the order
  in which the roots are iterated is a parameter.
\<close>

section \<open>Definitions\<close>

datatype gc_error = GcRequestFailed

datatype gc_mark_event = MarkWarning hashes_error | MarkError gc_error

record 's gc_ops =
  go_clear_protected :: "'s \<Rightarrow> gc_error + 's"
  go_tags :: "'s \<Rightarrow> gc_error + (gc_error + tag_info) list"
  go_temp_tags :: "'s \<Rightarrow> gc_error + hash_and_format list"
  go_hashes :: "'s \<Rightarrow> hash \<Rightarrow> (hashes_error + hash) list"
  go_blobs :: "'s \<Rightarrow> gc_error + (gc_error + hash) list"
  go_delete :: "'s \<Rightarrow> hash list \<Rightarrow> gc_error + 's"
  go_sync_db :: "'s \<Rightarrow> gc_error + 's"

fun collect_roots :: "(gc_error + tag_info) list \<Rightarrow> hash_and_format list \<Rightarrow> gc_error + hash_and_format list" where
  "collect_roots [] roots = Inr roots"
| "collect_roots (Inl e # tags) roots = Inl e"
| "collect_roots (Inr info # tags) roots = collect_roots tags (List.insert (hash_and_format_of info) roots)"

fun mark_hashes :: "(hashes_error + hash) list \<Rightarrow> hash set \<times> gc_mark_event list \<Rightarrow> hash set \<times> gc_mark_event list" where
  "mark_hashes [] (live, ev) = (live, ev)"
| "mark_hashes (Inr h # hs) (live, ev) = mark_hashes hs (insert h live, ev)"
| "mark_hashes (Inl e # hs) (live, ev) = mark_hashes hs (live, ev @ [MarkWarning e])"

definition mark_root ::
  "'s gc_ops \<Rightarrow> 's \<Rightarrow> hash_and_format \<Rightarrow> hash set \<times> gc_mark_event list \<Rightarrow> hash set \<times> gc_mark_event list" where
  "mark_root G s root le =
     (let (live, ev) = le;
          h = hf_hash root;
          fresh = h \<notin> live;
          live = insert h live
      in if fresh \<and> \<not> is_raw (hf_format root) then mark_hashes (go_hashes G s h) (live, ev) else (live, ev))"

text \<open>\<open>gc_mark_task\<close>: the live set, the warnings, and the error that ended it, if any.\<close>

definition gc_mark_task ::
  "'s gc_ops \<Rightarrow> (hash_and_format list \<Rightarrow> hash_and_format list) \<Rightarrow> 's \<Rightarrow> hash set \<Rightarrow>
   hash set \<times> gc_mark_event list \<times> gc_error option" where
  "gc_mark_task G iter_order s live =
     (case go_tags G s of
        Inl e \<Rightarrow> (live, [], Some e)
      | Inr tags \<Rightarrow>
          (case collect_roots tags [] of
             Inl e \<Rightarrow> (live, [], Some e)
           | Inr roots \<Rightarrow>
               (case go_temp_tags G s of
                  Inl e \<Rightarrow> (live, [], Some e)
                | Inr tts \<Rightarrow>
                    let roots = fold List.insert tts roots;
                        (live, ev) = fold (mark_root G s) (iter_order roots) (live, [])
                    in (live, ev, None))))"

fun sweep_loop ::
  "'s gc_ops \<Rightarrow> hash set \<Rightarrow> hash list \<Rightarrow> nat \<Rightarrow> (gc_error + hash) list \<Rightarrow> 's \<Rightarrow> 's \<times> (gc_error + hash list \<times> nat)" where
  "sweep_loop G live batch deleted [] s = (s, Inr (batch, deleted))"
| "sweep_loop G live batch deleted (Inl e # blobs) s = (s, Inl e)"
| "sweep_loop G live batch deleted (Inr h # blobs) s =
     (let (batch, deleted) = (if h \<notin> live then (batch @ [h], deleted + 1) else (batch, deleted)) in
      if length batch \<ge> 100 then
        (case go_delete G s batch of
           Inl e \<Rightarrow> (s, Inl e)
         | Inr s' \<Rightarrow> sweep_loop G live [] deleted blobs s')
      else sweep_loop G live batch deleted blobs s)"

text \<open>\<open>gc_sweep_task\<close>: the store, and the number of deleted blobs or the error.\<close>

definition gc_sweep_task :: "'s gc_ops \<Rightarrow> hash set \<Rightarrow> 's \<Rightarrow> 's \<times> (gc_error + nat)" where
  "gc_sweep_task G live s =
     (case go_blobs G s of
        Inl e \<Rightarrow> (s, Inl e)
      | Inr blobs \<Rightarrow>
          (case sweep_loop G live [] 0 blobs s of
             (s, Inl e) \<Rightarrow> (s, Inl e)
           | (s, Inr (batch, deleted)) \<Rightarrow>
               (case (if batch \<noteq> [] then go_delete G s batch else Inr s) of
                  Inl e \<Rightarrow> (s, Inl e)
                | Inr s \<Rightarrow>
                    (case go_sync_db G s of
                       Inl e \<Rightarrow> (s, Inl e)
                     | Inr s \<Rightarrow> (s, Inr deleted)))))"

definition gc_run_once ::
  "'s gc_ops \<Rightarrow> (hash_and_format list \<Rightarrow> hash_and_format list) \<Rightarrow> 's \<Rightarrow> hash set \<Rightarrow> 's \<times> hash set \<times> (gc_error + unit)" where
  "gc_run_once G iter_order s live =
     (case go_clear_protected G s of
        Inl e \<Rightarrow> (s, live, Inl e)
      | Inr s \<Rightarrow>
          (case gc_mark_task G iter_order s live of
             (live, _, Some e) \<Rightarrow> (s, live, Inl e)
           | (live, _, None) \<Rightarrow>
               (case gc_sweep_task G live s of
                  (s, Inl e) \<Rightarrow> (s, live, Inl e)
                | (s, Inr _) \<Rightarrow> (s, live, Inr ()))))"

datatype protect_outcome = Continue | Abort

text \<open>
  \<open>run_gc\<close>: for each round, what happens to the store while the collector sleeps, and what the
  callback does if there is one (the hashes it adds and its outcome).
\<close>

fun run_gc ::
  "'s gc_ops \<Rightarrow> (hash_and_format list \<Rightarrow> hash_and_format list) \<Rightarrow>
   (('s \<Rightarrow> 's) \<times> (hash set \<times> protect_outcome) option) list \<Rightarrow> 's \<Rightarrow> 's" where
  "run_gc G iter_order [] s = s"
| "run_gc G iter_order ((env, cb) # rounds) s =
     (let s = env s in
      case cb of
        Some (_, Abort) \<Rightarrow> run_gc G iter_order rounds s
      | Some (added, Continue) \<Rightarrow>
          (case gc_run_once G iter_order s added of
             (s, _, Inl e) \<Rightarrow> s
           | (s, _, Inr _) \<Rightarrow> run_gc G iter_order rounds s)
      | None \<Rightarrow>
          (case gc_run_once G iter_order s {} of
             (s, _, Inl e) \<Rightarrow> s
           | (s, _, Inr _) \<Rightarrow> run_gc G iter_order rounds s))"

section \<open>Marking\<close>

definition kids :: "'s gc_ops \<Rightarrow> 's \<Rightarrow> hash \<Rightarrow> hash set" where
  "kids G s h = {x. Inr x \<in> set (go_hashes G s h)}"

definition reachable_kids :: "'s gc_ops \<Rightarrow> 's \<Rightarrow> hash_and_format set \<Rightarrow> hash set" where
  "reachable_kids G s rs = (\<Union>r\<in>{r \<in> rs. \<not> is_raw (hf_format r)}. kids G s (hf_hash r))"

lemma fst_mark_hashes: "fst (mark_hashes hs le) = fst le \<union> {x. Inr x \<in> set hs}"
proof (induction hs le rule: mark_hashes.induct)
  case (2 h hs live ev)
  then show ?case by auto
qed auto

lemma fst_mark_root:
  "fst (mark_root G s r le) = insert (hf_hash r) (fst le) \<union>
    (if hf_hash r \<notin> fst le \<and> \<not> is_raw (hf_format r) then kids G s (hf_hash r) else {})"
  by (cases le) (auto simp: mark_root_def fst_mark_hashes kids_def Let_def)

lemma mark_bounds:
  "fst le \<union> hf_hash ` set rs \<subseteq> fst (fold (mark_root G s) rs le) \<and>
   fst (fold (mark_root G s) rs le) \<subseteq> fst le \<union> hf_hash ` set rs \<union> reachable_kids G s (set rs)"
proof (induction rs arbitrary: le)
  case (Cons r rs)
  from Cons [of "mark_root G s r le"] show ?case
    by (auto simp: fst_mark_root reachable_kids_def split: if_splits)
qed simp

text \<open>
  A root is skipped if its hash was marked before, by an external protection, as a root of the
  other format or as a child of another root. If this does not happen, everything is marked.
\<close>

definition no_overlap :: "'s gc_ops \<Rightarrow> 's \<Rightarrow> hash_and_format set \<Rightarrow> hash set \<Rightarrow> bool" where
  "no_overlap G s rs live \<longleftrightarrow>
     (\<forall>r\<in>rs. \<not> is_raw (hf_format r) \<longrightarrow> hf_hash r \<notin> live \<and>
        (\<forall>r'\<in>rs. r' \<noteq> r \<longrightarrow> hf_hash r' \<noteq> hf_hash r \<and>
          (\<not> is_raw (hf_format r') \<longrightarrow> hf_hash r \<notin> kids G s (hf_hash r'))))"

lemma mark_complete:
  assumes "distinct rs" "no_overlap G s (set rs) (fst le)"
  shows "reachable_kids G s (set rs) \<subseteq> fst (fold (mark_root G s) rs le)"
  using assms
proof (induction rs arbitrary: le)
  case (Cons r rs)
  let ?le = "mark_root G s r le"
  have ov: "hf_hash x \<notin> fst le" "y \<noteq> x \<Longrightarrow> hf_hash y \<noteq> hf_hash x"
    "y \<noteq> x \<Longrightarrow> \<not> is_raw (hf_format y) \<Longrightarrow> hf_hash x \<notin> kids G s (hf_hash y)"
    if "x \<in> set (r # rs)" "\<not> is_raw (hf_format x)" "y \<in> set (r # rs)" for x y
    using Cons.prems(2) that unfolding no_overlap_def by blast+
  have "no_overlap G s (set rs) (fst ?le)"
    unfolding no_overlap_def
  proof (intro ballI impI conjI)
    fix x assume x: "x \<in> set rs" "\<not> is_raw (hf_format x)"
    then have "r \<noteq> x" using Cons.prems(1) by auto
    then have "hf_hash x \<notin> fst le" "hf_hash r \<noteq> hf_hash x"
      "\<not> is_raw (hf_format r) \<Longrightarrow> hf_hash x \<notin> kids G s (hf_hash r)"
      using ov [of x r] x by (meson list.set_intros)+
    then show "hf_hash x \<notin> fst ?le" by (auto simp: fst_mark_root)
    fix y assume y: "y \<in> set rs" "y \<noteq> x"
    then show "hf_hash y \<noteq> hf_hash x" using ov(2) [of x y] x by (meson list.set_intros)
    assume "\<not> is_raw (hf_format y)"
    then show "hf_hash x \<notin> kids G s (hf_hash y)" using ov(3) [of x y] x y by (meson list.set_intros)
  qed
  then have rest: "reachable_kids G s (set rs) \<subseteq> fst (fold (mark_root G s) rs ?le)"
    using Cons by simp
  have "\<not> is_raw (hf_format r) \<Longrightarrow> kids G s (hf_hash r) \<subseteq> fst ?le"
    using ov(1) [of r r] by (auto simp: fst_mark_root)
  moreover have "fst ?le \<subseteq> fst (fold (mark_root G s) rs ?le)" using mark_bounds [of ?le rs G s] by simp
  ultimately show ?case using rest by (auto simp: reachable_kids_def)
qed (simp add: reachable_kids_def)

lemma collect_roots_Inr: "collect_roots (map Inr infos) acc = Inr (fold List.insert (map hash_and_format_of infos) acc)"
  by (induction infos arbitrary: acc) simp_all

lemma set_fold_insert: "set (fold List.insert xs acc) = set acc \<union> set xs"
  by (induction xs arbitrary: acc) auto

lemma distinct_fold_insert: "distinct acc \<Longrightarrow> distinct (fold List.insert xs acc)"
  by (induction xs arbitrary: acc) auto

section \<open>What the collector needs of a store\<close>

locale gc_store =
  fixes G :: "'s gc_ops"
    and valid :: "'s \<Rightarrow> bool"
    and blobs :: "'s \<Rightarrow> hash set"
    and roots :: "'s \<Rightarrow> hash_and_format set"
    and prot :: "'s \<Rightarrow> hash set"
  assumes clear: "valid s \<Longrightarrow> \<exists>s'. go_clear_protected G s = Inr s' \<and> valid s' \<and> blobs s' = blobs s \<and>
      roots s' = roots s \<and> go_hashes G s' = go_hashes G s \<and> prot s' = {}"
    and list_roots: "valid s \<Longrightarrow> \<exists>infos tts. go_tags G s = Inr (map Inr infos) \<and> go_temp_tags G s = Inr tts \<and>
      roots s = hash_and_format_of ` set infos \<union> set tts"
    and list_blobs: "valid s \<Longrightarrow> \<exists>hs. go_blobs G s = Inr (map Inr hs) \<and> set hs = blobs s"
    and delete: "valid s \<Longrightarrow> \<exists>s'. go_delete G s hs = Inr s' \<and> valid s' \<and> blobs s' = blobs s - (set hs - prot s) \<and>
      roots s' = roots s \<and> prot s' = prot s"
    and sync: "valid s \<Longrightarrow> \<exists>s'. go_sync_db G s = Inr s' \<and> valid s' \<and> blobs s' = blobs s \<and> roots s' = roots s"
begin

lemma mark:
  assumes "valid s" "\<And>xs. set (ord xs) = set xs" "\<And>xs. distinct xs \<Longrightarrow> distinct (ord xs)"
  shows "\<exists>live' ev. gc_mark_task G ord s live = (live', ev, None) \<and>
    live \<union> hf_hash ` roots s \<subseteq> live' \<and> live' \<subseteq> live \<union> hf_hash ` roots s \<union> reachable_kids G s (roots s) \<and>
    (no_overlap G s (roots s) live \<longrightarrow> reachable_kids G s (roots s) \<subseteq> live')"
proof -
  obtain infos tts where l: "go_tags G s = Inr (map Inr infos)" "go_temp_tags G s = Inr tts"
    "roots s = hash_and_format_of ` set infos \<union> set tts"
    using list_roots [OF assms(1)] by blast
  let ?rs = "fold List.insert tts (fold List.insert (map hash_and_format_of infos) [])"
  have rs: "set (ord ?rs) = roots s" "distinct (ord ?rs)"
    using assms(2,3) l(3) by (simp_all add: set_fold_insert distinct_fold_insert)
  have "gc_mark_task G ord s live =
      (fst (fold (mark_root G s) (ord ?rs) (live, [])), snd (fold (mark_root G s) (ord ?rs) (live, [])), None)"
    using l by (simp add: gc_mark_task_def collect_roots_Inr split_def Let_def)
  with mark_bounds [of "(live, [])" "ord ?rs" G s] mark_complete [OF rs(2), of G s "(live, [])"] rs(1) show ?thesis
    by simp
qed

lemma sweep:
  assumes "valid s" "prot s = {}"
  shows "\<exists>s' batch n. sweep_loop G live batch0 n0 (map Inr hs) s = (s', Inr (batch, n)) \<and> valid s' \<and>
    roots s' = roots s \<and> prot s' = {} \<and> blobs s' - set batch = blobs s - set batch0 - (set hs - live)"
  using assms
proof (induction hs arbitrary: s batch0 n0)
  case (Cons h hs)
  let ?b = "if h \<notin> live then batch0 @ [h] else batch0" and ?n = "if h \<notin> live then n0 + 1 else n0"
  have b: "blobs t - set ?b - (set hs - live) = blobs t - set batch0 - (set (h # hs) - live)" for t by auto
  show ?case
  proof (cases "length ?b \<ge> 100")
    case True
    obtain s1 where d: "go_delete G s ?b = Inr s1" "valid s1" "blobs s1 = blobs s - set ?b" "roots s1 = roots s" "prot s1 = {}"
      using delete [OF Cons.prems(1), of ?b] Cons.prems(2) by auto
    from Cons.IH [OF d(2,5), of "[]" ?n] obtain s' batch n where
      "sweep_loop G live [] ?n (map Inr hs) s1 = (s', Inr (batch, n))" "valid s'" "roots s' = roots s1" "prot s' = {}"
      "blobs s' - set batch = blobs s1 - (set hs - live)" by auto
    with True d b [of s] show ?thesis
      by (intro exI [of _ s'] exI [of _ batch] exI [of _ n]) (simp add: Let_def split_def split: if_splits)
  next
    case False
    from Cons.IH [OF Cons.prems, of ?b ?n] obtain s' batch n where
      "sweep_loop G live ?b ?n (map Inr hs) s = (s', Inr (batch, n))" "valid s'" "roots s' = roots s" "prot s' = {}"
      "blobs s' - set batch = blobs s - set ?b - (set hs - live)" by auto
    with False b [of s] show ?thesis
      by (intro exI [of _ s'] exI [of _ batch] exI [of _ n]) (simp add: Let_def split_def split: if_splits)
  qed
qed auto

lemma sweep_task:
  assumes "valid s" "prot s = {}"
  shows "\<exists>s' n. gc_sweep_task G live s = (s', Inr n) \<and> valid s' \<and> roots s' = roots s \<and> blobs s' = blobs s \<inter> live"
proof -
  obtain hs where hs: "go_blobs G s = Inr (map Inr hs)" "set hs = blobs s" using list_blobs [OF assms(1)] by blast
  obtain s1 batch n where l: "sweep_loop G live [] 0 (map Inr hs) s = (s1, Inr (batch, n))" "valid s1"
    "roots s1 = roots s" "prot s1 = {}" "blobs s1 - set batch = blobs s - (blobs s - live)"
    using sweep [OF assms, of live "[]" 0 hs] hs(2) by auto
  obtain s2 where d: "(if batch \<noteq> [] then go_delete G s1 batch else Inr s1) = Inr s2" "valid s2" "roots s2 = roots s"
    "blobs s2 = blobs s1 - set batch"
    using delete [OF l(2), of batch] l by (cases "batch = []") auto
  obtain s3 where "go_sync_db G s2 = Inr s3" "valid s3" "blobs s3 = blobs s2" "roots s3 = roots s2"
    using sync [OF d(2)] by blast
  with hs l d show ?thesis by (intro exI [of _ s3] exI [of _ n]) (auto simp: gc_sweep_task_def)
qed

lemma run_once:
  assumes "valid s" "\<And>xs. set (ord xs) = set xs" "\<And>xs. distinct xs \<Longrightarrow> distinct (ord xs)"
  shows "\<exists>s' live'. gc_run_once G ord s live = (s', live', Inr ()) \<and> valid s' \<and> roots s' = roots s \<and>
    blobs s' = blobs s \<inter> live' \<and> live \<union> hf_hash ` roots s \<subseteq> live' \<and>
    live' \<subseteq> live \<union> hf_hash ` roots s \<union> reachable_kids G s (roots s) \<and>
    (no_overlap G s (roots s) live \<longrightarrow> reachable_kids G s (roots s) \<subseteq> live')"
proof -
  obtain s1 where c: "go_clear_protected G s = Inr s1" "valid s1" "blobs s1 = blobs s" "roots s1 = roots s"
    "go_hashes G s1 = go_hashes G s" "prot s1 = {}"
    using clear [OF assms(1)] by blast
  have k: "kids G s1 = kids G s" using c(5) by (simp add: kids_def fun_eq_iff)
  then have r: "reachable_kids G s1 = reachable_kids G s" "no_overlap G s1 = no_overlap G s"
    by (simp_all add: reachable_kids_def no_overlap_def fun_eq_iff)
  from mark [OF c(2) assms(2,3), of live] obtain live' ev where m: "gc_mark_task G ord s1 live = (live', ev, None)"
    "live \<union> hf_hash ` roots s \<subseteq> live'" "live' \<subseteq> live \<union> hf_hash ` roots s \<union> reachable_kids G s (roots s)"
    "no_overlap G s (roots s) live \<longrightarrow> reachable_kids G s (roots s) \<subseteq> live'"
    using c(4) r by auto
  obtain s2 n where "gc_sweep_task G live' s1 = (s2, Inr n)" "valid s2" "roots s2 = roots s1" "blobs s2 = blobs s1 \<inter> live'"
    using sweep_task [OF c(2,6), of live'] by blast
  with c m show ?thesis by (intro exI [of _ s2] exI [of _ live']) (simp add: gc_run_once_def)
qed

end

section \<open>The memory store provides it\<close>

definition mem_gc_ops :: "'r range_ops \<Rightarrow> io_ops \<Rightarrow> 'r traverse \<Rightarrow> 'r mem_state gc_ops" where
  "mem_gc_ops R Io tr =
     \<lparr>go_clear_protected = (\<lambda>s. Inr (s\<lparr>ms_protected := []\<rparr>)),
      go_tags = (\<lambda>s. Inr (map Inr (tags_list mem_tag_ops s))),
      go_temp_tags = (\<lambda>s. Inr (tt_list (ms_temp_tags s))),
      go_hashes = (\<lambda>s h. hashes (mem_export_bao R Io tr s h (rs_all R))),
      go_blobs = (\<lambda>s. Inr (map Inr (map fst (ms_data s)))),
      go_delete = (\<lambda>s hs. Inr (handle_delete_blobs hs False s)),
      go_sync_db = (\<lambda>s. Inr s)\<rparr>"

definition mem_gc_valid :: "'r mem_state \<Rightarrow> bool" where
  "mem_gc_valid s \<longleftrightarrow> bt_ok (ms_data s) \<and> bt_ok (ms_tags s)"

definition mem_blobs :: "'r mem_state \<Rightarrow> hash set" where
  "mem_blobs s = dom (bt_get (ms_data s))"

definition mem_roots :: "'r mem_state \<Rightarrow> hash_and_format set" where
  "mem_roots s = ran (bt_get (ms_tags s)) \<union> set (tt_list (ms_temp_tags s))"

lemma delete_blobs_gc:
  "mem_gc_valid s \<Longrightarrow> mem_gc_valid (handle_delete_blobs hs False s) \<and>
    mem_blobs (handle_delete_blobs hs False s) = mem_blobs s - (set hs - set (ms_protected s)) \<and>
    mem_roots (handle_delete_blobs hs False s) = mem_roots s \<and>
    ms_protected (handle_delete_blobs hs False s) = ms_protected s"
proof (induction hs arbitrary: s)
  case (Cons h hs)
  let ?s = "s\<lparr>ms_data := bt_remove h (ms_data s)\<rparr>"
  have "mem_gc_valid ?s" "mem_blobs ?s = mem_blobs s - {h}" "mem_roots ?s = mem_roots s"
    using Cons.prems by (auto simp: mem_gc_valid_def bt_ok_remove mem_blobs_def bt_get_remove mem_roots_def)
  with Cons.IH [of s] Cons.IH [of ?s] Cons.prems show ?case by auto
qed simp

interpretation mgc: gc_store "mem_gc_ops R Io tr" mem_gc_valid mem_blobs mem_roots "\<lambda>s. set (ms_protected s)"
  for R :: "'r range_ops" and Io tr
proof
  fix s :: "'r mem_state" and hs
  assume v: "mem_gc_valid s"
  let ?s = "s\<lparr>ms_protected := []\<rparr>"
  have "mem_export_bao R Io tr ?s = mem_export_bao R Io tr s"
    by (simp add: fun_eq_iff mem_export_bao_def mem_get_def)
  then show "\<exists>s'. go_clear_protected (mem_gc_ops R Io tr) s = Inr s' \<and> mem_gc_valid s' \<and> mem_blobs s' = mem_blobs s \<and>
      mem_roots s' = mem_roots s \<and> go_hashes (mem_gc_ops R Io tr) s' = go_hashes (mem_gc_ops R Io tr) s \<and>
      set (ms_protected s') = {}"
    using v by (simp add: mem_gc_ops_def mem_gc_valid_def mem_blobs_def mem_roots_def)
  show "\<exists>infos tts. go_tags (mem_gc_ops R Io tr) s = Inr (map Inr infos) \<and>
      go_temp_tags (mem_gc_ops R Io tr) s = Inr tts \<and>
      mem_roots s = hash_and_format_of ` set infos \<union> set tts"
    using mtag.tags_list_ran [of s] v
    by (intro exI [of _ "tags_list mem_tag_ops s"] exI [of _ "tt_list (ms_temp_tags s)"])
      (simp add: mem_gc_ops_def mem_roots_def mem_gc_valid_def)
  show "\<exists>hs. go_blobs (mem_gc_ops R Io tr) s = Inr (map Inr hs) \<and> set hs = mem_blobs s"
    by (intro exI [of _ "map fst (ms_data s)"]) (simp add: mem_gc_ops_def mem_blobs_def bt_get_def dom_map_of_conv_image_fst)
  show "\<exists>s'. go_delete (mem_gc_ops R Io tr) s hs = Inr s' \<and> mem_gc_valid s' \<and>
      mem_blobs s' = mem_blobs s - (set hs - set (ms_protected s)) \<and> mem_roots s' = mem_roots s \<and>
      set (ms_protected s') = set (ms_protected s)"
    using delete_blobs_gc [OF v, of hs] by (simp add: mem_gc_ops_def)
  show "\<exists>s'. go_sync_db (mem_gc_ops R Io tr) s = Inr s' \<and> mem_gc_valid s' \<and> mem_blobs s' = mem_blobs s \<and>
      mem_roots s' = mem_roots s"
    using v by (simp add: mem_gc_ops_def)
qed

context export_laws
begin

lemma kids_complete:
  assumes "local_store R B Io s" "mem_get s h = Some a" "bh_state (ms_heap s a) = Complete d ob" "length d mod 32 = 0"
  shows "kids (mem_gc_ops R Io tr) s h = set (hash_seq_iter d)"
  using get_bytes_complete(2) [OF assms] by (auto simp: kids_def mem_gc_ops_def)

lemma local_store_gc_valid: "local_store R B Io s \<Longrightarrow> mem_gc_valid s"
  by (simp add: local_store_def mem_inv_def mem_gc_valid_def)

end

section \<open>Properties\<close>

text \<open>
  C11. A round of garbage collection ends without an error, does not change tags, and deletes exactly
  the blobs that are not marked: whatever the iteration order of the roots, all blobs that are
  externally protected or the root of a tag or temporary tag survive, and no blob survives that is
  neither this nor a child of a hash sequence root. If no hash sequence root is marked before its
  turn, the survivors are exactly the reachable blobs.
\<close>

theorem gc_keeps_live:
  assumes "mem_gc_valid s" "\<And>xs. set (ord xs) = set xs" "\<And>xs. distinct xs \<Longrightarrow> distinct (ord xs)"
  shows "\<exists>s' live'. gc_run_once (mem_gc_ops R Io tr) ord s live = (s', live', Inr ()) \<and>
    mem_roots s' = mem_roots s \<and> mem_blobs s' \<subseteq> mem_blobs s \<and>
    mem_blobs s \<inter> (live \<union> hf_hash ` mem_roots s) \<subseteq> mem_blobs s' \<and>
    mem_blobs s' \<subseteq> live \<union> hf_hash ` mem_roots s \<union> reachable_kids (mem_gc_ops R Io tr) s (mem_roots s) \<and>
    (no_overlap (mem_gc_ops R Io tr) s (mem_roots s) live \<longrightarrow>
      mem_blobs s' = mem_blobs s \<inter>
        (live \<union> hf_hash ` mem_roots s \<union> reachable_kids (mem_gc_ops R Io tr) s (mem_roots s)))"
proof -
  obtain s' live' where r: "gc_run_once (mem_gc_ops R Io tr) ord s live = (s', live', Inr ())"
    "mem_roots s' = mem_roots s" "mem_blobs s' = mem_blobs s \<inter> live'" "live \<union> hf_hash ` mem_roots s \<subseteq> live'"
    "live' \<subseteq> live \<union> hf_hash ` mem_roots s \<union> reachable_kids (mem_gc_ops R Io tr) s (mem_roots s)"
    "no_overlap (mem_gc_ops R Io tr) s (mem_roots s) live \<longrightarrow>
      reachable_kids (mem_gc_ops R Io tr) s (mem_roots s) \<subseteq> live'"
    using mgc.run_once [OF assms, of R Io tr live] by blast
  show ?thesis by (rule exI [of _ s'], rule exI [of _ live']) (use r in blast)
qed

theorem gc_keeps_live_witness:
  "\<exists>s' live'. gc_run_once (mem_gc_ops ref_ops ref_io ref_traverse) (\<lambda>xs. xs)
     ((mem_store_new ref_ops)\<lparr>ms_data := [(hash_empty, 0)]\<rparr>) {} = (s', live', Inr ()) \<and> mem_blobs s' = {}"
proof -
  let ?s = "(mem_store_new ref_ops)\<lparr>ms_data := [(hash_empty, 0)]\<rparr>"
  have "mem_gc_valid ?s" by (simp add: mem_gc_valid_def mem_store_new_def)
  moreover have "mem_roots ?s = {}"
    by (simp add: mem_roots_def mem_store_new_def bt_get_def temp_tags_default_def tt_list_def)
  ultimately show ?thesis
    using gc_keeps_live [of ?s "\<lambda>xs. xs" ref_ops ref_io ref_traverse "{}"]
    by (auto simp: reachable_kids_def)
qed

section \<open>Two hash sequences\<close>

text \<open>
  A store with a blob, a hash sequence that links to it, and a hash sequence that links to the
  first one, with tags \<open>ts\<close>.
\<close>

definition leaf_hash :: hash where
  "leaf_hash = io_root ref_io [1]"

definition inner_hash :: hash where
  "inner_hash = io_root ref_io (as_bytes leaf_hash)"

definition outer_hash :: hash where
  "outer_hash = io_root ref_io (as_bytes inner_hash)"

definition two_seqs :: "(tag, hash_and_format) btree \<Rightarrow> rset mem_state" where
  "two_seqs ts =
     (mem_store_new ref_ops)
       \<lparr>ms_heap := ((ms_heap (mem_store_new ref_ops))
          (1 := \<lparr>bh_state = Complete (as_bytes inner_hash) [], bh_hash = outer_hash\<rparr>,
           2 := \<lparr>bh_state = Complete (as_bytes leaf_hash) [], bh_hash = inner_hash\<rparr>,
           3 := \<lparr>bh_state = Complete [1] [], bh_hash = leaf_hash\<rparr>)),
        ms_next := 4,
        ms_data := bt_insert outer_hash 1 (bt_insert inner_hash 2 (bt_insert leaf_hash 3 [])),
        ms_tags := ts\<rparr>"

lemma example_bytes:
  "as_bytes leaf_hash ! 0 = 1" "as_bytes inner_hash ! 0 = 32" "as_bytes outer_hash ! 0 = 32"
  "as_bytes inner_hash ! 1 = 1" "as_bytes outer_hash ! 1 = 32" "as_bytes hash_empty ! 0 = 175"
  by (simp_all add: leaf_hash_def inner_hash_def outer_hash_def ref_io_def as_bytes_from_bytes_padded hash_empty_def)

lemma example_distinct [simp]:
  "leaf_hash \<noteq> inner_hash" "leaf_hash \<noteq> outer_hash" "inner_hash \<noteq> outer_hash"
  "inner_hash \<noteq> leaf_hash" "outer_hash \<noteq> leaf_hash" "outer_hash \<noteq> inner_hash"
  "leaf_hash \<noteq> hash_empty" "inner_hash \<noteq> hash_empty" "outer_hash \<noteq> hash_empty"
proof -
  have *: "a \<noteq> b" if "as_bytes a ! i \<noteq> as_bytes b ! i" for a b i using that by auto
  show "leaf_hash \<noteq> inner_hash" "leaf_hash \<noteq> outer_hash" "inner_hash \<noteq> leaf_hash" "outer_hash \<noteq> leaf_hash"
    "leaf_hash \<noteq> hash_empty" "inner_hash \<noteq> hash_empty" "outer_hash \<noteq> hash_empty"
    by (rule * [of _ 0], simp add: example_bytes)+
  show "inner_hash \<noteq> outer_hash" "outer_hash \<noteq> inner_hash"
    by (rule * [of _ 1], simp add: example_bytes del: One_nat_def)+
qed

lemma two_seqs_sel [simp]:
  "ms_next (two_seqs ts) = 4" "ms_empty_hash (two_seqs ts) = 0" "ms_tags (two_seqs ts) = ts"
  "ms_temp_tags (two_seqs ts) = temp_tags_default" "ms_tasks (two_seqs ts) = []" "ms_protected (two_seqs ts) = []"
  "ms_heap (two_seqs ts) 0 = \<lparr>bh_state = new_partial ref_ops, bh_hash = hash_empty\<rparr>"
  "ms_heap (two_seqs ts) 1 = \<lparr>bh_state = Complete (as_bytes inner_hash) [], bh_hash = outer_hash\<rparr>"
  "ms_heap (two_seqs ts) 2 = \<lparr>bh_state = Complete (as_bytes leaf_hash) [], bh_hash = inner_hash\<rparr>"
  "ms_heap (two_seqs ts) 3 = \<lparr>bh_state = Complete [1] [], bh_hash = leaf_hash\<rparr>"
  by (simp_all add: two_seqs_def mem_store_new_def)

lemma two_seqs_get:
  "bt_ok (ms_data (two_seqs ts))"
  "bt_get (ms_data (two_seqs ts)) h =
    (if h = outer_hash then Some 1 else if h = inner_hash then Some 2 else if h = leaf_hash then Some 3 else None)"
proof -
  have d: "ms_data (two_seqs ts) = bt_insert outer_hash 1 (bt_insert inner_hash 2 (bt_insert leaf_hash 3 []))"
    by (simp add: two_seqs_def)
  have ok: "bt_ok (bt_insert leaf_hash (3 :: nat) [])" "bt_ok (bt_insert inner_hash 2 (bt_insert leaf_hash (3 :: nat) []))"
    by (intro bt_ok_insert, simp)+
  show "bt_ok (ms_data (two_seqs ts))" unfolding d by (rule bt_ok_insert [OF ok(2)])
  show "bt_get (ms_data (two_seqs ts)) h =
    (if h = outer_hash then Some 1 else if h = inner_hash then Some 2 else if h = leaf_hash then Some 3 else None)"
    unfolding d bt_get_insert [OF ok(2)] bt_get_insert [OF ok(1)] by (simp add: bt_get_def)
qed

lemma two_seqs_local:
  assumes "bt_ok ts"
  shows "local_store ref_ops ref_chunk_ops ref_io (two_seqs ts)"
proof -
  have new: "storage_ok ref_ops ref_chunk_ops ref_io (\<lambda>_. []) hash_empty (new_partial ref_ops)"
    using refs.mem_inv_new [of "\<lambda>_. []"] by (simp add: mem_inv_def mem_store_new_def)
  have tt: "tt_ok temp_tags_default"
    using refs.mem_inv_new [of "\<lambda>_. []"] by (simp add: mem_inv_def mem_store_new_def)
  have roots: "io_root ref_io [1] = leaf_hash" "io_root ref_io (as_bytes leaf_hash) = inner_hash"
    "io_root ref_io (as_bytes inner_hash) = outer_hash"
    by (simp_all add: leaf_hash_def inner_hash_def outer_hash_def)
  have lt: "x < (4 :: nat) \<longleftrightarrow> x = 0 \<or> x = 1 \<or> x = 2 \<or> x = 3" for x by auto
  have st: "storage_ok ref_ops ref_chunk_ops ref_io (\<lambda>_. []) (bh_hash (ms_heap (two_seqs ts) a)) (bh_state (ms_heap (two_seqs ts) a))"
    if "a < 4" for a
    using that new unfolding lt by (auto simp: roots storage_ok_def new_partial_def simp del: One_nat_def)
  have "mem_inv ref_ops ref_chunk_ops ref_io (\<lambda>_. []) (two_seqs ts)"
    unfolding mem_inv_def two_seqs_get(2) using assms two_seqs_get(1) [of ts] st tt
    by (auto simp del: One_nat_def split: if_splits)
  then show ?thesis
    by (auto simp: local_store_def lt ref_io_def new_partial_def simp del: One_nat_def)
qed

lemma two_seqs_mem_get:
  "mem_get (two_seqs ts) outer_hash = Some 1" "mem_get (two_seqs ts) inner_hash = Some 2"
  "mem_get (two_seqs ts) leaf_hash = Some 3"
  by (simp_all add: mem_get_def two_seqs_get)

lemma two_seqs_states:
  "bh_state (ms_heap (two_seqs ts) 1) = Complete (as_bytes inner_hash) []"
  "bh_state (ms_heap (two_seqs ts) 2) = Complete (as_bytes leaf_hash) []"
  by (simp_all del: One_nat_def)

lemma hash_seq_iter_single: "hash_seq_iter (as_bytes h) = [h]"
  using hash_seq_iter_from_iter [of "[h]"] by (simp add: hash_seq_from_iter_concat)

lemma two_seqs_kids:
  assumes "bt_ok ts"
  shows "kids (mem_gc_ops ref_ops ref_io ref_traverse) (two_seqs ts) outer_hash = {inner_hash}"
    and "kids (mem_gc_ops ref_ops ref_io ref_traverse) (two_seqs ts) inner_hash = {leaf_hash}"
proof -
  note loc = two_seqs_local [OF assms]
  show "kids (mem_gc_ops ref_ops ref_io ref_traverse) (two_seqs ts) outer_hash = {inner_hash}"
    by (subst refe.kids_complete [OF loc two_seqs_mem_get(1) two_seqs_states(1)]) (simp_all add: hash_seq_iter_single)
  show "kids (mem_gc_ops ref_ops ref_io ref_traverse) (two_seqs ts) inner_hash = {leaf_hash}"
    by (subst refe.kids_complete [OF loc two_seqs_mem_get(2) two_seqs_states(2)]) (simp_all add: hash_seq_iter_single)
qed

lemma hf_hash_seq_sel: "hf_hash (hf_hash_seq h) = h" "hf_format (hf_hash_seq h) = HashSeq"
  by (simp_all add: hf_hash_seq_def)

lemma two_seqs_roots: "mem_roots (two_seqs ts) = ran (bt_get ts)"
  by (simp add: mem_roots_def temp_tags_default_def tt_list_def)

lemma two_seqs_blobs: "mem_blobs (two_seqs ts) = {outer_hash, inner_hash, leaf_hash}"
  by (auto simp: mem_blobs_def two_seqs_get split: if_splits)

section \<open>Hash sequences and tags\<close>

text \<open>
  C23. The children of a tagged hash sequence survive: in a store filled by local imports, if a hash
  sequence root is complete, every blob it links to that is in the store is still there after
  garbage collection, provided that no hash sequence root is marked before its turn.
\<close>

theorem gc_keeps_hash_seq:
  assumes "export_laws R B Io tr" "local_store R B Io s"
    and "\<And>xs. set (ord xs) = set xs" "\<And>xs. distinct xs \<Longrightarrow> distinct (ord xs)"
    and "no_overlap (mem_gc_ops R Io tr) s (mem_roots s) live" "hf_hash_seq h \<in> mem_roots s"
    and "mem_get s h = Some a" "bh_state (ms_heap s a) = Complete d ob" "length d mod 32 = 0"
  shows "\<exists>s' live'. gc_run_once (mem_gc_ops R Io tr) ord s live = (s', live', Inr ()) \<and>
    mem_blobs s \<inter> insert h (set (hash_seq_iter d)) \<subseteq> mem_blobs s'"
proof -
  obtain s' live' where r: "gc_run_once (mem_gc_ops R Io tr) ord s live = (s', live', Inr ())"
    "mem_blobs s' = mem_blobs s \<inter> live'" "live \<union> hf_hash ` mem_roots s \<subseteq> live'"
    "reachable_kids (mem_gc_ops R Io tr) s (mem_roots s) \<subseteq> live'"
    using mgc.run_once [OF export_laws.local_store_gc_valid [OF assms(1,2)] assms(3,4), of R Io tr live] assms(5)
    by blast
  have "kids (mem_gc_ops R Io tr) s h = set (hash_seq_iter d)"
    using export_laws.kids_complete [OF assms(1,2,7,8,9)] .
  moreover have "\<not> is_raw (hf_format (hf_hash_seq h))" "hf_hash (hf_hash_seq h) = h"
    by (simp_all add: hf_hash_seq_def)
  ultimately have "set (hash_seq_iter d) \<subseteq> live'" "h \<in> live'"
    using r(3,4) assms(6) by (force simp: reachable_kids_def)+
  with r show ?thesis by (intro exI [of _ s'] exI [of _ live']) auto
qed

theorem gc_keeps_hash_seq_witness:
  "\<exists>s' live'. gc_run_once (mem_gc_ops ref_ops ref_io ref_traverse) (\<lambda>xs. xs)
     (two_seqs [([1], hf_hash_seq inner_hash)]) {} = (s', live', Inr ()) \<and>
     inner_hash \<in> mem_blobs s' \<and> leaf_hash \<in> mem_blobs s'"
proof -
  let ?ts = "[([1 :: u8], hf_hash_seq inner_hash)]"
  have roots: "mem_roots (two_seqs ?ts) = {hf_hash_seq inner_hash}"
    by (auto simp: two_seqs_roots bt_get_def ran_def split: if_splits)
  have "no_overlap (mem_gc_ops ref_ops ref_io ref_traverse) (two_seqs ?ts) (mem_roots (two_seqs ?ts)) {}"
    by (simp add: no_overlap_def roots)
  from gc_keeps_hash_seq [OF refe.export_laws_axioms two_seqs_local _ _ this _ two_seqs_mem_get(2) two_seqs_states(2),
      of "\<lambda>xs. xs"]
  show ?thesis by (simp add: roots two_seqs_blobs hash_seq_iter_single)
qed

text \<open>
  C24. A blob that is added with a tag is never without protection: in every state between the
  import, the creation of the tag and the drop of the temporary tag, a garbage collection keeps
  the blob, and in the end the tag names it.
\<close>

theorem with_named_tag_protected:
  assumes "export_laws R B Io tr" "local_store R B Io s"
    and "with_named_tag R B Io tr tx s data format name = Inr (haf, states)"
    and "\<And>xs. set (ord xs) = set xs" "\<And>xs. distinct xs \<Longrightarrow> distinct (ord xs)"
  shows "haf = hf_new (io_root Io data) format \<and> states \<noteq> [] \<and>
    tags_get mem_tag_ops (last states) name = Some (tag_info_new name haf) \<and>
    (\<forall>s1\<in>set states. haf \<in> mem_roots s1 \<and>
      (\<exists>s2 live'. gc_run_once (mem_gc_ops R Io tr) ord s1 live = (s2, live', Inr ()) \<and>
        (hf_hash haf \<in> mem_blobs s1 \<longrightarrow> hf_hash haf \<in> mem_blobs s2)))"
proof -
  obtain tt s1 where a: "add_bytes R B Io tr tx s data format = Inr (tt, s1)" and haf: "haf = tag_inner tt"
    and states: "states = [s1, tags_set mem_tag_ops s1 name haf,
      (tags_set mem_tag_ops s1 name haf)\<lparr>ms_temp_tags := drop_temp_tag (ms_temp_tags s1) tt\<rparr>]"
    using assms(3)
    by (auto simp: with_named_tag_def mem_drop_def rbind_Inr_iff Let_def tags_set_def mem_tag_ops_def handle_set_tag_def)
  let ?s2 = "tags_set mem_tag_ops s1 name haf"
  let ?s3 = "?s2\<lparr>ms_temp_tags := drop_temp_tag (ms_temp_tags s1) tt\<rparr>"
  note e = export_laws.add_bytes_entry [OF assms(1,2) a]
  have hf: "haf = hf_new (io_root Io data) format" using e haf by simp
  have v1: "mem_gc_valid s1" using e export_laws.local_store_gc_valid [OF assms(1)] by blast
  then have ok: "mem_tags_ok s1" by (simp add: mem_gc_valid_def)
  have s2: "ms_tags ?s2 = bt_insert name haf (ms_tags s1)" "ms_data ?s2 = ms_data s1"
    by (simp_all add: tags_set_def mem_tag_ops_def handle_set_tag_def)
  have v: "mem_gc_valid x \<and> haf \<in> mem_roots x" if "x \<in> set states" for x
  proof -
    have "haf \<in> ran (bt_get (ms_tags ?s2))" unfolding s2 bt_get_insert [OF ok] by (auto simp: ran_def)
    moreover have "mem_gc_valid ?s2" using v1 s2 by (simp add: mem_gc_valid_def bt_ok_insert)
    moreover have "haf \<in> mem_roots s1" using e hf by (simp add: mem_roots_def)
    ultimately show ?thesis using that v1 by (auto simp: states mem_roots_def mem_gc_valid_def)
  qed
  have "\<exists>s2 live'. gc_run_once (mem_gc_ops R Io tr) ord x live = (s2, live', Inr ()) \<and>
      (hf_hash haf \<in> mem_blobs x \<longrightarrow> hf_hash haf \<in> mem_blobs s2)" if "x \<in> set states" for x
  proof -
    have "mem_gc_valid x" "hf_hash haf \<in> hf_hash ` mem_roots x" using v [OF that] by auto
    with mgc.run_once [OF this(1) assms(4,5), of R Io tr live] show ?thesis by blast
  qed
  moreover have "tags_get mem_tag_ops ?s2 name = Some (tag_info_new name haf)"
    using mtag.get_set [OF ok, of name haf name] by simp
  then have "tags_get mem_tag_ops ?s3 name = Some (tag_info_new name haf)"
    by (simp add: tags_get_def mem_tag_ops_def handle_list_tags_def)
  ultimately show ?thesis using v hf states by simp
qed

theorem with_named_tag_protected_witness:
  "\<exists>states. with_named_tag ref_ops ref_chunk_ops ref_io ref_traverse 0 (mem_store_new ref_ops) [1] Raw [7] =
      Inr (hf_new leaf_hash Raw, states) \<and>
    tags_get mem_tag_ops (last states) [7] = Some (tag_info_new [7] (hf_new leaf_hash Raw))"
proof -
  let ?s = "mem_store_new ref_ops"
  have loc: "local_store ref_ops ref_chunk_ops ref_io ?s"
    using refs.mem_inv_new by (simp add: local_store_def mem_store_new_def new_partial_def)
  have "\<exists>tt t. tt_create (ms_temp_tags ?s) scope_global (hf_new (io_root ref_io [1]) Raw) = Some (tt, t)"
    by (simp add: mem_store_new_def tt_create_def scope_or_default_def temp_tags_default_def scope_temp_tag_def
        tcm_inc_def tc_inc_def tc_default_def counter_def checked_add_u64_def hf_new_def bt_get_def)
  then obtain tt s1 where "add_bytes ref_ops ref_chunk_ops ref_io ref_traverse 0 ?s [1] Raw = Inr (tt, s1)"
    using add_bytes_succeeds by blast
  then obtain haf states where w: "with_named_tag ref_ops ref_chunk_ops ref_io ref_traverse 0 ?s [1] Raw [7] = Inr (haf, states)"
    by (simp add: with_named_tag_def Let_def)
  from with_named_tag_protected [OF refe.export_laws_axioms loc w, of "\<lambda>xs. xs"] w
  show ?thesis by (auto simp: leaf_hash_def)
qed

text \<open>
  But a hash sequence root that was marked before, here as a child of another root, is not
  traversed: with two tagged hash sequences the outer of which links to the inner, a round that
  iterates the outer one first deletes the child of the inner one, although the inner one is tagged
  and kept. (The order of the iteration is the order of a hash set.)
\<close>

theorem gc_loses_children:
  "\<exists>s s' live' r c. local_store ref_ops ref_chunk_ops ref_io s \<and>
     hf_hash_seq r \<in> mem_roots s \<and> c \<in> mem_blobs s \<and>
     c \<in> kids (mem_gc_ops ref_ops ref_io ref_traverse) s r \<and>
     gc_run_once (mem_gc_ops ref_ops ref_io ref_traverse) rev s {} = (s', live', Inr ()) \<and>
     r \<in> mem_blobs s' \<and> c \<notin> mem_blobs s'"
proof -
  let ?G = "mem_gc_ops ref_ops ref_io ref_traverse"
  let ?ts = "[([1 :: u8], hf_hash_seq outer_hash), ([2], hf_hash_seq inner_hash)]"
  let ?s = "two_seqs ?ts"
  have ok: "bt_ok ?ts" by simp
  note loc = two_seqs_local [OF ok] and kids = two_seqs_kids [OF ok]
  have p: "go_clear_protected ?G ?s = Inr ?s" by (simp add: mem_gc_ops_def two_seqs_def mem_store_new_def)
  have "map hash_and_format_of (tags_list mem_tag_ops ?s) = [hf_hash_seq outer_hash, hf_hash_seq inner_hash]"
    by (simp add: tags_list_def mem_tag_ops_def handle_list_tags_def list_all_def hash_and_format_of_def hf_hash_seq_def)
  then have roots: "collect_roots (map Inr (tags_list mem_tag_ops ?s)) [] = Inr [hf_hash_seq inner_hash, hf_hash_seq outer_hash]"
    by (simp add: collect_roots_Inr hf_hash_seq_def)
  have g: "go_tags ?G ?s = Inr (map Inr (tags_list mem_tag_ops ?s))" "go_temp_tags ?G ?s = Inr []"
    by (simp_all add: mem_gc_ops_def temp_tags_default_def tt_list_def)
  obtain ev where mark: "gc_mark_task ?G rev ?s {} = ({outer_hash, inner_hash}, ev, None)"
  proof
    let ?le = "fold (mark_root ?G ?s) [hf_hash_seq outer_hash, hf_hash_seq inner_hash] ({}, [])"
    have "fst ?le = {outer_hash, inner_hash}"
      by (simp add: fst_mark_root kids hf_hash_seq_sel insert_commute)
    moreover have "gc_mark_task ?G rev ?s {} = (fst ?le, snd ?le, None)"
      using roots g by (simp add: gc_mark_task_def split_def Let_def)
    ultimately show "gc_mark_task ?G rev ?s {} = ({outer_hash, inner_hash}, snd ?le, None)" by simp
  qed
  obtain s' n where "gc_sweep_task ?G {outer_hash, inner_hash} ?s = (s', Inr n)"
    "mem_blobs s' = mem_blobs ?s \<inter> {outer_hash, inner_hash}"
    using mgc.sweep_task [OF refe.local_store_gc_valid [OF loc], of ref_ops ref_io ref_traverse "{outer_hash, inner_hash}"] by auto
  with mark p have "gc_run_once ?G rev ?s {} = (s', {outer_hash, inner_hash}, Inr ())"
    "inner_hash \<in> mem_blobs s'" "leaf_hash \<notin> mem_blobs s'"
    by (simp_all add: gc_run_once_def two_seqs_blobs)
  moreover have "hf_hash_seq inner_hash \<in> mem_roots ?s"
    unfolding two_seqs_roots by (rule ranI [of _ "[2]"]) (simp add: bt_get_def)
  ultimately show ?thesis
    using loc kids by (intro exI [of _ ?s] exI [of _ s'] exI [of _ "{outer_hash, inner_hash}"] exI [of _ inner_hash]
        exI [of _ leaf_hash]) (simp add: two_seqs_blobs)
qed

end
