(* ===== verification/Meta_Gc.thy ===== *)
theory Meta_Gc
  imports Meta_Spec Gc
begin

text \<open>
  Garbage collection on the metadata database: the tables of the file store provide what the
  collector needs (\<open>gc_store\<close>). The temporary tags and the traversal of a hash sequence are not part
  of the database; they are parameters. Unlike in the memory store, hashes are protected here from the
  moment they are written until the next round clears them.
\<close>

definition gc_request :: "'e + 'a \<Rightarrow> gc_error + 'a" where
  "gc_request r = (case r of Inl _ \<Rightarrow> Inl GcRequestFailed | Inr x \<Rightarrow> Inr x)"

definition meta_gc_ops ::
  "('b, 't, 'd) redb \<Rightarrow> hash_and_format list \<Rightarrow> (hash \<Rightarrow> (hashes_error + hash) list) \<Rightarrow> ('b, 't, 'd) txn gc_ops" where
  "meta_gc_ops D tts traverse =
     \<lparr>go_clear_protected = (\<lambda>s. Inr (s\<lparr>tn_protected := meta_clear_protected (tn_protected s)\<rparr>)),
      go_tags = (\<lambda>s. rbind (gc_request (meta_list_tags D (tn_db s) list_all)) (\<lambda>items. Inr (map gc_request items))),
      go_temp_tags = (\<lambda>s. Inr tts),
      go_hashes = (\<lambda>s. traverse),
      go_blobs = (\<lambda>s. Inr (map gc_request (meta_list_blobs D (tn_db s)))),
      go_delete = (\<lambda>s hs. gc_request (meta_delete D hs False s)),
      go_sync_db = (\<lambda>s. Inr s)\<rparr>"

lemma gc_request_simps [simp]: "gc_request (Inr x) = Inr x" "gc_request (Inl e) = Inl GcRequestFailed"
  by (simp_all add: gc_request_def)

lemma list_blob_items_Inr: "list_blob_items (map Inr xs) = map Inr (map fst xs)"
  by (induction xs) auto

lemma list_items_Inr:
  "list_items raw hs (map Inr xs) =
    map Inr (map (\<lambda>(k, v). tag_info_new k v) (filter (\<lambda>(k, v). raw \<and> is_raw (hf_format v) \<or> hs \<and> is_hash_seq (hf_format v)) xs))"
proof (induction xs)
  case (Cons x xs)
  then show ?case by (cases x) (simp add: tag_info_new_def)
qed simp

definition meta_roots :: "('t \<Rightarrow> tag \<Rightarrow> hash_and_format option) \<Rightarrow> hash_and_format list \<Rightarrow> ('b, 't, 'd) txn \<Rightarrow> hash_and_format set" where
  "meta_roots lookt tts s = ran (lookt (db_tags (tn_db s))) \<union> set tts"

definition meta_blobs :: "('b \<Rightarrow> hash \<Rightarrow> unit entry_state option) \<Rightarrow> ('d \<Rightarrow> hash \<Rightarrow> bytes option) \<Rightarrow> ('b, 't, 'd) txn \<Rightarrow> hash set" where
  "meta_blobs lookb lookd s = dom (meta_view lookb lookd (tn_db s))"

lemma meta_blobs_eq: "meta_blobs lookb lookd s = dom (lookb (db_blobs (tn_db s)))"
  by (auto simp: meta_blobs_def meta_view_def)

context reliable_meta
begin

lemma list_all_tags:
  fixes s :: "('b, 't, 'd) txn"
  assumes "okt (db_tags (tn_db s))"
  shows "\<exists>infos. meta_list_tags D (tn_db s) list_all = Inr (map Inr infos) \<and>
    hash_and_format_of ` set infos = ran (lookt (db_tags (tn_db s)))"
proof -
  obtain xs where xs: "tb_range (rd_tags D) (db_tags (tn_db s)) Unbounded Unbounded = Inr (map Inr xs)"
    using rt.range_look [OF assms] by blast
  then have "meta_list_tags D (tn_db s) list_all = Inr (map Inr (to_list (meta_tag_ops D) s list_all))"
    by (simp add: meta_list_tags_def meta_tag_ops_def storage_def list_all_def from_bound_def to_bound_def list_items_Inr rights_map_Inr del: map_map)
  moreover have "hash_and_format_of ` set (to_list (meta_tag_ops D) s list_all) = ran (lookt (db_tags (tn_db s)))"
    using tagdb.tags_list_ran [OF assms] by (simp add: tags_list_def)
  ultimately show ?thesis by blast
qed

lemma list_all_blobs:
  fixes s :: "('b, 't, 'd) txn"
  assumes "okb (db_blobs (tn_db s))"
  shows "\<exists>hs. meta_list_blobs D (tn_db s) = map Inr hs \<and> set hs = dom (lookb (db_blobs (tn_db s)))"
proof -
  obtain xs where "tb_range (rd_blobs D) (db_blobs (tn_db s)) Unbounded Unbounded = Inr (map Inr xs)"
    "\<And>k v. (k, v) \<in> set xs \<longleftrightarrow> lookb (db_blobs (tn_db s)) k = Some v"
    using rb.range_look [OF assms, of Unbounded Unbounded] by (auto simp: in_bounds_def)
  then show ?thesis
    by (intro exI [of _ "map fst xs"]) (force simp: meta_list_blobs_def list_blob_items_Inr [unfolded map_map] dom_def)
qed

end

sublocale reliable_meta \<subseteq> gcdb: gc_store "meta_gc_ops D tts traverse" "\<lambda>s. meta_ok okb lookb okt okd lookd (tn_db s)"
  "meta_blobs lookb lookd" "meta_roots lookt tts" tn_protected for tts traverse
proof
  fix s :: "('b, 't, 'd) txn" and hs
  assume ok: "meta_ok okb lookb okt okd lookd (tn_db s)"
  then have o: "okt (db_tags (tn_db s))" "okb (db_blobs (tn_db s))" by (simp_all add: meta_ok_def)
  show "\<exists>s'. go_clear_protected (meta_gc_ops D tts traverse) s = Inr s' \<and> meta_ok okb lookb okt okd lookd (tn_db s') \<and>
      meta_blobs lookb lookd s' = meta_blobs lookb lookd s \<and> meta_roots lookt tts s' = meta_roots lookt tts s \<and>
      go_hashes (meta_gc_ops D tts traverse) s' = go_hashes (meta_gc_ops D tts traverse) s \<and> tn_protected s' = {}"
    using ok by (simp add: meta_gc_ops_def meta_blobs_def meta_roots_def meta_clear_protected_def)
  obtain infos where i: "meta_list_tags D (tn_db s) list_all = Inr (map Inr infos)"
    "hash_and_format_of ` set infos = ran (lookt (db_tags (tn_db s)))"
    using list_all_tags [OF o(1)] by blast
  show "\<exists>infos tts'. go_tags (meta_gc_ops D tts traverse) s = Inr (map Inr infos) \<and>
      go_temp_tags (meta_gc_ops D tts traverse) s = Inr tts' \<and>
      meta_roots lookt tts s = hash_and_format_of ` set infos \<union> set tts'"
    using i by (intro exI [of _ infos] exI [of _ tts]) (simp add: meta_gc_ops_def meta_roots_def comp_def)
  show "\<exists>hs. go_blobs (meta_gc_ops D tts traverse) s = Inr (map Inr hs) \<and> set hs = meta_blobs lookb lookd s"
    using list_all_blobs [OF o(2)] by (auto simp: meta_gc_ops_def meta_blobs_eq comp_def)
  obtain s' where d: "meta_delete D hs False s = Inr s'" using delete_succeeds [OF ok] by blast
  from meta_delete_view [OF ok d] d show "\<exists>s'. go_delete (meta_gc_ops D tts traverse) s hs = Inr s' \<and>
      meta_ok okb lookb okt okd lookd (tn_db s') \<and>
      meta_blobs lookb lookd s' = meta_blobs lookb lookd s - (set hs - tn_protected s) \<and>
      meta_roots lookt tts s' = meta_roots lookt tts s \<and> tn_protected s' = tn_protected s"
    by (auto simp: meta_gc_ops_def meta_blobs_def meta_roots_def dom_def)
  show "\<exists>s'. go_sync_db (meta_gc_ops D tts traverse) s = Inr s' \<and> meta_ok okb lookb okt okd lookd (tn_db s') \<and>
      meta_blobs lookb lookd s' = meta_blobs lookb lookd s \<and> meta_roots lookt tts s' = meta_roots lookt tts s"
    using ok by (simp add: meta_gc_ops_def)
qed

context reliable_meta
begin

lemma gc_db:
  "gc_store (meta_gc_ops D tts traverse) (\<lambda>s. meta_ok okb lookb okt okd lookd (tn_db s))
    (meta_blobs lookb lookd) (meta_roots lookt tts) tn_protected"
  by (rule gcdb.gc_store_axioms)

end

section \<open>Properties\<close>

text \<open>
  C25. Garbage collection of the file store: a round on the metadata database ends without an error,
  keeps the tags and the consistency of the tables, and keeps exactly the blobs that were marked:
  all that are protected by the callback or the root of a tag or temporary tag, all children of hash
  sequence roots if no root is marked before its turn, and nothing that is unreachable.
\<close>

theorem meta_gc_keeps_live:
  assumes "reliable_meta D okb lookb okt lookt okd lookd" "meta_ok okb lookb okt okd lookd (tn_db s)"
    and "\<And>xs. set (ord xs) = set xs" "\<And>xs. distinct xs \<Longrightarrow> distinct (ord xs)"
  shows "\<exists>s' live'. gc_run_once (meta_gc_ops D tts traverse) ord s live = (s', live', Inr ()) \<and>
    meta_ok okb lookb okt okd lookd (tn_db s') \<and> meta_roots lookt tts s' = meta_roots lookt tts s \<and>
    meta_blobs lookb lookd s' = meta_blobs lookb lookd s \<inter> live' \<and>
    live \<union> hf_hash ` meta_roots lookt tts s \<subseteq> live' \<and>
    live' \<subseteq> live \<union> hf_hash ` meta_roots lookt tts s \<union> reachable_kids (meta_gc_ops D tts traverse) s (meta_roots lookt tts s) \<and>
    (no_overlap (meta_gc_ops D tts traverse) s (meta_roots lookt tts s) live \<longrightarrow>
      reachable_kids (meta_gc_ops D tts traverse) s (meta_roots lookt tts s) \<subseteq> live')"
  using gc_store.run_once [OF reliable_meta.gc_db [OF assms(1)] assms(2-4), of tts traverse live] by blast

theorem meta_gc_keeps_live_witness:
  "\<exists>s' live'. gc_run_once (meta_gc_ops ref_redb [] (\<lambda>_. [])) (\<lambda>xs. xs)
      \<lparr>tn_db = \<lparr>db_blobs = [(hash_empty, PartialEntry None)], db_tags = [([1], hf_raw hash_empty)],
        db_inline_data = [], db_inline_outboard = []\<rparr>, tn_ftx = {}, tn_protected = {}\<rparr> {} = (s', live', Inr ()) \<and>
    hash_empty \<in> meta_blobs bt_get bt_get s'"
proof -
  let ?s = "\<lparr>tn_db = \<lparr>db_blobs = [(hash_empty, PartialEntry None)], db_tags = [([1], hf_raw hash_empty)],
    db_inline_data = [], db_inline_outboard = []\<rparr>, tn_ftx = {}, tn_protected = {}\<rparr> ::
    ((hash, unit entry_state) btree, (tag, hash_and_format) btree, (hash, bytes) btree) txn"
  have ok: "meta_ok bt_ok bt_get bt_ok bt_ok bt_get (tn_db ?s)" by (auto simp: meta_ok_def bt_get_def filled_def)
  have "hash_empty \<in> hf_hash ` meta_roots bt_get [] ?s"
    by (rule image_eqI [of _ _ "hf_raw hash_empty"]) (auto simp: meta_roots_def bt_get_def hf_raw_def intro: ranI)
  moreover have "hash_empty \<in> meta_blobs bt_get bt_get ?s" by (simp add: meta_blobs_eq bt_get_def)
  moreover note meta_gc_keeps_live [OF refm.reliable_meta_axioms ok, of "\<lambda>xs. xs" "[]" "\<lambda>_. []" "{}"]
  ultimately show ?thesis by blast
qed

end
