(* ===== verification/Entity_Manager.thy ===== *)
theory Entity_Manager
  imports Prelude
begin

text \<open>
  The entity manager (\<open>src/src/store/fs/util/entity_manager.rs\<close>): a main actor that runs one
  entity actor per id, hands commands to its bounded inbox, and recycles the actor with its
  inbox when it becomes idle.  The file store runs the commands of a blob in the entity actor
  of its hash.

  The tasks of the runtime interleave, so the system is a labelled transition system: a
  configuration holds the channels, the main actor with its program counter and the spawned
  entity actors with theirs, and an action is one atomic piece of one task, the code between
  two points at which the task shares a channel or awaits.  Closures are an arbitrary type
  \<open>'f\<close>: calling one gives a task that may change the entity state, end or panic at any time,
  since it is the code of the user; the closures that the main actor itself awaits, with \<open>Busy\<close> or
  \<open>Dead\<close>, are the exception: they can only return.  The parameters \<open>dflt\<close> and \<open>rst\<close> are the functions
  \<open>Default::default\<close> and \<open>Reset::reset\<close> of the entity state, \<open>on_shutdown\<close> is user code of
  which the model records the call.  The log of a configuration records what the user sees.
\<close>

section \<open>Channels\<close>

text \<open>
  An mpsc channel of tokio: its queue, its capacity, the number of strong senders and whether
  the receiver is alive.  Senders and receivers are named by the number of their channel.
\<close>

type_synonym chan_id = nat

datatype shutdown_cause = Idle | Soft | Drop

datatype ('id, 'f) ecmd = Spawn 'id 'f | EntityShutdown

record ('id, 'f) chan =
  ch_queue :: "('id, 'f) ecmd list"
  ch_cap :: nat
  ch_senders :: nat
  ch_open :: bool

record ('id, 'g, 's) estate =
  es_id :: 'id
  es_global :: 'g
  es_state :: 's

datatype ('id, 'g, 's) spawn_arg = Active "('id, 'g, 's) estate" | Busy | Dead

datatype ('id, 'g, 's, 'f) icmd =
    ShutdownMsg 'id chan_id
  | ShutdownComplete "('id, 'g, 's) estate" "'f list"

datatype ('id, 'g, 's, 'f) event =
    Accepted 'id 'f
  | Called 'id 'f "('id, 'g, 's) spawn_arg"
  | OnShutdown "('id, 'g, 's) estate" shutdown_cause
  | Panicked 'id
  | TickError 'id

record ('id, 'g, 's, 'f) world =
  w_chans :: "chan_id \<Rightarrow> ('id, 'f) chan"
  w_free :: chan_id
  w_internal :: "('id, 'g, 's, 'f) icmd list"
  w_internal_cap :: nat
  w_internal_open :: bool
  w_log :: "('id, 'g, 's, 'f) event list"

definition upd_chan :: "chan_id \<Rightarrow> (('id, 'f) chan \<Rightarrow> ('id, 'f) chan)
    \<Rightarrow> ('id, 'g, 's, 'f) world \<Rightarrow> ('id, 'g, 's, 'f) world" where
  "upd_chan c h w = w\<lparr>w_chans := (w_chans w)(c := h (w_chans w c))\<rparr>"

definition log_event :: "('id, 'g, 's, 'f) event \<Rightarrow> ('id, 'g, 's, 'f) world
    \<Rightarrow> ('id, 'g, 's, 'f) world" where
  "log_event e w = w\<lparr>w_log := w_log w @ [e]\<rparr>"

definition mpsc_channel :: "nat \<Rightarrow> ('id, 'g, 's, 'f) world
    \<Rightarrow> chan_id \<times> ('id, 'g, 's, 'f) world" where
  "mpsc_channel n w = (w_free w,
     w\<lparr>w_free := Suc (w_free w),
       w_chans := (w_chans w)(w_free w :=
         \<lparr>ch_queue = [], ch_cap = n, ch_senders = 1, ch_open = True\<rparr>)\<rparr>)"

datatype send_result = SendOk | Full | Closed

definition send_state :: "chan_id \<Rightarrow> ('id, 'g, 's, 'f) world \<Rightarrow> send_result" where
  "send_state c w =
     (if \<not> ch_open (w_chans w c) then Closed
      else if ch_cap (w_chans w c) \<le> length (ch_queue (w_chans w c)) then Full
      else SendOk)"

definition push_cmd :: "chan_id \<Rightarrow> ('id, 'f) ecmd \<Rightarrow> ('id, 'g, 's, 'f) world
    \<Rightarrow> ('id, 'g, 's, 'f) world" where
  "push_cmd c m = upd_chan c (\<lambda>ch. ch\<lparr>ch_queue := ch_queue ch @ [m]\<rparr>)"

definition pop_cmd :: "chan_id \<Rightarrow> ('id, 'g, 's, 'f) world \<Rightarrow> ('id, 'g, 's, 'f) world" where
  "pop_cmd c = upd_chan c (\<lambda>ch. ch\<lparr>ch_queue := tl (ch_queue ch)\<rparr>)"

definition drop_sender :: "chan_id \<Rightarrow> ('id, 'g, 's, 'f) world \<Rightarrow> ('id, 'g, 's, 'f) world" where
  "drop_sender c = upd_chan c (\<lambda>ch. ch\<lparr>ch_senders := ch_senders ch - 1\<rparr>)"

text \<open>Dropping a receiver closes the channel and drops the commands in it.\<close>

definition drop_recv :: "chan_id \<Rightarrow> ('id, 'g, 's, 'f) world \<Rightarrow> ('id, 'g, 's, 'f) world" where
  "drop_recv c = upd_chan c (\<lambda>ch. ch\<lparr>ch_queue := [], ch_open := False\<rparr>)"

section \<open>Entity actors\<close>

record ('id, 'g, 's, 'f) eactor =
  ea_recv :: chan_id
  ea_state :: "('id, 'g, 's) estate"
  ea_tasks :: "'f list"

text \<open>
  The program counter of \<open>Actor::run\<close>: at the \<open>select!\<close>, at the check after it, in
  \<open>recycle_state\<close> before the first send, in \<open>on_shutdown\<close> of an idle actor, before the second
  send, waiting for tasks and in \<open>on_shutdown\<close> of a soft shutdown, in \<open>on_shutdown\<close> after the
  senders are gone, at the end, and after a panic.
\<close>

datatype epc = AtSelect | AtCheck | AtRecycle | IdleShutdown | AtComplete
  | SoftWait | SoftShutdown | DropShutdown | EDone | EPanicked

record ('id, 'g, 's, 'f) eproc =
  p_actor :: "('id, 'g, 's, 'f) eactor"
  p_pc :: epc

abbreviation p_recv :: "('id, 'g, 's, 'f) eproc \<Rightarrow> chan_id" where
  "p_recv p \<equiv> ea_recv (p_actor p)"

abbreviation p_state :: "('id, 'g, 's, 'f) eproc \<Rightarrow> ('id, 'g, 's) estate" where
  "p_state p \<equiv> ea_state (p_actor p)"

abbreviation p_tasks :: "('id, 'g, 's, 'f) eproc \<Rightarrow> 'f list" where
  "p_tasks p \<equiv> ea_tasks (p_actor p)"

abbreviation p_id :: "('id, 'g, 's, 'f) eproc \<Rightarrow> 'id" where
  "p_id p \<equiv> es_id (p_state p)"

definition goto :: "epc \<Rightarrow> ('id, 'g, 's, 'f) eproc \<Rightarrow> ('id, 'g, 's, 'f) eproc" where
  "goto l p = p\<lparr>p_pc := l\<rparr>"

definition set_tasks :: "'f list \<Rightarrow> ('id, 'g, 's, 'f) eproc \<Rightarrow> ('id, 'g, 's, 'f) eproc" where
  "set_tasks ts p = p\<lparr>p_actor := (p_actor p)\<lparr>ea_tasks := ts\<rparr>\<rparr>"

text \<open>The task that runs an actor.\<close>

definition run_actor :: "('id, 'g, 's, 'f) eactor \<Rightarrow> ('id, 'g, 's, 'f) eproc" where
  "run_actor a = \<lparr>p_actor = a, p_pc = AtSelect\<rparr>"

type_synonym ('id, 'g, 's, 'f) estep =
  "(('id, 'g, 's, 'f) eproc \<times> ('id, 'g, 's, 'f) world) option"

text \<open>
  The first arm of the \<open>select!\<close>: the receiver yields the oldest command, \<open>None\<close> when it is
  empty and all senders are gone, or it is pending.
\<close>

definition entity_recv :: "('id, 'g, 's, 'f) eproc \<Rightarrow> ('id, 'g, 's, 'f) world
    \<Rightarrow> ('id, 'g, 's, 'f) estep" where
  "entity_recv p w = (let ch = w_chans w (p_recv p) in
     if p_pc p \<noteq> AtSelect then None
     else case ch_queue ch of
       Spawn eid f # _ \<Rightarrow>
         Some (goto AtCheck (set_tasks (p_tasks p @ [f]) p),
               log_event (Called eid f (Active (p_state p))) (pop_cmd (p_recv p) w))
     | EntityShutdown # _ \<Rightarrow> Some (goto SoftWait p, pop_cmd (p_recv p) w)
     | [] \<Rightarrow>
         if ch_senders ch = 0
         then Some (goto DropShutdown p, log_event (OnShutdown (p_state p) Drop) w)
         else None)"

text \<open>The second arm, and the loop of a soft shutdown: a task ends.\<close>

definition entity_task_done :: "nat \<Rightarrow> ('id, 'g, 's, 'f) eproc \<Rightarrow> ('id, 'g, 's, 'f) world
    \<Rightarrow> ('id, 'g, 's, 'f) estep" where
  "entity_task_done i p w =
     (if length (p_tasks p) \<le> i then None
      else let p' = set_tasks (take i (p_tasks p) @ drop (Suc i) (p_tasks p)) p in
        if p_pc p = AtSelect then Some (goto AtCheck p', w)
        else if p_pc p = SoftWait then Some (p', w)
        else None)"

text \<open>
  The code that runs without waiting for user code: the check whether the actor is idle, the
  two notifications of \<open>recycle_state\<close>, and the return from \<open>on_shutdown\<close>.  A send to the
  internal channel waits while the channel is full and fails without effect when its receiver
  is gone; the message is then dropped, with the receiver that it contains.
\<close>

definition internal_send :: "('id, 'g, 's, 'f) icmd \<Rightarrow> ('id, 'g, 's, 'f) world
    \<Rightarrow> ('id, 'g, 's, 'f) world option" where
  "internal_send m w =
     (if \<not> w_internal_open w then
        Some (case m of ShutdownMsg _ c \<Rightarrow> drop_recv c w | ShutdownComplete _ _ \<Rightarrow> w)
      else if w_internal_cap w \<le> length (w_internal w) then None
      else Some (w\<lparr>w_internal := w_internal w @ [m]\<rparr>))"

definition entity_proceed :: "('id, 'g, 's, 'f) eproc \<Rightarrow> ('id, 'g, 's, 'f) world
    \<Rightarrow> ('id, 'g, 's, 'f) estep" where
  "entity_proceed p w = (case p_pc p of
     AtCheck \<Rightarrow>
       if p_tasks p = [] \<and> ch_queue (w_chans w (p_recv p)) = []
       then Some (goto AtRecycle p, w) else Some (goto AtSelect p, w)
   | AtRecycle \<Rightarrow>
       if p_tasks p \<noteq> []
       then Some (goto EPanicked p, log_event (Panicked (p_id p)) (drop_recv (p_recv p) w))
       else map_option
         (\<lambda>w'. (goto IdleShutdown p, log_event (OnShutdown (p_state p) Idle) w'))
         (internal_send (ShutdownMsg (p_id p) (p_recv p)) w)
   | IdleShutdown \<Rightarrow> Some (goto AtComplete p, w)
   | AtComplete \<Rightarrow>
       map_option (Pair (goto EDone p)) (internal_send (ShutdownComplete (p_state p) (p_tasks p)) w)
   | SoftWait \<Rightarrow>
       if p_tasks p = []
       then Some (goto SoftShutdown p, log_event (OnShutdown (p_state p) Soft) w) else None
   | SoftShutdown \<Rightarrow> Some (goto EDone p, drop_recv (p_recv p) w)
   | DropShutdown \<Rightarrow> Some (goto EDone p, drop_recv (p_recv p) w)
   | _ \<Rightarrow> None)"

text \<open>
  User code runs inside the task of the actor when a task of it is polled or \<open>on_shutdown\<close>
  is: it may change the entity state, and it may panic, which unwinds the actor.
\<close>

definition in_user_code :: "('id, 'g, 's, 'f) eproc \<Rightarrow> bool" where
  "in_user_code p \<longleftrightarrow>
     p_pc p \<in> {AtSelect, SoftWait} \<and> p_tasks p \<noteq> []
     \<or> p_pc p \<in> {IdleShutdown, SoftShutdown, DropShutdown}"

definition entity_touch :: "'s \<Rightarrow> ('id, 'g, 's, 'f) eproc \<Rightarrow> ('id, 'g, 's, 'f) world
    \<Rightarrow> ('id, 'g, 's, 'f) estep" where
  "entity_touch s p w =
     (if in_user_code p
      then Some (p\<lparr>p_actor := (p_actor p)\<lparr>ea_state := (p_state p)\<lparr>es_state := s\<rparr>\<rparr>\<rparr>, w)
      else None)"

definition entity_panic :: "('id, 'g, 's, 'f) eproc \<Rightarrow> ('id, 'g, 's, 'f) world
    \<Rightarrow> ('id, 'g, 's, 'f) estep" where
  "entity_panic p w =
     (if in_user_code p
      then Some (goto EPanicked p, log_event (Panicked (p_id p))
             (if p_pc p = IdleShutdown then w else drop_recv (p_recv p) w))
      else None)"

datatype 's echoice = ERecv | ETask nat | EProceed | ETouch 's | EPanic

fun entity_step :: "'s echoice \<Rightarrow> ('id, 'g, 's, 'f) eproc \<Rightarrow> ('id, 'g, 's, 'f) world
    \<Rightarrow> ('id, 'g, 's, 'f) estep" where
  "entity_step ERecv p w = entity_recv p w"
| "entity_step (ETask i) p w = entity_task_done i p w"
| "entity_step EProceed p w = entity_proceed p w"
| "entity_step (ETouch s) p w = entity_touch s p w"
| "entity_step EPanic p w = entity_panic p w"

section \<open>The state of the manager\<close>

datatype handle = Live chan_id | ShuttingDown chan_id chan_id

fun handle_send :: "handle \<Rightarrow> chan_id" where
  "handle_send (Live c) = c"
| "handle_send (ShuttingDown c _) = c"

record ('id, 'g, 's, 'f) actor_state =
  as_live :: "'id \<rightharpoonup> handle"
  as_state :: 'g
  as_pool :: "(chan_id \<times> ('id, 'g, 's, 'f) eactor) list"
  as_capacity :: nat
  as_inbox_size :: nat

definition actor_state_new :: "'g \<Rightarrow> nat \<Rightarrow> nat \<Rightarrow> ('id, 'g, 's, 'f) actor_state" where
  "actor_state_new g pool_capacity inbox_size =
     \<lparr>as_live = Map.empty, as_state = g, as_pool = [],
      as_capacity = pool_capacity, as_inbox_size = inbox_size\<rparr>"

definition get_or_create :: "'s \<Rightarrow> ('s \<Rightarrow> 's) \<Rightarrow> 'id \<Rightarrow> ('id, 'g, 's, 'f) actor_state
    \<Rightarrow> ('id, 'g, 's, 'f) world
    \<Rightarrow> handle \<times> ('id, 'g, 's, 'f) eactor option \<times> ('id, 'g, 's, 'f) actor_state
        \<times> ('id, 'g, 's, 'f) world" where
  "get_or_create dflt rst eid st w =
     (case as_live st eid of
        Some h \<Rightarrow> (h, None, st, w)
      | None \<Rightarrow>
          if as_pool st \<noteq> [] then
            let (send, a) = last (as_pool st);
                a' = a\<lparr>ea_state := \<lparr>es_id = eid, es_global = as_state st,
                                     es_state = rst (es_state (ea_state a))\<rparr>\<rparr>
            in (Live send, Some a',
                st\<lparr>as_pool := butlast (as_pool st), as_live := (as_live st)(eid \<mapsto> Live send)\<rparr>, w)
          else
            let (c, w') = mpsc_channel (as_inbox_size st) w;
                a = \<lparr>ea_recv = c,
                     ea_state = \<lparr>es_id = eid, es_global = as_state st, es_state = dflt\<rparr>,
                     ea_tasks = []\<rparr>
            in (Live c, Some a, st\<lparr>as_live := (as_live st)(eid \<mapsto> Live c)\<rparr>, w'))"

text \<open>
  \<open>spawn_boxed\<close> hands the closure to the inbox, or calls it with the bad news and awaits it;
  the flag of the result says whether the main actor awaits the closure.
\<close>

definition spawn_boxed :: "'s \<Rightarrow> ('s \<Rightarrow> 's) \<Rightarrow> 'id \<Rightarrow> 'f \<Rightarrow> ('id, 'g, 's, 'f) actor_state
    \<Rightarrow> ('id, 'g, 's, 'f) world
    \<Rightarrow> bool \<times> ('id, 'g, 's, 'f) eactor option \<times> ('id, 'g, 's, 'f) actor_state
        \<times> ('id, 'g, 's, 'f) world" where
  "spawn_boxed dflt rst eid f st w =
     (let (h, task, st', w') = get_or_create dflt rst eid st w; c = handle_send h in
      case send_state c w' of
        SendOk \<Rightarrow> (False, task, st', log_event (Accepted eid f) (push_cmd c (Spawn eid f) w'))
      | Full \<Rightarrow> (True, task, st', log_event (Called eid f Busy) w')
      | Closed \<Rightarrow> (True, task, st', log_event (Called eid f Dead) w'))"

text \<open>Recycling panics, here \<open>None\<close>, when one of the assertions fails.\<close>

definition actor_recycle :: "('s \<Rightarrow> 's) \<Rightarrow> ('id, 'g, 's, 'f) eactor \<Rightarrow> ('id, 'g, 's, 'f) world
    \<Rightarrow> ('id, 'g, 's, 'f) eactor option" where
  "actor_recycle rst a w =
     (if ch_queue (w_chans w (ea_recv a)) \<noteq> [] then None
      else if ch_senders (w_chans w (ea_recv a)) \<noteq> 1 then None
      else if ea_tasks a \<noteq> [] then None
      else Some (a\<lparr>ea_state := (ea_state a)\<lparr>es_state := rst (es_state (ea_state a))\<rparr>\<rparr>))"

definition em_recycle :: "('s \<Rightarrow> 's) \<Rightarrow> chan_id \<Rightarrow> ('id, 'g, 's, 'f) eactor
    \<Rightarrow> ('id, 'g, 's, 'f) actor_state \<Rightarrow> ('id, 'g, 's, 'f) world
    \<Rightarrow> (('id, 'g, 's, 'f) actor_state \<times> ('id, 'g, 's, 'f) world) option" where
  "em_recycle rst send a st w =
     (if ch_senders (w_chans w send) \<noteq> 1 then None
      else case actor_recycle rst a w of
        None \<Rightarrow> None
      | Some a' \<Rightarrow>
          if length (as_pool st) < as_capacity st
          then Some (st\<lparr>as_pool := as_pool st @ [(send, a')]\<rparr>, w)
          else Some (st, drop_recv (ea_recv a') (drop_sender send w)))"

text \<open>
  \<open>tick\<close> handles one internal command.  Its error branches log and drop what the command and
  the handle own.
\<close>

definition tick_shutdown :: "'id \<Rightarrow> chan_id \<Rightarrow> ('id, 'g, 's, 'f) actor_state
    \<Rightarrow> ('id, 'g, 's, 'f) world \<Rightarrow> ('id, 'g, 's, 'f) actor_state \<times> ('id, 'g, 's, 'f) world" where
  "tick_shutdown eid receiver st w =
     (case as_live st eid of
        None \<Rightarrow> (st, log_event (TickError eid) (drop_recv receiver w))
      | Some (ShuttingDown send recv) \<Rightarrow>
          (st\<lparr>as_live := (as_live st)(eid := None)\<rparr>,
           log_event (TickError eid)
             (drop_recv receiver (drop_recv recv (drop_sender send w))))
      | Some (Live send) \<Rightarrow>
          (st\<lparr>as_live := (as_live st)(eid \<mapsto> ShuttingDown send receiver)\<rparr>, w))"

definition tick_complete :: "('s \<Rightarrow> 's) \<Rightarrow> ('id, 'g, 's) estate \<Rightarrow> 'f list
    \<Rightarrow> ('id, 'g, 's, 'f) actor_state \<Rightarrow> ('id, 'g, 's, 'f) world
    \<Rightarrow> (('id, 'g, 's, 'f) eactor option \<times> ('id, 'g, 's, 'f) actor_state
        \<times> ('id, 'g, 's, 'f) world) option" where
  "tick_complete rst state tasks st w = (let eid = es_id state in
     case as_live st eid of
       None \<Rightarrow> Some (None, st, log_event (TickError eid) w)
     | Some (Live send) \<Rightarrow>
         Some (None, st\<lparr>as_live := (as_live st)(eid := None)\<rparr>,
               log_event (TickError eid) (drop_sender send w))
     | Some (ShuttingDown send recv) \<Rightarrow>
         let st' = st\<lparr>as_live := (as_live st)(eid := None)\<rparr>;
             a = \<lparr>ea_recv = recv, ea_state = state, ea_tasks = tasks\<rparr>
         in if ch_queue (w_chans w recv) = []
            then map_option (Pair None) (em_recycle rst send a st' w)
            else Some (Some (a\<lparr>ea_state := state\<lparr>es_state := rst (es_state state)\<rparr>\<rparr>),
                       st'\<lparr>as_live := (as_live st')(eid \<mapsto> Live send)\<rparr>, w))"

definition tick :: "('s \<Rightarrow> 's) \<Rightarrow> ('id, 'g, 's, 'f) icmd \<Rightarrow> ('id, 'g, 's, 'f) actor_state
    \<Rightarrow> ('id, 'g, 's, 'f) world
    \<Rightarrow> (('id, 'g, 's, 'f) eactor option \<times> ('id, 'g, 's, 'f) actor_state
        \<times> ('id, 'g, 's, 'f) world) option" where
  "tick rst cmd st w = (case cmd of
     ShutdownMsg eid receiver \<Rightarrow> Some (None, tick_shutdown eid receiver st w)
   | ShutdownComplete state tasks \<Rightarrow> tick_complete rst state tasks st w)"

text \<open>Dropping the state drops all senders and receivers that it owns.\<close>

fun drop_handle :: "handle \<Rightarrow> ('id, 'g, 's, 'f) world \<Rightarrow> ('id, 'g, 's, 'f) world" where
  "drop_handle (Live c) w = drop_sender c w"
| "drop_handle (ShuttingDown c r) w = drop_recv r (drop_sender c w)"

fun drop_icmd :: "('id, 'g, 's, 'f) icmd \<Rightarrow> ('id, 'g, 's, 'f) world
    \<Rightarrow> ('id, 'g, 's, 'f) world" where
  "drop_icmd (ShutdownMsg _ c) w = drop_recv c w"
| "drop_icmd (ShutdownComplete _ _) w = w"

definition drop_state :: "'id list \<Rightarrow> ('id, 'g, 's, 'f) actor_state \<Rightarrow> ('id, 'g, 's, 'f) world
    \<Rightarrow> ('id, 'g, 's, 'f) world" where
  "drop_state ids st w =
     (let w1 = fold (\<lambda>eid. case as_live st eid of None \<Rightarrow> (\<lambda>w. w) | Some h \<Rightarrow> drop_handle h) ids w;
          w2 = fold (\<lambda>(c, a) w. drop_recv (ea_recv a) (drop_sender c w)) (as_pool st) w1
      in (fold drop_icmd (w_internal w2) w2)\<lparr>w_internal := [], w_internal_open := False\<rparr>)"

section \<open>The main actor\<close>

datatype ('id, 'f) mcmd = MSpawn 'id 'f | MShutdownAll

text \<open>
  The program counter of the main actor: in its loop, awaiting a closure in \<open>spawn_boxed\<close>,
  sending the shutdown commands to the remaining handles, joining the tasks, at the end, and
  after a panic.  The ids that the shutdown goes through are the keys of the hash map in the
  order of its iteration, which is not specified: it is chosen with the action.
\<close>

datatype ('id, 'g, 's, 'f) mpc =
    MLoop
  | MAwait "('id, 'g, 's, 'f) eactor option"
  | MShutdown "'id list" "'id list"
  | MJoin
  | MDone
  | MPanicked

record ('id, 'g, 's, 'f) config =
  c_inbox :: "('id, 'f) mcmd list"
  c_inbox_cap :: nat
  c_clients :: bool
  c_main :: "('id, 'g, 's, 'f) mpc"
  c_state :: "('id, 'g, 's, 'f) actor_state"
  c_world :: "('id, 'g, 's, 'f) world"
  c_tasks :: "nat \<rightharpoonup> ('id, 'g, 's, 'f) eproc"
  c_next :: nat

record em_options =
  pool_capacity :: nat
  inbox_size :: nat
  entity_inbox_size :: nat
  entity_response_inbox_size :: nat

definition em_options_default :: em_options where
  "em_options_default = \<lparr>pool_capacity = 10, inbox_size = 10, entity_inbox_size = 10,
     entity_response_inbox_size = 100\<rparr>"

text \<open>A channel without room is refused by tokio with a panic, so sizes are positive.\<close>

definition em_options_ok :: "em_options \<Rightarrow> bool" where
  "em_options_ok opts \<longleftrightarrow> 0 < inbox_size opts \<and> 0 < entity_inbox_size opts
     \<and> 0 < entity_response_inbox_size opts"

definition em_new :: "'g \<Rightarrow> em_options \<Rightarrow> ('id, 'g, 's, 'f) config" where
  "em_new g opts =
     \<lparr>c_inbox = [], c_inbox_cap = inbox_size opts, c_clients = True, c_main = MLoop,
      c_state = actor_state_new g (pool_capacity opts) (entity_inbox_size opts),
      c_world = \<lparr>w_chans = (\<lambda>_. \<lparr>ch_queue = [], ch_cap = 0, ch_senders = 0, ch_open = False\<rparr>),
                 w_free = 0, w_internal = [], w_internal_cap = entity_response_inbox_size opts,
                 w_internal_open = True, w_log = []\<rparr>,
      c_tasks = Map.empty, c_next = 0\<rparr>"

text \<open>\<open>JoinSet::spawn\<close> of the optional task that a call returned.\<close>

definition spawn_task :: "('id, 'g, 's, 'f) eactor option \<Rightarrow> ('id, 'g, 's, 'f) config
    \<Rightarrow> ('id, 'g, 's, 'f) config" where
  "spawn_task t s = (case t of
     None \<Rightarrow> s
   | Some a \<Rightarrow> s\<lparr>c_tasks := (c_tasks s)(c_next s \<mapsto> run_actor a), c_next := Suc (c_next s)\<rparr>)"

definition main_spawn :: "'s \<Rightarrow> ('s \<Rightarrow> 's) \<Rightarrow> 'id \<Rightarrow> 'f \<Rightarrow> ('id, 'g, 's, 'f) config
    \<Rightarrow> ('id, 'g, 's, 'f) config" where
  "main_spawn dflt rst eid f s =
     (let (awaits, task, st, w) = spawn_boxed dflt rst eid f (c_state s) (c_world s);
          s' = s\<lparr>c_state := st, c_world := w\<rparr>
      in if awaits then s'\<lparr>c_main := MAwait task\<rparr> else spawn_task task s')"

definition main_command :: "'s \<Rightarrow> ('s \<Rightarrow> 's) \<Rightarrow> 'id list \<Rightarrow> ('id, 'g, 's, 'f) config
    \<Rightarrow> ('id, 'g, 's, 'f) config option" where
  "main_command dflt rst ids s =
     (if c_main s \<noteq> MLoop then None
      else case c_inbox s of
        MSpawn eid f # cs \<Rightarrow> Some (main_spawn dflt rst eid f (s\<lparr>c_inbox := cs\<rparr>))
      | MShutdownAll # cs \<Rightarrow>
          if distinct ids \<and> set ids = dom (as_live (c_state s))
          then Some (s\<lparr>c_inbox := cs, c_main := MShutdown ids ids\<rparr>) else None
      | [] \<Rightarrow>
          if c_clients s \<or> \<not> (distinct ids \<and> set ids = dom (as_live (c_state s))) then None
          else Some (s\<lparr>c_world := drop_state ids (c_state s) (c_world s), c_main := MJoin\<rparr>))"

definition main_tick :: "('s \<Rightarrow> 's) \<Rightarrow> ('id, 'g, 's, 'f) config
    \<Rightarrow> ('id, 'g, 's, 'f) config option" where
  "main_tick rst s =
     (if c_main s \<noteq> MLoop then None
      else case w_internal (c_world s) of
        [] \<Rightarrow> None
      | m # ms \<Rightarrow>
          (case tick rst m (c_state s) ((c_world s)\<lparr>w_internal := ms\<rparr>) of
             None \<Rightarrow> Some (s\<lparr>c_main := MPanicked\<rparr>)
           | Some (task, st, w) \<Rightarrow> Some (spawn_task task (s\<lparr>c_state := st, c_world := w\<rparr>))))"

definition main_join :: "nat \<Rightarrow> ('id, 'g, 's, 'f) config \<Rightarrow> ('id, 'g, 's, 'f) config option" where
  "main_join t s = (case c_tasks s t of
     None \<Rightarrow> None
   | Some p \<Rightarrow>
       if (c_main s = MLoop \<or> c_main s = MJoin) \<and> p_pc p \<in> {EDone, EPanicked}
       then Some (s\<lparr>c_tasks := (c_tasks s)(t := None)\<rparr>) else None)"

text \<open>The other steps of the main actor: the end of an awaited closure, one send of
  \<open>shutdown\<close>, and the end of the last task.\<close>

definition main_proceed :: "('id, 'g, 's, 'f) config \<Rightarrow> ('id, 'g, 's, 'f) config option" where
  "main_proceed s = (case c_main s of
     MAwait task \<Rightarrow> Some (spawn_task task (s\<lparr>c_main := MLoop\<rparr>))
   | MShutdown ids (eid # rest) \<Rightarrow>
       let c = handle_send (the (as_live (c_state s) eid)) in
       (case send_state c (c_world s) of
          SendOk \<Rightarrow> Some (s\<lparr>c_world := push_cmd c EntityShutdown (c_world s),
                           c_main := MShutdown ids rest\<rparr>)
        | Full \<Rightarrow> None
        | Closed \<Rightarrow> Some (s\<lparr>c_main := MShutdown ids rest\<rparr>))
   | MShutdown ids [] \<Rightarrow>
       Some (s\<lparr>c_world := drop_state ids (c_state s) (c_world s), c_main := MJoin\<rparr>)
   | MJoin \<Rightarrow> if c_tasks s = Map.empty then Some (s\<lparr>c_main := MDone\<rparr>) else None
   | _ \<Rightarrow> None)"

section \<open>The system\<close>

text \<open>
  A client sends a command when there is room in the inbox of the main actor; after the last
  client is gone the inbox is closed.
\<close>

definition client_send :: "('id, 'f) mcmd \<Rightarrow> ('id, 'g, 's, 'f) config
    \<Rightarrow> ('id, 'g, 's, 'f) config option" where
  "client_send m s =
     (if c_clients s \<and> c_main s \<noteq> MDone \<and> c_main s \<noteq> MPanicked
         \<and> length (c_inbox s) < c_inbox_cap s
      then Some (s\<lparr>c_inbox := c_inbox s @ [m]\<rparr>) else None)"

datatype ('id, 's, 'f) action =
    ClientSend "('id, 'f) mcmd"
  | ClientsGone
  | MainCommand "'id list"
  | MainTick
  | MainJoin nat
  | MainProceed
  | Entity nat "'s echoice"

definition entity_action :: "nat \<Rightarrow> 's echoice \<Rightarrow> ('id, 'g, 's, 'f) config
    \<Rightarrow> ('id, 'g, 's, 'f) config option" where
  "entity_action t e s = (case c_tasks s t of
     None \<Rightarrow> None
   | Some p \<Rightarrow> map_option
       (\<lambda>(p', w). s\<lparr>c_tasks := (c_tasks s)(t \<mapsto> p'), c_world := w\<rparr>)
       (entity_step e p (c_world s)))"

fun em_act :: "'s \<Rightarrow> ('s \<Rightarrow> 's) \<Rightarrow> ('id, 's, 'f) action \<Rightarrow> ('id, 'g, 's, 'f) config
    \<Rightarrow> ('id, 'g, 's, 'f) config option" where
  "em_act dflt rst (ClientSend m) s = client_send m s"
| "em_act dflt rst ClientsGone s = Some (s\<lparr>c_clients := False\<rparr>)"
| "em_act dflt rst (MainCommand ids) s = main_command dflt rst ids s"
| "em_act dflt rst MainTick s = main_tick rst s"
| "em_act dflt rst (MainJoin t) s = main_join t s"
| "em_act dflt rst MainProceed s = main_proceed s"
| "em_act dflt rst (Entity t e) s = entity_action t e s"

text \<open>Runs of the system, and its reachable configurations.\<close>

fun em_run :: "'s \<Rightarrow> ('s \<Rightarrow> 's) \<Rightarrow> ('id, 's, 'f) action list \<Rightarrow> ('id, 'g, 's, 'f) config
    \<Rightarrow> ('id, 'g, 's, 'f) config option" where
  "em_run dflt rst [] s = Some s"
| "em_run dflt rst (a # as) s = Option.bind (em_act dflt rst a s) (em_run dflt rst as)"

inductive em_reach :: "'s \<Rightarrow> ('s \<Rightarrow> 's) \<Rightarrow> 'g \<Rightarrow> em_options \<Rightarrow> ('id, 'g, 's, 'f) config \<Rightarrow> bool"
  for dflt rst g opts where
  start: "em_reach dflt rst g opts (em_new g opts)"
| act: "em_reach dflt rst g opts s \<Longrightarrow> em_act dflt rst a s = Some s'
    \<Longrightarrow> em_reach dflt rst g opts s'"

end
