(* ===== verification/Entity_Inv.thy ===== *)
theory Entity_Inv
  imports Entity_Manager "HOL-Library.Sublist"
begin

text \<open>
  The invariant of the entity manager while it serves commands.  Per entity, \<open>phase_ok\<close> is the
  automaton of its life: it relates the handle in the map of the manager, the notifications for
  it in the internal channel and the task that runs its actor.  The other parts say that the
  inboxes of live and pooled actors are distinct channels with exactly one sender and that a
  pooled actor is paired with its own inbox, that the inbox holds exactly the accepted closures
  that are not yet started, and what the log contains.
\<close>

section \<open>The phases of an entity\<close>

definition imsg_id :: "('id, 'g, 's, 'f) icmd \<Rightarrow> 'id" where
  "imsg_id m = (case m of ShutdownMsg eid _ \<Rightarrow> eid | ShutdownComplete st _ \<Rightarrow> es_id st)"

definition internal_for :: "'id \<Rightarrow> ('id, 'g, 's, 'f) icmd list \<Rightarrow> ('id, 'g, 's, 'f) icmd list" where
  "internal_for eid = filter (\<lambda>m. imsg_id m = eid)"

definition active :: "('id, 'g, 's, 'f) eproc \<Rightarrow> bool" where
  "active p \<longleftrightarrow> p_pc p \<noteq> EDone \<and> p_pc p \<noteq> EPanicked"

definition entity_tasks :: "(nat \<rightharpoonup> ('id, 'g, 's, 'f) eproc) \<Rightarrow> 'id
    \<Rightarrow> (nat \<times> ('id, 'g, 's, 'f) eproc) set" where
  "entity_tasks ts eid = {(t, p). ts t = Some p \<and> active p \<and> p_id p = eid}"

definition owning :: "('id, 'g, 's, 'f) eproc \<Rightarrow> bool" where
  "owning p \<longleftrightarrow> p_pc p = AtSelect \<or> p_pc p = AtCheck \<or> p_pc p = AtRecycle \<and> p_tasks p = []"

definition released :: "('id, 'g, 's, 'f) eproc \<Rightarrow> bool" where
  "released p \<longleftrightarrow> (p_pc p = IdleShutdown \<or> p_pc p = AtComplete) \<and> p_tasks p = []"

inductive phase_ok :: "'id \<Rightarrow> bool \<Rightarrow> ('id, 'g, 's, 'f) icmd list
    \<Rightarrow> (nat \<times> ('id, 'g, 's, 'f) eproc) set \<Rightarrow> handle option \<Rightarrow> bool" for eid pan where
  absent: "\<not> pan \<Longrightarrow> phase_ok eid pan [] {} None"
| running: "\<not> pan \<Longrightarrow> owning p \<Longrightarrow> p_recv p = c \<Longrightarrow> phase_ok eid pan [] {(t, p)} (Some (Live c))"
| leaving: "\<not> pan \<Longrightarrow> released p \<Longrightarrow> phase_ok eid pan [ShutdownMsg eid c] {(t, p)} (Some (Live c))"
| left: "\<not> pan \<Longrightarrow> es_id st = eid
    \<Longrightarrow> phase_ok eid pan [ShutdownMsg eid c, ShutdownComplete st []] {} (Some (Live c))"
| closing: "\<not> pan \<Longrightarrow> released p \<Longrightarrow> phase_ok eid pan [] {(t, p)} (Some (ShuttingDown c c))"
| closed: "\<not> pan \<Longrightarrow> es_id st = eid
    \<Longrightarrow> phase_ok eid pan [ShutdownComplete st []] {} (Some (ShuttingDown c c))"
| crashed: "pan \<Longrightarrow> phase_ok eid pan [] {} (Some (Live c))"
| crashed_leaving: "pan \<Longrightarrow> phase_ok eid pan [ShutdownMsg eid c] {} (Some (Live c))"
| crashed_closing: "pan \<Longrightarrow> phase_ok eid pan [] {} (Some (ShuttingDown c c))"

inductive_cases phase_NoneE: "phase_ok eid pan q A None"
inductive_cases phase_taskE: "phase_ok eid pan q {x} h"
inductive_cases phase_msgE: "phase_ok eid pan (m # q) A h"
inductive_cases phase_ShuttingE: "phase_ok eid pan q A (Some (ShuttingDown c d))"

abbreviation has_panicked :: "('id, 'g, 's, 'f) world \<Rightarrow> 'id \<Rightarrow> bool" where
  "has_panicked w eid \<equiv> Panicked eid \<in> set (w_log w)"

definition phases_inv :: "('id, 'g, 's, 'f) config \<Rightarrow> bool" where
  "phases_inv s \<longleftrightarrow> (\<forall>eid. phase_ok eid (has_panicked (c_world s) eid)
     (internal_for eid (w_internal (c_world s))) (entity_tasks (c_tasks s) eid)
     (as_live (c_state s) eid))"

definition live_chan :: "'id \<Rightarrow> nat \<Rightarrow> bool \<Rightarrow> ('id, 'f) chan \<Rightarrow> bool" where
  "live_chan eid n pan ch \<longleftrightarrow> ch_senders ch = 1 \<and> ch_cap ch = n \<and> (ch_open ch \<or> pan)
     \<and> (\<forall>m \<in> set (ch_queue ch). \<exists>f. m = Spawn eid f)"

definition idle_chan :: "nat \<Rightarrow> ('id, 'f) chan \<Rightarrow> bool" where
  "idle_chan n ch \<longleftrightarrow> ch = \<lparr>ch_queue = [], ch_cap = n, ch_senders = 1, ch_open = True\<rparr>"

definition chans_inv :: "('id, 'g, 's, 'f) actor_state \<Rightarrow> ('id, 'g, 's, 'f) world \<Rightarrow> bool" where
  "chans_inv st w \<longleftrightarrow> 
     (\<forall>eid h. as_live st eid = Some h \<longrightarrow> handle_send h < w_free w
        \<and> live_chan eid (as_inbox_size st) (has_panicked w eid) (w_chans w (handle_send h)))
   \<and> (\<forall>eid eid' h h'. as_live st eid = Some h \<longrightarrow> as_live st eid' = Some h'
        \<longrightarrow> handle_send h = handle_send h' \<longrightarrow> eid = eid')"

definition pool_inv :: "('id, 'g, 's, 'f) actor_state \<Rightarrow> ('id, 'g, 's, 'f) world \<Rightarrow> bool" where
  "pool_inv st w \<longleftrightarrow> length (as_pool st) \<le> as_capacity st
   \<and> distinct (map fst (as_pool st))
   \<and> (\<forall>(c, a) \<in> set (as_pool st). ea_recv a = c \<and> ea_tasks a = [] \<and> c < w_free w
        \<and> idle_chan (as_inbox_size st) (w_chans w c)
        \<and> (\<forall>eid h. as_live st eid = Some h \<longrightarrow> handle_send h \<noteq> c))"

definition accepted_of :: "'id \<Rightarrow> ('id, 'g, 's, 'f) event list \<Rightarrow> 'f list" where
  "accepted_of eid l =
     concat (map (\<lambda>e. case e of Accepted i f \<Rightarrow> if i = eid then [f] else [] | _ \<Rightarrow> []) l)"

definition started_of :: "'id \<Rightarrow> ('id, 'g, 's, 'f) event list \<Rightarrow> 'f list" where
  "started_of eid l =
     concat (map (\<lambda>e. case e of Called i f (Active _) \<Rightarrow> if i = eid then [f] else [] | _ \<Rightarrow> []) l)"

definition cmd_f :: "('id, 'f) ecmd \<Rightarrow> 'f list" where
  "cmd_f m = (case m of Spawn _ f \<Rightarrow> [f] | EntityShutdown \<Rightarrow> [])"

definition pending_of :: "'id \<Rightarrow> ('id, 'g, 's, 'f) actor_state \<Rightarrow> ('id, 'g, 's, 'f) world
    \<Rightarrow> 'f list" where
  "pending_of eid st w = (case as_live st eid of
     None \<Rightarrow> []
   | Some h \<Rightarrow> concat (map cmd_f (ch_queue (w_chans w (handle_send h)))))"

definition fifo_inv :: "('id, 'g, 's, 'f) actor_state \<Rightarrow> ('id, 'g, 's, 'f) world \<Rightarrow> bool" where
  "fifo_inv st w \<longleftrightarrow> (\<forall>eid. prefix (started_of eid (w_log w)) (accepted_of eid (w_log w))
     \<and> (\<not> has_panicked w eid
        \<longrightarrow> accepted_of eid (w_log w) = started_of eid (w_log w) @ pending_of eid st w))"

definition log_ok :: "'g \<Rightarrow> ('id, 'g, 's, 'f) event \<Rightarrow> bool" where
  "log_ok g e = (case e of
     Called eid f (Active st) \<Rightarrow> es_id st = eid \<and> es_global st = g
   | TickError _ \<Rightarrow> False
   | OnShutdown st c \<Rightarrow> es_global st = g \<and> c = Idle
   | _ \<Rightarrow> True)"

definition dead_ok :: "('id, 'g, 's, 'f) event list \<Rightarrow> bool" where
  "dead_ok l \<longleftrightarrow> (\<forall>eid f. Called eid f Dead \<in> set l \<longrightarrow> Panicked eid \<in> set l)"

definition globals_inv :: "'g \<Rightarrow> ('id, 'g, 's, 'f) config \<Rightarrow> bool" where
  "globals_inv g s \<longleftrightarrow> as_state (c_state s) = g
   \<and> (\<forall>t p. c_tasks s t = Some p \<longrightarrow> t < c_next s \<and> es_global (p_state p) = g)
   \<and> (\<forall>st ts. ShutdownComplete st ts \<in> set (w_internal (c_world s)) \<longrightarrow> es_global st = g)
   \<and> w_internal_open (c_world s)
   \<and> (\<forall>e \<in> set (w_log (c_world s)). log_ok g e) \<and> dead_ok (w_log (c_world s))"

definition em_inv :: "'g \<Rightarrow> ('id, 'g, 's, 'f) config \<Rightarrow> bool" where
  "em_inv g s \<longleftrightarrow> phases_inv s \<and> chans_inv (c_state s) (c_world s)
     \<and> pool_inv (c_state s) (c_world s) \<and> fifo_inv (c_state s) (c_world s) \<and> globals_inv g s
     \<and> 0 < as_inbox_size (c_state s) \<and> 0 < w_internal_cap (c_world s)"

definition serving :: "('id, 'g, 's, 'f) config \<Rightarrow> bool" where
  "serving s \<longleftrightarrow> c_main s = MLoop \<or> c_main s = MAwait None"

lemma em_new_inv: "em_options_ok opts \<Longrightarrow> em_inv g (em_new g opts) \<and> serving (em_new g opts)"
  by (simp add: em_inv_def em_new_def phases_inv_def chans_inv_def pool_inv_def fifo_inv_def
      globals_inv_def actor_state_new_def em_options_ok_def serving_def internal_for_def
      entity_tasks_def phase_ok.absent accepted_of_def started_of_def pending_of_def dead_ok_def)

text \<open>Simplification of the updates of the world.\<close>

named_theorems em_simps \<open>fields after updates of the entity manager\<close>

lemma upd_chan_simps [em_simps]:
  "w_chans (upd_chan c h w) = (w_chans w)(c := h (w_chans w c))"
  "w_free (upd_chan c h w) = w_free w" "w_internal (upd_chan c h w) = w_internal w"
  "w_internal_cap (upd_chan c h w) = w_internal_cap w"
  "w_internal_open (upd_chan c h w) = w_internal_open w" "w_log (upd_chan c h w) = w_log w"
  by (simp_all add: upd_chan_def)

lemma log_event_simps [em_simps]:
  "w_chans (log_event e w) = w_chans w" "w_free (log_event e w) = w_free w"
  "w_internal (log_event e w) = w_internal w"
  "w_internal_cap (log_event e w) = w_internal_cap w"
  "w_internal_open (log_event e w) = w_internal_open w" "w_log (log_event e w) = w_log w @ [e]"
  by (simp_all add: log_event_def)

lemmas [em_simps] = push_cmd_def pop_cmd_def drop_sender_def drop_recv_def

lemma of_log_simps [em_simps]:
  "accepted_of eid (l @ [e]) = accepted_of eid l @
     (case e of Accepted i f \<Rightarrow> if i = eid then [f] else [] | _ \<Rightarrow> [])"
  "started_of eid (l @ [e]) = started_of eid l @
     (case e of Called i f (Active _) \<Rightarrow> if i = eid then [f] else [] | _ \<Rightarrow> [])"
  by (simp_all add: accepted_of_def started_of_def)

lemma dead_ok_snoc [em_simps]:
  "dead_ok (l @ [e]) \<longleftrightarrow> (\<forall>eid f. Called eid f Dead \<in> set (l @ [e]) \<longrightarrow> Panicked eid \<in> set (l @ [e]))"
  by (simp add: dead_ok_def)

lemma goto_simps [simp]: "p_pc (goto l p) = l" "p_actor (goto l p) = p_actor p"
  by (simp_all add: goto_def)

lemma set_tasks_simps [simp]: "p_pc (set_tasks ts p) = p_pc p" "p_tasks (set_tasks ts p) = ts"
  "p_recv (set_tasks ts p) = p_recv p" "p_state (set_tasks ts p) = p_state p"
  by (simp_all add: set_tasks_def)

text \<open>A step of a task changes the tasks of its own entity only.\<close>

lemma entity_tasks_upd:
  assumes "ts t = Some p" "p_id p' = p_id p" "entity_tasks ts (p_id p) \<subseteq> {(t, p)}"
  shows "entity_tasks (ts(t \<mapsto> p')) eid =
    (if eid = p_id p then if active p' then {(t, p')} else {} else entity_tasks ts eid)"
proof -
  have only: "t' = t" if "ts t' = Some q" "active q" "p_id q = p_id p" for t' q
    using assms(3) that by (auto simp: entity_tasks_def)
  show ?thesis
  proof (cases "eid = p_id p")
    case True
    then show ?thesis using assms(2) by (auto simp: entity_tasks_def dest: only split: if_splits)
  next
    case False
    then show ?thesis using assms(1,2) by (auto simp: entity_tasks_def split: if_splits)
  qed
qed

lemma phase_task:
  assumes "phases_inv s" "c_tasks s t = Some p" "active p"
  shows "entity_tasks (c_tasks s) (p_id p) = {(t, p)}"
    "phase_ok (p_id p) (has_panicked (c_world s) (p_id p))
       (internal_for (p_id p) (w_internal (c_world s))) {(t, p)} (as_live (c_state s) (p_id p))"
proof -
  have ph: "phase_ok (p_id p) (has_panicked (c_world s) (p_id p))
       (internal_for (p_id p) (w_internal (c_world s))) (entity_tasks (c_tasks s) (p_id p))
       (as_live (c_state s) (p_id p))"
    using assms(1) by (simp add: phases_inv_def)
  have "(t, p) \<in> entity_tasks (c_tasks s) (p_id p)"
    using assms(2,3) by (simp add: entity_tasks_def)
  with ph show "entity_tasks (c_tasks s) (p_id p) = {(t, p)}"
    by (auto elim!: phase_ok.cases)
  with ph show "phase_ok (p_id p) (has_panicked (c_world s) (p_id p))
       (internal_for (p_id p) (w_internal (c_world s))) {(t, p)} (as_live (c_state s) (p_id p))"
    by simp
qed

lemma phase_update:
  assumes "phases_inv s" "c_tasks s t = Some p" "active p" "p_id p' = p_id p"
    and other: "\<And>eid. eid \<noteq> p_id p \<Longrightarrow> has_panicked w eid = has_panicked (c_world s) eid
      \<and> internal_for eid (w_internal w) = internal_for eid (w_internal (c_world s))"
    and own: "phase_ok (p_id p) (has_panicked w (p_id p)) (internal_for (p_id p) (w_internal w))
      (if active p' then {(t, p')} else {}) (as_live (c_state s) (p_id p))"
  shows "phases_inv (s\<lparr>c_tasks := (c_tasks s)(t \<mapsto> p'), c_world := w\<rparr>)"
  unfolding phases_inv_def
proof
  fix eid
  note upd = entity_tasks_upd [of "c_tasks s" t p p' eid, OF assms(2,4)]
  show "phase_ok eid (has_panicked (c_world (s\<lparr>c_tasks := (c_tasks s)(t \<mapsto> p'), c_world := w\<rparr>)) eid)
     (internal_for eid (w_internal (c_world (s\<lparr>c_tasks := (c_tasks s)(t \<mapsto> p'), c_world := w\<rparr>))))
     (entity_tasks (c_tasks (s\<lparr>c_tasks := (c_tasks s)(t \<mapsto> p'), c_world := w\<rparr>)) eid)
     (as_live (c_state (s\<lparr>c_tasks := (c_tasks s)(t \<mapsto> p'), c_world := w\<rparr>)) eid)"
  proof (cases "eid = p_id p")
    case True
    then show ?thesis using own upd phase_task(1) [OF assms(1-3)] by simp
  next
    case False
    then show ?thesis using assms(1) other [OF False] upd phase_task(1) [OF assms(1-3)]
      by (simp add: phases_inv_def)
  qed
qed

lemma em_invD:
  assumes "em_inv g s"
  shows "phases_inv s" "chans_inv (c_state s) (c_world s)" "pool_inv (c_state s) (c_world s)"
    "fifo_inv (c_state s) (c_world s)" "globals_inv g s" "0 < as_inbox_size (c_state s)"
    "0 < w_internal_cap (c_world s)"
  using assms by (simp_all add: em_inv_def)

lemma chans_invD:
  assumes "chans_inv st w" "as_live st eid = Some h"
  shows "handle_send h < w_free w"
    "live_chan eid (as_inbox_size st) (has_panicked w eid) (w_chans w (handle_send h))"
  using assms by (auto simp: chans_inv_def)

lemma chans_inv_inj:
  "chans_inv st w \<Longrightarrow> as_live st eid = Some h \<Longrightarrow> as_live st eid' = Some h'
    \<Longrightarrow> handle_send h = handle_send h' \<Longrightarrow> eid = eid'"
  unfolding chans_inv_def by blast

text \<open>The commands of an entity only change its own channel.\<close>

lemma chans_inv_upd:
  assumes inv: "chans_inv st w" and live: "as_live st eid = Some h"
    and ch: "w_chans w' = (w_chans w)(handle_send h := ch)" "w_free w' = w_free w"
    and pan: "\<And>i. has_panicked w i \<Longrightarrow> has_panicked w' i"
    and ok: "live_chan eid (as_inbox_size st) (has_panicked w' eid) ch"
  shows "chans_inv st w'"
proof -
  have mono: "live_chan i n (has_panicked w' i) c" if "live_chan i n (has_panicked w i) c" for i n c
    using that pan [of i] by (auto simp: live_chan_def)
  have "live_chan i (as_inbox_size st) (has_panicked w' i) (w_chans w' (handle_send h'))"
    if "as_live st i = Some h'" for i h'
  proof (cases "handle_send h' = handle_send h")
    case True
    then have "i = eid" using chans_inv_inj [OF inv that live] by blast
    then show ?thesis using True ok ch(1) by simp
  next
    case False
    then show ?thesis using chans_invD(2) [OF inv that] ch(1) mono by simp
  qed
  then show ?thesis using inv ch(2) unfolding chans_inv_def by metis
qed

lemma pool_inv_upd:
  assumes "pool_inv st w" "as_live st eid = Some h"
    "\<And>c. c \<noteq> handle_send h \<Longrightarrow> w_chans w' c = w_chans w c" "w_free w' = w_free w"
  shows "pool_inv st w'"
  using assms unfolding pool_inv_def by fastforce

lemma fifo_inv_upd:
  assumes inv: "fifo_inv st w" "chans_inv st w" and live: "as_live st eid = Some h"
    and ch: "\<And>c. c \<noteq> handle_send h \<Longrightarrow> w_chans w' c = w_chans w c"
    and log: "w_log w' = w_log w @ [e]" and pan: "\<And>i. i \<noteq> eid \<Longrightarrow> e \<noteq> Panicked i"
    and other: "\<And>i. i \<noteq> eid \<Longrightarrow> accepted_of i [e] = [] \<and> started_of i [e] = []"
    and own: "\<not> has_panicked w' eid
        \<Longrightarrow> pending_of eid st w @ accepted_of eid [e] = started_of eid [e] @ pending_of eid st w'"
      "has_panicked w' eid \<Longrightarrow> started_of eid [e] = []"
  shows "fifo_inv st w'"
  unfolding fifo_inv_def
proof
  fix i
  have split: "accepted_of i (w_log w') = accepted_of i (w_log w) @ accepted_of i [e]"
    "started_of i (w_log w') = started_of i (w_log w) @ started_of i [e]"
    by (simp_all add: log accepted_of_def started_of_def)
  have old: "prefix (started_of i (w_log w)) (accepted_of i (w_log w))"
    "\<not> has_panicked w' i \<Longrightarrow> accepted_of i (w_log w) = started_of i (w_log w) @ pending_of i st w"
    using inv(1) by (auto simp: fifo_inv_def log)
  show "prefix (started_of i (w_log w')) (accepted_of i (w_log w')) \<and> (\<not> has_panicked w' i
      \<longrightarrow> accepted_of i (w_log w') = started_of i (w_log w') @ pending_of i st w')"
  proof (cases "i = eid")
    case True
    then show ?thesis using split old own by (cases "has_panicked w' eid") auto
  next
    case False
    have "pending_of i st w' = pending_of i st w"
    proof (cases "as_live st i")
      case (Some h')
      then have "handle_send h' \<noteq> handle_send h"
        using chans_inv_inj [OF inv(2) Some live] False by blast
      then show ?thesis using Some ch by (simp add: pending_of_def)
    qed (simp add: pending_of_def)
    then show ?thesis using split old other [OF False] by simp
  qed
qed

text \<open>Receiving a command.\<close>

lemma entity_recv_inv:
  assumes inv: "em_inv g s" and t: "c_tasks s t = Some p"
    and step: "entity_recv p (c_world s) = Some (p', w)"
  shows "em_inv g (s\<lparr>c_tasks := (c_tasks s)(t \<mapsto> p'), c_world := w\<rparr>)"
proof -
  note I = em_invD [OF inv]
  have pc: "p_pc p = AtSelect" using step by (auto simp: entity_recv_def Let_def split: if_splits)
  then have act: "active p" by (simp add: active_def)
  have ph: "as_live (c_state s) (p_id p) = Some (Live (p_recv p))"
    "internal_for (p_id p) (w_internal (c_world s)) = []" "\<not> has_panicked (c_world s) (p_id p)"
    using phase_task(2) [OF I(1) t act] pc
    by (auto elim!: phase_taskE simp: released_def)
  note ch = chans_invD [OF I(2) ph(1), simplified]
  obtain f ms where q: "ch_queue (w_chans (c_world s) (p_recv p)) = Spawn (p_id p) f # ms"
    and p': "p' = goto AtCheck (set_tasks (p_tasks p @ [f]) p)"
    and w: "w = log_event (Called (p_id p) f (Active (p_state p))) (pop_cmd (p_recv p) (c_world s))"
    using step pc ch by (cases "ch_queue (w_chans (c_world s) (p_recv p))")
      (auto simp: entity_recv_def Let_def live_chan_def split: ecmd.splits if_splits)
  have "phases_inv (s\<lparr>c_tasks := (c_tasks s)(t \<mapsto> p'), c_world := w\<rparr>)"
    using p' w by (intro phase_update [OF I(1) t act])
      (auto simp: em_simps active_def ph owning_def intro!: phase_ok.running)
  moreover have "chans_inv (c_state s) w"
    by (rule chans_inv_upd [OF I(2) ph(1)]) (use ch q in \<open>auto simp: w em_simps live_chan_def\<close>)
  moreover have "pool_inv (c_state s) w"
    by (rule pool_inv_upd [OF I(3) ph(1)]) (auto simp: w em_simps)
  moreover have "fifo_inv (c_state s) w"
    by (rule fifo_inv_upd [OF I(4,2) ph(1), where e = "Called (p_id p) f (Active (p_state p))"])
      (auto simp: w em_simps accepted_of_def started_of_def pending_of_def ph q cmd_f_def)
  moreover have "globals_inv g (s\<lparr>c_tasks := (c_tasks s)(t \<mapsto> p'), c_world := w\<rparr>)"
    using I(5) t p' by (auto simp: globals_inv_def w em_simps log_ok_def dead_ok_def)
  ultimately show ?thesis using I(6,7) by (simp add: em_inv_def w em_simps)
qed

text \<open>Steps that leave the channels alone.\<close>

lemma silent_step_inv:
  assumes inv: "em_inv g s" and t: "c_tasks s t = Some p" and act: "active p"
    and p': "p_id p' = p_id p" "es_global (p_state p') = es_global (p_state p)" "p_recv p' = p_recv p"
      "active p'" "owning p \<Longrightarrow> owning p'" "released p \<Longrightarrow> released p'"
  shows "em_inv g (s\<lparr>c_tasks := (c_tasks s)(t \<mapsto> p')\<rparr>)"
proof -
  note I = em_invD [OF inv]
  have "phases_inv (s\<lparr>c_tasks := (c_tasks s)(t \<mapsto> p'), c_world := c_world s\<rparr>)"
    by (rule phase_update [OF I(1) t act p'(1)])
      (use phase_task(2) [OF I(1) t act] p'(3-) in
        \<open>auto elim!: phase_taskE intro: phase_ok.intros\<close>)
  moreover have "globals_inv g (s\<lparr>c_tasks := (c_tasks s)(t \<mapsto> p')\<rparr>)"
    using I(5) t p'(2) by (auto simp: globals_inv_def)
  ultimately show ?thesis using I by (simp add: em_inv_def)
qed

lemma entity_task_done_inv:
  assumes "em_inv g s" "c_tasks s t = Some p" "entity_task_done i p (c_world s) = Some (p', w)"
  shows "em_inv g (s\<lparr>c_tasks := (c_tasks s)(t \<mapsto> p'), c_world := w\<rparr>)"
proof -
  have act: "active p" and p: "p_pc p = AtSelect \<or> p_pc p = SoftWait"
    using assms(3) by (auto simp: entity_task_done_def Let_def active_def split: if_splits)
  have "owning p \<or> released p"
    using phase_task(2) [OF em_invD(1) [OF assms(1)] assms(2) act] by (auto elim!: phase_taskE)
  with p have "p_pc p = AtSelect" by (auto simp: owning_def released_def)
  then have "w = c_world s" "p' = goto AtCheck (set_tasks (take i (p_tasks p) @ drop (Suc i) (p_tasks p)) p)"
    using assms(3) by (auto simp: entity_task_done_def Let_def split: if_splits)
  with \<open>p_pc p = AtSelect\<close> show ?thesis
    by (auto intro!: silent_step_inv [OF assms(1,2) act] simp: active_def owning_def released_def)
qed

lemma entity_touch_inv:
  assumes "em_inv g s" "c_tasks s t = Some p" "entity_touch x p (c_world s) = Some (p', w)"
  shows "em_inv g (s\<lparr>c_tasks := (c_tasks s)(t \<mapsto> p'), c_world := w\<rparr>)"
proof -
  have "active p" "w = c_world s"
    and "p' = p\<lparr>p_actor := (p_actor p)\<lparr>ea_state := (p_state p)\<lparr>es_state := x\<rparr>\<rparr>\<rparr>"
    using assms(3) by (auto simp: entity_touch_def in_user_code_def active_def split: if_splits)
  then show ?thesis
    by (auto intro!: silent_step_inv [OF assms(1,2)] simp: active_def owning_def released_def)
qed

text \<open>The notifications of an idle actor.\<close>

lemma internal_for_snoc:
  "internal_for i (ms @ [m]) = internal_for i ms @ (if imsg_id m = i then [m] else [])"
  by (simp add: internal_for_def)

lemma internal_send_open:
  "w_internal_open w \<Longrightarrow> internal_send m w = Some w'
    \<Longrightarrow> w' = w\<lparr>w_internal := w_internal w @ [m]\<rparr>"
  by (auto simp: internal_send_def split: if_splits)

text \<open>Steps that keep the channels and the accepted and started closures.\<close>

lemma quiet_world_inv:
  assumes "chans_inv st w" "pool_inv st w" "fifo_inv st w"
    and "w_chans w' = w_chans w" "w_free w' = w_free w"
    and "\<And>i. has_panicked w' i = has_panicked w i"
    and "\<And>i. accepted_of i (w_log w') = accepted_of i (w_log w)"
    and "\<And>i. started_of i (w_log w') = started_of i (w_log w)"
  shows "chans_inv st w'" "pool_inv st w'" "fifo_inv st w'"
proof -
  have "pending_of i st w' = pending_of i st w" for i
    by (simp add: pending_of_def assms(4) split: option.split)
  then show "chans_inv st w'" "pool_inv st w'" "fifo_inv st w'"
    using assms by (simp_all add: chans_inv_def pool_inv_def fifo_inv_def)
qed

lemma entity_recycle_inv:
  assumes inv: "em_inv g s" and t: "c_tasks s t = Some p" and pc: "p_pc p = AtRecycle"
    and step: "entity_proceed p (c_world s) = Some (p', w)"
  shows "em_inv g (s\<lparr>c_tasks := (c_tasks s)(t \<mapsto> p'), c_world := w\<rparr>)"
proof -
  note I = em_invD [OF inv]
  have act: "active p" using pc by (simp add: active_def)
  have ph: "as_live (c_state s) (p_id p) = Some (Live (p_recv p))" "p_tasks p = []"
    "internal_for (p_id p) (w_internal (c_world s)) = []" "\<not> has_panicked (c_world s) (p_id p)"
    using phase_task(2) [OF I(1) t act] pc
    by (auto elim!: phase_taskE simp: released_def owning_def)
  let ?m = "ShutdownMsg (p_id p) (p_recv p)"
  have w: "w = log_event (OnShutdown (p_state p) Idle)
      ((c_world s)\<lparr>w_internal := w_internal (c_world s) @ [?m]\<rparr>)" and p': "p' = goto IdleShutdown p"
    using step pc ph(2) I(5) internal_send_open [of "c_world s" ?m]
    by (auto simp: entity_proceed_def globals_inv_def)
  have "phases_inv (s\<lparr>c_tasks := (c_tasks s)(t \<mapsto> p'), c_world := w\<rparr>)"
    using p' w ph(2) by (intro phase_update [OF I(1) t act])
      (auto simp: em_simps active_def ph internal_for_snoc imsg_id_def released_def
        intro!: phase_ok.leaving)
  moreover have "chans_inv (c_state s) w" "pool_inv (c_state s) w" "fifo_inv (c_state s) w"
    by (rule quiet_world_inv [OF I(2-4)]; simp add: w em_simps)+
  moreover have "globals_inv g (s\<lparr>c_tasks := (c_tasks s)(t \<mapsto> p'), c_world := w\<rparr>)"
    using I(5) t p' by (auto simp: globals_inv_def w em_simps log_ok_def dead_ok_def)
  ultimately show ?thesis using I(6,7) by (simp add: em_inv_def w em_simps)
qed

lemma entity_complete_inv:
  assumes inv: "em_inv g s" and t: "c_tasks s t = Some p" and pc: "p_pc p = AtComplete"
    and step: "entity_proceed p (c_world s) = Some (p', w)"
  shows "em_inv g (s\<lparr>c_tasks := (c_tasks s)(t \<mapsto> p'), c_world := w\<rparr>)"
proof -
  note I = em_invD [OF inv]
  have act: "active p" using pc by (simp add: active_def)
  note ph = phase_task(2) [OF I(1) t act]
  have ts: "p_tasks p = []" using ph pc by (auto elim!: phase_taskE simp: released_def owning_def)
  let ?m = "ShutdownComplete (p_state p) []"
  have w: "w = (c_world s)\<lparr>w_internal := w_internal (c_world s) @ [?m]\<rparr>" and p': "p' = goto EDone p"
    using step pc ts I(5) internal_send_open [of "c_world s" ?m]
    by (auto simp: entity_proceed_def globals_inv_def)
  have "phases_inv (s\<lparr>c_tasks := (c_tasks s)(t \<mapsto> p'), c_world := w\<rparr>)"
    using p' w ph pc by (intro phase_update [OF I(1) t act])
      (auto simp: em_simps active_def internal_for_snoc imsg_id_def owning_def
        elim!: phase_taskE intro!: phase_ok.left phase_ok.closed)
  moreover have "chans_inv (c_state s) w" "pool_inv (c_state s) w" "fifo_inv (c_state s) w"
    by (rule quiet_world_inv [OF I(2-4)]; simp add: w em_simps)+
  moreover have "globals_inv g (s\<lparr>c_tasks := (c_tasks s)(t \<mapsto> p'), c_world := w\<rparr>)"
    using I(5) t p' by (auto simp: globals_inv_def w em_simps)
  ultimately show ?thesis using I(6,7) by (simp add: em_inv_def w em_simps)
qed

lemma entity_proceed_inv:
  assumes inv: "em_inv g s" and t: "c_tasks s t = Some p"
    and step: "entity_proceed p (c_world s) = Some (p', w)"
  shows "em_inv g (s\<lparr>c_tasks := (c_tasks s)(t \<mapsto> p'), c_world := w\<rparr>)"
proof -
  have act: "active p" using step by (auto simp: entity_proceed_def active_def)
  have "owning p \<or> released p"
    using phase_task(2) [OF em_invD(1) [OF inv] t act] by (auto elim!: phase_taskE)
  then consider "p_pc p = AtCheck" | "p_pc p = AtRecycle" | "p_pc p = IdleShutdown"
    | "p_pc p = AtComplete"
    using step by (auto simp: owning_def released_def entity_proceed_def)
  then show ?thesis
  proof cases
    case 1
    then have "w = c_world s" "p' = goto AtSelect p \<or> p_tasks p = [] \<and> p' = goto AtRecycle p"
      using step by (auto simp: entity_proceed_def split: if_splits)
    then show ?thesis using 1
      by (auto intro!: silent_step_inv [OF inv t act] simp: active_def owning_def released_def)
  next
    case 2
    then show ?thesis by (rule entity_recycle_inv [OF inv t _ step])
  next
    case 3
    then have "w = c_world s" "p' = goto AtComplete p" using step by (auto simp: entity_proceed_def)
    then show ?thesis using 3
      by (auto intro!: silent_step_inv [OF inv t act] simp: active_def owning_def released_def)
  next
    case 4
    then show ?thesis by (rule entity_complete_inv [OF inv t _ step])
  qed
qed

text \<open>A panic of user code ends the entity for good.\<close>

lemma entity_panic_inv:
  assumes inv: "em_inv g s" and t: "c_tasks s t = Some p"
    and step: "entity_panic p (c_world s) = Some (p', w)"
  shows "em_inv g (s\<lparr>c_tasks := (c_tasks s)(t \<mapsto> p'), c_world := w\<rparr>)"
proof -
  note I = em_invD [OF inv]
  have act: "active p" and p': "p' = goto EPanicked p" and w: "w = log_event (Panicked (p_id p))
      (if p_pc p = IdleShutdown then c_world s else drop_recv (p_recv p) (c_world s))"
    using step by (auto simp: entity_panic_def active_def in_user_code_def split: if_splits)
  note ph = phase_task(2) [OF I(1) t act]
  obtain h where live: "as_live (c_state s) (p_id p) = Some h"
    and own: "p_pc p \<noteq> IdleShutdown \<Longrightarrow> handle_send h = p_recv p"
    using ph step by (auto elim!: phase_taskE simp: released_def entity_panic_def in_user_code_def
        split: if_splits)
  note ch = chans_invD [OF I(2) live]
  have "phases_inv (s\<lparr>c_tasks := (c_tasks s)(t \<mapsto> p'), c_world := w\<rparr>)"
    using p' w ph by (intro phase_update [OF I(1) t act])
      (auto simp: em_simps active_def elim!: phase_taskE
        intro!: phase_ok.crashed phase_ok.crashed_leaving phase_ok.crashed_closing)
  moreover have "chans_inv (c_state s) w"
    using ch own
    by (cases "p_pc p = IdleShutdown"; intro chans_inv_upd [OF I(2) live])
      (auto simp: w em_simps live_chan_def)
  moreover have "pool_inv (c_state s) w"
    using own by (intro pool_inv_upd [OF I(3) live]) (auto simp: w em_simps)
  moreover have "fifo_inv (c_state s) w"
    using own by (intro fifo_inv_upd [OF I(4,2) live, where e = "Panicked (p_id p)"])
      (auto simp: w em_simps accepted_of_def started_of_def)
  moreover have "globals_inv g (s\<lparr>c_tasks := (c_tasks s)(t \<mapsto> p'), c_world := w\<rparr>)"
    using I(5) t p' by (auto simp: globals_inv_def w em_simps log_ok_def dead_ok_def)
  ultimately show ?thesis using I(6,7) by (simp add: em_inv_def w em_simps)
qed

lemma entity_step_inv:
  assumes "em_inv g s" "c_tasks s t = Some p" "entity_step e p (c_world s) = Some (p', w)"
  shows "em_inv g (s\<lparr>c_tasks := (c_tasks s)(t \<mapsto> p'), c_world := w\<rparr>)"
  using assms(3)
  by (cases e) (auto intro: entity_recv_inv [OF assms(1,2)] entity_task_done_inv [OF assms(1,2)]
      entity_touch_inv [OF assms(1,2)] entity_proceed_inv [OF assms(1,2)]
      entity_panic_inv [OF assms(1,2)])

text \<open>The main actor hands a command to an entity.\<close>

lemma accept_inv:
  assumes inv: "em_inv g s" and live: "as_live (c_state s) eid = Some h"
    and room: "send_state (handle_send h) (c_world s) = SendOk"
  shows "em_inv g (s\<lparr>c_world := log_event (Accepted eid f)
    (push_cmd (handle_send h) (Spawn eid f) (c_world s))\<rparr>)" (is "em_inv g (s\<lparr>c_world := ?w\<rparr>)")
proof -
  note I = em_invD [OF inv]
  note ch = chans_invD [OF I(2) live]
  have "chans_inv (c_state s) ?w"
    by (rule chans_inv_upd [OF I(2) live, where ch = "(w_chans (c_world s) (handle_send h))
        \<lparr>ch_queue := ch_queue (w_chans (c_world s) (handle_send h)) @ [Spawn eid f]\<rparr>"])
      (use ch in \<open>auto simp: em_simps live_chan_def\<close>)
  moreover have "pool_inv (c_state s) ?w"
    by (rule pool_inv_upd [OF I(3) live]) (auto simp: em_simps)
  moreover have "fifo_inv (c_state s) ?w"
    by (rule fifo_inv_upd [OF I(4,2) live, where e = "Accepted eid f"])
      (auto simp: em_simps accepted_of_def started_of_def pending_of_def live cmd_f_def)
  ultimately show ?thesis using I
    by (auto simp: em_inv_def em_simps phases_inv_def globals_inv_def log_ok_def dead_ok_def)
qed

lemma refuse_inv:
  assumes inv: "em_inv g s" and arg: "r = Busy \<or> r = Dead \<and> has_panicked (c_world s) eid"
  shows "em_inv g (s\<lparr>c_world := log_event (Called eid f r) (c_world s)\<rparr>)"
    (is "em_inv g (s\<lparr>c_world := ?w\<rparr>)")
proof -
  note I = em_invD [OF inv]
  have "chans_inv (c_state s) ?w" "pool_inv (c_state s) ?w" "fifo_inv (c_state s) ?w"
    by (rule quiet_world_inv [OF I(2-4)]; use arg in \<open>auto simp: em_simps\<close>)+
  then show ?thesis using I arg
    by (auto simp: em_inv_def em_simps phases_inv_def globals_inv_def log_ok_def dead_ok_def)
qed

text \<open>Starting an actor for an entity without a task.\<close>

lemma start_phases:
  assumes inv: "phases_inv s" and fresh: "c_tasks s (c_next s) = None"
    and idle: "entity_tasks (c_tasks s) eid = {}" "internal_for eid (w_internal w) = []"
    and own: "as_live st eid = Some (Live (ea_recv a))" "es_id (ea_state a) = eid"
    and other: "\<And>i. i \<noteq> eid \<Longrightarrow> as_live st i = as_live (c_state s) i
      \<and> internal_for i (w_internal w) = internal_for i (w_internal (c_world s))"
    and log: "w_log w = w_log (c_world s)" "\<not> has_panicked w eid"
  shows "phases_inv (spawn_task (Some a) (s\<lparr>c_state := st, c_world := w\<rparr>))"
  unfolding phases_inv_def
proof
  fix i
  have none: "p_id q \<noteq> eid" if "c_tasks s t = Some q" "active q" for t q
    using idle(1) that by (auto simp: entity_tasks_def)
  have "active (run_actor a)" "p_id (run_actor a) = eid"
    by (simp_all add: run_actor_def active_def own(2))
  then have upd: "entity_tasks ((c_tasks s)(c_next s \<mapsto> run_actor a)) i =
      (if i = eid then {(c_next s, run_actor a)} else entity_tasks (c_tasks s) i)"
    using fresh by (auto simp: entity_tasks_def dest: none split: if_splits)
  show "phase_ok i (has_panicked (c_world (spawn_task (Some a) (s\<lparr>c_state := st, c_world := w\<rparr>))) i)
     (internal_for i (w_internal (c_world (spawn_task (Some a) (s\<lparr>c_state := st, c_world := w\<rparr>)))))
     (entity_tasks (c_tasks (spawn_task (Some a) (s\<lparr>c_state := st, c_world := w\<rparr>))) i)
     (as_live (c_state (spawn_task (Some a) (s\<lparr>c_state := st, c_world := w\<rparr>))) i)"
  proof (cases "i = eid")
    case True
    then show ?thesis using idle(2) own upd log(2)
      by (auto simp: spawn_task_def run_actor_def owning_def intro!: phase_ok.running)
  next
    case False
    then show ?thesis using inv other [OF False] upd log(1)
      by (simp add: phases_inv_def spawn_task_def)
  qed
qed

lemma absent_idle:
  assumes "phases_inv s" "as_live (c_state s) eid = None"
  shows "entity_tasks (c_tasks s) eid = {}" "internal_for eid (w_internal (c_world s)) = []"
    "\<not> has_panicked (c_world s) eid"
  using assms(1) [unfolded phases_inv_def, rule_format, of eid] assms(2)
  by (auto elim: phase_NoneE)

lemma fresh_task: "globals_inv g s \<Longrightarrow> c_tasks s (c_next s) = None"
  by (cases "c_tasks s (c_next s)") (auto simp: globals_inv_def)

lemma pool_take_inv:
  assumes inv: "em_inv g s" and none: "as_live (c_state s) eid = None"
    and pool: "as_pool (c_state s) = xs @ [(c, a)]"
    and st: "st = (c_state s)\<lparr>as_pool := xs, as_live := (as_live (c_state s))(eid \<mapsto> Live c)\<rparr>"
    and a': "a' = a\<lparr>ea_state := \<lparr>es_id = eid, es_global = g, es_state = x\<rparr>\<rparr>"
  shows "em_inv g (spawn_task (Some a') (s\<lparr>c_state := st, c_world := c_world s\<rparr>))"
    and "send_state c (c_world s) = SendOk"
proof -
  note I = em_invD [OF inv]
  have ca: "ea_recv a = c" "c < w_free (c_world s)"
      "idle_chan (as_inbox_size (c_state s)) (w_chans (c_world s) c)"
    and free: "\<And>i h. as_live (c_state s) i = Some h \<Longrightarrow> handle_send h \<noteq> c"
    and xs: "c \<notin> fst ` set xs"
    using I(3) by (auto simp: pool_inv_def pool)
  have "phases_inv (spawn_task (Some a') (s\<lparr>c_state := st, c_world := c_world s\<rparr>))"
    by (rule start_phases [OF I(1) fresh_task [OF I(5)] absent_idle(1,2) [OF I(1) none]])
      (simp_all add: st a' ca absent_idle(3) [OF I(1) none])
  moreover have "chans_inv st (c_world s)"
    using I(2) ca free unfolding chans_inv_def st
    by (auto simp: live_chan_def idle_chan_def split: if_splits dest: sym)
  moreover have "pool_inv st (c_world s)"
    using I(3) xs by (force simp: pool_inv_def st pool)
  moreover have "fifo_inv st (c_world s)"
    using I(4) ca(3) none by (auto simp: fifo_inv_def pending_of_def st idle_chan_def)
  moreover have "globals_inv g (spawn_task (Some a') (s\<lparr>c_state := st, c_world := c_world s\<rparr>))"
    using I(5) by (auto simp: globals_inv_def spawn_task_def st a' run_actor_def less_Suc_eq
        split: if_splits)
  ultimately show "em_inv g (spawn_task (Some a') (s\<lparr>c_state := st, c_world := c_world s\<rparr>))"
    using I(6,7) by (simp add: em_inv_def spawn_task_def st)
  show "send_state c (c_world s) = SendOk"
    using ca(3) I(6) by (simp add: send_state_def idle_chan_def)
qed

lemma create_inv:
  assumes inv: "em_inv g s" and none: "as_live (c_state s) eid = None"
    and c: "mpsc_channel (as_inbox_size (c_state s)) (c_world s) = (c, w)"
    and st: "st = (c_state s)\<lparr>as_live := (as_live (c_state s))(eid \<mapsto> Live c)\<rparr>"
    and a: "ea_recv a = c" "es_id (ea_state a) = eid" "es_global (ea_state a) = g"
  shows "em_inv g (spawn_task (Some a) (s\<lparr>c_state := st, c_world := w\<rparr>))"
    and "send_state c w = SendOk"
proof -
  note I = em_invD [OF inv]
  have w: "w = (c_world s)\<lparr>w_free := Suc c, w_chans := (w_chans (c_world s))(c :=
      \<lparr>ch_queue = [], ch_cap = as_inbox_size (c_state s), ch_senders = 1, ch_open = True\<rparr>)\<rparr>"
    and cfree: "c = w_free (c_world s)"
    using c by (auto simp: mpsc_channel_def)
  have other: "handle_send h < c" if "as_live (c_state s) i = Some h" for i h
    using chans_invD(1) [OF I(2) that] cfree by simp
  have "phases_inv (spawn_task (Some a) (s\<lparr>c_state := st, c_world := w\<rparr>))"
    by (rule start_phases [OF I(1) fresh_task [OF I(5)] absent_idle(1) [OF I(1) none]])
      (simp_all add: st a w absent_idle [OF I(1) none])
  moreover have "chans_inv st w"
    using I(2) other unfolding chans_inv_def st w cfree
    by (fastforce simp: live_chan_def split: if_splits)
  moreover have "pool_inv st w"
    using I(3) by (fastforce simp: pool_inv_def st w cfree)
  moreover have "fifo_inv st w"
  proof -
    have "pending_of i st w = pending_of i (c_state s) (c_world s)" for i
      using none other by (cases "as_live (c_state s) i") (force simp: pending_of_def st w)+
    then show ?thesis using I(4) by (simp add: fifo_inv_def w)
  qed
  moreover have "globals_inv g (spawn_task (Some a) (s\<lparr>c_state := st, c_world := w\<rparr>))"
    using I(5) a by (auto simp: globals_inv_def spawn_task_def st w run_actor_def less_Suc_eq
        split: if_splits)
  ultimately show "em_inv g (spawn_task (Some a) (s\<lparr>c_state := st, c_world := w\<rparr>))"
    using I(6,7) by (simp add: em_inv_def spawn_task_def st w)
  show "send_state c w = SendOk" using I(6) by (simp add: send_state_def w)
qed

text \<open>After \<open>get_or_create\<close> the entity is live, and the inbox of a new actor has room.\<close>

lemma get_or_create_inv:
  assumes inv: "em_inv g s"
    and goc: "get_or_create dflt rst eid (c_state s) (c_world s) = (h, task, st, w)"
  shows "em_inv g (spawn_task task (s\<lparr>c_state := st, c_world := w\<rparr>))"
    "as_live st eid = Some h" "task \<noteq> None \<Longrightarrow> send_state (handle_send h) w = SendOk"
proof -
  note I = em_invD [OF inv]
  have g: "as_state (c_state s) = g" using I(5) by (simp add: globals_inv_def)
  have "em_inv g (spawn_task task (s\<lparr>c_state := st, c_world := w\<rparr>)) \<and> as_live st eid = Some h
      \<and> (task \<noteq> None \<longrightarrow> send_state (handle_send h) w = SendOk)"
  proof (cases "as_live (c_state s) eid")
    case (Some h')
    then show ?thesis using goc inv by (auto simp: get_or_create_def spawn_task_def)
  next
    case None
    show ?thesis
    proof (cases "as_pool (c_state s)" rule: rev_cases)
      case Nil
      obtain c w1 where c: "mpsc_channel (as_inbox_size (c_state s)) (c_world s) = (c, w1)"
        by (cases "mpsc_channel (as_inbox_size (c_state s)) (c_world s)")
      note new = create_inv [OF inv None c refl, where a =
          "\<lparr>ea_recv = c, ea_state = \<lparr>es_id = eid, es_global = g, es_state = dflt\<rparr>, ea_tasks = []\<rparr>"]
      show ?thesis using goc None Nil c new g by (auto simp: get_or_create_def)
    next
      case (snoc xs y)
      obtain c a where y: "y = (c, a)" by (cases y)
      show ?thesis
        using goc None snoc y g pool_take_inv [OF inv None snoc [unfolded y] refl refl]
        by (auto simp: get_or_create_def)
    qed
  qed
  then show "em_inv g (spawn_task task (s\<lparr>c_state := st, c_world := w\<rparr>))"
    "as_live st eid = Some h" "task \<noteq> None \<Longrightarrow> send_state (handle_send h) w = SendOk"
    by blast+
qed

lemma spawn_task_simps [simp]:
  "c_state (spawn_task t s) = c_state s" "c_world (spawn_task t s) = c_world s"
  "c_main (spawn_task t s) = c_main s" "c_inbox (spawn_task t s) = c_inbox s"
  "(spawn_task t s)\<lparr>c_world := w\<rparr> = spawn_task t (s\<lparr>c_world := w\<rparr>)"
  by (simp_all add: spawn_task_def split: option.split)

lemma em_inv_main: "em_inv g (s\<lparr>c_main := m\<rparr>) = em_inv g s"
  "em_inv g (s\<lparr>c_inbox := cs\<rparr>) = em_inv g s" "em_inv g (s\<lparr>c_clients := b\<rparr>) = em_inv g s"
  by (simp_all add: em_inv_def phases_inv_def globals_inv_def)

lemma send_closed_panicked:
  assumes "em_inv g s" "as_live (c_state s) eid = Some h"
    "send_state (handle_send h) (c_world s) = Closed"
  shows "has_panicked (c_world s) eid"
  using chans_invD(2) [OF em_invD(2) [OF assms(1)] assms(2)] assms(3)
  by (auto simp: live_chan_def send_state_def split: if_splits)

lemma main_spawn_inv:
  assumes inv: "em_inv g s" and main: "serving s"
  shows "em_inv g (main_spawn dflt rst eid f s)" "serving (main_spawn dflt rst eid f s)"
proof -
  obtain h task st w where goc: "get_or_create dflt rst eid (c_state s) (c_world s) = (h, task, st, w)"
    by (cases "get_or_create dflt rst eid (c_state s) (c_world s)") auto
  let ?s = "spawn_task task (s\<lparr>c_state := st, c_world := w\<rparr>)"
  note G = get_or_create_inv [OF inv goc]
  have "em_inv g (main_spawn dflt rst eid f s) \<and> serving (main_spawn dflt rst eid f s)"
  proof (cases "send_state (handle_send h) w")
    case SendOk
    then show ?thesis using accept_inv [OF G(1), of eid h f] G(2) main goc
      by (simp add: main_spawn_def spawn_boxed_def serving_def)
  next
    case Full
    then have "task = None" using G(3) by (cases task) auto
    then show ?thesis using Full refuse_inv [OF G(1), of Busy eid f] goc
      by (simp add: main_spawn_def spawn_boxed_def serving_def em_inv_main spawn_task_def)
  next
    case Closed
    then have "task = None" using G(3) by (cases task) auto
    then show ?thesis
      using Closed refuse_inv [OF G(1), of Dead eid f] send_closed_panicked [OF G(1)] G(2) goc
      by (simp add: main_spawn_def spawn_boxed_def serving_def em_inv_main spawn_task_def)
  qed
  then show "em_inv g (main_spawn dflt rst eid f s)" "serving (main_spawn dflt rst eid f s)"
    by blast+
qed

text \<open>The main actor handles an internal command.\<close>

lemma phase_head:
  assumes "phases_inv s" "w_internal (c_world s) = m # ms"
  shows "phase_ok (imsg_id m) (has_panicked (c_world s) (imsg_id m))
    (m # internal_for (imsg_id m) ms) (entity_tasks (c_tasks s) (imsg_id m))
    (as_live (c_state s) (imsg_id m))"
  using assms(1) [unfolded phases_inv_def, rule_format, of "imsg_id m"] assms(2)
  by (simp add: internal_for_def)

lemma tick_phases:
  assumes inv: "phases_inv s" and q: "w_internal (c_world s) = m # ms" "w_internal w = ms"
    and log: "w_log w = w_log (c_world s)"
    and other: "\<And>i. i \<noteq> imsg_id m \<Longrightarrow> as_live st i = as_live (c_state s) i"
    and own: "phase_ok (imsg_id m) (has_panicked (c_world s) (imsg_id m))
      (internal_for (imsg_id m) ms) (entity_tasks (c_tasks s) (imsg_id m)) (as_live st (imsg_id m))"
  shows "phases_inv (s\<lparr>c_state := st, c_world := w\<rparr>)"
  unfolding phases_inv_def
proof
  fix i
  show "phase_ok i (has_panicked (c_world (s\<lparr>c_state := st, c_world := w\<rparr>)) i)
     (internal_for i (w_internal (c_world (s\<lparr>c_state := st, c_world := w\<rparr>))))
     (entity_tasks (c_tasks (s\<lparr>c_state := st, c_world := w\<rparr>)) i)
     (as_live (c_state (s\<lparr>c_state := st, c_world := w\<rparr>)) i)"
  proof (cases "i = imsg_id m")
    case True
    then show ?thesis using own q log by simp
  next
    case False
    then show ?thesis
      using inv [unfolded phases_inv_def, rule_format, of i] other [OF False] q log
      by (simp add: internal_for_def)
  qed
qed

lemma tick_shutdown_inv:
  assumes inv: "em_inv g s" and q: "w_internal (c_world s) = ShutdownMsg eid c # ms"
    and step: "tick_shutdown eid c (c_state s) ((c_world s)\<lparr>w_internal := ms\<rparr>) = (st, w)"
  shows "em_inv g (s\<lparr>c_state := st, c_world := w\<rparr>)"
proof -
  note I = em_invD [OF inv]
  note ph = phase_head [OF I(1) q, unfolded imsg_id_def, simplified]
  have live: "as_live (c_state s) eid = Some (Live c)" using ph by (auto elim!: phase_msgE)
  then have st: "st = (c_state s)\<lparr>as_live := (as_live (c_state s))(eid \<mapsto> ShuttingDown c c)\<rparr>"
    and w: "w = (c_world s)\<lparr>w_internal := ms\<rparr>"
    using step by (auto simp: tick_shutdown_def)
  have "phases_inv (s\<lparr>c_state := st, c_world := w\<rparr>)"
    by (rule tick_phases [OF I(1) q])
      (use ph in \<open>auto simp: st w imsg_id_def elim!: phase_msgE intro: phase_ok.intros\<close>)
  moreover have "chans_inv st w"
    using I(2) live unfolding chans_inv_def st w by (fastforce split: if_splits)
  moreover have "pool_inv st w"
    using I(3) live unfolding pool_inv_def st w by (fastforce split: if_splits)
  moreover have "pending_of i st w = pending_of i (c_state s) (c_world s)" for i
    using live by (simp add: pending_of_def st w split: option.split)
  then have "fifo_inv st w" using I(4) by (simp add: fifo_inv_def w)
  moreover have "globals_inv g (s\<lparr>c_state := st, c_world := w\<rparr>)"
    using I(5) q by (auto simp: globals_inv_def st w)
  ultimately show ?thesis using I(6,7) by (simp add: em_inv_def st w)
qed

lemma pool_inv_fresh:
  "pool_inv st w \<Longrightarrow> as_live st i = Some h \<Longrightarrow> (handle_send h, a) \<notin> set (as_pool st)"
  unfolding pool_inv_def by blast

lemma globals_msg:
  assumes "globals_inv g s" "w_internal (c_world s) = ShutdownComplete es ts # ms"
  shows "es_global es = g"
proof -
  have "ShutdownComplete es ts \<in> set (w_internal (c_world s))" using assms(2) by simp
  then show ?thesis using assms(1) unfolding globals_inv_def by blast
qed

lemma restart_inv:
  assumes inv: "em_inv g s" and q: "w_internal (c_world s) = ShutdownComplete es [] # ms"
    and live: "as_live (c_state s) (es_id es) = Some (ShuttingDown c c)"
    and w: "w = (c_world s)\<lparr>w_internal := ms\<rparr>"
    and st: "st = (c_state s)\<lparr>as_live := (as_live (c_state s))(es_id es \<mapsto> Live c)\<rparr>"
    and a: "ea_recv a = c" "es_id (ea_state a) = es_id es" "es_global (ea_state a) = es_global es"
  shows "em_inv g (spawn_task (Some a) (s\<lparr>c_state := st, c_world := w\<rparr>))"
proof -
  note I = em_invD [OF inv]
  note ph = phase_head [OF I(1) q, unfolded imsg_id_def, simplified]
  have idle: "entity_tasks (c_tasks s) (es_id es) = {}" "internal_for (es_id es) ms = []"
    "\<not> has_panicked (c_world s) (es_id es)"
    using ph live by (auto elim!: phase_msgE)
  have "phases_inv (spawn_task (Some a) (s\<lparr>c_state := st, c_world := w\<rparr>))"
    by (rule start_phases [OF I(1) fresh_task [OF I(5)] idle(1)])
      (use idle a q in \<open>auto simp: st w internal_for_def imsg_id_def\<close>)
  moreover have "chans_inv st w"
    using I(2) live unfolding chans_inv_def st w by (fastforce split: if_splits)
  moreover have "pool_inv st w"
    using I(3) live unfolding pool_inv_def st w by (fastforce split: if_splits)
  moreover have "pending_of i st w = pending_of i (c_state s) (c_world s)" for i
    using live by (simp add: pending_of_def st w split: option.split)
  then have "fifo_inv st w" using I(4) by (simp add: fifo_inv_def w)
  moreover have "es_global (ea_state a) = g" 
    using globals_msg [OF I(5) q] a(3) by simp
  then have "globals_inv g (spawn_task (Some a) (s\<lparr>c_state := st, c_world := w\<rparr>))"
    using I(5) q by (simp add: globals_inv_def st w spawn_task_def run_actor_def less_Suc_eq)
  ultimately show ?thesis using I(6,7) by (simp add: em_inv_def st w)
qed

text \<open>Removing an idle entity, whose channel goes to the pool or is dropped.\<close>

lemma remove_inv:
  assumes inv: "em_inv g s" and q: "w_internal (c_world s) = ShutdownComplete es [] # ms"
    and live: "as_live (c_state s) (es_id es) = Some (ShuttingDown c c)"
    and empty: "ch_queue (w_chans (c_world s) c) = []"
    and st: "as_live st = (as_live (c_state s))(es_id es := None)" "as_state st = as_state (c_state s)"
      "as_inbox_size st = as_inbox_size (c_state s)"
    and w: "\<And>d. d \<noteq> c \<Longrightarrow> w_chans w d = w_chans (c_world s) d" "w_free w = w_free (c_world s)"
      "w_internal w = ms" "w_log w = w_log (c_world s)"
      "w_internal_open w = w_internal_open (c_world s)" "w_internal_cap w = w_internal_cap (c_world s)"
    and pool: "pool_inv st w"
  shows "em_inv g (s\<lparr>c_state := st, c_world := w\<rparr>)"
proof -
  note I = em_invD [OF inv]
  note ph = phase_head [OF I(1) q, unfolded imsg_id_def, simplified]
  have other: "handle_send h \<noteq> c" if "as_live (c_state s) i = Some h" "i \<noteq> es_id es" for i h
    using chans_inv_inj [OF I(2) that(1) live] that(2) by auto
  have "phases_inv (s\<lparr>c_state := st, c_world := w\<rparr>)"
    by (rule tick_phases [OF I(1) q])
      (use ph live in \<open>auto simp: st w imsg_id_def elim!: phase_msgE intro: phase_ok.intros\<close>)
  moreover have "chans_inv st w"
    using I(2) other w(1,2,4) unfolding chans_inv_def st
    by (simp add: fun_upd_apply)
  moreover have "pending_of i st w = pending_of i (c_state s) (c_world s)" for i
    using live empty other w(1)
    by (cases "i = es_id es"; cases "as_live (c_state s) i") (auto simp: pending_of_def st)
  then have "fifo_inv st w" using I(4) by (simp add: fifo_inv_def w)
  moreover have "globals_inv g (s\<lparr>c_state := st, c_world := w\<rparr>)"
    using I(5) q by (auto simp: globals_inv_def st w)
  ultimately show ?thesis using I(6,7) pool by (simp add: em_inv_def st w)
qed

lemma tick_complete_inv:
  assumes inv: "em_inv g s" and q: "w_internal (c_world s) = ShutdownComplete es ts # ms"
  obtains task st w where
    "tick_complete rst es ts (c_state s) ((c_world s)\<lparr>w_internal := ms\<rparr>) = Some (task, st, w)"
    "em_inv g (spawn_task task (s\<lparr>c_state := st, c_world := w\<rparr>))"
proof -
  note I = em_invD [OF inv]
  note ph = phase_head [OF I(1) q, unfolded imsg_id_def, simplified]
  obtain c where ts: "ts = []" and live: "as_live (c_state s) (es_id es) = Some (ShuttingDown c c)"
    and np: "\<not> has_panicked (c_world s) (es_id es)"
    using ph by (auto elim!: phase_msgE)
  note ch = chans_invD [OF I(2) live, simplified]
  let ?w = "(c_world s)\<lparr>w_internal := ms\<rparr>"
  let ?st = "(c_state s)\<lparr>as_live := (as_live (c_state s))(es_id es := None)\<rparr>"
  let ?a = "\<lparr>ea_recv = c, ea_state = es\<lparr>es_state := rst (es_state es)\<rparr>, ea_tasks = []\<rparr>"
  have new: "c \<notin> fst ` set (as_pool (c_state s))"
    using I(3) live by (force simp: pool_inv_def)
  show thesis
  proof (cases "ch_queue (w_chans (c_world s) c) = []")
    case False
    then have t: "tick_complete rst es ts (c_state s) ?w = Some (Some ?a,
        (c_state s)\<lparr>as_live := (as_live (c_state s))(es_id es \<mapsto> Live c)\<rparr>, ?w)"
      by (simp add: tick_complete_def live ts)
    show thesis by (rule that [OF t], rule restart_inv [OF inv q [unfolded ts] live refl refl]) simp_all
  next
    case True
    note rem = remove_inv [OF inv q [unfolded ts] live True]
    have idle: "idle_chan (as_inbox_size (c_state s)) (w_chans (c_world s) c)"
      using ch np True by (simp add: live_chan_def idle_chan_def)
    show thesis
    proof (cases "length (as_pool (c_state s)) < as_capacity (c_state s)")
      case True
      let ?st' = "?st\<lparr>as_pool := as_pool (c_state s) @ [(c, ?a)]\<rparr>"
      have t: "tick_complete rst es ts (c_state s) ?w = Some (None, ?st', ?w)"
        using True idle by (simp add: tick_complete_def live ts em_recycle_def actor_recycle_def idle_chan_def)
      have "pool_inv ?st' ?w"
        using I(3) True new ch(1) idle
        by (auto simp: pool_inv_def dest: chans_inv_inj [OF I(2) live] pool_inv_fresh [OF I(3)])
      then show thesis using that [OF t] rem [of ?st' ?w] by (simp add: spawn_task_def)
    next
      case False
      let ?w' = "drop_recv c (drop_sender c ?w)"
      have t: "tick_complete rst es ts (c_state s) ?w = Some (None, ?st, ?w')"
        using False idle by (simp add: tick_complete_def live ts em_recycle_def actor_recycle_def idle_chan_def)
      have "pool_inv ?st ?w'"
        using I(3) new
        by (auto simp: pool_inv_def em_simps rev_image_eqI dest: pool_inv_fresh [OF I(3)])
      then show thesis using that [OF t] rem [of ?st ?w'] by (simp add: spawn_task_def em_simps)
    qed
  qed
qed

lemma main_tick_inv:
  assumes inv: "em_inv g s" and step: "main_tick rst s = Some s'"
  shows "em_inv g s'" "c_main s' = MLoop"
proof -
  have main: "c_main s = MLoop" using step by (auto simp: main_tick_def split: if_splits)
  obtain m ms where q: "w_internal (c_world s) = m # ms"
    using step by (cases "w_internal (c_world s)") (auto simp: main_tick_def split: if_splits)
  have "em_inv g s' \<and> c_main s' = MLoop"
  proof (cases m)
    case (ShutdownMsg eid c)
    obtain st w where t: "tick_shutdown eid c (c_state s) ((c_world s)\<lparr>w_internal := ms\<rparr>) = (st, w)"
      by (cases "tick_shutdown eid c (c_state s) ((c_world s)\<lparr>w_internal := ms\<rparr>)")
    then show ?thesis
      using tick_shutdown_inv [OF inv q [unfolded ShutdownMsg] t] step main q ShutdownMsg
      by (auto simp: main_tick_def tick_def spawn_task_def)
  next
    case (ShutdownComplete es ts)
    obtain task st w where
      "tick_complete rst es ts (c_state s) ((c_world s)\<lparr>w_internal := ms\<rparr>) = Some (task, st, w)"
      "em_inv g (spawn_task task (s\<lparr>c_state := st, c_world := w\<rparr>))"
      by (rule tick_complete_inv [OF inv q [unfolded ShutdownComplete]])
    then show ?thesis using step main q ShutdownComplete by (auto simp: main_tick_def tick_def)
  qed
  then show "em_inv g s'" "c_main s' = MLoop" by blast+
qed

lemma main_join_inv:
  assumes inv: "em_inv g s" and step: "main_join t s = Some s'"
  shows "em_inv g s'" "c_main s' = c_main s"
proof -
  obtain p where p: "c_tasks s t = Some p" "\<not> active p"
    and s': "s' = s\<lparr>c_tasks := (c_tasks s)(t := None)\<rparr>"
    using step by (auto simp: main_join_def active_def split: option.splits if_splits)
  have "entity_tasks ((c_tasks s)(t := None)) eid = entity_tasks (c_tasks s) eid" for eid
    using p by (auto simp: entity_tasks_def split: if_splits)
  then show "em_inv g s'" using inv by (auto simp: em_inv_def phases_inv_def globals_inv_def s')
  show "c_main s' = c_main s" by (simp add: s')
qed

text \<open>Until a shutdown begins every action keeps the invariant.\<close>

lemma serving_step:
  assumes inv: "em_inv g s" "serving s" and step: "em_act dflt rst a s = Some s'"
  shows "em_inv g s' \<and> serving s'
    \<or> (\<exists>ids cs. s' = s\<lparr>c_inbox := cs, c_main := MShutdown ids ids\<rparr> \<and> distinct ids
          \<and> set ids = dom (as_live (c_state s)))
    \<or> (\<exists>ids. s' = s\<lparr>c_world := drop_state ids (c_state s) (c_world s), c_main := MJoin\<rparr>)"
proof (cases a)
  case (ClientSend m)
  then show ?thesis using step inv
    by (auto simp: client_send_def em_inv_main serving_def split: if_splits)
next
  case ClientsGone
  then show ?thesis using step inv by (auto simp: em_inv_main serving_def)
next
  case (MainCommand ids)
  then have c: "main_command dflt rst ids s = Some s'" using step by simp
  show ?thesis
  proof (cases "c_inbox s")
    case Nil
    then show ?thesis using c by (auto simp: main_command_def split: if_splits)
  next
    case (Cons m cs)
    show ?thesis
    proof (cases m)
      case (MSpawn eid f)
      have "em_inv g (s\<lparr>c_inbox := cs\<rparr>)" "serving (s\<lparr>c_inbox := cs\<rparr>)"
        using inv by (simp_all add: em_inv_main serving_def)
      then show ?thesis using c Cons MSpawn main_spawn_inv [of g "s\<lparr>c_inbox := cs\<rparr>" dflt rst eid f]
        by (auto simp: main_command_def split: if_splits)
    next
      case MShutdownAll
      then show ?thesis using c Cons by (auto simp: main_command_def split: if_splits)
    qed
  qed
next
  case MainTick
  then show ?thesis using main_tick_inv [OF inv(1)] step by (auto simp: serving_def)
next
  case (MainJoin t)
  then show ?thesis using main_join_inv [OF inv(1)] step inv(2) by (auto simp: serving_def)
next
  case MainProceed
  then show ?thesis using step inv
    by (auto simp: main_proceed_def serving_def em_inv_main spawn_task_def)
next
  case (Entity t e)
  then obtain p p' w where "c_tasks s t = Some p" "entity_step e p (c_world s) = Some (p', w)"
    "s' = s\<lparr>c_tasks := (c_tasks s)(t \<mapsto> p'), c_world := w\<rparr>"
    using step by (auto simp: entity_action_def split: option.splits)
  then show ?thesis using entity_step_inv [OF inv(1)] inv(2) by (auto simp: serving_def)
qed

end
