(* ===== verification/Entity_Spec.thy ===== *)
theory Entity_Spec
  imports Entity_Inv
begin

text \<open>
  What the entity manager guarantees.  While it serves commands the invariant of
  \<open>Entity_Inv\<close> holds; the weaker \<open>em_safe\<close> also holds while it shuts down.  The theory derives
  the safety of every reachable configuration, the order in which accepted closures are
  started, the progress of every accepted closure, and what a soft shutdown does to an entity
  that is being recycled.
\<close>

section \<open>Safety, also during the shutdown\<close>

definition reading :: "('id, 'g, 's, 'f) eproc \<Rightarrow> bool" where
  "reading p \<longleftrightarrow> p_pc p = AtSelect \<or> p_pc p = AtCheck"

definition shrinks :: "('id, 'g, 's, 'f) world \<Rightarrow> ('id, 'g, 's, 'f) world \<Rightarrow> bool" where
  "shrinks w w' \<longleftrightarrow> w_log w' = w_log w
     \<and> (\<forall>c. ch_queue (w_chans w' c) = ch_queue (w_chans w c) \<or> ch_queue (w_chans w' c) = [])"

abbreviation queued_on :: "chan_id \<Rightarrow> ('id, 'g, 's, 'f) world \<Rightarrow> 'f list" where
  "queued_on c w \<equiv> concat (map cmd_f (ch_queue (w_chans w c)))"

definition task_safe :: "'g \<Rightarrow> ('id, 'g, 's, 'f) world \<Rightarrow> ('id, 'g, 's, 'f) eproc \<Rightarrow> bool" where
  "task_safe g w p \<longleftrightarrow> es_global (p_state p) = g \<and> (p_pc p = AtRecycle \<longrightarrow> p_tasks p = [])
   \<and> (reading p \<longrightarrow>
        (\<forall>m \<in> set (ch_queue (w_chans w (p_recv p))). m = EntityShutdown \<or> (\<exists>f. m = Spawn (p_id p) f))
        \<and> prefix (started_of (p_id p) (w_log w) @ queued_on (p_recv p) w)
            (accepted_of (p_id p) (w_log w)))"

definition event_safe :: "'g \<Rightarrow> ('id, 'g, 's, 'f) event \<Rightarrow> bool" where
  "event_safe g e = (case e of
     Called eid f (Active st) \<Rightarrow> es_id st = eid \<and> es_global st = g
   | TickError _ \<Rightarrow> False
   | _ \<Rightarrow> True)"

definition em_safe :: "'g \<Rightarrow> ('id, 'g, 's, 'f) config \<Rightarrow> bool" where
  "em_safe g s \<longleftrightarrow>
     (\<forall>t p. c_tasks s t = Some p \<longrightarrow> task_safe g (c_world s) p)
   \<and> (\<forall>t t' p p'. c_tasks s t = Some p \<longrightarrow> c_tasks s t' = Some p' \<longrightarrow> t \<noteq> t'
        \<longrightarrow> active p \<longrightarrow> active p' \<longrightarrow>
        p_id p \<noteq> p_id p' \<and> (reading p \<longrightarrow> reading p' \<longrightarrow> p_recv p \<noteq> p_recv p'))
   \<and> (\<forall>eid. prefix (started_of eid (w_log (c_world s))) (accepted_of eid (w_log (c_world s))))
   \<and> (\<forall>e \<in> set (w_log (c_world s)). event_safe g e) \<and> dead_ok (w_log (c_world s))
   \<and> length (as_pool (c_state s)) \<le> as_capacity (c_state s)"

definition stopping :: "('id, 'g, 's, 'f) config \<Rightarrow> bool" where
  "stopping s \<longleftrightarrow> (\<exists>ids rest. c_main s = MShutdown ids rest) \<or> c_main s = MJoin \<or> c_main s = MDone"

lemma reading_active: "reading p \<Longrightarrow> active p"
  by (auto simp: reading_def active_def)

lemma reading_live:
  assumes "em_inv g s" "c_tasks s t = Some p" "reading p"
  shows "as_live (c_state s) (p_id p) = Some (Live (p_recv p))"
    "\<not> has_panicked (c_world s) (p_id p)"
  using phase_task(2) [OF em_invD(1) [OF assms(1)] assms(2) reading_active [OF assms(3)]] assms(3)
  by (auto elim!: phase_taskE simp: reading_def released_def)

lemma em_inv_task_safe:
  assumes inv: "em_inv g s" and t: "c_tasks s t = Some p"
  shows "task_safe g (c_world s) p"
proof -
  note I = em_invD [OF inv]
  have "es_global (p_state p) = g" using I(5) t by (auto simp: globals_inv_def)
  moreover have "p_tasks p = []" if "p_pc p = AtRecycle"
    using phase_task(2) [OF I(1) t] that
    by (auto simp: active_def owning_def released_def elim!: phase_taskE)
  moreover have "\<exists>f. m = Spawn (p_id p) f"
    if "reading p" "m \<in> set (ch_queue (w_chans (c_world s) (p_recv p)))" for m
    using chans_invD(2) [OF I(2) reading_live(1) [OF inv t that(1)]] that(2)
    by (auto simp: live_chan_def)
  moreover have "accepted_of (p_id p) (w_log (c_world s)) =
      started_of (p_id p) (w_log (c_world s)) @ queued_on (p_recv p) (c_world s)" if "reading p"
    using I(4) reading_live [OF inv t that] by (simp add: fifo_inv_def pending_of_def)
  ultimately show ?thesis unfolding task_safe_def by (metis prefix_order.refl)
qed

lemma em_inv_safe:
  assumes inv: "em_inv g s"
  shows "em_safe g s"
proof -
  note I = em_invD [OF inv]
  have uniq: "p_id p \<noteq> p_id p'"
    if "c_tasks s t = Some p" "c_tasks s t' = Some p'" "t \<noteq> t'" "active p" "active p'" for t t' p p'
    using phase_task(1) [OF I(1) that(1,4)] phase_task(1) [OF I(1) that(2,5)] that(3) by auto
  moreover have "p_recv p \<noteq> p_recv p'"
    if "c_tasks s t = Some p" "c_tasks s t' = Some p'" "t \<noteq> t'" "reading p" "reading p'" for t t' p p'
    using uniq [OF that(1-3) reading_active [OF that(4)] reading_active [OF that(5)]]
      chans_inv_inj [OF I(2) reading_live(1) [OF inv that(1,4)] reading_live(1) [OF inv that(2,5)]]
    by auto
  moreover have "event_safe g e" if "e \<in> set (w_log (c_world s))" for e
    using I(5) that by (auto simp: globals_inv_def log_ok_def event_safe_def
        split: event.splits spawn_arg.splits)
  ultimately show ?thesis
    using I em_inv_task_safe [OF inv] unfolding em_safe_def
    by (simp add: fifo_inv_def globals_inv_def pool_inv_def)
qed

text \<open>Dropping senders and receivers.\<close>

lemma shrinks_refl [simp]: "shrinks w w" by (simp add: shrinks_def)

lemma shrinks_trans: "shrinks u v \<Longrightarrow> shrinks v w \<Longrightarrow> shrinks u w"
  by (auto simp: shrinks_def) metis

lemma shrinks_drop [simp]: "shrinks w (drop_sender c w)" "shrinks w (drop_recv c w)"
  "shrinks w (drop_recv d (drop_sender c w))"
  by (auto simp: shrinks_def em_simps)

lemma shrinks_fold:
  assumes "\<And>x w. shrinks w (h x w)"
  shows "shrinks w (fold h xs w)"
proof (induction xs arbitrary: w)
  case (Cons x xs)
  then show ?case using assms [of w x] by (auto intro: shrinks_trans)
qed simp

lemma drop_state_shrinks: "shrinks w (drop_state ids st w)"
proof -
  have h: "shrinks w (drop_handle h w)" for h and w :: "('a, 'b, 'c, 'd) world"
    by (cases h) auto
  have i: "shrinks w (drop_icmd m w)" for m and w :: "('a, 'b, 'c, 'd) world"
    by (cases m) auto
  have close: "shrinks u (w\<lparr>w_internal := [], w_internal_open := False\<rparr>)" if "shrinks u w"
    for u w :: "('a, 'b, 'c, 'd) world"
    using that by (simp add: shrinks_def)
  show ?thesis unfolding drop_state_def Let_def
    by (intro close shrinks_trans [OF shrinks_fold shrinks_trans [OF shrinks_fold shrinks_fold]])
      (auto simp: h i intro: shrinks_trans split: option.split)
qed

text \<open>Steps that start no closure: channels may lose their commands or get a shutdown command.\<close>

definition quiet :: "('id, 'g, 's, 'f) world \<Rightarrow> ('id, 'g, 's, 'f) world \<Rightarrow> bool" where
  "quiet w w' \<longleftrightarrow> (\<exists>l. w_log w' = w_log w @ l \<and> (\<forall>e \<in> set l. \<exists>st c i. e = OnShutdown st c \<or> e = Panicked i))
     \<and> (\<forall>c. set (ch_queue (w_chans w' c)) \<subseteq> insert EntityShutdown (set (ch_queue (w_chans w c)))
          \<and> (queued_on c w' = [] \<or> queued_on c w' = queued_on c w))"

lemma shrinks_quiet: "shrinks w w' \<Longrightarrow> quiet w w'"
  unfolding shrinks_def quiet_def by (metis append_Nil2 concat.simps(1) empty_iff empty_set empty_subsetI
      list.simps(8) subset_insertI)

lemma quiet_logs:
  assumes "quiet w w'"
  shows "accepted_of i (w_log w') = accepted_of i (w_log w)"
    "started_of i (w_log w') = started_of i (w_log w)"
proof -
  obtain l where l: "w_log w' = w_log w @ l"
    and e: "\<forall>e \<in> set l. \<exists>st c i. e = OnShutdown st c \<or> e = Panicked i"
    using assms by (auto simp: quiet_def)
  from e have "accepted_of i l = [] \<and> started_of i l = []"
    by (induction l) (auto simp: accepted_of_def started_of_def)
  then show "accepted_of i (w_log w') = accepted_of i (w_log w)"
    "started_of i (w_log w') = started_of i (w_log w)"
    by (simp_all add: l accepted_of_def started_of_def)
qed

lemma quiet_task_safe:
  assumes "quiet w w'" "task_safe g w p"
  shows "task_safe g w' p"
proof -
  have "prefix (started_of i (w_log w') @ queued_on c w') (accepted_of i (w_log w'))"
    if "prefix (started_of i (w_log w) @ queued_on c w) (accepted_of i (w_log w))" for i c
  proof -
    have "queued_on c w' = [] \<or> queued_on c w' = queued_on c w"
      using assms(1) unfolding quiet_def by blast
    then show ?thesis using that append_prefixD [OF that] quiet_logs [OF assms(1), of i]
      by (metis append_Nil2)
  qed
  moreover have "m = EntityShutdown \<or> m \<in> set (ch_queue (w_chans w c))"
    if "m \<in> set (ch_queue (w_chans w' c))" for m c
    using assms(1) that by (auto simp: quiet_def)
  ultimately show ?thesis using assms(2) unfolding task_safe_def by metis
qed

lemma quiet_safe:
  assumes safe: "em_safe g s" and q: "quiet (c_world s) w"
  shows "em_safe g (s\<lparr>c_world := w\<rparr>)"
proof -
  obtain l where l: "w_log w = w_log (c_world s) @ l"
    and e: "\<forall>e \<in> set l. \<exists>st c i. e = OnShutdown st c \<or> e = Panicked i"
    using q by (auto simp: quiet_def)
  have "event_safe g x" if "x \<in> set l" for x
    using e that by (auto simp: event_safe_def)
  moreover have "dead_ok (w_log w)"
    using safe e by (auto simp: em_safe_def dead_ok_def l)
  ultimately show ?thesis using safe quiet_task_safe [OF q]
    by (auto simp: em_safe_def quiet_logs [OF q] l [symmetric]) (auto simp: l)
qed

text \<open>A task that moves on without reading more.\<close>

lemma move_safe:
  assumes safe: "em_safe g s" and t: "c_tasks s t = Some p"
    and p': "p_id p' = p_id p" "es_global (p_state p') = es_global (p_state p)"
      "active p' \<Longrightarrow> active p" "p_pc p' = AtRecycle \<Longrightarrow> p_tasks p' = []"
      "reading p' \<Longrightarrow> reading p \<and> p_recv p' = p_recv p"
  shows "em_safe g (s\<lparr>c_tasks := (c_tasks s)(t \<mapsto> p')\<rparr>)"
proof -
  have "task_safe g (c_world s) p'"
    using safe t p' unfolding em_safe_def task_safe_def by metis
  moreover have "p_id p' \<noteq> p_id r \<and> (reading p' \<longrightarrow> reading r \<longrightarrow> p_recv p' \<noteq> p_recv r)"
    if "c_tasks s t' = Some r" "t' \<noteq> t" "active p'" "active r" for t' r
    using safe t p' that unfolding em_safe_def by metis
  ultimately show ?thesis using safe unfolding em_safe_def by (simp add: eq_commute)
qed

lemma start_safe:
  assumes safe: "em_safe g s" and t: "c_tasks s t = Some p" and r: "reading p"
    and q: "ch_queue (w_chans (c_world s) (p_recv p)) = Spawn eid f # ms"
    and p': "p_id p' = p_id p" "es_global (p_state p') = es_global (p_state p)" "p_pc p' = AtCheck"
      "p_recv p' = p_recv p"
    and w: "w = log_event (Called eid f (Active (p_state p))) (pop_cmd (p_recv p) (c_world s))"
  shows "em_safe g (s\<lparr>c_tasks := (c_tasks s)(t \<mapsto> p'), c_world := w\<rparr>)"
proof -
  have ts: "task_safe g (c_world s) r" if "c_tasks s t' = Some r" for t' r
    using safe that by (simp add: em_safe_def)
  have eid: "eid = p_id p" using ts [OF t] r q by (auto simp: task_safe_def)
  have pre: "prefix (started_of (p_id p) (w_log (c_world s)) @ f # concat (map cmd_f ms))
      (accepted_of (p_id p) (w_log (c_world s)))"
    using ts [OF t] r q by (auto simp: task_safe_def cmd_f_def)
  have r': "reading p'" using p'(3) by (simp add: reading_def)
  have own: "task_safe g w p'"
    using ts [OF t] r r' q p' pre by (auto simp: task_safe_def w em_simps eid)
  have dist: "p_id p \<noteq> p_id u \<and> (reading u \<longrightarrow> p_recv p \<noteq> p_recv u)"
    if "c_tasks s t' = Some u" "t' \<noteq> t" "active u" for t' u
    using safe t that r reading_active [OF r] unfolding em_safe_def by metis
  have other: "task_safe g w u" if "c_tasks s t' = Some u" "t' \<noteq> t" for t' u
    using ts [OF that(1)] dist [OF that] reading_active [of u]
    by (auto simp: task_safe_def w em_simps eid)
  have pref: "prefix (started_of i (w_log w)) (accepted_of i (w_log w))" for i
    using safe append_prefixD [of "started_of (p_id p) (w_log (c_world s)) @ [f]"] pre
    by (auto simp: em_safe_def w em_simps eid)
  have ev: "\<forall>e \<in> set (w_log w). event_safe g e" "dead_ok (w_log w)"
    using safe ts [OF t] by (auto simp: em_safe_def w em_simps event_safe_def eid task_safe_def dead_ok_def)
  have pair: "p_id p' \<noteq> p_id u \<and> (reading u \<longrightarrow> p_recv p' \<noteq> p_recv u)"
    if "c_tasks s t' = Some u" "t' \<noteq> t" "active u" for t' u
    using dist [OF that] p' by simp
  show ?thesis using safe own other pref ev pair unfolding em_safe_def
    by (simp add: eq_commute)
qed


lemma quiet_refl [simp]: "quiet w w"
  by (simp add: shrinks_quiet)

lemma quiet_log: "quiet w w' \<Longrightarrow> e = OnShutdown st c \<or> e = Panicked i \<Longrightarrow> quiet w (log_event e w')"
  by (auto simp: quiet_def em_simps)

lemma quiet_pop: "ch_queue (w_chans w c) = EntityShutdown # ms \<Longrightarrow> quiet w (pop_cmd c w)"
  by (auto simp: quiet_def em_simps cmd_f_def)

lemma quiet_push: "quiet w (push_cmd c EntityShutdown w)"
  by (auto simp: quiet_def em_simps cmd_f_def)

lemma quiet_internal: "internal_send m w = Some w' \<Longrightarrow> quiet w w'"
  by (auto simp: internal_send_def shrinks_quiet quiet_def [of w "w\<lparr>w_internal := _\<rparr>"]
      split: if_splits icmd.splits)

lemmas quiet_drop = shrinks_drop [THEN shrinks_quiet]

text \<open>A step of a task either starts a closure or is quiet.\<close>

lemma entity_step_safe:
  assumes safe: "em_safe g s" and t: "c_tasks s t = Some p"
    and step: "entity_step e p (c_world s) = Some (p', w)"
  shows "em_safe g (s\<lparr>c_tasks := (c_tasks s)(t \<mapsto> p'), c_world := w\<rparr>)"
proof -
  have rec: "p_pc p = AtRecycle \<Longrightarrow> p_tasks p = []" using safe t by (auto simp: em_safe_def task_safe_def)
  have quiet_case: ?thesis
    if "quiet (c_world s) w" "p_id p' = p_id p" "es_global (p_state p') = es_global (p_state p)"
      "active p' \<Longrightarrow> active p" "p_pc p' = AtRecycle \<Longrightarrow> p_tasks p' = []"
      "reading p' \<Longrightarrow> reading p \<and> p_recv p' = p_recv p"
    using quiet_safe [OF move_safe [OF safe t that(2-6)], of w] that(1) by simp
  show ?thesis
  proof (cases e)
    case ERecv
    then have step': "entity_recv p (c_world s) = Some (p', w)" and r: "reading p"
      using step by (auto simp: entity_recv_def Let_def reading_def split: if_splits)
    show ?thesis
    proof (cases "ch_queue (w_chans (c_world s) (p_recv p))")
      case Nil
      then show ?thesis using step' r
        by (intro quiet_case) (auto simp: entity_recv_def Let_def reading_def active_def
            intro!: quiet_log split: if_splits)
    next
      case (Cons m ms)
      show ?thesis
      proof (cases m)
        case (Spawn eid f)
        show ?thesis
          by (rule start_safe [OF safe t r Cons [unfolded Spawn]])
            (use step' Cons Spawn in \<open>auto simp: entity_recv_def Let_def split: if_splits\<close>)
      next
        case EntityShutdown
        then show ?thesis using step' Cons r
          by (intro quiet_case) (auto simp: entity_recv_def Let_def reading_def active_def
              intro!: quiet_pop split: if_splits)
      qed
    qed
  next
    case (ETask i)
    then show ?thesis using step
      by (intro quiet_case) (auto simp: entity_task_done_def Let_def reading_def active_def
          split: if_splits)
  next
    case EProceed
    then show ?thesis using step rec
      by (intro quiet_case) (auto simp: entity_proceed_def reading_def active_def
          intro: quiet_log quiet_internal quiet_drop split: if_splits epc.splits)
  next
    case (ETouch x)
    then show ?thesis using step rec
      by (intro quiet_case) (auto simp: entity_touch_def reading_def active_def split: if_splits)
  next
    case EPanic
    then show ?thesis using step
      by (intro quiet_case) (auto simp: entity_panic_def reading_def active_def
          intro!: quiet_log quiet_drop split: if_splits)
  qed
qed

lemma em_safe_main: "em_safe g (s\<lparr>c_main := m\<rparr>) = em_safe g s"
  "em_safe g (s\<lparr>c_inbox := cs\<rparr>) = em_safe g s" "em_safe g (s\<lparr>c_clients := b\<rparr>) = em_safe g s"
  by (simp_all add: em_safe_def)

lemma stopping_step:
  assumes safe: "em_safe g s" and stop: "stopping s" and step: "em_act dflt rst a s = Some s'"
  shows "em_safe g s' \<and> stopping s'"
proof (cases a)
  case (MainJoin t)
  then have "s' = s\<lparr>c_tasks := (c_tasks s)(t := None)\<rparr>"
    using step by (auto simp: main_join_def split: option.splits if_splits)
  then show ?thesis using safe stop by (auto simp: em_safe_def stopping_def)
next
  case MainProceed
  then show ?thesis using step safe stop
      quiet_safe [OF safe quiet_push] quiet_safe [OF safe drop_state_shrinks [THEN shrinks_quiet]]
    by (auto simp: main_proceed_def stopping_def em_safe_main Let_def
        split: mpc.splits list.splits send_result.splits if_splits)
next
  case (Entity t e)
  then obtain p p' w where "c_tasks s t = Some p" "entity_step e p (c_world s) = Some (p', w)"
    "s' = s\<lparr>c_tasks := (c_tasks s)(t \<mapsto> p'), c_world := w\<rparr>"
    using step by (auto simp: entity_action_def split: option.splits)
  then show ?thesis using entity_step_safe [OF safe] stop by (auto simp: stopping_def)
qed (use step safe stop in \<open>auto simp: stopping_def em_safe_main client_send_def main_command_def
    main_tick_def split: if_splits\<close>)

text \<open>Every reachable configuration serves commands under the invariant, or stops safely.\<close>

lemma reach_inv:
  assumes "em_options_ok opts" "em_reach dflt rst g opts s"
  shows "em_inv g s \<and> serving s \<or> em_safe g s \<and> stopping s"
  using assms(2)
proof induction
  case start
  then show ?case by (simp add: em_new_inv [OF assms(1)])
next
  case (act s a s')
  from act.IH show ?case
  proof
    assume "em_inv g s \<and> serving s"
    then show ?thesis
      using serving_step [OF _ _ act.hyps(2)] em_inv_safe [of g s]
        quiet_safe [OF _ drop_state_shrinks [THEN shrinks_quiet], of g s]
      by (fastforce simp: em_safe_main stopping_def)
  next
    assume "em_safe g s \<and> stopping s"
    then show ?thesis using stopping_step [OF _ _ act.hyps(2)] by blast
  qed
qed

lemma reach_safe:
  "em_options_ok opts \<Longrightarrow> em_reach dflt rst g opts s
    \<Longrightarrow> em_safe g s \<and> (serving s \<or> stopping s)"
  using reach_inv [of opts dflt rst g s] em_inv_safe [of g s] by auto

lemma reach_serving:
  "em_options_ok opts \<Longrightarrow> em_reach dflt rst g opts s \<Longrightarrow> serving s \<Longrightarrow> em_inv g s"
  using reach_inv [of opts dflt rst g s] by (auto simp: serving_def stopping_def)

section \<open>Progress\<close>

text \<open>
  The actions of the manager itself: ticks, the return of an awaited callback and of
  \<open>on_shutdown\<close>, receiving and recycling.  No task of an entity has to end for them.
\<close>

fun system_action :: "('id, 's, 'f) action \<Rightarrow> bool" where
  "system_action MainTick = True"
| "system_action MainProceed = True"
| "system_action (Entity _ ERecv) = True"
| "system_action (Entity _ EProceed) = True"
| "system_action _ = False"

definition leads :: "'s \<Rightarrow> ('s \<Rightarrow> 's) \<Rightarrow> ('id, 'g, 's, 'f) config \<Rightarrow> ('id, 'g, 's, 'f) config \<Rightarrow> bool" where
  "leads dflt rst s s' \<longleftrightarrow>
     (\<exists>as. list_all system_action as \<and> em_run dflt rst as s = Some s')"

lemma leads_refl: "leads dflt rst s s"
  unfolding leads_def by (rule exI [of _ "[]"]) simp

lemma leads_step:
  assumes "em_act dflt rst a s = Some s1" "system_action a" "leads dflt rst s1 s'"
  shows "leads dflt rst s s'"
proof -
  obtain as where "list_all system_action as" "em_run dflt rst as s1 = Some s'"
    using assms(3) by (auto simp: leads_def)
  then show ?thesis using assms(1,2) unfolding leads_def by (intro exI [of _ "a # as"]) simp
qed

text \<open>Closure \<open>f\<close> is the next one that entity \<open>eid\<close> has to start.\<close>

definition next_is :: "'g \<Rightarrow> 'id \<Rightarrow> 'f list \<Rightarrow> 'f \<Rightarrow> ('id, 'g, 's, 'f) config \<Rightarrow> bool" where
  "next_is g eid fs f s \<longleftrightarrow> em_inv g s \<and> serving s \<and> \<not> has_panicked (c_world s) eid
     \<and> started_of eid (w_log (c_world s)) = fs
     \<and> prefix (fs @ [f]) (accepted_of eid (w_log (c_world s)))"

lemma next_is_queue:
  assumes "next_is g eid fs f s"
  obtains h ms where "as_live (c_state s) eid = Some h"
    "ch_queue (w_chans (c_world s) (handle_send h)) = Spawn eid f # ms"
proof -
  have inv: "em_inv g s" using assms by (simp add: next_is_def)
  have "accepted_of eid (w_log (c_world s)) = fs @ pending_of eid (c_state s) (c_world s)"
    using assms em_invD(4) [OF inv] by (auto simp: next_is_def fifo_inv_def)
  then have pend: "prefix [f] (pending_of eid (c_state s) (c_world s))"
    using assms by (simp add: next_is_def)
  then obtain h where h: "as_live (c_state s) eid = Some h"
    by (auto simp: pending_of_def split: option.splits)
  have "\<forall>m \<in> set (ch_queue (w_chans (c_world s) (handle_send h))). \<exists>f. m = Spawn eid f"
    using chans_invD(2) [OF em_invD(2) [OF inv] h] by (simp add: live_chan_def)
  then obtain ms where "ch_queue (w_chans (c_world s) (handle_send h)) = Spawn eid f # ms"
    using pend h by (cases "ch_queue (w_chans (c_world s) (handle_send h))")
      (auto simp: pending_of_def cmd_f_def)
  with h show thesis by (rule that)
qed

lemma next_is_inv: "next_is g eid fs f s \<Longrightarrow> em_inv g s"
  by (simp add: next_is_def)

lemma next_is_step:
  assumes n: "next_is g eid fs f s" and a: "em_act dflt rst a s = Some s'" and s': "serving s'"
    and log: "w_log (c_world s') = w_log (c_world s) @ l"
    and l: "\<forall>e \<in> set l. \<exists>st c. e = OnShutdown st c"
  shows "next_is g eid fs f s'"
proof -
  have "em_inv g s'"
    using serving_step [OF _ _ a, of g] n s' by (auto simp: next_is_def serving_def)
  moreover have "accepted_of eid (w_log (c_world s')) = accepted_of eid (w_log (c_world s))"
    "started_of eid (w_log (c_world s')) = started_of eid (w_log (c_world s))"
    using l unfolding log
    by (induction l rule: rev_induct) (auto simp: em_simps simp flip: append_assoc)
  moreover have "has_panicked (c_world s') eid = has_panicked (c_world s) eid"
    using l by (auto simp: log)
  ultimately show ?thesis using n s' by (simp add: next_is_def)
qed

text \<open>The main actor empties the internal channel.\<close>

lemma tick_log:
  assumes inv: "em_inv g s" and q: "w_internal (c_world s) = m # ms" and main: "c_main s = MLoop"
  obtains s' where "main_tick rst s = Some s'" "w_log (c_world s') = w_log (c_world s)"
    "w_internal (c_world s') = ms"
proof (cases m)
  case (ShutdownMsg eid c)
  then have "as_live (c_state s) eid = Some (Live c)"
    using phase_head [OF em_invD(1) [OF inv] q] by (auto simp: imsg_id_def elim!: phase_msgE)
  then have "main_tick rst s = Some (s\<lparr>
      c_state := (c_state s)\<lparr>as_live := (as_live (c_state s))(eid \<mapsto> ShuttingDown c c)\<rparr>,
      c_world := (c_world s)\<lparr>w_internal := ms\<rparr>\<rparr>)"
    using main q ShutdownMsg by (simp add: main_tick_def tick_def tick_shutdown_def spawn_task_def)
  then show thesis by (rule that) simp_all
next
  case (ShutdownComplete es ts)
  then obtain c where "as_live (c_state s) (es_id es) = Some (ShuttingDown c c)"
    using phase_head [OF em_invD(1) [OF inv] q] by (auto simp: imsg_id_def elim!: phase_msgE)
  moreover obtain task st w where t:
    "tick_complete rst es ts (c_state s) ((c_world s)\<lparr>w_internal := ms\<rparr>) = Some (task, st, w)"
    by (rule tick_complete_inv [OF inv q [unfolded ShutdownComplete]])
  ultimately have "w_log w = w_log (c_world s)" "w_internal w = ms"
    by (auto simp: tick_complete_def Let_def em_recycle_def em_simps
        split: if_splits option.splits)
  moreover have "main_tick rst s = Some (spawn_task task (s\<lparr>c_state := st, c_world := w\<rparr>))"
    using main q ShutdownComplete t by (simp add: main_tick_def tick_def)
  ultimately show thesis using that by simp
qed

lemma next_is_tick:
  assumes n: "next_is g eid fs f s" and q: "w_internal (c_world s) = m # ms" and main: "c_main s = MLoop"
  obtains s' where "em_act dflt rst MainTick s = Some s'" "next_is g eid fs f s'"
    "w_internal (c_world s') = ms" "c_main s' = MLoop"
proof -
  have inv: "em_inv g s" using n by (simp add: next_is_def)
  obtain s' where s': "main_tick rst s = Some s'" "w_log (c_world s') = w_log (c_world s)"
    "w_internal (c_world s') = ms"
    by (rule tick_log [OF inv q main])
  then have m: "c_main s' = MLoop" using main_tick_inv [OF inv] by blast
  have "next_is g eid fs f s'"
    by (rule next_is_step [OF n, of dflt rst MainTick _ "[]"]) (use s' m in \<open>simp_all add: serving_def\<close>)
  then show thesis using that s' m by simp
qed

lemma drain_internal:
  assumes "next_is g eid fs f s" "c_main s = MLoop"
    and goal: "\<And>s'. next_is g eid fs f s' \<Longrightarrow> c_main s' = MLoop \<Longrightarrow> w_internal (c_world s') = []
      \<Longrightarrow> \<exists>s''. leads dflt rst s' s'' \<and> P s''"
  shows "\<exists>s''. leads dflt rst s s'' \<and> P s''"
  using assms(1,2)
proof (induction "w_internal (c_world s)" arbitrary: s)
  case Nil
  then show ?case using goal by simp
next
  case (Cons m ms)
  obtain s' where s': "em_act dflt rst MainTick s = Some s'" "next_is g eid fs f s'"
    "w_internal (c_world s') = ms" "c_main s' = MLoop"
    by (rule next_is_tick [OF Cons.prems(1) Cons.hyps(2) [symmetric] Cons.prems(2)])
  then obtain s'' where "leads dflt rst s' s''" "P s''" using Cons.hyps(1) by blast
  then show ?case using leads_step [OF s'(1)] by auto
qed


text \<open>Steps of the task of the entity.\<close>

lemma proceed_next:
  assumes n: "next_is g eid fs f s" and t: "c_tasks s t = Some p"
    and step: "entity_proceed p (c_world s) = Some (p', w)"
    and log: "w_log w = w_log (c_world s) @ l" "\<forall>e \<in> set l. \<exists>st c. e = OnShutdown st c"
    and goal: "next_is g eid fs f (s\<lparr>c_tasks := (c_tasks s)(t \<mapsto> p'), c_world := w\<rparr>)
      \<Longrightarrow> \<exists>s''. leads dflt rst (s\<lparr>c_tasks := (c_tasks s)(t \<mapsto> p'), c_world := w\<rparr>) s'' \<and> P s''"
  shows "\<exists>s''. leads dflt rst s s'' \<and> P s''"
proof -
  let ?s = "s\<lparr>c_tasks := (c_tasks s)(t \<mapsto> p'), c_world := w\<rparr>"
  have a: "em_act dflt rst (Entity t EProceed) s = Some ?s"
    using t step by (simp add: entity_action_def)
  have "serving ?s" using n by (simp add: next_is_def serving_def)
  then have "next_is g eid fs f ?s"
    by (rule next_is_step [OF n a]) (use log in simp_all)
  then obtain s'' where "leads dflt rst ?s s''" "P s''" using goal by blast
  then show ?thesis using leads_step [OF a] by auto
qed

abbreviation has_started :: "'id \<Rightarrow> 'f list \<Rightarrow> 'f \<Rightarrow> ('id, 'g, 's, 'f) config \<Rightarrow> bool" where
  "has_started eid fs f s \<equiv> started_of eid (w_log (c_world s)) = fs @ [f]"

lemma start_next:
  assumes n: "next_is g eid fs f s" and t: "c_tasks s t = Some p" "p_pc p = AtSelect" "p_id p = eid"
  shows "\<exists>s''. leads dflt rst s s'' \<and> has_started eid fs f s''"
proof -
  have inv: "em_inv g s" using n by (simp add: next_is_def)
  have "as_live (c_state s) eid = Some (Live (p_recv p))"
    using reading_live(1) [OF inv t(1)] t(2,3) by (simp add: reading_def)
  then obtain ms where q: "ch_queue (w_chans (c_world s) (p_recv p)) = Spawn eid f # ms"
    using next_is_queue [OF n] by force
  let ?s = "s\<lparr>c_tasks := (c_tasks s)(t \<mapsto> goto AtCheck (set_tasks (p_tasks p @ [f]) p)),
    c_world := log_event (Called eid f (Active (p_state p))) (pop_cmd (p_recv p) (c_world s))\<rparr>"
  have a: "em_act dflt rst (Entity t ERecv) s = Some ?s"
    using t q by (simp add: entity_action_def entity_recv_def)
  have "leads dflt rst s ?s" by (rule leads_step [OF a _ leads_refl]) simp
  moreover have "has_started eid fs f ?s" using n by (simp add: next_is_def em_simps)
  ultimately show ?thesis by (intro exI [of _ ?s] conjI)
qed

lemma next_running:
  assumes n: "next_is g eid fs f s" and t: "c_tasks s t = Some p" "p_id p = eid"
    "p_pc p = AtCheck \<or> p_pc p = AtSelect"
  shows "\<exists>s''. leads dflt rst s s'' \<and> has_started eid fs f s''"
proof (cases "p_pc p = AtSelect")
  case False
  then have c: "p_pc p = AtCheck" using t(3) by simp
  have "as_live (c_state s) eid = Some (Live (p_recv p))"
    using reading_live(1) [OF next_is_inv [OF n] t(1)] t(2) c by (simp add: reading_def)
  then have "ch_queue (w_chans (c_world s) (p_recv p)) \<noteq> []"
    using next_is_queue [OF n] by force
  then have "entity_proceed p (c_world s) = Some (goto AtSelect p, c_world s)"
    by (simp add: entity_proceed_def c)
  then show ?thesis
    by (rule proceed_next [OF n t(1), where l = "[]"]) (auto intro!: start_next simp: t(2))
qed (use start_next [OF n t(1) _ t(2)] in auto)

text \<open>An entity whose shutdown is complete restarts, since its inbox is not empty.\<close>

lemma next_restart:
  assumes n: "next_is g eid fs f s" and main: "c_main s = MLoop"
    and q: "w_internal (c_world s) = [ShutdownComplete es []]" "es_id es = eid"
  shows "\<exists>s''. leads dflt rst s s'' \<and> has_started eid fs f s''"
proof -
  have inv: "em_inv g s" using n by (simp add: next_is_def)
  obtain c where live: "as_live (c_state s) eid = Some (ShuttingDown c c)"
    using phase_head [OF em_invD(1) [OF inv] q(1)] q(2) by (auto simp: imsg_id_def elim!: phase_msgE)
  then have ne: "ch_queue (w_chans (c_world s) c) \<noteq> []" using next_is_queue [OF n] by force
  obtain s' where s': "em_act dflt rst MainTick s = Some s'" "next_is g eid fs f s'"
    by (rule next_is_tick [OF n q(1) main])
  then have "\<exists>p. c_tasks s' (c_next s) = Some p \<and> p_pc p = AtSelect \<and> p_id p = eid"
    using ne live main q by (auto simp: main_tick_def tick_def tick_complete_def Let_def
        spawn_task_def run_actor_def)
  then obtain s'' where "leads dflt rst s' s''" "has_started eid fs f s''"
    using start_next [OF s'(2)] by blast
  then show ?thesis using leads_step [OF s'(1)] by auto
qed

lemma next_complete:
  assumes n: "next_is g eid fs f s" and main: "c_main s = MLoop" and i: "w_internal (c_world s) = []"
    and t: "c_tasks s t = Some p" "p_id p = eid" "p_pc p = AtComplete" "p_tasks p = []"
  shows "\<exists>s''. leads dflt rst s s'' \<and> has_started eid fs f s''"
proof -
  have "w_internal_open (c_world s)" "0 < w_internal_cap (c_world s)"
    using n by (auto simp: next_is_def em_inv_def globals_inv_def)
  then have "entity_proceed p (c_world s) = Some (goto EDone p,
      (c_world s)\<lparr>w_internal := [ShutdownComplete (p_state p) []]\<rparr>)"
    using i t by (simp add: entity_proceed_def internal_send_def)
  then show ?thesis
    by (rule proceed_next [OF n t(1), where l = "[]"])
      (auto intro!: next_restart simp: t(2) main)
qed

lemma next_released:
  assumes n: "next_is g eid fs f s" and main: "c_main s = MLoop" and i: "w_internal (c_world s) = []"
    and t: "c_tasks s t = Some p" "p_id p = eid" "released p"
  shows "\<exists>s''. leads dflt rst s s'' \<and> has_started eid fs f s''"
proof (cases "p_pc p = AtComplete")
  case False
  then have "entity_proceed p (c_world s) = Some (goto AtComplete p, c_world s)"
    using t(3) by (auto simp: released_def entity_proceed_def)
  then show ?thesis
    by (rule proceed_next [OF n t(1), where l = "[]"])
      (use t main i in \<open>auto intro!: next_complete simp: released_def\<close>)
qed (use next_complete [OF n main i t(1,2)] t(3) in \<open>simp add: released_def\<close>)

lemma next_recycle:
  assumes n: "next_is g eid fs f s" and main: "c_main s = MLoop" and i: "w_internal (c_world s) = []"
    and t: "c_tasks s t = Some p" "p_id p = eid" and pc: "p_pc p = AtRecycle" "p_tasks p = []"
  shows "\<exists>s''. leads dflt rst s s'' \<and> has_started eid fs f s''"
proof -
  have "w_internal_open (c_world s)" "0 < w_internal_cap (c_world s)"
    using em_invD(5,7) [OF next_is_inv [OF n]] by (auto simp: globals_inv_def)
  then have "entity_proceed p (c_world s) = Some (goto IdleShutdown p, log_event
      (OnShutdown (p_state p) Idle) ((c_world s)\<lparr>w_internal := [ShutdownMsg eid (p_recv p)]\<rparr>))"
    (is "_ = Some (?p, ?w)")
    using i t pc by (simp add: entity_proceed_def internal_send_def)
  then show ?thesis
  proof (rule proceed_next [OF n t(1), where l = "[OnShutdown (p_state p) Idle]"])
    let ?s = "s\<lparr>c_tasks := (c_tasks s)(t \<mapsto> ?p), c_world := ?w\<rparr>"
    assume n': "next_is g eid fs f ?s"
    obtain s' where s': "em_act dflt rst MainTick ?s = Some s'" "next_is g eid fs f s'"
      "w_internal (c_world s') = []" "c_main s' = MLoop"
      by (rule next_is_tick [OF n', where m = "ShutdownMsg eid (p_recv p)" and ms = "[]"])
        (simp_all add: em_simps main)
    have "c_tasks s' t = Some ?p"
      using s'(1) main by (auto simp: main_tick_def em_simps tick_def spawn_task_def split: prod.splits)
    then obtain s'' where "leads dflt rst s' s''" "has_started eid fs f s''"
      using next_released [OF s'(2,4,3), of t ?p] t(2) pc by (auto simp: released_def)
    then show "\<exists>s''. leads dflt rst ?s s'' \<and> has_started eid fs f s''"
      using leads_step [OF s'(1)] by auto
  qed (auto simp: em_simps)
qed

text \<open>With an empty internal channel the entity is running or being recycled.\<close>

lemma next_drained:
  assumes n: "next_is g eid fs f s" and main: "c_main s = MLoop" and i: "w_internal (c_world s) = []"
  shows "\<exists>s''. leads dflt rst s s'' \<and> has_started eid fs f s''"
proof -
  note I = em_invD [OF next_is_inv [OF n]]
  obtain h where "as_live (c_state s) eid = Some h" by (rule next_is_queue [OF n])
  then obtain t p where p: "(t, p) \<in> entity_tasks (c_tasks s) eid" and op: "owning p \<or> released p"
    using I(1) [unfolded phases_inv_def, rule_format, of eid] i n
    by (auto simp: internal_for_def next_is_def elim!: phase_ok.cases)
  then have t: "c_tasks s t = Some p" "p_id p = eid" by (simp_all add: entity_tasks_def)
  consider "p_pc p = AtCheck \<or> p_pc p = AtSelect" | "released p"
    | "p_pc p = AtRecycle" "p_tasks p = []"
    using op by (auto simp: owning_def)
  then show ?thesis
  proof cases
    case 1
    then show ?thesis by (rule next_running [OF n t])
  next
    case 2
    then show ?thesis by (rule next_released [OF n main i t])
  next
    case 3
    then show ?thesis by (rule next_recycle [OF n main i t])
  qed
qed

lemma next_leads:
  assumes n: "next_is g eid fs f s"
  shows "\<exists>s''. leads dflt rst s s'' \<and> has_started eid fs f s''"
proof (cases "c_main s = MLoop")
  case True
  then show ?thesis by (rule drain_internal [OF n]) (rule next_drained)
next
  case False
  then have m: "c_main s = MAwait None" using n by (auto simp: next_is_def serving_def)
  have a: "em_act dflt rst MainProceed s = Some (s\<lparr>c_main := MLoop\<rparr>)"
    by (simp add: main_proceed_def m spawn_task_def)
  have "next_is g eid fs f (s\<lparr>c_main := MLoop\<rparr>)"
    by (rule next_is_step [OF n a, where l = "[]"]) (simp_all add: serving_def)
  then have "\<exists>s''. leads dflt rst (s\<lparr>c_main := MLoop\<rparr>) s'' \<and> has_started eid fs f s''"
    by (rule drain_internal) (auto intro: next_drained)
  then show ?thesis using leads_step [OF a] by auto
qed

section \<open>Shutting down\<close>

text \<open>
  A soft shutdown sends a command to every inbox.  The inbox of an entity that is being
  recycled is held by the handle, so nobody reads it before the end of the shutdown: if it is
  full, the send waits for ever.
\<close>

definition stuck_at :: "'id \<Rightarrow> chan_id \<Rightarrow> 'id list \<Rightarrow> ('id, 'g, 's, 'f) config \<Rightarrow> bool" where
  "stuck_at eid c ids s \<longleftrightarrow>
     (\<exists>rest. c_main s = MShutdown ids rest \<and> eid \<in> set rest \<and> set rest \<subseteq> dom (as_live (c_state s)))
   \<and> (\<exists>d. as_live (c_state s) eid = Some (ShuttingDown c d))
   \<and> (\<forall>i h. as_live (c_state s) i = Some h \<longrightarrow> i \<noteq> eid \<longrightarrow> handle_send h \<noteq> c)
   \<and> send_state c (c_world s) = Full
   \<and> (\<forall>t p. c_tasks s t = Some p \<longrightarrow> p_recv p = c
        \<longrightarrow> p_pc p \<in> {IdleShutdown, AtComplete, EDone, EPanicked})"

lemma send_state_upd:
  "d \<noteq> c \<Longrightarrow> send_state c (upd_chan d h w) = send_state c w"
  "send_state c (log_event e w) = send_state c w"
  "send_state c (w\<lparr>w_internal := ms\<rparr>) = send_state c w"
  by (simp_all add: send_state_def em_simps)

lemma stuck_entity:
  assumes "entity_step e p w = Some (p', w')"
    "p_recv p = c \<longrightarrow> p_pc p \<in> {IdleShutdown, AtComplete, EDone, EPanicked}"
  shows "send_state c w' = send_state c w" "p_recv p' = p_recv p"
    "p_recv p' = c \<longrightarrow> p_pc p' \<in> {IdleShutdown, AtComplete, EDone, EPanicked}"
  using assms
  by (cases e; auto simp: entity_recv_def entity_task_done_def entity_proceed_def entity_touch_def
      entity_panic_def internal_send_def Let_def em_simps send_state_upd in_user_code_def
      split: if_splits list.splits ecmd.splits epc.splits)+

lemma stuck_at_client: "stuck_at eid c ids (s\<lparr>c_inbox := x\<rparr>) = stuck_at eid c ids s"
  "stuck_at eid c ids (s\<lparr>c_clients := b\<rparr>) = stuck_at eid c ids s"
  by (simp_all add: stuck_at_def)

lemma stuck_step:
  assumes s: "stuck_at eid c ids s" and step: "em_act dflt rst a s = Some s'"
  shows "stuck_at eid c ids s'"
proof (cases a)
  case (MainJoin t)
  then show ?thesis using step s
    by (auto simp: main_join_def stuck_at_def split: option.splits if_splits)
next
  case MainProceed
  obtain rest where rest: "c_main s = MShutdown ids rest" "eid \<in> set rest"
    "set rest \<subseteq> dom (as_live (c_state s))"
    using s by (auto simp: stuck_at_def)
  obtain i js where i: "rest = i # js" using rest(2) by (cases rest) auto
  obtain h where h: "as_live (c_state s) i = Some h" using rest(3) i by auto
  have "i \<noteq> eid"
  proof
    assume "i = eid"
    then show False using step s MainProceed rest(1) i by (auto simp: main_proceed_def stuck_at_def)
  qed
  then have "handle_send h \<noteq> c" using s h by (auto simp: stuck_at_def)
  then have s': "c_main s' = MShutdown ids js" "c_state s' = c_state s" "c_tasks s' = c_tasks s"
    "send_state c (c_world s') = send_state c (c_world s)"
    using step MainProceed rest(1) i h
    by (cases "send_state (handle_send h) (c_world s)";
        auto simp: main_proceed_def push_cmd_def send_state_upd)+
  have "eid \<in> set js" "set js \<subseteq> dom (as_live (c_state s))"
    using rest i \<open>i \<noteq> eid\<close> by auto
  then show ?thesis using s by (simp add: stuck_at_def s')
next
  case (Entity t e)
  then obtain p p' w where t: "c_tasks s t = Some p" "entity_step e p (c_world s) = Some (p', w)"
    "s' = s\<lparr>c_tasks := (c_tasks s)(t \<mapsto> p'), c_world := w\<rparr>"
    using step by (auto simp: entity_action_def split: option.splits)
  then show ?thesis using s stuck_entity [OF t(2), of c] by (auto simp: stuck_at_def)
next
  case (MainCommand xs)
  then show ?thesis using step s by (auto simp: stuck_at_def main_command_def)
next
  case MainTick
  then show ?thesis using step s by (auto simp: stuck_at_def main_tick_def)
qed (use step s in \<open>auto simp: client_send_def stuck_at_client split: if_splits\<close>)

lemma stuck_run:
  "stuck_at eid c ids s \<Longrightarrow> em_run dflt rst as s = Some s' \<Longrightarrow> stuck_at eid c ids s'"
  by (induction as arbitrary: s) (auto simp: bind_eq_Some_conv intro: stuck_step)

lemma stuck_start:
  assumes inv: "em_inv g s" and live: "as_live (c_state s) eid = Some (ShuttingDown c d)"
    and full: "send_state c (c_world s) = Full"
    and ids: "set ids = dom (as_live (c_state s))"
  shows "stuck_at eid c ids (s\<lparr>c_inbox := cs, c_main := MShutdown ids ids\<rparr>)"
proof -
  note I = em_invD [OF inv]
  have "handle_send h \<noteq> c" if "as_live (c_state s) i = Some h" "i \<noteq> eid" for i h
    using chans_inv_inj [OF I(2) that(1) live] that(2) by auto
  moreover have "p_pc p \<in> {IdleShutdown, AtComplete, EDone, EPanicked}"
    if p: "c_tasks s t = Some p" "p_recv p = c" for t p
  proof (cases "active p")
    case True
    then have "owning p \<and> as_live (c_state s) (p_id p) = Some (Live c) \<or> released p"
      using phase_task(2) [OF I(1) p(1)] p(2) by (auto elim!: phase_taskE)
    moreover have "as_live (c_state s) (p_id p) \<noteq> Some (Live c)"
      using chans_inv_inj [OF I(2) _ live, of "p_id p" "Live c"] live by auto
    ultimately show ?thesis by (auto simp: released_def)
  qed (auto simp: active_def)
  ultimately show ?thesis using live full ids by (auto simp: stuck_at_def)
qed

lemma em_run_reach:
  "em_reach dflt rst g opts s \<Longrightarrow> em_run dflt rst as s = Some s' \<Longrightarrow> em_reach dflt rst g opts s'"
  by (induction as arbitrary: s) (auto simp: bind_eq_Some_conv intro: em_reach.act)

lemma em_run_append:
  "em_run dflt rst (as @ bs) s = Option.bind (em_run dflt rst as s) (em_run dflt rst bs)"
  by (induction as arbitrary: s) (auto split: bind_split)

section \<open>Properties\<close>

lemmas em_eval = em_new_def actor_state_new_def client_send_def main_command_def main_spawn_def
  spawn_boxed_def get_or_create_def mpsc_channel_def send_state_def push_cmd_def pop_cmd_def
  upd_chan_def log_event_def spawn_task_def run_actor_def entity_action_def entity_recv_def
  goto_def set_tasks_def entity_task_done_def entity_proceed_def internal_send_def main_tick_def
  tick_def tick_shutdown_def tick_complete_def em_recycle_def actor_recycle_def main_join_def
  main_proceed_def drop_state_def drop_sender_def drop_recv_def Let_def

text \<open>
  An entity that becomes idle, is asked for a second closure while it is recycled, and the
  manager is shut down.
\<close>

definition small_inbox :: em_options where
  "small_inbox = em_options_default\<lparr>entity_inbox_size := 1\<rparr>"

definition recycle_run :: "(nat, unit, nat) action list" where
  "recycle_run = [ClientSend (MSpawn 7 1), MainCommand [], Entity 0 ERecv, Entity 0 EProceed,
     Entity 0 (ETask 0), Entity 0 EProceed, Entity 0 EProceed, MainTick, ClientSend (MSpawn 7 2), MainCommand [],
     ClientSend MShutdownAll]"

definition recycle_config :: "(nat, unit, unit, nat) config" where
  "recycle_config = the (em_run () (\<lambda>x. x) recycle_run (em_new () small_inbox))"

lemma recycle_config_run:
  "em_run () (\<lambda>x. x) recycle_run (em_new () small_inbox) = Some recycle_config"
  unfolding recycle_config_def
  by (simp add: recycle_run_def em_eval small_inbox_def em_options_default_def)


lemma recycle_config_facts:
  "em_options_ok small_inbox" "em_reach () (\<lambda>x. x) () small_inbox recycle_config"
  "c_main recycle_config = MLoop" "c_inbox recycle_config = [MShutdownAll]"
  "as_live (c_state recycle_config) 7 = Some (ShuttingDown 0 0)"
  "as_live (c_state recycle_config) = [7 \<mapsto> ShuttingDown 0 0]"
  "send_state 0 (c_world recycle_config) = Full"
  "accepted_of 7 (w_log (c_world recycle_config)) = [1, 2]"
  "started_of 7 (w_log (c_world recycle_config)) = [1]"
  "\<not> has_panicked (c_world recycle_config) 7"
proof -
  show "em_reach () (\<lambda>x. x) () small_inbox recycle_config"
    by (rule em_run_reach [OF em_reach.start recycle_config_run])
qed (simp_all add: recycle_config_def recycle_run_def em_eval small_inbox_def em_options_default_def
    em_options_ok_def accepted_of_def started_of_def)

text \<open>
  C17. In every reachable configuration, before, during and after a shutdown: the main actor has
  not panicked, so none of the assertions of recycling fails; no tick met an unknown entity or
  one in the wrong state; two running actors belong to different entities; every closure that
  was called in an active entity got the state of its own entity and the global state; a
  closure is told that its entity is dead only after user code of this entity panicked; and the
  pool stays within its capacity.
\<close>

theorem entity_manager_safe:
  assumes "em_options_ok opts" "em_reach dflt rst g opts s"
  shows "c_main s \<noteq> MPanicked
    \<and> (\<forall>eid. TickError eid \<notin> set (w_log (c_world s)))
    \<and> (\<forall>t t' p p'. c_tasks s t = Some p \<longrightarrow> c_tasks s t' = Some p' \<longrightarrow> active p \<longrightarrow> active p'
         \<longrightarrow> p_id p = p_id p' \<longrightarrow> t = t')
    \<and> (\<forall>eid f st. Called eid f (Active st) \<in> set (w_log (c_world s))
         \<longrightarrow> es_id st = eid \<and> es_global st = g)
    \<and> (\<forall>eid f. Called eid f Dead \<in> set (w_log (c_world s))
         \<longrightarrow> Panicked eid \<in> set (w_log (c_world s)))
    \<and> length (as_pool (c_state s)) \<le> as_capacity (c_state s)"
proof -
  have safe: "em_safe g s" and m: "serving s \<or> stopping s" using reach_safe [OF assms] by auto
  have ev: "event_safe g e" if "e \<in> set (w_log (c_world s))" for e
    using safe that by (simp add: em_safe_def)
  have "c_main s \<noteq> MPanicked" using m by (auto simp: serving_def stopping_def)
  moreover have "TickError eid \<notin> set (w_log (c_world s))" for eid
    using ev by (force simp: event_safe_def)
  moreover have "es_id st = eid \<and> es_global st = g"
    if "Called eid f (Active st) \<in> set (w_log (c_world s))" for eid f st
    using ev [OF that] by (simp add: event_safe_def)
  moreover have "t = t'" if "c_tasks s t = Some p" "c_tasks s t' = Some p'" "active p" "active p'"
    "p_id p = p_id p'" for t t' p p'
    using safe that unfolding em_safe_def by metis
  ultimately show ?thesis using safe unfolding em_safe_def dead_ok_def by blast
qed

theorem entity_manager_safe_witness:
  "c_main recycle_config \<noteq> MPanicked \<and> length (as_pool (c_state recycle_config)) \<le> 10
   \<and> (\<forall>eid. TickError eid \<notin> set (w_log (c_world recycle_config)))"
proof -
  have "as_capacity (c_state recycle_config) = 10"
    by (simp add: recycle_config_def recycle_run_def em_eval small_inbox_def em_options_default_def)
  then show ?thesis using entity_manager_safe [OF recycle_config_facts(1,2)] by simp
qed

text \<open>
  C18. An entity is a queue: the closures that its actors have started are a prefix of those that
  were accepted, in the same order and each once, over all restarts and reuses of actors.  As long
  as the manager serves commands and no user code of the entity panics nothing is lost: the
  accepted closures are the started ones followed by those in the inbox of the entity.
\<close>

theorem entity_fifo:
  assumes "em_options_ok opts" "em_reach dflt rst g opts s"
  shows "prefix (started_of eid (w_log (c_world s))) (accepted_of eid (w_log (c_world s)))
    \<and> (serving s \<longrightarrow> \<not> has_panicked (c_world s) eid \<longrightarrow>
       accepted_of eid (w_log (c_world s)) =
         started_of eid (w_log (c_world s)) @ pending_of eid (c_state s) (c_world s))"
  using reach_safe [OF assms] em_invD(4) [OF reach_serving [OF assms]]
  by (auto simp: em_safe_def fifo_inv_def)

theorem entity_fifo_witness:
  "prefix [1] [1, 2 :: nat]
   \<and> [1, 2] = [1] @ pending_of 7 (c_state recycle_config) (c_world recycle_config)"
  using entity_fifo [OF recycle_config_facts(1,2), of 7] recycle_config_facts(3,8-10)
  by (simp add: serving_def)

text \<open>
  C27. No accepted closure waits for ever for the manager: from every reachable configuration in
  which the manager serves commands, no user code of the entity has panicked and the entity has an
  accepted closure that is not started, the actions of the manager's own tasks, among them the return
  of the closures and of \<open>on_shutdown\<close> that they await, lead to the start of the oldest one, whatever
  tasks are running, however full the channels are and in whatever stage of its recycling the entity is.
\<close>

theorem entity_progress:
  assumes "em_options_ok opts" "em_reach dflt rst g opts s" "serving s"
    "\<not> has_panicked (c_world s) eid" "pending_of eid (c_state s) (c_world s) = f # fs"
  shows "\<exists>as s'. list_all system_action as \<and> em_run dflt rst as s = Some s'
    \<and> started_of eid (w_log (c_world s')) = started_of eid (w_log (c_world s)) @ [f]"
proof -
  have inv: "em_inv g s" by (rule reach_serving [OF assms(1-3)])
  have "accepted_of eid (w_log (c_world s)) = started_of eid (w_log (c_world s)) @ f # fs"
    using em_invD(4) [OF inv] assms(4,5) by (simp add: fifo_inv_def)
  then have "next_is g eid (started_of eid (w_log (c_world s))) f s"
    using inv assms(3,4) by (simp add: next_is_def)
  from next_leads [OF this, of dflt rst] show ?thesis unfolding leads_def by blast
qed

theorem entity_progress_witness:
  "\<exists>as s'. list_all system_action as \<and> em_run () (\<lambda>x. x) as recycle_config = Some s'
    \<and> started_of 7 (w_log (c_world s')) = [1, 2]"
proof -
  have "pending_of 7 (c_state recycle_config) (c_world recycle_config) = [2]"
    by (simp add: recycle_config_def recycle_run_def em_eval small_inbox_def em_options_default_def
        pending_of_def cmd_f_def)
  then show ?thesis
    using entity_progress [OF recycle_config_facts(1,2) _ recycle_config_facts(10)]
      recycle_config_facts(3,9) by (simp add: serving_def)
qed

text \<open>
  C29. A soft shutdown that meets an entity with a full inbox in the middle of its recycling never
  ends: the main actor waits for room in an inbox whose receiver it holds itself, so in every
  continuation it is still sending shutdown commands.
\<close>

theorem shutdown_deadlock:
  assumes "em_options_ok opts" "em_reach dflt rst g opts s"
    "c_main s = MLoop" "c_inbox s = MShutdownAll # cs"
    "as_live (c_state s) eid = Some (ShuttingDown c d)" "send_state c (c_world s) = Full"
    "em_run dflt rst (MainCommand ids # as) s = Some s'"
  shows "\<exists>rest. c_main s' = MShutdown ids rest \<and> eid \<in> set rest"
proof -
  have ids: "set ids = dom (as_live (c_state s))"
    and run: "em_run dflt rst as (s\<lparr>c_inbox := cs, c_main := MShutdown ids ids\<rparr>) = Some s'"
    using assms(3,4,7) by (auto simp: main_command_def split: if_splits)
  have "em_inv g s" using reach_serving [OF assms(1,2)] assms(3) by (simp add: serving_def)
  from stuck_run [OF stuck_start [OF this assms(5,6) ids] run] show ?thesis
    by (auto simp: stuck_at_def)
qed



theorem shutdown_deadlock_witness:
  "\<exists>s' rest. em_run () (\<lambda>x. x) [MainCommand [7], Entity 0 EProceed, Entity 0 EProceed] recycle_config
      = Some s' \<and> c_main s' = MShutdown [7] rest \<and> 7 \<in> set rest"
proof -
  let ?as = "[Entity 0 EProceed, Entity 0 EProceed]"
  have "em_run () (\<lambda>x. x) (MainCommand [7] # ?as) recycle_config \<noteq> None"
    by (simp add: recycle_config_def recycle_run_def em_eval small_inbox_def em_options_default_def)
  then obtain s' where run: "em_run () (\<lambda>x. x) (MainCommand [7] # ?as) recycle_config = Some s'"
    by blast
  from shutdown_deadlock [OF recycle_config_facts(1-5,7) run] run show ?thesis by blast
qed

text \<open>
  An entity that is asked for more while it is recycled loses the accepted closures when the
  manager is shut down, although the shutdown is answered.
\<close>

lemma soft_shutdown_loses:
  "\<exists>s :: (nat, unit, unit, nat) config. em_reach () (\<lambda>x. x) () em_options_default s
     \<and> c_main s = MDone \<and> \<not> has_panicked (c_world s) 7
     \<and> accepted_of 7 (w_log (c_world s)) = [1, 2] \<and> started_of 7 (w_log (c_world s)) = [1]"
proof -
  let ?as = "recycle_run @ [MainCommand [7], MainProceed, MainProceed, Entity 0 EProceed,
    Entity 0 EProceed, MainJoin 0, MainProceed]"
  let ?s = "em_run () (\<lambda>x. x) ?as (em_new () em_options_default)"
  have "?s \<noteq> None \<and> c_main (the ?s) = MDone \<and> \<not> has_panicked (c_world (the ?s)) 7
     \<and> accepted_of 7 (w_log (c_world (the ?s))) = [1, 2]
     \<and> started_of 7 (w_log (c_world (the ?s))) = [1]"
    by (simp add: recycle_run_def em_eval em_options_default_def accepted_of_def started_of_def)
  then show ?thesis using em_run_reach [OF em_reach.start, of "()" "\<lambda>x. x" ?as] by fastforce
qed

lemma spawn_task_new:
  "c_tasks s t = None \<Longrightarrow> c_tasks (spawn_task task s) t = Some p
    \<Longrightarrow> \<exists>a. task = Some a \<and> p = run_actor a"
  by (auto simp: spawn_task_def split: option.splits if_splits)

lemma get_or_create_fresh:
  assumes "get_or_create dflt rst eid st w = (h, Some a, st', w')" "\<And>x. rst x = dflt" "pool_inv st w"
  shows "es_state (ea_state a) = dflt \<and> ea_tasks a = []"
proof (cases "as_pool st" rule: rev_cases)
  case Nil
  then show ?thesis using assms(1)
    by (auto simp: get_or_create_def Let_def split: option.splits prod.splits)
next
  case (snoc xs y)
  then have "ea_tasks (snd y) = []" using assms(3) by (auto simp: pool_inv_def)
  then show ?thesis using assms(1,2) snoc
    by (auto simp: get_or_create_def Let_def split: option.splits prod.splits)
qed

lemma tick_complete_fresh:
  assumes "tick_complete rst es ts st w = Some (Some a, st', w')" "\<And>x. rst x = dflt"
  shows "es_state (ea_state a) = dflt \<and> ea_tasks a = ts"
  using assms by (auto simp: tick_complete_def Let_def split: option.splits handle.splits if_splits)

text \<open>
  C28. Actors never see the state of an earlier entity or of an earlier life of their entity:
  whatever action starts a task of an entity actor, new, taken from the pool or restarted, the
  task starts at the top of its loop with the default state and without running closures.
\<close>

theorem entity_starts_fresh:
  assumes "em_options_ok opts" "em_reach dflt rst g opts s" "\<And>x. rst x = dflt"
    "em_act dflt rst a s = Some s'" "c_tasks s t = None" "c_tasks s' t = Some p"
  shows "es_state (p_state p) = dflt \<and> p_tasks p = [] \<and> p_pc p = AtSelect"
proof -
  have inv: "em_inv g s" if "c_main s = MLoop"
    using reach_serving [OF assms(1,2)] that by (simp add: serving_def)
  have "\<exists>x. p = run_actor x \<and> es_state (ea_state x) = dflt \<and> ea_tasks x = []"
  proof (cases a)
    case (MainCommand ids)
    then obtain eid f cs where main: "c_main s = MLoop"
      and s': "s' = main_spawn dflt rst eid f (s\<lparr>c_inbox := cs\<rparr>)"
      using assms(4-6) by (auto simp: main_command_def split: if_splits list.splits mcmd.splits)
    obtain h task st w where goc: "get_or_create dflt rst eid (c_state s) (c_world s) = (h, task, st, w)"
      by (cases "get_or_create dflt rst eid (c_state s) (c_world s)") auto
    then obtain x where x: "task = Some x" "p = run_actor x"
      using s' assms(5,6) by (auto simp: main_spawn_def spawn_boxed_def Let_def
          dest!: spawn_task_new [rotated] split: send_result.splits if_splits)
    then show ?thesis
      using get_or_create_fresh [OF goc [unfolded x(1)] assms(3) em_invD(3) [OF inv [OF main]]]
      by blast
  next
    case MainTick
    then have main: "c_main s = MLoop" using assms(4) by (auto simp: main_tick_def split: if_splits)
    then obtain m ms where q: "w_internal (c_world s) = m # ms"
      using assms(4) MainTick by (auto simp: main_tick_def split: list.splits)
    obtain x es ts st w where x: "m = ShutdownComplete es ts" "p = run_actor x"
      "tick_complete rst es ts (c_state s) ((c_world s)\<lparr>w_internal := ms\<rparr>) = Some (Some x, st, w)"
      using assms(4-6) MainTick main q
      by (cases m) (auto simp: main_tick_def tick_def dest!: spawn_task_new [rotated]
          split: option.splits prod.splits)
    have "ts = []"
      using phase_head [OF em_invD(1) [OF inv [OF main]] q [unfolded x(1)]]
      by (auto elim!: phase_msgE)
    then show ?thesis using tick_complete_fresh [OF x(3) assms(3)] x(2) by blast
  next
    case MainProceed
    have "serving s \<or> stopping s" using reach_safe [OF assms(1,2)] by blast
    then show ?thesis using assms(4-6) MainProceed
      by (auto simp: main_proceed_def serving_def stopping_def spawn_task_def Let_def
          split: list.splits send_result.splits if_splits)
  qed (use assms(4-6) in \<open>auto simp: client_send_def main_join_def entity_action_def
      split: option.splits if_splits\<close>)
  then show ?thesis by (auto simp: run_actor_def)
qed

theorem entity_starts_fresh_witness:
  "\<exists>s' p. em_act () (\<lambda>x. x) (MainCommand [])
      ((em_new () em_options_default)\<lparr>c_inbox := [MSpawn (7 :: nat) (1 :: nat)]\<rparr>) = Some s'
    \<and> c_tasks s' 0 = Some p \<and> p_tasks p = [] \<and> p_pc p = AtSelect"
proof -
  let ?s = "(em_new () em_options_default)\<lparr>c_inbox := [MSpawn (7 :: nat) (1 :: nat)]\<rparr>
    :: (nat, unit, unit, nat) config"
  have "em_act () (\<lambda>x. x) (ClientSend (MSpawn 7 1)) (em_new () em_options_default) = Some ?s"
    by (simp add: client_send_def em_new_def em_options_default_def)
  then have reach: "em_reach () (\<lambda>x. x) () em_options_default ?s"
    by (rule em_reach.act [OF em_reach.start])
  obtain s' p where s': "em_act () (\<lambda>x. x) (MainCommand []) ?s = Some s'" "c_tasks s' 0 = Some p"
    by (simp add: em_eval em_options_default_def)
  have "es_state (p_state p) = () \<and> p_tasks p = [] \<and> p_pc p = AtSelect"
    by (rule entity_starts_fresh [OF _ reach _ s'(1) _ s'(2)])
      (simp_all add: em_options_ok_def em_options_default_def em_new_def)
  then show ?thesis using s' by blast
qed

end
