(* ===== verification/Files.thy ===== *)
theory Files
  imports Entry_State Delete_Set Mem_Storage
begin

text \<open>
  Files as the file store uses them: names, open handles and their content.  A name leads to a
  file, a handle stays with the file when the name is moved or removed.  Every operation may
  fail: the next element of a list of faults says whether it does, how much of a write is done
  before it fails, or how short a read or write is.  Positioned writes have the effect of
  \<open>io_write\<close>, the parameter that stands for the trait \<open>WriteAt\<close> of \<open>bao-tree\<close>.

  On top of this the theory has the helpers \<open>create_read_write\<close>, \<open>read_to_end\<close> and \<open>read_size\<close> of
  \<open>src/src/store/fs/bao_file.rs\<close>, the paths of \<open>src/src/store/fs/options.rs\<close>, the checksummed files of
  \<open>src/src/store/util.rs\<close> and the persisting of sparse files and sizes.
\<close>

section \<open>The file system\<close>

datatype fault = NoFault | IoFault io_error nat | ShortIo nat

record fsys =
  fs_names :: "path \<rightharpoonup> nat"
  fs_content :: "nat \<Rightarrow> bytes"
  fs_fresh :: nat
  fs_faults :: "fault list"

text \<open>
  Computations that read and change the file system and may fail or panic; the operator \<open>?\<close> is
  \<open>io_then\<close>.
\<close>

datatype failure = Fails io_error | Panics

type_synonym ('z, 'a) io = "'z fsys_scheme \<Rightarrow> (failure + 'a) \<times> 'z fsys_scheme"

definition io_ok :: "'a \<Rightarrow> ('z, 'a) io" where
  "io_ok x w = (Inr x, w)"

definition io_err :: "io_error \<Rightarrow> ('z, 'a) io" where
  "io_err e w = (Inl (Fails e), w)"

definition io_then :: "('z, 'a) io \<Rightarrow> ('a \<Rightarrow> ('z, 'b) io) \<Rightarrow> ('z, 'b) io" where
  "io_then m k w = (case m w of (Inl e, w1) \<Rightarrow> (Inl e, w1) | (Inr x, w1) \<Rightarrow> k x w1)"

definition pop_fault :: "'z fsys_scheme \<Rightarrow> fault \<times> 'z fsys_scheme" where
  "pop_fault w = (case fs_faults w of [] \<Rightarrow> (NoFault, w) | f # fs \<Rightarrow> (f, w\<lparr>fs_faults := fs\<rparr>))"

text \<open>An operation that has no effect if it fails.\<close>

definition guarded :: "('z, 'a) io \<Rightarrow> ('z, 'a) io" where
  "guarded m w = (case pop_fault w of (IoFault e _, w1) \<Rightarrow> (Inl (Fails e), w1) | (_, w1) \<Rightarrow> m w1)"

definition set_content :: "nat \<Rightarrow> bytes \<Rightarrow> 'z fsys_scheme \<Rightarrow> 'z fsys_scheme" where
  "set_content i bs w = w\<lparr>fs_content := (fs_content w)(i := bs)\<rparr>"

definition new_file :: "path \<Rightarrow> ('z, nat) io" where
  "new_file p w = (Inr (fs_fresh w),
     w\<lparr>fs_names := (fs_names w)(p \<mapsto> fs_fresh w),
       fs_content := (fs_content w)(fs_fresh w := []),
       fs_fresh := Suc (fs_fresh w)\<rparr>)"

text \<open>\<open>File::open\<close> and \<open>File::create\<close>\<close>

definition fs_open :: "path \<Rightarrow> ('z, nat) io" where
  "fs_open p = guarded (\<lambda>w. case fs_names w p of None \<Rightarrow> (Inl (Fails NotFoundIo), w) | Some i \<Rightarrow> (Inr i, w))"

definition fs_create :: "path \<Rightarrow> ('z, nat) io" where
  "fs_create p = guarded (\<lambda>w. case fs_names w p of
     None \<Rightarrow> new_file p w | Some i \<Rightarrow> (Inr i, set_content i [] w))"

definition fs_sync :: "nat \<Rightarrow> ('z, unit) io" where
  "fs_sync i = guarded (\<lambda>w. (Inr (), w))"

definition fs_truncate :: "nat \<Rightarrow> ('z, unit) io" where
  "fs_truncate i = guarded (\<lambda>w. (Inr (), set_content i [] w))"

definition fs_len :: "nat \<Rightarrow> ('z, nat) io" where
  "fs_len i = guarded (\<lambda>w. (Inr (length (fs_content w i)), w))"

text \<open>\<open>rename\<close> replaces the file that the target names.\<close>

definition fs_rename :: "path \<Rightarrow> path \<Rightarrow> ('z, unit) io" where
  "fs_rename a b = guarded (\<lambda>w. case fs_names w a of
     None \<Rightarrow> (Inl (Fails NotFoundIo), w)
   | Some i \<Rightarrow> (Inr (), w\<lparr>fs_names := (fs_names w)(a := None, b \<mapsto> i)\<rparr>))"

text \<open>
  A positioned read yields at least one byte unless it is at the end of the file; a positioned
  write may be short; \<open>write_all_at\<close> writes everything or fails on the way.
\<close>

definition fs_read_at :: "nat \<Rightarrow> nat \<Rightarrow> nat \<Rightarrow> ('z, bytes) io" where
  "fs_read_at i off n w = (case pop_fault w of
     (IoFault e _, w1) \<Rightarrow> (Inl (Fails e), w1)
   | (ShortIo k, w1) \<Rightarrow> (Inr (take (min n (max 1 k)) (drop off (fs_content w i))), w1)
   | (NoFault, w1) \<Rightarrow> (Inr (take n (drop off (fs_content w i))), w1))"

definition fs_write_at :: "io_ops \<Rightarrow> nat \<Rightarrow> u64 \<Rightarrow> bytes \<Rightarrow> ('z, nat) io" where
  "fs_write_at Io i off buf w = (case pop_fault w of
     (IoFault e n, w1) \<Rightarrow> (Inl (Fails e), w1)
   | (ShortIo n, w1) \<Rightarrow>
       (Inr (min n (length buf)), set_content i (io_write Io (fs_content w i) off (take n buf)) w1)
   | (NoFault, w1) \<Rightarrow>
       (Inr (length buf), set_content i (io_write Io (fs_content w i) off buf) w1))"

definition fs_write_all_at :: "io_ops \<Rightarrow> nat \<Rightarrow> u64 \<Rightarrow> bytes \<Rightarrow> ('z, unit) io" where
  "fs_write_all_at Io i off buf w = (case pop_fault w of
     (IoFault e n, w1) \<Rightarrow> (Inl (Fails e), set_content i (io_write Io (fs_content w i) off (take n buf)) w1)
   | (_, w1) \<Rightarrow> (Inr (), set_content i (io_write Io (fs_content w i) off buf) w1))"

section \<open>Paths\<close>

definition ascii :: "string \<Rightarrow> bytes" where
  "ascii s = map (\<lambda>c. of_nat (of_char c)) s"

record path_options =
  po_data :: path
  po_temp :: path

fun part_suffix :: "bao_file_part \<Rightarrow> bytes" where
  "part_suffix DataPart = ascii ''.data''"
| "part_suffix OutboardPart = ascii ''.obao4''"
| "part_suffix SizesPart = ascii ''.sizes4''"
| "part_suffix BitfieldPart = ascii ''.bitfield''"

definition file_path :: "hex_ops \<Rightarrow> path_options \<Rightarrow> hash \<Rightarrow> bao_file_part \<Rightarrow> path" where
  "file_path X po h part = po_data po @ [hash_to_string X h @ part_suffix part]"

section \<open>Helpers of the file store\<close>

definition create_read_write :: "path \<Rightarrow> ('z, nat) io" where
  "create_read_write p = guarded (\<lambda>w. case fs_names w p of
     None \<Rightarrow> new_file p w | Some i \<Rightarrow> (Inr i, w))"

text \<open>\<open>read_to_end\<close> reads in pieces of at most 4096 bytes.\<close>

function (sequential) read_loop :: "nat \<Rightarrow> nat \<Rightarrow> nat \<Rightarrow> bytes \<Rightarrow> ('z, bytes) io" where
  "read_loop i off remaining res w =
     (if remaining = 0 then (Inr res, w)
      else case fs_read_at i off (min 4096 remaining) w of
        (Inl e, w1) \<Rightarrow> (Inl e, w1)
      | (Inr buf, w1) \<Rightarrow>
          if buf = [] then (Inr res, w1)
          else read_loop i (off + length buf) (remaining - length buf) (res @ buf) w1)"
  by pat_completeness auto
termination
  by (relation "measure (\<lambda>(i, off, remaining, res, w). remaining)") auto

definition read_to_end :: "nat \<Rightarrow> nat \<Rightarrow> nat \<Rightarrow> ('z, bytes) io" where
  "read_to_end i off max_len = read_loop i off max_len []"

text \<open>
  \<open>read_exact_at\<close> of the trait \<open>ReadAt\<close> repeats short reads.
\<close>

definition read_exact_at :: "nat \<Rightarrow> nat \<Rightarrow> nat \<Rightarrow> ('z, bytes) io" where
  "read_exact_at i off n =
     io_then (read_loop i off n []) (\<lambda>buf. if length buf < n then io_err UnexpectedEof else io_ok buf)"

definition read_size :: "nat \<Rightarrow> ('z, u64) io" where
  "read_size i = io_then (fs_len i) (\<lambda>len.
     if len < 8 then io_ok 0
     else let len = len - len mod 8 in
       io_then (read_exact_at i (len - 8) 8) (\<lambda>buf. io_ok (from_le_bytes buf)))"

text \<open>\<open>SparseMemFile::persist\<close> ignores how much a write has written; \<open>SizeInfo::persist\<close>.\<close>

fun persist_ranges :: "io_ops \<Rightarrow> nat \<Rightarrow> (u64 \<times> bytes) list \<Rightarrow> ('z, unit) io" where
  "persist_ranges Io i [] = io_ok ()"
| "persist_ranges Io i ((start, buf) # rest) =
     io_then (fs_write_at Io i start buf) (\<lambda>_. persist_ranges Io i rest)"

definition sparse_persist_to :: "'r range_ops \<Rightarrow> io_ops \<Rightarrow> 'r sparse_mem_file \<Rightarrow> nat \<Rightarrow> ('z, unit) io" where
  "sparse_persist_to R Io f i = persist_ranges Io i (sparse_persist R f)"

definition size_persist_to :: "io_ops \<Rightarrow> size_info \<Rightarrow> nat \<Rightarrow> ('z, unit) io" where
  "size_persist_to Io s i = fs_write_all_at Io i (size_info_slot s) (to_le_bytes (si_size s))"

text \<open>
  Checksummed files: the serialized value after its checksum.  \<open>postcard\<close> and \<open>blake3\<close> are
  parameters.
\<close>

record 'r serial_ops =
  se_encode :: "'r bitfield \<Rightarrow> bytes"
  se_decode :: "bytes \<Rightarrow> 'r bitfield option"
  se_checksum :: "bytes \<Rightarrow> bytes"

definition write_checksummed :: "io_ops \<Rightarrow> 'r serial_ops \<Rightarrow> path \<Rightarrow> 'r bitfield \<Rightarrow> ('z, unit) io" where
  "write_checksummed Io S p bf =
     (let data = se_encode S bf; buffer = se_checksum S data @ data in
      io_then (fs_create p) (\<lambda>i.
      io_then (fs_write_all_at Io i 0 buffer) (\<lambda>_.
      fs_sync i)))"

definition check_buffer :: "'r serial_ops \<Rightarrow> bytes \<Rightarrow> io_error + 'r bitfield" where
  "check_buffer S buffer =
     (if buffer = [] then Inl InvalidData
      else if length buffer < 32 then Inl InvalidData
      else let stored_hash = take 32 buffer; data = drop 32 buffer in
        if se_checksum S data \<noteq> stored_hash then Inl InvalidData
        else case se_decode S data of None \<Rightarrow> Inl OtherIo | Some bf \<Rightarrow> Inr bf)"

definition read_checksummed_and_truncate :: "'r serial_ops \<Rightarrow> path \<Rightarrow> ('z, 'r bitfield) io" where
  "read_checksummed_and_truncate S p =
     io_then (fs_open p) (\<lambda>i.
     io_then (guarded (\<lambda>w. (Inr (fs_content w i), w))) (\<lambda>buffer.
     io_then (fs_truncate i) (\<lambda>_.
     io_then (fs_sync i) (\<lambda>_ w.
     case check_buffer S buffer of Inl e \<Rightarrow> io_err e w | Inr bf \<Rightarrow> io_ok bf w))))"

section \<open>Lemmas\<close>

lemma io_simps [simp]: "io_ok x w = (Inr x, w)" "io_err e w = (Inl (Fails e), w)"
  by (simp_all add: io_ok_def io_err_def)

lemma io_then_Inr:
  "io_then m k w = (Inr y, w') \<longleftrightarrow> (\<exists>x w1. m w = (Inr x, w1) \<and> k x w1 = (Inr y, w'))"
  by (auto simp: io_then_def split: prod.splits sum.splits)

lemma io_then_ok: "m w = (Inr x, w1) \<Longrightarrow> io_then m k w = k x w1"
  by (simp add: io_then_def)

lemma pop_fault_same:
  "pop_fault w = (f, w1) \<Longrightarrow> \<exists>fs. w1 = w\<lparr>fs_faults := fs\<rparr> \<and> set fs \<subseteq> set (fs_faults w)
    \<and> (f = NoFault \<or> f \<in> set (fs_faults w))"
  by (auto simp: pop_fault_def intro: exI [of _ "fs_faults w"] split: list.splits)

lemma pop_faultE:
  obtains f fs where "pop_fault w = (f, w\<lparr>fs_faults := fs\<rparr>)" "set fs \<subseteq> set (fs_faults w)"
    "f = NoFault \<or> f \<in> set (fs_faults w)"
proof -
  obtain f w1 where p: "pop_fault w = (f, w1)" by (cases "pop_fault w")
  from pop_fault_same [OF p] p show thesis using that by blast
qed

lemma guarded_Inr:
  assumes "guarded m w = (Inr x, w')"
  obtains fs where "m (w\<lparr>fs_faults := fs\<rparr>) = (Inr x, w')" "set fs \<subseteq> set (fs_faults w)"
proof -
  obtain f fs where "pop_fault w = (f, w\<lparr>fs_faults := fs\<rparr>)" "set fs \<subseteq> set (fs_faults w)"
    by (rule pop_faultE)
  then show thesis using assms that by (cases f) (auto simp: guarded_def)
qed

text \<open>
  A change of the file system that keeps everything but the content of the files \<open>is\<close>.
\<close>

definition only_files :: "nat set \<Rightarrow> 'z fsys_scheme \<Rightarrow> 'z fsys_scheme \<Rightarrow> bool" where
  "only_files is w w' \<longleftrightarrow> fs_names w' = fs_names w \<and> fs_fresh w' = fs_fresh w
     \<and> fsys.more w' = fsys.more w \<and> (\<forall>j. j \<notin> is \<longrightarrow> fs_content w' j = fs_content w j)
     \<and> set (fs_faults w') \<subseteq> set (fs_faults w)"

lemma only_files_refl [simp]: "only_files is w w"
  by (simp add: only_files_def)

lemma only_files_trans: "only_files is u v \<Longrightarrow> only_files is v w \<Longrightarrow> only_files is u w"
  by (auto simp: only_files_def)

lemma only_files_mono: "only_files is u v \<Longrightarrow> is \<subseteq> js \<Longrightarrow> only_files js u v"
  unfolding only_files_def by blast

lemma only_filesD:
  assumes "only_files is w w'"
  shows "fs_names w' = fs_names w" "fs_fresh w' = fs_fresh w" "fsys.more w' = fsys.more w"
    "j \<notin> is \<Longrightarrow> fs_content w' j = fs_content w j" "set (fs_faults w') \<subseteq> set (fs_faults w)"
  using assms by (auto simp: only_files_def)

lemma fs_write_all_ok:
  assumes "fs_write_all_at Io i off buf w = (Inr x, w')"
  shows "only_files {i} w w'" "fs_content w' i = io_write Io (fs_content w i) off buf"
proof -
  obtain f fs where "pop_fault w = (f, w\<lparr>fs_faults := fs\<rparr>)" "set fs \<subseteq> set (fs_faults w)"
    by (rule pop_faultE)
  then show "only_files {i} w w'" "fs_content w' i = io_write Io (fs_content w i) off buf"
    using assms by (cases f; auto simp: fs_write_all_at_def set_content_def only_files_def)+
qed

lemma fs_sync_ok: "fs_sync i w = (Inr x, w') \<Longrightarrow> only_files {} w w'"
  unfolding fs_sync_def by (erule guarded_Inr) (force simp: only_files_def)


text \<open>Names lead to different files, and no name to a file that is not yet there.\<close>

definition fs_wf :: "'z fsys_scheme \<Rightarrow> bool" where
  "fs_wf w \<longleftrightarrow> (\<forall>p q i. fs_names w p = Some i \<longrightarrow> fs_names w q = Some i \<longrightarrow> p = q)
     \<and> (\<forall>p i. fs_names w p = Some i \<longrightarrow> i < fs_fresh w)"

lemma only_files_wf: "only_files is w w' \<Longrightarrow> fs_wf w' = fs_wf w"
  by (auto simp: fs_wf_def only_filesD(1,2))

text \<open>Opening or creating a file keeps the content of all files.\<close>

definition grows :: "'z fsys_scheme \<Rightarrow> 'z fsys_scheme \<Rightarrow> bool" where
  "grows w w' \<longleftrightarrow> fsys.more w' = fsys.more w \<and> fs_fresh w \<le> fs_fresh w'
     \<and> set (fs_faults w') \<subseteq> set (fs_faults w)
     \<and> (\<forall>p i. fs_names w p = Some i \<longrightarrow> fs_names w' p = Some i)
     \<and> (\<forall>i < fs_fresh w. fs_content w' i = fs_content w i)"

lemma grows_refl [simp]: "grows w w" by (simp add: grows_def)

lemma grows_trans: "grows u v \<Longrightarrow> grows v w \<Longrightarrow> grows u w"
  unfolding grows_def by (metis (no_types, lifting) order_trans less_le_trans)

lemma create_read_write_ok:
  assumes "create_read_write p w = (Inr i, w')"
  shows "grows w w'" "fs_names w' p = Some i" "fs_wf w \<Longrightarrow> fs_wf w'"
    "fs_names w p = None \<Longrightarrow> i = fs_fresh w \<and> fs_content w' i = []"
    "fs_names w p = Some j \<Longrightarrow> i = j"
    "q \<noteq> p \<Longrightarrow> fs_names w' q = fs_names w q"
proof -
  obtain fs where fs: "set fs \<subseteq> set (fs_faults w)"
    and m: "(case fs_names w p of None \<Rightarrow> new_file p (w\<lparr>fs_faults := fs\<rparr>)
      | Some i \<Rightarrow> (Inr i, w\<lparr>fs_faults := fs\<rparr>)) = (Inr i, w')"
    using assms unfolding create_read_write_def by (rule guarded_Inr) simp
  have "grows w w' \<and> fs_names w' p = Some i
    \<and> (fs_names w p = None \<longrightarrow> i = fs_fresh w \<and> fs_content w' i = [])
    \<and> (\<forall>j. fs_names w p = Some j \<longrightarrow> i = j) \<and> (\<forall>q. q \<noteq> p \<longrightarrow> fs_names w' q = fs_names w q)"
    using m fs by (cases "fs_names w p") (auto simp: new_file_def grows_def)
  moreover have "fs_wf w'" if wf: "fs_wf w"
  proof (cases "fs_names w p")
    case None
    have "fs_names w q \<noteq> Some (fs_fresh w)" for q using wf by (auto simp: fs_wf_def)
    then show ?thesis using wf m None unfolding fs_wf_def
      by (auto simp: new_file_def less_Suc_eq split: if_splits)
  next
    case (Some j)
    then show ?thesis using wf m by (auto simp: fs_wf_def)
  qed
  ultimately have "grows w w' \<and> fs_names w' p = Some i \<and> (fs_wf w \<longrightarrow> fs_wf w')
    \<and> (fs_names w p = None \<longrightarrow> i = fs_fresh w \<and> fs_content w' i = [])
    \<and> (\<forall>j. fs_names w p = Some j \<longrightarrow> i = j) \<and> (\<forall>q. q \<noteq> p \<longrightarrow> fs_names w' q = fs_names w q)"
    by blast
  then show "grows w w'" "fs_names w' p = Some i" "fs_wf w \<Longrightarrow> fs_wf w'"
    "fs_names w p = None \<Longrightarrow> i = fs_fresh w \<and> fs_content w' i = []"
    "fs_names w p = Some j \<Longrightarrow> i = j" "q \<noteq> p \<Longrightarrow> fs_names w' q = fs_names w q" by blast+
qed

lemma only_files_grows: "only_files {} w w' \<Longrightarrow> grows w w'"
  by (auto simp: grows_def only_filesD)

text \<open>Reading a file to the end does not depend on how the reads are cut.\<close>

lemma fs_read_at_ok:
  assumes "fs_read_at i off n w = (Inr buf, w')"
  shows "only_files {} w w'" "\<exists>k. buf = take k (drop off (fs_content w i)) \<and> k \<le> n \<and> (0 < n \<longrightarrow> 0 < k)"
proof -
  obtain f fs where "pop_fault w = (f, w\<lparr>fs_faults := fs\<rparr>)" "set fs \<subseteq> set (fs_faults w)"
    by (rule pop_faultE)
  then have "only_files {} w w' \<and> (\<exists>k. buf = take k (drop off (fs_content w i)) \<and> k \<le> n \<and> (0 < n \<longrightarrow> 0 < k))"
    using assms by (cases f) (auto simp: fs_read_at_def only_files_def)
  then show "only_files {} w w'"
    "\<exists>k. buf = take k (drop off (fs_content w i)) \<and> k \<le> n \<and> (0 < n \<longrightarrow> 0 < k)" by blast+
qed

lemma take_append_split:
  assumes "b = take k ys" "k \<le> n"
  shows "b @ take (n - length b) (drop (length b) ys) = take n ys"
proof (cases "length ys \<le> k")
  case True
  then show ?thesis using assms by simp
next
  case False
  then have "length b = k" using assms(1) by simp
  then show ?thesis using assms by (metis le_add_diff_inverse take_add)
qed

lemma read_loop_ok:
  "read_loop i off remaining res w = (Inr buf, w')
    \<Longrightarrow> only_files {} w w' \<and> buf = res @ take remaining (drop off (fs_content w i))"
proof (induction i off remaining res w rule: read_loop.induct)
  case (1 i off remaining res w)
  show ?case
  proof (cases "remaining = 0")
    case True
    then show ?thesis using "1.prems" by simp
  next
    case False
    obtain r w1 where r: "fs_read_at i off (min 4096 remaining) w = (r, w1)"
      by (cases "fs_read_at i off (min 4096 remaining) w")
    then obtain b where b: "r = Inr b" using "1.prems" False by (cases r) auto
    note rd = fs_read_at_ok [OF r [unfolded b]]
    obtain k where k: "b = take k (drop off (fs_content w i))" "k \<le> remaining" "0 < k"
      using rd(2) False by auto
    show ?thesis
    proof (cases "b = []")
      case True
      then show ?thesis using "1.prems" False r b rd(1) k by simp
    next
      case nonempty: False
      then have "read_loop i (off + length b) (remaining - length b) (res @ b) w1 = (Inr buf, w')"
        using "1.prems" False r b by simp
      from "1.IH" [OF False r [symmetric] b nonempty this]
      have ih: "only_files {} w1 w'"
        "buf = (res @ b) @ take (remaining - length b) (drop (off + length b) (fs_content w i))"
        using only_filesD(4) [OF rd(1), of i] by auto
      have "b @ take (remaining - length b) (drop (off + length b) (fs_content w i)) =
          take remaining (drop off (fs_content w i))"
        using take_append_split [OF k(1,2)] by (simp add: add.commute)
      then show ?thesis using ih only_files_trans [OF rd(1)] by simp
    qed
  qed
qed

lemma read_to_end_ok:
  assumes "read_to_end i off n w = (Inr buf, w')"
  shows "only_files {} w w'" "buf = take n (drop off (fs_content w i))"
  using read_loop_ok [of i off n "[]" w buf w'] assms by (simp_all add: read_to_end_def)

section \<open>Weakest preconditions\<close>

text \<open>
  \<open>wp m Q Z w\<close>: run in \<open>w\<close>, the computation does not panic; if it returns, \<open>Q\<close> holds of the result,
  and if it fails, a fault has caused it and \<open>Z\<close> holds of the file system.
\<close>

definition wp :: "('z, 'a) io \<Rightarrow> ('a \<Rightarrow> 'z fsys_scheme \<Rightarrow> bool) \<Rightarrow> ('z fsys_scheme \<Rightarrow> bool) \<Rightarrow> 'z fsys_scheme \<Rightarrow> bool" where
  "wp m Q Z w \<longleftrightarrow> (case m w of (r, w') \<Rightarrow> set (fs_faults w') \<subseteq> set (fs_faults w) \<and>
     (case r of Inr x \<Rightarrow> Q x w' | Inl (Fails e) \<Rightarrow> fs_faults w \<noteq> [] \<and> Z w' | Inl Panics \<Rightarrow> False))"

lemma wpI:
  assumes "m w = (r, w')" "set (fs_faults w') \<subseteq> set (fs_faults w)"
    and "\<And>x. r = Inr x \<Longrightarrow> Q x w'" "\<And>e. r = Inl (Fails e) \<Longrightarrow> fs_faults w \<noteq> [] \<and> Z w'" "r \<noteq> Inl Panics"
  shows "wp m Q Z w"
  using assms by (auto simp: wp_def split: sum.split failure.split)

lemma wpE:
  assumes "wp m Q Z w"
  obtains (ok) x w' where "m w = (Inr x, w')" "Q x w'" "set (fs_faults w') \<subseteq> set (fs_faults w)"
  | (fault) e w' where "m w = (Inl (Fails e), w')" "Z w'" "fs_faults w \<noteq> []" "set (fs_faults w') \<subseteq> set (fs_faults w)"
proof -
  obtain r w' where m: "m w = (r, w')" by (cases "m w")
  show thesis
  proof (cases r)
    case (Inr x)
    then show thesis using m assms ok by (simp add: wp_def)
  next
    case (Inl e)
    then show thesis using m assms fault by (cases e) (auto simp: wp_def)
  qed
qed

lemma wp_returns: "wp m Q Z w \<Longrightarrow> fs_faults w = [] \<Longrightarrow> \<exists>x w'. m w = (Inr x, w') \<and> Q x w' \<and> fs_faults w' = []"
  by (erule wpE) auto

lemma wp_ok [intro]: "Q x w \<Longrightarrow> wp (io_ok x) Q Z w"
  by (auto intro: wpI)

lemma wp_then:
  assumes "wp m (\<lambda>x. wp (k x) Q Z) Z w"
  shows "wp (io_then m k) Q Z w"
  using assms
proof (cases rule: wpE)
  case (ok x w1)
  from ok(2) show ?thesis
    by (cases rule: wpE) (use ok in \<open>auto simp: io_then_def intro!: wpI\<close>)
qed (auto simp: io_then_def intro!: wpI)

lemma wp_mono:
  assumes "wp m Q Z w" "\<And>x w'. Q x w' \<Longrightarrow> set (fs_faults w') \<subseteq> set (fs_faults w) \<Longrightarrow> Q' x w'"
    "\<And>w'. Z w' \<Longrightarrow> set (fs_faults w') \<subseteq> set (fs_faults w) \<Longrightarrow> Z' w'"
  shows "wp m Q' Z' w"
  using assms(1) by (cases rule: wpE) (use assms(2,3) in \<open>auto intro!: wpI\<close>)

text \<open>The rule for a call that is described by a lemma.\<close>

lemma wp_call:
  assumes "wp m Q0 Z0 w" "\<And>x w'. Q0 x w' \<Longrightarrow> set (fs_faults w') \<subseteq> set (fs_faults w) \<Longrightarrow> wp (k x) Q Z w'"
    "\<And>w'. Z0 w' \<Longrightarrow> set (fs_faults w') \<subseteq> set (fs_faults w) \<Longrightarrow> Z w'"
  shows "wp (io_then m k) Q Z w"
  using assms by (intro wp_then wp_mono [OF assms(1)])

lemma wp_guarded:
  assumes "\<And>fs. set fs \<subseteq> set (fs_faults w) \<Longrightarrow> wp m Q Z (w\<lparr>fs_faults := fs\<rparr>)"
    "\<And>fs. set fs \<subseteq> set (fs_faults w) \<Longrightarrow> Z (w\<lparr>fs_faults := fs\<rparr>)"
  shows "wp (guarded m) Q Z w"
proof -
  obtain f fs where f: "pop_fault w = (f, w\<lparr>fs_faults := fs\<rparr>)" "set fs \<subseteq> set (fs_faults w)"
    "f = NoFault \<or> f \<in> set (fs_faults w)" by (rule pop_faultE)
  show ?thesis
  proof (cases "\<exists>e n. f = IoFault e n")
    case True
    then show ?thesis using f assms(2) [OF f(2)] by (auto simp: guarded_def intro!: wpI)
  next
    case False
    then have "guarded m w = m (w\<lparr>fs_faults := fs\<rparr>)" using f by (cases f) (auto simp: guarded_def)
    with assms(1) [OF f(2)] show ?thesis
      by (cases rule: wpE) (use f(2) in \<open>auto intro!: wpI\<close>)
  qed
qed

lemma only_files_faults: "set fs \<subseteq> set (fs_faults w) \<Longrightarrow> only_files js w (w\<lparr>fs_faults := fs\<rparr>)"
  by (simp add: only_files_def)

lemma wp_write_all:
  assumes "\<And>w'. only_files {i} w w' \<Longrightarrow> fs_content w' i = io_write Io (fs_content w i) off buf \<Longrightarrow> Q () w'"
    "\<And>w' n. only_files {i} w w' \<Longrightarrow> fs_content w' i = io_write Io (fs_content w i) off (take n buf) \<Longrightarrow> Z w'"
  shows "wp (fs_write_all_at Io i off buf) Q Z w"
proof -
  obtain f fs where f: "pop_fault w = (f, w\<lparr>fs_faults := fs\<rparr>)" "set fs \<subseteq> set (fs_faults w)"
    "f = NoFault \<or> f \<in> set (fs_faults w)" by (rule pop_faultE)
  have "only_files {i} w (set_content i bs (w\<lparr>fs_faults := fs\<rparr>))" for bs
    using f(2) by (simp add: only_files_def set_content_def)
  then show ?thesis using assms f
    by (cases f) (auto simp: fs_write_all_at_def set_content_def intro!: wpI)
qed

definition no_short :: "'z fsys_scheme \<Rightarrow> bool" where
  "no_short w \<longleftrightarrow> (\<forall>n. ShortIo n \<notin> set (fs_faults w))"

lemma no_short_mono: "no_short w \<Longrightarrow> set (fs_faults w') \<subseteq> set (fs_faults w) \<Longrightarrow> no_short w'"
  by (auto simp: no_short_def)

lemma wp_write_at:
  assumes "no_short w"
    "\<And>w'. only_files {i} w w' \<Longrightarrow> fs_content w' i = io_write Io (fs_content w i) off buf \<Longrightarrow> Q (length buf) w'"
    "\<And>w'. only_files {} w w' \<Longrightarrow> Z w'"
  shows "wp (fs_write_at Io i off buf) Q Z w"
proof -
  obtain f fs where f: "pop_fault w = (f, w\<lparr>fs_faults := fs\<rparr>)" "set fs \<subseteq> set (fs_faults w)"
    "f = NoFault \<or> f \<in> set (fs_faults w)" by (rule pop_faultE)
  have "only_files {i} w (set_content i bs (w\<lparr>fs_faults := fs\<rparr>))" for bs
    using f(2) by (simp add: only_files_def set_content_def)
  moreover have "only_files {} w (w\<lparr>fs_faults := fs\<rparr>)" using f(2) by (rule only_files_faults)
  ultimately show ?thesis using assms f
    by (cases f) (auto simp: fs_write_at_def set_content_def no_short_def intro!: wpI)
qed

lemma wp_sync:
  assumes "\<And>w'. only_files {} w w' \<Longrightarrow> Q () w'" "\<And>w'. only_files {} w w' \<Longrightarrow> Z w'"
  shows "wp (fs_sync i) Q Z w"
  unfolding fs_sync_def by (intro wp_guarded wpI [OF refl]) (use assms in \<open>auto intro: only_files_faults\<close>)

lemma wp_open:
  assumes "fs_names w p = Some i" "\<And>w'. only_files {} w w' \<Longrightarrow> Q i w'" "\<And>w'. only_files {} w w' \<Longrightarrow> Z w'"
  shows "wp (fs_open p) Q Z w"
  unfolding fs_open_def
  by (intro wp_guarded wpI [where r = "Inr i"]) (use assms in \<open>auto intro: only_files_faults\<close>)

lemma wp_create_read_write:
  assumes "\<And>i w'. create_read_write p w = (Inr i, w') \<Longrightarrow> Q i w'" "\<And>w'. only_files {} w w' \<Longrightarrow> Z w'"
  shows "wp (create_read_write p) Q Z w"
proof -
  obtain f fs where f: "pop_fault w = (f, w\<lparr>fs_faults := fs\<rparr>)" "set fs \<subseteq> set (fs_faults w)"
    "f = NoFault \<or> f \<in> set (fs_faults w)" by (rule pop_faultE)
  obtain r w' where r: "create_read_write p w = (r, w')" by (cases "create_read_write p w")
  have *: "\<exists>i. create_read_write p w = (Inr i, w') \<and> set (fs_faults w') \<subseteq> set (fs_faults w)"
    if "\<forall>e n. f \<noteq> IoFault e n"
    using f that r by (cases f; cases "fs_names w p")
      (auto simp: create_read_write_def guarded_def new_file_def)
  show ?thesis
  proof (cases "\<exists>e n. f = IoFault e n")
    case True
    then show ?thesis using f assms(2) [OF only_files_faults [OF f(2)]]
      by (auto simp: create_read_write_def guarded_def intro!: wpI)
  next
    case False
    with * obtain i where i: "create_read_write p w = (Inr i, w')" "set (fs_faults w') \<subseteq> set (fs_faults w)" by auto
    show ?thesis by (rule wpI [where m = "create_read_write p", OF i]) (use assms(1) [OF i(1)] in auto)
  qed
qed

lemma wp_read_at:
  assumes "\<And>k w'. only_files {} w w' \<Longrightarrow> k \<le> n \<Longrightarrow> (0 < n \<longrightarrow> 0 < k) \<Longrightarrow> Q (take k (drop off (fs_content w i))) w'"
    "\<And>w'. only_files {} w w' \<Longrightarrow> Z w'"
  shows "wp (fs_read_at i off n) Q Z w"
proof -
  obtain f fs where f: "pop_fault w = (f, w\<lparr>fs_faults := fs\<rparr>)" "set fs \<subseteq> set (fs_faults w)"
    "f = NoFault \<or> f \<in> set (fs_faults w)" by (rule pop_faultE)
  note of = only_files_faults [OF f(2), of "{}"]
  have q: "Q (take k (drop off (fs_content w i))) (w\<lparr>fs_faults := fs\<rparr>)" if "k \<le> n" "0 < n \<longrightarrow> 0 < k" for k
    using assms(1) [OF of that] .
  have "min n (max (Suc 0) k) \<le> n" "0 < n \<longrightarrow> 0 < min n (max (Suc 0) k)" for k by auto
  from f q [OF this] q [of n] assms(2) [OF of] show ?thesis
    by (cases f) (auto simp: fs_read_at_def intro!: wpI)
qed

lemma read_loop_wp:
  assumes "\<And>w'. only_files {} w0 w' \<Longrightarrow> Z w'"
  shows "only_files {} w0 w \<Longrightarrow> wp (read_loop i off remaining res) (\<lambda>_. only_files {} w0) Z w"
proof (induction i off remaining res w rule: read_loop.induct)
  case (1 i off remaining res w)
  show ?case
  proof (cases "remaining = 0")
    case True
    then show ?thesis using "1.prems" by (intro wpI [where r = "Inr res" and w' = w]) simp_all
  next
    case False
    have rd: "wp (fs_read_at i off (min 4096 remaining)) (\<lambda>_. only_files {} w0) Z w"
      by (rule wp_read_at) (use "1.prems" assms only_files_trans in blast)+
    then show ?thesis
    proof (cases rule: wpE)
      case (ok buf w1)
      show ?thesis
      proof (cases "buf = []")
        case True
        then show ?thesis using ok False by (intro wpI [where r = "Inr res" and w' = w1]) simp_all
      next
        case nonempty: False
        have eq: "read_loop i off remaining res w = read_loop i (off + length buf) (remaining - length buf) (res @ buf) w1"
          using ok(1) False nonempty by simp
        from "1.IH" [OF False ok(1) [symmetric] refl nonempty ok(2)] show ?thesis
          by (cases rule: wpE) (use ok(3) eq in \<open>auto intro!: wpI simp del: read_loop.simps\<close>)
      qed
    qed (use False in \<open>auto intro!: wpI\<close>)
  qed
qed

lemma wp_read_to_end:
  assumes "\<And>w'. only_files {} w w' \<Longrightarrow> Q (take n (drop off (fs_content w i))) w'" "\<And>w'. only_files {} w w' \<Longrightarrow> Z w'"
  shows "wp (read_to_end i off n) Q Z w"
proof -
  have "wp (read_loop i off n []) (\<lambda>_. only_files {} w) Z w"
    using assms(2) only_files_refl by (rule read_loop_wp)
  then show ?thesis unfolding read_to_end_def
  proof (cases rule: wpE)
    case (ok buf w')
    with read_loop_ok [OF ok(1)] assms(1) show "wp (read_loop i off n []) Q Z w" by (auto intro!: wpI)
  next
    case (fault e w')
    then show "wp (read_loop i off n []) Q Z w" by (auto intro!: wpI simp del: read_loop.simps)
  qed
qed

end
