(* ===== verification/Bao_File.thy ===== *)
theory Bao_File
  imports Files
begin

text \<open>
  The storage of one blob in the file store, \<open>src/src/store/fs/bao_file.rs\<close>: in memory while it is
  tiny and incomplete, in files while it is larger and incomplete, and complete with data and
  outboard in memory or in files.  The environment of the computations collects the code of other
  crates (range sets, chunk arithmetic, positioned writes, the shape and validation of the hash
  tree, serialization) and the calls to the metadata database.
\<close>

section \<open>The environment\<close>

record 'd db_ops =
  dbo_get :: "hash \<Rightarrow> 'd \<Rightarrow> (io_error + bytes entry_state option) \<times> 'd"
  dbo_set :: "hash \<Rightarrow> bytes entry_state \<Rightarrow> 'd \<Rightarrow> (io_error + unit) \<times> 'd"
  dbo_update :: "hash \<Rightarrow> bytes entry_state \<Rightarrow> 'd \<Rightarrow> (io_error + unit) \<times> 'd"
  dbo_update_await :: "hash \<Rightarrow> bytes entry_state \<Rightarrow> 'd \<Rightarrow> (io_error + unit) \<times> 'd"

record ('r, 'd) fs_env =
  fe_R :: "'r range_ops"
  fe_B :: "'r chunk_ops"
  fe_Io :: io_ops
  fe_X :: hex_ops
  fe_S :: "'r serial_ops"
  fe_outboard_size :: "u64 \<Rightarrow> u64"                            \<comment> \<open>\<open>BaoTree::outboard_size\<close>\<close>
  fe_valid_ranges :: "hash \<Rightarrow> u64 \<Rightarrow> bytes \<Rightarrow> bytes \<Rightarrow> 'r list"  \<comment> \<open>\<open>valid_ranges\<close>, by outboard and data\<close>
  fe_db :: "'d db_ops"

record 'd fs_world = fsys +
  fw_delete :: delete_set
  fw_db :: 'd

type_synonym ('d, 'a) fio = "'d fs_world \<Rightarrow> (failure + 'a) \<times> 'd fs_world"

definition db_call :: "('d \<Rightarrow> (io_error + 'a) \<times> 'd) \<Rightarrow> ('d, 'a) fio" where
  "db_call f w = (case f (fw_db w) of
     (Inl e, d) \<Rightarrow> (Inl (Fails e), w\<lparr>fw_db := d\<rparr>)
   | (Inr x, d) \<Rightarrow> (Inr x, w\<lparr>fw_db := d\<rparr>))"

text \<open>The part of \<open>HashContext\<close> that does not change: the hash and the options.\<close>

record fs_ctx =
  cx_id :: hash
  cx_path :: path_options
  cx_max_data_inlined :: u64
  cx_max_outboard_inlined :: u64

definition is_inlined_data :: "fs_ctx \<Rightarrow> u64 \<Rightarrow> bool" where
  "is_inlined_data cx data_size \<longleftrightarrow> data_size \<le> cx_max_data_inlined cx"

definition is_inlined_outboard :: "fs_ctx \<Rightarrow> u64 \<Rightarrow> bool" where
  "is_inlined_outboard cx outboard_size \<longleftrightarrow> outboard_size \<le> cx_max_outboard_inlined cx"

definition is_inlined_all :: "('r, 'd) fs_env \<Rightarrow> fs_ctx \<Rightarrow> u64 \<Rightarrow> bool" where
  "is_inlined_all E cx data_size \<longleftrightarrow>
     is_inlined_data cx data_size \<and> is_inlined_outboard cx (fe_outboard_size E data_size)"

definition cx_file :: "('r, 'd) fs_env \<Rightarrow> fs_ctx \<Rightarrow> bao_file_part \<Rightarrow> path" where
  "cx_file E cx = file_path (fe_X E) (cx_path cx) (cx_id cx)"

definition cx_protect :: "fs_ctx \<Rightarrow> bao_file_part list \<Rightarrow> ('d, unit) fio" where
  "cx_protect cx parts w = (Inr (), w\<lparr>fw_delete := ds_protect (cx_id cx) parts (fw_delete w)\<rparr>)"

section \<open>Storage\<close>

datatype 'f mem_or_file = MemPart bytes | FilePart 'f

record complete_storage =
  cs_data :: "(nat \<times> u64) mem_or_file"
  cs_outboard :: "nat mem_or_file"

record 'r partial_file_storage =
  pf_data :: nat
  pf_outboard :: nat
  pf_sizes :: nat
  pf_bitfield :: "'r bitfield"

datatype 'r bao_storage =
    Initial
  | Loading
  | NonExisting
  | PartialMem "'r partial_mem_storage"
  | PartialFile "'r partial_file_storage"
  | CompleteBao complete_storage
  | Poisoned

fun data_size :: "(nat \<times> u64) mem_or_file \<Rightarrow> u64" where
  "data_size (MemPart bs) = of_nat (length bs)"
| "data_size (FilePart (_, sz)) = sz"

definition cs_size :: "complete_storage \<Rightarrow> u64" where
  "cs_size cs = data_size (cs_data cs)"

definition cs_bitfield :: "'r range_ops \<Rightarrow> complete_storage \<Rightarrow> 'r bitfield" where
  "cs_bitfield R cs = bf_complete R (cs_size cs)"

definition new_partial_mem :: "'r range_ops \<Rightarrow> 'r partial_mem_storage" where
  "new_partial_mem R = \<lparr>ps_data = sparse_new R, ps_outboard = sparse_new R,
     ps_size = size_info_default, ps_bitfield = bf_empty R\<rparr>"

text \<open>\<open>BaoFileStorage::bitfield\<close>; \<open>None\<close> is a panic.\<close>

fun bao_bitfield :: "'r range_ops \<Rightarrow> 'r bao_storage \<Rightarrow> 'r bitfield option" where
  "bao_bitfield R Initial = None"
| "bao_bitfield R Loading = None"
| "bao_bitfield R NonExisting = Some (bf_empty R)"
| "bao_bitfield R (PartialMem ms) = Some (ps_bitfield ms)"
| "bao_bitfield R (PartialFile fs) = Some (pf_bitfield fs)"
| "bao_bitfield R (CompleteBao cs) = Some (bf_complete R (data_size (cs_data cs)))"
| "bao_bitfield R Poisoned = None"

text \<open>\<open>max_offset\<close>; \<open>None\<close> is the panic on overflow.\<close>

fun max_offset :: "bao_content_item list \<Rightarrow> u64 option" where
  "max_offset [] = Some 0"
| "max_offset (Parent _ _ _ # batch) = max_offset batch"
| "max_offset (Leaf offset data # batch) =
     (case checked_add_u64 offset (of_nat (length data)) of
        None \<Rightarrow> None
      | Some end \<Rightarrow> map_option (max end) (max_offset batch))"

section \<open>Partial storage in files\<close>

definition size_slot :: "u64 \<Rightarrow> u64" where
  "size_slot offset = push_bit 3 (drop_bit (chunk_log + 10) offset)"

definition pf_write_item :: "('r, 'd) fs_env \<Rightarrow> u64 \<Rightarrow> 'r partial_file_storage \<Rightarrow> bao_content_item
    \<Rightarrow> ('d, unit) fio" where
  "pf_write_item E sz fs item = (case item of
     Parent node left right \<Rightarrow>
       (case io_pre_order_offset (fe_Io E) sz node of
          Some offset \<Rightarrow>
            let o0 = offset * 64 in
            io_then (fs_write_all_at (fe_Io E) (pf_outboard fs) o0 (as_bytes left)) (\<lambda>_.
            fs_write_all_at (fe_Io E) (pf_outboard fs) (o0 + 32) (as_bytes right))
        | None \<Rightarrow> io_ok ())
   | Leaf offset data \<Rightarrow>
       io_then (fs_write_all_at (fe_Io E) (pf_data fs) offset data) (\<lambda>_.
       fs_write_all_at (fe_Io E) (pf_sizes fs) (size_slot offset) (to_le_bytes sz)))"

fun pf_write_batch :: "('r, 'd) fs_env \<Rightarrow> u64 \<Rightarrow> 'r partial_file_storage \<Rightarrow> bao_content_item list
    \<Rightarrow> ('d, unit) fio" where
  "pf_write_batch E sz fs [] = io_ok ()"
| "pf_write_batch E sz fs (item # batch) =
     io_then (pf_write_item E sz fs item) (\<lambda>_. pf_write_batch E sz fs batch)"

definition pf_current_size :: "'r partial_file_storage \<Rightarrow> ('d, u64) fio" where
  "pf_current_size fs = read_size (pf_sizes fs)"

definition pf_sync_all :: "('r, 'd) fs_env \<Rightarrow> path \<Rightarrow> 'r partial_file_storage \<Rightarrow> ('d, unit) fio" where
  "pf_sync_all E bitfield_path fs =
     io_then (fs_sync (pf_data fs)) (\<lambda>_.
     io_then (fs_sync (pf_outboard fs)) (\<lambda>_.
     io_then (fs_sync (pf_sizes fs)) (\<lambda>_.
     write_checksummed (fe_Io E) (fe_S E) bitfield_path (pf_bitfield fs))))"

text \<open>\<open>PartialFileStorage::load\<close>: without a valid bitfield file it is computed from the data.\<close>

definition reconstruct :: "('r, 'd) fs_env \<Rightarrow> fs_ctx \<Rightarrow> nat \<Rightarrow> nat \<Rightarrow> nat \<Rightarrow> ('d, 'r bitfield) fio" where
  "reconstruct E cx data outboard sizes w =
     (let (r, w) = read_size sizes w;
          sz = (case r of Inl _ \<Rightarrow> 0 | Inr sz \<Rightarrow> sz);
          ranges = fold (\<lambda>rng ranges. rs_union (fe_R E) ranges rng)
            (fe_valid_ranges E (cx_id cx) sz (fs_content w outboard) (fs_content w data))
            (rs_empty (fe_R E))
      in io_ok (bf_new (fe_R E) (fe_B E) ranges sz) w)"

definition pf_load :: "('r, 'd) fs_env \<Rightarrow> fs_ctx \<Rightarrow> ('d, 'r partial_file_storage) fio" where
  "pf_load E cx =
     io_then (create_read_write (cx_file E cx DataPart)) (\<lambda>data.
     io_then (create_read_write (cx_file E cx OutboardPart)) (\<lambda>outboard.
     io_then (create_read_write (cx_file E cx SizesPart)) (\<lambda>sizes.
     io_then (\<lambda>w. case read_checksummed_and_truncate (fe_S E) (cx_file E cx BitfieldPart) w of
         (Inr bitfield, w) \<Rightarrow> io_ok bitfield w
       | (Inl (Fails _), w) \<Rightarrow> reconstruct E cx data outboard sizes w
       | (Inl Panics, w) \<Rightarrow> (Inl Panics, w)) (\<lambda>bitfield.
     io_ok \<lparr>pf_data = data, pf_outboard = outboard, pf_sizes = sizes, pf_bitfield = bitfield\<rparr>))))"

definition pf_into_complete :: "('r, 'd) fs_env \<Rightarrow> fs_ctx \<Rightarrow> 'r partial_file_storage \<Rightarrow> u64
    \<Rightarrow> ('d, complete_storage \<times> bytes entry_state) fio" where
  "pf_into_complete E cx fs sz =
     (let outboard_size = fe_outboard_size E sz in
      io_then (if is_inlined_data cx sz then
          io_then (read_to_end (pf_data fs) 0 (unat sz)) (\<lambda>data.
          io_ok (MemPart data, InlineData data))
        else io_ok (FilePart (pf_data fs, sz), OwnedData sz)) (\<lambda>(data, data_location).
      io_then (if is_inlined_outboard cx outboard_size then
          if outboard_size = 0 then io_ok (MemPart [], NotNeeded)
          else io_then (read_to_end (pf_outboard fs) 0 (unat outboard_size)) (\<lambda>outboard.
            io_ok (MemPart outboard, InlineOutboard outboard))
        else io_ok (FilePart (pf_outboard fs), OwnedOutboard)) (\<lambda>(outboard, outboard_location).
      io_ok (\<lparr>cs_data = data, cs_outboard = outboard\<rparr>, CompleteEntry data_location outboard_location))))"

section \<open>Partial storage in memory\<close>

definition pm_into_complete :: "('r, 'd) fs_env \<Rightarrow> fs_ctx \<Rightarrow> 'r partial_mem_storage
    \<Rightarrow> ('d, complete_storage \<times> bytes entry_state) fio" where
  "pm_into_complete E cx ms =
     (let sz = bf_size (ps_bitfield ms); outboard_size = fe_outboard_size E sz in
      io_then (if is_inlined_data cx sz then
          io_ok (MemPart (sf_data (ps_data ms)), InlineData (sf_data (ps_data ms)))
        else io_then (create_read_write (cx_file E cx DataPart)) (\<lambda>data_file.
          io_then (sparse_persist_to (fe_R E) (fe_Io E) (ps_data ms) data_file) (\<lambda>_.
          io_ok (FilePart (data_file, sz), OwnedData sz)))) (\<lambda>(data, data_location).
      io_then (if is_inlined_outboard cx outboard_size then
          if 0 < outboard_size
          then io_ok (MemPart (sf_data (ps_outboard ms)), InlineOutboard (sf_data (ps_outboard ms)))
          else io_ok (MemPart [], NotNeeded)
        else io_then (create_read_write (cx_file E cx OutboardPart)) (\<lambda>outboard_file.
          io_then (sparse_persist_to (fe_R E) (fe_Io E) (ps_outboard ms) outboard_file) (\<lambda>_.
          io_ok (FilePart outboard_file, if outboard_size = 0 then NotNeeded else OwnedOutboard))))
        (\<lambda>(outboard, outboard_location).
      io_ok (\<lparr>cs_data = data, cs_outboard = outboard\<rparr>, CompleteEntry data_location outboard_location))))"

definition pm_persist :: "('r, 'd) fs_env \<Rightarrow> fs_ctx \<Rightarrow> 'r partial_mem_storage
    \<Rightarrow> ('d, 'r partial_file_storage) fio" where
  "pm_persist E cx ms =
     io_then (cx_protect cx [DataPart, OutboardPart, SizesPart, BitfieldPart]) (\<lambda>_.
     io_then (create_read_write (cx_file E cx DataPart)) (\<lambda>data.
     io_then (create_read_write (cx_file E cx OutboardPart)) (\<lambda>outboard.
     io_then (create_read_write (cx_file E cx SizesPart)) (\<lambda>sizes.
     io_then (sparse_persist_to (fe_R E) (fe_Io E) (ps_data ms) data) (\<lambda>_.
     io_then (sparse_persist_to (fe_R E) (fe_Io E) (ps_outboard ms) outboard) (\<lambda>_.
     io_then (size_persist_to (fe_Io E) (ps_size ms) sizes) (\<lambda>_.
     io_then (fs_sync data) (\<lambda>_.
     io_then (fs_sync outboard) (\<lambda>_.
     io_then (fs_sync sizes) (\<lambda>_.
     io_ok \<lparr>pf_data = data, pf_outboard = outboard, pf_sizes = sizes,
       pf_bitfield = ps_bitfield ms\<rparr>))))))))))"

section \<open>Writing a batch\<close>

text \<open>\<open>PartialMemStorage::write_batch\<close> on the world; it may panic.\<close>

definition pm_write :: "('r, 'd) fs_env \<Rightarrow> u64 \<Rightarrow> bao_content_item list \<Rightarrow> 'r partial_mem_storage
    \<Rightarrow> ('d, 'r partial_mem_storage) fio" where
  "pm_write E sz batch ms w = (case write_batch (fe_R E) (fe_Io E) sz batch ms of
     None \<Rightarrow> (Inl Panics, w)
   | Some (Inl e) \<Rightarrow> io_err e w
   | Some (Inr ms) \<Rightarrow> io_ok ms w)"

text \<open>
  The update of the bitfield of a partial file after a batch, and what follows from it.  The
  first argument says whether the database is told of a partial entry in any case.
\<close>

definition pf_updated :: "('r, 'd) fs_env \<Rightarrow> fs_ctx \<Rightarrow> bool \<Rightarrow> 'r bitfield \<Rightarrow> 'r partial_file_storage
    \<Rightarrow> ('d, 'r bao_storage \<times> bytes entry_state option) fio" where
  "pf_updated E cx always bitfield fs =
     (let (changes, bf) = bf_update (fe_R E) (fe_B E) (pf_bitfield fs) bitfield;
          fs = fs\<lparr>pf_bitfield := bf\<rparr>;
          new = new_state changes in
      if bs_complete new then
        (case bs_validated_size new of
           None \<Rightarrow> (\<lambda>w. (Inl Panics, w))
         | Some sz \<Rightarrow>
             io_then (pf_into_complete E cx fs sz) (\<lambda>(cs, update).
             io_ok (CompleteBao cs, Some update)))
      else if always \<or> was_validated changes then
        io_ok (PartialFile fs, Some (PartialEntry (bs_validated_size new)))
      else io_ok (PartialFile fs, None))"

definition pm_write_batch :: "('r, 'd) fs_env \<Rightarrow> fs_ctx \<Rightarrow> bao_content_item list \<Rightarrow> 'r bitfield
    \<Rightarrow> 'r partial_mem_storage \<Rightarrow> ('d, 'r bao_storage \<times> bytes entry_state option) fio" where
  "pm_write_batch E cx batch bitfield ms =
     (case max_offset batch of
        None \<Rightarrow> (\<lambda>w. (Inl Panics, w))
      | Some m \<Rightarrow>
          if m \<le> cx_max_data_inlined cx then
            io_then (pm_write E (bf_size bitfield) batch ms) (\<lambda>ms.
              let (changes, bf) = bf_update (fe_R E) (fe_B E) (ps_bitfield ms) bitfield;
                  ms = ms\<lparr>ps_bitfield := bf\<rparr>;
                  new = new_state changes in
              if bs_complete new then
                io_then (pm_into_complete E cx ms) (\<lambda>(cs, update). io_ok (CompleteBao cs, Some update))
              else io_then (pm_persist E cx ms) (\<lambda>fs.
                io_ok (PartialFile fs, Some (PartialEntry (bs_validated_size new)))))
          else
            io_then (pm_persist E cx ms) (\<lambda>fs.
            io_then (pf_write_batch E (bf_size bitfield) fs batch) (\<lambda>_.
            pf_updated E cx True bitfield fs)))"

fun bao_write_batch :: "('r, 'd) fs_env \<Rightarrow> fs_ctx \<Rightarrow> bao_content_item list \<Rightarrow> 'r bitfield
    \<Rightarrow> 'r bao_storage \<Rightarrow> ('d, 'r bao_storage \<times> bytes entry_state option) fio" where
  "bao_write_batch E cx batch bitfield NonExisting =
     pm_write_batch E cx batch bitfield (new_partial_mem (fe_R E))"
| "bao_write_batch E cx batch bitfield (PartialMem ms) = pm_write_batch E cx batch bitfield ms"
| "bao_write_batch E cx batch bitfield (PartialFile fs) =
     io_then (pf_write_batch E (bf_size bitfield) fs batch) (\<lambda>_. pf_updated E cx False bitfield fs)"
| "bao_write_batch E cx batch bitfield st = io_ok (st, None)"

section \<open>Opening and completing\<close>

definition open_data :: "('r, 'd) fs_env \<Rightarrow> fs_ctx \<Rightarrow> (bytes, u64) data_location
    \<Rightarrow> ('d, (nat \<times> u64) mem_or_file) fio" where
  "open_data E cx loc = (case loc of
     InlineData data \<Rightarrow> io_ok (MemPart data)
   | OwnedData sz \<Rightarrow>
       io_then (fs_open (cx_file E cx DataPart)) (\<lambda>i. io_ok (FilePart (i, sz)))
   | ExternalData paths sz \<Rightarrow>
       (case paths of
          [] \<Rightarrow> io_err OtherIo
        | p # _ \<Rightarrow> io_then (fs_open p) (\<lambda>i. io_ok (FilePart (i, sz)))))"

definition open_outboard :: "('r, 'd) fs_env \<Rightarrow> fs_ctx \<Rightarrow> bytes outboard_location
    \<Rightarrow> ('d, nat mem_or_file) fio" where
  "open_outboard E cx loc = (case loc of
     NotNeeded \<Rightarrow> io_ok (MemPart [])
   | InlineOutboard data \<Rightarrow> io_ok (MemPart data)
   | OwnedOutboard \<Rightarrow>
       io_then (fs_open (cx_file E cx OutboardPart)) (\<lambda>i. io_ok (FilePart i)))"

definition new_partial_file :: "('r, 'd) fs_env \<Rightarrow> fs_ctx \<Rightarrow> ('d, 'r bao_storage) fio" where
  "new_partial_file E cx =
     io_then (pf_load E cx) (\<lambda>storage.
     if is_complete (fe_R E) (fe_B E) (pf_bitfield storage) then
       io_then (pf_into_complete E cx storage (bf_size (pf_bitfield storage))) (\<lambda>(cs, entry_state).
       io_then (db_call (dbo_set (fe_db E) (cx_id cx) entry_state)) (\<lambda>_.
       io_ok (CompleteBao cs)))
     else io_ok (PartialFile storage))"

definition bao_open :: "('r, 'd) fs_env \<Rightarrow> fs_ctx \<Rightarrow> bytes entry_state option
    \<Rightarrow> ('d, 'r bao_storage) fio" where
  "bao_open E cx state = (case state of
     Some (CompleteEntry data_location outboard_location) \<Rightarrow>
       io_then (open_data E cx data_location) (\<lambda>data.
       io_then (open_outboard E cx outboard_location) (\<lambda>outboard.
       io_ok (CompleteBao \<lparr>cs_data = data, cs_outboard = outboard\<rparr>)))
   | Some (PartialEntry _) \<Rightarrow> new_partial_file E cx
   | None \<Rightarrow> io_ok NonExisting)"

text \<open>\<open>BaoFileHandle::complete\<close>\<close>

fun handle_complete :: "(nat \<times> u64) mem_or_file \<Rightarrow> nat mem_or_file \<Rightarrow> 'r bao_storage \<Rightarrow> 'r bao_storage" where
  "handle_complete data outboard NonExisting = CompleteBao \<lparr>cs_data = data, cs_outboard = outboard\<rparr>"
| "handle_complete data outboard (PartialMem _) = CompleteBao \<lparr>cs_data = data, cs_outboard = outboard\<rparr>"
| "handle_complete data outboard (PartialFile _) = CompleteBao \<lparr>cs_data = data, cs_outboard = outboard\<rparr>"
| "handle_complete data outboard st = st"

text \<open>\<open>DataReader::read_bytes_at\<close>\<close>

fun part_content :: "'d fs_world \<Rightarrow> (nat \<times> u64) mem_or_file \<Rightarrow> bytes" where
  "part_content w (MemPart bs) = bs"
| "part_content w (FilePart (i, _)) = fs_content w i"

definition read_bytes_at :: "('r, 'd) fs_env \<Rightarrow> 'r bao_storage \<Rightarrow> u64 \<Rightarrow> usize \<Rightarrow> ('d, bytes) fio" where
  "read_bytes_at E st offset sz =
     (let from_bytes = (\<lambda>bs. case io_read (fe_Io E) bs offset sz of Inl e \<Rightarrow> io_err e | Inr d \<Rightarrow> io_ok d) in
      case st of
        PartialMem ms \<Rightarrow> from_bytes (sf_data (ps_data ms))
      | PartialFile fs \<Rightarrow> guarded (\<lambda>w. from_bytes (fs_content w (pf_data fs)) w)
      | CompleteBao cs \<Rightarrow>
          (case cs_data cs of
             MemPart bs \<Rightarrow> from_bytes bs
           | FilePart (i, _) \<Rightarrow> guarded (\<lambda>w. from_bytes (fs_content w i) w))
      | NonExisting \<Rightarrow> io_err NotFoundIo
      | _ \<Rightarrow> io_err OtherIo)"

end
