(* ===== verification/Fs_Store.thy ===== *)
theory Fs_Store
  imports Bao_File Mem_Store
begin

text \<open>
  The operations of the file store on one blob, \<open>HashContext\<close> of \<open>src/src/store/fs.rs\<close>: loading its
  storage from the database, importing verified items, finishing an import from local data,
  exporting ranges and files, and persisting the storage at the end of its lifecycle. Their state
  is the storage behind the handle of the entity and the world of files and database; the entity
  manager runs them one at a time only as far as the source does, \<open>load\<close> here is its exclusive part.
\<close>

section \<open>Computations on the storage of an entity\<close>

type_synonym ('r, 'd, 'a) cio = "'r bao_storage \<Rightarrow> 'd fs_world \<Rightarrow> (failure + 'a) \<times> 'r bao_storage \<times> 'd fs_world"

definition cx_then :: "('r, 'd, 'a) cio \<Rightarrow> ('a \<Rightarrow> ('r, 'd, 'b) cio) \<Rightarrow> ('r, 'd, 'b) cio" where
  "cx_then m k st w = (case m st w of (Inl e, st1, w1) \<Rightarrow> (Inl e, st1, w1) | (Inr x, st1, w1) \<Rightarrow> k x st1 w1)"

text \<open>A computation that leaves the storage as it is.\<close>

definition cx_io :: "('d, 'a) fio \<Rightarrow> ('r, 'd, 'a) cio" where
  "cx_io m st w = (case m w of (r, w1) \<Rightarrow> (r, st, w1))"

section \<open>Loading, writing and persisting\<close>

definition cx_load :: "('r, 'd) fs_env \<Rightarrow> fs_ctx \<Rightarrow> ('r, 'd, unit) cio" where
  "cx_load E cx st w = (case st of
     Initial \<Rightarrow>
       if cx_id cx = hash_empty then (Inr (), CompleteBao \<lparr>cs_data = MemPart [], cs_outboard = MemPart []\<rparr>, w)
       else (case db_call (dbo_get (fe_db E) (cx_id cx)) w of
           (Inr state, w) \<Rightarrow>
             (case bao_open E cx state w of
                (Inr st, w) \<Rightarrow> (Inr (), st, w)
              | (Inl (Fails _), w) \<Rightarrow> (Inr (), Poisoned, w)
              | (Inl Panics, w) \<Rightarrow> (Inl Panics, Loading, w))
         | (Inl (Fails _), w) \<Rightarrow> (Inr (), Poisoned, w)
         | (Inl Panics, w) \<Rightarrow> (Inl Panics, Loading, w))
   | _ \<Rightarrow> (Inr (), st, w))"

definition cx_write_batch :: "('r, 'd) fs_env \<Rightarrow> fs_ctx \<Rightarrow> bao_content_item list \<Rightarrow> 'r bitfield
    \<Rightarrow> ('r, 'd, unit) cio" where
  "cx_write_batch E cx batch bitfield st w = (case bao_write_batch E cx batch bitfield st w of
     (Inl (Fails _), w) \<Rightarrow> (Inl (Fails OtherIo), Poisoned, w)
   | (Inl Panics, w) \<Rightarrow> (Inl Panics, Poisoned, w)
   | (Inr (st, update), w) \<Rightarrow>
       (case update of
          None \<Rightarrow> (Inr (), st, w)
        | Some e \<Rightarrow> cx_io (db_call (dbo_update (fe_db E) (cx_id cx) e)) st w))"

text \<open>\<open>persist\<close>: afterwards the handle is not usable any more.\<close>

definition cx_persist :: "('r, 'd) fs_env \<Rightarrow> fs_ctx \<Rightarrow> ('r, 'd, unit) cio" where
  "cx_persist E cx st w = (case st of
     PartialFile fs \<Rightarrow>
       (case pf_sync_all E (cx_file E cx BitfieldPart) fs w of (_, w) \<Rightarrow> (Inr (), Poisoned, w))
   | _ \<Rightarrow> (Inr (), Poisoned, w))"

text \<open>\<open>Reset\<close> for the handle, when the entity actor is recycled.\<close>

definition handle_reset :: "'r bao_storage \<Rightarrow> 'r bao_storage" where
  "handle_reset st = Initial"

fun current_size :: "('r, 'd) fs_env \<Rightarrow> 'r bao_storage \<Rightarrow> ('d, u64) fio" where
  "current_size E (CompleteBao cs) = io_ok (cs_size cs)"
| "current_size E (PartialMem ms) = io_ok (bf_size (ps_bitfield ms))"
| "current_size E (PartialFile fs) = pf_current_size fs"
| "current_size E NonExisting = io_err NotFoundIo"
| "current_size E _ = io_err OtherIo"

fun cx_bitfield :: "('r, 'd) fs_env \<Rightarrow> 'r bao_storage \<Rightarrow> ('d, 'r bitfield) fio" where
  "cx_bitfield E (CompleteBao cs) = io_ok (cs_bitfield (fe_R E) cs)"
| "cx_bitfield E (PartialMem ms) = io_ok (ps_bitfield ms)"
| "cx_bitfield E (PartialFile fs) = io_ok (pf_bitfield fs)"
| "cx_bitfield E NonExisting = io_err NotFoundIo"
| "cx_bitfield E _ = io_err OtherIo"

definition get_entry_state :: "('r, 'd) fs_env \<Rightarrow> fs_ctx \<Rightarrow> ('d, bytes entry_state option) fio" where
  "get_entry_state E cx =
     (if cx_id cx = hash_empty then io_ok (Some (CompleteEntry (InlineData []) NotNeeded))
      else db_call (dbo_get (fe_db E) (cx_id cx)))"

section \<open>Import of verified items\<close>

fun is_leaf :: "bao_content_item \<Rightarrow> bool" where
  "is_leaf (Leaf _ _) = True"
| "is_leaf (Parent _ _ _) = False"

text \<open>
  The loop of \<open>import_bao_impl\<close> over the items that arrive, until the channel is closed or, with the
  last argument, fails.
\<close>

fun import_items :: "('r, 'd) fs_env \<Rightarrow> fs_ctx \<Rightarrow> u64 \<Rightarrow> io_error option \<Rightarrow> bao_content_item list \<Rightarrow> 'r
    \<Rightarrow> bao_content_item list \<Rightarrow> ('r, 'd, unit) cio" where
  "import_items E cx sz rx_error batch ranges [] =
     (case rx_error of
        Some e \<Rightarrow> cx_io (io_err e)
      | None \<Rightarrow>
          if batch \<noteq> [] then cx_write_batch E cx batch (bf_new_unchecked ranges sz)
          else cx_io (io_ok ()))"
| "import_items E cx sz rx_error batch ranges (item # items) =
     (let next_item = (\<lambda>batch ranges.
        case item of
          Leaf offset data \<Rightarrow>
            let leaf_range = chunk_range (fe_R E) (fe_B E) offset data in
            if size_is_validated (fe_R E) (fe_B E) sz leaf_range \<and> sz \<noteq> offset + of_nat (length data)
            then cx_io (io_err InvalidData)
            else import_items E cx sz rx_error (batch @ [item]) (rs_union (fe_R E) ranges leaf_range) items
        | Parent _ _ _ \<Rightarrow> import_items E cx sz rx_error (batch @ [item]) ranges items)
      in if batch \<noteq> [] \<and> is_leaf (batch ! (length batch - 1)) \<and> \<not> is_leaf item
         then cx_then (cx_write_batch E cx batch (bf_new_unchecked ranges sz)) (\<lambda>_. next_item [] (rs_empty (fe_R E)))
         else next_item batch ranges)"

definition import_bao_impl :: "('r, 'd) fs_env \<Rightarrow> fs_ctx \<Rightarrow> u64 \<Rightarrow> io_error option \<Rightarrow> bao_content_item list
    \<Rightarrow> ('r, 'd, unit) cio" where
  "import_bao_impl E cx sz rx_error items = import_items E cx sz rx_error [] (rs_empty (fe_R E)) items"

definition fs_import_bao :: "('r, 'd) fs_env \<Rightarrow> fs_ctx \<Rightarrow> u64 \<Rightarrow> io_error option \<Rightarrow> bao_content_item list
    \<Rightarrow> ('r, 'd, unit) cio" where
  "fs_import_bao E cx sz rx_error items = cx_then (cx_load E cx) (\<lambda>_. import_bao_impl E cx sz rx_error items)"

section \<open>Finishing an import of local data\<close>

datatype import_source = TempFileSource path u64 | ExternalSource path u64 | MemorySource bytes

record fs_import_entry =
  fi_hash :: hash
  fi_source :: import_source
  fi_outboard :: "path mem_or_file"

text \<open>A failed \<open>rename\<close> is only logged.\<close>

definition try_rename :: "path \<Rightarrow> path \<Rightarrow> ('d, unit) fio" where
  "try_rename a b w = (case fs_rename a b w of (_, w) \<Rightarrow> (Inr (), w))"

definition entry_file :: "('r, 'd) fs_env \<Rightarrow> fs_ctx \<Rightarrow> hash \<Rightarrow> bao_file_part \<Rightarrow> path" where
  "entry_file E cx h part = file_path (fe_X E) (cx_path cx) h part"

definition import_data_location :: "('r, 'd) fs_env \<Rightarrow> fs_ctx \<Rightarrow> hash \<Rightarrow> import_source
    \<Rightarrow> ('d, (bytes, u64) data_location) fio" where
  "import_data_location E cx h source = (case source of
     MemorySource data \<Rightarrow> io_ok (InlineData data)
   | ExternalSource p sz \<Rightarrow> io_ok (ExternalData [p] sz)
   | TempFileSource p sz \<Rightarrow>
       io_then (try_rename p (entry_file E cx h DataPart)) (\<lambda>_. io_ok (OwnedData sz)))"

definition import_outboard_location :: "('r, 'd) fs_env \<Rightarrow> fs_ctx \<Rightarrow> hash \<Rightarrow> path mem_or_file
    \<Rightarrow> ('d, bytes outboard_location) fio" where
  "import_outboard_location E cx h outboard = (case outboard of
     MemPart bs \<Rightarrow> io_ok (if bs = [] then NotNeeded else InlineOutboard bs)
   | FilePart p \<Rightarrow>
       io_then (try_rename p (entry_file E cx h OutboardPart)) (\<lambda>_. io_ok OwnedOutboard))"

text \<open>
  \<open>finish_import_impl\<close>; the context has the hash of the entry, so the files are those of \<open>open_data\<close> and
  \<open>open_outboard\<close>.
\<close>

definition finish_import_impl :: "('r, 'd) fs_env \<Rightarrow> fs_ctx \<Rightarrow> fs_import_entry \<Rightarrow> ('r, 'd, unit) cio" where
  "finish_import_impl E cx e =
     (if cx_id cx = hash_empty then cx_io (io_ok ())
      else
        cx_then (cx_load E cx) (\<lambda>_.
        cx_then (cx_io (cx_protect cx [DataPart, OutboardPart])) (\<lambda>_.
        cx_then (cx_io (import_data_location E cx (fi_hash e) (fi_source e))) (\<lambda>data_location.
        cx_then (cx_io (import_outboard_location E cx (fi_hash e) (fi_outboard e))) (\<lambda>outboard_location.
        cx_then (cx_io (open_data E (cx\<lparr>cx_id := fi_hash e\<rparr>) data_location)) (\<lambda>data.
        cx_then (cx_io (open_outboard E (cx\<lparr>cx_id := fi_hash e\<rparr>) outboard_location)) (\<lambda>outboard.
        cx_then (\<lambda>st w. (Inr (), handle_complete data outboard st, w)) (\<lambda>_.
        cx_io (db_call (dbo_update_await (fe_db E) (cx_id cx)
          (CompleteEntry data_location outboard_location)))))))))))"

definition fs_finish_import :: "('r, 'd) fs_env \<Rightarrow> fs_ctx \<Rightarrow> fs_import_entry \<Rightarrow> ('r, 'd, unit) cio" where
  "fs_finish_import E cx e = cx_then (cx_load E cx) (\<lambda>_. finish_import_impl E cx e)"

section \<open>Export of ranges\<close>

text \<open>
  The inner loop of \<open>export_ranges_impl\<close>: the leaves sent so far, the failure that ended it if any,
  and the world. \<open>None\<close> would be a loop that does not end. The size that \<open>trace!\<close> prints at the
  start of the export is only computed when tracing is enabled and is left out.
\<close>

partial_function (option) fs_export_loop :: "('r, 'd) fs_env \<Rightarrow> 'r bao_storage \<Rightarrow> (u64 \<times> bytes) list \<Rightarrow> u64 \<Rightarrow> u64
    \<Rightarrow> 'd fs_world \<Rightarrow> ((u64 \<times> bytes) list \<times> failure option \<times> 'd fs_world) option" where
  "fs_export_loop E st sent offset range_end w =
     (let end = min (offset + 1024) range_end;
          sz = end - offset
      in case read_bytes_at E st offset sz w of
           (Inl err, w) \<Rightarrow> Some (sent, Some err, w)
         | (Inr d, w) \<Rightarrow>
             if end \<ge> range_end then Some (sent @ [(offset, d)], None, w)
             else fs_export_loop E st (sent @ [(offset, d)]) end range_end w)"

fun fs_export_items :: "('r, 'd) fs_env \<Rightarrow> 'r bao_storage \<Rightarrow> 'r bitfield \<Rightarrow> (u64 \<times> bytes) list \<Rightarrow> range_item list
    \<Rightarrow> 'd fs_world \<Rightarrow> ((u64 \<times> bytes) list \<times> failure option \<times> 'd fs_world) option" where
  "fs_export_items E st bf sent [] w = Some (sent, None, w)"
| "fs_export_items E st bf sent (rng # rngs) w =
     (let sz = bf_size bf;
          (start, end) = (case rng of Range a b \<Rightarrow> (min sz a, min sz b) | RangeFrom a \<Rightarrow> (min sz a, sz));
          requested = bytes_range (fe_R E) (fe_B E) (Included start) (Excluded end)
      in if \<not> rs_is_subset (fe_R E) requested (bf_ranges bf) then Some (sent, Some (Fails OtherIo), w)
         else case fs_export_loop E st sent start end w of
                None \<Rightarrow> None
              | Some (sent', Some e, w) \<Rightarrow> Some (sent', Some e, w)
              | Some (sent', None, w) \<Rightarrow> fs_export_items E st bf sent' rngs w)"

definition fs_export_ranges_impl :: "('r, 'd) fs_env \<Rightarrow> 'r \<Rightarrow> 'r bao_storage \<Rightarrow> 'd fs_world
    \<Rightarrow> ((u64 \<times> bytes) list \<times> failure option \<times> 'd fs_world) option" where
  "fs_export_ranges_impl E ranges st w = (case cx_bitfield E st w of
     (Inl e, w) \<Rightarrow> Some ([], Some e, w)
   | (Inr bf, w) \<Rightarrow> fs_export_items E st bf [] (rs_iter (fe_R E) ranges) w)"

definition fs_export_ranges :: "('r, 'd) fs_env \<Rightarrow> fs_ctx \<Rightarrow> 'r \<Rightarrow> 'r bao_storage \<Rightarrow> 'd fs_world
    \<Rightarrow> 'r bao_storage \<times> ((u64 \<times> bytes) list \<times> failure option \<times> 'd fs_world) option" where
  "fs_export_ranges E cx ranges st w = (case cx_load E cx st w of
     (Inl e, st, w) \<Rightarrow> (st, Some ([], Some e, w))
   | (Inr _, st, w) \<Rightarrow> (st, fs_export_ranges_impl E ranges st w))"

section \<open>Export to a file\<close>

datatype export_mode = CopyMode | TryReference

text \<open>\<open>copy_with_progress\<close>: pieces of 1 MiB; the cursor of the target is at the offset.\<close>

lemma copy_step:
  assumes "offset < (sz :: u64)"
  shows "unat (offset + min 1048576 (sz - offset)) = unat offset + min 1048576 (unat sz - unat offset)"
    "unat sz - unat (offset + min 1048576 (sz - offset)) < unat sz - unat offset"
proof -
  have lt: "unat offset < unat sz" using assms by (simp add: word_less_nat_alt)
  then have "unat (sz - offset) = unat sz - unat offset" by (intro unat_sub_u64) (simp add: word_le_nat_alt)
  then have m: "unat (min 1048576 (sz - offset)) = min 1048576 (unat sz - unat offset)" by (simp add: unat_min_u64)
  then have "unat offset + unat (min 1048576 (sz - offset)) < 2 ^ 64" using lt unat_u64_lt [of sz] by simp
  then show "unat (offset + min 1048576 (sz - offset)) = unat offset + min 1048576 (unat sz - unat offset)"
    using m by (simp add: unat_add_u64)
  with lt show "unat sz - unat (offset + min 1048576 (sz - offset)) < unat sz - unat offset" by simp
qed

function (sequential) copy_with_progress :: "('r, 'd) fs_env \<Rightarrow> nat \<Rightarrow> u64 \<Rightarrow> nat \<Rightarrow> u64 \<Rightarrow> export_progress_item sender \<Rightarrow> ('d, export_progress_item sender) fio" where
  "copy_with_progress E source sz target offset p w =
     (if \<not> offset < sz then (Inr p, w)
      else
        let remaining = min 1048576 (sz - offset) in
        case read_exact_at source (unat offset) (unat remaining) w of
          (Inl e, w) \<Rightarrow> (Inl e, w)
        | (Inr buf, w) \<Rightarrow>
            (case fs_write_all_at (fe_Io E) target offset buf w of
               (Inl e, w) \<Rightarrow> (Inl e, w)
             | (Inr _, w) \<Rightarrow>
                 (case send p (ExportCopyProgress offset) of
                    None \<Rightarrow> (Inl (Fails OtherIo), w)
                  | Some p \<Rightarrow> copy_with_progress E source sz target (offset + remaining) p w)))"
  by pat_completeness auto
termination
  by (relation "measure (\<lambda>(E, source, sz, target, offset, p, w). unat sz - unat offset)") (simp_all add: copy_step(2))

text \<open>
  \<open>reflink_or_copy_with_progress\<close>; whether the file system can link the content is a parameter.
\<close>

definition reflink_or_copy :: "('r, 'd) fs_env \<Rightarrow> (path \<Rightarrow> path \<Rightarrow> bool) \<Rightarrow> path \<Rightarrow> path \<Rightarrow> u64 \<Rightarrow> export_progress_item sender
    \<Rightarrow> ('d, export_progress_item sender) fio" where
  "reflink_or_copy E reflink from to sz p w =
     (case fs_names w from of
        Some i \<Rightarrow>
          if reflink from to \<and> fs_names w to = None
          then (case new_file to w of (Inr j, w1) \<Rightarrow> (Inr p, set_content j (fs_content w i) w1) | (Inl e, w1) \<Rightarrow> (Inl e, w1))
          else io_then (fs_open from) (\<lambda>source. io_then (fs_create to) (\<lambda>target.
            copy_with_progress E source sz target 0 p)) w
      | None \<Rightarrow> io_then (fs_open from) (\<lambda>source. io_then (fs_create to) (\<lambda>target.
            copy_with_progress E source sz target 0 p)) w)"

definition max_external_paths :: nat where
  "max_external_paths = 8"

text \<open>
  \<open>export_path_impl\<close>: the arguments say which paths are absolute, which errors are \<open>ERR_CROSS\<close>, and what
  can be linked. The sender counts the items its receiver still takes; \<open>try_send\<close> in the copy loop may
  also drop an item when the channel is full, which only affects the progress that is reported.
\<close>

definition export_data :: "fs_ctx \<Rightarrow> ('r, 'd) fs_env \<Rightarrow> (bytes, u64) data_location
    \<Rightarrow> ('d, (path \<times> u64) mem_or_file \<times> path list) fio" where
  "export_data cx E loc = (case loc of
     InlineData data \<Rightarrow> io_ok (MemPart data, [])
   | OwnedData sz \<Rightarrow> io_ok (FilePart (cx_file E cx DataPart, sz), [])
   | ExternalData paths sz \<Rightarrow>
       (case paths of [] \<Rightarrow> io_err NotFoundIo | p # _ \<Rightarrow> io_ok (FilePart (p, sz), paths)))"

definition move_or_copy :: "('r, 'd) fs_env \<Rightarrow> (path \<Rightarrow> path \<Rightarrow> bool) \<Rightarrow> (io_error \<Rightarrow> bool) \<Rightarrow> path \<Rightarrow> path \<Rightarrow> u64
    \<Rightarrow> export_progress_item sender \<Rightarrow> ('d, export_progress_item sender) fio" where
  "move_or_copy E reflink cross from to sz p w = (case fs_rename from to w of
     (Inr _, w) \<Rightarrow> (Inr p, w)
   | (Inl (Fails e), w) \<Rightarrow> if cross e then reflink_or_copy E reflink from to sz p w else (Inl (Fails e), w)
   | (Inl Panics, w) \<Rightarrow> (Inl Panics, w))"

definition send_item :: "export_progress_item \<Rightarrow> export_progress_item sender \<Rightarrow> ('d, export_progress_item sender) fio" where
  "send_item i p = (case send p i of None \<Rightarrow> io_err OtherIo | Some p \<Rightarrow> io_ok p)"

definition export_file :: "('r, 'd) fs_env \<Rightarrow> fs_ctx \<Rightarrow> (path \<Rightarrow> path \<Rightarrow> bool) \<Rightarrow> (io_error \<Rightarrow> bool) \<Rightarrow> export_mode
    \<Rightarrow> path \<Rightarrow> bytes outboard_location \<Rightarrow> path \<Rightarrow> u64 \<Rightarrow> path list \<Rightarrow> export_progress_item sender \<Rightarrow> ('d, export_progress_item sender) fio" where
  "export_file E cx reflink cross mode target outboard_location source_path sz external p = (case mode of
     CopyMode \<Rightarrow> reflink_or_copy E reflink source_path target sz p
   | TryReference \<Rightarrow>
       io_then (if external \<noteq> []
         then io_then (reflink_or_copy E reflink source_path target sz p) (\<lambda>p.
           io_ok (p, take max_external_paths (sort_dedup (external @ [target]))))
         else io_then (move_or_copy E reflink cross source_path target sz p) (\<lambda>p.
           io_ok (p, external @ [target]))) (\<lambda>(p, external).
       io_then (db_call (dbo_set (fe_db E) (cx_id cx) (CompleteEntry (ExternalData external sz) outboard_location))) (\<lambda>_.
       io_ok p)))"

definition fs_export_path_impl :: "('r, 'd) fs_env \<Rightarrow> fs_ctx \<Rightarrow> (path \<Rightarrow> bool) \<Rightarrow> (path \<Rightarrow> path \<Rightarrow> bool) \<Rightarrow> (io_error \<Rightarrow> bool)
    \<Rightarrow> export_mode \<Rightarrow> path \<Rightarrow> export_progress_item sender \<Rightarrow> ('d, export_progress_item sender) fio" where
  "fs_export_path_impl E cx absolute reflink cross mode target p =
     (if \<not> absolute target then io_err InvalidInput
      else
        io_then (guarded (\<lambda>w. (Inr (), w))) (\<lambda>_.
        io_then (get_entry_state E cx) (\<lambda>state.
        case state of
          None \<Rightarrow> io_err NotFoundIo
        | Some (PartialEntry _) \<Rightarrow> io_err InvalidInput
        | Some (CompleteEntry data_location outboard_location) \<Rightarrow>
            io_then (export_data cx E data_location) (\<lambda>(data, external).
            io_then (send_item (ExportSize (case data of MemPart bs \<Rightarrow> of_nat (length bs) | FilePart (_, sz) \<Rightarrow> sz)) p) (\<lambda>p.
            io_then (case data of
                MemPart bs \<Rightarrow>
                  io_then (fs_create target) (\<lambda>i. io_then (fs_write_all_at (fe_Io E) i 0 bs) (\<lambda>_. io_ok p))
              | FilePart (source_path, sz) \<Rightarrow>
                  export_file E cx reflink cross mode target outboard_location source_path sz external p) (\<lambda>p.
            send_item ExportDone p))))))"

end
