(* ===== verification/Bao_Agree.thy ===== *)
theory Bao_Agree
  imports Bao_File
begin

text \<open>
  Agreement of stored bytes with the bytes of a blob: what a batch of the verified stream adds to
  it, in memory and in files, what stays of it when memory is written to files, and which files
  such operations leave alone.
\<close>

section \<open>Agreement of bytes\<close>

definition agrees :: "bytes \<Rightarrow> bytes \<Rightarrow> nat set \<Rightarrow> bool" where
  "agrees bs ref X \<longleftrightarrow> (\<forall>x\<in>X. x < length bs \<and> x < length ref \<and> bs ! x = ref ! x)"

lemma agrees_empty [simp]: "agrees bs ref {}"
  by (simp add: agrees_def)

lemma agrees_subset: "agrees bs ref X \<Longrightarrow> Y \<subseteq> X \<Longrightarrow> agrees bs ref Y"
  by (auto simp: agrees_def)

lemma agrees_Un: "agrees bs ref (X \<union> Y) \<longleftrightarrow> agrees bs ref X \<and> agrees bs ref Y"
  by (auto simp: agrees_def)

lemma agrees_refl: "X \<subseteq> {..<length d} \<Longrightarrow> agrees d d X"
  by (auto simp: agrees_def)

lemma agrees_take: "agrees bs ref X \<Longrightarrow> X \<subseteq> {..<n} \<Longrightarrow> agrees (take n bs) ref X"
  by (auto simp: agrees_def)

lemma agrees_all: "agrees bs ref {..<length ref} \<Longrightarrow> take (length ref) bs = ref"
proof (rule nth_equalityI)
  assume a: "agrees bs ref {..<length ref}"
  have "length ref \<le> length bs"
    using a by (cases "length ref") (auto simp: agrees_def Suc_le_eq)
  then show "length (take (length ref) bs) = length ref" by simp
  show "take (length ref) bs ! i = ref ! i" if "i < length (take (length ref) bs)" for i
    using a that by (simp add: agrees_def)
qed

text \<open>A piece of a list at a position.\<close>

definition piece_of :: "bytes \<Rightarrow> nat \<Rightarrow> bytes \<Rightarrow> bool" where
  "piece_of ref off buf \<longleftrightarrow> off + length buf \<le> length ref \<and> buf = take (length buf) (drop off ref)"

abbreviation span :: "nat \<Rightarrow> bytes \<Rightarrow> nat set" where
  "span off buf \<equiv> {off..<off + length buf}"

lemma piece_nth: "piece_of ref off buf \<Longrightarrow> off \<le> x \<Longrightarrow> x < off + length buf \<Longrightarrow> buf ! (x - off) = ref ! x"
proof -
  assume p: "piece_of ref off buf" and x: "off \<le> x" "x < off + length buf"
  have b: "buf = take (length buf) (drop off ref)" and le: "off + length buf \<le> length ref"
    using p unfolding piece_of_def by blast+
  have "buf ! (x - off) = take (length buf) (drop off ref) ! (x - off)" using b by (rule arg_cong)
  also have "\<dots> = ref ! (off + (x - off))" using le x by simp
  finally show ?thesis using x by simp
qed

lemma piece_append:
  assumes "piece_of ref off (a @ b)"
  shows "piece_of ref off a" "piece_of ref (off + length a) b"
proof -
  have ab: "a @ b = take (length a) (drop off ref) @ take (length b) (drop (off + length a) ref)"
    using assms by (simp add: piece_of_def take_add add.commute)
  moreover have "length (take (length a) (drop off ref)) = length a"
    using assms by (auto simp: piece_of_def)
  ultimately have "a = take (length a) (drop off ref)" "b = take (length b) (drop (off + length a) ref)"
    by (metis append_eq_append_conv)+
  then show "piece_of ref off a" "piece_of ref (off + length a) b"
    using assms by (simp_all add: piece_of_def)
qed

lemma agrees_write:
  assumes "agrees bs ref X" "piece_of ref off buf"
  shows "agrees (write_vec bs off buf) ref (X \<union> span off buf)"
  unfolding agrees_def
proof
  fix x assume x: "x \<in> X \<union> span off buf"
  have lt: "x < length (write_vec bs off buf)"
    using x assms(1) by (auto simp: agrees_def less_max_iff_disj)
  show "x < length (write_vec bs off buf) \<and> x < length ref \<and> write_vec bs off buf ! x = ref ! x"
  proof (cases "x \<in> span off buf")
    case True
    then show ?thesis using lt nth_write_vec [OF lt] piece_nth [OF assms(2)] assms(2)
      by (simp add: piece_of_def)
  next
    case False
    then have "x < length bs" "x < length ref" "bs ! x = ref ! x" using x assms(1) by (auto simp: agrees_def)
    with False lt nth_write_vec [OF lt] show ?thesis by auto
  qed
qed

lemma piece_take: "piece_of ref off buf \<Longrightarrow> piece_of ref off (take n buf)"
  by (metis append_take_drop_id piece_append(1))

text \<open>A change that keeps every byte that agrees.\<close>

definition improves :: "bytes \<Rightarrow> bytes \<Rightarrow> bytes \<Rightarrow> bool" where
  "improves ref bs bs' \<longleftrightarrow> (\<forall>X. agrees bs ref X \<longrightarrow> agrees bs' ref X)"

lemma improves_refl [simp]: "improves ref bs bs"
  by (simp add: improves_def)

lemma improves_trans: "improves ref a b \<Longrightarrow> improves ref b c \<Longrightarrow> improves ref a c"
  by (simp add: improves_def)

lemma improves_write: "piece_of ref off buf \<Longrightarrow> improves ref bs (write_vec bs off buf)"
  by (auto simp: improves_def agrees_Un dest: agrees_write)

text \<open>What a sparse file in memory knows of a list.\<close>

definition sparse_agrees :: "'r range_ops \<Rightarrow> bytes \<Rightarrow> nat set \<Rightarrow> 'r sparse_mem_file \<Rightarrow> bool" where
  "sparse_agrees R ref X f \<longleftrightarrow> length (sf_data f) \<le> length ref
     \<and> (\<forall>x\<in>X. x < length ref \<and> rs_contains R (sf_ranges f) (of_nat x))
     \<and> (\<forall>y. rs_contains R (sf_ranges f) y \<longrightarrow> unat y < length (sf_data f) \<and> sf_data f ! unat y = ref ! unat y)"

section \<open>Items of the verified stream\<close>

text \<open>Items as the stream of a blob with content \<open>d\<close> and outboard \<open>ob\<close> contains them.\<close>

fun item_of :: "io_ops \<Rightarrow> bytes \<Rightarrow> bytes \<Rightarrow> bao_content_item \<Rightarrow> bool" where
  "item_of Io d ob (Leaf off data) = leaf_of d off data"
| "item_of Io d ob (Parent node left right) =
     (\<forall>k. io_pre_order_offset Io (of_nat (length d)) node = Some k \<longrightarrow>
        piece_of ob (unat k * 64) (as_bytes left @ as_bytes right))"

fun data_span :: "bao_content_item \<Rightarrow> nat set" where
  "data_span (Leaf off data) = span (unat off) data"
| "data_span (Parent node left right) = {}"

fun outboard_span :: "io_ops \<Rightarrow> u64 \<Rightarrow> bao_content_item \<Rightarrow> nat set" where
  "outboard_span Io sz (Leaf off data) = {}"
| "outboard_span Io sz (Parent node left right) =
     (case io_pre_order_offset Io sz node of None \<Rightarrow> {} | Some k \<Rightarrow> {unat k * 64..<unat k * 64 + 64})"

definition data_spans :: "bao_content_item list \<Rightarrow> nat set" where
  "data_spans batch = (\<Union>item\<in>set batch. data_span item)"

definition outboard_spans :: "io_ops \<Rightarrow> u64 \<Rightarrow> bao_content_item list \<Rightarrow> nat set" where
  "outboard_spans Io sz batch = (\<Union>item\<in>set batch. outboard_span Io sz item)"

lemma spans_simps [simp]:
  "data_spans [] = {}" "data_spans (i # b) = data_span i \<union> data_spans b"
  "data_spans (a @ b) = data_spans a \<union> data_spans b"
  "outboard_spans Io sz [] = {}" "outboard_spans Io sz (i # b) = outboard_span Io sz i \<union> outboard_spans Io sz b"
  "outboard_spans Io sz (a @ b) = outboard_spans Io sz a \<union> outboard_spans Io sz b"
  by (auto simp: data_spans_def outboard_spans_def)

lemma leaf_piece: "leaf_of d off data \<Longrightarrow> piece_of d (unat off) data"
  by (simp add: leaf_of_def piece_of_def)

section \<open>Storage in memory\<close>

definition mem_agrees :: "'r range_ops \<Rightarrow> bytes \<Rightarrow> bytes \<Rightarrow> nat set \<Rightarrow> nat set \<Rightarrow> 'r partial_mem_storage \<Rightarrow> bool" where
  "mem_agrees R d ob D M ms \<longleftrightarrow> sparse_agrees R d D (ps_data ms) \<and> sparse_agrees R ob M (ps_outboard ms)"

context store_laws
begin

lemma sparse_new_agrees: "sparse_agrees R ref {} (sparse_new R)"
  by (simp add: sparse_agrees_def sparse_new_def contains_empty)

lemma sparse_agrees_data: "sparse_agrees R ref X f \<Longrightarrow> length ref < 2 ^ 64 \<Longrightarrow> agrees (sf_data f) ref X"
proof -
  assume a: "sparse_agrees R ref X f" and l: "length ref < 2 ^ 64"
  show ?thesis unfolding agrees_def
  proof
    fix x assume "x \<in> X"
    then have "x < length ref" "rs_contains R (sf_ranges f) (of_nat x)" using a by (auto simp: sparse_agrees_def)
    moreover from this(1) l have "unat (of_nat x :: u64) = x" by (intro unat_of_nat_u64) simp
    ultimately show "x < length (sf_data f) \<and> x < length ref \<and> sf_data f ! x = ref ! x"
      using a by (auto simp: sparse_agrees_def)
  qed
qed

lemma sparse_write_agrees:
  assumes "sparse_agrees R ref X f" "piece_of ref (unat off) buf" "length ref < 2 ^ 64"
  shows "\<exists>f'. sparse_write_at R Io f off buf = Inr f' \<and> sparse_agrees R ref (X \<union> span (unat off) buf) f'"
proof -
  let ?e = "off + of_nat (length buf)"
  have le: "unat off + length buf < 2 ^ 64" using assms(2,3) by (simp add: piece_of_def)
  then have len: "unat (of_nat (length buf) :: u64) = length buf" by (intro unat_of_nat_u64) simp
  have e: "unat ?e = unat off + length buf" using le len by (simp add: unat_add_u64)
  define f' where "f' = \<lparr>sf_data = write_vec (sf_data f) (unat off) buf,
    sf_ranges = rs_union R (sf_ranges f) (rs_range R off ?e)\<rparr>"
  have w: "sparse_write_at R Io f off buf = Inr f'"
    using le len by (simp add: sparse_write_at_def checked_add_u64_def io_write f'_def)
  have cont: "rs_contains R (sf_ranges f') y \<longleftrightarrow> rs_contains R (sf_ranges f) y \<or> unat y \<in> span (unat off) buf" for y
    by (simp add: f'_def contains_simps word_le_nat_alt word_less_nat_alt e)
  have old: "agrees (sf_data f) ref {unat y |y. rs_contains R (sf_ranges f) y}"
    using assms(1) by (fastforce simp: agrees_def sparse_agrees_def)
  note new = agrees_write [OF old assms(2)]
  have "unat y < length (sf_data f') \<and> sf_data f' ! unat y = ref ! unat y" if "rs_contains R (sf_ranges f') y" for y
    using new that cont [of y] by (auto simp: agrees_def f'_def)
  moreover have "x < length ref \<and> rs_contains R (sf_ranges f') (of_nat x)" if "x \<in> X \<union> span (unat off) buf" for x
  proof (cases "x \<in> X")
    case True
    then show ?thesis using assms(1) cont by (simp add: sparse_agrees_def)
  next
    case False
    then have x: "x \<in> span (unat off) buf" using that by simp
    then have lt: "x < length ref" using assms(2) by (simp add: piece_of_def)
    then have "unat (of_nat x :: u64) = x" using assms(3) by (intro unat_of_nat_u64) simp
    with x lt cont show ?thesis by simp
  qed
  moreover have "length (sf_data f') \<le> length ref"
    using assms(1,2) by (simp add: f'_def sparse_agrees_def piece_of_def)
  ultimately show ?thesis using w by (auto simp: sparse_agrees_def)
qed

lemma write_batch_item_agrees:
  assumes "mem_agrees R d ob D M ms" "item_of Io d ob item" "length d < 2 ^ 64" "length ob < 2 ^ 64"
  shows "\<exists>ms'. write_batch_item R Io (of_nat (length d)) item ms = Some (Inr ms') \<and> ps_bitfield ms' = ps_bitfield ms
    \<and> mem_agrees R d ob (D \<union> data_span item) (M \<union> outboard_span Io (of_nat (length d)) item) ms'"
proof (cases item)
  case (Leaf off data)
  then have "piece_of d (unat off) data" using assms(2) by (simp add: leaf_piece)
  from sparse_write_agrees [OF _ this assms(3), of D "ps_data ms"] assms(1) Leaf show ?thesis
    by (auto simp: mem_agrees_def write_batch_item_def Let_def)
next
  case (Parent node left right)
  show ?thesis
  proof (cases "io_pre_order_offset Io (of_nat (length d)) node")
    case None
    then show ?thesis using assms(1) Parent by (simp add: write_batch_item_def)
  next
    case (Some k)
    then have p: "piece_of ob (unat k * 64) (as_bytes left @ as_bytes right)" using assms(2) Parent by simp
    then have "unat k * 64 < 2 ^ 64" using assms(4) by (simp add: piece_of_def)
    then have m: "checked_mul_u64 k 64 = Some (k * 64)" and u: "unat (k * 64) = unat k * 64"
      by (simp_all add: checked_mul_u64_def unat_word_ariths)
    have "sparse_agrees R ob M (ps_outboard ms)" using assms(1) by (simp add: mem_agrees_def)
    from sparse_write_agrees [OF this p [folded u] assms(4)] obtain f' where
      "sparse_write_at R Io (ps_outboard ms) (k * 64) (as_bytes left @ as_bytes right) = Inr f'"
      "sparse_agrees R ob (M \<union> {unat k * 64..<unat k * 64 + 64}) f'" by (auto simp: u)
    with assms(1) Parent Some m show ?thesis by (simp add: mem_agrees_def write_batch_item_def)
  qed
qed

lemma write_batch_agrees:
  assumes "length d < 2 ^ 64" "length ob < 2 ^ 64"
  shows "mem_agrees R d ob D M ms \<Longrightarrow> \<forall>item\<in>set batch. item_of Io d ob item \<Longrightarrow>
    \<exists>ms'. Mem_Storage.write_batch R Io (of_nat (length d)) batch ms = Some (Inr ms') \<and> ps_bitfield ms' = ps_bitfield ms
      \<and> mem_agrees R d ob (D \<union> data_spans batch) (M \<union> outboard_spans Io (of_nat (length d)) batch) ms'"
proof (induction batch arbitrary: ms D M)
  case (Cons item batch)
  from write_batch_item_agrees [OF Cons.prems(1) _ assms, of item] Cons.prems(2) obtain ms1 where
    m1: "write_batch_item R Io (of_nat (length d)) item ms = Some (Inr ms1)" "ps_bitfield ms1 = ps_bitfield ms"
    "mem_agrees R d ob (D \<union> data_span item) (M \<union> outboard_span Io (of_nat (length d)) item) ms1" by auto
  from Cons.IH [OF m1(3)] Cons.prems(2) m1(1,2) show ?case by (auto simp: Un_assoc)
qed simp

end

section \<open>Storage in files\<close>

lemma cx_file_inject [simp]: "cx_file E cx p = cx_file E cx q \<longleftrightarrow> p = q"
  by (cases p; cases q) (simp_all add: cx_file_def file_path_def ascii_def)

text \<open>
  A change of the world that concerns only the files under the names \<open>P\<close>: such files may appear,
  their content may change, and everything else stays, the database among it; marks for deletion
  may be removed.
\<close>

definition frame :: "path set \<Rightarrow> 'd fs_world \<Rightarrow> 'd fs_world \<Rightarrow> bool" where
  "frame P w w' \<longleftrightarrow> (fs_wf w \<longrightarrow> fs_wf w') \<and> fw_db w' = fw_db w \<and> fw_delete w' \<subseteq> fw_delete w \<and> fs_fresh w \<le> fs_fresh w'
     \<and> (\<forall>p i. fs_names w p = Some i \<longrightarrow> fs_names w' p = Some i)
     \<and> (\<forall>p i. fs_names w' p = Some i \<longrightarrow> fs_names w p = Some i \<or> (p \<in> P \<and> fs_fresh w \<le> i))
     \<and> (\<forall>i < fs_fresh w. (\<forall>p\<in>P. fs_names w p \<noteq> Some i) \<longrightarrow> fs_content w' i = fs_content w i)"

lemma frame_refl [simp]: "frame P w w"
  by (simp add: frame_def)

lemma frameD:
  assumes "frame P w w'"
  shows "fs_wf w \<Longrightarrow> fs_wf w'" "fw_db w' = fw_db w" "fs_names w p = Some i \<Longrightarrow> fs_names w' p = Some i"
    "fs_names w' p = Some i \<Longrightarrow> fs_names w p = Some i \<or> (p \<in> P \<and> fs_fresh w \<le> i)"
    "fs_fresh w \<le> fs_fresh w'"
    "i < fs_fresh w \<Longrightarrow> (\<And>p. p \<in> P \<Longrightarrow> fs_names w p \<noteq> Some i) \<Longrightarrow> fs_content w' i = fs_content w i"
  using assms unfolding frame_def by blast+

lemma frame_trans:
  assumes "frame P u v" "frame P v w"
  shows "frame P u w"
proof -
  have names: "fs_names u p = Some i \<or> (p \<in> P \<and> fs_fresh u \<le> i)" if "fs_names w p = Some i" for p i
    using frameD(4) [OF assms(2) that] frameD(4) [OF assms(1), of p i] frameD(5) [OF assms(1)] by auto
  have "fs_content w i = fs_content u i" if "i < fs_fresh u" "\<forall>p\<in>P. fs_names u p \<noteq> Some i" for i
  proof -
    have "fs_content v i = fs_content u i" using frameD(6) [OF assms(1)] that by blast
    moreover have "fs_names v p \<noteq> Some i" if "p \<in> P" for p
      using frameD(4) [OF assms(1), of p i] \<open>i < fs_fresh u\<close> \<open>\<forall>p\<in>P. _\<close> that by auto
    ultimately show ?thesis using frameD(5,6) [OF assms(2)] frameD(5) [OF assms(1)] that(1) by (metis order.strict_trans2)
  qed
  then show ?thesis using assms names unfolding frame_def by (auto dest: order_trans)
qed

lemma world_more:
  "fsys.more w' = fsys.more w \<Longrightarrow> fw_db w' = fw_db w \<and> fw_delete w' = fw_delete (w :: 'd fs_world)"
  by (cases w; cases w') simp

lemma frame_files:
  assumes "only_files {i} w w'" "fs_names w p = Some i" "p \<in> P"
  shows "frame P w w'"
proof -
  note d = only_filesD [OF assms(1)]
  note world_more [OF d(3)]
  with d(1,2,4) assms(2,3) show ?thesis using only_files_wf [OF assms(1)] unfolding frame_def by (metis order_refl singletonD)
qed

lemma frame_same: "only_files {} w w' \<Longrightarrow> frame P w w'"
proof -
  assume a: "only_files {} w w'"
  note d = only_filesD [OF a]
  note world_more [OF d(3)]
  with d(1,2,4) show ?thesis using only_files_wf [OF a] unfolding frame_def by simp
qed

lemma frame_create:
  assumes "create_read_write p w = (Inr i, w')" "p \<in> P"
  shows "frame P w w'"
proof -
  note c = create_read_write_ok [OF assms(1)]
  have m: "fw_db w' = fw_db w" "fw_delete w' = fw_delete w" using c(1) world_more by (auto simp: grows_def)
  have "fs_names w q = Some j \<or> (q \<in> P \<and> fs_fresh w \<le> j)" if "fs_names w' q = Some j" for q j
    using that assms(2) c(2,4,5) c(6) [of q] by (cases "q = p"; cases "fs_names w p") auto
  then show ?thesis using c(1,3) m by (auto simp: frame_def grows_def)
qed

lemma frame_protect: "frame P w (w\<lparr>fw_delete := ds_protect h parts (fw_delete w)\<rparr>)"
  by (auto simp: frame_def fs_wf_def ds_protect_eq)

lemma frame_mono: "frame P w w' \<Longrightarrow> P \<subseteq> P' \<Longrightarrow> frame P' w w'"
  unfolding frame_def by blast

text \<open>A file under another name is left alone.\<close>

lemma frame_other:
  assumes "frame P w w'" "fs_wf w" "fs_names w p = Some i" "p \<notin> P"
  shows "fs_names w' p = Some i" "fs_content w' i = fs_content w i"
proof -
  show "fs_names w' p = Some i" using frameD(3) [OF assms(1,3)] .
  have "i < fs_fresh w" "\<And>q. q \<in> P \<Longrightarrow> fs_names w q \<noteq> Some i"
    using assms(2-4) unfolding fs_wf_def by blast+
  then show "fs_content w' i = fs_content w i" by (rule frameD(6) [OF assms(1)])
qed

text \<open>
  The change that an operation on the partial storage of a blob with content \<open>d\<close> makes: it concerns
  the three files of the blob, and bytes of the data file that agree with the blob stay.
\<close>

abbreviation entry_paths :: "('r, 'd) fs_env \<Rightarrow> fs_ctx \<Rightarrow> path set" where
  "entry_paths E cx \<equiv> cx_file E cx ` {DataPart, OutboardPart, SizesPart}"

definition cx_frame :: "('r, 'd) fs_env \<Rightarrow> fs_ctx \<Rightarrow> bytes \<Rightarrow> 'd fs_world \<Rightarrow> 'd fs_world \<Rightarrow> bool" where
  "cx_frame E cx d w w' \<longleftrightarrow> frame (entry_paths E cx) w w' \<and>
     (\<forall>i. fs_names w (cx_file E cx DataPart) = Some i \<longrightarrow> improves d (fs_content w i) (fs_content w' i))"

lemma cx_frameD:
  assumes "cx_frame E cx d w w'"
  shows "frame (entry_paths E cx) w w'" "fs_wf w \<Longrightarrow> fs_wf w'" "fs_names w p = Some i \<Longrightarrow> fs_names w' p = Some i"
    "fs_names w (cx_file E cx DataPart) = Some i \<Longrightarrow> improves d (fs_content w i) (fs_content w' i)"
  using assms frameD [of _ w w'] unfolding cx_frame_def by blast+

lemma cx_refl [simp]: "cx_frame E cx d w w"
  by (simp add: cx_frame_def)

lemma cx_trans:
  assumes "cx_frame E cx d u v" "cx_frame E cx d v w"
  shows "cx_frame E cx d u w"
  using assms frame_trans improves_trans frameD(3) unfolding cx_frame_def by meson

lemma cx_same: "only_files {} w w' \<Longrightarrow> cx_frame E cx d w w'"
  by (simp add: cx_frame_def frame_same only_filesD(4))

lemma cx_part:
  assumes "frame {cx_file E cx part} w w'" "part \<in> {OutboardPart, SizesPart}" "fs_wf w"
  shows "cx_frame E cx d w w'"
proof -
  have "fs_content w' i = fs_content w i" if "fs_names w (cx_file E cx DataPart) = Some i" for i
    using frame_other(2) [OF assms(1,3) that] assms(2) by auto
  moreover have "frame (entry_paths E cx) w w'" using assms(1) by (rule frame_mono) (use assms(2) in auto)
  ultimately show ?thesis by (simp add: cx_frame_def)
qed

lemma cx_data:
  assumes "frame {cx_file E cx DataPart} w w'"
    "\<And>i. fs_names w (cx_file E cx DataPart) = Some i \<Longrightarrow> improves d (fs_content w i) (fs_content w' i)"
  shows "cx_frame E cx d w w'"
  using frame_mono [OF assms(1), of "entry_paths E cx"] assms(2) by (auto simp: cx_frame_def)

lemma cx_create:
  assumes "create_read_write (cx_file E cx part) w = (Inr i, w')" "part \<noteq> BitfieldPart" "fs_wf w"
  shows "cx_frame E cx d w w'"
proof -
  have f: "frame {cx_file E cx part} w w'" using frame_create [OF assms(1)] by simp
  have "fs_content w' j = fs_content w j" if "fs_names w (cx_file E cx DataPart) = Some j" for j
    using create_read_write_ok(1) [OF assms(1)] assms(3) that by (auto simp: grows_def fs_wf_def)
  moreover have "frame (entry_paths E cx) w w'" using f by (rule frame_mono) (use assms(2) in \<open>cases part; simp\<close>)
  ultimately show ?thesis by (simp add: cx_frame_def)
qed

lemma cx_protected: "cx_frame E cx d w (w\<lparr>fw_delete := ds_protect h parts (fw_delete w)\<rparr>)"
  by (simp add: cx_frame_def frame_protect)

text \<open>The files of a partial entry, under their names.\<close>

definition linked :: "('r, 'd) fs_env \<Rightarrow> fs_ctx \<Rightarrow> 'r partial_file_storage \<Rightarrow> 'd fs_world \<Rightarrow> bool" where
  "linked E cx fs w \<longleftrightarrow> fs_names w (cx_file E cx DataPart) = Some (pf_data fs)
     \<and> fs_names w (cx_file E cx OutboardPart) = Some (pf_outboard fs)
     \<and> fs_names w (cx_file E cx SizesPart) = Some (pf_sizes fs)"

definition files_agree :: "('r, 'd) fs_env \<Rightarrow> fs_ctx \<Rightarrow> bytes \<Rightarrow> bytes \<Rightarrow> nat set \<Rightarrow> nat set \<Rightarrow>
    'r partial_file_storage \<Rightarrow> 'd fs_world \<Rightarrow> bool" where
  "files_agree E cx d ob D M fs w \<longleftrightarrow> fs_wf w \<and> linked E cx fs w
     \<and> agrees (fs_content w (pf_data fs)) d D \<and> agrees (fs_content w (pf_outboard fs)) ob M"

lemma linked_distinct:
  assumes "fs_wf w" "linked E cx fs w"
  shows "pf_data fs \<noteq> pf_outboard fs" "pf_data fs \<noteq> pf_sizes fs" "pf_outboard fs \<noteq> pf_sizes fs"
proof -
  have inj: "p = q" if "fs_names w p = Some i" "fs_names w q = Some i" for p q i
    using assms(1) that unfolding fs_wf_def by blast
  have *: "fs_names w (cx_file E cx DataPart) = Some (pf_data fs)"
    "fs_names w (cx_file E cx OutboardPart) = Some (pf_outboard fs)"
    "fs_names w (cx_file E cx SizesPart) = Some (pf_sizes fs)"
    using assms(2) by (simp_all add: linked_def)
  show "pf_data fs \<noteq> pf_outboard fs" using inj [OF *(1)] *(2) by fastforce
  show "pf_data fs \<noteq> pf_sizes fs" using inj [OF *(1)] *(3) by fastforce
  show "pf_outboard fs \<noteq> pf_sizes fs" using inj [OF *(2)] *(3) by fastforce
qed

lemma files_agree_data:
  assumes "files_agree E cx d ob D M fs w" "only_files {pf_data fs} w w'"
    and "agrees (fs_content w' (pf_data fs)) d D'"
  shows "files_agree E cx d ob D' M fs w'"
  using assms linked_distinct [of w E cx fs] only_files_wf [OF assms(2)]
  by (simp add: files_agree_def linked_def only_filesD(1,4) [OF assms(2)])

lemma files_agree_outboard:
  assumes "files_agree E cx d ob D M fs w" "only_files {pf_outboard fs} w w'"
    and "agrees (fs_content w' (pf_outboard fs)) ob M'"
  shows "files_agree E cx d ob D M' fs w'"
  using assms linked_distinct [of w E cx fs] only_files_wf [OF assms(2)]
  by (simp add: files_agree_def linked_def only_filesD(1,4) [OF assms(2)])

lemma files_agree_sizes:
  assumes "files_agree E cx d ob D M fs w" "only_files {pf_sizes fs} w w'"
  shows "files_agree E cx d ob D M fs w'"
  using assms linked_distinct [of w E cx fs] only_files_wf [OF assms(2)]
  by (simp add: files_agree_def linked_def only_filesD(1,4) [OF assms(2)])

lemma files_agree_same:
  assumes "files_agree E cx d ob D M fs w" "only_files {} w w'"
  shows "files_agree E cx d ob D M fs w'"
  by (rule files_agree_sizes [OF assms(1) only_files_mono [OF assms(2)]]) simp

lemma files_agree_cx:
  assumes "files_agree E cx d ob D M fs w"
  shows "only_files {pf_data fs} w w' \<Longrightarrow> improves d (fs_content w (pf_data fs)) (fs_content w' (pf_data fs)) \<Longrightarrow> cx_frame E cx d w w'"
    "only_files {pf_outboard fs} w w' \<Longrightarrow> cx_frame E cx d w w'" "only_files {pf_sizes fs} w w' \<Longrightarrow> cx_frame E cx d w w'"
proof -
  have n: "fs_wf w" "fs_names w (cx_file E cx DataPart) = Some (pf_data fs)"
    "fs_names w (cx_file E cx OutboardPart) = Some (pf_outboard fs)" "fs_names w (cx_file E cx SizesPart) = Some (pf_sizes fs)"
    using assms by (auto simp: files_agree_def linked_def)
  show "cx_frame E cx d w w'" if "only_files {pf_data fs} w w'" "improves d (fs_content w (pf_data fs)) (fs_content w' (pf_data fs))"
    using frame_files [OF that(1) n(2)] n(2) that(2) by (intro cx_data) auto
  show "cx_frame E cx d w w'" if "only_files {pf_outboard fs} w w'"
    using frame_files [OF that n(3)] n(1) by (intro cx_part [of _ _ OutboardPart]) auto
  show "cx_frame E cx d w w'" if "only_files {pf_sizes fs} w w'"
    using frame_files [OF that n(4)] n(1) by (intro cx_part [of _ _ SizesPart]) auto
qed

text \<open>
  The laws of the environment: those of the code it calls, a serializer with an inverse on
  canonical bitfields, and a checksum of 32 bytes that tells a serialized bitfield from its
  beginnings.
\<close>

locale fs_laws = store_laws "fe_R E" "fe_B E" "fe_Io E" for E :: "('r, 'd) fs_env" +
  assumes decode: "bf_canonical (fe_R E) (fe_B E) bf \<Longrightarrow> se_decode (fe_S E) (se_encode (fe_S E) bf) = Some bf"
    and checksum: "length (se_checksum (fe_S E) bs) = 32"
    and torn: "bf_canonical (fe_R E) (fe_B E) bf \<Longrightarrow> n < length (se_encode (fe_S E) bf) \<Longrightarrow>
      se_checksum (fe_S E) (take n (se_encode (fe_S E) bf)) \<noteq> se_checksum (fe_S E) (se_encode (fe_S E) bf)"

context fs_laws
begin

lemma pf_write_item_wp:
  assumes "files_agree E cx d ob D M fs w" "item_of (fe_Io E) d ob item" "length d < 2 ^ 64" "length ob < 2 ^ 64"
  shows "wp (pf_write_item E (of_nat (length d)) fs item) (\<lambda>_ w'. cx_frame E cx d w w' \<and>
      files_agree E cx d ob (D \<union> data_span item) (M \<union> outboard_span (fe_Io E) (of_nat (length d)) item) fs w')
    (cx_frame E cx d w) w"
proof (cases item)
  case (Leaf off data)
  then have p: "piece_of d (unat off) data" using assms(2) by (simp add: leaf_piece)
  show ?thesis unfolding Leaf pf_write_item_def bao_content_item.case
  proof (intro wp_then wp_write_all)
    fix w1 assume w1: "only_files {pf_data fs} w w1"
      "fs_content w1 (pf_data fs) = io_write (fe_Io E) (fs_content w (pf_data fs)) off data"
    have "agrees (fs_content w1 (pf_data fs)) d (D \<union> data_span (Leaf off data))"
      using agrees_write [OF _ p] assms(1) w1(2) by (simp add: files_agree_def io_write)
    from files_agree_data [OF assms(1) w1(1) this] have a1:
      "files_agree E cx d ob (D \<union> data_span (Leaf off data)) M fs w1" .
    have f1: "cx_frame E cx d w w1" using w1 improves_write [OF p] by (intro files_agree_cx(1) [OF assms(1)]) (simp_all add: io_write)
    fix w2 assume w2: "only_files {pf_sizes fs} w1 w2"
    from f1 files_agree_cx(3) [OF a1 w2] show "cx_frame E cx d w w2" by (rule cx_trans)
    then show "cx_frame E cx d w w2 \<and> files_agree E cx d ob (D \<union> data_span (Leaf off data))
        (M \<union> outboard_span (fe_Io E) (of_nat (length d)) (Leaf off data)) fs w2"
      using files_agree_sizes [OF a1 w2] by simp
  next
    fix w1 n assume "only_files {pf_data fs} w w1"
      "fs_content w1 (pf_data fs) = io_write (fe_Io E) (fs_content w (pf_data fs)) off (take n data)"
    then show "cx_frame E cx d w w1" using improves_write [OF piece_take [OF p]]
      by (intro files_agree_cx(1) [OF assms(1)]) (simp_all add: io_write)
  qed
next
  case (Parent node left right)
  show ?thesis
  proof (cases "io_pre_order_offset (fe_Io E) (of_nat (length d)) node")
    case None
    then show ?thesis using assms(1) Parent by (auto simp: pf_write_item_def)
  next
    case (Some k)
    then have p: "piece_of ob (unat k * 64) (as_bytes left @ as_bytes right)" using assms(2) Parent by simp
    then have lt: "unat k * 64 + 64 < 2 ^ 64" using assms(4) by (simp add: piece_of_def)
    then have u: "unat (k * 64) = unat k * 64" "unat (k * 64 + 32) = unat k * 64 + 32"
      by (simp_all add: unat_word_ariths)
    note p' = piece_append [OF p, simplified]
    show ?thesis unfolding Parent pf_write_item_def bao_content_item.case Some option.case Let_def
    proof (intro wp_then wp_write_all)
      fix w1 assume w1: "only_files {pf_outboard fs} w w1"
        "fs_content w1 (pf_outboard fs) = io_write (fe_Io E) (fs_content w (pf_outboard fs)) (k * 64) (as_bytes left)"
      have "agrees (fs_content w1 (pf_outboard fs)) ob (M \<union> {unat k * 64..<unat k * 64 + 32})"
        using agrees_write [OF _ p'(1)] assms(1) w1(2) by (simp add: files_agree_def io_write u)
      from files_agree_outboard [OF assms(1) w1(1) this] have a1:
        "files_agree E cx d ob D (M \<union> {unat k * 64..<unat k * 64 + 32}) fs w1" .
      fix w2 assume w2: "only_files {pf_outboard fs} w1 w2"
      from files_agree_cx(2) [OF assms(1) w1(1)] files_agree_cx(2) [OF a1 w2] show f: "cx_frame E cx d w w2" by (rule cx_trans)
      assume c2: "fs_content w2 (pf_outboard fs) = io_write (fe_Io E) (fs_content w1 (pf_outboard fs)) (k * 64 + 32) (as_bytes right)"
      have "agrees (fs_content w2 (pf_outboard fs)) ob
          ((M \<union> {unat k * 64..<unat k * 64 + 32}) \<union> span (unat k * 64 + 32) (as_bytes right))"
        using agrees_write [OF _ p'(2)] a1 c2 by (simp add: files_agree_def io_write u)
      moreover have "(M \<union> {unat k * 64..<unat k * 64 + 32}) \<union> span (unat k * 64 + 32) (as_bytes right)
          = M \<union> outboard_span (fe_Io E) (of_nat (length d)) (Parent node left right)"
        using Some by auto
      ultimately show "cx_frame E cx d w w2 \<and> files_agree E cx d ob (D \<union> data_span (Parent node left right))
          (M \<union> outboard_span (fe_Io E) (of_nat (length d)) (Parent node left right)) fs w2"
        using files_agree_outboard [OF a1 w2] f by simp
    next
      fix w1 assume "only_files {pf_outboard fs} w w1"
      then show "cx_frame E cx d w w1" by (rule files_agree_cx(2) [OF assms(1)])
    qed
  qed
qed

lemma pf_write_batch_wp:
  assumes "length d < 2 ^ 64" "length ob < 2 ^ 64"
  shows "files_agree E cx d ob D M fs w \<Longrightarrow> \<forall>item\<in>set batch. item_of (fe_Io E) d ob item \<Longrightarrow>
    wp (pf_write_batch E (of_nat (length d)) fs batch) (\<lambda>_ w'. cx_frame E cx d w w' \<and>
      files_agree E cx d ob (D \<union> data_spans batch) (M \<union> outboard_spans (fe_Io E) (of_nat (length d)) batch) fs w')
    (cx_frame E cx d w) w"
proof (induction batch arbitrary: w D M)
  case (Cons item batch)
  from Cons.prems(2) have i: "item_of (fe_Io E) d ob item" by simp
  show ?case unfolding pf_write_batch.simps
  proof (rule wp_call [OF pf_write_item_wp [OF Cons.prems(1) i assms]])
    fix w1
    assume w1: "cx_frame E cx d w w1 \<and>
      files_agree E cx d ob (D \<union> data_span item) (M \<union> outboard_span (fe_Io E) (of_nat (length d)) item) fs w1"
    have "wp (pf_write_batch E (of_nat (length d)) fs batch) (\<lambda>_ w'. cx_frame E cx d w1 w' \<and>
        files_agree E cx d ob (D \<union> data_span item \<union> data_spans batch)
          (M \<union> outboard_span (fe_Io E) (of_nat (length d)) item \<union> outboard_spans (fe_Io E) (of_nat (length d)) batch) fs w')
      (cx_frame E cx d w1) w1"
      using w1 Cons.prems(2) by (intro Cons.IH) auto
    then show "wp (pf_write_batch E (of_nat (length d)) fs batch) (\<lambda>_ w'. cx_frame E cx d w w' \<and>
        files_agree E cx d ob (D \<union> data_spans (item # batch))
          (M \<union> outboard_spans (fe_Io E) (of_nat (length d)) (item # batch)) fs w')
      (cx_frame E cx d w) w1"
      by (rule wp_mono) (use w1 cx_trans in \<open>auto simp: Un_assoc\<close>)
  qed
qed auto

end

section \<open>From memory to files\<close>

context store_laws
begin

lemma persist_ranges_wp:
  "\<forall>(s, b)\<in>set ws. piece_of ref (unat s) b \<Longrightarrow> no_short w \<Longrightarrow> agrees (fs_content w i) ref A \<Longrightarrow>
    wp (persist_ranges Io i ws) (\<lambda>_ w'. only_files {i} w w' \<and> improves ref (fs_content w i) (fs_content w' i) \<and>
      agrees (fs_content w' i) ref (A \<union> (\<Union>(s, b)\<in>set ws. span (unat s) b)))
    (\<lambda>w'. only_files {i} w w' \<and> improves ref (fs_content w i) (fs_content w' i)) w"
proof (induction ws arbitrary: w A)
  case (Cons p ws)
  obtain s b where p: "p = (s, b)" by (cases p)
  have piece: "piece_of ref (unat s) b" using Cons.prems(1) p by simp
  show ?case unfolding p persist_ranges.simps
  proof (intro wp_then wp_write_at [OF Cons.prems(2)])
    fix w1 assume w1: "only_files {i} w w1" "fs_content w1 i = io_write Io (fs_content w i) s b"
    have a: "agrees (fs_content w1 i) ref (A \<union> span (unat s) b)"
      using agrees_write [OF Cons.prems(3) piece] w1(2) by (simp add: io_write)
    have i: "improves ref (fs_content w i) (fs_content w1 i)" using improves_write [OF piece] w1(2) by (simp add: io_write)
    have "no_short w1" using no_short_mono [OF Cons.prems(2) only_filesD(5) [OF w1(1)]] .
    with a have "wp (persist_ranges Io i ws) (\<lambda>_ w'. only_files {i} w1 w' \<and> improves ref (fs_content w1 i) (fs_content w' i) \<and>
        agrees (fs_content w' i) ref (A \<union> span (unat s) b \<union> (\<Union>(s, b)\<in>set ws. span (unat s) b)))
      (\<lambda>w'. only_files {i} w1 w' \<and> improves ref (fs_content w1 i) (fs_content w' i)) w1"
      using Cons.prems(1) by (intro Cons.IH) auto
    then show "wp (persist_ranges Io i ws) (\<lambda>_ w'. only_files {i} w w' \<and> improves ref (fs_content w i) (fs_content w' i) \<and>
        agrees (fs_content w' i) ref (A \<union> (\<Union>(s, b)\<in>set ((s, b) # ws). span (unat s) b)))
      (\<lambda>w'. only_files {i} w w' \<and> improves ref (fs_content w i) (fs_content w' i)) w1"
      by (rule wp_mono) (use only_files_trans [OF w1(1)] improves_trans [OF i] in \<open>auto simp: Un_assoc\<close>)
  next
    fix w1 assume "only_files {} w w1"
    then show "only_files {i} w w1 \<and> improves ref (fs_content w i) (fs_content w1 i)"
      using only_files_mono by (auto simp: only_filesD(4))
  qed
qed auto

lemma sparse_persist_item:
  assumes "sparse_agrees R ref X f" "length ref < 2 ^ 64" "it \<in> set (rs_iter R (sf_ranges f))"
  shows "\<exists>s e. it = Range s e \<and> s < e \<and> unat e \<le> length (sf_data f)
    \<and> piece_of ref (unat s) (take (unat e - unat s) (drop (unat s) (sf_data f)))"
proof -
  have in_f: "unat y < length (sf_data f) \<and> sf_data f ! unat y = ref ! unat y" if "item_has it y" for y
  proof -
    have "rs_contains R (sf_ranges f) y" using that assms(3) by (auto simp: contains_iter)
    then show ?thesis using assms(1) by (simp add: sparse_agrees_def)
  qed
  have len: "length (sf_data f) \<le> length ref" using assms(1) by (simp add: sparse_agrees_def)
  show ?thesis
  proof (cases it)
    case (RangeFrom s)
    then show ?thesis using in_f [of u64_max] len assms(2) by (simp add: unat_u64_max)
  next
    case (Range s e)
    have "\<forall>it\<in>set (rs_iter R (sf_ranges f)). case it of Range a b \<Rightarrow> a < b | RangeFrom a \<Rightarrow> True"
      using items_of_ordered [OF sorted_boundaries] by (simp add: iter_items)
    then have lt: "s < e" using assms(3) Range by auto
    then have "e \<noteq> 0" by auto
    then have "unat (e - 1) < length (sf_data f)"
      using in_f [of "e - 1"] u64_pred_less [of e] u64_le_pred [OF lt] Range by simp
    then have le: "unat e \<le> length (sf_data f)"
      using \<open>e \<noteq> 0\<close> unat_pos_u64 [of e] by (simp add: unat_sub_u64 word_le_nat_alt Suc_le_eq)
    have "take (unat e - unat s) (drop (unat s) (sf_data f)) = take (unat e - unat s) (drop (unat s) ref)"
    proof (rule nth_equalityI)
      show "length (take (unat e - unat s) (drop (unat s) (sf_data f))) = length (take (unat e - unat s) (drop (unat s) ref))"
        using le len by simp
      fix j assume j: "j < length (take (unat e - unat s) (drop (unat s) (sf_data f)))"
      then have se: "unat s + j < unat e" "unat s + j < 2 ^ 64" using le len assms(2) by auto
      then have "unat (of_nat (unat s + j) :: u64) = unat s + j" by (intro unat_of_nat_u64)
      with in_f [of "of_nat (unat s + j)"] Range se(1) j le len
      show "take (unat e - unat s) (drop (unat s) (sf_data f)) ! j = take (unat e - unat s) (drop (unat s) ref) ! j"
        by (simp add: word_le_nat_alt word_less_nat_alt)
    qed
    with le len lt Range show ?thesis by (auto simp: piece_of_def word_less_nat_alt)
  qed
qed

lemma sparse_persist_pieces:
  assumes "sparse_agrees R ref X f" "length ref < 2 ^ 64"
  shows "\<forall>(s, b)\<in>set (sparse_persist R f). piece_of ref (unat s) b"
    and "X \<subseteq> (\<Union>(s, b)\<in>set (sparse_persist R f). span (unat s) b)"
proof -
  note item = sparse_persist_item [OF assms]
  show "\<forall>(s, b)\<in>set (sparse_persist R f). piece_of ref (unat s) b"
    using item by (fastforce simp: sparse_persist_def Let_def)
  show "X \<subseteq> (\<Union>(s, b)\<in>set (sparse_persist R f). span (unat s) b)"
  proof
    fix x assume "x \<in> X"
    then have x: "x < length ref" "rs_contains R (sf_ranges f) (of_nat x)"
      using assms(1) by (auto simp: sparse_agrees_def)
    then have u: "unat (of_nat x :: u64) = x" using assms(2) by (intro unat_of_nat_u64) simp
    obtain it where it: "it \<in> set (rs_iter R (sf_ranges f))" "item_has it (of_nat x)"
      using x(2) by (auto simp: contains_iter)
    from item [OF it(1)] obtain s e where se: "it = Range s e" "unat e \<le> length (sf_data f)" by blast
    have "(s, take (unat e - unat s) (drop (unat s) (sf_data f))) \<in> set (sparse_persist R f)"
      using it(1) se(1) by (force simp: sparse_persist_def Let_def)
    moreover have "x \<in> span (unat s) (take (unat e - unat s) (drop (unat s) (sf_data f)))"
      using it(2) se u by (simp add: word_le_nat_alt word_less_nat_alt)
    ultimately show "x \<in> (\<Union>(s, b)\<in>set (sparse_persist R f). span (unat s) b)" by blast
  qed
qed

lemma sparse_persist_wp:
  assumes "sparse_agrees R ref X f" "length ref < 2 ^ 64" "no_short w"
  shows "wp (sparse_persist_to R Io f i) (\<lambda>_ w'. only_files {i} w w' \<and> improves ref (fs_content w i) (fs_content w' i)
      \<and> agrees (fs_content w' i) ref X) (\<lambda>w'. only_files {i} w w' \<and> improves ref (fs_content w i) (fs_content w' i)) w"
  unfolding sparse_persist_to_def
  by (rule wp_mono [OF persist_ranges_wp [OF sparse_persist_pieces(1) [OF assms(1,2)] assms(3) agrees_empty]])
    (use sparse_persist_pieces(2) [OF assms(1,2)] in \<open>auto intro: agrees_subset\<close>)

end

lemma wp_protect:
  "Q () (w\<lparr>fw_delete := ds_protect (cx_id cx) parts (fw_delete w)\<rparr>) \<Longrightarrow> wp (cx_protect cx parts) Q Z w"
  by (rule wpI [where w' = "w\<lparr>fw_delete := ds_protect (cx_id cx) parts (fw_delete w)\<rparr>" and r = "Inr ()"])
    (simp_all add: cx_protect_def)

text \<open>The three files of an entry are opened or created.\<close>

lemma create_linked:
  assumes "fs_wf w" "create_read_write (cx_file E cx DataPart) w = (Inr i, w1)"
    "create_read_write (cx_file E cx OutboardPart) w1 = (Inr j, w2)"
    "create_read_write (cx_file E cx SizesPart) w2 = (Inr k, w3)"
  shows "cx_frame E cx d w w3" "fs_wf w3" "linked E cx \<lparr>pf_data = i, pf_outboard = j, pf_sizes = k, pf_bitfield = bf\<rparr> w3"
proof -
  have wf: "fs_wf w1" "fs_wf w2" using assms create_read_write_ok(3) by blast+
  have f: "cx_frame E cx d w w1" "cx_frame E cx d w1 w2" "cx_frame E cx d w2 w3"
    using cx_create [OF assms(2)] cx_create [OF assms(3)] cx_create [OF assms(4)] assms(1) wf by auto
  show fr: "cx_frame E cx d w w3" using f cx_trans by blast
  show "fs_wf w3" using cx_frameD(2) [OF fr assms(1)] .
  note n = create_read_write_ok(2) [OF assms(2)] create_read_write_ok(2) [OF assms(3)] create_read_write_ok(2) [OF assms(4)]
  show "linked E cx \<lparr>pf_data = i, pf_outboard = j, pf_sizes = k, pf_bitfield = bf\<rparr> w3"
    using n f by (auto simp: linked_def dest: cx_frameD(3))
qed

context fs_laws
begin

abbreviation pm_fill :: "'r partial_mem_storage \<Rightarrow> 'r partial_file_storage \<Rightarrow> ('d, 'r partial_file_storage) fio" where
  "pm_fill ms fs \<equiv>
     io_then (sparse_persist_to (fe_R E) (fe_Io E) (ps_data ms) (pf_data fs)) (\<lambda>_.
     io_then (sparse_persist_to (fe_R E) (fe_Io E) (ps_outboard ms) (pf_outboard fs)) (\<lambda>_.
     io_then (size_persist_to (fe_Io E) (ps_size ms) (pf_sizes fs)) (\<lambda>_.
     io_then (fs_sync (pf_data fs)) (\<lambda>_.
     io_then (fs_sync (pf_outboard fs)) (\<lambda>_.
     io_then (fs_sync (pf_sizes fs)) (\<lambda>_. io_ok fs))))))"

lemma pm_fill_wp:
  assumes "mem_agrees (fe_R E) d ob D M ms" "files_agree E cx d ob {} {} fs w" "no_short w"
    "length d < 2 ^ 64" "length ob < 2 ^ 64"
  shows "wp (pm_fill ms fs) (\<lambda>fs' w'. cx_frame E cx d w w' \<and> files_agree E cx d ob D M fs' w' \<and> fs' = fs) (cx_frame E cx d w) w"
    (is "wp _ ?Q ?Z _")
proof (rule wp_call [OF sparse_persist_wp [OF _ assms(4,3)]])
  show "sparse_agrees (fe_R E) d D (ps_data ms)" using assms(1) by (simp add: mem_agrees_def)
  have fr: "cx_frame E cx d w w'"
    if "only_files {pf_data fs} w w' \<and> improves d (fs_content w (pf_data fs)) (fs_content w' (pf_data fs))" for w'
    using files_agree_cx(1) [OF assms(2)] that by blast
  then show "?Z w'"
    if "only_files {pf_data fs} w w' \<and> improves d (fs_content w (pf_data fs)) (fs_content w' (pf_data fs))" for w' using that .
  fix w1 assume w1: "only_files {pf_data fs} w w1 \<and> improves d (fs_content w (pf_data fs)) (fs_content w1 (pf_data fs))
      \<and> agrees (fs_content w1 (pf_data fs)) d D"
    and fl: "set (fs_faults w1) \<subseteq> set (fs_faults w)"
  have a1: "files_agree E cx d ob D {} fs w1" using w1 by (intro files_agree_data [OF assms(2)]) simp_all
  have f1: "cx_frame E cx d w w1" using fr w1 by blast
  note tr1 = cx_trans [OF f1]
  show "wp (io_then (sparse_persist_to (fe_R E) (fe_Io E) (ps_outboard ms) (pf_outboard fs)) (\<lambda>_.
      io_then (size_persist_to (fe_Io E) (ps_size ms) (pf_sizes fs)) (\<lambda>_. io_then (fs_sync (pf_data fs)) (\<lambda>_.
      io_then (fs_sync (pf_outboard fs)) (\<lambda>_. io_then (fs_sync (pf_sizes fs)) (\<lambda>_. io_ok fs)))))) ?Q ?Z w1"
  proof (rule wp_call [OF sparse_persist_wp [OF _ assms(5) no_short_mono [OF assms(3) fl]]])
    show "sparse_agrees (fe_R E) ob M (ps_outboard ms)" using assms(1) by (simp add: mem_agrees_def)
    show "?Z w'" if "only_files {pf_outboard fs} w1 w' \<and> improves ob (fs_content w1 (pf_outboard fs)) (fs_content w' (pf_outboard fs))" for w'
      using tr1 [OF files_agree_cx(2) [OF a1]] that by blast
    fix w2 assume w2: "only_files {pf_outboard fs} w1 w2 \<and> improves ob (fs_content w1 (pf_outboard fs)) (fs_content w2 (pf_outboard fs))
      \<and> agrees (fs_content w2 (pf_outboard fs)) ob M"
    have a2: "files_agree E cx d ob D M fs w2" using w2 by (intro files_agree_outboard [OF a1]) simp_all
    note tr2 = cx_trans [OF tr1 [OF files_agree_cx(2) [OF a1 conjunct1 [OF w2]]]]
    show "wp (io_then (size_persist_to (fe_Io E) (ps_size ms) (pf_sizes fs)) (\<lambda>_. io_then (fs_sync (pf_data fs)) (\<lambda>_.
      io_then (fs_sync (pf_outboard fs)) (\<lambda>_. io_then (fs_sync (pf_sizes fs)) (\<lambda>_. io_ok fs))))) ?Q ?Z w2"
      unfolding size_persist_to_def
    proof (intro wp_then wp_write_all wp_sync wp_ok)
      fix w3 assume s3: "only_files {pf_sizes fs} w2 w3"
      note a3 = files_agree_sizes [OF a2 s3] and tr3 = cx_trans [OF tr2 [OF files_agree_cx(3) [OF a2 s3]]]
      show "?Z w3" using tr3 by simp
      show "?Z w4" if "only_files {} w3 w4" for w4 using tr3 cx_same that by blast
      show "?Z w5" if "only_files {} w3 w4" "only_files {} w4 w5" for w4 w5
        using tr3 cx_same only_files_trans [OF that] by blast
      fix w4 w5 w6 assume "only_files {} w3 w4" "only_files {} w4 w5" "only_files {} w5 w6"
      then have "only_files {} w3 w6" by (blast intro: only_files_trans)
      with tr3 a3 show "?Z w6" "?Q fs w6" using cx_same files_agree_same by blast+
    qed
  qed
qed

lemma pm_persist_wp:
  assumes "mem_agrees (fe_R E) d ob D M ms" "fs_wf w" "no_short w" "length d < 2 ^ 64" "length ob < 2 ^ 64"
  shows "wp (pm_persist E cx ms) (\<lambda>fs w'. cx_frame E cx d w w' \<and> files_agree E cx d ob D M fs w' \<and> pf_bitfield fs = ps_bitfield ms)
    (cx_frame E cx d w) w"
  unfolding pm_persist_def
proof (rule wp_then, rule wp_protect, rule wp_then, rule wp_create_read_write, rule wp_then, rule wp_create_read_write,
    rule wp_then, rule wp_create_read_write)
  let ?w0 = "w\<lparr>fw_delete := ds_protect (cx_id cx) [DataPart, OutboardPart, SizesPart, BitfieldPart] (fw_delete w)\<rparr>"
  have f0: "cx_frame E cx d w ?w0" by (rule cx_protected)
  then have wf0: "fs_wf ?w0" using cx_frameD(2) assms(2) by blast
  note tr = cx_trans [OF f0]
  show "cx_frame E cx d w w1" if "only_files {} ?w0 w1" for w1 using tr cx_same [OF that] by blast
  fix i w1 assume w1: "create_read_write (cx_file E cx DataPart) ?w0 = (Inr i, w1)"
  have f1: "cx_frame E cx d ?w0 w1" and wf1: "fs_wf w1" using cx_create [OF w1 _ wf0] create_read_write_ok(3) [OF w1 wf0] by auto
  note tr1 = cx_trans [OF tr [OF f1]]
  show "cx_frame E cx d w w2" if "only_files {} w1 w2" for w2 using tr1 cx_same [OF that] by blast
  fix j w2 assume w2: "create_read_write (cx_file E cx OutboardPart) w1 = (Inr j, w2)"
  have f2: "cx_frame E cx d w1 w2" using cx_create [OF w2 _ wf1] by simp
  note tr2 = cx_trans [OF tr1 [OF f2]]
  show "cx_frame E cx d w w3" if "only_files {} w2 w3" for w3 using tr2 cx_same [OF that] by blast
  fix k w3 assume w3: "create_read_write (cx_file E cx SizesPart) w2 = (Inr k, w3)"
  let ?fs = "\<lparr>pf_data = i, pf_outboard = j, pf_sizes = k, pf_bitfield = ps_bitfield ms\<rparr>"
  note l = create_linked [OF wf0 w1 w2 w3]
  have a3: "files_agree E cx d ob {} {} ?fs w3" using l by (simp add: files_agree_def)
  have ns3: "no_short w3"
    using assms(3) create_read_write_ok(1) [OF w1] create_read_write_ok(1) [OF w2] create_read_write_ok(1) [OF w3]
    by (auto simp: no_short_def grows_def)
  have "wp (pm_fill ms ?fs) (\<lambda>fs w'. cx_frame E cx d w w' \<and> files_agree E cx d ob D M fs w' \<and> pf_bitfield fs = ps_bitfield ms)
    (cx_frame E cx d w) w3"
    by (rule wp_mono [OF pm_fill_wp [OF assms(1) a3 ns3 assms(4,5)]]) (use cx_trans [OF tr [OF l(1)]] in auto)
  then show "wp (io_then (sparse_persist_to (fe_R E) (fe_Io E) (ps_data ms) i) (\<lambda>_.
      io_then (sparse_persist_to (fe_R E) (fe_Io E) (ps_outboard ms) j) (\<lambda>_.
      io_then (size_persist_to (fe_Io E) (ps_size ms) k) (\<lambda>_.
      io_then (fs_sync i) (\<lambda>_. io_then (fs_sync j) (\<lambda>_. io_then (fs_sync k) (\<lambda>_. io_ok ?fs))))))) 
      (\<lambda>fs w'. cx_frame E cx d w w' \<and> files_agree E cx d ob D M fs w' \<and> pf_bitfield fs = ps_bitfield ms) (cx_frame E cx d w) w3"
    by simp
qed

end

end
