(* ===== verification/Bao_Inv.thy ===== *)
theory Bao_Inv
  imports Bao_Agree
begin

text \<open>
  The invariant of the storage of a blob in the file store: what the bitfield says is there agrees
  with the blob, in memory, in files, in complete storage and in the entry of the database, and it
  is kept by batches of the verified stream.
\<close>

section \<open>Bitfields and what they say is there\<close>

definition have_bytes :: "'r range_ops \<Rightarrow> bytes \<Rightarrow> 'r bitfield \<Rightarrow> nat set" where
  "have_bytes R d bf = {x. x < length d \<and> rs_contains R (bf_ranges bf) (of_nat (x div 1024))}"

text \<open>Without chunks nothing is known of the size, which may come from a damaged file.\<close>

definition bf_good :: "'r range_ops \<Rightarrow> 'r chunk_ops \<Rightarrow> bytes \<Rightarrow> 'r bitfield \<Rightarrow> bool" where
  "bf_good R B d bf \<longleftrightarrow> bf_canonical R B bf \<and> (bf_ranges bf = rs_empty R \<or> bf_size bf = of_nat (length d))"

context store_laws
begin

lemma have_empty [simp]: "have_bytes R d (bf_empty R) = {}"
  by (simp add: have_bytes_def bf_empty_def contains_empty)

lemma have_complete [simp]: "have_bytes R d (bf_complete R sz) = {..<length d}"
  by (auto simp: have_bytes_def bf_complete_def contains_all)

lemma good_empty [simp]: "bf_good R B d (bf_empty R)"
  by (simp add: bf_good_def bf_canonical_def bf_empty_def bf_new_def)

lemma chunk_below:
  assumes "x < length d" "length d < 2 ^ 64"
  shows "of_nat (x div 1024) < chunks_of B (of_nat (length d))"
proof -
  have "x div 1024 < (x + 1024) div 1024" by simp
  also have "\<dots> \<le> (length d + 1023) div 1024" using assms(1) by (intro div_le_mono) simp
  finally show ?thesis
    by (simp add: word_less_nat_alt unat_chunk [OF assms] unat_chunks_of unat_of_nat_u64 [OF assms(2)])
qed

lemma complete_iff_have:
  assumes "bf_size b = of_nat (length d)" "d \<noteq> []" "length d < 2 ^ 64"
  shows "is_complete R B b \<longleftrightarrow> have_bytes R d b = {..<length d}"
proof -
  let ?s = "of_nat (length d) :: u64"
  have s: "unat ?s = length d" using assms(3) by (rule unat_of_nat_u64)
  with assms(2) have s0: "?s \<noteq> 0" by (metis length_0_conv unat_0)
  have "is_complete R B b \<longleftrightarrow> (\<forall>c<chunks_of B ?s. rs_contains R (bf_ranges b) c)"
    using s0 assms(1) by (simp add: is_complete_def size_is_complete_def subset_to_iff)
  also have "\<dots> \<longleftrightarrow> (\<forall>x<length d. rs_contains R (bf_ranges b) (of_nat (x div 1024)))"
  proof (intro iffI allI impI)
    fix c assume all: "\<forall>x<length d. rs_contains R (bf_ranges b) (of_nat (x div 1024))" and "c < chunks_of B ?s"
    then have "unat c < (length d + 1023) div 1024" by (simp add: word_less_nat_alt unat_chunks_of s)
    then have "Suc (unat c) \<le> (length d + 1023) div 1024" by simp
    then have "Suc (unat c) * 1024 \<le> length d + 1023" by (simp only: less_eq_div_iff_mult_less_eq)
    then have "unat c * 1024 < length d" by simp
    with all have "rs_contains R (bf_ranges b) (of_nat (unat c * 1024 div 1024))" by blast
    then show "rs_contains R (bf_ranges b) c" by simp
  qed (use chunk_below assms(3) in blast)
  finally show ?thesis by (auto simp: have_bytes_def)
qed

lemma choose_size_good:
  assumes "bf_ranges a = rs_empty R \<or> bf_size a = s" "bf_size u = s"
  shows "choose_size R a u = s \<or> bf_ranges a = rs_empty R \<and> bf_ranges u = rs_empty R"
proof (cases "bf_ranges a = rs_empty R")
  case True
  show ?thesis
  proof (cases "upper_bound R (bf_ranges u)")
    case (Some c)
    then show ?thesis using True assms(2) upper_bound_Some [OF Some] word_neq_0_conv
      by (auto simp: choose_size_def)
  qed (use True assms(2) in \<open>simp add: choose_size_def\<close>)
next
  case False
  then show ?thesis using assms by (auto simp: choose_size_def split: option.split)
qed

lemma empty_state:
  assumes "bf_ranges b = rs_empty R"
  shows "\<not> is_complete R B b" "validated_size R B b = None" "bf_canonical R B b" "have_bytes R d b = {}"
proof -
  have pos: "\<exists>x. x < chunks_of B (bf_size b)" if "bf_size b \<noteq> 0"
    using chunks_of_pos [OF that] by (auto simp: word_less_nat_alt intro!: exI [of _ 0])
  then show "\<not> is_complete R B b" "validated_size R B b = None"
    using assms by (auto simp: is_complete_def size_is_complete_def subset_to_iff contains_empty is_all_iff
        validated_size_def is_validated_def size_is_validated_def)
  show "bf_canonical R B b" using pos assms
    by (cases b) (auto simp: bf_canonical_def bf_new_def Let_def subset_to_iff contains_empty)
  show "have_bytes R d b = {}" using assms by (simp add: have_bytes_def contains_empty)
qed

lemma update_have:
  assumes "bf_good R B d a" "bf_size u = of_nat (length d)" "d \<noteq> []" "length d < 2 ^ 64"
    and "bf_update R B a u = (changes, b)"
  shows "bf_good R B d b" "have_bytes R d b \<noteq> {} \<Longrightarrow> bf_size b = of_nat (length d)"
    "have_bytes R d b = have_bytes R d a \<union> have_bytes R d u"
    and "bs_complete (new_state changes) \<longleftrightarrow> have_bytes R d b = {..<length d}"
    and "bs_validated_size (new_state changes) \<in> {None, Some (of_nat (length d))}"
    and "bs_complete (new_state changes) \<Longrightarrow> bs_validated_size (new_state changes) = Some (of_nat (length d))"
proof -
  let ?s = "of_nat (length d) :: u64"
  have b: "b = combine R B a u" and st: "new_state changes = bf_state R B b"
    using assms(5) by (auto simp: bf_update_def Let_def split: if_splits)
  have can: "bf_canonical R B b" using bf.comb_valid [of a u] by (simp add: b)
  have "unat ?s = length d" using assms(4) by (rule unat_of_nat_u64)
  with assms(3) have s0: "?s \<noteq> 0" by (metis length_0_conv unat_0)
  consider (sized) "choose_size R a u = ?s" | (empty) "bf_ranges a = rs_empty R" "bf_ranges u = rs_empty R"
    using choose_size_good [of a ?s u] assms(1,2) by (auto simp: bf_good_def)
  then have "bf_good R B d b \<and> (have_bytes R d b \<noteq> {} \<longrightarrow> bf_size b = ?s)
    \<and> have_bytes R d b = have_bytes R d a \<union> have_bytes R d u
    \<and> (is_complete R B b \<longleftrightarrow> have_bytes R d b = {..<length d}) \<and> validated_size R B b \<in> {None, Some ?s}
    \<and> (is_complete R B b \<longrightarrow> validated_size R B b = Some ?s)"
  proof cases
    case sized
    then have sz: "bf_size b = ?s" by (simp add: b combine_def)
    have "validated_size R B b = Some ?s" if "is_complete R B b"
    proof -
      have "\<forall>c<chunks_of B ?s. rs_contains R (bf_ranges b) c"
        using that s0 sz by (simp add: is_complete_def size_is_complete_def subset_to_iff)
      moreover have "chunks_of B ?s - 1 < chunks_of B ?s" using chunks_of_pos [OF s0] by (intro u64_pred_less) auto
      ultimately show ?thesis using s0 sz by (simp add: validated_size_def is_validated_def size_is_validated_def)
    qed
    moreover have "have_bytes R d b = have_bytes R d a \<union> have_bytes R d u"
      using chunk_below [OF _ assms(4)] s0 sized by (auto simp: have_bytes_def b contains_combine)
    ultimately show ?thesis using can sz complete_iff_have [OF sz assms(3,4)]
      by (simp add: bf_good_def validated_size_def)
  next
    case empty
    then have e: "bf_ranges b = rs_empty R"
      using empty_state(3) [of "\<lparr>bf_size = choose_size R a u, bf_ranges = rs_empty R\<rparr>"]
      by (simp add: b combine_def bf_canonical_def)
    then show ?thesis using empty_state [OF e] empty_state(4) [OF empty(1)] empty_state(4) [OF empty(2)] can assms(3)
      by (auto simp: bf_good_def lessThan_empty_iff)
  qed
  then show "bf_good R B d b" "have_bytes R d b \<noteq> {} \<Longrightarrow> bf_size b = ?s"
    "have_bytes R d b = have_bytes R d a \<union> have_bytes R d u"
    "bs_complete (new_state changes) \<longleftrightarrow> have_bytes R d b = {..<length d}"
    "bs_validated_size (new_state changes) \<in> {None, Some ?s}"
    "bs_complete (new_state changes) \<Longrightarrow> bs_validated_size (new_state changes) = Some ?s"
    by (simp_all add: st bf_state_def)
qed

end

section \<open>Complete storage and the entries of the database\<close>

fun data_part_is :: "bytes \<Rightarrow> 'd fs_world \<Rightarrow> (nat \<times> u64) mem_or_file \<Rightarrow> bool" where
  "data_part_is d w (MemPart bs) \<longleftrightarrow> bs = d"
| "data_part_is d w (FilePart (i, sz)) \<longleftrightarrow> sz = of_nat (length d) \<and> take (length d) (fs_content w i) = d"

fun outboard_part_is :: "bytes \<Rightarrow> nat set \<Rightarrow> 'd fs_world \<Rightarrow> nat mem_or_file \<Rightarrow> bool" where
  "outboard_part_is ob M w (MemPart bs) \<longleftrightarrow> agrees bs ob M"
| "outboard_part_is ob M w (FilePart i) \<longleftrightarrow> agrees (fs_content w i) ob M"

definition complete_inv :: "bytes \<Rightarrow> bytes \<Rightarrow> nat set \<Rightarrow> complete_storage \<Rightarrow> 'd fs_world \<Rightarrow> bool" where
  "complete_inv d ob M cs w \<longleftrightarrow> data_part_is d w (cs_data cs) \<and> outboard_part_is ob M w (cs_outboard cs)"

text \<open>
  An entry of the database that leads to the blob: its data is inline, or all files it names hold
  it.
\<close>

fun data_at :: "('r, 'd) fs_env \<Rightarrow> fs_ctx \<Rightarrow> bytes \<Rightarrow> 'd fs_world \<Rightarrow> (bytes, u64) data_location \<Rightarrow> bool" where
  "data_at E cx d w (InlineData bs) \<longleftrightarrow> bs = d"
| "data_at E cx d w (OwnedData sz) \<longleftrightarrow> sz = of_nat (length d)
     \<and> (\<exists>i. fs_names w (cx_file E cx DataPart) = Some i \<and> take (length d) (fs_content w i) = d)"
| "data_at E cx d w (ExternalData paths sz) \<longleftrightarrow> sz = of_nat (length d)
     \<and> paths \<noteq> [] \<and> (\<forall>p\<in>set paths. \<exists>i. fs_names w p = Some i \<and> take (length d) (fs_content w i) = d)"

fun outboard_at :: "('r, 'd) fs_env \<Rightarrow> fs_ctx \<Rightarrow> bytes \<Rightarrow> nat set \<Rightarrow> 'd fs_world \<Rightarrow> bytes outboard_location \<Rightarrow> bool" where
  "outboard_at E cx ob M w NotNeeded \<longleftrightarrow> M = {}"
| "outboard_at E cx ob M w (InlineOutboard bs) \<longleftrightarrow> agrees bs ob M"
| "outboard_at E cx ob M w OwnedOutboard \<longleftrightarrow>
     (\<exists>i. fs_names w (cx_file E cx OutboardPart) = Some i \<and> agrees (fs_content w i) ob M)"

fun located :: "('r, 'd) fs_env \<Rightarrow> fs_ctx \<Rightarrow> bytes \<Rightarrow> bytes \<Rightarrow> nat set \<Rightarrow> 'd fs_world \<Rightarrow> bytes entry_state \<Rightarrow> bool" where
  "located E cx d ob M w (PartialEntry sz) \<longleftrightarrow> sz = None \<or> sz = Some (of_nat (length d))"
| "located E cx d ob M w (CompleteEntry dl ol) \<longleftrightarrow> data_at E cx d w dl \<and> outboard_at E cx ob M w ol"

lemma part_same:
  assumes "only_files {} w w'"
  shows "data_part_is d w' p = data_part_is d w p" "outboard_part_is ob M w' q = outboard_part_is ob M w q"
    "data_at E cx d w' dl = data_at E cx d w dl" "outboard_at E cx ob M w' ol = outboard_at E cx ob M w ol"
proof -
  note same = only_filesD(1) [OF assms] only_filesD(4) [OF assms]
  show "data_part_is d w' p = data_part_is d w p"
  proof (cases p)
    case (FilePart f)
    then show ?thesis by (cases f) (simp add: same)
  qed (simp add: same)
  show "outboard_part_is ob M w' q = outboard_part_is ob M w q" by (cases q) (simp_all add: same)
  show "data_at E cx d w' dl = data_at E cx d w dl" by (cases dl) (simp_all add: same)
  show "outboard_at E cx ob M w' ol = outboard_at E cx ob M w ol" by (cases ol) (simp_all add: same)
qed

lemma complete_inv_same: "only_files {} w w' \<Longrightarrow> complete_inv d ob M cs w' = complete_inv d ob M cs w"
  by (simp add: complete_inv_def part_same)

lemma located_same: "only_files {} w w' \<Longrightarrow> located E cx d ob M w' e = located E cx d ob M w e"
  by (cases e) (simp_all add: part_same)

lemma agrees_below: "agrees bs ref X \<Longrightarrow> X \<subseteq> {..<length ref}"
  by (auto simp: agrees_def)

text \<open>Opening an entry that leads to the blob gives complete storage of the blob.\<close>

lemma open_data_wp:
  assumes "data_at E cx d w dl"
  shows "wp (open_data E cx dl) (\<lambda>p w'. only_files {} w w' \<and> data_part_is d w' p) (only_files {} w) w"
proof (cases dl)
  case (InlineData bs)
  then show ?thesis using assms by (auto simp: open_data_def)
next
  case (OwnedData sz)
  then obtain i where i: "fs_names w (cx_file E cx DataPart) = Some i" "take (length d) (fs_content w i) = d"
    "sz = of_nat (length d)" using assms by auto
  show ?thesis unfolding open_data_def OwnedData data_location.case
    by (intro wp_then wp_open [OF i(1)] wp_ok) (auto simp: i only_filesD)
next
  case (ExternalData paths sz)
  then obtain p ps i where i: "paths = p # ps" "fs_names w p = Some i" "take (length d) (fs_content w i) = d"
    "sz = of_nat (length d)" using assms by (cases paths) auto
  show ?thesis unfolding open_data_def ExternalData data_location.case i(1) list.case
    by (intro wp_then wp_open [OF i(2)] wp_ok) (auto simp: i only_filesD)
qed

lemma open_outboard_wp:
  assumes "outboard_at E cx ob M w ol"
  shows "wp (open_outboard E cx ol) (\<lambda>p w'. only_files {} w w' \<and> outboard_part_is ob M w' p) (only_files {} w) w"
proof (cases ol)
  case OwnedOutboard
  then obtain i where i: "fs_names w (cx_file E cx OutboardPart) = Some i" "agrees (fs_content w i) ob M"
    using assms by auto
  show ?thesis unfolding open_outboard_def OwnedOutboard outboard_location.case
    by (intro wp_then wp_open [OF i(1)] wp_ok) (auto simp: i only_filesD)
qed (use assms in \<open>auto simp: open_outboard_def\<close>)

lemma bao_open_complete_wp:
  assumes "located E cx d ob M w (CompleteEntry dl ol)"
  shows "wp (bao_open E cx (Some (CompleteEntry dl ol)))
    (\<lambda>st w'. only_files {} w w' \<and> (\<exists>cs. st = CompleteBao cs \<and> complete_inv d ob M cs w')) (only_files {} w) w"
  unfolding bao_open_def option.case entry_state.case
proof (rule wp_call [OF open_data_wp])
  show "data_at E cx d w dl" using assms by simp
  fix p w1 assume w1: "only_files {} w w1 \<and> data_part_is d w1 p"
  have "outboard_at E cx ob M w1 ol" using assms by (simp add: part_same(4) [OF conjunct1 [OF w1]])
  from open_outboard_wp [OF this]
  show "wp (io_then (open_outboard E cx ol) (\<lambda>outboard. io_ok (CompleteBao \<lparr>cs_data = p, cs_outboard = outboard\<rparr>)))
    (\<lambda>st w'. only_files {} w w' \<and> (\<exists>cs. st = CompleteBao cs \<and> complete_inv d ob M cs w')) (only_files {} w) w1"
    by (rule wp_call) (use w1 only_files_trans in \<open>auto simp: complete_inv_def part_same intro!: wp_ok\<close>)
qed

section \<open>Completing\<close>

context fs_laws
begin

lemma pf_into_complete_wp:
  assumes "files_agree E cx d ob {..<length d} M fs w" "length d < 2 ^ 64"
    "length ob = unat (fe_outboard_size E (of_nat (length d)))"
  shows "wp (pf_into_complete E cx fs (of_nat (length d))) (\<lambda>x w'. only_files {} w w' \<and> complete_inv d ob M (fst x) w'
      \<and> located E cx d ob M w' (snd x) \<and> entry_is_complete (snd x)) (only_files {} w) w" (is "wp _ ?Q _ _")
proof -
  let ?sz = "of_nat (length d) :: u64"
  let ?os = "fe_outboard_size E ?sz"
  have u: "unat ?sz = length d" using assms(2) by (rule unat_of_nat_u64)
  have names: "fs_names w (cx_file E cx DataPart) = Some (pf_data fs)"
    "fs_names w (cx_file E cx OutboardPart) = Some (pf_outboard fs)"
    and dat: "take (length d) (fs_content w (pf_data fs)) = d" and M: "agrees (fs_content w (pf_outboard fs)) ob M"
    using assms(1) agrees_all by (auto simp: files_agree_def linked_def)
  have dwp: "wp (if is_inlined_data cx ?sz then
        io_then (read_to_end (pf_data fs) 0 (unat ?sz)) (\<lambda>data. io_ok (MemPart data, InlineData data))
      else io_ok (FilePart (pf_data fs, ?sz), OwnedData ?sz))
    (\<lambda>x w'. only_files {} w w' \<and> data_part_is d w (fst x) \<and> data_at E cx d w (snd x)) (only_files {} w) w"
    using dat names u by (auto intro!: wp_then wp_read_to_end)
  have owp: "wp (if is_inlined_outboard cx ?os then
        if ?os = 0 then io_ok (MemPart [], NotNeeded)
        else io_then (read_to_end (pf_outboard fs) 0 (unat ?os)) (\<lambda>outboard. io_ok (MemPart outboard, InlineOutboard outboard))
      else io_ok (FilePart (pf_outboard fs), OwnedOutboard))
    (\<lambda>x w'. only_files {} w w' \<and> outboard_part_is ob M w (fst x) \<and> outboard_at E cx ob M w (snd x)) (only_files {} w) w1"
    if "only_files {} w w1" for w1
  proof -
    have *: "M = {}" if "?os = 0" using agrees_below [OF M] assms(3) that by simp
    have "agrees (take (unat ?os) (fs_content w1 (pf_outboard fs))) ob M"
      using agrees_take [OF M] agrees_below [OF M] assms(3) only_filesD(4) [OF that, of "pf_outboard fs"] by simp
    then show ?thesis using * that M names only_files_trans [OF that]
      by (auto intro!: wp_then wp_read_to_end)
  qed
  show ?thesis unfolding pf_into_complete_def Let_def
  proof (rule wp_call [OF dwp])
    fix x w1 assume w1: "only_files {} w w1 \<and> data_part_is d w (fst x) \<and> data_at E cx d w (snd x)"
    have "?Q (\<lparr>cs_data = fst x, cs_outboard = p\<rparr>, CompleteEntry (snd x) ol) w2"
      if "only_files {} w w2 \<and> outboard_part_is ob M w p \<and> outboard_at E cx ob M w ol" for p ol w2
      using w1 that by (simp add: complete_inv_def part_same [OF conjunct1 [OF that]])
    then show "wp (case x of (data, data_location) \<Rightarrow>
        io_then (if is_inlined_outboard cx ?os then
          if ?os = 0 then io_ok (MemPart [], NotNeeded)
          else io_then (read_to_end (pf_outboard fs) 0 (unat ?os)) (\<lambda>outboard. io_ok (MemPart outboard, InlineOutboard outboard))
        else io_ok (FilePart (pf_outboard fs), OwnedOutboard)) (\<lambda>(outboard, outboard_location).
      io_ok (\<lparr>cs_data = data, cs_outboard = outboard\<rparr>, CompleteEntry data_location outboard_location))) ?Q (only_files {} w) w1"
      using w1 unfolding split_def by (intro wp_call [OF owp] wp_ok) auto
  qed
qed

text \<open>A sparse file that is written to a file of its own.\<close>

abbreviation kept :: "path \<Rightarrow> bytes \<Rightarrow> 'd fs_world \<Rightarrow> 'd fs_world \<Rightarrow> bool" where
  "kept p ref w w' \<equiv> frame {p} w w' \<and> (\<forall>i. fs_names w p = Some i \<longrightarrow> improves ref (fs_content w i) (fs_content w' i))"

lemma persist_part_wp:
  assumes "sparse_agrees (fe_R E) ref X f" "length ref < 2 ^ 64" "no_short w" "fs_wf w"
    "\<And>i w'. kept p ref w w' \<Longrightarrow> fs_names w' p = Some i \<Longrightarrow> agrees (fs_content w' i) ref X \<Longrightarrow> no_short w' \<Longrightarrow> Q (g i) w'"
  shows "wp (io_then (create_read_write p) (\<lambda>i. io_then (sparse_persist_to (fe_R E) (fe_Io E) f i) (\<lambda>_. io_ok (g i))))
    Q (kept p ref w) w"
proof (rule wp_then, rule wp_create_read_write)
  show "kept p ref w w1" if "only_files {} w w1" for w1 using frame_same that by (simp add: only_filesD(4))
  fix i w1 assume w1: "create_read_write p w = (Inr i, w1)"
  note c = create_read_write_ok [OF w1] and f1 = frame_create [OF w1, of "{p}", simplified]
  have ns: "no_short w1" using c(1) assms(3) by (auto simp: no_short_def grows_def)
  have k1: "j = i \<and> fs_content w1 j = fs_content w j" if "fs_names w p = Some j" for j
    using c(1,5) that assms(4) by (auto simp: grows_def fs_wf_def)
  show "wp (io_then (sparse_persist_to (fe_R E) (fe_Io E) f i) (\<lambda>_. io_ok (g i))) Q (kept p ref w) w1"
  proof (rule wp_call [OF sparse_persist_wp [OF assms(1,2) ns]])
    have tr: "kept p ref w w2" if "only_files {i} w1 w2 \<and> improves ref (fs_content w1 i) (fs_content w2 i)" for w2
      using frame_trans [OF f1 frame_files [OF conjunct1 [OF that] c(2)]] that k1 by auto
    then show "kept p ref w w2" if "only_files {i} w1 w2 \<and> improves ref (fs_content w1 i) (fs_content w2 i)" for w2 using that .
    fix w2 assume w2: "only_files {i} w1 w2 \<and> improves ref (fs_content w1 i) (fs_content w2 i) \<and> agrees (fs_content w2 i) ref X"
      "set (fs_faults w2) \<subseteq> set (fs_faults w1)"
    then have "Q (g i) w2" using tr c(2) no_short_mono [OF ns] by (intro assms(5)) (auto simp: only_filesD(1))
    then show "wp (io_ok (g i)) Q (kept p ref w) w2" ..
  qed
qed

lemma pm_into_complete_wp:
  assumes "mem_agrees (fe_R E) d ob {..<length d} M ms" "bf_size (ps_bitfield ms) = of_nat (length d)"
    "fs_wf w" "no_short w" "length d < 2 ^ 64" "length ob < 2 ^ 64"
    "length ob = unat (fe_outboard_size E (of_nat (length d)))"
  shows "wp (pm_into_complete E cx ms) (\<lambda>x w'. cx_frame E cx d w w' \<and> complete_inv d ob M (fst x) w'
      \<and> located E cx d ob M w' (snd x) \<and> entry_is_complete (snd x)) (cx_frame E cx d w) w" (is "wp _ ?Q ?Z _")
proof -
  let ?sz = "of_nat (length d) :: u64" and ?dp = "cx_file E cx DataPart" and ?op = "cx_file E cx OutboardPart"
  let ?os = "fe_outboard_size E ?sz"
  have sd: "sparse_agrees (fe_R E) d {..<length d} (ps_data ms)" and so: "sparse_agrees (fe_R E) ob M (ps_outboard ms)"
    using assms(1) by (simp_all add: mem_agrees_def)
  have dat: "sf_data (ps_data ms) = d"
    using agrees_all [OF sparse_agrees_data [OF sd assms(5)]] sd by (simp add: sparse_agrees_def)
  note M = sparse_agrees_data [OF so assms(6)]
  have sub: "cx_frame E cx d u v" if "kept ?dp d u v" for u v using that cx_data by blast
  have subo: "cx_frame E cx d u v" if "kept ?op ob u v" "fs_wf u" for u v using that cx_part by blast
  let ?data = "\<lambda>x w'. x = (MemPart d, InlineData d) \<or>
    (\<exists>i. x = (FilePart (i, ?sz), OwnedData ?sz) \<and> fs_names w' ?dp = Some i \<and> take (length d) (fs_content w' i) = d)"
  have dwp: "wp (if is_inlined_data cx ?sz then io_ok (MemPart (sf_data (ps_data ms)), InlineData (sf_data (ps_data ms)))
      else io_then (create_read_write ?dp) (\<lambda>data_file.
        io_then (sparse_persist_to (fe_R E) (fe_Io E) (ps_data ms) data_file) (\<lambda>_.
        io_ok (FilePart (data_file, ?sz), OwnedData ?sz))))
    (\<lambda>x w'. cx_frame E cx d w w' \<and> no_short w' \<and> ?data x w') ?Z w"
    using persist_part_wp [OF sd assms(5,4,3), of ?dp "\<lambda>x w'. cx_frame E cx d w w' \<and> no_short w' \<and> ?data x w'"
        "\<lambda>i. (FilePart (i, ?sz), OwnedData ?sz)"] agrees_all sub dat assms(4)
    by (auto intro!: wp_ok elim!: wp_mono)
  have M0: "M = {}" if "?os = 0" using agrees_below [OF M] assms(7) that by simp
  let ?outb = "\<lambda>x w'. outboard_part_is ob M w' (fst x) \<and> outboard_at E cx ob M w' (snd x)"
  have owp: "wp (if is_inlined_outboard cx ?os then
        if 0 < ?os then io_ok (MemPart (sf_data (ps_outboard ms)), InlineOutboard (sf_data (ps_outboard ms)))
        else io_ok (MemPart [], NotNeeded)
      else io_then (create_read_write ?op) (\<lambda>outboard_file.
        io_then (sparse_persist_to (fe_R E) (fe_Io E) (ps_outboard ms) outboard_file) (\<lambda>_.
        io_ok (FilePart outboard_file, if ?os = 0 then NotNeeded else OwnedOutboard))))
    (\<lambda>x w'. kept ?op ob w1 w' \<and> ?outb x w') (kept ?op ob w1) w1" if "no_short w1" "fs_wf w1" for w1
    using persist_part_wp [OF so assms(6) that, of ?op "\<lambda>x w'. kept ?op ob w1 w' \<and> ?outb x w'"
        "\<lambda>i. (FilePart i, if ?os = 0 then NotNeeded else OwnedOutboard)"] M M0
    by (auto intro!: wp_ok simp: word_gt_0)
  show ?thesis unfolding pm_into_complete_def Let_def assms(2)
  proof (rule wp_call [OF dwp])
    fix x w1 assume w1: "cx_frame E cx d w w1 \<and> no_short w1 \<and> ?data x w1"
    have wf1: "fs_wf w1" using w1 cx_frameD(2) assms(3) by blast
    have "?Q (\<lparr>cs_data = fst x, cs_outboard = fst y\<rparr>, CompleteEntry (snd x) (snd y)) w2"
      if y: "kept ?op ob w1 w2 \<and> ?outb y w2" for y w2
    proof -
      have "?data x w2" using w1 frame_other [OF conjunct1 [OF conjunct1 [OF y]] wf1, of ?dp] by auto
      moreover have "cx_frame E cx d w w2" using w1 y cx_trans subo wf1 by blast
      ultimately show ?thesis using y by (auto simp: complete_inv_def)
    qed
    moreover have "?Z w2" if "kept ?op ob w1 w2" for w2 using w1 that cx_trans subo wf1 by blast
    ultimately show "wp (case x of (data, data_location) \<Rightarrow>
        io_then (if is_inlined_outboard cx ?os then
          if 0 < ?os then io_ok (MemPart (sf_data (ps_outboard ms)), InlineOutboard (sf_data (ps_outboard ms)))
          else io_ok (MemPart [], NotNeeded)
        else io_then (create_read_write ?op) (\<lambda>outboard_file.
          io_then (sparse_persist_to (fe_R E) (fe_Io E) (ps_outboard ms) outboard_file) (\<lambda>_.
          io_ok (FilePart outboard_file, if ?os = 0 then NotNeeded else OwnedOutboard)))) (\<lambda>(outboard, outboard_location).
      io_ok (\<lparr>cs_data = data, cs_outboard = outboard\<rparr>, CompleteEntry data_location outboard_location))) ?Q ?Z w1"
      unfolding split_def by (intro wp_call [OF owp] wp_ok) (use w1 wf1 in blast)+
  qed
qed

end

section \<open>The invariant of the storage\<close>

text \<open>
  The storage of a blob with content \<open>d\<close> and outboard \<open>ob\<close>, of which the bytes \<open>M\<close> are known: what
  the bitfield says is there is there.
\<close>

fun storage_inv :: "('r, 'd) fs_env \<Rightarrow> fs_ctx \<Rightarrow> bytes \<Rightarrow> bytes \<Rightarrow> nat set \<Rightarrow> 'd fs_world \<Rightarrow> 'r bao_storage \<Rightarrow> bool" where
  "storage_inv E cx d ob M w NonExisting \<longleftrightarrow> M = {}"
| "storage_inv E cx d ob M w (PartialMem ms) \<longleftrightarrow> bf_good (fe_R E) (fe_B E) d (ps_bitfield ms)
     \<and> mem_agrees (fe_R E) d ob (have_bytes (fe_R E) d (ps_bitfield ms)) M ms"
| "storage_inv E cx d ob M w (PartialFile fs) \<longleftrightarrow> bf_good (fe_R E) (fe_B E) d (pf_bitfield fs)
     \<and> files_agree E cx d ob (have_bytes (fe_R E) d (pf_bitfield fs)) M fs w"
| "storage_inv E cx d ob M w (CompleteBao cs) \<longleftrightarrow> complete_inv d ob M cs w"
| "storage_inv E cx d ob M w st \<longleftrightarrow> True"

fun storage_have :: "('r, 'd) fs_env \<Rightarrow> bytes \<Rightarrow> 'r bao_storage \<Rightarrow> nat set" where
  "storage_have E d (PartialMem ms) = have_bytes (fe_R E) d (ps_bitfield ms)"
| "storage_have E d (PartialFile fs) = have_bytes (fe_R E) d (pf_bitfield fs)"
| "storage_have E d (CompleteBao cs) = {..<length d}"
| "storage_have E d st = {}"

fun writable :: "'r bao_storage \<Rightarrow> bool" where
  "writable NonExisting \<longleftrightarrow> True"
| "writable (PartialMem ms) \<longleftrightarrow> True"
| "writable (PartialFile fs) \<longleftrightarrow> True"
| "writable st \<longleftrightarrow> False"

text \<open>
  A batch of the verified stream of the blob, with a bitfield that claims no more than its leaves.
\<close>

definition batch_ok :: "('r, 'd) fs_env \<Rightarrow> bytes \<Rightarrow> bytes \<Rightarrow> bao_content_item list \<Rightarrow> 'r bitfield \<Rightarrow> bool" where
  "batch_ok E d ob batch bitfield \<longleftrightarrow> (\<forall>item\<in>set batch. item_of (fe_Io E) d ob item)
     \<and> bf_size bitfield = of_nat (length d) \<and> have_bytes (fe_R E) d bitfield \<subseteq> data_spans batch"

text \<open>
  What holds after a batch: the storage has the bytes \<open>H\<close>, it is complete exactly if these are all,
  and the update for the database leads to the blob.
\<close>

definition batch_done :: "('r, 'd) fs_env \<Rightarrow> fs_ctx \<Rightarrow> bytes \<Rightarrow> bytes \<Rightarrow> nat set \<Rightarrow> nat set \<Rightarrow>
    'r bao_storage \<times> bytes entry_state option \<Rightarrow> 'd fs_world \<Rightarrow> bool" where
  "batch_done E cx d ob M H x w \<longleftrightarrow> (case x of (st, update) \<Rightarrow>
     storage_inv E cx d ob M w st \<and> storage_have E d st = H
     \<and> (if H = {..<length d} then \<exists>cs. st = CompleteBao cs else \<exists>fs. st = PartialFile fs)
     \<and> (case update of None \<Rightarrow> H \<noteq> {..<length d}
        | Some e \<Rightarrow> located E cx d ob M w e \<and> (entry_is_complete e \<longleftrightarrow> H = {..<length d})))"

lemma storage_inv_same:
  assumes "only_files {} w w'" "storage_inv E cx d ob M w st"
  shows "storage_inv E cx d ob M w' st"
  using assms by (cases st) (simp_all add: files_agree_same [OF _ assms(1)] complete_inv_same [OF assms(1)])

locale blob = fs_laws E for E :: "('r, 'd) fs_env" +
  fixes cx :: fs_ctx and d ob :: bytes
  assumes d_nonempty: "d \<noteq> []" and d_size: "length d < 2 ^ 64" and ob_size: "length ob < 2 ^ 64"
    and ob_length: "length ob = unat (fe_outboard_size E (of_nat (length d)))"
    and valid: "r \<in> set (fe_valid_ranges E (cx_id cx) sz obs data) \<Longrightarrow> rs_contains (fe_R E) r c \<Longrightarrow>
      sz = of_nat (length d) \<and> (\<forall>x<length d. x div 1024 = unat c \<longrightarrow> x < length data \<and> data ! x = d ! x)"
begin

lemma pf_updated_wp:
  assumes "files_agree E cx d ob D M fs w" "bf_good (fe_R E) (fe_B E) d (pf_bitfield fs)"
    "bf_size u = of_nat (length d)" "have_bytes (fe_R E) d (pf_bitfield fs) \<union> have_bytes (fe_R E) d u \<subseteq> D"
  shows "wp (pf_updated E cx always u fs) (\<lambda>x w'. only_files {} w w' \<and>
      batch_done E cx d ob M (have_bytes (fe_R E) d (pf_bitfield fs) \<union> have_bytes (fe_R E) d u) x w')
    (only_files {} w) w"
proof -
  obtain changes b where up: "bf_update (fe_R E) (fe_B E) (pf_bitfield fs) u = (changes, b)" by fastforce
  note upd = update_have [OF assms(2,3) d_nonempty d_size up]
  let ?H = "have_bytes (fe_R E) d (pf_bitfield fs) \<union> have_bytes (fe_R E) d u"
  let ?fs = "fs\<lparr>pf_bitfield := b\<rparr>"
  have a: "files_agree E cx d ob ?H M ?fs w"
    using assms(1,4) by (auto simp: files_agree_def linked_def intro: agrees_subset)
  show ?thesis
  proof (cases "bs_complete (new_state changes)")
    case True
    then have H: "?H = {..<length d}" and v: "bs_validated_size (new_state changes) = Some (of_nat (length d))"
      using upd(3,4,6) by auto
    have "wp (io_then (pf_into_complete E cx ?fs (of_nat (length d))) (\<lambda>(cs, update). io_ok (CompleteBao cs, Some update)))
      (\<lambda>x w'. only_files {} w w' \<and> batch_done E cx d ob M ?H x w') (only_files {} w) w"
      by (rule wp_call [OF pf_into_complete_wp [OF a [unfolded H] d_size ob_length]])
        (auto simp: batch_done_def H intro!: wp_ok)
    with True v up show ?thesis by (simp add: pf_updated_def Let_def)
  next
    case False
    then have H: "?H \<noteq> {..<length d}" using upd(3,4) by auto
    have "batch_done E cx d ob M ?H (PartialFile ?fs, None) w"
      "batch_done E cx d ob M ?H (PartialFile ?fs, Some (PartialEntry (bs_validated_size (new_state changes)))) w"
      using H a upd(1,3,5) by (auto simp: batch_done_def)
    with False up show ?thesis by (auto simp: pf_updated_def Let_def intro!: wp_ok)
  qed
qed

lemma max_offset_Some: "\<forall>item\<in>set batch. item_of (fe_Io E) d ob item \<Longrightarrow> \<exists>m. max_offset batch = Some m"
proof (induction batch rule: max_offset.induct)
  case (3 off data batch)
  then have "unat off + length data < 2 ^ 64" using d_size by (simp add: leaf_of_def)
  moreover from this have "unat (of_nat (length data) :: u64) = length data" by (intro unat_of_nat_u64) simp
  ultimately have "checked_add_u64 off (of_nat (length data)) \<noteq> None" by (simp add: checked_add_u64_def)
  with 3 show ?case by (auto split: option.split)
qed auto

lemma pf_batch_wp:
  assumes "storage_inv E cx d ob M w (PartialFile fs)" "batch_ok E d ob batch u"
  shows "wp (io_then (pf_write_batch E (bf_size u) fs batch) (\<lambda>_. pf_updated E cx always u fs))
    (\<lambda>x w'. cx_frame E cx d w w' \<and> batch_done E cx d ob (M \<union> outboard_spans (fe_Io E) (of_nat (length d)) batch)
      (storage_have E d (PartialFile fs) \<union> have_bytes (fe_R E) d u) x w') (cx_frame E cx d w) w"
proof -
  have u: "bf_size u = of_nat (length d)" using assms(2) by (simp add: batch_ok_def)
  let ?D = "have_bytes (fe_R E) d (pf_bitfield fs)"
  have wb: "wp (pf_write_batch E (of_nat (length d)) fs batch) (\<lambda>_ w'. cx_frame E cx d w w' \<and>
      files_agree E cx d ob (?D \<union> data_spans batch) (M \<union> outboard_spans (fe_Io E) (of_nat (length d)) batch) fs w')
    (cx_frame E cx d w) w"
    using assms by (intro pf_write_batch_wp d_size ob_size) (auto simp: batch_ok_def)
  show ?thesis unfolding u
  proof (rule wp_call [OF wb])
    fix w1 assume w1: "cx_frame E cx d w w1 \<and>
      files_agree E cx d ob (?D \<union> data_spans batch) (M \<union> outboard_spans (fe_Io E) (of_nat (length d)) batch) fs w1"
    note tr = cx_trans [OF conjunct1 [OF w1] cx_same]
    show "wp (pf_updated E cx always u fs) (\<lambda>x w'. cx_frame E cx d w w' \<and>
      batch_done E cx d ob (M \<union> outboard_spans (fe_Io E) (of_nat (length d)) batch)
      (storage_have E d (PartialFile fs) \<union> have_bytes (fe_R E) d u) x w') (cx_frame E cx d w) w1"
      by (rule wp_mono [OF pf_updated_wp [OF conjunct2 [OF w1] _ u]])
        (use assms tr in \<open>auto simp: batch_ok_def\<close>)
  qed
qed

lemma pm_batch_wp:
  assumes "storage_inv E cx d ob M w (PartialMem ms)" "batch_ok E d ob batch u" "fs_wf w" "no_short w"
  shows "wp (pm_write_batch E cx batch u ms) (\<lambda>x w'. cx_frame E cx d w w' \<and>
      batch_done E cx d ob (M \<union> outboard_spans (fe_Io E) (of_nat (length d)) batch)
      (storage_have E d (PartialMem ms) \<union> have_bytes (fe_R E) d u) x w') (cx_frame E cx d w) w"
    (is "wp _ (\<lambda>x w'. _ \<and> batch_done _ _ _ _ ?M ?H _ _) _ _")
proof -
  have u: "bf_size u = of_nat (length d)" and it: "\<forall>item\<in>set batch. item_of (fe_Io E) d ob item"
    and hv: "have_bytes (fe_R E) d u \<subseteq> data_spans batch" using assms(2) by (simp_all add: batch_ok_def)
  have good: "bf_good (fe_R E) (fe_B E) d (ps_bitfield ms)"
    and mem: "mem_agrees (fe_R E) d ob (have_bytes (fe_R E) d (ps_bitfield ms)) M ms" using assms(1) by simp_all
  obtain m where m: "max_offset batch = Some m" using max_offset_Some [OF it] by blast
  show ?thesis
  proof (cases "m \<le> cx_max_data_inlined cx")
    case False
    have "wp (io_then (pm_persist E cx ms) (\<lambda>fs. io_then (pf_write_batch E (bf_size u) fs batch) (\<lambda>_. pf_updated E cx True u fs)))
      (\<lambda>x w'. cx_frame E cx d w w' \<and> batch_done E cx d ob ?M ?H x w') (cx_frame E cx d w) w"
    proof (rule wp_call [OF pm_persist_wp [OF mem assms(3,4) d_size ob_size]])
      fix fs w1 assume w1: "cx_frame E cx d w w1 \<and> files_agree E cx d ob (have_bytes (fe_R E) d (ps_bitfield ms)) M fs w1
        \<and> pf_bitfield fs = ps_bitfield ms"
      then have inv: "storage_inv E cx d ob M w1 (PartialFile fs)" using good by simp
      show "wp (io_then (pf_write_batch E (bf_size u) fs batch) (\<lambda>_. pf_updated E cx True u fs))
        (\<lambda>x w'. cx_frame E cx d w w' \<and> batch_done E cx d ob ?M ?H x w') (cx_frame E cx d w) w1"
        by (rule wp_mono [OF pf_batch_wp [OF inv assms(2)]]) (use w1 cx_trans in auto)
    qed
    with False m show ?thesis by (simp add: pm_write_batch_def)
  next
    case True
    obtain ms1 where ms1: "Mem_Storage.write_batch (fe_R E) (fe_Io E) (of_nat (length d)) batch ms = Some (Inr ms1)"
      "ps_bitfield ms1 = ps_bitfield ms"
      "mem_agrees (fe_R E) d ob (have_bytes (fe_R E) d (ps_bitfield ms) \<union> data_spans batch) ?M ms1"
      using write_batch_agrees [OF d_size ob_size mem it] by blast
    obtain changes b where up: "bf_update (fe_R E) (fe_B E) (ps_bitfield ms) u = (changes, b)" by fastforce
    note upd = update_have [OF good u d_nonempty d_size up]
    let ?ms = "ms1\<lparr>ps_bitfield := b\<rparr>"
    have "sparse_agrees (fe_R E) d ?H (ps_data ms1)" using ms1(3) hv by (auto simp: mem_agrees_def sparse_agrees_def)
    then have mem1: "mem_agrees (fe_R E) d ob ?H ?M ?ms" using ms1(3) by (simp add: mem_agrees_def)
    let ?rest = "if bs_complete (new_state changes) then
        io_then (pm_into_complete E cx ?ms) (\<lambda>(cs, update). io_ok (CompleteBao cs, Some update))
      else io_then (pm_persist E cx ?ms) (\<lambda>fs. io_ok (PartialFile fs, Some (PartialEntry (bs_validated_size (new_state changes)))))"
    have "wp ?rest (\<lambda>x w'. cx_frame E cx d w w' \<and> batch_done E cx d ob ?M ?H x w') (cx_frame E cx d w) w"
    proof (cases "bs_complete (new_state changes)")
      case True
      then have H: "?H = {..<length d}" using upd(3,4) by simp
      have sz: "bf_size (ps_bitfield ?ms) = of_nat (length d)"
      proof -
        have "have_bytes (fe_R E) d b \<noteq> {}" unfolding upd(3) using H d_nonempty by auto
        then show ?thesis using upd(2) by simp
      qed
      have "wp (io_then (pm_into_complete E cx ?ms) (\<lambda>(cs, update). io_ok (CompleteBao cs, Some update)))
        (\<lambda>x w'. cx_frame E cx d w w' \<and> batch_done E cx d ob ?M ?H x w') (cx_frame E cx d w) w"
        by (rule wp_call [OF pm_into_complete_wp [OF mem1 [unfolded H] sz assms(3,4) d_size ob_size ob_length]])
          (auto simp: batch_done_def H [simplified] intro!: wp_ok)
      with True show ?thesis by simp
    next
      case False
      then have H: "?H \<noteq> {..<length d}" using upd(3,4) by simp
      have "wp (io_then (pm_persist E cx ?ms) (\<lambda>fs. io_ok (PartialFile fs, Some (PartialEntry (bs_validated_size (new_state changes))))))
        (\<lambda>x w'. cx_frame E cx d w w' \<and> batch_done E cx d ob ?M ?H x w') (cx_frame E cx d w) w"
        by (rule wp_call [OF pm_persist_wp [OF mem1 assms(3,4) d_size ob_size]])
          (use H upd(1,3,5) in \<open>auto simp: batch_done_def intro!: wp_ok\<close>)
      with False show ?thesis by simp
    qed
    moreover have "pm_write_batch E cx batch u ms w = ?rest w"
      using True m ms1(1,2) up by (simp add: pm_write_batch_def io_then_def pm_write_def u Let_def)
    ultimately show ?thesis unfolding wp_def by metis
  qed
qed

lemma bao_write_batch_wp:
  assumes "storage_inv E cx d ob M w st" "writable st" "batch_ok E d ob batch u" "fs_wf w" "no_short w"
  shows "wp (bao_write_batch E cx batch u st) (\<lambda>x w'. cx_frame E cx d w w' \<and>
      batch_done E cx d ob (M \<union> outboard_spans (fe_Io E) (of_nat (length d)) batch)
      (storage_have E d st \<union> have_bytes (fe_R E) d u) x w') (cx_frame E cx d w) w"
proof (cases st)
  case NonExisting
  have "storage_inv E cx d ob M w (PartialMem (new_partial_mem (fe_R E)))"
    using assms(1) NonExisting by (simp add: new_partial_mem_def mem_agrees_def sparse_new_agrees)
  from pm_batch_wp [OF this assms(3-5)] NonExisting show ?thesis by (simp add: new_partial_mem_def)
next
  case (PartialMem ms)
  then show ?thesis using pm_batch_wp assms by simp
next
  case (PartialFile fs)
  then show ?thesis using pf_batch_wp assms by simp
qed (use assms(2) in simp_all)

end

end
