(* ===== verification/Bao_Load.thy ===== *)
theory Bao_Load
  imports Bao_Inv
begin

text \<open>
  Persisting and loading partial storage: what the files on disk promise at any time, also after a
  failed operation or a crash, and what loading makes of them.
\<close>

section \<open>The promise of the files\<close>

abbreviation bitfield_path :: "('r, 'd) fs_env \<Rightarrow> fs_ctx \<Rightarrow> path" where
  "bitfield_path E cx \<equiv> cx_file E cx BitfieldPart"

text \<open>The bitfield that is saved in a valid bitfield file.\<close>

definition saved_bitfield :: "('r, 'd) fs_env \<Rightarrow> fs_ctx \<Rightarrow> 'd fs_world \<Rightarrow> 'r bitfield option" where
  "saved_bitfield E cx w = (case fs_names w (bitfield_path E cx) of
     None \<Rightarrow> None
   | Some k \<Rightarrow> (case check_buffer (fe_S E) (fs_content w k) of Inl _ \<Rightarrow> None | Inr bf \<Rightarrow> Some bf))"

text \<open>A saved bitfield claims no more than the data file holds.\<close>

definition disk_ok :: "('r, 'd) fs_env \<Rightarrow> fs_ctx \<Rightarrow> bytes \<Rightarrow> 'd fs_world \<Rightarrow> bool" where
  "disk_ok E cx d w \<longleftrightarrow> (\<forall>bf. saved_bitfield E cx w = Some bf \<longrightarrow> bf_good (fe_R E) (fe_B E) d bf
     \<and> (\<exists>i. fs_names w (cx_file E cx DataPart) = Some i
          \<and> agrees (fs_content w i) d (have_bytes (fe_R E) d bf)))"

lemma frame_names:
  assumes "frame P w w'" "p \<notin> P"
  shows "fs_names w' p = fs_names w p"
  using frameD(3,4) [OF assms(1), of p] assms(2) by (metis not_None_eq)

lemma saved_other:
  assumes "frame P w w'" "bitfield_path E cx \<notin> P" "fs_wf w"
  shows "saved_bitfield E cx w' = saved_bitfield E cx w"
  using frame_names [OF assms(1,2)] frame_other(2) [OF assms(1,3) _ assms(2)]
  by (auto simp: saved_bitfield_def split: option.split)

lemma disk_ok_cx:
  assumes "disk_ok E cx d w" "cx_frame E cx d w w'" "fs_wf w"
  shows "disk_ok E cx d w'"
proof -
  have "saved_bitfield E cx w' = saved_bitfield E cx w"
    by (rule saved_other [OF cx_frameD(1) [OF assms(2)] _ assms(3)]) auto
  then show ?thesis using assms(1) cx_frameD(3,4) [OF assms(2)] by (fastforce simp: disk_ok_def improves_def)
qed

lemma disk_ok_saved:
  assumes "disk_ok E cx d w" "frame {bitfield_path E cx} w w'" "fs_wf w"
    and "saved_bitfield E cx w' \<in> {None, saved_bitfield E cx w}"
  shows "disk_ok E cx d w'"
proof -
  have n: "cx_file E cx DataPart \<notin> {bitfield_path E cx}" by simp
  show ?thesis
    unfolding disk_ok_def
  proof (intro allI impI)
    fix bf assume "saved_bitfield E cx w' = Some bf"
    then have "saved_bitfield E cx w = Some bf" using assms(4) by auto
    then obtain i where i: "bf_good (fe_R E) (fe_B E) d bf" "fs_names w (cx_file E cx DataPart) = Some i"
      "agrees (fs_content w i) d (have_bytes (fe_R E) d bf)" using assms(1) unfolding disk_ok_def by blast
    then show "bf_good (fe_R E) (fe_B E) d bf \<and> (\<exists>i. fs_names w' (cx_file E cx DataPart) = Some i \<and>
        agrees (fs_content w' i) d (have_bytes (fe_R E) d bf))"
      using frame_other [OF assms(2,3) i(2) n] by simp
  qed
qed

lemma files_agree_other:
  assumes "files_agree E cx d ob D M fs w" "frame {bitfield_path E cx} w w'"
  shows "files_agree E cx d ob D M fs w'"
proof -
  have wf: "fs_wf w" and l: "linked E cx fs w" using assms(1) by (simp_all add: files_agree_def)
  have o: "fs_names w' (cx_file E cx part) = Some i" "fs_content w' i = fs_content w i"
    if "fs_names w (cx_file E cx part) = Some i" "part \<noteq> BitfieldPart" for part i
    using frame_other [OF assms(2) wf that(1)] that(2) by auto
  have "fs_content w' (pf_data fs) = fs_content w (pf_data fs)" "fs_content w' (pf_outboard fs) = fs_content w (pf_outboard fs)"
    "linked E cx fs w'"
    using o [of DataPart] o [of OutboardPart] o [of SizesPart] l by (simp_all add: linked_def)
  then show ?thesis using assms(1) frameD(1) [OF assms(2) wf] by (simp add: files_agree_def)
qed

section \<open>Writing the bitfield\<close>

lemma wp_create:
  assumes "\<And>i w'. frame {p} w w' \<Longrightarrow> fs_names w' p = Some i \<Longrightarrow> fs_content w' i = [] \<Longrightarrow> Q i w'"
    "\<And>w'. only_files {} w w' \<Longrightarrow> Z w'" "fs_wf w"
  shows "wp (fs_create p) Q Z w"
  unfolding fs_create_def
proof (rule wp_guarded)
  fix fs assume fs: "set fs \<subseteq> set (fs_faults w)"
  let ?w = "w\<lparr>fs_faults := fs\<rparr>"
  show "wp (\<lambda>w. case fs_names w p of None \<Rightarrow> new_file p w | Some i \<Rightarrow> (Inr i, set_content i [] w)) Q Z ?w"
  proof (cases "fs_names w p")
    case (Some i)
    have "only_files {i} w (set_content i [] ?w)" using fs by (simp add: only_files_def set_content_def)
    then have "frame {p} w (set_content i [] ?w)" by (rule frame_files) (use Some in simp_all)
    then have "Q i (set_content i [] ?w)" by (rule assms(1)) (use Some in \<open>simp_all add: set_content_def\<close>)
    then show ?thesis using Some by (intro wpI [where r = "Inr i"]) (auto simp: set_content_def)
  next
    case None
    define v where "v = snd (new_file p ?w)"
    have "frame {p} w v" using assms(3) None
      by (auto simp: v_def frame_def new_file_def fs_wf_def less_Suc_eq)
    then have "Q (fs_fresh w) v" by (rule assms(1)) (simp_all add: v_def new_file_def)
    then show ?thesis using None
      by (intro wpI [where r = "Inr (fs_fresh w)" and w' = v]) (simp_all add: v_def new_file_def)
  qed
qed (use assms(2) only_files_faults in blast)

context fs_laws
begin

lemma check_written:
  assumes "bf_canonical (fe_R E) (fe_B E) bf"
  shows "check_buffer (fe_S E) (se_checksum (fe_S E) (se_encode (fe_S E) bf) @ se_encode (fe_S E) bf) = Inr bf"
  using checksum [of "se_encode (fe_S E) bf"] decode [OF assms]
  by (auto simp: check_buffer_def Let_def)

lemma check_torn:
  assumes "bf_canonical (fe_R E) (fe_B E) bf"
    "check_buffer (fe_S E) (take n (se_checksum (fe_S E) (se_encode (fe_S E) bf) @ se_encode (fe_S E) bf)) = Inr bf'"
  shows "bf' = bf"
proof -
  let ?data = "se_encode (fe_S E) bf" and ?c = "se_checksum (fe_S E)"
  have n: "32 \<le> n" "?c (take (n - 32) ?data) = ?c ?data"
    using assms(2) checksum [of ?data] by (auto simp: check_buffer_def Let_def split: if_splits)
  have "\<not> n - 32 < length ?data" using torn [OF assms(1), of "n - 32"] n(2) by auto
  then have "take n (?c ?data @ ?data) = ?c ?data @ ?data" using checksum [of ?data] n(1) by simp
  with assms check_written [OF assms(1)] show ?thesis by simp
qed

lemma write_checksummed_wp:
  assumes "fs_wf w" "bf_good (fe_R E) (fe_B E) d bf" "fs_names w (cx_file E cx DataPart) = Some i"
    "agrees (fs_content w i) d (have_bytes (fe_R E) d bf)" "disk_ok E cx d w"
  shows "wp (write_checksummed (fe_Io E) (fe_S E) (bitfield_path E cx) bf)
    (\<lambda>_ w'. frame {bitfield_path E cx} w w' \<and> disk_ok E cx d w' \<and> saved_bitfield E cx w' = Some bf)
    (\<lambda>w'. frame {bitfield_path E cx} w w' \<and> disk_ok E cx d w') w"
  unfolding write_checksummed_def Let_def
proof (intro wp_then wp_create wp_write_all wp_sync assms(1))
  let ?p = "bitfield_path E cx" and ?S = "fe_S E"
  let ?buf = "se_checksum ?S (se_encode ?S bf) @ se_encode ?S bf"
  have can: "bf_canonical (fe_R E) (fe_B E) bf" using assms(2) by (simp add: bf_good_def)
  have ok: "disk_ok E cx d w'" if "frame {?p} w w'" "\<And>b. saved_bitfield E cx w' = Some b \<Longrightarrow> b = bf" for w'
  proof -
    have "fs_names w' (cx_file E cx DataPart) = Some i" "fs_content w' i = fs_content w i"
      using frame_other [OF that(1) assms(1,3)] by auto
    then show ?thesis using that(2) assms(2,4) by (auto simp: disk_ok_def)
  qed
  show "frame {?p} w w1 \<and> disk_ok E cx d w1" if "only_files {} w w1" for w1
    using frame_same [OF that] disk_ok_cx [OF assms(5) cx_same [OF that] assms(1)] by blast
  fix k w1 assume w1: "frame {?p} w w1" "fs_names w1 ?p = Some k" "fs_content w1 k = []"
  have f2: "frame {?p} w w2" if "only_files {k} w1 w2" for w2
    using frame_trans [OF w1(1) frame_files [OF that w1(2)]] by simp
  show "frame {?p} w w2 \<and> disk_ok E cx d w2"
    if w2: "only_files {k} w1 w2" "fs_content w2 k = io_write (fe_Io E) (fs_content w1 k) 0 (take n ?buf)" for w2 n
  proof
    show f: "frame {?p} w w2" using f2 w2(1) .
    have "fs_names w2 ?p = Some k" "fs_content w2 k = take n ?buf"
      using w1 w2 by (simp_all add: only_filesD(1) io_write write_vec_def)
    then show "disk_ok E cx d w2"
      using check_torn [OF can] by (intro ok f) (auto simp: saved_bitfield_def split: sum.splits)
  qed
  fix w2 assume w2: "only_files {k} w1 w2" "fs_content w2 k = io_write (fe_Io E) (fs_content w1 k) 0 ?buf"
  fix w3 assume w3: "only_files {} w2 w3"
  have f: "frame {?p} w w3" using frame_trans [OF f2 [OF w2(1)] frame_same [OF w3]] .
  have "fs_names w3 ?p = Some k" "fs_content w3 k = ?buf"
    using w1 w2 w3 by (simp_all add: only_filesD(1) only_filesD(4) [OF w3] io_write write_vec_def)
  then have s: "saved_bitfield E cx w3 = Some bf" using check_written [OF can] by (simp add: saved_bitfield_def)
  with f ok [OF f] show "frame {?p} w w3 \<and> disk_ok E cx d w3 \<and> saved_bitfield E cx w3 = Some bf"
    "frame {?p} w w3 \<and> disk_ok E cx d w3" by simp_all
qed

lemma pf_sync_all_wp:
  assumes "bf_good (fe_R E) (fe_B E) d (pf_bitfield fs)" "disk_ok E cx d w"
    "files_agree E cx d ob (have_bytes (fe_R E) d (pf_bitfield fs)) M fs w"
  shows "wp (pf_sync_all E (bitfield_path E cx) fs)
    (\<lambda>_ w'. frame {bitfield_path E cx} w w' \<and> disk_ok E cx d w' \<and> saved_bitfield E cx w' = Some (pf_bitfield fs)
      \<and> files_agree E cx d ob (have_bytes (fe_R E) d (pf_bitfield fs)) M fs w')
    (\<lambda>w'. frame {bitfield_path E cx} w w' \<and> disk_ok E cx d w') w"
  unfolding pf_sync_all_def
proof (rule wp_then, rule wp_sync, rule wp_then, rule wp_sync, rule wp_then, rule wp_sync)
  have wf: "fs_wf w" using assms(3) by (simp add: files_agree_def)
  have same: "frame {bitfield_path E cx} w w' \<and> disk_ok E cx d w'" if "only_files {} w w'" for w'
    using frame_same [OF that] disk_ok_cx [OF assms(2) cx_same [OF that] wf] by blast
  fix w1 assume w1: "only_files {} w w1"
  then show "frame {bitfield_path E cx} w w1 \<and> disk_ok E cx d w1" by (rule same)
  fix w2 assume "only_files {} w1 w2"
  then have w2: "only_files {} w w2" using w1 only_files_trans by blast
  then show "frame {bitfield_path E cx} w w2 \<and> disk_ok E cx d w2" by (rule same)
  fix w3 assume "only_files {} w2 w3"
  then have w3: "only_files {} w w3" using w2 only_files_trans by blast
  note s3 = same [OF w3] and a3 = files_agree_same [OF assms(3) w3]
  show "frame {bitfield_path E cx} w w3 \<and> disk_ok E cx d w3" by (rule s3)
  have "wp (write_checksummed (fe_Io E) (fe_S E) (bitfield_path E cx) (pf_bitfield fs))
    (\<lambda>_ w'. frame {bitfield_path E cx} w3 w' \<and> disk_ok E cx d w' \<and> saved_bitfield E cx w' = Some (pf_bitfield fs))
    (\<lambda>w'. frame {bitfield_path E cx} w3 w' \<and> disk_ok E cx d w') w3"
    using a3 s3 by (intro write_checksummed_wp [OF _ assms(1)]) (auto simp: files_agree_def linked_def)
  then show "wp (write_checksummed (fe_Io E) (fe_S E) (bitfield_path E cx) (pf_bitfield fs))
    (\<lambda>_ w'. frame {bitfield_path E cx} w w' \<and> disk_ok E cx d w' \<and> saved_bitfield E cx w' = Some (pf_bitfield fs)
      \<and> files_agree E cx d ob (have_bytes (fe_R E) d (pf_bitfield fs)) M fs w')
    (\<lambda>w'. frame {bitfield_path E cx} w w' \<and> disk_ok E cx d w') w3"
    by (rule wp_mono) (use s3 frame_trans files_agree_other [OF a3] in blast)+
qed

end

section \<open>Reading the bitfield\<close>

text \<open>\<open>read_checksummed_and_truncate\<close> up to the check of what was read.\<close>

abbreviation read_and_truncate :: "path \<Rightarrow> ('d, bytes) fio" where
  "read_and_truncate p \<equiv>
     io_then (fs_open p) (\<lambda>i.
     io_then (guarded (\<lambda>w. (Inr (fs_content w i), w))) (\<lambda>buffer.
     io_then (fs_truncate i) (\<lambda>_. io_then (fs_sync i) (\<lambda>_. io_ok buffer))))"

lemma read_checksummed_eq:
  "read_checksummed_and_truncate S p w =
    io_then (read_and_truncate p) (\<lambda>buffer w. case check_buffer S buffer of Inl e \<Rightarrow> io_err e w | Inr bf \<Rightarrow> io_ok bf w) w"
  by (simp add: read_checksummed_and_truncate_def io_then_def split_def split: prod.split sum.split)

lemma wp_contents:
  assumes "\<And>w'. only_files {} w w' \<Longrightarrow> Q (fs_content w i) w'" "\<And>w'. only_files {} w w' \<Longrightarrow> Z w'"
  shows "wp (guarded (\<lambda>w. (Inr (fs_content w i), w))) Q Z w"
  by (intro wp_guarded wpI [OF refl]) (use assms in \<open>auto intro: only_files_faults\<close>)

lemma wp_truncate:
  assumes "\<And>w'. only_files {i} w w' \<Longrightarrow> fs_content w' i = [] \<Longrightarrow> Q () w'" "\<And>w'. only_files {} w w' \<Longrightarrow> Z w'"
  shows "wp (fs_truncate i) Q Z w"
  unfolding fs_truncate_def
  by (intro wp_guarded wpI [OF refl])
    (use assms in \<open>auto intro: only_files_faults intro!: assms(1) simp: only_files_def set_content_def\<close>)

lemma read_and_truncate_wp:
  assumes "fs_names w p = Some i"
  shows "wp (read_and_truncate p) (\<lambda>buf w'. buf = fs_content w i \<and> only_files {i} w w' \<and> fs_content w' i = [])
    (\<lambda>w'. only_files {i} w w' \<and> fs_content w' i \<in> {fs_content w i, []}) w"
proof (intro wp_then wp_open [OF assms] wp_contents wp_truncate wp_sync wp_ok)
  fix w1 assume w1: "only_files {} w w1"
  have same: "only_files {i} w w' \<and> fs_content w' i \<in> {fs_content w i, []}" if "only_files {} w w'" for w'
    using only_files_mono [OF that] only_filesD(4) [OF that] by simp
  then show "only_files {i} w w1 \<and> fs_content w1 i \<in> {fs_content w i, []}" using w1 .
  fix w2 assume "only_files {} w1 w2"
  then have w2: "only_files {} w w2" using w1 only_files_trans by blast
  then show "only_files {i} w w2 \<and> fs_content w2 i \<in> {fs_content w i, []}" by (rule same)
  show "only_files {i} w w3 \<and> fs_content w3 i \<in> {fs_content w i, []}" if "only_files {} w2 w3" for w3
    using same only_files_trans [OF w2 that] by blast
  fix w3 assume w3: "only_files {i} w2 w3" "fs_content w3 i = []"
  fix w4 assume w4: "only_files {} w3 w4"
  have "only_files {i} w w4" "fs_content w4 i = []"
    using only_files_trans [OF only_files_mono [OF w2] only_files_trans [OF w3(1) only_files_mono [OF w4]]]
      only_filesD(4) [OF w4] w3(2) by auto
  then show "only_files {i} w w4 \<and> fs_content w4 i \<in> {fs_content w i, []}" by simp
  from \<open>only_files {i} w w4\<close> \<open>fs_content w4 i = []\<close> only_filesD(4) [OF w1]
  show "fs_content w1 i = fs_content w i \<and> only_files {i} w w4 \<and> fs_content w4 i = []" by simp
qed

text \<open>
  Whatever happens on the way, reading yields the saved bitfield or fails, and afterwards the same
  bitfield or none is saved. Without faults it is read if there is one, and none is saved then.
\<close>

lemma read_checksummed_cases:
  assumes "read_checksummed_and_truncate (fe_S E) (bitfield_path E cx) w = (r, w')" "fs_wf w"
  shows "frame {bitfield_path E cx} w w'" "set (fs_faults w') \<subseteq> set (fs_faults w)" "r \<noteq> Inl Panics"
    "r = Inr bf \<Longrightarrow> saved_bitfield E cx w = Some bf"
    "saved_bitfield E cx w' \<in> {None, saved_bitfield E cx w}"
    "fs_faults w = [] \<Longrightarrow> saved_bitfield E cx w = Some bf \<Longrightarrow> r = Inr bf \<and> saved_bitfield E cx w' = None"
proof -
  let ?p = "bitfield_path E cx"
  have empty: "check_buffer S [] = Inl InvalidData" for S :: "'c serial_ops" by (simp add: check_buffer_def)
  have "frame {?p} w w' \<and> set (fs_faults w') \<subseteq> set (fs_faults w) \<and> r \<noteq> Inl Panics
    \<and> (\<forall>bf. r = Inr bf \<longrightarrow> saved_bitfield E cx w = Some bf) \<and> saved_bitfield E cx w' \<in> {None, saved_bitfield E cx w}
    \<and> (\<forall>bf. fs_faults w = [] \<longrightarrow> saved_bitfield E cx w = Some bf \<longrightarrow> r = Inr bf \<and> saved_bitfield E cx w' = None)"
  proof (cases "fs_names w ?p")
    case None
    obtain f fs where f: "pop_fault w = (f, w\<lparr>fs_faults := fs\<rparr>)" "set fs \<subseteq> set (fs_faults w)" by (rule pop_faultE)
    have "\<exists>e. r = Inl (Fails e)" "w' = w\<lparr>fs_faults := fs\<rparr>"
      using assms(1) None f by (cases f; auto simp: read_checksummed_and_truncate_def io_then_def fs_open_def guarded_def)+
    moreover have "frame {?p} w (w\<lparr>fs_faults := fs\<rparr>)" using frame_same only_files_faults f(2) by blast
    ultimately show ?thesis using f(2) None by (auto simp: saved_bitfield_def)
  next
    case (Some i)
    have fr: "frame {?p} w v" if "only_files {i} w v" for v using frame_files [OF that Some] by simp
    from read_and_truncate_wp [OF Some] show ?thesis
    proof (cases rule: wpE)
      case (ok buf v)
      then have "r = (case check_buffer (fe_S E) (fs_content w i) of Inl e \<Rightarrow> Inl (Fails e) | Inr bf \<Rightarrow> Inr bf)" "w' = v"
        using assms(1) unfolding read_checksummed_eq by (auto simp: io_then_def split: sum.splits)
      moreover have "saved_bitfield E cx v = None"
        using ok(2) Some by (auto simp: saved_bitfield_def only_filesD(1) empty)
      ultimately show ?thesis using ok fr Some by (auto simp: saved_bitfield_def split: sum.splits)
    next
      case (fault e v)
      then have "r = Inl (Fails e)" "w' = v" using assms(1) unfolding read_checksummed_eq by (auto simp: io_then_def)
      moreover have "saved_bitfield E cx v \<in> {None, saved_bitfield E cx w}"
        using fault(2) Some by (auto simp: saved_bitfield_def only_filesD(1) empty)
      ultimately show ?thesis using fault fr by auto
    qed
  qed
  then show "frame {?p} w w'" "set (fs_faults w') \<subseteq> set (fs_faults w)" "r \<noteq> Inl Panics"
    "r = Inr bf \<Longrightarrow> saved_bitfield E cx w = Some bf"
    "saved_bitfield E cx w' \<in> {None, saved_bitfield E cx w}"
    "fs_faults w = [] \<Longrightarrow> saved_bitfield E cx w = Some bf \<Longrightarrow> r = Inr bf \<and> saved_bitfield E cx w' = None"
    by blast+
qed

lemma wp_len:
  assumes "\<And>w'. only_files {} w w' \<Longrightarrow> Q (length (fs_content w i)) w'" "\<And>w'. only_files {} w w' \<Longrightarrow> Z w'"
  shows "wp (fs_len i) Q Z w"
  unfolding fs_len_def by (intro wp_guarded wpI [OF refl]) (use assms in \<open>auto intro: only_files_faults\<close>)

lemma read_size_wp: "wp (read_size i) (\<lambda>_. only_files {} w) (only_files {} w) w"
  unfolding read_size_def
proof (rule wp_then, rule wp_len)
  show "only_files {} w w1" if "only_files {} w w1" for w1 using that .
  fix w1 assume w1: "only_files {} w w1"
  let ?n = "length (fs_content w i)"
  let ?len = "?n - ?n mod 8"
  have "wp (io_then (read_exact_at i (?len - 8) 8) (\<lambda>buf. io_ok (from_le_bytes buf))) (\<lambda>_. only_files {} w) (only_files {} w) w1"
    if "8 \<le> ?n"
  proof -
    have len: "8 \<le> ?len" "?len \<le> ?n" using that by (auto simp: minus_mod_eq_div_mult)
    have "wp (read_loop i (?len - 8) 8 []) (\<lambda>_. only_files {} w) (only_files {} w) w1"
      by (rule read_loop_wp [OF _ w1])
    then show ?thesis
    proof (cases rule: wpE)
      case (ok buf w2)
      have "length buf = 8"
        using read_loop_ok [OF ok(1)] only_filesD(4) [OF w1, of i] len by simp
      with ok show ?thesis
        by (auto simp: read_exact_at_def io_then_def intro!: wpI simp del: read_loop.simps)
    next
      case (fault e w2)
      then show ?thesis by (auto simp: read_exact_at_def io_then_def intro!: wpI simp del: read_loop.simps)
    qed
  qed
  then show "wp (if ?n < 8 then io_ok 0 else let len = ?n - ?n mod 8 in
      io_then (read_exact_at i (len - 8) 8) (\<lambda>buf. io_ok (from_le_bytes buf))) (\<lambda>_. only_files {} w) (only_files {} w) w1"
    using w1 by (auto simp: Let_def not_less)
qed

context blob
begin

lemma contains_fold_union:
  "rs_contains (fe_R E) (fold (\<lambda>r acc. rs_union (fe_R E) acc r) rs acc) c \<longleftrightarrow>
    rs_contains (fe_R E) acc c \<or> (\<exists>r\<in>set rs. rs_contains (fe_R E) r c)"
  by (induction rs arbitrary: acc) (auto simp: contains_simps)

lemma reconstructed:
  assumes "ranges = fold (\<lambda>r acc. rs_union (fe_R E) acc r) (fe_valid_ranges E (cx_id cx) sz obs data) (rs_empty (fe_R E))"
  shows "bf_good (fe_R E) (fe_B E) d (bf_new (fe_R E) (fe_B E) ranges sz)"
    "agrees data d (have_bytes (fe_R E) d (bf_new (fe_R E) (fe_B E) ranges sz))"
proof -
  have v: "sz = of_nat (length d) \<and> (\<forall>x<length d. x div 1024 = unat c \<longrightarrow> x < length data \<and> data ! x = d ! x)"
    if "rs_contains (fe_R E) ranges c" for c
    using that valid assms by (auto simp: contains_fold_union contains_empty)
  show "bf_good (fe_R E) (fe_B E) d (bf_new (fe_R E) (fe_B E) ranges sz)"
  proof (cases "ranges = rs_empty (fe_R E)")
    case True
    then show ?thesis using empty_state(3) [of "\<lparr>bf_size = sz, bf_ranges = ranges\<rparr>"]
      by (simp add: bf_good_def bf_canonical_def)
  next
    case False
    then obtain c where "rs_contains (fe_R E) ranges c" by (auto simp: rs_eq_iff contains_empty)
    then have "sz = of_nat (length d)" using v by blast
    then show ?thesis using new_canonical by (simp add: bf_good_def)
  qed
  show "agrees data d (have_bytes (fe_R E) d (bf_new (fe_R E) (fe_B E) ranges sz))"
    unfolding agrees_def
  proof
    fix x assume "x \<in> have_bytes (fe_R E) d (bf_new (fe_R E) (fe_B E) ranges sz)"
    then have x: "x < length d" "rs_contains (fe_R E) (bf_ranges (bf_new (fe_R E) (fe_B E) ranges sz)) (of_nat (x div 1024))"
      by (simp_all add: have_bytes_def)
    have "\<exists>c. rs_contains (fe_R E) ranges c"
    proof (rule ccontr)
      assume "\<not> ?thesis"
      then have "ranges = rs_empty (fe_R E)" by (simp add: rs_eq_iff contains_empty)
      then show False using x(2) empty_state(3) [of "\<lparr>bf_size = sz, bf_ranges = ranges\<rparr>"]
        by (simp add: bf_canonical_def contains_empty)
    qed
    then have sz: "sz = of_nat (length d)" using v by blast
    have "unat (of_nat (length d) :: u64) = length d" using d_size by (rule unat_of_nat_u64)
    with d_nonempty have "sz \<noteq> 0" unfolding sz by (metis length_0_conv unat_0)
    then have "rs_contains (fe_R E) ranges (of_nat (x div 1024))"
      using x chunk_below [OF x(1) d_size] sz by (simp add: new_contains)
    from v [OF this] x(1) unat_chunk [OF x(1) d_size]
    show "x < length data \<and> x < length d \<and> data ! x = d ! x" by simp
  qed
qed

lemma load_bitfield_wp:
  assumes "files_agree E cx d ob {} M fs w" "disk_ok E cx d w"
  shows "wp (\<lambda>w. case read_checksummed_and_truncate (fe_S E) (bitfield_path E cx) w of
         (Inr bitfield, w) \<Rightarrow> io_ok bitfield w
       | (Inl (Fails _), w) \<Rightarrow> reconstruct E cx (pf_data fs) (pf_outboard fs) (pf_sizes fs) w
       | (Inl Panics, w) \<Rightarrow> (Inl Panics, w))
    (\<lambda>bf w'. frame {bitfield_path E cx} w w' \<and> disk_ok E cx d w' \<and> bf_good (fe_R E) (fe_B E) d bf
      \<and> files_agree E cx d ob (have_bytes (fe_R E) d bf) M fs w'
      \<and> (\<forall>b. fs_faults w = [] \<longrightarrow> saved_bitfield E cx w = Some b \<longrightarrow> bf = b)) (\<lambda>_. False) w"
proof -
  have wf: "fs_wf w" using assms(1) by (simp add: files_agree_def)
  obtain r w1 where r: "read_checksummed_and_truncate (fe_S E) (bitfield_path E cx) w = (r, w1)" by fastforce
  note c = read_checksummed_cases [OF r wf]
  have ok1: "disk_ok E cx d w1" using disk_ok_saved [OF assms(2) c(1) wf c(5)] .
  have a1: "files_agree E cx d ob {} M fs w1" using files_agree_other [OF assms(1) c(1)] .
  show ?thesis
  proof (cases r)
    case (Inr bf)
    then have "saved_bitfield E cx w = Some bf" using c(4) by blast
    then have "bf_good (fe_R E) (fe_B E) d bf" "agrees (fs_content w (pf_data fs)) d (have_bytes (fe_R E) d bf)"
      using assms by (auto simp: disk_ok_def files_agree_def linked_def)
    then have "files_agree E cx d ob (have_bytes (fe_R E) d bf) M fs w"
      using assms(1) by (simp add: files_agree_def)
    from files_agree_other [OF this c(1)] c ok1 \<open>bf_good _ _ _ _\<close> Inr r show ?thesis
      by (intro wpI [where r = "Inr bf" and w' = w1]) auto
  next
    case (Inl e)
    then obtain e' where e: "r = Inl (Fails e')" using c(3) by (cases e) auto
    obtain q w2 where q: "read_size (pf_sizes fs) w1 = (q, w2)" by fastforce
    have w2: "only_files {} w1 w2" "set (fs_faults w2) \<subseteq> set (fs_faults w1)"
      using read_size_wp [of "pf_sizes fs" w1] q by (auto elim!: wpE)
    let ?sz = "case q of Inl _ \<Rightarrow> 0 | Inr sz \<Rightarrow> sz"
    let ?rg = "fold (\<lambda>rng ranges. rs_union (fe_R E) ranges rng)
      (fe_valid_ranges E (cx_id cx) ?sz (fs_content w2 (pf_outboard fs)) (fs_content w2 (pf_data fs))) (rs_empty (fe_R E))"
    let ?bf = "bf_new (fe_R E) (fe_B E) ?rg ?sz"
    note rec = reconstructed [of ?rg ?sz "fs_content w2 (pf_outboard fs)" "fs_content w2 (pf_data fs)", OF refl]
    have "files_agree E cx d ob (have_bytes (fe_R E) d ?bf) M fs w2"
      using files_agree_same [OF a1 w2(1)] rec(2) by (simp add: files_agree_def)
    moreover have "disk_ok E cx d w2" using disk_ok_cx [OF ok1 cx_same [OF w2(1)] frameD(1) [OF c(1) wf]] .
    ultimately show ?thesis
      using r e q rec(1) frame_trans [OF c(1) frame_same [OF w2(1)]] w2(2) c(2,6)
      by (intro wpI [where r = "Inr ?bf" and w' = w2]) (auto simp: reconstruct_def Let_def)
  qed
qed

end

section \<open>Loading\<close>

abbreviation cx_paths :: "('r, 'd) fs_env \<Rightarrow> fs_ctx \<Rightarrow> path set" where
  "cx_paths E cx \<equiv> range (cx_file E cx)"

text \<open>The bytes \<open>M\<close> of the outboard are in the outboard file, if there is one.\<close>

definition outboard_disk :: "('r, 'd) fs_env \<Rightarrow> fs_ctx \<Rightarrow> bytes \<Rightarrow> nat set \<Rightarrow> 'd fs_world \<Rightarrow> bool" where
  "outboard_disk E cx ob M w \<longleftrightarrow> (case fs_names w (cx_file E cx OutboardPart) of
     None \<Rightarrow> M = {} | Some j \<Rightarrow> agrees (fs_content w j) ob M)"

lemma files_agree_bitfield [simp]:
  "files_agree E cx d ob D M (fs\<lparr>pf_bitfield := b\<rparr>) w = files_agree E cx d ob D M fs w"
  by (simp add: files_agree_def linked_def)

lemma create_files_agree:
  assumes "fs_wf w" "create_read_write (cx_file E cx DataPart) w = (Inr i, w1)"
    "create_read_write (cx_file E cx OutboardPart) w1 = (Inr j, w2)"
    "create_read_write (cx_file E cx SizesPart) w2 = (Inr k, w3)" "outboard_disk E cx ob M w"
  shows "files_agree E cx d ob {} M \<lparr>pf_data = i, pf_outboard = j, pf_sizes = k, pf_bitfield = bf\<rparr> w3"
proof -
  note c1 = create_read_write_ok [OF assms(2)] and c2 = create_read_write_ok [OF assms(3)] and c3 = create_read_write_ok [OF assms(4)]
  have n: "fs_names w1 (cx_file E cx OutboardPart) = fs_names w (cx_file E cx OutboardPart)" using c1(6) by simp
  have "agrees (fs_content w3 j) ob M"
  proof (cases "fs_names w (cx_file E cx OutboardPart)")
    case None
    then show ?thesis using assms(5) by (simp add: outboard_disk_def)
  next
    case (Some j')
    then have "j' = j" "j < fs_fresh w" using c2(5) n assms(1) by (auto simp: fs_wf_def)
    moreover have "grows w w3" using c1(1) c2(1) c3(1) grows_trans by blast
    ultimately show ?thesis using Some assms(5) by (simp add: outboard_disk_def grows_def)
  qed
  with create_linked [OF assms(1-4)] show ?thesis by (simp add: files_agree_def)
qed

context blob
begin

lemma pf_load_wp:
  assumes "fs_wf w" "disk_ok E cx d w" "outboard_disk E cx ob M w"
  shows "wp (pf_load E cx) (\<lambda>fs w'. frame (cx_paths E cx) w w' \<and> disk_ok E cx d w'
      \<and> storage_inv E cx d ob M w' (PartialFile fs)
      \<and> (\<forall>b. fs_faults w = [] \<longrightarrow> saved_bitfield E cx w = Some b \<longrightarrow> pf_bitfield fs = b))
    (\<lambda>w'. frame (cx_paths E cx) w w' \<and> disk_ok E cx d w') w" (is "wp _ ?Q ?Z _")
  unfolding pf_load_def
proof (rule wp_then, rule wp_create_read_write, rule wp_then, rule wp_create_read_write,
    rule wp_then, rule wp_create_read_write)
  have Z: "?Z w'" if "cx_frame E cx d w w'" for w'
    using frame_mono [OF cx_frameD(1) [OF that]] disk_ok_cx [OF assms(2) that assms(1)] by (metis image_mono top_greatest)
  show "?Z w1" if "only_files {} w w1" for w1 using Z cx_same [OF that] by blast
  fix i w1 assume w1: "create_read_write (cx_file E cx DataPart) w = (Inr i, w1)"
  have f1: "cx_frame E cx d w w1" "fs_wf w1" using cx_create [OF w1] create_read_write_ok(3) [OF w1] assms(1) by auto
  show "?Z w2" if "only_files {} w1 w2" for w2 using Z cx_trans [OF f1(1) cx_same [OF that]] by blast
  fix j w2 assume w2: "create_read_write (cx_file E cx OutboardPart) w1 = (Inr j, w2)"
  have f2: "cx_frame E cx d w w2" using cx_trans [OF f1(1) cx_create [OF w2]] f1(2) by simp
  show "?Z w3" if "only_files {} w2 w3" for w3 using Z cx_trans [OF f2 cx_same [OF that]] by blast
  fix k w3 assume w3: "create_read_write (cx_file E cx SizesPart) w2 = (Inr k, w3)"
  let ?fs = "\<lambda>bf. \<lparr>pf_data = i, pf_outboard = j, pf_sizes = k, pf_bitfield = bf\<rparr>"
  note a3 = create_files_agree [OF assms(1) w1 w2 w3 assms(3), of d "bf_empty (fe_R E)"]
  have f3: "cx_frame E cx d w w3" using create_linked(1) [OF assms(1) w1 w2 w3] .
  have s3: "saved_bitfield E cx w3 = saved_bitfield E cx w"
    by (rule saved_other [OF cx_frameD(1) [OF f3] _ assms(1)]) auto
  have fl: "set (fs_faults w3) \<subseteq> set (fs_faults w)"
    using create_read_write_ok(1) [OF w1] create_read_write_ok(1) [OF w2] create_read_write_ok(1) [OF w3] by (auto simp: grows_def)
  note lb = load_bitfield_wp [OF a3 disk_ok_cx [OF assms(2) f3 assms(1)], unfolded partial_file_storage.select_convs]
  show "wp (io_then (\<lambda>w. case read_checksummed_and_truncate (fe_S E) (bitfield_path E cx) w of
         (Inr bitfield, w) \<Rightarrow> io_ok bitfield w
       | (Inl (Fails _), w) \<Rightarrow> reconstruct E cx i j k w
       | (Inl Panics, w) \<Rightarrow> (Inl Panics, w)) (\<lambda>bitfield. io_ok (?fs bitfield))) ?Q ?Z w3"
  proof (rule wp_call [OF lb])
    fix bf w4
    assume w4: "frame {bitfield_path E cx} w3 w4 \<and> disk_ok E cx d w4 \<and> bf_good (fe_R E) (fe_B E) d bf
      \<and> files_agree E cx d ob (have_bytes (fe_R E) d bf) M (?fs (bf_empty (fe_R E))) w4
      \<and> (\<forall>b. fs_faults w3 = [] \<longrightarrow> saved_bitfield E cx w3 = Some b \<longrightarrow> bf = b)"
    have "frame (cx_paths E cx) w w3" using cx_frameD(1) [OF f3] by (rule frame_mono) blast
    moreover have "frame (cx_paths E cx) w3 w4" using conjunct1 [OF w4] by (rule frame_mono) blast
    ultimately have "frame (cx_paths E cx) w w4" by (rule frame_trans)
    moreover have "storage_inv E cx d ob M w4 (PartialFile (?fs bf))"
      using w4 by (simp add: files_agree_def linked_def)
    ultimately show "wp (io_ok (?fs bf)) ?Q ?Z w4" using w4 s3 fl by (intro wp_ok) auto
  qed simp
qed

end

end
