(* ===== verification/Fs_Spec.thy ===== *)
theory Fs_Spec
  imports Fs_Store Bao_Load Meta_Spec
begin

text \<open>
  The file store on one blob, on top of its storage and the metadata database: the invariant that
  ties the storage behind the handle, the files and the entry of the database together, and the
  operations that keep it.
\<close>

section \<open>The database as a map of entries\<close>

definition merged :: "bytes entry_state option \<Rightarrow> bytes entry_state \<Rightarrow> actor_error + bytes entry_state" where
  "merged old e = (case old of None \<Rightarrow> Inr e | Some old \<Rightarrow> merge_entry old e)"

locale entry_db =
  fixes DB :: "'d db_ops" and okd :: "'d \<Rightarrow> bool" and view :: "'d \<Rightarrow> hash \<Rightarrow> bytes entry_state option"
  assumes get: "okd s \<Longrightarrow> dbo_get DB h s = (Inr (view s h), s)"
    and set_view: "okd s \<Longrightarrow> \<exists>s'. dbo_set DB h e s = (Inr (), s') \<and> okd s' \<and> view s' = (view s)(h \<mapsto> e)"
    and update_view: "okd s \<Longrightarrow> merged (view s h) e = Inr m \<Longrightarrow>
      \<exists>s'. dbo_update DB h e s = (Inr (), s') \<and> okd s' \<and> view s' = (view s)(h \<mapsto> m)"
    and update_await_view: "okd s \<Longrightarrow> merged (view s h) e = Inr m \<Longrightarrow>
      \<exists>s'. dbo_update_await DB h e s = (Inr (), s') \<and> okd s' \<and> view s' = (view s)(h \<mapsto> m)"

section \<open>The invariant of an entry\<close>

text \<open>What files and database hold of a blob, also when no handle is open.\<close>

definition stored :: "('r, 'd) fs_env \<Rightarrow> ('d \<Rightarrow> bool) \<Rightarrow> ('d \<Rightarrow> hash \<Rightarrow> bytes entry_state option) \<Rightarrow> fs_ctx \<Rightarrow>
    bytes \<Rightarrow> bytes \<Rightarrow> nat set \<Rightarrow> 'd fs_world \<Rightarrow> bool" where
  "stored E okd view cx d ob M w \<longleftrightarrow> fs_wf w \<and> okd (fw_db w) \<and> disk_ok E cx d w
     \<and> (case view (fw_db w) (cx_id cx) of
          None \<Rightarrow> M = {}
        | Some e \<Rightarrow> located E cx d ob M w e \<and> (entry_is_partial e \<longrightarrow> outboard_disk E cx ob M w))"

text \<open>The storage behind the handle and the entry of the database go together.\<close>

fun matches :: "bytes entry_state option \<Rightarrow> 'r bao_storage \<Rightarrow> bool" where
  "matches e NonExisting \<longleftrightarrow> e = None"
| "matches e (PartialFile fs) \<longleftrightarrow> (\<exists>sz. e = Some (PartialEntry sz))"
| "matches e (CompleteBao cs) \<longleftrightarrow> (\<exists>dl ol. e = Some (CompleteEntry dl ol))"
| "matches e Initial \<longleftrightarrow> True"
| "matches e Poisoned \<longleftrightarrow> True"
| "matches e st \<longleftrightarrow> False"

definition entity_inv :: "('r, 'd) fs_env \<Rightarrow> ('d \<Rightarrow> bool) \<Rightarrow> ('d \<Rightarrow> hash \<Rightarrow> bytes entry_state option) \<Rightarrow> fs_ctx \<Rightarrow>
    bytes \<Rightarrow> bytes \<Rightarrow> nat set \<Rightarrow> 'r bao_storage \<Rightarrow> 'd fs_world \<Rightarrow> bool" where
  "entity_inv E okd view cx d ob M st w \<longleftrightarrow> stored E okd view cx d ob M w \<and> storage_inv E cx d ob M w st
     \<and> matches (view (fw_db w) (cx_id cx)) st"

lemma stored_weaken:
  assumes "stored E okd view cx d ob M w"
  shows "stored E okd view cx d ob {} w"
proof -
  have "located E cx d ob {} w e" if "located E cx d ob M w e" for e
  proof (cases e)
    case (CompleteEntry dl ol)
    then show ?thesis using that by (cases ol) auto
  qed (use that in simp)
  then show ?thesis using assms by (auto simp: stored_def outboard_disk_def split: option.splits)
qed

text \<open>The world apart from the database and the marks for deletion.\<close>

abbreviation (input) with_db :: "'d fs_world \<Rightarrow> 'd \<Rightarrow> 'd fs_world" where
  "with_db w s \<equiv> w\<lparr>fw_db := s\<rparr>"

lemma with_db_simps [simp]:
  "fs_wf (with_db w s) = fs_wf w" "saved_bitfield E cx (with_db w s) = saved_bitfield E cx w"
  "disk_ok E cx d (with_db w s) = disk_ok E cx d w"
  "outboard_disk E cx ob M (with_db w s) = outboard_disk E cx ob M w"
  "files_agree E cx d ob D M fs (with_db w s) = files_agree E cx d ob D M fs w"
  by (simp_all add: fs_wf_def saved_bitfield_def disk_ok_def outboard_disk_def files_agree_def linked_def split: option.split)

lemma at_db [simp]:
  "data_at E cx d (with_db w s) dl = data_at E cx d w dl" "outboard_at E cx ob M (with_db w s) ol = outboard_at E cx ob M w ol"
  "located E cx d ob M (with_db w s) e = located E cx d ob M w e"
proof -
  show data: "data_at E cx d (with_db w s) dl = data_at E cx d w dl" for dl by (cases dl) simp_all
  show ob: "outboard_at E cx ob M (with_db w s) ol = outboard_at E cx ob M w ol" for ol by (cases ol) simp_all
  show "located E cx d ob M (with_db w s) e = located E cx d ob M w e" by (cases e) (simp_all only: located.simps data ob)
qed

lemma complete_inv_db [simp]: "complete_inv d ob M cs (with_db w s) = complete_inv d ob M cs w"
proof -
  have "data_part_is d (with_db w s) p = data_part_is d w p" for p
    by (cases "(d, w, p)" rule: data_part_is.cases) simp_all
  moreover have "outboard_part_is ob M (with_db w s) q = outboard_part_is ob M w q" for q by (cases q) simp_all
  ultimately show ?thesis by (simp add: complete_inv_def)
qed

lemma storage_inv_db [simp]: "storage_inv E cx d ob M (with_db w s) st = storage_inv E cx d ob M w st"
  by (cases st) simp_all

section \<open>Operations keep the invariant\<close>

locale file_store = blob E cx d ob + entry_db "fe_db E" okd view
  for E :: "('r, 'd) fs_env" and cx d ob okd and view :: "'d \<Rightarrow> hash \<Rightarrow> bytes entry_state option" +
  assumes not_empty: "cx_id cx \<noteq> hash_empty"
begin

abbreviation inv :: "nat set \<Rightarrow> 'r bao_storage \<Rightarrow> 'd fs_world \<Rightarrow> bool" where
  "inv \<equiv> entity_inv E okd view cx d ob"

abbreviation kept_on_disk :: "nat set \<Rightarrow> 'd fs_world \<Rightarrow> bool" where
  "kept_on_disk \<equiv> stored E okd view cx d ob"

lemma stored_disk: "kept_on_disk M w \<Longrightarrow> fs_wf w" "kept_on_disk M w \<Longrightarrow> okd (fw_db w)" "kept_on_disk M w \<Longrightarrow> disk_ok E cx d w"
  by (simp_all add: stored_def)

text \<open>A change of the files of the entry keeps what is stored, as long as the entry is not complete.\<close>

lemma stored_partial:
  assumes "kept_on_disk M w" "frame P w w'" "disk_ok E cx d w'"
    "\<And>dl ol. view (fw_db w) (cx_id cx) \<noteq> Some (CompleteEntry dl ol)"
  shows "kept_on_disk {} w'"
proof -
  have "fw_db w' = fw_db w" "fs_wf w'" using frameD [OF assms(2)] assms(1) by (auto simp: stored_def)
  moreover have "located E cx d ob {} w' e" if "view (fw_db w) (cx_id cx) = Some e" for e
    using assms(1,4) that by (cases e) (auto simp: stored_def)
  ultimately show ?thesis using assms(1,3) by (auto simp: stored_def outboard_disk_def split: option.splits)
qed

lemma cx_load_complete:
  assumes "kept_on_disk M w" "view (fw_db w) (cx_id cx) = Some (CompleteEntry dl ol)"
  shows "\<exists>st w'. cx_load E cx Initial w = (Inr (), st, w') \<and> only_files {} w w'
    \<and> ((\<exists>cs. st = CompleteBao cs \<and> inv M st w') \<or> (st = Poisoned \<and> fs_faults w \<noteq> [] \<and> kept_on_disk M w'))"
proof -
  have loc: "located E cx d ob M w (CompleteEntry dl ol)" using assms by (simp add: stored_def)
  have g: "db_call (dbo_get (fe_db E) (cx_id cx)) w = (Inr (Some (CompleteEntry dl ol)), w)"
    using get [OF stored_disk(2) [OF assms(1)]] assms(2) by (simp add: db_call_def)
  have st: "kept_on_disk M w'" if "only_files {} w w'" for w'
  proof -
    have "located E cx d ob M w' (CompleteEntry dl ol)" using loc by (simp only: located_same [OF that])
    with assms disk_ok_cx [OF _ cx_same [OF that], of E cx d] only_files_wf [OF that] world_more [OF only_filesD(3) [OF that]]
    show ?thesis by (simp add: stored_def)
  qed
  from bao_open_complete_wp [OF loc] show ?thesis
  proof (cases rule: wpE)
    case (ok x w')
    then obtain cs where "x = CompleteBao cs" "complete_inv d ob M cs w'" and o: "only_files {} w w'" by blast
    with ok(1) g st [OF o] assms(2) world_more [OF only_filesD(3) [OF o]] not_empty show ?thesis
      by (auto simp: cx_load_def entity_inv_def)
  next
    case (fault e w')
    with g st [of w'] not_empty show ?thesis by (auto simp: cx_load_def)
  qed
qed

end

text \<open>What an operation on one blob leaves alone: files under other names and entries of other hashes.\<close>

definition others_kept :: "('r, 'd) fs_env \<Rightarrow> ('d \<Rightarrow> hash \<Rightarrow> bytes entry_state option) \<Rightarrow> fs_ctx \<Rightarrow> 'd fs_world \<Rightarrow> 'd fs_world \<Rightarrow> bool" where
  "others_kept E view cx w w' \<longleftrightarrow>
     (\<forall>p i. p \<notin> cx_paths E cx \<longrightarrow> fs_names w p = Some i \<longrightarrow> fs_names w' p = Some i \<and> fs_content w' i = fs_content w i)
     \<and> (\<forall>h. h \<noteq> cx_id cx \<longrightarrow> view (fw_db w') h = view (fw_db w) h)"

lemma others_kept_refl [simp]: "others_kept E view cx w w"
  by (simp add: others_kept_def)

lemma others_kept_trans: "others_kept E view cx u v \<Longrightarrow> others_kept E view cx v w \<Longrightarrow> others_kept E view cx u w"
  by (fastforce simp: others_kept_def)

lemma frame_others: "frame P w w' \<Longrightarrow> P \<subseteq> cx_paths E cx \<Longrightarrow> fs_wf w \<Longrightarrow> others_kept E view cx w w'"
  using frame_other [of P w w'] frameD(2) [of P w w'] unfolding others_kept_def by (metis subsetD)

lemma with_db_others: "(\<And>h. h \<noteq> cx_id cx \<Longrightarrow> view s h = view (fw_db w) h) \<Longrightarrow> others_kept E view cx w (with_db w s)"
  by (simp add: others_kept_def)

text \<open>
  The outcome of an operation on one blob: the result \<open>r0\<close> and the invariant, or a failure that a
  fault caused, after which the handle is poisoned and files and database are as loading needs
  them.
\<close>

definition fs_outcome :: "('r, 'd) fs_env \<Rightarrow> ('d \<Rightarrow> bool) \<Rightarrow> ('d \<Rightarrow> hash \<Rightarrow> bytes entry_state option) \<Rightarrow> fs_ctx \<Rightarrow> bytes \<Rightarrow> bytes
    \<Rightarrow> nat set \<Rightarrow> ('r bao_storage \<Rightarrow> bool) \<Rightarrow> failure + unit \<Rightarrow> 'd fs_world \<Rightarrow> (failure + unit) \<times> 'r bao_storage \<times> 'd fs_world \<Rightarrow> bool" where
  "fs_outcome E okd view cx d ob M P r0 w x \<longleftrightarrow> (case x of (r, st', w') \<Rightarrow>
     others_kept E view cx w w' \<and> set (fs_faults w') \<subseteq> set (fs_faults w)
     \<and> ((r = r0 \<and> (\<exists>M'. M \<subseteq> M' \<and> entity_inv E okd view cx d ob M' st' w') \<and> P st') \<or>
        (r \<noteq> Inl Panics \<and> fs_faults w \<noteq> [] \<and> st' = Poisoned \<and> stored E okd view cx d ob {} w')))"

lemma fs_outcomeI:
  "others_kept E view cx w w' \<Longrightarrow> set (fs_faults w') \<subseteq> set (fs_faults w) \<Longrightarrow> entity_inv E okd view cx d ob M st' w' \<Longrightarrow> P st' \<Longrightarrow>
    fs_outcome E okd view cx d ob M P r w (r, st', w')"
  by (auto simp: fs_outcome_def)

lemma fs_outcome_mono:
  assumes "fs_outcome E okd view cx d ob M P r w x" "\<And>st. P st \<Longrightarrow> Q st" "M' \<subseteq> M"
  shows "fs_outcome E okd view cx d ob M' Q r w x"
  using assms unfolding fs_outcome_def by (simp only: split_def) (meson order_trans)

lemma fs_outcome_then:
  assumes "fs_outcome E okd view cx d ob M P1 (Inr ()) w (m st w)"
    "\<And>M' st1 w1. M \<subseteq> M' \<Longrightarrow> entity_inv E okd view cx d ob M' st1 w1 \<Longrightarrow> P1 st1 \<Longrightarrow> set (fs_faults w1) \<subseteq> set (fs_faults w) \<Longrightarrow>
      fs_outcome E okd view cx d ob M' P2 r0 w1 (k () st1 w1)"
    "\<And>w1. \<exists>r. k () Poisoned w1 = (r, Poisoned, w1) \<and> r \<noteq> Inl Panics"
  shows "fs_outcome E okd view cx d ob M P2 r0 w (cx_then m k st w)"
proof -
  obtain r st1 w1 where m: "m st w = (r, st1, w1)" by (cases "m st w") auto
  have o: "others_kept E view cx w w1" and f: "set (fs_faults w1) \<subseteq> set (fs_faults w)"
    using assms(1) m by (simp_all add: fs_outcome_def)
  consider (good) M' where "r = Inr ()" "M \<subseteq> M'" "entity_inv E okd view cx d ob M' st1 w1" "P1 st1"
    | (bad) "r \<noteq> Inl Panics" "fs_faults w \<noteq> []" "st1 = Poisoned" "stored E okd view cx d ob {} w1"
    using assms(1) m unfolding fs_outcome_def by auto
  then show ?thesis
  proof cases
    case good
    have "fs_outcome E okd view cx d ob M P2 r0 w1 (k () st1 w1)"
      using fs_outcome_mono [OF assms(2) [OF good(2,3,4) f] _ good(2)] by simp
    then show ?thesis using m good(1) f others_kept_trans [OF o] by (auto simp: cx_then_def fs_outcome_def)
  next
    case bad
    show ?thesis
    proof (cases r)
      case (Inl e)
      then show ?thesis using m bad o f by (simp add: cx_then_def fs_outcome_def)
    next
      case (Inr u)
      with assms(3) [of w1] show ?thesis using m bad o f by (auto simp: cx_then_def fs_outcome_def)
    qed
  qed
qed

fun usable :: "'r bao_storage \<Rightarrow> bool" where
  "usable (CompleteBao cs) \<longleftrightarrow> True"
| "usable st \<longleftrightarrow> writable st"

text \<open>Storage that can be used and is marked complete exactly if it has all bytes.\<close>

definition settled :: "('r, 'd) fs_env \<Rightarrow> bytes \<Rightarrow> 'r bao_storage \<Rightarrow> bool" where
  "settled E d st \<longleftrightarrow> usable st \<and> ((\<exists>cs. st = CompleteBao cs) \<longleftrightarrow> storage_have E d st = {..<length d})"

context store_laws
begin

lemma good_incomplete:
  assumes "bf_good R B d b" "\<not> is_complete R B b" "d \<noteq> []" "length d < 2 ^ 64"
  shows "have_bytes R d b \<noteq> {..<length d}"
  using assms complete_iff_have [of b d] empty_state(4) [of b d] by (auto simp: bf_good_def lessThan_empty_iff)

lemma good_complete:
  assumes "bf_good R B d b" "is_complete R B b" "d \<noteq> []" "length d < 2 ^ 64"
  shows "bf_size b = of_nat (length d)" "have_bytes R d b = {..<length d}"
proof -
  show "bf_size b = of_nat (length d)" using assms(1,2) empty_state(1) [of b] by (auto simp: bf_good_def)
  then show "have_bytes R d b = {..<length d}" using complete_iff_have [OF _ assms(3,4)] assms(2) by blast
qed

end

context file_store
begin

abbreviation outcome :: "nat set \<Rightarrow> ('r bao_storage \<Rightarrow> bool) \<Rightarrow> 'd fs_world \<Rightarrow> (failure + unit) \<times> 'r bao_storage \<times> 'd fs_world \<Rightarrow> bool" where
  "outcome M P \<equiv> fs_outcome E okd view cx d ob M P (Inr ())"

lemma outboard_disk_linked: "files_agree E cx d ob D M fs w \<Longrightarrow> outboard_disk E cx ob M w"
  by (simp add: files_agree_def linked_def outboard_disk_def)

lemma cx_load_partial:
  assumes "kept_on_disk M w" "view (fw_db w) (cx_id cx) = Some (PartialEntry sz)"
  shows "outcome M (settled E d) w (cx_load E cx Initial w)"
    "fs_faults w = [] \<Longrightarrow> saved_bitfield E cx w = Some b \<Longrightarrow>
      \<exists>st w'. cx_load E cx Initial w = (Inr (), st, w') \<and> storage_have E d st = have_bytes (fe_R E) d b"
proof -
  have g: "db_call (dbo_get (fe_db E) (cx_id cx)) w = (Inr (Some (PartialEntry sz)), w)"
    using get [OF stored_disk(2) [OF assms(1)]] assms(2) by (simp add: db_call_def)
  have od: "outboard_disk E cx ob M w" and sz: "sz = None \<or> sz = Some (of_nat (length d))"
    using assms by (simp_all add: stored_def)
  note disk = stored_disk [OF assms(1)]
  have oth: "others_kept E view cx w w'" if "frame (cx_paths E cx) w w'" for w' using frame_others [OF that order_refl disk(1)] .
  have bad: "kept_on_disk {} w'" if "frame (cx_paths E cx) w w'" "disk_ok E cx d w'" for w'
    using stored_partial [OF assms(1) that] assms(2) by simp
  have "outcome M (settled E d) w (cx_load E cx Initial w)
    \<and> (\<forall>b. fs_faults w = [] \<longrightarrow> saved_bitfield E cx w = Some b \<longrightarrow>
      (\<exists>st w'. cx_load E cx Initial w = (Inr (), st, w') \<and> storage_have E d st = have_bytes (fe_R E) d b))"
    using pf_load_wp [OF disk(1,3) od]
  proof (cases rule: wpE)
    case (fault e w')
    then show ?thesis using g oth bad not_empty
      by (auto simp: cx_load_def bao_open_def new_partial_file_def io_then_def fs_outcome_def)
  next
    case (ok fs w1)
    have f1: "frame (cx_paths E cx) w w1" and ok1: "disk_ok E cx d w1" and inv1: "storage_inv E cx d ob M w1 (PartialFile fs)"
      and b1: "\<And>b. fs_faults w = [] \<Longrightarrow> saved_bitfield E cx w = Some b \<Longrightarrow> pf_bitfield fs = b" using ok(2) by blast+
    have db1: "fw_db w1 = fw_db w" and wf1: "fs_wf w1" using frameD [OF f1] disk(1) by blast+
    show ?thesis
    proof (cases "is_complete (fe_R E) (fe_B E) (pf_bitfield fs)")
      case False
      have "kept_on_disk M w1"
        using assms(2) sz disk(2) db1 wf1 ok1 inv1 outboard_disk_linked by (auto simp: stored_def)
      moreover have "settled E d (PartialFile fs)"
        using good_incomplete [OF _ False d_nonempty d_size] inv1 by (simp add: settled_def)
      ultimately show ?thesis using False ok(1,3) g not_empty inv1 b1 db1 assms(2) oth [OF f1]
        by (auto simp: cx_load_def bao_open_def new_partial_file_def io_then_def fs_outcome_def entity_inv_def)
    next
      case True
      have good: "bf_good (fe_R E) (fe_B E) d (pf_bitfield fs)" using inv1 by simp
      note gc = good_complete [OF good True d_nonempty d_size]
      have "files_agree E cx d ob {..<length d} M fs w1" using inv1 gc(2) by simp
      from pf_into_complete_wp [OF this d_size ob_length] show ?thesis
      proof (cases rule: wpE)
        case (fault e w')
        have o: "only_files {} w1 w'" using fault(2) .
        have "fs_faults w \<noteq> []" "set (fs_faults w') \<subseteq> set (fs_faults w)" using fault(3,4) ok(3) by auto
        then show ?thesis
          using True fault(1) ok(1) gc(1) g not_empty oth [OF frame_trans [OF f1 frame_same [OF o]]]
            bad [OF frame_trans [OF f1 frame_same [OF o]] disk_ok_cx [OF ok1 cx_same [OF o] wf1]]
          by (auto simp: cx_load_def bao_open_def new_partial_file_def io_then_def fs_outcome_def)
      next
        case okc: (ok x w2)
        obtain cs e where x: "x = (cs, e)" by (cases x)
        have o: "only_files {} w1 w2" and ci: "complete_inv d ob M cs w2" and loc: "located E cx d ob M w2 e" "entry_is_complete e"
          using okc(2) x by auto
        have db2: "fw_db w2 = fw_db w" using world_more [OF only_filesD(3) [OF o]] db1 by simp
        obtain s' where s': "dbo_set (fe_db E) (cx_id cx) e (fw_db w2) = (Inr (), s')" "okd s'"
          "view s' = (view (fw_db w))(cx_id cx \<mapsto> e)" using set_view disk(2) db2 by metis
        have "kept_on_disk M (with_db w2 s')"
          using s' loc only_files_wf [OF o] wf1 disk_ok_cx [OF ok1 cx_same [OF o] wf1]
          by (cases e) (auto simp: stored_def)
        moreover have "others_kept E view cx w (with_db w2 s')"
          using others_kept_trans [OF oth [OF frame_trans [OF f1 frame_same [OF o]]] with_db_others [of cx view s' w2]] s'(3) db2 by simp
        moreover obtain dl ol where "e = CompleteEntry dl ol" using loc(2) by (cases e) auto
        ultimately show ?thesis
          using True x okc(1,3) ok(1,3) gc g not_empty s'(1,3) ci b1 
          by (auto simp: cx_load_def bao_open_def new_partial_file_def io_then_def db_call_def fs_outcome_def entity_inv_def settled_def)
      qed
    qed
  qed
  then show "outcome M (settled E d) w (cx_load E cx Initial w)"
    "fs_faults w = [] \<Longrightarrow> saved_bitfield E cx w = Some b \<Longrightarrow>
      \<exists>st w'. cx_load E cx Initial w = (Inr (), st, w') \<and> storage_have E d st = have_bytes (fe_R E) d b" by blast+
qed

end

lemma pf_updated_always:
  "pf_updated E cx True u fs w = (Inr (st, update), w') \<Longrightarrow> update \<noteq> None"
  by (auto simp: pf_updated_def io_then_Inr Let_def split_def split: option.splits if_splits)

lemma pm_write_batch_update:
  "pm_write_batch E cx batch u ms w = (Inr (st, update), w') \<Longrightarrow> update \<noteq> None"
  by (auto simp: pm_write_batch_def io_then_Inr Let_def split_def dest: pf_updated_always split: option.splits if_splits)

lemma bao_write_batch_update:
  "bao_write_batch E cx batch u st w = (Inr (st', None), w') \<Longrightarrow> writable st \<Longrightarrow> \<exists>fs. st = PartialFile fs"
  by (cases st) (auto dest: pm_write_batch_update)

context file_store
begin

lemma cx_load_outcome:
  assumes "kept_on_disk M w"
  shows "outcome M (settled E d) w (cx_load E cx Initial w)"
proof (cases "view (fw_db w) (cx_id cx)")
  case None
  then have g: "db_call (dbo_get (fe_db E) (cx_id cx)) w = (Inr None, w)"
    using get [OF stored_disk(2) [OF assms]] by (simp add: db_call_def)
  have "inv M NonExisting w" using assms None by (simp add: entity_inv_def stored_def)
  moreover have "settled E d NonExisting" using lessThan_empty_iff d_nonempty by (auto simp: settled_def)
  ultimately show ?thesis using g not_empty by (simp add: cx_load_def bao_open_def fs_outcomeI)
next
  case (Some e)
  show ?thesis
  proof (cases e)
    case (CompleteEntry dl ol)
    from cx_load_complete [OF assms Some [unfolded CompleteEntry]] obtain st w' where
      l: "cx_load E cx Initial w = (Inr (), st, w')" "only_files {} w w'"
        "(\<exists>cs. st = CompleteBao cs \<and> inv M st w') \<or> (st = Poisoned \<and> fs_faults w \<noteq> [] \<and> kept_on_disk M w')" by blast
    have "others_kept E view cx w w'" using frame_others [OF frame_same [OF l(2), of "{}"]] stored_disk(1) [OF assms] by simp
    moreover have "settled E d (CompleteBao cs)" for cs by (simp add: settled_def)
    ultimately show ?thesis using l only_filesD(5) [OF l(2)] stored_weaken by (auto simp: fs_outcome_def)
  next
    case (PartialEntry sz)
    from cx_load_partial(1) [OF assms Some [unfolded PartialEntry]] show ?thesis by (auto simp: fs_outcome_def)
  qed
qed

text \<open>An update of the database after a batch.\<close>

lemma merged_located:
  assumes "kept_on_disk M w" "matches (view (fw_db w) (cx_id cx)) st" "writable st" "located E cx d ob M' w' e"
  shows "\<exists>m. merged (view (fw_db w) (cx_id cx)) e = Inr m \<and> located E cx d ob M' w' m \<and> entry_is_complete m = entry_is_complete e"
proof (cases "view (fw_db w) (cx_id cx)")
  case None
  then show ?thesis using assms(4) by (simp add: merged_def)
next
  case (Some old)
  then obtain sz where sz: "old = PartialEntry sz" using assms(2,3) by (cases st) auto
  then have old: "sz = None \<or> sz = Some (of_nat (length d))" using assms(1) Some by (simp add: stored_def)
  show ?thesis
  proof (cases e)
    case (CompleteEntry dl ol)
    then show ?thesis using assms(4) Some sz by (simp add: merged_def)
  next
    case (PartialEntry sz')
    then have "sz' = None \<or> sz' = Some (of_nat (length d))" using assms(4) by simp
    with old show ?thesis using Some sz PartialEntry by (auto simp: merged_def)
  qed
qed

lemma stored_update:
  assumes "okd s" "view s (cx_id cx) = Some m" "fs_wf w" "disk_ok E cx d w" "located E cx d ob M w m"
    "storage_inv E cx d ob M w st" "entry_is_partial m \<Longrightarrow> \<exists>fs. st = PartialFile fs"
  shows "kept_on_disk M (with_db w s)"
proof -
  have "outboard_disk E cx ob M w" if p: "entry_is_partial m"
  proof -
    from assms(7) [OF p] obtain fs where "st = PartialFile fs" by blast
    then show ?thesis using assms(6) outboard_disk_linked by auto
  qed
  then show ?thesis using assms(1-5) by (simp add: stored_def)
qed

lemma cx_write_batch_outcome:
  assumes "inv M st w" "writable st" "batch_ok E d ob batch u" "no_short w"
  shows "outcome (M \<union> outboard_spans (fe_Io E) (of_nat (length d)) batch)
    (\<lambda>st'. settled E d st' \<and> storage_have E d st' = storage_have E d st \<union> have_bytes (fe_R E) d u) w (cx_write_batch E cx batch u st w)"
    (is "outcome ?M ?P w _")
proof -
  have kd: "kept_on_disk M w" and si: "storage_inv E cx d ob M w st" and mt: "matches (view (fw_db w) (cx_id cx)) st"
    using assms(1) by (simp_all add: entity_inv_def)
  note disk = stored_disk [OF kd]
  have oth: "others_kept E view cx w w'" if "cx_frame E cx d w w'" for w'
    by (rule frame_others [OF cx_frameD(1) [OF that] _ disk(1)]) auto
  let ?H = "storage_have E d st \<union> have_bytes (fe_R E) d u"
  from bao_write_batch_wp [OF si assms(2,3) disk(1) assms(4)] show ?thesis
  proof (cases rule: wpE)
    case (fault e w')
    have "\<And>dl ol. view (fw_db w) (cx_id cx) \<noteq> Some (CompleteEntry dl ol)" using mt assms(2) by (cases st) auto
    then have "kept_on_disk {} w'"
      by (rule stored_partial [OF kd cx_frameD(1) [OF fault(2)] disk_ok_cx [OF disk(3) fault(2) disk(1)]])
    then show ?thesis using fault oth by (simp add: cx_write_batch_def fs_outcome_def)
  next
    case (ok x w1)
    obtain st1 upd where x: "x = (st1, upd)" by (cases x)
    have f1: "cx_frame E cx d w w1" and bd: "batch_done E cx d ob ?M ?H (st1, upd) w1" using ok(2) x by simp_all
    have db1: "fw_db w1 = fw_db w" and wf1: "fs_wf w1" and ok1: "disk_ok E cx d w1"
      using frameD(2) [OF cx_frameD(1) [OF f1]] cx_frameD(2) [OF f1 disk(1)] disk_ok_cx [OF disk(3) f1 disk(1)] by simp_all
    have si1: "storage_inv E cx d ob ?M w1 st1" and h1: "storage_have E d st1 = ?H" using bd by (simp_all add: batch_done_def)
    have c1: "if ?H = {..<length d} then \<exists>cs. st1 = CompleteBao cs else \<exists>fs. st1 = PartialFile fs"
      using bd unfolding batch_done_def by simp
    then have p1: "?P st1" using h1 by (cases "?H = {..<length d}") (simp_all add: settled_def, (erule exE, simp)+)
    show ?thesis
    proof (cases upd)
      case None
      then obtain fs where st: "st = PartialFile fs" using bao_write_batch_update ok(1) x assms(2) by blast
      then obtain sz where v: "view (fw_db w) (cx_id cx) = Some (PartialEntry sz)" using mt by auto
      obtain fs1 where st1: "st1 = PartialFile fs1" using bd None by (auto simp: batch_done_def split: if_splits)
      have "located E cx d ob ?M w1 (PartialEntry sz)" using kd v by (simp add: stored_def)
      then have "kept_on_disk ?M (with_db w1 (fw_db w1))"
        using disk(2) db1 v wf1 ok1 si1 st1 by (intro stored_update [where m = "PartialEntry sz" and st = st1]) simp_all
      moreover have "with_db w1 (fw_db w1) = w1" by simp
      ultimately have "kept_on_disk ?M w1" by (rule back_subst)
      then have "inv ?M st1 w1" using si1 v db1 st1 unfolding entity_inv_def by simp
      with None x ok(1,3) oth [OF f1] p1 show ?thesis by (simp add: cx_write_batch_def fs_outcomeI)
    next
      case (Some e)
      then have le: "located E cx d ob ?M w1 e" and ce: "entry_is_complete e \<longleftrightarrow> ?H = {..<length d}"
        using bd by (simp_all add: batch_done_def)
      obtain m where m: "merged (view (fw_db w) (cx_id cx)) e = Inr m" "located E cx d ob ?M w1 m"
        "entry_is_complete m = entry_is_complete e" using merged_located [OF kd mt assms(2) le] by blast
      obtain s where s: "dbo_update (fe_db E) (cx_id cx) e (fw_db w1) = (Inr (), s)" "okd s"
        "view s = (view (fw_db w))(cx_id cx \<mapsto> m)" using update_view [OF disk(2) m(1)] db1 by auto
      have part: "\<exists>fs. st1 = PartialFile fs" if "entry_is_partial m"
      proof -
        have "\<not> entry_is_complete m" using that by (cases m) simp_all
        then show ?thesis using m(3) ce c1 by simp
      qed
      have "kept_on_disk ?M (with_db w1 s)"
        using s(2,3) by (intro stored_update [OF _ _ wf1 ok1 m(2) si1 part]) simp_all
      moreover have "matches (view s (cx_id cx)) st1"
      proof (cases m)
        case (CompleteEntry dl ol)
        then have "\<exists>cs. st1 = CompleteBao cs" using m(3) ce c1 by simp
        with CompleteEntry s(3) show ?thesis by force
      next
        case (PartialEntry sz)
        then have "\<exists>fs. st1 = PartialFile fs" using part by simp
        with PartialEntry s(3) show ?thesis by force
      qed
      moreover have "others_kept E view cx w (with_db w1 s)"
        using others_kept_trans [OF oth [OF f1] with_db_others [of cx view s w1]] s(3) db1 by simp
      ultimately have "inv ?M st1 (with_db w1 s)" "others_kept E view cx w (with_db w1 s)" using si1 by (simp_all add: entity_inv_def)
      then show ?thesis using Some x ok(1,3) p1 s(1) by (simp add: cx_write_batch_def cx_io_def db_call_def fs_outcomeI)
    qed
  qed
qed

lemma cx_persist_stored:
  assumes "inv M st w"
  shows "\<exists>w'. cx_persist E cx st w = (Inr (), Poisoned, w') \<and> others_kept E view cx w w' \<and> kept_on_disk M w' \<and> fw_db w' = fw_db w
    \<and> (\<forall>fs. st = PartialFile fs \<longrightarrow> fs_faults w = [] \<longrightarrow> fs_faults w' = [] \<and> saved_bitfield E cx w' = Some (pf_bitfield fs))"
proof (cases "\<exists>fs. st = PartialFile fs")
  case False
  then show ?thesis using assms by (cases st) (auto simp: cx_persist_def entity_inv_def)
next
  case True
  then obtain fs where st: "st = PartialFile fs" by blast
  have kd: "kept_on_disk M w" and si: "storage_inv E cx d ob M w st" and mt: "matches (view (fw_db w) (cx_id cx)) st"
    using assms by (simp_all add: entity_inv_def)
  note disk = stored_disk [OF kd]
  have a: "files_agree E cx d ob (have_bytes (fe_R E) d (pf_bitfield fs)) M fs w"
    and good: "bf_good (fe_R E) (fe_B E) d (pf_bitfield fs)" using si st by simp_all
  obtain sz where v: "view (fw_db w) (cx_id cx) = Some (PartialEntry sz)" using mt st by auto
  have keep: "others_kept E view cx w w' \<and> kept_on_disk M w' \<and> fw_db w' = fw_db w" if "frame {bitfield_path E cx} w w'" "disk_ok E cx d w'" for w'
  proof -
    have "outboard_disk E cx ob M w'" using outboard_disk_linked files_agree_other [OF a that(1)] by blast
    moreover have "located E cx d ob M w' (PartialEntry sz)" using kd v by (simp add: stored_def)
    ultimately have "kept_on_disk M w'"
      using v disk(2) frameD(1,2) [OF that(1)] disk(1) that(2) by (simp add: stored_def)
    moreover have "others_kept E view cx w w'" by (rule frame_others [OF that(1) _ disk(1)]) simp
    ultimately show ?thesis using frameD(2) [OF that(1)] by simp
  qed
  from pf_sync_all_wp [OF good disk(3) a] show ?thesis
  proof (cases rule: wpE)
    case (ok x w')
    then show ?thesis using keep [of w'] st by (auto simp: cx_persist_def)
  next
    case (fault e w')
    then show ?thesis using keep [of w'] st by (auto simp: cx_persist_def)
  qed
qed

end

section \<open>Import of verified items\<close>

lemma cx_write_batch_unusable:
  "\<not> writable st \<Longrightarrow> cx_write_batch E cx batch u st w = (Inr (), st, w)"
  by (cases st) (simp_all add: cx_write_batch_def)

context store_laws
begin

lemma have_leaf:
  assumes "leaf_of d off data" "length d < 2 ^ 64"
  shows "have_bytes R d (bf_new_unchecked (rs_union R ranges (chunk_range R B off data)) sz)
    = have_bytes R d (bf_new_unchecked ranges sz) \<union> span (unat off) data"
proof -
  have "span (unat off) data \<subseteq> {..<length d}" using assms(1) by (auto simp: leaf_of_def)
  then show ?thesis
    by (auto simp: have_bytes_def bf_new_unchecked_def contains_union chunk_range_leaf [OF assms])
qed

lemma have_none [simp]: "have_bytes R d (bf_new_unchecked (rs_empty R) sz) = {}"
  by (simp add: have_bytes_def bf_new_unchecked_def contains_empty)

text \<open>The check of the size accepts the leaves of the blob.\<close>

lemma leaf_size_valid:
  assumes "leaf_of d off data" "length d < 2 ^ 64" "size_is_validated R B (of_nat (length d)) (chunk_range R B off data)"
  shows "of_nat (length d) = off + of_nat (length data)"
proof -
  let ?n = "length d" and ?l = "chunks_of B (of_nat (length d)) - 1"
  have n: "0 < ?n" using assms(1) by (auto simp: leaf_of_def)
  have u: "unat (chunks_of B (of_nat ?n)) = (?n + 1023) div 1024"
    by (simp add: unat_chunks_of unat_of_nat_u64 [OF assms(2)])
  have q: "(?n + 1023) div 1024 - 1 = (?n - 1) div 1024" using n by (cases ?n) simp_all
  have pos: "0 < (?n + 1023) div 1024" using n by (simp add: div_greater_zero_iff Suc_le_eq)
  have "unat ?l = (?n - 1) div 1024"
    using u q pos by (simp add: unat_sub_u64 word_le_nat_alt)
  then have "of_nat (unat ?l) = (of_nat ((?n - 1) div 1024) :: u64)" by (rule arg_cong)
  then have l: "?l = of_nat ((?n - 1) div 1024)" by simp
  have "rs_contains R (chunk_range R B off data) (of_nat ((?n - 1) div 1024))"
    using assms(3) l by (simp add: size_is_validated_def)
  then have "?n - 1 < unat off + length data" using chunk_range_leaf [OF assms(1,2), of "?n - 1"] n by simp
  then have "unat off + length data = ?n" using assms(1) n by (simp add: leaf_of_def)
  then have "of_nat ?n = (of_nat (unat off + length data) :: u64)" by simp
  then show ?thesis by simp
qed

end

text \<open>
  What the items of a stream add: everything if the stream ends as it should, and nothing else in
  any case.
\<close>

definition import_adds :: "('r, 'd) fs_env \<Rightarrow> bytes \<Rightarrow> io_error option \<Rightarrow> nat set \<Rightarrow> bao_content_item list \<Rightarrow> 'r bao_storage \<Rightarrow> bool" where
  "import_adds E d rx_error H items st \<longleftrightarrow> settled E d st \<and> H \<subseteq> storage_have E d st \<and> storage_have E d st \<subseteq> H \<union> data_spans items
     \<and> (rx_error = None \<longrightarrow> storage_have E d st = H \<union> data_spans items)"

definition import_result :: "io_error option \<Rightarrow> failure + unit" where
  "import_result rx_error = (case rx_error of None \<Rightarrow> Inr () | Some e \<Rightarrow> Inl (Fails e))"

lemma import_items_poisoned:
  "\<exists>r. import_items E cx sz rx_error batch ranges items Poisoned w = (r, Poisoned, w) \<and> r \<noteq> Inl Panics"
proof (induction items arbitrary: batch ranges)
  case Nil
  then show ?case by (cases rx_error) (simp_all add: cx_write_batch_unusable cx_io_def)
next
  case (Cons item items)
  then show ?case by (cases item) (simp_all add: cx_then_def cx_write_batch_unusable cx_io_def Let_def)
qed

context file_store
begin

lemma inv_no_short: "set (fs_faults w') \<subseteq> set (fs_faults w) \<Longrightarrow> no_short w \<Longrightarrow> no_short w'"
  by (auto simp: no_short_def)

lemma cx_write_settled:
  assumes "inv M st w" "settled E d st" "batch_ok E d ob batch u" "no_short w"
  shows "outcome M (\<lambda>st'. settled E d st' \<and> storage_have E d st' = storage_have E d st \<union> have_bytes (fe_R E) d u) w
    (cx_write_batch E cx batch u st w)"
proof (cases "writable st")
  case True
  from cx_write_batch_outcome [OF assms(1) True assms(3,4)] show ?thesis by (rule fs_outcome_mono) simp_all
next
  case False
  then obtain cs where "st = CompleteBao cs" using assms(2) by (cases st) (simp_all add: settled_def)
  moreover have "have_bytes (fe_R E) d u \<subseteq> {..<length d}" by (auto simp: have_bytes_def)
  ultimately show ?thesis using assms(1,2) False by (auto simp: cx_write_batch_unusable intro!: fs_outcomeI)
qed

abbreviation fed :: "bao_content_item list \<Rightarrow> 'r \<Rightarrow> bool" where
  "fed batch ranges \<equiv> (\<forall>item\<in>set batch. item_of (fe_Io E) d ob item)
     \<and> have_bytes (fe_R E) d (bf_new_unchecked ranges (of_nat (length d))) = data_spans batch"

lemma fed_ok: "fed batch ranges \<Longrightarrow> batch_ok E d ob batch (bf_new_unchecked ranges (of_nat (length d)))"
  by (simp add: batch_ok_def bf_new_unchecked_def)

lemma fed_item:
  assumes "fed batch ranges" "item_of (fe_Io E) d ob item"
  shows "fed (batch @ [item]) (case item of Leaf off data \<Rightarrow> rs_union (fe_R E) ranges (chunk_range (fe_R E) (fe_B E) off data) | _ \<Rightarrow> ranges)"
  using assms d_size by (cases item) (simp_all add: have_leaf)

text \<open>The treatment of one item, after a batch may have been written.\<close>

lemma import_items_next:
  assumes "item_of (fe_Io E) d ob item"
  shows "import_items E cx (of_nat (length d)) rx_error batch ranges (item # items) =
    (if batch \<noteq> [] \<and> is_leaf (batch ! (length batch - 1)) \<and> \<not> is_leaf item
     then cx_then (cx_write_batch E cx batch (bf_new_unchecked ranges (of_nat (length d)))) (\<lambda>_.
       import_items E cx (of_nat (length d)) rx_error [item] (rs_empty (fe_R E)) items)
     else import_items E cx (of_nat (length d)) rx_error (batch @ [item])
       (case item of Leaf off data \<Rightarrow> rs_union (fe_R E) ranges (chunk_range (fe_R E) (fe_B E) off data) | _ \<Rightarrow> ranges) items)"
  using assms leaf_size_valid [OF _ d_size] by (cases item) (auto simp: Let_def)

lemma import_items_outcome:
  assumes "\<forall>item\<in>set items. item_of (fe_Io E) d ob item"
  shows "inv M st w \<Longrightarrow> settled E d st \<Longrightarrow> no_short w \<Longrightarrow> fed batch ranges \<Longrightarrow>
    fs_outcome E okd view cx d ob M (import_adds E d rx_error (storage_have E d st) (batch @ items)) (import_result rx_error) w
      (import_items E cx (of_nat (length d)) rx_error batch ranges items st w)"
  using assms
proof (induction items arbitrary: batch ranges st w M)
  case Nil
  note written = cx_write_settled [OF Nil.prems(1,2) fed_ok [OF Nil.prems(4)] Nil.prems(3)]
  show ?case
  proof (cases "rx_error = None \<and> batch \<noteq> []")
    case True
    have "import_items E cx (of_nat (length d)) rx_error batch ranges [] st w =
      cx_write_batch E cx batch (bf_new_unchecked ranges (of_nat (length d))) st w" using True by simp
    moreover have "outcome M (import_adds E d rx_error (storage_have E d st) batch) w
        (cx_write_batch E cx batch (bf_new_unchecked ranges (of_nat (length d))) st w)"
      using written by (rule fs_outcome_mono) (use Nil.prems(4) in \<open>simp_all add: import_adds_def\<close>)
    ultimately show ?thesis using True by (simp add: import_result_def)
  next
    case False
    then have "import_items E cx (of_nat (length d)) rx_error batch ranges [] st w = (import_result rx_error, st, w)"
      by (cases rx_error) (simp_all add: cx_io_def import_result_def)
    with False Nil.prems(1,2) show ?thesis by (auto simp: import_adds_def intro!: fs_outcomeI)
  qed
next
  case (Cons item items)
  have it: "item_of (fe_Io E) d ob item" and rest: "\<forall>item\<in>set items. item_of (fe_Io E) d ob item" using Cons.prems(5) by simp_all
  show ?case
  proof (cases "batch \<noteq> [] \<and> is_leaf (batch ! (length batch - 1)) \<and> \<not> is_leaf item")
    case False
    from Cons.IH [OF Cons.prems(1-3) fed_item [OF Cons.prems(4) it] rest] False show ?thesis
      unfolding import_items_next [OF it] if_not_P [OF False] by simp
  next
    case True
    have f: "fed [item] (rs_empty (fe_R E))" using it True fed_item [of "[]" "rs_empty (fe_R E)" item] by (cases item) simp_all
    note written = cx_write_settled [OF Cons.prems(1,2) fed_ok [OF Cons.prems(4)] Cons.prems(3)]
    show ?thesis unfolding import_items_next [OF it] if_P [OF True]
    proof (rule fs_outcome_then)
      show "outcome M (\<lambda>st'. settled E d st' \<and> storage_have E d st' = storage_have E d st
          \<union> have_bytes (fe_R E) d (bf_new_unchecked ranges (of_nat (length d)))) w
        (cx_write_batch E cx batch (bf_new_unchecked ranges (of_nat (length d))) st w)" by (rule written)
    next
      fix M' st1 w1
      assume "M \<subseteq> M'" "inv M' st1 w1" and s: "settled E d st1 \<and> storage_have E d st1 = storage_have E d st
          \<union> have_bytes (fe_R E) d (bf_new_unchecked ranges (of_nat (length d)))"
        and fl: "set (fs_faults w1) \<subseteq> set (fs_faults w)"
      from Cons.IH [OF this(2) conjunct1 [OF s] inv_no_short [OF fl Cons.prems(3)] f rest]
      show "fs_outcome E okd view cx d ob M' (import_adds E d rx_error (storage_have E d st) (batch @ item # items))
        (import_result rx_error) w1 (import_items E cx (of_nat (length d)) rx_error [item] (rs_empty (fe_R E)) items st1 w1)"
        by (rule fs_outcome_mono) (use s Cons.prems(4) in \<open>auto simp: import_adds_def\<close>)
    qed (rule import_items_poisoned)
  qed
qed

lemma import_bao_outcome:
  assumes "inv M st w" "settled E d st" "no_short w" "\<forall>item\<in>set items. item_of (fe_Io E) d ob item"
  shows "fs_outcome E okd view cx d ob M (import_adds E d rx_error (storage_have E d st) items) (import_result rx_error) w
      (import_bao_impl E cx (of_nat (length d)) rx_error items st w)"
  using import_items_outcome [OF assms(4,1-3), of "[]" "rs_empty (fe_R E)" rx_error] by (simp add: import_bao_impl_def)

text \<open>The whole operation on an entity that was just activated.\<close>

lemma fs_import_bao_outcome:
  assumes "kept_on_disk M w" "no_short w" "\<forall>item\<in>set items. item_of (fe_Io E) d ob item"
  shows "fs_outcome E okd view cx d ob M (\<lambda>st. settled E d st \<and> (rx_error = None \<longrightarrow> data_spans items \<subseteq> storage_have E d st))
    (import_result rx_error) w (fs_import_bao E cx (of_nat (length d)) rx_error items Initial w)"
  unfolding fs_import_bao_def
proof (rule fs_outcome_then)
  show "outcome M (settled E d) w (cx_load E cx Initial w)" by (rule cx_load_outcome [OF assms(1)])
next
  fix M' st1 w1
  assume "M \<subseteq> M'" "inv M' st1 w1" "settled E d st1" "set (fs_faults w1) \<subseteq> set (fs_faults w)"
  from import_bao_outcome [OF this(2,3) inv_no_short [OF this(4) assms(2)] assms(3)]
  show "fs_outcome E okd view cx d ob M' (\<lambda>st. settled E d st \<and> (rx_error = None \<longrightarrow> data_spans items \<subseteq> storage_have E d st))
    (import_result rx_error) w1 (import_bao_impl E cx (of_nat (length d)) rx_error items st1 w1)"
    by (rule fs_outcome_mono) (auto simp: import_adds_def)
next
  show "\<exists>r. import_bao_impl E cx (of_nat (length d)) rx_error items Poisoned w1 = (r, Poisoned, w1) \<and> r \<noteq> Inl Panics" for w1
    unfolding import_bao_impl_def by (rule import_items_poisoned)
qed

end

end
