(* ===== verification/Fs_Db.thy ===== *)
theory Fs_Db
  imports Fs_Spec
begin

text \<open>
  The client of the metadata actor, \<open>Db\<close> of \<open>src/src/store/fs/meta.rs\<close>, and the environment of the file
  store with it. The state is the transaction of the actor, or \<open>None\<close> once a failure has stopped it;
  commands are handled one after the other, which batching does not change.
\<close>

section \<open>The client\<close>

definition db_get :: "('b, 't, 'd) redb \<Rightarrow> hash \<Rightarrow> ('b, 't, 'd) txn option
    \<Rightarrow> (io_error + bytes entry_state option) \<times> ('b, 't, 'd) txn option" where
  "db_get D h s = (case s of
     None \<Rightarrow> (Inl OtherIo, None)
   | Some t \<Rightarrow> (case meta_get D (tn_db t) h of Inl _ \<Rightarrow> (Inl OtherIo, None) | Inr e \<Rightarrow> (Inr e, Some t)))"

definition db_set :: "('b, 't, 'd) redb \<Rightarrow> hash \<Rightarrow> bytes entry_state \<Rightarrow> ('b, 't, 'd) txn option
    \<Rightarrow> (io_error + unit) \<times> ('b, 't, 'd) txn option" where
  "db_set D h e s = (case s of
     None \<Rightarrow> (Inl OtherIo, None)
   | Some t \<Rightarrow> (case meta_set D h e t of Inl _ \<Rightarrow> (Inl OtherIo, None) | Inr t \<Rightarrow> (Inr (), Some t)))"

text \<open>\<open>update\<close> does not wait for the result: a failure stops the actor, and nobody is told.\<close>

definition db_update :: "('b, 't, 'd) redb \<Rightarrow> hash \<Rightarrow> bytes entry_state \<Rightarrow> ('b, 't, 'd) txn option
    \<Rightarrow> (io_error + unit) \<times> ('b, 't, 'd) txn option" where
  "db_update D h e s = (case s of
     None \<Rightarrow> (Inl OtherIo, None)
   | Some t \<Rightarrow> (case meta_update D h e t of Inl _ \<Rightarrow> (Inr (), None) | Inr t \<Rightarrow> (Inr (), Some t)))"

definition db_update_await :: "('b, 't, 'd) redb \<Rightarrow> hash \<Rightarrow> bytes entry_state \<Rightarrow> ('b, 't, 'd) txn option
    \<Rightarrow> (io_error + unit) \<times> ('b, 't, 'd) txn option" where
  "db_update_await D h e s = (case s of
     None \<Rightarrow> (Inl OtherIo, None)
   | Some t \<Rightarrow> (case meta_update D h e t of Inl _ \<Rightarrow> (Inl OtherIo, None) | Inr t \<Rightarrow> (Inr (), Some t)))"

definition meta_db_ops :: "('b, 't, 'd) redb \<Rightarrow> ('b, 't, 'd) txn option db_ops" where
  "meta_db_ops D = \<lparr>dbo_get = db_get D, dbo_set = db_set D, dbo_update = db_update D, dbo_update_await = db_update_await D\<rparr>"

section \<open>It is a map of entries\<close>

definition db_ok :: "(('b, 't, 'd) db \<Rightarrow> bool) \<Rightarrow> ('b, 't, 'd) txn option \<Rightarrow> bool" where
  "db_ok ok s \<longleftrightarrow> (case s of None \<Rightarrow> False | Some t \<Rightarrow> ok (tn_db t))"

definition db_view :: "(('b, 't, 'd) db \<Rightarrow> hash \<Rightarrow> bytes entry_state option) \<Rightarrow> ('b, 't, 'd) txn option \<Rightarrow> hash \<Rightarrow> bytes entry_state option" where
  "db_view view s h = (case s of None \<Rightarrow> None | Some t \<Rightarrow> view (tn_db t) h)"

lemma db_view_Some [simp]: "db_view view (Some t) = view (tn_db t)"
  by (simp add: db_view_def fun_eq_iff)

context reliable_meta
begin

lemma update_merged:
  assumes "ok (tn_db t)" "merged (view (tn_db t) h) e = Inr m"
  shows "\<exists>t'. meta_update D h e t = Inr t' \<and> ok (tn_db t') \<and> view (tn_db t') = (view (tn_db t))(h \<mapsto> m)"
proof -
  obtain t' where t': "meta_update D h e t = Inr t'"
    using update_result [OF assms(1), of h e] assms(2) by (auto simp: merged_def split: option.splits)
  with meta_update_view [OF assms(1) t'] assms(2) show ?thesis by (auto simp: merged_def split: option.splits)
qed

lemma entry_db_meta: "entry_db (meta_db_ops D) (db_ok ok) (db_view view)"
proof
  fix s h e m
  assume "db_ok ok s"
  then obtain t where t: "s = Some t" "ok (tn_db t)" by (auto simp: db_ok_def split: option.splits)
  show "dbo_get (meta_db_ops D) h s = (Inr (db_view view s h), s)"
    using t get_view by (simp add: meta_db_ops_def db_get_def)
  obtain t' where t': "meta_set D h e t = Inr t'" using set_succeeds [OF t(2)] by blast
  with meta_set_view [OF t(2) t']
  show "\<exists>s'. dbo_set (meta_db_ops D) h e s = (Inr (), s') \<and> db_ok ok s' \<and> db_view view s' = (db_view view s)(h \<mapsto> e)"
    using t by (auto simp: meta_db_ops_def db_set_def db_ok_def)
  assume "merged (db_view view s h) e = Inr m"
  from update_merged [OF t(2), of h e m] this t obtain t1 where
    "meta_update D h e t = Inr t1" "ok (tn_db t1)" "view (tn_db t1) = (view (tn_db t))(h \<mapsto> m)" by auto
  with t show "\<exists>s'. dbo_update (meta_db_ops D) h e s = (Inr (), s') \<and> db_ok ok s' \<and> db_view view s' = (db_view view s)(h \<mapsto> m)"
    and "\<exists>s'. dbo_update_await (meta_db_ops D) h e s = (Inr (), s') \<and> db_ok ok s' \<and> db_view view s' = (db_view view s)(h \<mapsto> m)"
    by (auto simp: meta_db_ops_def db_update_def db_update_await_def db_ok_def)
qed

end

interpretation refdb: entry_db "meta_db_ops ref_redb" "db_ok (meta_ok bt_ok bt_get bt_ok bt_ok bt_get)" "db_view (meta_view bt_get bt_get)"
  by (rule refm.entry_db_meta)

end
