(* ===== verification/Fs_Export.thy ===== *)
theory Fs_Export
  imports Fs_Spec
begin

text \<open>
  Export from the file store: whatever the storage has of a blob and whatever fails on the way,
  only bytes of the blob at their place are sent, and a run without an error sends exactly the
  requested ones below the size the storage shows. That is all of them unless the storage knows
  nothing of the blob, not even its size.
\<close>

section \<open>Reading data of the storage\<close>

lemma agrees_slice:
  assumes "agrees bs d {off..<off + n}" "0 < n"
  shows "off + n \<le> length bs" "off + n \<le> length d" "take n (drop off bs) = take n (drop off d)"
proof -
  have "off + n - 1 \<in> {off..<off + n}" using assms(2) by simp
  with assms(1) have "off + n - 1 < length bs" "off + n - 1 < length d" unfolding agrees_def by blast+
  then show le: "off + n \<le> length bs" "off + n \<le> length d" using assms(2) by simp_all
  show "take n (drop off bs) = take n (drop off d)"
    by (rule nth_equalityI) (use le assms(1) in \<open>auto simp: agrees_def\<close>)
qed

lemma slice_piece: "off + n \<le> length d \<Longrightarrow> piece_of d off (take n (drop off d))"
  by (auto simp: piece_of_def min_def)

lemma wp_eval: "m w = (Inr x, w') \<Longrightarrow> set (fs_faults w') \<subseteq> set (fs_faults w) \<Longrightarrow> Q x w' \<Longrightarrow> wp m Q Z w"
  by (simp add: wp_def)

fun stored_bytes :: "'d fs_world \<Rightarrow> 'r bao_storage \<Rightarrow> bytes" where
  "stored_bytes w (PartialMem ms) = sf_data (ps_data ms)"
| "stored_bytes w (PartialFile fs) = fs_content w (pf_data fs)"
| "stored_bytes w (CompleteBao cs) = part_content w (cs_data cs)"
| "stored_bytes w st = []"

context blob
begin

lemma stored_bytes_agree:
  assumes "storage_inv E cx d ob M w st"
  shows "agrees (stored_bytes w st) d (storage_have E d st)"
proof (cases st)
  case (PartialMem ms)
  then show ?thesis using assms sparse_agrees_data [OF _ d_size] by (simp add: mem_agrees_def)
next
  case (PartialFile fs)
  then show ?thesis using assms by (simp add: files_agree_def)
next
  case (CompleteBao cs)
  then have "data_part_is d w (cs_data cs)" using assms by (simp add: complete_inv_def)
  then have "take (length d) (part_content w (cs_data cs)) = d"
    by (cases "(d, w, cs_data cs)" rule: data_part_is.cases) simp_all
  then show ?thesis using CompleteBao by (auto simp: agrees_def) (metis length_take min.strict_boundedE, metis nth_take)
qed simp_all

lemma read_bytes_wp:
  assumes "storage_inv E cx d ob M w st" "n \<noteq> 0" "{unat off..<unat off + unat n} \<subseteq> storage_have E d st"
  shows "wp (read_bytes_at E st off n) (\<lambda>bs w'. only_files {} w w' \<and> bs = take (unat n) (drop (unat off) d)) (only_files {} w) w"
    "unat off + unat n \<le> length d"
proof -
  have n: "0 < unat n" using assms(2) by (simp add: unat_gt_0)
  have a: "agrees (stored_bytes w st) d {unat off..<unat off + unat n}"
    using agrees_subset [OF stored_bytes_agree [OF assms(1)] assms(3)] .
  note sl = agrees_slice [OF a n]
  show "unat off + unat n \<le> length d" by (rule sl(2))
  have r: "io_read (fe_Io E) (stored_bytes w st) off n = Inr (take (unat n) (drop (unat off) d))"
    using io_read [OF sl(1)] sl(3) by simp
  have "storage_have E d st \<noteq> {}" using assms(3) n by auto
  then show "wp (read_bytes_at E st off n) (\<lambda>bs w'. only_files {} w w' \<and> bs = take (unat n) (drop (unat off) d)) (only_files {} w) w"
    using r by (cases st) (auto simp: read_bytes_at_def Let_def split: mem_or_file.splits intro!: wp_guarded wp_ok wp_eval only_files_faults)
qed

text \<open>The range that is asked for, rounded to chunks, is there: so are its bytes.\<close>

lemma requested_have:
  assumes "rs_is_subset (fe_R E) (bytes_range (fe_R E) (fe_B E) (Included s) (Excluded e)) (bf_ranges bf)" "unat e \<le> length d"
  shows "{unat s..<unat e} \<subseteq> have_bytes (fe_R E) d bf"
  using requested_bytes [OF assms(1)] assms(2) by (auto simp: have_bytes_def)

text \<open>The inner loop ends, sends pieces of the blob, and sends all of the range unless a read fails.\<close>

lemma fs_export_loop_sends:
  assumes "storage_inv E cx d ob M w st" "off < e" "unat e \<le> length d" "{unat off..<unat e} \<subseteq> storage_have E d st"
    "length d + 1024 < 2 ^ 64"
  shows "\<exists>ls r w'. fs_export_loop E st sent off e w = Some (sent @ ls, r, w') \<and> only_files {} w w'
    \<and> (\<forall>l\<in>set ls. piece_of d (unat (fst l)) (snd l) \<and> length (snd l) \<le> 1024)
    \<and> (case r of None \<Rightarrow> concat (map snd ls) = take (unat e - unat off) (drop (unat off) d) | Some err \<Rightarrow> err \<noteq> Panics \<and> fs_faults w \<noteq> [])"
  using assms(1,2,4)
proof (induction "unat e - unat off" arbitrary: off sent w rule: less_induct)
  case less
  let ?stop = "min (off + 1024) e"
  have lt: "unat off < unat e" using less.prems(2) by (simp add: word_less_nat_alt)
  have o1: "unat (off + 1024) = unat off + 1024" using lt assms(3,5) by (simp add: unat_add_u64)
  have en: "unat ?stop = min (unat off + 1024) (unat e)" by (simp add: unat_min_u64 o1)
  have "off \<le> ?stop" using en lt by (simp add: word_le_nat_alt)
  then have n: "unat (?stop - off) = unat ?stop - unat off" by (rule unat_sub_u64)
  then have n0: "?stop - off \<noteq> 0" using en lt by (auto simp: word_unat_eq_iff)
  have sub: "{unat off..<unat off + unat (?stop - off)} \<subseteq> storage_have E d st"
    using less.prems(3) en n lt by (auto simp: min_def split: if_splits)
  let ?bs = "take (unat (?stop - off)) (drop (unat off) d)"
  note unfold = fs_export_loop.simps [of E st sent off e w, unfolded Let_def]
  from read_bytes_wp [OF less.prems(1) n0 sub] have rd:
    "wp (read_bytes_at E st off (?stop - off)) (\<lambda>bs w'. only_files {} w w' \<and> bs = ?bs) (only_files {} w) w"
    and le: "unat off + unat (?stop - off) \<le> length d" by simp_all
  have pc: "piece_of d (unat off) ?bs \<and> length ?bs \<le> 1024" using slice_piece [OF le] n en by simp
  from rd show ?case
  proof (cases rule: wpE)
    case (fault err w')
    then show ?thesis by (intro exI [of _ "[]"] exI [of _ "Some (Fails err)"] exI [of _ w']) (simp add: unfold)
  next
    case (ok bs w1)
    show ?thesis
    proof (cases "e \<le> ?stop")
      case True
      then have "unat ?stop = unat e" using en by (simp add: word_le_nat_alt)
      then show ?thesis using ok True pc n
        by (intro exI [of _ "[(off, ?bs)]"] exI [of _ None] exI [of _ w1]) (simp add: unfold)
    next
      case False
      have u: "unat ?stop = unat off + 1024" "unat off + 1024 < unat e" using False en by (auto simp: word_le_nat_alt min_def split: if_splits)
      have dec: "unat e - unat ?stop < unat e - unat off" and lt': "?stop < e"
        using u by (simp_all add: word_less_nat_alt)
      have sub': "{unat ?stop..<unat e} \<subseteq> storage_have E d st" using less.prems(3) u by auto
      from less.hyps [OF dec storage_inv_same [OF _ less.prems(1)] lt' sub', of w1 "sent @ [(off, ?bs)]"] ok(2) obtain ls r w' where
        l: "fs_export_loop E st (sent @ [(off, ?bs)]) ?stop e w1 = Some ((sent @ [(off, ?bs)]) @ ls, r, w')" "only_files {} w1 w'"
          "\<forall>l\<in>set ls. piece_of d (unat (fst l)) (snd l) \<and> length (snd l) \<le> 1024"
          "case r of None \<Rightarrow> concat (map snd ls) = take (unat e - unat ?stop) (drop (unat ?stop) d) | Some err \<Rightarrow> err \<noteq> Panics \<and> fs_faults w1 \<noteq> []"
        by blast
      have eq: "fs_export_loop E st sent off e w = Some (sent @ (off, ?bs) # ls, r, w')"
        using ok False l(1) by (simp add: unfold)
      have "unat e - unat off = 1024 + (unat e - unat ?stop)" using u by simp
      then have "?bs @ take (unat e - unat ?stop) (drop (unat ?stop) d) = take (unat e - unat off) (drop (unat off) d)"
        using u n by (simp only: take_add drop_drop add.commute) simp
      with eq l(2-4) ok(2,3) pc only_files_trans [of "{}" w w1 w'] show ?thesis
        by (intro exI [of _ "(off, ?bs) # ls"] exI [of _ r] exI [of _ w']) (auto split: option.splits)
    qed
  qed
qed

end

section \<open>Export of ranges\<close>

text \<open>The bitfield a storage shows.\<close>

fun shown :: "('r, 'd) fs_env \<Rightarrow> 'r bao_storage \<Rightarrow> 'r bitfield option" where
  "shown E (CompleteBao cs) = Some (cs_bitfield (fe_R E) cs)"
| "shown E (PartialMem ms) = Some (ps_bitfield ms)"
| "shown E (PartialFile fs) = Some (pf_bitfield fs)"
| "shown E st = None"

lemma cx_bitfield_shown:
  "shown E st = Some bf \<Longrightarrow> cx_bitfield E st w = (Inr bf, w)"
  "shown E st = None \<Longrightarrow> \<exists>e. cx_bitfield E st w = (Inl (Fails e), w)"
  by (cases st; simp)+

text \<open>
  What an export does: it ends, sends pieces of the blob after \<open>sent\<close> and changes nothing; without an
  error the pieces make up \<open>ref\<close>. With \<open>all\<close> an error comes from a fault.
\<close>

definition sends :: "bytes \<Rightarrow> 'd fs_world \<Rightarrow> bool \<Rightarrow> bytes \<Rightarrow> (u64 \<times> bytes) list \<Rightarrow> ((u64 \<times> bytes) list \<times> failure option \<times> 'd fs_world) option \<Rightarrow> bool" where
  "sends d w all ref sent x \<longleftrightarrow> (\<exists>ls r w'. x = Some (sent @ ls, r, w') \<and> only_files {} w w'
     \<and> (\<forall>l\<in>set ls. (snd l \<noteq> [] \<longrightarrow> piece_of d (unat (fst l)) (snd l)) \<and> length (snd l) \<le> 1024)
     \<and> (case r of None \<Rightarrow> concat (map snd ls) = ref | Some err \<Rightarrow> err \<noteq> Panics \<and> (all \<longrightarrow> fs_faults w \<noteq> [])))"

context blob
begin

lemma shown_have:
  assumes "storage_inv E cx d ob M w st" "shown E st = Some bf"
  shows "storage_have E d st = have_bytes (fe_R E) d bf"
  using assms by (cases st) (simp_all add: cs_bitfield_def, metis have_complete)

lemma shown_complete:
  assumes "storage_inv E cx d ob M w (CompleteBao cs)"
  shows "shown E (CompleteBao cs) = Some (bf_complete (fe_R E) (of_nat (length d)))"
proof -
  have "data_part_is d w (cs_data cs)" using assms by (simp add: complete_inv_def)
  then have "data_size (cs_data cs) = of_nat (length d)" by (cases "(d, w, cs_data cs)" rule: data_part_is.cases) simp_all
  then show ?thesis by (simp add: cs_bitfield_def cs_size_def)
qed

text \<open>The size a storage shows is the size of the blob, unless it shows nothing of the blob.\<close>

lemma shown_size:
  assumes "storage_inv E cx d ob M w st" "shown E st = Some bf"
  shows "bf_size bf = of_nat (length d) \<or> bf_ranges bf = rs_empty (fe_R E) \<and> (\<forall>cs. st \<noteq> CompleteBao cs)"
  using assms shown_complete by (cases st) (auto simp: bf_good_def bf_complete_def)

lemma requested_nonempty:
  assumes "s < (e :: u64)" "rs_is_subset (fe_R E) (bytes_range (fe_R E) (fe_B E) (Included s) (Excluded e)) r"
  shows "r \<noteq> rs_empty (fe_R E)"
  using requested_bytes [OF assms(2), of "unat s"] assms(1) by (auto simp: word_less_nat_alt contains_empty)

text \<open>A range that is empty once it is cut at the size is one read of nothing.\<close>

lemma read_nothing:
  assumes "storage_inv E cx d ob M w st" "shown E st = Some bf" "bf_size bf = of_nat (length d) \<longrightarrow> unat off \<le> length d"
  shows "\<exists>r w'. read_bytes_at E st off 0 w = (r, w') \<and> only_files {} w w'
    \<and> (case r of Inr bs \<Rightarrow> bs = [] | Inl err \<Rightarrow> err \<noteq> Panics \<and> ((\<exists>cs. st = CompleteBao cs) \<longrightarrow> fs_faults w \<noteq> []))"
proof -
  have nil: "bs = []" if "io_read (fe_Io E) data off 0 = Inr bs" for data bs using io_read_length [OF that] by simp
  obtain f fs where f: "pop_fault w = (f, w\<lparr>fs_faults := fs\<rparr>)" "set fs \<subseteq> set (fs_faults w)"
    "f = NoFault \<or> f \<in> set (fs_faults w)" by (rule pop_faultE)
  have faulty: "f = IoFault e n \<Longrightarrow> fs_faults w \<noteq> []" for e n using f(3) by auto
  show ?thesis
  proof (cases st)
    case (CompleteBao cs)
    have "data_part_is d w (cs_data cs)" using assms(1) CompleteBao by (simp add: complete_inv_def)
    then have "take (length d) (part_content w (cs_data cs)) = d"
      by (cases "(d, w, cs_data cs)" rule: data_part_is.cases) simp_all
    then have "length d \<le> length (part_content w (cs_data cs))" by (metis length_take min.cobounded2 min.commute)
    moreover have "unat off \<le> length d" using assms shown_complete [of M w cs] CompleteBao by (simp add: bf_complete_def)
    ultimately have "io_read (fe_Io E) (part_content w (cs_data cs)) off 0 = Inr []" using io_read [of off 0] by simp
    then show ?thesis using f faulty CompleteBao
      by (auto simp: read_bytes_at_def Let_def guarded_def only_files_faults split: mem_or_file.splits fault.splits)
  qed (use assms(2) f nil in \<open>auto simp: read_bytes_at_def Let_def guarded_def only_files_faults split: fault.splits sum.splits\<close>)
qed

lemma fs_export_loop_nothing:
  assumes "storage_inv E cx d ob M w st" "shown E st = Some bf" "bf_size bf = of_nat (length d) \<longrightarrow> unat off \<le> length d" "unat off + 1024 < 2 ^ 64"
  shows "sends d w (\<exists>cs. st = CompleteBao cs) [] sent (fs_export_loop E st sent off off w)"
proof -
  have "min (off + 1024) off = off" using assms(4) by (simp add: min_def word_le_nat_alt unat_add_u64)
  then have "fs_export_loop E st sent off off w = (case read_bytes_at E st off 0 w of
      (Inl err, w) \<Rightarrow> Some (sent, Some err, w) | (Inr bs, w) \<Rightarrow> Some (sent @ [(off, bs)], None, w))"
    by (subst fs_export_loop.simps) (simp add: Let_def split: prod.split sum.split)
  moreover obtain r w' where "read_bytes_at E st off 0 w = (r, w')" "only_files {} w w'"
    "case r of Inr bs \<Rightarrow> bs = [] | Inl err \<Rightarrow> err \<noteq> Panics \<and> ((\<exists>cs. st = CompleteBao cs) \<longrightarrow> fs_faults w \<noteq> [])"
    using read_nothing [OF assms(1-3)] by blast
  ultimately show ?thesis
    by (cases r) (auto simp: sends_def intro: exI [of _ "[]"] exI [of _ "[(off, [])]"])
qed

text \<open>One range.\<close>

lemma fs_export_range_sends:
  assumes "storage_inv E cx d ob M w st" "shown E st = Some bf" "unat (bf_size bf) + 1024 < 2 ^ 64"
    and it: "case it of Range a b \<Rightarrow> a < b | RangeFrom a \<Rightarrow> True" and se: "item_clip (bf_size bf) it = (s, e)"
    and sub: "rs_is_subset (fe_R E) (bytes_range (fe_R E) (fe_B E) (Included s) (Excluded e)) (bf_ranges bf)"
  shows "sends d w (\<exists>cs. st = CompleteBao cs) (item_slice (take (unat (bf_size bf)) d) it) sent (fs_export_loop E st sent s e w)"
proof (cases "s < e")
  case True
  then have sz: "bf_size bf = of_nat (length d)" using shown_size [OF assms(1,2)] requested_nonempty [OF True sub] by blast
  have len: "unat (bf_size bf) = length d" by (simp add: sz unat_of_nat_u64 [OF d_size])
  note sl = item_slice_clip [OF d_size se [unfolded sz]]
  have "{unat s..<unat e} \<subseteq> storage_have E d st"
    using requested_have [OF sub sl(2)] shown_have [OF assms(1,2)] by simp
  from fs_export_loop_sends [OF assms(1) True sl(2) this, of sent, folded sl(1)] assms(3) show ?thesis
    by (fastforce simp: sends_def len split: option.splits)
next
  case False
  have e: "e = s" "s \<le> bf_size bf" and none: "\<And>x. x < bf_size bf \<Longrightarrow> \<not> item_has it x"
    using False it se by (cases it; auto simp: min_def split: if_splits)+
  have "item_slice (take (unat (bf_size bf)) d) it = []"
    using d_size by (intro item_slice_none none) (simp add: word_less_nat_alt unat_of_nat_u64)
  moreover have "bf_size bf = of_nat (length d) \<longrightarrow> unat s \<le> length d"
    using e(2) unat_of_nat_u64 [OF d_size] by (metis word_le_nat_alt)
  moreover have "unat s + 1024 < 2 ^ 64" using e(2) assms(3) by (simp add: word_le_nat_alt)
  ultimately show ?thesis using fs_export_loop_nothing [OF assms(1,2)] e(1) by simp
qed

lemma fs_export_items_sends:
  assumes "storage_inv E cx d ob M w st" "shown E st = Some bf" "unat (bf_size bf) + 1024 < 2 ^ 64"
    "\<forall>it\<in>set its. (case it of Range a b \<Rightarrow> a < b | RangeFrom a \<Rightarrow> True)"
  shows "sends d w (\<exists>cs. st = CompleteBao cs) (concat (map (item_slice (take (unat (bf_size bf)) d)) its)) sent (fs_export_items E st bf sent its w)"
  using assms(1,4)
proof (induction its arbitrary: sent w)
  case Nil
  show ?case by (auto simp: sends_def intro!: exI [of _ "[]"])
next
  case (Cons it its)
  let ?slice = "item_slice (take (unat (bf_size bf)) d)"
  obtain s e where se: "item_clip (bf_size bf) it = (s, e)" by (metis surj_pair)
  let ?req = "bytes_range (fe_R E) (fe_B E) (Included s) (Excluded e)"
  show ?case
  proof (cases "rs_is_subset (fe_R E) ?req (bf_ranges bf)")
    case False
    have "\<not> (\<exists>cs. st = CompleteBao cs)"
      using False shown_complete Cons.prems(1) assms(2) by (auto simp: bf_complete_def is_subset_iff contains_all)
    moreover have "fs_export_items E st bf sent (it # its) w = Some (sent, Some (Fails OtherIo), w)"
      using False se by (simp add: Let_def)
    ultimately show ?thesis by (auto simp: sends_def intro!: exI [of _ "[]"])
  next
    case True
    have ord: "case it of Range a b \<Rightarrow> a < b | RangeFrom a \<Rightarrow> True" using Cons.prems(2) by simp
    from fs_export_range_sends [OF Cons.prems(1) assms(2,3) ord se True, of sent] obtain l1 r1 w1 where
      l1: "fs_export_loop E st sent s e w = Some (sent @ l1, r1, w1)" "only_files {} w w1"
        "\<forall>l\<in>set l1. (snd l \<noteq> [] \<longrightarrow> piece_of d (unat (fst l)) (snd l)) \<and> length (snd l) \<le> 1024"
        "case r1 of None \<Rightarrow> concat (map snd l1) = ?slice it | Some err \<Rightarrow> err \<noteq> Panics \<and> ((\<exists>cs. st = CompleteBao cs) \<longrightarrow> fs_faults w \<noteq> [])"
      unfolding sends_def by blast
    show ?thesis
    proof (cases r1)
      case (Some err)
      then have "fs_export_items E st bf sent (it # its) w = Some (sent @ l1, Some err, w1)"
        using True se l1(1) by (simp add: Let_def)
      with Some l1 show ?thesis by (auto simp: sends_def)
    next
      case None
      from Cons.IH [OF storage_inv_same [OF l1(2) Cons.prems(1)], of "sent @ l1"] Cons.prems(2) obtain l2 r2 w2 where
        l2: "fs_export_items E st bf (sent @ l1) its w1 = Some ((sent @ l1) @ l2, r2, w2)" "only_files {} w1 w2"
          "\<forall>l\<in>set l2. (snd l \<noteq> [] \<longrightarrow> piece_of d (unat (fst l)) (snd l)) \<and> length (snd l) \<le> 1024"
          "case r2 of None \<Rightarrow> concat (map snd l2) = concat (map ?slice its)
           | Some err \<Rightarrow> err \<noteq> Panics \<and> ((\<exists>cs. st = CompleteBao cs) \<longrightarrow> fs_faults w1 \<noteq> [])" by (auto simp: sends_def)
      have "fs_faults w1 \<noteq> [] \<Longrightarrow> fs_faults w \<noteq> []" using only_filesD(5) [OF l1(2)] by auto
      moreover have "fs_export_items E st bf sent (it # its) w = Some (sent @ l1 @ l2, r2, w2)"
        using True se l1(1) None l2(1) by (simp add: Let_def)
      ultimately show ?thesis using l1(2-4) l2(2-4) None only_files_trans [of "{}" w w1 w2]
        by (auto simp: sends_def intro!: exI [of _ "l1 @ l2"] split: option.splits)
    qed
  qed
qed

lemma fs_export_sends:
  assumes "storage_inv E cx d ob M w st" "shown E st = Some bf" "unat (bf_size bf) + 1024 < 2 ^ 64"
  shows "sends d w (\<exists>cs. st = CompleteBao cs) (nths d {x. x < length d \<and> x < unat (bf_size bf) \<and> rs_contains (fe_R E) ranges (of_nat x)}) []
    (fs_export_ranges_impl E ranges st w)"
proof -
  have "\<forall>it\<in>set (rs_iter (fe_R E) ranges). (case it of Range a b \<Rightarrow> a < b | RangeFrom a \<Rightarrow> True)"
    using items_of_ordered [OF sorted_boundaries] by (auto simp: iter_items)
  moreover have "length (take (unat (bf_size bf)) d) < 2 ^ 64" using d_size by simp
  note items_slices [OF this sorted_boundaries, of ranges, unfolded nths_below]
  ultimately show ?thesis using fs_export_items_sends [OF assms, of "rs_iter (fe_R E) ranges" "[]"] cx_bitfield_shown(1) [OF assms(2)]
    by (simp add: fs_export_ranges_impl_def iter_items contains_boundaries)
qed

text \<open>
  A storage that shows nothing, not even a size, exports any ranges without an error, as nothing: one
  empty leaf for each range. Only the empty blob has no bytes.
\<close>

lemma unknown_exports_nothing:
  assumes "pf_bitfield fs = bf_empty (fe_R E)" "fs_faults w = []" "bytes_range (fe_R E) (fe_B E) (Included 0) (Excluded 0) = rs_empty (fe_R E)"
  shows "fs_export_ranges_impl E ranges (PartialFile fs) w = Some (map (\<lambda>_. (0, [])) (rs_iter (fe_R E) ranges), None, w)"
proof -
  have "fs_export_items E (PartialFile fs) (bf_empty (fe_R E)) sent its w = Some (sent @ map (\<lambda>_. (0, [])) its, None, w)" for sent its
  proof (induction its arbitrary: sent)
    case (Cons it its)
    have c: "item_clip 0 it = (0, 0)" by (cases it) simp_all
    have "rs_is_subset (fe_R E) (bytes_range (fe_R E) (fe_B E) (Included 0) (Excluded 0)) (rs_empty (fe_R E))"
      by (simp add: assms(3) is_subset_iff)
    moreover have "fs_export_loop E (PartialFile fs) sent 0 0 w = Some (sent @ [(0, [])], None, w)"
      using io_read [of 0 0 "fs_content w (pf_data fs)"] assms(2)
      by (subst fs_export_loop.simps) (simp add: Let_def read_bytes_at_def guarded_def pop_fault_def)
    ultimately show ?case using c Cons.IH [of "sent @ [(0, [])]"] by (simp add: Let_def bf_empty_def)
  qed simp
  then show ?thesis using assms(1) by (simp add: fs_export_ranges_impl_def)
qed

end

end
