(* ===== verification/Fs_Finish.thy ===== *)
theory Fs_Finish
  imports Fs_Spec
begin

text \<open>
  Finishing an import of local data: the files of the import take the names of the blob, the handle
  becomes complete and the database learns of it.
\<close>

section \<open>Moving files to their names\<close>

abbreviation moved :: "path \<Rightarrow> path \<Rightarrow> nat \<Rightarrow> 'd fs_world \<Rightarrow> 'd fs_world" where
  "moved p q i w \<equiv> w\<lparr>fs_names := (fs_names w)(p := None, q \<mapsto> i)\<rparr>"

lemma try_rename_moves:
  "fs_faults w = [] \<Longrightarrow> fs_names w p = Some i \<Longrightarrow> try_rename p q w = (Inr (), moved p q i w)"
  by (simp add: try_rename_def fs_rename_def guarded_def pop_fault_def)

lemma moved_wf: "fs_wf w \<Longrightarrow> fs_names w p = Some i \<Longrightarrow> fs_wf (moved p q i w)"
  unfolding fs_wf_def by (auto split: if_splits)

lemma moved_saved:
  "p \<notin> cx_paths E cx \<Longrightarrow> part \<noteq> BitfieldPart \<Longrightarrow> saved_bitfield E cx (moved p (cx_file E cx part) i w) = saved_bitfield E cx w"
  by (auto simp: saved_bitfield_def split: option.split)

lemma moved_data_ok:
  assumes "disk_ok E cx d w" "p \<notin> cx_paths E cx" "agrees (fs_content w i) d {..<length d}"
  shows "disk_ok E cx d (moved p (cx_file E cx DataPart) i w)"
  using assms agrees_subset [OF assms(3), of "have_bytes (fe_R E) d bf" for bf]
  by (auto simp: disk_ok_def moved_saved have_bytes_def)

lemma moved_outboard_ok:
  "disk_ok E cx d w \<Longrightarrow> p \<notin> cx_paths E cx \<Longrightarrow> disk_ok E cx d (moved p (cx_file E cx OutboardPart) i w)"
  by (auto simp: disk_ok_def moved_saved)

lemma prefix_agrees: "take (length d) bs = d \<Longrightarrow> agrees bs d {..<length d}"
  unfolding agrees_def by (metis lessThan_iff length_take min.strict_boundedE nth_take)

abbreviation (input) with_del :: "'d fs_world \<Rightarrow> delete_set \<Rightarrow> 'd fs_world" where
  "with_del w s \<equiv> w\<lparr>fw_delete := s\<rparr>"

lemma with_del_simps [simp]:
  "fs_wf (with_del w s) = fs_wf w" "saved_bitfield E cx (with_del w s) = saved_bitfield E cx w"
  "disk_ok E cx d (with_del w s) = disk_ok E cx d w"
  by (simp_all add: fs_wf_def saved_bitfield_def disk_ok_def split: option.split)

section \<open>The files of an import\<close>

text \<open>An import of the blob: its source holds \<open>d\<close>, its outboard the bytes \<open>M\<close> of \<open>ob\<close>.\<close>

fun source_paths :: "import_source \<Rightarrow> path set" where
  "source_paths (MemorySource bs) = {}"
| "source_paths (ExternalSource p sz) = {p}"
| "source_paths (TempFileSource p sz) = {p}"

fun outboard_paths :: "path mem_or_file \<Rightarrow> path set" where
  "outboard_paths (MemPart bs) = {}"
| "outboard_paths (FilePart p) = {p}"

definition file_holds :: "'d fs_world \<Rightarrow> path \<Rightarrow> bytes \<Rightarrow> bool" where
  "file_holds w p d \<longleftrightarrow> (\<exists>i. fs_names w p = Some i \<and> take (length d) (fs_content w i) = d)"

fun source_holds :: "bytes \<Rightarrow> 'd fs_world \<Rightarrow> import_source \<Rightarrow> bool" where
  "source_holds d w (MemorySource bs) \<longleftrightarrow> bs = d"
| "source_holds d w (ExternalSource p sz) \<longleftrightarrow> sz = of_nat (length d) \<and> file_holds w p d"
| "source_holds d w (TempFileSource p sz) \<longleftrightarrow> sz = of_nat (length d) \<and> file_holds w p d"

fun outboard_holds :: "bytes \<Rightarrow> nat set \<Rightarrow> 'd fs_world \<Rightarrow> path mem_or_file \<Rightarrow> bool" where
  "outboard_holds ob M w (MemPart bs) \<longleftrightarrow> (if bs = [] then M = {} else agrees bs ob M)"
| "outboard_holds ob M w (FilePart p) \<longleftrightarrow> (\<exists>i. fs_names w p = Some i \<and> agrees (fs_content w i) ob M)"

definition import_of :: "('r, 'd) fs_env \<Rightarrow> fs_ctx \<Rightarrow> bytes \<Rightarrow> bytes \<Rightarrow> nat set \<Rightarrow> 'd fs_world \<Rightarrow> fs_import_entry \<Rightarrow> bool" where
  "import_of E cx d ob M w e \<longleftrightarrow> fi_hash e = cx_id cx
     \<and> source_holds d w (fi_source e) \<and> outboard_holds ob M w (fi_outboard e)
     \<and> source_paths (fi_source e) \<inter> outboard_paths (fi_outboard e) = {}
     \<and> (source_paths (fi_source e) \<union> outboard_paths (fi_outboard e)) \<inter> cx_paths E cx = {}"

lemma import_data_located:
  assumes "fs_faults w = []" "fs_wf w" "disk_ok E cx d w" "source_holds d w src" "source_paths src \<inter> cx_paths E cx = {}"
  shows "\<exists>dl w'. import_data_location E cx (cx_id cx) src w = (Inr dl, w') \<and> data_at E cx d w' dl \<and> fs_wf w' \<and> disk_ok E cx d w'
    \<and> fs_faults w' = [] \<and> fs_content w' = fs_content w \<and> fw_db w' = fw_db w
    \<and> (\<forall>p. p \<notin> source_paths src \<union> {cx_file E cx DataPart} \<longrightarrow> fs_names w' p = fs_names w p)
    \<and> (\<forall>p sz. dl = ExternalData p sz \<longrightarrow> set p \<subseteq> source_paths src)"
proof (cases src)
  case (TempFileSource p sz)
  then obtain i where i: "fs_names w p = Some i" "take (length d) (fs_content w i) = d" and p: "p \<notin> cx_paths E cx"
    and sz: "sz = of_nat (length d)" using assms(4,5) by (auto simp: file_holds_def)
  then show ?thesis using TempFileSource assms(1-3) moved_wf [OF assms(2) i(1), of "cx_file E cx DataPart"]
      moved_data_ok [OF assms(3) p prefix_agrees [OF i(2)]]
    by (auto simp: import_data_location_def io_then_def try_rename_moves entry_file_def cx_file_def)
qed (use assms in \<open>auto simp: import_data_location_def file_holds_def\<close>)

lemma import_outboard_located:
  assumes "fs_faults w = []" "fs_wf w" "disk_ok E cx d w" "outboard_holds ob M w src" "outboard_paths src \<inter> cx_paths E cx = {}"
  shows "\<exists>ol w'. import_outboard_location E cx (cx_id cx) src w = (Inr ol, w') \<and> outboard_at E cx ob M w' ol \<and> fs_wf w' \<and> disk_ok E cx d w'
    \<and> fs_faults w' = [] \<and> fs_content w' = fs_content w \<and> fw_db w' = fw_db w
    \<and> (\<forall>p. p \<notin> outboard_paths src \<union> {cx_file E cx OutboardPart} \<longrightarrow> fs_names w' p = fs_names w p)"
proof (cases src)
  case (FilePart p)
  then obtain i where i: "fs_names w p = Some i" "agrees (fs_content w i) ob M" and p: "p \<notin> cx_paths E cx"
    using assms(4,5) by auto
  then show ?thesis using FilePart assms(1-3) moved_wf [OF assms(2) i(1), of "cx_file E cx OutboardPart"]
      moved_outboard_ok [OF assms(3) p, of i]
    by (auto simp: import_outboard_location_def io_then_def try_rename_moves entry_file_def cx_file_def)
next
  case (MemPart bs)
  then show ?thesis using assms by (auto simp: import_outboard_location_def split: if_splits)
qed

section \<open>Finishing the import\<close>

text \<open>
  After the files are in place: the entry is opened, the handle completed, and the database updated.
\<close>

definition finish_tail :: "('r, 'd) fs_env \<Rightarrow> fs_ctx \<Rightarrow> (bytes, u64) data_location \<Rightarrow> bytes outboard_location \<Rightarrow> ('r, 'd, unit) cio" where
  "finish_tail E cx dl ol =
     cx_then (cx_io (open_data E cx dl)) (\<lambda>data.
     cx_then (cx_io (open_outboard E cx ol)) (\<lambda>outboard.
     cx_then (\<lambda>st w. (Inr (), handle_complete data outboard st, w)) (\<lambda>_.
     cx_io (db_call (dbo_update_await (fe_db E) (cx_id cx) (CompleteEntry dl ol))))))"

context file_store
begin

lemma finish_tail_completes:
  assumes "writable st" "located E cx d ob M w (CompleteEntry dl ol)" "fs_wf w" "disk_ok E cx d w" "okd (fw_db w)" "fs_faults w = []"
    "merged (view (fw_db w) (cx_id cx)) (CompleteEntry dl ol) = Inr (CompleteEntry dl ol)"
  shows "\<exists>cs w'. finish_tail E cx dl ol st w = (Inr (), CompleteBao cs, w') \<and> inv M (CompleteBao cs) w' \<and> fs_faults w' = []
    \<and> fs_names w' = fs_names w \<and> fs_content w' = fs_content w \<and> view (fw_db w') = (view (fw_db w))(cx_id cx \<mapsto> CompleteEntry dl ol)"
proof -
  from wp_returns [OF open_data_wp assms(6)] assms(2) obtain data w1 where
    w1: "open_data E cx dl w = (Inr data, w1)" "only_files {} w w1" "data_part_is d w1 data" "fs_faults w1 = []" by fastforce
  have "outboard_at E cx ob M w1 ol" using assms(2) by (simp add: part_same(4) [OF w1(2)])
  from wp_returns [OF open_outboard_wp [OF this] w1(4)] obtain outboard w2 where
    w2: "open_outboard E cx ol w1 = (Inr outboard, w2)" "only_files {} w1 w2" "outboard_part_is ob M w2 outboard" "fs_faults w2 = []" by blast
  have o: "only_files {} w w2" using only_files_trans [OF w1(2) w2(2)] by simp
  have db2: "fw_db w2 = fw_db w" using world_more [OF only_filesD(3) [OF o]] by simp
  obtain s where s: "dbo_update_await (fe_db E) (cx_id cx) (CompleteEntry dl ol) (fw_db w2) = (Inr (), s)" "okd s"
    "view s = (view (fw_db w))(cx_id cx \<mapsto> CompleteEntry dl ol)" using update_await_view [OF assms(5,7)] db2 by auto
  let ?cs = "\<lparr>cs_data = data, cs_outboard = outboard\<rparr>"
  have ci: "complete_inv d ob M ?cs w2" using w1(3) w2(3) by (simp add: complete_inv_def part_same(1) [OF w2(2)])
  have "located E cx d ob M w2 (CompleteEntry dl ol)" using assms(2) by (simp only: located_same [OF o])
  then have "kept_on_disk M (with_db w2 s)"
    using s(2,3) only_files_wf [OF o] assms(3) disk_ok_cx [OF assms(4) cx_same [OF o] assms(3)]
    by (intro stored_update [where m = "CompleteEntry dl ol" and st = "CompleteBao ?cs"]) (use ci in simp_all)
  then have "inv M (CompleteBao ?cs) (with_db w2 s)" using ci s(3) by (simp add: entity_inv_def)
  moreover have "finish_tail E cx dl ol st w = (Inr (), CompleteBao ?cs, with_db w2 s)"
    using w1(1) w2(1) s(1) assms(1) by (cases st) (simp_all add: finish_tail_def cx_then_def cx_io_def db_call_def)
  moreover have "fs_content w2 = fs_content w" using only_filesD(4) [OF o] by auto
  ultimately show ?thesis using only_filesD(1) [OF o] w2(4) s(3) by auto
qed

lemma merged_complete:
  assumes "matches (view s (cx_id cx)) st" "writable st"
  shows "merged (view s (cx_id cx)) (CompleteEntry dl ol) = Inr (CompleteEntry dl ol)"
  using assms by (cases st) (auto simp: merged_def)

lemma finish_import_completes:
  assumes "inv M0 st w" "writable st" "fs_faults w = []" "import_of E cx d ob M w e"
  shows "\<exists>cs w'. finish_import_impl E cx e st w = (Inr (), CompleteBao cs, w') \<and> inv M (CompleteBao cs) w' \<and> fs_faults w' = []
    \<and> (\<forall>h. h \<noteq> cx_id cx \<longrightarrow> view (fw_db w') h = view (fw_db w) h) \<and> fs_content w' = fs_content w
    \<and> (\<forall>p. p \<notin> cx_paths E cx \<union> source_paths (fi_source e) \<union> outboard_paths (fi_outboard e) \<longrightarrow> fs_names w' p = fs_names w p)"
proof -
  let ?w = "with_del w (ds_protect (cx_id cx) [DataPart, OutboardPart] (fw_delete w))"
  have kd: "kept_on_disk M0 w" and mt: "matches (view (fw_db w) (cx_id cx)) st" using assms(1) by (simp_all add: entity_inv_def)
  note disk = stored_disk [OF kd]
  have h: "fi_hash e = cx_id cx" and src: "source_holds d ?w (fi_source e)" and os: "outboard_holds ob M w (fi_outboard e)"
    and ds: "source_paths (fi_source e) \<inter> cx_paths E cx = {}" "outboard_paths (fi_outboard e) \<inter> cx_paths E cx = {}"
      "source_paths (fi_source e) \<inter> outboard_paths (fi_outboard e) = {}"
    using assms(4) by (cases "fi_source e"; auto simp: import_of_def file_holds_def)+
  obtain dl w1 where d1: "import_data_location E cx (cx_id cx) (fi_source e) ?w = (Inr dl, w1)" "data_at E cx d w1 dl"
      "fs_wf w1" "disk_ok E cx d w1" "fs_faults w1 = []" "fs_content w1 = fs_content w" "fw_db w1 = fw_db w"
      "\<forall>p. p \<notin> source_paths (fi_source e) \<union> {cx_file E cx DataPart} \<longrightarrow> fs_names w1 p = fs_names w p"
      "\<forall>p sz. dl = ExternalData p sz \<longrightarrow> set p \<subseteq> source_paths (fi_source e)"
    using import_data_located [of ?w E cx d "fi_source e"] disk src ds(1) assms(3) by auto
  have "p \<in> outboard_paths (fi_outboard e) \<Longrightarrow> fs_names w1 p = fs_names w p" for p using d1(8) ds(2,3) by blast
  then have os1: "outboard_holds ob M w1 (fi_outboard e)" using os d1(6) by (cases "fi_outboard e") auto
  obtain ol w2 where d2: "import_outboard_location E cx (cx_id cx) (fi_outboard e) w1 = (Inr ol, w2)" "outboard_at E cx ob M w2 ol"
      "fs_wf w2" "disk_ok E cx d w2" "fs_faults w2 = []" "fs_content w2 = fs_content w1" "fw_db w2 = fw_db w1"
      "\<forall>p. p \<notin> outboard_paths (fi_outboard e) \<union> {cx_file E cx OutboardPart} \<longrightarrow> fs_names w2 p = fs_names w1 p"
    using import_outboard_located [OF d1(5,3,4) os1 ds(2)] by blast
  have keep: "p \<in> source_paths (fi_source e) \<union> {cx_file E cx DataPart} \<Longrightarrow> fs_names w2 p = fs_names w1 p" for p
    using d2(8) ds cx_file_inject [of E cx DataPart OutboardPart] by blast
  have "data_at E cx d w2 dl"
  proof (cases dl)
    case (ExternalData ps sz)
    then have "fs_names w2 p = fs_names w1 p" if "p \<in> set ps" for p using d1(9) keep that by blast
    with ExternalData d1(2) d2(6) show ?thesis by simp
  qed (use d1(2) d2(6) keep in auto)
  then have loc: "located E cx d ob M w2 (CompleteEntry dl ol)" using d2(2) by simp
  have db: "fw_db w2 = fw_db w" using d1(7) d2(7) by simp
  have mg: "merged (view (fw_db w2) (cx_id cx)) (CompleteEntry dl ol) = Inr (CompleteEntry dl ol)"
    using merged_complete [OF mt assms(2)] db by simp
  have "finish_import_impl E cx e st w = finish_tail E cx dl ol st w2"
    using not_empty assms(2) d1(1) d2(1) h
    by (cases st) (simp_all add: finish_import_impl_def finish_tail_def cx_then_def cx_load_def cx_io_def cx_protect_def)
  moreover have "\<forall>p. p \<notin> cx_paths E cx \<union> source_paths (fi_source e) \<union> outboard_paths (fi_outboard e) \<longrightarrow> fs_names w2 p = fs_names w p"
    using d1(8) d2(8) by (auto simp: image_iff)
  ultimately show ?thesis
    using finish_tail_completes [OF assms(2) loc d2(3,4) _ d2(5) mg] disk(2) db d1(6) d2(6) by auto
qed

end

end
