(* ===== verification/Fs_Path.thy ===== *)
theory Fs_Path
  imports Fs_Finish
begin

text \<open>
  Export to a file: without faults the target holds the blob and the entry of the database still
  leads to it, whether the data is copied, linked or moved.
\<close>

section \<open>Copying a file\<close>

lemma only_files_eq:
  assumes "only_files {} w w'" "fs_faults w' = fs_faults w"
  shows "w' = w"
proof -
  have "fs_content w' = fs_content w" using only_filesD(4) [OF assms(1)] by auto
  then show ?thesis using only_filesD(1-3) [OF assms(1)] assms(2) by (cases w; cases w') simp
qed

lemma read_exact_eval:
  assumes "fs_faults w = []"
  shows "read_exact_at i off n w =
    (let buf = take n (drop off (fs_content w i)) in if length buf < n then (Inl (Fails UnexpectedEof), w) else (Inr buf, w))"
proof -
  let ?buf = "take n (drop off (fs_content w i))"
  from wp_returns [OF wp_read_to_end assms(1), of "\<lambda>bs w'. bs = ?buf \<and> only_files {} w w'" n off i "\<lambda>_. True"]
  obtain w' where r: "read_loop i off n [] w = (Inr ?buf, w')" "only_files {} w w'" "fs_faults w' = []"
    by (auto simp: read_to_end_def simp del: read_loop.simps)
  moreover from only_files_eq [OF r(2)] r(3) assms(1) have "w' = w" by simp
  ultimately show ?thesis by (simp add: read_exact_at_def io_then_def Let_def del: read_loop.simps)
qed

lemma write_all_eval: "fs_faults w = [] \<Longrightarrow> fs_write_all_at Io i off buf w = (Inr (), set_content i (io_write Io (fs_content w i) off buf) w)"
  by (simp add: fs_write_all_at_def pop_fault_def)

lemma set_content_simps [simp]:
  "fs_names (set_content i bs w) = fs_names w" "fs_faults (set_content i bs w) = fs_faults w" "fs_fresh (set_content i bs w) = fs_fresh w"
  "fs_content (set_content i bs w) = (fs_content w)(i := bs)" "fw_db (set_content i bs w) = fw_db w" "fw_delete (set_content i bs w) = fw_delete w"
  "set_content i cs (set_content i bs w) = set_content i cs w"
  by (simp_all add: set_content_def)

lemma send_open_ok: "tx_left p = None \<Longrightarrow> \<exists>p'. send p x = Some p' \<and> tx_left p' = None \<and> tx_sent p' = tx_sent p @ [x]"
  by (simp add: send_def)

lemma write_vec_end: "length bs = off \<Longrightarrow> write_vec bs off buf = bs @ buf"
  by (rule nth_equalityI) (auto simp: nth_write_vec nth_append)

context fs_laws
begin

lemma copy_with_progress_copies:
  assumes "i \<noteq> j" "unat sz = length d" "take (length d) (fs_content w i) = d"
  shows "fs_faults w = [] \<Longrightarrow> tx_left p = None \<Longrightarrow> fs_content w j = take (unat offset) d \<Longrightarrow> offset \<le> sz \<Longrightarrow>
    \<exists>p'. copy_with_progress E i sz j offset p w = (Inr p', set_content j d w) \<and> tx_left p' = None"
  using assms(3)
proof (induction "unat sz - unat offset" arbitrary: offset p w rule: less_induct)
  case less
  show ?case
  proof (cases "offset < sz")
    case False
    then have "unat offset = length d" using less.prems(4) assms(2) by (simp add: word_le_nat_alt word_less_nat_alt)
    moreover have "set_content j (fs_content w j) w = w" by (simp add: set_content_def)
    ultimately show ?thesis using False less.prems(2,3) by (subst copy_with_progress.simps) simp
  next
    case True
    let ?n = "min 1048576 (sz - offset)"
    have lt: "unat offset < length d" using True assms(2) by (simp add: word_less_nat_alt)
    have nx: "unat (offset + ?n) = unat offset + unat ?n"
      using copy_step(1) [OF True] unat_sub_u64 [of offset sz] True by (simp add: unat_min_u64)
    have le: "unat offset + unat ?n \<le> length d"
      using unat_sub_u64 [of offset sz] True lt assms(2) by (simp add: unat_min_u64)
    have len: "length d \<le> length (fs_content w i)" using less.prems(5) by (metis length_take min.cobounded1)
    let ?buf = "take (unat ?n) (drop (unat offset) d)"
    have "take (unat ?n) (drop (unat offset) (fs_content w i)) = ?buf"
    proof -
      have "take (unat ?n) (drop (unat offset) (take (length d) (fs_content w i))) = take (unat ?n) (drop (unat offset) (fs_content w i))"
        using le by (simp add: drop_take)
      then show ?thesis using less.prems(5) by simp
    qed
    then have rd: "read_exact_at i (unat offset) (unat ?n) w = (Inr ?buf, w)"
      using read_exact_eval [OF less.prems(1), of i "unat offset" "unat ?n"] le len by (simp add: Let_def)
    have cj: "io_write (fe_Io E) (fs_content w j) offset ?buf = take (unat (offset + ?n)) d"
      using less.prems(3) lt nx by (simp add: io_write write_vec_end take_add)
    let ?w = "set_content j (take (unat (offset + ?n)) d) w"
    obtain p1 where p1: "send p (ExportCopyProgress offset) = Some p1" "tx_left p1 = None" using send_open_ok [OF less.prems(2)] by blast
    have "offset + ?n \<le> sz" using nx le assms(2) by (simp add: word_le_nat_alt)
    then obtain p' where "copy_with_progress E i sz j (offset + ?n) p1 ?w = (Inr p', set_content j d ?w)" "tx_left p' = None"
      using less.hyps [OF copy_step(2) [OF True], of ?w p1] less.prems(1,5) p1(2) assms(1) by auto
    then show ?thesis using True rd p1 cj less.prems(1)
      by (subst copy_with_progress.simps) (simp add: Let_def write_all_eval del: copy_with_progress.simps)
  qed
qed

end

text \<open>A change, without faults, of the file under one name.\<close>

definition only_path :: "path \<Rightarrow> 'd fs_world \<Rightarrow> 'd fs_world \<Rightarrow> bool" where
  "only_path to w w' \<longleftrightarrow> fs_wf w' \<and> fs_faults w' = [] \<and> fw_db w' = fw_db w
     \<and> (\<forall>q. q \<noteq> to \<longrightarrow> fs_names w' q = fs_names w q)
     \<and> (\<forall>q i. q \<noteq> to \<longrightarrow> fs_names w q = Some i \<longrightarrow> fs_content w' i = fs_content w i)"

lemma only_pathD:
  assumes "only_path to w w'"
  shows "fs_wf w'" "fs_faults w' = []" "fw_db w' = fw_db w" "q \<noteq> to \<Longrightarrow> fs_names w' q = fs_names w q"
    "q \<noteq> to \<Longrightarrow> fs_names w q = Some i \<Longrightarrow> fs_content w' i = fs_content w i"
  using assms by (auto simp: only_path_def)

lemma fs_create_empty:
  assumes "fs_faults w = []" "fs_wf w"
  obtains j w' where "fs_create to w = (Inr j, w')" "fs_names w' to = Some j" "fs_content w' j = []" "only_path to w w'"
    "\<And>q i. q \<noteq> to \<Longrightarrow> fs_names w q = Some i \<Longrightarrow> i \<noteq> j"
proof (cases "fs_names w to")
  case None
  have ne: "i \<noteq> fs_fresh w" if "fs_names w q = Some i" for q i using assms(2) that by (auto simp: fs_wf_def)
  let ?w = "w\<lparr>fs_names := (fs_names w)(to \<mapsto> fs_fresh w), fs_content := (fs_content w)(fs_fresh w := []), fs_fresh := Suc (fs_fresh w)\<rparr>"
  have "fs_wf ?w" using assms(2) unfolding fs_wf_def by (auto simp: less_Suc_eq split: if_splits)
  moreover have "fs_create to w = (Inr (fs_fresh w), ?w)"
    using assms(1) None by (simp add: fs_create_def guarded_def pop_fault_def new_file_def)
  ultimately show thesis using that [of "fs_fresh w" ?w] assms(1) ne by (auto simp: only_path_def)
next
  case (Some j)
  have ne: "i \<noteq> j" if "q \<noteq> to" "fs_names w q = Some i" for q i using assms(2) that Some by (auto simp: fs_wf_def)
  have "fs_wf (set_content j [] w)" using assms(2) by (simp add: fs_wf_def)
  moreover have "fs_create to w = (Inr j, set_content j [] w)"
    using assms(1) Some by (simp add: fs_create_def guarded_def pop_fault_def)
  ultimately show thesis using that [of j "set_content j [] w"] assms(1) Some ne by (auto simp: only_path_def)
qed

lemma only_path_set:
  assumes "only_path to w w'" "fs_names w' to = Some j" "\<And>q i. q \<noteq> to \<Longrightarrow> fs_names w q = Some i \<Longrightarrow> i \<noteq> j"
  shows "only_path to w (set_content j bs w')"
  using assms by (auto simp: only_path_def fs_wf_def)

context fs_laws
begin

lemma reflink_or_copy_copies:
  assumes "fs_faults w = []" "fs_wf w" "tx_left p = None" "file_holds w from d" "from \<noteq> to" "length d < 2 ^ 64"
  shows "\<exists>p' w'. reflink_or_copy E reflink from to (of_nat (length d)) p w = (Inr p', w') \<and> tx_left p' = None
    \<and> file_holds w' to d \<and> only_path to w w'"
proof -
  obtain i where i: "fs_names w from = Some i" "take (length d) (fs_content w i) = d" using assms(4) by (auto simp: file_holds_def)
  have sz: "unat (of_nat (length d) :: u64) = length d" using assms(6) by (rule unat_of_nat_u64)
  from fs_create_empty [OF assms(1,2)] obtain j w1 where
    c: "fs_create to w = (Inr j, w1)" "fs_names w1 to = Some j" "fs_content w1 j = []" "only_path to w w1"
      "\<And>q i. q \<noteq> to \<Longrightarrow> fs_names w q = Some i \<Longrightarrow> i \<noteq> j" by metis
  note op = only_pathD [OF c(4)]
  have ij: "i \<noteq> j" using c(5) [OF assms(5) i(1)] .
  show ?thesis
  proof (cases "reflink from to \<and> fs_names w to = None")
    case True
    then have "new_file to w = (Inr j, w1)" using c(1) assms(1) by (simp add: fs_create_def guarded_def pop_fault_def)
    then have "reflink_or_copy E reflink from to (of_nat (length d)) p w = (Inr p, set_content j (fs_content w i) w1)"
      using True i(1) by (simp add: reflink_or_copy_def)
    moreover have "file_holds (set_content j (fs_content w i) w1) to d" using c(2) i(2) by (simp add: file_holds_def)
    ultimately show ?thesis using assms(3) only_path_set [OF c(4,2,5)] by auto
  next
    case False
    have o: "fs_open from w = (Inr i, w)" using assms(1) i(1) by (simp add: fs_open_def guarded_def pop_fault_def)
    have "take (length d) (fs_content w1 i) = d" using op(5) [OF assms(5) i(1)] i(2) by simp
    from copy_with_progress_copies [OF ij sz this op(2) assms(3), of 0] c(3) obtain p' where
      cp: "copy_with_progress E i (of_nat (length d)) j 0 p w1 = (Inr p', set_content j d w1)" "tx_left p' = None" by auto
    have "reflink_or_copy E reflink from to (of_nat (length d)) p w = (Inr p', set_content j d w1)"
      using False i(1) o c(1) cp(1) by (auto simp: reflink_or_copy_def io_then_def simp del: copy_with_progress.simps)
    moreover have "file_holds (set_content j d w1) to d" using c(2) by (simp add: file_holds_def)
    ultimately show ?thesis using cp(2) only_path_set [OF c(4,2,5)] by auto
  qed
qed

end

text \<open>The paths an entry refers to.\<close>

fun data_paths :: "(bytes, u64) data_location \<Rightarrow> path set" where
  "data_paths (ExternalData ps sz) = set ps"
| "data_paths dl = {}"

lemma only_path_located:
  assumes "only_path to w w'" "to \<notin> cx_paths E cx" "to \<notin> data_paths dl"
  shows "data_at E cx d w dl \<Longrightarrow> data_at E cx d w' dl" "outboard_at E cx ob M w ol \<Longrightarrow> outboard_at E cx ob M w' ol"
proof -
  have cxp: "cx_file E cx part \<noteq> to" for part using assms(2) by blast
  show "data_at E cx d w' dl" if "data_at E cx d w dl"
  proof (cases dl)
    case (ExternalData ps sz)
    have "\<exists>i. fs_names w' q = Some i \<and> take (length d) (fs_content w' i) = d" if q: "q \<in> set ps" for q
    proof -
      have "q \<noteq> to" using assms(3) q ExternalData by auto
      moreover obtain i where "fs_names w q = Some i" "take (length d) (fs_content w i) = d" using \<open>data_at E cx d w dl\<close> q ExternalData by auto
      ultimately show ?thesis using only_pathD(4,5) [OF assms(1)] by auto
    qed
    then show ?thesis using that ExternalData by simp
  next
    case (OwnedData sz)
    then show ?thesis using that only_pathD(4,5) [OF assms(1) cxp] by auto
  qed (use that in simp)
  show "outboard_at E cx ob M w' ol" if "outboard_at E cx ob M w ol"
    using that only_pathD(4,5) [OF assms(1) cxp] by (cases ol) auto
qed

lemma only_path_disk:
  assumes "only_path to w w'" "to \<notin> cx_paths E cx" "disk_ok E cx d w"
  shows "disk_ok E cx d w'"
proof -
  have cxp: "cx_file E cx part \<noteq> to" for part using assms(2) by blast
  have "saved_bitfield E cx w' = saved_bitfield E cx w"
    using only_pathD(4,5) [OF assms(1) cxp] by (simp add: saved_bitfield_def split: option.split)
  then show ?thesis using assms(3) only_pathD(4,5) [OF assms(1) cxp] by (fastforce simp: disk_ok_def)
qed

section \<open>Export to a file\<close>

text \<open>What an export to \<open>target\<close> leaves: the target holds the blob and the store still leads to it.\<close>

definition exported :: "('r, 'd) fs_env \<Rightarrow> ('d \<Rightarrow> bool) \<Rightarrow> ('d \<Rightarrow> hash \<Rightarrow> bytes entry_state option) \<Rightarrow> fs_ctx \<Rightarrow> bytes \<Rightarrow> bytes
    \<Rightarrow> nat set \<Rightarrow> path \<Rightarrow> 'd fs_world \<Rightarrow> 'd fs_world \<Rightarrow> bool" where
  "exported E okd view cx d ob M target w w' \<longleftrightarrow> file_holds w' target d \<and> stored E okd view cx d ob M w' \<and> fs_faults w' = []
     \<and> (\<forall>h. h \<noteq> cx_id cx \<longrightarrow> view (fw_db w') h = view (fw_db w) h)"

context file_store
begin

lemma stored_complete:
  "kept_on_disk M w \<Longrightarrow> view (fw_db w) (cx_id cx) = Some (CompleteEntry dl ol) \<Longrightarrow> data_at E cx d w dl \<and> outboard_at E cx ob M w ol"
  by (simp add: stored_def)

lemma only_path_exported:
  assumes "kept_on_disk M w" "view (fw_db w) (cx_id cx) = Some (CompleteEntry dl ol)" "only_path target w w'"
    "target \<notin> cx_paths E cx" "target \<notin> data_paths dl" "file_holds w' target d"
  shows "exported E okd view cx d ob M target w w'"
  using assms stored_complete [OF assms(1,2)] only_path_located [OF assms(3-5)] only_path_disk [OF assms(3,4)] only_pathD(1-3) [OF assms(3)]
  by (auto simp: exported_def stored_def)

text \<open>Recording new places of the data.\<close>

lemma set_exported:
  assumes "okd (fw_db w')" "fs_wf w'" "disk_ok E cx d w'" "fs_faults w' = []" "file_holds w' target d"
    "data_at E cx d w' (ExternalData ps (of_nat (length d)))" "outboard_at E cx ob M w' ol" "\<And>h. view (fw_db w') h = view (fw_db w) h"
  shows "\<exists>w2. db_call (dbo_set (fe_db E) (cx_id cx) (CompleteEntry (ExternalData ps (of_nat (length d))) ol)) w' = (Inr (), w2)
    \<and> exported E okd view cx d ob M target w w2"
proof -
  let ?e = "CompleteEntry (ExternalData ps (of_nat (length d))) ol"
  obtain s where s: "dbo_set (fe_db E) (cx_id cx) ?e (fw_db w') = (Inr (), s)" "okd s" "view s = (view (fw_db w'))(cx_id cx \<mapsto> ?e)"
    using set_view [OF assms(1)] by blast
  have "located E cx d ob M (with_db w' s) ?e" using assms(6,7) by (simp only: at_db located.simps simp_thms)
  then have "kept_on_disk M (with_db w' s)" using assms(2,3) s by (simp add: stored_def)
  then have "exported E okd view cx d ob M target w (with_db w' s)" using assms(4,5,8) s(3) by (simp add: exported_def file_holds_def)
  with s(1) show ?thesis by (simp add: db_call_def)
qed

lemma export_file_delivers:
  assumes "kept_on_disk M w" "view (fw_db w) (cx_id cx) = Some (CompleteEntry dl ol)" "fs_faults w = []" "tx_left p = None"
    "target \<notin> cx_paths E cx" "target \<notin> data_paths dl" "mode = TryReference \<Longrightarrow> saved_bitfield E cx w = None"
    "(dl = OwnedData (of_nat (length d)) \<and> source = cx_file E cx DataPart \<and> ext = [])
     \<or> (dl = ExternalData ext (of_nat (length d)) \<and> source \<in> set ext)"
  shows "\<exists>p' w'. export_file E cx reflink cross mode target ol source (of_nat (length d)) ext p w = (Inr p', w')
    \<and> tx_left p' = None \<and> exported E okd view cx d ob M target w w'"
proof -
  note disk = stored_disk [OF assms(1)]
  note loc = stored_complete [OF assms(1,2)]
  have ne: "source \<noteq> target" using assms(5,6,8) by auto
  have src: "file_holds w source d" using loc assms(8) by (auto simp: file_holds_def)
  obtain p1 w1 where c: "reflink_or_copy E reflink source target (of_nat (length d)) p w = (Inr p1, w1)" "tx_left p1 = None"
      "file_holds w1 target d" "only_path target w w1"
    using reflink_or_copy_copies [OF assms(3) disk(1) assms(4) src ne d_size] by blast
  have x: "exported E okd view cx d ob M target w w1" by (rule only_path_exported [OF assms(1,2) c(4) assms(5,6) c(3)])
  show ?thesis
  proof (cases mode)
    case CopyMode
    then show ?thesis using c(1,2) x by (simp add: export_file_def)
  next
    case TryReference
    show ?thesis
    proof (cases "ext = []")
      case False
      let ?ps = "take max_external_paths (sort_dedup (ext @ [target]))"
      have dl: "dl = ExternalData ext (of_nat (length d))" using assms(8) False by auto
      have sub: "set ?ps \<subseteq> insert target (set ext)" using set_take_subset set_sort_dedup by fastforce
      have nonempty: "?ps \<noteq> []" using set_sort_dedup [of "ext @ [target]"] by (auto simp: max_external_paths_def simp del: set_sort_dedup)
      have "data_at E cx d w1 dl" using only_path_located(1) [OF c(4) assms(5,6)] loc by blast
      then have "data_at E cx d w1 (ExternalData ?ps (of_nat (length d)))"
        using sub nonempty c(3) dl by (auto simp: file_holds_def)
      moreover have "outboard_at E cx ob M w1 ol" using only_path_located(2) [OF c(4) assms(5,6)] loc by blast
      ultimately obtain w2 where
        "db_call (dbo_set (fe_db E) (cx_id cx) (CompleteEntry (ExternalData ?ps (of_nat (length d))) ol)) w1 = (Inr (), w2)"
        "exported E okd view cx d ob M target w w2"
        using set_exported [of w1 target ?ps M ol w] disk(2) only_pathD(1-3) [OF c(4)] only_path_disk [OF c(4) assms(5) disk(3)] c(3) by auto
      with TryReference False c(1,2) show ?thesis by (simp add: export_file_def io_then_def)
    next
      case True
      then have dl: "dl = OwnedData (of_nat (length d))" "source = cx_file E cx DataPart" using assms(8) loc by auto
      then obtain i where i: "fs_names w source = Some i" "take (length d) (fs_content w i) = d" using loc by auto
      let ?w = "moved source target i w"
      have mv: "move_or_copy E reflink cross source target (of_nat (length d)) p w = (Inr p, ?w)"
        using assms(3) i(1) by (simp add: move_or_copy_def fs_rename_def guarded_def pop_fault_def)
      have cxp: "cx_file E cx part \<noteq> target" for part using assms(5) by blast
      have "saved_bitfield E cx ?w = None" using assms(7) [OF TryReference] cxp dl(2) by (auto simp: saved_bitfield_def split: option.split)
      then have "disk_ok E cx d ?w" by (simp add: disk_ok_def)
      moreover have "outboard_at E cx ob M ?w ol" using loc cxp dl(2) by (cases ol) auto
      ultimately obtain w2 where
        "db_call (dbo_set (fe_db E) (cx_id cx) (CompleteEntry (ExternalData [target] (of_nat (length d))) ol)) ?w = (Inr (), w2)"
        "exported E okd view cx d ob M target w w2"
        using set_exported [of ?w target "[target]" M ol w] disk(2) moved_wf [OF disk(1) i(1)] assms(3) i(2) by (auto simp: file_holds_def)
      with TryReference True mv assms(4) show ?thesis by (simp add: export_file_def io_then_def)
    qed
  qed
qed

lemma send_item_open: "tx_left p = None \<Longrightarrow> \<exists>p'. send_item x p w = (Inr p', w) \<and> tx_left p' = None"
  by (simp add: send_item_def send_def)

lemma export_path_delivers:
  assumes "kept_on_disk M w" "view (fw_db w) (cx_id cx) = Some (CompleteEntry dl ol)" "fs_faults w = []" "tx_left p = None"
    "absolute target" "target \<notin> cx_paths E cx" "target \<notin> data_paths dl" "mode = TryReference \<Longrightarrow> saved_bitfield E cx w = None"
  shows "\<exists>p' w'. fs_export_path_impl E cx absolute reflink cross mode target p w = (Inr p', w') \<and> exported E okd view cx d ob M target w w'"
proof -
  note disk = stored_disk [OF assms(1)]
  note loc = stored_complete [OF assms(1,2)]
  have g: "get_entry_state E cx w = (Inr (Some (CompleteEntry dl ol)), w)"
    using get [OF disk(2)] assms(2) not_empty by (simp add: get_entry_state_def db_call_def)
  have dir: "guarded (\<lambda>w. (Inr (), w)) w = (Inr (), w)" using assms(3) by (simp add: guarded_def pop_fault_def)
  show ?thesis
  proof (cases dl)
    case (InlineData bs)
    then have bs: "bs = d" using loc by simp
    from fs_create_empty [OF assms(3) disk(1)] obtain j w1 where
      c: "fs_create target w = (Inr j, w1)" "fs_names w1 target = Some j" "fs_content w1 j = []" "only_path target w w1"
        "\<And>q i. q \<noteq> target \<Longrightarrow> fs_names w q = Some i \<Longrightarrow> i \<noteq> j" by metis
    have wr: "fs_write_all_at (fe_Io E) j 0 bs w1 = (Inr (), set_content j d w1)"
      using write_all_eval [OF only_pathD(2) [OF c(4)]] c(3) bs by (simp add: io_write write_vec_end)
    have "exported E okd view cx d ob M target w (set_content j d w1)"
      by (rule only_path_exported [OF assms(1,2) only_path_set [OF c(4,2,5)] assms(6,7)]) (use c(2) in \<open>simp_all add: file_holds_def\<close>)
    moreover obtain p1 where p1: "send_item (ExportSize (of_nat (length bs))) p w = (Inr p1, w)" "tx_left p1 = None"
      using send_item_open [OF assms(4)] by blast
    ultimately show ?thesis using send_item_open [OF p1(2), of ExportDone "set_content j d w1"] InlineData assms(5) g dir c(1) wr
      by (auto simp: fs_export_path_impl_def io_then_ok export_data_def)
  next
    case (OwnedData sz)
    then have sz: "sz = of_nat (length d)" using loc by simp
    obtain p1 where p1: "send_item (ExportSize sz) p w = (Inr p1, w)" "tx_left p1 = None"
      using send_item_open [OF assms(4)] by blast
    obtain p2 w1 where "export_file E cx reflink cross mode target ol (cx_file E cx DataPart) sz [] p1 w = (Inr p2, w1)" "tx_left p2 = None"
      "exported E okd view cx d ob M target w w1"
      using export_file_delivers [OF assms(1-3) p1(2) assms(6-8), where mode = mode and reflink = reflink and cross = cross and source = "cx_file E cx DataPart" and ext = "[]"] OwnedData sz by auto
    with send_item_open [of p2 ExportDone w1] p1(1) OwnedData assms(5) g dir show ?thesis
      by (auto simp: fs_export_path_impl_def io_then_ok export_data_def)
  next
    case (ExternalData ps sz)
    then obtain q qs where sz: "sz = of_nat (length d)" "ps = q # qs" using loc by (cases ps) auto
    obtain p1 where p1: "send_item (ExportSize sz) p w = (Inr p1, w)" "tx_left p1 = None"
      using send_item_open [OF assms(4)] by blast
    obtain p2 w1 where "export_file E cx reflink cross mode target ol (q) sz ps p1 w = (Inr p2, w1)" "tx_left p2 = None"
      "exported E okd view cx d ob M target w w1"
      using export_file_delivers [OF assms(1-3) p1(2) assms(6-8), where mode = mode and reflink = reflink and cross = cross and source = "q" and ext = "ps"] ExternalData sz by auto
    with send_item_open [of p2 ExportDone w1] p1(1) ExternalData sz(2) assms(5) g dir show ?thesis
      by (auto simp: fs_export_path_impl_def io_then_ok export_data_def)
  qed
qed

text \<open>
  Exporting external data to the file it is read from: the file is truncated before it is read.
\<close>

lemma export_onto_source:
  assumes "kept_on_disk M w" "view (fw_db w) (cx_id cx) = Some (CompleteEntry (ExternalData (q # qs) sz) ol)" "fs_faults w = []"
    "tx_left p = None" "absolute q"
  shows "\<exists>w' i. fs_export_path_impl E cx absolute reflink cross mode q p w = (Inl (Fails UnexpectedEof), w')
    \<and> fs_names w' q = Some i \<and> fs_content w' i = [] \<and> view (fw_db w') = view (fw_db w)"
proof -
  note disk = stored_disk [OF assms(1)]
  note loc = stored_complete [OF assms(1,2)]
  have g: "get_entry_state E cx w = (Inr (Some (CompleteEntry (ExternalData (q # qs) sz) ol)), w)"
    using get [OF disk(2)] assms(2) not_empty by (simp add: get_entry_state_def db_call_def)
  have dir: "guarded (\<lambda>w. (Inr (), w)) w = (Inr (), w)" using assms(3) by (simp add: guarded_def pop_fault_def)
  obtain i where i: "fs_names w q = Some i" and sz: "sz = of_nat (length d)" using loc by auto
  obtain p1 where p1: "send_item (ExportSize sz) p w = (Inr p1, w)" using send_item_open [OF assms(4)] by blast
  let ?w = "set_content i [] w"
  have "unat sz = length d" using sz d_size by (simp add: unat_of_nat_u64)
  then have pos: "0 < sz" using d_nonempty by (simp add: word_less_nat_alt)
  then have n: "0 < unat (min 1048576 sz)" by (simp add: unat_min_u64 word_less_nat_alt)
  have cp: "copy_with_progress E i sz i 0 p1 ?w = (Inl (Fails UnexpectedEof), ?w)"
    using read_exact_eval [of ?w i 0 "unat (min 1048576 sz)"] assms(3) n pos by (subst copy_with_progress.simps) (simp add: Let_def)
  have "reflink_or_copy E reflink q q sz p1 w = (Inl (Fails UnexpectedEof), ?w)"
    using i assms(3) cp
    by (simp add: reflink_or_copy_def io_then_def fs_open_def fs_create_def guarded_def pop_fault_def del: copy_with_progress.simps)
  then have "export_file E cx reflink cross mode q ol q sz (q # qs) p1 w = (Inl (Fails UnexpectedEof), ?w)"
    by (cases mode) (simp_all add: export_file_def io_then_def)
  then have "fs_export_path_impl E cx absolute reflink cross mode q p w = (Inl (Fails UnexpectedEof), ?w)"
    using g dir p1 assms(5) by (simp add: fs_export_path_impl_def io_then_ok export_data_def) (simp add: io_then_def)
  then show ?thesis using i by auto
qed

end

end
