(* ===== verification/Fs_Ref.thy ===== *)
theory Fs_Ref
  imports Fs_Db Fs_Export Fs_Path
begin

text \<open>
  A file store whose parameters are the reference implementations: range sets as sorted lists,
  positioned writes on lists of bytes, the tables as association lists, and a serialization with a
  checksum. It satisfies the laws the theorems on the file store rest on.
\<close>

section \<open>Serialization\<close>

fun words_of :: "bytes \<Rightarrow> u64 list" where
  "words_of bs = (if length bs < 8 then [] else from_le_bytes (take 8 bs) # words_of (drop 8 bs))"

declare words_of.simps [simp del]

lemma words_of_concat: "words_of (concat (map to_le_bytes xs)) = xs"
  by (induction xs) (simp_all add: words_of.simps [of "to_le_bytes _ @ _"] words_of.simps [of "[]"] le_bytes_round_trip)

definition ref_encode :: "rset bitfield \<Rightarrow> bytes" where
  "ref_encode bf = concat (map to_le_bytes (bf_size bf # boundaries_of (bf_ranges bf)))"

definition ref_decode :: "bytes \<Rightarrow> rset bitfield option" where
  "ref_decode bs = (case words_of bs of
     [] \<Rightarrow> None
   | sz # bounds \<Rightarrow> map_option (\<lambda>r. \<lparr>bf_size = sz, bf_ranges = r\<rparr>) (rset_new bounds))"

definition ref_serial :: "rset serial_ops" where
  "ref_serial = \<lparr>se_encode = ref_encode, se_decode = ref_decode, se_checksum = (\<lambda>bs. le_digits 32 (length bs))\<rparr>"

lemma ref_decode_encode: "ref_decode (ref_encode bf) = Some bf"
  by (simp add: ref_decode_def ref_encode_def words_of_concat [of "_ # _", simplified] rset_new_def sorted_boundaries_of Rset_boundaries_of)

lemma length_ref_encode: "length (ref_encode bf) < 256 ^ 32"
proof -
  let ?b = "boundaries_of (bf_ranges bf)"
  have "distinct ?b" using sorted_boundaries_of [of "bf_ranges bf"] by (simp add: strict_sorted_iff)
  then have "length ?b = card (set ?b)" by (simp add: distinct_card)
  also have "\<dots> \<le> CARD(u64)" by (rule card_mono) simp_all
  also have "\<dots> = 2 ^ 64" by (simp add: card_word)
  finally have "length ?b \<le> 2 ^ 64" .
  moreover have "length (ref_encode bf) = 8 * (1 + length ?b)"
    by (simp add: ref_encode_def length_concat o_def le_bytes_round_trip(2) sum_list_triv)
  ultimately show ?thesis by simp
qed

section \<open>The environment\<close>

type_synonym ref_db = "((hash, unit entry_state) btree, (tag, hash_and_format) btree, (hash, bytes) btree) txn option"

definition ref_env :: "(rset, ref_db) fs_env" where
  "ref_env = \<lparr>fe_R = ref_ops, fe_B = ref_chunk_ops, fe_Io = ref_io, fe_X = ref_hex, fe_S = ref_serial,
     fe_outboard_size = (\<lambda>_. 0), fe_valid_ranges = (\<lambda>_ _ _ _. []), fe_db = meta_db_ops ref_redb\<rparr>"

lemma ref_env_simps [simp]:
  "fe_R ref_env = ref_ops" "fe_B ref_env = ref_chunk_ops" "fe_Io ref_env = ref_io" "fe_X ref_env = ref_hex" "fe_S ref_env = ref_serial"
  "fe_outboard_size ref_env sz = 0" "fe_valid_ranges ref_env h sz o' d' = []" "fe_db ref_env = meta_db_ops ref_redb"
  by (simp_all add: ref_env_def)

interpretation reff: fs_laws ref_env
proof (intro fs_laws.intro fs_laws_axioms.intro)
  show "store_laws (fe_R ref_env) (fe_B ref_env) (fe_Io ref_env)" using refs.store_laws_axioms by simp
  show "se_decode (fe_S ref_env) (se_encode (fe_S ref_env) bf) = Some bf" for bf by (simp add: ref_serial_def ref_decode_encode)
  show "length (se_checksum (fe_S ref_env) bs) = 32" for bs by (simp add: ref_serial_def le_digits_def)
  show "se_checksum (fe_S ref_env) (take n (se_encode (fe_S ref_env) bf)) \<noteq> se_checksum (fe_S ref_env) (se_encode (fe_S ref_env) bf)"
    if "n < length (se_encode (fe_S ref_env) bf)" for n bf
    using that length_ref_encode [of bf] le_digits_inject [of n 32 "length (ref_encode bf)"] by (auto simp: ref_serial_def min_def)
qed

text \<open>A blob of three bytes.\<close>

definition ref_cx :: fs_ctx where
  "ref_cx = \<lparr>cx_id = from_bytes [7], cx_path = \<lparr>po_data = [[1]], po_temp = [[2]]\<rparr>, cx_max_data_inlined = 0, cx_max_outboard_inlined = 0\<rparr>"

abbreviation ref_okd :: "ref_db \<Rightarrow> bool" where
  "ref_okd \<equiv> db_ok (meta_ok bt_ok bt_get bt_ok bt_ok bt_get)"

abbreviation ref_view :: "ref_db \<Rightarrow> hash \<Rightarrow> bytes entry_state option" where
  "ref_view \<equiv> db_view (meta_view bt_get bt_get)"

lemma ref_cx_not_empty: "cx_id ref_cx \<noteq> hash_empty"
proof
  assume "cx_id ref_cx = hash_empty"
  then have "as_bytes (from_bytes [7]) = as_bytes hash_empty" by (simp add: ref_cx_def)
  then show False by (simp add: hash_empty_def as_bytes_from_bytes as_bytes_from_bytes_padded)
qed

lemma ref_blob_laws: "d \<noteq> [] \<Longrightarrow> length d < 2 ^ 64 \<Longrightarrow> blob ref_env ref_cx d []"
  by (intro blob.intro blob_axioms.intro reff.fs_laws_axioms) simp_all

lemma ref_file_store: "d \<noteq> [] \<Longrightarrow> length d < 2 ^ 64 \<Longrightarrow> file_store ref_env ref_cx d [] ref_okd ref_view"
  by (intro file_store.intro file_store_axioms.intro ref_blob_laws ref_cx_not_empty) (simp_all add: refdb.entry_db_axioms)

interpretation refb: blob ref_env ref_cx "[1, 2, 3]" "[]"
  by (rule ref_blob_laws) simp_all

interpretation reffs: file_store ref_env ref_cx "[1, 2, 3]" "[]" ref_okd ref_view
  by (rule ref_file_store) simp_all

end
