(* ===== verification/Fs_Reach.thy ===== *)
theory Fs_Reach
  imports Fs_Ref
begin

text \<open>
  The life of one blob in the file store: loading and batches of verified items, the end of an
  entity actor and its reuse, crashes of the process, and faults of the file system at any point.
\<close>

section \<open>The steps\<close>

text \<open>
  The tasks on a blob run interleaved; what they do at once is a load or a batch. Once the entry of the
  blob is complete, the metadata actor removes the files of a partial blob, its sizes and its bitfield,
  at some time after the commit (an external file of the entry is none of them). Faults are arbitrary
  but for short positioned writes, whose count \<open>SparseMemFile::persist\<close> ignores.
\<close>

inductive fs_step :: "('r, 'd) fs_env \<Rightarrow> fs_ctx \<Rightarrow> bytes \<Rightarrow> bytes \<Rightarrow> 'r bao_storage \<times> 'd fs_world \<Rightarrow> (failure + unit) \<Rightarrow> 'r bao_storage \<times> 'd fs_world \<Rightarrow> bool"
  for E :: "('r, 'd) fs_env" and cx :: fs_ctx and d ob :: bytes where
  step_load: "cx_load E cx st w = (r, st', w') \<Longrightarrow> fs_step E cx d ob (st, w) r (st', w')"
| step_write: "batch_ok E d ob batch bf \<Longrightarrow> st \<noteq> Initial \<Longrightarrow> no_short w \<Longrightarrow> cx_write_batch E cx batch bf st w = (r, st', w') \<Longrightarrow>
    fs_step E cx d ob (st, w) r (st', w')"
| step_persist: "cx_persist E cx st w = (r, st', w') \<Longrightarrow> fs_step E cx d ob (st, w) r (st', w')"
| step_reset: "fs_step E cx d ob (st, w) (Inr ()) (handle_reset st, w)"
| step_cleanup: "dbo_get (fe_db E) (cx_id cx) (fw_db w) = (Inr (Some (CompleteEntry dl ol)), s) \<Longrightarrow> p \<in> {SizesPart, BitfieldPart} \<Longrightarrow>
    cx_file E cx p \<notin> data_paths dl \<Longrightarrow> fs_step E cx d ob (st, w) (Inr ()) (st, w\<lparr>fs_names := (fs_names w)(cx_file E cx p := None)\<rparr>)"
| step_faults: "fs_step E cx d ob (st, w) (Inr ()) (st, w\<lparr>fs_faults := fs\<rparr>)"

abbreviation fs_run :: "('r, 'd) fs_env \<Rightarrow> fs_ctx \<Rightarrow> bytes \<Rightarrow> bytes \<Rightarrow> 'r bao_storage \<times> 'd fs_world \<Rightarrow> 'r bao_storage \<times> 'd fs_world \<Rightarrow> bool" where
  "fs_run E cx d ob \<equiv> (\<lambda>s s'. \<exists>r. fs_step E cx d ob s r s')\<^sup>*\<^sup>*"

text \<open>
  A crash of the process loses the handle, the marks for deletion and the transaction that is not
  committed: the database is again what it was at some moment since the process began. The files keep
  their names and what was written.
\<close>

definition crashed :: "'d fs_world \<Rightarrow> 'd \<Rightarrow> 'd fs_world" where
  "crashed w D = w\<lparr>fw_delete := {}, fw_db := D\<rparr>"

inductive fs_reach :: "('r, 'd) fs_env \<Rightarrow> fs_ctx \<Rightarrow> bytes \<Rightarrow> bytes \<Rightarrow> 'd fs_world \<Rightarrow> 'r bao_storage \<times> 'd fs_world \<Rightarrow> bool"
  for E :: "('r, 'd) fs_env" and cx :: fs_ctx and d ob :: bytes and w0 :: "'d fs_world" where
  reach_start: "fs_reach E cx d ob w0 (Initial, w0)"
| reach_step: "fs_reach E cx d ob w0 s \<Longrightarrow> fs_step E cx d ob s r s' \<Longrightarrow> fs_reach E cx d ob w0 s'"
| reach_crash: "fs_reach E cx d ob w0 (st1, w1) \<Longrightarrow> fs_run E cx d ob (st1, w1) (st, w) \<Longrightarrow> fs_reach E cx d ob w0 (Initial, crashed w (fw_db w1))"

text \<open>What holds between the steps.\<close>

definition life_inv :: "('r, 'd) fs_env \<Rightarrow> ('d \<Rightarrow> bool) \<Rightarrow> ('d \<Rightarrow> hash \<Rightarrow> bytes entry_state option) \<Rightarrow> fs_ctx \<Rightarrow> bytes \<Rightarrow> bytes
    \<Rightarrow> 'r bao_storage \<times> 'd fs_world \<Rightarrow> bool" where
  "life_inv E okd view cx d ob s \<longleftrightarrow> (case s of (st, w) \<Rightarrow>
     (\<exists>M. entity_inv E okd view cx d ob M st w \<and> settled E d st)
     \<or> (st \<in> {Initial, Poisoned} \<and> (\<exists>M. stored E okd view cx d ob M w)))"

lemma life_stored: "life_inv E okd view cx d ob (st, w) \<Longrightarrow> \<exists>M. stored E okd view cx d ob M w"
  by (auto simp: life_inv_def entity_inv_def)

lemma outcome_life:
  assumes "fs_outcome E okd view cx d ob M P (Inr ()) w (r, st', w')" "\<And>st. P st \<Longrightarrow> settled E d st"
  shows "life_inv E okd view cx d ob (st', w') \<and> r \<noteq> Inl Panics"
  using assms by (fastforce simp: fs_outcome_def life_inv_def)

lemma settled_not_initial: "settled E d st \<Longrightarrow> st \<noteq> Initial \<and> st \<noteq> Poisoned"
  by (auto simp: settled_def)

lemma inv_with_faults:
  "stored E okd view cx d ob M (w\<lparr>fs_faults := fs\<rparr>) = stored E okd view cx d ob M w"
  "entity_inv E okd view cx d ob M st (w\<lparr>fs_faults := fs\<rparr>) = entity_inv E okd view cx d ob M st w"
proof -
  have d: "data_part_is d (w\<lparr>fs_faults := fs\<rparr>) p = data_part_is d w p" for p
    by (cases "(d, w, p)" rule: data_part_is.cases) simp_all
  have o: "outboard_part_is ob M (w\<lparr>fs_faults := fs\<rparr>) q = outboard_part_is ob M w q" for q by (cases q) simp_all
  have da: "data_at E cx d (w\<lparr>fs_faults := fs\<rparr>) dl = data_at E cx d w dl" for dl by (cases dl) simp_all
  have oa: "outboard_at E cx ob M (w\<lparr>fs_faults := fs\<rparr>) ol = outboard_at E cx ob M w ol" for ol by (cases ol) simp_all
  have l: "located E cx d ob M (w\<lparr>fs_faults := fs\<rparr>) e = located E cx d ob M w e" for e
    by (cases e) (simp_all only: located.simps da oa)
  have sv: "saved_bitfield E cx (w\<lparr>fs_faults := fs\<rparr>) = saved_bitfield E cx w"
    by (simp add: saved_bitfield_def split: option.split)
  show s: "stored E okd view cx d ob M (w\<lparr>fs_faults := fs\<rparr>) = stored E okd view cx d ob M w"
    by (simp add: stored_def fs_wf_def disk_ok_def sv outboard_disk_def l split: option.split)
  have "storage_inv E cx d ob M (w\<lparr>fs_faults := fs\<rparr>) st = storage_inv E cx d ob M w st"
    by (cases st) (simp_all add: complete_inv_def d o files_agree_def linked_def fs_wf_def)
  then show "entity_inv E okd view cx d ob M st (w\<lparr>fs_faults := fs\<rparr>) = entity_inv E okd view cx d ob M st w"
    by (simp add: entity_inv_def s)
qed

lemma crashed_simps [simp]:
  "fs_names (crashed w D) = fs_names w" "fs_content (crashed w D) = fs_content w" "fs_fresh (crashed w D) = fs_fresh w" "fw_db (crashed w D) = D"
  by (simp_all add: crashed_def)

lemma located_crashed: "located E cx d ob M (crashed w D) e = located E cx d ob M w e"
proof -
  have da: "data_at E cx d (crashed w D) dl = data_at E cx d w dl" for dl by (cases dl) simp_all
  have "outboard_at E cx ob M (crashed w D) ol = outboard_at E cx ob M w ol" for ol by (cases ol) simp_all
  with da show ?thesis by (cases e) (simp_all only: located.simps)
qed

text \<open>
  A state of the database that is not later than that of the world: its entry of the blob may be
  overtaken, but not if it is complete.
\<close>

definition earlier :: "('d \<Rightarrow> bool) \<Rightarrow> ('d \<Rightarrow> hash \<Rightarrow> bytes entry_state option) \<Rightarrow> fs_ctx \<Rightarrow> bytes \<Rightarrow> 'd \<Rightarrow> 'd fs_world \<Rightarrow> bool" where
  "earlier okd view cx d D w \<longleftrightarrow> okd D \<and> (case view D (cx_id cx) of
     None \<Rightarrow> True
   | Some (PartialEntry sz) \<Rightarrow> sz = None \<or> sz = Some (of_nat (length d))
   | Some (CompleteEntry dl ol) \<Rightarrow> view (fw_db w) (cx_id cx) = Some (CompleteEntry dl ol))"

lemma earlier_refl: "stored E okd view cx d ob M w \<Longrightarrow> earlier okd view cx d (fw_db w) w"
  by (auto simp: earlier_def stored_def split: option.splits entry_state.splits)

lemma stored_crashed:
  assumes "stored E okd view cx d ob M w" "earlier okd view cx d D w"
  shows "stored E okd view cx d ob {} (crashed w D)"
proof -
  have s: "stored E okd view cx d ob {} w" using assms(1) by (rule stored_weaken)
  have sv: "saved_bitfield E cx (crashed w D) = saved_bitfield E cx w" by (simp add: saved_bitfield_def split: option.split)
  have "fs_wf (crashed w D)" "disk_ok E cx d (crashed w D)" using s sv by (simp_all add: stored_def fs_wf_def disk_ok_def)
  then show ?thesis using s assms(2)
    by (auto simp: stored_def earlier_def located_crashed outboard_disk_def split: option.splits entry_state.splits)
qed

text \<open>A name that no complete entry uses can go.\<close>

lemma cleanup_stored:
  fixes w :: "'d fs_world"
  assumes "stored E okd view cx d ob M w" "view (fw_db w) (cx_id cx) = Some (CompleteEntry dl ol)" "p \<in> {SizesPart, BitfieldPart}"
    "cx_file E cx p \<notin> data_paths dl"
  defines "w' \<equiv> w\<lparr>fs_names := (fs_names w)(cx_file E cx p := None)\<rparr>"
  shows "stored E okd view cx d ob M w'"
proof -
  have "data_at E cx d w dl" "outboard_at E cx ob M w ol" using assms(1,2) by (simp_all add: stored_def)
  then have "data_at E cx d w' dl" "outboard_at E cx ob M w' ol"
    using assms(3,4) by (cases dl; cases ol; auto simp: w'_def)+
  moreover have "fs_wf w'" using assms(1) by (auto simp: stored_def fs_wf_def w'_def)
  moreover have "saved_bitfield E cx w' = (if p = BitfieldPart then None else saved_bitfield E cx w)"
    using assms(3) by (auto simp: saved_bitfield_def w'_def split: option.split)
  then have "disk_ok E cx d w'" using assms(1,3) by (auto simp: stored_def disk_ok_def w'_def)
  ultimately show ?thesis using assms(1,2) by (simp add: stored_def w'_def)
qed

context file_store
begin

lemma load_life:
  assumes "life_inv E okd view cx d ob (st, w)" "cx_load E cx st w = (r, st', w')"
  shows "life_inv E okd view cx d ob (st', w') \<and> r \<noteq> Inl Panics"
proof (cases "st = Initial")
  case True
  from life_stored [OF assms(1)] obtain M where "kept_on_disk M w" by blast
  from cx_load_outcome [OF this] have "outcome M (settled E d) w (r, st', w')" using True assms(2) by simp
  then show ?thesis by (rule outcome_life)
next
  case False
  then have "(r, st', w') = (Inr (), st, w)" using assms(2) by (cases st) (simp_all add: cx_load_def)
  then show ?thesis using assms(1) by simp
qed

lemma batch_life:
  assumes "life_inv E okd view cx d ob (st, w)" "batch_ok E d ob batch bf" "no_short w" "cx_write_batch E cx batch bf st w = (r, st', w')"
  shows "life_inv E okd view cx d ob (st', w') \<and> r \<noteq> Inl Panics"
proof (cases "\<exists>M. inv M st w \<and> settled E d st")
  case True
  then obtain M where "inv M st w" "settled E d st" by blast
  from cx_write_settled [OF this assms(2,3)] assms(4)
  show ?thesis by (intro outcome_life [where P = "\<lambda>st'. settled E d st' \<and> storage_have E d st' = storage_have E d st \<union> have_bytes (fe_R E) d bf"]) simp_all
next
  case False
  then have "st \<in> {Initial, Poisoned}" using assms(1) by (auto simp: life_inv_def)
  then have "(r, st', w') = (Inr (), st, w)" using assms(4) cx_write_batch_unusable [of st E cx batch bf w] by auto
  then show ?thesis using assms(1) by simp
qed

lemma persist_life:
  assumes "life_inv E okd view cx d ob (st, w)" "cx_persist E cx st w = (r, st', w')"
  shows "life_inv E okd view cx d ob (st', w') \<and> r \<noteq> Inl Panics"
proof (cases "\<exists>M. inv M st w")
  case True
  then show ?thesis using cx_persist_stored assms(2) by (fastforce simp: life_inv_def)
next
  case False
  then have "st \<in> {Initial, Poisoned}" using assms(1) by (auto simp: life_inv_def)
  then have "(r, st', w') = (Inr (), Poisoned, w)" using assms(2) by (auto simp: cx_persist_def)
  then show ?thesis using life_stored [OF assms(1)] by (simp add: life_inv_def)
qed

lemma initial_life: "life_inv E okd view cx d ob (st, w) \<Longrightarrow> life_inv E okd view cx d ob (Initial, w)"
  by (drule life_stored) (simp add: life_inv_def)

lemma cleanup_life:
  assumes "life_inv E okd view cx d ob (st, w)" "dbo_get (fe_db E) (cx_id cx) (fw_db w) = (Inr (Some (CompleteEntry dl ol)), s)"
    "p \<in> {SizesPart, BitfieldPart}" "cx_file E cx p \<notin> data_paths dl"
  shows "life_inv E okd view cx d ob (st, w\<lparr>fs_names := (fs_names w)(cx_file E cx p := None)\<rparr>)" (is "life_inv _ _ _ _ _ _ (_, ?w)")
proof -
  obtain M0 where M0: "kept_on_disk M0 w" using life_stored [OF assms(1)] by blast
  then have v: "view (fw_db w) (cx_id cx) = Some (CompleteEntry dl ol)" using assms(2) get [OF stored_disk(2) [OF M0], of "cx_id cx"] by auto
  have st: "kept_on_disk M ?w" if "kept_on_disk M w" for M using cleanup_stored [OF that v assms(3,4)] .
  show ?thesis
  proof (cases "\<exists>M. inv M st w \<and> settled E d st")
    case True
    then obtain M where M: "inv M st w" "settled E d st" by blast
    then obtain cs where cs: "st = CompleteBao cs" using v by (cases st) (auto simp: entity_inv_def settled_def)
    have "data_part_is d ?w (cs_data cs) = data_part_is d w (cs_data cs)"
      by (cases "(d, w, cs_data cs)" rule: data_part_is.cases) simp_all
    moreover have "outboard_part_is ob M ?w (cs_outboard cs) = outboard_part_is ob M w (cs_outboard cs)" by (cases "cs_outboard cs") simp_all
    ultimately have "inv M st ?w" using M(1) st [of M] cs by (simp add: entity_inv_def complete_inv_def)
    then show ?thesis using M(2) by (auto simp: life_inv_def)
  next
    case False
    then show ?thesis using assms(1) st [OF M0] by (auto simp: life_inv_def)
  qed
qed

lemma step_life:
  assumes "fs_step E cx d ob s r s'" "life_inv E okd view cx d ob s"
  shows "life_inv E okd view cx d ob s' \<and> r \<noteq> Inl Panics"
  using assms
proof (cases rule: fs_step.cases)
  case (step_load st w st' w')
  then show ?thesis using load_life assms(2) by blast
next
  case (step_write batch bf st w st' w')
  then show ?thesis using batch_life assms(2) by blast
next
  case (step_persist st w st' w')
  then show ?thesis using persist_life assms(2) by blast
next
  case (step_faults st w fs)
  then show ?thesis using assms(2) by (simp add: life_inv_def inv_with_faults)
next
  case (step_reset st w)
  then show ?thesis using assms(2) initial_life by (simp add: handle_reset_def)
next
  case (step_cleanup w dl ol s' p st)
  then show ?thesis using cleanup_life assms(2) by blast
qed

text \<open>A complete entry stays as it is.\<close>

lemma complete_stays:
  assumes "fs_step E cx d ob (st, w) r (st', w')" "life_inv E okd view cx d ob (st, w)" "view (fw_db w) (cx_id cx) = Some (CompleteEntry dl ol)"
  shows "fw_db w' = fw_db w"
proof -
  obtain M0 where M0: "kept_on_disk M0 w" using life_stored [OF assms(2)] by blast
  have st: "st \<in> {Initial, Poisoned} \<or> (\<exists>cs. st = CompleteBao cs)"
    using assms(2,3) by (cases st) (auto simp: life_inv_def entity_inv_def settled_def)
  from assms(1) show ?thesis
  proof (cases rule: fs_step.cases)
    case step_load
    show ?thesis
    proof (cases "st = Initial")
      case True
      from cx_load_complete [OF M0 assms(3)] step_load True have "only_files {} w w'" by auto
      from world_more [OF only_filesD(3) [OF this]] show ?thesis by simp
    next
      case False
      then show ?thesis using step_load st by (auto simp: cx_load_def)
    qed
  next
    case (step_write batch bf)
    then show ?thesis using st cx_write_batch_unusable [of st E cx batch bf w] by (auto simp: cx_write_batch_def)
  next
    case step_persist
    then show ?thesis using st by (auto simp: cx_persist_def)
  qed simp_all
qed

lemma run_life:
  assumes "fs_run E cx d ob (st1, w1) s" "life_inv E okd view cx d ob (st1, w1)"
  shows "life_inv E okd view cx d ob s \<and> earlier okd view cx d (fw_db w1) (snd s)"
  using assms(1)
proof (induction rule: rtranclp_induct)
  case base
  from life_stored [OF assms(2)] obtain M where "kept_on_disk M w1" by blast
  with earlier_refl assms(2) show ?case by fastforce
next
  case (step s s')
  obtain st w st' w' where s: "s = (st, w)" "s' = (st', w')" by (metis surj_pair)
  with step obtain r where r: "fs_step E cx d ob (st, w) r (st', w')" by blast
  have "earlier okd view cx d (fw_db w1) w'"
    using step.IH s complete_stays [OF r] by (auto simp: earlier_def split: option.splits entry_state.splits)
  then show ?case using step_life [OF r] step.IH s by simp
qed

lemma start_life: "kept_on_disk M w \<Longrightarrow> life_inv E okd view cx d ob (Initial, w)"
  by (auto simp: life_inv_def)

lemma reach_life:
  assumes "fs_reach E cx d ob w0 s" "kept_on_disk M w0"
  shows "life_inv E okd view cx d ob s"
  using assms(1)
proof (induction rule: fs_reach.induct)
  case reach_start
  show ?case using assms(2) by (rule start_life)
next
  case (reach_step s r s')
  then show ?case using step_life by blast
next
  case (reach_crash st1 w1 st w)
  from run_life [OF reach_crash.hyps(2) reach_crash.IH] have l: "life_inv E okd view cx d ob (st, w)" "earlier okd view cx d (fw_db w1) w" by simp_all
  from life_stored [OF l(1)] obtain M' where "kept_on_disk M' w" by blast
  from start_life [OF stored_crashed [OF this l(2)]] show ?case .
qed

end

end
