(* ===== verification/Fs_Correct.thy ===== *)
theory Fs_Correct
  imports Fs_Reach
begin

text \<open>
  The properties of the file store on one blob, over the laws of its parameters (locale
  \<open>file_store\<close>) and with the reference parameters as witnesses.
\<close>

section \<open>Supporting facts\<close>

context file_store
begin

lemma complete_data: "inv M (CompleteBao cs) w \<Longrightarrow> data_part_is d w (cs_data cs)"
  by (simp add: entity_inv_def complete_inv_def)

lemma no_faults_mono: "set (fs_faults w') \<subseteq> set (fs_faults w) \<Longrightarrow> fs_faults w = [] \<Longrightarrow> fs_faults w' = []"
  by simp

lemma load_inv:
  assumes "kept_on_disk M w" "fs_faults w = []"
  shows "\<exists>M' st w'. cx_load E cx Initial w = (Inr (), st, w') \<and> M \<subseteq> M' \<and> inv M' st w' \<and> settled E d st \<and> fs_faults w' = []"
  using cx_load_outcome [OF assms(1)] assms(2) by (cases "cx_load E cx Initial w") (auto simp: fs_outcome_def)

lemma import_completes:
  assumes "kept_on_disk M w" "fs_faults w = []" "\<forall>item\<in>set items. item_of (fe_Io E) d ob item" "data_spans items = {..<length d}"
  shows "\<exists>M' cs w'. fs_import_bao E cx (of_nat (length d)) None items Initial w = (Inr (), CompleteBao cs, w')
    \<and> inv M' (CompleteBao cs) w' \<and> others_kept E view cx w w' \<and> fs_faults w' = []"
proof -
  have "no_short w" using assms(2) by (simp add: no_short_def)
  from fs_import_bao_outcome [OF assms(1) this assms(3), of None] obtain M' st w' where
    o: "fs_import_bao E cx (of_nat (length d)) None items Initial w = (Inr (), st, w')" "inv M' st w'" "settled E d st"
      "data_spans items \<subseteq> storage_have E d st" "others_kept E view cx w w'" "fs_faults w' = []"
    using assms(2) by (cases "fs_import_bao E cx (of_nat (length d)) None items Initial w") (auto simp: fs_outcome_def import_result_def)
  have "storage_have E d st \<subseteq> {..<length d}" by (cases st) (auto simp: have_bytes_def)
  then have "storage_have E d st = {..<length d}" using o(4) assms(4) by simp
  then obtain cs where "st = CompleteBao cs" using o(3) by (auto simp: settled_def)
  with o show ?thesis by blast
qed

lemma reopen_complete:
  assumes "inv M (CompleteBao cs) w" "fs_faults w = []"
  shows "\<exists>cs' w'. cx_load E cx Initial w = (Inr (), CompleteBao cs', w') \<and> inv M (CompleteBao cs') w'"
proof -
  obtain dl ol where v: "view (fw_db w) (cx_id cx) = Some (CompleteEntry dl ol)" and k: "kept_on_disk M w"
    using assms(1) by (auto simp: entity_inv_def)
  from cx_load_complete [OF k v] assms(2) show ?thesis by auto
qed

lemma import_items_lost:
  assumes "\<forall>item\<in>set items. item_of (fe_Io E) d ob item"
  shows "import_items E cx (of_nat (length d)) None batch ranges items Poisoned w = (Inr (), Poisoned, w)"
  using assms
proof (induction items arbitrary: batch ranges)
  case Nil
  then show ?case by (simp add: cx_write_batch_unusable cx_io_def)
next
  case (Cons item items)
  then have it: "item_of (fe_Io E) d ob item" and rest: "\<forall>item\<in>set items. item_of (fe_Io E) d ob item" by simp_all
  note IH = Cons.IH [OF rest]
  show ?case unfolding import_items_next [OF it] using IH by (simp add: cx_then_def cx_write_batch_unusable)
qed

end

lemma fs_export_loop_ends:
  assumes "unat e + 1024 < 2 ^ 64"
  shows "\<exists>y. fs_export_loop E st sent off e w = Some y"
proof -
  have below: "\<exists>y. fs_export_loop E st sent off e w = Some y" if "off \<le> e" for off sent w
    using that
  proof (induction "unat e - unat off" arbitrary: off sent w rule: less_induct)
    case less
    have le: "unat off \<le> unat e" using less.prems by (simp add: word_le_nat_alt)
    have o1: "unat (off + 1024) = unat off + 1024" using le assms by (simp add: unat_add_u64)
    show ?case
    proof (cases "e \<le> off + 1024")
      case True
      then have "min (off + 1024) e = e" by (simp add: min_def)
      then show ?thesis by (subst fs_export_loop.simps) (auto simp: Let_def split: prod.split sum.split)
    next
      case False
      then have lt: "off + 1024 \<le> e" by (simp add: not_le less_imp_le)
      then have m: "min (off + 1024) e = off + 1024" by (simp add: min_def)
      have "unat e - unat (off + 1024) < unat e - unat off" using False o1 by (simp add: word_le_nat_alt)
      from less.hyps [OF this lt] show ?thesis
        by (subst fs_export_loop.simps) (auto simp: Let_def m split: prod.split sum.split)
    qed
  qed
  show ?thesis
    by (subst fs_export_loop.simps) (auto simp: Let_def min_def simp del: split_paired_Ex intro: below split: prod.split sum.split)
qed

lemma bao_write_batch_shape:
  "bao_write_batch E cx batch bf st w = (Inr (st', u), w') \<Longrightarrow>
    (writable st \<longrightarrow> (\<exists>fs. st' = PartialFile fs) \<or> (\<exists>cs. st' = CompleteBao cs)) \<and> (\<not> writable st \<longrightarrow> st' = st)"
  by (cases st) (auto simp: pm_write_batch_def pf_updated_def io_then_Inr Let_def split_def split: option.splits if_splits)

lemma bao_open_shape:
  "bao_open E cx e w = (Inr st, w') \<Longrightarrow> st = NonExisting \<or> (\<exists>fs. st = PartialFile fs) \<or> (\<exists>cs. st = CompleteBao cs)"
  by (auto simp: bao_open_def new_partial_file_def io_then_Inr split: option.splits entry_state.splits if_splits)

section \<open>Reference worlds\<close>

definition ref_tables :: "((hash, unit entry_state) btree, (tag, hash_and_format) btree, (hash, bytes) btree) db" where
  "ref_tables = \<lparr>db_blobs = [], db_tags = [], db_inline_data = [], db_inline_outboard = []\<rparr>"

definition ref_world :: "(path \<rightharpoonup> nat) \<Rightarrow> (nat \<Rightarrow> bytes) \<Rightarrow> nat \<Rightarrow> fault list \<Rightarrow> (hash, unit entry_state) btree \<Rightarrow> ref_db fs_world" where
  "ref_world names content' n faults entries = \<lparr>fs_names = names, fs_content = content', fs_fresh = n, fs_faults = faults,
     fw_delete = {}, fw_db = Some \<lparr>tn_db = ref_tables\<lparr>db_blobs := entries\<rparr>, tn_ftx = {}, tn_protected = {}\<rparr>\<rparr>"

lemma ref_world_simps [simp]:
  "fs_names (ref_world n c k f es) = n" "fs_content (ref_world n c k f es) = c" "fs_fresh (ref_world n c k f es) = k"
  "fs_faults (ref_world n c k f es) = f"
  by (simp_all add: ref_world_def)

abbreviation ref_blob :: bytes where
  "ref_blob \<equiv> [1, 2, 3]"

lemma ref_empty_stored: "stored ref_env ref_okd ref_view ref_cx d [] {} (ref_world Map.empty c 0 f [])"
  by (simp add: stored_def ref_world_def ref_tables_def fs_wf_def db_ok_def meta_ok_def disk_ok_def saved_bitfield_def meta_view_def bt_get_def)

lemma ref_partial_stored: "stored ref_env ref_okd ref_view ref_cx d [] {} (ref_world Map.empty c 0 f [(cx_id ref_cx, PartialEntry None)])"
  by (simp add: stored_def ref_world_def ref_tables_def fs_wf_def db_ok_def meta_ok_def disk_ok_def saved_bitfield_def meta_view_def bt_get_def
      filled_def fill_entry_def outboard_disk_def)

lemma ref_items: "\<forall>item\<in>set [Leaf 0 ref_blob]. item_of (fe_Io ref_env) ref_blob [] item" "data_spans [Leaf 0 ref_blob] = {..<length ref_blob}"
  by (auto simp: leaf_of_def)

section \<open>Properties\<close>






text \<open>A blob of two chunks, of which the first one has arrived.\<close>

abbreviation two_chunks :: bytes where
  "two_chunks \<equiv> replicate 2048 5"

lemma two_chunks_store: "file_store ref_env ref_cx two_chunks [] ref_okd ref_view"
  by (intro ref_file_store) simp_all

abbreviation first_chunk :: "rset bitfield" where
  "first_chunk \<equiv> bf_new_unchecked (chunk_range ref_ops ref_chunk_ops 0 (replicate 1024 5)) 2048"

lemma two_chunks_batch:
  "\<exists>fs M w. cx_write_batch ref_env ref_cx [Leaf 0 (replicate 1024 5)] first_chunk NonExisting (ref_world Map.empty (\<lambda>_. []) 0 [] []) = (Inr (), PartialFile fs, w)
    \<and> entity_inv ref_env ref_okd ref_view ref_cx two_chunks [] M (PartialFile fs) w \<and> fs_faults w = []
    \<and> have_bytes ref_ops two_chunks (pf_bitfield fs) = {..<1024}"
proof -
  let ?w0 = "ref_world Map.empty (\<lambda>_. []) 0 [] []" and ?leaf = "Leaf 0 (replicate 1024 5)" and ?u = first_chunk
  note fs = two_chunks_store
  have leaf: "leaf_of two_chunks 0 (replicate 1024 5)" by (simp add: leaf_of_def)
  have s0: "stored ref_env ref_okd ref_view ref_cx two_chunks [] {} ?w0" by (rule ref_empty_stored)
  obtain M where i: "entity_inv ref_env ref_okd ref_view ref_cx two_chunks [] M NonExisting ?w0"
    using s0 by (auto simp: entity_inv_def ref_world_def ref_tables_def meta_view_def bt_get_def)
  have "0 \<in> {..<2048 :: nat}" by simp
  then have st: "settled ref_env two_chunks NonExisting" by (auto simp: settled_def simp del: lessThan_iff)
  have h: "have_bytes ref_ops two_chunks ?u = {..<1024}"
    using refs.have_leaf [OF leaf, of "rs_empty ref_ops" 2048] by (simp add: lessThan_atLeast0)
  have b: "batch_ok ref_env two_chunks [] [?leaf] ?u" using h leaf by (simp add: batch_ok_def bf_new_unchecked_def lessThan_atLeast0)
  obtain r st2 w2 where c: "cx_write_batch ref_env ref_cx [?leaf] ?u NonExisting ?w0 = (r, st2, w2)" by (metis prod_cases3)
  obtain M' where o: "entity_inv ref_env ref_okd ref_view ref_cx two_chunks [] M' st2 w2" "settled ref_env two_chunks st2"
      "storage_have ref_env two_chunks st2 = {..<1024}" "fs_faults w2 = []" "r = Inr ()"
    using file_store.cx_write_settled [OF fs i st b] c h by (auto simp: no_short_def fs_outcome_def)
  have "{..<1024} \<noteq> {..<2048 :: nat}" by (simp only: lessThan_eq_iff)
  moreover have "{} \<noteq> {..<1024 :: nat}" by (metis empty_iff lessThan_iff zero_less_numeral)
  ultimately obtain fs where "st2 = PartialFile fs" using o by (cases st2) (auto simp: settled_def entity_inv_def)
  with o c show ?thesis by auto
qed

lemma two_chunks_first:
  "\<exists>fs M w. entity_inv ref_env ref_okd ref_view ref_cx two_chunks [] M (PartialFile fs) w \<and> fs_faults w = []
    \<and> have_bytes ref_ops two_chunks (pf_bitfield fs) = {..<1024}"
  using two_chunks_batch by blast



definition ref_complete :: complete_storage where
  "ref_complete = \<lparr>cs_data = MemPart ref_blob, cs_outboard = MemPart []\<rparr>"


text \<open>
  An entry of the database for a partial blob of which nothing has arrived: loading it gives storage
  without a size, and exporting everything then reports no error and sends one empty leaf, as if the
  blob were empty.
\<close>

lemma unknown_size_exports_nothing:
  "\<exists>fs w'. fs_export_ranges ref_env ref_cx (rs_all ref_ops) Initial (ref_world Map.empty (\<lambda>_. []) 0 [] [(cx_id ref_cx, PartialEntry None)])
    = (PartialFile fs, Some ([(0, [])], None, w'))"
proof -
  let ?w = "ref_world Map.empty (\<lambda>_. []) 0 [] [(cx_id ref_cx, PartialEntry None)]"
  have v: "ref_view (fw_db ?w) (cx_id ref_cx) = Some (PartialEntry None)"
    by (simp add: ref_world_def ref_tables_def meta_view_def bt_get_def fill_entry_def)
  have "ref_okd (fw_db ?w)" using ref_partial_stored [of ref_blob] by (simp add: stored_def ref_world_def)
  then have g: "db_call (dbo_get (fe_db ref_env) (cx_id ref_cx)) ?w = (Inr (Some (PartialEntry None)), ?w)"
    using reffs.get [of "fw_db ?w"] v by (simp add: db_call_def)
  have e: "bf_new ref_ops ref_chunk_ops (rs_empty ref_ops) 0 = bf_empty ref_ops" "\<not> is_complete ref_ops ref_chunk_ops (bf_empty ref_ops)"
    using refs.good_empty [of ref_blob] refs.have_empty [of ref_blob] refs.good_complete [of ref_blob "bf_empty ref_ops"]
    by (auto simp: bf_good_def bf_canonical_def bf_empty_def)
  have "\<exists>fs w'. cx_load ref_env ref_cx Initial ?w = (Inr (), PartialFile fs, w') \<and> pf_bitfield fs = bf_empty ref_ops \<and> fs_faults w' = []"
    using ref_cx_not_empty g e
    by (simp add: cx_load_def bao_open_def new_partial_file_def pf_load_def io_then_def create_read_write_def guarded_def pop_fault_def new_file_def
        read_checksummed_and_truncate_def fs_open_def reconstruct_def read_size_def fs_len_def Let_def)
  then obtain fs w' where l: "cx_load ref_env ref_cx Initial ?w = (Inr (), PartialFile fs, w')" "pf_bitfield fs = bf_empty ref_ops" "fs_faults w' = []"
    by blast
  have i: "rs_iter ref_ops (rs_all ref_ops) = [RangeFrom 0]"
    by (simp add: ref_ops_def boundaries_of_rset_from)
  have z: "bytes_range ref_ops ref_chunk_ops (Included 0) (Excluded 0) = rs_empty ref_ops"
    by (simp add: bytes_range_def bounds_from_range_def ref_chunk_ops_def ref_ops_def rset_rep_eqs)
  from refb.unknown_exports_nothing [of fs w' "rs_all ref_ops"] l i z show ?thesis by (simp add: fs_export_ranges_def)
qed



text \<open>
  C19. Exporting a complete blob without faults to an absolute target that is neither one of the blob's
  own files nor an external file of its entry, copied, linked or moved, leaves the blob in the target,
  and the entry of the database still leads to files or inline data with the blob. If the file may be
  moved, no valid bitfield file of an earlier partial blob may be left, since it would claim data that
  is no longer under the blob's name.
\<close>

theorem fs_export_path_delivers:
  assumes "file_store E cx d ob okd view" "stored E okd view cx d ob M w" "view (fw_db w) (cx_id cx) = Some (CompleteEntry dl ol)"
    "fs_faults w = []" "tx_left p = None" "absolute target" "target \<notin> cx_paths E cx" "target \<notin> data_paths dl"
    "mode = TryReference \<Longrightarrow> saved_bitfield E cx w = None"
  shows "\<exists>p' w'. fs_export_path_impl E cx absolute reflink cross mode target p w = (Inr p', w')
    \<and> file_holds w' target d \<and> stored E okd view cx d ob M w' \<and> (\<forall>h. h \<noteq> cx_id cx \<longrightarrow> view (fw_db w') h = view (fw_db w) h)"
  using file_store.export_path_delivers [OF assms(1-5), of absolute target mode reflink cross, OF assms(6-9)] unfolding exported_def by blast

text \<open>An entry whose data is in a file outside the store.\<close>

abbreviation ref_external :: "path \<Rightarrow> ref_db fs_world" where
  "ref_external q \<equiv> ref_world [q \<mapsto> 0] (\<lambda>_. ref_blob) 1 [] [(cx_id ref_cx, CompleteEntry (ExternalData [q] 3) NotNeeded)]"

lemma ref_external_stored:
  assumes "\<And>part. q \<noteq> cx_file ref_env ref_cx part"
  shows "stored ref_env ref_okd ref_view ref_cx ref_blob [] {} (ref_external q)"
    "ref_view (fw_db (ref_external q)) (cx_id ref_cx) = Some (CompleteEntry (ExternalData [q] 3) NotNeeded)"
    "saved_bitfield ref_env ref_cx (ref_external q) = None"
proof -
  show s: "saved_bitfield ref_env ref_cx (ref_external q) = None" using assms [of BitfieldPart] by (simp add: saved_bitfield_def)
  show v: "ref_view (fw_db (ref_external q)) (cx_id ref_cx) = Some (CompleteEntry (ExternalData [q] 3) NotNeeded)"
    by (simp add: ref_world_def ref_tables_def meta_view_def bt_get_def fill_entry_def fill_data_def fill_outboard_def)
  have "ref_okd (fw_db (ref_external q))"
    by (simp add: ref_world_def ref_tables_def db_ok_def meta_ok_def bt_get_def filled_def)
  then show "stored ref_env ref_okd ref_view ref_cx ref_blob [] {} (ref_external q)"
    using s v by (simp add: stored_def disk_ok_def fs_wf_def)
qed

lemma ref_outside: "[[b]] \<noteq> cx_file ref_env ref_cx part"
  by (simp add: cx_file_def file_path_def ref_cx_def)

lemmas ref_external3 = ref_external_stored [of "[[3]]", OF ref_outside]

theorem fs_export_path_delivers_witness:
  "\<exists>p' w'. fs_export_path_impl ref_env ref_cx (\<lambda>_. True) (\<lambda>_ _. False) (\<lambda>_. False) TryReference [[4]] \<lparr>tx_sent = [], tx_left = None\<rparr>
      (ref_external [[3]]) = (Inr p', w') \<and> file_holds w' [[4]] ref_blob"
  using fs_export_path_delivers [OF reffs.file_store_axioms ref_external3(1,2) _ _, of "\<lparr>tx_sent = [], tx_left = None\<rparr>" "\<lambda>_. True" "[[4]]" TryReference
      "\<lambda>_ _. False" "\<lambda>_. False"] ref_external3(3) ref_outside by auto

text \<open>
  C40. Exporting a blob whose data is an external file to this same file destroys it: the export
  creates, and so truncates, the target before it reads the source; it fails, the file is empty and
  the database still refers to it.
\<close>

theorem export_onto_source_destroys:
  assumes "file_store E cx d ob okd view" "stored E okd view cx d ob M w"
    "view (fw_db w) (cx_id cx) = Some (CompleteEntry (ExternalData (q # qs) sz) ol)" "fs_faults w = []" "tx_left p = None" "absolute q"
  shows "\<exists>w' i. fs_export_path_impl E cx absolute reflink cross mode q p w = (Inl (Fails UnexpectedEof), w')
    \<and> fs_names w' q = Some i \<and> fs_content w' i = [] \<and> view (fw_db w') = view (fw_db w)"
  using file_store.export_onto_source [OF assms(1-5), of absolute reflink cross mode] assms(6) by blast

theorem export_onto_source_destroys_witness:
  "\<exists>w' i. fs_export_path_impl ref_env ref_cx (\<lambda>_. True) (\<lambda>_ _. True) (\<lambda>_. False) CopyMode [[3]] \<lparr>tx_sent = [], tx_left = None\<rparr>
      (ref_external [[3]]) = (Inl (Fails UnexpectedEof), w') \<and> fs_names w' [[3]] = Some i \<and> fs_content w' i = []"
  using export_onto_source_destroys [OF reffs.file_store_axioms ref_external3(1,2), of "\<lparr>tx_sent = [], tx_left = None\<rparr>" "\<lambda>_. True"
      "\<lambda>_ _. True" "\<lambda>_. False" CopyMode] by auto

text \<open>
  C39. An import into a blob that could not be loaded reports success and stores nothing: loading
  turns a failure into a poisoned handle, and batches on a poisoned handle are ignored.
\<close>

theorem poisoned_import_lost:
  assumes "file_store E cx d ob okd view" "cx_load E cx Initial w = (Inr (), Poisoned, w')"
    "\<forall>item\<in>set items. item_of (fe_Io E) d ob item"
  shows "fs_import_bao E cx (of_nat (length d)) None items Initial w = (Inr (), Poisoned, w')"
  using assms(2) file_store.import_items_lost [OF assms(1,3)] by (simp add: fs_import_bao_def cx_then_def import_bao_impl_def)

theorem poisoned_import_lost_witness:
  "\<exists>w'. fs_import_bao ref_env ref_cx 3 None [Leaf 0 ref_blob] Initial
    (ref_world Map.empty (\<lambda>_. []) 0 [IoFault OtherIo 0] [(cx_id ref_cx, PartialEntry None)]) = (Inr (), Poisoned, w')"
proof -
  let ?w = "ref_world Map.empty (\<lambda>_. []) 0 [IoFault OtherIo 0] [(cx_id ref_cx, PartialEntry None)]"
  have v: "ref_view (fw_db ?w) (cx_id ref_cx) = Some (PartialEntry None)"
    by (simp add: ref_world_def ref_tables_def meta_view_def bt_get_def fill_entry_def)
  have "ref_okd (fw_db ?w)" using ref_partial_stored [of ref_blob] by (simp add: stored_def ref_world_def)
  then have "db_call (dbo_get (fe_db ref_env) (cx_id ref_cx)) ?w = (Inr (Some (PartialEntry None)), ?w)"
    using reffs.get [of "fw_db ?w"] v by (simp add: db_call_def)
  then have "\<exists>w'. cx_load ref_env ref_cx Initial ?w = (Inr (), Poisoned, w')"
    using ref_cx_not_empty
    by (simp add: cx_load_def bao_open_def new_partial_file_def pf_load_def io_then_def create_read_write_def guarded_def pop_fault_def)
  then show ?thesis using poisoned_import_lost [OF reffs.file_store_axioms _ ref_items(1)] by auto
qed

text \<open>
  A temporary file that cannot be moved to its place is only logged: with the data file of an
  earlier, partial download under the name of the blob the import reports success, and the partial
  file becomes the data of a complete blob.
\<close>

theorem failed_rename_completes:
  assumes "file_store E cx d ob okd view" "entity_inv E okd view cx d ob M (PartialFile fs) w" "fs_faults w = [IoFault err n]"
  shows "\<exists>w'. finish_import_impl E cx \<lparr>fi_hash = cx_id cx, fi_source = TempFileSource p sz, fi_outboard = MemPart []\<rparr> (PartialFile fs) w
      = (Inr (), CompleteBao \<lparr>cs_data = FilePart (pf_data fs, sz), cs_outboard = MemPart []\<rparr>, w')
    \<and> fs_content w' = fs_content w \<and> fs_names w' = fs_names w
    \<and> view (fw_db w') (cx_id cx) = Some (CompleteEntry (OwnedData sz) NotNeeded)"
proof -
  obtain sz' where v: "view (fw_db w) (cx_id cx) = Some (PartialEntry sz')" and k: "stored E okd view cx d ob M w"
    and nm: "fs_names w (cx_file E cx DataPart) = Some (pf_data fs)"
    using assms(2) by (auto simp: entity_inv_def files_agree_def linked_def)
  have "merged (view (fw_db w) (cx_id cx)) (CompleteEntry (OwnedData sz) NotNeeded) = Inr (CompleteEntry (OwnedData sz) NotNeeded)"
    using v by (simp add: merged_def)
  from entry_db.update_await_view [OF file_store.axioms(2) [OF assms(1)] file_store.stored_disk(2) [OF assms(1) k] this] obtain s where
    s: "dbo_update_await (fe_db E) (cx_id cx) (CompleteEntry (OwnedData sz) NotNeeded) (fw_db w) = (Inr (), s)"
      "view s = (view (fw_db w))(cx_id cx \<mapsto> CompleteEntry (OwnedData sz) NotNeeded)" by blast
  have "cx_id cx \<noteq> hash_empty" using assms(1) by (simp add: file_store_def file_store_axioms_def)
  then show ?thesis using s nm assms(3)
    by (simp add: finish_import_impl_def cx_then_def cx_load_def cx_io_def cx_protect_def import_data_location_def import_outboard_location_def
        io_then_def try_rename_def fs_rename_def guarded_def pop_fault_def open_data_def open_outboard_def fs_open_def db_call_def)
qed

theorem failed_rename_completes_witness:
  "\<exists>fs w w' i. finish_import_impl ref_env ref_cx \<lparr>fi_hash = cx_id ref_cx, fi_source = TempFileSource [[2]] 3, fi_outboard = MemPart []\<rparr>
      (PartialFile fs) w = (Inr (), CompleteBao \<lparr>cs_data = FilePart (i, 3), cs_outboard = MemPart []\<rparr>, w') \<and> fs_content w' i = []"
proof -
  let ?f = "cx_file ref_env ref_cx"
  let ?fs = "\<lparr>pf_data = 0, pf_outboard = 1, pf_sizes = 2, pf_bitfield = bf_empty ref_ops\<rparr>"
  let ?w = "ref_world [?f DataPart \<mapsto> 0, ?f OutboardPart \<mapsto> 1, ?f SizesPart \<mapsto> 2] (\<lambda>_. []) 3 [IoFault OtherIo 0] [(cx_id ref_cx, PartialEntry None)]"
  have wf: "fs_wf ?w" by (auto simp: fs_wf_def split: if_splits)
  have sv: "saved_bitfield ref_env ref_cx ?w = None" by (simp add: saved_bitfield_def)
  have v: "ref_view (fw_db ?w) (cx_id ref_cx) = Some (PartialEntry None)"
    by (simp add: ref_world_def ref_tables_def meta_view_def bt_get_def fill_entry_def)
  have ok: "ref_okd (fw_db ?w)" using ref_partial_stored [of ref_blob] by (simp add: stored_def ref_world_def)
  have "stored ref_env ref_okd ref_view ref_cx ref_blob [] {} ?w"
    using wf sv v ok by (simp add: stored_def disk_ok_def outboard_disk_def)
  moreover have "storage_inv ref_env ref_cx ref_blob [] {} ?w (PartialFile ?fs)"
    using wf by (simp add: refs.have_empty refs.good_empty files_agree_def linked_def)
  ultimately have "entity_inv ref_env ref_okd ref_view ref_cx ref_blob [] {} (PartialFile ?fs) ?w"
    using v by (simp add: entity_inv_def)
  from failed_rename_completes [OF reffs.file_store_axioms this, of OtherIo 0 "[[2]]" 3] obtain w' where
    "finish_import_impl ref_env ref_cx \<lparr>fi_hash = cx_id ref_cx, fi_source = TempFileSource [[2]] 3, fi_outboard = MemPart []\<rparr>
      (PartialFile ?fs) ?w = (Inr (), CompleteBao \<lparr>cs_data = FilePart (0, 3), cs_outboard = MemPart []\<rparr>, w')" "fs_content w' 0 = []" by auto
  then show ?thesis by blast
qed

text \<open>
  C37. The loop that sends a range always ends, for any storage and any faults, as long as the end of
  the range is at least 1024 below the largest offset; sizes beyond this make the addition in the
  loop overflow.
\<close>

theorem fs_export_terminates:
  assumes "unat e + 1024 < 2 ^ 64"
  shows "\<exists>sent' r w'. fs_export_loop E st sent off e w = Some (sent', r, w')"
  using fs_export_loop_ends [OF assms, of E st sent off w] by auto

theorem fs_export_terminates_witness:
  "\<exists>sent' r w'. fs_export_loop ref_env (CompleteBao ref_complete) [] 0 3 (ref_world Map.empty (\<lambda>_. []) 0 [IoFault OtherIo 0] []) = Some (sent', r, w')"
  by (rule fs_export_terminates) simp

text \<open>
  C38. The shape of the storage: loading leaves an absent, partial or complete blob or a poisoned
  handle, never a half-loaded one; after a batch a blob that could be written is in files or
  complete, so storage in memory does not outlive the batch that created it, and a failed batch
  poisons the handle. This holds for every environment.
\<close>

theorem storage_shapes:
  "(\<forall>st' w'. cx_load E cx Initial w = (Inr (), st', w') \<longrightarrow>
      st' = NonExisting \<or> st' = Poisoned \<or> (\<exists>fs. st' = PartialFile fs) \<or> (\<exists>cs. st' = CompleteBao cs))
    \<and> (\<forall>r st' w'. writable st \<longrightarrow> cx_write_batch E cx batch bf st w = (r, st', w') \<longrightarrow>
      (\<exists>fs. st' = PartialFile fs) \<or> (\<exists>cs. st' = CompleteBao cs) \<or> (st' = Poisoned \<and> r \<noteq> Inr ()))"
proof -
  have "st' = NonExisting \<or> st' = Poisoned \<or> (\<exists>fs. st' = PartialFile fs) \<or> (\<exists>cs. st' = CompleteBao cs)"
    if "cx_load E cx Initial w = (Inr (), st', w')" for st' w'
    using that by (auto simp: cx_load_def dest!: bao_open_shape split: if_splits prod.splits sum.splits failure.splits)
  moreover have "(\<exists>fs. st' = PartialFile fs) \<or> (\<exists>cs. st' = CompleteBao cs) \<or> (st' = Poisoned \<and> r \<noteq> Inr ())"
    if "writable st" "cx_write_batch E cx batch bf st w = (r, st', w')" for r st' w'
    using that bao_write_batch_shape [of E cx batch bf st w]
    by (fastforce simp: cx_write_batch_def cx_io_def split: prod.splits sum.splits failure.splits option.splits)
  ultimately show ?thesis by blast
qed

theorem storage_shapes_witness:
  "(\<exists>st' w'. cx_load ref_env ref_cx Initial (ref_world Map.empty (\<lambda>_. []) 0 [] []) = (Inr (), st', w')
      \<and> (st' = NonExisting \<or> st' = Poisoned \<or> (\<exists>fs. st' = PartialFile fs) \<or> (\<exists>cs. st' = CompleteBao cs)))
    \<and> (\<exists>st' w'. cx_write_batch ref_env ref_cx [Leaf 0 (replicate 1024 5)] first_chunk NonExisting (ref_world Map.empty (\<lambda>_. []) 0 [] []) = (Inr (), st', w')
      \<and> ((\<exists>fs. st' = PartialFile fs) \<or> (\<exists>cs. st' = CompleteBao cs)))"
proof -
  let ?w0 = "ref_world Map.empty (\<lambda>_. []) 0 [] []"
  obtain st' w' where l: "cx_load ref_env ref_cx Initial ?w0 = (Inr (), st', w')"
    using reffs.load_inv [OF ref_empty_stored [where c = "\<lambda>_. []"]] by auto
  obtain fs w2 where b: "cx_write_batch ref_env ref_cx [Leaf 0 (replicate 1024 5)] first_chunk NonExisting ?w0 = (Inr (), PartialFile fs, w2)"
    using two_chunks_batch by blast
  from storage_shapes [of ref_env ref_cx ?w0 NonExisting "[Leaf 0 (replicate 1024 5)]" first_chunk] l b show ?thesis by auto
qed

end
