(* ===== verification/Store_Api.thy ===== *)
theory Store_Api
  imports Blobs_Client
begin

text \<open>
  What providers and downloads use of a store, as the record \<open>store_ops\<close>: exporting verified ranges,
  reading a whole blob, importing verified items and observing the available ranges
  (\<open>src/src/api/blobs.rs\<close>). The memory store gives these operations with its commands and tasks.
\<close>

text \<open>
  How an import fails: a channel of its handle is closed, because the task is gone before it took every
  item or before it answered, or the store takes every item and answers with an error.
\<close>

datatype import_failure = ImportClosed | ImportAnswered io_error

record ('r, 's) store_ops =
  so_export_bao :: "'s \<Rightarrow> hash \<Rightarrow> 'r \<Rightarrow> encoded_item list"
  so_get_bytes :: "'s \<Rightarrow> hash \<Rightarrow> io_error + bytes"
  so_import_bao :: "'s \<Rightarrow> hash \<Rightarrow> u64 \<Rightarrow> bao_content_item list \<Rightarrow> (import_failure + unit) \<times> 's"
  so_observe :: "'s \<Rightarrow> hash \<Rightarrow> (io_error + 'r bitfield) \<times> 's"

text \<open>A task at the end of the list of tasks runs until it has left it, for at most \<open>n\<close> steps.\<close>

fun run_last_task ::
  "'r range_ops \<Rightarrow> 'r chunk_ops \<Rightarrow> io_ops \<Rightarrow> 'r traverse \<Rightarrow> nat \<Rightarrow> nat \<Rightarrow> 'r mem_state \<Rightarrow> ('r mem_state \<times> 'r outputs) option" where
  "run_last_task R B Io tr 0 i s = Some (s, [])"
| "run_last_task R B Io tr (Suc n) i s =
     (if length (ms_tasks s) \<le> i then Some (s, [])
      else case run_task R B Io tr i s of
             None \<Rightarrow> None
           | Some (s, out) \<Rightarrow>
               (case run_last_task R B Io tr n i s of None \<Rightarrow> None | Some (s, out') \<Rightarrow> Some (s, out @ out')))"

text \<open>
  \<open>import_bao\<close> with its handle: the items are sent, the sender is dropped, and the result awaited. The
  answer is missing if the task panics.
\<close>

definition mem_import_bao ::
  "'r range_ops \<Rightarrow> 'r chunk_ops \<Rightarrow> io_ops \<Rightarrow> 'r traverse \<Rightarrow> 'r mem_state \<Rightarrow> hash \<Rightarrow> u64 \<Rightarrow> bao_content_item list \<Rightarrow>
   (import_failure + unit) \<times> 'r mem_state" where
  "mem_import_bao R B Io tr s h sz items =
     (case actor_event R B Io tr (Cmd (CImportBao 0 h sz (map Inr items))) s of
        None \<Rightarrow> (Inl ImportClosed, s)
      | Some (s1, _) \<Rightarrow>
          (case run_last_task R B Io tr (length items + 2) (length (ms_tasks s)) s1 of
             None \<Rightarrow> (Inl ImportClosed, s1)
           | Some (s2, out) \<Rightarrow> (if (0, ROk) \<in> set out then Inr () else Inl ImportClosed, s2)))"

text \<open>\<open>observe(..).await\<close>: the first bitfield; the stream is dropped, so that the task ends.\<close>

fun first_bitfield :: "'r outputs \<Rightarrow> 'r bitfield option" where
  "first_bitfield [] = None"
| "first_bitfield ((_, RBitfield bf) # out) = Some bf"
| "first_bitfield (_ # out) = first_bitfield out"

definition mem_observe ::
  "'r range_ops \<Rightarrow> 'r chunk_ops \<Rightarrow> io_ops \<Rightarrow> 'r traverse \<Rightarrow> 'r mem_state \<Rightarrow> hash \<Rightarrow> (io_error + 'r bitfield) \<times> 'r mem_state" where
  "mem_observe R B Io tr s h =
     (case actor_event R B Io tr (Cmd (CObserve 0 h (Some 1))) s of
        None \<Rightarrow> (Inl OtherIo, s)
      | Some (s1, _) \<Rightarrow>
          (case run_last_task R B Io tr 2 (length (ms_tasks s)) s1 of
             None \<Rightarrow> (Inl OtherIo, s1)
           | Some (s2, out) \<Rightarrow> (case first_bitfield out of Some bf \<Rightarrow> Inr bf | None \<Rightarrow> Inl OtherIo, s2)))"

definition mem_store_ops :: "'r range_ops \<Rightarrow> 'r chunk_ops \<Rightarrow> io_ops \<Rightarrow> 'r traverse \<Rightarrow> ('r, 'r mem_state) store_ops" where
  "mem_store_ops R B Io tr =
     \<lparr>so_export_bao = mem_export_bao R Io tr, so_get_bytes = get_bytes R Io tr,
      so_import_bao = mem_import_bao R B Io tr, so_observe = mem_observe R B Io tr\<rparr>"

end
