(* ===== verification/Get_Fsm.thy ===== *)
theory Get_Fsm
  imports Hash_Seq
begin

text \<open>
  The client side of the protocol, \<open>src/src/get.rs\<close>: the state machine that sends a request and reads
  the response blob by blob, the errors of its steps and how they are classified
  (\<open>src/src/get/error.rs\<close>), and the requests that are executed without a store
  (\<open>src/src/get/request.rs\<close>). A stream is what its peer will send on it and how it ends; the decoder
  of \<open>bao-tree\<close> is a parameter that gives the results it will produce on a stream.
\<close>

section \<open>Errors\<close>

datatype connection_error =
    VersionMismatch | TransportError | ConnectionClosed | ApplicationClosed | ConnectionReset | TimedOut
  | LocallyClosed | CidsExhausted

datatype read_error =
    ReadReset u64 | ReadConnectionLost connection_error | ReadClosedStream | IllegalOrderedRead | ReadZeroRttRejected

datatype write_error =
    WriteStopped u64 | WriteConnectionLost connection_error | WriteClosedStream | WriteZeroRttRejected

datatype connected_next_error =
    PostcardSer | RequestTooBig | ConnectedWrite write_error | ConnectedClosed | ConnectedIo io_error

datatype header_next_error = HeaderNotFound | EndpointRead read_error | HeaderIo io_error

datatype decode_error =
    ChunkNotFound | ParentNotFound u64 | LeafNotFound u64 | ParentHashMismatch u64 | LeafHashMismatch u64
  | DecodeRead read_error | DecodeIo io_error

text \<open>An error of the decoder of \<open>bao-tree\<close>; its I/O errors may wrap a read error of the stream.\<close>

datatype io_cause = ReadCause read_error | OtherCause io_error

datatype bao_decode_error =
    BaoParentNotFound u64 | BaoLeafNotFound u64 | BaoParentHashMismatch u64 | BaoLeafHashMismatch u64 | BaoIo io_cause

text \<open>\<open>GetError\<close>, without the sources it carries.\<close>

datatype get_error = GetNotFound | RemoteReset | NoncompliantNode | GetIo | BadRequest | LocalFailure

fun get_error_from_connection :: "connection_error \<Rightarrow> get_error" where
  "get_error_from_connection VersionMismatch = NoncompliantNode"
| "get_error_from_connection TransportError = NoncompliantNode"
| "get_error_from_connection ConnectionClosed = GetIo"
| "get_error_from_connection ApplicationClosed = GetIo"
| "get_error_from_connection ConnectionReset = RemoteReset"
| "get_error_from_connection TimedOut = GetIo"
| "get_error_from_connection LocallyClosed = GetIo"
| "get_error_from_connection CidsExhausted = GetIo"

fun get_error_from_read :: "read_error \<Rightarrow> get_error" where
  "get_error_from_read (ReadReset _) = RemoteReset"
| "get_error_from_read (ReadConnectionLost e) = get_error_from_connection e"
| "get_error_from_read ReadClosedStream = GetIo"
| "get_error_from_read IllegalOrderedRead = GetIo"
| "get_error_from_read ReadZeroRttRejected = GetIo"

fun get_error_from_write :: "write_error \<Rightarrow> get_error" where
  "get_error_from_write (WriteStopped _) = RemoteReset"
| "get_error_from_write (WriteConnectionLost e) = get_error_from_connection e"
| "get_error_from_write WriteClosedStream = GetIo"
| "get_error_from_write WriteZeroRttRejected = GetIo"

fun get_error_from_connected :: "connected_next_error \<Rightarrow> get_error" where
  "get_error_from_connected PostcardSer = BadRequest"
| "get_error_from_connected RequestTooBig = BadRequest"
| "get_error_from_connected (ConnectedWrite e) = get_error_from_write e"
| "get_error_from_connected ConnectedClosed = GetIo"
| "get_error_from_connected (ConnectedIo _) = GetIo"

fun get_error_from_header :: "header_next_error \<Rightarrow> get_error" where
  "get_error_from_header HeaderNotFound = GetNotFound"
| "get_error_from_header (EndpointRead e) = get_error_from_read e"
| "get_error_from_header (HeaderIo _) = GetIo"

fun get_error_from_decode :: "decode_error \<Rightarrow> get_error" where
  "get_error_from_decode ChunkNotFound = GetNotFound"
| "get_error_from_decode (ParentNotFound _) = GetNotFound"
| "get_error_from_decode (LeafNotFound _) = GetNotFound"
| "get_error_from_decode (ParentHashMismatch _) = NoncompliantNode"
| "get_error_from_decode (LeafHashMismatch _) = NoncompliantNode"
| "get_error_from_decode (DecodeRead e) = get_error_from_read e"
| "get_error_from_decode (DecodeIo _) = GetIo"

fun decode_error_from_header :: "header_next_error \<Rightarrow> decode_error" where
  "decode_error_from_header HeaderNotFound = ChunkNotFound"
| "decode_error_from_header (EndpointRead e) = DecodeRead e"
| "decode_error_from_header (HeaderIo e) = DecodeIo e"

fun decode_error_from_bao :: "bao_decode_error \<Rightarrow> decode_error" where
  "decode_error_from_bao (BaoParentNotFound x) = ParentNotFound x"
| "decode_error_from_bao (BaoLeafNotFound x) = LeafNotFound x"
| "decode_error_from_bao (BaoParentHashMismatch x) = ParentHashMismatch x"
| "decode_error_from_bao (BaoLeafHashMismatch x) = LeafHashMismatch x"
| "decode_error_from_bao (BaoIo (ReadCause e)) = DecodeRead e"
| "decode_error_from_bao (BaoIo (OtherCause e)) = DecodeIo e"

text \<open>The result of a request: an error, or a panic of \<open>unreachable!\<close>.\<close>

datatype get_failure = GetFails get_error | GetPanics

definition or_fail :: "('e \<Rightarrow> get_error) \<Rightarrow> 'e + 'a \<Rightarrow> get_failure + 'a" where
  "or_fail f r = (case r of Inl e \<Rightarrow> Inl (GetFails (f e)) | Inr x \<Rightarrow> Inr x)"

section \<open>Streams and connections\<close>

text \<open>
  What arrives on a stream, and the error that ends it, or \<open>None\<close> if the peer finishes it. A
  connection either cannot open a stream, or gives one: whether writing the request fails,
  whether the stream is closed already, and what the peer answers.
\<close>

record recv_stream =
  rv_bytes :: bytes
  rv_error :: "read_error option"

record peer =
  pe_write :: "bytes \<Rightarrow> write_error option"
  pe_closed :: bool
  pe_response :: "bytes \<Rightarrow> recv_stream"

type_synonym connection = "connection_error + peer"

text \<open>\<open>reader.read::<8>()\<close> with the classification of its error in \<open>AtBlobHeader::next\<close>.\<close>

definition read_8 :: "recv_stream \<Rightarrow> header_next_error + bytes \<times> recv_stream" where
  "read_8 s =
     (if 8 \<le> length (rv_bytes s) then Inr (take 8 (rv_bytes s), s\<lparr>rv_bytes := drop 8 (rv_bytes s)\<rparr>)
      else case rv_error s of None \<Rightarrow> Inl HeaderNotFound | Some e \<Rightarrow> Inl (EndpointRead e))"

text \<open>
  A decoder: what it still yields, and the stream behind the blob. \<open>decode\<close> of the operations below
  is \<open>ResponseDecoder::new\<close> for a hash, ranges, a size and a stream.
\<close>

record decoder =
  dc_items :: "(bao_decode_error + bao_content_item) list"
  dc_reader :: recv_stream

type_synonym 'r decode = "hash \<Rightarrow> 'r \<Rightarrow> u64 \<Rightarrow> recv_stream \<Rightarrow> decoder"

section \<open>The state machine\<close>

record request_counters =
  payload_bytes_written :: u64
  other_bytes_written :: u64
  payload_bytes_read :: u64
  other_bytes_read :: u64

definition counters_default :: request_counters where
  "counters_default = \<lparr>payload_bytes_written = 0, other_bytes_written = 0, payload_bytes_read = 0, other_bytes_read = 0\<rparr>"

text \<open>\<open>Stats\<close> without the time that has passed.\<close>

type_synonym stats = request_counters

definition total_bytes_read :: "stats \<Rightarrow> u64" where
  "total_bytes_read s = payload_bytes_read s + other_bytes_read s"

definition stats_combine :: "stats \<Rightarrow> stats \<Rightarrow> stats" where
  "stats_combine s that =
     \<lparr>payload_bytes_written = payload_bytes_written s + payload_bytes_written that,
      other_bytes_written = other_bytes_written s + other_bytes_written that,
      payload_bytes_read = payload_bytes_read s + payload_bytes_read that,
      other_bytes_read = other_bytes_read s + other_bytes_read that\<rparr>"

record 'r misc =
  mi_counters :: request_counters
  mi_ranges_iter :: "'r non_empty_iter"

record 'r at_initial =
  ai_connection :: connection
  ai_request :: "'r get_request"
  ai_counters :: request_counters

record 'r at_connected =
  ac_stream :: peer
  ac_request :: "'r get_request"
  ac_counters :: request_counters

record 'r at_start_root =
  ar_ranges :: 'r
  ar_reader :: recv_stream
  ar_misc :: "'r misc"
  ar_hash :: hash

record 'r at_start_child =
  ach_ranges :: 'r
  ach_reader :: recv_stream
  ach_misc :: "'r misc"
  ach_offset :: u64

record 'r at_closing =
  acl_misc :: "'r misc"
  acl_reader :: recv_stream
  acl_check_extra_data :: bool

record 'r at_blob_header =
  ah_ranges :: 'r
  ah_reader :: recv_stream
  ah_misc :: "'r misc"
  ah_hash :: hash

record 'r at_blob_content =
  bc_stream :: decoder
  bc_misc :: "'r misc"

record 'r at_end_blob =
  eb_stream :: recv_stream
  eb_misc :: "'r misc"

datatype 'r connected_next_state =
    StartRoot "'r at_start_root" | StartChild "'r at_start_child" | ConnectedClosing "'r at_closing"

datatype 'r blob_content_next =
    More "'r at_blob_content" "decode_error + bao_content_item" | ContentDone "'r at_end_blob"

datatype 'r end_blob_next_state = MoreChildren "'r at_start_child" | EndClosing "'r at_closing"

definition fsm_start :: "connection \<Rightarrow> 'r get_request \<Rightarrow> request_counters \<Rightarrow> 'r at_initial" where
  "fsm_start conn req counters = \<lparr>ai_connection = conn, ai_request = req, ai_counters = counters\<rparr>"

definition initial_next :: "'r at_initial \<Rightarrow> connection_error + 'r at_connected" where
  "initial_next s =
     (case ai_connection s of
        Inl e \<Rightarrow> Inl e
      | Inr p \<Rightarrow> Inr \<lparr>ac_stream = p, ac_request = ai_request s, ac_counters = ai_counters s\<rparr>)"

text \<open>\<open>AtConnected::next\<close>; \<open>ser\<close> is \<open>postcard::to_stdvec\<close>.\<close>

definition connected_next ::
  "'r range_ops \<Rightarrow> ('r request \<Rightarrow> bytes option) \<Rightarrow> 'r at_connected \<Rightarrow> connected_next_error + 'r connected_next_state" where
  "connected_next R ser s =
     (case ser (Get (ac_request s)) of
        None \<Rightarrow> Inl PostcardSer
      | Some request_bytes \<Rightarrow>
          if length request_bytes > unat MAX_MESSAGE_SIZE then Inl RequestTooBig
          else (case pe_write (ac_stream s) request_bytes of
              Some e \<Rightarrow> Inl (ConnectedWrite e)
            | None \<Rightarrow>
                let counters = (ac_counters s)\<lparr>other_bytes_written := other_bytes_written (ac_counters s) + of_nat (length request_bytes)\<rparr> in
                if pe_closed (ac_stream s) then Inl ConnectedClosed
                else
                  let reader = pe_response (ac_stream s) request_bytes;
                      (item, it) = non_empty_next R (iter_non_empty_infinite R (gr_ranges (ac_request s)));
                      misc = \<lparr>mi_counters = counters, mi_ranges_iter = it\<rparr>
                  in Inr (case item of
                       Some (offset, ranges) \<Rightarrow>
                         if offset = 0
                         then StartRoot \<lparr>ar_ranges = ranges, ar_reader = reader, ar_misc = misc, ar_hash = gr_hash (ac_request s)\<rparr>
                         else StartChild \<lparr>ach_ranges = ranges, ach_reader = reader, ach_misc = misc, ach_offset = offset\<rparr>
                     | None \<Rightarrow> ConnectedClosing \<lparr>acl_misc = misc, acl_reader = reader, acl_check_extra_data = True\<rparr>)))"

text \<open>\<open>start_get_many\<close>: the inner \<open>Inl\<close> is an empty request.\<close>

definition start_get_many ::
  "'r range_ops \<Rightarrow> ('r request \<Rightarrow> bytes option) \<Rightarrow> connection \<Rightarrow> 'r get_many_request \<Rightarrow> request_counters \<Rightarrow>
   get_error + ('r at_closing + 'r at_start_child)" where
  "start_get_many R ser conn req counters =
     (case conn of
        Inl e \<Rightarrow> Inl (get_error_from_connection e)
      | Inr p \<Rightarrow>
          (case ser (GetMany req) of
             None \<Rightarrow> Inl BadRequest
           | Some request_bytes \<Rightarrow>
               (case pe_write p request_bytes of
                  Some e \<Rightarrow> Inl (get_error_from_write e)
                | None \<Rightarrow>
                    if pe_closed p then Inl GetIo
                    else
                      let reader = pe_response p request_bytes;
                          (first_item, it) = non_empty_next R (iter_non_empty_infinite R (gm_ranges req));
                          misc = \<lparr>mi_counters = counters, mi_ranges_iter = it\<rparr>
                      in Inr (case first_item of
                           Some (child_offset, child_ranges) \<Rightarrow>
                             Inr \<lparr>ach_ranges = child_ranges, ach_reader = reader, ach_misc = misc, ach_offset = child_offset\<rparr>
                         | None \<Rightarrow> Inl \<lparr>acl_misc = misc, acl_reader = reader, acl_check_extra_data = True\<rparr>))))"

definition start_child_next :: "'r at_start_child \<Rightarrow> hash \<Rightarrow> 'r at_blob_header" where
  "start_child_next s h = \<lparr>ah_ranges = ach_ranges s, ah_reader = ach_reader s, ah_misc = ach_misc s, ah_hash = h\<rparr>"

definition start_child_finish :: "'r at_start_child \<Rightarrow> 'r at_closing" where
  "start_child_finish s = \<lparr>acl_misc = ach_misc s, acl_reader = ach_reader s, acl_check_extra_data = False\<rparr>"

definition start_root_next :: "'r at_start_root \<Rightarrow> 'r at_blob_header" where
  "start_root_next s = \<lparr>ah_ranges = ar_ranges s, ah_reader = ar_reader s, ah_misc = ar_misc s, ah_hash = ar_hash s\<rparr>"

definition start_root_finish :: "'r at_start_root \<Rightarrow> 'r at_closing" where
  "start_root_finish s = \<lparr>acl_misc = ar_misc s, acl_reader = ar_reader s, acl_check_extra_data = False\<rparr>"

definition header_next :: "'r decode \<Rightarrow> 'r at_blob_header \<Rightarrow> header_next_error + 'r at_blob_content \<times> u64" where
  "header_next decode s =
     (case read_8 (ah_reader s) of
        Inl e \<Rightarrow> Inl e
      | Inr (bs, reader) \<Rightarrow>
          let misc = (ah_misc s)\<lparr>mi_counters := (mi_counters (ah_misc s))\<lparr>other_bytes_read := other_bytes_read (mi_counters (ah_misc s)) + 8\<rparr>\<rparr>;
              sz = from_le_bytes bs
          in Inr (\<lparr>bc_stream = decode (ah_hash s) (ah_ranges s) sz reader, bc_misc = misc\<rparr>, sz))"

text \<open>What an item adds to the counters.\<close>

fun count_item :: "bao_content_item \<Rightarrow> request_counters \<Rightarrow> request_counters" where
  "count_item (Parent _ _ _) c = c\<lparr>other_bytes_read := other_bytes_read c + 64\<rparr>"
| "count_item (Leaf _ data) c = c\<lparr>payload_bytes_read := payload_bytes_read c + of_nat (length data)\<rparr>"

definition content_next :: "'r at_blob_content \<Rightarrow> 'r blob_content_next" where
  "content_next s =
     (case dc_items (bc_stream s) of
        [] \<Rightarrow> ContentDone \<lparr>eb_stream = dc_reader (bc_stream s), eb_misc = bc_misc s\<rparr>
      | res # items \<Rightarrow>
          let stream = (bc_stream s)\<lparr>dc_items := items\<rparr> in
          (case res of
             Inl e \<Rightarrow> More \<lparr>bc_stream = stream, bc_misc = bc_misc s\<rparr> (Inl (decode_error_from_bao e))
           | Inr item \<Rightarrow>
               More \<lparr>bc_stream = stream, bc_misc = (bc_misc s)\<lparr>mi_counters := count_item item (mi_counters (bc_misc s))\<rparr>\<rparr> (Inr item)))"

lemma content_next_shrinks:
  "content_next s = More s' res \<Longrightarrow> length (dc_items (bc_stream s')) < length (dc_items (bc_stream s))"
  by (auto simp: content_next_def Let_def split: list.splits sum.splits)

function (sequential) content_drain :: "'r at_blob_content \<Rightarrow> decode_error + 'r at_end_blob" where
  "content_drain s =
     (case content_next s of
        More s' (Inl e) \<Rightarrow> Inl e
      | More s' (Inr _) \<Rightarrow> content_drain s'
      | ContentDone end \<Rightarrow> Inr end)"
  by pat_completeness auto
termination
  by (relation "measure (\<lambda>s. length (dc_items (bc_stream s)))") (auto intro: content_next_shrinks)

function (sequential) concatenate_loop :: "bytes \<Rightarrow> 'r at_blob_content \<Rightarrow> decode_error + 'r at_end_blob \<times> bytes" where
  "concatenate_loop res s =
     (case content_next s of
        More s' (Inl e) \<Rightarrow> Inl e
      | More s' (Inr item) \<Rightarrow> concatenate_loop (case item of Leaf _ data \<Rightarrow> res @ data | Parent _ _ _ \<Rightarrow> res) s'
      | ContentDone done \<Rightarrow> Inr (done, res))"
  by pat_completeness auto
termination
  by (relation "measure (\<lambda>(_, s). length (dc_items (bc_stream s)))") (auto intro: content_next_shrinks)

definition concatenate_into_vec :: "'r at_blob_content \<Rightarrow> decode_error + 'r at_end_blob \<times> bytes" where
  "concatenate_into_vec s = concatenate_loop [] s"

text \<open>
  \<open>write_all_with_outboard\<close> and \<open>write_all\<close>; \<open>write\<close> is \<open>AsyncSliceWriter::write_bytes_at\<close>, \<open>save\<close> is
  \<open>OutboardMut::save\<close>. The writers are returned with the result.
\<close>

function (sequential) write_all_with_outboard ::
  "('d \<Rightarrow> u64 \<Rightarrow> bytes \<Rightarrow> io_error + 'd) \<Rightarrow> ('o \<Rightarrow> u64 \<Rightarrow> hash \<times> hash \<Rightarrow> io_error + 'o) \<Rightarrow> 'o option \<Rightarrow> 'd \<Rightarrow>
   'r at_blob_content \<Rightarrow> decode_error + 'r at_end_blob \<times> 'o option \<times> 'd" where
  "write_all_with_outboard wr save outboard data s =
     (case content_next s of
        More s' (Inl e) \<Rightarrow> Inl e
      | More s' (Inr (Parent node l r)) \<Rightarrow>
          (case outboard of
             None \<Rightarrow> write_all_with_outboard wr save outboard data s'
           | Some ob \<Rightarrow>
               (case save ob node (l, r) of
                  Inl e \<Rightarrow> Inl (DecodeIo e)
                | Inr ob \<Rightarrow> write_all_with_outboard wr save (Some ob) data s'))
      | More s' (Inr (Leaf offset d)) \<Rightarrow>
          (case wr data offset d of
             Inl e \<Rightarrow> Inl (DecodeIo e)
           | Inr data \<Rightarrow> write_all_with_outboard wr save outboard data s')
      | ContentDone end \<Rightarrow> Inr (end, outboard, data))"
  by pat_completeness auto
termination
  by (relation "measure (\<lambda>(_, _, _, _, s). length (dc_items (bc_stream s)))") (auto intro: content_next_shrinks)

function (sequential) write_all ::
  "('d \<Rightarrow> u64 \<Rightarrow> bytes \<Rightarrow> io_error + 'd) \<Rightarrow> 'd \<Rightarrow> 'r at_blob_content \<Rightarrow> decode_error + 'r at_end_blob \<times> 'd" where
  "write_all wr data s =
     (case content_next s of
        More s' (Inl e) \<Rightarrow> Inl e
      | More s' (Inr (Parent _ _ _)) \<Rightarrow> write_all wr data s'
      | More s' (Inr (Leaf offset d)) \<Rightarrow>
          (case wr data offset d of
             Inl e \<Rightarrow> Inl (DecodeIo e)
           | Inr data \<Rightarrow> write_all wr data s')
      | ContentDone end \<Rightarrow> Inr (end, data))"
  by pat_completeness auto
termination
  by (relation "measure (\<lambda>(_, _, s). length (dc_items (bc_stream s)))") (auto intro: content_next_shrinks)

declare content_drain.simps [simp del] concatenate_loop.simps [simp del] write_all_with_outboard.simps [simp del] write_all.simps [simp del]

text \<open>
  Finishing early: the stream is stopped without being read, so that the position of the decoder in
  it does not matter.
\<close>

definition content_finish :: "'r at_blob_content \<Rightarrow> 'r at_closing" where
  "content_finish s = \<lparr>acl_misc = bc_misc s, acl_reader = dc_reader (bc_stream s), acl_check_extra_data = False\<rparr>"

definition end_blob_next :: "'r range_ops \<Rightarrow> 'r at_end_blob \<Rightarrow> 'r end_blob_next_state" where
  "end_blob_next R s =
     (let (item, it) = non_empty_next R (mi_ranges_iter (eb_misc s));
          misc = (eb_misc s)\<lparr>mi_ranges_iter := it\<rparr>
      in case item of
           Some (offset, ranges) \<Rightarrow>
             MoreChildren \<lparr>ach_ranges = ranges, ach_reader = eb_stream s, ach_misc = misc, ach_offset = offset\<rparr>
         | None \<Rightarrow> EndClosing \<lparr>acl_misc = misc, acl_reader = eb_stream s, acl_check_extra_data = True\<rparr>)"

text \<open>\<open>AtClosing::next\<close>: unexpected data is only logged.\<close>

definition closing_next :: "'r at_closing \<Rightarrow> read_error + stats" where
  "closing_next s =
     (if acl_check_extra_data s \<and> rv_bytes (acl_reader s) = []
      then (case rv_error (acl_reader s) of Some e \<Rightarrow> Inl e | None \<Rightarrow> Inr (mi_counters (acl_misc s)))
      else Inr (mi_counters (acl_misc s)))"
section \<open>Requests without a store\<close>

text \<open>
  \<open>get_blob_impl\<close>: the items that are yielded and the result, which is yielded last.
\<close>

datatype get_blob_item = BlobItem bao_content_item | BlobDone stats | BlobError get_error

function (sequential) get_blob_loop ::
  "bao_content_item list \<Rightarrow> 'r at_blob_content \<Rightarrow> bao_content_item list \<times> (decode_error + 'r at_end_blob)" where
  "get_blob_loop out s =
     (case content_next s of
        More s' (Inl e) \<Rightarrow> (out, Inl e)
      | More s' (Inr item) \<Rightarrow> get_blob_loop (out @ [item]) s'
      | ContentDone end \<Rightarrow> (out, Inr end))"
  by pat_completeness auto
termination
  by (relation "measure (\<lambda>(_, s). length (dc_items (bc_stream s)))") (auto intro: content_next_shrinks)

declare get_blob_loop.simps [simp del]

text \<open>The steps up to the header of the root, shared by the requests.\<close>

definition start_root_header ::
  "'r range_ops \<Rightarrow> ('r request \<Rightarrow> bytes option) \<Rightarrow> 'r decode \<Rightarrow> connection \<Rightarrow> 'r get_request \<Rightarrow>
   get_failure + 'r at_blob_content \<times> u64" where
  "start_root_header R ser decode conn req =
     rbind (or_fail get_error_from_connection (initial_next (fsm_start conn req counters_default))) (\<lambda>connected.
     rbind (or_fail get_error_from_connected (connected_next R ser connected)) (\<lambda>next.
     case next of
       StartRoot start \<Rightarrow> or_fail get_error_from_header (header_next decode (start_root_next start))
     | _ \<Rightarrow> Inl GetPanics))"

text \<open>The end of a request for one blob.\<close>

definition end_single :: "'r range_ops \<Rightarrow> 'r at_end_blob \<Rightarrow> get_failure + stats" where
  "end_single R end =
     (case end_blob_next R end of
        EndClosing closing \<Rightarrow> or_fail get_error_from_read (closing_next closing)
      | MoreChildren _ \<Rightarrow> Inl GetPanics)"

definition get_blob_impl ::
  "'r range_ops \<Rightarrow> ('r request \<Rightarrow> bytes option) \<Rightarrow> 'r decode \<Rightarrow> connection \<Rightarrow> hash \<Rightarrow>
   bao_content_item list \<times> (get_failure + stats)" where
  "get_blob_impl R ser decode conn h =
     (case start_root_header R ser decode conn (get_request_blob R h) of
        Inl e \<Rightarrow> ([], Inl e)
      | Inr (cur, _) \<Rightarrow>
          (case get_blob_loop [] cur of
             (items, Inl e) \<Rightarrow> (items, Inl (GetFails (get_error_from_decode e)))
           | (items, Inr end) \<Rightarrow> (items, end_single R end)))"

text \<open>\<open>get_blob\<close> as the stream of its items; \<open>None\<close> is a panic of the generator.\<close>

definition get_blob ::
  "'r range_ops \<Rightarrow> ('r request \<Rightarrow> bytes option) \<Rightarrow> 'r decode \<Rightarrow> connection \<Rightarrow> hash \<Rightarrow> get_blob_item list option" where
  "get_blob R ser decode conn h =
     (case get_blob_impl R ser decode conn h of
        (items, Inr stats) \<Rightarrow> Some (map BlobItem items @ [BlobDone stats])
      | (items, Inl (GetFails e)) \<Rightarrow> Some (map BlobItem items @ [BlobError e])
      | (items, Inl GetPanics) \<Rightarrow> None)"

fun bytes_and_stats_loop :: "bytes list \<Rightarrow> get_blob_item list \<Rightarrow> get_error + bytes list \<times> stats" where
  "bytes_and_stats_loop parts [] = Inl LocalFailure"
| "bytes_and_stats_loop parts (BlobItem (Leaf _ data) # items) = bytes_and_stats_loop (parts @ [data]) items"
| "bytes_and_stats_loop parts (BlobItem (Parent _ _ _) # items) = bytes_and_stats_loop parts items"
| "bytes_and_stats_loop parts (BlobDone stats # items) = Inr (parts, stats)"
| "bytes_and_stats_loop parts (BlobError cause # items) = Inl cause"

definition bytes_and_stats :: "get_blob_item list \<Rightarrow> get_error + bytes \<times> stats" where
  "bytes_and_stats items =
     rbind (bytes_and_stats_loop [] items) (\<lambda>(parts, stats).
       Inr (if length parts = 1 then last parts else fold (\<lambda>part bs. bs @ part) parts [], stats))"

definition get_unverified_size ::
  "'r range_ops \<Rightarrow> ('r request \<Rightarrow> bytes option) \<Rightarrow> 'r decode \<Rightarrow> connection \<Rightarrow> hash \<Rightarrow> get_failure + u64 \<times> stats" where
  "get_unverified_size R ser decode conn h =
     rbind (start_root_header R ser decode conn (get_request_new h (from_ranges R [last_chunk R]))) (\<lambda>(cur, sz).
     rbind (or_fail get_error_from_read (closing_next (content_finish cur))) (\<lambda>stats.
     Inr (sz, stats)))"

definition get_verified_size ::
  "'r range_ops \<Rightarrow> ('r request \<Rightarrow> bytes option) \<Rightarrow> 'r decode \<Rightarrow> connection \<Rightarrow> hash \<Rightarrow> get_failure + u64 \<times> stats" where
  "get_verified_size R ser decode conn h =
     rbind (start_root_header R ser decode conn (get_request_new h (from_ranges R [last_chunk R]))) (\<lambda>(cur, sz).
     rbind (or_fail get_error_from_decode (content_drain cur)) (\<lambda>end.
     rbind (end_single R end) (\<lambda>stats.
     Inr (sz, stats))))"

definition get_chunk_probe ::
  "'r range_ops \<Rightarrow> ('r request \<Rightarrow> bytes option) \<Rightarrow> 'r decode \<Rightarrow> connection \<Rightarrow> hash \<Rightarrow> u64 \<Rightarrow> get_failure + stats" where
  "get_chunk_probe R ser decode conn h chunk' =
     rbind (start_root_header R ser decode conn (get_request_new h (from_ranges R [rs_range R chunk' (chunk' + 1)]))) (\<lambda>(cur, _).
     rbind (or_fail get_error_from_decode (content_drain cur)) (end_single R))"

text \<open>The loop over the children in \<open>get_hash_seq_and_sizes\<close>.\<close>

lemma end_blob_next_count:
  "end_blob_next R s = MoreChildren c \<Longrightarrow>
    \<exists>x. non_empty_next R (mi_ranges_iter (eb_misc s)) = (Some x, mi_ranges_iter (ach_misc c))"
  by (auto simp: end_blob_next_def Let_def split: prod.splits option.splits)

lemma content_drain_iter: "content_drain s = Inr end' \<Longrightarrow> mi_ranges_iter (eb_misc end') = mi_ranges_iter (bc_misc s)"
proof (induction s rule: content_drain.induct)
  case (1 s)
  then show ?case
    by (subst (asm) (2) content_drain.simps)
      (auto simp: content_next_def Let_def split: blob_content_next.splits sum.splits list.splits)
qed

lemma header_next_iter: "header_next decode s = Inr (c, sz) \<Longrightarrow> mi_ranges_iter (bc_misc c) = mi_ranges_iter (ah_misc s)"
  by (auto simp: header_next_def Let_def split: sum.splits prod.splits)
function (sequential) sizes_loop ::
  "'r range_ops \<Rightarrow> 'r decode \<Rightarrow> hash_seq \<Rightarrow> u64 list \<Rightarrow> 'r at_end_blob \<Rightarrow> get_failure + 'r at_closing \<times> u64 list" where
  "sizes_loop R decode hs sizes s =
     (case end_blob_next R s of
        EndClosing closing \<Rightarrow> Inr (closing, sizes)
      | MoreChildren child \<Rightarrow>
          (case hash_seq_get hs (length sizes) of
             None \<Rightarrow> Inr (start_child_finish child, sizes)
           | Some h \<Rightarrow>
               (case header_next decode (start_child_next child h) of
                  Inl e \<Rightarrow> Inl (GetFails (get_error_from_header e))
                | Inr (c, sz) \<Rightarrow>
                    (case content_drain c of
                       Inl e \<Rightarrow> Inl (GetFails (get_error_from_decode e))
                     | Inr end \<Rightarrow> sizes_loop R decode hs (sizes @ [sz]) end))))"
  by pat_completeness auto
termination
proof (relation "measure (\<lambda>(R, decode, hs, sizes, s). 2 ^ 64 - unat (ne_count (mi_ranges_iter (eb_misc s))))", simp, goal_cases)
  case (1 R decode hs sizes s child h x c sz end')
  then have "mi_ranges_iter (eb_misc end') = mi_ranges_iter (ach_misc child)"
    using content_drain_iter header_next_iter by (fastforce simp: start_child_next_def)
  moreover obtain y where "non_empty_next R (mi_ranges_iter (eb_misc s)) = (Some y, mi_ranges_iter (ach_misc child))"
    using end_blob_next_count 1(1) by metis
  from non_empty_next_count [OF this] have "unat (ne_count (mi_ranges_iter (eb_misc s))) < unat (ne_count (mi_ranges_iter (ach_misc child)))" .
  ultimately show ?case using unat_u64_lt [of "ne_count (mi_ranges_iter (ach_misc child))"] by simp
qed

declare sizes_loop.simps [simp del]

definition get_hash_seq_and_sizes ::
  "'r range_ops \<Rightarrow> ('r request \<Rightarrow> bytes option) \<Rightarrow> 'r decode \<Rightarrow> connection \<Rightarrow> hash \<Rightarrow> u64 \<Rightarrow> get_failure + hash_seq \<times> u64 list" where
  "get_hash_seq_and_sizes R ser decode conn h max_size =
     rbind (start_root_header R ser decode conn (get_request_new h (from_ranges_infinite R [rs_all R, last_chunk R]))) (\<lambda>(cur, sz).
     if sz > max_size then Inl (GetFails BadRequest)
     else
       rbind (or_fail get_error_from_decode (concatenate_into_vec cur)) (\<lambda>(cur, bs).
       case hash_seq_new bs of
         None \<Rightarrow> Inl (GetFails BadRequest)
       | Some hs \<Rightarrow>
           rbind (sizes_loop R decode hs [] cur) (\<lambda>(closing, sizes).
           rbind (or_fail get_error_from_read (closing_next closing)) (\<lambda>_.
           Inr (hs, sizes)))))"

text \<open>
  \<open>random_hash_seq_ranges\<close>: \<open>full_chunks\<close> is \<open>ChunkNum::full_chunks\<close> of \<open>bao-tree\<close>, and \<open>gen_range\<close> the
  random choice below a bound, which panics if the bound is 0 (\<open>None\<close>).
\<close>

fun random_ranges_loop :: "'r range_ops \<Rightarrow> (u64 \<Rightarrow> u64) \<Rightarrow> u64 \<Rightarrow> 'r list \<Rightarrow> u64 list \<Rightarrow> 'r list" where
  "random_ranges_loop R full_chunks remaining ranges [] = ranges"
| "random_ranges_loop R full_chunks remaining ranges (sz # sizes) =
     (let chunks = full_chunks sz in
      if remaining < chunks then ranges @ [rs_range R remaining (remaining + 1)]
      else random_ranges_loop R full_chunks (remaining - chunks) (ranges @ [rs_empty R]) sizes)"

definition random_hash_seq_ranges ::
  "'r range_ops \<Rightarrow> (u64 \<Rightarrow> u64) \<Rightarrow> (u64 \<Rightarrow> u64) \<Rightarrow> u64 list \<Rightarrow> 'r chunk_ranges_seq option" where
  "random_hash_seq_ranges R full_chunks gen_range sizes =
     (let total_chunks = sum_list (map full_chunks sizes) in
      if total_chunks = 0 then None
      else Some (from_ranges R (random_ranges_loop R full_chunks (gen_range total_chunks) [rs_empty R] sizes)))"

end
