(* ===== verification/Events.thy ===== *)
theory Events
  imports Mem_Store
begin

text \<open>
  The events of a provider, \<open>src/src/provider/events.rs\<close>: the mask that says which events are sent to
  the handler of events and which requests are refused, the tracker of a request, and the reporting
  of transfers. The handler is the user's code behind a channel; it is a parameter that says how it
  answers.
\<close>

section \<open>The mask\<close>

datatype connect_mode = ConnectNone | ConnectNotify | ConnectIntercept

datatype observe_mode = ObserveNone | ObserveNotify | ObserveIntercept

datatype request_mode = ReqNone | ReqNotify | ReqIntercept | ReqNotifyLog | ReqInterceptLog | ReqDisabled

datatype throttle_mode = ThrottleNone | ThrottleIntercept

datatype abort_reason = RateLimited | PermissionDenied

datatype progress_error = ProgressLimit | ProgressPermission | ProgressInternal

fun progress_error_from :: "abort_reason \<Rightarrow> progress_error" where
  "progress_error_from RateLimited = ProgressLimit"
| "progress_error_from PermissionDenied = ProgressPermission"

fun progress_code :: "progress_error \<Rightarrow> u64" where
  "progress_code ProgressLimit = ERR_LIMIT"
| "progress_code ProgressPermission = ERR_PERMISSION"
| "progress_code ProgressInternal = ERR_INTERNAL"

fun progress_reason :: "progress_error \<Rightarrow> string" where
  "progress_reason ProgressLimit = ''limit''"
| "progress_reason ProgressPermission = ''permission''"
| "progress_reason ProgressInternal = ''internal''"

record event_mask =
  em_connected :: connect_mode
  em_get :: request_mode
  em_get_many :: request_mode
  em_push :: request_mode
  em_observe :: observe_mode
  em_throttle :: throttle_mode

definition event_mask_default :: event_mask where
  "event_mask_default = \<lparr>em_connected = ConnectNone, em_get = ReqNone, em_get_many = ReqNone, em_push = ReqDisabled,
     em_observe = ObserveNone, em_throttle = ThrottleNone\<rparr>"

definition event_mask_all_readonly :: event_mask where
  "event_mask_all_readonly = \<lparr>em_connected = ConnectIntercept, em_get = ReqInterceptLog, em_get_many = ReqInterceptLog,
     em_push = ReqDisabled, em_observe = ObserveIntercept, em_throttle = ThrottleIntercept\<rparr>"

section \<open>The sender of events\<close>

record transfer_stats =
  ts_payload_bytes_sent :: u64
  ts_other_bytes_sent :: u64
  ts_other_bytes_read :: u64

datatype request_update =
    TransferStarted u64 hash u64 | TransferProgress u64 | TransferCompleted transfer_stats | TransferAborted transfer_stats

text \<open>
  The handler at the other end: whether the channel to it is open (\<open>None\<close> for success), its
  answers to a connection, to a request and to throttling, and the channel for the updates of a
  request. An answer is the refusal, \<open>Some (Inr reason)\<close>, or a failed channel, \<open>Some (Inl ())\<close>.
\<close>

type_synonym answer = "(unit + abort_reason) option"

record 'r event_client =
  ec_notify :: bool
  ec_connected :: "u64 \<Rightarrow> answer"
  ec_request :: "u64 \<Rightarrow> u64 \<Rightarrow> 'r request \<Rightarrow> answer"
  ec_throttle :: "u64 \<Rightarrow> u64 \<Rightarrow> u64 \<Rightarrow> answer"
  ec_updates :: "u64 \<Rightarrow> u64 \<Rightarrow> request_update sender"

record 'r event_sender =
  es_mask :: event_mask
  es_inner :: "'r event_client option"

definition event_sender_default :: "'r event_sender" where
  "event_sender_default = \<lparr>es_mask = event_mask_default, es_inner = None\<rparr>"

definition event_sender_new :: "'r event_client \<Rightarrow> event_mask \<Rightarrow> 'r event_sender" where
  "event_sender_new client m = \<lparr>es_mask = m, es_inner = Some client\<rparr>"

datatype request_updates = NoUpdates | ActiveUpdates "request_update sender" | DisabledUpdates "request_update sender"

record 'r request_tracker =
  rt_updates :: request_updates
  rt_throttle :: "('r event_client \<times> u64 \<times> u64) option"

definition tracker_none :: "'r request_tracker" where
  "tracker_none = \<lparr>rt_updates = NoUpdates, rt_throttle = None\<rparr>"

text \<open>An answer as a result, \<open>await??\<close>.\<close>

definition answered :: "answer \<Rightarrow> progress_error + unit" where
  "answered a = (case a of None \<Rightarrow> Inr () | Some (Inl _) \<Rightarrow> Inl ProgressInternal | Some (Inr reason) \<Rightarrow> Inl (progress_error_from reason))"

definition notified :: "'r event_client \<Rightarrow> progress_error + unit" where
  "notified client = (if ec_notify client then Inr () else Inl ProgressInternal)"

definition client_connected :: "'r event_sender \<Rightarrow> u64 \<Rightarrow> progress_error + unit" where
  "client_connected es connection_id =
     (case es_inner es of
        None \<Rightarrow> Inr ()
      | Some client \<Rightarrow>
          (case em_connected (es_mask es) of
             ConnectNone \<Rightarrow> Inr ()
           | ConnectNotify \<Rightarrow> notified client
           | ConnectIntercept \<Rightarrow> answered (ec_connected client connection_id)))"

definition connection_closed :: "'r event_sender \<Rightarrow> progress_error + unit" where
  "connection_closed es = (case es_inner es of None \<Rightarrow> Inr () | Some client \<Rightarrow> notified client)"

definition create_tracker :: "'r event_sender \<Rightarrow> request_updates \<Rightarrow> u64 \<Rightarrow> u64 \<Rightarrow> 'r request_tracker" where
  "create_tracker es updates connection_id request_id =
     \<lparr>rt_updates = updates,
      rt_throttle = (case em_throttle (es_mask es) of
         ThrottleNone \<Rightarrow> None
       | ThrottleIntercept \<Rightarrow> map_option (\<lambda>client. (client, connection_id, request_id)) (es_inner es))\<rparr>"

text \<open>
  \<open>EventSender::request\<close>: it serves get, get-many, push and observe requests alike, and the mode it
  looks at is that of get requests.
\<close>

definition es_request :: "'r event_sender \<Rightarrow> 'r request \<Rightarrow> u64 \<Rightarrow> u64 \<Rightarrow> progress_error + 'r request_tracker" where
  "es_request es req connection_id request_id =
     (let tracker = (\<lambda>updates. create_tracker es updates connection_id request_id) in
      case em_get (es_mask es) of
        ReqNone \<Rightarrow> Inr (tracker NoUpdates)
      | ReqNotify \<Rightarrow>
          (case es_inner es of
             None \<Rightarrow> Inr (tracker NoUpdates)
           | Some client \<Rightarrow>
               rbind (notified client) (\<lambda>_. Inr (tracker (DisabledUpdates (ec_updates client connection_id request_id)))))
      | ReqIntercept \<Rightarrow>
          (case es_inner es of
             None \<Rightarrow> Inr (tracker NoUpdates)
           | Some client \<Rightarrow>
               rbind (answered (ec_request client connection_id request_id req))
                 (\<lambda>_. Inr (tracker (DisabledUpdates (ec_updates client connection_id request_id)))))
      | ReqNotifyLog \<Rightarrow>
          (case es_inner es of
             None \<Rightarrow> Inr (tracker NoUpdates)
           | Some client \<Rightarrow>
               rbind (notified client) (\<lambda>_. Inr (tracker (ActiveUpdates (ec_updates client connection_id request_id)))))
      | ReqInterceptLog \<Rightarrow>
          (case es_inner es of
             None \<Rightarrow> Inr (tracker NoUpdates)
           | Some client \<Rightarrow>
               rbind (answered (ec_request client connection_id request_id req))
                 (\<lambda>_. Inr (tracker (ActiveUpdates (ec_updates client connection_id request_id)))))
      | ReqDisabled \<Rightarrow> Inl ProgressPermission)"

section \<open>The tracker of a request\<close>

text \<open>
  An update that cannot be sent is an error of \<open>irpc\<close>; a tracker without active updates ignores it.
\<close>

definition send_update :: "'r request_tracker \<Rightarrow> request_update \<Rightarrow> 'r request_tracker option" where
  "send_update t u =
     (case rt_updates t of
        ActiveUpdates tx \<Rightarrow> map_option (\<lambda>tx. t\<lparr>rt_updates := ActiveUpdates tx\<rparr>) (send tx u)
      | _ \<Rightarrow> Some t)"

text \<open>\<open>.ok()\<close>: the failure is ignored.\<close>

definition update_ok :: "'r request_tracker \<Rightarrow> request_update \<Rightarrow> 'r request_tracker" where
  "update_ok t u = (case send_update t u of None \<Rightarrow> t | Some t \<Rightarrow> t)"

definition transfer_started :: "'r request_tracker \<Rightarrow> u64 \<Rightarrow> hash \<Rightarrow> u64 \<Rightarrow> 'r request_tracker option" where
  "transfer_started t index' h sz = send_update t (TransferStarted index' h sz)"

definition transfer_progress :: "'r request_tracker \<Rightarrow> u64 \<Rightarrow> u64 \<Rightarrow> progress_error + 'r request_tracker" where
  "transfer_progress t len end_offset =
     (case send_update t (TransferProgress end_offset) of
        None \<Rightarrow> Inl ProgressInternal
      | Some t \<Rightarrow>
          (case rt_throttle t of
             None \<Rightarrow> Inr t
           | Some (client, connection_id, request_id) \<Rightarrow>
               rbind (answered (ec_throttle client connection_id request_id len)) (\<lambda>_. Inr t)))"

definition transfer_completed :: "'r request_tracker \<Rightarrow> transfer_stats \<Rightarrow> 'r request_tracker option" where
  "transfer_completed t stats = send_update t (TransferCompleted stats)"

definition transfer_aborted :: "'r request_tracker \<Rightarrow> transfer_stats \<Rightarrow> 'r request_tracker option" where
  "transfer_aborted t stats = send_update t (TransferAborted stats)"

end
