(* ===== verification/Provider.thy ===== *)
theory Provider
  imports Store_Api Get_Fsm Events
begin

text \<open>
  The provider side of the protocol, \<open>src/src/provider.rs\<close>: how a stream with a request is served from a
  store. A get request is answered blob by blob with the verified ranges of the root and its
  children, a push request imports what the stream carries, an observe request sends the bitfield
  and its changes. The store is given by its operations; the stream of a request is what arrives
  on it, the stream of a response what has been written and how many writes the peer still takes.
\<close>

section \<open>Writers\<close>

record 'r writer_context =
  wc_other_bytes_read :: u64
  wc_payload_bytes_written :: u64
  wc_other_bytes_written :: u64
  wc_tracker :: "'r request_tracker"

definition writer_stats :: "'r writer_context \<Rightarrow> transfer_stats" where
  "writer_stats c =
     \<lparr>ts_payload_bytes_sent = wc_payload_bytes_written c, ts_other_bytes_sent = wc_other_bytes_written c,
      ts_other_bytes_read = wc_other_bytes_read c\<rparr>"

record 'r progress_writer =
  pw_out :: bytes
  pw_left :: "nat option"
  pw_context :: "'r writer_context"

text \<open>A write to the stream; \<open>None\<close> if the peer has stopped it.\<close>

definition stream_write :: "'r progress_writer \<Rightarrow> bytes \<Rightarrow> 'r progress_writer option" where
  "stream_write w bs =
     (case pw_left w of
        None \<Rightarrow> Some (w\<lparr>pw_out := pw_out w @ bs\<rparr>)
      | Some 0 \<Rightarrow> None
      | Some (Suc n) \<Rightarrow> Some (w\<lparr>pw_out := pw_out w @ bs, pw_left := Some n\<rparr>))"

definition notify_payload_write :: "'r writer_context \<Rightarrow> u64 \<Rightarrow> nat \<Rightarrow> 'r writer_context \<times> progress_error option" where
  "notify_payload_write c offset len =
     (let end_offset = offset + of_nat len;
          c = c\<lparr>wc_payload_bytes_written := wc_payload_bytes_written c + of_nat len\<rparr>
      in case transfer_progress (wc_tracker c) (of_nat len) end_offset of
           Inl e \<Rightarrow> (c, Some e)
         | Inr t \<Rightarrow> (c\<lparr>wc_tracker := t\<rparr>, None))"

definition log_other_write :: "'r writer_context \<Rightarrow> nat \<Rightarrow> 'r writer_context" where
  "log_other_write c len = c\<lparr>wc_other_bytes_written := wc_other_bytes_written c + of_nat len\<rparr>"

definition send_transfer_started :: "'r writer_context \<Rightarrow> u64 \<Rightarrow> hash \<Rightarrow> u64 \<Rightarrow> 'r writer_context" where
  "send_transfer_started c index' h sz =
     (case transfer_started (wc_tracker c) index' h sz of None \<Rightarrow> c | Some t \<Rightarrow> c\<lparr>wc_tracker := t\<rparr>)"

definition writer_aborted :: "'r progress_writer \<Rightarrow> 'r progress_writer" where
  "writer_aborted w =
     (let c = pw_context w in
      case transfer_aborted (wc_tracker c) (writer_stats c) of
        None \<Rightarrow> w | Some t \<Rightarrow> w\<lparr>pw_context := c\<lparr>wc_tracker := t\<rparr>\<rparr>)"

definition writer_completed :: "'r progress_writer \<Rightarrow> 'r progress_writer" where
  "writer_completed w =
     (let c = pw_context w in
      case transfer_completed (wc_tracker c) (writer_stats c) of
        None \<Rightarrow> w | Some t \<Rightarrow> w\<lparr>pw_context := c\<lparr>wc_tracker := t\<rparr>\<rparr>)"

text \<open>\<open>write_quinn_with_progress\<close>: the writer afterwards, and the error if there is one.\<close>

fun write_quinn_with_progress ::
  "hash \<Rightarrow> u64 \<Rightarrow> 'r progress_writer \<Rightarrow> encoded_item list \<Rightarrow> 'r progress_writer \<times> io_error option" where
  "write_quinn_with_progress h i w [] = (w, None)"
| "write_quinn_with_progress h i w (EncSize sz # items) =
     (let w = w\<lparr>pw_context := send_transfer_started (pw_context w) i h sz\<rparr> in
      case stream_write w (to_le_bytes sz) of
        None \<Rightarrow> (w, Some OtherIo)
      | Some w \<Rightarrow> write_quinn_with_progress h i (w\<lparr>pw_context := log_other_write (pw_context w) 8\<rparr>) items)"
| "write_quinn_with_progress h i w (EncParent _ l r # items) =
     (case stream_write w (as_bytes l @ as_bytes r) of
        None \<Rightarrow> (w, Some OtherIo)
      | Some w \<Rightarrow> write_quinn_with_progress h i (w\<lparr>pw_context := log_other_write (pw_context w) 64\<rparr>) items)"
| "write_quinn_with_progress h i w (EncLeaf offset d # items) =
     (case stream_write w d of
        None \<Rightarrow> (w, Some OtherIo)
      | Some w \<Rightarrow>
          (case notify_payload_write (pw_context w) offset (length d) of
             (c, Some _) \<Rightarrow> (w\<lparr>pw_context := c\<rparr>, Some OtherIo)
           | (c, None) \<Rightarrow> write_quinn_with_progress h i (w\<lparr>pw_context := c\<rparr>) items))"
| "write_quinn_with_progress h i w (EncDone # items) = (w, None)"
| "write_quinn_with_progress h i w (EncError e # items) = (w, Some e)"

section \<open>Serving requests\<close>

definition send_blob ::
  "('r, 's) store_ops \<Rightarrow> 's \<Rightarrow> u64 \<Rightarrow> hash \<Rightarrow> 'r \<Rightarrow> 'r progress_writer \<Rightarrow> 'r progress_writer \<times> io_error option" where
  "send_blob St s i h ranges w = write_quinn_with_progress h i w (so_export_bao St s h ranges)"

definition load_hash_seq :: "('r, 's) store_ops \<Rightarrow> 's \<Rightarrow> hash \<Rightarrow> io_error + hash_seq" where
  "load_hash_seq St s h =
     rbind (so_get_bytes St s h) (\<lambda>bs. case hash_seq_new bs of None \<Rightarrow> Inl OtherIo | Some hs \<Rightarrow> Inr hs)"

function (sequential) handle_get_loop ::
  "'r range_ops \<Rightarrow> ('r, 's) store_ops \<Rightarrow> 's \<Rightarrow> hash \<Rightarrow> hash_seq option \<Rightarrow> 'r progress_writer \<Rightarrow> 'r non_empty_iter \<Rightarrow>
   'r progress_writer \<times> io_error option" where
  "handle_get_loop R St s h cached w it =
     (case non_empty_next R it of
        (None, _) \<Rightarrow> (w, None)
      | (Some (offset, ranges), it') \<Rightarrow>
          if offset = 0 then
            (case send_blob St s offset h ranges w of
               (w, Some e) \<Rightarrow> (w, Some e)
             | (w, None) \<Rightarrow> handle_get_loop R St s h cached w it')
          else
            (case (case cached of Some hs \<Rightarrow> Inr hs | None \<Rightarrow> load_hash_seq St s h) of
               Inl e \<Rightarrow> (w, Some e)
             | Inr hs \<Rightarrow>
                 (case hash_seq_get hs (unat (offset - 1)) of
                    None \<Rightarrow> (w, None)
                  | Some child \<Rightarrow>
                      (case send_blob St s offset child ranges w of
                         (w, Some e) \<Rightarrow> (w, Some e)
                       | (w, None) \<Rightarrow> handle_get_loop R St s h (Some hs) w it'))))"
  by pat_completeness auto
termination
  by (relation "measure (\<lambda>(R, St, s, h, cached, w, it). 2 ^ 64 - unat (ne_count it))")
    (auto dest!: sym [THEN non_empty_next_count] simp: diff_less_mono2 unat_u64_lt)

declare handle_get_loop.simps [simp del]

definition handle_get ::
  "'r range_ops \<Rightarrow> ('r, 's) store_ops \<Rightarrow> 's \<Rightarrow> 'r get_request \<Rightarrow> 'r progress_writer \<Rightarrow> 'r progress_writer \<times> io_error option" where
  "handle_get R St s req w = handle_get_loop R St s (gr_hash req) None w (iter_non_empty_infinite R (gr_ranges req))"

fun handle_get_many_loop ::
  "'r range_ops \<Rightarrow> ('r, 's) store_ops \<Rightarrow> 's \<Rightarrow> u64 \<Rightarrow> hash list \<Rightarrow> 'r seq_iter \<Rightarrow> 'r progress_writer \<Rightarrow>
   'r progress_writer \<times> io_error option" where
  "handle_get_many_loop R St s child [] it w = (w, None)"
| "handle_get_many_loop R St s child (h # hs) it w =
     (case infinite_next it of
        (None, _) \<Rightarrow> (w, None)
      | (Some ranges, it) \<Rightarrow>
          if \<not> rs_is_empty R ranges then
            (case send_blob St s child h ranges w of
               (w, Some e) \<Rightarrow> (w, Some e)
             | (w, None) \<Rightarrow> handle_get_many_loop R St s (child + 1) hs it w)
          else handle_get_many_loop R St s (child + 1) hs it w)"

definition handle_get_many ::
  "'r range_ops \<Rightarrow> ('r, 's) store_ops \<Rightarrow> 's \<Rightarrow> 'r get_many_request \<Rightarrow> 'r progress_writer \<Rightarrow> 'r progress_writer \<times> io_error option" where
  "handle_get_many R St s req w = handle_get_many_loop R St s 0 (gm_hashes req) (iter_infinite R (gm_ranges req)) w"

text \<open>
  \<open>import_bao_reader\<close>: the items up to the first error are imported; an error of the import comes
  before one of the stream.
\<close>

fun decoded :: "('e + 'a) list \<Rightarrow> 'a list \<times> 'e option" where
  "decoded [] = ([], None)"
| "decoded (Inl e # rs) = ([], Some e)"
| "decoded (Inr x # rs) = (let (xs, e) = decoded rs in (x # xs, e))"

definition import_bao_reader ::
  "('r, 's) store_ops \<Rightarrow> 'r decode \<Rightarrow> 's \<Rightarrow> hash \<Rightarrow> 'r \<Rightarrow> recv_stream \<Rightarrow> (io_error + recv_stream) \<times> 's" where
  "import_bao_reader St decode s h ranges reader =
     (case read_8 reader of
        Inl _ \<Rightarrow> (Inl OtherIo, s)
      | Inr (bs, reader) \<Rightarrow>
          let sz = from_le_bytes bs in
          if sz = 0 then (if h = hash_empty then Inr reader else Inl OtherIo, s)
          else
            let dc = decode h ranges sz reader;
                (items, failed) = decoded (dc_items dc)
            in case so_import_bao St s h sz items of
                 (Inl (ImportAnswered e), s) \<Rightarrow> (Inl e, s)
               | (Inl ImportClosed, s) \<Rightarrow> (Inl OtherIo, s)
               | (Inr _, s) \<Rightarrow> (if failed = None then Inr (dc_reader dc) else Inl OtherIo, s))"

fun handle_push_loop ::
  "'r range_ops \<Rightarrow> ('r, 's) store_ops \<Rightarrow> 'r decode \<Rightarrow> hash list \<Rightarrow> 'r seq_iter \<Rightarrow> recv_stream \<Rightarrow> 's \<Rightarrow> io_error option \<times> 's" where
  "handle_push_loop R St decode [] it reader s = (None, s)"
| "handle_push_loop R St decode (h # hs) it reader s =
     (case infinite_next it of
        (None, _) \<Rightarrow> (None, s)
      | (Some ranges, it) \<Rightarrow>
          if rs_is_empty R ranges then handle_push_loop R St decode hs it reader s
          else (case import_bao_reader St decode s h ranges reader of
              (Inl e, s) \<Rightarrow> (Some e, s)
            | (Inr reader, s) \<Rightarrow> handle_push_loop R St decode hs it reader s))"

text \<open>\<open>handle_push\<close>: the \<open>expect\<close> on the infinite iterator never fails (\<open>infinite_next_Some\<close>).\<close>

definition handle_push ::
  "'r range_ops \<Rightarrow> ('r, 's) store_ops \<Rightarrow> 'r decode \<Rightarrow> 's \<Rightarrow> 'r get_request \<Rightarrow> recv_stream \<Rightarrow> io_error option \<times> 's" where
  "handle_push R St decode s req reader =
     (case infinite_next (iter_infinite R (gr_ranges req)) of
        (None, _) \<Rightarrow> (Some OtherIo, s)
      | (Some root_ranges, it) \<Rightarrow>
          (case (if rs_is_empty R root_ranges then (Inr reader, s)
                 else import_bao_reader St decode s (gr_hash req) root_ranges reader) of
             (Inl e, s) \<Rightarrow> (Some e, s)
           | (Inr reader, s) \<Rightarrow>
               if is_blob R (gr_ranges req) then (None, s)
               else (case load_hash_seq St s (gr_hash req) of
                   Inl e \<Rightarrow> (Some e, s)
                 | Inr hs \<Rightarrow> handle_push_loop R St decode (hash_seq_iter hs) it reader s)))"

text \<open>
  \<open>handle_observe\<close>: what happens is a new value of the stream of bitfields, its end, or that the peer
  stops listening. \<open>enc\<close> is the length-prefixed serialization.
\<close>

datatype 'r observe_event = NewValue "'r bitfield" | ObserveClosed | PeerStopped

definition send_observe_item :: "('r observe_item \<Rightarrow> bytes) \<Rightarrow> 'r progress_writer \<Rightarrow> 'r bitfield \<Rightarrow> 'r progress_writer option" where
  "send_observe_item enc w bf =
     (let bs = enc (observe_item_from bf) in
      map_option (\<lambda>w. w\<lparr>pw_context := log_other_write (pw_context w) (length bs)\<rparr>) (stream_write w bs))"

fun handle_observe_loop ::
  "'r range_ops \<Rightarrow> ('r observe_item \<Rightarrow> bytes) \<Rightarrow> 'r bitfield \<Rightarrow> 'r observe_event list \<Rightarrow> 'r progress_writer \<Rightarrow>
   'r progress_writer \<times> io_error option" where
  "handle_observe_loop R enc old [] w = (w, Some OtherIo)"
| "handle_observe_loop R enc old (ObserveClosed # es) w = (w, Some OtherIo)"
| "handle_observe_loop R enc old (PeerStopped # es) w = (w, None)"
| "handle_observe_loop R enc old (NewValue new # es) w =
     (let diff = bf_diff R old new in
      if bf_is_empty R diff then handle_observe_loop R enc old es w
      else (case send_observe_item enc w diff of
          None \<Rightarrow> (w, Some OtherIo)
        | Some w \<Rightarrow> handle_observe_loop R enc new es w))"

definition handle_observe ::
  "'r range_ops \<Rightarrow> ('r observe_item \<Rightarrow> bytes) \<Rightarrow> 'r observe_event list \<Rightarrow> 'r progress_writer \<Rightarrow>
   'r progress_writer \<times> io_error option" where
  "handle_observe R enc es w =
     (case es of
        NewValue old # es \<Rightarrow>
          (case send_observe_item enc w old of
             None \<Rightarrow> (w, Some OtherIo)
           | Some w \<Rightarrow> handle_observe_loop R enc old es w)
      | _ \<Rightarrow> (w, Some OtherIo))"

section \<open>Streams\<close>

text \<open>
  A pair of streams: what the peer sends, how many bytes the writer takes, and whether the writer is
  already closed, so that it cannot be finished.
\<close>

record 'r stream_pair =
  sp_connection_id :: u64
  sp_request_id :: u64
  sp_reader :: recv_stream
  sp_left :: "nat option"
  sp_closed :: bool
  sp_other_bytes_read :: u64
  sp_events :: "'r event_sender"

text \<open>How a stream ends: an unreadable request, one that is refused with a code, or one that was served.\<close>

datatype 'r stream_end =
    RequestUnreadable
  | RequestRefused u64
  | RequestNotFinished "'r request_tracker"
  | Served "'r progress_writer" "io_error option"
  | Pushed "'r request_tracker" "io_error option"
  | RequestUnknown

definition stream_stats :: "'r stream_pair \<Rightarrow> transfer_stats" where
  "stream_stats sp = \<lparr>ts_payload_bytes_sent = 0, ts_other_bytes_sent = 0, ts_other_bytes_read = sp_other_bytes_read sp\<rparr>"

text \<open>\<open>into_writer\<close>: nothing may follow the request; otherwise the transfer is reported as aborted.\<close>

definition into_writer :: "'r stream_pair \<Rightarrow> 'r request_tracker \<Rightarrow> 'r request_tracker + 'r progress_writer" where
  "into_writer sp tracker =
     (if rv_bytes (sp_reader sp) \<noteq> [] \<or> rv_error (sp_reader sp) \<noteq> None
      then Inl (update_ok tracker (TransferAborted (stream_stats sp)))
      else Inr \<lparr>pw_out = [], pw_left = sp_left sp,
        pw_context = \<lparr>wc_other_bytes_read = sp_other_bytes_read sp, wc_payload_bytes_written = 0, wc_other_bytes_written = 0,
          wc_tracker = tracker\<rparr>\<rparr>)"

text \<open>\<open>into_reader\<close>: nothing is written for a push, so the writer is finished first.\<close>

definition into_reader :: "'r stream_pair \<Rightarrow> 'r request_tracker \<Rightarrow> 'r request_tracker + recv_stream" where
  "into_reader sp tracker =
     (if sp_closed sp then Inl (update_ok tracker (TransferAborted (stream_stats sp))) else Inr (sp_reader sp))"

definition serve :: "('r progress_writer \<Rightarrow> 'r progress_writer \<times> io_error option) \<Rightarrow> 'r stream_pair \<Rightarrow> 'r request_tracker \<Rightarrow> 'r stream_end" where
  "serve handler sp tracker =
     (case into_writer sp tracker of
        Inl tracker \<Rightarrow> RequestNotFinished tracker
      | Inr w \<Rightarrow>
          (case handler w of
             (w, None) \<Rightarrow> Served (writer_completed w) None
           | (w, Some e) \<Rightarrow> Served (writer_aborted w) (Some e)))"

text \<open>\<open>handle_stream\<close>; \<open>observed\<close> is what happens while a hash is observed.\<close>

definition handle_stream ::
  "'r range_ops \<Rightarrow> ('r, 's) store_ops \<Rightarrow> ('r, recv_stream) stream_ops \<Rightarrow> 'r decode \<Rightarrow> ('r observe_item \<Rightarrow> bytes) \<Rightarrow>
   (hash \<Rightarrow> 'r observe_event list) \<Rightarrow> 's \<Rightarrow> 'r stream_pair \<Rightarrow> 'r stream_end \<times> 's" where
  "handle_stream R St S decode enc observed s sp =
     (case read_async S (sp_reader sp) of
        Inl _ \<Rightarrow> (RequestUnreadable, s)
      | Inr ((req, sz), reader) \<Rightarrow>
          let sp = sp\<lparr>sp_reader := reader, sp_other_bytes_read := sp_other_bytes_read sp + sz\<rparr>;
              tracked = es_request (sp_events sp) req (sp_connection_id sp) (sp_request_id sp);
              answer = (\<lambda>handler. case tracked of
                  Inl e \<Rightarrow> (RequestRefused (progress_code e), s)
                | Inr tracker \<Rightarrow> (serve handler sp tracker, s))
          in case req of
               Get r \<Rightarrow> answer (handle_get R St s r)
             | GetMany r \<Rightarrow> answer (handle_get_many R St s r)
             | Observe r \<Rightarrow> answer (handle_observe R enc (observed (or_hash r)))
             | Push r \<Rightarrow>
                 (case tracked of
                    Inl e \<Rightarrow> (RequestRefused (progress_code e), s)
                  | Inr tracker \<Rightarrow>
                      (case into_reader sp tracker of
                         Inl tracker \<Rightarrow> (RequestNotFinished tracker, s)
                       | Inr reader \<Rightarrow>
                           (case handle_push R St decode s r reader of
                              (None, s) \<Rightarrow> (Pushed (update_ok tracker (TransferCompleted (stream_stats sp))) None, s)
                            | (Some e, s) \<Rightarrow> (Pushed (update_ok tracker (TransferAborted (stream_stats sp))) (Some e), s))))
             | _ \<Rightarrow> (RequestUnknown, s))"

end
