(* ===== verification/Local_Info.thy ===== *)
theory Local_Info
  imports Protocol Bitfield
begin

text \<open>
  What is available locally of a request, \<open>LocalInfo\<close> of \<open>src/src/api/remote.rs\<close>: how many bytes are
  there, whether anything is missing, and the request for what is missing. A request for a hash
  sequence may be infinite and the number of children unknown; the loops walk the iterator over
  the non-empty ranges of the request. What is missing is proved to be, at every index, what is
  requested there without what is available.
\<close>

section \<open>Local information\<close>

record 'r non_raw_local_info =
  nr_hash_seq :: "(u64, hash) btree"
  nr_bitfields :: "(hash, 'r bitfield) btree"

record 'r local_info =
  li_request :: "'r get_request"
  li_bitfield :: "'r bitfield"
  li_children :: "'r non_raw_local_info option"

text \<open>\<open>requested_root_ranges\<close>: the first item of the finite iterator.\<close>

definition requested_root_ranges :: "'r range_ops \<Rightarrow> 'r local_info \<Rightarrow> 'r option" where
  "requested_root_ranges R li = fst (finite_next (iter_finite R (gr_ranges (li_request li))))"

text \<open>The local part of a bitfield for a request.\<close>

definition local_part :: "'r range_ops \<Rightarrow> 'r bitfield \<Rightarrow> 'r \<Rightarrow> 'r bitfield" where
  "local_part R bf requested = bf\<lparr>bf_ranges := rs_inter R (bf_ranges bf) requested\<rparr>"

text \<open>Indexing \<open>bitfields[hash]\<close> panics when there is no entry; \<open>None\<close> below is this panic.\<close>

function (sequential) local_bytes_loop ::
  "'r range_ops \<Rightarrow> 'r chunk_ops \<Rightarrow> 'r non_raw_local_info \<Rightarrow> u64 \<Rightarrow> u64 \<Rightarrow> 'r non_empty_iter \<Rightarrow> u64 option" where
  "local_bytes_loop R B ch max_local_index res it =
     (case non_empty_next R it of
        (None, _) \<Rightarrow> Some res
      | (Some (offset, ranges), it') \<Rightarrow>
          if offset = 0 then local_bytes_loop R B ch max_local_index res it'
          else
            let child = offset - 1 in
            if child > max_local_index then Some res
            else (case bt_get (nr_hash_seq ch) child of
                None \<Rightarrow> local_bytes_loop R B ch max_local_index res it'
              | Some h \<Rightarrow>
                  (case bt_get (nr_bitfields ch) h of
                     None \<Rightarrow> None
                   | Some bf \<Rightarrow>
                       local_bytes_loop R B ch max_local_index (res + total_bytes R B (local_part R bf ranges)) it')))"
  by pat_completeness auto
termination
  by (relation "measure (\<lambda>(R, B, ch, m, res, it). 2 ^ 64 - unat (ne_count it))")
    (auto dest!: sym [THEN non_empty_next_count] simp: diff_less_mono2 unat_u64_lt)

definition local_bytes :: "'r range_ops \<Rightarrow> 'r chunk_ops \<Rightarrow> 'r local_info \<Rightarrow> u64 option" where
  "local_bytes R B li =
     (case requested_root_ranges R li of
        None \<Rightarrow> Some 0
      | Some root_requested \<Rightarrow>
          let res = total_bytes R B (local_part R (li_bitfield li) root_requested) in
          (case li_children li of
             None \<Rightarrow> Some res
           | Some ch \<Rightarrow>
               (case bt_last (nr_hash_seq ch) of
                  None \<Rightarrow> Some res
                | Some (max_local_index, _) \<Rightarrow>
                    local_bytes_loop R B ch max_local_index res
                      (iter_non_empty_infinite R (gr_ranges (li_request li))))))"

definition local_children :: "'r range_ops \<Rightarrow> 'r chunk_ops \<Rightarrow> 'r local_info \<Rightarrow> u64 option" where
  "local_children R B li =
     (if li_children li \<noteq> None then map_option (\<lambda>x. x div 32) (validated_size R B (li_bitfield li)) else Some 0)"

function (sequential) is_complete_loop ::
  "'r range_ops \<Rightarrow> 'r non_raw_local_info \<Rightarrow> u64 option \<Rightarrow> 'r non_empty_iter \<Rightarrow> bool option" where
  "is_complete_loop R ch max_child it =
     (case non_empty_next R it of
        (None, _) \<Rightarrow> Some True
      | (Some (offset, rng), it') \<Rightarrow>
          if offset = 0 then is_complete_loop R ch max_child it'
          else
            let child = offset - 1 in
            (case bt_get (nr_hash_seq ch) child of
               Some h \<Rightarrow>
                 (case bt_get (nr_bitfields ch) h of
                    None \<Rightarrow> None
                  | Some bf \<Rightarrow>
                      if \<not> rs_is_subset R rng (bf_ranges bf) then Some False
                      else is_complete_loop R ch max_child it')
             | None \<Rightarrow>
                 (case max_child of
                    Some m \<Rightarrow> if child \<ge> m then Some True else Some False
                  | None \<Rightarrow> Some False)))"
  by pat_completeness auto
termination
  by (relation "measure (\<lambda>(R, ch, m, it). 2 ^ 64 - unat (ne_count it))")
    (auto dest!: sym [THEN non_empty_next_count] simp: diff_less_mono2 unat_u64_lt)

definition local_is_complete :: "'r range_ops \<Rightarrow> 'r chunk_ops \<Rightarrow> 'r local_info \<Rightarrow> bool option" where
  "local_is_complete R B li =
     (case requested_root_ranges R li of
        None \<Rightarrow> Some True
      | Some root_requested \<Rightarrow>
          if \<not> rs_is_subset R root_requested (bf_ranges (li_bitfield li)) then Some False
          else (case li_children li of
              None \<Rightarrow> Some True
            | Some ch \<Rightarrow>
                is_complete_loop R ch (map_option (\<lambda>x. x div 32) (validated_size R B (li_bitfield li)))
                  (iter_non_empty_infinite R (gr_ranges (li_request li)))))"

text \<open>The two loops of \<open>missing\<close>.\<close>

function (sequential) missing_known ::
  "'r range_ops \<Rightarrow> 'r non_raw_local_info \<Rightarrow> u64 \<Rightarrow> 'r seq_builder \<Rightarrow> 'r non_empty_iter \<Rightarrow>
   ('r seq_builder \<times> 'r non_empty_iter) option" where
  "missing_known R ch max_local b it =
     (case non_empty_next R it of
        (None, it') \<Rightarrow> Some (b, it')
      | (Some (offset, requested), it') \<Rightarrow>
          if offset = 0 then missing_known R ch max_local b it'
          else
            let child = offset - 1 in
            (case (case bt_get (nr_hash_seq ch) child of
                     Some h \<Rightarrow> map_option (\<lambda>bf. rs_diff R requested (bf_ranges bf)) (bt_get (nr_bitfields ch) h)
                   | None \<Rightarrow> Some requested) of
               None \<Rightarrow> None
             | Some missing \<Rightarrow>
                 let b = grb_child R b child missing in
                 if offset \<ge> max_local then Some (b, it') else missing_known R ch max_local b it'))"
  by pat_completeness auto
termination
  by (relation "measure (\<lambda>(R, ch, m, b, it). 2 ^ 64 - unat (ne_count it))")
    (auto dest!: sym [THEN non_empty_next_count] simp: diff_less_mono2 unat_u64_lt)

function (sequential) missing_rest ::
  "'r range_ops \<Rightarrow> u64 option \<Rightarrow> hash \<Rightarrow> 'r seq_builder \<Rightarrow> 'r non_empty_iter \<Rightarrow> 'r get_request" where
  "missing_rest R max_offset h b it =
     (case non_empty_next R it of
        (None, _) \<Rightarrow> grb_build R b h
      | (Some (offset, requested), it') \<Rightarrow>
          if offset = 0 then missing_rest R max_offset h b it'
          else
            let child = offset - 1 in
            (case max_offset of
               Some m \<Rightarrow>
                 if child \<ge> m then grb_build R b h
                 else missing_rest R max_offset h (grb_child R b child requested) it'
             | None \<Rightarrow>
                 let b = grb_child R b child requested in
                 if is_at_end (ne_inner it') then
                   (case non_empty_next R it' of
                      (None, _) \<Rightarrow> grb_build R b h
                    | (Some _, _) \<Rightarrow> grb_build_open R b h)
                 else missing_rest R max_offset h b it'))"
  by pat_completeness auto
termination
  by (relation "measure (\<lambda>(R, m, h, b, it). 2 ^ 64 - unat (ne_count it))")
    (auto dest!: sym [THEN non_empty_next_count] simp: diff_less_mono2 unat_u64_lt)

declare local_bytes_loop.simps [simp del] is_complete_loop.simps [simp del]
  missing_known.simps [simp del] missing_rest.simps [simp del]

definition missing :: "'r range_ops \<Rightarrow> 'r chunk_ops \<Rightarrow> 'r local_info \<Rightarrow> 'r get_request option" where
  "missing R B li =
     (let h = gr_hash (li_request li) in
      case requested_root_ranges R li of
        None \<Rightarrow> Some (get_request_new h seq_empty)
      | Some root_requested \<Rightarrow>
          let builder = grb_root R [] (rs_diff R root_requested (bf_ranges (li_bitfield li))) in
          (case li_children li of
             None \<Rightarrow> Some (grb_build R builder h)
           | Some ch \<Rightarrow>
               let it = iter_non_empty_infinite R (gr_ranges (li_request li));
                   max_local = (case bt_last (nr_hash_seq ch) of Some (k, _) \<Rightarrow> k + 1 | None \<Rightarrow> 0);
                   max_offset = map_option (\<lambda>x. x div 32) (validated_size R B (li_bitfield li))
               in (case missing_known R ch max_local builder it of
                     None \<Rightarrow> None
                   | Some (b, it) \<Rightarrow> Some (missing_rest R max_offset h b it))))"

section \<open>What is missing\<close>

definition wanted :: "'r range_ops \<Rightarrow> 'r local_info \<Rightarrow> u64 \<Rightarrow> 'r" where
  "wanted R li i = seq_at R (gr_ranges (li_request li)) i"

text \<open>What is there at an index of the request: the root at 0, children from 1 on.\<close>

definition child_ranges :: "'r range_ops \<Rightarrow> 'r non_raw_local_info \<Rightarrow> u64 \<Rightarrow> 'r" where
  "child_ranges R ch child =
     (case bt_get (nr_hash_seq ch) child of
        None \<Rightarrow> rs_empty R
      | Some h \<Rightarrow> (case bt_get (nr_bitfields ch) h of None \<Rightarrow> rs_empty R | Some bf \<Rightarrow> bf_ranges bf))"

definition available :: "'r range_ops \<Rightarrow> 'r local_info \<Rightarrow> u64 \<Rightarrow> 'r" where
  "available R li i =
     (if i = 0 then bf_ranges (li_bitfield li)
      else case li_children li of None \<Rightarrow> rs_empty R | Some ch \<Rightarrow> child_ranges R ch (i - 1))"

text \<open>The number of children, once the size of the root is validated, and the indexes there are.\<close>

definition child_count :: "'r range_ops \<Rightarrow> 'r chunk_ops \<Rightarrow> 'r local_info \<Rightarrow> u64 option" where
  "child_count R B li = map_option (\<lambda>x. x div 32) (validated_size R B (li_bitfield li))"

definition has_index :: "u64 option \<Rightarrow> u64 \<Rightarrow> bool" where
  "has_index m i \<longleftrightarrow> i = 0 \<or> (case m of None \<Rightarrow> True | Some n \<Rightarrow> i - 1 < n)"

definition local_info_ok :: "'r range_ops \<Rightarrow> 'r chunk_ops \<Rightarrow> 'r local_info \<Rightarrow> bool" where
  "local_info_ok R B li \<longleftrightarrow> sorted_offsets (gr_ranges (li_request li))
    \<and> (case li_children li of
         None \<Rightarrow> \<forall>i. i \<noteq> 0 \<longrightarrow> wanted R li i = rs_empty R
       | Some ch \<Rightarrow> bt_ok (nr_hash_seq ch)
          \<and> (\<forall>child h. bt_get (nr_hash_seq ch) child = Some h \<longrightarrow>
               bt_get (nr_bitfields ch) h \<noteq> None \<and> child < u64_max - 1
               \<and> (\<forall>n. child_count R B li = Some n \<longrightarrow> child < n)))"

lemma pred_of_nat: "0 < j \<Longrightarrow> (of_nat j :: u64) - 1 = of_nat (j - 1)"
  by (cases j) simp_all

lemma of_nat_u64_neq: "j < 2 ^ 64 \<Longrightarrow> i < 2 ^ 64 \<Longrightarrow> (of_nat i :: u64) = of_nat j \<longleftrightarrow> i = j"
  by (metis unat_of_nat_u64)

context range_set
begin

lemma rs_simps [simp]: "rs_union R (rs_empty R) r = r" "rs_diff R (rs_empty R) r = rs_empty R" "rs_diff R r (rs_empty R) = r"
  by (simp_all add: rs_eq_iff contains_simps)

end

subsection \<open>The builder during the loops\<close>

context range_set
begin

text \<open>The builder asks for the root and for what is below an index, and for nothing else.\<close>

definition asks :: "'r seq_builder \<Rightarrow> (u64 \<Rightarrow> 'r) \<Rightarrow> nat \<Rightarrow> bool" where
  "asks b f k \<longleftrightarrow> bt_ok b \<and> bt_get b u64_max = None
    \<and> (\<forall>i. or_empty R (bt_get b i) = (if i = 0 \<or> unat i < k then f i else rs_empty R))"

lemma asks_skip:
  assumes "asks b f k" "k \<le> j" "\<And>i. 0 < i \<Longrightarrow> k \<le> i \<Longrightarrow> i < j \<Longrightarrow> f (of_nat i) = rs_empty R"
  shows "asks b f j"
proof -
  have "f i = rs_empty R" if "i \<noteq> 0" "\<not> unat i < k" "unat i < j" for i
    using assms(3) [of "unat i"] that by (simp add: unat_gt_0)
  then show ?thesis using assms(1,2) by (auto simp: asks_def)
qed

lemma asks_child:
  assumes "asks b f j" "0 < j" "j < 2 ^ 64 - 1"
  shows "asks (grb_child R b (of_nat j - 1) (f (of_nat j))) f (Suc j)"
proof -
  let ?b = "grb_child R b (of_nat j - 1) (f (of_nat j))"
  have ok: "bt_ok b" and none: "bt_get b u64_max = None"
    and get: "\<And>i. or_empty R (bt_get b i) = (if i = 0 \<or> unat i < j then f i else rs_empty R)"
    using assms(1) by (auto simp: asks_def)
  have j: "unat (of_nat j :: u64) = j" using assms(3) by (intro unat_of_nat_u64) simp
  have b: "?b = bt_upsert (of_nat j) (\<lambda>v. rs_union R v (f (of_nat j))) (f (of_nat j)) b"
    by (simp add: grb_child_def builder_offset_def at_offset_def)
  have "(of_nat j :: u64) \<noteq> u64_max" using j assms(3) by (auto simp: unat_u64_max)
  moreover have "of_nat j \<noteq> (0 :: u64)" using j assms(2) by auto
  then have at: "or_empty R (bt_get b (of_nat j)) = rs_empty R" using get [of "of_nat j"] j by simp
  have "or_empty R (bt_get ?b i) = (if i = 0 \<or> unat i < Suc j then f i else rs_empty R)" for i
  proof (cases "i = of_nat j")
    case True
    then show ?thesis using at j ok by (cases "bt_get b (of_nat j)") (simp_all add: b bt_get_upsert)
  next
    case False
    then have "unat i \<noteq> j" using j by auto
    with False get [of i] ok show ?thesis by (simp add: b bt_get_upsert less_Suc_eq)
  qed
  ultimately show ?thesis using ok none by (simp add: asks_def b bt_ok_upsert bt_get_upsert)
qed

lemma asks_build: "asks b f k \<Longrightarrow> seq_at R (gr_ranges (grb_build R b h)) i = (if i = 0 \<or> unat i < k then f i else rs_empty R)"
  by (simp add: asks_def grb_build_def get_request_new_def seq_at_builder_build)

text \<open>The open end repeats what is asked for at the last index.\<close>

lemma asks_build_open:
  assumes "asks b f (Suc j)" "f (of_nat j) \<noteq> rs_empty R" "j < 2 ^ 64 - 1"
  shows "seq_at R (gr_ranges (grb_build_open R b h)) i = (if unat i < Suc j then f i else f (of_nat j))"
proof -
  have ok: "bt_ok b" and none: "bt_get b u64_max = None"
    and get: "\<And>i. or_empty R (bt_get b i) = (if i = 0 \<or> unat i < Suc j then f i else rs_empty R)"
    using assms(1) by (auto simp: asks_def)
  obtain n where n: "n < 2 ^ 64" "build0 R b = map (\<lambda>j. or_empty R (bt_get b (of_nat j))) [0..<n]"
    "\<And>i. n \<le> unat i \<Longrightarrow> or_empty R (bt_get b i) = rs_empty R"
    "n \<noteq> 0 \<Longrightarrow> or_empty R (bt_get b (of_nat (n - 1))) \<noteq> rs_empty R"
    using build0_exact [OF ok] none by blast
  have j: "unat (of_nat j :: u64) = j" using assms(3) by (intro unat_of_nat_u64) simp
  have "\<not> n \<le> j" using n(3) [of "of_nat j"] get [of "of_nat j"] j assms(2) by auto
  moreover have "unat (of_nat (n - 1) :: u64) = n - 1" using n(1) by (intro unat_of_nat_u64) simp
  then have "\<not> Suc j < n" using n(4) get [of "of_nat (n - 1)"] by (cases "n = 1") (auto split: if_splits)
  ultimately have nj: "n = Suc j" by simp
  have len: "length (build0 R b) < 2 ^ 64" using n by simp
  have s: "gr_ranges (grb_build_open R b h) = fst (from_ranges_inner R (build0 R b))"
    by (simp add: grb_build_open_def get_request_new_def builder_build_open_def from_ranges_infinite_def)
  show ?thesis
  proof (cases "unat i < Suc j")
    case True
    then show ?thesis
      using seq_at_from_ranges_inner [OF len, of "unat i"] get [of i] by (simp add: s n(2) nj del: upt_Suc)
  next
    case False
    then have "seq_at R (fst (from_ranges_inner R (build0 R b))) i = last (build0 R b)"
      using seq_at_from_ranges_inner_beyond [OF len, of i] by (simp add: n(2) nj)
    then show ?thesis using False get [of "of_nat j"] j by (simp add: s n(2) nj)
  qed
qed

lemma missing_known_asks:
  assumes "sorted_offsets s" "k \<le> 2 ^ 64 - 1"
    and known: "\<forall>child h. bt_get (nr_hash_seq ch) child = Some h \<longrightarrow> bt_get (nr_bitfields ch) h \<noteq> None"
    and f: "\<And>i. i \<noteq> 0 \<Longrightarrow> f i = rs_diff R (seq_at R s i) (child_ranges R ch (i - 1))"
    and "asks b f k"
  shows "\<exists>b' it' k'. missing_known R ch max_local b (non_empty_at R s k) = Some (b', it') \<and> k \<le> k' \<and> k' \<le> 2 ^ 64 - 1 \<and> asks b' f k'
    \<and> (it' = non_empty_at R s k' \<and> unat max_local < k' \<or> k' = 2 ^ 64 - 1 \<and> fst (non_empty_next R it') = None)"
  using assms(2,5)
proof (induction "2 ^ 64 - 1 - k" arbitrary: k b rule: less_induct)
  case less
  have f_empty: "f (of_nat i) = rs_empty R" if "0 < i" "i < 2 ^ 64 - 1" "seq_at R s (of_nat i) = rs_empty R" for i
  proof -
    have "unat (of_nat i :: u64) = i" using that by (intro unat_of_nat_u64) simp
    then show ?thesis using f [of "of_nat i"] that by (cases "of_nat i = (0 :: u64)") auto
  qed
  show ?case using assms(1) less.prems(1)
  proof (cases rule: non_empty_cases)
    case (Next j)
    have j: "unat (of_nat j :: u64) = j" using Next(2) by (intro unat_of_nat_u64) simp
    have dec: "2 ^ 64 - 1 - Suc j < 2 ^ 64 - 1 - k" and lej: "Suc j \<le> 2 ^ 64 - 1" using Next(1,2) by simp_all
    show ?thesis
    proof (cases "j = 0")
      case True
      then have "asks b f (Suc j)" using less.prems(2) Next(1) by (auto simp: asks_def unat_eq_0)
      from less.hyps [OF dec lej this] True Next show ?thesis
        by (subst missing_known.simps) (auto intro: exI [of _ "Suc 0"])
    next
      case False
      then have nz: "of_nat j \<noteq> (0 :: u64)" using j by auto
      have "f (of_nat i) = rs_empty R" if "0 < i" "k \<le> i" "i < j" for i
        using f_empty [of i] Next(2,4) that by simp
      then have "asks b f j" using asks_skip [OF less.prems(2) Next(1)] by blast
      then have a: "asks (grb_child R b (of_nat j - 1) (f (of_nat j))) f (Suc j)" using False Next(2) by (intro asks_child) simp_all
      have m: "(case bt_get (nr_hash_seq ch) (of_nat j - 1) of
          Some h \<Rightarrow> map_option (\<lambda>bf. rs_diff R (seq_at R s (of_nat j)) (bf_ranges bf)) (bt_get (nr_bitfields ch) h)
        | None \<Rightarrow> Some (seq_at R s (of_nat j))) = Some (f (of_nat j))"
        using f [OF nz] known [rule_format, of "of_nat j - 1"] by (auto simp: child_ranges_def split: option.splits)
      show ?thesis
      proof (cases "max_local \<le> of_nat j")
        case True
        then have "unat max_local < Suc j" using j by (simp add: word_le_nat_alt)
        then show ?thesis using True nz m a Next lej
          by (subst missing_known.simps) (auto simp: Let_def intro!: exI [of _ "Suc j"])
      next
        case F: False
        have "missing_known R ch max_local b (non_empty_at R s k)
          = missing_known R ch max_local (grb_child R b (of_nat j - 1) (f (of_nat j))) (non_empty_at R s (Suc j))"
          by (subst missing_known.simps) (simp add: Next(5) nz m F Let_def)
        moreover have "k \<le> k'" if "Suc j \<le> k'" for k' using that Next(1) by simp
        ultimately show ?thesis using less.hyps [OF dec lej a] by metis
      qed
    qed
  next
    case (Ended it)
    have "f (of_nat i) = rs_empty R" if "0 < i" "k \<le> i" "i < 2 ^ 64 - 1" for i
      using f_empty [of i] Ended(1) that by simp
    then have "asks b f (2 ^ 64 - 1)" using asks_skip [OF less.prems(2,1)] by blast
    then show ?thesis using Ended non_empty_next_stays [OF Ended(2)] less.prems(1)
      by (subst missing_known.simps) auto
  qed
qed

end

context range_set
begin

text \<open>A request that asks for \<open>f\<close> wherever there is an index, and for nothing besides.\<close>

definition answers :: "(u64 \<Rightarrow> 'r) \<Rightarrow> u64 option \<Rightarrow> hash \<Rightarrow> 'r get_request \<Rightarrow> bool" where
  "answers f m h req \<longleftrightarrow> gr_hash req = h
    \<and> (\<forall>i. i \<noteq> u64_max \<longrightarrow> (has_index m i \<longrightarrow> seq_at R (gr_ranges req) i = f i)
        \<and> (seq_at R (gr_ranges req) i = f i \<or> seq_at R (gr_ranges req) i = rs_empty R))"

lemma below_max: "i \<noteq> u64_max \<longleftrightarrow> unat (i :: u64) < 2 ^ 64 - 1"
  using unat_u64_lt [of i] by (auto simp: unat_u64_max word_unat_eq_iff)

lemma answers_build:
  assumes "asks b f k" "\<And>i. i \<noteq> u64_max \<Longrightarrow> k \<le> unat i \<Longrightarrow> i \<noteq> 0 \<Longrightarrow> has_index m i \<Longrightarrow> f i = rs_empty R"
  shows "answers f m h (grb_build R b h)"
  using assms by (auto simp: answers_def asks_build [OF assms(1)] grb_build_def [of R b h, THEN arg_cong [where f = gr_hash]] get_request_new_def)

lemma missing_rest_answers:
  assumes "sorted_offsets s" "k \<le> 2 ^ 64 - 1" "asks b f k" "\<And>i. k \<le> unat i \<Longrightarrow> i \<noteq> 0 \<Longrightarrow> f i = seq_at R s i"
  shows "answers f m h (missing_rest R m h b (non_empty_at R s k))"
  using assms(2-4)
proof (induction "2 ^ 64 - 1 - k" arbitrary: k b rule: less_induct)
  case less
  have f_empty: "f i = rs_empty R" if "k \<le> unat i" "i \<noteq> 0" "seq_at R s i = rs_empty R" for i
    using less.prems(3) that by simp
  show ?case using assms(1) less.prems(1)
  proof (cases rule: non_empty_cases)
    case (Next j)
    have j: "unat (of_nat j :: u64) = j" using Next(2) by (intro unat_of_nat_u64) simp
    have dec: "2 ^ 64 - 1 - Suc j < 2 ^ 64 - 1 - k" and lej: "Suc j \<le> 2 ^ 64 - 1" using Next(1,2) by simp_all
    have fj: "f i = seq_at R s i" if "Suc j \<le> unat i" "i \<noteq> 0" for i using less.prems(3) that Next(1) by simp
    note IH = less.hyps [OF dec lej _ fj]
    show ?thesis
    proof (cases "j = 0")
      case True
      then have "asks b f (Suc j)" using less.prems(2) Next(1) by (auto simp: asks_def unat_eq_0)
      from IH [OF this] True Next show ?thesis by (subst missing_rest.simps) simp
    next
      case False
      then have nz: "of_nat j \<noteq> (0 :: u64)" using j by auto
      have "f (of_nat i) = rs_empty R" if "0 < i" "k \<le> i" "i < j" for i
      proof -
        have "unat (of_nat i :: u64) = i" using that Next(2) by (intro unat_of_nat_u64) simp
        then show ?thesis using f_empty [of "of_nat i"] Next(4) that by (cases "of_nat i = (0 :: u64)") auto
      qed
      then have aj: "asks b f j" using asks_skip [OF less.prems(2) Next(1)] by blast
      have req: "f (of_nat j) = seq_at R s (of_nat j)" using less.prems(3) nz j Next(1) by simp
      have a: "asks (grb_child R b (of_nat j - 1) (seq_at R s (of_nat j))) f (Suc j)"
        using asks_child [OF aj] False Next(2) req by simp
      show ?thesis
      proof (cases m)
        case (Some n)
        have "f i = rs_empty R" if "n \<le> of_nat j - 1" "j \<le> unat i" "i \<noteq> 0" "has_index m i" for i
        proof -
          have "(of_nat j :: u64) - 1 \<le> i - 1" using that nz j by (simp add: word_le_nat_alt unat_minus_one)
          then show ?thesis using that Some by (auto simp: has_index_def)
        qed
        then have "answers f m h (grb_build R b h)" if "n \<le> of_nat j - 1" using answers_build [OF aj] that by blast
        with IH [OF a] Some Next(5) nz show ?thesis by (subst missing_rest.simps) (simp add: Let_def)
      next
        case None
        let ?b = "grb_child R b (of_nat j - 1) (seq_at R s (of_nat j))"
        show ?thesis
        proof (cases "is_at_end (iter_at R s (Suc j))")
          case True
          have const: "seq_at R s i = seq_at R s (of_nat j)" if "j \<le> unat i" for i
            using at_end_constant [OF assms(1) True that] Next(2) by simp
          have open': "answers f m h (grb_build_open R ?b h)"
          proof -
            have "seq_at R (gr_ranges (grb_build_open R ?b h)) i = f i" for i
              using asks_build_open [OF a, of h i] req Next(2,3) const [of i] fj [of i] by (cases "i = 0") auto
            then show ?thesis by (simp add: answers_def grb_build_open_def get_request_new_def)
          qed
          have "answers f m h (grb_build R ?b h)" if "fst (non_empty_next R (non_empty_at R s (Suc j))) = None"
          proof -
            have "\<not> Suc j < 2 ^ 64 - 1"
            proof
              assume lt: "Suc j < 2 ^ 64 - 1"
              then have "unat (of_nat (Suc j) :: u64) = Suc j" by (intro unat_of_nat_u64) simp
              then have "seq_at R s (of_nat (Suc j)) \<noteq> rs_empty R" using const [of "of_nat (Suc j)"] Next(3) by simp
              then show False using that non_empty_next_step [OF assms(1) lt, of R] by (simp add: is_empty_iff)
            qed
            then show ?thesis using answers_build [OF a] by (auto simp: below_max)
          qed
          then show ?thesis using open' None Next(5) nz True
            by (subst missing_rest.simps) (auto simp: Let_def non_empty_at_def [THEN arg_cong [where f = ne_inner]] split: prod.split option.split)
        next
          case F: False
          then show ?thesis using IH [OF a] None Next(5) nz
            by (subst missing_rest.simps) (simp add: Let_def non_empty_at_def [THEN arg_cong [where f = ne_inner]])
        qed
      qed
    qed
  next
    case (Ended it)
    have "f i = rs_empty R" if "i \<noteq> u64_max" "k \<le> unat i" "i \<noteq> 0" for i
      using f_empty [OF that(2,3)] Ended(1) [of "unat i"] that(1,2) by (simp add: below_max)
    then have "answers f m h (grb_build R b h)" using answers_build [OF less.prems(2)] by blast
    then show ?thesis using Ended(2) by (subst missing_rest.simps) simp
  qed
qed

end

subsection \<open>Completeness\<close>

context range_set
begin

abbreviation covers :: "'r \<Rightarrow> 'r \<Rightarrow> bool" where
  "covers have want \<equiv> \<forall>x. rs_contains R want x \<longrightarrow> rs_contains R have x"

lemma not_covers_empty: "r \<noteq> rs_empty R \<Longrightarrow> \<not> covers (rs_empty R) r"
  by (auto simp: rs_eq_iff contains_simps)

lemma is_complete_loop_exact:
  assumes "sorted_offsets s" "k \<le> 2 ^ 64 - 1"
    and known: "\<And>child h. bt_get (nr_hash_seq ch) child = Some h \<Longrightarrow>
      bt_get (nr_bitfields ch) h \<noteq> None \<and> (\<forall>n. m = Some n \<longrightarrow> child < n)"
  shows "is_complete_loop R ch m (non_empty_at R s k) =
    Some (\<forall>i. k \<le> unat i \<and> i \<noteq> 0 \<and> i \<noteq> u64_max \<and> has_index m i \<longrightarrow> covers (child_ranges R ch (i - 1)) (seq_at R s i))"
  using assms(2)
proof (induction "2 ^ 64 - 1 - k" arbitrary: k rule: less_induct)
  case less
  define fine where "fine i \<longleftrightarrow> i = 0 \<or> i = u64_max \<or> \<not> has_index m i \<or> covers (child_ranges R ch (i - 1)) (seq_at R s i)" for i
  define P where "P k \<longleftrightarrow> (\<forall>i. k \<le> unat i \<longrightarrow> fine i)" for k
  have P_alt: "(\<forall>i. k \<le> unat i \<and> i \<noteq> 0 \<and> i \<noteq> u64_max \<and> has_index m i \<longrightarrow> covers (child_ranges R ch (i - 1)) (seq_at R s i)) \<longleftrightarrow> P k" for k
    by (auto simp: P_def fine_def)
  have fine_empty: "fine i" if "seq_at R s i = rs_empty R" for i using that by (simp add: fine_def contains_empty)
  have "is_complete_loop R ch m (non_empty_at R s k) = Some (P k)" using assms(1) less.prems(1)
  proof (cases rule: non_empty_cases)
    case (Next j)
    have j: "unat (of_nat j :: u64) = j" using Next(2) by (intro unat_of_nat_u64) simp
    have jm: "of_nat j \<noteq> u64_max" using j Next(2) by (simp add: below_max)
    have dec: "2 ^ 64 - 1 - Suc j < 2 ^ 64 - 1 - k" and lej: "Suc j \<le> 2 ^ 64 - 1" using Next(1,2) by simp_all
    note IH = less.hyps [OF dec lej, unfolded P_alt]
    have skip: "P k \<longleftrightarrow> P j"
    proof -
      have "seq_at R s i = rs_empty R" if "k \<le> unat i" "\<not> j \<le> unat i" for i
        using Next(4) [of "unat i"] that by simp
      then show ?thesis using Next(1) fine_empty unfolding P_def by (meson le_trans)
    qed
    show ?thesis
    proof (cases "j = 0")
      case True
      have "fine 0" by (simp add: fine_def)
      then have "P j \<longleftrightarrow> P (Suc j)" using True unfolding P_def by (metis Suc_le_eq gr0I le0 unat_eq_zero)
      with IH True Next skip show ?thesis by (subst is_complete_loop.simps) simp
    next
      case False
      then have nz: "of_nat j \<noteq> (0 :: u64)" using j by auto
      let ?c = "child_ranges R ch (of_nat j - 1)"
      have split: "P j \<longleftrightarrow> (has_index m (of_nat j) \<longrightarrow> covers ?c (seq_at R s (of_nat j))) \<and> P (Suc j)"
      proof -
        have "j \<le> unat i \<longleftrightarrow> i = of_nat j \<or> Suc j \<le> unat i" for i :: u64
        proof -
          have "unat i = j \<longleftrightarrow> i = of_nat j" using j by auto
          then show ?thesis by (auto simp: Suc_le_eq nat_less_le)
        qed
        then have "P j \<longleftrightarrow> fine (of_nat j) \<and> P (Suc j)" unfolding P_def by metis
        then show ?thesis using nz jm by (simp add: fine_def)
      qed
      show ?thesis
      proof (cases "bt_get (nr_hash_seq ch) (of_nat j - 1)")
        case (Some h)
        then obtain bf where bf: "bt_get (nr_bitfields ch) h = Some bf" using known by blast
        have "has_index m (of_nat j)" using known [OF Some] by (auto simp: has_index_def split: option.split)
        moreover have "?c = bf_ranges bf" using Some bf by (simp add: child_ranges_def)
        ultimately have "P k \<longleftrightarrow> covers (bf_ranges bf) (seq_at R s (of_nat j)) \<and> P (Suc j)" using skip split by simp
        then show ?thesis using Some bf Next(5) nz IH
          by (subst is_complete_loop.simps) (auto simp: Let_def is_subset_iff)
      next
        case None
        then have c: "?c = rs_empty R" by (simp add: child_ranges_def)
        have far: "P k" if "m = Some n" "n \<le> of_nat j - 1" for n
        proof -
          have "\<not> has_index m i" if "j \<le> unat i" "i \<noteq> 0" for i
          proof -
            have "(of_nat j :: u64) - 1 \<le> i - 1" using that nz j by (simp add: word_le_nat_alt unat_minus_one)
            then show ?thesis using that \<open>m = Some n\<close> \<open>n \<le> of_nat j - 1\<close> by (auto simp: has_index_def)
          qed
          then show ?thesis using skip unfolding P_def fine_def by metis
        qed
        have near: "\<not> P k" if "has_index m (of_nat j)"
          using that skip split c not_covers_empty [OF Next(3)] by simp
        show ?thesis using None Next(5) nz far near
          by (subst is_complete_loop.simps) (auto simp: Let_def has_index_def split: option.split)
      qed
    qed
  next
    case (Ended it)
    have "seq_at R s i = rs_empty R" if "i \<noteq> u64_max" "k \<le> unat i" for i
      using Ended(1) [of "unat i"] that by (simp add: below_max)
    then have "P k" using fine_empty unfolding P_def fine_def by metis
    then show ?thesis using Ended(2) by (subst is_complete_loop.simps) simp
  qed
  then show ?case unfolding P_alt .
qed

end

subsection \<open>The whole of it\<close>

lemma requested_root_sorted:
  assumes "sorted_offsets (gr_ranges (li_request li))"
  shows "requested_root_ranges R li = (if gr_ranges (li_request li) = [] then None else Some (wanted R li 0))"
proof (cases "gr_ranges (li_request li)")
  case Nil
  then show ?thesis by (simp add: requested_root_ranges_def iter_finite_def finite_next_def)
next
  case (Cons e s)
  obtain o' r where e: "e = (o', r)" by (cases e)
  have "filter (\<lambda>e. fst e \<le> 0) s = []" using assms Cons by (fastforce simp: filter_empty_conv)
  then show ?thesis using Cons e
    by (auto simp: requested_root_ranges_def iter_finite_def finite_next_def wanted_def seq_at_def chunk_ranges_empty_def word_gt_0)
qed

context range_set
begin

lemma diff_empty_iff: "rs_diff R want have = rs_empty R \<longleftrightarrow> covers have want"
  by (auto simp: rs_eq_iff contains_simps)

lemma available_children: "li_children li = Some ch \<Longrightarrow> i \<noteq> 0 \<Longrightarrow> available R li i = child_ranges R ch (i - 1)"
  by (simp add: available_def)

lemma beyond_known:
  assumes "bt_ok (nr_hash_seq ch)" "\<forall>child h. bt_get (nr_hash_seq ch) child = Some h \<longrightarrow> child < u64_max - 1"
    and "unat (case bt_last (nr_hash_seq ch) of Some (k, _) \<Rightarrow> k + 1 | None \<Rightarrow> 0) < unat i"
  shows "child_ranges R ch (i - 1) = rs_empty R"
proof (cases "bt_last (nr_hash_seq ch)")
  case None
  then show ?thesis by (simp add: child_ranges_def)
next
  case (Some e)
  obtain k h where e: "e = (k, h)" by (cases e)
  then have "bt_get (nr_hash_seq ch) k = Some h" using Some bt_last_get [OF assms(1)] by simp
  then have "k < u64_max - 1" using assms(2) by blast
  then have "k \<noteq> u64_max" by (auto simp: u64_max_def)
  then have "Suc (unat k) < unat i" using assms(3) Some e by (simp add: unat_Suc_u64)
  moreover from this have "unat (i - 1) = unat i - 1" by (intro unat_minus_one) auto
  ultimately have "\<not> i - 1 \<le> k" by (simp add: word_le_nat_alt)
  then have "bt_get (nr_hash_seq ch) (i - 1) = None" using bt_last_greatest [OF assms(1)] Some e by (cases "bt_get (nr_hash_seq ch) (i - 1)") auto
  then show ?thesis by (simp add: child_ranges_def)
qed

lemma missing_answers:
  assumes "local_info_ok R B li"
  shows "\<exists>req. missing R B li = Some req
    \<and> answers (\<lambda>i. rs_diff R (wanted R li i) (available R li i)) (child_count R B li) (gr_hash (li_request li)) req"
proof -
  let ?s = "gr_ranges (li_request li)" and ?h = "gr_hash (li_request li)"
  define f where "f i = rs_diff R (wanted R li i) (available R li i)" for i
  have sorted: "sorted_offsets ?s" using assms by (simp add: local_info_ok_def)
  note root = requested_root_sorted [OF sorted, of R]
  let ?b = "grb_root R [] (f 0)"
  have b: "asks ?b f 0"
    by (auto simp: asks_def grb_root_def builder_offset_def at_offset_def bt_upsert_def bt_get_def u64_max_def)
  have f0: "rs_diff R (wanted R li 0) (bf_ranges (li_bitfield li)) = f 0" by (simp add: f_def available_def)
  have "\<exists>req. missing R B li = Some req \<and> answers f (child_count R B li) ?h req"
  proof (cases "?s = []")
    case True
    then have "f i = rs_empty R" for i by (simp add: f_def wanted_def)
    then show ?thesis using True root by (simp add: missing_def Let_def answers_def get_request_new_def seq_empty_def f_def)
  next
    case False
    show ?thesis
    proof (cases "li_children li")
      case None
      have "f i = rs_empty R" if "i \<noteq> 0" for i
        using assms None that by (simp add: local_info_ok_def f_def)
      then have "answers f (child_count R B li) ?h (grb_build R ?b ?h)" using answers_build [OF b] by blast
      then show ?thesis using None False root by (simp add: missing_def Let_def f_def available_def)
    next
      case (Some ch)
      have ok: "bt_ok (nr_hash_seq ch)" and known: "\<forall>child h. bt_get (nr_hash_seq ch) child = Some h \<longrightarrow> bt_get (nr_bitfields ch) h \<noteq> None"
        and small: "\<forall>child h. bt_get (nr_hash_seq ch) child = Some h \<longrightarrow> child < u64_max - 1"
        using assms Some by (auto simp: local_info_ok_def)
      have f: "f i = rs_diff R (seq_at R ?s i) (child_ranges R ch (i - 1))" if "i \<noteq> 0" for i
        using that Some by (simp add: f_def wanted_def available_children)
      let ?m = "case bt_last (nr_hash_seq ch) of Some (k, _) \<Rightarrow> k + 1 | None \<Rightarrow> 0"
      obtain b' it k where m: "missing_known R ch ?m ?b (non_empty_at R ?s 0) = Some (b', it)" "k \<le> 2 ^ 64 - 1" "asks b' f k"
        "it = non_empty_at R ?s k \<and> unat ?m < k \<or> k = 2 ^ 64 - 1 \<and> fst (non_empty_next R it) = None"
        using missing_known_asks [OF sorted _ known f b, where max_local = ?m] by auto
      have "answers f (child_count R B li) ?h (missing_rest R (child_count R B li) ?h b' it)"
        using m(4)
      proof
        assume it: "it = non_empty_at R ?s k \<and> unat ?m < k"
        have "f i = seq_at R ?s i" if "k \<le> unat i" "i \<noteq> 0" for i
          using f [OF that(2)] beyond_known [OF ok small, of i] it that(1) by simp
        then show ?thesis using missing_rest_answers [OF sorted m(2,3)] it by blast
      next
        assume it: "k = 2 ^ 64 - 1 \<and> fst (non_empty_next R it) = None"
        then have "answers f (child_count R B li) ?h (grb_build R b' ?h)" using answers_build [OF m(3)] by (auto simp: below_max)
        then show ?thesis using it by (subst missing_rest.simps) (auto split: prod.split)
      qed
      then show ?thesis using m(1) Some False root
        by (simp add: missing_def Let_def f0 non_empty_at_0 child_count_def [symmetric] f_def [symmetric])
    qed
  qed
  then show ?thesis unfolding f_def [abs_def] .
qed

lemma complete_exact:
  assumes "local_info_ok R B li"
  shows "local_is_complete R B li = Some (\<forall>i. i \<noteq> u64_max \<longrightarrow> has_index (child_count R B li) i \<longrightarrow> covers (available R li i) (wanted R li i))"
proof -
  let ?s = "gr_ranges (li_request li)" and ?m = "child_count R B li"
  have sorted: "sorted_offsets ?s" using assms by (simp add: local_info_ok_def)
  note root = requested_root_sorted [OF sorted, of R]
  have w0: "covers (available R li i) (wanted R li i)" if "wanted R li i = rs_empty R" for i using that by (simp add: contains_empty)
  have zero: "(0 :: u64) \<noteq> u64_max" "has_index ?m 0" by (simp_all add: u64_max_def has_index_def)
  show ?thesis
  proof (cases "?s = [] \<or> \<not> covers (bf_ranges (li_bitfield li)) (wanted R li 0)")
    case True
    then show ?thesis
    proof
      assume "?s = []"
      then show ?thesis using root by (simp add: local_is_complete_def wanted_def contains_empty)
    next
      assume n: "\<not> covers (bf_ranges (li_bitfield li)) (wanted R li 0)"
      then have "\<not> covers (available R li 0) (wanted R li 0)" by (simp add: available_def)
      then have "\<not> (\<forall>i. i \<noteq> u64_max \<longrightarrow> has_index ?m i \<longrightarrow> covers (available R li i) (wanted R li i))" using zero by blast
      moreover have "?s \<noteq> []" using n by (auto simp: wanted_def contains_empty)
      ultimately show ?thesis using n root by (simp add: local_is_complete_def is_subset_iff)
    qed
  next
    case False
    show ?thesis
    proof (cases "li_children li")
      case None
      then have "covers (available R li i) (wanted R li i)" for i
        using assms w0 False by (cases "i = 0") (auto simp: local_info_ok_def available_def)
      then show ?thesis using None False root by (simp add: local_is_complete_def is_subset_iff)
    next
      case (Some ch)
      have known: "\<And>child h. bt_get (nr_hash_seq ch) child = Some h \<Longrightarrow> bt_get (nr_bitfields ch) h \<noteq> None \<and> (\<forall>n. ?m = Some n \<longrightarrow> child < n)"
        using assms Some by (auto simp: local_info_ok_def)
      have c0: "covers (available R li 0) (wanted R li 0)" using False by (simp add: available_def)
      have "(\<forall>i. i \<noteq> 0 \<and> i \<noteq> u64_max \<and> has_index ?m i \<longrightarrow> covers (child_ranges R ch (i - 1)) (seq_at R ?s i)) \<longleftrightarrow>
        (\<forall>i. i \<noteq> u64_max \<longrightarrow> has_index ?m i \<longrightarrow> covers (available R li i) (wanted R li i))"
        using c0 available_children [OF Some] unfolding wanted_def by metis
      then show ?thesis using is_complete_loop_exact [OF sorted, of 0 ch ?m] known Some False root
        by (simp add: local_is_complete_def is_subset_iff non_empty_at_0 child_count_def [symmetric])
    qed
  qed
qed

end

section \<open>Properties\<close>

text \<open>
  C6. The request for what is missing asks, at every index that the hash sequence has, for exactly
  the requested chunks that are not available locally, for an unknown number of children too; it
  never asks for anything else; and the local data counts as complete exactly if nothing is
  missing. (The iterator never reaches the last 64-bit index.)
\<close>

theorem local_info_exact:
  assumes "range_set R" "local_info_ok R B li"
  shows "\<exists>req. missing R B li = Some req \<and> gr_hash req = gr_hash (li_request li)
    \<and> (\<forall>i. i \<noteq> u64_max \<longrightarrow>
        (has_index (child_count R B li) i \<longrightarrow> seq_at R (gr_ranges req) i = rs_diff R (wanted R li i) (available R li i))
        \<and> (\<forall>x. rs_contains R (seq_at R (gr_ranges req) i) x \<longrightarrow> rs_contains R (wanted R li i) x \<and> \<not> rs_contains R (available R li i) x))
    \<and> local_is_complete R B li =
        Some (\<forall>i. i \<noteq> u64_max \<longrightarrow> has_index (child_count R B li) i \<longrightarrow> seq_at R (gr_ranges req) i = rs_empty R)"
proof -
  let ?m = "child_count R B li" and ?f = "\<lambda>i. rs_diff R (wanted R li i) (available R li i)"
  note r = assms(1)
  obtain req where req: "missing R B li = Some req" "gr_hash req = gr_hash (li_request li)"
    "\<And>i. i \<noteq> u64_max \<Longrightarrow> has_index ?m i \<Longrightarrow> seq_at R (gr_ranges req) i = ?f i"
    "\<And>i. i \<noteq> u64_max \<Longrightarrow> seq_at R (gr_ranges req) i = ?f i \<or> seq_at R (gr_ranges req) i = rs_empty R"
    using range_set.missing_answers [OF r assms(2)] by (auto simp: range_set.answers_def [OF r])
  have "local_is_complete R B li = Some (\<forall>i. i \<noteq> u64_max \<longrightarrow> has_index ?m i \<longrightarrow> seq_at R (gr_ranges req) i = rs_empty R)"
    unfolding range_set.complete_exact [OF r assms(2)] using req(3) range_set.diff_empty_iff [OF r] by metis
  moreover have "\<forall>x. rs_contains R (seq_at R (gr_ranges req) i) x \<longrightarrow> rs_contains R (wanted R li i) x \<and> \<not> rs_contains R (available R li i) x"
    if "i \<noteq> u64_max" for i using req(4) [OF that] by (auto simp: range_set.contains_diff [OF r] range_set.contains_empty [OF r])
  ultimately show ?thesis using req(1-3) by blast
qed

text \<open>A hash sequence of unknown length, of which the root and the first of the known children are there.\<close>

definition example_info :: "rset local_info" where
  "example_info = \<lparr>li_request = get_request_all ref_ops hash_empty,
     li_bitfield = \<lparr>bf_size = 4096, bf_ranges = rs_range ref_ops 0 1\<rparr>,
     li_children = Some \<lparr>nr_hash_seq = [(0, hash_empty)], nr_bitfields = [(hash_empty, bf_complete ref_ops 5)]\<rparr>\<rparr>"

theorem local_info_exact_witness:
  "\<exists>req. missing ref_ops ref_chunk_ops example_info = Some req
    \<and> seq_at ref_ops (gr_ranges req) 1 = rs_empty ref_ops \<and> seq_at ref_ops (gr_ranges req) 2 = rs_all ref_ops"
proof -
  have v: "child_count ref_ops ref_chunk_ops example_info = None"
    by (simp add: child_count_def validated_size_def is_validated_def example_info_def size_is_validated_def
        ref.contains_range ref_chunk_ops_def ref_chunks_of_def)
  have "local_info_ok ref_ops ref_chunk_ops example_info"
    using v by (simp add: local_info_ok_def example_info_def get_request_all_def seq_all_def bt_get_def u64_max_def word_less_nat_alt)
  from local_info_exact [OF ref.range_set_axioms this] obtain req where
    req: "missing ref_ops ref_chunk_ops example_info = Some req"
      "\<And>i. i \<noteq> u64_max \<Longrightarrow> seq_at ref_ops (gr_ranges req) i
        = rs_diff ref_ops (wanted ref_ops example_info i) (available ref_ops example_info i)"
    by (auto simp: v has_index_def)
  have "rs_diff ref_ops (rs_all ref_ops) (rs_all ref_ops) = rs_empty ref_ops"
    by (simp add: ref.diff_empty_iff)
  then show ?thesis using req(1) req(2) [of 1] req(2) [of 2]
    by (simp add: u64_max_def wanted_def available_def child_ranges_def example_info_def get_request_all_def seq_all_def
        seq_at_def last_ranges_def bt_get_def bf_complete_def)
qed

text \<open>
  The number of local bytes wraps around for a complete blob if the request starts behind its end:
  the available ranges of a complete blob have no end, and \<open>total_bytes\<close> subtracts the start of the
  intersection from the size.
\<close>

theorem local_bytes_wraps:
  assumes "chunk_laws R B" "unat c < 2 ^ 54" "unat sz < unat c * 1024"
  shows "local_bytes R B \<lparr>li_request = get_request_new h [(0, rs_from R c), (1, rs_empty R)], li_bitfield = bf_complete R sz, li_children = None\<rparr>
    = Some (sz - chunk_to_bytes B c) \<and> sz < sz - chunk_to_bytes B c"
proof -
  note r = chunk_laws.axioms(1) [OF assms(1)]
  have i: "rs_inter R (rs_all R) (rs_from R c) = rs_from R c"
    by (simp add: range_set.rs_eq_iff [OF r] range_set.contains_simps [OF r])
  have b: "unat (chunk_to_bytes B c) = unat c * 1024" by (rule chunk_laws.unat_chunk_to_bytes [OF assms(1,2)])
  then have "sz < chunk_to_bytes B c" using assms(3) by (simp add: word_less_nat_alt)
  then have "sz < sz - chunk_to_bytes B c"
    using b assms(2,3) by (simp add: word_less_nat_alt unat_sub_if_size word_size)
  then show ?thesis
    by (simp add: local_bytes_def requested_root_ranges_def iter_finite_def finite_next_def get_request_new_def local_part_def
        bf_complete_def i total_bytes_def range_set.iter_items [OF r] range_set.boundaries_from [OF r])
qed

theorem local_bytes_wraps_witness:
  "local_bytes ref_ops ref_chunk_ops \<lparr>li_request = get_request_new hash_empty [(0, rs_from ref_ops 5), (1, rs_empty ref_ops)],
     li_bitfield = bf_complete ref_ops 3, li_children = None\<rparr> = Some (3 - chunk_to_bytes ref_chunk_ops 5)"
  using local_bytes_wraps [OF refc.chunk_laws_axioms, of 5 3 hash_empty] by simp

end
