(* ===== verification/Remote.thy ===== *)
theory Remote
  imports Provider Local_Info
begin

text \<open>
  Downloads into a store and uploads from it, \<open>src/src/api/remote.rs\<close>: what a store has of a request,
  executing get and get-many requests with the state machine of \<open>Get_Fsm\<close>, fetching what is missing,
  and pushing. The store is given by its operations (\<open>Store_Api\<close>); the progress sink by how many
  items its receiver takes.
\<close>

section \<open>One blob\<close>

text \<open>
  The loop \<open>write\<close> of \<open>get_blob_ranges_impl\<close>: the items for the import, the progress, and how it ends.
\<close>

function (sequential) transfer_items ::
  "bao_content_item list \<Rightarrow> u64 sender \<Rightarrow> 'r at_blob_content \<Rightarrow> bao_content_item list \<times> u64 sender \<times> (get_error + 'r at_end_blob)" where
  "transfer_items items p s =
     (case content_next s of
        More s' (Inl e) \<Rightarrow> (items, p, Inl (get_error_from_decode e))
      | More s' (Inr item) \<Rightarrow>
          (case send p (payload_bytes_read (mi_counters (bc_misc s'))) of
             None \<Rightarrow> (items, p, Inl LocalFailure)
           | Some p \<Rightarrow> transfer_items (items @ [item]) p s')
      | ContentDone end \<Rightarrow> (items, p, Inr end))"
  by pat_completeness auto
termination
  by (relation "measure (\<lambda>(_, _, s). length (dc_items (bc_stream s)))") (auto intro: content_next_shrinks)

declare transfer_items.simps [simp del]

text \<open>
  \<open>get_blob_ranges_impl\<close>: the store imports what was decoded before an error. Only a closed channel of
  the import is an error of the transfer; what the store answers is dropped (\<open>let (_, end)\<close>), so that an
  import that fails after it took every item is a success here (\<open>failed_import_ignored\<close>). If the stream
  fails and the import is closed, the error of the stream is the one returned here; which one the source
  returns depends on the order of events.
\<close>

definition get_blob_ranges_impl ::
  "('r, 's) store_ops \<Rightarrow> 'r decode \<Rightarrow> 'r at_blob_header \<Rightarrow> hash \<Rightarrow> 's \<Rightarrow> u64 sender \<Rightarrow> (get_error + 'r at_end_blob) \<times> 's \<times> u64 sender" where
  "get_blob_ranges_impl St decode hdr h s p =
     (case header_next decode hdr of
        Inl e \<Rightarrow> (Inl (get_error_from_header e), s, p)
      | Inr (c, sz) \<Rightarrow>
          if sz = 0 then
            (if h = hash_empty
             then (case content_drain c of Inl e \<Rightarrow> Inl (get_error_from_decode e) | Inr end \<Rightarrow> Inr end, s, p)
             else (Inl (get_error_from_decode (LeafHashMismatch 0)), s, p))
          else
            let (items, p, res) = transfer_items [] p c;
                (imported, s) = so_import_bao St s h sz items
            in (case res of
                  Inl e \<Rightarrow> Inl e
                | Inr end \<Rightarrow> if imported = Inl ImportClosed then Inl LocalFailure else Inr end, s, p))"

lemma transfer_items_iter:
  "transfer_items items p s = (items', p', Inr end') \<Longrightarrow> mi_ranges_iter (eb_misc end') = mi_ranges_iter (bc_misc s)"
proof (induction items p s rule: transfer_items.induct)
  case (1 items p s)
  show ?case
  proof (cases "content_next s")
    case (More s' res)
    then have m: "mi_ranges_iter (bc_misc s') = mi_ranges_iter (bc_misc s)"
      by (auto simp: content_next_def Let_def split: list.splits sum.splits)
    show ?thesis
    proof (cases res)
      case (Inl e)
      with More "1.prems" show ?thesis by (subst (asm) transfer_items.simps) simp
    next
      case (Inr item)
      then obtain q where q: "send p (payload_bytes_read (mi_counters (bc_misc s'))) = Some q"
        using More "1.prems" by (subst (asm) transfer_items.simps) (auto split: option.splits)
      then have "transfer_items (items @ [item]) q s' = (items', p', Inr end')"
        using More Inr "1.prems" by (subst (asm) transfer_items.simps) simp
      from "1.IH" [OF More Inr q this] m show ?thesis by simp
    qed
  next
    case (ContentDone e)
    with "1.prems" show ?thesis
      by (subst (asm) transfer_items.simps) (auto simp: content_next_def Let_def split: list.splits sum.splits)
  qed
qed

text \<open>
  The answer of the store does not matter: a transfer whose items were all decoded succeeds when the
  import answers with an error, just as when it answers that the data is stored.
\<close>

lemma failed_import_ignored:
  assumes "header_next decode hdr = Inr (c, sz)" "sz \<noteq> 0" "transfer_items [] p c = (items, p', Inr end')"
    and "so_import_bao St s h sz items = (Inl (ImportAnswered e), s')"
  shows "get_blob_ranges_impl St decode hdr h s p = (Inr end', s', p')"
  using assms by (simp add: get_blob_ranges_impl_def)

lemma get_blob_ranges_iter:
  assumes "get_blob_ranges_impl St decode hdr h s p = (Inr end', s', p')"
  shows "mi_ranges_iter (eb_misc end') = mi_ranges_iter (ah_misc hdr)"
proof -
  obtain c sz where h: "header_next decode hdr = Inr (c, sz)"
    using assms by (auto simp: get_blob_ranges_impl_def split: sum.splits)
  have "mi_ranges_iter (eb_misc end') = mi_ranges_iter (bc_misc c)"
    using assms h content_drain_iter [of c] transfer_items_iter [of "[]" p c]
    by (auto simp: get_blob_ranges_impl_def Let_def split: if_splits sum.splits prod.splits)
  with header_next_iter [OF h] show ?thesis by simp
qed

section \<open>Executing requests\<close>

definition after_blob :: "'r range_ops \<Rightarrow> 'r at_end_blob \<Rightarrow> 'r at_closing + 'r at_start_child" where
  "after_blob R end = (case end_blob_next R end of MoreChildren child \<Rightarrow> Inr child | EndClosing closing \<Rightarrow> Inl closing)"

text \<open>
  The loops over the children in \<open>execute_get_sink\<close>, where the children start at offset 1, and in
  \<open>execute_get_many_sink\<close>, where they start at 0.
\<close>

function (sequential) get_children ::
  "'r range_ops \<Rightarrow> ('r, 's) store_ops \<Rightarrow> 'r decode \<Rightarrow> hash_seq \<Rightarrow> u64 \<Rightarrow> ('r at_closing + 'r at_start_child) \<Rightarrow> 's \<Rightarrow> u64 sender \<Rightarrow>
   (get_error + 'r at_closing) \<times> 's \<times> u64 sender" where
  "get_children R St decode hs base (Inl closing) s p = (Inr closing, s, p)"
| "get_children R St decode hs base (Inr child) s p =
     (case hash_seq_get hs (unat (ach_offset child - base)) of
        None \<Rightarrow> (Inr (start_child_finish child), s, p)
      | Some h \<Rightarrow>
          (case get_blob_ranges_impl St decode (start_child_next child h) h s p of
             (Inl e, s, p) \<Rightarrow> (Inl e, s, p)
           | (Inr end, s, p) \<Rightarrow> get_children R St decode hs base (after_blob R end) s p))"
  by pat_completeness auto
termination
proof (relation "measure (\<lambda>(R, St, decode, hs, base, next, s, p). case next of Inl _ \<Rightarrow> 0 | Inr child \<Rightarrow> Suc (2 ^ 64 - unat (ne_count (mi_ranges_iter (ach_misc child)))))",
    simp, goal_cases)
  case (1 R St decode hs base child s p h r x end' y s')
  then have "get_blob_ranges_impl St decode (start_child_next child h) h s p = (Inr end', y, s')" by simp
  from get_blob_ranges_iter [OF this] have it: "mi_ranges_iter (eb_misc end') = mi_ranges_iter (ach_misc child)"
    by (simp add: start_child_next_def)
  show ?case
  proof (cases "after_blob R end'")
    case (Inr c)
    then obtain z where "non_empty_next R (mi_ranges_iter (eb_misc end')) = (Some z, mi_ranges_iter (ach_misc c))"
      using end_blob_next_count [of R end' c] by (auto simp: after_blob_def split: end_blob_next_state.splits)
    from non_empty_next_count [OF this] Inr it unat_u64_lt [of "ne_count (mi_ranges_iter (ach_misc c))"] show ?thesis by simp
  qed simp
qed

declare get_children.simps [simp del]

definition finish_get :: "(get_error + 'r at_closing) \<times> 's \<times> u64 sender \<Rightarrow> (get_failure + stats) \<times> 's \<times> u64 sender" where
  "finish_get r =
     (case r of
        (Inl e, s, p) \<Rightarrow> (Inl (GetFails e), s, p)
      | (Inr closing, s, p) \<Rightarrow> (or_fail get_error_from_read (closing_next closing), s, p))"

definition execute_get_sink ::
  "'r range_ops \<Rightarrow> ('r, 's) store_ops \<Rightarrow> ('r request \<Rightarrow> bytes option) \<Rightarrow> 'r decode \<Rightarrow> connection \<Rightarrow> 'r get_request \<Rightarrow> 's \<Rightarrow> u64 sender \<Rightarrow>
   (get_failure + stats) \<times> 's \<times> u64 sender" where
  "execute_get_sink R St ser decode conn req s p =
     (let root = gr_hash req in
      case rbind (or_fail get_error_from_connection (initial_next (fsm_start conn req counters_default)))
             (\<lambda>connected. or_fail get_error_from_connected (connected_next R ser connected)) of
        Inl e \<Rightarrow> (Inl e, s, p)
      | Inr next \<Rightarrow>
          (case (case next of
                   StartRoot start \<Rightarrow>
                     (case get_blob_ranges_impl St decode (start_root_next start) root s p of
                        (Inl e, s, p) \<Rightarrow> (Inl e, s, p)
                      | (Inr end, s, p) \<Rightarrow> (Inr (after_blob R end), s, p))
                 | StartChild child \<Rightarrow> (Inr (Inr child), s, p)
                 | ConnectedClosing closing \<Rightarrow> (Inr (Inl closing), s, p)) of
             (Inl e, s, p) \<Rightarrow> (Inl (GetFails e), s, p)
           | (Inr (Inl closing), s, p) \<Rightarrow> finish_get (Inr closing, s, p)
           | (Inr (Inr child), s, p) \<Rightarrow>
               (case so_get_bytes St s root of
                  Inl _ \<Rightarrow> (Inl (GetFails LocalFailure), s, p)
                | Inr bs \<Rightarrow>
                    (case hash_seq_new bs of
                       None \<Rightarrow> (Inl (GetFails BadRequest), s, p)
                     | Some hs \<Rightarrow> finish_get (get_children R St decode hs 1 (Inr child) s p)))))"

definition execute_get_many_sink ::
  "'r range_ops \<Rightarrow> ('r, 's) store_ops \<Rightarrow> ('r request \<Rightarrow> bytes option) \<Rightarrow> 'r decode \<Rightarrow> connection \<Rightarrow> 'r get_many_request \<Rightarrow> 's \<Rightarrow> u64 sender \<Rightarrow>
   (get_failure + stats) \<times> 's \<times> u64 sender" where
  "execute_get_many_sink R St ser decode conn req s p =
     (case start_get_many R ser conn req counters_default of
        Inl e \<Rightarrow> (Inl (GetFails e), s, p)
      | Inr next \<Rightarrow> finish_get (get_children R St decode (hash_seq_from_iter (gm_hashes req)) 0 next s p))"

section \<open>What is there, and fetching the rest\<close>

text \<open>The hashes that can be read from the root, by index; failures are skipped.\<close>

definition collect_by_index :: "(hashes_error + u64 \<times> hash) list \<Rightarrow> (u64, hash) btree" where
  "collect_by_index items = fold (\<lambda>item m. case item of Inr (i, h) \<Rightarrow> bt_insert i h m | Inl _ \<Rightarrow> m) items []"

function (sequential) local_loop ::
  "'r range_ops \<Rightarrow> ('r, 's) store_ops \<Rightarrow> (u64, hash) btree \<Rightarrow> u64 \<Rightarrow> 'r non_raw_local_info \<Rightarrow> 'r non_empty_iter \<Rightarrow> 's \<Rightarrow>
   (io_error + 'r non_raw_local_info) \<times> 's" where
  "local_loop R St by_index max' ch it s =
     (case non_empty_next R it of
        (None, _) \<Rightarrow> (Inr ch, s)
      | (Some (index', _), it') \<Rightarrow>
          if index' = 0 then local_loop R St by_index max' ch it' s
          else
            let child = index' - 1 in
            if child > max' then (Inr ch, s)
            else (case bt_get by_index child of
                None \<Rightarrow> local_loop R St by_index max' ch it' s
              | Some h \<Rightarrow>
                  (case so_observe St s h of
                     (Inl e, s) \<Rightarrow> (Inl e, s)
                   | (Inr bf, s) \<Rightarrow>
                       local_loop R St by_index max'
                         \<lparr>nr_hash_seq = bt_insert child h (nr_hash_seq ch), nr_bitfields = bt_insert h bf (nr_bitfields ch)\<rparr> it' s)))"
  by pat_completeness auto
termination
  by (relation "measure (\<lambda>(R, St, m, mx, ch, it, s). 2 ^ 64 - unat (ne_count it))")
    (auto dest!: sym [THEN non_empty_next_count] simp: diff_less_mono2 unat_u64_lt)

declare local_loop.simps [simp del]

definition local_for_request ::
  "'r range_ops \<Rightarrow> ('r, 's) store_ops \<Rightarrow> 'r get_request \<Rightarrow> 's \<Rightarrow> (io_error + 'r local_info) \<times> 's" where
  "local_for_request R St req s =
     (case so_observe St s (gr_hash req) of
        (Inl e, s) \<Rightarrow> (Inl e, s)
      | (Inr bf, s) \<Rightarrow>
          if \<not> is_blob R (gr_ranges req) then
            let by_index = collect_by_index (hashes_with_index (so_export_bao St s (gr_hash req) (bf_ranges bf)));
                max' = (case bt_last by_index of Some (k, _) \<Rightarrow> k + 1 | None \<Rightarrow> 0)
            in (case local_loop R St by_index max' \<lparr>nr_hash_seq = [], nr_bitfields = []\<rparr> (iter_non_empty_infinite R (gr_ranges req)) s of
                  (Inl e, s) \<Rightarrow> (Inl e, s)
                | (Inr ch, s) \<Rightarrow> (Inr \<lparr>li_request = req, li_bitfield = bf, li_children = Some ch\<rparr>, s))
          else (Inr \<lparr>li_request = req, li_bitfield = bf, li_children = None\<rparr>, s))"

definition remote_local :: "'r range_ops \<Rightarrow> ('r, 's) store_ops \<Rightarrow> hash_and_format \<Rightarrow> 's \<Rightarrow> (io_error + 'r local_info) \<times> 's" where
  "remote_local R St what s = local_for_request R St (get_request_from R what) s"

text \<open>\<open>fetch_sink\<close>; \<open>connect\<close> is \<open>GetConnection::connection\<close>, where \<open>None\<close> means that there is none.\<close>

definition fetch_sink ::
  "'r range_ops \<Rightarrow> 'r chunk_ops \<Rightarrow> ('r, 's) store_ops \<Rightarrow> ('r request \<Rightarrow> bytes option) \<Rightarrow> 'r decode \<Rightarrow> connection option \<Rightarrow> hash_and_format \<Rightarrow>
   's \<Rightarrow> u64 sender \<Rightarrow> (get_failure + stats) \<times> 's \<times> u64 sender" where
  "fetch_sink R B St ser decode connect what s p =
     (case remote_local R St what s of
        (Inl _, s) \<Rightarrow> (Inl (GetFails LocalFailure), s, p)
      | (Inr li, s) \<Rightarrow>
          (case local_is_complete R B li of
             None \<Rightarrow> (Inl GetPanics, s, p)
           | Some True \<Rightarrow> (Inr counters_default, s, p)
           | Some False \<Rightarrow>
               (case missing R B li of
                  None \<Rightarrow> (Inl GetPanics, s, p)
                | Some req \<Rightarrow>
                    (case connect of
                       None \<Rightarrow> (Inl (GetFails LocalFailure), s, p)
                     | Some conn \<Rightarrow> execute_get_sink R St ser decode conn req s p))))"

section \<open>Pushing\<close>

text \<open>\<open>StreamContext\<close>: the payload is counted and reported to the sink.\<close>

record push_writer =
  pu_out :: bytes
  pu_left :: "nat option"
  pu_payload_bytes_sent :: u64
  pu_sender :: "u64 sender"

definition push_write :: "push_writer \<Rightarrow> bytes \<Rightarrow> push_writer option" where
  "push_write w bs =
     (case pu_left w of
        None \<Rightarrow> Some (w\<lparr>pu_out := pu_out w @ bs\<rparr>)
      | Some 0 \<Rightarrow> None
      | Some (Suc n) \<Rightarrow> Some (w\<lparr>pu_out := pu_out w @ bs, pu_left := Some n\<rparr>))"

definition push_notify :: "push_writer \<Rightarrow> nat \<Rightarrow> push_writer \<times> bool" where
  "push_notify w len =
     (let w = w\<lparr>pu_payload_bytes_sent := pu_payload_bytes_sent w + of_nat len\<rparr> in
      case send (pu_sender w) (pu_payload_bytes_sent w) of None \<Rightarrow> (w, False) | Some tx \<Rightarrow> (w\<lparr>pu_sender := tx\<rparr>, True))"

fun push_items :: "push_writer \<Rightarrow> encoded_item list \<Rightarrow> push_writer \<times> io_error option" where
  "push_items w [] = (w, None)"
| "push_items w (EncSize sz # items) =
     (case push_write w (to_le_bytes sz) of None \<Rightarrow> (w, Some OtherIo) | Some w \<Rightarrow> push_items w items)"
| "push_items w (EncParent _ l r # items) =
     (case push_write w (as_bytes l @ as_bytes r) of None \<Rightarrow> (w, Some OtherIo) | Some w \<Rightarrow> push_items w items)"
| "push_items w (EncLeaf _ d # items) =
     (case push_write w d of
        None \<Rightarrow> (w, Some OtherIo)
      | Some w \<Rightarrow> (case push_notify w (length d) of (w, False) \<Rightarrow> (w, Some OtherIo) | (w, True) \<Rightarrow> push_items w items))"
| "push_items w (EncDone # items) = (w, None)"
| "push_items w (EncError e # items) = (w, Some e)"

fun push_children ::
  "'r range_ops \<Rightarrow> ('r, 's) store_ops \<Rightarrow> 's \<Rightarrow> hash list \<Rightarrow> 'r seq_iter \<Rightarrow> push_writer \<Rightarrow> push_writer \<times> io_error option" where
  "push_children R St s [] it w = (w, None)"
| "push_children R St s (h # hs) it w =
     (case infinite_next it of
        (None, _) \<Rightarrow> (w, None)
      | (Some ranges, it) \<Rightarrow>
          if \<not> rs_is_empty R ranges then
            (case push_items w (so_export_bao St s h ranges) of
               (w, Some e) \<Rightarrow> (w, Some e)
             | (w, None) \<Rightarrow> push_children R St s hs it w)
          else push_children R St s hs it w)"

text \<open>
  \<open>execute_push_sink\<close> on an open stream; \<open>ser\<close> is \<open>write_push_request\<close>, the type of the request and its
  length-prefixed form.
\<close>

definition execute_push_sink ::
  "'r range_ops \<Rightarrow> ('r, 's) store_ops \<Rightarrow> ('r get_request \<Rightarrow> bytes) \<Rightarrow> 's \<Rightarrow> 'r get_request \<Rightarrow> push_writer \<Rightarrow> push_writer \<times> io_error option" where
  "execute_push_sink R St ser s req w =
     (case push_write w (ser req) of
        None \<Rightarrow> (w, Some OtherIo)
      | Some w \<Rightarrow>
          (case infinite_next (iter_infinite R (gr_ranges req)) of
             (None, _) \<Rightarrow> (w, Some OtherIo)
           | (Some root_ranges, it) \<Rightarrow>
               (case (if rs_is_empty R root_ranges then (w, None) else push_items w (so_export_bao St s (gr_hash req) root_ranges)) of
                  (w, Some e) \<Rightarrow> (w, Some e)
                | (w, None) \<Rightarrow>
                    if is_blob R (gr_ranges req) then (w, None)
                    else (case load_hash_seq St s (gr_hash req) of
                        Inl e \<Rightarrow> (w, Some e)
                      | Inr hs \<Rightarrow> push_children R St s (hash_seq_iter hs) it w))))"

end
