(* ===== verification/Mem_Import.thy ===== *)
theory Mem_Import
  imports Store_Api
begin

text \<open>
  Importing a whole blob into the memory store, as a download does: what the traversal of a blob
  sends is written into a new entry, parents in pre-order and leaves, and with the last leaf
  the entry becomes complete. The locale \<open>download_store\<close> is what a download needs of the store
  it writes to and reads the hash sequence from; the memory store provides it.
\<close>

section \<open>The items of a whole blob\<close>

text \<open>The parents come in pre-order: each has the next offset in the outboard.\<close>

fun pre_order :: "io_ops \<Rightarrow> u64 \<Rightarrow> nat \<Rightarrow> bao_content_item list \<Rightarrow> bool" where
  "pre_order Io n k [] = True"
| "pre_order Io n k (Leaf _ _ # items) = pre_order Io n k items"
| "pre_order Io n k (Parent node _ _ # items) \<longleftrightarrow> io_pre_order_offset Io n node = Some (of_nat k) \<and> pre_order Io n (Suc k) items"

fun item_pair :: "bao_content_item \<Rightarrow> bytes" where
  "item_pair (Leaf _ _) = []"
| "item_pair (Parent _ l r) = as_bytes l @ as_bytes r"

abbreviation pairs :: "bao_content_item list \<Rightarrow> bytes" where
  "pairs items \<equiv> concat (map item_pair items)"

fun covers_byte :: "bao_content_item \<Rightarrow> nat \<Rightarrow> bool" where
  "covers_byte (Leaf off data) x = in_leaf (off, data) x"
| "covers_byte (Parent _ _ _) x = False"

abbreviation covered :: "bao_content_item list \<Rightarrow> nat \<Rightarrow> bool" where
  "covered items x \<equiv> \<exists>item\<in>set items. covers_byte item x"

fun leaf_item_of :: "bytes \<Rightarrow> bao_content_item \<Rightarrow> bool" where
  "leaf_item_of d (Leaf off data) = leaf_of d off data"
| "leaf_item_of d (Parent _ _ _) = True"

text \<open>
  The items of all of \<open>d\<close>: leaves of \<open>d\<close> that cover it and of which the last, at the end, is needed,
  and the parents of its outboard in pre-order.
\<close>

definition whole_items :: "io_ops \<Rightarrow> bytes \<Rightarrow> bao_content_item list \<Rightarrow> bool" where
  "whole_items Io d items \<longleftrightarrow> length d < 2 ^ 64 \<and> length (pairs items) < 2 ^ 64 \<and> (\<forall>item\<in>set items. leaf_item_of d item) \<and> pre_order Io (of_nat (length d)) 0 items
     \<and> pairs items = io_outboard Io d \<and> (\<forall>x<length d. covered items x) \<and> items \<noteq> []
     \<and> (\<exists>off data. last items = Leaf off data) \<and> (\<exists>x<length d. \<not> covered (butlast items) x)"

section \<open>One entry\<close>

lemma import_bao_items_append:
  "import_bao_items R B Io sz (xs @ ys) st = Option.bind (import_bao_items R B Io sz xs st) (import_bao_items R B Io sz ys)"
  by (induction xs arbitrary: st) (auto split: option.split)

lemma write_vec_behind: "write_vec d (length d) buf = d @ buf"
  by (simp add: write_vec_def)

context store_laws
begin

lemma outboard_append:
  assumes "sparse_try_into R f = Inr ob" "length ob = 64 * k" "length buf = 64" "64 * Suc k < 2 ^ 64"
  shows "\<exists>f'. sparse_write_at R Io f (of_nat k * 64) buf = Inr f' \<and> sparse_try_into R f' = Inr (ob @ buf)"
proof -
  have f: "sf_data f = ob" "sf_ranges f = rs_range R 0 (of_nat (length ob))"
    using assms(1) by (auto simp: sparse_try_into_def into_parts_def Let_def split: if_splits)
  have o: "(of_nat k * 64 :: u64) = of_nat (64 * k)" by simp
  have u: "unat (of_nat (64 * k) :: u64) = 64 * k" using assms(4) by (intro unat_of_nat_u64) simp
  have e: "unat (of_nat (64 * Suc k) :: u64) = 64 * Suc k" using assms(4) by (rule unat_of_nat_u64)
  have "checked_add_u64 (of_nat (64 * k)) (of_nat (length buf)) = Some (of_nat (64 * Suc k))"
    using u e assms(3,4) by (simp add: checked_add_u64_def)
  moreover have "rs_union R (rs_range R 0 (of_nat (64 * k))) (rs_range R (of_nat (64 * k)) (of_nat (64 * Suc k)))
      = rs_range R 0 (of_nat (64 * Suc k))"
    using u e by (auto simp: rs_eq_iff contains_simps word_le_nat_alt word_less_nat_alt simp del: of_nat_Suc of_nat_mult)
  ultimately show ?thesis
    using u assms(2,3) f write_vec_behind [of ob buf]
    by (simp add: sparse_write_at_def io_write o sparse_try_into_def into_parts_def Let_def del: of_nat_mult of_nat_Suc,
        simp add: add.commute)
qed

lemma import_parent:
  assumes "sparse_try_into R (ps_outboard p) = Inr ob" "length ob = 64 * k" "64 * Suc k < 2 ^ 64"
    and "io_pre_order_offset Io n node = Some (of_nat k)"
  shows "\<exists>f. import_bao_item R B Io n (Parent node l r) (Partial p) = Some (Partial (p\<lparr>ps_outboard := f\<rparr>), False)
    \<and> sparse_try_into R f = Inr (ob @ as_bytes l @ as_bytes r)"
  using outboard_append [OF assms(1,2) _ assms(3), of "as_bytes l @ as_bytes r"] assms(4)
  by (auto simp: import_bao_item_def)

text \<open>Items that leave a byte open keep the entry partial.\<close>

lemma import_open_items:
  assumes "length d < 2 ^ 64" and "\<forall>item\<in>set items. leaf_item_of d item" "pre_order Io (of_nat (length d)) k items"
    and "partial_inv R B d p" "sparse_try_into R (ps_outboard p) = Inr ob" "length ob = 64 * k"
    and "length ob + length (pairs items) < 2 ^ 64" "\<exists>x<length d. \<not> has_chunk R p x \<and> \<not> covered items x"
  shows "\<exists>p'. import_bao_items R B Io (of_nat (length d)) items (Partial p) = Some (Partial p') \<and> partial_inv R B d p'
    \<and> sparse_try_into R (ps_outboard p') = Inr (ob @ pairs items) \<and> (\<forall>x<length d. has_chunk R p' x \<longleftrightarrow> has_chunk R p x \<or> covered items x)"
  using assms(2-)
proof (induction items arbitrary: p ob k)
  case (Cons item items)
  show ?case
  proof (cases item)
    case (Parent node l r)
    have k: "64 * Suc k < 2 ^ 64" using Cons.prems Parent by simp
    obtain f where f: "import_bao_item R B Io (of_nat (length d)) item (Partial p) = Some (Partial (p\<lparr>ps_outboard := f\<rparr>), False)"
      "sparse_try_into R f = Inr (ob @ item_pair item)"
      using import_parent [OF Cons.prems(4,5) k, of "of_nat (length d)" node l r] Cons.prems(2) Parent by auto
    have "partial_inv R B d (p\<lparr>ps_outboard := f\<rparr>)" using Cons.prems(3) by (simp add: partial_inv_def)
    from Cons.IH [OF _ _ this, of "Suc k" "ob @ item_pair item"] Cons.prems Parent f show ?thesis by auto
  next
    case (Leaf off data)
    have lo: "leaf_of d off data" using Cons.prems(1) Leaf by simp
    have ex: "\<exists>x<length d. \<not> (has_chunk R p x \<or> in_leaf (off, data) x) \<and> \<not> covered items x"
      using Cons.prems(7) Leaf by auto
    from import_leaf_exact [OF Cons.prems(3) lo assms(1) Cons.prems(4)] ex obtain p1 ch where p1:
      "import_bao_item R B Io (of_nat (length d)) item (Partial p) = Some (Partial p1, ch)" "partial_inv R B d p1"
      "ps_outboard p1 = ps_outboard p" "\<forall>x<length d. has_chunk R p1 x \<longleftrightarrow> has_chunk R p x \<or> in_leaf (off, data) x"
      unfolding Leaf by (auto split: if_splits)
    have "\<exists>x<length d. \<not> has_chunk R p1 x \<and> \<not> covered items x" using ex p1(4) by blast
    from Cons.IH [OF _ _ p1(2) _ Cons.prems(5) _ this] Cons.prems Leaf p1 show ?thesis by auto
  qed
qed simp

lemma import_whole:
  assumes "whole_items Io d items" "n = of_nat (length d)"
  shows "import_bao R B Io n items (new_partial R) = Some (Complete d (io_outboard Io d))"
proof -
  let ?p = "\<lparr>ps_data = sparse_new R, ps_outboard = sparse_new R, ps_size = size_info_write size_info_default 0 n, ps_bitfield = bf_empty R\<rparr>"
  let ?front = "butlast items"
  have w: "length d < 2 ^ 64" "length (pairs items) < 2 ^ 64" "\<forall>item\<in>set items. leaf_item_of d item" "pre_order Io n 0 items" "pairs items = io_outboard Io d"
    "\<forall>x<length d. covered items x" "items \<noteq> []" "\<exists>off data. last items = Leaf off data" "\<exists>x<length d. \<not> covered ?front x"
    using assms by (auto simp: whole_items_def)
  obtain off data where l: "items = ?front @ [Leaf off data]" using w(7,8) append_butlast_last_id by metis
  have pre: "pre_order Io n 0 ?front"
  proof -
    have "pre_order Io n k (xs @ ys) \<Longrightarrow> pre_order Io n k xs" for k xs ys
      by (induction Io n k xs rule: pre_order.induct) auto
    then show ?thesis using w(4) l by metis
  qed
  have ps: "pairs ?front = io_outboard Io d" using w(5) by (subst (asm) l) simp
  have inv: "partial_inv R B d ?p"
    by (simp add: partial_inv_def sparse_new_def bf_empty_def contains_empty bf_canonical_def bf_new_def)
  have ob: "sparse_try_into R (ps_outboard ?p) = Inr []"
    by (simp add: sparse_try_into_def into_parts_def sparse_new_def rs_eq_iff contains_simps)
  have none: "\<not> has_chunk R ?p x" for x by (simp add: bf_empty_def contains_empty)
  obtain p' where p': "import_bao_items R B Io n ?front (Partial ?p) = Some (Partial p')" "partial_inv R B d p'"
    "sparse_try_into R (ps_outboard p') = Inr (io_outboard Io d)" "\<forall>x<length d. has_chunk R p' x \<longleftrightarrow> covered ?front x"
    using import_open_items [OF w(1) _ pre [unfolded assms(2)] inv ob] w(2,3,5,9) ps none assms(2)
    by (auto simp: in_set_butlastD)
  have lo: "leaf_of d off data" using w(3) by (subst (asm) l) simp
  have "\<forall>x<length d. has_chunk R p' x \<or> in_leaf (off, data) x" using w(6) p'(4) by (subst (asm) l) auto
  then obtain ch where "import_bao_item R B Io n (Leaf off data) (Partial p') = Some (Complete d (io_outboard Io d), ch)"
    using import_leaf_exact [OF p'(2) lo w(1) p'(3)] assms(2) by auto
  then have "import_bao_items R B Io n items (Partial ?p) = Some (Complete d (io_outboard Io d))"
    using p'(1) by (subst l) (simp add: import_bao_items_append)
  then show ?thesis by (simp add: import_bao_def import_bao_start_def new_partial_def)
qed

end
section \<open>The store\<close>

text \<open>The task of an import writes the items into its entry, answers and leaves.\<close>

lemma run_import_items:
  assumes "ms_tasks s = ts @ [TImportBao tx a n (map Inr items)]" "import_bao_items R B Io n items (bh_state (ms_heap s a)) = Some st"
  shows "\<exists>s' out. run_last_task R B Io tr (Suc (length items)) (length ts) s = Some (s', (tx, ROk) # out)
    \<and> ms_heap s' = (ms_heap s)(a := (ms_heap s a)\<lparr>bh_state := st\<rparr>) \<and> ms_tasks s' = ts
    \<and> ms_data s' = ms_data s \<and> ms_next s' = ms_next s \<and> ms_empty_hash s' = ms_empty_hash s"
  using assms
proof (induction items arbitrary: s)
  case Nil
  then show ?case
    by (cases "ts = []") (auto simp: run_task_def poll_task.simps handle_task_result_def remove_nth_def)
next
  case (Cons item items)
  obtain st1 ch where st1: "import_bao_item R B Io n item (bh_state (ms_heap s a)) = Some (st1, ch)"
    "import_bao_items R B Io n items st1 = Some st" using Cons.prems(2) by (auto split: option.splits)
  let ?s = "(set_handle_state a st1 s)\<lparr>ms_tasks := ts @ [TImportBao tx a n (map Inr items)]\<rparr>"
  have run: "run_task R B Io tr (length ts) s = Some (?s, [])"
    using Cons.prems(1) st1(1) by (simp add: run_task_def poll_task.simps set_handle_state_def Let_def)
  have "import_bao_items R B Io n items (bh_state (ms_heap ?s a)) = Some st" using st1(2) by (simp add: set_handle_state_def)
  from Cons.IH [OF _ this] obtain s' out where
    "run_last_task R B Io tr (Suc (length items)) (length ts) ?s = Some (s', (tx, ROk) # out)"
    "ms_heap s' = (ms_heap s)(a := (ms_heap s a)\<lparr>bh_state := st\<rparr>)" "ms_tasks s' = ts"
    "ms_data s' = ms_data s" "ms_next s' = ms_next s" "ms_empty_hash s' = ms_empty_hash s"
    by (auto simp: set_handle_state_def fun_eq_iff simp del: run_last_task.simps)
  then show ?case using run Cons.prems(1)
    by (subst run_last_task.simps) (simp del: run_last_task.simps)
qed

lemma mem_import_bao_entry:
  assumes "get_or_create_entry R h s = (a, s1)" "import_bao R B Io n items (bh_state (ms_heap s1 a)) = Some st"
  shows "\<exists>s'. mem_import_bao R B Io tr s h n items = (Inr (), s') \<and> ms_heap s' = (ms_heap s1)(a := (ms_heap s1 a)\<lparr>bh_state := st\<rparr>)
    \<and> ms_tasks s' = ms_tasks s \<and> ms_data s' = ms_data s1 \<and> ms_next s' = ms_next s1 \<and> ms_empty_hash s' = ms_empty_hash s1"
proof -
  have t: "ms_tasks s1 = ms_tasks s" using assms(1) by (auto simp: get_or_create_entry_def split: if_splits option.splits)
  let ?ev = "spawn (TImportBaoStart 0 a n (map Inr items)) s1"
  let ?s = "(set_handle_state a (import_bao_start n (bh_state (ms_heap s1 a))) s1)\<lparr>ms_tasks := ms_tasks s @ [TImportBao 0 a n (map Inr items)]\<rparr>"
  have run: "run_task R B Io tr (length (ms_tasks s)) ?ev = Some (?s, [])"
    by (simp add: run_task_def poll_task.simps t spawn_def set_handle_state_def)
  have "import_bao_items R B Io n items (bh_state (ms_heap ?s a)) = Some st" using assms(2) by (simp add: import_bao_def set_handle_state_def)
  then obtain s' out where s': "run_last_task R B Io tr (Suc (length items)) (length (ms_tasks s)) ?s = Some (s', (0, ROk) # out)"
    "ms_heap s' = (ms_heap s1)(a := (ms_heap s1 a)\<lparr>bh_state := st\<rparr>)" "ms_tasks s' = ms_tasks s"
    "ms_data s' = ms_data s1" "ms_next s' = ms_next s1" "ms_empty_hash s' = ms_empty_hash s1"
    using run_import_items [of ?s "ms_tasks s" 0 a n items R B Io st tr] by (auto simp: set_handle_state_def fun_eq_iff simp del: run_last_task.simps)
  have "run_last_task R B Io tr (length items + 2) (length (ms_tasks s)) ?ev = Some (s', (0, ROk) # out)"
    using run s'(1) by (subst add_2_eq_Suc', subst run_last_task.simps) (simp add: spawn_def t del: run_last_task.simps)
  then show ?thesis using s' assms(1) by (simp add: mem_import_bao_def)
qed
section \<open>The contract of a store for downloads\<close>

text \<open>
  A blob of which nothing is there can be imported as a whole; then it can be read. Importing it
  again changes nothing, and other blobs are not touched. The empty blob is always there.
\<close>

locale download_store =
  fixes St :: "('r, 's) store_ops"
    and ok :: "'s \<Rightarrow> bool"
    and blank :: "'s \<Rightarrow> hash \<Rightarrow> bool"
    and has :: "'s \<Rightarrow> hash \<Rightarrow> bytes \<Rightarrow> bool"
    and whole :: "hash \<Rightarrow> u64 \<Rightarrow> bytes \<Rightarrow> bao_content_item list \<Rightarrow> bool"
  assumes import_whole_blob: "ok s \<Longrightarrow> whole h n d items \<Longrightarrow> blank s h \<or> has s h d \<Longrightarrow>
      \<exists>s'. so_import_bao St s h n items = (Inr (), s') \<and> ok s' \<and> has s' h d
        \<and> (\<forall>h'. h' \<noteq> h \<longrightarrow> blank s' h' = blank s h' \<and> has s' h' = has s h')"
    and get_has: "ok s \<Longrightarrow> has s h d \<Longrightarrow> so_get_bytes St s h = Inr d"
    and has_unique: "has s h d \<Longrightarrow> has s h d' \<Longrightarrow> d = d'"
    and has_not_blank: "has s h d \<Longrightarrow> \<not> blank s h"
    and has_empty: "ok s \<Longrightarrow> has s hash_empty []"

text \<open>Importing one blob after the other; an empty blob needs no import.\<close>

fun import_all :: "('r, 's) store_ops \<Rightarrow> (hash \<times> u64 \<times> bao_content_item list) list \<Rightarrow> 's \<Rightarrow> 's option" where
  "import_all St [] s = Some s"
| "import_all St ((h, n, items) # bs) s =
     (if n = 0 then (if h = hash_empty then import_all St bs s else None)
      else case so_import_bao St s h n items of (Inl _, _) \<Rightarrow> None | (Inr _, s) \<Rightarrow> import_all St bs s)"

context download_store
begin

definition importable :: "(hash \<Rightarrow> bytes) \<Rightarrow> 's \<Rightarrow> hash \<times> u64 \<times> bao_content_item list \<Rightarrow> bool" where
  "importable D s b = (case b of (h, n, items) \<Rightarrow>
     if n = 0 then h = hash_empty \<and> D h = [] else whole h n (D h) items \<and> (blank s h \<or> has s h (D h)))"

lemma import_all_whole:
  assumes "ok s" "\<forall>b\<in>set bs. importable D s b"
  shows "\<exists>s'. import_all St bs s = Some s' \<and> ok s' \<and> (\<forall>b\<in>set bs. has s' (fst b) (D (fst b))) \<and> (\<forall>h d. has s h d \<longrightarrow> has s' h d)"
  using assms
proof (induction bs arbitrary: s)
  case (Cons b bs)
  obtain h n items where b: "b = (h, n, items)" by (cases b) auto
  have "\<exists>s1. (import_all St [b] s = Some s1 \<and> ok s1 \<and> has s1 h (D h) \<and> (\<forall>h d. has s h d \<longrightarrow> has s1 h d)
      \<and> (\<forall>b'\<in>set bs. importable D s1 b')) \<and> import_all St (b # bs) s = import_all St bs s1"
  proof (cases "n = 0")
    case True
    then have "h = hash_empty" "D h = []" using Cons.prems(2) b by (auto simp: importable_def)
    then show ?thesis using Cons.prems True has_empty b by auto
  next
    case False
    then have w: "whole h n (D h) items" "blank s h \<or> has s h (D h)" using Cons.prems(2) b by (auto simp: importable_def)
    from import_whole_blob [OF Cons.prems(1) this] obtain s1 where s1: "so_import_bao St s h n items = (Inr (), s1)" "ok s1"
      "has s1 h (D h)" "\<forall>h'. h' \<noteq> h \<longrightarrow> blank s1 h' = blank s h' \<and> has s1 h' = has s h'" by blast
    have keeps: "has s1 h' d" if "has s h' d" for h' d
    proof (cases "h' = h")
      case True
      then have "d = D h" using w(2) that has_unique has_not_blank by blast
      then show ?thesis using True s1(3) by simp
    qed (use s1(4) that in simp)
    have "importable D s1 b'" if "b' \<in> set bs" for b'
    proof -
      obtain h' n' items' where b': "b' = (h', n', items')" by (cases b') auto
      have "importable D s b'" using Cons.prems(2) that by simp
      then show ?thesis using s1(3,4) b' by (cases "h' = h") (auto simp: importable_def)
    qed
    then show ?thesis using s1 keeps False b by auto
  qed
  then obtain s1 where s1: "import_all St (b # bs) s = import_all St bs s1" "ok s1" "has s1 h (D h)"
    "\<forall>h d. has s h d \<longrightarrow> has s1 h d" "\<forall>b'\<in>set bs. importable D s1 b'" by blast
  from Cons.IH [OF s1(2,5)] s1(1,3,4) b show ?case by auto
qed simp

end

section \<open>The memory store provides it\<close>

text \<open>The entry of the empty blob holds nothing; in a new store it is a partial one.\<close>

definition empty_storage :: "'r bao_file_storage \<Rightarrow> bool" where
  "empty_storage st \<longleftrightarrow> storage_data st = [] \<and> storage_outboard st = [] \<and> storage_size st = 0"

definition mem_entries_ok :: "'r mem_state \<Rightarrow> bool" where
  "mem_entries_ok s \<longleftrightarrow> bt_ok (ms_data s) \<and> (\<forall>h a. bt_get (ms_data s) h = Some a \<longrightarrow> a < ms_next s \<and> bh_hash (ms_heap s a) = h)
     \<and> ms_empty_hash s < ms_next s \<and> bh_hash (ms_heap s (ms_empty_hash s)) = hash_empty
     \<and> empty_storage (bh_state (ms_heap s (ms_empty_hash s)))"

text \<open>The state of the entry for a hash, if there is one.\<close>

definition entry_of :: "'r mem_state \<Rightarrow> hash \<Rightarrow> 'r bao_file_storage option" where
  "entry_of s h = map_option (\<lambda>a. bh_state (ms_heap s a)) (mem_get s h)"

definition mem_blank :: "'r range_ops \<Rightarrow> 'r mem_state \<Rightarrow> hash \<Rightarrow> bool" where
  "mem_blank R s h \<longleftrightarrow> h \<noteq> hash_empty \<and> (case entry_of s h of None \<Rightarrow> True | Some st \<Rightarrow> st = new_partial R)"

definition mem_has :: "io_ops \<Rightarrow> 'r mem_state \<Rightarrow> hash \<Rightarrow> bytes \<Rightarrow> bool" where
  "mem_has Io s h d \<longleftrightarrow> h = io_root Io d \<and> (if h = hash_empty then d = [] else entry_of s h = Some (Complete d (io_outboard Io d)))"

text \<open>A change of one entry, after which the other entries are what they were.\<close>

lemma entry_created:
  assumes "h \<noteq> hash_empty" "get_or_create_entry R h s = (a, s1)"
  shows "bh_state (ms_heap s1 a) = (case entry_of s h of None \<Rightarrow> new_partial R | Some st \<Rightarrow> st)"
  using assms by (auto simp: get_or_create_entry_def entry_of_def mem_get_def split: option.splits)

lemma entry_update:
  assumes "mem_entries_ok s" "h \<noteq> hash_empty" "get_or_create_entry R h s = (a, s1)"
    and s': "ms_heap s' = (ms_heap s1)(a := (ms_heap s1 a)\<lparr>bh_state := st\<rparr>)" "ms_data s' = ms_data s1" "ms_next s' = ms_next s1"
      "ms_empty_hash s' = ms_empty_hash s1"
  shows "mem_entries_ok s'" and "entry_of s' h' = (if h' = h then Some st else entry_of s h')"
proof -
  have ok: "bt_ok (ms_data s)" "\<And>h a. bt_get (ms_data s) h = Some a \<Longrightarrow> a < ms_next s \<and> bh_hash (ms_heap s a) = h"
    "ms_empty_hash s < ms_next s" "bh_hash (ms_heap s (ms_empty_hash s)) = hash_empty"
    "empty_storage (bh_state (ms_heap s (ms_empty_hash s)))" using assms(1) by (auto simp: mem_entries_ok_def)
  have lt: "a < Suc (ms_next s)" if "bt_get (ms_data s) h = Some a" for h a using ok(2) [OF that] by simp
  show "mem_entries_ok s'"
  proof (cases "bt_get (ms_data s) h")
    case None
    then show ?thesis using assms(2,3) s' ok
      by (auto simp: get_or_create_entry_def mem_entries_ok_def bt_ok_insert bt_get_insert dest: ok(2) intro: lt split: if_splits)
  next
    case (Some b)
    then have "b \<noteq> ms_empty_hash s" using ok(2,4) assms(2) by auto
    then show ?thesis using Some assms(2,3) s' ok by (auto simp: get_or_create_entry_def mem_entries_ok_def)
  qed
  show "entry_of s' h' = (if h' = h then Some st else entry_of s h')"
  proof (cases "bt_get (ms_data s) h")
    case None
    then have a: "a = ms_next s" "ms_heap s1 = (ms_heap s)(ms_next s := \<lparr>bh_state = new_partial R, bh_hash = h\<rparr>)"
      "ms_data s1 = bt_insert h (ms_next s) (ms_data s)" "ms_empty_hash s1 = ms_empty_hash s"
      using assms(2,3) by (auto simp: get_or_create_entry_def)
    then have "mem_get s' h' = (if h' = h then Some (ms_next s) else mem_get s h')"
      using s' ok(1) assms(2) by (simp add: mem_get_def bt_get_insert)
    moreover have "b \<noteq> ms_next s" if "mem_get s h' = Some b" for b
      using that ok(2) [of h'] ok(3) by (auto simp: mem_get_def split: if_splits)
    ultimately show ?thesis using a s'(1) by (cases "mem_get s h'") (simp_all add: entry_of_def)
  next
    case (Some b)
    then have a: "a = b" "s1 = s" using assms(2,3) by (auto simp: get_or_create_entry_def)
    have "mem_get s' h' = mem_get s h'" "mem_get s h = Some b" using s' a Some assms(2) by (simp_all add: mem_get_def)
    moreover have "h' = h" if "mem_get s h' = Some b"
      using that Some ok(2) [of h' b] ok(2) [of h b] ok(4) assms(2) by (auto simp: mem_get_def split: if_splits)
    ultimately show ?thesis using a s'(1) by (cases "mem_get s h'") (auto simp: entry_of_def)
  qed
qed

context export_laws
begin

lemma mem_export_has:
  assumes "mem_entries_ok s" "mem_has Io s h d" "io_outboard Io [] = []"
  shows "mem_export_bao R Io tr s h ranges = tr d (outboard_load Io (of_nat (length d)) (io_outboard Io d)) (io_root Io d) ranges"
proof (cases "h = hash_empty")
  case True
  then show ?thesis using assms by (auto simp: mem_has_def mem_entries_ok_def empty_storage_def mem_export_bao_def export_bao_def mem_get_def)
next
  case False
  then obtain a where "bt_get (ms_data s) h = Some a" "bh_state (ms_heap s a) = Complete d (io_outboard Io d)" "h = io_root Io d"
    using assms(2) by (auto simp: mem_has_def entry_of_def mem_get_def)
  then show ?thesis using assms(1) False by (simp add: mem_entries_ok_def mem_export_bao_def export_bao_def mem_get_def)
qed

lemma get_bytes_has: "mem_entries_ok s \<Longrightarrow> mem_has Io s h d \<Longrightarrow> io_outboard Io [] = [] \<Longrightarrow> get_bytes R Io tr s h = Inr d"
  using traverse [OF refl, of d] by (simp add: get_bytes_def mem_export_has data_to_bytes_leaves)

lemma mem_import_whole_blob:
  assumes "mem_entries_ok s" "whole_items Io d items" "h = io_root Io d" "n = of_nat (length d)" "mem_blank R s h \<or> mem_has Io s h d"
    "h \<noteq> hash_empty"
  shows "\<exists>s'. mem_import_bao R B Io tr s h n items = (Inr (), s') \<and> mem_entries_ok s' \<and> mem_has Io s' h d
    \<and> (\<forall>h'. h' \<noteq> h \<longrightarrow> mem_blank R s' h' = mem_blank R s h' \<and> mem_has Io s' h' = mem_has Io s h')"
proof -
  obtain a s1 where g: "get_or_create_entry R h s = (a, s1)" by (metis surj_pair)
  note st = entry_created [OF assms(6) g]
  have "import_bao R B Io n items (bh_state (ms_heap s1 a)) = Some (Complete d (io_outboard Io d))"
  proof (cases "mem_blank R s h")
    case True
    then have "bh_state (ms_heap s1 a) = new_partial R" using st by (auto simp: mem_blank_def split: option.splits)
    then show ?thesis using import_whole [OF assms(2,4)] by simp
  next
    case False
    then have "bh_state (ms_heap s1 a) = Complete d (io_outboard Io d)" using st assms(5,6) by (auto simp: mem_has_def)
    then show ?thesis by (simp add: import_bao_def import_bao_start_def import_complete)
  qed
  from mem_import_bao_entry [OF g this, of tr] obtain s' where s': "mem_import_bao R B Io tr s h n items = (Inr (), s')"
    "ms_heap s' = (ms_heap s1)(a := (ms_heap s1 a)\<lparr>bh_state := Complete d (io_outboard Io d)\<rparr>)" "ms_data s' = ms_data s1"
    "ms_next s' = ms_next s1" "ms_empty_hash s' = ms_empty_hash s1" by blast
  note up = entry_update [OF assms(1,6) g s'(2-)]
  show ?thesis using s'(1) up assms(3,6) by (auto simp: mem_has_def mem_blank_def fun_eq_iff)
qed

end

text \<open>What is relied on for the empty blob: its hash is \<open>Hash::EMPTY\<close>, and it has no outboard.\<close>

locale download_laws = export_laws R B Io tr for R :: "'r range_ops" and B and Io and tr :: "'r traverse" +
  assumes root_empty: "io_root Io [] = hash_empty"
    and outboard_empty: "io_outboard Io [] = []"

definition whole_blob :: "io_ops \<Rightarrow> hash \<Rightarrow> u64 \<Rightarrow> bytes \<Rightarrow> bao_content_item list \<Rightarrow> bool" where
  "whole_blob Io h n d items \<longleftrightarrow> whole_items Io d items \<and> h = io_root Io d \<and> n = of_nat (length d) \<and> h \<noteq> hash_empty"

sublocale download_laws \<subseteq> md: download_store "mem_store_ops R B Io tr" mem_entries_ok "mem_blank R" "mem_has Io" "whole_blob Io"
proof (unfold_locales, goal_cases)
  case (1 s h n d items)
  then show ?case using mem_import_whole_blob [of s d items h n] by (auto simp: whole_blob_def mem_store_ops_def)
next
  case (2 s h d)
  then show ?case by (simp add: mem_store_ops_def get_bytes_has outboard_empty)
next
  case (4 s h d)
  then show ?case by (auto simp: mem_has_def mem_blank_def new_partial_def)
next
  case (5 s)
  then show ?case by (simp add: mem_has_def root_empty)
next
  case (3 s h d d')
  then show ?case by (cases "h = hash_empty") (auto simp: mem_has_def)
qed

text \<open>An instance, with the hash of the empty blob as it is.\<close>

definition ref_io_empty :: io_ops where
  "ref_io_empty = ref_io\<lparr>io_root := \<lambda>data. if data = [] then hash_empty else io_root ref_io data\<rparr>"

interpretation refdl: download_laws ref_ops ref_chunk_ops ref_io_empty ref_traverse
proof -
  have "io_laws ref_io_empty" using refio.io_laws_axioms by (simp add: io_laws_def ref_io_empty_def)
  then have "store_laws ref_ops ref_chunk_ops ref_io_empty" using refc.chunk_laws_axioms by (simp add: store_laws_def)
  then show "download_laws ref_ops ref_chunk_ops ref_io_empty ref_traverse"
    by (simp add: download_laws_def export_laws_def export_laws_axioms_def download_laws_axioms_def ref_traverse_def ref_io_empty_def ref_io_def)
qed

end
