(* ===== verification/Get_Transfer.thy ===== *)
theory Get_Transfer
  imports Remote Mem_Import
begin

text \<open>
  A get request between the two ends: the provider of \<open>Provider\<close> answers from its store, the client
  of \<open>Remote\<close> imports what arrives into its own. What both walk is the same list of indexes, the
  non-empty ones of the request up to the end of the hash sequence. The client imports, blob by
  blob, exactly what the provider has exported, and both count the same bytes.
\<close>

section \<open>What travels\<close>

fun enc_item :: "bao_content_item \<Rightarrow> encoded_item" where
  "enc_item (Parent node l r) = EncParent node l r"
| "enc_item (Leaf offset d) = EncLeaf offset d"

text \<open>An export that succeeds, and its bytes on the stream.\<close>

definition export_of :: "u64 \<Rightarrow> bao_content_item list \<Rightarrow> encoded_item list" where
  "export_of n items = EncSize n # map enc_item items @ [EncDone]"

fun item_wire :: "bao_content_item \<Rightarrow> bytes" where
  "item_wire (Parent _ l r) = as_bytes l @ as_bytes r"
| "item_wire (Leaf _ d) = d"

definition blob_wire :: "u64 \<Rightarrow> bao_content_item list \<Rightarrow> bytes" where
  "blob_wire n items = to_le_bytes n @ concat (map item_wire items)"

fun payload :: "bao_content_item list \<Rightarrow> nat" where
  "payload [] = 0"
| "payload (Leaf _ d # items) = length d + payload items"
| "payload (Parent _ _ _ # items) = payload items"

fun parents :: "bao_content_item list \<Rightarrow> nat" where
  "parents [] = 0"
| "parents (Leaf _ _ # items) = parents items"
| "parents (Parent _ _ _ # items) = Suc (parents items)"

text \<open>The non-empty indexes of a request, from \<open>k\<close> up to \<open>n\<close>.\<close>

definition indexes :: "'r range_ops \<Rightarrow> 'r chunk_ranges_seq \<Rightarrow> nat \<Rightarrow> nat \<Rightarrow> nat list" where
  "indexes R s k n = filter (\<lambda>i. \<not> rs_is_empty R (seq_at R s (of_nat i))) [k..<n]"

definition blob_at :: "hash \<Rightarrow> hash list \<Rightarrow> nat \<Rightarrow> hash" where
  "blob_at root hs i = (case i of 0 \<Rightarrow> root | Suc j \<Rightarrow> hs ! j)"

lemma indexes_empty: "(\<And>i. k \<le> i \<Longrightarrow> i < n \<Longrightarrow> rs_is_empty R (seq_at R s (of_nat i))) \<Longrightarrow> indexes R s k n = []"
  by (simp add: indexes_def filter_empty_conv)

lemma indexes_next:
  assumes "k \<le> j" "j < n" "\<not> rs_is_empty R (seq_at R s (of_nat j))"
    and "\<And>i. k \<le> i \<Longrightarrow> i < j \<Longrightarrow> rs_is_empty R (seq_at R s (of_nat i))"
  shows "indexes R s k n = j # indexes R s (Suc j) n"
proof -
  have "[k..<n] = [k..<j] @ j # [Suc j..<n]"
    using assms(1,2) upt_add_eq_append [OF assms(1), of "n - j"] by (simp add: upt_conv_Cons)
  moreover have "indexes R s k j = []" using assms(4) by (rule indexes_empty)
  ultimately show ?thesis using assms(3) by (simp add: indexes_def)
qed

lemma set_indexes: "i \<in> set (indexes R s k n) \<longleftrightarrow> k \<le> i \<and> i < n \<and> \<not> rs_is_empty R (seq_at R s (of_nat i))"
  by (auto simp: indexes_def)

lemma indexes_beyond: "n \<le> k \<Longrightarrow> indexes R s k n = []"
  by (simp add: indexes_def)

section \<open>The provider\<close>

text \<open>A writer that nobody stops and whose request is neither reported nor throttled.\<close>

definition quiet :: "'r progress_writer \<Rightarrow> bool" where
  "quiet w \<longleftrightarrow> pw_left w = None \<and> (\<forall>tx. rt_updates (wc_tracker (pw_context w)) \<noteq> ActiveUpdates tx)
     \<and> rt_throttle (wc_tracker (pw_context w)) = None"

text \<open>The writer after some bytes, of which \<open>p\<close> are payload and \<open>q\<close> are not.\<close>

definition written :: "'r progress_writer \<Rightarrow> bytes \<Rightarrow> nat \<Rightarrow> nat \<Rightarrow> 'r progress_writer" where
  "written w bs p q = w\<lparr>pw_out := pw_out w @ bs,
     pw_context := (pw_context w)\<lparr>wc_payload_bytes_written := wc_payload_bytes_written (pw_context w) + of_nat p,
       wc_other_bytes_written := wc_other_bytes_written (pw_context w) + of_nat q\<rparr>\<rparr>"

lemma quiet_written [simp]: "quiet (written w bs p q) = quiet w"
  by (simp add: quiet_def written_def)

lemma written_written [simp]: "written (written w bs p q) bs' p' q' = written w (bs @ bs') (p + p') (q + q')"
  by (simp add: written_def)

lemma written_nothing [simp]: "written w [] 0 0 = w"
  by (simp add: written_def)

lemma send_update_quiet: "quiet w \<Longrightarrow> send_update (wc_tracker (pw_context w)) u = Some (wc_tracker (pw_context w))"
  by (auto simp: quiet_def send_update_def split: request_updates.splits)

lemma write_size_quiet:
  "quiet w \<Longrightarrow> write_quinn_with_progress h i w (EncSize n # es) = write_quinn_with_progress h i (written w (to_le_bytes n) 0 8) es"
  using send_update_quiet [of w]
  by (simp add: send_transfer_started_def transfer_started_def stream_write_def log_other_write_def written_def Let_def quiet_def)

lemma write_parent_quiet:
  "quiet w \<Longrightarrow> write_quinn_with_progress h i w (EncParent node l r # es)
    = write_quinn_with_progress h i (written w (as_bytes l @ as_bytes r) 0 64) es"
  by (simp add: stream_write_def log_other_write_def written_def quiet_def)

lemma write_leaf_quiet:
  assumes "quiet w"
  shows "write_quinn_with_progress h i w (EncLeaf offset d # es) = write_quinn_with_progress h i (written w d (length d) 0) es"
proof -
  have "transfer_progress (wc_tracker (pw_context w)) len stop = Inr (wc_tracker (pw_context w))" for len stop
    using send_update_quiet [OF assms] assms by (simp add: transfer_progress_def quiet_def)
  then show ?thesis using assms by (simp add: stream_write_def notify_payload_write_def written_def quiet_def Let_def)
qed

lemma write_items_quiet:
  "quiet w \<Longrightarrow> write_quinn_with_progress h i w (map enc_item items @ [EncDone])
    = (written w (concat (map item_wire items)) (payload items) (64 * parents items), None)"
proof (induction items arbitrary: w)
  case (Cons item items)
  then show ?case
    by (cases item) (simp_all add: write_parent_quiet write_leaf_quiet algebra_simps del: write_quinn_with_progress.simps)
qed simp

lemma write_export_quiet:
  "quiet w \<Longrightarrow> write_quinn_with_progress h i w (export_of n items)
    = (written w (blob_wire n items) (payload items) (8 + 64 * parents items), None)"
  by (simp add: export_of_def blob_wire_def write_size_quiet write_items_quiet del: write_quinn_with_progress.simps)

text \<open>The whole response.\<close>

definition response_wire :: "(nat \<Rightarrow> u64) \<Rightarrow> (nat \<Rightarrow> bao_content_item list) \<Rightarrow> nat list \<Rightarrow> bytes" where
  "response_wire sz items is' = concat (map (\<lambda>i. blob_wire (sz i) (items i)) is')"

definition response_payload :: "(nat \<Rightarrow> bao_content_item list) \<Rightarrow> nat list \<Rightarrow> nat" where
  "response_payload items is' = sum_list (map (\<lambda>i. payload (items i)) is')"

definition response_other :: "(nat \<Rightarrow> bao_content_item list) \<Rightarrow> nat list \<Rightarrow> nat" where
  "response_other items is' = sum_list (map (\<lambda>i. 8 + 64 * parents (items i)) is')"

lemmas response_defs = response_wire_def response_payload_def response_other_def

lemma response_Nil [simp]: "response_wire sz items [] = []" "response_payload items [] = 0" "response_other items [] = 0"
  by (simp_all add: response_defs)

lemma response_Cons [simp]:
  "response_wire sz items (i # is') = blob_wire (sz i) (items i) @ response_wire sz items is'"
  "response_payload items (i # is') = payload (items i) + response_payload items is'"
  "response_other items (i # is') = (8 + 64 * parents (items i)) + response_other items is'"
  by (simp_all add: response_defs)

text \<open>Some child is requested, so that the hash sequence is read.\<close>

definition wants_children :: "'r range_ops \<Rightarrow> 'r chunk_ranges_seq \<Rightarrow> bool" where
  "wants_children R s \<longleftrightarrow> (\<exists>i. 0 < i \<and> i < 2 ^ 64 - 1 \<and> \<not> rs_is_empty R (seq_at R s (of_nat i)))"

lemma of_nat_u64_pred:
  assumes "j < 2 ^ 64" "0 < j"
  shows "unat (of_nat j - 1 :: u64) = j - 1"
  using unat_of_nat_u64 [of "j - 1"] assms by (simp only: pred_of_nat)

lemma hash_seq_get_at:
  assumes "0 < j" "j < 2 ^ 64"
  shows "hash_seq_get hs (unat (of_nat j - 1 :: u64))
    = (if j < Suc (length (hash_seq_iter hs)) then Some (blob_at root (hash_seq_iter hs) j) else None)"
  using assms(1) unfolding of_nat_u64_pred [OF assms(2,1)] by (cases j) (simp_all add: hash_seq_get_iter blob_at_def)

context range_set
begin

lemma handle_get_loop_serves:
  assumes "sorted_offsets s" "k \<le> 2 ^ 64 - 1"
    and n: "n = Suc (length (hash_seq_iter hs))" "n < 2 ^ 64"
    and load: "cached = Some hs \<or> cached = None \<and> (wants_children R s \<longrightarrow> load_hash_seq St st root = Inr hs)"
    and exports: "\<And>i. i \<in> set (indexes R s k n) \<Longrightarrow>
      so_export_bao St st (blob_at root (hash_seq_iter hs) i) (seq_at R s (of_nat i)) = export_of (sz i) (items i)"
    and "quiet w"
  shows "handle_get_loop R St st root cached w (non_empty_at R s k) =
    (written w (response_wire sz items (indexes R s k n)) (response_payload items (indexes R s k n))
      (response_other items (indexes R s k n)), None)"
  using assms(2) load exports \<open>quiet w\<close>
proof (induction "2 ^ 64 - 1 - k" arbitrary: k cached w rule: less_induct)
  case less
  show ?case using assms(1) less.prems(1)
  proof (cases rule: non_empty_cases)
    case (Next j)
    have j: "unat (of_nat j :: u64) = j" using Next(2) by (intro unat_of_nat_u64) simp
    have dec: "2 ^ 64 - 1 - Suc j < 2 ^ 64 - 1 - k" and lej: "Suc j \<le> 2 ^ 64 - 1" using Next(1,2) by simp_all
    have before: "rs_is_empty R (seq_at R s (of_nat i))" if "k \<le> i" "i < j" for i
      using Next(4) [OF that] by (simp add: is_empty_iff)
    have ne: "\<not> rs_is_empty R (seq_at R s (of_nat j))" using Next(3) by (simp add: is_empty_iff)
    show ?thesis
    proof (cases "j < n")
      case True
      have idx: "indexes R s k n = j # indexes R s (Suc j) n" using Next(1) True ne before by (rule indexes_next)
      let ?w = "written w (blob_wire (sz j) (items j)) (payload (items j)) (8 + 64 * parents (items j))"
      have send: "send_blob St st (of_nat j) (blob_at root (hash_seq_iter hs) j) (seq_at R s (of_nat j)) w = (?w, None)"
        using less.prems(3) [of j] less.prems(4) by (simp add: send_blob_def idx write_export_quiet)
      have exports': "so_export_bao St st (blob_at root (hash_seq_iter hs) i) (seq_at R s (of_nat i)) = export_of (sz i) (items i)"
        if "i \<in> set (indexes R s (Suc j) n)" for i using less.prems(3) that by (simp add: idx)
      have q: "quiet ?w" using less.prems(4) by simp
      note IH = less.hyps [OF dec lej _ exports' q]
      show ?thesis
      proof (cases "j = 0")
        case True
        then show ?thesis using IH [of cached] less.prems(2) send Next(5)
          by (subst handle_get_loop.simps) (simp add: idx blob_at_def)
      next
        case False
        then have nz: "of_nat j \<noteq> (0 :: u64)" using j by auto
        have "wants_children R s" using False Next(2) ne by (auto simp: wants_children_def)
        then have l: "(case cached of Some hs \<Rightarrow> Inr hs | None \<Rightarrow> load_hash_seq St st root) = Inr hs"
          using less.prems(2) by auto
        have "hash_seq_get hs (unat (of_nat j - 1 :: u64)) = Some (blob_at root (hash_seq_iter hs) j)"
          using hash_seq_get_at [of j hs root] False True Next(2) n(1) by simp
        then show ?thesis using IH [of "Some hs"] send Next(5) l nz
          by (subst handle_get_loop.simps) (simp add: idx)
      qed
    next
      case False
      then have idx: "indexes R s k n = []" using before by (intro indexes_empty) simp
      have jp: "0 < j" using False n(1) by simp
      then have nz: "of_nat j \<noteq> (0 :: u64)" using j by auto
      have "wants_children R s" using jp Next(2) ne by (auto simp: wants_children_def)
      then have l: "(case cached of Some hs \<Rightarrow> Inr hs | None \<Rightarrow> load_hash_seq St st root) = Inr hs"
        using less.prems(2) by auto
      have "hash_seq_get hs (unat (of_nat j - 1 :: u64)) = None"
        using hash_seq_get_at [of j hs root] False jp Next(2) n(1) by simp
      then show ?thesis using Next(5) l nz by (subst handle_get_loop.simps) (simp add: idx)
    qed
  next
    case (Ended it)
    then have "indexes R s k n = []" using n(2) by (intro indexes_empty) (simp add: is_empty_iff)
    then show ?thesis using Ended(2) by (subst handle_get_loop.simps) simp
  qed
qed

lemma handle_get_serves:
  assumes "sorted_offsets (gr_ranges req)" "length (hash_seq_iter hs) < 2 ^ 64 - 1" "quiet w"
    and "wants_children R (gr_ranges req) \<longrightarrow> load_hash_seq St st (gr_hash req) = Inr hs"
    and is': "is' = indexes R (gr_ranges req) 0 (Suc (length (hash_seq_iter hs)))"
    and "\<And>i. i \<in> set is' \<Longrightarrow> so_export_bao St st (blob_at (gr_hash req) (hash_seq_iter hs) i) (seq_at R (gr_ranges req) (of_nat i))
      = export_of (sz i) (items i)"
  shows "handle_get R St st req w = (written w (response_wire sz items is') (response_payload items is') (response_other items is'), None)"
  using handle_get_loop_serves [OF assms(1) _ refl, of 0 hs None St st "gr_hash req" sz items w, folded is'] assms(2-4,6)
  by (simp add: handle_get_def non_empty_at_0)

end
section \<open>The client\<close>

text \<open>The counters after \<open>p\<close> bytes of payload and \<open>q\<close> others have been read.\<close>

definition counted :: "request_counters \<Rightarrow> nat \<Rightarrow> nat \<Rightarrow> request_counters" where
  "counted c p q = c\<lparr>payload_bytes_read := payload_bytes_read c + of_nat p, other_bytes_read := other_bytes_read c + of_nat q\<rparr>"

lemma counted_counted [simp]: "counted (counted c p q) p' q' = counted c (p + p') (q + q')"
  by (simp add: counted_def)

lemma counted_nothing [simp]: "counted c 0 0 = c"
  by (simp add: counted_def)

lemma count_item_counted: "count_item item c = counted c (payload [item]) (64 * parents [item])"
  by (cases item) (simp_all add: counted_def)

lemma payload_Cons: "payload (item # items) = payload [item] + payload items"
  by (cases item) simp_all

lemma parents_Cons: "parents (item # items) = parents [item] + parents items"
  by (cases item) simp_all

definition content_of :: "bao_content_item list \<Rightarrow> recv_stream \<Rightarrow> 'r misc \<Rightarrow> 'r at_blob_content" where
  "content_of items rest m = \<lparr>bc_stream = \<lparr>dc_items = map Inr items, dc_reader = rest\<rparr>, bc_misc = m\<rparr>"

definition read_misc :: "'r misc \<Rightarrow> nat \<Rightarrow> nat \<Rightarrow> 'r misc" where
  "read_misc m p q = m\<lparr>mi_counters := counted (mi_counters m) p q\<rparr>"

lemma read_misc_simps [simp]:
  "read_misc (read_misc m p q) p' q' = read_misc m (p + p') (q + q')" "read_misc m 0 0 = m"
  "mi_ranges_iter (read_misc m p q) = mi_ranges_iter m" "mi_counters (read_misc m p q) = counted (mi_counters m) p q"
  by (simp_all add: read_misc_def)

lemma bc_misc_content_of [simp]: "bc_misc (content_of items rest m) = m"
  by (simp add: content_of_def)

lemma content_next_of:
  "content_next (content_of [] rest m) = ContentDone \<lparr>eb_stream = rest, eb_misc = m\<rparr>"
  "content_next (content_of (item # items) rest m)
    = More (content_of items rest (read_misc m (payload [item]) (64 * parents [item]))) (Inr item)"
  by (simp_all add: content_of_def content_next_def read_misc_def count_item_counted)

lemma content_drain_of:
  "content_drain (content_of items rest m) = Inr \<lparr>eb_stream = rest, eb_misc = read_misc m (payload items) (64 * parents items)\<rparr>"
proof (induction items arbitrary: m)
  case Nil
  then show ?case by (subst content_drain.simps) (simp add: content_next_of)
next
  case (Cons item items)
  then show ?case
    by (subst content_drain.simps) (simp add: content_next_of payload_Cons [of item items] parents_Cons [of item items] algebra_simps)
qed

text \<open>A sink that takes everything.\<close>

lemma send_takes: "tx_left tx = None \<Longrightarrow> \<exists>tx'. send tx x = Some tx' \<and> tx_left tx' = None"
  by (simp add: send_def)

lemma transfer_items_of:
  "tx_left p = None \<Longrightarrow> \<exists>p'. tx_left p' = None \<and> transfer_items acc p (content_of items rest m)
    = (acc @ items, p', Inr \<lparr>eb_stream = rest, eb_misc = read_misc m (payload items) (64 * parents items)\<rparr>)"
proof (induction items arbitrary: acc p m)
  case Nil
  then show ?case by (subst transfer_items.simps) (simp add: content_next_of)
next
  case (Cons item items)
  let ?m = "read_misc m (payload [item]) (64 * parents [item])"
  obtain q where q: "send p (payload_bytes_read (mi_counters ?m)) = Some q" "tx_left q = None"
    using send_takes [OF Cons.prems] by blast
  from Cons.IH [OF q(2), of "acc @ [item]" ?m] q(1) show ?case
    by (subst transfer_items.simps)
      (simp add: content_next_of payload_Cons [of item items] parents_Cons [of item items] algebra_simps)
qed

text \<open>
  What the decoder of \<open>bao-tree\<close> is relied on for: reading the bytes of a verified encoding gives its
  items back and leaves the rest of the stream.
\<close>

definition decodes :: "'r decode \<Rightarrow> hash \<Rightarrow> 'r \<Rightarrow> u64 \<Rightarrow> bao_content_item list \<Rightarrow> bool" where
  "decodes decode h r n items \<longleftrightarrow> (\<forall>rest e. decode h r n \<lparr>rv_bytes = concat (map item_wire items) @ rest, rv_error = e\<rparr>
     = \<lparr>dc_items = map Inr items, dc_reader = \<lparr>rv_bytes = rest, rv_error = e\<rparr>\<rparr>)"

lemma import_all_split:
  assumes "import_all St (b # bs) s = Some s'"
  obtains s1 where "import_all St [b] s = Some s1" "import_all St bs s1 = Some s'"
  using assms by (cases b) (auto split: prod.splits sum.splits if_splits)

lemma read_8_wire:
  "read_8 \<lparr>rv_bytes = to_le_bytes n @ bs, rv_error = e\<rparr> = Inr (to_le_bytes n, \<lparr>rv_bytes = bs, rv_error = e\<rparr>)"
  by (simp add: read_8_def le_bytes_round_trip)

lemma get_blob_ranges_of:
  assumes "decodes decode (ah_hash hdr) (ah_ranges hdr) n items" "tx_left p = None"
    and rd: "ah_reader hdr = \<lparr>rv_bytes = blob_wire n items @ rest, rv_error = e\<rparr>"
    and "import_all St [(ah_hash hdr, n, items)] s = Some s'"
  shows "\<exists>p'. tx_left p' = None \<and> get_blob_ranges_impl St decode hdr (ah_hash hdr) s p =
    (Inr \<lparr>eb_stream = \<lparr>rv_bytes = rest, rv_error = e\<rparr>,
       eb_misc = read_misc (ah_misc hdr) (payload items) (8 + 64 * parents items)\<rparr>, s', p')"
proof -
  let ?rest = "\<lparr>rv_bytes = rest, rv_error = e\<rparr>" and ?m = "read_misc (ah_misc hdr) 0 8"
  have hn: "header_next decode hdr = Inr (content_of items ?rest ?m, n)"
    using assms(1) by (simp add: header_next_def rd blob_wire_def read_8_wire decodes_def content_of_def Let_def
        read_misc_def counted_def le_bytes_round_trip)
  show ?thesis
  proof (cases "n = 0")
    case True
    then show ?thesis using hn assms(2,4)
      by (auto simp: get_blob_ranges_impl_def content_drain_of split: if_splits)
  next
    case False
    obtain p' where p': "tx_left p' = None" "transfer_items [] p (content_of items ?rest ?m)
      = ([] @ items, p', Inr \<lparr>eb_stream = ?rest, eb_misc = read_misc ?m (payload items) (64 * parents items)\<rparr>)"
      using transfer_items_of [OF assms(2)] by blast
    moreover obtain u where "so_import_bao St s (ah_hash hdr) n items = (Inr u, s')"
      using assms(4) False by (auto split: prod.splits sum.splits)
    ultimately show ?thesis using hn False by (simp add: get_blob_ranges_impl_def)
  qed
qed
text \<open>The blob at an index as the client imports it.\<close>

abbreviation blobs_at :: "(nat \<Rightarrow> hash) \<Rightarrow> (nat \<Rightarrow> u64) \<Rightarrow> (nat \<Rightarrow> bao_content_item list) \<Rightarrow> nat list \<Rightarrow>
  (hash \<times> u64 \<times> bao_content_item list) list" where
  "blobs_at bh sz items is' \<equiv> map (\<lambda>i. (bh i, sz i, items i)) is'"

context range_set
begin

lemma after_blob_next:
  assumes "non_empty_next R (mi_ranges_iter m) = (Some (i, r), it)"
  shows "after_blob R \<lparr>eb_stream = rest, eb_misc = m\<rparr>
    = Inr \<lparr>ach_ranges = r, ach_reader = rest, ach_misc = m\<lparr>mi_ranges_iter := it\<rparr>, ach_offset = i\<rparr>"
  using assms by (simp add: after_blob_def end_blob_next_def Let_def)

lemma get_children_reads:
  assumes "sorted_offsets s" "k \<le> 2 ^ 64 - 1" "n < 2 ^ 64"
    and get: "\<And>j. k \<le> j \<Longrightarrow> j < 2 ^ 64 \<Longrightarrow> hash_seq_get hs (unat (of_nat j - base)) = (if j < n then Some (bh j) else None)"
    and dec: "\<And>i. i \<in> set (indexes R s k n) \<Longrightarrow>
      decodes decode (bh i) (seq_at R s (of_nat i)) (sz i) (items i)"
    and "import_all St (blobs_at bh sz items (indexes R s k n)) st = Some st'" "tx_left p = None"
    and "mi_ranges_iter m = non_empty_at R s k"
  shows "\<exists>closing p'. tx_left p' = None \<and>
    get_children R St decode hs base (after_blob R \<lparr>eb_stream = \<lparr>rv_bytes = response_wire sz items (indexes R s k n), rv_error = None\<rparr>, eb_misc = m\<rparr>) st p
      = (Inr closing, st', p') \<and>
    closing_next closing = Inr (counted (mi_counters m) (response_payload items (indexes R s k n)) (response_other items (indexes R s k n)))"
  using assms(2) get dec assms(6-8)
proof (induction "2 ^ 64 - 1 - k" arbitrary: k st p m rule: less_induct)
  case less
  show ?case using assms(1) less.prems(1)
  proof (cases rule: non_empty_cases)
    case (Next j)
    have dec: "2 ^ 64 - 1 - Suc j < 2 ^ 64 - 1 - k" and lej: "Suc j \<le> 2 ^ 64 - 1" using Next(1,2) by simp_all
    have before: "rs_is_empty R (seq_at R s (of_nat i))" if "k \<le> i" "i < j" for i
      using Next(4) [OF that] by (simp add: is_empty_iff)
    have ne: "\<not> rs_is_empty R (seq_at R s (of_nat j))" using Next(3) by (simp add: is_empty_iff)
    have nxt: "non_empty_next R (mi_ranges_iter m) = (Some (of_nat j, seq_at R s (of_nat j)), non_empty_at R s (Suc j))"
      using Next(5) less.prems(6) by simp
    note ab = after_blob_next [OF nxt]
    show ?thesis
    proof (cases "j < n")
      case True
      have idx: "indexes R s k n = j # indexes R s (Suc j) n" using Next(1) True ne before by (rule indexes_next)
      let ?h = "bh j" and ?rest = "response_wire sz items (indexes R s (Suc j) n)"
      let ?child = "\<lparr>ach_ranges = seq_at R s (of_nat j), ach_reader = \<lparr>rv_bytes = blob_wire (sz j) (items j) @ ?rest, rv_error = None\<rparr>,
        ach_misc = m\<lparr>mi_ranges_iter := non_empty_at R s (Suc j)\<rparr>, ach_offset = of_nat j\<rparr>"
      let ?hdr = "start_child_next ?child ?h"
      let ?m = "read_misc (m\<lparr>mi_ranges_iter := non_empty_at R s (Suc j)\<rparr>) (payload (items j)) (8 + 64 * parents (items j))"
      have get: "hash_seq_get hs (unat (of_nat j - base)) = Some ?h"
        using less.prems(2) [OF Next(1)] True Next(2) by simp
      have d: "decodes decode (ah_hash ?hdr) (ah_ranges ?hdr) (sz j) (items j)"
        using less.prems(3) [of j] by (simp add: idx start_child_next_def)
      obtain st1 where st1: "import_all St [(?h, sz j, items j)] st = Some st1"
        "import_all St (blobs_at bh sz items (indexes R s (Suc j) n)) st1 = Some st'"
        using import_all_split [OF less.prems(4) [unfolded idx list.map]] by blast
      obtain p1 where p1: "tx_left p1 = None" "get_blob_ranges_impl St decode ?hdr ?h st p
        = (Inr \<lparr>eb_stream = \<lparr>rv_bytes = ?rest, rv_error = None\<rparr>, eb_misc = ?m\<rparr>, st1, p1)"
        using get_blob_ranges_of [OF d less.prems(5), of ?rest None St st st1] st1(1) by (auto simp: start_child_next_def)
      have eq: "get_children R St decode hs base (Inr ?child) st p = get_children R St decode hs base (after_blob R
          \<lparr>eb_stream = \<lparr>rv_bytes = ?rest, rv_error = None\<rparr>, eb_misc = ?m\<rparr>) st1 p1"
        using get p1(2) by (subst get_children.simps) simp
      have "mi_ranges_iter ?m = non_empty_at R s (Suc j)" by simp
      from less.hyps [OF dec lej _ _ st1(2) p1(1) this] less.prems(2,3) Next(1) show ?thesis
        using eq by (simp add: idx ab)
    next
      case False
      then have idx: "indexes R s k n = []" using before by (intro indexes_empty) simp
      have "hash_seq_get hs (unat (of_nat j - base)) = None" using less.prems(2) [OF Next(1)] False Next(2) by simp
      then show ?thesis using less.prems(4,5)
        by (simp add: idx ab get_children.simps start_child_finish_def closing_next_def)
    qed
  next
    case (Ended it)
    then have "indexes R s k n = []" using assms(3) by (intro indexes_empty) (simp add: is_empty_iff)
    moreover have "after_blob R \<lparr>eb_stream = rest, eb_misc = m\<rparr>
        = Inl \<lparr>acl_misc = m\<lparr>mi_ranges_iter := it\<rparr>, acl_reader = rest, acl_check_extra_data = True\<rparr>" for rest
      using Ended(2) less.prems(6) by (simp add: after_blob_def end_blob_next_def Let_def)
    ultimately show ?thesis using less.prems(4,5)
      by (simp add: get_children.simps closing_next_def)
  qed
qed

end
text \<open>The connection has somebody at its end who answers a message with the given bytes.\<close>

definition answering :: "bytes \<Rightarrow> connection \<Rightarrow> bytes \<Rightarrow> bool" where
  "answering msg conn bs \<longleftrightarrow> (case conn of Inl _ \<Rightarrow> False | Inr peer \<Rightarrow>
     pe_write peer msg = None \<and> \<not> pe_closed peer \<and> pe_response peer msg = \<lparr>rv_bytes = bs, rv_error = None\<rparr>)"

text \<open>\<open>execute_get_sink\<close> behind the root.\<close>

definition get_rest ::
  "'r range_ops \<Rightarrow> ('r, 's) store_ops \<Rightarrow> 'r decode \<Rightarrow> hash \<Rightarrow> ('r at_closing + 'r at_start_child) \<Rightarrow> 's \<Rightarrow> u64 sender \<Rightarrow>
   (get_failure + stats) \<times> 's \<times> u64 sender" where
  "get_rest R St decode root nxt s p =
     (case nxt of
        Inl closing \<Rightarrow> finish_get (Inr closing, s, p)
      | Inr child \<Rightarrow>
          (case so_get_bytes St s root of
             Inl _ \<Rightarrow> (Inl (GetFails LocalFailure), s, p)
           | Inr bs \<Rightarrow>
               (case hash_seq_new bs of
                  None \<Rightarrow> (Inl (GetFails BadRequest), s, p)
                | Some hs \<Rightarrow> finish_get (get_children R St decode hs 1 (Inr child) s p))))"

context range_set
begin

lemma execute_get_sink_next:
  assumes "ser (Get req) = Some msg" "length msg \<le> unat MAX_MESSAGE_SIZE" "answering msg conn bs"
    and "m = \<lparr>mi_counters = counters_default\<lparr>other_bytes_written := of_nat (length msg)\<rparr>, mi_ranges_iter = it\<rparr>"
    and "rd = \<lparr>rv_bytes = bs, rv_error = None\<rparr>"
    and nxt: "non_empty_next R (iter_non_empty_infinite R (gr_ranges req)) = (x, it)"
  shows "execute_get_sink R St ser decode conn req s p =
    (case x of
       None \<Rightarrow> get_rest R St decode (gr_hash req) (Inl \<lparr>acl_misc = m, acl_reader = rd, acl_check_extra_data = True\<rparr>) s p
     | Some (i, r) \<Rightarrow>
         if i = 0 then
           (case get_blob_ranges_impl St decode \<lparr>ah_ranges = r, ah_reader = rd, ah_misc = m, ah_hash = gr_hash req\<rparr> (gr_hash req) s p of
              (Inl e, s, p) \<Rightarrow> (Inl (GetFails e), s, p)
            | (Inr end', s, p) \<Rightarrow> get_rest R St decode (gr_hash req) (after_blob R end') s p)
         else get_rest R St decode (gr_hash req) (Inr \<lparr>ach_ranges = r, ach_reader = rd, ach_misc = m, ach_offset = i\<rparr>) s p)"
proof -
  obtain peer where peer: "conn = Inr peer" "pe_write peer msg = None" "\<not> pe_closed peer" "pe_response peer msg = rd"
    using assms(3,5) by (auto simp: answering_def split: sum.splits)
  have c: "counters_default\<lparr>other_bytes_written := other_bytes_written counters_default + of_nat (length msg)\<rparr>
      = counters_default\<lparr>other_bytes_written := of_nat (length msg)\<rparr>" by (simp add: counters_default_def)
  have cn: "connected_next R ser \<lparr>ac_stream = peer, ac_request = req, ac_counters = counters_default\<rparr> = Inr
      (case x of None \<Rightarrow> ConnectedClosing \<lparr>acl_misc = m, acl_reader = rd, acl_check_extra_data = True\<rparr>
       | Some (i, r) \<Rightarrow> if i = 0 then StartRoot \<lparr>ar_ranges = r, ar_reader = rd, ar_misc = m, ar_hash = gr_hash req\<rparr>
           else StartChild \<lparr>ach_ranges = r, ach_reader = rd, ach_misc = m, ach_offset = i\<rparr>)"
    using assms(1,2,4) peer c nxt by (simp add: connected_next_def Let_def split: option.split)
  have "rbind (or_fail get_error_from_connection (initial_next (fsm_start conn req counters_default)))
      (\<lambda>connected. or_fail get_error_from_connected (connected_next R ser connected)) = Inr
      (case x of None \<Rightarrow> ConnectedClosing \<lparr>acl_misc = m, acl_reader = rd, acl_check_extra_data = True\<rparr>
       | Some (i, r) \<Rightarrow> if i = 0 then StartRoot \<lparr>ar_ranges = r, ar_reader = rd, ar_misc = m, ar_hash = gr_hash req\<rparr>
           else StartChild \<lparr>ach_ranges = r, ach_reader = rd, ach_misc = m, ach_offset = i\<rparr>)"
    using cn peer(1) by (simp add: fsm_start_def initial_next_def or_fail_def)
  then show ?thesis
    by (cases x) (auto simp: execute_get_sink_def Let_def get_rest_def start_root_next_def split: prod.split sum.split)
qed

lemma get_rest_reads:
  assumes "sorted_offsets s" "length (hash_seq_iter hs) < 2 ^ 64 - 1" "hash_seq_new hs = Some hs"
    and is': "is' = indexes R s (Suc 0) (Suc (length (hash_seq_iter hs)))" and bh: "bh = blob_at root (hash_seq_iter hs)"
    and "\<And>i. i \<in> set is' \<Longrightarrow> decodes decode (bh i) (seq_at R s (of_nat i)) (sz i) (items i)"
    and "import_all St (blobs_at bh sz items is') st = Some st'" "tx_left p = None"
    and seq: "wants_children R s \<Longrightarrow> so_get_bytes St st root = Inr hs"
    and it: "mi_ranges_iter m = non_empty_at R s (Suc 0)"
  shows "\<exists>p'. tx_left p' = None \<and> get_rest R St decode root
      (after_blob R \<lparr>eb_stream = \<lparr>rv_bytes = response_wire sz items is', rv_error = None\<rparr>, eb_misc = m\<rparr>) st p
    = (Inr (counted (mi_counters m) (response_payload items is') (response_other items is')), st', p')"
proof -
  let ?nxt = "after_blob R \<lparr>eb_stream = \<lparr>rv_bytes = response_wire sz items is', rv_error = None\<rparr>, eb_misc = m\<rparr>"
  have get: "hash_seq_get hs (unat (of_nat j - 1 :: u64)) = (if j < Suc (length (hash_seq_iter hs)) then Some (bh j) else None)"
    if "Suc 0 \<le> j" "j < 2 ^ 64" for j using hash_seq_get_at [of j hs root] that bh by simp
  obtain closing p' where cl: "tx_left p' = None" "get_children R St decode hs 1 ?nxt st p = (Inr closing, st', p')"
    "closing_next closing = Inr (counted (mi_counters m) (response_payload items is') (response_other items is'))"
    using get_children_reads [OF assms(1), of "Suc 0" "Suc (length (hash_seq_iter hs))" hs 1 bh decode sz items St st st' p m,
        folded is'] get assms(2,6-8) it by auto
  show ?thesis
  proof (cases ?nxt)
    case (Inl c)
    then show ?thesis using cl by (auto simp: get_rest_def finish_get_def or_fail_def get_children.simps)
  next
    case (Inr child)
    have "wants_children R s"
    proof (rule ccontr)
      assume "\<not> wants_children R s"
      then have "fst (non_empty_next R (non_empty_at R s (Suc 0))) = None"
        by (intro non_empty_next_exhausted [OF assms(1)]) (auto simp: wants_children_def is_empty_iff)
      then show False using Inr it by (auto simp: after_blob_def end_blob_next_def Let_def split: prod.splits)
    qed
    then show ?thesis using cl Inr seq assms(3) by (auto simp: get_rest_def finish_get_def or_fail_def)
  qed
qed

lemma execute_get_reads:
  assumes so: "sorted_offsets (gr_ranges req)" "length (hash_seq_iter hs) < 2 ^ 64 - 1" "hash_seq_new hs = Some hs"
    and is': "is' = indexes R (gr_ranges req) 0 (Suc (length (hash_seq_iter hs)))"
    and bh: "bh = blob_at (gr_hash req) (hash_seq_iter hs)"
    and msg: "ser (Get req) = Some msg" "length msg \<le> unat MAX_MESSAGE_SIZE" "answering msg conn (response_wire sz items is')"
    and dec: "\<And>i. i \<in> set is' \<Longrightarrow> decodes decode (bh i) (seq_at R (gr_ranges req) (of_nat i)) (sz i) (items i)"
    and imp: "import_all St (blobs_at bh sz items is') s = Some s'" and p: "tx_left p = None"
    and seq: "\<And>s1. wants_children R (gr_ranges req) \<Longrightarrow>
      import_all St (blobs_at bh sz items (filter (\<lambda>i. i = 0) is')) s = Some s1 \<Longrightarrow> so_get_bytes St s1 (gr_hash req) = Inr hs"
    and c: "c = counters_default\<lparr>other_bytes_written := of_nat (length msg)\<rparr>"
  shows "\<exists>p'. tx_left p' = None \<and> execute_get_sink R St ser decode conn req s p =
    (Inr (counted c (response_payload items is') (response_other items is')), s', p')"
proof -
  let ?s = "gr_ranges req" and ?n = "Suc (length (hash_seq_iter hs))" and ?root = "gr_hash req"
  let ?is = "indexes R ?s (Suc 0) ?n" and ?m = "\<lparr>mi_counters = c, mi_ranges_iter = non_empty_at R ?s (Suc 0)\<rparr>"
  have rest0: "filter (\<lambda>i. i = 0) ?is = []" by (auto simp: indexes_def filter_empty_conv)
  show ?thesis
  proof (cases "rs_is_empty R (seq_at R ?s 0)")
    case False
    have idx: "is' = 0 # ?is" using False unfolding is' by (intro indexes_next) simp_all
    have b0: "bh 0 = ?root" by (simp add: bh blob_at_def)
    obtain s1 where s1: "import_all St [(?root, sz 0, items 0)] s = Some s1" "import_all St (blobs_at bh sz items ?is) s1 = Some s'"
      using import_all_split [OF imp [unfolded idx list.map b0]] by blast
    let ?hdr = "\<lparr>ah_ranges = seq_at R ?s 0, ah_reader = \<lparr>rv_bytes = response_wire sz items is', rv_error = None\<rparr>,
      ah_misc = ?m, ah_hash = ?root\<rparr>"
    let ?m1 = "read_misc ?m (payload (items 0)) (8 + 64 * parents (items 0))"
    have "decodes decode ?root (seq_at R ?s 0) (sz 0) (items 0)" using dec [of 0] idx b0 by simp
    then obtain p1 where p1: "tx_left p1 = None" "get_blob_ranges_impl St decode ?hdr ?root s p
        = (Inr \<lparr>eb_stream = \<lparr>rv_bytes = response_wire sz items ?is, rv_error = None\<rparr>, eb_misc = ?m1\<rparr>, s1, p1)"
      using get_blob_ranges_of [of decode ?hdr "sz 0" "items 0" p "response_wire sz items ?is" None St s s1] p s1(1) idx by auto
    have nxt: "non_empty_next R (iter_non_empty_infinite R ?s) = (Some (0, seq_at R ?s 0), non_empty_at R ?s (Suc 0))"
      using non_empty_next_step [OF so(1), of 0 R] False by (simp add: non_empty_at_0)
    have "so_get_bytes St s1 ?root = Inr hs" if "wants_children R ?s"
      using seq [OF that, of s1] s1(1) idx rest0 b0 by simp
    then obtain p2 where "tx_left p2 = None" "get_rest R St decode ?root
        (after_blob R \<lparr>eb_stream = \<lparr>rv_bytes = response_wire sz items ?is, rv_error = None\<rparr>, eb_misc = ?m1\<rparr>) s1 p1
      = (Inr (counted (mi_counters ?m1) (response_payload items ?is) (response_other items ?is)), s', p2)"
      using get_rest_reads [OF so refl bh, of decode sz items St s1 s' p1 ?m1] dec idx s1(2) p1(1) by auto
    then show ?thesis
      using execute_get_sink_next [where ser = ser and req = req and m = ?m, OF msg _ refl nxt, of St decode s p] c p1(2) idx by (auto simp: add.assoc)
  next
    case True
    have idx: "is' = ?is" using True by (simp add: is' indexes_def upt_conv_Cons del: upt_Suc)
    have "import_all St (blobs_at bh sz items (filter (\<lambda>i. i = 0) is')) s = Some s" by (simp add: idx rest0)
    then have "so_get_bytes St s ?root = Inr hs" if "wants_children R ?s" using seq that by blast
    then obtain p2 where p2: "tx_left p2 = None" "get_rest R St decode ?root
        (after_blob R \<lparr>eb_stream = \<lparr>rv_bytes = response_wire sz items ?is, rv_error = None\<rparr>, eb_misc = ?m\<rparr>) s p
      = (Inr (counted c (response_payload items ?is) (response_other items ?is)), s', p2)"
      using get_rest_reads [OF so refl bh, of decode sz items St s s' p ?m] dec idx imp p by auto
    show ?thesis using so(1) le0
    proof (cases rule: non_empty_cases)
      case (Next j)
      have "0 < j" using Next(3) True by (cases j) (simp_all add: is_empty_iff)
      moreover have j: "unat (of_nat j :: u64) = j" using Next(2) by (intro unat_of_nat_u64) simp
      ultimately have nz: "of_nat j \<noteq> (0 :: u64)" and "Suc 0 \<le> j" by auto
      have "non_empty_next R (non_empty_at R ?s (Suc 0)) = (Some (of_nat j, seq_at R ?s (of_nat j)), non_empty_at R ?s (Suc j))"
        using non_empty_next_finds [OF so(1) \<open>Suc 0 \<le> j\<close> Next(2,3)] Next(4) by simp
      then show ?thesis
        using execute_get_sink_next [where ser = ser and req = req and m = "\<lparr>mi_counters = c, mi_ranges_iter = non_empty_at R ?s (Suc j)\<rparr>",
            OF msg _ refl Next(5) [folded non_empty_at_0], of St decode s p] c p2 nz idx
        by (auto simp: after_blob_def end_blob_next_def Let_def)
    next
      case (Ended it)
      then have "is' = []" using so(2) unfolding is' by (intro indexes_empty) (simp add: is_empty_iff)
      then show ?thesis
        using execute_get_sink_next [where ser = ser and req = req and m = "\<lparr>mi_counters = c, mi_ranges_iter = it\<rparr>",
            OF msg _ refl Ended(2) [folded non_empty_at_0], of St decode s p] c imp p
        by (simp add: get_rest_def finish_get_def closing_next_def or_fail_def)
    qed
  qed
qed

end
section \<open>Both ends\<close>

text \<open>
  What a peer reads of a stream that has been handled: the response, or that the stream was reset.
\<close>

fun stream_answer :: "'r stream_end \<Rightarrow> recv_stream" where
  "stream_answer (Served w _) = \<lparr>rv_bytes = pw_out w, rv_error = None\<rparr>"
| "stream_answer (RequestRefused code) = \<lparr>rv_bytes = [], rv_error = Some (ReadReset code)\<rparr>"
| "stream_answer _ = \<lparr>rv_bytes = [], rv_error = None\<rparr>"

text \<open>The stream on which a message arrives, and a connection to a provider.\<close>

definition with_message :: "'r stream_pair \<Rightarrow> bytes \<Rightarrow> 'r stream_pair" where
  "with_message sp msg = sp\<lparr>sp_reader := \<lparr>rv_bytes = msg, rv_error = None\<rparr>\<rparr>"

definition provider_connection ::
  "'r range_ops \<Rightarrow> ('r, 's) store_ops \<Rightarrow> ('r, recv_stream) stream_ops \<Rightarrow> 'r decode \<Rightarrow> ('r observe_item \<Rightarrow> bytes) \<Rightarrow>
   (hash \<Rightarrow> 'r observe_event list) \<Rightarrow> 's \<Rightarrow> 'r stream_pair \<Rightarrow> connection" where
  "provider_connection R St S decode enc observed st sp =
     Inr \<lparr>pe_write = \<lambda>_. None, pe_closed = False,
          pe_response = \<lambda>msg. stream_answer (fst (handle_stream R St S decode enc observed st (with_message sp msg)))\<rparr>"

text \<open>
  A provider that neither reports requests nor throttles them nor has its stream stopped, and that
  can read the message of a get request.
\<close>

definition plain_provider :: "('r, recv_stream) stream_ops \<Rightarrow> 'r stream_pair \<Rightarrow> bytes \<Rightarrow> 'r get_request \<Rightarrow> bool" where
  "plain_provider S sp msg req \<longleftrightarrow> em_get (es_mask (sp_events sp)) = ReqNone \<and> em_throttle (es_mask (sp_events sp)) = ThrottleNone
     \<and> sp_left sp = None \<and> (\<exists>n. read_async S \<lparr>rv_bytes = msg, rv_error = None\<rparr> = Inr ((Get req, n), \<lparr>rv_bytes = [], rv_error = None\<rparr>))"

text \<open>The store has everything that is requested: the hash sequence, and an export at every index.\<close>

definition can_serve ::
  "'r range_ops \<Rightarrow> ('r, 's) store_ops \<Rightarrow> 's \<Rightarrow> 'r get_request \<Rightarrow> hash_seq \<Rightarrow> (nat \<Rightarrow> u64) \<Rightarrow> (nat \<Rightarrow> bao_content_item list) \<Rightarrow> bool" where
  "can_serve R St st req hs sz items \<longleftrightarrow> length (hash_seq_iter hs) < 2 ^ 64 - 1 \<and> hash_seq_new hs = Some hs
     \<and> (wants_children R (gr_ranges req) \<longrightarrow> so_get_bytes St st (gr_hash req) = Inr hs)
     \<and> (\<forall>i\<in>set (indexes R (gr_ranges req) 0 (Suc (length (hash_seq_iter hs)))).
          so_export_bao St st (blob_at (gr_hash req) (hash_seq_iter hs) i) (seq_at R (gr_ranges req) (of_nat i)) = export_of (sz i) (items i))"

lemma handle_stream_get:
  assumes r: "range_set R" and "sorted_offsets (gr_ranges req)" "plain_provider S sp msg req" "can_serve R St st req hs sz items"
    and is': "is' = indexes R (gr_ranges req) 0 (Suc (length (hash_seq_iter hs)))"
  shows "\<exists>w. handle_stream R St S decode enc observed st (with_message sp msg) = (Served w None, st) \<and> pw_out w = response_wire sz items is'
    \<and> wc_payload_bytes_written (pw_context w) = of_nat (response_payload items is')
    \<and> wc_other_bytes_written (pw_context w) = of_nat (response_other items is')"
proof -
  obtain n where ra: "read_async S (sp_reader (with_message sp msg)) = Inr ((Get req, n), \<lparr>rv_bytes = [], rv_error = None\<rparr>)"
    using assms(3) by (auto simp: plain_provider_def with_message_def)
  define sp' where "sp' = (with_message sp msg)\<lparr>sp_reader := \<lparr>rv_bytes = [], rv_error = None\<rparr>,
    sp_other_bytes_read := sp_other_bytes_read (with_message sp msg) + n\<rparr>"
  define t :: "'a request_tracker" where "t = \<lparr>rt_updates = NoUpdates, rt_throttle = None\<rparr>"
  have tracked: "es_request (sp_events (with_message sp msg)) (Get req) (sp_connection_id (with_message sp msg))
      (sp_request_id (with_message sp msg)) = Inr t"
    using assms(3) by (simp add: plain_provider_def with_message_def es_request_def create_tracker_def t_def Let_def)
  obtain w0 where w0: "into_writer sp' t = Inr w0" "quiet w0" "pw_out w0 = []" "wc_payload_bytes_written (pw_context w0) = 0"
      "wc_other_bytes_written (pw_context w0) = 0"
    using assms(3) by (auto simp: into_writer_def sp'_def quiet_def t_def plain_provider_def with_message_def)
  let ?w = "written w0 (response_wire sz items is') (response_payload items is') (response_other items is')"
  have "handle_get R St st req w0 = (?w, None)"
    using assms(4) by (intro range_set.handle_get_serves [OF r assms(2) _ w0(2) _ is'])
      (auto simp: can_serve_def is' load_hash_seq_def)
  moreover have "writer_completed ?w = ?w"
    using send_update_quiet [of ?w] w0(2) by (simp add: writer_completed_def transfer_completed_def Let_def)
  ultimately have "handle_stream R St S decode enc observed st (with_message sp msg) = (Served ?w None, st)"
    using ra tracked w0(1) by (simp add: handle_stream_def Let_def sp'_def [symmetric] serve_def)
  then show ?thesis using w0 by (simp add: written_def)
qed

lemma get_exchange:
  assumes "range_set R" "sorted_offsets (gr_ranges req)"
    and "plain_provider S sp msg req" "can_serve R St st req hs sz items"
    and is': "is' = indexes R (gr_ranges req) 0 (Suc (length (hash_seq_iter hs)))"
    and bh: "bh = blob_at (gr_hash req) (hash_seq_iter hs)"
    and "ser (Get req) = Some msg" "length msg \<le> unat MAX_MESSAGE_SIZE"
    and "\<forall>i\<in>set is'. decodes decode (bh i) (seq_at R (gr_ranges req) (of_nat i)) (sz i) (items i)"
    and "import_all StC (blobs_at bh sz items is') s = Some s'" and "tx_left p = None"
    and "\<forall>s1. wants_children R (gr_ranges req) \<longrightarrow> import_all StC (blobs_at bh sz items (filter (\<lambda>i. i = 0) is')) s = Some s1
      \<longrightarrow> so_get_bytes StC s1 (gr_hash req) = Inr hs"
  shows "\<exists>w p'. handle_stream R St S decode enc observed st (with_message sp msg) = (Served w None, st) \<and>
    execute_get_sink R StC ser decode (provider_connection R St S decode enc observed st sp) req s p =
      (Inr \<lparr>payload_bytes_written = 0, other_bytes_written = of_nat (length msg),
            payload_bytes_read = wc_payload_bytes_written (pw_context w), other_bytes_read = wc_other_bytes_written (pw_context w)\<rparr>, s', p') \<and>
    wc_payload_bytes_written (pw_context w) = of_nat (sum_list (map (\<lambda>i. payload (items i)) is')) \<and> tx_left p' = None"
proof -
  obtain w where w: "handle_stream R St S decode enc observed st (with_message sp msg) = (Served w None, st)"
    "pw_out w = response_wire sz items is'" "wc_payload_bytes_written (pw_context w) = of_nat (response_payload items is')"
    "wc_other_bytes_written (pw_context w) = of_nat (response_other items is')"
    using handle_stream_get [OF assms(1-4) is'] by blast
  have "answering msg (provider_connection R St S decode enc observed st sp) (response_wire sz items is')"
    using w(1,2) by (simp add: answering_def provider_connection_def)
  then have "\<exists>p'. tx_left p' = None \<and> execute_get_sink R StC ser decode (provider_connection R St S decode enc observed st sp) req s p =
      (Inr (counted (counters_default\<lparr>other_bytes_written := of_nat (length msg)\<rparr>) (response_payload items is') (response_other items is')), s', p')"
    using assms(4,9,12)
    by (intro range_set.execute_get_reads [where ser = ser and req = req and hs = hs and bh = bh, OF assms(1,2) _ _ is' bh assms(7,8) _ _ assms(10,11)])
      (auto simp: can_serve_def)
  then show ?thesis using w by (auto simp: counted_def counters_default_def response_payload_def)
qed

end
