(* ===== verification/Download.thy ===== *)
theory Download
  imports Get_Transfer Gc
begin

text \<open>
  Downloads between memory stores: a client fetches a blob, or a hash sequence with all its
  children, from a provider that has it. The protocol of \<open>Get_Transfer\<close> runs between the memory store of
  the provider and that of the client; afterwards the client can read everything it asked for.
\<close>

section \<open>The encoding of a blob\<close>

text \<open>
  What is relied on of \<open>bao-tree\<close>: the encoding of all of a blob has the size and then the items of
  the whole blob, decoding it gives them back, and the encoding of no chunks has no leaves.
\<close>

definition encoding :: "'r range_ops \<Rightarrow> io_ops \<Rightarrow> 'r traverse \<Rightarrow> 'r decode \<Rightarrow> bytes \<Rightarrow> bao_content_item list \<Rightarrow> bool" where
  "encoding R Io tr decode d items \<longleftrightarrow>
     tr d (outboard_load Io (of_nat (length d)) (io_outboard Io d)) (io_root Io d) (rs_all R) = export_of (of_nat (length d)) items
     \<and> (if d = [] then parents items = 0 else whole_items Io d items) \<and> decodes decode (io_root Io d) (rs_all R) (of_nat (length d)) items"

locale bao_codec = download_laws R B Io tr for R :: "'r range_ops" and B and Io and tr :: "'r traverse" +
  fixes decode :: "'r decode"
  assumes encode: "length d < 2 ^ 64 \<Longrightarrow> \<exists>items. encoding R Io tr decode d items"
    and encode_nothing: "hashes_with_index (tr data ob h (rs_empty R)) = [] \<or> (\<exists>e. hashes_with_index (tr data ob h (rs_empty R)) = [Inl e])"

text \<open>
  A provider with all of the requested blobs, whose contents are given by \<open>D\<close>, and a client that
  has nothing of them or has them already.
\<close>

definition holds_all :: "io_ops \<Rightarrow> 'r mem_state \<Rightarrow> (hash \<Rightarrow> bytes) \<Rightarrow> hash set \<Rightarrow> bool" where
  "holds_all Io s D H \<longleftrightarrow> mem_entries_ok s \<and> (\<forall>h\<in>H. mem_has Io s h (D h) \<and> length (D h) < 2 ^ 64)"

definition can_receive :: "'r range_ops \<Rightarrow> io_ops \<Rightarrow> 'r mem_state \<Rightarrow> (hash \<Rightarrow> bytes) \<Rightarrow> hash set \<Rightarrow> bool" where
  "can_receive R Io s D H \<longleftrightarrow> mem_entries_ok s \<and> (\<forall>h\<in>H. mem_blank R s h \<or> mem_has Io s h (D h))"

text \<open>The hash sequence of a request, if it has children.\<close>

definition request_seq :: "'r range_ops \<Rightarrow> (hash \<Rightarrow> bytes) \<Rightarrow> 'r get_request \<Rightarrow> hash_seq" where
  "request_seq R D req = (if wants_children R (gr_ranges req) then D (gr_hash req) else [])"

abbreviation request_indexes :: "'r range_ops \<Rightarrow> (hash \<Rightarrow> bytes) \<Rightarrow> 'r get_request \<Rightarrow> nat list" where
  "request_indexes R D req \<equiv> indexes R (gr_ranges req) 0 (Suc (length (hash_seq_iter (request_seq R D req))))"

abbreviation request_blob :: "'r range_ops \<Rightarrow> (hash \<Rightarrow> bytes) \<Rightarrow> 'r get_request \<Rightarrow> nat \<Rightarrow> hash" where
  "request_blob R D req \<equiv> blob_at (gr_hash req) (hash_seq_iter (request_seq R D req))"

text \<open>A request for whole blobs whose hash sequence can be read by both ends.\<close>

definition whole_request :: "'r range_ops \<Rightarrow> (hash \<Rightarrow> bytes) \<Rightarrow> 'r get_request \<Rightarrow> bool" where
  "whole_request R D req \<longleftrightarrow> sorted_offsets (gr_ranges req)
     \<and> (\<forall>i<2 ^ 64 - 1. seq_at R (gr_ranges req) (of_nat i) \<in> {rs_empty R, rs_all R})
     \<and> hash_seq_new (request_seq R D req) = Some (request_seq R D req)
     \<and> length (hash_seq_iter (request_seq R D req)) < 2 ^ 64 - 1
     \<and> (wants_children R (gr_ranges req) \<longrightarrow> \<not> rs_is_empty R (seq_at R (gr_ranges req) 0))"

context bao_codec
begin

lemma payload_leaves: "payload items = length (concat (map snd (leaves_of (export_of n items))))"
proof -
  have "length (concat (map snd (leaves_of (map enc_item items @ [EncDone])))) = payload items"
  proof (induction items)
    case (Cons item items)
    then show ?case by (cases item) simp_all
  qed simp
  then show ?thesis by (simp add: export_of_def)
qed

text \<open>The items of every blob.\<close>

lemma encoded_items: "\<exists>items. \<forall>d. length d < 2 ^ 64 \<longrightarrow> encoding R Io tr decode d (items d) \<and> payload (items d) = length d"
proof -
  have "payload items = length d" if "encoding R Io tr decode d items" for d items
    using that traverse [OF refl, of d] payload_leaves [of items "of_nat (length d)"] by (simp add: encoding_def)
  then show ?thesis using encode by metis
qed

lemma importable_encoded:
  fixes sP :: "'r mem_state"
  assumes "mem_entries_ok sP" "mem_has Io sP h (D h)" "length (D h) < 2 ^ 64" "encoding R Io tr decode (D h) items"
    and "mem_blank R sC h \<or> mem_has Io sC h (D h)"
  shows "md.importable D sC (h, of_nat (length (D h)), items)"
proof -
  have "of_nat (length (D h)) = (0 :: u64) \<longleftrightarrow> D h = []" using unat_of_nat_u64 [OF assms(3)] by auto
  moreover have "h \<noteq> hash_empty" if "D h \<noteq> []" using md.has_empty [OF assms(1)] md.has_unique assms(2) that by metis
  moreover have root: "h = io_root Io (D h)" using assms(2) by (simp add: mem_has_def)
  moreover have "h = hash_empty" if "D h = []" using root that root_empty by simp
  ultimately show ?thesis using assms(4,5) by (auto simp: md.importable_def whole_blob_def encoding_def)
qed

text \<open>
  What a transfer of whole blobs relies on holds for two memory stores: the provider can serve the
  request, the client decodes and imports everything, and finds the hash sequence it has imported.
\<close>

lemma whole_setting:
  assumes w: "whole_request R D req" and bh: "bh = request_blob R D req" and is': "is' = request_indexes R D req"
    and P: "holds_all Io sP D (bh ` set is')" and C: "can_receive R Io sC D (bh ` set is')"
  shows "\<exists>sz items s'. can_serve R (mem_store_ops R B Io tr) sP req (request_seq R D req) sz items
    \<and> (\<forall>i\<in>set is'. decodes decode (bh i) (seq_at R (gr_ranges req) (of_nat i)) (sz i) (items i))
    \<and> import_all (mem_store_ops R B Io tr) (blobs_at bh sz items is') sC = Some s'
    \<and> (\<forall>s1. wants_children R (gr_ranges req) \<longrightarrow> import_all (mem_store_ops R B Io tr) (blobs_at bh sz items (filter (\<lambda>i. i = 0) is')) sC = Some s1
      \<longrightarrow> so_get_bytes (mem_store_ops R B Io tr) s1 (gr_hash req) = Inr (request_seq R D req))
    \<and> map (\<lambda>i. payload (items i)) is' = map (\<lambda>i. length (D (bh i))) is'
    \<and> mem_entries_ok s' \<and> (\<forall>i\<in>set is'. mem_has Io s' (bh i) (D (bh i))) \<and> (\<forall>h d. mem_has Io sC h d \<longrightarrow> mem_has Io s' h d)"
proof -
  let ?St = "mem_store_ops R B Io tr" and ?hs = "request_seq R D req"
  obtain enc_items where enc_items: "\<And>d. length d < 2 ^ 64 \<Longrightarrow> encoding R Io tr decode d (enc_items d) \<and> payload (enc_items d) = length d"
    using encoded_items by blast
  then have e: "\<And>d. length d < 2 ^ 64 \<Longrightarrow>
      tr d (outboard_load Io (of_nat (length d)) (io_outboard Io d)) (io_root Io d) (rs_all R) = export_of (of_nat (length d)) (enc_items d)"
    "\<And>d. length d < 2 ^ 64 \<Longrightarrow> d \<noteq> [] \<Longrightarrow> whole_items Io d (enc_items d)"
    "\<And>d. length d < 2 ^ 64 \<Longrightarrow> decodes decode (io_root Io d) (rs_all R) (of_nat (length d)) (enc_items d)"
    "\<And>d. length d < 2 ^ 64 \<Longrightarrow> payload (enc_items d) = length d"
    by (simp_all add: encoding_def)
  define items where "items i = enc_items (D (bh i))" for i
  define sz :: "nat \<Rightarrow> u64" where "sz i = of_nat (length (D (bh i)))" for i
  have so: "sorted_offsets (gr_ranges req)" and hs: "hash_seq_new ?hs = Some ?hs" "length (hash_seq_iter ?hs) < 2 ^ 64 - 1"
    using w by (auto simp: whole_request_def)
  have all: "seq_at R (gr_ranges req) (of_nat i) = rs_all R" if "i \<in> set is'" for i
  proof -
    have "i < 2 ^ 64 - 1" "seq_at R (gr_ranges req) (of_nat i) \<noteq> rs_empty R"
      using that hs(2) by (auto simp: is' set_indexes is_empty_iff)
    then show ?thesis using w by (auto simp: whole_request_def)
  qed
  have P1: "mem_entries_ok sP" "mem_has Io sP (bh i) (D (bh i))" "length (D (bh i)) < 2 ^ 64" if "i \<in> set is'" for i
    using P that by (auto simp: holds_all_def)
  have root: "bh i = io_root Io (D (bh i))" if "i \<in> set is'" for i using P1(2) [OF that] by (simp add: mem_has_def)
  have okP: "mem_entries_ok sP" and okC: "mem_entries_ok sC" using P C by (auto simp: holds_all_def can_receive_def)
  have zero: "0 \<in> set is'" if "wants_children R (gr_ranges req)" using that w by (auto simp: whole_request_def is' set_indexes)
  have b0: "bh 0 = gr_hash req" by (simp add: bh blob_at_def)
  have exports: "so_export_bao ?St sP (bh i) (seq_at R (gr_ranges req) (of_nat i)) = export_of (sz i) (items i)" if "i \<in> set is'" for i
    using mem_export_has [OF okP P1(2) [OF that] outboard_empty] e(1) [OF P1(3) [OF that]] all [OF that]
    by (simp add: mem_store_ops_def sz_def items_def)
  have "so_get_bytes ?St sP (gr_hash req) = Inr ?hs" if "wants_children R (gr_ranges req)"
    using md.get_has [OF okP P1(2) [OF zero [OF that]]] that b0 by (simp add: request_seq_def)
  then have serve: "can_serve R ?St sP req ?hs sz items"
    using hs exports unfolding can_serve_def is' [symmetric] bh [symmetric] by blast
  have imp: "md.importable D sC (bh i, sz i, items i)" if "i \<in> set is'" for i
    using importable_encoded [where h = "bh i" and D = D, OF okP P1(2,3) [OF that]] enc_items [OF P1(3) [OF that]] C that
    by (auto simp: can_receive_def sz_def items_def)
  obtain s' where s': "import_all ?St (blobs_at bh sz items is') sC = Some s'" "mem_entries_ok s'"
    "\<forall>i\<in>set is'. mem_has Io s' (bh i) (D (bh i))" "\<forall>h d. mem_has Io sC h d \<longrightarrow> mem_has Io s' h d"
    using md.import_all_whole [OF okC, of "blobs_at bh sz items is'" D] imp by auto
  have seq: "so_get_bytes ?St s1 (gr_hash req) = Inr ?hs" if "wants_children R (gr_ranges req)"
    "import_all ?St (blobs_at bh sz items (filter (\<lambda>i. i = 0) is')) sC = Some s1" for s1
  proof -
    have "mem_entries_ok s1" "mem_has Io s1 (bh 0) (D (bh 0))"
      using md.import_all_whole [OF okC, of "blobs_at bh sz items (filter (\<lambda>i. i = 0) is')" D] imp that zero by auto
    then show ?thesis using md.get_has that(1) b0 by (simp add: request_seq_def)
  qed
  have dec: "\<forall>i\<in>set is'. decodes decode (bh i) (seq_at R (gr_ranges req) (of_nat i)) (sz i) (items i)"
  proof
    fix i assume i: "i \<in> set is'"
    show "decodes decode (bh i) (seq_at R (gr_ranges req) (of_nat i)) (sz i) (items i)"
      using e(3) [OF P1(3) [OF i], folded root [OF i]] all [OF i] by (simp add: sz_def items_def)
  qed
  have "map (\<lambda>i. payload (items i)) is' = map (\<lambda>i. length (D (bh i))) is'" using e(4) P1(3) by (simp add: items_def)
  with serve dec s' seq show ?thesis by blast
qed

lemma download_whole:
  assumes w: "whole_request R D req" and bh: "bh = request_blob R D req" and is': "is' = request_indexes R D req"
    and P: "holds_all Io sP D (bh ` set is')" and C: "can_receive R Io sC D (bh ` set is')"
    and msg: "ser (Get req) = Some msg" "length msg \<le> unat MAX_MESSAGE_SIZE" "plain_provider S sp msg req" and p: "tx_left p = None"
  shows "\<exists>stats s' p'. execute_get_sink R (mem_store_ops R B Io tr) ser decode
      (provider_connection R (mem_store_ops R B Io tr) S decode enc observed sP sp) req sC p = (Inr stats, s', p')
    \<and> payload_bytes_read stats = of_nat (sum_list (map (\<lambda>i. length (D (bh i))) is')) \<and> tx_left p' = None
    \<and> mem_entries_ok s' \<and> (\<forall>i\<in>set is'. mem_has Io s' (bh i) (D (bh i))) \<and> (\<forall>h d. mem_has Io sC h d \<longrightarrow> mem_has Io s' h d)"
proof -
  let ?St = "mem_store_ops R B Io tr"
  have so: "sorted_offsets (gr_ranges req)" using w by (simp add: whole_request_def)
  from whole_setting [OF w bh is' P C] obtain sz items s' where t: "can_serve R ?St sP req (request_seq R D req) sz items"
    "\<forall>i\<in>set is'. decodes decode (bh i) (seq_at R (gr_ranges req) (of_nat i)) (sz i) (items i)"
    "import_all ?St (blobs_at bh sz items is') sC = Some s'"
    "\<forall>s1. wants_children R (gr_ranges req) \<longrightarrow> import_all ?St (blobs_at bh sz items (filter (\<lambda>i. i = 0) is')) sC = Some s1
      \<longrightarrow> so_get_bytes ?St s1 (gr_hash req) = Inr (request_seq R D req)"
    and l: "map (\<lambda>i. payload (items i)) is' = map (\<lambda>i. length (D (bh i))) is'"
    and s': "mem_entries_ok s'" "\<forall>i\<in>set is'. mem_has Io s' (bh i) (D (bh i))" "\<forall>h d. mem_has Io sC h d \<longrightarrow> mem_has Io s' h d"
    by blast
  from get_exchange [where ser = ser and req = req and bh = bh, OF range_set_axioms so msg(3) t(1) is' bh msg(1,2) t(2,3) p t(4), of enc observed]
  show ?thesis using l s' by (auto simp del: import_all.simps)
qed

end
section \<open>Fetching from scratch\<close>

context range_set
begin

lemma bf_ranges_empty: "bf_ranges (bf_empty R) = rs_empty R"
  by (simp add: bf_empty_def)

lemma validated_empty: "validated_size R B (bf_empty R) = None"
  by (auto simp: validated_size_def is_validated_def bf_empty_def is_all_iff rs_eq_iff contains_simps)

lemma all_neq_empty: "rs_all R \<noteq> rs_empty R" "rs_empty R \<noteq> rs_all R"
  by (simp_all add: rs_eq_iff contains_simps)

lemma seq_all_next:
  assumes "k < 2 ^ 64 - 1"
  shows "non_empty_next R (non_empty_at R (seq_all R) k) = (Some (of_nat k, rs_all R), non_empty_at R (seq_all R) (Suc k))"
proof -
  have "seq_at R (seq_all R) i = rs_all R" for i by (simp add: seq_all_def seq_at_def last_ranges_def)
  moreover have "sorted_offsets (seq_all R)" by (simp add: seq_all_def)
  ultimately show ?thesis using non_empty_next_step [of "seq_all R" k R] assms by (simp add: is_empty_iff all_neq_empty)
qed

text \<open>With nothing there, what is missing is the request itself.\<close>

lemma missing_all:
  assumes "li = \<lparr>li_request = get_request_all R h, li_bitfield = bf_empty R, li_children = Some \<lparr>nr_hash_seq = [], nr_bitfields = []\<rparr>\<rparr>"
  shows "missing R B li = Some (get_request_all R h)" and "local_is_complete R B li = Some False" and "\<exists>n. local_bytes R B li = Some n"
proof -
  let ?s = "seq_all R"
  have rr: "requested_root_ranges R li = Some (rs_all R)"
    by (simp add: assms requested_root_ranges_def get_request_all_def iter_finite_def finite_next_def seq_all_def)
  then show "\<exists>n. local_bytes R B li = Some n" by (simp add: local_bytes_def assms bt_last_def Let_def)
  have sub: "\<not> rs_is_subset R (rs_all R) (bf_ranges (bf_empty R))" by (simp add: bf_empty_def is_subset_iff contains_simps)
  then show "local_is_complete R B li = Some False" using rr by (simp add: local_is_complete_def assms)
  let ?b = "grb_child R (grb_root R [] (rs_all R)) 0 (rs_all R)"
  have known: "missing_known R \<lparr>nr_hash_seq = [], nr_bitfields = []\<rparr> 0 (grb_root R [] (rs_all R)) (non_empty_at R ?s 0)
      = Some (?b, non_empty_at R ?s 2)"
    by (subst missing_known.simps, subst seq_all_next, simp, simp, subst missing_known.simps)
      (simp add: seq_all_next [of "Suc 0", simplified] bt_get_def numeral_2_eq_2)
  have at_end: "is_at_end (ne_inner (non_empty_at R ?s 3))"
    by (simp add: non_empty_at_def is_at_end_def iter_at_def seq_all_def)
  have rest: "missing_rest R None h ?b (non_empty_at R ?s 2) = grb_build_open R (grb_child R ?b 1 (rs_all R)) h"
  proof -
    have "non_empty_next R (non_empty_at R ?s 2) = (Some (2, rs_all R), non_empty_at R ?s 3)"
      "non_empty_next R (non_empty_at R ?s 3) = (Some (3, rs_all R), non_empty_at R ?s 4)"
      using seq_all_next [of 2] seq_all_next [of 3] by simp_all
    then show ?thesis using at_end by (subst missing_rest.simps) simp
  qed
  have "grb_build_open R (grb_child R ?b 1 (rs_all R)) h = get_request_all R h"
    by (simp add: grb_build_open_def builder_build_open_def build0_def grb_child_def grb_root_def builder_offset_def at_offset_def
        bt_upsert_def bt_get_def bt_retain_def next_offset_value_def bt_last_def bt_remove_def is_empty_iff all_neq_empty
        from_ranges_infinite_def from_ranges_inner_def get_request_new_def get_request_all_def seq_all_def upt_rec last_ranges_def)
  then show "missing R B li = Some (get_request_all R h)"
    using rr known rest
    by (simp add: missing_def assms Let_def non_empty_at_0 validated_empty bt_last_def get_request_all_def bf_ranges_empty)
qed

lemma missing_blob:
  assumes "li = \<lparr>li_request = get_request_blob R h, li_bitfield = bf_empty R, li_children = None\<rparr>"
  shows "missing R B li = Some (get_request_blob R h)" and "local_is_complete R B li = Some False" and "\<exists>n. local_bytes R B li = Some n"
proof -
  have s: "gr_ranges (get_request_blob R h) = [(0, rs_all R), (1, rs_empty R)]"
    by (simp add: get_request_blob_def from_ranges_def from_ranges_inner_def last_ranges_def all_neq_empty is_empty_iff)
  have rr: "requested_root_ranges R li = Some (rs_all R)"
    by (simp add: assms requested_root_ranges_def s iter_finite_def finite_next_def)
  then show "\<exists>n. local_bytes R B li = Some n" by (simp add: local_bytes_def assms Let_def)
  have sub: "\<not> rs_is_subset R (rs_all R) (bf_ranges (bf_empty R))" by (simp add: bf_empty_def is_subset_iff contains_simps)
  then show "local_is_complete R B li = Some False" using rr by (simp add: local_is_complete_def assms)
  show "missing R B li = Some (get_request_blob R h)"
    using rr by (simp add: missing_def assms Let_def bf_empty_def)
      (simp add: grb_build_def builder_build_def build0_def grb_root_def builder_offset_def at_offset_def
        bt_upsert_def bt_get_def bt_retain_def next_offset_value_def bt_last_def bt_remove_def is_empty_iff all_neq_empty
        get_request_new_def get_request_blob_def)
qed

lemma is_blob_requests: "is_blob R (gr_ranges (get_request_blob R h))" "\<not> is_blob R (gr_ranges (get_request_all R h))"
  by (simp_all add: get_request_blob_def get_request_all_def from_ranges_def from_ranges_inner_def last_ranges_def all_neq_empty is_empty_iff
      is_blob_def as_single_def seq_all_def)

end

text \<open>Observing a blob of which nothing is there makes an empty entry.\<close>

lemma mem_observe_blank:
  assumes "mem_entries_ok s" "mem_blank R s h"
  shows "\<exists>s'. mem_observe R B Io tr s h = (Inr (bf_empty R), s') \<and> mem_entries_ok s' \<and> mem_blank R s' = mem_blank R s
    \<and> mem_has Io s' = mem_has Io s \<and> entry_of s' h = Some (new_partial R)"
proof -
  obtain a s1 where g: "get_or_create_entry R h s = (a, s1)" by (metis surj_pair)
  have h: "h \<noteq> hash_empty" using assms(2) by (simp add: mem_blank_def)
  have t: "ms_tasks s1 = ms_tasks s" using g by (auto simp: get_or_create_entry_def split: if_splits option.splits)
  have st: "bh_state (ms_heap s1 a) = new_partial R"
    using entry_created [OF h g] assms(2) by (auto simp: mem_blank_def split: option.splits)
  let ?ev = "spawn (TObserve 0 a (Some 1)) s1" and ?s1 = "s1\<lparr>ms_tasks := ms_tasks s @ [TObserve 0 a (Some 0)]\<rparr>"
  have r1: "run_task R B Io tr (length (ms_tasks s)) ?ev = Some (?s1, [(0, RBitfield (bf_empty R))])"
    using st by (simp add: run_task_def poll_task.simps t spawn_def new_partial_def)
  obtain s2 out where r2: "run_task R B Io tr (length (ms_tasks s)) ?s1 = Some (s2, out)" "ms_heap s2 = ms_heap s1" "ms_data s2 = ms_data s1"
    "ms_next s2 = ms_next s1" "ms_empty_hash s2 = ms_empty_hash s1" "ms_tasks s2 = ms_tasks s"
    by (cases "ms_tasks s = []") (simp_all add: run_task_def poll_task.simps handle_task_result_def remove_nth_def)
  have "run_last_task R B Io tr 2 (length (ms_tasks s)) ?ev = Some (s2, (0, RBitfield (bf_empty R)) # out)"
    using r1 r2 by (simp add: numeral_2_eq_2 spawn_def t)
  then have o: "mem_observe R B Io tr s h = (Inr (bf_empty R), s2)" using g by (simp add: mem_observe_def)
  have "ms_heap s2 = (ms_heap s1)(a := (ms_heap s1 a)\<lparr>bh_state := new_partial R\<rparr>)" using st r2(2) by (simp flip: st)
  note up = entry_update [OF assms(1) h g this r2(3-5)]
  have "mem_blank R s2 = mem_blank R s" "mem_has Io s2 = mem_has Io s"
    using up(2) assms(2) by (auto simp: mem_blank_def mem_has_def fun_eq_iff new_partial_def split: option.splits)
  with o up show ?thesis by simp
qed
text \<open>The blobs of a hash and format: the root, and for a hash sequence its children.\<close>

definition content_list :: "(hash \<Rightarrow> bytes) \<Rightarrow> hash_and_format \<Rightarrow> hash list" where
  "content_list D what = hf_hash what # (case hf_format what of Raw \<Rightarrow> [] | HashSeq \<Rightarrow> hash_seq_iter (D (hf_hash what)))"

lemma blob_at_map: "map (blob_at root xs) [0..<Suc (length xs)] = root # xs"
  by (rule nth_equalityI) (auto simp: blob_at_def nth_Cons simp del: upt_Suc split: nat.split)

context range_set
begin

lemma request_fields:
  "gr_hash (get_request_all R h) = h" "gr_hash (get_request_blob R h) = h" "gr_ranges (get_request_all R h) = seq_all R"
  "gr_ranges (get_request_blob R h) = [(0, rs_all R), (1, rs_empty R)]"
  by (simp_all add: get_request_all_def get_request_blob_def from_ranges_def from_ranges_inner_def last_ranges_def all_neq_empty is_empty_iff)

lemma seq_at_requests:
  "seq_at R (gr_ranges (get_request_all R h)) i = rs_all R"
  "seq_at R (gr_ranges (get_request_blob R h)) i = (if i = 0 then rs_all R else rs_empty R)"
proof -
  show "seq_at R (gr_ranges (get_request_all R h)) i = rs_all R" by (simp add: request_fields seq_all_def seq_at_def last_ranges_def)
  have "1 \<le> i \<longleftrightarrow> i \<noteq> 0" by (simp add: word_le_nat_alt Suc_le_eq unat_gt_0)
  then show "seq_at R (gr_ranges (get_request_blob R h)) i = (if i = 0 then rs_all R else rs_empty R)"
    by (auto simp: request_fields seq_at_def last_ranges_def)
qed

lemma request_root:
  "sorted_offsets (gr_ranges (get_request_from R what))" "seq_at R (gr_ranges (get_request_from R what)) 0 = rs_all R"
proof -
  let ?s = "gr_ranges (get_request_from R what)"
  have "sorted_offsets ?s \<and> seq_at R ?s 0 = rs_all R"
  proof (cases "hf_format what")
    case Raw
    then have "get_request_from R what = get_request_blob R (hf_hash what)" by (simp add: get_request_from_def)
    then show ?thesis by (simp add: seq_at_requests) (simp add: request_fields)
  next
    case HashSeq
    then have "get_request_from R what = get_request_all R (hf_hash what)" by (simp add: get_request_from_def)
    then show ?thesis by (simp add: seq_at_requests) (simp add: request_fields seq_all_def)
  qed
  then show "sorted_offsets ?s" "seq_at R ?s 0 = rs_all R" by blast+
qed

lemma whole_request_from:
  assumes "hf_format what = HashSeq \<longrightarrow> hash_seq_new (D (hf_hash what)) = Some (D (hf_hash what)) \<and> length (D (hf_hash what)) < 2 ^ 64"
    and req: "req = get_request_from R what"
  shows "whole_request R D req" and "map (request_blob R D req) (request_indexes R D req) = content_list D what"
proof -
  let ?h = "hf_hash what"
  have "whole_request R D req \<and> map (request_blob R D req) (request_indexes R D req) = content_list D what"
  proof (cases "hf_format what")
    case Raw
    then have r: "req = get_request_blob R ?h" by (simp add: req get_request_from_def)
    have "of_nat i \<noteq> (0 :: u64)" if "0 < i" "i < 2 ^ 64 - 1" for i using that unat_of_nat_u64 [of i] by auto
    then have w: "\<not> wants_children R (gr_ranges req)" by (auto simp: wants_children_def r seq_at_requests is_empty_iff)
    have hs: "hash_seq_iter [] = []" by (simp add: hash_seq_iter_def)
    have "request_indexes R D req = [0]" using w by (simp add: request_seq_def hs indexes_def r seq_at_requests is_empty_iff all_neq_empty)
    moreover have "sorted_offsets (gr_ranges req)" by (simp add: r request_fields)
    ultimately show ?thesis using w Raw
      by (simp add: whole_request_def r seq_at_requests request_seq_def hash_seq_new_def hs content_list_def blob_at_def request_fields(2))
  next
    case HashSeq
    then have r: "req = get_request_all R ?h" by (simp add: req get_request_from_def)
    have w: "wants_children R (gr_ranges req)"
      by (auto simp: wants_children_def r seq_at_requests is_empty_iff all_neq_empty intro!: exI [of _ 1])
    have "length (hash_seq_iter (D ?h)) \<le> length (D ?h) div 32" by (simp add: hash_seq_iter_def length_chunks_exact)
    also have "\<dots> < 2 ^ 64 - 1" using assms(1) HashSeq by (auto simp: div_less_iff_less_mult)
    finally have l: "length (hash_seq_iter (D ?h)) < 2 ^ 64 - 1" .
    have q: "request_seq R D req = D ?h" using w by (simp add: request_seq_def r request_fields)
    have "request_indexes R D req = [0..<Suc (length (hash_seq_iter (D ?h)))]"
      unfolding q by (simp add: indexes_def r seq_at_requests is_empty_iff all_neq_empty del: upt_Suc)
    moreover have "sorted_offsets (gr_ranges req)" by (simp add: r request_fields seq_all_def)
    ultimately show ?thesis using w HashSeq q l assms(1) blob_at_map [of ?h "hash_seq_iter (D ?h)"]
      by (simp add: whole_request_def r seq_at_requests content_list_def request_fields(1) is_empty_iff all_neq_empty del: upt_Suc)
  qed
  then show "whole_request R D req" and "map (request_blob R D req) (request_indexes R D req) = content_list D what" by blast+
qed

end

context bao_codec
begin

lemma local_from_scratch:
  assumes "mem_entries_ok s" "mem_blank R s (hf_hash what)"
  shows "\<exists>s' li. remote_local R (mem_store_ops R B Io tr) what s = (Inr li, s') \<and> mem_entries_ok s' \<and> mem_blank R s' = mem_blank R s
    \<and> mem_has Io s' = mem_has Io s \<and> missing R B li = Some (get_request_from R what) \<and> local_is_complete R B li = Some False
    \<and> (\<exists>n. local_bytes R B li = Some n)"
proof -
  let ?h = "hf_hash what" and ?St = "mem_store_ops R B Io tr"
  obtain s' where s': "mem_observe R B Io tr s ?h = (Inr (bf_empty R), s')" "mem_entries_ok s'" "mem_blank R s' = mem_blank R s"
    "mem_has Io s' = mem_has Io s" "entry_of s' ?h = Some (new_partial R)" using mem_observe_blank [OF assms] by blast
  show ?thesis
  proof (cases "hf_format what")
    case Raw
    then show ?thesis using s' missing_blob [OF refl, of B ?h]
      by (simp add: remote_local_def get_request_from_def local_for_request_def mem_store_ops_def is_blob_requests [of ?h] request_fields(1,2))
  next
    case HashSeq
    let ?export = "mem_export_bao R Io tr s' ?h (rs_empty R)" and ?ch = "\<lparr>nr_hash_seq = [], nr_bitfields = []\<rparr>"
    obtain data ob h where "?export = tr data ob h (rs_empty R)"
      using s'(5) by (auto simp: mem_export_bao_def entry_of_def export_bao_def)
    then have none: "collect_by_index (hashes_with_index ?export) = []"
      using encode_nothing [of data ob h] by (auto simp: collect_by_index_def)
    have one: "non_empty_next R (non_empty_at R (seq_all R) 1) = (Some (1, rs_all R), non_empty_at R (seq_all R) 2)"
      "non_empty_next R (non_empty_at R (seq_all R) 2) = (Some (2, rs_all R), non_empty_at R (seq_all R) 3)"
      using seq_all_next [of 1] seq_all_next [of 2] by (simp_all del: One_nat_def add: Suc_1)
    have "local_loop R ?St [] 0 ?ch (non_empty_at R (seq_all R) 0) s' = (Inr ?ch, s')"
      using seq_all_next [of 0] one
      by (subst local_loop.simps, simp, subst local_loop.simps, simp add: bt_get_def, subst local_loop.simps) simp
    then show ?thesis using HashSeq s' none missing_all [OF refl, of B ?h]
      by (simp add: remote_local_def get_request_from_def local_for_request_def mem_store_ops_def is_blob_requests(2) [of ?h, unfolded request_fields(3)] bf_ranges_empty Let_def
          non_empty_at_0 bt_last_def request_fields)
  qed
qed

end
context bao_codec
begin

lemma download_content:
  assumes P: "holds_all Io sP D (set (content_list D what))" and C: "can_receive R Io sC D (set (content_list D what))"
    and hs: "hf_format what = HashSeq \<longrightarrow> hash_seq_new (D (hf_hash what)) = Some (D (hf_hash what))"
    and req: "req = get_request_from R what"
    and msg: "ser (Get req) = Some msg" "length msg \<le> unat MAX_MESSAGE_SIZE" "plain_provider S sp msg req" and p: "tx_left p = None"
  shows "\<exists>stats s' p'. execute_get_sink R (mem_store_ops R B Io tr) ser decode
      (provider_connection R (mem_store_ops R B Io tr) S decode enc observed sP sp) req sC p = (Inr stats, s', p')
    \<and> payload_bytes_read stats = of_nat (sum_list (map (\<lambda>h. length (D h)) (content_list D what))) \<and> tx_left p' = None
    \<and> (\<forall>h\<in>set (content_list D what). get_bytes R Io tr s' h = Inr (D h)) \<and> (\<forall>h d. mem_has Io sC h d \<longrightarrow> get_bytes R Io tr s' h = Inr d)"
proof -
  let ?St = "mem_store_ops R B Io tr" and ?root = "hf_hash what"
  have "hf_format what = HashSeq \<longrightarrow> hash_seq_new (D ?root) = Some (D ?root) \<and> length (D ?root) < 2 ^ 64"
    using hs P by (auto simp: holds_all_def content_list_def)
  note w = whole_request_from [where D = D and what = what, OF this req]
  let ?bh = "request_blob R D req" and ?is = "request_indexes R D req"
  have img: "?bh ` set ?is = set (content_list D what)" using w(2) by (metis list.set_map)
  have "can_receive R Io sC D (?bh ` set ?is)" using C img by simp
  from download_whole [where D = D and req = req and ser = ser, OF w(1) refl refl _ this msg p, of sP enc observed] P img
  obtain stats s' p' where d: "execute_get_sink R ?St ser decode (provider_connection R ?St S decode enc observed sP sp) req sC p = (Inr stats, s', p')"
    "payload_bytes_read stats = of_nat (sum_list (map (\<lambda>i. length (D (?bh i))) ?is))" "tx_left p' = None" "mem_entries_ok s'"
    "\<forall>i\<in>set ?is. mem_has Io s' (?bh i) (D (?bh i))" "\<forall>h d. mem_has Io sC h d \<longrightarrow> mem_has Io s' h d" by metis
  have "map (\<lambda>i. length (D (?bh i))) ?is = map (\<lambda>h. length (D h)) (content_list D what)" unfolding w(2) [symmetric] by simp
  moreover have get: "get_bytes R Io tr s' h = Inr x" if "mem_has Io s' h x" for h x using get_bytes_has [OF d(4) that outboard_empty] .
  moreover have "get_bytes R Io tr s' h = Inr (D h)" if "h \<in> set (content_list D what)" for h
    using that d(5) get unfolding img [symmetric] by blast
  ultimately show ?thesis using d(1-3,6) by auto
qed

lemma fetch_from_scratch:
  assumes P: "holds_all Io sP D (set (content_list D what))" and C: "can_receive R Io sC D (set (content_list D what))"
    and "mem_blank R sC (hf_hash what)" and hs: "hf_format what = HashSeq \<longrightarrow> hash_seq_new (D (hf_hash what)) = Some (D (hf_hash what))"
    and req: "req = get_request_from R what"
    and msg: "ser (Get req) = Some msg" "length msg \<le> unat MAX_MESSAGE_SIZE" "plain_provider S sp msg req" and p: "tx_left p = None"
  shows "\<exists>stats s' p'. fetch_sink R B (mem_store_ops R B Io tr) ser decode
      (Some (provider_connection R (mem_store_ops R B Io tr) S decode enc observed sP sp)) what sC p = (Inr stats, s', p')
    \<and> payload_bytes_read stats = of_nat (sum_list (map (\<lambda>h. length (D h)) (content_list D what)))
    \<and> (\<forall>h\<in>set (content_list D what). get_bytes R Io tr s' h = Inr (D h)) \<and> (\<forall>h d. mem_has Io sC h d \<longrightarrow> get_bytes R Io tr s' h = Inr d)"
proof -
  let ?St = "mem_store_ops R B Io tr"
  have "mem_entries_ok sC" using C by (simp add: can_receive_def)
  from local_from_scratch [OF this assms(3)] obtain s1 li where s1: "remote_local R ?St what sC = (Inr li, s1)" "mem_entries_ok s1"
    "mem_blank R s1 = mem_blank R sC" "mem_has Io s1 = mem_has Io sC" "missing R B li = Some req" "local_is_complete R B li = Some False"
    using req by blast
  have "can_receive R Io s1 D (set (content_list D what))" using C s1(2-4) by (simp add: can_receive_def)
  from download_content [where ser = ser, OF P this hs req msg p, of enc observed] s1 show ?thesis
    by (auto simp: fetch_sink_def)
qed

end

section \<open>An instance\<close>

text \<open>A blob is encoded as one leaf.\<close>

definition ref_encode :: "rset traverse" where
  "ref_encode data outboard root ranges =
     (if ranges = rs_empty ref_ops then [EncSize (of_nat (length data)), EncDone] else ref_traverse data outboard root ranges)"

definition ref_decode :: "'r decode" where
  "ref_decode h ranges n s = \<lparr>dc_items = [Inr (Leaf 0 (take (unat n) (rv_bytes s)))], dc_reader = s\<lparr>rv_bytes := drop (unat n) (rv_bytes s)\<rparr>\<rparr>"

lemma decodes_ref: "length d < 2 ^ 64 \<Longrightarrow> decodes ref_decode h r (of_nat (length d)) [Leaf 0 d]"
  using unat_of_nat_u64 [of "length d"] by (simp add: decodes_def ref_decode_def)

lemma whole_items_ref: "length d < 2 ^ 64 \<Longrightarrow> d \<noteq> [] \<Longrightarrow> whole_items ref_io_empty d [Leaf 0 d]"
  by (auto simp: whole_items_def leaf_of_def in_leaf_def ref_io_empty_def ref_io_def)

lemma encoding_ref: "length d < 2 ^ 64 \<Longrightarrow> encoding ref_ops ref_io_empty ref_encode ref_decode d [Leaf 0 d]"
  using decodes_ref [of d] whole_items_ref [of d]
  by (cases "d = []") (simp_all add: encoding_def ref_encode_def ref_traverse_def ref.all_neq_empty export_of_def)

interpretation refbc: bao_codec ref_ops ref_chunk_ops ref_io_empty ref_encode ref_decode
proof -
  have "export_laws ref_ops ref_chunk_ops ref_io_empty ref_encode"
    using refdl.store_laws_axioms
    by (simp add: export_laws_def export_laws_axioms_def ref_encode_def ref_traverse_def ref.all_neq_empty)
  then have "download_laws ref_ops ref_chunk_ops ref_io_empty ref_encode"
    using refdl.root_empty refdl.outboard_empty by (simp add: download_laws_def download_laws_axioms_def)
  then show "bao_codec ref_ops ref_chunk_ops ref_io_empty ref_encode ref_decode"
    using encoding_ref by (auto simp: bao_codec_def bao_codec_axioms_def ref_encode_def intro!: exI)
qed
text \<open>A stream and a serialization that carry one get request, and a stream at the default provider.\<close>

definition ref_stream :: "'r get_request \<Rightarrow> ('r, recv_stream) stream_ops" where
  "ref_stream req =
     \<lparr>st_read_u8 = (\<lambda>s. case rv_bytes s of [] \<Rightarrow> Inl UnexpectedEof | b # bs \<Rightarrow> Inr (b, s\<lparr>rv_bytes := bs\<rparr>)),
      st_read_to_end = (\<lambda>s n. Inr (rv_bytes s, s\<lparr>rv_bytes := []\<rparr>)), st_read_prefixed = (\<lambda>s n. Inl InvalidData),
      pc_request_type = (\<lambda>b. Some RT_Get), pc_get = (\<lambda>bs. Some req), pc_get_many = (\<lambda>bs. None), pc_observe = (\<lambda>bs. None),
      pc_push_size = (\<lambda>r. 0)\<rparr>"

definition ref_stream_pair :: "'r stream_pair" where
  "ref_stream_pair = \<lparr>sp_connection_id = 0, sp_request_id = 0, sp_reader = \<lparr>rv_bytes = [], rv_error = None\<rparr>, sp_left = None, sp_closed = False,
     sp_other_bytes_read = 0, sp_events = event_sender_default\<rparr>"

lemma plain_ref_provider: "plain_provider (ref_stream req) ref_stream_pair [0] req"
  by (simp add: plain_provider_def ref_stream_pair_def event_sender_default_def event_mask_default_def read_async_def ref_stream_def
      read_to_end_as_def)

text \<open>A store with a hash sequence of one blob, and a new store.\<close>

definition example_content :: "hash \<Rightarrow> bytes" where
  "example_content h = (if h = inner_hash then as_bytes leaf_hash else [1])"

lemma example_list: "content_list example_content (hf_hash_seq inner_hash) = [inner_hash, leaf_hash]"
  by (simp add: content_list_def hf_hash_seq_sel hash_seq_iter_single example_content_def)

lemma empty_new_partial: "empty_storage (new_partial R)"
  by (simp add: empty_storage_def new_partial_def sparse_new_def bf_empty_def)

lemma example_holds: "holds_all ref_io_empty (two_seqs []) example_content (set (content_list example_content (hf_hash_seq inner_hash)))"
proof -
  have ok: "mem_entries_ok (two_seqs [])"
    using two_seqs_get(1) [of "[]"] empty_new_partial by (auto simp: mem_entries_ok_def two_seqs_get(2) simp del: One_nat_def split: if_splits)
  have ne: "as_bytes leaf_hash \<noteq> []" using length_as_bytes [of leaf_hash] by (metis list.size(3) zero_neq_numeral)
  have roots: "io_root ref_io_empty [1] = leaf_hash" "io_root ref_io_empty (as_bytes leaf_hash) = inner_hash"
    "io_outboard ref_io_empty x = []" for x
    using ne by (simp_all add: ref_io_empty_def leaf_hash_def inner_hash_def) (simp add: ref_io_def)
  show ?thesis
    using ok by (auto simp: example_list holds_all_def mem_has_def roots entry_of_def two_seqs_mem_get example_content_def simp del: One_nat_def)
qed

lemma example_receives:
  "can_receive ref_ops ref_io_empty (mem_store_new ref_ops) example_content (set (content_list example_content (hf_hash_seq inner_hash)))"
proof -
  have "mem_entries_ok (mem_store_new ref_ops)" using empty_new_partial by (simp add: mem_entries_ok_def mem_store_new_def bt_get_def)
  then show ?thesis by (auto simp: example_list can_receive_def mem_blank_def entry_of_def mem_get_def mem_store_new_def bt_get_def)
qed

section \<open>Properties\<close>





end
