(* ===== verification/Push.thy ===== *)
theory Push
  imports Download
begin

text \<open>
  A push between the two ends: the client of \<open>Remote\<close> exports a blob, or a hash sequence with all its
  children, onto a stream, and the provider of \<open>Provider\<close> imports it.
\<close>

section \<open>The client\<close>

definition open_push :: "push_writer \<Rightarrow> bool" where
  "open_push w \<longleftrightarrow> pu_left w = None \<and> tx_left (pu_sender w) = None"

lemma push_items_open:
  "open_push w \<Longrightarrow> \<exists>w'. push_items w (map enc_item items @ [EncDone]) = (w', None) \<and> open_push w' \<and> pu_out w' = pu_out w @ concat (map item_wire items)"
proof (induction items arbitrary: w)
  case (Cons item items)
  show ?case
  proof (cases item)
    case (Leaf off d)
    let ?w = "w\<lparr>pu_out := pu_out w @ d, pu_payload_bytes_sent := pu_payload_bytes_sent w + of_nat (length d)\<rparr>"
    obtain tx where tx: "send (pu_sender w) (pu_payload_bytes_sent ?w) = Some tx" "tx_left tx = None"
      using send_takes Cons.prems by (metis open_push_def)
    have "open_push (?w\<lparr>pu_sender := tx\<rparr>)" using Cons.prems tx(2) by (simp add: open_push_def)
    from Cons.IH [OF this] Leaf tx(1) Cons.prems show ?thesis
      by (auto simp: push_write_def push_notify_def open_push_def Let_def)
  next
    case (Parent node l r)
    have "open_push (w\<lparr>pu_out := pu_out w @ as_bytes l @ as_bytes r\<rparr>)" using Cons.prems by (simp add: open_push_def)
    from Cons.IH [OF this] Parent Cons.prems show ?thesis by (auto simp: push_write_def open_push_def)
  qed
qed simp

lemma push_export_open:
  assumes "open_push w"
  shows "\<exists>w'. push_items w (export_of n items) = (w', None) \<and> open_push w' \<and> pu_out w' = pu_out w @ blob_wire n items"
proof -
  have "open_push (w\<lparr>pu_out := pu_out w @ to_le_bytes n\<rparr>)" using assms by (simp add: open_push_def)
  from push_items_open [OF this, of items] assms show ?thesis by (auto simp: export_of_def blob_wire_def push_write_def open_push_def)
qed

section \<open>The provider\<close>

lemma decoded_items: "decoded (map Inr items) = (items, None)"
  by (induction items) simp_all

lemma item_wire_length: "length (concat (map item_wire items)) = payload items + 64 * parents items"
proof (induction items)
  case (Cons item items)
  then show ?case by (cases item) simp_all
qed simp

text \<open>An empty blob has nothing behind its size, and nothing is read there.\<close>

lemma import_bao_reader_wire:
  assumes "decodes decode h r n items" "import_all St [(h, n, items)] s = Some s'" "n = 0 \<Longrightarrow> concat (map item_wire items) = []"
  shows "import_bao_reader St decode s h r \<lparr>rv_bytes = blob_wire n items @ rest, rv_error = e\<rparr> = (Inr \<lparr>rv_bytes = rest, rv_error = e\<rparr>, s')"
proof (cases "n = 0")
  case True
  then have "blob_wire n items = to_le_bytes 0" using assms(3) by (simp add: blob_wire_def)
  with True assms(2) show ?thesis
    by (simp add: import_bao_reader_def read_8_wire le_bytes_round_trip Let_def split: if_splits)
next
  case False
  then obtain u where "so_import_bao St s h n items = (Inr u, s')" using assms(2) by (auto split: prod.splits sum.splits)
  with False assms(1) show ?thesis
    by (simp add: import_bao_reader_def blob_wire_def read_8_wire le_bytes_round_trip Let_def decodes_def decoded_items)
qed

section \<open>Both loops\<close>

context range_set
begin

lemma push_children_all:
  assumes "open_push w" "k + length hs < 2 ^ 64" "\<forall>h\<in>set hs. so_export_bao St s h (rs_all R) = export_of (n h) (items h)"
  shows "\<exists>w'. push_children R St s hs (iter_at R (seq_all R) k) w = (w', None) \<and> open_push w'
    \<and> pu_out w' = pu_out w @ concat (map (\<lambda>h. blob_wire (n h) (items h)) hs)"
  using assms
proof (induction hs arbitrary: k w)
  case (Cons h hs)
  have nxt: "infinite_next (iter_at R (seq_all R) k) = (Some (rs_all R), iter_at R (seq_all R) (Suc k))"
    using infinite_next_iter_at [of "seq_all R" k R] Cons.prems(2) seq_at_requests(1) [unfolded request_fields(3)] by (simp add: seq_all_def)
  obtain w1 where w1: "push_items w (export_of (n h) (items h)) = (w1, None)" "open_push w1" "pu_out w1 = pu_out w @ blob_wire (n h) (items h)"
    using push_export_open [OF Cons.prems(1)] by blast
  from Cons.IH [OF w1(2), of "Suc k"] Cons.prems w1 nxt show ?case by (auto simp: is_empty_iff all_neq_empty)
qed simp

lemma handle_push_loop_all:
  assumes "k + length hs < 2 ^ 64" "\<forall>h\<in>set hs. decodes decode h (rs_all R) (n h) (items h) \<and> (n h = 0 \<longrightarrow> concat (map item_wire (items h)) = [])"
    and "import_all St (map (\<lambda>h. (h, n h, items h)) hs) s = Some s'"
  shows "handle_push_loop R St decode hs (iter_at R (seq_all R) k)
    \<lparr>rv_bytes = concat (map (\<lambda>h. blob_wire (n h) (items h)) hs), rv_error = e\<rparr> s = (None, s')"
  using assms
proof (induction hs arbitrary: k s)
  case (Cons h hs)
  have nxt: "infinite_next (iter_at R (seq_all R) k) = (Some (rs_all R), iter_at R (seq_all R) (Suc k))"
    using infinite_next_iter_at [of "seq_all R" k R] Cons.prems(1) seq_at_requests(1) [unfolded request_fields(3)] by (simp add: seq_all_def)
  obtain s1 where s1: "import_all St [(h, n h, items h)] s = Some s1" "import_all St (map (\<lambda>h. (h, n h, items h)) hs) s1 = Some s'"
    using import_all_split [OF Cons.prems(3) [unfolded list.map]] by blast
  have d: "decodes decode h (rs_all R) (n h) (items h)" "n h = 0 \<Longrightarrow> concat (map item_wire (items h)) = []" using Cons.prems(2) by auto
  show ?case
    using nxt import_bao_reader_wire [OF d(1) s1(1) d(2)] Cons.IH [OF _ _ s1(2), of "Suc k"] Cons.prems(1,2)
    by (simp add: is_empty_iff all_neq_empty)
qed simp

end


section \<open>Both ends\<close>

abbreviation push_wire :: "(hash \<Rightarrow> u64) \<Rightarrow> (hash \<Rightarrow> bao_content_item list) \<Rightarrow> hash list \<Rightarrow> bytes" where
  "push_wire n items hs \<equiv> concat (map (\<lambda>h. blob_wire (n h) (items h)) hs)"

context range_set
begin

lemma seq_all_at: "k < 2 ^ 64 \<Longrightarrow> infinite_next (iter_at R (seq_all R) k) = (Some (rs_all R), iter_at R (seq_all R) (Suc k))"
  using infinite_next_iter_at [of "seq_all R" k R] seq_at_requests(1) [unfolded request_fields(3)] by (simp add: seq_all_def)

lemma requested_root:
  assumes "req = get_request_from R what"
  shows "infinite_next (iter_infinite R (gr_ranges req)) = (Some (rs_all R), iter_at R (gr_ranges req) 1)"
    and "gr_hash req = hf_hash what" and "is_blob R (gr_ranges req) \<longleftrightarrow> hf_format what = Raw"
    and "hf_format what = HashSeq \<Longrightarrow> gr_ranges req = seq_all R"
proof -
  show "infinite_next (iter_infinite R (gr_ranges req)) = (Some (rs_all R), iter_at R (gr_ranges req) 1)"
    using infinite_next_iter_at [OF request_root(1), of 0 R what] request_root(2) by (simp add: assms iter_at_0)
  show "gr_hash req = hf_hash what" by (cases "hf_format what") (simp_all add: assms get_request_from_def request_fields(1,2))
  show "is_blob R (gr_ranges req) \<longleftrightarrow> hf_format what = Raw"
    by (cases "hf_format what") (simp_all add: assms get_request_from_def is_blob_requests)
  show "hf_format what = HashSeq \<Longrightarrow> gr_ranges req = seq_all R" by (simp add: assms get_request_from_def request_fields)
qed


lemma push_sends:
  assumes "open_push w" "req = get_request_from R what" "length (content_list D what) < 2 ^ 64"
    and "\<forall>h\<in>set (content_list D what). so_export_bao St s h (rs_all R) = export_of (n h) (items h)"
    and "hf_format what = HashSeq \<longrightarrow> load_hash_seq St s (hf_hash what) = Inr (D (hf_hash what))"
  shows "\<exists>w'. execute_push_sink R St ser s req w = (w', None) \<and> pu_out w' = pu_out w @ ser req @ push_wire n items (content_list D what)"
proof -
  note r = requested_root [OF assms(2)]
  let ?h = "hf_hash what" and ?w = "w\<lparr>pu_out := pu_out w @ ser req\<rparr>"
  have w: "push_write w (ser req) = Some ?w" "open_push ?w" using assms(1) by (auto simp: open_push_def push_write_def)
  from push_export_open [OF w(2)] obtain w1 where w1: "push_items ?w (export_of (n ?h) (items ?h)) = (w1, None)" "open_push w1"
    "pu_out w1 = pu_out w @ ser req @ blob_wire (n ?h) (items ?h)" by fastforce
  have ex: "so_export_bao St s ?h (rs_all R) = export_of (n ?h) (items ?h)" using assms(4) by (simp add: content_list_def)
  show ?thesis
  proof (cases "hf_format what")
    case Raw
    then show ?thesis using r w w1 ex by (simp add: execute_push_sink_def is_empty_iff all_neq_empty content_list_def)
  next
    case HashSeq
    have "\<exists>w'. push_children R St s (hash_seq_iter (D ?h)) (iter_at R (seq_all R) 1) w1 = (w', None) \<and> open_push w'
      \<and> pu_out w' = pu_out w1 @ push_wire n items (hash_seq_iter (D ?h))"
      using assms(3,4) HashSeq by (intro push_children_all [OF w1(2)]) (auto simp: content_list_def)
    then show ?thesis using r HashSeq w w1 ex assms(5) by (auto simp: execute_push_sink_def is_empty_iff all_neq_empty content_list_def)
  qed
qed

lemma push_received:
  assumes "req = get_request_from R what" "length (content_list D what) < 2 ^ 64"
    and dec: "\<forall>h\<in>set (content_list D what). decodes decode h (rs_all R) (n h) (items h) \<and> (n h = 0 \<longrightarrow> concat (map item_wire (items h)) = [])"
    and imp: "import_all St (map (\<lambda>h. (h, n h, items h)) (content_list D what)) s = Some s'"
    and "hf_format what = HashSeq \<longrightarrow> (\<forall>s1. import_all St [(hf_hash what, n (hf_hash what), items (hf_hash what))] s = Some s1
      \<longrightarrow> load_hash_seq St s1 (hf_hash what) = Inr (D (hf_hash what)))"
  shows "handle_push R St decode s req \<lparr>rv_bytes = push_wire n items (content_list D what), rv_error = e\<rparr> = (None, s')"
proof -
  note r = requested_root [OF assms(1)]
  let ?h = "hf_hash what"
  obtain rest where c: "content_list D what = ?h # rest" by (simp add: content_list_def)
  obtain s1 where s1: "import_all St [(?h, n ?h, items ?h)] s = Some s1" "import_all St (map (\<lambda>h. (h, n h, items h)) rest) s1 = Some s'"
    using import_all_split [OF imp [unfolded c list.map]] by auto
  have d: "decodes decode ?h (rs_all R) (n ?h) (items ?h)" "n ?h = 0 \<Longrightarrow> concat (map item_wire (items ?h)) = []"
    using dec by (simp_all add: c)
  have root: "import_bao_reader St decode s ?h (rs_all R) \<lparr>rv_bytes = push_wire n items (content_list D what), rv_error = e\<rparr>
      = (Inr \<lparr>rv_bytes = push_wire n items rest, rv_error = e\<rparr>, s1)"
    using import_bao_reader_wire [OF d(1) s1(1) d(2)] by (simp add: c)
  show ?thesis
  proof (cases "hf_format what")
    case Raw
    then have "rest = []" using c by (simp add: content_list_def)
    then show ?thesis using r root s1(2) Raw by (simp add: handle_push_def is_empty_iff all_neq_empty)
  next
    case HashSeq
    then have rest: "hash_seq_iter (D ?h) = rest" using c by (simp add: content_list_def)
    have "handle_push_loop R St decode rest (iter_at R (seq_all R) 1) \<lparr>rv_bytes = push_wire n items rest, rv_error = e\<rparr> s1 = (None, s')"
      using assms(2) dec s1(2) by (intro handle_push_loop_all) (simp_all add: c)
    then show ?thesis using r root s1 HashSeq rest assms(5) by (simp add: handle_push_def is_empty_iff all_neq_empty)
  qed
qed

end

text \<open>The provider's side of the stream: the message of a push request can be read, and what follows is left.\<close>

definition reads_push :: "('r, recv_stream) stream_ops \<Rightarrow> ('r get_request \<Rightarrow> bytes) \<Rightarrow> 'r get_request \<Rightarrow> bool" where
  "reads_push S ser req \<longleftrightarrow> (\<forall>rest. \<exists>n. read_async S \<lparr>rv_bytes = ser req @ rest, rv_error = None\<rparr>
     = Inr ((Push req, n), \<lparr>rv_bytes = rest, rv_error = None\<rparr>))"

text \<open>
  A provider takes a push: its events accept the request, and the writer of the stream can be finished.
\<close>

definition takes_push :: "'r stream_pair \<Rightarrow> 'r get_request \<Rightarrow> bool" where
  "takes_push sp req \<longleftrightarrow> \<not> isl (es_request (sp_events sp) (Push req) (sp_connection_id sp) (sp_request_id sp)) \<and> \<not> sp_closed sp"

text \<open>
  Whether a push is accepted is decided by the mode for get requests, so that the default mask, which
  says that push requests are disabled, accepts every push.
\<close>

lemma default_mask_takes_push:
  "es_mask (sp_events sp) = event_mask_default \<Longrightarrow> \<not> sp_closed sp \<Longrightarrow> em_push (es_mask (sp_events sp)) = ReqDisabled \<and> takes_push sp req"
  by (simp add: takes_push_def es_request_def event_mask_default_def)

lemma disabled_get_refuses_push: "em_get (es_mask (sp_events sp)) = ReqDisabled \<Longrightarrow> \<not> takes_push sp req"
  by (simp add: takes_push_def es_request_def)

lemma handle_stream_push:
  assumes "reads_push S ser req" "takes_push sp req"
    and "handle_push R St decode s req \<lparr>rv_bytes = rest, rv_error = None\<rparr> = (None, s')"
  shows "\<exists>t. handle_stream R St S decode enc observed s (with_message sp (ser req @ rest)) = (Pushed t None, s')"
proof -
  obtain n where "read_async S \<lparr>rv_bytes = ser req @ rest, rv_error = None\<rparr> = Inr ((Push req, n), \<lparr>rv_bytes = rest, rv_error = None\<rparr>)"
    using assms(1) by (auto simp: reads_push_def)
  then show ?thesis using assms(2,3)
    by (auto simp: handle_stream_def with_message_def takes_push_def into_reader_def Let_def split: sum.splits)
qed

context bao_codec
begin

lemma push_whole:
  assumes P: "holds_all Io sC D (set (content_list D what))" and C: "can_receive R Io sP D (set (content_list D what))"
    and hs: "hf_format what = HashSeq \<longrightarrow> hash_seq_new (D (hf_hash what)) = Some (D (hf_hash what))"
    and req: "req = get_request_from R what" and w: "open_push w" "pu_out w = []"
    and S: "reads_push S ser req" "takes_push sp req"
  shows "\<exists>w' t s'. execute_push_sink R (mem_store_ops R B Io tr) ser sC req w = (w', None)
    \<and> handle_stream R (mem_store_ops R B Io tr) S decode enc observed sP (with_message sp (pu_out w')) = (Pushed t None, s')
    \<and> (\<forall>h\<in>set (content_list D what). get_bytes R Io tr s' h = Inr (D h)) \<and> (\<forall>h d. mem_has Io sP h d \<longrightarrow> get_bytes R Io tr s' h = Inr d)"
proof -
  let ?St = "mem_store_ops R B Io tr" and ?hs = "content_list D what" and ?root = "hf_hash what"
  obtain enc_items where enc_items: "\<And>d. length d < 2 ^ 64 \<Longrightarrow> encoding R Io tr decode d (enc_items d) \<and> payload (enc_items d) = length d"
    using encoded_items by blast
  define items where "items h = enc_items (D h)" for h
  define sz :: "hash \<Rightarrow> u64" where "sz h = of_nat (length (D h))" for h
  have okC: "mem_entries_ok sC" and okP: "mem_entries_ok sP" using P C by (auto simp: holds_all_def can_receive_def)
  have has: "mem_has Io sC h (D h)" "length (D h) < 2 ^ 64" "h = io_root Io (D h)" if "h \<in> set ?hs" for h
    using P that by (auto simp: holds_all_def mem_has_def)
  have root: "?root \<in> set ?hs" by (simp add: content_list_def)
  have e: "encoding R Io tr decode (D h) (items h)" "payload (items h) = length (D h)" if "h \<in> set ?hs" for h
    using enc_items [OF has(2) [OF that]] by (simp_all add: items_def)
  have exports: "\<forall>h\<in>set ?hs. so_export_bao ?St sC h (rs_all R) = export_of (sz h) (items h)"
    using mem_export_has [OF okC has(1) outboard_empty] e by (simp add: mem_store_ops_def encoding_def sz_def)
  have dec: "\<forall>h\<in>set ?hs. decodes decode h (rs_all R) (sz h) (items h) \<and> (sz h = 0 \<longrightarrow> concat (map item_wire (items h)) = [])"
  proof
    fix h assume h: "h \<in> set ?hs"
    have "decodes decode h (rs_all R) (sz h) (items h)" using e(1) [OF h] has(3) [OF h] by (metis encoding_def sz_def)
    moreover have "concat (map item_wire (items h)) = []" if "sz h = 0"
    proof -
      have "D h = []" using that has(2) [OF h] unat_of_nat_u64 [OF has(2) [OF h]] by (simp add: sz_def)
      then show ?thesis using e [OF h] item_wire_length [of "items h"] by (simp add: encoding_def del: concat_eq_Nil_conv)
    qed
    ultimately show "decodes decode h (rs_all R) (sz h) (items h) \<and> (sz h = 0 \<longrightarrow> concat (map item_wire (items h)) = [])" by blast
  qed
  have imp: "\<forall>b\<in>set (map (\<lambda>h. (h, sz h, items h)) hs). md.importable D sP b" if "set hs \<subseteq> set ?hs" for hs
    using importable_encoded [where D = D, OF okC has(1,2) e(1)] C that by (auto simp: can_receive_def sz_def)
  obtain s' where s': "import_all ?St (map (\<lambda>h. (h, sz h, items h)) ?hs) sP = Some s'" "mem_entries_ok s'"
    "\<forall>h\<in>set ?hs. mem_has Io s' h (D h)" "\<forall>h d. mem_has Io sP h d \<longrightarrow> mem_has Io s' h d"
    using md.import_all_whole [OF okP imp [OF order_refl]] by auto
  have len: "length ?hs < 2 ^ 64"
  proof (cases "hf_format what")
    case HashSeq
    then have "length ?hs = Suc (length (D ?root) div 32)" by (simp add: content_list_def hash_seq_iter_def length_chunks_exact)
    then show ?thesis using has(2) [OF root] by simp
  qed (simp add: content_list_def)
  have load: "load_hash_seq ?St s ?root = Inr (D ?root)" if "hf_format what = HashSeq" "mem_entries_ok s" "mem_has Io s ?root (D ?root)" for s
    using md.get_has [OF that(2,3)] hs that(1) by (simp add: load_hash_seq_def)
  have load1: "load_hash_seq ?St s1 ?root = Inr (D ?root)"
    if "hf_format what = HashSeq" "import_all ?St [(?root, sz ?root, items ?root)] sP = Some s1" for s1
    using md.import_all_whole [OF okP imp [of "[?root]"]] root that load by auto
  obtain w' where w': "execute_push_sink R ?St ser sC req w = (w', None)" "pu_out w' = ser req @ push_wire sz items ?hs"
    using push_sends [where ser = ser, OF w(1) req len exports] load okC has(1) [OF root] w(2) by auto
  have "handle_push R ?St decode sP req \<lparr>rv_bytes = push_wire sz items ?hs, rv_error = None\<rparr> = (None, s')"
    using push_received [OF req len dec s'(1)] load1 by blast
  then obtain t where t: "handle_stream R ?St S decode enc observed sP (with_message sp (pu_out w')) = (Pushed t None, s')"
    using handle_stream_push [OF S, of R ?St decode sP "push_wire sz items ?hs" s' enc observed] w'(2) by auto
  have "get_bytes R Io tr s' h = Inr d" if "mem_has Io s' h d" for h d using get_bytes_has [OF s'(2) that outboard_empty] .
  then show ?thesis using w'(1) t s'(3,4) by blast
qed

end


section \<open>Properties\<close>

text \<open>
  C7. A push delivers to a provider that takes it: a client with a memory store that has a blob, or a
  hash sequence and all its children, completely pushes it to a provider with a memory store that has
  nothing or everything of each of these blobs, whose events accept the request and whose side of the
  stream is open. The client sends everything without an error; the provider imports it, can read every
  blob afterwards with the content it has at the client, and can still read what it had before.
\<close>

theorem push_delivers:
  assumes "bao_codec R B Io tr decode"
    and "holds_all Io sC D (set (content_list D what))" "can_receive R Io sP D (set (content_list D what))"
    and "hf_format what = HashSeq \<longrightarrow> hash_seq_new (D (hf_hash what)) = Some (D (hf_hash what))"
    and "open_push w" "pu_out w = []"
    and "reads_push S ser (get_request_from R what)" and "takes_push sp (get_request_from R what)"
  shows "\<exists>w' t s'. execute_push_sink R (mem_store_ops R B Io tr) ser sC (get_request_from R what) w = (w', None)
      \<and> handle_stream R (mem_store_ops R B Io tr) S decode enc observed sP (with_message sp (pu_out w')) = (Pushed t None, s')
      \<and> (\<forall>h\<in>set (content_list D what). get_bytes R Io tr s' h = Inr (D h)) \<and> (\<forall>h d. mem_has Io sP h d \<longrightarrow> get_bytes R Io tr s' h = Inr d)"
  by (rule bao_codec.push_whole [OF assms(1-4) refl assms(5-8)])

text \<open>A stream on which a push request arrives.\<close>

definition push_stream :: "'r get_request \<Rightarrow> ('r, recv_stream) stream_ops" where
  "push_stream req = (ref_stream req)\<lparr>pc_request_type := \<lambda>b. Some RT_Push, st_read_prefixed := \<lambda>s n. Inr (req, s)\<rparr>"

definition open_push_writer :: push_writer where
  "open_push_writer = \<lparr>pu_out = [], pu_left = None, pu_payload_bytes_sent = 0, pu_sender = open_sender\<rparr>"

lemma reads_push_stream: "reads_push (push_stream req) (\<lambda>_. [4]) req"
  by (simp add: reads_push_def read_async_def push_stream_def ref_stream_def)

theorem push_delivers_witness:
  "\<exists>w' t s'. execute_push_sink ref_ops (mem_store_ops ref_ops ref_chunk_ops ref_io_empty ref_encode) (\<lambda>_. [4]) (two_seqs [])
      (get_request_all ref_ops inner_hash) open_push_writer = (w', None)
    \<and> handle_stream ref_ops (mem_store_ops ref_ops ref_chunk_ops ref_io_empty ref_encode) (push_stream (get_request_all ref_ops inner_hash))
      ref_decode (\<lambda>_. []) (\<lambda>_. []) (mem_store_new ref_ops) (with_message ref_stream_pair (pu_out w')) = (Pushed t None, s')
    \<and> get_bytes ref_ops ref_io_empty ref_encode s' inner_hash = Inr (as_bytes leaf_hash)
    \<and> get_bytes ref_ops ref_io_empty ref_encode s' leaf_hash = Inr [1]"
proof -
  let ?D = "example_content" and ?what = "hf_hash_seq inner_hash"
  have req: "get_request_from ref_ops ?what = get_request_all ref_ops inner_hash" by (simp add: get_request_from_def hf_hash_seq_sel)
  have w: "open_push open_push_writer" "pu_out open_push_writer = []" by (simp_all add: open_push_def open_push_writer_def open_sender_def)
  have sp: "takes_push ref_stream_pair (get_request_from ref_ops ?what)"
    by (rule conjunct2 [OF default_mask_takes_push]) (simp_all add: ref_stream_pair_def event_sender_default_def)
  show ?thesis
    using push_delivers [OF refbc.bao_codec_axioms example_holds example_receives _ w reads_push_stream sp, of "\<lambda>_. []" "\<lambda>_. []"]
    by (auto simp: example_list req hf_hash_seq_sel hash_seq_new_def example_content_def)
qed

end
