(* ===== verification/Downloader.thy ===== *)
theory Downloader
  imports Download
begin

text \<open>
  The downloader, \<open>src/src/api/downloader.rs\<close>: a request is tried with one provider after the other,
  each of which is asked for what is still missing, and a request for a hash sequence can be split
  into one request for each child. The connection pool is a parameter: for every provider it gives a
  connection, or none. Splitting runs the requests concurrently, which is not modelled.
\<close>

section \<open>Executing a request\<close>

datatype ('n, 'r) download_progress_item =
    DownloadItemError
  | TryProvider 'n "'r get_request"
  | ProviderFailed 'n "'r get_request"
  | PartComplete "'r get_request"
  | DownloadItemProgress u64
  | DownloadError

datatype download_failure = DownloadFails | DownloadPanics

text \<open>A sink that maps what it is given, and what the sink behind it has got then.\<close>

definition mapped_sink :: "'a sender \<Rightarrow> 'b sender" where
  "mapped_sink p = \<lparr>tx_sent = [], tx_left = tx_left p\<rparr>"

definition mapped_back :: "('b \<Rightarrow> 'a) \<Rightarrow> 'a sender \<Rightarrow> 'b sender \<Rightarrow> 'a sender" where
  "mapped_back f p q = \<lparr>tx_sent = tx_sent p @ map f (tx_sent q), tx_left = tx_left q\<rparr>"

fun execute_get ::
  "'r range_ops \<Rightarrow> 'r chunk_ops \<Rightarrow> ('r, 's) store_ops \<Rightarrow> ('r request \<Rightarrow> bytes option) \<Rightarrow> 'r decode \<Rightarrow> 'r get_request \<Rightarrow>
   ('n \<times> connection option) list \<Rightarrow> 's \<Rightarrow> ('n, 'r) download_progress_item sender \<Rightarrow>
   (download_failure + unit) \<times> 's \<times> ('n, 'r) download_progress_item sender" where
  "execute_get R B St ser decode req [] s p = (Inl DownloadFails, s, p)"
| "execute_get R B St ser decode req ((provider, conn) # providers) s p =
     (case send p (TryProvider provider req) of
        None \<Rightarrow> (Inl DownloadFails, s, p)
      | Some p \<Rightarrow>
          (case local_for_request R St req s of
             (Inl _, s) \<Rightarrow> (Inl DownloadFails, s, p)
           | (Inr li, s) \<Rightarrow>
               (case local_is_complete R B li of
                  None \<Rightarrow> (Inl DownloadPanics, s, p)
                | Some True \<Rightarrow> (Inr (), s, p)
                | Some False \<Rightarrow>
                    (case local_bytes R B li of
                       None \<Rightarrow> (Inl DownloadPanics, s, p)
                     | Some local \<Rightarrow>
                         (case conn of
                            None \<Rightarrow>
                              (case send p (ProviderFailed provider req) of
                                 None \<Rightarrow> (Inl DownloadFails, s, p)
                               | Some p \<Rightarrow> execute_get R B St ser decode req providers s p)
                          | Some conn \<Rightarrow>
                              (case missing R B li of
                                 None \<Rightarrow> (Inl DownloadPanics, s, p)
                               | Some rest \<Rightarrow>
                                   (case execute_get_sink R St ser decode conn rest s (mapped_sink p) of
                                      (res, s, q) \<Rightarrow>
                                        let p = mapped_back (\<lambda>x. DownloadItemProgress (x + local)) p q in
                                        (case res of
                                           Inr _ \<Rightarrow>
                                             (case send p (PartComplete req) of
                                                None \<Rightarrow> (Inl DownloadFails, s, p)
                                              | Some p \<Rightarrow> (Inr (), s, p))
                                         | Inl GetPanics \<Rightarrow> (Inl DownloadPanics, s, p)
                                         | Inl (GetFails _) \<Rightarrow>
                                             (case send p (ProviderFailed provider req) of
                                                None \<Rightarrow> (Inl DownloadFails, s, p)
                                              | Some p \<Rightarrow> execute_get R B St ser decode req providers s p)))))))))"

section \<open>Splitting a request\<close>

datatype 'r finite_request = FiniteGet "'r get_request" | FiniteGetMany "'r get_many_request"

fun split_children :: "'r range_ops \<Rightarrow> hash \<Rightarrow> nat \<Rightarrow> nat \<Rightarrow> 'r seq_iter \<Rightarrow> 'r get_request list" where
  "split_children R h i 0 it = []"
| "split_children R h i (Suc n) it =
     (case infinite_next it of
        (None, _) \<Rightarrow> []
      | (Some ranges, it) \<Rightarrow>
          (if i \<noteq> 0 \<and> \<not> rs_is_empty R ranges then [grb_build R (grb_offset R [] (of_nat i) ranges) h] else [])
            @ split_children R h (Suc i) n it)"

text \<open>\<open>split_request\<close>; its progress goes to a sink that drops everything.\<close>

definition split_request ::
  "'r range_ops \<Rightarrow> 'r chunk_ops \<Rightarrow> ('r, 's) store_ops \<Rightarrow> ('r request \<Rightarrow> bytes option) \<Rightarrow> 'r decode \<Rightarrow> 'r finite_request \<Rightarrow>
   ('n \<times> connection option) list \<Rightarrow> 's \<Rightarrow> (download_failure + 'r get_request list) \<times> 's" where
  "split_request R B St ser decode request providers s =
     (case request of
        FiniteGet req \<Rightarrow>
          (case infinite_next (iter_infinite R (gr_ranges req)) of
             (None, _) \<Rightarrow> (Inr [], s)
           | (Some _, _) \<Rightarrow>
               (case execute_get R B St ser decode (get_request_blob R (gr_hash req)) providers s \<lparr>tx_sent = [], tx_left = None\<rparr> of
                  (Inl e, s, _) \<Rightarrow> (Inl e, s)
                | (Inr _, s, _) \<Rightarrow>
                    (case so_observe St s (gr_hash req) of
                       (Inl _, s) \<Rightarrow> (Inl DownloadFails, s)
                     | (Inr bf, s) \<Rightarrow>
                         let sz = bf_size bf in
                         if sz mod 32 \<noteq> 0 then (Inl DownloadFails, s)
                         else (Inr (split_children R (gr_hash req) 0 (unat (sz div 32) + 1) (iter_infinite R (gr_ranges req))), s))))
      | FiniteGetMany req \<Rightarrow>
          (Inr (map (\<lambda>(i, h). get_request_blob_ranges R h (index R (gm_ranges req) (of_nat i))) (enumerate 0 (gm_hashes req))), s))"

section \<open>Splitting is exact\<close>

context range_set
begin

lemma seq_at_offset:
  assumes "of_nat i \<noteq> u64_max" "r \<noteq> rs_empty R"
  shows "seq_at R (gr_ranges (grb_build R (grb_offset R [] (of_nat i) r) h)) j = (if j = of_nat i then r else rs_empty R)"
proof (rule rs_ext)
  fix x
  show "rs_contains R (seq_at R (gr_ranges (grb_build R (grb_offset R [] (of_nat i) r) h)) j) x
      = rs_contains R (if j = of_nat i then r else rs_empty R) x"
    using contains_build_adds [of "[(of_nat i, r)]" j x] assms(1)
    by (simp add: grb_build_def grb_offset_def get_request_new_def contains_empty)
qed

lemma split_children_at:
  assumes "sorted_offsets s" "i + n \<le> 2 ^ 64"
  shows "split_children R h i n (iter_at R s i) =
    map (\<lambda>k. grb_build R (grb_offset R [] (of_nat k) (seq_at R s (of_nat k))) h)
      (filter (\<lambda>k. k \<noteq> 0 \<and> seq_at R s (of_nat k) \<noteq> rs_empty R) [i..<i + n])"
  using assms(2)
proof (induction n arbitrary: i)
  case (Suc n)
  have "[i..<i + Suc n] = i # [Suc i..<Suc i + n]" by (simp add: upt_conv_Cons)
  then show ?case
    using Suc.IH [of "Suc i"] Suc.prems infinite_next_iter_at [OF assms(1), of i R]
    by (simp add: is_empty_iff del: upt.simps)
qed simp

end

section \<open>Providers that do not help\<close>

text \<open>
  A provider that cannot be reached, that takes no stream or no request, or that sends less than the
  size of the first blob, for example because it refuses the request or does not have the blob.
\<close>

definition useless :: "bytes \<Rightarrow> connection option \<Rightarrow> bool" where
  "useless msg conn \<longleftrightarrow> (case conn of
     Some (Inr peer) \<Rightarrow> pe_write peer msg \<noteq> None \<or> pe_closed peer \<or> length (rv_bytes (pe_response peer msg)) < 8
   | _ \<Rightarrow> True)"

lemma unreachable_useless: "useless msg None"
  by (simp add: useless_def)

lemma refused_useless:
  assumes "em_get (es_mask (sp_events sp)) = ReqDisabled"
    and "\<exists>n. read_async S \<lparr>rv_bytes = msg, rv_error = None\<rparr> = Inr ((Get req, n), \<lparr>rv_bytes = [], rv_error = None\<rparr>)"
  shows "useless msg (Some (provider_connection R St S decode enc observed st sp))"
  using assms by (auto simp: useless_def provider_connection_def handle_stream_def with_message_def es_request_def Let_def)

lemma useless_fails:
  assumes "ser (Get req) = Some msg" "length msg \<le> unat MAX_MESSAGE_SIZE" "useless msg (Some conn)"
    and "non_empty_next R (iter_non_empty_infinite R (gr_ranges req)) = (Some (0, r), it)"
  shows "\<exists>e. execute_get_sink R St ser decode conn req s p = (Inl (GetFails e), s, p)"
proof (cases conn)
  case (Inl e)
  then show ?thesis by (simp add: execute_get_sink_def fsm_start_def initial_next_def or_fail_def)
next
  case (Inr peer)
  consider "pe_write peer msg \<noteq> None" | "pe_write peer msg = None" "pe_closed peer"
    | "pe_write peer msg = None" "\<not> pe_closed peer" "length (rv_bytes (pe_response peer msg)) < 8"
    using assms(3) Inr by (auto simp: useless_def)
  then show ?thesis
    using Inr assms(1,2,4)
    by cases (auto simp: execute_get_sink_def fsm_start_def initial_next_def or_fail_def connected_next_def Let_def
        get_blob_ranges_impl_def start_root_next_def header_next_def read_8_def split: option.split)
qed

context bao_codec
begin

lemma first_is_root:
  "\<exists>it. non_empty_next R (iter_non_empty_infinite R (gr_ranges (get_request_from R what))) = (Some (0, rs_all R), it)"
  using non_empty_next_step [OF request_root(1), of 0 R what] request_root(2) by (simp add: non_empty_at_0 is_empty_iff all_neq_empty)

lemma execute_get_from_scratch:
  assumes P: "holds_all Io sP D (set (content_list D what))"
    and hs: "hf_format what = HashSeq \<longrightarrow> hash_seq_new (D (hf_hash what)) = Some (D (hf_hash what))"
    and req: "req = get_request_from R what"
    and msg: "ser (Get req) = Some msg" "length msg \<le> unat MAX_MESSAGE_SIZE" "plain_provider S sp msg req"
    and good: "good = provider_connection R (mem_store_ops R B Io tr) S decode enc observed sP sp"
    and "\<forall>(nd, conn)\<in>set bad. useless msg conn"
    and "can_receive R Io sC D (set (content_list D what))" "mem_blank R sC (hf_hash what)" "tx_left p = None"
  shows "\<exists>s' p'. execute_get R B (mem_store_ops R B Io tr) ser decode req (bad @ (node, Some good) # rest) sC p = (Inr (), s', p')
    \<and> (\<forall>h\<in>set (content_list D what). get_bytes R Io tr s' h = Inr (D h)) \<and> (\<forall>h d. mem_has Io sC h d \<longrightarrow> get_bytes R Io tr s' h = Inr d)"
  using assms(8-)
proof (induction bad arbitrary: sC p)
  case Nil
  let ?St = "mem_store_ops R B Io tr"
  obtain p1 where p1: "send p (TryProvider node req) = Some p1" "tx_left p1 = None" using send_takes [OF Nil(4)] by blast
  have "mem_entries_ok sC" using Nil(2) by (simp add: can_receive_def)
  from local_from_scratch [OF this Nil(3)] obtain s1 li n where s1: "local_for_request R ?St req sC = (Inr li, s1)" "mem_entries_ok s1"
    "mem_blank R s1 = mem_blank R sC" "mem_has Io s1 = mem_has Io sC" "missing R B li = Some req" "local_is_complete R B li = Some False"
    "local_bytes R B li = Some n" unfolding req remote_local_def by blast
  have C: "can_receive R Io s1 D (set (content_list D what))" using Nil(2) s1(2-4) by (simp add: can_receive_def)
  have m: "tx_left (mapped_sink p1) = None" using p1(2) by (simp add: mapped_sink_def)
  obtain stats s' q where d: "execute_get_sink R ?St ser decode good req s1 (mapped_sink p1) = (Inr stats, s', q)" "tx_left q = None"
    "\<forall>h\<in>set (content_list D what). get_bytes R Io tr s' h = Inr (D h)" "\<forall>h d. mem_has Io s1 h d \<longrightarrow> get_bytes R Io tr s' h = Inr d"
    using download_content [where ser = ser, OF P C hs req msg m, of enc observed] good by metis
  let ?p = "mapped_back (\<lambda>x. DownloadItemProgress (x + n)) p1 q"
  obtain p2 where "send ?p (PartComplete req) = Some p2" using send_takes [of ?p] d(2) by (auto simp: mapped_back_def)
  then show ?case using p1 s1 d by (simp add: Let_def)
next
  case (Cons b bad)
  let ?St = "mem_store_ops R B Io tr"
  obtain i conn where b: "b = (i, conn)" by (cases b)
  obtain p1 where p1: "send p (TryProvider i req) = Some p1" "tx_left p1 = None" using send_takes [OF Cons.prems(4)] by blast
  have "mem_entries_ok sC" using Cons.prems(2) by (simp add: can_receive_def)
  from local_from_scratch [OF this Cons.prems(3)] obtain s1 li n where s1: "local_for_request R ?St req sC = (Inr li, s1)" "mem_entries_ok s1"
    "mem_blank R s1 = mem_blank R sC" "mem_has Io s1 = mem_has Io sC" "missing R B li = Some req" "local_is_complete R B li = Some False"
    "local_bytes R B li = Some n" unfolding req remote_local_def by blast
  have C: "can_receive R Io s1 D (set (content_list D what))" "mem_blank R s1 (hf_hash what)"
    using Cons.prems(2,3) s1(2-4) by (simp_all add: can_receive_def)
  let ?mapped = "\<lambda>q. mapped_back (\<lambda>x. DownloadItemProgress (x + n)) p1 q"
  have open_back: "tx_left (?mapped (mapped_sink p1)) = None" using p1(2) by (simp add: mapped_back_def mapped_sink_def)
  have "\<exists>p2. tx_left p2 = None \<and> execute_get R B ?St ser decode req ((b # bad) @ (node, Some good) # rest) sC p
      = execute_get R B ?St ser decode req (bad @ (node, Some good) # rest) s1 p2"
  proof (cases conn)
    case None
    obtain p2 where "send p1 (ProviderFailed i req) = Some p2" "tx_left p2 = None" using send_takes [OF p1(2)] by blast
    then show ?thesis using b None p1 s1 by auto
  next
    case (Some c)
    have "useless msg (Some c)" using Cons.prems(1) b Some by auto
    obtain it where it: "non_empty_next R (iter_non_empty_infinite R (gr_ranges req)) = (Some (0, rs_all R), it)"
      using first_is_root [of what] req by blast
    obtain e where e: "execute_get_sink R ?St ser decode c req s1 (mapped_sink p1) = (Inl (GetFails e), s1, mapped_sink p1)"
      using useless_fails [where ser = ser and req = req, OF msg(1,2) \<open>useless msg (Some c)\<close> it, of ?St decode s1 "mapped_sink p1"] by blast
    obtain p2 where "send (?mapped (mapped_sink p1)) (ProviderFailed i req) = Some p2" "tx_left p2 = None" using send_takes [OF open_back] by blast
    then show ?thesis using b Some p1 s1 e by (auto simp: Let_def)
  qed
  then obtain p2 where p2: "tx_left p2 = None" "execute_get R B ?St ser decode req ((b # bad) @ (node, Some good) # rest) sC p
      = execute_get R B ?St ser decode req (bad @ (node, Some good) # rest) s1 p2" by blast
  have "\<forall>(nd, conn)\<in>set bad. useless msg conn" using Cons.prems(1) by simp
  from Cons.IH [OF this C p2(1)] show ?case using p2(2) s1(4) by simp
qed

end

section \<open>Properties\<close>


text \<open>A provider that refuses get requests.\<close>

definition refusing_pair :: "'r stream_pair" where
  "refusing_pair = ref_stream_pair\<lparr>sp_events := \<lparr>es_mask = event_mask_default\<lparr>em_get := ReqDisabled\<rparr>, es_inner = None\<rparr>\<rparr>"


text \<open>
  C21. Splitting a request for a hash sequence of \<open>n\<close> children: there is one request for every child of which
  something is requested, in their order, and it asks for exactly this and for nothing else; nothing
  behind the last child is asked for.
\<close>

theorem split_exact:
  assumes "range_set R" "sorted_offsets s" "n < 2 ^ 64 - 1"
  shows "\<exists>ks. split_children R h 0 (n + 1) (iter_infinite R s) = map (\<lambda>k. grb_build R (grb_offset R [] (of_nat k) (seq_at R s (of_nat k))) h) ks
    \<and> ks = filter (\<lambda>k. seq_at R s (of_nat k) \<noteq> rs_empty R) [1..<n + 1]
    \<and> (\<forall>k\<in>set ks. \<forall>j. seq_at R (gr_ranges (grb_build R (grb_offset R [] (of_nat k) (seq_at R s (of_nat k))) h)) j
        = (if j = of_nat k then seq_at R s j else rs_empty R))"
proof -
  let ?P = "\<lambda>k. seq_at R s (of_nat k) \<noteq> rs_empty R"
  have "filter (\<lambda>k. k \<noteq> 0 \<and> ?P k) [0..<n + 1] = filter ?P [1..<n + 1]"
    by (subst upt_conv_Cons) (auto intro: filter_cong simp del: upt_Suc)
  moreover have "of_nat k \<noteq> u64_max" if "k < n + 1" for k :: nat
    using that assms(3) unat_of_nat_u64 [of k] unat_u64_max by auto
  ultimately show ?thesis
    using range_set.split_children_at [OF assms(1,2), of 0 "n + 1" h] assms(3) range_set.seq_at_offset [OF assms(1)]
    by (auto simp: iter_at_0 simp del: upt_Suc)
qed

theorem split_exact_witness:
  "split_children ref_ops inner_hash 0 3 (iter_infinite ref_ops (seq_all ref_ops)) =
    map (\<lambda>k. grb_build ref_ops (grb_offset ref_ops [] (of_nat k) (rs_all ref_ops)) inner_hash) [1, 2]"
proof -
  have "seq_at ref_ops (seq_all ref_ops) i = rs_all ref_ops" for i by (simp add: seq_all_def seq_at_def last_ranges_def)
  moreover have "sorted_offsets (seq_all ref_ops)" by (simp add: seq_all_def)
  moreover have "[1..<2 + 1] = [1, 2 :: nat]" by (simp add: upt_rec)
  moreover have "(2 :: nat) + 1 = 3" by simp
  ultimately show ?thesis
    using split_exact [OF ref.range_set_axioms, of "seq_all ref_ops" 2 inner_hash]
    by (simp add: ref.all_neq_empty del: split_children.simps)
qed

end
