(* ===== verification/Blob_Reader.thy ===== *)
theory Blob_Reader
  imports Mem_Store
begin

text \<open>
  The reader of a blob, \<open>src/src/api/blobs/reader.rs\<close>: a state machine that implements asynchronous
  reading and seeking over exports of ranges. An export is a stream that may have to be waited for;
  a read of a buffer polls it until the stream ends, fails or has nothing yet.
\<close>

section \<open>The reader\<close>

datatype 'a poll = Pending | Ready 'a

type_synonym export_op = "export_ranges_item poll list"

datatype reader_state = Idle u64 | Seeking u64 | Reading u64 export_op | Poisoned

text \<open>\<open>BufferTooSmall\<close> is the panic of \<open>put_slice\<close>.\<close>

datatype reader_error =
    PositionOverflow | OffsetMismatch | ReadingFailed io_error | SeekFromEnd | WhileSeeking | WhileReading | IsPoisoned | BufferTooSmall

definition reader_new :: reader_state where
  "reader_new = Idle 0"

text \<open>
  The loop of \<open>poll_read\<close> in the state \<open>Reading\<close>: \<open>position1\<close> is where the next data is expected, \<open>buf\<close> what
  has been put into the buffer, \<open>cap\<close> how much the buffer takes. The end of the list is the end of the
  stream.
\<close>

fun read_loop :: "u64 \<Rightarrow> u64 \<Rightarrow> bytes \<Rightarrow> nat \<Rightarrow> export_op \<Rightarrow> reader_state \<times> bytes \<times> (reader_error + unit) poll" where
  "read_loop position position1 buf cap [] = (Idle position1, buf, Ready (Inr ()))"
| "read_loop position position1 buf cap (Ready (RangesSize _) # op) = read_loop position position1 buf cap op"
| "read_loop position position1 buf cap (Ready (RangesData offset d) # op) =
     (if offset \<noteq> position1 then (Poisoned, buf, Ready (Inl OffsetMismatch))
      else if cap < length buf + length d then (Poisoned, buf, Ready (Inl BufferTooSmall))
      else case checked_add_u64 position1 (of_nat (length d)) of
             None \<Rightarrow> (Poisoned, buf @ d, Ready (Inl PositionOverflow))
           | Some position1 \<Rightarrow> read_loop position position1 (buf @ d) cap op)"
| "read_loop position position1 buf cap (Ready (RangesError err) # op) = (Idle position, buf, Ready (Inl (ReadingFailed err)))"
| "read_loop position position1 buf cap (Pending # op) =
     (if position \<noteq> position1 then (Idle position1, buf, Ready (Inr ())) else (Reading position1 op, buf, Pending))"

text \<open>\<open>poll_read\<close>; \<open>export\<close> is the stream of \<open>export_ranges\<close> for a range from its start to its end.\<close>

definition poll_read :: "(u64 \<Rightarrow> u64 \<Rightarrow> export_op) \<Rightarrow> nat \<Rightarrow> reader_state \<Rightarrow> reader_state \<times> bytes \<times> (reader_error + unit) poll" where
  "poll_read export cap st =
     (case st of
        Idle position \<Rightarrow>
          (case checked_add_u64 position (of_nat cap) of
             None \<Rightarrow> (Poisoned, [], Ready (Inl PositionOverflow))
           | Some end \<Rightarrow> read_loop position position [] cap (export position end))
      | Reading position op \<Rightarrow> read_loop position position [] cap op
      | Seeking position \<Rightarrow> (Seeking position, [], Ready (Inl WhileSeeking))
      | Poisoned \<Rightarrow> (Poisoned, [], Ready (Inl IsPoisoned)))"

datatype seek_from = SeekStart u64 | SeekCurrent u64 | SeekEnd u64

text \<open>\<open>checked_add_signed\<close>; the offset is a signed 64-bit number.\<close>

definition checked_add_signed :: "u64 \<Rightarrow> u64 \<Rightarrow> u64 option" where
  "checked_add_signed a b = (let r = uint a + sint b in if 0 \<le> r \<and> r < 2 ^ 64 then Some (word_of_int r) else None)"

definition start_seek :: "seek_from \<Rightarrow> reader_state \<Rightarrow> reader_state \<times> (reader_error + unit)" where
  "start_seek seek_from st =
     (case st of
        Idle position \<Rightarrow>
          (case seek_from of
             SeekStart pos \<Rightarrow> (Seeking pos, Inr ())
           | SeekCurrent offset \<Rightarrow>
               (case checked_add_signed position offset of
                  None \<Rightarrow> (Poisoned, Inl PositionOverflow)
                | Some pos \<Rightarrow> (Seeking pos, Inr ()))
           | SeekEnd _ \<Rightarrow> (Poisoned, Inl SeekFromEnd))
      | Reading _ _ \<Rightarrow> (Poisoned, Inl WhileReading)
      | Seeking _ \<Rightarrow> (Poisoned, Inl WhileSeeking)
      | Poisoned \<Rightarrow> (Poisoned, Inl IsPoisoned))"

definition poll_complete :: "reader_state \<Rightarrow> reader_state \<times> (reader_error + u64)" where
  "poll_complete st =
     (case st of
        Seeking position \<Rightarrow> (Idle position, Inr position)
      | Idle position \<Rightarrow> (Idle position, Inr position)
      | Reading position op \<Rightarrow> (Reading position op, Inl WhileReading)
      | Poisoned \<Rightarrow> (Poisoned, Inl IsPoisoned))"

section \<open>Streams of a stored blob\<close>

text \<open>What a stream delivers, whenever it has to be waited for.\<close>

fun ready_items :: "'a poll list \<Rightarrow> 'a list" where
  "ready_items [] = []"
| "ready_items (Pending # op) = ready_items op"
| "ready_items (Ready x # op) = x # ready_items op"

fun contiguous :: "u64 \<Rightarrow> (u64 \<times> bytes) list \<Rightarrow> bool" where
  "contiguous p [] \<longleftrightarrow> True"
| "contiguous p ((off, d) # ls) \<longleftrightarrow> off = p \<and> contiguous (p + of_nat (length d)) ls"

lemma contiguous_append:
  "contiguous p (xs @ ys) \<longleftrightarrow> contiguous p xs \<and> contiguous (p + of_nat (length (concat (map snd xs)))) ys"
  by (induction xs arbitrary: p) (auto simp: add.assoc)

abbreviation data_items :: "(u64 \<times> bytes) list \<Rightarrow> export_ranges_item list" where
  "data_items ls \<equiv> map (\<lambda>(off, d). RangesData off d) ls"

text \<open>The leaves of an export are one behind the other.\<close>

context store_laws
begin

lemma export_loop_contiguous:
  assumes "off \<le> e" "unat e \<le> length data" "unat e + 1024 < 2 ^ 64"
  shows "\<exists>ls. export_loop Io data sent off e = Some (sent @ ls, None) \<and> contiguous off ls"
  using assms(1)
proof (induction "unat e - unat off" arbitrary: off sent rule: less_induct)
  case less
  let ?e1 = "min (off + 1024) e"
  have o1: "unat (off + 1024) = unat off + 1024" using less.prems assms(3) by (simp add: unat_add_u64 word_le_nat_alt)
  then have e1: "unat ?e1 = min (unat off + 1024) (unat e)" by (simp add: unat_min_u64)
  then have le: "off \<le> ?e1" using less.prems by (simp add: word_le_nat_alt)
  have n: "unat (?e1 - off) = unat ?e1 - unat off" using le by (rule unat_sub_u64)
  let ?d = "take (unat ?e1 - unat off) (drop (unat off) data)"
  have d: "io_read Io data off (?e1 - off) = Inr ?d" "length ?d = unat ?e1 - unat off"
    using io_read [of off "?e1 - off" data] n e1 le assms(2) by (simp_all add: word_le_nat_alt)
  have l: "length ?d = unat (?e1 - off)" using d(2) n by (simp only:)
  have nxt: "off + of_nat (length ?d) = ?e1" unfolding l by simp
  show ?case
  proof (cases "e \<le> ?e1")
    case True
    then show ?thesis using d(1) by (subst export_loop.simps) (simp add: Let_def)
  next
    case False
    then have "unat ?e1 < unat e" by (simp add: word_le_nat_alt)
    then have "unat e - unat ?e1 < unat e - unat off" "?e1 \<le> e" using e1 by auto
    from less.hyps [OF this, of "sent @ [(off, ?d)]"] False d(1) nxt show ?thesis
      by (subst export_loop.simps) (auto simp: Let_def)
  qed
qed

text \<open>What the memory store exports of a complete blob for a range that starts inside it or at its end.\<close>

lemma export_range_stream:
  assumes "length d + 1024 < 2 ^ 64" "unat p \<le> length d" "unat p + cap < 2 ^ 64" "0 < cap"
  shows "\<exists>ls. export_ranges R B Io (rs_range R p (p + of_nat cap)) (Some (Complete d ob)) = Some (data_items ls)
    \<and> contiguous p ls \<and> concat (map snd ls) = take cap (drop (unat p) d)"
proof -
  let ?e = "p + of_nat cap" and ?sz = "of_nat (length d) :: u64"
  have sz: "unat ?sz = length d" using assms(1) by (intro unat_of_nat_u64) simp
  have c: "unat (of_nat cap :: u64) = cap" using assms(3) by (intro unat_of_nat_u64) simp
  have e: "unat ?e = unat p + cap" using assms(3) c by (simp add: unat_add_u64)
  have "p < ?e" using e assms(4) by (simp add: word_less_nat_alt)
  then have it: "rs_iter R (rs_range R p ?e) = [Range p ?e]" by (simp add: iter_items boundaries_range)
  have m: "min ?sz p = p" "min ?sz ?e \<ge> p" "unat (min ?sz ?e) = min (length d) (unat p + cap)"
    using assms(2) sz e by (simp_all add: min_def word_le_nat_alt)
  have b: "unat (min ?sz ?e) \<le> length d" "unat (min ?sz ?e) + 1024 < 2 ^ 64" using m(3) assms(1) by linarith+
  obtain ls where ls: "export_loop Io d [] p (min ?sz ?e) = Some (ls, None)" "contiguous p ls"
    using export_loop_contiguous [OF m(2) b, of "[]"] by auto
  moreover have "concat (map snd ls) = take cap (drop (unat p) d)"
    using export_loop_slice [OF m(2) b, of "[]"] m(3) assms(2) ls(1) by (auto simp: min_def)
  ultimately show ?thesis
    using it m by (auto simp: export_ranges_def export_ranges_impl_def bf_complete_def is_subset_iff contains_all Let_def)
qed

end

section \<open>Reading\<close>

text \<open>
  How a read of the data \<open>D\<close> from \<open>p1\<close> on stops after \<open>k\<close> bytes, if it began at \<open>p\<close>: it returns with all of it or
  with a part, or it has to wait and has got nothing.
\<close>

definition stops :: "u64 \<Rightarrow> u64 \<Rightarrow> bytes \<Rightarrow> nat \<Rightarrow> reader_state \<Rightarrow> (reader_error + unit) poll \<Rightarrow> bool" where
  "stops p p1 D k st r \<longleftrightarrow> k \<le> length D
    \<and> (r = Ready (Inr ()) \<and> st = Idle (p1 + of_nat k) \<and> (k = length D \<or> p \<noteq> p1 + of_nat k)
     \<or> (\<exists>op ls. r = Pending \<and> st = Reading p op \<and> p = p1 + of_nat k \<and> ready_items op = data_items ls
          \<and> contiguous p ls \<and> concat (map snd ls) = drop k D))"

lemma stops_later: "stops p (p1 + of_nat (length d)) D k st r \<Longrightarrow> stops p p1 (d @ D) (length d + k) st r"
  by (auto simp: stops_def add.assoc)

lemma read_loop_reads:
  assumes "ready_items op = data_items ls" "contiguous p1 ls" "length buf + length (concat (map snd ls)) \<le> cap"
    and "unat p1 + length (concat (map snd ls)) < 2 ^ 64"
  shows "\<exists>k st r. read_loop p p1 buf cap op = (st, buf @ take k (concat (map snd ls)), r) \<and> stops p p1 (concat (map snd ls)) k st r"
  using assms
proof (induction op arbitrary: p1 buf ls)
  case Nil
  then show ?case by (intro exI [of _ 0]) (simp add: stops_def)
next
  case (Cons x op)
  show ?case
  proof (cases x)
    case Pending
    then show ?thesis using Cons.prems by (intro exI [of _ 0]) (auto simp: stops_def)
  next
    case (Ready item)
    then obtain off d ls' where ls: "ls = (off, d) # ls'" "item = RangesData off d" "ready_items op = data_items ls'"
      using Cons.prems(1) by (cases ls) auto
    have c: "off = p1" "contiguous (p1 + of_nat (length d)) ls'" using Cons.prems(2) ls by auto
    have u: "unat (of_nat (length d) :: u64) = length d" using Cons.prems(4) ls by (intro unat_of_nat_u64) simp
    have a: "checked_add_u64 p1 (of_nat (length d)) = Some (p1 + of_nat (length d))" "unat (p1 + of_nat (length d)) = unat p1 + length d"
      using Cons.prems(4) ls u by (simp_all add: checked_add_u64_def unat_add_u64)
    have "length (buf @ d) + length (concat (map snd ls')) \<le> cap" "unat (p1 + of_nat (length d)) + length (concat (map snd ls')) < 2 ^ 64"
      using Cons.prems(3,4) ls(1) a(2) by simp_all
    from Cons.IH [OF ls(3) c(2) this] obtain k st r where
      k: "read_loop p (p1 + of_nat (length d)) (buf @ d) cap op = (st, (buf @ d) @ take k (concat (map snd ls')), r)"
        "stops p (p1 + of_nat (length d)) (concat (map snd ls')) k st r"
      by blast
    have "read_loop p p1 buf cap (x # op) = (st, buf @ take (length d + k) (concat (map snd ls)), r)"
      using k(1) Ready ls c(1) a(1) Cons.prems(3) by simp
    moreover have "concat (map snd ls) = d @ concat (map snd ls')" using ls(1) by simp
    ultimately show ?thesis using stops_later [OF k(2)] by metis
  qed
qed

text \<open>A reader at a position of a blob: idle, or waiting for the rest of an export.\<close>

definition reader_at :: "bytes \<Rightarrow> nat \<Rightarrow> u64 \<Rightarrow> reader_state \<Rightarrow> bool" where
  "reader_at d cap p st \<longleftrightarrow> st = Idle p \<or> (\<exists>op ls. st = Reading p op \<and> ready_items op = data_items ls \<and> contiguous p ls
     \<and> concat (map snd ls) = take cap (drop (unat p) d))"

text \<open>Streams that deliver what the store exports of an entry.\<close>

definition delivers :: "'r range_ops \<Rightarrow> 'r chunk_ops \<Rightarrow> io_ops \<Rightarrow> 'r bao_file_storage \<Rightarrow> (u64 \<Rightarrow> u64 \<Rightarrow> export_op) \<Rightarrow> bool" where
  "delivers R B Io entry export \<longleftrightarrow> (\<forall>p e. export_ranges R B Io (rs_range R p e) (Some entry) = Some (ready_items (export p e)))"

context store_laws
begin

lemma poll_read_reads:
  assumes "length d + 1024 < 2 ^ 64" "length d + cap < 2 ^ 64" "0 < cap" "unat p \<le> length d"
    and "delivers R B Io (Complete d ob) export" "reader_at d cap p st"
  shows "\<exists>k st' r. poll_read export cap st = (st', take k (drop (unat p) d), r) \<and> unat p + k \<le> length d \<and> reader_at d cap (p + of_nat k) st'
    \<and> (r = Pending \<and> k = 0 \<or> r = Ready (Inr ()) \<and> (k = 0 \<longrightarrow> unat p = length d))"
proof -
  have pc: "unat p + cap < 2 ^ 64" using assms(2,4) by simp
  then have c: "checked_add_u64 p (of_nat cap) = Some (p + of_nat cap)"
    using unat_of_nat_u64 [of cap] by (simp add: checked_add_u64_def)
  obtain op ls where op: "poll_read export cap st = read_loop p p [] cap op" "ready_items op = data_items ls" "contiguous p ls"
    "concat (map snd ls) = take cap (drop (unat p) d)"
  proof (cases "st = Idle p")
    case True
    obtain ls where "export_ranges R B Io (rs_range R p (p + of_nat cap)) (Some (Complete d ob)) = Some (data_items ls)"
      "contiguous p ls" "concat (map snd ls) = take cap (drop (unat p) d)"
      using export_range_stream [OF assms(1,4) pc assms(3)] by blast
    then show ?thesis using that [of "export p (p + of_nat cap)" ls] True c assms(5) by (auto simp: poll_read_def delivers_def)
  next
    case False
    then show ?thesis using that assms(6) by (auto simp: reader_at_def poll_read_def)
  qed
  let ?D = "take cap (drop (unat p) d)"
  have D: "length ?D \<le> cap" "unat p + length ?D \<le> length d" using assms(4) by auto
  obtain k st' r where k: "read_loop p p [] cap op = (st', take k ?D, r)" "stops p p ?D k st' r"
    using read_loop_reads [OF op(2,3), of "[]" cap p, unfolded op(4) append_Nil] D assms(1) by auto
  have kD: "k \<le> length ?D" using k(2) by (simp add: stops_def)
  have k0: "p = p + of_nat k \<longleftrightarrow> k = 0" using unat_of_nat_u64 [of k] kD D(1) assms(2) by auto
  have "length ?D = 0 \<Longrightarrow> unat p = length d" using assms(3,4) by auto
  moreover have "take k ?D = take k (drop (unat p) d)" using kD D(1) by (simp add: min_absorb1)
  moreover have "reader_at d cap (p + of_nat k) st'" using k(2) k0 by (auto simp: stops_def reader_at_def)
  moreover have "r = Pending \<and> k = 0 \<or> r = Ready (Inr ()) \<and> (k = 0 \<longrightarrow> length ?D = 0)" using k(2) k0 by (auto simp: stops_def)
  ultimately show ?thesis using k(1) op(1) kD D(2) by (intro exI [of _ k] exI [of _ st'] exI [of _ r]) auto
qed

end

text \<open>A client that polls with a buffer of always the same size: what it got, and the results.\<close>

fun read_run :: "nat \<Rightarrow> (u64 \<Rightarrow> u64 \<Rightarrow> export_op) list \<Rightarrow> reader_state \<Rightarrow> reader_state \<times> bytes \<times> (reader_error + unit) poll list" where
  "read_run cap [] st = (st, [], [])"
| "read_run cap (export # exports) st =
     (let (st, buf, r) = poll_read export cap st; (st, bufs, rs) = read_run cap exports st in (st, buf @ bufs, r # rs))"

context store_laws
begin

lemma read_run_reads:
  assumes "length d + 1024 < 2 ^ 64" "length d + cap < 2 ^ 64" "0 < cap" "unat p \<le> length d"
    and "\<forall>export\<in>set exports. delivers R B Io (Complete d ob) export" "reader_at d cap p st"
  shows "\<exists>k st' rs. read_run cap exports st = (st', take k (drop (unat p) d), rs) \<and> unat p + k \<le> length d \<and> reader_at d cap (p + of_nat k) st'
    \<and> set rs \<subseteq> {Pending, Ready (Inr ())} \<and> (unat p + k = length d \<or> count_list rs (Ready (Inr ())) \<le> k)"
  using assms(4-)
proof (induction exports arbitrary: p st)
  case Nil
  then show ?case by (intro exI [of _ 0]) simp
next
  case (Cons export exports)
  obtain k st1 r where k: "poll_read export cap st = (st1, take k (drop (unat p) d), r)" "unat p + k \<le> length d" "reader_at d cap (p + of_nat k) st1"
    "r = Pending \<and> k = 0 \<or> r = Ready (Inr ()) \<and> (k = 0 \<longrightarrow> unat p = length d)"
    using poll_read_reads [OF assms(1-3) Cons.prems(1) _ Cons.prems(3), of ob export] Cons.prems(2) by auto
  have p': "unat (p + of_nat k) = unat p + k"
    using k(2) assms(1) unat_of_nat_u64 [of k] by (simp add: unat_add_u64)
  obtain k' st' rs where k': "read_run cap exports st1 = (st', take k' (drop (unat p + k) d), rs)" "unat p + k + k' \<le> length d"
    "reader_at d cap (p + of_nat k + of_nat k') st'" "set rs \<subseteq> {Pending, Ready (Inr ())}"
    "unat p + k + k' = length d \<or> count_list rs (Ready (Inr ())) \<le> k'"
    using Cons.IH [of "p + of_nat k" st1] Cons.prems(2) k(2,3) p' by auto
  have "take k (drop (unat p) d) @ take k' (drop (unat p + k) d) = take (k + k') (drop (unat p) d)"
    using take_add [of k k' "drop (unat p) d"] by (simp add: add.commute [of k])
  then show ?case using k k' by (intro exI [of _ "k + k'"]) (auto simp: add.assoc)
qed

end

section \<open>Properties\<close>

text \<open>
  C20. Reading a complete blob of the memory store with a buffer of a fixed size, from any position
  inside the blob or at its end: however the streams of the exports have to be waited for, no read
  fails and what has been read so far is the content from this position on; the reader stands behind
  it; and when more reads have returned than there were bytes left, everything has been read.
\<close>

theorem reader_delivers:
  assumes "store_laws R B Io" "length d + 1024 < 2 ^ 64" "length d + cap < 2 ^ 64" "0 < cap" "unat p \<le> length d"
    and "\<forall>export\<in>set exports. delivers R B Io (Complete d ob) export"
  shows "\<exists>k st rs. read_run cap exports (Idle p) = (st, take k (drop (unat p) d), rs) \<and> unat p + k \<le> length d
    \<and> (st = Idle (p + of_nat k) \<or> (\<exists>op. st = Reading (p + of_nat k) op)) \<and> set rs \<subseteq> {Pending, Ready (Inr ())}
    \<and> (unat p + k = length d \<or> count_list rs (Ready (Inr ())) \<le> k)"
proof -
  have "reader_at d cap p (Idle p)" by (simp add: reader_at_def)
  from store_laws.read_run_reads [OF assms this] show ?thesis by (auto simp: reader_at_def)
qed

lemma ready_items_map: "ready_items (map Ready xs) = xs"
  by (induction xs) simp_all

text \<open>A stream of a stored blob that has to be waited for once.\<close>

definition waiting_stream :: "bytes \<Rightarrow> u64 \<Rightarrow> u64 \<Rightarrow> export_op" where
  "waiting_stream d p e = Pending # map Ready (the (export_ranges ref_ops ref_chunk_ops ref_io (rs_range ref_ops p e) (Some (Complete d []))))"

lemma waiting_stream_delivers:
  assumes "length d + 1024 < 2 ^ 64"
  shows "delivers ref_ops ref_chunk_ops ref_io (Complete d []) (waiting_stream d)"
proof -
  have "\<exists>items. export_ranges ref_ops ref_chunk_ops ref_io r (Some (Complete d [])) = Some items" for r
    using refs.export_complete [OF assms, of r "[]"] by (auto simp: export_ranges_def)
  then show ?thesis by (auto simp: delivers_def waiting_stream_def ready_items_map)
qed

theorem reader_delivers_witness:
  "\<exists>k st rs. read_run 8 [waiting_stream [7, 8], waiting_stream [7, 8]] reader_new = (st, take k [7, 8], rs) \<and> k \<le> 2
    \<and> set rs \<subseteq> {Pending, Ready (Inr ())}"
proof -
  have w: "\<forall>export\<in>set [waiting_stream [7, 8], waiting_stream [7, 8]]. delivers ref_ops ref_chunk_ops ref_io (Complete [7, 8] []) export"
    using waiting_stream_delivers [of "[7, 8]"] by simp
  have "\<exists>k st rs. read_run 8 [waiting_stream [7, 8], waiting_stream [7, 8]] (Idle 0) = (st, take k (drop (unat (0 :: u64)) [7, 8]), rs)
    \<and> unat (0 :: u64) + k \<le> length [7, 8 :: u8] \<and> (st = Idle (0 + of_nat k) \<or> (\<exists>op. st = Reading (0 + of_nat k) op)) \<and> set rs \<subseteq> {Pending, Ready (Inr ())}
    \<and> (unat (0 :: u64) + k = length [7, 8 :: u8] \<or> count_list rs (Ready (Inr ())) \<le> k)"
    by (rule reader_delivers [OF refs.store_laws_axioms _ _ _ _ w]) simp_all
  then obtain k st rs where "read_run 8 [waiting_stream [7, 8], waiting_stream [7, 8]] (Idle 0) = (st, take k (drop (unat (0 :: u64)) [7, 8]), rs)"
    "unat (0 :: u64) + k \<le> length [7, 8 :: u8]" "set rs \<subseteq> {Pending, Ready (Inr ())}" by blast
  then have "read_run 8 [waiting_stream [7, 8], waiting_stream [7, 8]] reader_new = (st, take k [7, 8], rs)" "k \<le> 2"
    by (simp_all only: reader_new_def unat_0 drop_0 add_0 list.size)
  with \<open>set rs \<subseteq> _\<close> show ?thesis by blast
qed

text \<open>
  Behind the end of a blob the store sends empty data with the offset of the end. A reader that has
  been moved there takes this for a failure and cannot be used any more.
\<close>

lemma seek_past_end_poisons:
  assumes "store_laws R B Io" "length d + 1024 < 2 ^ 64" "length d < unat q" "unat q + cap < 2 ^ 64" "0 < cap"
    and "export_ranges R B Io (rs_range R q (q + of_nat cap)) (Some (Complete d ob)) = Some items" "export q (q + of_nat cap) = map Ready items"
  shows "start_seek (SeekStart q) (Idle p) = (Seeking q, Inr ()) \<and> poll_complete (Seeking q) = (Idle q, Inr q)
    \<and> poll_read export cap (Idle q) = (Poisoned, [], Ready (Inl OffsetMismatch))"
proof -
  let ?e = "q + of_nat cap" and ?sz = "of_nat (length d) :: u64"
  have sz: "unat ?sz = length d" using assms(2) by (intro unat_of_nat_u64) simp
  have c: "unat (of_nat cap :: u64) = cap" using assms(4) by (intro unat_of_nat_u64) simp
  have e: "unat ?e = unat q + cap" "unat (?sz + 1024) = length d + 1024" using assms(2,4) c sz by (simp_all add: unat_add_u64)
  have "q < ?e" using e assms(5) by (simp add: word_less_nat_alt)
  then have it: "rs_iter R (rs_range R q ?e) = [Range q ?e]"
    using assms(1) by (simp add: store_laws_def chunk_laws_def range_set.iter_items range_set.boundaries_range)
  have m: "min ?sz q = ?sz" "min ?sz ?e = ?sz" "min (?sz + 1024) ?sz = ?sz"
    using assms(3) sz e by (simp_all add: min_def word_le_nat_alt)
  have "io_read Io d ?sz 0 = Inr []" using io_laws.io_read [of Io ?sz 0 d] assms(1) sz by (simp add: store_laws_def)
  then have "export_loop Io d [] ?sz ?sz = Some ([(?sz, [])], None)" using m(3) by (subst export_loop.simps) (simp add: Let_def)
  then have "items = [RangesData ?sz []]"
    using assms(1,6) it m by (simp add: export_ranges_def export_ranges_impl_def bf_complete_def store_laws_def chunk_laws_def
        range_set.is_subset_iff range_set.contains_all Let_def)
  moreover have "?sz \<noteq> q" using assms(3) sz by auto
  moreover have "checked_add_u64 q (of_nat cap) = Some ?e" using assms(4) c by (simp add: checked_add_u64_def)
  ultimately show ?thesis using assms(7) by (simp add: start_seek_def poll_complete_def poll_read_def)
qed

end
