(* ===== verification/Spec2Isabelle.thy ===== *)
theory Spec2Isabelle
  imports Range_Spec Protocol Bitfield Collection Meta_Gc Entity_Spec Fs_Correct Push Downloader Blob_Reader
begin

text \<open>
  A verification of \<open>iroh-blobs\<close>, a store and a transfer protocol for content-addressed blobs. A blob is
  named by the root of its BLAKE3 tree; it can be stored, verified and transferred in chunks of 1024
  bytes. A \<^emph>\<open>hash sequence\<close> is a blob that consists of hashes, its children. Paths below are under
  \<open>src/src/\<close>.

  \<^bold>\<open>The parts of the program and how they interact.\<close>

  A client and a provider exchange requests (\<open>protocol.rs\<close>): for the root of a hash and its children, a
  request has a set of chunks for every index (\<open>protocol/range_spec.rs\<close>). The provider (\<open>provider.rs\<close>,
  \<open>provider/events.rs\<close>) answers from its store, the client follows the answer with a state machine
  (\<open>get.rs\<close>) and imports it into its own store (\<open>api/remote.rs\<close>), after it has found out what is missing
  there. There are two stores: \<open>store/mem.rs\<close>, an actor with a map of entries in memory, and
  \<open>store/fs.rs\<close>, in which every blob has an entity with files (\<open>store/fs/bao_file.rs\<close>), run by the entity
  manager (\<open>store/fs/util/entity_manager.rs\<close>), and a row in a database (\<open>store/fs/meta.rs\<close>). Both keep
  tags and temporary tags (\<open>util/temp_tag.rs\<close>) that protect content from garbage collection
  (\<open>store/fs/gc.rs\<close>). Collections (\<open>format/collection.rs\<close>) are hash sequences with names.

  \<^bold>\<open>The theories.\<close> Each has the records, datatypes and operations of its component in the order of
  the source and with its names, and after them the lemmas; the properties are at the end of the
  theories, each with a number.

  \<^descr> \<open>Prelude\<close>, \<open>Range_Set\<close>, \<open>BTree_Map\<close>, \<open>Redb\<close>: machine integers, results (\<open>rbind\<close> is the question mark
    operator), sets of ranges of \<open>range-collections\<close> with the locale \<open>range_set\<close> of their laws, ordered
    maps, tables and transactions.
  \<^descr> \<open>Chunks\<close>, \<open>Range_Spec\<close>, \<open>Protocol\<close>, \<open>Hash\<close>, \<open>Bitfield\<close>: \<open>ChunkRangesSeq\<close>, its iterators and its wire
    form; requests, their reading and their builders; hashes and formats; what is known of a blob.
    Shown are round trips, that the binary search agrees with the iteration, and the contract of
    \<open>Combine\<close>.
  \<^descr> \<open>Temp_Tag\<close>, \<open>Tags\<close>, \<open>Mem_Storage\<close>, \<open>Mem_Store\<close>, \<open>Mem_Integrity\<close>: the memory store with all its commands
    and tasks, which run in any order. Shown are that complete entries have the data of their hash in
    every reachable state, what exports of complete and partial entries send, that imports in any
    order complete an entry, and the contract of tags.
  \<^descr> \<open>Hash_Seq\<close>, \<open>Blobs_Client\<close>, \<open>Blob_Reader\<close>, \<open>Collection\<close>, \<open>Gc\<close>: hash sequences and the streams they are read
    from; adding and reading blobs; the state machine of a reader; collections; garbage collection
    through the locale \<open>gc_store\<close>.
  \<^descr> \<open>Entry_State\<close>, \<open>Delete_Set\<close>, \<open>Meta\<close>, \<open>Meta_Actor\<close>, \<open>Meta_Spec\<close>, \<open>Meta_Gc\<close>: the metadata database, its commands
    and the loop that batches them into transactions. Shown are that the tables implement a map of
    entries, that batching cannot be observed unless an error stops the actor, what is lost then, and
    that the tables stay consistent under all failures of the storage.
  \<^descr> \<open>Entity_Manager\<close>, \<open>Entity_Inv\<close>, \<open>Entity_Spec\<close>: the actors of the entity manager as a step relation
    with bounded channels. User code may panic in an entity actor; a closure that the main actor
    awaits because the entity is busy or dead can only return. Shown are its safety, that every entity
    is a queue, and that the oldest message is served while the manager serves commands.
  \<^descr> \<open>Files\<close>, \<open>Bao_File\<close>, \<open>Fs_Store\<close>: a file system in which every call may fail and writes may be short; the
    storage of one blob in memory and in files; the operations of \<open>HashContext\<close> in \<open>store/fs.rs\<close>.
    \<open>Bao_Agree\<close>, \<open>Bao_Inv\<close>, \<open>Bao_Load\<close> have their invariant, \<open>Fs_Spec\<close>, \<open>Fs_Db\<close> the contract of an operation,
    \<open>Fs_Export\<close>, \<open>Fs_Finish\<close>, \<open>Fs_Path\<close> the operations one by one, \<open>Fs_Ref\<close> an instance, \<open>Fs_Reach\<close> lives of a
    blob, \<open>Fs_Correct\<close> the properties. In a life a crash loses the handle and the transaction that is
    not committed, so that the database is as at some earlier moment of the run, while file names and
    contents stay; the metadata actor removes the files of a partial blob after its entry is complete;
    and any call may fail, but no positioned write is short, since the source does not handle it.
  \<^descr> \<open>Local_Info\<close>, \<open>Get_Fsm\<close>, \<open>Events\<close>, \<open>Store_Api\<close>, \<open>Provider\<close>, \<open>Remote\<close>: the client and the provider over a store
    that is given by four operations. \<open>Store_Api\<close> has these for the memory store, run on its actor. An
    import fails by a closed channel or by the store's answer, which the client does not look at.
  \<^descr> \<open>Mem_Import\<close>, \<open>Get_Transfer\<close>, \<open>Download\<close>, \<open>Downloader\<close>, \<open>Push\<close>: both ends together; \<open>Downloader\<close> has the
    operations of \<open>api/downloader.rs\<close>. Shown are that what is missing is computed exactly, that both
    ends of a get request agree, and that fetches, downloads from several providers and pushes
    between memory stores deliver.

  \<^bold>\<open>Interfaces.\<close> The laws that one part relies on are locales, interpreted on the definitions of the
  part that provides them: \<open>range_set\<close> and \<open>chunk_laws\<close> for sets of chunks, \<open>ordered_map\<close>, \<open>combine_trait\<close>
  (provided by bitfields), \<open>tag_counter\<close>, \<open>tag_store\<close> (provided by both stores), \<open>io_laws\<close>, \<open>store_laws\<close> and
  \<open>export_laws\<close> for \<open>bao-tree\<close>, \<open>blob_store\<close> and \<open>collection_store\<close> for clients, \<open>gc_store\<close> for garbage collection
  (provided by both stores), \<open>redb_table\<close>, \<open>reliable_table\<close>, \<open>meta_tables\<close> and \<open>reliable_meta\<close> for the database,
  \<open>fs_laws\<close>, \<open>blob\<close>, \<open>entry_db\<close> and \<open>file_store\<close> for the file store, \<open>download_store\<close> for downloads (provided
  by the memory store, by a \<open>sublocale\<close> of \<open>download_laws\<close>), \<open>bao_codec\<close>, \<open>codec_laws\<close> and \<open>hex_laws\<close> for
  encoding and decoding. Those that state laws of
  code outside the repository are interpreted on executable instances, with which the witnesses are
  evaluated.

  \<^bold>\<open>Parameters.\<close> Code outside the repository is an argument of the definitions that use it:
  \<open>range-collections\<close>, \<open>bao-tree\<close> (outboards, traversal, decoding), \<open>blake3\<close>, \<open>postcard\<close>, \<open>redb\<close> with its
  failures, the file system with a list of faults, \<open>reflink\<close>, the streams of a connection, the clock,
  and the handler of a provider's events. Where tasks run concurrently, their order is arbitrary:
  events of the memory store, steps of the entity manager, timers of the metadata actor.

  \<^bold>\<open>Bounds and fuel.\<close> Offsets and sizes are 64-bit words and wrap around as in the source; blobs are
  shorter than \<open>2 ^ 64\<close> bytes, and by 1024 bytes more where a loop adds a chunk to an offset. The infinite
  iterators end at the last 64-bit index, as in the source, so that indexes are below \<open>2 ^ 64 - 1\<close>.
  Loops that may not end are partial functions, with theorems that they return. The actor of the
  metadata has for every batch a number of messages after which its timer expires; the theorems hold for all such
  numbers. Draining a hash sequence and running one task of the memory store have a number of steps
  that is shown to suffice.

  \<^bold>\<open>Not modelled.\<close> Logging, metrics, assertions of debug builds and elapsed times; opening stores and the
  dispatch of the file store's commands to entities, the reading of import sources
  (\<open>store/fs/import.rs\<close>), which consist of channels and file I/O around the operations that are
  modelled; the concurrent execution of the parts of a split download and the connection pool
  (\<open>util/connection_pool.rs\<close>), which schedule by timeouts; the read-only memory
  store, tickets, remote procedure calls and the handler of the protocol, which
  forward to the parts that are modelled or to \<open>iroh\<close>. If both the stream and the import of a blob
  fail, the source returns the error that comes first, the model that of the stream. An export of the
  memory store reads its entry in one step.
\<close>

end
